(* ===== verification/Raph_Prelude.thy ===== *)
theory Raph_Prelude
  imports Main "HOL-Library.Word"
begin

text \<open>
  Shared vocabulary of the development: the machine types, the ways the kernel
  can stop (a failed \<open>kassert\<close>, a \<open>kernel_panic\<close>, a null dereference, a read
  outside an array), results that may stop, the two alignment helpers of
  \<open>raph.h\<close>, and the generic facts on words, lists and results that the
  component theories use.
\<close>

unbundle bit_operations_syntax

section \<open>Machine types\<close>

type_synonym u8 = "8 word"
type_synonym u16 = "16 word"
type_synonym u32 = "32 word"
type_synonym u64 = "64 word"

section \<open>Ways to stop\<close>

text \<open>
  \<open>Kassert\<close> is a failed assertion and \<open>Kernel_Panic\<close> a call of \<open>kernel_panic\<close>:
  both halt the processor and never return. The other values are accesses
  that have no defined result in C++.
\<close>

datatype kfault = Kassert | Kernel_Panic | Null_Deref | Out_Of_Range | Use_After_Free | Deadlock

type_synonym 'a kres = "kfault + 'a"

definition kbind :: "'a kres \<Rightarrow> ('a \<Rightarrow> 'b kres) \<Rightarrow> 'b kres" where
  "kbind r f = (case r of Inl e \<Rightarrow> Inl e | Inr x \<Rightarrow> f x)"

definition kassert :: "bool \<Rightarrow> unit kres" where
  "kassert b = (if b then Inr () else Inl Kassert)"

definition kmap :: "('a \<Rightarrow> 'b) \<Rightarrow> 'a kres \<Rightarrow> 'b kres" where
  "kmap f r = (case r of Inl e \<Rightarrow> Inl e | Inr x \<Rightarrow> Inr (f x))"

definition deref :: "'a option \<Rightarrow> 'a kres" where
  "deref p = (case p of None \<Rightarrow> Inl Null_Deref | Some x \<Rightarrow> Inr x)"

definition array_get :: "'a list \<Rightarrow> nat \<Rightarrow> 'a kres" where
  "array_get xs i = (if i < length xs then Inr (xs ! i) else Inl Out_Of_Range)"

named_theorems kres_simps \<open>evaluation of results that may stop\<close>

lemma kbind_Inr [simp]: "kbind (Inr x) f = f x"
  by (simp add: kbind_def)

lemma kbind_Inl [simp]: "kbind (Inl e) f = Inl e"
  by (simp add: kbind_def)

lemma kbind_eq_Inr: "kbind r f = Inr y \<longleftrightarrow> (\<exists>x. r = Inr x \<and> f x = Inr y)"
  by (cases r) auto

lemma kbind_assoc: "kbind (kbind r f) g = kbind r (\<lambda>x. kbind (f x) g)"
  by (cases r) auto

lemma kmap_Inr [simp]: "kmap f (Inr x) = Inr (f x)"
  by (simp add: kmap_def)

lemma kmap_Inl [simp]: "kmap f (Inl e) = Inl e"
  by (simp add: kmap_def)

lemma kmap_eq_Inr: "kmap f r = Inr y \<longleftrightarrow> (\<exists>x. r = Inr x \<and> y = f x)"
  by (cases r) auto

lemma kassert_simps [simp]: "kassert True = Inr ()" "kassert False = Inl Kassert"
  by (simp_all add: kassert_def)

lemma kassert_eq_Inr [simp]: "kassert b = Inr u \<longleftrightarrow> b"
  by (simp add: kassert_def)

lemma deref_simps [simp]: "deref (Some x) = Inr x" "deref None = Inl Null_Deref"
  by (simp_all add: deref_def)

lemma deref_eq_Inr: "deref p = Inr x \<longleftrightarrow> p = Some x"
  by (cases p) auto

lemma array_get_ok: "i < length xs \<Longrightarrow> array_get xs i = Inr (xs ! i)"
  by (simp add: array_get_def)

lemma array_get_eq_Inr: "array_get xs i = Inr x \<longleftrightarrow> i < length xs \<and> x = xs ! i"
  by (auto simp: array_get_def)

lemmas kres_inv = kbind_eq_Inr kmap_eq_Inr deref_eq_Inr array_get_eq_Inr

declare kbind_eq_Inr [kres_simps] kmap_eq_Inr [kres_simps] deref_eq_Inr [kres_simps]
  array_get_eq_Inr [kres_simps]

section \<open>Array<T>\<close>

text \<open>\<open>array.h\<close>: an index is checked against the length. \<open>operator[]\<close> gives a reference: it is read or assigned.\<close>

definition Array_new :: "'a \<Rightarrow> nat \<Rightarrow> 'a list" where
  "Array_new x len = replicate len x"

definition Array_get :: "'a list \<Rightarrow> int \<Rightarrow> 'a kres" where
  "Array_get a n = kbind (kassert (0 \<le> n \<and> n < int (length a))) (\<lambda>_. Inr (a ! nat n))"

definition Array_set :: "'a list \<Rightarrow> int \<Rightarrow> 'a \<Rightarrow> 'a list kres" where
  "Array_set a n x = kbind (kassert (0 \<le> n \<and> n < int (length a))) (\<lambda>_. Inr (a[nat n := x]))"

lemma Array_get_nat: "i < length a \<Longrightarrow> Array_get a (int i) = Inr (a ! i)"
  by (simp add: Array_get_def)

lemma Array_set_nat: "i < length a \<Longrightarrow> Array_set a (int i) x = Inr (a[i := x])"
  by (simp add: Array_set_def)

section \<open>Alignment\<close>

text \<open>\<open>align\<close> and \<open>alignUp\<close> of \<open>raph.h\<close> on 64-bit values.\<close>

definition align :: "u64 \<Rightarrow> u64 \<Rightarrow> u64" where
  "align val base = (val div base) * base"

definition alignUp :: "u64 \<Rightarrow> u64 \<Rightarrow> u64" where
  "alignUp val base = align (val + base - 1) base"

lemma unat_align: "unat (align v b) = unat v div unat b * unat b"
proof -
  have "unat (v div b) * unat b < 2 ^ LENGTH(64)"
    using le_less_trans [OF div_times_less_eq_dividend unsigned_less [of v]]
    by (simp only: unat_div)
  then show ?thesis
    by (simp add: align_def unat_mult_lem [THEN iffD1] flip: unat_div)
qed

lemma align_le: "unat (align v b) \<le> unat v"
  by (simp add: unat_align)

lemma align_dvd: "unat b dvd unat (align v b)"
  by (simp add: unat_align)

lemma unat_plus_pred:
  assumes "0 < unat (b :: u64)" and "unat v + unat b \<le> 2 ^ 64"
  shows "unat (v + b - 1) = unat v + unat b - 1"
proof -
  have "v + b - 1 = of_nat (unat v + unat b - 1)"
    using assms by (simp add: of_nat_diff)
  moreover have "unat v + unat b - 1 < 2 ^ LENGTH(64)"
    using assms by simp
  ultimately show ?thesis
    by (simp only: unat_of_nat mod_less)
qed

lemma unat_alignUp:
  assumes "0 < unat b" and "unat v + unat b \<le> 2 ^ 64"
  shows "unat (alignUp v b) = (unat v + unat b - 1) div unat b * unat b"
  using unat_plus_pred [OF assms] by (simp add: alignUp_def unat_align)

lemma alignUp_dvd: "unat b dvd unat (alignUp v b)"
  by (simp add: alignUp_def align_dvd)

lemma alignUp_ge:
  assumes "0 < unat b" and "unat v + unat b \<le> 2 ^ 64"
  shows "unat v \<le> unat (alignUp v b)" and "unat (alignUp v b) < unat v + unat b"
proof -
  have eq: "unat (alignUp v b) = (unat v + unat b - 1) div unat b * unat b"
    by (rule unat_alignUp [OF assms])
  have "(unat v + unat b - 1) div unat b * unat b + (unat v + unat b - 1) mod unat b
      = unat v + unat b - 1"
    by simp
  moreover have "(unat v + unat b - 1) mod unat b < unat b"
    using assms by simp
  ultimately show "unat v \<le> unat (alignUp v b)" "unat (alignUp v b) < unat v + unat b"
    using assms unfolding eq by linarith+
qed

lemma alignUp_one [simp]: "alignUp v 1 = v"
  by (simp add: alignUp_def align_def)

section \<open>Words\<close>

lemma unat_minus_le: "b \<le> a \<Longrightarrow> unat (a - b) = unat a - unat b"
  for a b :: "'a::len word"
  by (simp add: unat_sub)

lemma unat_plus_no_wrap:
  "unat a + unat b < 2 ^ LENGTH('a) \<Longrightarrow> unat (a + b) = unat a + unat b"
  for a b :: "'a::len word"
  by (simp add: unat_word_ariths)

lemma word_le_unat: "a \<le> b \<longleftrightarrow> unat a \<le> unat b" for a b :: "'a::len word"
  by (simp add: word_le_nat_alt)

lemma word_less_unat: "a < b \<longleftrightarrow> unat a < unat b" for a b :: "'a::len word"
  by (simp add: word_less_nat_alt)

lemma word_eq_unat: "a = b \<longleftrightarrow> unat a = unat b" for a b :: "'a::len word"
  by (simp add: word_unat_eq_iff)

lemma unat_ucast_u64 [simp]: "unat (ucast x :: u64) = unat x" for x :: u32
proof -
  have "unat x < 2 ^ 64" using unsigned_less [of x, where ?'a = nat] by simp
  then show ?thesis by (simp add: unsigned_ucast_eq take_bit_nat_eq_self)
qed

lemma scast_small:
  fixes i :: u32
  assumes "unat i < 2 ^ 31"
  shows "scast i = (ucast i :: u64)"
proof -
  have "int (unat i) < int (2 ^ 31)" using assms by (simp only: of_nat_less_iff)
  then have u: "uint i < 2 ^ 31" unfolding uint_nat by (simp only: of_nat_power of_nat_numeral)
  have "- (2 ^ 31) \<le> uint i" by (rule order_trans [OF _ uint_ge_0]) simp
  then have "signed_take_bit 31 (uint i) = uint i" using u by (intro signed_take_bit_int_eq_self)
  then have "sint i = uint i" by (simp add: sint_uint)
  then have "word_of_int (sint i) = (word_of_int (uint i) :: u64)" by (rule arg_cong)
  then show ?thesis by simp
qed

section \<open>Lists\<close>

lemma nth_list_update_case:
  "i < length xs \<Longrightarrow> xs[i := x] ! j = (if i = j then x else xs ! j)"
  by simp

lemma mod_wrap: "i < 2 * n \<Longrightarrow> i mod n = (if i < n then i else i - n)" for i n :: nat
  by (simp add: le_mod_geq)

lemma map_upt_Suc_conv: "map f [0..<Suc n] = f 0 # map (\<lambda>k. f (Suc k)) [0..<n]"
proof -
  have "[0..<Suc n] = 0 # map Suc [0..<n]"
    by (simp add: map_Suc_upt upt_conv_Cons)
  then show ?thesis
    by (simp add: comp_def)
qed

end
