(* ===== verification/Fifo.thy ===== *)
theory Fifo
  imports Raph_Prelude
begin

text \<open>
  The contract of a first-in first-out container, shared by the ring buffer of
  \<open>buf.h\<close> and the linked queues of \<open>_queue.h\<close>. A concrete queue is related to the
  list of the elements it holds; the laws say how \<open>Push\<close> and \<open>Pop\<close> move that
  list. The clients' lemmas are about arbitrary sequences of operations.
\<close>

datatype ('c, 'a) qop = QPush 'c 'a | QPop

text \<open>What a caller gets back: whether \<open>Push\<close> has accepted the element, and what \<open>Pop\<close> has found.\<close>

datatype 'a qans = APush bool | APop "'a option"

fun q_run :: "('q \<Rightarrow> 'c \<Rightarrow> 'a \<Rightarrow> (bool \<times> 'q) kres) \<Rightarrow> ('q \<Rightarrow> ('a \<times> 'q) option kres) \<Rightarrow>
    'q \<Rightarrow> ('c, 'a) qop list \<Rightarrow> ('a qans list \<times> 'q) kres" where
  "q_run push pop q [] = Inr ([], q)"
| "q_run push pop q (QPush c x # ops) =
     kbind (push q c x) (\<lambda>(b, q'). kmap (\<lambda>o'. (APush b # fst o', snd o')) (q_run push pop q' ops))"
| "q_run push pop q (QPop # ops) =
     kbind (pop q) (\<lambda>r. case r of
         None \<Rightarrow> kmap (\<lambda>o'. (APop None # fst o', snd o')) (q_run push pop q ops)
       | Some (x, q') \<Rightarrow> kmap (\<lambda>o'. (APop (Some x) # fst o', snd o')) (q_run push pop q' ops))"

fun l_run :: "nat option \<Rightarrow> 'a list \<Rightarrow> ('c, 'a) qop list \<Rightarrow> 'a qans list \<times> 'a list" where
  "l_run cap xs [] = ([], xs)"
| "l_run cap xs (QPush c x # ops) =
     (if (case cap of None \<Rightarrow> True | Some n \<Rightarrow> length xs < n)
      then let r = l_run cap (xs @ [x]) ops in (APush True # fst r, snd r)
      else let r = l_run cap xs ops in (APush False # fst r, snd r))"
| "l_run cap [] (QPop # ops) = (let r = l_run cap [] ops in (APop None # fst r, snd r))"
| "l_run cap (x # xs) (QPop # ops) = (let r = l_run cap xs ops in (APop (Some x) # fst r, snd r))"

fun run_fits :: "('q \<Rightarrow> 'c \<Rightarrow> 'a \<Rightarrow> bool) \<Rightarrow> ('q \<Rightarrow> 'c \<Rightarrow> 'a \<Rightarrow> (bool \<times> 'q) kres) \<Rightarrow>
    ('q \<Rightarrow> ('a \<times> 'q) option kres) \<Rightarrow> 'q \<Rightarrow> ('c, 'a) qop list \<Rightarrow> bool" where
  "run_fits fits push pop q [] = True"
| "run_fits fits push pop q (QPush c x # ops) =
     (fits q c x \<and> (case push q c x of Inl _ \<Rightarrow> True | Inr r \<Rightarrow> run_fits fits push pop (snd r) ops))"
| "run_fits fits push pop q (QPop # ops) =
     (case pop q of Inl _ \<Rightarrow> True | Inr None \<Rightarrow> run_fits fits push pop q ops
      | Inr (Some r) \<Rightarrow> run_fits fits push pop (snd r) ops)"

locale fifo =
  fixes repr :: "'q \<Rightarrow> 'a list \<Rightarrow> bool"
    and fits :: "'q \<Rightarrow> 'c \<Rightarrow> 'a \<Rightarrow> bool"
    and push :: "'q \<Rightarrow> 'c \<Rightarrow> 'a \<Rightarrow> (bool \<times> 'q) kres"
    and pop :: "'q \<Rightarrow> ('a \<times> 'q) option kres"
    and is_empty :: "'q \<Rightarrow> bool"
  assumes push_fits: "repr q xs \<Longrightarrow> fits q c x \<Longrightarrow>
      \<exists>q'. push q c x = Inr (True, q') \<and> repr q' (xs @ [x])"
    and pop_Nil: "repr q [] \<Longrightarrow> pop q = Inr None"
    and pop_Cons: "repr q (x # xs) \<Longrightarrow> \<exists>q'. pop q = Inr (Some (x, q')) \<and> repr q' xs"
    and is_empty_iff: "repr q xs \<Longrightarrow> is_empty q \<longleftrightarrow> xs = []"
begin

lemma pop_obtain:
  assumes "repr q xs"
  obtains (empty) "xs = []" "pop q = Inr None"
    | (cons) x ys q' where "xs = x # ys" "pop q = Inr (Some (x, q'))" "repr q' ys"
  using assms pop_Nil pop_Cons by (cases xs) blast+

lemma pop_None_iff:
  assumes "repr q xs"
  shows "pop q = Inr None \<longleftrightarrow> is_empty q"
  using assms by (cases rule: pop_obtain) (simp_all add: is_empty_iff [OF assms])

lemma run_refines:
  "repr q xs \<Longrightarrow> run_fits fits push pop q ops \<Longrightarrow>
   \<exists>q'. q_run push pop q ops = Inr (fst (l_run None xs ops), q') \<and>
        repr q' (snd (l_run None xs ops))"
proof (induction ops arbitrary: q xs)
  case Nil
  then show ?case by simp
next
  case (Cons op ops)
  show ?case
  proof (cases op)
    case (QPush c x)
    then have "fits q c x"
      using Cons.prems by simp
    then obtain q' where q': "push q c x = Inr (True, q')" "repr q' (xs @ [x])"
      using push_fits [OF Cons.prems(1)] by blast
    then show ?thesis
      using Cons.IH [OF q'(2)] Cons.prems(2) QPush by (auto simp: Let_def)
  next
    case QPop
    from Cons.prems(1) show ?thesis
    proof (cases rule: pop_obtain)
      case empty
      then show ?thesis
        using Cons.IH [OF Cons.prems(1)] Cons.prems(2) QPop by (auto simp: Let_def)
    next
      case (cons x ys q')
      then show ?thesis
        using Cons.IH [OF cons(3)] Cons.prems(2) QPop by (auto simp: Let_def)
    qed
  qed
qed

end

text \<open>A container with a fixed capacity: a full one refuses the element and is unchanged.\<close>

locale bounded_fifo = fifo repr fits push pop is_empty
  for repr :: "'q \<Rightarrow> 'a list \<Rightarrow> bool"
    and fits :: "'q \<Rightarrow> 'c \<Rightarrow> 'a \<Rightarrow> bool"
    and push :: "'q \<Rightarrow> 'c \<Rightarrow> 'a \<Rightarrow> (bool \<times> 'q) kres"
    and pop :: "'q \<Rightarrow> ('a \<times> 'q) option kres"
    and is_empty :: "'q \<Rightarrow> bool" +
  fixes cap :: nat
    and is_full :: "'q \<Rightarrow> bool"
  assumes fits_iff: "repr q xs \<Longrightarrow> fits q c x \<longleftrightarrow> length xs < cap"
    and within_cap: "repr q xs \<Longrightarrow> length xs \<le> cap"
    and push_full: "repr q xs \<Longrightarrow> \<not> fits q c x \<Longrightarrow> push q c x = Inr (False, q)"
    and is_full_iff: "repr q xs \<Longrightarrow> is_full q \<longleftrightarrow> length xs = cap"
begin

lemma bounded_run_refines:
  "repr q xs \<Longrightarrow>
   \<exists>q'. q_run push pop q ops = Inr (fst (l_run (Some cap) xs ops), q') \<and>
        repr q' (snd (l_run (Some cap) xs ops))"
proof (induction ops arbitrary: q xs)
  case Nil
  then show ?case by simp
next
  case (Cons op ops)
  show ?case
  proof (cases op)
    case (QPush c x)
    show ?thesis
    proof (cases "fits q c x")
      case True
      then obtain q' where q': "push q c x = Inr (True, q')" "repr q' (xs @ [x])"
        using push_fits [OF Cons.prems] by blast
      then show ?thesis
        using Cons.IH [OF q'(2)] QPush True fits_iff [OF Cons.prems] by (auto simp: Let_def)
    next
      case False
      then show ?thesis
        using Cons.IH [OF Cons.prems] push_full [OF Cons.prems] QPush fits_iff [OF Cons.prems]
        by (auto simp: Let_def)
    qed
  next
    case QPop
    from Cons.prems show ?thesis
    proof (cases rule: pop_obtain)
      case empty
      then show ?thesis
        using Cons.IH [OF Cons.prems] QPop by (auto simp: Let_def)
    next
      case (cons x ys q')
      then show ?thesis
        using Cons.IH [OF cons(3)] QPop by (auto simp: Let_def)
    qed
  qed
qed

lemma accepts_iff_not_full:
  assumes "repr q xs"
  shows "(\<exists>q'. push q c x = Inr (True, q')) \<longleftrightarrow> \<not> is_full q"
proof (cases "fits q c x")
  case True
  then show ?thesis
    using push_fits [OF assms True] fits_iff [OF assms] is_full_iff [OF assms] by auto
next
  case False
  then show ?thesis
    using push_full [OF assms False] fits_iff [OF assms] is_full_iff [OF assms]
      within_cap [OF assms] by auto
qed

end

end
