(* ===== verification/Ring_Buffer.thy ===== *)
theory Ring_Buffer
  imports Fifo
begin

text \<open>
  \<open>RingBuffer<T, S>\<close> of \<open>buf.h\<close>: an array of \<open>S + 1\<close> slots with a head and a
  tail index. The buffer holds at most \<open>S\<close> elements and refines the bounded
  first-in first-out contract. The lock around every member makes each member
  one atomic operation.
\<close>

record 'a RingBuffer =
  rb_buffer :: "'a list"
  rb_head :: nat
  rb_tail :: nat

text \<open>The constructor sets the indices only; \<open>mem\<close> is what the slots held before.\<close>

definition RingBuffer_new :: "'a list \<Rightarrow> 'a RingBuffer" where
  "RingBuffer_new mem = \<lparr> rb_buffer = mem, rb_head = 0, rb_tail = 0 \<rparr>"

definition RingBuffer_Push :: "nat \<Rightarrow> 'a RingBuffer \<Rightarrow> 'a \<Rightarrow> bool \<times> 'a RingBuffer" where
  "RingBuffer_Push S rb data =
     (let ntail = (rb_tail rb + 1) mod (S + 1) in
      if ntail \<noteq> rb_head rb
      then (True, rb \<lparr> rb_buffer := (rb_buffer rb)[rb_tail rb := data], rb_tail := ntail \<rparr>)
      else (False, rb))"

definition RingBuffer_Pop :: "nat \<Rightarrow> 'a RingBuffer \<Rightarrow> ('a \<times> 'a RingBuffer) option" where
  "RingBuffer_Pop S rb =
     (if rb_head rb \<noteq> rb_tail rb
      then Some (rb_buffer rb ! rb_head rb, rb \<lparr> rb_head := (rb_head rb + 1) mod (S + 1) \<rparr>)
      else None)"

definition RingBuffer_IsFull :: "nat \<Rightarrow> 'a RingBuffer \<Rightarrow> bool" where
  "RingBuffer_IsFull S rb = (let ntail = (rb_tail rb + 1) mod (S + 1) in ntail = rb_head rb)"

definition RingBuffer_IsEmpty :: "'a RingBuffer \<Rightarrow> bool" where
  "RingBuffer_IsEmpty rb = (rb_tail rb = rb_head rb)"

definition rb_count :: "nat \<Rightarrow> 'a RingBuffer \<Rightarrow> nat" where
  "rb_count S rb = (if rb_head rb \<le> rb_tail rb then rb_tail rb - rb_head rb
                    else rb_tail rb + (S + 1) - rb_head rb)"

definition rb_contents :: "nat \<Rightarrow> 'a RingBuffer \<Rightarrow> 'a list" where
  "rb_contents S rb =
     map (\<lambda>k. rb_buffer rb ! ((rb_head rb + k) mod (S + 1))) [0..<rb_count S rb]"

definition rb_inv :: "nat \<Rightarrow> 'a RingBuffer \<Rightarrow> bool" where
  "rb_inv S rb \<longleftrightarrow> length (rb_buffer rb) = S + 1 \<and> rb_head rb \<le> S \<and> rb_tail rb \<le> S"

definition rb_repr :: "nat \<Rightarrow> 'a RingBuffer \<Rightarrow> 'a list \<Rightarrow> bool" where
  "rb_repr S rb xs \<longleftrightarrow> rb_inv S rb \<and> rb_contents S rb = xs"

section \<open>Invariant and capacity\<close>

lemma rb_new_repr: "length mem = S + 1 \<Longrightarrow> rb_repr S (RingBuffer_new mem) []"
  by (simp add: rb_repr_def rb_inv_def rb_contents_def rb_count_def RingBuffer_new_def)

lemma rb_contents_length [simp]: "length (rb_contents S rb) = rb_count S rb"
  by (simp add: rb_contents_def)

lemma rb_count_le: "rb_inv S rb \<Longrightarrow> rb_count S rb \<le> S"
  by (auto simp: rb_inv_def rb_count_def)

lemma mod_Suc_wrap: "i \<le> S \<Longrightarrow> Suc i mod Suc S = (if i = S then 0 else Suc i)"
  by auto

lemma rb_full_iff: "rb_inv S rb \<Longrightarrow> RingBuffer_IsFull S rb \<longleftrightarrow> rb_count S rb = S"
  by (auto simp: RingBuffer_IsFull_def rb_inv_def rb_count_def Let_def mod_Suc_wrap split: if_splits)

lemma rb_empty_iff: "rb_inv S rb \<Longrightarrow> RingBuffer_IsEmpty rb \<longleftrightarrow> rb_count S rb = 0"
  by (auto simp: RingBuffer_IsEmpty_def rb_inv_def rb_count_def)

lemma rb_tail_eq: "rb_inv S rb \<Longrightarrow> rb_tail rb = (rb_head rb + rb_count S rb) mod (S + 1)"
  by (auto simp: rb_inv_def rb_count_def mod_wrap)

lemma rb_slot_distinct:
  assumes "rb_inv S rb" and "k < rb_count S rb"
  shows "(rb_head rb + k) mod (S + 1) \<noteq> rb_tail rb"
proof -
  have "(rb_head rb + k) mod (S + 1) = (if rb_head rb + k \<le> S then rb_head rb + k
      else rb_head rb + k - (S + 1))"
    using assms rb_count_le [OF assms(1)] by (auto simp: rb_inv_def mod_wrap)
  then show ?thesis
    using assms by (simp add: rb_inv_def rb_count_def split: if_splits)
qed

lemma rb_push_inv: "rb_inv S rb \<Longrightarrow> rb_inv S (snd (RingBuffer_Push S rb x))"
  by (auto simp: RingBuffer_Push_def rb_inv_def Let_def mod_Suc_wrap)

lemma rb_pop_inv: "rb_inv S rb \<Longrightarrow> RingBuffer_Pop S rb = Some (x, rb') \<Longrightarrow> rb_inv S rb'"
  by (auto simp: RingBuffer_Pop_def rb_inv_def mod_Suc_wrap split: if_splits)

section \<open>Functional behaviour\<close>

lemma rb_push_count:
  assumes "rb_inv S rb" and "rb_count S rb < S"
  shows "RingBuffer_Push S rb x = (True, rb \<lparr> rb_buffer := (rb_buffer rb)[rb_tail rb := x],
           rb_tail := (rb_tail rb + 1) mod (S + 1) \<rparr>)"
    and "rb_count S (snd (RingBuffer_Push S rb x)) = rb_count S rb + 1"
  using assms
  by (auto simp: RingBuffer_Push_def rb_inv_def rb_count_def Let_def mod_Suc_wrap split: if_splits)

lemma rb_push_contents:
  assumes inv: "rb_inv S rb" and room: "rb_count S rb < S"
  shows "rb_contents S (snd (RingBuffer_Push S rb x)) = rb_contents S rb @ [x]"
proof -
  note push = rb_push_count [OF inv room, of x]
  have len: "rb_tail rb < length (rb_buffer rb)"
    using inv by (simp add: rb_inv_def)
  have "rb_buffer (snd (RingBuffer_Push S rb x)) ! ((rb_head rb + k) mod (S + 1))
      = (rb_contents S rb @ [x]) ! k" if "k < rb_count S rb + 1" for k
  proof (cases "k = rb_count S rb")
    case True
    then show ?thesis
      using push(1) len rb_tail_eq [OF inv] by (simp add: nth_append)
  next
    case False
    then have "k < rb_count S rb"
      using that by simp
    then show ?thesis
      using push(1) rb_slot_distinct [OF inv, of k] len by (simp add: nth_append rb_contents_def)
  qed
  moreover have "rb_head (snd (RingBuffer_Push S rb x)) = rb_head rb"
    by (simp add: push(1))
  ultimately show ?thesis
    using push(2) by (intro nth_equalityI)
      (simp_all add: rb_contents_def [of S "snd (RingBuffer_Push S rb x)"] del: upt_Suc)
qed

lemma rb_pop_contents:
  assumes inv: "rb_inv S rb" and pop: "RingBuffer_Pop S rb = Some (x, rb')"
  shows "rb_contents S rb = x # rb_contents S rb'"
proof -
  have ne: "rb_head rb \<noteq> rb_tail rb" and x: "x = rb_buffer rb ! rb_head rb"
    and rb': "rb' = rb \<lparr> rb_head := (rb_head rb + 1) mod (S + 1) \<rparr>"
    using pop by (auto simp: RingBuffer_Pop_def split: if_splits)
  have cnt: "rb_count S rb = Suc (rb_count S rb')"
    using inv ne unfolding rb'
    by (auto simp: rb_inv_def rb_count_def mod_Suc_wrap split: if_splits)
  have h: "rb_head rb mod Suc S = rb_head rb"
    using inv by (simp add: rb_inv_def)
  have "(rb_head rb + Suc k) mod (S + 1) = (rb_head rb' + k) mod (S + 1)" for k
    unfolding rb' by (simp add: mod_simps)
  then show ?thesis
    unfolding rb_contents_def cnt map_upt_Suc_conv using h x rb' by simp
qed

section \<open>The ring buffer is a bounded queue\<close>

interpretation ring: bounded_fifo "rb_repr S" "\<lambda>rb (_ :: unit) _. \<not> RingBuffer_IsFull S rb"
    "\<lambda>rb _ x. Inr (RingBuffer_Push S rb x)" "\<lambda>rb. Inr (RingBuffer_Pop S rb)"
    RingBuffer_IsEmpty S "RingBuffer_IsFull S"
  for S
proof (unfold_locales, goal_cases)
  case (1 q xs c x)
  then have inv: "rb_inv S q" and room: "rb_count S q < S"
    using rb_full_iff rb_count_le by (auto simp: rb_repr_def nat_less_le)
  then show ?case
    using 1 rb_push_count(1) [OF inv room, of x] rb_push_contents [OF inv room, of x]
      rb_push_inv [OF inv, of x]
    by (simp add: rb_repr_def)
next
  case (2 q)
  then have "rb_count S q = 0"
    using rb_contents_length [of S q] by (simp add: rb_repr_def)
  then show ?case
    using 2 rb_empty_iff [of S q] by (simp add: rb_repr_def RingBuffer_Pop_def RingBuffer_IsEmpty_def)
next
  case (3 q x xs)
  then have "rb_inv S q" "rb_count S q \<noteq> 0"
    using rb_contents_length [of S q] by (auto simp: rb_repr_def)
  then obtain y q' where "RingBuffer_Pop S q = Some (y, q')"
    using rb_empty_iff [of S q] by (auto simp: RingBuffer_Pop_def RingBuffer_IsEmpty_def)
  then show ?case
    using 3 rb_pop_contents rb_pop_inv by (fastforce simp: rb_repr_def)
next
  case (4 q xs)
  then show ?case
    using rb_empty_iff [of S q] by (auto simp: rb_repr_def simp flip: length_0_conv)
next
  case (5 q xs c x)
  then show ?case
    using rb_full_iff [of S q] rb_count_le [of S q] by (auto simp: rb_repr_def nat_less_le)
next
  case (6 q xs)
  then show ?case
    using rb_count_le by (auto simp: rb_repr_def)
next
  case (7 q xs c x)
  then show ?case
    by (simp add: RingBuffer_Push_def RingBuffer_IsFull_def Let_def)
next
  case (8 q xs)
  then show ?case
    using rb_full_iff [of S q] by (auto simp: rb_repr_def)
qed

text \<open>C15: a ring buffer built by its constructor and driven by any sequence of
  \<open>Push\<close> and \<open>Pop\<close> calls gives exactly the answers of a list of at most \<open>S\<close> elements, call by call:
  every \<open>Push\<close> returns true when it has stored the element and false when the buffer
  is full and unchanged, every \<open>Pop\<close> returns the oldest element that was accepted, and
  false on an empty buffer. At the end the buffer holds the elements of the list.
\<close>

theorem RingBuffer_refines_bounded_list:
  fixes ops :: "(unit, 'a) qop list"
  assumes "length mem = S + 1"
  shows "\<exists>rb. q_run (\<lambda>rb _ x. Inr (RingBuffer_Push S rb x)) (\<lambda>rb. Inr (RingBuffer_Pop S rb))
              (RingBuffer_new mem) ops = Inr (fst (l_run (Some S) [] ops), rb) \<and>
            rb_repr S rb (snd (l_run (Some S) [] ops))"
  using ring.bounded_run_refines [OF rb_new_repr [OF assms]] .

theorem RingBuffer_refines_bounded_list_witness:
  "\<exists>rb. q_run (\<lambda>rb _ x. Inr (RingBuffer_Push 1 rb x)) (\<lambda>rb. Inr (RingBuffer_Pop 1 rb))
          (RingBuffer_new [0, 0]) [QPush () (5 :: nat), QPush () 6, QPop, QPop]
        = Inr ([APush True, APush False, APop (Some 5), APop None], rb) \<and> rb_repr 1 rb []"
  using RingBuffer_refines_bounded_list
    [of "[0, 0]" 1 "[QPush () (5 :: nat), QPush () 6, QPop, QPop]"]
  by (simp add: Let_def)

end
