(* ===== verification/Linked_Queue.thy ===== *)
theory Linked_Queue
  imports Fifo
begin

text \<open>
  The unbounded queues of \<open>_queue.h\<close> and \<open>queue.cc\<close>: \<open>Queue\<close>, its template twin
  \<open>Queue2\<close> and the intrusive \<open>IntQueue\<close>. The cells live in an explicit store;
  \<open>_first\<close> is the embedded sentinel cell and \<open>_last\<close> points at it or at the last
  cell. Both refine the first-in first-out contract.
\<close>

type_synonym addr = nat

section \<open>Queue and Queue2\<close>

record 'a Container =
  c_data :: 'a
  c_next :: "addr option"

text \<open>The target of \<open>_last\<close>: the address of \<open>_first\<close>, or of a cell in the store.\<close>

datatype cellptr = First | Cell addr

record 'a Queue =
  q_store :: "addr \<Rightarrow> 'a Container option"
  q_first_next :: "addr option"
  q_last :: cellptr

definition Queue_new :: "'a Queue" where
  "Queue_new = \<lparr> q_store = (\<lambda>_. None), q_first_next = None, q_last = First \<rparr>"

definition Queue_IsEmpty :: "'a Queue \<Rightarrow> bool" where
  "Queue_IsEmpty q = (q_last q = First)"

definition last_next :: "'a Queue \<Rightarrow> addr option kres" where
  "last_next q = (case q_last q of
       First \<Rightarrow> Inr (q_first_next q)
     | Cell a \<Rightarrow> kmap c_next (deref (q_store q a)))"

definition set_last_next :: "addr option \<Rightarrow> 'a Queue \<Rightarrow> 'a Queue" where
  "set_last_next n q = (case q_last q of
       First \<Rightarrow> q \<lparr> q_first_next := n \<rparr>
     | Cell a \<Rightarrow> q \<lparr> q_store := (q_store q)(a := map_option (c_next_update (\<lambda>_. n)) (q_store q a)) \<rparr>)"

text \<open>\<open>c\<close> is the address that \<open>virtmem_ctrl->Alloc\<close> or \<open>new\<close> returned.\<close>

definition Queue_Push :: "'a Queue \<Rightarrow> addr \<Rightarrow> 'a \<Rightarrow> 'a Queue kres" where
  "Queue_Push q c data =
     (let q1 = q \<lparr> q_store := (q_store q)(c \<mapsto> \<lparr> c_data = data, c_next = None \<rparr>) \<rparr> in
      kbind (last_next q1) (\<lambda>n.
      kbind (kassert (n = None)) (\<lambda>_.
      Inr (set_last_next (Some c) q1 \<lparr> q_last := Cell c \<rparr>))))"

definition Queue_Pop :: "'a Queue \<Rightarrow> ('a \<times> 'a Queue) option kres" where
  "Queue_Pop q =
     (if Queue_IsEmpty q then Inr None
      else (case q_first_next q of
          None \<Rightarrow> Inl Kassert
        | Some c \<Rightarrow>
          kbind (deref (q_store q c)) (\<lambda>cell.
            let q1 = q \<lparr> q_first_next := c_next cell \<rparr>;
                q2 = (if q_last q1 = Cell c then q1 \<lparr> q_last := First \<rparr> else q1)
            in Inr (Some (c_data cell, q2 \<lparr> q_store := (q_store q2)(c := None) \<rparr>)))))"

text \<open>\<open>Queue2<T>\<close> is the same code over a typed payload; its constructor and members
  are written out again in the header.\<close>

definition Queue2_new :: "'a Queue" where
  "Queue2_new = \<lparr> q_store = (\<lambda>_. None), q_first_next = None, q_last = First \<rparr>"

definition Queue2_Push :: "'a Queue \<Rightarrow> addr \<Rightarrow> 'a \<Rightarrow> 'a Queue kres" where
  "Queue2_Push q c data =
     (let q1 = q \<lparr> q_store := (q_store q)(c \<mapsto> \<lparr> c_data = data, c_next = None \<rparr>) \<rparr> in
      kbind (last_next q1) (\<lambda>n.
      kbind (kassert (n = None)) (\<lambda>_.
      Inr (set_last_next (Some c) q1 \<lparr> q_last := Cell c \<rparr>))))"

definition Queue2_Pop :: "'a Queue \<Rightarrow> ('a \<times> 'a Queue) option kres" where
  "Queue2_Pop q =
     (if Queue_IsEmpty q then Inr None
      else (case q_first_next q of
          None \<Rightarrow> Inl Kassert
        | Some c \<Rightarrow>
          kbind (deref (q_store q c)) (\<lambda>cell.
            let q1 = q \<lparr> q_first_next := c_next cell \<rparr>;
                q2 = (if q_last q1 = Cell c then q1 \<lparr> q_last := First \<rparr> else q1)
            in Inr (Some (c_data cell, q2 \<lparr> q_store := (q_store q2)(c := None) \<rparr>)))))"

section \<open>IntQueue\<close>

text \<open>
  The cell of an intrusive queue is embedded in the object it queues, so the
  store maps an object to its embedded cell and \<open>c_data\<close> is the \<open>_obj\<close> back
  pointer. Pushing resets the cell's own \<open>_next\<close>, popping leaves the cell alive.
\<close>

definition IntQueue_new :: "(addr \<Rightarrow> addr Container option) \<Rightarrow> addr Queue" where
  "IntQueue_new cells = \<lparr> q_store = cells, q_first_next = None, q_last = First \<rparr>"

definition IntQueue_Push :: "addr Queue \<Rightarrow> addr \<Rightarrow> addr Queue kres" where
  "IntQueue_Push q c =
     kbind (deref (q_store q c)) (\<lambda>cell.
     let q1 = q \<lparr> q_store := (q_store q)(c \<mapsto> cell \<lparr> c_next := None \<rparr>) \<rparr> in
      kbind (last_next q1) (\<lambda>n.
      kbind (kassert (n = None)) (\<lambda>_.
      Inr (set_last_next (Some c) q1 \<lparr> q_last := Cell c \<rparr>))))"

definition IntQueue_Pop :: "addr Queue \<Rightarrow> (addr \<times> addr Queue) option kres" where
  "IntQueue_Pop q =
     (if Queue_IsEmpty q then Inr None
      else (case q_first_next q of
          None \<Rightarrow> Inl Kassert
        | Some c \<Rightarrow>
          kbind (deref (q_store q c)) (\<lambda>cell.
            let q1 = q \<lparr> q_first_next := c_next cell \<rparr>;
                q2 = (if q_last q1 = Cell c then q1 \<lparr> q_last := First \<rparr> else q1)
            in Inr (Some (c_data cell, q2)))))"

section \<open>Chains of cells\<close>

text \<open>\<open>chain st p as\<close>: following \<open>next\<close> from \<open>p\<close> visits exactly the addresses \<open>as\<close>.\<close>

fun chain :: "(addr \<Rightarrow> 'a Container option) \<Rightarrow> addr option \<Rightarrow> addr list \<Rightarrow> bool" where
  "chain st p [] \<longleftrightarrow> p = None"
| "chain st p (a # as) \<longleftrightarrow> p = Some a \<and> (\<exists>c. st a = Some c \<and> chain st (c_next c) as)"

definition data_of :: "(addr \<Rightarrow> 'a Container option) \<Rightarrow> addr \<Rightarrow> 'a" where
  "data_of st a = c_data (the (st a))"

definition lq_cells :: "'a Queue \<Rightarrow> addr list \<Rightarrow> bool" where
  "lq_cells q as \<longleftrightarrow> chain (q_store q) (q_first_next q) as \<and> distinct as \<and>
     q_last q = (if as = [] then First else Cell (last as))"

definition lq_repr :: "'a Queue \<Rightarrow> 'a list \<Rightarrow> bool" where
  "lq_repr q xs \<longleftrightarrow> (\<exists>as. lq_cells q as \<and> map (data_of (q_store q)) as = xs)"

definition int_repr :: "addr Queue \<Rightarrow> addr list \<Rightarrow> bool" where
  "int_repr q xs \<longleftrightarrow> lq_cells q xs \<and> (\<forall>o' c. q_store q o' = Some c \<longrightarrow> c_data c = o')"

lemma chain_upd_other [simp]: "a \<notin> set as \<Longrightarrow> chain (st(a := c)) p as = chain st p as"
  by (induction as arbitrary: p) auto

lemma chain_dom: "chain st p as \<Longrightarrow> a \<in> set as \<Longrightarrow> \<exists>c. st a = Some c"
  by (induction as arbitrary: p) auto

lemma data_of_upd_other [simp]: "a \<noteq> b \<Longrightarrow> data_of (st(a := c)) b = data_of st b"
  by (simp add: data_of_def)

lemma chain_snoc:
  "chain st p (as @ [b]) \<Longrightarrow> distinct (as @ [b, c]) \<Longrightarrow> st c = Some cell \<Longrightarrow> c_next cell = None \<Longrightarrow>
   chain (st(b := map_option (c_next_update (\<lambda>_. Some c)) (st b))) p (as @ [b, c])"
  by (induction as arbitrary: p) auto

lemma chain_last_next:
  "chain st p (as @ [b]) \<Longrightarrow> \<exists>cell. st b = Some cell \<and> c_next cell = None"
  by (induction as arbitrary: p) auto

text \<open>Linking a fresh cell at the end: the part that all three \<open>Push\<close> members share.\<close>

lemma link_last:
  assumes q: "lq_cells q as" and c: "c \<notin> set as" and st: "q_store q c = Some cell" "c_next cell = None"
  shows "last_next q = Inr None"
    and "lq_cells (set_last_next (Some c) q \<lparr> q_last := Cell c \<rparr>) (as @ [c])"
proof -
  show "last_next q = Inr None"
    using q chain_last_next [of "q_store q" "q_first_next q" "butlast as" "last as"]
    by (cases as rule: rev_cases) (auto simp: lq_cells_def last_next_def)
  show "lq_cells (set_last_next (Some c) q \<lparr> q_last := Cell c \<rparr>) (as @ [c])"
  proof (cases as rule: rev_cases)
    case Nil
    then show ?thesis
      using q st by (auto simp: lq_cells_def set_last_next_def)
  next
    case (snoc bs b)
    then show ?thesis
      using q c st chain_snoc [of "q_store q" "q_first_next q" bs b c cell]
      by (auto simp: lq_cells_def set_last_next_def)
  qed
qed

lemma set_last_next_data:
  "data_of (q_store (set_last_next n q)) a = data_of (q_store q) a"
  if "\<And>b. q_last q = Cell b \<Longrightarrow> \<exists>c. q_store q b = Some c"
  using that by (auto simp: set_last_next_def data_of_def split: cellptr.splits)

lemma lq_cells_Cons:
  assumes "lq_cells q (a # as)"
  obtains cell where "q_first_next q = Some a" "q_store q a = Some cell"
    "chain (q_store q) (c_next cell) as" "a \<notin> set as" "distinct as"
    "q_last q = Cell (last (a # as))"
  using assms by (auto simp: lq_cells_def)

lemma unlink_first:
  assumes "lq_cells q (a # as)" and "q_store q a = Some cell"
  shows "lq_cells (let q1 = q \<lparr> q_first_next := c_next cell \<rparr>
           in if q_last q1 = Cell a then q1 \<lparr> q_last := First \<rparr> else q1) as"
  using assms by (cases as) (auto simp: lq_cells_def Let_def split: if_splits)

lemma lq_cells_upd_other:
  "lq_cells q as \<Longrightarrow> a \<notin> set as \<Longrightarrow> lq_cells (q \<lparr> q_store := (q_store q)(a := c) \<rparr>) as"
  by (simp add: lq_cells_def)

section \<open>Queue refines the contract\<close>

lemma Queue_new_repr: "lq_repr Queue_new []"
  by (simp add: lq_repr_def lq_cells_def Queue_new_def)

lemma lq_last_alive: "lq_cells q as \<Longrightarrow> q_last q = Cell b \<Longrightarrow> \<exists>c. q_store q b = Some c"
  by (auto simp: lq_cells_def split: if_splits intro: chain_dom)

lemma Queue_Push_repr:
  assumes "lq_repr q xs" and fresh: "q_store q c = None"
  shows "\<exists>q'. Queue_Push q c x = Inr q' \<and> lq_repr q' (xs @ [x])"
proof -
  obtain as where as: "lq_cells q as" and xs: "map (data_of (q_store q)) as = xs"
    using assms(1) by (auto simp: lq_repr_def)
  have c: "c \<notin> set as"
    using as fresh chain_dom by (fastforce simp: lq_cells_def)
  define q1 where "q1 = q \<lparr> q_store := (q_store q)(c \<mapsto> \<lparr> c_data = x, c_next = None \<rparr>) \<rparr>"
  have q1: "lq_cells q1 as" "q_store q1 c = Some \<lparr> c_data = x, c_next = None \<rparr>"
    using lq_cells_upd_other [OF as c] by (simp_all add: q1_def)
  note link = link_last [OF q1(1) c q1(2)]
  have "map (data_of (q_store (set_last_next (Some c) q1))) (as @ [c]) = xs @ [x]"
    using set_last_next_data [of q1 "Some c", OF lq_last_alive [OF q1(1)]] xs c
    by (auto simp: q1_def data_of_def)
  then show ?thesis
    using link by (auto simp: Queue_Push_def lq_repr_def simp flip: q1_def)
qed

lemma Queue_Pop_repr:
  assumes "lq_repr q (x # xs)"
  shows "\<exists>q'. Queue_Pop q = Inr (Some (x, q')) \<and> lq_repr q' xs"
proof -
  obtain a as where as: "lq_cells q (a # as)" and x: "data_of (q_store q) a = x"
    and xs: "map (data_of (q_store q)) as = xs"
    using assms by (auto simp: lq_repr_def)
  obtain cell where cell: "q_first_next q = Some a" "q_store q a = Some cell"
    "a \<notin> set as" "q_last q = Cell (last (a # as))"
    by (rule lq_cells_Cons [OF as])
  define q2 where "q2 = (let q1 = q \<lparr> q_first_next := c_next cell \<rparr>
      in if q_last q1 = Cell a then q1 \<lparr> q_last := First \<rparr> else q1)"
  have q2: "lq_cells q2 as" "q_store q2 = q_store q"
    using unlink_first [OF as cell(2)] by (simp_all add: q2_def Let_def)
  have "Queue_Pop q = Inr (Some (x, q2 \<lparr> q_store := (q_store q2)(a := None) \<rparr>))"
    using cell x by (simp add: Queue_Pop_def Queue_IsEmpty_def Let_def q2_def data_of_def)
  moreover have "map (data_of ((q_store q2)(a := None))) as = xs"
    using xs cell(3) q2(2) by (auto intro!: data_of_upd_other)
  ultimately show ?thesis
    using lq_cells_upd_other [OF q2(1) cell(3)] by (auto simp: lq_repr_def)
qed

lemma Queue_empty_repr: "lq_repr q xs \<Longrightarrow> Queue_IsEmpty q \<longleftrightarrow> xs = []"
  by (auto simp: lq_repr_def lq_cells_def Queue_IsEmpty_def split: if_splits)

interpretation linked: fifo lq_repr "\<lambda>q c _. q_store q c = None"
    "\<lambda>q c x. kmap (Pair True) (Queue_Push q c x)" Queue_Pop Queue_IsEmpty
proof (unfold_locales, goal_cases)
  case (1 q xs c x)
  then show ?case
    using Queue_Push_repr [of q xs c x] by auto
next
  case (2 q)
  then show ?case
    using Queue_empty_repr by (auto simp: Queue_Pop_def)
next
  case (3 q x xs)
  then show ?case
    by (rule Queue_Pop_repr)
next
  case (4 q xs)
  then show ?case
    by (rule Queue_empty_repr)
qed

text \<open>The template twin computes the same functions, so it inherits the contract.\<close>

lemma Queue2_eq: "Queue2_new = Queue_new" "Queue2_Push = Queue_Push" "Queue2_Pop = Queue_Pop"
  by (simp_all add: Queue2_new_def Queue_new_def Queue2_Push_def Queue_Push_def
      Queue2_Pop_def Queue_Pop_def fun_eq_iff)

section \<open>IntQueue refines the contract\<close>

lemma IntQueue_Push_repr:
  assumes "int_repr q xs" and c: "c \<notin> set xs" and st: "q_store q c = Some cell"
  shows "\<exists>q'. IntQueue_Push q c = Inr q' \<and> int_repr q' (xs @ [c])"
proof -
  have cells: "lq_cells q xs" and obj: "\<And>o' c. q_store q o' = Some c \<Longrightarrow> c_data c = o'"
    using assms(1) by (auto simp: int_repr_def)
  define q1 where "q1 = q \<lparr> q_store := (q_store q)(c \<mapsto> cell \<lparr> c_next := None \<rparr>) \<rparr>"
  have q1: "lq_cells q1 xs" "q_store q1 c = Some (cell \<lparr> c_next := None \<rparr>)"
    using lq_cells_upd_other [OF cells c] by (simp_all add: q1_def)
  have "c_data k = o'" if "q_store (set_last_next (Some c) q1) o' = Some k" for o' k
    using that obj obj [OF st]
    by (auto simp: set_last_next_def q1_def split: cellptr.splits if_splits)
  then show ?thesis
    using link_last [OF q1(1) c q1(2)] st
    by (auto simp: IntQueue_Push_def int_repr_def simp flip: q1_def)
qed

lemma IntQueue_Pop_repr:
  assumes "int_repr q (x # xs)"
  shows "\<exists>q'. IntQueue_Pop q = Inr (Some (x, q')) \<and> int_repr q' xs"
proof -
  have as: "lq_cells q (x # xs)" and obj: "\<And>o' c. q_store q o' = Some c \<Longrightarrow> c_data c = o'"
    using assms by (auto simp: int_repr_def)
  obtain cell where cell: "q_first_next q = Some x" "q_store q x = Some cell"
    "x \<notin> set xs" "q_last q = Cell (last (x # xs))"
    by (rule lq_cells_Cons [OF as])
  then show ?thesis
    using unlink_first [OF as cell(2)] obj
    by (auto simp: IntQueue_Pop_def Queue_IsEmpty_def Let_def int_repr_def simp del: last.simps)
qed

lemma int_empty_repr: "int_repr q xs \<Longrightarrow> Queue_IsEmpty q \<longleftrightarrow> xs = []"
  by (auto simp: int_repr_def lq_cells_def Queue_IsEmpty_def split: if_splits)

interpretation intrusive: fifo int_repr
    "\<lambda>q (_ :: unit) c. (\<exists>cell. q_store q c = Some cell) \<and> (\<forall>xs. int_repr q xs \<longrightarrow> c \<notin> set xs)"
    "\<lambda>q _ c. kmap (Pair True) (IntQueue_Push q c)" IntQueue_Pop Queue_IsEmpty
proof (unfold_locales, goal_cases)
  case (1 q xs c x)
  then show ?case
    using IntQueue_Push_repr [of q xs x] by auto
next
  case (2 q)
  then show ?case
    using int_empty_repr by (auto simp: IntQueue_Pop_def)
next
  case (3 q x xs)
  then show ?case
    by (rule IntQueue_Pop_repr)
next
  case (4 q xs)
  then show ?case
    by (rule int_empty_repr)
qed

text \<open>C28: any sequence of \<open>Push\<close> and \<open>Pop\<close> calls on a linked queue, in which every
  \<open>Push\<close> gets a cell address that is not in use, runs without a failed
  assertion or a null dereference and answers as an unbounded list does.
\<close>

theorem Queue_refines_list:
  assumes "run_fits (\<lambda>q c _. q_store q c = None) (\<lambda>q c x. kmap (Pair True) (Queue_Push q c x))
             Queue_Pop Queue_new ops"
  shows "\<exists>q. q_run (\<lambda>q c x. kmap (Pair True) (Queue_Push q c x)) Queue_Pop Queue_new ops
               = Inr (fst (l_run None [] ops), q) \<and> lq_repr q (snd (l_run None [] ops))"
  using linked.run_refines [OF Queue_new_repr assms] .

theorem Queue_refines_list_witness:
  "\<exists>q. q_run (\<lambda>q c x. kmap (Pair True) (Queue_Push q c x)) Queue_Pop Queue_new
         [QPush 3 (7 :: nat), QPush 4 8, QPop, QPush 3 9, QPop, QPop, QPop]
       = Inr ([APush True, APush True, APop (Some 7), APush True, APop (Some 8), APop (Some 9), APop None], q) \<and> lq_repr q []"
proof -
  have "run_fits (\<lambda>q c _. q_store q c = None) (\<lambda>q c x. kmap (Pair True) (Queue_Push q c x))
      Queue_Pop Queue_new [QPush 3 (7 :: nat), QPush 4 8, QPop, QPush 3 9, QPop, QPop, QPop]"
    by (simp add: Queue_new_def Queue_Push_def Queue_Pop_def Queue_IsEmpty_def last_next_def
        set_last_next_def Let_def)
  from Queue_refines_list [OF this] show ?thesis
    by (simp add: Let_def)
qed

end
