(* ===== verification/Hash_Map.thy ===== *)
theory Hash_Map
  imports Raph_Prelude
begin

text \<open>
  \<open>HashMap\<close> of \<open>map.h\<close>: a table of chained buckets. A chain is the list of the
  key/value pairs that following \<open>getNext\<close> visits. \<open>Put\<close> appends a new key at
  the end of its chain and overwrites the value of a present one; \<open>Remove\<close>
  unlinks the node. The hash map refines the contract of a key/value store.
\<close>

section \<open>The contract of a key/value store\<close>

datatype ('k, 'v) kvop = KPut 'k 'v | KRemove 'k | KGet 'k

fun kv_run :: "('m \<Rightarrow> 'k \<Rightarrow> 'v option) \<Rightarrow> ('m \<Rightarrow> 'k \<Rightarrow> 'v \<Rightarrow> 'm) \<Rightarrow> ('m \<Rightarrow> 'k \<Rightarrow> 'm) \<Rightarrow>
    'm \<Rightarrow> ('k, 'v) kvop list \<Rightarrow> 'v option list \<times> 'm" where
  "kv_run get put rem m [] = ([], m)"
| "kv_run get put rem m (KPut k v # ops) = kv_run get put rem (put m k v) ops"
| "kv_run get put rem m (KRemove k # ops) = kv_run get put rem (rem m k) ops"
| "kv_run get put rem m (KGet k # ops) =
     (let r = kv_run get put rem m ops in (get m k # fst r, snd r))"

locale kv_store =
  fixes get :: "'m \<Rightarrow> 'k \<Rightarrow> 'v option"
    and put :: "'m \<Rightarrow> 'k \<Rightarrow> 'v \<Rightarrow> 'm"
    and rem :: "'m \<Rightarrow> 'k \<Rightarrow> 'm"
    and invar :: "'m \<Rightarrow> bool"
  assumes put_invar: "invar m \<Longrightarrow> invar (put m k v)"
    and rem_invar: "invar m \<Longrightarrow> invar (rem m k)"
    and get_put: "invar m \<Longrightarrow> get (put m k v) = (get m)(k \<mapsto> v)"
    and get_rem: "invar m \<Longrightarrow> get (rem m k) = (get m)(k := None)"
begin

lemma run_refines_map:
  "invar m \<Longrightarrow>
   fst (kv_run get put rem m ops) =
     fst (kv_run (\<lambda>f k. f k) (\<lambda>f k v. f(k \<mapsto> v)) (\<lambda>f k. f(k := None)) (get m) ops) \<and>
   get (snd (kv_run get put rem m ops)) =
     snd (kv_run (\<lambda>f k. f k) (\<lambda>f k v. f(k \<mapsto> v)) (\<lambda>f k. f(k := None)) (get m) ops) \<and>
   invar (snd (kv_run get put rem m ops))"
proof (induction ops arbitrary: m)
  case (Cons op ops)
  then show ?case
    by (cases op) (auto simp: Let_def put_invar rem_invar get_put get_rem)
qed simp

end

section \<open>HashMap\<close>

type_synonym ('k, 'v) hash_table = "('k \<times> 'v) list list"

definition KeyHash :: "nat \<Rightarrow> 'a::len word \<Rightarrow> nat" where
  "KeyHash table_size key = unat key mod table_size"

definition HashMap_new :: "nat \<Rightarrow> ('k, 'v) hash_table" where
  "HashMap_new table_size = replicate table_size []"

fun chain_get :: "('k \<times> 'v) list \<Rightarrow> 'k \<Rightarrow> 'v option" where
  "chain_get [] key = None"
| "chain_get (e # es) key = (if fst e = key then Some (snd e) else chain_get es key)"

fun chain_put :: "('k \<times> 'v) list \<Rightarrow> 'k \<Rightarrow> 'v \<Rightarrow> ('k \<times> 'v) list" where
  "chain_put [] key v = [(key, v)]"
| "chain_put (e # es) key v = (if fst e = key then (fst e, v) # es else e # chain_put es key v)"

fun chain_remove :: "('k \<times> 'v) list \<Rightarrow> 'k \<Rightarrow> ('k \<times> 'v) list" where
  "chain_remove [] key = []"
| "chain_remove (e # es) key = (if fst e = key then es else e # chain_remove es key)"

definition HashMap_Get :: "('k \<Rightarrow> nat) \<Rightarrow> ('k, 'v) hash_table \<Rightarrow> 'k \<Rightarrow> 'v option" where
  "HashMap_Get hashFunc table key = chain_get (table ! hashFunc key) key"

definition HashMap_Put :: "('k \<Rightarrow> nat) \<Rightarrow> ('k, 'v) hash_table \<Rightarrow> 'k \<Rightarrow> 'v \<Rightarrow> ('k, 'v) hash_table" where
  "HashMap_Put hashFunc table key v =
     (let h = hashFunc key in table[h := chain_put (table ! h) key v])"

definition HashMap_Remove :: "('k \<Rightarrow> nat) \<Rightarrow> ('k, 'v) hash_table \<Rightarrow> 'k \<Rightarrow> ('k, 'v) hash_table" where
  "HashMap_Remove hashFunc table key =
     (let h = hashFunc key in table[h := chain_remove (table ! h) key])"

text \<open>Every chain holds each key at most once, and only keys that hash to it.\<close>

definition hm_inv :: "nat \<Rightarrow> ('k \<Rightarrow> nat) \<Rightarrow> ('k, 'v) hash_table \<Rightarrow> bool" where
  "hm_inv n hashFunc table \<longleftrightarrow> length table = n \<and>
     (\<forall>i<n. distinct (map fst (table ! i)) \<and> (\<forall>e\<in>set (table ! i). hashFunc (fst e) = i))"

lemma chain_get_put: "chain_get (chain_put es k v) k' = (if k' = k then Some v else chain_get es k')"
  by (induction es) auto

lemma chain_get_remove:
  "distinct (map fst es) \<Longrightarrow> chain_get (chain_remove es k) k' = (if k' = k then None else chain_get es k')"
proof (induction es)
  case (Cons e es)
  have "chain_get es k = None" if "k \<notin> fst ` set es" for k
    using that by (induction es) auto
  then show ?case
    using Cons by auto
qed simp

lemma chain_put_keys: "fst ` set (chain_put es k v) = insert k (fst ` set es)"
  by (induction es) auto

lemma chain_put_distinct: "distinct (map fst es) \<Longrightarrow> distinct (map fst (chain_put es k v))"
  by (induction es) (auto simp: chain_put_keys simp del: image_iff)

lemma chain_remove_subset: "set (chain_remove es k) \<subseteq> set es"
  by (induction es) auto

lemma chain_remove_distinct: "distinct (map fst es) \<Longrightarrow> distinct (map fst (chain_remove es k))"
  by (induction es) (auto dest!: subsetD [OF chain_remove_subset])

lemma hm_inv_update:
  assumes "hm_inv n h t" and "h k < n" and "distinct (map fst es)" and "\<forall>e\<in>set es. h (fst e) = h k"
  shows "hm_inv n h (t[h k := es])"
  using assms by (auto simp: hm_inv_def nth_list_update)

lemma hm_bucket:
  assumes "hm_inv n h t" and "h k < n"
  shows "distinct (map fst (t ! h k))" and "\<forall>e\<in>set (t ! h k). h (fst e) = h k" and "h k < length t"
  using assms by (auto simp: hm_inv_def)

lemma HashMap_Put_inv:
  assumes "\<And>k. h k < n" and "hm_inv n h t"
  shows "hm_inv n h (HashMap_Put h t k v)"
proof -
  note b = hm_bucket [OF assms(2) assms(1) [of k]]
  have "\<forall>e\<in>set (chain_put (t ! h k) k v). h (fst e) = h k"
    using b(2) chain_put_keys [of "t ! h k" k v] by (metis (no_types, lifting) image_iff insertE)
  then show ?thesis
    using hm_inv_update [OF assms(2) assms(1) chain_put_distinct [OF b(1)]]
    by (simp add: HashMap_Put_def Let_def)
qed

lemma HashMap_Remove_inv:
  assumes "\<And>k. h k < n" and "hm_inv n h t"
  shows "hm_inv n h (HashMap_Remove h t k)"
proof -
  note b = hm_bucket [OF assms(2) assms(1) [of k]]
  have "\<forall>e\<in>set (chain_remove (t ! h k) k). h (fst e) = h k"
    using b(2) chain_remove_subset by fastforce
  then show ?thesis
    using hm_inv_update [OF assms(2) assms(1) chain_remove_distinct [OF b(1)]]
    by (simp add: HashMap_Remove_def Let_def)
qed

lemma HashMap_Get_Put:
  assumes "\<And>k. h k < n" and "hm_inv n h t"
  shows "HashMap_Get h (HashMap_Put h t k v) = (HashMap_Get h t)(k \<mapsto> v)"
  using hm_bucket(3) [OF assms(2) assms(1)]
  by (auto simp: fun_eq_iff HashMap_Get_def HashMap_Put_def Let_def nth_list_update chain_get_put)

lemma HashMap_Get_Remove:
  assumes "\<And>k. h k < n" and "hm_inv n h t"
  shows "HashMap_Get h (HashMap_Remove h t k) = (HashMap_Get h t)(k := None)"
  using hm_bucket(3) [OF assms(2) assms(1)] hm_bucket(1) [OF assms(2) assms(1)]
  by (auto simp: fun_eq_iff HashMap_Get_def HashMap_Remove_def Let_def nth_list_update chain_get_remove)

lemma HashMap_new_inv: "hm_inv n h (HashMap_new n)"
  by (simp add: hm_inv_def HashMap_new_def)

lemma HashMap_Get_new: "(\<And>k. h k < n) \<Longrightarrow> HashMap_Get h (HashMap_new n) = Map.empty"
  by (simp add: HashMap_Get_def HashMap_new_def fun_eq_iff)

text \<open>The default hash maps every key into the table; the invariant fixes the table size.\<close>

lemma KeyHash_bound: "0 < n \<Longrightarrow> KeyHash n k < n"
  by (simp add: KeyHash_def)

interpretation hm: kv_store "HashMap_Get (KeyHash (Suc n))" "HashMap_Put (KeyHash (Suc n))"
    "HashMap_Remove (KeyHash (Suc n))" "hm_inv (Suc n) (KeyHash (Suc n))"
  for n
  by unfold_locales
    (simp_all add: HashMap_Put_inv HashMap_Remove_inv KeyHash_bound
      HashMap_Get_Put [where n = "Suc n"] HashMap_Get_Remove [where n = "Suc n"])

text \<open>C29: a hash map with at least one bucket, starting empty, answers any sequence
  of \<open>Put\<close>, \<open>Remove\<close> and \<open>Get\<close> calls exactly as a finite map does.
\<close>

theorem HashMap_refines_map:
  fixes ops :: "('a::len word, 'v) kvop list"
  assumes "0 < n"
  shows "fst (kv_run (HashMap_Get (KeyHash n)) (HashMap_Put (KeyHash n)) (HashMap_Remove (KeyHash n))
                (HashMap_new n) ops) =
         fst (kv_run (\<lambda>f k. f k) (\<lambda>f k v. f(k \<mapsto> v)) (\<lambda>f k. f(k := None)) Map.empty ops)"
proof -
  obtain m where n: "n = Suc m"
    using assms by (cases n) auto
  show ?thesis
    using hm.run_refines_map [OF HashMap_new_inv, of m ops]
    by (simp add: n HashMap_Get_new KeyHash_bound)
qed

theorem HashMap_refines_map_witness:
  "fst (kv_run (HashMap_Get (KeyHash 4)) (HashMap_Put (KeyHash 4)) (HashMap_Remove (KeyHash 4))
     (HashMap_new 4) [KPut (1 :: u32) CHR ''a'', KPut 5 CHR ''b'', KRemove 1, KGet 5, KGet 1]) = [Some CHR ''b'', None]"
  using HashMap_refines_map [of 4 "[KPut (1 :: u32) CHR ''a'', KPut 5 CHR ''b'', KRemove 1, KGet 5, KGet 1]"]
  by simp

end
