(* ===== verification/Slab_Allocator.thy ===== *)
theory Slab_Allocator
  imports Raph_Prelude
begin

text \<open>
  \<open>Allocator<T>\<close> of \<open>allocator.h\<close>: objects come from containers of 64 entries
  with one bit per entry. The chain of containers is a list, each container
  identified by its address; an object is a container and an index. The lock
  makes each member atomic; a processor that is alone and finds the head
  container full would spin forever (\<open>Deadlock\<close>).
\<close>

record SlabContainer =
  sc_id :: nat
  sc_flag :: u64

definition Allocator_new :: "nat \<Rightarrow> SlabContainer list" where
  "Allocator_new first = [\<lparr> sc_id = first, sc_flag = 0 \<rparr>]"

fun find_free_entry :: "u64 \<Rightarrow> nat \<Rightarrow> nat \<Rightarrow> nat option" where
  "find_free_entry flag i 0 = None"
| "find_free_entry flag i (Suc n) =
     (if flag AND push_bit i 1 = 0 then Some i else find_free_entry flag (Suc i) n)"

definition slab_full :: "SlabContainer \<Rightarrow> bool" where
  "slab_full c \<longleftrightarrow> NOT (sc_flag c) = 0"

text \<open>\<open>tmp\<close> is the address of the container that \<open>virtmem_ctrl->Alloc\<close> returns.\<close>

definition Allocator_Extend :: "nat \<Rightarrow> SlabContainer list \<Rightarrow> SlabContainer list" where
  "Allocator_Extend tmp st = \<lparr> sc_id = tmp, sc_flag = 0 \<rparr> # st"

definition Allocator_Alloc :: "nat \<Rightarrow> SlabContainer list \<Rightarrow> ((nat \<times> nat) option \<times> SlabContainer list) kres" where
  "Allocator_Alloc tmp st = (case st of
       [] \<Rightarrow> Inl Null_Deref
     | c # cs \<Rightarrow>
       if slab_full c then Inl Deadlock
       else (case find_free_entry (sc_flag c) 0 64 of
           None \<Rightarrow> Inr (None, st)
         | Some i \<Rightarrow>
           let c' = c \<lparr> sc_flag := sc_flag c OR push_bit i 1 \<rparr>; rval = Some (sc_id c, i) in
           if slab_full c' then
             (if cs = [] \<or> slab_full (hd cs) then Inr (rval, Allocator_Extend tmp (c' # cs))
              else Inr (rval, hd cs # takeWhile (\<lambda>d. \<not> slab_full d) (tl cs) @
                           c' # dropWhile (\<lambda>d. \<not> slab_full d) (tl cs)))
           else Inr (rval, c' # cs)))"

text \<open>
  The mask \<open>~(1 << k)\<close> of \<open>Free\<close> is computed in \<open>int\<close> and then widened: for
  \<open>k < 31\<close> sign extension keeps the upper half set, for \<open>k = 31\<close> the mask is
  \<open>0x7fffffff\<close>, and a larger shift is undefined.
\<close>

definition free_mask :: "nat \<Rightarrow> u64 kres" where
  "free_mask k = (if k < 31 then Inr (NOT (push_bit k 1)) else if k = 31 then Inr 0x7fffffff
     else Inl Out_Of_Range)"

fun slab_find :: "nat \<Rightarrow> SlabContainer list \<Rightarrow> nat option" where
  "slab_find cid [] = None"
| "slab_find cid (c # cs) = (if sc_id c = cid then Some 0 else map_option Suc (slab_find cid cs))"

definition Allocator_Free :: "SlabContainer list \<Rightarrow> nat \<times> nat \<Rightarrow> SlabContainer list kres" where
  "Allocator_Free st data = (case slab_find (fst data) st of
       None \<Rightarrow> Inl Kassert
     | Some j \<Rightarrow>
       kbind (free_mask (snd data)) (\<lambda>m.
         let c = st ! j; c' = c \<lparr> sc_flag := sc_flag c AND m \<rparr> in
         if slab_full c \<and> 0 < j then Inr (c' # take j st @ drop (Suc j) st)
         else Inr (st[j := c'])))"

section \<open>Entries in use\<close>

definition slab_in_use :: "SlabContainer list \<Rightarrow> (nat \<times> nat) set" where
  "slab_in_use st = {(cid, k). k < 64 \<and> (\<exists>c\<in>set st. sc_id c = cid \<and> bit (sc_flag c) k)}"

definition slab_ok :: "SlabContainer list \<Rightarrow> bool" where
  "slab_ok st \<longleftrightarrow> st \<noteq> [] \<and> \<not> slab_full (hd st) \<and> distinct (map sc_id st)"

lemma and_push_bit_0: "f AND 2 ^ i = 0 \<longleftrightarrow> \<not> bit f i" for f :: u64
  by (simp add: and_exp_eq_0_iff_not_bit)

lemma find_free_Some: "find_free_entry f i n = Some k \<Longrightarrow> i \<le> k \<and> k < i + n \<and> \<not> bit f k"
  by (induction f i n rule: find_free_entry.induct) (auto simp: and_push_bit_0 split: if_splits)

lemma find_free_None: "find_free_entry f i n = None \<Longrightarrow> i \<le> k \<Longrightarrow> k < i + n \<Longrightarrow> bit f k"
proof (induction f i n rule: find_free_entry.induct)
  case (2 f i n)
  then show ?case
    by (cases "k = i") (auto simp: and_push_bit_0 split: if_splits)
qed simp

lemma slab_full_bits: "slab_full c \<longleftrightarrow> (\<forall>k<64. bit (sc_flag c) k)"
  by (auto simp: slab_full_def bit_eq_iff bit_not_iff)

lemma bit_or_push: "k < 64 \<Longrightarrow> bit (f OR 2 ^ i) k \<longleftrightarrow> bit f k \<or> k = i" for f :: u64
  by (auto simp: bit_or_iff bit_exp_iff)

lemma slab_in_use_append [simp]: "slab_in_use (xs @ ys) = slab_in_use xs \<union> slab_in_use ys"
  by (auto simp: slab_in_use_def)

lemma slab_in_use_Cons [simp]:
  "slab_in_use (c # cs) = {(cid, k). cid = sc_id c \<and> k < 64 \<and> bit (sc_flag c) k} \<union> slab_in_use cs"
  by (auto simp: slab_in_use_def)

lemma slab_in_use_set: "set xs = set ys \<Longrightarrow> slab_in_use xs = slab_in_use ys"
  by (simp add: slab_in_use_def)

lemma slab_in_use_id: "(cid, k) \<in> slab_in_use st \<Longrightarrow> cid \<in> sc_id ` set st"
  by (auto simp: slab_in_use_def)

text \<open>What \<open>Alloc\<close> does to the head container, whichever way it then reorders the chain.\<close>

lemma Allocator_Alloc_ok:
  assumes "slab_ok st" and "tmp \<notin> sc_id ` set st"
  shows "\<exists>e st'. Allocator_Alloc tmp st = Inr (Some e, st') \<and> slab_ok st' \<and> e \<notin> slab_in_use st \<and>
    snd e < 64 \<and> fst e \<in> sc_id ` set st' \<and> slab_in_use st' = insert e (slab_in_use st)"
proof -
  obtain c cs where st: "st = c # cs" and nf: "\<not> slab_full c"
    and dist: "distinct (map sc_id cs)" "sc_id c \<notin> sc_id ` set cs"
    using assms(1) by (cases st) (auto simp: slab_ok_def)
  obtain i where i: "find_free_entry (sc_flag c) 0 64 = Some i"
    using nf find_free_None [of "sc_flag c" 0 64] by (cases "find_free_entry (sc_flag c) 0 64") (auto simp: slab_full_bits)
  have i64: "i < 64" and nb: "\<not> bit (sc_flag c) i"
    using find_free_Some [OF i] by auto
  define c' where "c' = c \<lparr> sc_flag := sc_flag c OR push_bit i 1 \<rparr>"
  have use': "slab_in_use (c' # ds) = insert (sc_id c, i) (slab_in_use (c # ds))" for ds
    using i64 by (auto simp: c'_def bit_or_push)
  have out: "(sc_id c, i) \<notin> slab_in_use st"
    using nb dist(2) slab_in_use_id by (auto simp: st)
  have cid': "sc_id c' = sc_id c"
    by (simp add: c'_def)
  have run: "Allocator_Alloc tmp st = Inr (Some (sc_id c, i),
      if slab_full c' then
        (if cs = [] \<or> slab_full (hd cs) then Allocator_Extend tmp (c' # cs)
         else hd cs # takeWhile (\<lambda>d. \<not> slab_full d) (tl cs) @ c' # dropWhile (\<lambda>d. \<not> slab_full d) (tl cs))
      else c' # cs)"
    using nf i by (simp add: Allocator_Alloc_def st Let_def c'_def)
  consider (plain) "\<not> slab_full c'" | (extend) "slab_full c'" "cs = [] \<or> slab_full (hd cs)"
    | (rotate) d ds where "slab_full c'" "cs = d # ds" "\<not> slab_full d"
    by (cases cs) auto
  then show ?thesis
  proof cases
    case plain
    then show ?thesis
      using run dist use' [of cs] out i64 cid' by (auto simp: slab_ok_def st simp del: slab_in_use_Cons)
  next
    case extend
    have "slab_in_use (Allocator_Extend tmp (c' # cs)) = insert (sc_id c, i) (slab_in_use st)"
      using use' [of cs] by (simp add: Allocator_Extend_def st)
    moreover have "slab_ok (Allocator_Extend tmp (c' # cs))"
      using assms(2) dist cid' by (auto simp: slab_ok_def Allocator_Extend_def slab_full_def st)
    ultimately show ?thesis
      using run extend out i64 cid' by (auto simp: Allocator_Extend_def simp del: slab_in_use_Cons)
  next
    case (rotate d ds)
    define xs ys where "xs = takeWhile (\<lambda>d. \<not> slab_full d) ds" "ys = dropWhile (\<lambda>d. \<not> slab_full d) ds"
    have ds: "ds = xs @ ys"
      by (simp add: xs_ys_def)
    have "slab_in_use (d # xs @ c' # ys) = insert (sc_id c, i) (slab_in_use st)"
      using use' [of "d # xs @ ys"] slab_in_use_set [of "d # xs @ c' # ys" "c' # d # xs @ ys"]
      by (simp add: st rotate ds insert_commute del: slab_in_use_Cons slab_in_use_append)
    moreover have "slab_ok (d # xs @ c' # ys)"
      using dist cid' rotate(3) by (auto simp: slab_ok_def rotate(2) ds)
    ultimately show ?thesis
      using run rotate out i64 cid'
      by (auto simp: xs_ys_def simp del: slab_in_use_Cons slab_in_use_append)
  qed
qed

section \<open>Release\<close>

lemma slab_find_Some: "slab_find cid st = Some j \<Longrightarrow> j < length st \<and> sc_id (st ! j) = cid"
  by (induction st arbitrary: j) (auto split: if_splits)

lemma slab_find_ok: "cid \<in> sc_id ` set st \<Longrightarrow> \<exists>j. slab_find cid st = Some j"
  by (induction st) auto

lemma bit_and_mask: "j < 64 \<Longrightarrow> bit (f AND NOT (2 ^ k)) j \<longleftrightarrow> bit f j \<and> j \<noteq> k" for f :: u64
  by (auto simp: bit_and_iff bit_not_iff bit_exp_iff)

lemma Allocator_Free_ok:
  assumes ok: "slab_ok st" and use: "(cid, k) \<in> slab_in_use st" and k: "k < 31"
  shows "\<exists>st'. Allocator_Free st (cid, k) = Inr st' \<and> slab_ok st' \<and> slab_in_use st' = slab_in_use st - {(cid, k)}"
proof -
  obtain j where j: "slab_find cid st = Some j"
    using slab_find_ok slab_in_use_id [OF use] by blast
  then have jl: "j < length st" and cj: "sc_id (st ! j) = cid"
    using slab_find_Some by auto
  obtain pre c post where st: "st = pre @ c # post" "j = length pre"
    using id_take_nth_drop [OF jl] jl by (metis length_take min.absorb4)
  have cid: "sc_id c = cid"
    using cj by (simp add: st)
  have others: "cid \<notin> sc_id ` set pre" "cid \<notin> sc_id ` set post" and dist: "distinct (map sc_id (pre @ post))"
    using ok cid by (auto simp: slab_ok_def st)
  define c' where "c' = c \<lparr> sc_flag := sc_flag c AND NOT (2 ^ k) \<rparr>"
  have one: "{(i, n). i = sc_id c' \<and> n < 64 \<and> bit (sc_flag c') n} =
      {(i, n). i = sc_id c \<and> n < 64 \<and> bit (sc_flag c) n} - {(cid, k)}"
    by (auto simp: c'_def bit_and_mask cid)
  have use': "slab_in_use (c' # pre @ post) = slab_in_use st - {(cid, k)}"
    using one others slab_in_use_id by (fastforce simp: st)
  have nf: "\<not> slab_full c'"
    using k by (auto simp: slab_full_bits c'_def bit_and_mask intro!: exI [of _ k])
  have run: "Allocator_Free st (cid, k) =
      Inr (if slab_full c \<and> 0 < j then c' # pre @ post else pre @ c' # post)"
    using k j by (simp add: Allocator_Free_def free_mask_def Let_def st c'_def)
  have "slab_ok (c' # pre @ post)"
    using nf dist others cid by (auto simp: slab_ok_def c'_def)
  moreover have "slab_ok (pre @ c' # post)"
    using nf ok by (cases pre) (auto simp: slab_ok_def st c'_def)
  moreover have "slab_in_use (pre @ c' # post) = slab_in_use (c' # pre @ post)"
    by (rule slab_in_use_set) simp
  ultimately show ?thesis
    using run use' by auto
qed

text \<open>with at least the head container not full, which every operation keeps,
  \<open>Alloc\<close> neither spins forever nor returns null: it returns an entry that was
  not in use, and afterwards exactly that entry is additionally in use.
\<close>

theorem Allocator_Alloc_fresh:
  assumes "slab_ok st" and "tmp \<notin> sc_id ` set st"
  shows "\<exists>e st'. Allocator_Alloc tmp st = Inr (Some e, st') \<and> slab_ok st' \<and>
    e \<notin> slab_in_use st \<and> slab_in_use st' = insert e (slab_in_use st)"
  using Allocator_Alloc_ok [OF assms] by blast

theorem Allocator_Alloc_fresh_witness:
  "\<exists>e st'. Allocator_Alloc 8 [\<lparr> sc_id = 4, sc_flag = 0x7fffffffffffffff \<rparr>] = Inr (Some e, st') \<and> slab_ok st' \<and>
    e \<notin> slab_in_use [\<lparr> sc_id = 4, sc_flag = 0x7fffffffffffffff \<rparr>] \<and>
    slab_in_use st' = insert e (slab_in_use [\<lparr> sc_id = 4, sc_flag = 0x7fffffffffffffff \<rparr>])"
  using Allocator_Alloc_fresh [of "[\<lparr> sc_id = 4, sc_flag = 0x7fffffffffffffff \<rparr>]" 8]
  by (simp add: slab_ok_def slab_full_def)

text \<open>releasing one of the first 31 entries of a container releases exactly
  that entry and keeps the invariant.
\<close>

theorem Allocator_Free_releases:
  assumes "slab_ok st" and "(cid, k) \<in> slab_in_use st" and "k < 31"
  shows "\<exists>st'. Allocator_Free st (cid, k) = Inr st' \<and> slab_ok st' \<and> slab_in_use st' = slab_in_use st - {(cid, k)}"
  by (rule Allocator_Free_ok [OF assms])

theorem Allocator_Free_releases_witness:
  "\<exists>st'. Allocator_Free [\<lparr> sc_id = 4, sc_flag = 3 \<rparr>] (4, 1) = Inr st' \<and> slab_ok st' \<and>
    slab_in_use st' = slab_in_use [\<lparr> sc_id = 4, sc_flag = 3 \<rparr>] - {(4, 1)}"
  using Allocator_Free_releases [of "[\<lparr> sc_id = 4, sc_flag = 3 \<rparr>]" 4 1]
  by (simp add: slab_ok_def slab_full_def)

text \<open>releasing entry 31 of a container also releases every entry above it:
  objects that are still in use can be handed out again.
\<close>

theorem Allocator_Free_31_releases_upper_half:
  "Allocator_Free [\<lparr> sc_id = c, sc_flag = f \<rparr>] (c, 31) = Inr [\<lparr> sc_id = c, sc_flag = f AND 0x7fffffff \<rparr>] \<and>
   (\<forall>k. 31 \<le> k \<longrightarrow> (c, k) \<notin> slab_in_use [\<lparr> sc_id = c, sc_flag = f AND 0x7fffffff \<rparr>])"
proof
  show "Allocator_Free [\<lparr> sc_id = c, sc_flag = f \<rparr>] (c, 31) = Inr [\<lparr> sc_id = c, sc_flag = f AND 0x7fffffff \<rparr>]"
    by (simp add: Allocator_Free_def free_mask_def Let_def)
  have "(0x7fffffff :: u64) = mask 31"
    by (simp add: mask_eq_exp_minus_1)
  then have "\<not> bit (0x7fffffff :: u64) k" if "31 \<le> k" for k
    using that by (simp only: bit_mask_iff) simp
  then show "\<forall>k. 31 \<le> k \<longrightarrow> (c, k) \<notin> slab_in_use [\<lparr> sc_id = c, sc_flag = f AND 0x7fffffff \<rparr>]"
    by (simp add: slab_in_use_def bit_and_iff)
qed

theorem Allocator_Free_31_releases_upper_half_witness:
  "(7, 40) \<in> slab_in_use [\<lparr> sc_id = 7, sc_flag = 0x10080000000 \<rparr>] \<and>
   (7, 40) \<notin> slab_in_use [\<lparr> sc_id = 7, sc_flag = 0x10080000000 AND 0x7fffffff \<rparr>]"
proof -
  have "bit (0x10080000000 :: u64) 40"
    by (simp add: bit_iff_odd)
  then show ?thesis
    using Allocator_Free_31_releases_upper_half [of 7 "0x10080000000"] by (auto simp: slab_in_use_def)
qed

end
