(* ===== verification/Phys_Mem.thy ===== *)
theory Phys_Mem
  imports Raph_Prelude
begin

text \<open>
  \<open>PhysmemCtrl\<close> of \<open>mem/physmem.h\<close> and \<open>mem/physmem.cc\<close>: the physical page
  allocator. Its state is the chain of allocated areas in address order,
  modelled as the list of the areas the chain visits; a pointer into the chain
  is a position of that list. All addresses and sizes are 64-bit words.
\<close>

section \<open>State\<close>

record AllocatedArea =
  start_addr :: u64
  end_addr :: u64

record PhysmemCtrl =
  allocated_area :: "AllocatedArea list"
  is_initialized :: bool
  is_able_to_allocate :: bool

record AllocOption =
  opt_align :: u64
  non_recursive :: bool

record PhysAddr =
  pa_is_initialized :: bool
  pa_addr :: u64

definition kPageSize :: u64 where
  "kPageSize = 0x1000"

definition kLinearMapOffset :: u64 where
  "kLinearMapOffset = 0xffff800000000000"

definition p2v :: "u64 \<Rightarrow> u64" where
  "p2v addr = kLinearMapOffset + addr"

definition v2p :: "u64 \<Rightarrow> u64 kres" where
  "v2p addr = kbind (kassert (kLinearMapOffset \<le> addr)) (\<lambda>_. Inr (addr - kLinearMapOffset))"

definition PhysAddr_new :: PhysAddr where
  "PhysAddr_new = \<lparr> pa_is_initialized = False, pa_addr = 0 \<rparr>"

definition PhysAddr_SetAddr :: "PhysAddr \<Rightarrow> u64 \<Rightarrow> PhysAddr kres" where
  "PhysAddr_SetAddr p a =
     kbind (kassert (\<not> pa_is_initialized p)) (\<lambda>_. Inr \<lparr> pa_is_initialized = True, pa_addr = a \<rparr>)"

definition PhysAddr_GetAddr :: "PhysAddr \<Rightarrow> u64 kres" where
  "PhysAddr_GetAddr p = kbind (kassert (pa_is_initialized p)) (\<lambda>_. Inr (pa_addr p))"

definition PhysAddr_Reset :: "PhysAddr \<Rightarrow> PhysAddr" where
  "PhysAddr_Reset p = p \<lparr> pa_is_initialized := False \<rparr>"

text \<open>\<open>phys_memory_end\<close> is the linker symbol at the end of the kernel image.\<close>

definition PhysmemCtrl_new :: "u64 \<Rightarrow> PhysmemCtrl kres" where
  "PhysmemCtrl_new phys_memory_end =
     kbind (kassert (phys_memory_end mod kPageSize = 0)) (\<lambda>_.
     kbind (kassert (phys_memory_end < 0x600000)) (\<lambda>_.
     Inr \<lparr> allocated_area = [\<lparr> start_addr = 0, end_addr = 0x600000 \<rparr>],
           is_initialized = False, is_able_to_allocate = False \<rparr>))"

definition EnableToAllocate :: "PhysmemCtrl \<Rightarrow> PhysmemCtrl kres" where
  "EnableToAllocate st = kbind (kassert (\<not> is_able_to_allocate st))
     (\<lambda>_. Inr (st \<lparr> is_able_to_allocate := True \<rparr>))"

section \<open>Allocation\<close>

text \<open>
  The search loop of \<open>AllocSub\<close>: from position \<open>i\<close>, with the first fragmented
  position seen so far. The subtraction wraps, as \<open>phys_addr\<close> is unsigned.
\<close>

function alloc_find :: "u64 \<Rightarrow> u64 \<Rightarrow> AllocatedArea list \<Rightarrow> nat \<Rightarrow> nat option \<Rightarrow> nat \<times> nat option" where
  "alloc_find al sz as i fraged =
     (if i + 1 < length as
      then (let fraged' = (if fraged = None \<and> start_addr (as ! (i + 1)) = end_addr (as ! i)
                           then Some i else fraged) in
            if sz \<le> start_addr (as ! (i + 1)) - alignUp (end_addr (as ! i)) al
            then (i, fraged')
            else alloc_find al sz as (i + 1) fraged')
      else (i, fraged))"
  by pat_completeness auto
termination
  by (relation "measure (\<lambda>(al, sz, as, i, fraged). length as - i)") auto

declare alloc_find.simps [simp del]

definition alloc_at :: "u64 \<Rightarrow> u64 \<Rightarrow> AllocatedArea list \<Rightarrow> nat \<Rightarrow> u64 \<times> AllocatedArea list" where
  "alloc_at al sz as i =
     (let a = as ! i; up = alignUp (end_addr a) al in
      if up \<noteq> end_addr a
      then (up, take (i + 1) as @ \<lparr> start_addr = up, end_addr = up + sz \<rparr> # drop (i + 1) as)
      else (end_addr a, as[i := a \<lparr> end_addr := end_addr a + sz \<rparr>]))"

text \<open>Joining the area at position \<open>k\<close> with the one after it.\<close>

definition merge_fraged :: "nat option \<Rightarrow> AllocatedArea list \<Rightarrow> AllocatedArea list" where
  "merge_fraged fraged as = (case fraged of None \<Rightarrow> as
     | Some k \<Rightarrow> take k as @ (as ! k) \<lparr> end_addr := end_addr (as ! (k + 1)) \<rparr> # drop (k + 2) as)"

text \<open>\<open>mem_end\<close> is \<open>multiboot_ctrl->GetPhysMemoryEnd()\<close>.\<close>

definition AllocSub ::
  "u64 \<Rightarrow> PhysmemCtrl \<Rightarrow> PhysAddr \<Rightarrow> u64 \<Rightarrow> AllocOption \<Rightarrow> (PhysAddr \<times> PhysmemCtrl) kres" where
  "AllocSub mem_end st paddr sz option =
     kbind (kassert (is_initialized st)) (\<lambda>_.
     kbind (kassert (0 < sz)) (\<lambda>_.
     kbind (kassert (sz mod kPageSize = 0)) (\<lambda>_.
     kbind (kassert (\<not> non_recursive option \<or> opt_align option = 1)) (\<lambda>_.
     let (i, fraged) = alloc_find (opt_align option) sz (allocated_area st) 0 None;
         (addr, as) = alloc_at (opt_align option) sz (allocated_area st) i
     in if mem_end \<le> end_addr (as ! i) then Inl Kernel_Panic
        else kbind (PhysAddr_SetAddr paddr addr) (\<lambda>paddr'.
          Inr (paddr', st \<lparr> allocated_area := merge_fraged fraged as \<rparr>))))))"

definition Alloc :: "u64 \<Rightarrow> PhysmemCtrl \<Rightarrow> PhysAddr \<Rightarrow> u64 \<Rightarrow> (PhysAddr \<times> PhysmemCtrl) kres" where
  "Alloc mem_end st paddr sz =
     kbind (kassert (is_able_to_allocate st)) (\<lambda>_.
     AllocSub mem_end st paddr sz \<lparr> opt_align = 1, non_recursive = False \<rparr>)"

definition AllocAligned ::
  "u64 \<Rightarrow> PhysmemCtrl \<Rightarrow> PhysAddr \<Rightarrow> u64 \<Rightarrow> u64 \<Rightarrow> (PhysAddr \<times> PhysmemCtrl) kres" where
  "AllocAligned mem_end st paddr sz al =
     AllocSub mem_end st paddr sz \<lparr> opt_align = al, non_recursive = False \<rparr>"

definition AllocNonRecursive ::
  "u64 \<Rightarrow> PhysmemCtrl \<Rightarrow> PhysAddr \<Rightarrow> u64 \<Rightarrow> (PhysAddr \<times> PhysmemCtrl) kres" where
  "AllocNonRecursive mem_end st paddr sz =
     AllocSub mem_end st paddr sz \<lparr> opt_align = 1, non_recursive = True \<rparr>"

section \<open>Release\<close>

fun free_find :: "u64 \<Rightarrow> u64 \<Rightarrow> AllocatedArea list \<Rightarrow> nat option" where
  "free_find addr sz [] = None"
| "free_find addr sz (a # as) =
     (if start_addr a \<le> addr \<and> addr + sz \<le> end_addr a then Some 0
      else map_option Suc (free_find addr sz as))"

definition free_at :: "u64 \<Rightarrow> u64 \<Rightarrow> AllocatedArea list \<Rightarrow> nat \<Rightarrow> AllocatedArea list" where
  "free_at addr sz as i =
     (let a = as ! i in
      if start_addr a = addr then as[i := a \<lparr> start_addr := start_addr a + sz \<rparr>]
      else if end_addr a = addr + sz then as[i := a \<lparr> end_addr := addr \<rparr>]
      else take i as @ a \<lparr> end_addr := addr \<rparr>
             # \<lparr> start_addr = addr + sz, end_addr = end_addr a \<rparr> # drop (i + 1) as)"

definition Free :: "PhysmemCtrl \<Rightarrow> PhysAddr \<Rightarrow> u64 \<Rightarrow> (PhysAddr \<times> PhysmemCtrl) kres" where
  "Free st paddr sz =
     kbind (kassert (0 < sz)) (\<lambda>_.
     kbind (kassert (sz mod kPageSize = 0)) (\<lambda>_.
     kbind (PhysAddr_GetAddr paddr) (\<lambda>addr.
     Inr (PhysAddr_Reset paddr,
          case free_find addr sz (allocated_area st) of
            None \<Rightarrow> st
          | Some i \<Rightarrow> st \<lparr> allocated_area := free_at addr sz (allocated_area st) i \<rparr>))))"

section \<open>Reservation\<close>

definition ReserveSub2 :: "AllocatedArea list \<Rightarrow> nat \<Rightarrow> u64 \<Rightarrow> u64 \<Rightarrow> AllocatedArea list" where
  "ReserveSub2 as i addr sz =
     (let a = as ! i in
      if addr < end_addr a
      then (if end_addr a < addr + sz then as[i := a \<lparr> end_addr := addr + sz \<rparr>] else as)
      else take (i + 1) as @ \<lparr> start_addr = addr, end_addr = addr + sz \<rparr> # drop (i + 1) as)"

text \<open>How one run of the loop of \<open>ReserveSub\<close> ends: it breaks, it calls \<open>ReserveSub\<close>
  again on the rest of the region, or an assertion fails.\<close>

datatype reserve_walk_end =
    Break "AllocatedArea list" "nat option"
  | Again "AllocatedArea list" u64 u64
  | Stop kfault

function reserve_walk :: "u64 \<Rightarrow> u64 \<Rightarrow> AllocatedArea list \<Rightarrow> nat \<Rightarrow> nat option \<Rightarrow> reserve_walk_end" where
  "reserve_walk addr sz as i fraged =
     (if i + 1 < length as then
       (let a = as ! i; b = as ! (i + 1);
            fraged' = (if fraged = None \<and> start_addr b = end_addr a then Some i else fraged) in
        if \<not> start_addr a \<le> addr then Stop Kassert
        else if addr < end_addr a then
          (if addr + sz < end_addr a then Break as fraged'
           else if addr + sz \<le> start_addr b
           then Break (as[i := a \<lparr> end_addr := addr + sz \<rparr>]) fraged'
           else Again (as[i := a \<lparr> end_addr := start_addr b \<rparr>]) (start_addr b)
                  (addr + sz - start_addr b))
        else if addr \<le> start_addr b then
          (if addr + sz \<le> start_addr b
           then Break (take (i + 1) as @ \<lparr> start_addr = addr, end_addr = addr + sz \<rparr>
                         # drop (i + 1) as) fraged'
           else Again (as[i + 1 := b \<lparr> start_addr := addr \<rparr>]) (start_addr b)
                  (addr + sz - start_addr b))
        else if i + 2 < length as then reserve_walk addr sz as (i + 1) fraged'
        else Break (ReserveSub2 as (i + 1) addr sz) fraged')
      else Break as fraged)"
  by pat_completeness auto
termination
  by (relation "measure (\<lambda>(addr, sz, as, i, fraged). length as - i)") auto

declare reserve_walk.simps [simp del]

text \<open>
  \<open>ReserveSub\<close> calls itself; the first argument bounds the depth of the calls and
  \<open>None\<close> says that the bound was reached.
\<close>

fun ReserveSub :: "nat \<Rightarrow> AllocatedArea list \<Rightarrow> u64 \<Rightarrow> u64 \<Rightarrow> AllocatedArea list kres option" where
  "ReserveSub 0 as addr sz = None"
| "ReserveSub (Suc n) as addr sz =
     (if sz = 0 then Some (Inr as)
      else if \<not> (sz mod kPageSize = 0 \<and> addr mod kPageSize = 0) then Some (Inl Kassert)
      else if as = [] then Some (Inl Kassert)
      else if length as = 1 then Some (Inr (ReserveSub2 as 0 addr sz))
      else (case reserve_walk addr sz as 0 None of
          Break as' fraged \<Rightarrow> Some (Inr (merge_fraged fraged as'))
        | Again as' addr' sz' \<Rightarrow> ReserveSub n as' addr' sz'
        | Stop e \<Rightarrow> Some (Inl e)))"

definition Reserve :: "nat \<Rightarrow> PhysmemCtrl \<Rightarrow> u64 \<Rightarrow> u64 \<Rightarrow> PhysmemCtrl kres option" where
  "Reserve n st addr sz =
     map_option (kmap (\<lambda>as. st \<lparr> allocated_area := as \<rparr>)) (ReserveSub n (allocated_area st) addr sz)"

section \<open>Invariant\<close>

text \<open>
  The chain is never empty, every area is an interval, and the areas are in
  address order without overlap (an area may be empty: releasing a whole area
  leaves such a one behind). \<open>owned\<close> is the set of addresses in use.
\<close>

definition areas_ok :: "AllocatedArea list \<Rightarrow> bool" where
  "areas_ok as \<longleftrightarrow> as \<noteq> [] \<and> (\<forall>a\<in>set as. start_addr a \<le> end_addr a) \<and>
     sorted_wrt (\<lambda>a b. end_addr a \<le> start_addr b) as"

definition pages_ok :: "AllocatedArea list \<Rightarrow> bool" where
  "pages_ok as \<longleftrightarrow> (\<forall>a\<in>set as. 4096 dvd unat (start_addr a) \<and> 4096 dvd unat (end_addr a))"

definition owned :: "AllocatedArea list \<Rightarrow> u64 set" where
  "owned as = (\<Union>a\<in>set as. {start_addr a..<end_addr a})"

lemma kPageSize_dvd: "sz mod kPageSize = 0 \<longleftrightarrow> 4096 dvd unat sz"
  by (simp add: kPageSize_def dvd_eq_mod_eq_0 word_eq_unat unat_mod)

lemma page_add: "4096 dvd unat a \<Longrightarrow> 4096 dvd unat b \<Longrightarrow> 4096 dvd unat (a + b)" for a b :: u64
  by (simp add: unat_word_ariths dvd_mod)

lemma owned_append [simp]: "owned (as @ bs) = owned as \<union> owned bs"
  by (auto simp: owned_def)

lemma owned_Cons [simp]: "owned (a # as) = {start_addr a..<end_addr a} \<union> owned as"
  by (auto simp: owned_def)

lemma owned_Nil [simp]: "owned [] = {}"
  by (simp add: owned_def)

lemma pages_ok_append [simp]: "pages_ok (as @ bs) \<longleftrightarrow> pages_ok as \<and> pages_ok bs"
  by (auto simp: pages_ok_def)

lemma pages_ok_Cons [simp]: "pages_ok (a # as) \<longleftrightarrow>
    4096 dvd unat (start_addr a) \<and> 4096 dvd unat (end_addr a) \<and> pages_ok as"
  by (auto simp: pages_ok_def)

text \<open>The invariant around one area: what lies before it, and what lies after it.\<close>

lemma areas_ok_split:
  "areas_ok (pre @ a # post) \<longleftrightarrow>
     (\<forall>c\<in>set pre. start_addr c \<le> end_addr c) \<and> sorted_wrt (\<lambda>a b. end_addr a \<le> start_addr b) pre \<and>
     (\<forall>c\<in>set pre. end_addr c \<le> start_addr a \<and> (\<forall>d\<in>set post. end_addr c \<le> start_addr d)) \<and>
     start_addr a \<le> end_addr a \<and> (\<forall>d\<in>set post. end_addr a \<le> start_addr d) \<and>
     (\<forall>d\<in>set post. start_addr d \<le> end_addr d) \<and> sorted_wrt (\<lambda>a b. end_addr a \<le> start_addr b) post"
  by (auto simp: areas_ok_def sorted_wrt_append)

lemma areas_before:
  assumes "areas_ok (pre @ a # post)" and "x \<in> owned pre"
  shows "x < start_addr a"
  using assms by (fastforce simp: areas_ok_split owned_def)

lemma areas_after:
  assumes "\<forall>d\<in>set post. e \<le> start_addr d" and "x \<in> owned post"
  shows "e \<le> x"
  using assms by (fastforce simp: owned_def)

lemma insert_area:
  assumes ok: "areas_ok (pre @ a # post)" and s: "end_addr a \<le> s" and e: "s \<le> e"
    and post: "\<forall>d\<in>set post. e \<le> start_addr d"
  shows "areas_ok (pre @ a # \<lparr> start_addr = s, end_addr = e \<rparr> # post)"
    and "owned (pre @ a # post) \<inter> {s..<e} = {}"
proof -
  have "end_addr c \<le> s" if "c \<in> set pre" for c
    using ok s that by (auto simp: areas_ok_split intro: order_trans)
  moreover have "end_addr c \<le> start_addr d" if "c \<in> set pre" "d \<in> set post" for c d
    using ok that by (auto simp: areas_ok_split)
  ultimately show "areas_ok (pre @ a # \<lparr> start_addr = s, end_addr = e \<rparr> # post)"
    using ok s e post unfolding areas_ok_split by auto
  have "start_addr a \<le> s"
    using ok s by (auto simp: areas_ok_split)
  then show "owned (pre @ a # post) \<inter> {s..<e} = {}"
    using areas_before [OF ok] areas_after [OF post] s by fastforce
qed

lemma extend_area:
  assumes ok: "areas_ok (pre @ a # post)" and e: "end_addr a \<le> e"
    and post: "\<forall>d\<in>set post. e \<le> start_addr d"
  shows "areas_ok (pre @ a \<lparr> end_addr := e \<rparr> # post)"
    and "owned (pre @ a \<lparr> end_addr := e \<rparr> # post) = owned (pre @ a # post) \<union> {end_addr a..<e}"
proof -
  show "areas_ok (pre @ a \<lparr> end_addr := e \<rparr> # post)"
    using ok e post by (auto simp: areas_ok_split)
  have "start_addr a \<le> end_addr a"
    using ok by (simp add: areas_ok_split)
  then show "owned (pre @ a \<lparr> end_addr := e \<rparr> # post) = owned (pre @ a # post) \<union> {end_addr a..<e}"
    using e by auto
qed

text \<open>Joining two touching areas changes neither the invariant nor the set in use.\<close>

lemma merge_areas:
  assumes "areas_ok (pre @ a # b # post)" and "end_addr a = start_addr b"
  shows "areas_ok (pre @ a \<lparr> end_addr := end_addr b \<rparr> # post)"
    and "owned (pre @ a \<lparr> end_addr := end_addr b \<rparr> # post) = owned (pre @ a # b # post)"
proof -
  have "start_addr a \<le> end_addr a" "start_addr b \<le> end_addr b"
    using assms by (auto simp: areas_ok_split)
  then show "owned (pre @ a \<lparr> end_addr := end_addr b \<rparr> # post) = owned (pre @ a # b # post)"
    using assms(2) by auto
  show "areas_ok (pre @ a \<lparr> end_addr := end_addr b \<rparr> # post)"
    using assms by (auto simp: areas_ok_split)
qed

definition touching :: "nat option \<Rightarrow> AllocatedArea list \<Rightarrow> bool" where
  "touching fraged as \<longleftrightarrow> (case fraged of None \<Rightarrow> True
     | Some k \<Rightarrow> k + 1 < length as \<and> end_addr (as ! k) = start_addr (as ! (k + 1)))"

lemma split_two: "k + 1 < length as \<Longrightarrow> as = take k as @ as ! k # as ! (k + 1) # drop (k + 2) as"
  by (metis Cons_nth_drop_Suc Suc_eq_plus1 Suc_lessD add_2_eq_Suc' append_take_drop_id)

lemma split_one: "k < length as \<Longrightarrow> as = take k as @ as ! k # drop (k + 1) as"
  by (simp add: id_take_nth_drop)

lemma merge_fraged_ok:
  assumes "areas_ok as" and "touching fraged as"
  shows "areas_ok (merge_fraged fraged as)" and "owned (merge_fraged fraged as) = owned as"
    and "pages_ok as \<Longrightarrow> pages_ok (merge_fraged fraged as)"
proof -
  have "areas_ok (merge_fraged fraged as) \<and> owned (merge_fraged fraged as) = owned as
      \<and> (pages_ok as \<longrightarrow> pages_ok (merge_fraged fraged as))"
  proof (cases fraged)
    case None
    then show ?thesis
      using assms by (simp add: merge_fraged_def)
  next
    case (Some k)
    then have k: "k + 1 < length as" and eq: "end_addr (as ! k) = start_addr (as ! (k + 1))"
      using assms(2) by (auto simp: touching_def)
    define pre a b post where "pre = take k as" "a = as ! k" "b = as ! (k + 1)" "post = drop (k + 2) as"
    have as: "as = pre @ a # b # post"
      using split_two [OF k] by (simp add: pre_a_b_post_def)
    have "merge_fraged fraged as = pre @ a \<lparr> end_addr := end_addr b \<rparr> # post"
      using Some by (simp add: merge_fraged_def pre_a_b_post_def)
    moreover have "end_addr a = start_addr b"
      using eq by (simp add: pre_a_b_post_def)
    ultimately show ?thesis
      using merge_areas [of pre a b post] assms(1) unfolding as by simp
  qed
  then show "areas_ok (merge_fraged fraged as)" "owned (merge_fraged fraged as) = owned as"
    "pages_ok as \<Longrightarrow> pages_ok (merge_fraged fraged as)"
    by auto
qed

section \<open>Allocation hands out fresh memory\<close>

lemma word_fit: "u \<le> b \<Longrightarrow> sz \<le> b - u \<Longrightarrow> u + sz \<le> b" "u \<le> b \<Longrightarrow> sz \<le> b - u \<Longrightarrow> u \<le> u + sz"
  for u b sz :: u64
  by (unat_arith, unat_arith)

lemma alloc_find_spec:
  assumes "alloc_find al sz as i f = (j, f')" and "i < length as" and "touching f as"
  shows "j < length as"
    and "j + 1 < length as \<longrightarrow> sz \<le> start_addr (as ! (j + 1)) - alignUp (end_addr (as ! j)) al"
    and "touching f' as"
    and "f' = f \<or> (\<exists>k\<le>j. f' = Some k)"
proof -
  have "j < length as \<and>
      (j + 1 < length as \<longrightarrow> sz \<le> start_addr (as ! (j + 1)) - alignUp (end_addr (as ! j)) al) \<and>
      touching f' as \<and> (f' = f \<or> (\<exists>k. i \<le> k \<and> k \<le> j \<and> f' = Some k)) \<and> i \<le> j"
    using assms
  proof (induction al sz as i f rule: alloc_find.induct)
    case (1 al sz as i f)
    define g where "g = (if f = None \<and> start_addr (as ! (i + 1)) = end_addr (as ! i) then Some i else f)"
    have eq: "alloc_find al sz as i f = (if i + 1 < length as
        then if sz \<le> start_addr (as ! (i + 1)) - alignUp (end_addr (as ! i)) al then (i, g)
             else alloc_find al sz as (i + 1) g else (i, f))"
      by (subst alloc_find.simps) (simp add: g_def Let_def)
    have g: "i + 1 < length as \<Longrightarrow> touching g as"
      using 1(4) by (auto simp: g_def touching_def)
    show ?case
    proof (cases "i + 1 < length as \<and> \<not> sz \<le> start_addr (as ! (i + 1)) - alignUp (end_addr (as ! i)) al")
      case True
      then have "alloc_find al sz as (i + 1) g = (j, f')"
        using 1(2) eq by simp
      then have IH: "j < length as \<and>
          (j + 1 < length as \<longrightarrow> sz \<le> start_addr (as ! (j + 1)) - alignUp (end_addr (as ! j)) al) \<and>
          touching f' as \<and> (f' = g \<or> (\<exists>k. i + 1 \<le> k \<and> k \<le> j \<and> f' = Some k)) \<and> i + 1 \<le> j"
        using True g by (intro 1(1)) (auto simp: g_def)
      moreover have "g = f \<or> g = Some i"
        by (simp add: g_def)
      ultimately show ?thesis
        by auto
    next
      case False
      moreover have "g = f \<or> g = Some i"
        by (simp add: g_def)
      ultimately show ?thesis
        using 1(2-4) eq g by (auto split: if_splits)
    qed
  qed
  then show "j < length as"
    "j + 1 < length as \<longrightarrow> sz \<le> start_addr (as ! (j + 1)) - alignUp (end_addr (as ! j)) al"
    "touching f' as" "f' = f \<or> (\<exists>k\<le>j. f' = Some k)"
    by auto
qed

text \<open>
  What an aligned request needs: no gap is narrower than the padding in front
  of it, and the last area is far enough from the end of the address space.
\<close>

definition room :: "u64 \<Rightarrow> u64 \<Rightarrow> AllocatedArea list \<Rightarrow> bool" where
  "room al sz as \<longleftrightarrow> 0 < al \<and>
     (\<forall>i<length as - 1. alignUp (end_addr (as ! i)) al \<le> start_addr (as ! (i + 1))) \<and>
     unat (end_addr (last as)) + unat al + unat sz \<le> 2 ^ 64"

lemma areas_end_le_last: "areas_ok as \<Longrightarrow> a \<in> set as \<Longrightarrow> end_addr a \<le> end_addr (last as)"
proof (induction as rule: rev_induct)
  case (snoc b as)
  then show ?case
    by (auto simp: areas_ok_def sorted_wrt_append intro: order_trans)
qed simp

lemma areas_start_ge:
  assumes "areas_ok as" and "i + 1 < length as" and "d \<in> set (drop (i + 1) as)"
  shows "start_addr (as ! (i + 1)) \<le> start_addr d"
proof -
  obtain k where k: "d = as ! k" "i + 1 \<le> k" "k < length as"
    using assms(3) by (auto simp: in_set_conv_nth)
  show ?thesis
  proof (cases "k = i + 1")
    case False
    then have "end_addr (as ! (i + 1)) \<le> start_addr (as ! k)"
      using assms(1) k by (auto simp: areas_ok_def sorted_wrt_iff_nth_less)
    moreover have "start_addr (as ! (i + 1)) \<le> end_addr (as ! (i + 1))"
      using assms by (auto simp: areas_ok_def)
    ultimately show ?thesis
      using k by simp
  qed (simp add: k)
qed

lemma areas_start_mono:
  assumes "areas_ok as" and "i < j" and "j < length as"
  shows "start_addr (as ! i) \<le> end_addr (as ! i)" and "end_addr (as ! i) \<le> start_addr (as ! j)"
  using assms by (auto simp: areas_ok_def sorted_wrt_iff_nth_less)

lemma room_one:
  assumes "areas_ok as" and "unat (end_addr (last as)) + 1 + unat sz \<le> 2 ^ 64"
  shows "room 1 sz as"
proof -
  have "end_addr (as ! i) \<le> start_addr (as ! (i + 1))" if "i < length as - 1" for i
    using assms(1) that by (auto simp: areas_ok_def sorted_wrt_iff_nth_less)
  then show ?thesis
    using assms(2) by (simp add: room_def)
qed

text \<open>The block at the chosen position lies in the gap after that position.\<close>

lemma alloc_gap:
  assumes ok: "areas_ok as" and room: "room al sz as" and j: "j < length as"
    and fit: "j + 1 < length as \<longrightarrow> sz \<le> start_addr (as ! (j + 1)) - alignUp (end_addr (as ! j)) al"
  defines "u \<equiv> alignUp (end_addr (as ! j)) al"
  shows "end_addr (as ! j) \<le> u" and "u \<le> u + sz" and "\<forall>d\<in>set (drop (j + 1) as). u + sz \<le> start_addr d"
proof -
  have al: "0 < unat al"
    using room by (simp add: room_def word_less_unat)
  have "unat (end_addr (as ! j)) \<le> unat (end_addr (last as))"
    using areas_end_le_last [OF ok] j by (simp add: word_le_unat)
  then have wrap: "unat (end_addr (as ! j)) + unat al + unat sz \<le> 2 ^ 64"
    using room by (simp add: room_def)
  then have up: "unat (end_addr (as ! j)) \<le> unat u" "unat u < unat (end_addr (as ! j)) + unat al"
    unfolding u_def by (intro alignUp_ge al; simp)+
  show "end_addr (as ! j) \<le> u"
    using up by (simp add: word_le_unat)
  have "unat u + unat sz < 2 ^ 64"
    using up wrap by linarith
  then show "u \<le> u + sz"
    by (simp add: word_le_unat unat_plus_no_wrap)
  show "\<forall>d\<in>set (drop (j + 1) as). u + sz \<le> start_addr d"
  proof
    fix d assume d: "d \<in> set (drop (j + 1) as)"
    then have j1: "j + 1 < length as"
      using not_le by fastforce
    then have "u \<le> start_addr (as ! (j + 1))"
      using room by (simp add: room_def u_def)
    then have "u + sz \<le> start_addr (as ! (j + 1))"
      using fit j1 by (intro word_fit) (simp_all add: u_def)
    then show "u + sz \<le> start_addr d"
      using areas_start_ge [OF ok j1 d] by simp
  qed
qed

lemma alloc_at_split:
  "alloc_at al sz (pre @ a # post) (length pre) =
     (let u = alignUp (end_addr a) al in
      if u \<noteq> end_addr a then (u, pre @ a # \<lparr> start_addr = u, end_addr = u + sz \<rparr> # post)
      else (u, pre @ a \<lparr> end_addr := u + sz \<rparr> # post))"
  by (simp add: alloc_at_def Let_def)

lemma alloc_at_ok:
  assumes ok: "areas_ok as" and room: "room al sz as" and j: "j < length as"
    and fit: "j + 1 < length as \<longrightarrow> sz \<le> start_addr (as ! (j + 1)) - alignUp (end_addr (as ! j)) al"
    and res: "alloc_at al sz as j = (addr, as')"
  shows "addr = alignUp (end_addr (as ! j)) al" and "areas_ok as'"
    and "owned as' = owned as \<union> {addr..<addr + sz}" and "owned as \<inter> {addr..<addr + sz} = {}"
    and "addr \<le> addr + sz"
proof -
  show addr: "addr = alignUp (end_addr (as ! j)) al"
    using res by (auto simp: alloc_at_def Let_def split: if_splits)
  note gap = alloc_gap [OF ok room j fit, folded addr]
  show "addr \<le> addr + sz"
    by (rule gap)
  obtain pre a post where as: "as = pre @ a # post" and lp: "j = length pre"
    using split_one [OF j] j by (metis length_take min.absorb4)
  have ok': "areas_ok (pre @ a # post)"
    using ok as by simp
  have gap': "end_addr a \<le> addr" "\<forall>d\<in>set post. addr + sz \<le> start_addr d"
    using gap by (simp_all add: as lp)
  have res': "(addr, as') = (if addr \<noteq> end_addr a
      then (addr, pre @ a # \<lparr> start_addr = addr, end_addr = addr + sz \<rparr> # post)
      else (addr, pre @ a \<lparr> end_addr := addr + sz \<rparr> # post))"
    using res addr unfolding as lp alloc_at_split by (simp add: Let_def split: if_splits)
  note ins = insert_area [OF ok' gap'(1) gap(2) gap'(2)]
  show "owned as \<inter> {addr..<addr + sz} = {}"
    unfolding as by (rule ins)
  show "areas_ok as'" "owned as' = owned as \<union> {addr..<addr + sz}"
    using res' ins extend_area [OF ok' order_trans [OF gap'(1) gap(2)] gap'(2)]
    unfolding as by (auto split: if_splits)
qed

lemma alloc_at_touching:
  assumes ok: "areas_ok as" and room: "room al sz as" and find: "alloc_find al sz as 0 None = (j, f)"
    and sz: "0 < sz" and res: "alloc_at al sz as j = (addr, as')"
  shows "touching f as'"
proof (cases f)
  case (Some k)
  have len: "0 < length as"
    using ok by (simp add: areas_ok_def)
  note spec = alloc_find_spec [OF find len, unfolded touching_def, simplified]
  have k: "k \<le> j" "k + 1 < length as" "end_addr (as ! k) = start_addr (as ! (k + 1))"
    using spec(3,4) Some by auto
  have "k \<noteq> j"
  proof
    assume "k = j"
    then have "alignUp (end_addr (as ! j)) al \<le> start_addr (as ! (j + 1))"
      using room k(2) by (auto simp: room_def)
    then have "alignUp (end_addr (as ! j)) al \<le> end_addr (as ! j)"
      using k(3) \<open>k = j\<close> by simp
    moreover have "end_addr (as ! j) \<le> alignUp (end_addr (as ! j)) al"
      using alloc_gap(1) [OF ok room spec(1)] spec(2) by auto
    ultimately show False
      using spec(2) k sz \<open>k = j\<close> by auto
  qed
  then show ?thesis
    using k Some res spec(1)
    by (auto simp: touching_def alloc_at_def Let_def nth_append nth_list_update split: if_splits)
qed (simp add: touching_def)

lemma alloc_at_pages:
  assumes "pages_ok as" and "j < length as" and "4096 dvd unat sz"
    and "4096 dvd unat al \<or> al = 1" and "alloc_at al sz as j = (addr, as')"
  shows "pages_ok as'" and "4096 dvd unat addr"
proof -
  have e: "4096 dvd unat (end_addr (as ! j))" "4096 dvd unat (start_addr (as ! j))"
    using assms(1,2) by (auto simp: pages_ok_def)
  have u: "4096 dvd unat (alignUp (end_addr (as ! j)) al)"
    using e(1) assms(4) alignUp_dvd [of al "end_addr (as ! j)"] by (auto intro: dvd_trans)
  have "pages_ok as" "pages_ok (take (j + 1) as)" "pages_ok (drop (j + 1) as)"
    using assms(1) by (auto simp: pages_ok_def dest: in_set_takeD in_set_dropD)
  moreover have "pages_ok (as[j := a])"
    if "4096 dvd unat (start_addr a)" "4096 dvd unat (end_addr a)" for a
    using that assms(1) by (auto simp: pages_ok_def dest!: set_update_subset_insert [THEN subsetD])
  ultimately show "pages_ok as'" "4096 dvd unat addr"
    using assms(3,5) u e by (auto simp: alloc_at_def Let_def page_add split: if_splits)
qed

lemma alloc_at_ends:
  assumes "j < length as" and "alloc_at al sz as j = (addr, as')"
  shows "end_addr ` set as' \<subseteq> insert (addr + sz) (end_addr ` set as)"
proof -
  obtain pre a post where as: "as = pre @ a # post" "j = length pre"
    using split_one [OF assms(1)] assms(1) by (metis length_take min.absorb4)
  show ?thesis
    using assms(2) unfolding as alloc_at_split by (auto simp: Let_def split: if_splits)
qed

lemma merge_fraged_ends:
  assumes "touching fraged as"
  shows "end_addr ` set (merge_fraged fraged as) \<subseteq> end_addr ` set as"
  using assms
  by (auto simp: merge_fraged_def touching_def split: option.splits dest: in_set_takeD in_set_dropD)

text \<open>
  The full account of a request that the preconditions admit. The position found
  decides between success and the out-of-memory panic; on success the block is
  fresh, aligned, and now in use, and nothing else changed.
\<close>

lemma AllocSub_cases:
  assumes st: "is_initialized st" "areas_ok (allocated_area st)"
    and sz: "0 < sz" "sz mod kPageSize = 0"
    and opt: "non_recursive opt \<longrightarrow> opt_align opt = 1" and room: "room (opt_align opt) sz (allocated_area st)"
    and p: "\<not> pa_is_initialized p"
  obtains (panic) i where "i < length (allocated_area st)"
      "AllocSub mem_end st p sz opt = Inl Kernel_Panic"
      "mem_end \<le> end_addr (allocated_area st ! i) + sz"
    | (ok) addr as where
      "AllocSub mem_end st p sz opt =
         Inr (\<lparr> pa_is_initialized = True, pa_addr = addr \<rparr>, st \<lparr> allocated_area := as \<rparr>)"
      "areas_ok as" "owned as = owned (allocated_area st) \<union> {addr..<addr + sz}"
      "owned (allocated_area st) \<inter> {addr..<addr + sz} = {}" "addr < addr + sz"
      "unat (opt_align opt) dvd unat addr" "opt_align opt = 1 \<Longrightarrow> addr + sz < mem_end"
      "pages_ok (allocated_area st) \<Longrightarrow> 4096 dvd unat (opt_align opt) \<or> opt_align opt = 1 \<Longrightarrow>
         pages_ok as \<and> 4096 dvd unat addr"
      "end_addr ` set as \<subseteq> insert (addr + sz) (end_addr ` set (allocated_area st))"
proof -
  let ?as = "allocated_area st" and ?al = "opt_align opt"
  obtain j f where find: "alloc_find ?al sz ?as 0 None = (j, f)"
    by (cases "alloc_find ?al sz ?as 0 None")
  obtain addr as where at: "alloc_at ?al sz ?as j = (addr, as)"
    by (cases "alloc_at ?al sz ?as j")
  have len: "0 < length ?as"
    using st by (simp add: areas_ok_def)
  have spec: "j < length ?as"
    "j + 1 < length ?as \<longrightarrow> sz \<le> start_addr (?as ! (j + 1)) - alignUp (end_addr (?as ! j)) ?al"
    using alloc_find_spec(1,2) [OF find len] by (auto simp: touching_def)
  note at_ok = alloc_at_ok [OF st(2) room spec at]
  note merge = merge_fraged_ok [OF at_ok(2) alloc_at_touching [OF st(2) room find sz(1) at]]
  have run: "AllocSub mem_end st p sz opt = (if mem_end \<le> end_addr (as ! j) then Inl Kernel_Panic
      else Inr (\<lparr> pa_is_initialized = True, pa_addr = addr \<rparr>, st \<lparr> allocated_area := merge_fraged f as \<rparr>))"
    using st sz opt p find at by (auto simp: AllocSub_def PhysAddr_SetAddr_def Let_def kassert_def)
  have endj: "end_addr (as ! j) = end_addr (?as ! j) + (if addr = end_addr (?as ! j) then sz else 0)"
    using at spec(1) by (auto simp: alloc_at_def Let_def nth_append split: if_splits)
  show ?thesis
  proof (cases "mem_end \<le> end_addr (as ! j)")
    case True
    have "end_addr (?as ! j) \<le> end_addr (?as ! j) + sz"
    proof -
      have "unat (end_addr (?as ! j)) \<le> unat (end_addr (last ?as))"
        using areas_end_le_last [OF st(2)] spec(1) by (simp add: word_le_unat)
      then have "unat (end_addr (?as ! j)) + unat sz < 2 ^ 64"
        using room by (auto simp: room_def word_less_unat)
      then show ?thesis
        by (simp add: word_le_unat unat_plus_no_wrap)
    qed
    then have "mem_end \<le> end_addr (?as ! j) + sz"
      using True endj by (auto split: if_splits)
    then show ?thesis
      using panic spec(1) run True by auto
  next
    case False
    show ?thesis
    proof (rule ok)
      show "AllocSub mem_end st p sz opt = Inr (\<lparr> pa_is_initialized = True, pa_addr = addr \<rparr>,
          st \<lparr> allocated_area := merge_fraged f as \<rparr>)"
        using run False by simp
      show "areas_ok (merge_fraged f as)"
        "owned (merge_fraged f as) = owned ?as \<union> {addr..<addr + sz}"
        using merge at_ok by simp_all
      show "owned ?as \<inter> {addr..<addr + sz} = {}" "addr < addr + sz"
        using at_ok sz(1) by (auto simp: order.strict_iff_order)
      show "unat ?al dvd unat addr"
        unfolding at_ok(1) by (rule alignUp_dvd)
      show "addr + sz < mem_end" if "?al = 1"
        using that False endj at_ok(1) by simp
      show "pages_ok (merge_fraged f as) \<and> 4096 dvd unat addr"
        if "pages_ok ?as" "4096 dvd unat ?al \<or> ?al = 1"
        using alloc_at_pages [OF that(1) spec(1) _ that(2) at] merge(3) sz(2) kPageSize_dvd by auto
      show "end_addr ` set (merge_fraged f as) \<subseteq> insert (addr + sz) (end_addr ` set ?as)"
        using merge_fraged_ends [OF alloc_at_touching [OF st(2) room find sz(1) at]]
          alloc_at_ends [OF spec(1) at] by blast
    qed
  qed
qed

section \<open>Release\<close>

definition covers :: "AllocatedArea list \<Rightarrow> u64 \<Rightarrow> u64 \<Rightarrow> bool" where
  "covers as s e \<longleftrightarrow> (\<exists>a\<in>set as. start_addr a \<le> s \<and> e \<le> end_addr a)"

lemma free_find_Some:
  "free_find addr sz as = Some i \<Longrightarrow>
   i < length as \<and> start_addr (as ! i) \<le> addr \<and> addr + sz \<le> end_addr (as ! i)"
  by (induction as arbitrary: i) (auto split: if_splits)

lemma free_find_None_iff: "free_find addr sz as = None \<longleftrightarrow> \<not> covers as addr (addr + sz)"
  by (induction as) (auto simp: covers_def)

lemma free_at_split:
  "free_at addr sz (pre @ a # post) (length pre) =
     (if start_addr a = addr then pre @ a \<lparr> start_addr := start_addr a + sz \<rparr> # post
      else if end_addr a = addr + sz then pre @ a \<lparr> end_addr := addr \<rparr> # post
      else pre @ a \<lparr> end_addr := addr \<rparr> # \<lparr> start_addr = addr + sz, end_addr = end_addr a \<rparr> # post)"
  by (simp add: free_at_def Let_def)

lemma free_area:
  assumes ok: "areas_ok (pre @ a # post)" and a: "start_addr a \<le> addr" "addr + sz \<le> end_addr a"
    and wrap: "addr < addr + sz"
  shows "areas_ok (free_at addr sz (pre @ a # post) (length pre))"
    and "owned (free_at addr sz (pre @ a # post) (length pre)) = owned (pre @ a # post) - {addr..<addr + sz}"
proof -
  have "\<forall>d\<in>set post. end_addr a \<le> start_addr d"
    using ok by (simp add: areas_ok_split)
  then have out: "x \<notin> {addr..<addr + sz}" if "x \<in> owned pre \<or> x \<in> owned post" for x
    using areas_before [OF ok, of x] areas_after [of post "end_addr a" x] a that by fastforce
  have mid: "{start_addr a..<end_addr a} - {addr..<addr + sz} = {start_addr a..<addr} \<union> {addr + sz..<end_addr a}"
    using a wrap by auto
  have "owned (pre @ a # post) - {addr..<addr + sz}
      = owned pre \<union> ({start_addr a..<addr} \<union> {addr + sz..<end_addr a}) \<union> owned post"
    unfolding mid [symmetric] using out by auto
  then show "owned (free_at addr sz (pre @ a # post) (length pre)) = owned (pre @ a # post) - {addr..<addr + sz}"
    unfolding free_at_split by auto
  have pre: "end_addr c \<le> addr" "end_addr c \<le> addr + sz" if "c \<in> set pre" for c
    using ok a wrap that by (auto simp: areas_ok_split intro: order_trans)
  have post: "addr \<le> start_addr d" "addr + sz \<le> start_addr d" if "d \<in> set post" for d
    using ok a wrap that by (auto simp: areas_ok_split intro: order_trans)
  show "areas_ok (free_at addr sz (pre @ a # post) (length pre))"
    using ok a wrap pre post unfolding free_at_split by (auto simp: areas_ok_split)
qed

lemma free_at_ok:
  assumes "areas_ok as" and "free_find addr sz as = Some i" and "addr < addr + sz"
  shows "areas_ok (free_at addr sz as i)" and "owned (free_at addr sz as i) = owned as - {addr..<addr + sz}"
proof -
  note i = free_find_Some [OF assms(2)]
  obtain pre a post where as: "as = pre @ a # post" "i = length pre"
    using split_one [of i as] i by (metis length_take min.absorb4)
  show "areas_ok (free_at addr sz as i)" "owned (free_at addr sz as i) = owned as - {addr..<addr + sz}"
    using free_area [of pre a post addr sz] assms(1,3) i by (simp_all add: as)
qed

lemma free_at_pages:
  assumes "pages_ok as" and "i < length as" and "4096 dvd unat addr" and "4096 dvd unat sz"
  shows "pages_ok (free_at addr sz as i)"
proof -
  obtain pre a post where as: "as = pre @ a # post" "i = length pre"
    using split_one [OF assms(2)] assms(2) by (metis length_take min.absorb4)
  show ?thesis
    using assms(1,3,4) by (simp add: as free_at_split page_add)
qed

text \<open>Every block that \<open>AllocSub\<close> hands out lies inside one area of the new chain.\<close>

lemma alloc_at_covers:
  assumes "j < length as" and "alloc_at al sz as j = (addr, as')" and "areas_ok as"
    and "addr \<le> addr + sz"
  shows "covers as' addr (addr + sz)"
proof -
  obtain pre a post where as: "as = pre @ a # post" "j = length pre"
    using split_one [OF assms(1)] assms(1) by (metis length_take min.absorb4)
  have "start_addr a \<le> end_addr a"
    using assms(3) by (simp add: as areas_ok_split)
  then show ?thesis
    using assms(2,4) unfolding as alloc_at_split
    by (auto simp: covers_def Let_def split: if_splits)
qed

lemma merge_fraged_covers:
  assumes "areas_ok as" and "touching fraged as" and "covers as s e"
  shows "covers (merge_fraged fraged as) s e"
proof (cases fraged)
  case None
  then show ?thesis
    using assms by (simp add: merge_fraged_def)
next
  case (Some k)
  then have k: "k + 1 < length as" and eq: "end_addr (as ! k) = start_addr (as ! (k + 1))"
    using assms(2) by (auto simp: touching_def)
  then obtain pre a b post where as: "as = pre @ a # b # post" "k = length pre"
    using split_two [OF k] by (metis Suc_eq_plus1 Suc_lessD length_take min.absorb4)
  have ab: "end_addr a = start_addr b"
    using eq by (simp add: as nth_append)
  have le: "start_addr a \<le> end_addr a" "start_addr b \<le> end_addr b"
    using assms(1) by (auto simp: as areas_ok_split)
  have "merge_fraged fraged as = pre @ a \<lparr> end_addr := end_addr b \<rparr> # post"
    using Some by (simp add: merge_fraged_def as nth_append)
  moreover obtain c where c: "c \<in> set as" "start_addr c \<le> s" "e \<le> end_addr c"
    using assms(3) by (auto simp: covers_def)
  moreover have "start_addr a \<le> s \<and> e \<le> end_addr b" if "c = a \<or> c = b"
    using that c le ab by auto
  ultimately show ?thesis
    by (auto simp: covers_def as)
qed

section \<open>Reservation\<close>

lemma obtain_split:
  assumes "i < length as"
  obtains pre a post where "as = pre @ a # post" "i = length pre"
  using split_one [OF assms] assms by (metis length_take min.absorb4)

lemma extend_at:
  assumes "areas_ok as" and "i < length as" and "start_addr (as ! i) \<le> s" "s \<le> end_addr (as ! i)"
    and "end_addr (as ! i) \<le> e" and "\<forall>d\<in>set (drop (i + 1) as). e \<le> start_addr d"
  shows "areas_ok (as[i := (as ! i) \<lparr> end_addr := e \<rparr>])"
    and "owned (as[i := (as ! i) \<lparr> end_addr := e \<rparr>]) = owned as \<union> {s..<e}"
proof -
  obtain pre a post where as: "as = pre @ a # post" "i = length pre"
    by (rule obtain_split [OF assms(2)])
  have "owned (pre @ a # post) \<union> {end_addr a..<e} = owned (pre @ a # post) \<union> {s..<e}"
    using assms(3-5) by (auto simp: as)
  then show "areas_ok (as[i := (as ! i) \<lparr> end_addr := e \<rparr>])"
    "owned (as[i := (as ! i) \<lparr> end_addr := e \<rparr>]) = owned as \<union> {s..<e}"
    using extend_area [of pre a post e] assms by (simp_all add: as)
qed

lemma insert_at:
  assumes "areas_ok as" and "i < length as" and "end_addr (as ! i) \<le> s" "s \<le> e"
    and "\<forall>d\<in>set (drop (i + 1) as). e \<le> start_addr d"
  shows "areas_ok (take (i + 1) as @ \<lparr> start_addr = s, end_addr = e \<rparr> # drop (i + 1) as)"
    and "owned (take (i + 1) as @ \<lparr> start_addr = s, end_addr = e \<rparr> # drop (i + 1) as) = owned as \<union> {s..<e}"
proof -
  obtain pre a post where as: "as = pre @ a # post" "i = length pre"
    by (rule obtain_split [OF assms(2)])
  show "areas_ok (take (i + 1) as @ \<lparr> start_addr = s, end_addr = e \<rparr> # drop (i + 1) as)"
    using insert_area(1) [of pre a post s e] assms by (simp add: as)
  show "owned (take (i + 1) as @ \<lparr> start_addr = s, end_addr = e \<rparr> # drop (i + 1) as) = owned as \<union> {s..<e}"
    by (auto simp: as)
qed

lemma owned_inside:
  assumes "i < length as" and "start_addr (as ! i) \<le> s" and "e \<le> end_addr (as ! i)"
  shows "owned as = owned as \<union> {s..<e}"
proof -
  have "{s..<e} \<subseteq> {start_addr (as ! i)..<end_addr (as ! i)}"
    using assms by auto
  also have "\<dots> \<subseteq> owned as"
    using nth_mem [OF assms(1)] by (auto simp: owned_def)
  finally show ?thesis
    by blast
qed

lemma ReserveSub2_ok:
  assumes "areas_ok as" and "i + 1 = length as" and "start_addr (as ! i) \<le> addr" and "addr < addr + sz"
  shows "areas_ok (ReserveSub2 as i addr sz)"
    and "owned (ReserveSub2 as i addr sz) = owned as \<union> {addr..<addr + sz}"
proof -
  have i: "i < length as" and post: "\<forall>d\<in>set (drop (i + 1) as). e \<le> start_addr d" for e
    using assms(2) by auto
  show "areas_ok (ReserveSub2 as i addr sz)"
    using extend_at(1) [OF assms(1) i assms(3), of "addr + sz"] insert_at(1) [OF assms(1) i, of addr "addr + sz"]
      post assms by (auto simp: ReserveSub2_def Let_def)
  show "owned (ReserveSub2 as i addr sz) = owned as \<union> {addr..<addr + sz}"
    using extend_at(2) [OF assms(1) i assms(3), of "addr + sz"] insert_at(2) [OF assms(1) i, of addr "addr + sz"]
      owned_inside [OF i assms(3), of "addr + sz"] post assms by (auto simp: ReserveSub2_def Let_def)
qed

text \<open>
  The regions the code reserves correctly in one pass: no area after the first
  begins inside the region.
\<close>

definition no_start_inside :: "AllocatedArea list \<Rightarrow> u64 \<Rightarrow> u64 \<Rightarrow> bool" where
  "no_start_inside as addr sz \<longleftrightarrow> (\<forall>d\<in>set (tl as). \<not> (addr \<le> start_addr d \<and> start_addr d < addr + sz))"

definition touching_before :: "nat option \<Rightarrow> nat \<Rightarrow> AllocatedArea list \<Rightarrow> bool" where
  "touching_before f i as \<longleftrightarrow> touching f as \<and> (\<forall>k. f = Some k \<longrightarrow> k < i)"

lemma touching_update_end:
  assumes "touching f as" and "i < length as" and "f \<noteq> Some i"
  shows "touching f (as[i := (as ! i) \<lparr> end_addr := e \<rparr>])"
  using assms by (auto simp: touching_def nth_list_update split: option.splits)

lemma touching_insert:
  assumes "touching_before f i as" and "i < length as"
  shows "touching f (take (i + 1) as @ n # drop (i + 1) as)"
  using assms by (auto simp: touching_before_def touching_def nth_append split: option.splits)

lemma ReserveSub2_touching:
  assumes "touching f as" and "i + 1 = length as"
  shows "touching f (ReserveSub2 as i addr sz)"
proof -
  have "touching_before f i as"
    using assms by (auto simp: touching_before_def touching_def)
  then show ?thesis
    using assms touching_update_end [of f as i] touching_insert [of f i as]
    by (auto simp: ReserveSub2_def Let_def touching_before_def)
qed

lemma reserve_walk_ok:
  assumes "areas_ok as" and "i + 1 < length as" and "start_addr (as ! i) \<le> addr"
    and "addr < addr + sz" and "no_start_inside as addr sz" and "touching_before f i as"
  shows "\<exists>as' f'. reserve_walk addr sz as i f = Break as' f' \<and> areas_ok as' \<and> touching f' as' \<and>
           owned as' = owned as \<union> {addr..<addr + sz}"
  using assms(2,3,6)
proof (induction "length as - i" arbitrary: i f rule: less_induct)
  case less
  let ?a = "as ! i" and ?b = "as ! (i + 1)"
  define g where "g = (if f = None \<and> start_addr ?b = end_addr ?a then Some i else f)"
  have i: "i < length as" and b: "?b \<in> set (tl as)"
    using less.prems(1) nth_mem [of i "tl as"] by (simp_all add: nth_tl)
  have nb: "start_addr ?b < addr \<or> addr + sz \<le> start_addr ?b"
    using assms(5) b by (auto simp: no_start_inside_def)
  have ab: "end_addr ?a \<le> start_addr ?b"
    using assms(1) less.prems by (auto simp: areas_ok_def sorted_wrt_iff_nth_less)
  have g: "touching g as" "\<And>k. g = Some k \<Longrightarrow> k < i \<or> k = i \<and> start_addr ?b = end_addr ?a"
    using less.prems by (auto simp: g_def touching_before_def touching_def split: if_splits)
  have post: "e \<le> start_addr d" if "e \<le> start_addr ?b" "d \<in> set (drop (i + 1) as)" for e d
    using areas_start_ge [OF assms(1) less.prems(1) that(2)] that(1) by simp
  note walk = reserve_walk.simps [of addr sz as i f, unfolded Let_def, folded g_def]
  consider (inside) "addr < end_addr ?a" "addr + sz < end_addr ?a"
    | (grow) "addr < end_addr ?a" "end_addr ?a \<le> addr + sz" "addr + sz \<le> start_addr ?b"
    | (gap) "end_addr ?a \<le> addr" "addr + sz \<le> start_addr ?b"
    | (step) "end_addr ?a \<le> addr" "start_addr ?b < addr" "i + 2 < length as"
    | (last) "end_addr ?a \<le> addr" "start_addr ?b < addr" "i + 2 = length as"
    using nb ab less.prems(1) by fastforce
  then show ?case
  proof cases
    case inside
    then have "reserve_walk addr sz as i f = Break as g"
      using walk less.prems by (simp add: Let_def g_def)
    moreover have "owned as = owned as \<union> {addr..<addr + sz}"
      using inside by (intro owned_inside [OF i less.prems(2)]) simp
    ultimately show ?thesis
      using assms(1) g by blast
  next
    case grow
    then have "reserve_walk addr sz as i f = Break (as[i := ?a \<lparr> end_addr := addr + sz \<rparr>]) g"
      using walk less.prems by (simp add: Let_def g_def not_less [symmetric])
    moreover have "touching g (as[i := ?a \<lparr> end_addr := addr + sz \<rparr>])"
    proof (cases "g = Some i")
      case True
      then have "addr + sz = end_addr ?a"
        using g(2) [of i] grow by auto
      then have "as[i := ?a \<lparr> end_addr := addr + sz \<rparr>] = as"
        by simp
      then show ?thesis
        using g(1) by metis
    qed (rule touching_update_end [OF g(1) i])
    ultimately show ?thesis
      using extend_at [OF assms(1) i less.prems(2), of "addr + sz"] grow post by auto
  next
    case gap
    then have "\<not> addr < end_addr ?a" "addr \<le> start_addr ?b"
      using assms(4) by auto
    then have "reserve_walk addr sz as i f =
        Break (take (i + 1) as @ \<lparr> start_addr = addr, end_addr = addr + sz \<rparr> # drop (i + 1) as) g"
      using less.prems gap(2) unfolding walk by (simp add: Let_def)
    moreover have "touching_before g i as"
      using g gap assms(4) by (fastforce simp: touching_before_def)
    ultimately show ?thesis
      using insert_at [OF assms(1) i, of addr "addr + sz"] gap assms(4) post touching_insert [OF _ i] by auto
  next
    case step
    then have "\<not> addr < end_addr ?a" "\<not> addr \<le> start_addr ?b"
      by auto
    then have "reserve_walk addr sz as i f = reserve_walk addr sz as (i + 1) g"
      using less.prems step(3) unfolding walk by (simp add: Let_def)
    moreover have "touching_before g (i + 1) as"
      using g by (auto simp: touching_before_def)
    ultimately show ?thesis
      using less.hyps [of "i + 1" g] step by simp
  next
    case last
    then have "\<not> addr < end_addr ?a" "\<not> addr \<le> start_addr ?b"
      by auto
    then have "reserve_walk addr sz as i f = Break (ReserveSub2 as (i + 1) addr sz) g"
      using less.prems last(3) unfolding walk by (simp add: Let_def)
    then show ?thesis
      using ReserveSub2_ok [OF assms(1), of "i + 1" addr sz] ReserveSub2_touching [OF g(1), of "i + 1"]
        last assms(4) by auto
  qed
qed

lemma ReserveSub_one_pass:
  assumes "areas_ok as" and "start_addr (hd as) \<le> addr" and "addr < addr + sz"
    and "no_start_inside as addr sz" and "sz mod kPageSize = 0" "addr mod kPageSize = 0"
  shows "\<exists>as'. ReserveSub (Suc n) as addr sz = Some (Inr as') \<and> areas_ok as' \<and>
           owned as' = owned as \<union> {addr..<addr + sz}"
proof -
  have sz: "sz \<noteq> 0" and ne: "as \<noteq> []"
    using assms(1,3) by (auto simp: areas_ok_def)
  have hd: "start_addr (as ! 0) \<le> addr"
    using assms(2) ne by (simp add: hd_conv_nth)
  show ?thesis
  proof (cases "length as = 1")
    case True
    then show ?thesis
      using ReserveSub2_ok [OF assms(1), of 0 addr sz] hd assms sz ne by simp
  next
    case False
    then have "0 + 1 < length as"
      using ne by (cases as) auto
    then obtain as' f where w: "reserve_walk addr sz as 0 None = Break as' f" "areas_ok as'"
      "touching f as'" "owned as' = owned as \<union> {addr..<addr + sz}"
      using reserve_walk_ok [OF assms(1) _ hd assms(3,4), of None]
      by (auto simp: touching_before_def touching_def)
    then show ?thesis
      using merge_fraged_ok [OF w(2,3)] assms(5,6) sz ne False by simp
  qed
qed

text \<open>The walk passes every area that ends before the region begins.\<close>

lemma reserve_walk_skip:
  assumes ok: "areas_ok as" and "i + 1 < length as" and "start_addr (as ! i) < addr" and "j \<le> i"
  shows "\<exists>f'. reserve_walk addr sz as j f = reserve_walk addr sz as i f'"
  using assms(4)
proof (induction "i - j" arbitrary: j f)
  case 0
  then show ?case
    by auto
next
  case (Suc n)
  then have j: "j < i"
    by simp
  have s: "start_addr (as ! j) \<le> end_addr (as ! j)" "end_addr (as ! j) \<le> start_addr (as ! (j + 1))"
    "start_addr (as ! (j + 1)) \<le> start_addr (as ! i)"
    using areas_start_mono [OF ok, of j "j + 1"] areas_start_mono [OF ok, of "j + 1" i] assms(2) j
    by (cases "j + 1 = i"; force)+
  then have "start_addr (as ! j) \<le> addr" "\<not> addr < end_addr (as ! j)" "\<not> addr \<le> start_addr (as ! (j + 1))"
    using assms(3) by auto
  then have "\<exists>f'. reserve_walk addr sz as j f = reserve_walk addr sz as (j + 1) f'"
    using j assms(2) by (subst reserve_walk.simps) (auto simp: Let_def)
  then obtain f' where "reserve_walk addr sz as j f = reserve_walk addr sz as (j + 1) f'"
    by blast
  then show ?case
    using Suc.hyps(1) [of "j + 1" f'] Suc.hyps(2) j by auto
qed

lemma ReserveSub_loops:
  assumes ok: "areas_ok as" and i: "i + 1 < length as" and "start_addr (as ! i) < addr"
    and "start_addr (as ! (i + 1)) = addr"
    and "addr < addr + sz" and "sz mod kPageSize = 0" "addr mod kPageSize = 0"
  shows "ReserveSub n as addr sz = None"
proof (induction n)
  case (Suc n)
  have "end_addr (as ! i) \<le> addr"
    using ok i assms(4) by (auto simp: areas_ok_def sorted_wrt_iff_nth_less)
  then have "reserve_walk addr sz as i f = Again as addr sz" for f
    using assms by (subst reserve_walk.simps) (auto simp: Let_def list_update_same_conv)
  then have "reserve_walk addr sz as 0 None = Again as addr sz"
    using reserve_walk_skip [OF ok i assms(3), of 0 sz None] by auto
  then show ?case
    using Suc assms by auto
qed simp

section \<open>Properties\<close>

text \<open>C1: the page allocator never hands out memory that is in use. On a
  well-formed chain with room for the padding, a request of a positive number
  of pages either panics for lack of memory or returns an aligned block that
  overlaps no allocated area; afterwards exactly that block has been added to
  the memory in use, the chain is again well formed, and an unaligned request
  stays below the end of memory.
\<close>

theorem AllocSub_fresh:
  assumes "is_initialized st" and "areas_ok (allocated_area st)" and "0 < sz" and "sz mod kPageSize = 0"
    and "non_recursive opt \<longrightarrow> opt_align opt = 1" and "room (opt_align opt) sz (allocated_area st)"
    and "\<not> pa_is_initialized p"
  shows "AllocSub mem_end st p sz opt = Inl Kernel_Panic \<or>
    (\<exists>addr as. AllocSub mem_end st p sz opt =
         Inr (\<lparr> pa_is_initialized = True, pa_addr = addr \<rparr>, st \<lparr> allocated_area := as \<rparr>) \<and>
       areas_ok as \<and> owned (allocated_area st) \<inter> {addr..<addr + sz} = {} \<and> addr < addr + sz \<and>
       owned as = owned (allocated_area st) \<union> {addr..<addr + sz} \<and>
       unat (opt_align opt) dvd unat addr \<and> (opt_align opt = 1 \<longrightarrow> addr + sz < mem_end))"
  using assms by (cases rule: AllocSub_cases [of st sz opt p mem_end]) blast+

theorem AllocSub_fresh_witness:
  defines "as \<equiv> [\<lparr> start_addr = 0, end_addr = 0x600000 \<rparr>, \<lparr> start_addr = 0x601000, end_addr = 0x800000 \<rparr>]"
  shows "AllocSub 0x10000000 \<lparr> allocated_area = as, is_initialized = True, is_able_to_allocate = True \<rparr>
           PhysAddr_new 0x2000 \<lparr> opt_align = 1, non_recursive = False \<rparr> = Inl Kernel_Panic \<or>
    (\<exists>addr bs. AllocSub 0x10000000
          \<lparr> allocated_area = as, is_initialized = True, is_able_to_allocate = True \<rparr>
           PhysAddr_new 0x2000 \<lparr> opt_align = 1, non_recursive = False \<rparr> =
         Inr (\<lparr> pa_is_initialized = True, pa_addr = addr \<rparr>,
              \<lparr> allocated_area = bs, is_initialized = True, is_able_to_allocate = True \<rparr>) \<and>
       areas_ok bs \<and> owned as \<inter> {addr..<addr + 0x2000} = {} \<and> addr < addr + 0x2000 \<and>
       owned bs = owned as \<union> {addr..<addr + 0x2000} \<and> addr + 0x2000 < 0x10000000)"
  using AllocSub_fresh [of "\<lparr> allocated_area = as, is_initialized = True, is_able_to_allocate = True \<rparr>"
      "0x2000" "\<lparr> opt_align = 1, non_recursive = False \<rparr>" PhysAddr_new "0x10000000"]
  by (simp add: as_def areas_ok_def room_def PhysAddr_new_def kPageSize_def less_Suc_eq)

text \<open>releasing a block that lies inside one allocated area removes exactly
  that block from the memory in use and keeps the chain well formed; the
  \<open>PhysAddr\<close> that named it becomes unset.
\<close>

theorem Free_releases:
  assumes "areas_ok (allocated_area st)" and "0 < sz" and "sz mod kPageSize = 0"
    and "pa_is_initialized p" and "pa_addr p < pa_addr p + sz"
    and "covers (allocated_area st) (pa_addr p) (pa_addr p + sz)"
  shows "\<exists>as. Free st p sz = Inr (PhysAddr_Reset p, st \<lparr> allocated_area := as \<rparr>) \<and> areas_ok as \<and>
           owned as = owned (allocated_area st) - {pa_addr p..<pa_addr p + sz}"
proof -
  obtain i where i: "free_find (pa_addr p) sz (allocated_area st) = Some i"
    using assms(6) free_find_None_iff by fastforce
  then show ?thesis
    using free_at_ok [OF assms(1) i assms(5)] assms(2-4)
    by (intro exI [of _ "free_at (pa_addr p) sz (allocated_area st) i"])
      (simp add: Free_def PhysAddr_GetAddr_def kassert_def)
qed

theorem Free_releases_witness:
  defines "st \<equiv> \<lparr> allocated_area = [\<lparr> start_addr = 0, end_addr = 0x600000 \<rparr>],
      is_initialized = True, is_able_to_allocate = True \<rparr>"
  shows "\<exists>as. Free st \<lparr> pa_is_initialized = True, pa_addr = 0x1000 \<rparr> 0x2000 =
        Inr (\<lparr> pa_is_initialized = False, pa_addr = 0x1000 \<rparr>, st \<lparr> allocated_area := as \<rparr>) \<and>
      areas_ok as \<and> owned as = owned (allocated_area st) - {0x1000..<0x3000}"
  using Free_releases [of st "0x2000" "\<lparr> pa_is_initialized = True, pa_addr = 0x1000 \<rparr>"]
  by (simp add: st_def areas_ok_def kPageSize_def covers_def PhysAddr_Reset_def)

text \<open>a block obtained from \<open>Alloc\<close> and then released leaves the memory in use
  as it was before: \<open>Free\<close> finds the block and gives back exactly it.
\<close>

theorem Alloc_Free_roundtrip:
  assumes "areas_ok (allocated_area st)"
    and "unat (end_addr (last (allocated_area st))) + 1 + unat sz \<le> 2 ^ 64"
    and "Alloc mem_end st PhysAddr_new sz = Inr (p, st1)"
  shows "\<exists>st2. Free st1 p sz = Inr (PhysAddr_Reset p, st2) \<and> areas_ok (allocated_area st2) \<and>
           owned (allocated_area st2) = owned (allocated_area st)"
proof -
  let ?opt = "\<lparr> opt_align = 1, non_recursive = False \<rparr>" and ?as = "allocated_area st"
  have sub: "AllocSub mem_end st PhysAddr_new sz ?opt = Inr (p, st1)"
    and pre: "is_initialized st" "0 < sz" "sz mod kPageSize = 0"
    using assms(3) by (auto simp: Alloc_def AllocSub_def kbind_eq_Inr)
  note room = room_one [OF assms(1,2)]
  obtain j f where find: "alloc_find 1 sz ?as 0 None = (j, f)"
    by (cases "alloc_find 1 sz ?as 0 None")
  obtain addr as where at: "alloc_at 1 sz ?as j = (addr, as)"
    by (cases "alloc_at 1 sz ?as j")
  have len: "0 < length ?as"
    using assms(1) by (simp add: areas_ok_def)
  note spec = alloc_find_spec [OF find len, simplified touching_def, simplified]
  note ok = alloc_at_ok [OF assms(1) room spec(1) _ at]
  have at_ok: "areas_ok as" "owned as = owned ?as \<union> {addr..<addr + sz}"
    "owned ?as \<inter> {addr..<addr + sz} = {}" "addr \<le> addr + sz"
    using ok spec(2) by auto
  note touch = alloc_at_touching [OF assms(1) room find pre(2) at]
  have st1: "p = \<lparr> pa_is_initialized = True, pa_addr = addr \<rparr>"
      "st1 = st \<lparr> allocated_area := merge_fraged f as \<rparr>"
    using sub pre find at
    by (auto simp: AllocSub_def PhysAddr_SetAddr_def PhysAddr_new_def Let_def split: if_splits)
  have "covers (merge_fraged f as) addr (addr + sz)"
    by (intro merge_fraged_covers [OF at_ok(1) touch] alloc_at_covers [OF spec(1) at assms(1) at_ok(4)])
  then obtain i where i: "free_find addr sz (merge_fraged f as) = Some i"
    using free_find_None_iff by fastforce
  have lt: "addr < addr + sz"
    using at_ok(4) pre(2) by (auto simp: order.strict_iff_order)
  show ?thesis
    using free_at_ok [OF merge_fraged_ok(1) [OF at_ok(1) touch] i lt] pre i at_ok(2,3)
      merge_fraged_ok(2) [OF at_ok(1) touch]
    by (auto simp: st1 Free_def PhysAddr_GetAddr_def kassert_def)
qed

theorem Alloc_Free_roundtrip_witness:
  defines "st \<equiv> \<lparr> allocated_area = [\<lparr> start_addr = 0, end_addr = 0x600000 \<rparr>],
      is_initialized = True, is_able_to_allocate = True \<rparr>"
  shows "\<exists>st2. Free \<lparr> allocated_area = [\<lparr> start_addr = 0, end_addr = 0x602000 \<rparr>],
        is_initialized = True, is_able_to_allocate = True \<rparr>
      \<lparr> pa_is_initialized = True, pa_addr = 0x600000 \<rparr> 0x2000 =
        Inr (\<lparr> pa_is_initialized = False, pa_addr = 0x600000 \<rparr>, st2) \<and>
      areas_ok (allocated_area st2) \<and> owned (allocated_area st2) = owned (allocated_area st)"
proof -
  have "Alloc 0x10000000 st PhysAddr_new 0x2000 =
      Inr (\<lparr> pa_is_initialized = True, pa_addr = 0x600000 \<rparr>,
        \<lparr> allocated_area = [\<lparr> start_addr = 0, end_addr = 0x602000 \<rparr>],
          is_initialized = True, is_able_to_allocate = True \<rparr>)"
    by (simp add: st_def Alloc_def AllocSub_def alloc_find.simps alloc_at_def merge_fraged_def
        kPageSize_def PhysAddr_SetAddr_def PhysAddr_new_def Let_def)
  from Alloc_Free_roundtrip [OF _ _ this] show ?thesis
    by (simp add: st_def areas_ok_def PhysAddr_Reset_def)
qed

text \<open>\<open>Reserve\<close> of a page-aligned region that no later area begins in terminates
  at once, adds exactly the region to the memory in use (whatever part of it
  was in use already) and keeps the chain well formed.
\<close>

theorem Reserve_adds_region:
  assumes "areas_ok (allocated_area st)" and "start_addr (hd (allocated_area st)) \<le> addr"
    and "addr < addr + sz" and "no_start_inside (allocated_area st) addr sz"
    and "sz mod kPageSize = 0" and "addr mod kPageSize = 0"
  shows "\<exists>as. Reserve (Suc n) st addr sz = Some (Inr (st \<lparr> allocated_area := as \<rparr>)) \<and> areas_ok as \<and>
           owned as = owned (allocated_area st) \<union> {addr..<addr + sz}"
proof -
  obtain as where "ReserveSub (Suc n) (allocated_area st) addr sz = Some (Inr as)" "areas_ok as"
    "owned as = owned (allocated_area st) \<union> {addr..<addr + sz}"
    using ReserveSub_one_pass [OF assms] by blast
  then show ?thesis
    by (intro exI [of _ as]) (simp add: Reserve_def del: ReserveSub.simps)
qed

theorem Reserve_adds_region_witness:
  defines "as \<equiv> [\<lparr> start_addr = 0, end_addr = 0x600000 \<rparr>, \<lparr> start_addr = 0x900000, end_addr = 0xa00000 \<rparr>]"
  shows "\<exists>bs. Reserve (Suc 0) \<lparr> allocated_area = as, is_initialized = True, is_able_to_allocate = True \<rparr>
           0x5ff000 0x3000 = Some (Inr \<lparr> allocated_area = bs, is_initialized = True, is_able_to_allocate = True \<rparr>)
         \<and> areas_ok bs \<and> owned bs = owned as \<union> {0x5ff000..<0x602000}"
  using Reserve_adds_region
    [of "\<lparr> allocated_area = as, is_initialized = True, is_able_to_allocate = True \<rparr>" "0x5ff000" "0x3000" 0]
  by (simp add: as_def areas_ok_def no_start_inside_def kPageSize_def)

text \<open>\<open>Reserve\<close> of a region that begins exactly where a later area begins never
  returns: the call recurses on the unchanged region, whatever the bound on
  the depth.
\<close>

theorem Reserve_at_area_start_diverges:
  assumes "areas_ok (allocated_area st)" and "i + 1 < length (allocated_area st)"
    and "start_addr (allocated_area st ! i) < addr" and "start_addr (allocated_area st ! (i + 1)) = addr"
    and "addr < addr + sz" and "sz mod kPageSize = 0" and "addr mod kPageSize = 0"
  shows "Reserve n st addr sz = None"
  using ReserveSub_loops [OF assms] by (simp add: Reserve_def)

theorem Reserve_at_area_start_diverges_witness:
  "Reserve 1000 \<lparr> allocated_area = [\<lparr> start_addr = 0, end_addr = 0x600000 \<rparr>,
      \<lparr> start_addr = 0x900000, end_addr = 0xa00000 \<rparr>], is_initialized = True, is_able_to_allocate = True \<rparr>
     0x900000 0x1000 = None"
  using Reserve_at_area_start_diverges
    [of "\<lparr> allocated_area = [\<lparr> start_addr = 0, end_addr = 0x600000 \<rparr>,
      \<lparr> start_addr = 0x900000, end_addr = 0xa00000 \<rparr>], is_initialized = True, is_able_to_allocate = True \<rparr>"
      0 "0x900000" "0x1000" 1000]
  by (simp add: areas_ok_def kPageSize_def)

text \<open>without room for the padding an aligned request can hand out memory that
  is in use: the size of the gap is computed with wrap-around, so a gap
  narrower than the padding looks large.
\<close>

theorem AllocAligned_overlap:
  "\<exists>st addr st'. areas_ok (allocated_area st) \<and>
     AllocAligned 0x10000000 st PhysAddr_new 0x1000 0x400000 =
       Inr (\<lparr> pa_is_initialized = True, pa_addr = addr \<rparr>, st') \<and>
     addr \<in> owned (allocated_area st)"
proof (intro exI conjI)
  let ?st = "\<lparr> allocated_area = [\<lparr> start_addr = 0, end_addr = 0x600000 \<rparr>,
      \<lparr> start_addr = 0x700000, end_addr = 0x900000 \<rparr>], is_initialized = True, is_able_to_allocate = True \<rparr>"
  show "areas_ok (allocated_area ?st)"
    by (simp add: areas_ok_def)
  show "AllocAligned 0x10000000 ?st PhysAddr_new 0x1000 0x400000 =
      Inr (\<lparr> pa_is_initialized = True, pa_addr = 0x800000 \<rparr>,
        \<lparr> allocated_area = [\<lparr> start_addr = 0, end_addr = 0x600000 \<rparr>,
          \<lparr> start_addr = 0x800000, end_addr = 0x801000 \<rparr>, \<lparr> start_addr = 0x700000, end_addr = 0x900000 \<rparr>],
          is_initialized = True, is_able_to_allocate = True \<rparr>)"
    by (simp add: AllocAligned_def AllocSub_def alloc_find.simps alloc_at_def merge_fraged_def alignUp_def
        align_def kPageSize_def PhysAddr_SetAddr_def PhysAddr_new_def Let_def)
  show "0x800000 \<in> owned (allocated_area ?st)"
    by simp
qed

end
