(* ===== verification/Paging.thy ===== *)
theory Paging
  imports Phys_Mem
begin

text \<open>
  \<open>PagingCtrl\<close> of \<open>mem/paging.h\<close> and \<open>mem/paging.cc\<close>: the four-level page tables.
  A page table is the array of 512 entries in one physical page, so the tables
  are a map from page addresses to entries; the linear map that the code goes
  through (\<open>p2v\<close>) is left out, as every table is accessed by its physical
  address. The pages of new tables come from an allocator, which is a parameter
  with the contract \<open>page_allocator\<close>; \<open>PhysmemCtrl\<close> satisfies it.
\<close>

section \<open>Entries, indices and offsets\<close>

definition PRESENT_BIT :: u64 where "PRESENT_BIT = 1"
definition WRITE_BIT :: u64 where "WRITE_BIT = 2"
definition USER_BIT :: u64 where "USER_BIT = 4"
definition PAGE_BIT :: u64 where "PAGE_BIT = 0x80"
definition GLOBAL_BIT :: u64 where "GLOBAL_BIT = 0x100"

definition ConvertNumToPageSize :: "u64 \<Rightarrow> u64" where
  "ConvertNumToPageSize n = ((n + kPageSize - 1) div kPageSize) * kPageSize"

definition RoundAddrOnPageBoundary :: "u64 \<Rightarrow> u64" where
  "RoundAddrOnPageBoundary addr = (addr div kPageSize) * kPageSize"

definition RoundUpAddrOnPageBoundary :: "u64 \<Rightarrow> u64" where
  "RoundUpAddrOnPageBoundary addr = RoundAddrOnPageBoundary (addr + kPageSize - 1)"

definition GetPML4TIndex :: "u64 \<Rightarrow> nat" where
  "GetPML4TIndex addr = unat (drop_bit 39 addr AND 511)"

definition GetPDPTIndex :: "u64 \<Rightarrow> nat" where
  "GetPDPTIndex addr = unat (drop_bit 30 addr AND 511)"

definition GetPDIndex :: "u64 \<Rightarrow> nat" where
  "GetPDIndex addr = unat (drop_bit 21 addr AND 511)"

definition GetPTIndex :: "u64 \<Rightarrow> nat" where
  "GetPTIndex addr = unat (drop_bit 12 addr AND 511)"

definition GetPML4EMaskedAddr :: "u64 \<Rightarrow> u64" where
  "GetPML4EMaskedAddr entry = entry AND 0xFFFFFFFFFF000"

definition GetPDPTEMaskedAddr :: "u64 \<Rightarrow> u64" where
  "GetPDPTEMaskedAddr entry =
     (if entry AND PAGE_BIT = 0 then entry AND 0xFFFFFFFFFF000 else entry AND 0xFFFFFC0000000)"

definition GetPDEMaskedAddr :: "u64 \<Rightarrow> u64" where
  "GetPDEMaskedAddr entry =
     (if entry AND PAGE_BIT = 0 then entry AND 0xFFFFFFFFFF000 else entry AND 0xFFFFFFFE00000)"

definition GetPTEMaskedAddr :: "u64 \<Rightarrow> u64" where
  "GetPTEMaskedAddr entry = entry AND 0xFFFFFFFFFF000"

definition Get1GPageOffset :: "u64 \<Rightarrow> u64" where
  "Get1GPageOffset addr = addr AND 0x3FFFFFFF"

definition Get2MPageOffset :: "u64 \<Rightarrow> u64" where
  "Get2MPageOffset addr = addr AND 0x1FFFFF"

definition Get4KPageOffset :: "u64 \<Rightarrow> u64" where
  "Get4KPageOffset addr = addr AND 0xFFF"

definition IsPageStructureTableIndex :: "int \<Rightarrow> bool" where
  "IsPageStructureTableIndex i \<longleftrightarrow> 0 \<le> i \<and> i < 512"

text \<open>
  The private helper that rebuilds an address from its indices. The operator
  between the last two table terms is a shift: \<open>(pd << 21) << (pt << 12)\<close>, and
  a shift by 64 or more is undefined in C++ (\<open>Out_Of_Range\<close>).
\<close>

definition CalcVirtAddrFromStructureTableOffset :: "int \<Rightarrow> int \<Rightarrow> int \<Rightarrow> int \<Rightarrow> int \<Rightarrow> u64 kres" where
  "CalcVirtAddrFromStructureTableOffset pml4 pdpt pd pt offset =
     kbind (kassert (IsPageStructureTableIndex pml4)) (\<lambda>_.
     kbind (kassert (IsPageStructureTableIndex pdpt)) (\<lambda>_.
     kbind (kassert (IsPageStructureTableIndex pd)) (\<lambda>_.
     kbind (kassert (IsPageStructureTableIndex pt)) (\<lambda>_.
     let amount = unat (push_bit 12 (word_of_int pt :: u64)) in
     if 64 \<le> amount then Inl Out_Of_Range
     else Inr (push_bit 39 (word_of_int pml4) OR push_bit 30 (word_of_int pdpt) OR
               push_bit amount (push_bit 21 (word_of_int pd)) OR word_of_int offset)))))"

section \<open>State and translation\<close>

record 's PagingCtrl =
  pml4t :: u64
  tables :: "u64 \<Rightarrow> nat \<Rightarrow> u64"
  physmem :: 's

definition translate :: "'s PagingCtrl \<Rightarrow> u64 \<Rightarrow> u64 option" where
  "translate pg vaddr =
     (let entry = tables pg (pml4t pg) (GetPML4TIndex vaddr) in
      if entry AND PRESENT_BIT = 0 then None
      else let pdpt = GetPML4EMaskedAddr entry; entry = tables pg pdpt (GetPDPTIndex vaddr) in
      if entry AND PRESENT_BIT = 0 then None
      else if entry AND PAGE_BIT \<noteq> 0 then Some (GetPDPTEMaskedAddr entry OR Get1GPageOffset vaddr)
      else let pd = GetPDPTEMaskedAddr entry; entry = tables pg pd (GetPDIndex vaddr) in
      if entry AND PRESENT_BIT = 0 then None
      else if entry AND PAGE_BIT \<noteq> 0 then Some (GetPDEMaskedAddr entry OR Get2MPageOffset vaddr)
      else let pt = GetPDEMaskedAddr entry; entry = tables pg pt (GetPTIndex vaddr) in
      if entry AND PRESENT_BIT = 0 then None
      else Some (GetPTEMaskedAddr entry OR Get4KPageOffset vaddr))"

definition ConvertVirtMemToPhysMem :: "'s PagingCtrl \<Rightarrow> u64 \<Rightarrow> PhysAddr \<Rightarrow> PhysAddr kres" where
  "ConvertVirtMemToPhysMem pg vaddr paddr =
     (case translate pg vaddr of None \<Rightarrow> Inr paddr | Some a \<Rightarrow> PhysAddr_SetAddr paddr a)"

definition k2p :: "'s PagingCtrl \<Rightarrow> u64 \<Rightarrow> u64 kres" where
  "k2p pg addr = kbind (ConvertVirtMemToPhysMem pg addr PhysAddr_new) PhysAddr_GetAddr"

definition IsVirtAddrMapped :: "'s PagingCtrl \<Rightarrow> u64 \<Rightarrow> bool" where
  "IsVirtAddrMapped pg vaddr =
     (let entry = tables pg (pml4t pg) (GetPML4TIndex vaddr) in
      if entry AND PRESENT_BIT = 0 then False
      else let pdpt = GetPML4EMaskedAddr entry; entry = tables pg pdpt (GetPDPTIndex vaddr) in
      if entry AND PRESENT_BIT = 0 then False
      else if entry AND PAGE_BIT \<noteq> 0 then True
      else let pd = GetPDPTEMaskedAddr entry; entry = tables pg pd (GetPDIndex vaddr) in
      if entry AND PRESENT_BIT = 0 then False
      else if entry AND PAGE_BIT \<noteq> 0 then True
      else let pt = GetPDEMaskedAddr entry; entry = tables pg pt (GetPTIndex vaddr) in
      if entry AND PRESENT_BIT = 0 then False else True)"

definition GetTranslationEntries :: "'s PagingCtrl \<Rightarrow> u64 \<Rightarrow> u64 \<times> u64 \<times> u64 \<times> u64" where
  "GetTranslationEntries pg vaddr =
     (let pml4e = tables pg (pml4t pg) (GetPML4TIndex vaddr) in
      if pml4e AND PRESENT_BIT = 0 then (pml4e, 0, 0, 0)
      else let pdpte = tables pg (GetPML4EMaskedAddr pml4e) (GetPDPTIndex vaddr) in
      if pdpte AND PRESENT_BIT = 0 \<or> pdpte AND PAGE_BIT \<noteq> 0 then (pml4e, pdpte, 0, 0)
      else let pde = tables pg (GetPDPTEMaskedAddr pdpte) (GetPDIndex vaddr) in
      if pde AND PRESENT_BIT = 0 \<or> pde AND PAGE_BIT \<noteq> 0 then (pml4e, pdpte, pde, 0)
      else (pml4e, pdpte, pde, tables pg (GetPDEMaskedAddr pde) (GetPTIndex vaddr)))"

section \<open>Mapping\<close>

definition write_entry :: "u64 \<Rightarrow> nat \<Rightarrow> u64 \<Rightarrow> 's PagingCtrl \<Rightarrow> 's PagingCtrl" where
  "write_entry p i e pg = pg \<lparr> tables := (tables pg)(p := (tables pg p)(i := e)) \<rparr>"

definition bzero_page :: "u64 \<Rightarrow> 's PagingCtrl \<Rightarrow> 's PagingCtrl" where
  "bzero_page p pg = pg \<lparr> tables := (tables pg)(p := (\<lambda>_. 0)) \<rparr>"

text \<open>
  The step that the mapping functions repeat at each level: read the entry and,
  if it is not present, allocate and clear a page and enter it. \<open>alloc\<close> is
  \<open>physmem_ctrl->Alloc(tpaddr, kPageSize)\<close>.
\<close>

definition ensure_table :: "('s \<Rightarrow> (u64 \<times> 's) kres) \<Rightarrow> u64 \<Rightarrow> nat \<Rightarrow> u64 \<Rightarrow> 's PagingCtrl \<Rightarrow>
    (u64 \<times> 's PagingCtrl) kres" where
  "ensure_table alloc p i pst_flag pg =
     (let entry = tables pg p i in
      if entry AND PRESENT_BIT = 0 then
        kbind (alloc (physmem pg)) (\<lambda>(tpaddr, s).
          let pg1 = bzero_page tpaddr (pg \<lparr> physmem := s \<rparr>);
              entry = tpaddr OR pst_flag OR PRESENT_BIT
          in Inr (entry, write_entry p i entry pg1))
      else Inr (entry, pg))"

definition Map4KPageToVirtAddr :: "('s \<Rightarrow> (u64 \<times> 's) kres) \<Rightarrow> 's PagingCtrl \<Rightarrow> u64 \<Rightarrow> PhysAddr \<Rightarrow> u64 \<Rightarrow>
    u64 \<Rightarrow> (bool \<times> 's PagingCtrl) kres" where
  "Map4KPageToVirtAddr alloc pg vaddr paddr pst_flag page_flag =
     kbind (ensure_table alloc (pml4t pg) (GetPML4TIndex vaddr) pst_flag pg) (\<lambda>(entry, pg).
     let pdpt = GetPML4EMaskedAddr entry in
     kbind (ensure_table alloc pdpt (GetPDPTIndex vaddr) pst_flag pg) (\<lambda>(entry, pg).
     if entry AND PAGE_BIT \<noteq> 0 then Inr (False, pg)
     else let pd = GetPDPTEMaskedAddr entry in
     kbind (ensure_table alloc pd (GetPDIndex vaddr) pst_flag pg) (\<lambda>(entry, pg).
     if entry AND PAGE_BIT \<noteq> 0 then Inr (False, pg)
     else let pt = GetPDEMaskedAddr entry; entry = tables pg pt (GetPTIndex vaddr) in
     if entry AND PRESENT_BIT = 0 then
       kbind (PhysAddr_GetAddr paddr) (\<lambda>a.
         Inr (True, write_entry pt (GetPTIndex vaddr) (a OR page_flag OR PRESENT_BIT) pg))
     else Inr (False, pg))))"

text \<open>The 2M and 1G variants put \<open>pst_flag\<close> into the page entry and never read \<open>page_flag\<close>.\<close>

definition Map2MPageToVirtAddr :: "('s \<Rightarrow> (u64 \<times> 's) kres) \<Rightarrow> 's PagingCtrl \<Rightarrow> u64 \<Rightarrow> PhysAddr \<Rightarrow> u64 \<Rightarrow>
    u64 \<Rightarrow> (bool \<times> 's PagingCtrl) kres" where
  "Map2MPageToVirtAddr alloc pg vaddr paddr pst_flag page_flag =
     kbind (ensure_table alloc (pml4t pg) (GetPML4TIndex vaddr) pst_flag pg) (\<lambda>(entry, pg).
     let pdpt = GetPML4EMaskedAddr entry in
     kbind (ensure_table alloc pdpt (GetPDPTIndex vaddr) pst_flag pg) (\<lambda>(entry, pg).
     if entry AND PAGE_BIT \<noteq> 0 then Inr (False, pg)
     else let pd = GetPDPTEMaskedAddr entry; entry = tables pg pd (GetPDIndex vaddr) in
     if entry AND PRESENT_BIT \<noteq> 0 then Inr (False, pg)
     else kbind (PhysAddr_GetAddr paddr) (\<lambda>a.
       Inr (True, write_entry pd (GetPDIndex vaddr) (a OR pst_flag OR PRESENT_BIT OR PAGE_BIT) pg))))"

definition Map1GPageToVirtAddr :: "('s \<Rightarrow> (u64 \<times> 's) kres) \<Rightarrow> 's PagingCtrl \<Rightarrow> u64 \<Rightarrow> PhysAddr \<Rightarrow> u64 \<Rightarrow>
    u64 \<Rightarrow> (bool \<times> 's PagingCtrl) kres" where
  "Map1GPageToVirtAddr alloc pg vaddr paddr pst_flag page_flag =
     kbind (PhysAddr_GetAddr paddr) (\<lambda>a.
     kbind (kassert (a mod 0x40000000 = 0)) (\<lambda>_.
     kbind (ensure_table alloc (pml4t pg) (GetPML4TIndex vaddr) pst_flag pg) (\<lambda>(entry, pg).
     let pdpt = GetPML4EMaskedAddr entry; entry = tables pg pdpt (GetPDPTIndex vaddr) in
     if entry AND PRESENT_BIT \<noteq> 0 then Inr (False, pg)
     else Inr (True, write_entry pdpt (GetPDPTIndex vaddr) (a OR pst_flag OR PRESENT_BIT OR PAGE_BIT) pg))))"

text \<open>The loop of \<open>MapPhysAddrToVirtAddr\<close> over \<open>n\<close> pages; the size is a multiple of the page size there.\<close>

fun map_pages :: "('s \<Rightarrow> (u64 \<times> 's) kres) \<Rightarrow> nat \<Rightarrow> 's PagingCtrl \<Rightarrow> u64 \<Rightarrow> u64 \<Rightarrow> u64 \<Rightarrow> u64 \<Rightarrow>
    (bool \<times> 's PagingCtrl) kres" where
  "map_pages alloc 0 pg vaddr addr pst_flag page_flag = Inr (True, pg)"
| "map_pages alloc (Suc n) pg vaddr addr pst_flag page_flag =
     kbind (Map4KPageToVirtAddr alloc pg vaddr \<lparr> pa_is_initialized = True, pa_addr = addr \<rparr> pst_flag page_flag)
       (\<lambda>(ok, pg). if \<not> ok then Inr (False, pg)
          else map_pages alloc n pg (vaddr + kPageSize) (addr + kPageSize) pst_flag page_flag)"

definition MapPhysAddrToVirtAddr :: "('s \<Rightarrow> (u64 \<times> 's) kres) \<Rightarrow> 's PagingCtrl \<Rightarrow> u64 \<Rightarrow> PhysAddr \<Rightarrow> u64 \<Rightarrow>
    u64 \<Rightarrow> u64 \<Rightarrow> (bool \<times> 's PagingCtrl) kres" where
  "MapPhysAddrToVirtAddr alloc pg vaddr paddr sz pst_flag page_flag =
     kbind (kassert (vaddr = align vaddr kPageSize)) (\<lambda>_.
     kbind (kassert (sz = align sz kPageSize)) (\<lambda>_.
     kbind (PhysAddr_GetAddr paddr) (\<lambda>addr.
     kbind (kassert (addr = align addr kPageSize)) (\<lambda>_.
     map_pages alloc (unat (sz div kPageSize)) pg vaddr addr pst_flag page_flag))))"

definition ReleaseLowMemory :: "'s PagingCtrl \<Rightarrow> 's PagingCtrl kres" where
  "ReleaseLowMemory pg =
     kbind (kassert (tables pg (pml4t pg) (GetPML4TIndex 0) AND PRESENT_BIT \<noteq> 0)) (\<lambda>_.
     Inr (write_entry (pml4t pg) (GetPML4TIndex 0) 0 pg))"

text \<open>The loop of \<open>MapAllPhysMemory\<close> over the 2M blocks \<open>vaddr\<close>, \<open>vaddr + 2M\<close>, ... below the end of memory.\<close>

fun map_linear :: "('s \<Rightarrow> (u64 \<times> 's) kres) \<Rightarrow> nat \<Rightarrow> u64 \<Rightarrow> u64 \<Rightarrow> 's PagingCtrl \<Rightarrow> 's PagingCtrl kres" where
  "map_linear alloc 0 mem_end vaddr pg = Inr pg"
| "map_linear alloc (Suc n) mem_end vaddr pg =
     (if vaddr < mem_end then
        kbind (if IsVirtAddrMapped pg (kLinearMapOffset + vaddr) then Inr pg
               else kmap snd (Map2MPageToVirtAddr alloc pg (kLinearMapOffset + vaddr)
                      \<lparr> pa_is_initialized = True, pa_addr = vaddr \<rparr> (WRITE_BIT OR USER_BIT)
                      (WRITE_BIT OR GLOBAL_BIT OR USER_BIT)))
          (map_linear alloc n mem_end (vaddr + 0x200000))
      else Inr pg)"

definition MapAllPhysMemory :: "('s \<Rightarrow> (u64 \<times> 's) kres) \<Rightarrow> u64 \<Rightarrow> 's PagingCtrl \<Rightarrow> 's PagingCtrl kres" where
  "MapAllPhysMemory alloc mem_end pg = map_linear alloc (unat mem_end div 0x200000 + 1) mem_end 0 pg"

section \<open>The walk, level by level\<close>

text \<open>Level 3 is the PML4 table, level 0 a page table.\<close>

fun vidx :: "nat \<Rightarrow> u64 \<Rightarrow> nat" where
  "vidx 0 v = GetPTIndex v"
| "vidx (Suc 0) v = GetPDIndex v"
| "vidx (Suc (Suc 0)) v = GetPDPTIndex v"
| "vidx (Suc (Suc (Suc _))) v = GetPML4TIndex v"

definition addr_mask :: u64 where
  "addr_mask = 0xFFFFFFFFFF000"

definition is_leaf :: "nat \<Rightarrow> u64 \<Rightarrow> bool" where
  "is_leaf n e \<longleftrightarrow> n = 0 \<or> n < 3 \<and> e AND PAGE_BIT \<noteq> 0"

definition leaf_addr :: "nat \<Rightarrow> u64 \<Rightarrow> u64 \<Rightarrow> u64" where
  "leaf_addr n e v = (if n = 0 then GetPTEMaskedAddr e OR Get4KPageOffset v
     else if n = 1 then GetPDEMaskedAddr e OR Get2MPageOffset v
     else GetPDPTEMaskedAddr e OR Get1GPageOffset v)"

definition child :: "nat \<Rightarrow> u64 \<Rightarrow> u64 option" where
  "child n e = (if e AND PRESENT_BIT = 0 \<or> is_leaf n e then None else Some (e AND addr_mask))"

fun trans_from :: "'s PagingCtrl \<Rightarrow> nat \<Rightarrow> u64 \<Rightarrow> u64 \<Rightarrow> u64 option" where
  "trans_from pg 0 p v = (let e = tables pg p (vidx 0 v) in
     if e AND PRESENT_BIT = 0 then None else Some (leaf_addr 0 e v))"
| "trans_from pg (Suc n) p v = (let e = tables pg p (vidx (Suc n) v) in
     if e AND PRESENT_BIT = 0 then None
     else if is_leaf (Suc n) e then Some (leaf_addr (Suc n) e v)
     else trans_from pg n (e AND addr_mask) v)"

lemma translate_eq: "translate pg v = trans_from pg 3 (pml4t pg) v"
  by (simp add: translate_def trans_from.simps is_leaf_def leaf_addr_def addr_mask_def Let_def
      numeral_3_eq_3 GetPML4EMaskedAddr_def GetPDPTEMaskedAddr_def GetPDEMaskedAddr_def)

lemma IsVirtAddrMapped_eq: "IsVirtAddrMapped pg v \<longleftrightarrow> translate pg v \<noteq> None"
  by (simp add: IsVirtAddrMapped_def translate_def Let_def)

lemma vidx_bound: "vidx n v < 512"
proof -
  have "unat (w AND 511 :: u64) < 512" for w
  proof -
    have "w AND 511 \<le> (511 :: u64)"
      by (rule word_and_le1)
    then show ?thesis
      by (simp add: word_le_nat_alt)
  qed
  then show ?thesis
    by (induction n v rule: vidx.induct)
      (simp_all add: GetPTIndex_def GetPDIndex_def GetPDPTIndex_def GetPML4TIndex_def)
qed

text \<open>The table that the walk from \<open>q\<close> on level \<open>m + k\<close> reaches on level \<open>m\<close>.\<close>

fun reach :: "'s PagingCtrl \<Rightarrow> nat \<Rightarrow> nat \<Rightarrow> u64 \<Rightarrow> u64 \<Rightarrow> u64 option" where
  "reach pg m 0 q v = Some q"
| "reach pg m (Suc k) q v =
     (case child (m + Suc k) (tables pg q (vidx (m + Suc k) v)) of
        None \<Rightarrow> None | Some c \<Rightarrow> reach pg m k c v)"

text \<open>
  The tables form a tree: \<open>L\<close> gives every table its level, the root is the only
  table on level 3, and every other table is entered at one place only.
\<close>

definition pt_tree :: "(u64 \<Rightarrow> nat option) \<Rightarrow> 's PagingCtrl \<Rightarrow> bool" where
  "pt_tree L pg \<longleftrightarrow> L (pml4t pg) = Some 3 \<and>
     (\<forall>p n i c. L p = Some (Suc n) \<and> i < 512 \<and> child (Suc n) (tables pg p i) = Some c \<longrightarrow>
        L c = Some n \<and>
        (\<forall>p' n' i'. L p' = Some (Suc n') \<and> i' < 512 \<and> child (Suc n') (tables pg p' i') = Some c \<longrightarrow>
           p' = p \<and> i' = i))"

lemma pt_treeD:
  assumes "pt_tree L pg" and "L p = Some (Suc n)" and "i < 512" and "child (Suc n) (tables pg p i) = Some c"
  shows "L c = Some n"
    and "L p' = Some (Suc n') \<Longrightarrow> i' < 512 \<Longrightarrow> child (Suc n') (tables pg p' i') = Some c \<Longrightarrow> p' = p \<and> i' = i"
  using assms unfolding pt_tree_def by blast+

lemma pt_tree_root: "pt_tree L pg \<Longrightarrow> L (pml4t pg) = Some 3"
  unfolding pt_tree_def by (rule conjunct1)

lemma pt_treeI:
  assumes "L (pml4t pg) = Some 3"
    and "\<And>p n i c. L p = Some (Suc n) \<Longrightarrow> i < 512 \<Longrightarrow> child (Suc n) (tables pg p i) = Some c \<Longrightarrow> L c = Some n"
    and "\<And>p n i c p' n' i'. L p = Some (Suc n) \<Longrightarrow> i < 512 \<Longrightarrow> child (Suc n) (tables pg p i) = Some c \<Longrightarrow>
      L p' = Some (Suc n') \<Longrightarrow> i' < 512 \<Longrightarrow> child (Suc n') (tables pg p' i') = Some c \<Longrightarrow> p' = p \<and> i' = i"
  shows "pt_tree L pg"
  unfolding pt_tree_def using assms by blast

lemma child_not_leaf: "e AND PRESENT_BIT \<noteq> 0 \<Longrightarrow> \<not> is_leaf n e \<Longrightarrow> child n e = Some (e AND addr_mask)"
  by (simp add: child_def)

lemma reach_level:
  assumes "pt_tree L pg" and "L q = Some (m + k)" and "reach pg m k q v = Some p"
  shows "L p = Some m"
  using assms(2,3)
proof (induction k arbitrary: q)
  case (Suc k)
  then obtain c where c: "child (Suc (m + k)) (tables pg q (vidx (Suc (m + k)) v)) = Some c" "reach pg m k c v = Some p"
    by (auto split: option.splits)
  then show ?case
    using Suc pt_treeD(1) [OF assms(1) _ vidx_bound c(1)] by simp
qed simp

text \<open>Two walks that meet in a table took the same indices above it.\<close>

lemma reach_inj:
  assumes "pt_tree L pg" and "L q = Some (m + k)" and "reach pg m k q v = Some p" and "reach pg m k q w = Some p"
    and "m < j" and "j \<le> m + k"
  shows "vidx j v = vidx j w"
proof -
  have "(\<forall>j. m < j \<and> j \<le> m + k \<longrightarrow> vidx j v = vidx j w) \<and> q = q'"
    if "L q = Some (m + k)" "L q' = Some (m + k)" "reach pg m k q v = Some p" "reach pg m k q' w = Some p" for q q'
    using that
  proof (induction k arbitrary: q q')
    case (Suc k)
    let ?n = "Suc (m + k)"
    obtain c where c: "child ?n (tables pg q (vidx ?n v)) = Some c" "reach pg m k c v = Some p"
      using Suc.prems(3) by (auto split: option.splits)
    obtain c' where c': "child ?n (tables pg q' (vidx ?n w)) = Some c'" "reach pg m k c' w = Some p"
      using Suc.prems(4) by (auto split: option.splits)
    have "L c = Some (m + k)" "L c' = Some (m + k)"
      using Suc.prems pt_treeD(1) [OF assms(1) _ vidx_bound c(1)] pt_treeD(1) [OF assms(1) _ vidx_bound c'(1)]
      by simp_all
    then have IH: "\<forall>j. m < j \<and> j \<le> m + k \<longrightarrow> vidx j v = vidx j w" "c = c'"
      using Suc.IH c(2) c'(2) by blast+
    then have "q' = q \<and> vidx ?n w = vidx ?n v"
      using pt_treeD(2) [OF assms(1) _ vidx_bound c(1), where p' = q' and n' = "m + k" and i' = "vidx ?n w"]
        Suc.prems(1,2) c'(1) vidx_bound by simp
    then show ?case
      using IH(1) by (auto simp: le_Suc_eq)
  qed simp
  then show ?thesis
    using assms by blast
qed

section \<open>Writing one entry\<close>

text \<open>
  Two states that agree on all tables of the tree except for one entry: a walk
  that does not use that entry translates alike in both.
\<close>

definition agree_but :: "(u64 \<Rightarrow> nat option) \<Rightarrow> u64 \<Rightarrow> nat \<Rightarrow> 's PagingCtrl \<Rightarrow> 't PagingCtrl \<Rightarrow> bool" where
  "agree_but L p i pg pg' \<longleftrightarrow> pml4t pg' = pml4t pg \<and>
     (\<forall>q j. L q \<noteq> None \<longrightarrow> (q, j) \<noteq> (p, i) \<longrightarrow> tables pg' q j = tables pg q j)"

lemma agree_butD: "agree_but L p i pg pg' \<Longrightarrow> L q = Some n \<Longrightarrow> q \<noteq> p \<or> j \<noteq> i \<Longrightarrow> tables pg' q j = tables pg q j"
  by (auto simp: agree_but_def)

lemma trans_frame_low:
  assumes "pt_tree L pg" and "agree_but L p i pg pg'" and "L p = Some m"
    and "L q = Some n" and "n < m \<or> n = m \<and> (q \<noteq> p \<or> vidx m v \<noteq> i)"
  shows "trans_from pg' n q v = trans_from pg n q v"
  using assms(4,5)
proof (induction n arbitrary: q)
  case 0
  then have "tables pg' q (vidx 0 v) = tables pg q (vidx 0 v)"
    using agree_butD [OF assms(2)] assms(3) by (metis less_irrefl option.inject)
  then show ?case
    by (simp only: trans_from.simps)
next
  case (Suc n)
  let ?e = "tables pg q (vidx (Suc n) v)"
  have e: "tables pg' q (vidx (Suc n) v) = ?e"
    using agree_butD [OF assms(2) Suc.prems(1)] assms(3) Suc.prems by (metis less_irrefl option.inject)
  show ?case
  proof (cases "?e AND PRESENT_BIT = 0 \<or> is_leaf (Suc n) ?e")
    case False
    then have "L (?e AND addr_mask) = Some n"
      using pt_treeD(1) [OF assms(1) Suc.prems(1) vidx_bound] child_not_leaf by blast
    then have "trans_from pg' n (?e AND addr_mask) v = trans_from pg n (?e AND addr_mask) v"
      using Suc.IH Suc.prems(2) by auto
    then show ?thesis
      using e by (simp add: Let_def)
  qed (use e in \<open>auto simp: Let_def\<close>)
qed

lemma reach_frame:
  assumes "pt_tree L pg" and "agree_but L p i pg pg'" and "L p = Some m" and "L q = Some (m + k)"
  shows "reach pg' m k q v = reach pg m k q v"
  using assms(4)
proof (induction k arbitrary: q)
  case (Suc k)
  have "q \<noteq> p"
    using Suc.prems assms(3) by auto
  then have e: "tables pg' q j = tables pg q j" for j
    using agree_butD [OF assms(2) Suc.prems] by blast
  have "L c = Some (m + k)" if "child (m + Suc k) (tables pg q (vidx (m + Suc k) v)) = Some c" for c
    using pt_treeD(1) [OF assms(1) _ vidx_bound, of q "m + k" "m + Suc k" v c] that Suc.prems by simp
  then show ?case
    using Suc.IH by (simp add: e split: option.splits)
qed simp

lemma trans_frame:
  assumes "pt_tree L pg" and "agree_but L p i pg pg'" and "L p = Some m" and "L q = Some (m + k)"
    and "reach pg m k q v \<noteq> Some p \<or> vidx m v \<noteq> i"
  shows "trans_from pg' (m + k) q v = trans_from pg (m + k) q v"
  using assms(4,5)
proof (induction k arbitrary: q)
  case 0
  then show ?case
    using trans_frame_low [OF assms(1-3), of q m v] by auto
next
  case (Suc k)
  have "q \<noteq> p"
    using Suc.prems assms(3) by auto
  then have e: "tables pg' q j = tables pg q j" for j
    using agree_butD [OF assms(2) Suc.prems(1)] by blast
  let ?e = "tables pg q (vidx (Suc (m + k)) v)"
  show ?case
  proof (cases "?e AND PRESENT_BIT = 0 \<or> is_leaf (Suc (m + k)) ?e")
    case False
    then have c: "child (Suc (m + k)) ?e = Some (?e AND addr_mask)"
      using child_not_leaf by blast
    then have "L (?e AND addr_mask) = Some (m + k)"
      using pt_treeD(1) [OF assms(1) _ vidx_bound c] Suc.prems(1) by simp
    then have "trans_from pg' (m + k) (?e AND addr_mask) v = trans_from pg (m + k) (?e AND addr_mask) v"
      using Suc.IH Suc.prems(2) c by simp
    then show ?thesis
      using e by (simp add: Let_def)
  qed (use e in \<open>auto simp: Let_def\<close>)
qed

lemma trans_reach:
  "reach pg m k q v = Some p \<Longrightarrow> trans_from pg (m + k) q v = trans_from pg m p v"
proof (induction k arbitrary: q)
  case (Suc k)
  let ?e = "tables pg q (vidx (Suc (m + k)) v)"
  have "child (Suc (m + k)) ?e = Some (?e AND addr_mask)" "?e AND PRESENT_BIT \<noteq> 0" "\<not> is_leaf (Suc (m + k)) ?e"
    using Suc.prems by (auto simp: child_def split: if_splits)
  then show ?case
    using Suc.IH [of "?e AND addr_mask"] Suc.prems by (simp add: Let_def)
qed simp

lemma translate_frame:
  assumes "pt_tree L pg" and "agree_but L p i pg pg'" and "L p = Some m" and "m \<le> 3"
    and "reach pg m (3 - m) (pml4t pg) v \<noteq> Some p \<or> vidx m v \<noteq> i"
  shows "translate pg' v = translate pg v"
proof -
  have eq: "m + (3 - m) = 3"
    using assms(4) by simp
  have root: "L (pml4t pg) = Some (m + (3 - m))"
    unfolding eq by (rule pt_tree_root [OF assms(1)])
  show ?thesis
    using trans_frame [OF assms(1-3) root assms(5), unfolded eq] assms(2)
    by (simp only: translate_eq agree_but_def)
qed

lemma translate_at:
  assumes "pt_tree L pg" and "agree_but L p i pg pg'" and "L p = Some m" and "m \<le> 3"
    and "reach pg m (3 - m) (pml4t pg) v = Some p"
  shows "translate pg' v = trans_from pg' m p v"
proof -
  have eq: "m + (3 - m) = 3"
    using assms(4) by simp
  have root: "L (pml4t pg) = Some (m + (3 - m))"
    unfolding eq by (rule pt_tree_root [OF assms(1)])
  have "reach pg' m (3 - m) (pml4t pg) v = Some p"
    using reach_frame [OF assms(1-3) root] assms(5) by simp
  from trans_reach [OF this, unfolded eq] show ?thesis
    using assms(2) by (simp only: translate_eq agree_but_def)
qed

lemma agree_but_refl: "agree_but L p i pg pg"
  by (simp add: agree_but_def)

lemma tables_write_entry: "tables (write_entry p i e pg) q j = (if q = p \<and> j = i then e else tables pg q j)"
  by (simp add: write_entry_def)

lemma pml4t_write_entry [simp]: "pml4t (write_entry p i e pg) = pml4t pg"
  "physmem (write_entry p i e pg) = physmem pg"
  by (simp_all add: write_entry_def)

lemma agree_but_write: "agree_but L p i pg (write_entry p i e pg)"
  by (auto simp: agree_but_def tables_write_entry)

lemma child_0 [simp]: "child n 0 = None"
  by (simp add: child_def)

lemma trans_from_zero: "(\<And>j. tables pg p j = 0) \<Longrightarrow> trans_from pg n p v = None"
  by (cases n) (simp_all add: Let_def)

text \<open>Entering a cleared fresh page as a new table keeps the tree and every translation.\<close>

lemma new_table:
  fixes s :: 's and pg :: "'s PagingCtrl"
  assumes tree: "pt_tree L pg" and p: "L p = Some (Suc n)" "n < 3" and i: "i < 512"
    and old: "tables pg p i AND PRESENT_BIT = 0" and c: "L c = None"
    and e: "child (Suc n) e = Some c"
  defines "pg' \<equiv> write_entry p i e (bzero_page c (pg \<lparr> physmem := s \<rparr>))"
  shows "pt_tree (L(c \<mapsto> n)) pg'" and "agree_but L p i pg pg'" and "translate pg' v = translate pg v"
    and "tables pg' p i = e"
proof -
  have pc: "p \<noteq> c"
    using p c by auto
  have tab: "tables pg' q j = (if q = p \<and> j = i then e else if q = c then 0 else tables pg q j)" for q j
    by (simp add: pg'_def tables_write_entry bzero_page_def)
  have root: "pml4t pg' = pml4t pg"
    by (simp add: pg'_def bzero_page_def)
  show "tables pg' p i = e"
    by (simp add: tab)
  show agree: "agree_but L p i pg pg'"
    using c by (auto simp: agree_but_def tab root)
  have not_c: "child (Suc n') (tables pg q j) \<noteq> Some c" if "L q = Some (Suc n')" "j < 512" for q n' j
    using pt_treeD(1) [OF tree that(1,2)] c by auto
  have cases: "(q = p \<and> j = i \<and> n' = n \<and> c' = c) \<or>
      (L q = Some (Suc n') \<and> (q, j) \<noteq> (p, i) \<and> child (Suc n') (tables pg q j) = Some c' \<and> c' \<noteq> c)"
    if "(L(c \<mapsto> n)) q = Some (Suc n')" "j < 512" "child (Suc n') (tables pg' q j) = Some c'" for q n' j c'
    using that p e pc not_c [of q n' j] by (auto simp: tab split: if_splits)
  show "pt_tree (L(c \<mapsto> n)) pg'"
  proof (rule pt_treeI)
    show "(L(c \<mapsto> n)) (pml4t pg') = Some 3"
      using pt_tree_root [OF tree] c by (auto simp: root)
  next
    fix q n' j c'
    assume q: "(L(c \<mapsto> n)) q = Some (Suc n')" "j < 512" "child (Suc n') (tables pg' q j) = Some c'"
    from cases [OF q] show "(L(c \<mapsto> n)) c' = Some n'"
    proof (elim disjE conjE)
      assume old: "L q = Some (Suc n')" "child (Suc n') (tables pg q j) = Some c'" "c' \<noteq> c"
      show ?thesis
        using pt_treeD(1) [OF tree old(1) q(2) old(2)] old(3) by simp
    qed simp
    fix q' n'' j'
    assume q': "(L(c \<mapsto> n)) q' = Some (Suc n'')" "j' < 512" "child (Suc n'') (tables pg' q' j') = Some c'"
    from cases [OF q] show "q' = q \<and> j' = j"
    proof (elim disjE conjE)
      assume old: "L q = Some (Suc n')" "child (Suc n') (tables pg q j) = Some c'" "c' \<noteq> c"
      then have "L q' = Some (Suc n'')" "child (Suc n'') (tables pg q' j') = Some c'"
        using cases [OF q'] by auto
      then show ?thesis
        using pt_treeD(2) [OF tree old(1) q(2) old(2)] q'(2) by simp
    qed (use cases [OF q'] in auto)
  qed
  show "translate pg' v = translate pg v"
  proof (cases "reach pg (Suc n) (3 - Suc n) (pml4t pg) v = Some p \<and> vidx (Suc n) v = i")
    case True
    have "translate pg v = trans_from pg (Suc n) p v"
      using translate_at [OF tree agree_but_refl p(1)] True p(2) by simp
    then have "translate pg v = None"
      using old True by (simp add: Let_def)
    have e': "e AND PRESENT_BIT \<noteq> 0" "\<not> is_leaf (Suc n) e" "e AND addr_mask = c"
      using e by (auto simp: child_def split: if_splits)
    have "translate pg' v = trans_from pg' (Suc n) p v"
      using translate_at [OF tree agree p(1)] True p(2) by simp
    also have "\<dots> = trans_from pg' n c v"
      using e' True by (simp add: tab Let_def)
    also have "\<dots> = None"
      by (rule trans_from_zero) (use pc in \<open>simp add: tab\<close>)
    finally show ?thesis
      using \<open>translate pg v = None\<close> by simp
  next
    case False
    then show ?thesis
      using translate_frame [OF tree agree p(1)] p(2) by auto
  qed
qed

text \<open>Writing a page entry over an absent one: exactly the walks through it change.\<close>

lemma write_leaf:
  assumes tree: "pt_tree L pg" and p: "L p = Some m" "m < 3" and i: "i < 512"
    and old: "tables pg p i AND PRESENT_BIT = 0" and e: "is_leaf m e" "e AND PRESENT_BIT \<noteq> 0"
    and r: "reach pg m (3 - m) (pml4t pg) v = Some p" "vidx m v = i"
  shows "pt_tree L (write_entry p i e pg)"
    and "translate (write_entry p i e pg) w =
      (if \<forall>j. m \<le> j \<and> j \<le> 3 \<longrightarrow> vidx j w = vidx j v then Some (leaf_addr m e w) else translate pg w)"
proof -
  let ?pg = "write_entry p i e pg"
  have old_child: "child m (tables pg p i) = None" "child m e = None"
    using old e by (auto simp: child_def)
  have tab: "child (Suc n) (tables ?pg q j) = child (Suc n) (tables pg q j)" if "L q = Some (Suc n)" for q n j
    using that p old_child by (auto simp: tables_write_entry)
  show "pt_tree L ?pg"
  proof (rule pt_treeI)
    show "L (pml4t ?pg) = Some 3"
      using pt_tree_root [OF tree] by simp
  next
    fix q n j c
    assume q: "L q = Some (Suc n)" "j < 512" "child (Suc n) (tables ?pg q j) = Some c"
    show "L c = Some n"
      using pt_treeD(1) [OF tree q(1,2)] q(3) tab [OF q(1)] by simp
    fix q' n' j'
    assume q': "L q' = Some (Suc n')" "j' < 512" "child (Suc n') (tables ?pg q' j') = Some c"
    show "q' = q \<and> j' = j"
      using pt_treeD(2) [OF tree q(1,2) _ q'(1,2)] q(3) q'(3) tab [OF q(1)] tab [OF q'(1)] by simp
  qed
  have m3: "m + (3 - m) = 3" "m \<le> 3"
    using p(2) by auto
  have root: "L (pml4t pg) = Some (m + (3 - m))"
    unfolding m3(1) by (rule pt_tree_root [OF tree])
  have same: "reach pg m k q w = reach pg m k q v" if "\<forall>j. m \<le> j \<and> j \<le> m + k \<longrightarrow> vidx j w = vidx j v" for k q
    using that by (induction k arbitrary: q) (auto split: option.splits)
  show "translate ?pg w =
      (if \<forall>j. m \<le> j \<and> j \<le> 3 \<longrightarrow> vidx j w = vidx j v then Some (leaf_addr m e w) else translate pg w)"
  proof (cases "reach pg m (3 - m) (pml4t pg) w = Some p \<and> vidx m w = i")
    case True
    then have "translate ?pg w = trans_from ?pg m p w"
      using translate_at [OF tree agree_but_write p(1) m3(2)] by simp
    also have "\<dots> = Some (leaf_addr m e w)"
      using True e by (cases m) (simp_all add: tables_write_entry Let_def)
    finally have t: "translate ?pg w = Some (leaf_addr m e w)" .
    have "vidx j w = vidx j v" if "m \<le> j" "j \<le> 3" for j
    proof (cases "j = m")
      case True
      then show ?thesis
        using \<open>reach pg m (3 - m) (pml4t pg) w = Some p \<and> vidx m w = i\<close> r(2) by simp
    next
      case False
      then show ?thesis
        using reach_inj [OF tree root _ r(1), of w j] True that m3 by simp
    qed
    then show ?thesis
      using t by auto
  next
    case False
    then have "\<not> (\<forall>j. m \<le> j \<and> j \<le> 3 \<longrightarrow> vidx j w = vidx j v)"
      using same [of "3 - m" "pml4t pg"] r m3 by auto
    then show ?thesis
      using False translate_frame [OF tree agree_but_write p(1) m3(2)] by auto
  qed
qed

section \<open>Interface of the page allocator\<close>

text \<open>Flags that leave the address bits alone; those of a table entry also leave the page-size bit clear.\<close>

definition page_flags :: "u64 \<Rightarrow> bool" where
  "page_flags f \<longleftrightarrow> f AND addr_mask = 0"

definition pst_flags :: "u64 \<Rightarrow> bool" where
  "pst_flags f \<longleftrightarrow> f AND addr_mask = 0 \<and> f AND PAGE_BIT = 0"

definition page_address :: "u64 \<Rightarrow> bool" where
  "page_address a \<longleftrightarrow> a AND addr_mask = a"

lemma entry_addr:
  assumes "page_address a" and "page_flags f"
  shows "(a OR f OR PRESENT_BIT) AND addr_mask = a"
  using assms by (simp add: page_address_def page_flags_def bit.conj_disj_distrib2 PRESENT_BIT_def addr_mask_def)

lemma entry_present: "(a OR PRESENT_BIT) AND PRESENT_BIT \<noteq> 0"
  by (simp add: PRESENT_BIT_def bit.conj_disj_distrib2)

lemma entry_not_page:
  assumes "page_address a" and "pst_flags f"
  shows "(a OR f OR PRESENT_BIT) AND PAGE_BIT = 0"
proof -
  have "a AND PAGE_BIT = a AND (addr_mask AND PAGE_BIT)"
    using assms(1) by (metis page_address_def word_bw_assocs(1))
  also have "addr_mask AND PAGE_BIT = 0"
    by (simp add: addr_mask_def PAGE_BIT_def)
  finally show ?thesis
    using assms(2) by (simp add: pst_flags_def bit.conj_disj_distrib2 PRESENT_BIT_def PAGE_BIT_def)
qed

locale page_allocator =
  fixes alloc :: "'s \<Rightarrow> (u64 \<times> 's) kres"
    and pinv :: "'s \<Rightarrow> bool"
    and in_use :: "'s \<Rightarrow> u64 set"
  assumes alloc_inv: "pinv s \<Longrightarrow> alloc s = Inr (a, s') \<Longrightarrow> pinv s'"
    and alloc_fresh: "pinv s \<Longrightarrow> alloc s = Inr (a, s') \<Longrightarrow> a \<notin> in_use s"
    and alloc_in_use: "pinv s \<Longrightarrow> alloc s = Inr (a, s') \<Longrightarrow> insert a (in_use s) \<subseteq> in_use s'"
    and alloc_page: "pinv s \<Longrightarrow> alloc s = Inr (a, s') \<Longrightarrow> page_address a"

definition paging_inv :: "('s \<Rightarrow> bool) \<Rightarrow> ('s \<Rightarrow> u64 set) \<Rightarrow> (u64 \<Rightarrow> nat option) \<Rightarrow> 's PagingCtrl \<Rightarrow> bool" where
  "paging_inv pinv in_use L pg \<longleftrightarrow> pinv (physmem pg) \<and> dom L \<subseteq> in_use (physmem pg) \<and> pt_tree L pg"

definition same_page :: "u64 \<Rightarrow> u64 \<Rightarrow> bool" where
  "same_page v w \<longleftrightarrow> GetPTIndex w = GetPTIndex v \<and> GetPDIndex w = GetPDIndex v \<and>
     GetPDPTIndex w = GetPDPTIndex v \<and> GetPML4TIndex w = GetPML4TIndex v"

lemma same_page_vidx: "(\<forall>j. 0 \<le> j \<and> j \<le> 3 \<longrightarrow> vidx j w = vidx j v) \<longleftrightarrow> same_page v w"
proof -
  have "j \<le> 3 \<longleftrightarrow> j = 0 \<or> j = 1 \<or> j = 2 \<or> j = 3" for j :: nat
    by auto
  then show ?thesis
    by (auto simp: same_page_def numeral_3_eq_3 numeral_2_eq_2)
qed

context page_allocator
begin

lemma ensure_table_ok:
  assumes "paging_inv pinv in_use L pg" and "L p = Some (Suc n)" "n < 3" and "i < 512" and "pst_flags f"
    and "ensure_table alloc p i f pg = Inr (e, pg')"
  obtains L' where "paging_inv pinv in_use L' pg'" "L \<subseteq>\<^sub>m L'" "agree_but L p i pg pg'" "tables pg' p i = e"
    "e AND PRESENT_BIT \<noteq> 0" "\<And>v. translate pg' v = translate pg v"
proof (cases "tables pg p i AND PRESENT_BIT = 0")
  case True
  have tree: "pt_tree L pg" and dom: "dom L \<subseteq> in_use (physmem pg)" and pinv: "pinv (physmem pg)"
    using assms(1) by (simp_all add: paging_inv_def)
  obtain a s where al: "alloc (physmem pg) = Inr (a, s)" and e: "e = a OR f OR PRESENT_BIT"
    and pg': "pg' = write_entry p i e (bzero_page a (pg \<lparr> physmem := s \<rparr>))"
    using assms(6) True by (auto simp: ensure_table_def Let_def kbind_eq_Inr split: prod.splits)
  note a = alloc_inv [OF pinv al] alloc_fresh [OF pinv al] alloc_in_use [OF pinv al] alloc_page [OF pinv al]
  have La: "L a = None"
    using a(2) dom by blast
  have fl: "page_flags f"
    using assms(5) by (simp add: page_flags_def pst_flags_def)
  have present: "e AND PRESENT_BIT \<noteq> 0"
    unfolding e by (metis entry_present or.assoc)
  have "child (Suc n) e = Some a"
    using entry_addr [OF a(4) fl] entry_not_page [OF a(4) assms(5)] present
    by (auto simp: child_def is_leaf_def e)
  note new = new_table [OF tree assms(2,3,4) True La this, of s, folded pg']
  show ?thesis
  proof (rule that [of "L(a \<mapsto> n)"])
    show "paging_inv pinv in_use (L(a \<mapsto> n)) pg'"
      using new(1) a dom by (auto simp: paging_inv_def pg' bzero_page_def)
    show "L \<subseteq>\<^sub>m L(a \<mapsto> n)"
      using La by (auto simp: map_le_def)
  qed (use new present in auto)
next
  case False
  then have "e = tables pg p i" "pg' = pg"
    using assms(6) by (auto simp: ensure_table_def Let_def)
  then show ?thesis
    using that [of L] assms(1) False by (simp add: agree_but_refl)
qed

end

lemma child_step:
  assumes "pt_tree L pg" and "L p = Some (Suc n)" and "tables pg p (vidx (Suc n) v) = e"
    and "e AND PRESENT_BIT \<noteq> 0" and "\<not> is_leaf (Suc n) e"
  shows "L (e AND addr_mask) = Some n"
  using pt_treeD(1) [OF assms(1,2) vidx_bound, of "Suc n" v "e AND addr_mask"] child_not_leaf [OF assms(4,5)] assms(3)
  by simp

lemma reach_extend:
  "reach pg (Suc m) k q v = Some p \<Longrightarrow> child (Suc m) (tables pg p (vidx (Suc m) v)) = Some c \<Longrightarrow>
   reach pg m (Suc k) q v = Some c"
proof (induction k arbitrary: q)
  case (Suc k)
  then obtain c1 where "child (Suc (Suc (m + k))) (tables pg q (vidx (Suc (Suc (m + k))) v)) = Some c1"
    "reach pg (Suc m) k c1 v = Some p"
    by (auto split: option.splits)
  then show ?case
    using Suc.IH [of c1] Suc.prems(2) by simp
qed simp

lemma translate_leaf_at:
  assumes "pt_tree L pg" and "L p = Some m" "m < 3" and "reach pg m (3 - m) (pml4t pg) v = Some p"
    and "tables pg p (vidx m v) = e" and "e AND PRESENT_BIT \<noteq> 0" and "is_leaf m e"
  shows "translate pg v = Some (leaf_addr m e v)"
  using translate_at [OF assms(1) agree_but_refl assms(2)] assms by (cases m) (simp_all add: Let_def)

lemma translate_absent_at:
  assumes "pt_tree L pg" and "L p = Some m" "m < 3" and "reach pg m (3 - m) (pml4t pg) v = Some p"
    and "tables pg p (vidx m v) AND PRESENT_BIT = 0"
  shows "translate pg v = None"
  using translate_at [OF assms(1) agree_but_refl assms(2)] assms by (cases m) (simp_all add: Let_def)

lemma is_leaf_levels [simp]: "\<not> is_leaf 3 e" "is_leaf (Suc (Suc 0)) e \<longleftrightarrow> e AND PAGE_BIT \<noteq> 0"
  "is_leaf (Suc 0) e \<longleftrightarrow> e AND PAGE_BIT \<noteq> 0" "is_leaf 0 e"
  by (simp_all add: is_leaf_def)

context page_allocator
begin

text \<open>One step of the mapping functions: the entry of the table that the walk has reached.\<close>

lemma ensure_step:
  assumes ok: "paging_inv pinv in_use L pg" and fl: "pst_flags f" and p: "L p = Some (Suc n)" "n < 3"
    and r: "reach pg (Suc n) (2 - n) (pml4t pg) v = Some p"
    and run: "ensure_table alloc p (vidx (Suc n) v) f pg = Inr (e, pg')"
  obtains L' where "paging_inv pinv in_use L' pg'" "reach pg' (Suc n) (2 - n) (pml4t pg') v = Some p"
    "L' p = Some (Suc n)" "tables pg' p (vidx (Suc n) v) = e" "e AND PRESENT_BIT \<noteq> 0"
    "\<And>w. translate pg' w = translate pg w" "pml4t pg' = pml4t pg"
    "\<not> is_leaf (Suc n) e \<Longrightarrow> reach pg' n (3 - n) (pml4t pg') v = Some (e AND addr_mask)"
    "\<not> is_leaf (Suc n) e \<Longrightarrow> L' (e AND addr_mask) = Some n"
proof -
  obtain L' where L': "paging_inv pinv in_use L' pg'" "L \<subseteq>\<^sub>m L'" "agree_but L p (vidx (Suc n) v) pg pg'"
    "tables pg' p (vidx (Suc n) v) = e" "e AND PRESENT_BIT \<noteq> 0" "\<And>w. translate pg' w = translate pg w"
    using ensure_table_ok [OF ok p vidx_bound fl run] by blast
  have tree: "pt_tree L pg" "pt_tree L' pg'"
    using ok L'(1) by (simp_all add: paging_inv_def)
  have root: "pml4t pg' = pml4t pg"
    using L'(3) by (simp add: agree_but_def)
  have top: "L (pml4t pg) = Some (Suc n + (2 - n))"
    using pt_tree_root [OF tree(1)] p(2) by simp
  have r': "reach pg' (Suc n) (2 - n) (pml4t pg') v = Some p"
    using reach_frame [OF tree(1) L'(3) p(1) top] r root by simp
  have p': "L' p = Some (Suc n)"
    using L'(2) p(1) by (metis domI map_le_def)
  show ?thesis
  proof (rule that [OF L'(1) r' p' L'(4,5,6) root])
    assume nl: "\<not> is_leaf (Suc n) e"
    have "Suc (2 - n) = 3 - n"
      using p(2) by simp
    then show "reach pg' n (3 - n) (pml4t pg') v = Some (e AND addr_mask)"
      using reach_extend [OF r'] child_not_leaf [OF L'(5) nl] L'(4) by metis
    show "L' (e AND addr_mask) = Some n"
      by (rule child_step [OF tree(2) p' L'(4,5) nl])
  qed
qed

end

lemma masked_table [simp]:
  "GetPML4EMaskedAddr e = e AND addr_mask"
  "e AND PAGE_BIT = 0 \<Longrightarrow> GetPDPTEMaskedAddr e = e AND addr_mask"
  "e AND PAGE_BIT = 0 \<Longrightarrow> GetPDEMaskedAddr e = e AND addr_mask"
  by (simp_all add: GetPML4EMaskedAddr_def GetPDPTEMaskedAddr_def GetPDEMaskedAddr_def addr_mask_def)

context page_allocator
begin

lemma ensure_root:
  assumes ok: "paging_inv pinv in_use L pg" and fl: "pst_flags f"
    and run: "ensure_table alloc (pml4t pg) (GetPML4TIndex v) f pg = Inr (e, pg1)"
  obtains L1 where "paging_inv pinv in_use L1 pg1" "pml4t pg1 = pml4t pg"
    "reach pg1 2 1 (pml4t pg1) v = Some (e AND addr_mask)" "L1 (e AND addr_mask) = Some 2"
    "\<And>w. translate pg1 w = translate pg w"
proof -
  have "L (pml4t pg) = Some (Suc (Suc (Suc 0)))"
    using ok pt_tree_root by (fastforce simp: paging_inv_def numeral_3_eq_3)
  then obtain L1 where "paging_inv pinv in_use L1 pg1" "pml4t pg1 = pml4t pg" "\<And>w. translate pg1 w = translate pg w"
    "reach pg1 (Suc (Suc 0)) (3 - Suc (Suc 0)) (pml4t pg1) v = Some (e AND addr_mask)"
    "L1 (e AND addr_mask) = Some (Suc (Suc 0))"
    using ensure_step [OF ok fl, of "pml4t pg" "Suc (Suc 0)" v e pg1] run by (auto simp: is_leaf_def)
  then show ?thesis
    using that by (simp add: numeral_2_eq_2)
qed

end

text \<open>The ways \<open>Map4KPageToVirtAddr\<close> can end.\<close>

lemma Map4K_ends:
  assumes "Map4KPageToVirtAddr alloc pg v p f g = Inr (done, pg')"
  shows "\<exists>e3 pg1 e2 pg2. ensure_table alloc (pml4t pg) (GetPML4TIndex v) f pg = Inr (e3, pg1) \<and>
    ensure_table alloc (e3 AND addr_mask) (GetPDPTIndex v) f pg1 = Inr (e2, pg2) \<and>
    (e2 AND PAGE_BIT \<noteq> 0 \<and> \<not> done \<and> pg' = pg2 \<or>
     e2 AND PAGE_BIT = 0 \<and>
     (\<exists>e1 pg3. ensure_table alloc (e2 AND addr_mask) (GetPDIndex v) f pg2 = Inr (e1, pg3) \<and>
       (e1 AND PAGE_BIT \<noteq> 0 \<and> \<not> done \<and> pg' = pg3 \<or>
        e1 AND PAGE_BIT = 0 \<and> tables pg3 (e1 AND addr_mask) (GetPTIndex v) AND PRESENT_BIT \<noteq> 0 \<and>
          \<not> done \<and> pg' = pg3 \<or>
        e1 AND PAGE_BIT = 0 \<and> tables pg3 (e1 AND addr_mask) (GetPTIndex v) AND PRESENT_BIT = 0 \<and> done \<and>
          pg' = write_entry (e1 AND addr_mask) (GetPTIndex v) (pa_addr p OR g OR PRESENT_BIT) pg3)))"
  using assms
  by (auto simp: Map4KPageToVirtAddr_def kbind_eq_Inr Let_def PhysAddr_GetAddr_def split: if_splits)

lemma Map4K_cases:
  assumes "Map4KPageToVirtAddr alloc pg v p f g = Inr (done, pg')"
  obtains e3 pg1 e2 pg2 where "ensure_table alloc (pml4t pg) (GetPML4TIndex v) f pg = Inr (e3, pg1)"
    "ensure_table alloc (e3 AND addr_mask) (GetPDPTIndex v) f pg1 = Inr (e2, pg2)"
    "e2 AND PAGE_BIT \<noteq> 0" "\<not> done" "pg' = pg2"
  | e3 pg1 e2 pg2 e1 pg3 where "ensure_table alloc (pml4t pg) (GetPML4TIndex v) f pg = Inr (e3, pg1)"
    "ensure_table alloc (e3 AND addr_mask) (GetPDPTIndex v) f pg1 = Inr (e2, pg2)" "e2 AND PAGE_BIT = 0"
    "ensure_table alloc (e2 AND addr_mask) (GetPDIndex v) f pg2 = Inr (e1, pg3)"
    "e1 AND PAGE_BIT \<noteq> 0" "\<not> done" "pg' = pg3"
  | e3 pg1 e2 pg2 e1 pg3 where "ensure_table alloc (pml4t pg) (GetPML4TIndex v) f pg = Inr (e3, pg1)"
    "ensure_table alloc (e3 AND addr_mask) (GetPDPTIndex v) f pg1 = Inr (e2, pg2)" "e2 AND PAGE_BIT = 0"
    "ensure_table alloc (e2 AND addr_mask) (GetPDIndex v) f pg2 = Inr (e1, pg3)" "e1 AND PAGE_BIT = 0"
    "tables pg3 (e1 AND addr_mask) (GetPTIndex v) AND PRESENT_BIT \<noteq> 0" "\<not> done" "pg' = pg3"
  | e3 pg1 e2 pg2 e1 pg3 where "ensure_table alloc (pml4t pg) (GetPML4TIndex v) f pg = Inr (e3, pg1)"
    "ensure_table alloc (e3 AND addr_mask) (GetPDPTIndex v) f pg1 = Inr (e2, pg2)" "e2 AND PAGE_BIT = 0"
    "ensure_table alloc (e2 AND addr_mask) (GetPDIndex v) f pg2 = Inr (e1, pg3)" "e1 AND PAGE_BIT = 0"
    "tables pg3 (e1 AND addr_mask) (GetPTIndex v) AND PRESENT_BIT = 0" "done"
    "pg' = write_entry (e1 AND addr_mask) (GetPTIndex v) (pa_addr p OR g OR PRESENT_BIT) pg3"
proof -
  show ?thesis
    using Map4K_ends [OF assms]
  proof (elim exE conjE disjE, goal_cases)
    case 1
    then show ?case by (rule that(1))
  next
    case 2
    then show ?case by (intro that(2))
  next
    case 3
    then show ?case by (intro that(3))
  next
    case 4
    then show ?case by (intro that(4))
  qed
qed

context page_allocator
begin

lemma ensure_pdpt:
  assumes ok: "paging_inv pinv in_use L pg" and fl: "pst_flags f"
    and r3: "ensure_table alloc (pml4t pg) (GetPML4TIndex v) f pg = Inr (e3, pg1)"
    and r2: "ensure_table alloc (e3 AND addr_mask) (GetPDPTIndex v) f pg1 = Inr (e2, pg2)"
  obtains L2 where "paging_inv pinv in_use L2 pg2" "L2 (e3 AND addr_mask) = Some 2"
    "reach pg2 2 1 (pml4t pg2) v = Some (e3 AND addr_mask)"
    "tables pg2 (e3 AND addr_mask) (vidx 2 v) = e2"
    "e2 AND PRESENT_BIT \<noteq> 0" "\<And>w. translate pg2 w = translate pg w"
    "e2 AND PAGE_BIT = 0 \<Longrightarrow> reach pg2 1 2 (pml4t pg2) v = Some (e2 AND addr_mask)"
    "e2 AND PAGE_BIT = 0 \<Longrightarrow> L2 (e2 AND addr_mask) = Some 1"
proof -
  obtain L1 where L1: "paging_inv pinv in_use L1 pg1" "pml4t pg1 = pml4t pg"
    "reach pg1 2 1 (pml4t pg1) v = Some (e3 AND addr_mask)" "L1 (e3 AND addr_mask) = Some 2"
    "\<And>w. translate pg1 w = translate pg w"
    using ensure_root [OF ok fl r3] by blast
  have pre: "L1 (e3 AND addr_mask) = Some (Suc (Suc 0))"
    "reach pg1 (Suc (Suc 0)) (2 - Suc 0) (pml4t pg1) v = Some (e3 AND addr_mask)"
    "ensure_table alloc (e3 AND addr_mask) (vidx (Suc (Suc 0)) v) f pg1 = Inr (e2, pg2)"
    using L1 r2 by (simp_all add: numeral_2_eq_2)
  show ?thesis
    by (rule ensure_step [OF L1(1) fl pre(1) _ pre(2,3)])
      (use that L1(5) in \<open>auto simp: numeral_2_eq_2\<close>)
qed

lemma ensure_pt:
  assumes ok: "paging_inv pinv in_use L2 pg2" and fl: "pst_flags f"
    and pre: "reach pg2 1 2 (pml4t pg2) v = Some q" "L2 q = Some 1"
    and r1: "ensure_table alloc q (GetPDIndex v) f pg2 = Inr (e1, pg3)"
  obtains L3 where "paging_inv pinv in_use L3 pg3" "L3 q = Some 1"
    "reach pg3 1 2 (pml4t pg3) v = Some q" "tables pg3 q (vidx 1 v) = e1"
    "e1 AND PRESENT_BIT \<noteq> 0" "\<And>w. translate pg3 w = translate pg2 w"
    "e1 AND PAGE_BIT = 0 \<Longrightarrow> reach pg3 0 3 (pml4t pg3) v = Some (e1 AND addr_mask)"
    "e1 AND PAGE_BIT = 0 \<Longrightarrow> L3 (e1 AND addr_mask) = Some 0"
  by (rule ensure_step [OF ok fl, of q 0 v e1 pg3]) (use that pre r1 in auto)

lemma Map4K_ok:
  assumes ok: "paging_inv pinv in_use L pg" and fl: "pst_flags f" "page_flags g"
    and a: "page_address (pa_addr p)"
    and run: "Map4KPageToVirtAddr alloc pg v p f g = Inr (done, pg')"
  shows "\<exists>L'. paging_inv pinv in_use L' pg'" and "done \<longleftrightarrow> translate pg v = None"
    and "translate pg' w = (if done \<and> same_page v w then Some (pa_addr p OR Get4KPageOffset w) else translate pg w)"
proof -
  have "(\<exists>L'. paging_inv pinv in_use L' pg') \<and> (done \<longleftrightarrow> translate pg v = None) \<and>
    translate pg' w = (if done \<and> same_page v w then Some (pa_addr p OR Get4KPageOffset w) else translate pg w)"
    using run
  proof (cases rule: Map4K_cases)
    case (1 e3 pg1 e2 pg2)
    obtain L2 where L2: "paging_inv pinv in_use L2 pg2" "L2 (e3 AND addr_mask) = Some 2"
      "reach pg2 2 1 (pml4t pg2) v = Some (e3 AND addr_mask)" "tables pg2 (e3 AND addr_mask) (vidx 2 v) = e2"
      "e2 AND PRESENT_BIT \<noteq> 0" "\<And>w. translate pg2 w = translate pg w"
      using ensure_pdpt [OF ok fl(1) 1(1,2)] by metis
    then have "translate pg2 v \<noteq> None"
      using translate_leaf_at [of L2 pg2 "e3 AND addr_mask" 2 v e2] 1(3) by (simp add: paging_inv_def is_leaf_def)
    then show ?thesis
      using L2 1 by auto
  next
    case (2 e3 pg1 e2 pg2 e1 pg3)
    obtain L2 where L2: "paging_inv pinv in_use L2 pg2" "\<And>w. translate pg2 w = translate pg w"
      "reach pg2 1 2 (pml4t pg2) v = Some (e2 AND addr_mask)" "L2 (e2 AND addr_mask) = Some 1"
      using ensure_pdpt [OF ok fl(1) 2(1,2)] 2(3) by metis
    obtain L3 where L3: "paging_inv pinv in_use L3 pg3" "L3 (e2 AND addr_mask) = Some 1"
      "reach pg3 1 2 (pml4t pg3) v = Some (e2 AND addr_mask)" "tables pg3 (e2 AND addr_mask) (vidx 1 v) = e1"
      "e1 AND PRESENT_BIT \<noteq> 0" "\<And>w. translate pg3 w = translate pg2 w"
      using ensure_pt [OF L2(1) fl(1) L2(3,4) 2(4)] by metis
    then have "translate pg3 v \<noteq> None"
      using translate_leaf_at [of L3 pg3 "e2 AND addr_mask" 1 v e1] 2(5) by (simp add: paging_inv_def is_leaf_def)
    then show ?thesis
      using L3 L2 2 by auto
  next
    case (3 e3 pg1 e2 pg2 e1 pg3)
    obtain L2 where L2: "paging_inv pinv in_use L2 pg2" "\<And>w. translate pg2 w = translate pg w"
      "reach pg2 1 2 (pml4t pg2) v = Some (e2 AND addr_mask)" "L2 (e2 AND addr_mask) = Some 1"
      using ensure_pdpt [OF ok fl(1) 3(1,2)] 3(3) by metis
    obtain L3 where L3: "paging_inv pinv in_use L3 pg3" "\<And>w. translate pg3 w = translate pg2 w"
      "reach pg3 0 3 (pml4t pg3) v = Some (e1 AND addr_mask)" "L3 (e1 AND addr_mask) = Some 0"
      using ensure_pt [OF L2(1) fl(1) L2(3,4) 3(4)] 3(5) by metis
    then have "translate pg3 v \<noteq> None"
      using translate_leaf_at [of L3 pg3 "e1 AND addr_mask" 0 v] 3(6) by (simp add: paging_inv_def)
    then show ?thesis
      using L3 L2 3 by auto
  next
    case (4 e3 pg1 e2 pg2 e1 pg3)
    obtain L2 where L2: "paging_inv pinv in_use L2 pg2" "\<And>w. translate pg2 w = translate pg w"
      "reach pg2 1 2 (pml4t pg2) v = Some (e2 AND addr_mask)" "L2 (e2 AND addr_mask) = Some 1"
      using ensure_pdpt [OF ok fl(1) 4(1,2)] 4(3) by metis
    obtain L3 where L3: "paging_inv pinv in_use L3 pg3" "\<And>w. translate pg3 w = translate pg2 w"
      "reach pg3 0 3 (pml4t pg3) v = Some (e1 AND addr_mask)" "L3 (e1 AND addr_mask) = Some 0"
      using ensure_pt [OF L2(1) fl(1) L2(3,4) 4(4)] 4(5) by metis
    let ?e = "pa_addr p OR g OR PRESENT_BIT"
    have tree: "pt_tree L3 pg3"
      using L3(1) by (simp add: paging_inv_def)
    have present: "?e AND PRESENT_BIT \<noteq> 0"
      by (metis entry_present or.assoc)
    have "leaf_addr 0 ?e w = pa_addr p OR Get4KPageOffset w"
      using entry_addr [OF a fl(2)] by (simp add: leaf_addr_def GetPTEMaskedAddr_def addr_mask_def)
    moreover note write_leaf(1) [OF tree L3(4) _ _ _ _ present, where i = "GetPTIndex v" and v = v]
    moreover note write_leaf(2) [OF tree L3(4) _ _ _ _ present, where i = "GetPTIndex v" and v = v and w = w]
    moreover have "translate pg3 v = None"
      using translate_absent_at [OF tree L3(4)] L3(3) 4(6) by simp
    moreover have "GetPTIndex v < 512"
      using vidx_bound [of 0 v] by simp
    ultimately show ?thesis
      using 4(6-8) L2(2) L3 same_page_vidx [of w v] by (auto simp: paging_inv_def)
  qed
  then show "\<exists>L'. paging_inv pinv in_use L' pg'" "done \<longleftrightarrow> translate pg v = None"
    "translate pg' w = (if done \<and> same_page v w then Some (pa_addr p OR Get4KPageOffset w) else translate pg w)"
    by blast+
qed

end

lemma same_page_mapped: "same_page v w \<Longrightarrow> translate pg v = None \<longleftrightarrow> translate pg w = None"
proof -
  assume "same_page v w"
  then have "IsVirtAddrMapped pg v = IsVirtAddrMapped pg w"
    by (simp only: same_page_def IsVirtAddrMapped_def)
  then show ?thesis
    unfolding IsVirtAddrMapped_eq by blast
qed

lemma same_page_refl [simp]: "same_page v v"
  by (simp add: same_page_def)

definition same_2M :: "u64 \<Rightarrow> u64 \<Rightarrow> bool" where
  "same_2M v w \<longleftrightarrow> GetPDIndex w = GetPDIndex v \<and> GetPDPTIndex w = GetPDPTIndex v \<and>
     GetPML4TIndex w = GetPML4TIndex v"

lemma same_2M_vidx: "(\<forall>j. 1 \<le> j \<and> j \<le> 3 \<longrightarrow> vidx j w = vidx j v) \<longleftrightarrow> same_2M v w"
proof -
  have "1 \<le> j \<and> j \<le> 3 \<longleftrightarrow> j = 1 \<or> j = 2 \<or> j = 3" for j :: nat
    by auto
  then show ?thesis
    by (auto simp: same_2M_def numeral_3_eq_3 numeral_2_eq_2)
qed

definition addr_mask_2M :: u64 where
  "addr_mask_2M = 0xFFFFFFFE00000"

lemma entry_2M:
  assumes "a AND addr_mask_2M = a" and "pst_flags f"
  shows "GetPDEMaskedAddr (a OR f OR PRESENT_BIT OR PAGE_BIT) = a"
    and "(a OR f OR PRESENT_BIT OR PAGE_BIT) AND PAGE_BIT \<noteq> 0"
    and "(a OR f OR PRESENT_BIT OR PAGE_BIT) AND PRESENT_BIT \<noteq> 0"
proof -
  have "f AND addr_mask_2M = f AND (addr_mask AND addr_mask_2M)"
    by (simp add: addr_mask_def addr_mask_2M_def)
  then have f: "f AND addr_mask_2M = 0"
    using assms(2) by (simp add: pst_flags_def flip: and.assoc)
  show page: "(a OR f OR PRESENT_BIT OR PAGE_BIT) AND PAGE_BIT \<noteq> 0"
    by (simp add: bit.conj_disj_distrib2 or_eq_0_iff PAGE_BIT_def)
  show "(a OR f OR PRESENT_BIT OR PAGE_BIT) AND PRESENT_BIT \<noteq> 0"
    by (simp add: bit.conj_disj_distrib2 or_eq_0_iff PRESENT_BIT_def)
  show "GetPDEMaskedAddr (a OR f OR PRESENT_BIT OR PAGE_BIT) = a"
    using assms(1) f page
    by (simp add: GetPDEMaskedAddr_def bit.conj_disj_distrib2 PRESENT_BIT_def PAGE_BIT_def flip: addr_mask_2M_def)
      (simp add: addr_mask_2M_def)
qed

lemma Map2M_ends:
  assumes "Map2MPageToVirtAddr alloc pg v p f g = Inr (done, pg')"
  shows "\<exists>e3 pg1 e2 pg2. ensure_table alloc (pml4t pg) (GetPML4TIndex v) f pg = Inr (e3, pg1) \<and>
    ensure_table alloc (e3 AND addr_mask) (GetPDPTIndex v) f pg1 = Inr (e2, pg2) \<and>
    (e2 AND PAGE_BIT \<noteq> 0 \<and> \<not> done \<and> pg' = pg2 \<or>
     e2 AND PAGE_BIT = 0 \<and> tables pg2 (e2 AND addr_mask) (GetPDIndex v) AND PRESENT_BIT \<noteq> 0 \<and>
       \<not> done \<and> pg' = pg2 \<or>
     e2 AND PAGE_BIT = 0 \<and> tables pg2 (e2 AND addr_mask) (GetPDIndex v) AND PRESENT_BIT = 0 \<and> done \<and>
       pg' = write_entry (e2 AND addr_mask) (GetPDIndex v) (pa_addr p OR f OR PRESENT_BIT OR PAGE_BIT) pg2)"
  using assms
  by (auto simp: Map2MPageToVirtAddr_def kbind_eq_Inr Let_def PhysAddr_GetAddr_def split: if_splits)

context page_allocator
begin

lemma Map2M_ok:
  assumes ok: "paging_inv pinv in_use L pg" and fl: "pst_flags f"
    and a: "pa_addr p AND addr_mask_2M = pa_addr p"
    and run: "Map2MPageToVirtAddr alloc pg v p f g = Inr (done, pg')"
  shows "\<exists>L'. paging_inv pinv in_use L' pg'"
    and "translate pg' w = (if done \<and> same_2M v w then Some (pa_addr p OR Get2MPageOffset w) else translate pg w)"
proof -
  obtain e3 pg1 e2 pg2 where r: "ensure_table alloc (pml4t pg) (GetPML4TIndex v) f pg = Inr (e3, pg1)"
    "ensure_table alloc (e3 AND addr_mask) (GetPDPTIndex v) f pg1 = Inr (e2, pg2)"
    and ends: "e2 AND PAGE_BIT \<noteq> 0 \<and> \<not> done \<and> pg' = pg2 \<or>
     e2 AND PAGE_BIT = 0 \<and> tables pg2 (e2 AND addr_mask) (GetPDIndex v) AND PRESENT_BIT \<noteq> 0 \<and>
       \<not> done \<and> pg' = pg2 \<or>
     e2 AND PAGE_BIT = 0 \<and> tables pg2 (e2 AND addr_mask) (GetPDIndex v) AND PRESENT_BIT = 0 \<and> done \<and>
       pg' = write_entry (e2 AND addr_mask) (GetPDIndex v) (pa_addr p OR f OR PRESENT_BIT OR PAGE_BIT) pg2"
    using Map2M_ends [OF run] by blast
  obtain L2 where L2: "paging_inv pinv in_use L2 pg2" "\<And>w. translate pg2 w = translate pg w"
    "e2 AND PAGE_BIT = 0 \<Longrightarrow> reach pg2 1 2 (pml4t pg2) v = Some (e2 AND addr_mask)"
    "e2 AND PAGE_BIT = 0 \<Longrightarrow> L2 (e2 AND addr_mask) = Some 1"
    using ensure_pdpt [OF ok fl r] by metis
  have tree: "pt_tree L2 pg2"
    using L2(1) by (simp add: paging_inv_def)
  let ?e = "pa_addr p OR f OR PRESENT_BIT OR PAGE_BIT"
  note e = entry_2M [OF a fl]
  have "(\<exists>L'. paging_inv pinv in_use L' pg') \<and>
    translate pg' w = (if done \<and> same_2M v w then Some (pa_addr p OR Get2MPageOffset w) else translate pg w)"
    using ends
  proof (elim disjE conjE)
    assume c: "e2 AND PAGE_BIT = 0" "tables pg2 (e2 AND addr_mask) (GetPDIndex v) AND PRESENT_BIT = 0" "done"
      "pg' = write_entry (e2 AND addr_mask) (GetPDIndex v) ?e pg2"
    have "leaf_addr 1 ?e w = pa_addr p OR Get2MPageOffset w"
      using e(1) by (simp add: leaf_addr_def)
    moreover note write_leaf(1) [OF tree L2(4) _ _ _ _ e(3), where i = "GetPDIndex v" and v = v]
    moreover note write_leaf(2) [OF tree L2(4) _ _ _ _ e(3), where i = "GetPDIndex v" and v = v and w = w]
    moreover have "GetPDIndex v < 512" "is_leaf 1 ?e"
      using vidx_bound [of 1 v] e(2) by simp_all
    ultimately show ?thesis
      using c L2 same_2M_vidx [of w v] by (auto simp: paging_inv_def)
  qed (use L2 in auto)
  then show "\<exists>L'. paging_inv pinv in_use L' pg'"
    "translate pg' w = (if done \<and> same_2M v w then Some (pa_addr p OR Get2MPageOffset w) else translate pg w)"
    by blast+
qed

text \<open>A run of \<open>map_pages\<close> that succeeds maps every page of the range and disturbs no mapping.\<close>

lemma map_pages_ok:
  assumes "paging_inv pinv in_use L pg" and "pst_flags f" "page_flags g"
    and "\<And>k. k < n \<Longrightarrow> page_address (addr + of_nat k * kPageSize)"
    and "map_pages alloc n pg v addr f g = Inr (done, pg')"
  shows "\<exists>L'. paging_inv pinv in_use L' pg'"
    and "translate pg w = Some x \<Longrightarrow> translate pg' w = Some x"
    and "done \<Longrightarrow> k < n \<Longrightarrow> same_page (v + of_nat k * kPageSize) w \<Longrightarrow>
      translate pg' w = Some ((addr + of_nat k * kPageSize) OR Get4KPageOffset w)"
proof -
  have "(\<exists>L'. paging_inv pinv in_use L' pg') \<and>
    (\<forall>w x. translate pg w = Some x \<longrightarrow> translate pg' w = Some x) \<and>
    (done \<longrightarrow> (\<forall>k<n. \<forall>w. same_page (v + of_nat k * kPageSize) w \<longrightarrow>
      translate pg' w = Some ((addr + of_nat k * kPageSize) OR Get4KPageOffset w)))"
    using assms(1,4,5)
  proof (induction n arbitrary: pg v addr L)
    case (Suc n)
    let ?p = "\<lparr> pa_is_initialized = True, pa_addr = addr \<rparr>"
    obtain ok pg1 where run: "Map4KPageToVirtAddr alloc pg v ?p f g = Inr (ok, pg1)"
      and rest: "if \<not> ok then done = False \<and> pg' = pg1
         else map_pages alloc n pg1 (v + kPageSize) (addr + kPageSize) f g = Inr (done, pg')"
      using Suc.prems(3) by (auto simp: kbind_eq_Inr split: if_splits)
    have pa: "page_address (pa_addr ?p)"
      using Suc.prems(2) [of 0] by simp
    note one = Map4K_ok [OF Suc.prems(1) assms(2,3) pa run]
    have keep: "translate pg1 w = Some x" if "translate pg w = Some x" for w x
      using one(2) one(3) [of w] that same_page_mapped [of v w pg] by auto
    show ?case
    proof (cases ok)
      case True
      obtain L1 where L1: "paging_inv pinv in_use L1 pg1"
        using one(1) by blast
      have "page_address (addr + kPageSize + of_nat k * kPageSize)" if "k < n" for k
        using Suc.prems(2) [of "Suc k"] that by (simp add: algebra_simps)
      then have IH: "(\<exists>L'. paging_inv pinv in_use L' pg') \<and>
        (\<forall>w x. translate pg1 w = Some x \<longrightarrow> translate pg' w = Some x) \<and>
        (done \<longrightarrow> (\<forall>k<n. \<forall>w. same_page (v + kPageSize + of_nat k * kPageSize) w \<longrightarrow>
          translate pg' w = Some ((addr + kPageSize + of_nat k * kPageSize) OR Get4KPageOffset w)))"
        using Suc.IH [OF L1, of "addr + kPageSize" "v + kPageSize"] rest True by simp
      have "translate pg' w = Some ((addr + of_nat k * kPageSize) OR Get4KPageOffset w)"
        if "done" "k < Suc n" "same_page (v + of_nat k * kPageSize) w" for k w
      proof (cases k)
        case 0
        then show ?thesis
          using one(3) [of w] True that IH by simp
      next
        case (Suc k')
        then show ?thesis
          using IH that by (simp add: algebra_simps)
      qed
      then show ?thesis
        using IH keep by blast
    next
      case False
      then show ?thesis
        using rest one(1) keep by simp
    qed
  qed auto
  then show "\<exists>L'. paging_inv pinv in_use L' pg'" "translate pg w = Some x \<Longrightarrow> translate pg' w = Some x"
    "done \<Longrightarrow> k < n \<Longrightarrow> same_page (v + of_nat k * kPageSize) w \<Longrightarrow>
      translate pg' w = Some ((addr + of_nat k * kPageSize) OR Get4KPageOffset w)"
    by blast+
qed

end

section \<open>PhysmemCtrl is a page allocator\<close>

definition page_alloc :: "u64 \<Rightarrow> PhysmemCtrl \<Rightarrow> (u64 \<times> PhysmemCtrl) kres" where
  "page_alloc mem_end st =
     kbind (Alloc mem_end st PhysAddr_new kPageSize) (\<lambda>(p, st').
       kmap (\<lambda>a. (a, st')) (PhysAddr_GetAddr p))"

definition physmem_inv :: "u64 \<Rightarrow> PhysmemCtrl \<Rightarrow> bool" where
  "physmem_inv mem_end st \<longleftrightarrow> areas_ok (allocated_area st) \<and> pages_ok (allocated_area st) \<and>
     mem_end \<le> 0x10000000000000 \<and> (\<forall>e\<in>end_addr ` set (allocated_area st). e \<le> 0x10000000000000)"

lemma addr_mask_bits: "bit addr_mask n \<longleftrightarrow> 12 \<le> n \<and> n < 52"
proof -
  have "addr_mask = push_bit 12 (mask 40)"
    by (simp add: addr_mask_def mask_eq_exp_minus_1)
  then have "bit addr_mask n \<longleftrightarrow> bit (push_bit 12 (mask 40) :: u64) n"
    by simp
  then show ?thesis
    by (auto simp: bit_push_bit_iff bit_mask_iff)
qed

lemma page_addressI:
  assumes "4096 dvd unat a" and "a < 0x10000000000000"
  shows "page_address a"
proof -
  have "take_bit 12 a = 0"
    using assms(1) by (simp add: word_eq_unat take_bit_eq_mod unat_mod dvd_eq_mod_eq_0)
  then have low: "\<not> bit a n" if "n < 12" for n
    using that by (metis bit_0_eq bit_take_bit_iff bot_apply bot_bool_def)
  have "take_bit 52 a = a"
    using assms(2) by (simp add: word_eq_unat take_bit_eq_mod unat_mod word_less_nat_alt)
  then have high: "\<not> bit a n" if "52 \<le> n" for n
    using that by (metis bit_take_bit_iff not_le)
  show ?thesis
    unfolding page_address_def
    by (rule bit_word_eqI) (use low high in \<open>auto simp: bit_and_iff addr_mask_bits not_le [symmetric]\<close>)
qed

lemma page_alloc_ok:
  assumes inv: "physmem_inv mem_end st" and run: "page_alloc mem_end st = Inr (a, st')"
  shows "physmem_inv mem_end st'" and "a \<notin> owned (allocated_area st)"
    and "insert a (owned (allocated_area st)) \<subseteq> owned (allocated_area st')" and "page_address a"
proof -
  let ?opt = "\<lparr> opt_align = 1, non_recursive = False \<rparr>"
  obtain p where p: "AllocSub mem_end st PhysAddr_new kPageSize ?opt = Inr (p, st')" "a = pa_addr p"
    using run by (auto simp: page_alloc_def Alloc_def kbind_eq_Inr kmap_eq_Inr PhysAddr_GetAddr_def)
  have init: "is_initialized st"
    using p(1) by (auto simp: AllocSub_def kbind_eq_Inr)
  have ok: "areas_ok (allocated_area st)" "pages_ok (allocated_area st)"
    using inv by (simp_all add: physmem_inv_def)
  have "end_addr (last (allocated_area st)) \<le> 0x10000000000000"
    using inv ok(1) by (auto simp: physmem_inv_def areas_ok_def)
  then have room: "room (opt_align ?opt) kPageSize (allocated_area st)"
    using room_one [OF ok(1), of kPageSize] by (simp add: kPageSize_def word_le_nat_alt)
  have pre: "0 < kPageSize" "kPageSize mod kPageSize = 0" "non_recursive ?opt \<longrightarrow> opt_align ?opt = 1"
    "\<not> pa_is_initialized PhysAddr_new"
    by (simp_all add: kPageSize_def PhysAddr_new_def)
  have le: "mem_end \<le> 0x10000000000000" "\<forall>e\<in>end_addr ` set (allocated_area st). e \<le> 0x10000000000000"
    using inv by (simp_all add: physmem_inv_def)
  have "physmem_inv mem_end st' \<and> a \<notin> owned (allocated_area st) \<and>
    insert a (owned (allocated_area st)) \<subseteq> owned (allocated_area st') \<and> page_address a"
  proof (cases rule: AllocSub_cases [OF init ok(1) pre(1,2,3) room pre(4), where mem_end = mem_end])
    case 1
    then show ?thesis
      using p(1) by simp
  next
    case ok: (2 addr as)
    then have st': "a = addr" "st' = st \<lparr> allocated_area := as \<rparr>"
      using p by simp_all
    have top: "addr + kPageSize \<le> 0x10000000000000" "addr < 0x10000000000000"
      using ok(5,7) le(1) by simp_all
    have "\<forall>e\<in>end_addr ` set as. e \<le> 0x10000000000000"
    proof
      fix e assume "e \<in> end_addr ` set as"
      then have "e = addr + kPageSize \<or> e \<in> end_addr ` set (allocated_area st)"
        using subsetD [OF ok(9)] by simp
      then show "e \<le> 0x10000000000000"
        using le(2) top(1) by metis
    qed
    moreover have "pages_ok as \<and> 4096 dvd unat addr"
      using ok(8) \<open>pages_ok (allocated_area st)\<close> by simp
    moreover have "addr \<in> {addr..<addr + kPageSize}"
      using ok(5) by simp
    ultimately show ?thesis
      using ok(2-4) le(1) page_addressI [OF _ top(2)] by (auto simp: physmem_inv_def st')
  qed
  then show "physmem_inv mem_end st'" "a \<notin> owned (allocated_area st)"
    "insert a (owned (allocated_area st)) \<subseteq> owned (allocated_area st')" "page_address a"
    by blast+
qed

interpretation pages: page_allocator "page_alloc mem_end" "physmem_inv mem_end" "\<lambda>st. owned (allocated_area st)"
  for mem_end
  by unfold_locales (rule page_alloc_ok; assumption)+

text \<open>The page flags never reach the entry of a 2M or 1G page.\<close>

lemma Map2M_ignores_page_flag:
  "Map2MPageToVirtAddr alloc pg v p f g = Map2MPageToVirtAddr alloc pg v p f g'"
  by (simp add: Map2MPageToVirtAddr_def)

lemma Map1G_ignores_page_flag:
  "Map1GPageToVirtAddr alloc pg v p f g = Map1GPageToVirtAddr alloc pg v p f g'"
  by (simp add: Map1GPageToVirtAddr_def)

section \<open>Properties\<close>

abbreviation kernel_paging_inv :: "u64 \<Rightarrow> (u64 \<Rightarrow> nat option) \<Rightarrow> PhysmemCtrl PagingCtrl \<Rightarrow> bool" where
  "kernel_paging_inv mem_end \<equiv> paging_inv (physmem_inv mem_end) (\<lambda>st. owned (allocated_area st))"

text \<open>C2: mapping one 4K page changes exactly what it should. Over page tables that
  form a tree in allocated memory, \<open>Map4KPageToVirtAddr\<close> returns true exactly
  when the page was unmapped; then every address of the page translates to the
  given frame at the same offset, every other address translates as before,
  and the tables, with the pages newly taken from the physical allocator,
  form a tree in allocated memory again. When it returns false no translation
  has changed.
\<close>

theorem Map4K_maps_exactly_one_page:
  assumes "kernel_paging_inv mem_end L pg" and "pst_flags f" and "page_flags g" and "page_address (pa_addr p)"
    and "Map4KPageToVirtAddr (page_alloc mem_end) pg v p f g = Inr (done, pg')"
  shows "(done \<longleftrightarrow> translate pg v = None) \<and>
    (\<forall>w. translate pg' w =
       (if done \<and> same_page v w then Some (pa_addr p OR Get4KPageOffset w) else translate pg w)) \<and>
    (\<exists>L'. kernel_paging_inv mem_end L' pg')"
  using pages.Map4K_ok [OF assms] by blast

text \<open>A machine with an empty root table at address 4096, inside the 6M that the boot code allocates.\<close>

definition boot_paging :: "PhysmemCtrl PagingCtrl" where
  "boot_paging = \<lparr> pml4t = 0x1000, tables = (\<lambda>_ _. 0),
     physmem = \<lparr> allocated_area = [\<lparr> start_addr = 0, end_addr = 0x600000 \<rparr>],
       is_initialized = True, is_able_to_allocate = True \<rparr> \<rparr>"

lemma boot_paging_inv: "kernel_paging_inv 0x10000000 [0x1000 \<mapsto> 3] boot_paging"
  by (auto simp: boot_paging_def paging_inv_def physmem_inv_def areas_ok_def pages_ok_def pt_tree_def)

lemma boot_paging_alloc:
  "page_alloc 0x10000000 \<lparr> allocated_area = [\<lparr> start_addr = 0, end_addr = e \<rparr>],
       is_initialized = True, is_able_to_allocate = True \<rparr> =
   (if e + 0x1000 < 0x10000000
    then Inr (e, \<lparr> allocated_area = [\<lparr> start_addr = 0, end_addr = e + 0x1000 \<rparr>],
       is_initialized = True, is_able_to_allocate = True \<rparr>)
    else Inl Kernel_Panic)"
  by (simp add: page_alloc_def Alloc_def AllocSub_def alloc_find.simps alloc_at_def merge_fraged_def
      kPageSize_def PhysAddr_SetAddr_def PhysAddr_GetAddr_def PhysAddr_new_def Let_def not_less)

lemmas boot_run_simps = boot_paging_def boot_paging_alloc ensure_table_def bzero_page_def write_entry_def Let_def
  PRESENT_BIT_def PAGE_BIT_def WRITE_BIT_def GetPML4TIndex_def GetPDPTIndex_def GetPDIndex_def GetPTIndex_def
  addr_mask_def kPageSize_def PhysAddr_GetAddr_def GetPML4EMaskedAddr_def GetPDPTEMaskedAddr_def
  GetPDEMaskedAddr_def

theorem Map4K_maps_exactly_one_page_witness:
  "\<exists>pg'. Map4KPageToVirtAddr (page_alloc 0x10000000) boot_paging 0x5000
      \<lparr> pa_is_initialized = True, pa_addr = 0x700000 \<rparr> 2 2 = Inr (True, pg') \<and>
    translate pg' 0x5123 = Some 0x700123"
proof -
  have "\<exists>pg'. Map4KPageToVirtAddr (page_alloc 0x10000000) boot_paging 0x5000
      \<lparr> pa_is_initialized = True, pa_addr = 0x700000 \<rparr> 2 2 = Inr (True, pg')"
    by (simp add: Map4KPageToVirtAddr_def boot_run_simps del: masked_table)
  then obtain pg' where run: "Map4KPageToVirtAddr (page_alloc 0x10000000) boot_paging 0x5000
      \<lparr> pa_is_initialized = True, pa_addr = 0x700000 \<rparr> 2 2 = Inr (True, pg')"
    by blast
  have "translate pg' 0x5123 = Some (0x700000 OR Get4KPageOffset 0x5123)"
    using Map4K_maps_exactly_one_page [OF boot_paging_inv _ _ _ run]
    by (simp add: pst_flags_def page_flags_def page_address_def addr_mask_def PAGE_BIT_def same_page_def
        GetPML4TIndex_def GetPDPTIndex_def GetPDIndex_def GetPTIndex_def)
  then show ?thesis
    using run by (simp add: Get4KPageOffset_def)
qed

text \<open>C25: a successful \<open>MapPhysAddrToVirtAddr\<close> maps every page of the range to the
  corresponding frame, and whether or not it succeeds it changes no existing
  translation.
\<close>

theorem MapPhysAddrToVirtAddr_maps_range:
  assumes "kernel_paging_inv mem_end L pg" and "pst_flags f" and "page_flags g"
    and "\<And>k. k < unat (sz div kPageSize) \<Longrightarrow> page_address (pa_addr p + of_nat k * kPageSize)"
    and "MapPhysAddrToVirtAddr (page_alloc mem_end) pg v p sz f g = Inr (done, pg')"
  shows "(\<forall>w x. translate pg w = Some x \<longrightarrow> translate pg' w = Some x) \<and>
    (done \<longrightarrow> (\<forall>k<unat (sz div kPageSize). \<forall>w. same_page (v + of_nat k * kPageSize) w \<longrightarrow>
       translate pg' w = Some ((pa_addr p + of_nat k * kPageSize) OR Get4KPageOffset w)))"
proof -
  have "map_pages (page_alloc mem_end) (unat (sz div kPageSize)) pg v (pa_addr p) f g = Inr (done, pg')"
    using assms(5) by (auto simp: MapPhysAddrToVirtAddr_def kbind_eq_Inr PhysAddr_GetAddr_def)
  from pages.map_pages_ok(2,3) [OF assms(1-4) this] show ?thesis
    by blast
qed

theorem MapPhysAddrToVirtAddr_maps_range_witness:
  "\<exists>pg'. MapPhysAddrToVirtAddr (page_alloc 0x10000000) boot_paging 0x5000
      \<lparr> pa_is_initialized = True, pa_addr = 0x700000 \<rparr> 0x2000 2 2 = Inr (True, pg') \<and>
    translate pg' 0x6123 = Some 0x701123"
proof -
  have two: "map_pages (page_alloc 0x10000000) 2 pg v a f g = map_pages (page_alloc 0x10000000) (Suc (Suc 0)) pg v a f g"
    for pg v a f g
    by (simp only: numeral_2_eq_2)
  have "\<exists>pg'. MapPhysAddrToVirtAddr (page_alloc 0x10000000) boot_paging 0x5000
      \<lparr> pa_is_initialized = True, pa_addr = 0x700000 \<rparr> 0x2000 2 2 = Inr (True, pg')"
    by (simp add: MapPhysAddrToVirtAddr_def two Map4KPageToVirtAddr_def boot_run_simps align_def
        del: masked_table)
  then obtain pg' where run: "MapPhysAddrToVirtAddr (page_alloc 0x10000000) boot_paging 0x5000
      \<lparr> pa_is_initialized = True, pa_addr = 0x700000 \<rparr> 0x2000 2 2 = Inr (True, pg')"
    by blast
  have "page_address (0x700000 + of_nat k * kPageSize)" if "k < unat ((0x2000 :: u64) div kPageSize)" for k
  proof -
    have "k = 0 \<or> k = 1"
      using that by (auto simp: kPageSize_def)
    then show ?thesis
      by (auto simp: kPageSize_def page_address_def addr_mask_def)
  qed
  moreover have fl: "pst_flags 2" "page_flags 2"
    by (simp_all add: pst_flags_def page_flags_def addr_mask_def PAGE_BIT_def)
  ultimately have "\<forall>k<unat ((0x2000 :: u64) div kPageSize). \<forall>w. same_page (0x5000 + of_nat k * kPageSize) w \<longrightarrow>
      translate pg' w = Some ((0x700000 + of_nat k * kPageSize) OR Get4KPageOffset w)"
    using MapPhysAddrToVirtAddr_maps_range [OF boot_paging_inv fl _ run] by simp
  from this [rule_format, of 1 "0x6123"]
  have "translate pg' 0x6123 = Some ((0x700000 + of_nat 1 * kPageSize) OR Get4KPageOffset 0x6123)"
    by (simp add: same_page_def kPageSize_def
        GetPML4TIndex_def GetPDPTIndex_def GetPDIndex_def GetPTIndex_def)
  then show ?thesis
    using run by (simp add: Get4KPageOffset_def kPageSize_def)
qed

end
