(* ===== verification/Virt_Mem.thy ===== *)
theory Virt_Mem
  imports Paging
begin

text \<open>
  The kernel heap of \<open>mem/virtmem.cc\<close> (\<open>Sbrk\<close>, on which the heap allocator
  stands) and the kernel stacks of \<open>mem/kstack.cc\<close>. Both take physical memory
  from \<open>PhysmemCtrl\<close> and map it with \<open>PagingCtrl\<close>. The heap allocator itself
  (\<open>dlmalloc\<close>) is not part of the model.
\<close>

section \<open>The heap break\<close>

record VirtmemCtrl =
  heap_allocated_end :: u64
  brk_end :: u64
  heap_limit :: u64

text \<open>The three arguments are the linker symbols \<open>kLinearAddrOffset\<close>, \<open>phys_memory_end\<close> and \<open>kHeapEndAddr\<close>.\<close>

definition VirtmemCtrl_new :: "u64 \<Rightarrow> u64 \<Rightarrow> u64 \<Rightarrow> VirtmemCtrl kres" where
  "VirtmemCtrl_new linear_offset phys_end heap_end =
     (let vm = \<lparr> heap_allocated_end = linear_offset + 0x600000, brk_end = linear_offset + phys_end,
                 heap_limit = heap_end \<rparr> in
      kbind (kassert (brk_end vm < heap_allocated_end vm)) (\<lambda>_. Inr vm))"

definition Sbrk :: "u64 \<Rightarrow> VirtmemCtrl \<Rightarrow> PhysmemCtrl PagingCtrl \<Rightarrow> u64 \<Rightarrow>
    (u64 \<times> VirtmemCtrl \<times> PhysmemCtrl PagingCtrl) kres" where
  "Sbrk mem_end vm pg increment =
     (let old_brk_end = brk_end vm; vm1 = vm \<lparr> brk_end := brk_end vm + increment \<rparr> in
      if heap_allocated_end vm1 < brk_end vm1 then
        (let new_end = alignUp (brk_end vm1) kPageSize in
         if new_end \<le> heap_limit vm1 then
           kbind (kassert (heap_allocated_end vm1 = align (heap_allocated_end vm1) kPageSize)) (\<lambda>_.
           let psize = new_end - heap_allocated_end vm1 in
           kbind (AllocNonRecursive mem_end (physmem pg) PhysAddr_new psize) (\<lambda>(paddr, s).
           kbind (MapPhysAddrToVirtAddr (page_alloc mem_end) (pg \<lparr> physmem := s \<rparr>) (heap_allocated_end vm1)
                    paddr psize (WRITE_BIT OR USER_BIT) (WRITE_BIT OR GLOBAL_BIT OR USER_BIT)) (\<lambda>(ok, pg1).
           kbind (kassert ok) (\<lambda>_.
           Inr (old_brk_end, vm1 \<lparr> heap_allocated_end := new_end \<rparr>, pg1)))))
         else Inl Kassert)
      else Inr (old_brk_end, vm1, pg))"

section \<open>Kernel stacks\<close>

record KernelStackCtrl =
  stack_area_top :: u64
  freed :: "u64 list"

definition kStackSize :: u64 where
  "kStackSize = kPageSize * 4"

text \<open>\<open>kernel_end\<close> is the linker symbol \<open>kKernelEndAddr\<close>.\<close>

definition InitFirstStack :: "u64 \<Rightarrow> KernelStackCtrl" where
  "InitFirstStack kernel_end =
     \<lparr> stack_area_top = kernel_end + 1 - (kStackSize + kPageSize * 2), freed = [] \<rparr>"

definition KernelStackCtrl_Init :: "u64 \<Rightarrow> u64 \<Rightarrow> PhysmemCtrl PagingCtrl \<Rightarrow>
    (KernelStackCtrl \<times> PhysmemCtrl PagingCtrl) kres" where
  "KernelStackCtrl_Init mem_end kernel_end pg =
     kbind (kassert (\<not> IsVirtAddrMapped pg (kernel_end - kPageSize * 0))) (\<lambda>_.
     kbind (kassert (IsVirtAddrMapped pg (kernel_end - kPageSize * 1))) (\<lambda>_.
     kbind (kassert (\<not> IsVirtAddrMapped pg (kernel_end - kPageSize * 2))) (\<lambda>_.
     kbind (if kPageSize < kStackSize then
              let sz = kStackSize - kPageSize in
              kbind (Alloc mem_end (physmem pg) PhysAddr_new sz) (\<lambda>(paddr, s).
              kbind (MapPhysAddrToVirtAddr (page_alloc mem_end) (pg \<lparr> physmem := s \<rparr>)
                       (kernel_end - (kStackSize + kPageSize) + 1) paddr sz
                       (WRITE_BIT OR USER_BIT) (WRITE_BIT OR GLOBAL_BIT OR USER_BIT)) (\<lambda>(ok, pg1).
              kbind (kassert ok) (\<lambda>_. Inr pg1)))
            else Inr pg) (\<lambda>pg1.
     Inr (InitFirstStack kernel_end, pg1)))))"

text \<open>Taking physical memory for one stack and mapping it one page above the new top of the area.\<close>

definition map_stack :: "u64 \<Rightarrow> u64 \<Rightarrow> u64 \<Rightarrow> PhysmemCtrl PagingCtrl \<Rightarrow> PhysmemCtrl PagingCtrl kres" where
  "map_stack mem_end area_top pst_flag pg =
     kbind (Alloc mem_end (physmem pg) PhysAddr_new kStackSize) (\<lambda>(paddr, s).
     kbind (MapPhysAddrToVirtAddr (page_alloc mem_end) (pg \<lparr> physmem := s \<rparr>) (area_top + kPageSize) paddr kStackSize
              pst_flag (WRITE_BIT OR GLOBAL_BIT OR USER_BIT)) (\<lambda>(ok, pg1).
     kbind (kassert ok) (\<lambda>_. Inr pg1)))"

text \<open>The queue of freed stacks is \<open>Queue2<virt_addr>\<close>; its contents are the list \<open>freed\<close>.\<close>

definition AllocThreadStack :: "u64 \<Rightarrow> KernelStackCtrl \<Rightarrow> PhysmemCtrl PagingCtrl \<Rightarrow>
    (u64 \<times> KernelStackCtrl \<times> PhysmemCtrl PagingCtrl) kres" where
  "AllocThreadStack mem_end ks pg = (case freed ks of
       a # as \<Rightarrow> Inr (a, ks \<lparr> freed := as \<rparr>, pg)
     | [] \<Rightarrow>
       let area_top = stack_area_top ks - (kStackSize + kPageSize * 2); addr = area_top + kStackSize + kPageSize in
       kbind (map_stack mem_end area_top WRITE_BIT pg) (\<lambda>pg1.
       Inr (addr, ks \<lparr> stack_area_top := area_top \<rparr>, pg1)))"

definition FreeThreadStack :: "KernelStackCtrl \<Rightarrow> u64 \<Rightarrow> KernelStackCtrl" where
  "FreeThreadStack ks addr = ks \<lparr> freed := freed ks @ [addr] \<rparr>"

definition AllocIntStack :: "u64 \<Rightarrow> KernelStackCtrl \<Rightarrow> PhysmemCtrl PagingCtrl \<Rightarrow>
    (u64 \<times> KernelStackCtrl \<times> PhysmemCtrl PagingCtrl) kres" where
  "AllocIntStack mem_end ks pg =
     (let area_top = stack_area_top ks - (kStackSize + kPageSize * 2) in
      kbind (map_stack mem_end area_top (WRITE_BIT OR USER_BIT) pg) (\<lambda>pg1.
      Inr (area_top + kStackSize + kPageSize, ks \<lparr> stack_area_top := area_top \<rparr>, pg1)))"

section \<open>Allocating and mapping\<close>

lemma drop_bit_12_same_page: "drop_bit 12 v = drop_bit 12 w \<Longrightarrow> same_page v w"
proof -
  assume eq: "drop_bit 12 v = drop_bit 12 w"
  have "drop_bit (12 + n) v = drop_bit (12 + n) w" for n
    using arg_cong [OF eq, of "drop_bit n"] by (simp add: drop_bit_drop_bit add.commute)
  from eq this [of 9] this [of 18] this [of 27] show ?thesis
    by (simp add: same_page_def GetPTIndex_def GetPDIndex_def GetPDPTIndex_def GetPML4TIndex_def)
qed

text \<open>Every address of a page-aligned range lies in one of its pages.\<close>

lemma range_page:
  fixes v sz a :: u64
  assumes "4096 dvd unat v" and "4096 dvd unat sz" and "unat v + unat sz \<le> 2 ^ 64"
    and "unat v \<le> unat a" "unat a < unat v + unat sz"
  shows "\<exists>k<unat (sz div kPageSize). same_page (v + of_nat k * kPageSize) a"
proof -
  define k where "k = (unat a - unat v) div 4096"
  have k: "k < unat sz div 4096"
    using assms unfolding k_def by (metis dvd_mult_div_cancel less_diff_conv2 less_mult_imp_div_less mult.commute add.commute)
  obtain q where q: "unat v = 4096 * q"
    using assms(1) by (auto simp: dvd_def)
  have le: "4096 * k \<le> unat a - unat v"
    unfolding k_def by simp
  have kw: "unat (of_nat k * kPageSize :: u64) = 4096 * k"
  proof -
    have "4096 * k < 2 ^ 64"
      using le assms(3-5) by linarith
    then show ?thesis
      by (simp add: kPageSize_def unat_word_ariths unat_of_nat mult.commute)
  qed
  have un: "unat (v + of_nat k * kPageSize) = 4096 * (q + k)"
    using le assms(3-5) q by (subst unat_plus_no_wrap) (simp_all add: kw)
  have "unat a = 4096 * q + (unat a - unat v)"
    using q assms(4) by simp
  then have "unat a div 4096 = (4096 * q + (unat a - unat v)) div 4096"
    by simp
  also have "\<dots> = q + k"
    unfolding k_def by (rule div_mult_self4) simp
  finally have "unat a div 4096 = q + k" .
  then have "drop_bit 12 (v + of_nat k * kPageSize) = drop_bit 12 a"
    by (simp add: word_eq_unat drop_bit_eq_div unat_div un)
  then show ?thesis
    using k drop_bit_12_same_page by (auto simp: unat_div kPageSize_def)
qed

lemma pages_of_block:
  assumes "4096 dvd unat addr" and "addr < addr + sz" and "addr + sz < 0x10000000000000"
    and "k < unat (sz div kPageSize)"
  shows "page_address (addr + of_nat k * kPageSize)"
proof (rule page_addressI)
  have k: "k < unat sz div 4096"
    using assms(4) by (simp add: unat_div kPageSize_def)
  then have le: "k * 4096 < unat sz"
    using div_times_less_eq_dividend [of "unat sz" 4096] by linarith
  have sz: "unat (addr + sz) = unat addr + unat sz"
    using assms(2) unsigned_less [of sz, where ?'a = nat]
    by (simp add: word_less_nat_alt unat_plus_if' split: if_splits)
  have kw: "unat (of_nat k * kPageSize :: u64) = k * 4096"
    using le unsigned_less [of sz, where ?'a = nat] by (simp add: kPageSize_def unat_word_ariths unat_of_nat)
  have top: "unat addr + unat sz < 0x10000000000000"
    using assms(3) sz by (simp add: word_less_nat_alt)
  have un: "unat (addr + of_nat k * kPageSize) = unat addr + k * 4096"
    using le top by (subst unat_plus_no_wrap) (simp_all add: kw)
  show "4096 dvd unat (addr + of_nat k * kPageSize)"
    unfolding un using assms(1) by simp
  show "addr + of_nat k * kPageSize < 0x10000000000000"
    using le top by (simp add: word_less_nat_alt un)
qed

lemma pt_tree_physmem: "pt_tree L (pg \<lparr> physmem := s \<rparr>) = pt_tree L pg"
proof -
  have "tables (pg \<lparr> physmem := s \<rparr>) = tables pg" "pml4t (pg \<lparr> physmem := s \<rparr>) = pml4t pg"
    by simp_all
  then show ?thesis
    by (simp only: pt_tree_def)
qed

text \<open>A block from \<open>PhysmemCtrl\<close> keeps the paging invariant, and its frames can be mapped.\<close>

lemma alloc_block_ok:
  assumes pg: "kernel_paging_inv mem_end L pg"
    and run: "AllocSub mem_end (physmem pg) PhysAddr_new sz \<lparr> opt_align = 1, non_recursive = nr \<rparr> = Inr (p, s)"
    and sz: "unat sz \<le> 0xffe0000000000000"
  shows "kernel_paging_inv mem_end L (pg \<lparr> physmem := s \<rparr>)" and "pa_is_initialized p"
    and "k < unat (sz div kPageSize) \<Longrightarrow> page_address (pa_addr p + of_nat k * kPageSize)"
    and "owned (allocated_area (physmem pg)) \<inter> {pa_addr p..<pa_addr p + sz} = {}"
    and "owned (allocated_area s) = owned (allocated_area (physmem pg)) \<union> {pa_addr p..<pa_addr p + sz}" and "pa_addr p < pa_addr p + sz"
proof -
  let ?st = "physmem pg" and ?opt = "\<lparr> opt_align = 1, non_recursive = nr \<rparr>"
  have pre: "is_initialized ?st" "0 < sz" "sz mod kPageSize = 0"
    using run by (auto simp: AllocSub_def kbind_eq_Inr)
  have inv: "areas_ok (allocated_area ?st)" "pages_ok (allocated_area ?st)" "mem_end \<le> 0x10000000000000"
    "\<forall>e\<in>end_addr ` set (allocated_area ?st). e \<le> 0x10000000000000"
    using pg by (simp_all add: paging_inv_def physmem_inv_def)
  have "end_addr (last (allocated_area ?st)) \<le> 0x10000000000000"
    using inv(1,4) by (simp add: areas_ok_def)
  then have room: "room (opt_align ?opt) sz (allocated_area ?st)"
    using room_one [OF inv(1), of sz] sz by (simp add: word_le_nat_alt)
  have opt: "non_recursive ?opt \<longrightarrow> opt_align ?opt = 1" "\<not> pa_is_initialized PhysAddr_new"
    by (simp_all add: PhysAddr_new_def)
  have "kernel_paging_inv mem_end L (pg \<lparr> physmem := s \<rparr>) \<and> pa_is_initialized p \<and>
    (k < unat (sz div kPageSize) \<longrightarrow> page_address (pa_addr p + of_nat k * kPageSize)) \<and>
    owned (allocated_area (physmem pg)) \<inter> {pa_addr p..<pa_addr p + sz} = {} \<and>
    owned (allocated_area s) = owned (allocated_area (physmem pg)) \<union> {pa_addr p..<pa_addr p + sz} \<and> pa_addr p < pa_addr p + sz"
  proof (cases rule: AllocSub_cases [OF pre(1) inv(1) pre(2,3) opt(1) room opt(2), where mem_end = mem_end])
    case 1
    then show ?thesis
      using run by simp
  next
    case ok: (2 addr as)
    then have p: "p = \<lparr> pa_is_initialized = True, pa_addr = addr \<rparr>" "s = ?st \<lparr> allocated_area := as \<rparr>"
      using run by simp_all
    have top: "addr + sz < 0x10000000000000"
      using ok(7) inv(3) by simp
    have "\<forall>e\<in>end_addr ` set as. e \<le> 0x10000000000000"
    proof
      fix e assume "e \<in> end_addr ` set as"
      then have "e = addr + sz \<or> e \<in> end_addr ` set (allocated_area ?st)"
        using subsetD [OF ok(9)] by simp
      then show "e \<le> 0x10000000000000"
        using inv(4) top by (metis less_imp_le)
    qed
    moreover have "pages_ok as" "4096 dvd unat addr"
      using ok(8) inv(2) by simp_all
    moreover have "dom L \<subseteq> owned as"
      using pg ok(3) by (auto simp: paging_inv_def)
    moreover have "pt_tree L (pg \<lparr> physmem := s \<rparr>)"
      using pg by (simp add: paging_inv_def pt_tree_physmem)
    ultimately show ?thesis
      using p ok(2-5) inv(3) pages_of_block [OF _ ok(5) top]
      by (simp add: paging_inv_def physmem_inv_def)
  qed
  then show "kernel_paging_inv mem_end L (pg \<lparr> physmem := s \<rparr>)" "pa_is_initialized p"
    "k < unat (sz div kPageSize) \<Longrightarrow> page_address (pa_addr p + of_nat k * kPageSize)"
    "owned (allocated_area (physmem pg)) \<inter> {pa_addr p..<pa_addr p + sz} = {}"
    "owned (allocated_area s) = owned (allocated_area (physmem pg)) \<union> {pa_addr p..<pa_addr p + sz}" "pa_addr p < pa_addr p + sz"
    by blast+
qed

lemma translate_physmem [simp]: "translate (pg \<lparr> physmem := s \<rparr>) v = translate pg v"
  by (simp add: translate_def Let_def)

text \<open>Mapping such a block: the whole range becomes mapped and no translation is lost.\<close>

lemma map_block_ok:
  assumes pg: "kernel_paging_inv mem_end L pg" and fl: "pst_flags f" "page_flags g"
    and pages: "\<And>k. k < unat (sz div kPageSize) \<Longrightarrow> page_address (pa_addr p + of_nat k * kPageSize)"
    and run: "MapPhysAddrToVirtAddr (page_alloc mem_end) pg v p sz f g = Inr (True, pg')"
    and wrap: "unat v + unat sz \<le> 2 ^ 64"
  shows "\<exists>L'. kernel_paging_inv mem_end L' pg'" and "translate pg w = Some x \<Longrightarrow> translate pg' w = Some x"
    and "unat v \<le> unat a \<Longrightarrow> unat a < unat v + unat sz \<Longrightarrow> IsVirtAddrMapped pg' a"
proof -
  have run': "map_pages (page_alloc mem_end) (unat (sz div kPageSize)) pg v (pa_addr p) f g = Inr (True, pg')"
    and al: "v = align v kPageSize" "sz = align sz kPageSize"
    using run by (auto simp: MapPhysAddrToVirtAddr_def kbind_eq_Inr PhysAddr_GetAddr_def)
  note ok = pages.map_pages_ok [OF pg fl pages run']
  show "\<exists>L'. kernel_paging_inv mem_end L' pg'" "translate pg w = Some x \<Longrightarrow> translate pg' w = Some x"
    using ok(1) ok(2) by blast+
  assume a: "unat v \<le> unat a" "unat a < unat v + unat sz"
  have "4096 dvd unat v" "4096 dvd unat sz"
    using align_dvd [of kPageSize v] align_dvd [of kPageSize sz] al by (simp_all add: kPageSize_def)
  then obtain k where "k < unat (sz div kPageSize)" "same_page (v + of_nat k * kPageSize) a"
    using range_page [OF _ _ wrap a] by blast
  then show "IsVirtAddrMapped pg' a"
    using ok(3) [of k a] by (simp add: IsVirtAddrMapped_eq)
qed

section \<open>Properties\<close>

text \<open>
  The heap invariant: the break lies below the end of the backed heap, that end
  is page-aligned, lies in the upper half of the address space and below the
  limit, and everything from \<open>base\<close> up to it is mapped.
\<close>

definition heap_ok :: "u64 \<Rightarrow> VirtmemCtrl \<Rightarrow> PhysmemCtrl PagingCtrl \<Rightarrow> bool" where
  "heap_ok base vm pg \<longleftrightarrow> brk_end vm \<le> heap_allocated_end vm \<and> 0x20000000000000 \<le> heap_allocated_end vm \<and>
     heap_allocated_end vm \<le> heap_limit vm \<and> 4096 dvd unat (heap_allocated_end vm) \<and>
     (\<forall>a. base \<le> a \<and> a < heap_allocated_end vm \<longrightarrow> IsVirtAddrMapped pg a)"

lemma kernel_flags: "pst_flags (WRITE_BIT OR USER_BIT)" "pst_flags WRITE_BIT"
  "page_flags (WRITE_BIT OR GLOBAL_BIT OR USER_BIT)"
  by (simp_all add: pst_flags_def page_flags_def WRITE_BIT_def USER_BIT_def GLOBAL_BIT_def PAGE_BIT_def addr_mask_def)

lemma Sbrk_grow:
  assumes pg: "kernel_paging_inv mem_end L pg" and ok: "heap_ok base vm pg"
    and wrap: "unat (brk_end vm + increment) + 4096 \<le> 2 ^ 64"
    and grow: "heap_allocated_end vm < brk_end vm + increment"
    and run: "Sbrk mem_end vm pg increment = Inr (r, vm', pg')"
  shows "r = brk_end vm" and "brk_end vm' = brk_end vm + increment" and "heap_ok base vm' pg'"
    and "\<exists>L'. kernel_paging_inv mem_end L' pg'"
    and "translate pg w = Some x \<Longrightarrow> translate pg' w = Some x"
proof -
  let ?h = "heap_allocated_end vm" and ?b = "brk_end vm + increment"
  define new_end where "new_end = alignUp ?b kPageSize"
  define psize where "psize = new_end - ?h"
  obtain p s pg1 where lim: "new_end \<le> heap_limit vm"
    and al: "AllocSub mem_end (physmem pg) PhysAddr_new psize \<lparr> opt_align = 1, non_recursive = True \<rparr> = Inr (p, s)"
    and map: "MapPhysAddrToVirtAddr (page_alloc mem_end) (pg \<lparr> physmem := s \<rparr>) ?h p psize
        (WRITE_BIT OR USER_BIT) (WRITE_BIT OR GLOBAL_BIT OR USER_BIT) = Inr (True, pg')"
    and res: "r = brk_end vm" "vm' = vm \<lparr> brk_end := ?b, heap_allocated_end := new_end \<rparr>"
    using run grow
    by (auto simp: Sbrk_def Let_def kbind_eq_Inr AllocNonRecursive_def new_end_def psize_def split: if_splits)
  have b: "?b \<le> new_end"
    using alignUp_ge(1) [of kPageSize ?b] wrap by (simp add: new_end_def word_le_nat_alt kPageSize_def)
  then have hn: "?h \<le> new_end"
    using grow by simp
  have ps: "unat psize = unat new_end - unat ?h"
    using hn by (simp add: psize_def unat_minus_le)
  have "0x20000000000000 \<le> unat ?h"
    using ok by (auto simp: heap_ok_def word_le_nat_alt)
  then have "unat psize \<le> 0xffe0000000000000"
    using ps unsigned_less [of new_end, where ?'a = nat] by simp
  note block = alloc_block_ok [OF pg al this]
  have rng: "unat ?h + unat psize = unat new_end"
    using ps hn by (simp add: word_le_nat_alt)
  then have "unat ?h + unat psize \<le> 2 ^ 64"
    using unsigned_less [of new_end, where ?'a = nat] by simp
  note m = map_block_ok [OF block(1) kernel_flags(1,3) block(3) map this]
  show "r = brk_end vm" "brk_end vm' = ?b" "\<exists>L'. kernel_paging_inv mem_end L' pg'"
    using res m(1) by simp_all
  show keep: "translate pg' w = Some x" if "translate pg w = Some x" for w x
    using m(2) [of w x] that by simp
  have "IsVirtAddrMapped pg' a" if "base \<le> a" "a < new_end" for a
  proof (cases "a < ?h")
    case True
    then have "IsVirtAddrMapped pg a"
      using ok that(1) by (simp add: heap_ok_def)
    then show ?thesis
      using keep by (auto simp: IsVirtAddrMapped_eq)
  next
    case False
    then show ?thesis
      using m(3) [of a] rng that(2) by (simp add: word_less_nat_alt word_le_nat_alt)
  qed
  moreover have "4096 dvd unat new_end"
    using alignUp_dvd [of kPageSize ?b] by (simp add: new_end_def kPageSize_def)
  ultimately show "heap_ok base vm' pg'"
    using ok b hn lim res by (auto simp: heap_ok_def)
qed

text \<open>C24: a call of \<open>Sbrk\<close> that returns gives back the old break, moves it by the
  increment, and keeps the heap backed: the new break lies below the end of
  the mapped heap, everything up to that end is mapped, no translation that
  existed before is changed, and the page tables stay well formed. The
  increment must not move the break past the end of the address space.
\<close>

theorem Sbrk_keeps_heap_mapped:
  assumes "kernel_paging_inv mem_end L pg" and "heap_ok base vm pg"
    and "unat (brk_end vm + increment) + 4096 \<le> 2 ^ 64"
    and "Sbrk mem_end vm pg increment = Inr (r, vm', pg')"
  shows "r = brk_end vm \<and> brk_end vm' = brk_end vm + increment \<and> heap_ok base vm' pg' \<and>
    (\<exists>L'. kernel_paging_inv mem_end L' pg') \<and> (\<forall>w x. translate pg w = Some x \<longrightarrow> translate pg' w = Some x)"
proof (cases "heap_allocated_end vm < brk_end vm + increment")
  case True
  show ?thesis
    using Sbrk_grow [OF assms(1-3) True assms(4)] by blast
next
  case False
  then have "r = brk_end vm" "vm' = vm \<lparr> brk_end := brk_end vm + increment \<rparr>" "pg' = pg"
    using assms(4) by (auto simp: Sbrk_def Let_def)
  then show ?thesis
    using assms(1,2) False by (auto simp: heap_ok_def)
qed

theorem Sbrk_keeps_heap_mapped_witness:
  defines "vm \<equiv> \<lparr> heap_allocated_end = 0xFFFF800000600000, brk_end = 0xFFFF800000600000,
      heap_limit = 0xFFFF800070000000 \<rparr>"
  shows "\<exists>vm' pg'. Sbrk 0x10000000 vm boot_paging 0x10 = Inr (0xFFFF800000600000, vm', pg') \<and>
    heap_ok 0xFFFF800000600000 vm' pg' \<and> brk_end vm' = 0xFFFF800000600010"
proof -
  have one: "map_pages (page_alloc 0x10000000) 1 pg v a f g = map_pages (page_alloc 0x10000000) (Suc 0) pg v a f g"
    for pg v a f g
    by (simp only: One_nat_def)
  have "\<exists>r vm' pg'. Sbrk 0x10000000 vm boot_paging 0x10 = Inr (r, vm', pg')"
    by (simp add: Sbrk_def vm_def alignUp_def align_def AllocNonRecursive_def AllocSub_def alloc_find.simps
        alloc_at_def merge_fraged_def PhysAddr_SetAddr_def PhysAddr_new_def MapPhysAddrToVirtAddr_def one
        Map4KPageToVirtAddr_def boot_run_simps USER_BIT_def GLOBAL_BIT_def del: masked_table)
  then obtain r vm' pg' where run: "Sbrk 0x10000000 vm boot_paging 0x10 = Inr (r, vm', pg')"
    by blast
  have "heap_ok 0xFFFF800000600000 vm boot_paging"
    by (auto simp: heap_ok_def vm_def)
  from Sbrk_keeps_heap_mapped [OF boot_paging_inv this _ run] show ?thesis
    using run by (auto simp: vm_def)
qed

section \<open>Stacks do not overlap\<close>

text \<open>
  A stack that ends at \<open>addr\<close> occupies the \<open>kStackSize\<close> bytes below it; the page
  below those and the page above \<open>addr\<close> are guard pages. The area grows down from
  \<open>base\<close>, so the stacks handed out are \<open>base\<close> minus multiples of the slot size.
\<close>

definition slot :: nat where
  "slot = 0x6000"

definition stack_bytes :: "u64 \<Rightarrow> nat set" where
  "stack_bytes addr = {unat addr - 0x4000..<unat addr}"

definition stack_at :: "u64 \<Rightarrow> nat \<Rightarrow> u64" where
  "stack_at base i = base - of_nat (Suc i * slot) + 0x5000"

text \<open>\<open>n\<close> slots have been taken; \<open>live\<close> and \<open>freed\<close> share them out.\<close>

definition stacks_ok :: "u64 \<Rightarrow> nat \<Rightarrow> u64 list \<Rightarrow> KernelStackCtrl \<Rightarrow> bool" where
  "stacks_ok base n live ks \<longleftrightarrow> stack_area_top ks = base - of_nat (n * slot) \<and> Suc n * slot \<le> unat base \<and>
     distinct (live @ freed ks) \<and> set (live @ freed ks) \<subseteq> stack_at base ` {..<n}"

lemma stack_at_unat:
  assumes "Suc i * slot \<le> unat base"
  shows "unat (stack_at base i) = unat base - Suc i * slot + 0x5000"
proof -
  have lt: "Suc i * slot < 2 ^ LENGTH(64)"
    using assms unsigned_less [of base, where ?'a = nat] by simp
  then have w: "unat (of_nat (Suc i * slot) :: u64) = Suc i * slot"
    by (simp only: unat_of_nat mod_less)
  have "of_nat (Suc i * slot) \<le> base"
    using assms w by (simp only: word_le_nat_alt)
  then have d: "unat (base - of_nat (Suc i * slot)) = unat base - Suc i * slot"
    using w by (simp only: unat_minus_le)
  have "unat base - Suc i * slot + 0x5000 < 2 ^ 64"
    using unsigned_less [of base, where ?'a = nat] assms by (simp add: slot_def)
  then show ?thesis
    using d by (simp add: stack_at_def unat_plus_no_wrap del: of_nat_mult of_nat_Suc)
qed

lemma stack_at_disjoint:
  assumes "i < j" and "Suc j * slot \<le> unat base"
  shows "stack_bytes (stack_at base i) \<inter> stack_bytes (stack_at base j) = {}"
    and "stack_at base i \<noteq> stack_at base j"
proof -
  have i: "Suc i * slot \<le> unat base"
    using assms by (simp add: slot_def)
  have "unat base - Suc j * slot + 0x6000 \<le> unat base - Suc i * slot"
    using assms by (simp add: slot_def)
  then show "stack_bytes (stack_at base i) \<inter> stack_bytes (stack_at base j) = {}"
    "stack_at base i \<noteq> stack_at base j"
    using stack_at_unat [OF i] stack_at_unat [OF assms(2)]
    by (auto simp: stack_bytes_def word_eq_unat)
qed

datatype stack_op = Thread_Stack | Int_Stack | Free_Stack nat

fun stack_run :: "u64 \<Rightarrow> stack_op list \<Rightarrow> u64 list \<Rightarrow> KernelStackCtrl \<Rightarrow> PhysmemCtrl PagingCtrl \<Rightarrow>
    (u64 list \<times> KernelStackCtrl \<times> PhysmemCtrl PagingCtrl) kres" where
  "stack_run mem_end [] live ks pg = Inr (live, ks, pg)"
| "stack_run mem_end (Thread_Stack # ops) live ks pg =
     kbind (AllocThreadStack mem_end ks pg) (\<lambda>(a, ks, pg). stack_run mem_end ops (a # live) ks pg)"
| "stack_run mem_end (Int_Stack # ops) live ks pg =
     kbind (AllocIntStack mem_end ks pg) (\<lambda>(a, ks, pg). stack_run mem_end ops (a # live) ks pg)"
| "stack_run mem_end (Free_Stack i # ops) live ks pg =
     (if i < length live
      then stack_run mem_end ops (take i live @ drop (Suc i) live) (FreeThreadStack ks (live ! i)) pg
      else stack_run mem_end ops live ks pg)"

lemma stacks_ok_fresh:
  assumes "stacks_ok base n live ks" and "Suc (Suc n) * slot \<le> unat base"
  shows "stacks_ok base (Suc n)
    ((stack_area_top ks - (kStackSize + kPageSize * 2) + kStackSize + kPageSize) # live)
    (ks \<lparr> stack_area_top := stack_area_top ks - (kStackSize + kPageSize * 2) \<rparr>)"
proof -
  have new: "stack_area_top ks - (kStackSize + kPageSize * 2) + kStackSize + kPageSize = stack_at base n"
    using assms(1) by (simp add: stacks_ok_def stack_at_def slot_def kStackSize_def kPageSize_def algebra_simps)
  have "stack_at base n \<noteq> stack_at base i" if "i < n" for i
    using stack_at_disjoint(2) [of i n base] that assms(2) by (simp add: slot_def)
  then have "stack_at base n \<notin> stack_at base ` {..<n}"
    by auto
  then have "stack_at base n \<notin> set (live @ freed ks)"
    using assms(1) unfolding stacks_ok_def by blast
  then show ?thesis
    using assms unfolding new
    by (auto simp: stacks_ok_def lessThan_Suc slot_def kStackSize_def kPageSize_def algebra_simps)
qed

lemma stack_run_ok:
  assumes "stacks_ok base n live ks" and "Suc (n + length ops) * slot \<le> unat base"
    and "stack_run mem_end ops live ks pg = Inr (live', ks', pg')"
  shows "\<exists>n'\<le>n + length ops. stacks_ok base n' live' ks'"
  using assms
proof (induction mem_end ops live ks pg arbitrary: n rule: stack_run.induct)
  case (2 mem_end ops live ks pg)
  obtain a ks1 pg1 where al: "AllocThreadStack mem_end ks pg = Inr (a, ks1, pg1)"
    and rest: "stack_run mem_end ops (a # live) ks1 pg1 = Inr (live', ks', pg')"
    using 2(4) by (auto simp: kbind_eq_Inr)
  show ?case
  proof (cases "freed ks")
    case Nil
    then have a: "a = stack_area_top ks - (kStackSize + kPageSize * 2) + kStackSize + kPageSize"
      "ks1 = ks \<lparr> stack_area_top := stack_area_top ks - (kStackSize + kPageSize * 2) \<rparr>"
      using al by (auto simp: AllocThreadStack_def Let_def kbind_eq_Inr)
    have "stacks_ok base (Suc n) (a # live) ks1"
      using stacks_ok_fresh [OF 2(2)] 2(3) by (simp add: a slot_def)
    from 2(1) [OF this _ rest] show ?thesis
      using 2(3) by (auto simp: slot_def)
  next
    case (Cons b bs)
    then have "a = b" "ks1 = ks \<lparr> freed := bs \<rparr>"
      using al by (auto simp: AllocThreadStack_def)
    then have "stacks_ok base n (a # live) ks1"
      using 2(2) Cons by (auto simp: stacks_ok_def)
    then have "\<exists>n'\<le>n + length ops. stacks_ok base n' live' ks'"
      using 2(1) [OF _ _ rest] 2(3) by (simp add: slot_def)
    then show ?thesis
      by (metis add_Suc_right le_SucI length_Cons)
  qed
next
  case (3 mem_end ops live ks pg)
  obtain a ks1 pg1 where al: "AllocIntStack mem_end ks pg = Inr (a, ks1, pg1)"
    and rest: "stack_run mem_end ops (a # live) ks1 pg1 = Inr (live', ks', pg')"
    using 3(4) by (auto simp: kbind_eq_Inr)
  then have a: "a = stack_area_top ks - (kStackSize + kPageSize * 2) + kStackSize + kPageSize"
    "ks1 = ks \<lparr> stack_area_top := stack_area_top ks - (kStackSize + kPageSize * 2) \<rparr>"
    by (auto simp: AllocIntStack_def Let_def kbind_eq_Inr)
  have "stacks_ok base (Suc n) (a # live) ks1"
    using stacks_ok_fresh [OF 3(2)] 3(3) by (simp add: a slot_def)
  from 3(1) [OF this _ rest] show ?case
    using 3(3) by (auto simp: slot_def)
next
  case (4 mem_end i ops live ks pg)
  show ?case
  proof (cases "i < length live")
    case True
    then have split: "live = take i live @ live ! i # drop (Suc i) live"
      by (rule id_take_nth_drop)
    have "stacks_ok base n (take i live @ drop (Suc i) live) (FreeThreadStack ks (live ! i))"
    proof -
      have "distinct (take i live @ live ! i # drop (Suc i) live @ freed ks)"
        "set (take i live @ live ! i # drop (Suc i) live @ freed ks) \<subseteq> stack_at base ` {..<n}"
        using 4(3) split unfolding stacks_ok_def by (metis append.assoc append_Cons)+
      then show ?thesis
        using 4(3) by (auto simp: stacks_ok_def FreeThreadStack_def)
    qed
    then have "\<exists>n'\<le>n + length ops. stacks_ok base n' live' ks'"
      using 4(1) [OF True] 4(4,5) True by (simp add: slot_def)
    then show ?thesis
      by (metis add_Suc_right le_SucI length_Cons)
  next
    case False
    then have "\<exists>n'\<le>n + length ops. stacks_ok base n' live' ks'"
      using 4(2) [OF False] 4(3-5) by (simp add: slot_def)
    then show ?thesis
      by (metis add_Suc_right le_SucI length_Cons)
  qed
qed auto

lemma stacks_ok_disjoint:
  assumes ok: "stacks_ok base n live ks" and ab: "a \<in> set live" "b \<in> set live" "a \<noteq> b"
  shows "stack_bytes a \<inter> stack_bytes b = {}"
proof -
  have "a \<in> stack_at base ` {..<n}" "b \<in> stack_at base ` {..<n}"
    using ok ab(1,2) unfolding stacks_ok_def by auto
  then obtain i j where ij: "a = stack_at base i" "b = stack_at base j" "i < n" "j < n"
    by blast
  have bound: "Suc k * slot \<le> unat base" if "k < n" for k
    using that ok by (auto simp: stacks_ok_def slot_def)
  consider "i < j" | "j < i"
    using ij ab(3) by (metis linorder_neqE_nat)
  then show ?thesis
    using stack_at_disjoint(1) [of i j base] stack_at_disjoint(1) [of j i base] bound ij by cases auto
qed

text \<open>whatever sequence of stack allocations (for threads or interrupts) and
  releases runs after initialisation, the stacks in use never overlap: any
  two of them occupy disjoint memory, as long as the stack area has not used
  up the address space.
\<close>

theorem live_stacks_disjoint:
  assumes "stack_run mem_end ops [] (InitFirstStack kernel_end) pg = Inr (live, ks, pg')"
    and "Suc (length ops) * slot \<le> unat (stack_area_top (InitFirstStack kernel_end))"
  shows "distinct live \<and>
    (\<forall>a\<in>set live. \<forall>b\<in>set live. a \<noteq> b \<longrightarrow> stack_bytes a \<inter> stack_bytes b = {})"
proof -
  let ?base = "stack_area_top (InitFirstStack kernel_end)"
  have "stacks_ok ?base 0 [] (InitFirstStack kernel_end)"
    using assms(2) by (simp add: stacks_ok_def InitFirstStack_def slot_def)
  then obtain n where "stacks_ok ?base n live ks"
    using stack_run_ok [OF _ _ assms(1), of ?base 0] assms(2) by auto
  then show ?thesis
    using stacks_ok_disjoint by (auto simp: stacks_ok_def)
qed

theorem live_stacks_disjoint_witness:
  "\<exists>live ks pg'. stack_run 0x10000000 [Int_Stack, Thread_Stack] [] (InitFirstStack 0xFFFF80006FFFFFFF) boot_paging
     = Inr (live, ks, pg') \<and> length live = 2 \<and> distinct live"
proof -
  have "(4 :: nat) = Suc (Suc (Suc (Suc 0)))"
    by simp
  then have four: "map_pages (page_alloc 0x10000000) 4 pg v a f g =
      map_pages (page_alloc 0x10000000) (Suc (Suc (Suc (Suc 0)))) pg v a f g" for pg v a f g
    by (simp only:)
  have "\<exists>live ks pg'. stack_run 0x10000000 [Int_Stack, Thread_Stack] [] (InitFirstStack 0xFFFF80006FFFFFFF) boot_paging
      = Inr (live, ks, pg') \<and> length live = 2"
    by (simp add: AllocIntStack_def AllocThreadStack_def InitFirstStack_def map_stack_def kStackSize_def
        Alloc_def AllocSub_def alloc_find.simps align_def
        alloc_at_def merge_fraged_def PhysAddr_SetAddr_def PhysAddr_new_def MapPhysAddrToVirtAddr_def four
        Map4KPageToVirtAddr_def boot_run_simps USER_BIT_def GLOBAL_BIT_def del: masked_table)
  then obtain live ks pg' where run: "stack_run 0x10000000 [Int_Stack, Thread_Stack] []
      (InitFirstStack 0xFFFF80006FFFFFFF) boot_paging = Inr (live, ks, pg')" and len: "length live = 2"
    by blast
  have "Suc (length [Int_Stack, Thread_Stack]) * slot \<le> unat (stack_area_top (InitFirstStack 0xFFFF80006FFFFFFF))"
    by (simp add: InitFirstStack_def slot_def kStackSize_def kPageSize_def)
  from live_stacks_disjoint [OF run this] show ?thesis
    using run len by blast
qed

end
