(* ===== verification/Spin_Lock.thy ===== *)
theory Spin_Lock
  imports Raph_Prelude
begin

text \<open>
  \<open>SpinLock\<close> of \<open>spinlock.h\<close> and \<open>spinlock.cc\<close> as interleaved steps of any number of
  processors, and \<open>Semaphore\<close> of \<open>semaphore.h\<close>. One step is one access to the
  shared fields; \<open>__sync_bool_compare_and_swap\<close> is one step. The flag is a 32-bit
  counter that is odd while the lock is held; it may wrap around. \<open>_flag++\<close> in
  \<open>Unlock\<close> is one step: while the flag is odd no other processor writes it. The
  backtrace and the warning of \<open>Lock\<close> after ten seconds of waiting are left out;
  the warning prints, and asserts that the owner is entered, which it is not
  while the holder is between taking the flag and \<open>L_Own\<close>.
\<close>

section \<open>Program locations and state\<close>

text \<open>
  \<open>L_\<close> locations lie in \<open>Lock\<close>, \<open>T_\<close> in \<open>Trylock\<close>, \<open>U_\<close> in \<open>Unlock\<close>; \<open>R_Entry\<close> is \<open>Lock\<close>
  called by the processor that holds the lock. A word is the local copy of the
  flag, a bool the local \<open>iflag\<close>.
\<close>

datatype loc =
    Idle | L_Entry | L_Read | L_Loop u32 | L_Cas u32 bool | L_Won bool | L_Own
  | T_Entry | T_Disable u32 | T_Cas u32 bool | T_Won bool | T_Own
  | Critical | R_Entry | U_Entry | U_Flag | U_Enable | Panicked | Assert_Failed

record LockState =
  lk_flag :: u32
  lk_cpuid :: "nat option"
  lk_did_stop :: bool
  pc :: "nat \<Rightarrow> loc"
  if_flag :: "nat \<Rightarrow> bool"

definition goto :: "nat \<Rightarrow> loc \<Rightarrow> LockState \<Rightarrow> LockState" where
  "goto c l s = s \<lparr> pc := (pc s)(c := l) \<rparr>"

definition disable_interrupt :: "nat \<Rightarrow> LockState \<Rightarrow> LockState" where
  "disable_interrupt c s = s \<lparr> if_flag := (if_flag s)(c := False) \<rparr>"

definition enable_interrupt :: "nat \<Rightarrow> bool \<Rightarrow> LockState \<Rightarrow> LockState" where
  "enable_interrupt c flag s = (if flag then s \<lparr> if_flag := (if_flag s)(c := True) \<rparr> else s)"

definition IsLocked :: "LockState \<Rightarrow> bool" where
  "IsLocked s \<longleftrightarrow> lk_flag s mod 2 = 1"

text \<open>The next step of processor \<open>c\<close> inside a member function.\<close>

definition cpu_step :: "nat \<Rightarrow> LockState \<Rightarrow> LockState" where
  "cpu_step c s = (case pc s c of
       L_Entry \<Rightarrow> (if lk_flag s mod 2 = 1 \<and> lk_cpuid s = Some c then goto c Panicked s else goto c L_Read s)
     | L_Read \<Rightarrow> goto c (L_Loop (lk_flag s)) s
     | L_Loop f \<Rightarrow> (if f mod 2 \<noteq> 1 then goto c (L_Cas f (if_flag s c)) (disable_interrupt c s)
                    else goto c L_Read s)
     | L_Cas f iflag \<Rightarrow> (if lk_flag s = f then goto c (L_Won iflag) (s \<lparr> lk_flag := f + 1 \<rparr>)
                        else goto c L_Read (enable_interrupt c iflag s))
     | L_Won iflag \<Rightarrow> goto c L_Own (s \<lparr> lk_did_stop := iflag \<rparr>)
     | L_Own \<Rightarrow> goto c Critical (s \<lparr> lk_cpuid := Some c \<rparr>)
     | T_Entry \<Rightarrow> goto c (T_Disable (lk_flag s)) s
     | T_Disable f \<Rightarrow> goto c (T_Cas f (if_flag s c)) (disable_interrupt c s)
     | T_Cas f iflag \<Rightarrow> (if f mod 2 = 0 \<and> lk_flag s = f then goto c (T_Won iflag) (s \<lparr> lk_flag := f + 1 \<rparr>)
                        else goto c Idle (enable_interrupt c iflag s))
     | T_Won iflag \<Rightarrow> goto c T_Own (s \<lparr> lk_did_stop := iflag \<rparr>)
     | T_Own \<Rightarrow> goto c Critical (s \<lparr> lk_cpuid := Some c \<rparr>)
     | R_Entry \<Rightarrow> (if lk_flag s mod 2 = 1 \<and> lk_cpuid s = Some c then goto c Panicked s else s)
     | U_Entry \<Rightarrow> (if lk_flag s mod 2 = 1 then goto c U_Flag (s \<lparr> lk_cpuid := None \<rparr>)
                  else goto c Assert_Failed s)
     | U_Flag \<Rightarrow> goto c U_Enable (s \<lparr> lk_flag := lk_flag s + 1 \<rparr>)
     | U_Enable \<Rightarrow> goto c Idle (enable_interrupt c (lk_did_stop s) s)
     | _ \<Rightarrow> s)"

datatype lock_call = Call_Lock | Call_Trylock | Call_Unlock

text \<open>A processor outside calls \<open>Lock\<close> or \<open>Trylock\<close>; the holder calls \<open>Unlock\<close>, or \<open>Lock\<close> again.\<close>

definition do_call :: "lock_call \<Rightarrow> nat \<Rightarrow> LockState \<Rightarrow> LockState" where
  "do_call k c s = (case (k, pc s c) of
       (Call_Lock, Idle) \<Rightarrow> goto c L_Entry s
     | (Call_Trylock, Idle) \<Rightarrow> goto c T_Entry s
     | (Call_Unlock, Critical) \<Rightarrow> goto c U_Entry s
     | (Call_Lock, Critical) \<Rightarrow> goto c R_Entry s
     | _ \<Rightarrow> s)"

definition SpinLock_new :: "(nat \<Rightarrow> bool) \<Rightarrow> LockState" where
  "SpinLock_new ints = \<lparr> lk_flag = 0, lk_cpuid = None, lk_did_stop = False, pc = (\<lambda>_. Idle), if_flag = ints \<rparr>"

inductive reachable :: "LockState \<Rightarrow> bool" where
  start: "reachable (SpinLock_new ints)"
| call: "reachable s \<Longrightarrow> reachable (do_call k c s)"
| step: "reachable s \<Longrightarrow> reachable (cpu_step c s)"

section \<open>Invariant\<close>

text \<open>\<open>holds l\<close>: the processor has made the flag odd and not yet made it even again.\<close>

fun holds :: "loc \<Rightarrow> bool" where
  "holds (L_Won _) = True" | "holds L_Own = True" | "holds (T_Won _) = True" | "holds T_Own = True"
| "holds Critical = True" | "holds R_Entry = True" | "holds U_Entry = True" | "holds U_Flag = True"
| "holds Panicked = True" | "holds _ = False"

fun owns :: "loc \<Rightarrow> bool" where
  "owns Critical = True" | "owns R_Entry = True" | "owns U_Entry = True" | "owns Panicked = True"
| "owns _ = False"

fun loc_ok :: "loc \<Rightarrow> bool" where
  "loc_ok (L_Cas f _) = even f" | "loc_ok Assert_Failed = False" | "loc_ok _ = True"

definition lock_inv :: "LockState \<Rightarrow> bool" where
  "lock_inv s \<longleftrightarrow> (\<forall>c d. holds (pc s c) \<and> holds (pc s d) \<longrightarrow> c = d) \<and>
     ((\<exists>c. holds (pc s c)) \<longleftrightarrow> odd (lk_flag s)) \<and>
     (\<forall>c. lk_cpuid s = Some c \<longleftrightarrow> owns (pc s c)) \<and> (\<forall>c. loc_ok (pc s c))"

lemma lock_invI:
  assumes "\<And>c d. holds (pc s c) \<Longrightarrow> holds (pc s d) \<Longrightarrow> c = d"
    and "(\<exists>c. holds (pc s c)) \<longleftrightarrow> odd (lk_flag s)"
    and "\<And>c. lk_cpuid s = Some c \<longleftrightarrow> owns (pc s c)" and "\<And>c. loc_ok (pc s c)"
  shows "lock_inv s"
  using assms unfolding lock_inv_def by blast

lemma lock_invD:
  assumes "lock_inv s"
  shows "holds (pc s c) \<Longrightarrow> odd (lk_flag s)" and "holds (pc s c) \<Longrightarrow> holds (pc s d) \<Longrightarrow> d = c"
    and "odd (lk_flag s) \<Longrightarrow> \<exists>c. holds (pc s c)"
    and "lk_cpuid s = Some c \<longleftrightarrow> owns (pc s c)" and "loc_ok (pc s c)"
  using assms unfolding lock_inv_def by blast+

lemma mod2_odd: "w mod 2 = 1 \<longleftrightarrow> odd w" "w mod 2 = 0 \<longleftrightarrow> even w" for w :: u32
  by (simp_all add: odd_iff_mod_2_eq_one even_iff_mod_2_eq_zero)

lemma goto_simps [simp]: "pc (goto c l s) = (pc s)(c := l)" "lk_flag (goto c l s) = lk_flag s"
  "lk_cpuid (goto c l s) = lk_cpuid s" "lk_did_stop (goto c l s) = lk_did_stop s" "if_flag (goto c l s) = if_flag s"
  by (simp_all add: goto_def)

lemma interrupt_simps [simp]: "pc (disable_interrupt c s) = pc s" "lk_flag (disable_interrupt c s) = lk_flag s"
  "lk_cpuid (disable_interrupt c s) = lk_cpuid s" "pc (enable_interrupt c b s) = pc s"
  "lk_flag (enable_interrupt c b s) = lk_flag s" "lk_cpuid (enable_interrupt c b s) = lk_cpuid s"
  by (simp_all add: disable_interrupt_def enable_interrupt_def)

lemma holds_if_owns: "owns l \<Longrightarrow> holds l"
  by (cases l) auto

text \<open>A move that changes neither the shared fields nor who holds the lock.\<close>

lemma inv_move:
  assumes "lock_inv s" and "lk_flag s' = lk_flag s" and "lk_cpuid s' = lk_cpuid s" and "pc s' = (pc s)(c := l)"
    and "holds l = holds (pc s c)" and "owns l = owns (pc s c)" and "loc_ok l"
  shows "lock_inv s'"
proof -
  have h: "holds (pc s' d) = holds (pc s d)" and o': "owns (pc s' d) = owns (pc s d)" for d
    using assms by auto
  show ?thesis
    using assms(1,7) unfolding lock_inv_def h o' assms(2,3) by (simp add: assms(4))
qed

text \<open>A successful compare-and-swap: nobody held the lock, now \<open>c\<close> does.\<close>

lemma inv_acquire:
  assumes "lock_inv s" and "even (lk_flag s)" and "holds l" "\<not> owns l" "loc_ok l"
  shows "lock_inv (goto c l (s \<lparr> lk_flag := lk_flag s + 1 \<rparr>))"
proof -
  have none: "\<not> holds (pc s d)" "lk_cpuid s \<noteq> Some d" for d
    using assms(1,2) holds_if_owns by (auto simp: lock_inv_def)
  show ?thesis
    using assms none by (auto simp: lock_inv_def)
qed

lemma inv_release:
  assumes "lock_inv s" and "pc s c = U_Flag"
  shows "lock_inv (goto c U_Enable (s \<lparr> lk_flag := lk_flag s + 1 \<rparr>))"
proof -
  have odd: "odd (lk_flag s)" and only: "\<And>d. holds (pc s d) \<Longrightarrow> d = c"
    using lock_invD(1,2) [OF assms(1), of c] assms(2) by auto
  have "lk_cpuid s \<noteq> Some d" for d
    using lock_invD(4) [OF assms(1), of d] assms(2) only [of d] holds_if_owns [of "pc s d"] by auto
  then show ?thesis
    using assms odd only by (auto simp: lock_inv_def)
qed

lemma inv_own:
  assumes "lock_inv s" and "holds (pc s c)" "\<not> owns (pc s c)"
  shows "lock_inv (goto c Critical (s \<lparr> lk_cpuid := Some c \<rparr>))"
proof -
  have only: "\<And>d. holds (pc s d) \<Longrightarrow> d = c"
    using lock_invD(2) [OF assms(1), of c] assms(2) by auto
  then have nobody: "\<not> owns (pc s d)" for d
    using assms(3) holds_if_owns [of "pc s d"] by (cases "d = c") auto
  have odd: "odd (lk_flag s)" and ok: "\<And>d. loc_ok (pc s d)"
    using lock_invD(1,5) [OF assms(1)] assms(2) by (metis holds.simps(7))+
  show ?thesis
  proof (rule lock_invI)
    show "d = e" if "holds (pc (goto c Critical (s \<lparr> lk_cpuid := Some c \<rparr>)) d)"
      "holds (pc (goto c Critical (s \<lparr> lk_cpuid := Some c \<rparr>)) e)" for d e
      using that only [of d] only [of e] by (auto split: if_splits)
  qed (use odd nobody ok in auto)
qed

lemma inv_disown:
  assumes "lock_inv s" and "pc s c = U_Entry"
  shows "lock_inv (goto c U_Flag (s \<lparr> lk_cpuid := None \<rparr>))"
proof -
  have only: "\<And>d. holds (pc s d) \<Longrightarrow> d = c"
    using lock_invD(2) [OF assms(1), of c] assms(2) by auto
  then have others: "\<not> owns (pc s d)" if "d \<noteq> c" for d
    using that holds_if_owns [of "pc s d"] by auto
  have odd: "odd (lk_flag s)" and ok: "\<And>d. loc_ok (pc s d)"
    using lock_invD(1,5) [OF assms(1)] assms(2) by (metis holds.simps(7))+
  show ?thesis
  proof (rule lock_invI)
    show "d = e" if "holds (pc (goto c U_Flag (s \<lparr> lk_cpuid := None \<rparr>)) d)"
      "holds (pc (goto c U_Flag (s \<lparr> lk_cpuid := None \<rparr>)) e)" for d e
      using that only [of d] only [of e] by (auto split: if_splits)
  qed (use odd others ok in auto)
qed

lemma lock_inv_step: "lock_inv s \<Longrightarrow> lock_inv (cpu_step c s)"
proof -
  assume inv: "lock_inv s"
  then have odd: "holds (pc s c) \<Longrightarrow> odd (lk_flag s)" and own: "owns (pc s c) \<longleftrightarrow> lk_cpuid s = Some c"
    and ok: "loc_ok (pc s c)"
    by (auto simp: lock_inv_def)
  show ?thesis
  proof (cases "pc s c")
    case (L_Cas f i)
    then have "even f"
      using ok by simp
    then show ?thesis
      using inv_acquire [OF inv, of "L_Won i" c] L_Cas inv_move [OF inv, of _ c L_Read]
      by (cases "lk_flag s = f") (auto simp: cpu_step_def)
  next
    case (T_Cas f i)
    then show ?thesis
      using inv_acquire [OF inv, of "T_Won i" c] inv_move [OF inv, of _ c Idle]
      by (cases "even f \<and> lk_flag s = f") (auto simp: cpu_step_def mod2_odd)
  next
    case U_Entry
    then show ?thesis
      using inv_disown [OF inv] odd by (simp add: cpu_step_def mod2_odd)
  next
    case U_Flag
    then show ?thesis
      using inv_release [OF inv] by (simp add: cpu_step_def)
  next
    case L_Own
    then show ?thesis
      using inv_own [OF inv, of c] by (simp add: cpu_step_def)
  next
    case T_Own
    then show ?thesis
      using inv_own [OF inv, of c] by (simp add: cpu_step_def)
  next
    case L_Entry
    then have "lk_cpuid s \<noteq> Some c"
      using own by simp
    then show ?thesis
      using inv_move [OF inv, of "goto c L_Read s" c L_Read] L_Entry by (simp add: cpu_step_def)
  next
    case (L_Loop f)
    then show ?thesis
      using inv_move [OF inv, of _ c L_Read] inv_move [OF inv, of _ c "L_Cas f (if_flag s c)"]
      by (cases "odd f") (auto simp: cpu_step_def mod2_odd)
  next
    case R_Entry
    then show ?thesis
      using inv inv_move [OF inv, of "goto c Panicked s" c Panicked] by (auto simp: cpu_step_def)
  qed (use inv in \<open>auto simp: cpu_step_def intro!: inv_move [OF inv, of _ c]\<close>)
qed

lemma lock_inv_call: "lock_inv s \<Longrightarrow> lock_inv (do_call k c s)"
  by (auto simp: do_call_def intro!: inv_move [of s _ c] split: lock_call.splits loc.splits)

lemma lock_inv_new: "lock_inv (SpinLock_new ints)"
  by (simp add: lock_inv_def SpinLock_new_def)

lemma reachable_inv: "reachable s \<Longrightarrow> lock_inv s"
  by (induction rule: reachable.induct) (auto intro: lock_inv_new lock_inv_call lock_inv_step)

section \<open>Semaphore\<close>

text \<open>
  The lock makes each member atomic. \<open>Acquire\<close> repeats until the count is
  positive: on a semaphore at zero it does not return unless another
  processor releases (\<open>Deadlock\<close> for a processor that is alone).
\<close>

record Semaphore =
  sem_max :: u32
  sem_cur :: u32

definition Semaphore_new :: "u32 \<Rightarrow> Semaphore" where
  "Semaphore_new m = \<lparr> sem_max = m, sem_cur = m \<rparr>"

definition Semaphore_new2 :: "u32 \<Rightarrow> u32 \<Rightarrow> Semaphore kres" where
  "Semaphore_new2 m cur = kbind (kassert (cur \<le> m)) (\<lambda>_. Inr \<lparr> sem_max = m, sem_cur = cur \<rparr>)"

definition Acquire :: "Semaphore \<Rightarrow> Semaphore kres" where
  "Acquire s = (if 0 < sem_cur s then Inr (s \<lparr> sem_cur := sem_cur s - 1 \<rparr>) else Inl Deadlock)"

definition Tryacquire :: "Semaphore \<Rightarrow> int \<times> Semaphore" where
  "Tryacquire s = (if sem_cur s = 0 then (- 1, s) else (0, s \<lparr> sem_cur := sem_cur s - 1 \<rparr>))"

definition Release :: "Semaphore \<Rightarrow> Semaphore kres" where
  "Release s = kbind (kassert (sem_cur s < sem_max s)) (\<lambda>_. Inr (s \<lparr> sem_cur := sem_cur s + 1 \<rparr>))"

datatype sem_op = Try | Rel

text \<open>A history of \<open>Tryacquire\<close> and \<open>Release\<close> calls with the number of permits the callers hold.\<close>

fun sem_run :: "sem_op list \<Rightarrow> nat \<Rightarrow> Semaphore \<Rightarrow> (nat \<times> Semaphore) kres" where
  "sem_run [] held s = Inr (held, s)"
| "sem_run (Try # ops) held s =
     (let r = Tryacquire s in sem_run ops (if fst r = 0 then held + 1 else held) (snd r))"
| "sem_run (Rel # ops) held s =
     (if held = 0 then sem_run ops held s else kbind (Release s) (sem_run ops (held - 1)))"

lemma sem_run_ok:
  assumes "held + unat (sem_cur s) = unat (sem_max s)"
  shows "\<exists>held' s'. sem_run ops held s = Inr (held', s') \<and> held' + unat (sem_cur s') = unat (sem_max s') \<and>
    sem_max s' = sem_max s"
  using assms
proof (induction ops held s rule: sem_run.induct)
  case (2 ops held s)
  then show ?case
  proof (cases "sem_cur s = 0")
    case False
    then have "unat (sem_cur s - 1) = unat (sem_cur s) - 1" "0 < unat (sem_cur s)"
      by (simp_all add: unat_minus_one unat_gt_0)
    then show ?thesis
      using 2 False by (simp add: Tryacquire_def Let_def)
  qed (simp add: Tryacquire_def Let_def)
next
  case (3 ops held s)
  show ?case
  proof (cases "held = 0")
    case False
    then have lt: "unat (sem_cur s) < unat (sem_max s)"
      using 3(3) by simp
    then have "unat (sem_cur s + 1) = unat (sem_cur s) + 1"
      using unsigned_less [of "sem_max s", where ?'a = nat] by (simp add: unat_word_ariths)
    then show ?thesis
      using 3(2) [OF False, of "s \<lparr> sem_cur := sem_cur s + 1 \<rparr>"] 3(3) False lt
      by (simp add: Release_def word_less_nat_alt)
  qed (use 3 in simp)
qed simp

section \<open>Properties\<close>

text \<open>C4: in every state that any number of processors can reach by calling
  \<open>Lock\<close>, \<open>Trylock\<close> and \<open>Unlock\<close>, in any interleaving and whatever the wrap-around
  of the 32-bit flag, at most one processor holds the lock; the flag is odd
  exactly while one does; the assertion of \<open>Unlock\<close> never fails; a processor
  that holds the lock and calls \<open>Lock\<close> again is stopped by the self-lock check,
  and no other processor is.
\<close>

theorem SpinLock_mutual_exclusion:
  assumes "reachable s"
  shows "(\<forall>c d. holds (pc s c) \<and> holds (pc s d) \<longrightarrow> c = d) \<and> (IsLocked s \<longleftrightarrow> (\<exists>c. holds (pc s c))) \<and>
    (\<forall>c. pc s c \<noteq> Assert_Failed) \<and> (\<forall>c. pc s c = R_Entry \<longrightarrow> pc (cpu_step c s) c = Panicked) \<and>
    (\<forall>c. pc s c = L_Entry \<longrightarrow> pc (cpu_step c s) c = L_Read)"
proof -
  note inv = reachable_inv [OF assms]
  have "pc s c \<noteq> Assert_Failed" for c
    using lock_invD(5) [OF inv, of c] by auto
  moreover have "pc (cpu_step c s) c = Panicked" if "pc s c = R_Entry" for c
    using that lock_invD(1,4) [OF inv, of c] by (simp add: cpu_step_def mod2_odd)
  moreover have "pc (cpu_step c s) c = L_Read" if "pc s c = L_Entry" for c
    using that lock_invD(4) [OF inv, of c] by (simp add: cpu_step_def)
  moreover have "IsLocked s \<longleftrightarrow> (\<exists>c. holds (pc s c))"
    using lock_invD(1,3) [OF inv] by (auto simp: IsLocked_def mod2_odd)
  ultimately show ?thesis
    using lock_invD(2) [OF inv] by blast
qed

fun lock_exec :: "(lock_call \<times> nat + nat) list \<Rightarrow> LockState \<Rightarrow> LockState" where
  "lock_exec [] s = s"
| "lock_exec (Inl (k, c) # es) s = lock_exec es (do_call k c s)"
| "lock_exec (Inr c # es) s = lock_exec es (cpu_step c s)"

lemma lock_exec_reachable: "reachable s \<Longrightarrow> reachable (lock_exec es s)"
  by (induction es s rule: lock_exec.induct) (auto intro: reachable.intros)

lemmas lock_run_simps = cpu_step_def do_call_def goto_def disable_interrupt_def enable_interrupt_def SpinLock_new_def

theorem SpinLock_mutual_exclusion_witness:
  "\<exists>s. reachable s \<and> IsLocked s \<and> pc s 0 = Critical \<and> pc s 1 = L_Loop 1 \<and> (\<forall>d. holds (pc s d) \<longrightarrow> 0 = d)"
proof -
  define s where "s = lock_exec [Inl (Call_Lock, 0), Inr 0, Inr 0, Inr 0, Inr 0, Inr 0, Inr 0,
      Inl (Call_Lock, 1), Inr 1, Inr 1] (SpinLock_new (\<lambda>_. True))"
  have r: "reachable s"
    unfolding s_def by (rule lock_exec_reachable [OF reachable.start])
  have "pc s 0 = Critical" "pc s 1 = L_Loop 1" "IsLocked s"
    by (simp_all add: s_def lock_run_simps IsLocked_def)
  then show ?thesis
    using SpinLock_mutual_exclusion [OF r] r by (metis holds.simps(5))
qed

text \<open>a free lock can be taken. A processor that calls \<open>Lock\<close> in a reachable
  state in which nobody holds the lock is in the critical section, with
  interrupts disabled, after six of its own steps without interference.
\<close>

theorem SpinLock_Lock_succeeds_alone:
  assumes "reachable s" and "\<not> IsLocked s" and "pc s c = Idle"
  shows "pc ((cpu_step c ^^ 6) (do_call Call_Lock c s)) c = Critical \<and>
    \<not> if_flag ((cpu_step c ^^ 6) (do_call Call_Lock c s)) c"
proof -
  have even: "even (lk_flag s)"
    using assms(2) by (simp add: IsLocked_def mod2_odd)
  have six: "(6 :: nat) = Suc (Suc (Suc (Suc (Suc (Suc 0)))))"
    by simp
  show ?thesis
    using even assms(3) unfolding six
    by (simp add: cpu_step_def do_call_def goto_def disable_interrupt_def mod2_odd)
qed

theorem SpinLock_Lock_succeeds_alone_witness:
  "pc ((cpu_step 3 ^^ 6) (do_call Call_Lock 3 (SpinLock_new (\<lambda>_. True)))) 3 = Critical"
  using SpinLock_Lock_succeeds_alone [OF reachable.start, of "\<lambda>_. True" 3]
  by (simp add: IsLocked_def SpinLock_new_def)

text \<open>C31: \<open>Unlock\<close> reads \<open>_did_stop_interrupt\<close> after it has released the lock, so
  another processor can overwrite it in between: here processor 0, which had
  interrupts enabled before \<open>Lock\<close>, comes out of \<open>Unlock\<close> with interrupts
  disabled, because processor 1 took the lock with interrupts disabled.
\<close>

theorem SpinLock_Unlock_interrupt_race:
  "let s = lock_exec ([Inl (Call_Lock, 0)] @ replicate 6 (Inr 0) @ [Inl (Call_Unlock, 0), Inr 0, Inr 0] @
        [Inl (Call_Lock, 1)] @ replicate 5 (Inr 1) @ [Inr 0]) (SpinLock_new (\<lambda>c. c = 0))
   in reachable s \<and> if_flag (SpinLock_new (\<lambda>c. c = 0)) 0 \<and> pc s 0 = Idle \<and> \<not> if_flag s 0"
proof -
  let ?es = "[Inl (Call_Lock, 0)] @ replicate 6 (Inr 0) @ [Inl (Call_Unlock, 0), Inr 0, Inr 0] @
        [Inl (Call_Lock, 1)] @ replicate 5 (Inr 1) @ [Inr 0]"
  have "replicate 6 x = [x, x, x, x, x, x]" "replicate 5 x = [x, x, x, x, x]" for x :: "lock_call \<times> nat + nat"
    by (simp_all add: eval_nat_numeral)
  then have "if_flag (SpinLock_new (\<lambda>c. c = 0)) 0 \<and> pc (lock_exec ?es (SpinLock_new (\<lambda>c. c = 0))) 0 = Idle \<and>
      \<not> if_flag (lock_exec ?es (SpinLock_new (\<lambda>c. c = 0))) 0"
    by (simp add: lock_run_simps)
  moreover have "reachable (lock_exec ?es (SpinLock_new (\<lambda>c. c = 0)))"
    by (rule lock_exec_reachable [OF reachable.start])
  ultimately show ?thesis
    unfolding Let_def by blast
qed

text \<open>over any history of \<open>Tryacquire\<close> and \<open>Release\<close> calls in which only held
  permits are released, the assertion of \<open>Release\<close> never fails and the permits
  held and the permits left always add up to the maximum.
\<close>

theorem Semaphore_permits:
  "\<exists>held s. sem_run ops 0 (Semaphore_new m) = Inr (held, s) \<and> held + unat (sem_cur s) = unat m"
  using sem_run_ok [of 0 "Semaphore_new m" ops] by (auto simp: Semaphore_new_def)

end
