(* ===== verification/Smart_Ptr.thy ===== *)
theory Smart_Ptr
  imports Raph_Prelude
begin

text \<open>
  The reference-counted pointers \<open>sptr\<close> and \<open>wptr\<close> and the unique pointer \<open>uptr\<close>
  of \<open>ptr.h\<close>. The state has the live objects, the live \<open>counter_helper\<close>s and the
  pointer variables of both kinds; a variable that is null or does not exist
  is \<open>None\<close>. Reading a deleted helper, or deleting an object or helper twice, is
  the fault \<open>Use_After_Free\<close>. Every operation is one step; its
  compare-and-swap loops are single updates.
\<close>

record counter_helper =
  weak_cnt :: int
  shared_cnt :: int

record PtrState =
  objs :: "nat set"
  helpers :: "nat \<Rightarrow> counter_helper option"
  sp :: "nat \<Rightarrow> (nat \<times> nat) option"
  wp :: "nat \<Rightarrow> (nat \<times> nat) option"

section \<open>Operations on the counters\<close>

definition get_helper :: "nat \<Rightarrow> PtrState \<Rightarrow> counter_helper kres" where
  "get_helper h s = (case helpers s h of None \<Rightarrow> Inl Use_After_Free | Some k \<Rightarrow> Inr k)"

definition set_helper :: "nat \<Rightarrow> counter_helper option \<Rightarrow> PtrState \<Rightarrow> PtrState" where
  "set_helper h k s = s \<lparr> helpers := (helpers s)(h := k) \<rparr>"

definition delete_obj :: "nat \<Rightarrow> PtrState \<Rightarrow> PtrState kres" where
  "delete_obj obj s = (if obj \<in> objs s then Inr (s \<lparr> objs := objs s - {obj} \<rparr>) else Inl Use_After_Free)"

text \<open>Decrement of \<open>weak_cnt\<close>; the helper is deleted when it was 1.\<close>

definition drop_weak :: "nat \<Rightarrow> PtrState \<Rightarrow> PtrState kres" where
  "drop_weak h s = kbind (get_helper h s) (\<lambda>k.
     Inr (if weak_cnt k = 1 then set_helper h None s
          else set_helper h (Some (k \<lparr> weak_cnt := weak_cnt k - 1 \<rparr>)) s))"

definition sptr_release :: "nat \<Rightarrow> PtrState \<Rightarrow> PtrState kres" where
  "sptr_release v s = (case sp s v of None \<Rightarrow> Inr s
     | Some (obj, h) \<Rightarrow>
       kbind (get_helper h s) (\<lambda>k.
       let s1 = set_helper h (Some (k \<lparr> shared_cnt := shared_cnt k - 1 \<rparr>)) s in
       if shared_cnt k = 1 then kbind (delete_obj obj s1) (drop_weak h) else Inr s1))"

definition wptr_release :: "nat \<Rightarrow> PtrState \<Rightarrow> PtrState kres" where
  "wptr_release v s = (case wp s v of None \<Rightarrow> Inr s | Some (obj, h) \<Rightarrow> drop_weak h s)"

definition set_sp :: "nat \<Rightarrow> (nat \<times> nat) option \<Rightarrow> PtrState \<Rightarrow> PtrState" where
  "set_sp v p s = s \<lparr> sp := (sp s)(v := p) \<rparr>"

definition set_wp :: "nat \<Rightarrow> (nat \<times> nat) option \<Rightarrow> PtrState \<Rightarrow> PtrState" where
  "set_wp v p s = s \<lparr> wp := (wp s)(v := p) \<rparr>"

section \<open>Constructors, assignment, destruction\<close>

text \<open>\<open>sptr(T *obj)\<close>: \<open>h\<close> is the address that \<open>new counter_helper\<close> returns.\<close>

definition sptr_new :: "nat \<Rightarrow> nat \<Rightarrow> nat \<Rightarrow> PtrState \<Rightarrow> PtrState" where
  "sptr_new v obj h s = set_sp v (Some (obj, h))
     (set_helper h (Some \<lparr> weak_cnt = 1, shared_cnt = 1 \<rparr>) (s \<lparr> objs := insert obj (objs s) \<rparr>))"

definition sptr_copy :: "nat \<Rightarrow> (nat \<times> nat) option \<Rightarrow> PtrState \<Rightarrow> PtrState kres" where
  "sptr_copy v p s = (case p of None \<Rightarrow> Inr (set_sp v None s)
     | Some (obj, h) \<Rightarrow> kbind (get_helper h s) (\<lambda>k.
         Inr (set_sp v (Some (obj, h)) (set_helper h (Some (k \<lparr> shared_cnt := shared_cnt k + 1 \<rparr>)) s))))"

definition sptr_from_wptr :: "nat \<Rightarrow> nat \<Rightarrow> PtrState \<Rightarrow> PtrState kres" where
  "sptr_from_wptr v w s = (case wp s w of None \<Rightarrow> Inr (set_sp v None s)
     | Some (obj, h) \<Rightarrow> kbind (get_helper h s) (\<lambda>k.
         if shared_cnt k = 0 then Inr (set_sp v None s)
         else Inr (set_sp v (Some (obj, h)) (set_helper h (Some (k \<lparr> shared_cnt := shared_cnt k + 1 \<rparr>)) s))))"

definition sptr_assign :: "nat \<Rightarrow> nat \<Rightarrow> PtrState \<Rightarrow> PtrState kres" where
  "sptr_assign v src s = kbind (sptr_release v s) (\<lambda>s1. sptr_copy v (sp s1 src) s1)"

definition sptr_destroy :: "nat \<Rightarrow> PtrState \<Rightarrow> PtrState kres" where
  "sptr_destroy v s = kmap (set_sp v None) (sptr_release v s)"

definition wptr_copy :: "nat \<Rightarrow> (nat \<times> nat) option \<Rightarrow> PtrState \<Rightarrow> PtrState kres" where
  "wptr_copy w p s = (case p of None \<Rightarrow> Inr (set_wp w None s)
     | Some (obj, h) \<Rightarrow> kbind (get_helper h s) (\<lambda>k.
         Inr (set_wp w (Some (obj, h)) (set_helper h (Some (k \<lparr> weak_cnt := weak_cnt k + 1 \<rparr>)) s))))"

definition wptr_assign :: "nat \<Rightarrow> nat \<Rightarrow> PtrState \<Rightarrow> PtrState kres" where
  "wptr_assign w src s = kbind (wptr_release w s) (\<lambda>s1. wptr_copy w (wp s1 src) s1)"

definition wptr_destroy :: "nat \<Rightarrow> PtrState \<Rightarrow> PtrState kres" where
  "wptr_destroy w s = kmap (set_wp w None) (wptr_release w s)"

definition IsObjReleased :: "nat \<Rightarrow> PtrState \<Rightarrow> bool kres" where
  "IsObjReleased w s = (case wp s w of None \<Rightarrow> Inr True
     | Some (obj, h) \<Rightarrow> kmap (\<lambda>k. shared_cnt k = 0) (get_helper h s))"

definition GetCnt :: "nat \<Rightarrow> PtrState \<Rightarrow> int kres" where
  "GetCnt v s = (case sp s v of None \<Rightarrow> Inl Null_Deref
     | Some (obj, h) \<Rightarrow> kmap shared_cnt (get_helper h s))"

section \<open>Counting references\<close>

definition refs :: "(nat \<Rightarrow> (nat \<times> nat) option) \<Rightarrow> nat \<Rightarrow> nat" where
  "refs m h = card {v. \<exists>obj. m v = Some (obj, h)}"

lemma refs_finite: "finite (dom m) \<Longrightarrow> finite {v. \<exists>obj. m v = Some (obj, h)}"
  by (rule finite_subset [of _ "dom m"]) auto

lemma refs_0_iff: "finite (dom m) \<Longrightarrow> refs m h = 0 \<longleftrightarrow> (\<forall>v obj. m v \<noteq> Some (obj, h))"
  using refs_finite [of m h] by (auto simp: refs_def card_eq_0_iff)

lemma refs_upd_None:
  assumes "finite (dom m)" and "m v = None"
  shows "refs (m(v \<mapsto> (obj, h))) g = (if g = h then Suc (refs m g) else refs m g)"
proof -
  have "{u. \<exists>b. (m(v \<mapsto> (obj, h))) u = Some (b, g)} =
      (if g = h then insert v {u. \<exists>b. m u = Some (b, g)} else {u. \<exists>b. m u = Some (b, g)})"
    using assms(2) by auto
  then show ?thesis
    using refs_finite [OF assms(1), of g] assms(2) by (cases "g = h") (simp_all add: refs_def)
qed

lemma refs_del:
  assumes "finite (dom m)" and "m v = Some (obj, h)"
  shows "refs m g = (if g = h then Suc (refs (m(v := None)) g) else refs (m(v := None)) g)"
  using refs_upd_None [of "m(v := None)" v obj h g] assms by (simp add: fun_upd_idem)

lemma refs_same [simp]: "m v = None \<Longrightarrow> m(v := None) = m"
  by (simp add: fun_upd_idem)

text \<open>
  The invariant: \<open>shared_cnt\<close> is the number of shared pointers, \<open>weak_cnt\<close> that of
  weak pointers plus one for the shared pointers together; a helper exists
  exactly as long as something points to it; \<open>owner\<close> gives the object of a
  helper, and an object lives exactly as long as a shared pointer to it exists.
\<close>

definition helper_ok :: "counter_helper option \<Rightarrow> nat \<Rightarrow> nat \<Rightarrow> bool" where
  "helper_ok k n m \<longleftrightarrow> (if n = 0 \<and> m = 0 then k = None
     else k = Some \<lparr> weak_cnt = int m + (if 0 < n then 1 else 0), shared_cnt = int n \<rparr>)"

definition ptr_inv :: "(nat \<Rightarrow> nat) \<Rightarrow> PtrState \<Rightarrow> bool" where
  "ptr_inv owner s \<longleftrightarrow> finite (dom (sp s)) \<and> finite (dom (wp s)) \<and>
     (\<forall>h. helper_ok (helpers s h) (refs (sp s) h) (refs (wp s) h)) \<and>
     (\<forall>v obj h. sp s v = Some (obj, h) \<or> wp s v = Some (obj, h) \<longrightarrow> obj = owner h) \<and>
     inj_on owner {h. 0 < refs (sp s) h} \<and> objs s = owner ` {h. 0 < refs (sp s) h}"

lemma refs_pos: "finite (dom m) \<Longrightarrow> m v = Some (obj, h) \<Longrightarrow> 0 < refs m h"
  using refs_0_iff by fastforce

lemmas ptr_op_defs = get_helper_def set_helper_def delete_obj_def drop_weak_def set_sp_def set_wp_def
  sptr_release_def wptr_release_def sptr_new_def sptr_copy_def sptr_from_wptr_def sptr_destroy_def
  wptr_copy_def wptr_destroy_def

lemma ptr_invI:
  assumes "finite (dom (sp s))" and "finite (dom (wp s))"
    and "\<And>h. helper_ok (helpers s h) (refs (sp s) h) (refs (wp s) h)"
    and "\<And>v obj h. sp s v = Some (obj, h) \<or> wp s v = Some (obj, h) \<Longrightarrow> obj = owner h"
    and "inj_on owner {h. 0 < refs (sp s) h}" and "objs s = owner ` {h. 0 < refs (sp s) h}"
  shows "ptr_inv owner s"
  unfolding ptr_inv_def using assms by blast

lemma ptr_inv_objs:
  assumes "ptr_inv owner s"
  shows "inj_on owner {h. 0 < refs (sp s) h}" "objs s = owner ` {h. 0 < refs (sp s) h}"
  using assms by (auto simp: ptr_inv_def)

lemma ptr_inv_helper: "ptr_inv owner s \<Longrightarrow> helper_ok (helpers s h) (refs (sp s) h) (refs (wp s) h)"
  by (simp add: ptr_inv_def)

lemma ptr_inv_fin: "ptr_inv owner s \<Longrightarrow> finite (dom (sp s))" "ptr_inv owner s \<Longrightarrow> finite (dom (wp s))"
  by (simp_all add: ptr_inv_def)

lemma ptr_inv_owner:
  "ptr_inv owner s \<Longrightarrow> sp s v = Some (obj, h) \<Longrightarrow> obj = owner h"
  "ptr_inv owner s \<Longrightarrow> wp s v = Some (obj, h) \<Longrightarrow> obj = owner h"
  by (auto simp: ptr_inv_def)

text \<open>Dropping a shared pointer: the object goes with the last one, and the helper with it unless weak pointers remain.\<close>

lemma sptr_destroy_ok:
  assumes "ptr_inv owner s"
  shows "\<exists>s'. sptr_destroy v s = Inr s' \<and> ptr_inv owner s' \<and>
    sp s' = (sp s)(v := None) \<and> wp s' = wp s"
proof (cases "sp s v")
  case None
  then show ?thesis using assms by (simp add: ptr_op_defs)
next
  case (Some p)
  obtain obj h where p: "p = (obj, h)" by (cases p)
  have v: "sp s v = Some (obj, h)" using Some p by simp
  have fin: "finite (dom (sp s))" using assms by (rule ptr_inv_fin)
  define sp' where "sp' = (sp s)(v := None)"
  have r: "refs (sp s) g = (if g = h then Suc (refs sp' g) else refs sp' g)" for g
    unfolding sp'_def using refs_del [OF fin v] by simp
  have k: "helpers s h = Some \<lparr> weak_cnt = int (refs (wp s) h) + 1, shared_cnt = int (refs sp' h) + 1 \<rparr>"
    using ptr_inv_helper [OF assms, of h] r [of h] by (simp add: helper_ok_def)
  have o: "obj = owner h" using ptr_inv_owner(1) [OF assms v] .
  have pos: "{g. 0 < refs (sp s) g} = insert h {g. 0 < refs sp' g}" using r by auto
  have inj: "inj_on owner (insert h {g. 0 < refs sp' g})"
    using assms unfolding ptr_inv_def pos by blast
  have objs: "objs s = insert (owner h) (owner ` {g. 0 < refs sp' g})"
    using assms unfolding ptr_inv_def pos by simp
  have hok: "helper_ok (helpers s g) (refs sp' g) (refs (wp s) g)" if "g \<noteq> h" for g
    using ptr_inv_helper [OF assms, of g] r [of g] that by simp
  have fin': "finite (dom sp')" unfolding sp'_def using fin by simp
  have own: "sp' u = Some (b, g) \<or> wp s u = Some (b, g) \<Longrightarrow> b = owner g" for u b g
    using ptr_inv_owner [OF assms, of u b g] unfolding sp'_def by (auto split: if_splits)
  show ?thesis
  proof (cases "refs sp' h")
    case 0
    have out: "owner h \<notin> owner ` {g. 0 < refs sp' g}" using inj 0 by auto
    define s' where "s' = s \<lparr> sp := sp', objs := objs s - {obj},
      helpers := (helpers s)(h := if refs (wp s) h = 0 then None
        else Some \<lparr> weak_cnt = int (refs (wp s) h), shared_cnt = 0 \<rparr>) \<rparr>"
    have "sptr_destroy v s = Inr s'"
      using v k 0 o objs by (simp add: ptr_op_defs s'_def sp'_def)
    moreover have "ptr_inv owner s'"
      unfolding ptr_inv_def s'_def
      using fin' ptr_inv_fin(2) [OF assms] hok own inj objs 0 out o by (auto simp: helper_ok_def)
    ultimately show ?thesis by (auto simp: s'_def sp'_def)
  next
    case (Suc n)
    define s' where "s' = s \<lparr> sp := sp', helpers := (helpers s)(h \<mapsto>
        \<lparr> weak_cnt = int (refs (wp s) h) + 1, shared_cnt = int (refs sp' h) \<rparr>) \<rparr>"
    have "sptr_destroy v s = Inr s'"
      using v k Suc by (simp add: ptr_op_defs s'_def sp'_def)
    moreover have "ptr_inv owner s'"
      unfolding ptr_inv_def s'_def
      using fin' ptr_inv_fin(2) [OF assms] hok own inj objs Suc by (auto simp: helper_ok_def)
    ultimately show ?thesis by (auto simp: s'_def sp'_def)
  qed
qed

lemma wptr_destroy_ok:
  assumes "ptr_inv owner s"
  shows "\<exists>s'. wptr_destroy w s = Inr s' \<and> ptr_inv owner s' \<and>
    wp s' = (wp s)(w := None) \<and> sp s' = sp s \<and> objs s' = objs s"
proof (cases "wp s w")
  case None
  then show ?thesis using assms by (simp add: ptr_op_defs)
next
  case (Some p)
  obtain obj h where p: "p = (obj, h)" by (cases p)
  have v: "wp s w = Some (obj, h)" using Some p by simp
  have fin: "finite (dom (wp s))" using assms by (rule ptr_inv_fin)
  define wp' where "wp' = (wp s)(w := None)"
  have r: "refs (wp s) g = (if g = h then Suc (refs wp' g) else refs wp' g)" for g
    unfolding wp'_def using refs_del [OF fin v] by simp
  have k: "helpers s h = Some \<lparr> weak_cnt = int (refs wp' h) + 1 + (if 0 < refs (sp s) h then 1 else 0),
      shared_cnt = int (refs (sp s) h) \<rparr>"
    using ptr_inv_helper [OF assms, of h] r [of h] by (simp add: helper_ok_def)
  have hok: "helper_ok (helpers s g) (refs (sp s) g) (refs wp' g)" if "g \<noteq> h" for g
    using ptr_inv_helper [OF assms, of g] r [of g] that by simp
  have own: "sp s u = Some (b, g) \<or> wp' u = Some (b, g) \<Longrightarrow> b = owner g" for u b g
    using ptr_inv_owner [OF assms, of u b g] unfolding wp'_def by (auto split: if_splits)
  define s' where "s' = s \<lparr> wp := wp', helpers := (helpers s)(h :=
      if refs (sp s) h = 0 \<and> refs wp' h = 0 then None
      else Some \<lparr> weak_cnt = int (refs wp' h) + (if 0 < refs (sp s) h then 1 else 0),
        shared_cnt = int (refs (sp s) h) \<rparr>) \<rparr>"
  have "wptr_destroy w s = Inr s'"
    using v k by (simp add: ptr_op_defs s'_def wp'_def)
  moreover have "ptr_inv owner s'"
  proof (rule ptr_invI)
    show "helper_ok (helpers s' g) (refs (sp s') g) (refs (wp s') g)" for g
      using hok [of g] by (cases "g = h") (simp_all add: s'_def helper_ok_def)
    show "b = owner g" if "sp s' u = Some (b, g) \<or> wp s' u = Some (b, g)" for u b g
      using own [of u b g] that by (simp add: s'_def)
  qed (use fin ptr_inv_fin [OF assms] ptr_inv_objs [OF assms] in \<open>simp_all add: s'_def wp'_def\<close>)
  ultimately show ?thesis by (auto simp: s'_def wp'_def)
qed

lemma refs_sp_pos_helper:
  assumes "ptr_inv owner s" and "0 < refs (sp s) h"
  shows "helpers s h = Some \<lparr> weak_cnt = int (refs (wp s) h) + 1, shared_cnt = int (refs (sp s) h) \<rparr>"
  using ptr_inv_helper [OF assms(1), of h] assms(2) by (simp add: helper_ok_def)

lemma sptr_copy_ok:
  assumes inv: "ptr_inv owner s" and v: "sp s v = None" and pos: "0 < refs (sp s) h"
  shows "\<exists>s'. sptr_copy v (Some (owner h, h)) s = Inr s' \<and> ptr_inv owner s'"
proof -
  define sp' where "sp' = (sp s)(v \<mapsto> (owner h, h))"
  have r: "refs sp' g = (if g = h then Suc (refs (sp s) g) else refs (sp s) g)" for g
    unfolding sp'_def by (rule refs_upd_None [OF ptr_inv_fin(1) [OF inv] v])
  have pos': "{g. 0 < refs sp' g} = {g. 0 < refs (sp s) g}" using r pos by auto
  define s' where "s' = s \<lparr> sp := sp', helpers := (helpers s)(h \<mapsto>
      \<lparr> weak_cnt = int (refs (wp s) h) + 1, shared_cnt = int (refs (sp s) h) + 1 \<rparr>) \<rparr>"
  have "sptr_copy v (Some (owner h, h)) s = Inr s'"
    using refs_sp_pos_helper [OF inv pos] by (simp add: ptr_op_defs s'_def sp'_def)
  moreover have "ptr_inv owner s'"
  proof (rule ptr_invI)
    show "helper_ok (helpers s' g) (refs (sp s') g) (refs (wp s') g)" for g
      using ptr_inv_helper [OF inv, of g] pos by (cases "g = h") (simp_all add: s'_def r helper_ok_def)
    show "b = owner g" if "sp s' u = Some (b, g) \<or> wp s' u = Some (b, g)" for u b g
      using ptr_inv_owner [OF inv, of u b g] that by (auto simp: s'_def sp'_def split: if_splits)
    show "finite (dom (sp s'))"
      using ptr_inv_fin(1) [OF inv] by (simp add: s'_def sp'_def)
  qed (use ptr_inv_fin [OF inv] ptr_inv_objs [OF inv] in \<open>simp_all add: s'_def pos'\<close>)
  ultimately show ?thesis by blast
qed

lemma sptr_copy_null: "ptr_inv owner s \<Longrightarrow> sp s v = None \<Longrightarrow> sptr_copy v None s = Inr s"
  by (simp add: ptr_op_defs)

lemma sptr_copy_any:
  assumes inv: "ptr_inv owner s" and v: "sp s v = None"
  shows "\<exists>s'. sptr_copy v (sp s src) s = Inr s' \<and> ptr_inv owner s'"
proof (cases "sp s src")
  case None
  then show ?thesis using sptr_copy_null [OF inv v] inv by simp
next
  case (Some p)
  obtain obj h where p: "sp s src = Some (obj, h)" using Some by (cases p) simp
  have "0 < refs (sp s) h" using refs_pos [OF ptr_inv_fin(1) [OF inv] p] .
  then show ?thesis using sptr_copy_ok [OF inv v] ptr_inv_owner(1) [OF inv p] p by simp
qed

lemma sptr_from_wptr_ok:
  assumes inv: "ptr_inv owner s" and v: "sp s v = None"
  shows "\<exists>s'. sptr_from_wptr v w s = Inr s' \<and> ptr_inv owner s'"
proof (cases "wp s w")
  case None
  then show ?thesis using v inv by (simp add: ptr_op_defs)
next
  case (Some p)
  obtain obj h where p: "wp s w = Some (obj, h)" using Some by (cases p) simp
  have ref: "0 < refs (wp s) h" using refs_pos [OF ptr_inv_fin(2) [OF inv] p] .
  obtain k where k: "helpers s h = Some k" "shared_cnt k = int (refs (sp s) h)"
    using ptr_inv_helper [OF inv, of h] ref by (auto simp: helper_ok_def)
  show ?thesis
  proof (cases "refs (sp s) h")
    case 0
    then show ?thesis using k p v inv by (simp add: ptr_op_defs)
  next
    case (Suc n)
    then have "sptr_from_wptr v w s = sptr_copy v (Some (owner h, h)) s"
      using k p ptr_inv_owner(2) [OF inv p] by (simp add: ptr_op_defs)
    then show ?thesis using sptr_copy_ok [OF inv v, of h] Suc by simp
  qed
qed

lemma wptr_copy_ok:
  assumes inv: "ptr_inv owner s" and w: "wp s w = None"
    and pos: "0 < refs (sp s) h \<or> 0 < refs (wp s) h"
  shows "\<exists>s'. wptr_copy w (Some (owner h, h)) s = Inr s' \<and> ptr_inv owner s'"
proof -
  define wp' where "wp' = (wp s)(w \<mapsto> (owner h, h))"
  have r: "refs wp' g = (if g = h then Suc (refs (wp s) g) else refs (wp s) g)" for g
    unfolding wp'_def by (rule refs_upd_None [OF ptr_inv_fin(2) [OF inv] w])
  define k where "k = \<lparr> weak_cnt = int (refs (wp s) h) + (if 0 < refs (sp s) h then 1 else 0),
    shared_cnt = int (refs (sp s) h) \<rparr>"
  have k: "helpers s h = Some k" "shared_cnt k = int (refs (sp s) h)"
    "weak_cnt k = int (refs (wp s) h) + (if 0 < refs (sp s) h then 1 else 0)"
    using ptr_inv_helper [OF inv, of h] pos by (auto simp: helper_ok_def k_def)
  define s' where "s' = s \<lparr> wp := wp', helpers := (helpers s)(h \<mapsto> k \<lparr> weak_cnt := weak_cnt k + 1 \<rparr>) \<rparr>"
  have "wptr_copy w (Some (owner h, h)) s = Inr s'"
    using k by (simp add: ptr_op_defs s'_def wp'_def)
  moreover have "ptr_inv owner s'"
  proof (rule ptr_invI)
    show "helper_ok (helpers s' g) (refs (sp s') g) (refs (wp s') g)" for g
      using ptr_inv_helper [OF inv, of g] k by (cases "g = h") (simp_all add: s'_def r helper_ok_def)
    show "b = owner g" if "sp s' u = Some (b, g) \<or> wp s' u = Some (b, g)" for u b g
      using ptr_inv_owner [OF inv, of u b g] that by (auto simp: s'_def wp'_def split: if_splits)
    show "finite (dom (wp s'))"
      using ptr_inv_fin(2) [OF inv] by (simp add: s'_def wp'_def)
  qed (use ptr_inv_fin [OF inv] ptr_inv_objs [OF inv] in \<open>simp_all add: s'_def\<close>)
  ultimately show ?thesis by blast
qed

lemma wptr_copy_any:
  assumes inv: "ptr_inv owner s" and w: "wp s w = None" and p: "p = sp s src \<or> p = wp s src"
  shows "\<exists>s'. wptr_copy w p s = Inr s' \<and> ptr_inv owner s'"
proof (cases p)
  case None
  then show ?thesis using w inv by (simp add: ptr_op_defs)
next
  case (Some q)
  obtain obj h where q: "p = Some (obj, h)" using Some by (cases q) simp
  then have "0 < refs (sp s) h \<or> 0 < refs (wp s) h" and "obj = owner h"
    using p refs_pos [OF ptr_inv_fin(1) [OF inv], of src obj h] refs_pos [OF ptr_inv_fin(2) [OF inv], of src obj h]
      ptr_inv_owner [OF inv, of src obj h] by auto
  then show ?thesis using wptr_copy_ok [OF inv w] q by simp
qed

lemma sptr_new_ok:
  assumes inv: "ptr_inv owner s" and v: "sp s v = None" and fresh: "obj \<notin> objs s" "helpers s h = None"
  shows "ptr_inv (owner(h := obj)) (sptr_new v obj h s)"
proof -
  have r0: "refs (sp s) h = 0" "refs (wp s) h = 0"
    using ptr_inv_helper [OF inv, of h] fresh(2) by (auto simp: helper_ok_def split: if_splits)
  then have nov: "sp s u \<noteq> Some (b, h)" "wp s u \<noteq> Some (b, h)" for u b
    using refs_0_iff [OF ptr_inv_fin(1) [OF inv]] refs_0_iff [OF ptr_inv_fin(2) [OF inv]] by auto
  define s' where "s' = sptr_new v obj h s"
  have fields: "sp s' = (sp s)(v \<mapsto> (obj, h))" "wp s' = wp s" "objs s' = insert obj (objs s)"
    "helpers s' = (helpers s)(h \<mapsto> \<lparr> weak_cnt = 1, shared_cnt = 1 \<rparr>)"
    by (simp_all add: s'_def ptr_op_defs)
  have r: "refs (sp s') g = (if g = h then 1 else refs (sp s) g)" for g
    using refs_upd_None [OF ptr_inv_fin(1) [OF inv] v, of obj h g] r0 by (simp add: fields)
  have pos: "{g. 0 < refs (sp s') g} = insert h {g. 0 < refs (sp s) g}" using r by auto
  have "ptr_inv (owner(h := obj)) s'"
  proof (rule ptr_invI)
    show "helper_ok (helpers s' g) (refs (sp s') g) (refs (wp s') g)" for g
      using ptr_inv_helper [OF inv, of g] r0 by (cases "g = h") (simp_all add: r fields(2,4) helper_ok_def)
    show "b = (owner(h := obj)) g" if "sp s' u = Some (b, g) \<or> wp s' u = Some (b, g)" for u b g
      using ptr_inv_owner [OF inv, of u b g] nov [of u b] that by (auto simp: fields split: if_splits)
    show "inj_on (owner(h := obj)) {g. 0 < refs (sp s') g}"
      using ptr_inv_objs [OF inv] fresh(1) r0 unfolding pos by (auto simp: inj_on_def)
    show "objs s' = (owner(h := obj)) ` {g. 0 < refs (sp s') g}"
    proof -
      have "owner ` {g. 0 < refs (sp s) g} = (owner(h := obj)) ` {g. 0 < refs (sp s) g}"
        using r0 by (intro image_cong) auto
      then show ?thesis unfolding pos fields(3) ptr_inv_objs(2) [OF inv] image_insert
        by (simp only: fun_upd_same)
    qed
  qed (use ptr_inv_fin [OF inv] in \<open>simp_all add: fields\<close>)
  then show ?thesis by (simp add: s'_def)
qed

section \<open>Programs over shared and weak pointers\<close>

datatype ptr_op = SNew nat nat nat | SCopy nat nat | SFromW nat nat | SAssign nat nat | SDestroy nat
  | WCopy nat nat | WFromS nat nat | WAssign nat nat | WDestroy nat

fun ptr_step :: "ptr_op \<Rightarrow> PtrState \<Rightarrow> PtrState kres" where
  "ptr_step (SNew v obj h) s = Inr (sptr_new v obj h s)"
| "ptr_step (SCopy v src) s = sptr_copy v (sp s src) s"
| "ptr_step (SFromW v w) s = sptr_from_wptr v w s"
| "ptr_step (SAssign v src) s = sptr_assign v src s"
| "ptr_step (SDestroy v) s = sptr_destroy v s"
| "ptr_step (WCopy w src) s = wptr_copy w (wp s src) s"
| "ptr_step (WFromS w v) s = wptr_copy w (sp s v) s"
| "ptr_step (WAssign w src) s = wptr_assign w src s"
| "ptr_step (WDestroy w) s = wptr_destroy w s"

text \<open>
  What the language and \<open>new\<close> provide: a constructor runs on a variable that
  holds nothing yet, and the object and the helper of a new shared pointer are
  fresh. What the program has to observe: a pointer that holds the last count
  of its kind is not assigned to itself.
\<close>

definition last_shared :: "nat \<Rightarrow> PtrState \<Rightarrow> bool" where
  "last_shared v s = (case sp s v of None \<Rightarrow> False | Some (obj, h) \<Rightarrow> map_option shared_cnt (helpers s h) = Some 1)"

definition last_weak :: "nat \<Rightarrow> PtrState \<Rightarrow> bool" where
  "last_weak w s = (case wp s w of None \<Rightarrow> False | Some (obj, h) \<Rightarrow> map_option weak_cnt (helpers s h) = Some 1)"

fun ptr_ok :: "ptr_op \<Rightarrow> PtrState \<Rightarrow> bool" where
  "ptr_ok (SNew v obj h) s = (sp s v = None \<and> obj \<notin> objs s \<and> helpers s h = None)"
| "ptr_ok (SCopy v src) s = (sp s v = None)"
| "ptr_ok (SFromW v w) s = (sp s v = None)"
| "ptr_ok (SAssign v src) s = (v \<noteq> src \<or> \<not> last_shared v s)"
| "ptr_ok (SDestroy v) s = True"
| "ptr_ok (WCopy w src) s = (wp s w = None)"
| "ptr_ok (WFromS w v) s = (wp s w = None)"
| "ptr_ok (WAssign w src) s = (w \<noteq> src \<or> \<not> last_weak w s)"
| "ptr_ok (WDestroy w) s = True"

fun ptr_run :: "ptr_op list \<Rightarrow> PtrState \<Rightarrow> PtrState kres" where
  "ptr_run [] s = Inr s"
| "ptr_run (x # xs) s = kbind (ptr_step x s) (ptr_run xs)"

fun ptr_adm :: "ptr_op list \<Rightarrow> PtrState \<Rightarrow> bool" where
  "ptr_adm [] s = True"
| "ptr_adm (x # xs) s = (ptr_ok x s \<and> (case ptr_step x s of Inl e \<Rightarrow> True | Inr s' \<Rightarrow> ptr_adm xs s'))"

definition ptr_empty :: PtrState where
  "ptr_empty = \<lparr> objs = {}, helpers = (\<lambda>_. None), sp = (\<lambda>_. None), wp = (\<lambda>_. None) \<rparr>"

lemma sptr_release_keeps: "sptr_release v s = Inr s' \<Longrightarrow> sp s' = sp s \<and> wp s' = wp s"
  by (auto simp: ptr_op_defs kres_simps Let_def split: option.splits if_splits prod.splits)

lemma sptr_copy_overwrites: "sptr_copy v p (set_sp v None s) = sptr_copy v p s"
  by (cases p) (auto simp: ptr_op_defs split: option.splits)

lemma wptr_release_keeps: "wptr_release v s = Inr s' \<Longrightarrow> sp s' = sp s \<and> wp s' = wp s"
  by (auto simp: ptr_op_defs kres_simps Let_def split: option.splits if_splits prod.splits)

lemma wptr_copy_overwrites: "wptr_copy v p (set_wp v None s) = wptr_copy v p s"
  by (cases p) (auto simp: ptr_op_defs split: option.splits)

lemma sptr_assign_split:
  "v \<noteq> src \<Longrightarrow> sptr_assign v src s = kbind (sptr_destroy v s) (\<lambda>s1. sptr_copy v (sp s1 src) s1)"
  by (cases "sptr_release v s")
    (simp_all add: sptr_assign_def sptr_destroy_def sptr_copy_overwrites, simp add: set_sp_def)

lemma wptr_assign_split:
  "w \<noteq> src \<Longrightarrow> wptr_assign w src s = kbind (wptr_destroy w s) (\<lambda>s1. wptr_copy w (wp s1 src) s1)"
  by (cases "wptr_release w s")
    (simp_all add: wptr_assign_def wptr_destroy_def wptr_copy_overwrites, simp add: set_wp_def)

text \<open>An assignment to itself that does not drop the last count changes nothing.\<close>

lemma sptr_assign_self:
  assumes "ptr_inv owner s" and "\<not> last_shared v s"
  shows "sptr_assign v v s = Inr s"
proof (cases "sp s v")
  case None
  then show ?thesis by (simp add: sptr_assign_def ptr_op_defs)
next
  case (Some p)
  obtain obj h where p: "sp s v = Some (obj, h)" using Some by (cases p) simp
  have "0 < refs (sp s) h" using refs_pos [OF ptr_inv_fin(1) [OF assms(1)] p] .
  then obtain k where "helpers s h = Some k" using refs_sp_pos_helper [OF assms(1)] by blast
  moreover from this have "shared_cnt k \<noteq> 1" using assms(2) p by (simp add: last_shared_def)
  ultimately show ?thesis using p by (simp add: sptr_assign_def ptr_op_defs fun_upd_idem)
qed

lemma wptr_assign_self:
  assumes "ptr_inv owner s" and "\<not> last_weak w s"
  shows "wptr_assign w w s = Inr s"
proof (cases "wp s w")
  case None
  then show ?thesis by (simp add: wptr_assign_def ptr_op_defs)
next
  case (Some p)
  obtain obj h where p: "wp s w = Some (obj, h)" using Some by (cases p) simp
  have "0 < refs (wp s) h" using refs_pos [OF ptr_inv_fin(2) [OF assms(1)] p] .
  then obtain k where "helpers s h = Some k" using ptr_inv_helper [OF assms(1), of h] by (auto simp: helper_ok_def)
  moreover from this have "weak_cnt k \<noteq> 1" using assms(2) p by (simp add: last_weak_def)
  ultimately show ?thesis using p by (simp add: wptr_assign_def ptr_op_defs fun_upd_idem)
qed

lemma sptr_assign_ok:
  assumes "ptr_inv owner s" and "v \<noteq> src \<or> \<not> last_shared v s"
  shows "\<exists>s'. sptr_assign v src s = Inr s' \<and> ptr_inv owner s'"
proof (cases "v = src")
  case True
  then show ?thesis using sptr_assign_self [OF assms(1), of v] assms by simp
next
  case False
  obtain s1 where s1: "sptr_destroy v s = Inr s1" "ptr_inv owner s1" "sp s1 = (sp s)(v := None)"
    using sptr_destroy_ok [OF assms(1), of v] by blast
  then show ?thesis
    using sptr_copy_any [of owner s1 v src] False by (simp add: sptr_assign_split)
qed

lemma wptr_assign_ok:
  assumes "ptr_inv owner s" and "w \<noteq> src \<or> \<not> last_weak w s"
  shows "\<exists>s'. wptr_assign w src s = Inr s' \<and> ptr_inv owner s'"
proof (cases "w = src")
  case True
  then show ?thesis using wptr_assign_self [OF assms(1), of w] assms by simp
next
  case False
  obtain s1 where s1: "wptr_destroy w s = Inr s1" "ptr_inv owner s1" "wp s1 = (wp s)(w := None)"
    using wptr_destroy_ok [OF assms(1), of w] by blast
  then show ?thesis
    using wptr_copy_any [of owner s1 w "wp s1 src" src] False by (simp add: wptr_assign_split)
qed

lemma ptr_step_ok:
  assumes "ptr_inv owner s" and "ptr_ok x s"
  shows "\<exists>s' owner'. ptr_step x s = Inr s' \<and> ptr_inv owner' s'"
proof (cases x)
  case (SNew v obj h)
  then show ?thesis using sptr_new_ok [OF assms(1), of v obj h] assms(2) by auto
next
  case (SCopy v src)
  then show ?thesis using sptr_copy_any [OF assms(1), of v src] assms(2) by auto
next
  case (SFromW v w)
  then show ?thesis using sptr_from_wptr_ok [OF assms(1), of v w] assms(2) by auto
next
  case (SAssign v src)
  then show ?thesis using sptr_assign_ok [OF assms(1), of v src] assms(2) by auto
next
  case (SDestroy v)
  then show ?thesis using sptr_destroy_ok [OF assms(1), of v] by auto
next
  case (WCopy w src)
  then show ?thesis using wptr_copy_any [OF assms(1), of w "wp s src" src] assms(2) by auto
next
  case (WFromS w v)
  then show ?thesis using wptr_copy_any [OF assms(1), of w "sp s v" v] assms(2) by auto
next
  case (WAssign w src)
  then show ?thesis using wptr_assign_ok [OF assms(1), of w src] assms(2) by auto
next
  case (WDestroy w)
  then show ?thesis using wptr_destroy_ok [OF assms(1), of w] by auto
qed

lemma ptr_run_ok:
  "ptr_inv owner s \<Longrightarrow> ptr_adm xs s \<Longrightarrow> \<exists>s' owner'. ptr_run xs s = Inr s' \<and> ptr_inv owner' s'"
proof (induction xs arbitrary: owner s)
  case (Cons x xs)
  obtain s1 owner1 where s1: "ptr_step x s = Inr s1" "ptr_inv owner1 s1"
    using ptr_step_ok [OF Cons.prems(1), of x] Cons.prems(2) by auto
  then show ?case using Cons.IH [OF s1(2)] Cons.prems(2) by simp
qed auto

lemma ptr_empty_inv: "ptr_inv owner ptr_empty"
  by (simp add: ptr_inv_def ptr_empty_def helper_ok_def refs_def)

lemma ptr_inv_objs_pointed:
  assumes "ptr_inv owner s"
  shows "objs s = {obj. \<exists>v h. sp s v = Some (obj, h)}"
proof -
  have pos: "0 < refs (sp s) h \<longleftrightarrow> (\<exists>v. sp s v = Some (owner h, h))" for h
    using refs_0_iff [OF ptr_inv_fin(1) [OF assms], of h] ptr_inv_owner(1) [OF assms, of _ _ h] by auto
  have "obj \<in> objs s \<longleftrightarrow> (\<exists>v h. sp s v = Some (obj, h))" for obj
    unfolding ptr_inv_objs(2) [OF assms] pos using ptr_inv_owner(1) [OF assms, of _ obj] by auto
  then show ?thesis by blast
qed

text \<open>C16: Take any sequence of constructions, copies, assignments, promotions and destructions of shared and
  weak pointers, one operation after the other, in which no pointer is assigned to itself while it holds the last
  count of its kind (the code is wrong there: it releases before it copies). It runs without touching a deleted
  object or helper. At its end the live objects are exactly
  those some shared pointer refers to (nothing leaks, nothing dangles), a helper exists exactly when some
  pointer of either kind refers to it, and its two counters are the numbers of references.\<close>

theorem pointers_count_references:
  assumes "ptr_adm ops ptr_empty"
  shows "\<exists>s. ptr_run ops ptr_empty = Inr s \<and> objs s = {obj. \<exists>v h. sp s v = Some (obj, h)} \<and>
    (\<forall>h. helpers s h = (if refs (sp s) h = 0 \<and> refs (wp s) h = 0 then None
       else Some \<lparr> weak_cnt = int (refs (wp s) h) + (if 0 < refs (sp s) h then 1 else 0),
         shared_cnt = int (refs (sp s) h) \<rparr>))"
proof -
  obtain s owner where s: "ptr_run ops ptr_empty = Inr s" "ptr_inv owner s"
    using ptr_run_ok [OF ptr_empty_inv [of id] assms] by blast
  have "helpers s h = (if refs (sp s) h = 0 \<and> refs (wp s) h = 0 then None
       else Some \<lparr> weak_cnt = int (refs (wp s) h) + (if 0 < refs (sp s) h then 1 else 0),
         shared_cnt = int (refs (sp s) h) \<rparr>)" for h
    using ptr_inv_helper [OF s(2), of h] by (simp add: helper_ok_def)
  then show ?thesis using s(1) ptr_inv_objs_pointed [OF s(2)] by blast
qed

definition ptr_demo :: "ptr_op list" where
  "ptr_demo = [SNew 0 100 7, WFromS 0 0, SCopy 1 0, SDestroy 0, SFromW 2 0, SNew 0 101 8, SAssign 1 0,
     SDestroy 2, SFromW 2 0, SAssign 0 0, SDestroy 1, WDestroy 0]"

theorem pointers_count_references_witness:
  "ptr_adm ptr_demo ptr_empty \<and>
   (\<exists>s. ptr_run ptr_demo ptr_empty = Inr s \<and> objs s = {obj. \<exists>v h. sp s v = Some (obj, h)} \<and>
    objs s = {101} \<and> helpers s 7 = None)"
proof -
  note defs = ptr_demo_def ptr_empty_def ptr_op_defs sptr_assign_def last_shared_def
  have adm: "ptr_adm ptr_demo ptr_empty"
    by (simp add: defs)
  obtain s where s: "ptr_run ptr_demo ptr_empty = Inr s" "objs s = {obj. \<exists>v h. sp s v = Some (obj, h)}"
    using pointers_count_references [OF adm] by blast
  have "objs s = {101} \<and> helpers s 7 = None"
    using s(1) by (auto simp: defs)
  then show ?thesis using adm s by blast
qed

text \<open>Assignment of a shared pointer to itself releases it before it is copied: when it is the only
  reference the assignment uses the deleted helper, and when a weak pointer keeps the helper alive the
  result is a shared pointer, with count one, to a deleted object.\<close>

theorem sptr_self_assignment:
  "ptr_run [SNew v obj h, SAssign v v] ptr_empty = Inl Use_After_Free \<and>
   (\<exists>s. ptr_run [SNew v obj h, WFromS w v, SAssign v v] ptr_empty = Inr s \<and>
      sp s v = Some (obj, h) \<and> obj \<notin> objs s \<and> GetCnt v s = Inr 1)"
  by (simp add: ptr_empty_def ptr_op_defs sptr_assign_def GetCnt_def)

section \<open>Unique pointers\<close>

record UptrState =
  uobjs :: "nat set"
  up :: "nat \<Rightarrow> nat option"

definition uptr_delete :: "nat option \<Rightarrow> UptrState \<Rightarrow> UptrState kres" where
  "uptr_delete p s = (case p of None \<Rightarrow> Inr s
     | Some obj \<Rightarrow> if obj \<in> uobjs s then Inr (s \<lparr> uobjs := uobjs s - {obj} \<rparr>) else Inl Use_After_Free)"

definition uptr_new :: "nat \<Rightarrow> nat \<Rightarrow> UptrState \<Rightarrow> UptrState" where
  "uptr_new v obj s = s \<lparr> uobjs := insert obj (uobjs s), up := (up s)(v \<mapsto> obj) \<rparr>"

definition uptr_copy :: "nat \<Rightarrow> nat \<Rightarrow> UptrState \<Rightarrow> UptrState" where
  "uptr_copy v src s = s \<lparr> up := (up s)(v := up s src, src := None) \<rparr>"

definition uptr_assign :: "nat \<Rightarrow> nat \<Rightarrow> UptrState \<Rightarrow> UptrState kres" where
  "uptr_assign v src s = kbind (uptr_delete (up s v) s) (\<lambda>s1. Inr (
     case up s1 src of
       Some obj \<Rightarrow> s1 \<lparr> up := (up s1)(v := Some obj, src := None) \<rparr>
     | None \<Rightarrow> s1 \<lparr> up := (up s1)(v := None) \<rparr>))"

definition uptr_destroy :: "nat \<Rightarrow> UptrState \<Rightarrow> UptrState kres" where
  "uptr_destroy v s = kmap (\<lambda>s1. s1 \<lparr> up := (up s1)(v := None) \<rparr>) (uptr_delete (up s v) s)"

definition uptr_GetRawPtr :: "nat \<Rightarrow> UptrState \<Rightarrow> nat kres" where
  "uptr_GetRawPtr v s = (case up s v of None \<Rightarrow> Inl Kassert | Some obj \<Rightarrow> Inr obj)"

datatype uptr_op = UNew nat nat | UCopy nat nat | UAssign nat nat | UDestroy nat

fun uptr_step :: "uptr_op \<Rightarrow> UptrState \<Rightarrow> UptrState kres" where
  "uptr_step (UNew v obj) s = Inr (uptr_new v obj s)"
| "uptr_step (UCopy v src) s = Inr (uptr_copy v src s)"
| "uptr_step (UAssign v src) s = uptr_assign v src s"
| "uptr_step (UDestroy v) s = uptr_destroy v s"

fun uptr_ok :: "uptr_op \<Rightarrow> UptrState \<Rightarrow> bool" where
  "uptr_ok (UNew v obj) s = (up s v = None \<and> obj \<notin> uobjs s)"
| "uptr_ok (UCopy v src) s = (up s v = None)"
| "uptr_ok (UAssign v src) s = True"
| "uptr_ok (UDestroy v) s = True"

fun uptr_run :: "uptr_op list \<Rightarrow> UptrState \<Rightarrow> UptrState kres" where
  "uptr_run [] s = Inr s"
| "uptr_run (x # xs) s = kbind (uptr_step x s) (uptr_run xs)"

fun uptr_adm :: "uptr_op list \<Rightarrow> UptrState \<Rightarrow> bool" where
  "uptr_adm [] s = True"
| "uptr_adm (x # xs) s = (uptr_ok x s \<and> (case uptr_step x s of Inl e \<Rightarrow> True | Inr s' \<Rightarrow> uptr_adm xs s'))"

definition uptr_inv :: "UptrState \<Rightarrow> bool" where
  "uptr_inv s \<longleftrightarrow> inj_on (up s) (dom (up s)) \<and> uobjs s = ran (up s)"

lemma uptr_invI:
  assumes "\<And>v w obj. up s v = Some obj \<Longrightarrow> up s w = Some obj \<Longrightarrow> v = w"
    and "\<And>obj. obj \<in> uobjs s \<longleftrightarrow> (\<exists>v. up s v = Some obj)"
  shows "uptr_inv s"
  using assms by (auto simp: uptr_inv_def inj_on_def ran_def dom_def)

lemma uptr_invD:
  assumes "uptr_inv s"
  shows "up s v = Some obj \<Longrightarrow> up s w = Some obj \<Longrightarrow> v = w"
    and "obj \<in> uobjs s \<longleftrightarrow> (\<exists>v. up s v = Some obj)"
  using assms by (auto simp: uptr_inv_def inj_on_def ran_def dom_def)

lemma uptr_destroy_ok:
  assumes "uptr_inv s"
  shows "\<exists>s'. uptr_destroy v s = Inr s' \<and> uptr_inv s' \<and> up s' = (up s)(v := None)"
proof (cases "up s v")
  case None
  then show ?thesis using assms by (simp add: uptr_destroy_def uptr_delete_def fun_upd_idem)
next
  case (Some obj)
  then have "obj \<in> uobjs s" using uptr_invD(2) [OF assms] by blast
  moreover have "uptr_inv (s \<lparr> uobjs := uobjs s - {obj}, up := (up s)(v := None) \<rparr>)"
    using uptr_invD [OF assms] Some by (intro uptr_invI) (auto split: if_splits, metis option.inject)
  ultimately show ?thesis using Some by (simp add: uptr_destroy_def uptr_delete_def)
qed

lemma uptr_copy_ok:
  assumes "uptr_inv s" and "up s v = None"
  shows "uptr_inv (uptr_copy v src s)"
proof (cases "up s src")
  case None
  then show ?thesis using assms by (simp add: uptr_copy_def fun_upd_idem)
next
  case (Some b)
  have "v \<noteq> src" using assms(2) Some by auto
  have ex: "(\<exists>u. (up (uptr_copy v src s)) u = Some obj) \<longleftrightarrow> (\<exists>u. up s u = Some obj)" for obj
  proof
    assume "\<exists>u. up s u = Some obj"
    then obtain u where u: "up s u = Some obj" ..
    then have "up (uptr_copy v src s) (if u = src then v else u) = Some obj"
      using assms(2) \<open>v \<noteq> src\<close> by (auto simp: uptr_copy_def)
    then show "\<exists>u. (up (uptr_copy v src s)) u = Some obj" ..
  qed (auto simp: uptr_copy_def split: if_splits)
  have uniq: "u = w" if "up (uptr_copy v src s) u = Some obj" "up (uptr_copy v src s) w = Some obj" for u w obj
    using that uptr_invD(1) [OF assms(1), of _ obj] by (auto simp: uptr_copy_def split: if_splits)
  have "uobjs (uptr_copy v src s) = uobjs s" by (simp add: uptr_copy_def)
  then show ?thesis by (intro uptr_invI uniq) (simp_all only: ex uptr_invD(2) [OF assms(1)])
qed

lemma uptr_assign_split:
  assumes "v \<noteq> src"
  shows "uptr_assign v src s = kmap (uptr_copy v src) (uptr_destroy v s)"
proof (cases "uptr_delete (up s v) s")
  case (Inr s1)
  then show ?thesis using assms
    by (cases "up s1 src") (simp_all add: uptr_assign_def uptr_destroy_def uptr_copy_def fun_upd_idem)
qed (simp add: uptr_assign_def uptr_destroy_def)

lemma uptr_assign_self: "uptr_assign v v s = uptr_destroy v s"
proof (cases "uptr_delete (up s v) s")
  case (Inr s1)
  then show ?thesis by (cases "up s1 v") (simp_all add: uptr_assign_def uptr_destroy_def)
qed (simp add: uptr_assign_def uptr_destroy_def)

lemma uptr_assign_ok:
  assumes "uptr_inv s"
  shows "\<exists>s'. uptr_assign v src s = Inr s' \<and> uptr_inv s'"
proof -
  obtain s1 where s1: "uptr_destroy v s = Inr s1" "uptr_inv s1" "up s1 = (up s)(v := None)"
    using uptr_destroy_ok [OF assms, of v] by blast
  show ?thesis
  proof (cases "v = src")
    case True
    then show ?thesis using s1 by (simp add: uptr_assign_self)
  next
    case False
    then show ?thesis using s1 uptr_copy_ok [of s1 v src] by (simp add: uptr_assign_split)
  qed
qed

lemma uptr_new_ok: "uptr_inv s \<Longrightarrow> up s v = None \<Longrightarrow> obj \<notin> uobjs s \<Longrightarrow> uptr_inv (uptr_new v obj s)"
  using uptr_invD [of s] by (intro uptr_invI) (auto simp: uptr_new_def split: if_splits, metis option.distinct(1))

lemma uptr_step_ok:
  assumes "uptr_inv s" and "uptr_ok x s"
  shows "\<exists>s'. uptr_step x s = Inr s' \<and> uptr_inv s'"
  using assms uptr_new_ok [OF assms(1)] uptr_copy_ok [OF assms(1)] uptr_assign_ok [OF assms(1)]
    uptr_destroy_ok [OF assms(1)] by (cases x) (auto, blast)

lemma uptr_run_ok: "uptr_inv s \<Longrightarrow> uptr_adm xs s \<Longrightarrow> \<exists>s'. uptr_run xs s = Inr s' \<and> uptr_inv s'"
proof (induction xs arbitrary: s)
  case (Cons x xs)
  obtain s1 where s1: "uptr_step x s = Inr s1" "uptr_inv s1"
    using uptr_step_ok [OF Cons.prems(1), of x] Cons.prems(2) by auto
  then show ?case using Cons.IH [OF s1(2)] Cons.prems(2) by simp
qed simp

definition uptr_empty :: UptrState where
  "uptr_empty = \<lparr> uobjs = {}, up = (\<lambda>_. None) \<rparr>"

text \<open>Every program over unique pointers, self-assignment included, runs without deleting an object
  twice, and at its end every live object is owned by exactly one unique pointer and no unique pointer
  refers to a deleted object.\<close>

theorem uptr_owns_uniquely:
  assumes "uptr_adm ops uptr_empty"
  shows "\<exists>s. uptr_run ops uptr_empty = Inr s \<and> (\<forall>obj. obj \<in> uobjs s \<longleftrightarrow> (\<exists>!v. up s v = Some obj)) \<and>
    (\<forall>v obj. up s v = Some obj \<longrightarrow> obj \<in> uobjs s)"
proof -
  have "uptr_inv uptr_empty" by (simp add: uptr_inv_def uptr_empty_def)
  then obtain s where s: "uptr_run ops uptr_empty = Inr s" "uptr_inv s"
    using uptr_run_ok [OF _ assms] by blast
  then show ?thesis using uptr_invD [OF s(2)] by blast
qed

theorem uptr_owns_uniquely_witness:
  "uptr_adm [UNew 0 5, UCopy 1 0, UNew 0 6, UAssign 1 0, UAssign 1 1] uptr_empty \<and>
   (\<exists>s. uptr_run [UNew 0 5, UCopy 1 0, UNew 0 6, UAssign 1 0, UAssign 1 1] uptr_empty = Inr s \<and>
     (\<forall>obj. obj \<in> uobjs s \<longleftrightarrow> (\<exists>!v. up s v = Some obj)) \<and> uobjs s = {})"
proof -
  note defs = uptr_empty_def uptr_new_def uptr_copy_def uptr_assign_def uptr_delete_def
  have adm: "uptr_adm [UNew 0 5, UCopy 1 0, UNew 0 6, UAssign 1 0, UAssign 1 1] uptr_empty"
    by (simp add: defs)
  show ?thesis using uptr_owns_uniquely [OF adm] adm by (auto simp: defs)
qed

end
