(* ===== verification/Cpus.thy ===== *)
theory Cpus
  imports Raph_Prelude
begin

text \<open>
  \<open>CpuCtrl\<close> of \<open>cpu.h\<close> and \<open>cpu.cc\<close>: which processor serves which purpose and how many
  users each has. The number of processors that \<open>apic_ctrl\<close> reports is the length
  of the two arrays.
\<close>

datatype CpuPurpose = kNone | kLowPriority | kGeneralPurpose | kHighPerformance

record CpuCtrl =
  cpu_purpose_map :: "CpuPurpose list"
  cpu_purpose_count :: "int list"

definition kCpuIdBootProcessor :: nat where "kCpuIdBootProcessor = 0"

definition GetHowManyCpus :: "CpuCtrl \<Rightarrow> nat" where
  "GetHowManyCpus s = length (cpu_purpose_map s)"

definition CpuCtrl_Init :: "nat \<Rightarrow> CpuCtrl" where
  "CpuCtrl_Init n = \<lparr>
     cpu_purpose_map = map (\<lambda>i. if i = 0 then kLowPriority else kNone) [0..<n],
     cpu_purpose_count = map (\<lambda>i. 0) [0..<n] \<rparr>"

text \<open>The loops run over \<open>i\<close>, \<open>i + 1\<close>, \<open>\<dots>\<close>, \<open>i + n - 1\<close>; \<open>None\<close> is \<open>kCpuIdNotFound\<close>.\<close>

fun not_assigned_loop :: "CpuPurpose list \<Rightarrow> nat \<Rightarrow> nat \<Rightarrow> nat option" where
  "not_assigned_loop m i 0 = None"
| "not_assigned_loop m i (Suc n) = (if m ! i = kNone then Some i else not_assigned_loop m (Suc i) n)"

definition GetCpuIdNotAssigned :: "CpuCtrl \<Rightarrow> nat option" where
  "GetCpuIdNotAssigned s = not_assigned_loop (cpu_purpose_map s) 0 (GetHowManyCpus s)"

fun less_assigned_loop :: "CpuPurpose \<Rightarrow> CpuPurpose list \<Rightarrow> int list \<Rightarrow> nat \<Rightarrow> nat \<Rightarrow> int \<Rightarrow> nat option \<Rightarrow> nat option" where
  "less_assigned_loop p m c i 0 minCount minId = minId"
| "less_assigned_loop p m c i (Suc n) minCount minId =
     (if m ! i = p \<and> (minCount = -1 \<or> c ! i < minCount)
      then less_assigned_loop p m c (Suc i) n (c ! i) (Some i)
      else less_assigned_loop p m c (Suc i) n minCount minId)"

definition GetCpuIdLessAssignedFor :: "CpuPurpose \<Rightarrow> CpuCtrl \<Rightarrow> nat option" where
  "GetCpuIdLessAssignedFor p s =
     less_assigned_loop p (cpu_purpose_map s) (cpu_purpose_count s) 0 (GetHowManyCpus s) (-1) None"

definition RetainCpuId :: "nat \<Rightarrow> CpuPurpose \<Rightarrow> CpuCtrl \<Rightarrow> CpuCtrl" where
  "RetainCpuId cpuid p s = (let
     s1 = (if cpu_purpose_map s ! cpuid \<noteq> p
           then s \<lparr> cpu_purpose_map := (cpu_purpose_map s)[cpuid := p],
                    cpu_purpose_count := (cpu_purpose_count s)[cpuid := 0] \<rparr> else s)
   in s1 \<lparr> cpu_purpose_count := (cpu_purpose_count s1)[cpuid := cpu_purpose_count s1 ! cpuid + 1] \<rparr>)"

definition RetainCpuIdForPurpose :: "CpuPurpose \<Rightarrow> CpuCtrl \<Rightarrow> nat \<times> CpuCtrl" where
  "RetainCpuIdForPurpose p s = (if p = kLowPriority then (kCpuIdBootProcessor, s)
     else case GetCpuIdNotAssigned s of
       Some i \<Rightarrow> (i, RetainCpuId i p s)
     | None \<Rightarrow> (case GetCpuIdLessAssignedFor p s of
         Some i \<Rightarrow> (i, RetainCpuId i p s)
       | None \<Rightarrow> (kCpuIdBootProcessor, s)))"

definition ReleaseCpuId :: "nat \<Rightarrow> CpuCtrl \<Rightarrow> CpuCtrl" where
  "ReleaseCpuId i s = (let
     s1 = (if cpu_purpose_count s ! i > 0
           then s \<lparr> cpu_purpose_count := (cpu_purpose_count s)[i := cpu_purpose_count s ! i - 1] \<rparr> else s)
   in if cpu_purpose_count s1 ! i = 0 then s1 \<lparr> cpu_purpose_map := (cpu_purpose_map s1)[i := kNone] \<rparr> else s1)"

fun assign_loop :: "nat \<Rightarrow> nat \<Rightarrow> CpuCtrl \<Rightarrow> CpuCtrl" where
  "assign_loop i 0 s = s"
| "assign_loop i (Suc n) s = assign_loop (Suc i) n
     (if cpu_purpose_map s ! i = kNone then RetainCpuId i kGeneralPurpose s else s)"

definition AssignCpusNotAssignedToGeneralPurpose :: "CpuCtrl \<Rightarrow> CpuCtrl" where
  "AssignCpusNotAssignedToGeneralPurpose s = assign_loop 0 (GetHowManyCpus s) s"

section \<open>What the searches find\<close>

lemma not_assigned_loop_Some:
  "not_assigned_loop m i n = Some j \<Longrightarrow> i \<le> j \<and> j < i + n \<and> m ! j = kNone \<and> (\<forall>k. i \<le> k \<and> k < j \<longrightarrow> m ! k \<noteq> kNone)"
proof (induction n arbitrary: i)
  case (Suc n)
  show ?case
  proof (cases "m ! i = kNone")
    case False
    then have "not_assigned_loop m (Suc i) n = Some j" using Suc.prems by simp
    from Suc.IH [OF this] show ?thesis using False by (auto simp: le_less_Suc_eq Suc_le_eq nat_less_le)
  qed (use Suc.prems in auto)
qed simp

lemma not_assigned_loop_None: "not_assigned_loop m i n = None \<Longrightarrow> i \<le> k \<Longrightarrow> k < i + n \<Longrightarrow> m ! k \<noteq> kNone"
proof (induction n arbitrary: i)
  case (Suc n)
  then show ?case by (cases "k = i") (auto split: if_splits)
qed simp

text \<open>State of the search for the least used processor after the processors below \<open>i\<close>.\<close>

definition min_upto :: "CpuPurpose \<Rightarrow> CpuPurpose list \<Rightarrow> int list \<Rightarrow> nat \<Rightarrow> int \<Rightarrow> nat option \<Rightarrow> bool" where
  "min_upto p m c i cnt found \<longleftrightarrow> (case found of
       None \<Rightarrow> cnt = -1 \<and> (\<forall>k < i. m ! k \<noteq> p)
     | Some j \<Rightarrow> j < i \<and> m ! j = p \<and> cnt = c ! j \<and> (\<forall>k < i. m ! k = p \<longrightarrow> c ! j \<le> c ! k))"

lemma less_assigned_loop_min:
  assumes "\<forall>k < i + n. 0 \<le> c ! k" and "min_upto p m c i cnt found"
  shows "\<exists>cnt'. min_upto p m c (i + n) cnt' (less_assigned_loop p m c i n cnt found)"
  using assms
proof (induction n arbitrary: i cnt found)
  case (Suc n)
  have "cnt \<noteq> -1" if "found = Some a" for a
  proof -
    have "a < i" "cnt = c ! a" using Suc.prems(2) that by (auto simp: min_upto_def)
    moreover have "0 \<le> c ! a" using Suc.prems(1) \<open>a < i\<close> by simp
    ultimately show ?thesis by simp
  qed
  then have "min_upto p m c (Suc i) (c ! i) (Some i)" if "m ! i = p \<and> (cnt = -1 \<or> c ! i < cnt)"
    using Suc.prems that by (cases found) (auto simp: min_upto_def less_Suc_eq)
  moreover have "min_upto p m c (Suc i) cnt found" if "\<not> (m ! i = p \<and> (cnt = -1 \<or> c ! i < cnt))"
    using Suc.prems that by (cases found) (auto simp: min_upto_def less_Suc_eq)
  ultimately show ?case
    using Suc.IH [of "Suc i" "c ! i" "Some i"] Suc.IH [of "Suc i" cnt found] Suc.prems(1) by simp
qed auto

section \<open>Invariant\<close>

text \<open>A processor is unassigned exactly when it has no users; the boot processor serves low priority.\<close>

definition cpu_inv :: "CpuCtrl \<Rightarrow> bool" where
  "cpu_inv s \<longleftrightarrow> length (cpu_purpose_count s) = GetHowManyCpus s \<and> 0 < GetHowManyCpus s \<and>
     cpu_purpose_map s ! 0 = kLowPriority \<and> cpu_purpose_count s ! 0 = 0 \<and>
     (\<forall>i < GetHowManyCpus s. 0 < i \<longrightarrow> 0 \<le> cpu_purpose_count s ! i \<and> cpu_purpose_map s ! i \<noteq> kLowPriority \<and>
        (cpu_purpose_map s ! i = kNone \<longleftrightarrow> cpu_purpose_count s ! i = 0))"

lemma cpu_invD:
  assumes "cpu_inv s"
  shows "length (cpu_purpose_count s) = length (cpu_purpose_map s)" "0 < length (cpu_purpose_map s)"
    "cpu_purpose_map s ! 0 = kLowPriority" "cpu_purpose_count s ! 0 = 0"
    "i < length (cpu_purpose_map s) \<Longrightarrow> 0 \<le> cpu_purpose_count s ! i"
    "i < length (cpu_purpose_map s) \<Longrightarrow> 0 < i \<Longrightarrow> cpu_purpose_map s ! i \<noteq> kLowPriority"
    "i < length (cpu_purpose_map s) \<Longrightarrow> 0 < i \<Longrightarrow> cpu_purpose_map s ! i = kNone \<longleftrightarrow> cpu_purpose_count s ! i = 0"
  using assms by (cases "i = 0"; auto simp: cpu_inv_def GetHowManyCpus_def)+

lemma CpuCtrl_Init_inv: "0 < n \<Longrightarrow> cpu_inv (CpuCtrl_Init n)"
  by (simp add: cpu_inv_def CpuCtrl_Init_def GetHowManyCpus_def)

lemma NotAssigned_Some:
  assumes "cpu_inv s" and "GetCpuIdNotAssigned s = Some i"
  shows "0 < i \<and> i < GetHowManyCpus s \<and> cpu_purpose_map s ! i = kNone \<and> (\<forall>k < i. cpu_purpose_map s ! k \<noteq> kNone)"
  using not_assigned_loop_Some [OF assms(2) [unfolded GetCpuIdNotAssigned_def]] cpu_invD(3) [OF assms(1)]
  by (auto intro: gr0I)

lemma NotAssigned_None:
  "GetCpuIdNotAssigned s = None \<Longrightarrow> k < GetHowManyCpus s \<Longrightarrow> cpu_purpose_map s ! k \<noteq> kNone"
  using not_assigned_loop_None [of "cpu_purpose_map s" 0 "GetHowManyCpus s" k] by (simp add: GetCpuIdNotAssigned_def)

lemma LessAssigned_min:
  assumes "cpu_inv s"
  shows "\<exists>cnt. min_upto p (cpu_purpose_map s) (cpu_purpose_count s) (GetHowManyCpus s) cnt (GetCpuIdLessAssignedFor p s)"
  using less_assigned_loop_min [of 0 "GetHowManyCpus s" "cpu_purpose_count s" p "cpu_purpose_map s" "-1" None]
    cpu_invD(5) [OF assms]
  by (simp add: GetCpuIdLessAssignedFor_def GetHowManyCpus_def min_upto_def)

lemma RetainCpuId_eq:
  assumes "cpu_inv s" and "i < GetHowManyCpus s" and "cpu_purpose_map s ! i = kNone \<or> cpu_purpose_map s ! i = p"
    and "0 < i"
  shows "RetainCpuId i p s = s \<lparr> cpu_purpose_map := (cpu_purpose_map s)[i := p],
    cpu_purpose_count := (cpu_purpose_count s)[i := cpu_purpose_count s ! i + 1] \<rparr>"
  using assms cpu_invD(1) [OF assms(1)] cpu_invD(7) [OF assms(1), of i]
  by (cases s; cases "cpu_purpose_map s ! i = p")
    (auto simp: RetainCpuId_def Let_def GetHowManyCpus_def list_update_same_conv, metis list_update_id)

lemma RetainCpuId_inv:
  assumes "cpu_inv s" and "i < GetHowManyCpus s" and "cpu_purpose_map s ! i = kNone \<or> cpu_purpose_map s ! i = p"
    and "0 < i" and "p \<noteq> kNone" and "p \<noteq> kLowPriority"
  shows "cpu_inv (RetainCpuId i p s)"
  unfolding RetainCpuId_eq [OF assms(1-4)]
  using assms cpu_invD(1) [OF assms(1)] cpu_invD(5) [OF assms(1), of i]
  by (auto simp: cpu_inv_def GetHowManyCpus_def nth_list_update)

lemma Release_Retain:
  assumes "cpu_inv s" and "i < GetHowManyCpus s" and "cpu_purpose_map s ! i = kNone \<or> cpu_purpose_map s ! i = p"
    and "0 < i" and "p \<noteq> kNone"
  shows "ReleaseCpuId i (RetainCpuId i p s) = s"
  unfolding RetainCpuId_eq [OF assms(1-4)]
  using assms cpu_invD(1) [OF assms(1)] cpu_invD(5,7) [OF assms(1), of i]
  by (cases s) (auto simp: ReleaseCpuId_def GetHowManyCpus_def Let_def list_update_same_conv)

text \<open>A processor is retained for a purpose in the documented order: the first unassigned one; if there
  is none, the one with the fewest users among those that already serve the purpose; else the boot
  processor, uncounted. The chosen processor is counted once more and no other entry changes.\<close>

theorem RetainCpuIdForPurpose_picks:
  assumes "cpu_inv s" and "p \<noteq> kNone" and "p \<noteq> kLowPriority" and "RetainCpuIdForPurpose p s = (i, s')"
  shows "cpu_inv s' \<and> i < GetHowManyCpus s \<and>
    (if \<exists>k < GetHowManyCpus s. cpu_purpose_map s ! k = kNone
     then cpu_purpose_map s ! i = kNone \<and> (\<forall>k < i. cpu_purpose_map s ! k \<noteq> kNone)
     else if \<exists>k < GetHowManyCpus s. cpu_purpose_map s ! k = p
     then cpu_purpose_map s ! i = p \<and>
       (\<forall>k < GetHowManyCpus s. cpu_purpose_map s ! k = p \<longrightarrow> cpu_purpose_count s ! i \<le> cpu_purpose_count s ! k)
     else i = kCpuIdBootProcessor) \<and>
    (if i = kCpuIdBootProcessor then s' = s
     else s' = s \<lparr> cpu_purpose_map := (cpu_purpose_map s)[i := p],
                  cpu_purpose_count := (cpu_purpose_count s)[i := cpu_purpose_count s ! i + 1] \<rparr>)"
proof (cases "GetCpuIdNotAssigned s")
  case (Some j)
  have j: "0 < j" "j < GetHowManyCpus s" "cpu_purpose_map s ! j = kNone" "\<forall>k < j. cpu_purpose_map s ! k \<noteq> kNone"
    using NotAssigned_Some [OF assms(1) Some] by auto
  have eq: "i = j" "s' = RetainCpuId j p s"
    using assms(3,4) Some by (auto simp: RetainCpuIdForPurpose_def)
  show ?thesis unfolding eq
    using j RetainCpuId_inv [OF assms(1) j(2) _ j(1) assms(2,3)] RetainCpuId_eq [OF assms(1) j(2) _ j(1), of p]
    by (auto simp: kCpuIdBootProcessor_def)
next
  case None
  then have none: "\<not> (\<exists>k < GetHowManyCpus s. cpu_purpose_map s ! k = kNone)" using NotAssigned_None by blast
  obtain cnt where min: "min_upto p (cpu_purpose_map s) (cpu_purpose_count s) (GetHowManyCpus s) cnt (GetCpuIdLessAssignedFor p s)"
    using LessAssigned_min [OF assms(1)] by blast
  show ?thesis
  proof (cases "GetCpuIdLessAssignedFor p s")
    case N: None
    have "i = 0" "s' = s" using assms(3,4) None N by (simp_all add: RetainCpuIdForPurpose_def kCpuIdBootProcessor_def)
    moreover have "\<not> (\<exists>k < GetHowManyCpus s. cpu_purpose_map s ! k = p)" using min N by (simp add: min_upto_def)
    ultimately show ?thesis
      using none assms(1) cpu_invD(2) [OF assms(1)] by (simp add: kCpuIdBootProcessor_def GetHowManyCpus_def)
  next
    case (Some j)
    have j: "j < GetHowManyCpus s" "cpu_purpose_map s ! j = p"
      "\<forall>k < GetHowManyCpus s. cpu_purpose_map s ! k = p \<longrightarrow> cpu_purpose_count s ! j \<le> cpu_purpose_count s ! k"
      using min Some by (simp_all add: min_upto_def)
    have j0: "0 < j" using j(2) cpu_invD(3) [OF assms(1)] assms(3) by (auto intro: gr0I)
    have eq: "i = j" "s' = RetainCpuId j p s"
      using assms(3,4) None Some by (auto simp: RetainCpuIdForPurpose_def)
    show ?thesis unfolding eq
      using none j j0 RetainCpuId_inv [OF assms(1) j(1) _ j0 assms(2,3)] RetainCpuId_eq [OF assms(1) j(1) _ j0, of p]
      by (auto simp: kCpuIdBootProcessor_def)
  qed
qed

definition cpus_demo :: CpuCtrl where
  "cpus_demo = \<lparr> cpu_purpose_map = [kLowPriority, kHighPerformance, kGeneralPurpose, kHighPerformance],
     cpu_purpose_count = [0, 2, 1, 1] \<rparr>"

theorem RetainCpuIdForPurpose_picks_witness:
  "cpu_inv cpus_demo \<and> RetainCpuIdForPurpose kHighPerformance cpus_demo =
     (3, \<lparr> cpu_purpose_map = [kLowPriority, kHighPerformance, kGeneralPurpose, kHighPerformance],
           cpu_purpose_count = [0, 2, 1, 2] \<rparr>) \<and>
   cpu_inv (snd (RetainCpuIdForPurpose kHighPerformance cpus_demo))"
proof -
  have inv: "cpu_inv cpus_demo"
    by (auto simp: cpu_inv_def cpus_demo_def GetHowManyCpus_def less_Suc_eq numeral_eq_Suc)
  have r: "RetainCpuIdForPurpose kHighPerformance cpus_demo =
     (3, \<lparr> cpu_purpose_map = [kLowPriority, kHighPerformance, kGeneralPurpose, kHighPerformance],
           cpu_purpose_count = [0, 2, 1, 2] \<rparr>)"
    by code_simp
  show ?thesis using RetainCpuIdForPurpose_picks [OF inv _ _ r] inv r by simp
qed

text \<open>Releasing a processor retained for a purpose restores the state before it was retained, unless it
  is the boot processor.\<close>

theorem Retain_Release_roundtrip:
  assumes "cpu_inv s" and "p \<noteq> kNone" and "p \<noteq> kLowPriority" and "RetainCpuIdForPurpose p s = (i, s')"
    and "i \<noteq> kCpuIdBootProcessor"
  shows "ReleaseCpuId i s' = s"
proof (cases "GetCpuIdNotAssigned s")
  case (Some j)
  have j: "0 < j" "j < GetHowManyCpus s" "cpu_purpose_map s ! j = kNone"
    using NotAssigned_Some [OF assms(1) Some] by auto
  have "i = j" "s' = RetainCpuId j p s" using assms(3,4) Some by (auto simp: RetainCpuIdForPurpose_def)
  then show ?thesis using Release_Retain [OF assms(1) j(2) _ j(1) assms(2)] j(3) by simp
next
  case None
  then obtain j where j: "GetCpuIdLessAssignedFor p s = Some j" "i = j" "s' = RetainCpuId j p s"
    using assms(3,4,5) by (auto simp: RetainCpuIdForPurpose_def split: option.splits)
  have "j < GetHowManyCpus s" "cpu_purpose_map s ! j = p"
    using LessAssigned_min [OF assms(1), of p] j(1) by (auto simp: min_upto_def)
  then show ?thesis using Release_Retain [OF assms(1), of j p] assms(2,5) j by (simp add: kCpuIdBootProcessor_def)
qed

theorem Retain_Release_roundtrip_witness:
  "RetainCpuIdForPurpose kHighPerformance cpus_demo = (3, snd (RetainCpuIdForPurpose kHighPerformance cpus_demo)) \<and>
   ReleaseCpuId 3 (snd (RetainCpuIdForPurpose kHighPerformance cpus_demo)) = cpus_demo"
proof -
  have inv: "cpu_inv cpus_demo"
    by (auto simp: cpu_inv_def cpus_demo_def GetHowManyCpus_def less_Suc_eq numeral_eq_Suc)
  have r: "RetainCpuIdForPurpose kHighPerformance cpus_demo = (3, snd (RetainCpuIdForPurpose kHighPerformance cpus_demo))"
    by code_simp
  show ?thesis using Retain_Release_roundtrip [OF inv _ _ r] r by (simp add: kCpuIdBootProcessor_def)
qed

text \<open>Releasing the boot processor after retaining it for low priority takes away its fixed purpose: the
  next request for another purpose is given the boot processor even when other processors are free.\<close>

theorem Release_boot_processor:
  "fst (RetainCpuIdForPurpose kLowPriority (CpuCtrl_Init (Suc n))) = 0 \<and>
   (let s = ReleaseCpuId 0 (snd (RetainCpuIdForPurpose kLowPriority (CpuCtrl_Init (Suc n))))
    in fst (RetainCpuIdForPurpose kHighPerformance s) = 0 \<and>
       cpu_purpose_map (snd (RetainCpuIdForPurpose kHighPerformance s)) ! 0 = kHighPerformance)"
  by (simp add: RetainCpuIdForPurpose_def ReleaseCpuId_def CpuCtrl_Init_def GetCpuIdNotAssigned_def
      GetHowManyCpus_def RetainCpuId_def kCpuIdBootProcessor_def Let_def map_upt_Suc del: upt_Suc)

end
