(* ===== verification/Timers.thy ===== *)
theory Timers
  imports Raph_Prelude
begin

unbundle bit_operations_syntax

text \<open>
  \<open>Timer\<close> of \<open>timer.h\<close> and its implementation \<open>Hpet\<close> of \<open>dev/hpet.cc\<close>. The registers of
  the HPET are a memory of 64-bit words in which a write is read back. What the
  ACPI tables, the interrupt table and the interrupt controller answer are
  arguments.
\<close>

section \<open>Time arithmetic\<close>

definition GetCntAfterPeriod :: "u64 \<Rightarrow> u64 \<Rightarrow> int \<Rightarrow> u64" where
  "GetCntAfterPeriod cnt_clk_period cur us = cur + word_of_int (us * 1000) div cnt_clk_period"

definition IsGreater :: "u64 \<Rightarrow> u64 \<Rightarrow> bool" where
  "IsGreater n1 n2 = (if n1 \<ge> n2 then True
     else if n1 < 0x1000000000000000 \<and> n2 > 0xF000000000000000 then True
     else False)"

definition GetUsecFromCnt :: "u64 \<Rightarrow> u64 \<Rightarrow> u64" where
  "GetUsecFromCnt cnt_clk_period cnt = (cnt * cnt_clk_period) div 1000"

text \<open>\<open>IsTimePassed\<close> at the moment the main counter reads \<open>cur\<close>.\<close>

definition IsTimePassed :: "u64 \<Rightarrow> u64 \<Rightarrow> bool" where
  "IsTimePassed cur time = IsGreater cur time"

text \<open>\<open>BusyUwait\<close> over the successive values of the main counter: the number of reads until it returns.\<close>

fun busy_loop :: "(nat \<Rightarrow> u64) \<Rightarrow> u64 \<Rightarrow> nat \<Rightarrow> nat \<Rightarrow> nat option" where
  "busy_loop cnt end_cnt k 0 = None"
| "busy_loop cnt end_cnt k (Suc fuel) =
     (if IsTimePassed (cnt k) end_cnt then Some k else busy_loop cnt end_cnt (Suc k) fuel)"

definition BusyUwait :: "u64 \<Rightarrow> (nat \<Rightarrow> u64) \<Rightarrow> int \<Rightarrow> nat \<Rightarrow> nat option" where
  "BusyUwait cnt_clk_period cnt us fuel =
     busy_loop cnt (GetCntAfterPeriod cnt_clk_period (cnt 0) us) 1 fuel"

lemma IsGreater_no_wrap: "n1 < n2 \<Longrightarrow> unat n2 - unat n1 < 2 ^ 60 \<Longrightarrow> \<not> IsGreater n1 n2"
proof -
  assume lt: "n1 < n2" and d: "unat n2 - unat n1 < 2 ^ 60"
  have "\<not> (n1 < 0x1000000000000000 \<and> n2 > 0xF000000000000000)"
    using d by (auto simp: word_less_nat_alt)
  then show ?thesis using lt by (simp add: IsGreater_def)
qed

lemma unat_plus_wraps:
  fixes a d :: u64
  shows "unat (a + d) = (if unat a + unat d < 2 ^ 64 then unat a + unat d else unat a + unat d - 2 ^ 64)"
  by (simp add: unat_plus_if')

text \<open>Comparison of two readings of the 64-bit counter less than 2^60 counts apart: the later one is
  greater than or equal to the earlier one, also across the wrap-around. The earlier one is below the later
  one only if the counter has not wrapped in between; across the wrap-around each is greater than the other,
  so a deadline that lies behind the wrap-around counts as passed at once.\<close>

theorem IsGreater_across_wrap:
  assumes "0 < unat d" and "unat d < 2 ^ 60"
  shows "IsGreater (n + d) n \<and> (IsGreater n (n + d) \<longleftrightarrow> 2 ^ 64 \<le> unat n + unat d)"
proof (cases "unat n + unat d < 2 ^ 64")
  case True
  then have sum: "unat (n + d) = unat n + unat d" by (simp add: unat_plus_wraps)
  then have "n < n + d" using assms(1) by (simp add: word_less_nat_alt)
  moreover have "\<not> IsGreater n (n + d)"
    using IsGreater_no_wrap [OF \<open>n < n + d\<close>] sum assms(2) by simp
  moreover have "IsGreater (n + d) n" using \<open>n < n + d\<close> by (simp add: IsGreater_def less_imp_le)
  ultimately show ?thesis using True by simp
next
  case False
  have sum: "unat (n + d) = unat n + unat d - 2 ^ 64" using False by (simp add: unat_plus_wraps)
  have n: "unat n < 2 ^ 64" using unsigned_less [of n, where ?'a = nat] by simp
  have big: "n > 0xF000000000000000" and small: "n + d < 0x1000000000000000" and le: "n + d \<le> n"
    using False sum n assms(2) by (simp_all add: word_less_nat_alt word_le_nat_alt)
  show ?thesis using big small le False by (simp add: IsGreater_def)
qed

theorem IsGreater_across_wrap_witness:
  "IsGreater 3 0xFFFFFFFFFFFFFFFD \<and> IsGreater 0xFFFFFFFFFFFFFFFD 3"
proof -
  have "(0xFFFFFFFFFFFFFFFD :: u64) + 6 = 3" by code_simp
  then show ?thesis using IsGreater_across_wrap [of 6 "0xFFFFFFFFFFFFFFFD"] by (simp only:) simp
qed

lemma GetCntAfterPeriod_counts:
  assumes "0 \<le> us" and "us < 2 ^ 31" and "0 < unat p" and "unat cur + nat us * 1000 div unat p < 2 ^ 64"
  shows "unat (GetCntAfterPeriod p cur us) = unat cur + nat us * 1000 div unat p"
proof -
  have "uint (word_of_int (us * 1000) :: u64) = us * 1000"
    unfolding uint_word_of_int using assms(1,2) by (intro mod_pos_pos_trivial) simp_all
  then have "unat (word_of_int (us * 1000) :: u64) = nat us * 1000"
    unfolding unat_eq_nat_uint using assms(1) by (simp add: nat_mult_distrib)
  then have "unat (word_of_int (us * 1000) div p) = nat us * 1000 div unat p"
    by (simp add: unat_div)
  then show ?thesis using assms(4) by (simp add: GetCntAfterPeriod_def unat_plus_wraps)
qed

lemma busy_loop_ends:
  assumes "\<forall>j. k \<le> j \<and> j < m \<longrightarrow> \<not> IsTimePassed (cnt j) e" and "IsTimePassed (cnt m) e" and "k \<le> m"
    and "m - k < fuel"
  shows "busy_loop cnt e k fuel = Some m"
  using assms
proof (induction fuel arbitrary: k)
  case (Suc fuel)
  show ?case
  proof (cases "k = m")
    case False
    have "busy_loop cnt e (Suc k) fuel = Some m"
      using Suc.prems False by (intro Suc.IH) auto
    then show ?thesis using Suc.prems False by simp
  qed (use Suc.prems in simp)
qed simp

text \<open>\<open>BusyUwait\<close> returns: if the counter rises and reaches the deadline at its \<open>m\<close>-th reading for
  the first time, the loop ends exactly there, and by then the requested number of counts has passed.\<close>

theorem BusyUwait_returns:
  assumes "0 \<le> us" and "us < 2 ^ 31" and "0 < unat p" and "unat (cnt 0) + nat us * 1000 div unat p < 2 ^ 64"
    and "\<forall>j. 1 \<le> j \<and> j < m \<longrightarrow> unat (cnt 0) \<le> unat (cnt j) \<and> unat (cnt j) - unat (cnt 0) < nat us * 1000 div unat p"
    and "1 \<le> m" and "nat us * 1000 div unat p \<le> unat (cnt m) - unat (cnt 0)" and "unat (cnt 0) \<le> unat (cnt m)"
    and "m \<le> fuel"
  shows "BusyUwait p cnt us fuel = Some m"
proof -
  define e where "e = GetCntAfterPeriod p (cnt 0) us"
  have e: "unat e = unat (cnt 0) + nat us * 1000 div unat p"
    unfolding e_def by (rule GetCntAfterPeriod_counts [OF assms(1-4)])
  have us: "nat us * 1000 div unat p < 2 ^ 60"
  proof -
    have "nat us * 1000 div unat p \<le> nat us * 1000" by (rule div_le_dividend)
    also have "\<dots> < 2 ^ 60" using assms(1,2) by simp
    finally show ?thesis .
  qed
  have "\<not> IsTimePassed (cnt j) e" if "1 \<le> j" "j < m" for j
  proof -
    have j: "unat (cnt 0) \<le> unat (cnt j)" "unat (cnt j) - unat (cnt 0) < nat us * 1000 div unat p"
      using assms(5) that by auto
    then have "cnt j < e" using e by (simp add: word_less_nat_alt)
    moreover have "unat e - unat (cnt j) < 2 ^ 60" using e j us by simp
    ultimately show ?thesis unfolding IsTimePassed_def by (rule IsGreater_no_wrap)
  qed
  moreover have "e \<le> cnt m"
    unfolding word_le_nat_alt using assms(7,8) e by linarith
  then have "IsTimePassed (cnt m) e"
    by (simp add: IsTimePassed_def IsGreater_def)
  ultimately have "busy_loop cnt e 1 fuel = Some m"
    using assms(6,9) by (intro busy_loop_ends) auto
  then show ?thesis by (simp add: BusyUwait_def e_def)
qed

theorem BusyUwait_returns_witness: "BusyUwait 10 (\<lambda>k. of_nat (1000 + 40 * k)) 1 10 = Some 3"
proof -
  have c: "unat (of_nat (1000 + 40 * j) :: u64) = 1000 + 40 * j" if "j \<le> 3" for j
    using that by (simp add: unat_of_nat del: of_nat_add of_nat_mult)
  show ?thesis
    by (rule BusyUwait_returns) (use c in \<open>auto\<close>)
qed

section \<open>HPET\<close>

text \<open>Register numbers and bits.\<close>

definition kRegGenCap :: nat where "kRegGenCap = 0x0 div 8"
definition kRegGenConfig :: nat where "kRegGenConfig = 0x10 div 8"
definition kRegMainCnt :: nat where "kRegMainCnt = 0xF0 div 8"
definition kBaseRegTmrConfigCap :: nat where "kBaseRegTmrConfigCap = 0x100 div 8"
definition kBaseRegTmrCmp :: nat where "kBaseRegTmrCmp = 0x108 div 8"
definition kBaseRegFsbIntRoute :: nat where "kBaseRegFsbIntRoute = 0x110 div 8"

definition GetRegTmrOfN :: "nat \<Rightarrow> nat \<Rightarrow> nat" where
  "GetRegTmrOfN n base = base + n * 0x20 div 8"

definition kRegGenConfigFlagEnable :: u64 where "kRegGenConfigFlagEnable = push_bit 0 1"
definition kRegGenConfigFlagLegacy :: u64 where "kRegGenConfigFlagLegacy = push_bit 1 1"
definition kRegGenCapMaskMainCntPeriod :: u64 where "kRegGenCapMaskMainCntPeriod = 0xffffffff00000000"
definition kRegGenCapLegacyRoute :: u64 where "kRegGenCapLegacyRoute = push_bit 15 1"
definition kRegGenCapMaskNumTimer :: u64 where "kRegGenCapMaskNumTimer = 0x1F00"
definition kFlagIntTypeEdge :: u64 where "kFlagIntTypeEdge = push_bit 1 0"
definition kFlagIntTypeLevel :: u64 where "kFlagIntTypeLevel = push_bit 1 1"
definition kFlagIntEnable :: u64 where "kFlagIntEnable = push_bit 2 1"
definition kFlagTypeNonPer :: u64 where "kFlagTypeNonPer = push_bit 3 0"
definition kFlagMode32 :: u64 where "kFlagMode32 = push_bit 8 1"
definition kMaskIntRoute :: u64 where "kMaskIntRoute = 0x3E00"
definition kFlagFsbEnable :: u64 where "kFlagFsbEnable = push_bit 14 1"
definition kFlagFsbIntDel :: u64 where "kFlagFsbIntDel = push_bit 15 1"
definition kMaskIntRouteCap :: u64 where "kMaskIntRouteCap = 0xffffffff00000000"

lemmas hpet_consts = kRegGenCap_def kRegGenConfig_def kRegMainCnt_def kBaseRegTmrConfigCap_def kBaseRegTmrCmp_def
  kBaseRegFsbIntRoute_def GetRegTmrOfN_def kRegGenConfigFlagEnable_def kRegGenConfigFlagLegacy_def
  kRegGenCapMaskMainCntPeriod_def kRegGenCapLegacyRoute_def kRegGenCapMaskNumTimer_def kFlagIntTypeEdge_def
  kFlagIntTypeLevel_def kFlagIntEnable_def kFlagTypeNonPer_def kFlagMode32_def kMaskIntRoute_def
  kFlagFsbEnable_def kFlagFsbIntDel_def kMaskIntRouteCap_def

record Hpet =
  hp_setup :: bool
  hp_cnt_clk_period :: u64
  hp_table_num :: nat
  hp_reg :: "nat \<Rightarrow> u64"

definition write_reg :: "nat \<Rightarrow> u64 \<Rightarrow> Hpet \<Rightarrow> Hpet" where
  "write_reg r v h = h \<lparr> hp_reg := (hp_reg h)(r := v) \<rparr>"

definition Hpet_ReadMainCnt :: "Hpet \<Rightarrow> u64" where
  "Hpet_ReadMainCnt h = (if \<not> hp_setup h then 0 else hp_reg h kRegMainCnt)"

definition Hpet_Disable :: "nat \<Rightarrow> Hpet \<Rightarrow> Hpet" where
  "Hpet_Disable table h =
     write_reg kBaseRegFsbIntRoute 0
       (write_reg (GetRegTmrOfN table kBaseRegTmrConfigCap)
          (hp_reg h (GetRegTmrOfN table kBaseRegTmrConfigCap) AND (NOT kFlagIntEnable AND NOT kFlagFsbEnable)) h)"

text \<open>The loop of \<open>SetupSub\<close> over the timers \<open>i\<close>, \<open>i + 1\<close>, \<open>\<dots>\<close>, \<open>i + n - 1\<close>.\<close>

fun disable_all :: "nat \<Rightarrow> nat \<Rightarrow> Hpet \<Rightarrow> Hpet" where
  "disable_all i 0 h = h"
| "disable_all i (Suc n) h = disable_all (Suc i) n (Hpet_Disable i h)"

definition or_reg :: "nat \<Rightarrow> u64 \<Rightarrow> Hpet \<Rightarrow> Hpet" where
  "or_reg r v h = write_reg r (hp_reg h r OR v) h"

text \<open>\<open>dt\<close> says whether the ACPI tables have an HPET table; the registers are those at its base address.\<close>

definition Hpet_SetupSub :: "bool \<Rightarrow> Hpet \<Rightarrow> (bool \<times> Hpet) kres" where
  "Hpet_SetupSub dt h = (if \<not> dt then Inr (False, h)
     else let
       h1 = h \<lparr> hp_cnt_clk_period := drop_bit 32 (hp_reg h kRegGenCap AND kRegGenCapMaskMainCntPeriod) div (1000 * 1000) \<rparr>;
       n = unat (drop_bit 8 (hp_reg h1 kRegGenCap AND kRegGenCapMaskNumTimer) + 1);
       h2 = h1 \<lparr> hp_table_num := n \<rparr>
     in if n = 0 then Inl Kernel_Panic
     else let
       h3 = disable_all 0 n h2;
       h4 = or_reg kRegGenConfig kRegGenConfigFlagEnable h3
     in Inr (True, if hp_reg h4 kRegGenCap AND kRegGenCapLegacyRoute \<noteq> 0
                   then or_reg kRegGenConfig kRegGenConfigFlagLegacy h4 else h4))"

definition Hpet_Setup :: "bool \<Rightarrow> Hpet \<Rightarrow> (bool \<times> Hpet) kres" where
  "Hpet_Setup dt h = kmap (\<lambda>(b, h'). (b, h' \<lparr> hp_setup := True \<rparr>)) (Hpet_SetupSub dt h)"

text \<open>The first \<open>i\<close> whose bit is set in the routing capabilities.\<close>

fun first_pin :: "u32 \<Rightarrow> nat \<Rightarrow> nat \<Rightarrow> nat option" where
  "first_pin cap i 0 = None"
| "first_pin cap i (Suc n) = (if bit cap i then Some i else first_pin cap (Suc i) n)"

text \<open>
  \<open>SetInt\<close>: \<open>msi_addr\<close> and \<open>msi_data\<close> are the message the interrupt controller gives for
  the vector, \<open>setup_io_int\<close> the result of \<open>ApicCtrl::SetupIoInt\<close> for a pin.
\<close>

definition Hpet_SetInt :: "u64 \<Rightarrow> u64 \<Rightarrow> (nat \<Rightarrow> bool) \<Rightarrow> u64 \<Rightarrow> Hpet \<Rightarrow> Hpet kres" where
  "Hpet_SetInt msi_addr msi_data setup_io_int cnt h = (let
     cfg = GetRegTmrOfN 0 kBaseRegTmrConfigCap;
     config = (kFlagMode32 OR kFlagTypeNonPer) AND NOT kMaskIntRoute;
     finish = (\<lambda>config h'. write_reg (GetRegTmrOfN 0 kBaseRegTmrCmp) cnt (write_reg cfg config h'))
   in if hp_reg h cfg AND kFlagFsbIntDel \<noteq> 0 then
        Inr (finish (config OR (kFlagFsbEnable OR kFlagIntTypeEdge))
          (write_reg kBaseRegFsbIntRoute (push_bit 32 msi_addr OR msi_data) h))
      else
        let pin = (if hp_reg h kRegGenConfig AND kRegGenConfigFlagLegacy \<noteq> 0 then Some 2
                   else first_pin (ucast (drop_bit 32 (hp_reg h cfg AND kMaskIntRouteCap))) 0 32)
        in case pin of None \<Rightarrow> Inl Kernel_Panic
           | Some i \<Rightarrow> if setup_io_int i
               then Inr (finish (config OR (push_bit 9 (of_nat i) OR kFlagIntTypeLevel OR kFlagIntEnable)) h)
               else Inl Kassert)"

definition Hpet_Handle :: "Hpet \<Rightarrow> Hpet" where
  "Hpet_Handle h = (let
     h1 = write_reg (GetRegTmrOfN 0 kBaseRegTmrCmp)
            (GetCntAfterPeriod (hp_cnt_clk_period h) (Hpet_ReadMainCnt h) (1000 * 1000)) h
   in if hp_reg h1 (GetRegTmrOfN 0 kBaseRegTmrConfigCap) AND kFlagFsbIntDel = 0
      then or_reg (0x20 div 8) 1 h1 else h1)"

subsection \<open>Setup leaves every timer disabled\<close>

lemma write_reg_reg [simp]: "hp_reg (write_reg r v h) = (hp_reg h)(r := v)"
  by (simp add: write_reg_def)

definition tmr_off :: "nat \<Rightarrow> Hpet \<Rightarrow> bool" where
  "tmr_off i h \<longleftrightarrow> hp_reg h (GetRegTmrOfN i kBaseRegTmrConfigCap) AND (kFlagIntEnable OR kFlagFsbEnable) = 0"

lemma masked_off: "(x AND (NOT a AND NOT b)) AND (a OR b) = 0" for x a b :: u64
  by (rule bit_word_eqI) (auto simp: bit_simps)

lemma tmr_reg_inj: "GetRegTmrOfN i kBaseRegTmrConfigCap = GetRegTmrOfN j kBaseRegTmrConfigCap \<longleftrightarrow> i = j"
  by (simp add: hpet_consts)

lemma tmr_reg_ne: "GetRegTmrOfN i kBaseRegTmrConfigCap \<noteq> kBaseRegFsbIntRoute"
proof
  assume "GetRegTmrOfN i kBaseRegTmrConfigCap = kBaseRegFsbIntRoute"
  then have "4 * i = 2" by (simp add: hpet_consts)
  then show False by presburger
qed

lemma Hpet_Disable_off: "tmr_off j (Hpet_Disable i h) \<longleftrightarrow> i = j \<or> tmr_off j h"
proof (cases "i = j")
  case True
  then show ?thesis
    using tmr_reg_ne [of j] masked_off by (simp add: tmr_off_def Hpet_Disable_def)
next
  case False
  then show ?thesis
    using tmr_reg_ne [of j] tmr_reg_inj [of j i] by (simp add: tmr_off_def Hpet_Disable_def)
qed

lemma disable_all_off: "tmr_off j (disable_all i n h) \<longleftrightarrow> i \<le> j \<and> j < i + n \<or> tmr_off j h"
  by (induction n arbitrary: i h) (auto simp: Hpet_Disable_off)

lemma disable_all_fields:
  "hp_table_num (disable_all i n h) = hp_table_num h \<and> hp_cnt_clk_period (disable_all i n h) = hp_cnt_clk_period h"
  by (induction n arbitrary: i h) (auto simp: Hpet_Disable_def write_reg_def)

lemma num_timer_le: "unat (drop_bit 8 (x AND kRegGenCapMaskNumTimer) :: u64) \<le> 31"
proof -
  have "x AND kRegGenCapMaskNumTimer \<le> kRegGenCapMaskNumTimer" by (rule word_and_le1)
  then have "unat (x AND kRegGenCapMaskNumTimer) \<le> 0x1F00"
    unfolding word_le_nat_alt by (simp add: kRegGenCapMaskNumTimer_def)
  then have "unat (x AND kRegGenCapMaskNumTimer) div 2 ^ 8 \<le> 0x1F00 div 2 ^ 8" by (rule div_le_mono)
  then show ?thesis by (simp add: drop_bit_eq_div unat_div)
qed

lemma num_timer_Suc: "unat (drop_bit 8 (x AND kRegGenCapMaskNumTimer) + 1 :: u64) =
    Suc (unat (drop_bit 8 (x AND kRegGenCapMaskNumTimer) :: u64))"
  using num_timer_le [of x] by (simp add: unat_plus_if')

lemma or_reg_keeps_off: "r < kBaseRegTmrConfigCap \<Longrightarrow> tmr_off j (or_reg r v h) = tmr_off j h"
  by (simp add: tmr_off_def or_reg_def GetRegTmrOfN_def)

lemma or_reg_fields [simp]: "hp_table_num (or_reg r v h) = hp_table_num h"
  by (simp add: or_reg_def write_reg_def)

text \<open>Setting up the HPET when its table exists never panics: the number of timers read from the
  capabilities is between 1 and 32, each of them ends with its interrupt and its message delivery disabled,
  and the main counter is enabled.\<close>

theorem Hpet_Setup_ok:
  "\<exists>h'. Hpet_Setup True h = Inr (True, h') \<and> hp_setup h' \<and> 1 \<le> hp_table_num h' \<and> hp_table_num h' \<le> 32 \<and>
     (\<forall>i < hp_table_num h'. hp_reg h' (GetRegTmrOfN i kBaseRegTmrConfigCap) AND (kFlagIntEnable OR kFlagFsbEnable) = 0) \<and>
     hp_reg h' kRegGenConfig AND kRegGenConfigFlagEnable \<noteq> 0"
proof -
  define n where "n = unat (drop_bit 8 (hp_reg h kRegGenCap AND kRegGenCapMaskNumTimer) + 1)"
  have n: "1 \<le> n" "n \<le> 32" unfolding n_def num_timer_Suc using num_timer_le by simp_all
  define h2 where "h2 = h \<lparr> hp_cnt_clk_period := drop_bit 32 (hp_reg h kRegGenCap AND kRegGenCapMaskMainCntPeriod) div (1000 * 1000),
    hp_table_num := n \<rparr>"
  define h4 where "h4 = or_reg kRegGenConfig kRegGenConfigFlagEnable (disable_all 0 n h2)"
  define h5 where "h5 = (if hp_reg h4 kRegGenCap AND kRegGenCapLegacyRoute \<noteq> 0
    then or_reg kRegGenConfig kRegGenConfigFlagLegacy h4 else h4)"
  have cfg: "kRegGenConfig < kBaseRegTmrConfigCap" by (simp add: hpet_consts)
  have st: "Hpet_Setup True h = Inr (True, h5 \<lparr> hp_setup := True \<rparr>)"
    using n(1) unfolding Hpet_Setup_def Hpet_SetupSub_def Let_def h5_def h4_def h2_def n_def
    by (simp del: drop_bit_and)
  have num: "hp_table_num h5 = n"
    by (simp add: h5_def h4_def disable_all_fields h2_def)
  have "tmr_off i h5" if "i < n" for i
    using that by (simp add: h5_def h4_def or_reg_keeps_off [OF cfg] disable_all_off)
  then have off: "hp_reg h5 (GetRegTmrOfN i kBaseRegTmrConfigCap) AND (kFlagIntEnable OR kFlagFsbEnable) = 0"
    if "i < n" for i using that by (simp add: tmr_off_def)
  have "bit (hp_reg h5 kRegGenConfig AND kRegGenConfigFlagEnable) 0"
    by (simp add: h5_def h4_def or_reg_def kRegGenConfigFlagEnable_def bit_or_iff bit_and_iff)
  then have "hp_reg h5 kRegGenConfig AND kRegGenConfigFlagEnable \<noteq> 0" by (metis bit_0_eq bot_apply bot_bool_def)
  then show ?thesis using st num n off by auto
qed

theorem Hpet_Setup_ok_witness:
  "\<exists>h'. Hpet_Setup True \<lparr> hp_setup = False, hp_cnt_clk_period = 1, hp_table_num = 0,
       hp_reg = (\<lambda>r. if r = kRegGenCap then 0x0429B17F8086A201 else 6) \<rparr> = Inr (True, h') \<and>
     hp_reg h' (GetRegTmrOfN 0 kBaseRegTmrConfigCap) AND (kFlagIntEnable OR kFlagFsbEnable) = 0"
proof -
  define h where "h = \<lparr> hp_setup = False, hp_cnt_clk_period = 1, hp_table_num = 0,
    hp_reg = (\<lambda>r. if r = kRegGenCap then (0x0429B17F8086A201 :: u64) else 6) \<rparr>"
  obtain h' where "Hpet_Setup True h = Inr (True, h')" "1 \<le> hp_table_num h'"
    "\<forall>i < hp_table_num h'. hp_reg h' (GetRegTmrOfN i kBaseRegTmrConfigCap) AND (kFlagIntEnable OR kFlagFsbEnable) = 0"
    using Hpet_Setup_ok [of h] by blast
  then show ?thesis unfolding h_def by fastforce
qed

end
