(* ===== verification/Task_Ctrl.thy ===== *)
theory Task_Ctrl
  imports Timers
begin

text \<open>
  \<open>TaskCtrl\<close>, \<open>Task\<close>, \<open>CountableTask\<close> and \<open>Callout\<close> of \<open>task.cc\<close>, \<open>task.h\<close> and \<open>_task.h\<close>. Tasks are
  nodes of doubly linked queues behind a guard node; every processor has a queue
  it works on and a queue that collects new tasks, and swaps the two. The chain of
  callouts behind \<open>dtop\<close> is a list. A member function that runs under the lock of the
  processor's \<open>TaskStruct\<close> is one step. The bodies of tasks are arguments.
\<close>

section \<open>State\<close>

datatype Status = kRunning | kWaitingInQueue | kOutOfQueue | kGuard

record Task =
  t_next :: "nat option"
  t_prev :: "nat option"
  t_cpuid :: nat
  t_status :: Status

datatype TaskQueueState = kNotStarted | kNotRunning | kTqRunning | kSlept

record TaskStruct =
  q_top :: nat
  q_bottom :: nat
  q_top_sub :: nat
  q_bottom_sub :: nat
  q_state :: TaskQueueState
  q_dtop :: "nat list"

datatype CalloutState = kCalloutQueue | kTaskQueue | kHandling | kStopped

record Callout =
  co_cpuid :: nat
  co_task :: nat
  co_time :: u64
  co_pending :: bool
  co_state :: CalloutState

text \<open>The number of processors is \<open>ncpus\<close>; \<open>ipis\<close> collects the interrupts sent to wake processors up.\<close>

record TaskCtrl =
  ncpus :: nat
  tasks :: "nat \<Rightarrow> Task"
  structs :: "nat \<Rightarrow> TaskStruct"
  callouts :: "nat \<Rightarrow> Callout"
  ipis :: "nat list"

definition get_struct :: "nat \<Rightarrow> TaskCtrl \<Rightarrow> TaskStruct kres" where
  "get_struct c s = (if c < ncpus s then Inr (structs s c) else Inl Out_Of_Range)"

definition upd_task :: "nat \<Rightarrow> (Task \<Rightarrow> Task) \<Rightarrow> TaskCtrl \<Rightarrow> TaskCtrl" where
  "upd_task t f s = s \<lparr> tasks := (tasks s)(t := f (tasks s t)) \<rparr>"

definition upd_struct :: "nat \<Rightarrow> (TaskStruct \<Rightarrow> TaskStruct) \<Rightarrow> TaskCtrl \<Rightarrow> TaskCtrl" where
  "upd_struct c f s = s \<lparr> structs := (structs s)(c := f (structs s c)) \<rparr>"

definition upd_callout :: "nat \<Rightarrow> (Callout \<Rightarrow> Callout) \<Rightarrow> TaskCtrl \<Rightarrow> TaskCtrl" where
  "upd_callout d f s = s \<lparr> callouts := (callouts s)(d := f (callouts s d)) \<rparr>"

lemmas upd_defs = upd_task_def upd_struct_def upd_callout_def

definition IsRegistered :: "nat \<Rightarrow> TaskCtrl \<Rightarrow> bool" where
  "IsRegistered t s \<longleftrightarrow> t_status (tasks s t) = kWaitingInQueue"

section \<open>Queues of tasks\<close>

text \<open>
  \<open>apic\<close> is \<open>CpuId::GetApicId\<close>, \<open>cur\<close> the processor that executes the call. The second test of
  the status in \<open>Register\<close>, made under the lock, never succeeds when the call is one step.
\<close>

definition ForceWakeup :: "(nat \<Rightarrow> nat) \<Rightarrow> nat \<Rightarrow> nat \<Rightarrow> TaskCtrl \<Rightarrow> TaskCtrl kres" where
  "ForceWakeup apic cur c s = (let raw_cpuid = apic c in
     kbind (get_struct raw_cpuid s) (\<lambda>q.
       Inr (if q_state q = kSlept \<and> cur \<noteq> raw_cpuid then s \<lparr> ipis := ipis s @ [raw_cpuid] \<rparr> else s)))"

definition Register :: "(nat \<Rightarrow> nat) \<Rightarrow> nat \<Rightarrow> nat \<Rightarrow> nat \<Rightarrow> TaskCtrl \<Rightarrow> TaskCtrl kres" where
  "Register apic cur c t s = (if IsRegistered t s then Inl Kernel_Panic
     else kbind (get_struct c s) (\<lambda>q. let
       s1 = upd_task t (\<lambda>x. x \<lparr> t_next := None, t_status := kWaitingInQueue, t_cpuid := c \<rparr>) s;
       s2 = upd_task (q_bottom_sub q) (\<lambda>x. x \<lparr> t_next := Some t \<rparr>) s1;
       s3 = upd_task t (\<lambda>x. x \<lparr> t_prev := Some (q_bottom_sub q) \<rparr>) s2;
       s4 = upd_struct c (\<lambda>x. x \<lparr> q_bottom_sub := t \<rparr>) s3
     in ForceWakeup apic cur c s4))"

definition Remove :: "nat \<Rightarrow> nat \<Rightarrow> TaskCtrl \<Rightarrow> TaskCtrl kres" where
  "Remove cur t s = (case t_status (tasks s t) of
       kGuard \<Rightarrow> Inl Kassert
     | kOutOfQueue \<Rightarrow> Inr s
     | kRunning \<Rightarrow> Inr (upd_task t (\<lambda>x. x \<lparr> t_status := kOutOfQueue \<rparr>) s)
     | kWaitingInQueue \<Rightarrow>
         kbind (get_struct cur s) (\<lambda>q. let
           nxt = t_next (tasks s t); prv = t_prev (tasks s t);
           s1 = upd_task t (\<lambda>x. x \<lparr> t_next := None, t_prev := None \<rparr>) s
         in case prv of None \<Rightarrow> Inl Kassert
          | Some p \<Rightarrow> let s2 = upd_task p (\<lambda>x. x \<lparr> t_next := nxt \<rparr>) s1 in
            kbind (case nxt of
                None \<Rightarrow> (if t = q_bottom q then Inr (upd_struct cur (\<lambda>x. x \<lparr> q_bottom := p \<rparr>) s2)
                         else if t = q_bottom_sub q then Inr (upd_struct cur (\<lambda>x. x \<lparr> q_bottom_sub := p \<rparr>) s2)
                         else Inl Kassert)
              | Some n \<Rightarrow> Inr (upd_task n (\<lambda>x. x \<lparr> t_prev := Some p \<rparr>) s2))
              (\<lambda>s3. Inr (upd_task t (\<lambda>x. x \<lparr> t_status := kOutOfQueue \<rparr>)
                 (upd_task p (\<lambda>x. x \<lparr> t_next := nxt \<rparr>) s3)))))"

section \<open>The parts of Run\<close>

text \<open>Line 44.\<close>

definition run_start :: "nat \<Rightarrow> TaskCtrl \<Rightarrow> TaskCtrl" where
  "run_start c = upd_struct c (\<lambda>x. x \<lparr> q_state := kNotRunning \<rparr>)"

text \<open>Lines 48-57: the state becomes running; the old one is returned.\<close>

definition run_begin :: "nat \<Rightarrow> TaskCtrl \<Rightarrow> (TaskQueueState \<times> TaskCtrl) kres" where
  "run_begin c s = (let oldstate = q_state (structs s c) in
     kbind (kassert (oldstate = kNotRunning \<or> oldstate = kSlept))
       (\<lambda>_. Inr (oldstate, upd_struct c (\<lambda>x. x \<lparr> q_state := kTqRunning \<rparr>) s)))"

text \<open>Lines 61-79: callouts that are due before \<open>time\<close> move to the task queue.\<close>

fun move_due :: "(nat \<Rightarrow> nat) \<Rightarrow> nat \<Rightarrow> u64 \<Rightarrow> nat list \<Rightarrow> TaskCtrl \<Rightarrow> TaskCtrl kres" where
  "move_due apic c time [] s = Inr s"
| "move_due apic c time (d # ds) s = (if IsGreater (co_time (callouts s d)) time then Inr s
     else kbind (Register apic c c (co_task (callouts s d))
            (upd_callout d (\<lambda>x. x \<lparr> co_state := kTaskQueue \<rparr>) (upd_struct c (\<lambda>x. x \<lparr> q_dtop := ds \<rparr>) s)))
          (move_due apic c time ds))"

definition run_callouts :: "(nat \<Rightarrow> nat) \<Rightarrow> nat \<Rightarrow> u64 \<Rightarrow> TaskCtrl \<Rightarrow> TaskCtrl kres" where
  "run_callouts apic c time s = move_due apic c time (q_dtop (structs s c)) s"

text \<open>Lines 84-103: the first task of the queue is taken out; \<open>None\<close> when the queue is empty.\<close>

definition run_pop :: "nat \<Rightarrow> TaskCtrl \<Rightarrow> (nat option \<times> TaskCtrl) kres" where
  "run_pop c s = (let tt = q_top (structs s c) in
     case t_next (tasks s tt) of
       None \<Rightarrow> kbind (kassert (tt = q_bottom (structs s c))) (\<lambda>_. Inr (None, s))
     | Some t \<Rightarrow> let
         nxt = t_next (tasks s t);
         s1 = upd_task tt (\<lambda>x. x \<lparr> t_next := nxt \<rparr>) s
       in kbind (case nxt of
             None \<Rightarrow> kbind (kassert (q_bottom (structs s c) = t))
                       (\<lambda>_. Inr (upd_struct c (\<lambda>x. x \<lparr> q_bottom := tt \<rparr>) s1))
           | Some n \<Rightarrow> Inr (upd_task n (\<lambda>x. x \<lparr> t_prev := Some tt \<rparr>) s1))
         (\<lambda>s2. kbind (kassert (t_status (tasks s2 t) = kWaitingInQueue))
           (\<lambda>_. Inr (Some t, upd_task t (\<lambda>x. x \<lparr> t_status := kRunning, t_next := None, t_prev := None \<rparr>) s2))))"

text \<open>Lines 107-112, after the task has been executed.\<close>

definition run_finish :: "nat \<Rightarrow> TaskCtrl \<Rightarrow> TaskCtrl" where
  "run_finish t s = (if t_status (tasks s t) = kRunning
     then upd_task t (\<lambda>x. x \<lparr> t_status := kOutOfQueue \<rparr>) s else s)"

text \<open>Lines 114-130: sleep when both queues are empty, else swap them.\<close>

definition run_swap :: "nat \<Rightarrow> TaskCtrl \<Rightarrow> bool \<times> TaskCtrl" where
  "run_swap c s = (let q = structs s c in
     if t_next (tasks s (q_top q)) = None \<and> t_next (tasks s (q_top_sub q)) = None
     then (True, upd_struct c (\<lambda>x. x \<lparr> q_state := kSlept \<rparr>) s)
     else (False, upd_struct c (\<lambda>x. x \<lparr> q_top := q_top_sub q, q_top_sub := q_top q,
       q_bottom := q_bottom_sub q, q_bottom_sub := q_bottom q \<rparr>) s))"

text \<open>Lines 134-140: leave the loop when a callout is due.\<close>

definition run_check_callout :: "nat \<Rightarrow> u64 \<Rightarrow> TaskCtrl \<Rightarrow> bool \<times> TaskCtrl" where
  "run_check_callout c time s = (case q_dtop (structs s c) of
       [] \<Rightarrow> (False, s)
     | d # _ \<Rightarrow> if IsGreater time (co_time (callouts s d))
         then (True, upd_struct c (\<lambda>x. x \<lparr> q_state := kNotRunning \<rparr>) s) else (False, s))"

text \<open>Lines 145-151: with callouts waiting the next wake-up looks at them.\<close>

definition run_sleep :: "nat \<Rightarrow> TaskCtrl \<Rightarrow> TaskCtrl" where
  "run_sleep c s = (if q_state (structs s c) = kSlept \<and> q_dtop (structs s c) \<noteq> []
     then upd_struct c (\<lambda>x. x \<lparr> q_state := kNotRunning \<rparr>) s else s)"

text \<open>
  Lines 82-113: execute tasks until the queue is empty. \<open>exec\<close> is \<open>Task::Execute\<close>, which calls the function of
  the task: it acts on the controller and on the rest of the kernel, \<open>w\<close>. \<open>None\<close> means that the fuel ran out.
\<close>

fun run_queue :: "(nat \<Rightarrow> 'w \<times> TaskCtrl \<Rightarrow> ('w \<times> TaskCtrl) kres) \<Rightarrow> nat \<Rightarrow> nat \<Rightarrow> 'w \<times> TaskCtrl \<Rightarrow> ('w \<times> TaskCtrl) kres option" where
  "run_queue exec c 0 ws = None"
| "run_queue exec c (Suc fuel) (w, s) = (case run_pop c s of
       Inl e \<Rightarrow> Some (Inl e)
     | Inr (None, s1) \<Rightarrow> Some (Inr (w, s1))
     | Inr (Some t, s1) \<Rightarrow> (case exec t (w, s1) of
           Inl e \<Rightarrow> Some (Inl e)
         | Inr (w2, s2) \<Rightarrow> run_queue exec c fuel (w2, run_finish t s2)))"

text \<open>Lines 81-141. \<open>time k\<close> is the deadline computed in round \<open>k\<close>.\<close>

fun run_rounds :: "(nat \<Rightarrow> 'w \<times> TaskCtrl \<Rightarrow> ('w \<times> TaskCtrl) kres) \<Rightarrow> nat \<Rightarrow> (nat \<Rightarrow> u64) \<Rightarrow> nat \<Rightarrow> nat \<Rightarrow> 'w \<times> TaskCtrl \<Rightarrow>
    ('w \<times> TaskCtrl) kres option" where
  "run_rounds exec c time k 0 ws = None"
| "run_rounds exec c time k (Suc fuel) ws = (case run_queue exec c fuel ws of
       None \<Rightarrow> None
     | Some (Inl e) \<Rightarrow> Some (Inl e)
     | Some (Inr (w, s1)) \<Rightarrow> (case run_swap c s1 of
           (True, s2) \<Rightarrow> Some (Inr (w, s2))
         | (False, s2) \<Rightarrow> (case run_check_callout c (time k) s2 of
               (True, s3) \<Rightarrow> Some (Inr (w, s3))
             | (False, s3) \<Rightarrow> run_rounds exec c time (Suc k) fuel (w, s3))))"

text \<open>One turn of the outer loop, up to the halt. \<open>time0\<close> is the deadline for callouts.\<close>

definition run_turn :: "(nat \<Rightarrow> nat) \<Rightarrow> (nat \<Rightarrow> 'w \<times> TaskCtrl \<Rightarrow> ('w \<times> TaskCtrl) kres) \<Rightarrow> nat \<Rightarrow> u64 \<Rightarrow> (nat \<Rightarrow> u64) \<Rightarrow> nat \<Rightarrow>
    'w \<times> TaskCtrl \<Rightarrow> ('w \<times> TaskCtrl) kres option" where
  "run_turn apic exec c time0 time fuel ws = (case ws of (w, s) \<Rightarrow>
     (case kbind (run_begin c s) (\<lambda>(oldstate, s1). if oldstate = kNotRunning then run_callouts apic c time0 s1 else Inr s1) of
        Inl e \<Rightarrow> Some (Inl e)
      | Inr s2 \<Rightarrow> map_option (kmap (\<lambda>(w3, s3). (w3, run_sleep c s3))) (run_rounds exec c time 0 fuel (w, s2))))"

section \<open>Callouts and countable tasks\<close>

text \<open>\<open>time\<close> is the deadline that \<open>Timer::GetCntAfterPeriod\<close> returns.\<close>

definition SetHandler :: "nat \<Rightarrow> nat \<Rightarrow> u64 \<Rightarrow> TaskCtrl \<Rightarrow> TaskCtrl" where
  "SetHandler d c time = upd_callout d (\<lambda>x. x \<lparr> co_time := time, co_pending := True, co_cpuid := c \<rparr>)"

fun insert_callout :: "(nat \<Rightarrow> Callout) \<Rightarrow> nat \<Rightarrow> nat list \<Rightarrow> nat list" where
  "insert_callout cs d [] = [d]"
| "insert_callout cs d (x # xs) =
     (if IsGreater (co_time (cs x)) (co_time (cs d)) then d # x # xs else x # insert_callout cs d xs)"

definition RegisterCallout :: "(nat \<Rightarrow> nat) \<Rightarrow> nat \<Rightarrow> nat \<Rightarrow> nat \<Rightarrow> u64 \<Rightarrow> TaskCtrl \<Rightarrow> TaskCtrl kres" where
  "RegisterCallout apic cur d c time s =
     kbind (kassert (co_state (callouts s d) = kHandling \<or> co_state (callouts s d) = kStopped)) (\<lambda>_.
     let s1 = SetHandler d c time s in
     kbind (get_struct c s1) (\<lambda>q. let
       s2 = upd_callout d (\<lambda>x. x \<lparr> co_state := kCalloutQueue \<rparr>) s1;
       s3 = upd_struct c (\<lambda>x. x \<lparr> q_dtop := insert_callout (callouts s2) d (q_dtop q) \<rparr>) s2
     in ForceWakeup apic cur c s3))"

definition RegisterCallout2 :: "(nat \<Rightarrow> nat) \<Rightarrow> nat \<Rightarrow> nat \<Rightarrow> u64 \<Rightarrow> TaskCtrl \<Rightarrow> TaskCtrl kres" where
  "RegisterCallout2 apic cur d time s = RegisterCallout apic cur d cur time s"

definition CancelCallout :: "nat \<Rightarrow> nat \<Rightarrow> TaskCtrl \<Rightarrow> (bool \<times> TaskCtrl) kres" where
  "CancelCallout cur d s = (let s0 = upd_callout d (\<lambda>x. x \<lparr> co_pending := False \<rparr>) s in
     kmap (\<lambda>(flag, s1). (flag, upd_callout d (\<lambda>x. x \<lparr> co_state := kStopped \<rparr>) s1))
     (case co_state (callouts s0 d) of
        kCalloutQueue \<Rightarrow> kbind (get_struct (co_cpuid (callouts s0 d)) s0) (\<lambda>q.
          Inr (True, upd_struct (co_cpuid (callouts s0 d)) (\<lambda>x. x \<lparr> q_dtop := remove1 d (q_dtop x) \<rparr>) s0))
      | kTaskQueue \<Rightarrow> kmap (\<lambda>s1. (True, s1)) (Remove cur (co_task (callouts s0 d)) s0)
      | _ \<Rightarrow> Inr (False, s0)))"

text \<open>\<open>HandleSub2\<close>: \<open>passed\<close> is the answer of the timer, \<open>func\<close> the function of the callout.\<close>

definition HandleSub2 :: "(nat \<Rightarrow> nat) \<Rightarrow> nat \<Rightarrow> bool \<Rightarrow> (TaskCtrl \<Rightarrow> TaskCtrl kres) \<Rightarrow> nat \<Rightarrow> TaskCtrl \<Rightarrow> TaskCtrl kres" where
  "HandleSub2 apic cur passed func d s = (if passed then
       kmap (\<lambda>s1. if co_state (callouts s1 d) = kHandling then upd_callout d (\<lambda>x. x \<lparr> co_state := kStopped \<rparr>) s1 else s1)
         (func (upd_callout d (\<lambda>x. x \<lparr> co_pending := False, co_state := kHandling \<rparr>) s))
     else Register apic cur cur (co_task (callouts s d)) s)"

record CountableTask =
  ct_task :: nat
  ct_cnt :: int
  ct_cpuid :: nat

definition Inc :: "(nat \<Rightarrow> nat) \<Rightarrow> nat \<Rightarrow> CountableTask \<times> TaskCtrl \<Rightarrow> (CountableTask \<times> TaskCtrl) kres" where
  "Inc apic cur = (\<lambda>(k, s). let k1 = k \<lparr> ct_cnt := ct_cnt k + 1 \<rparr> in
     if ct_cnt k1 = 1 then kmap (\<lambda>s1. (k1, s1)) (Register apic cur (ct_cpuid k1) (ct_task k1) s) else Inr (k1, s))"

text \<open>\<open>CountableTask::HandleSub\<close> after the function has been executed.\<close>

definition HandleSub :: "(nat \<Rightarrow> nat) \<Rightarrow> nat \<Rightarrow> CountableTask \<times> TaskCtrl \<Rightarrow> (CountableTask \<times> TaskCtrl) kres" where
  "HandleSub apic cur = (\<lambda>(k, s). let k1 = k \<lparr> ct_cnt := ct_cnt k - 1 \<rparr> in
     if ct_cnt k1 \<noteq> 0 then kmap (\<lambda>s1. (k1, s1)) (Register apic cur (ct_cpuid k1) (ct_task k1) s) else Inr (k1, s))"

text \<open>The constructor of \<open>TaskStruct\<close>; \<open>g\<close> and \<open>g'\<close> are the new guard nodes.\<close>

definition TaskStruct_new :: "nat \<Rightarrow> nat \<Rightarrow> TaskStruct" where
  "TaskStruct_new g g' = \<lparr> q_top = g, q_bottom = g, q_top_sub = g', q_bottom_sub = g', q_state = kNotStarted, q_dtop = [] \<rparr>"

definition guard_node :: Task where
  "guard_node = \<lparr> t_next = None, t_prev = None, t_cpuid = 0, t_status = kGuard \<rparr>"

definition Task_new :: Task where
  "Task_new = \<lparr> t_next = None, t_prev = None, t_cpuid = 0, t_status = kOutOfQueue \<rparr>"

text \<open>\<open>Setup\<close> for \<open>n\<close> processors; processor \<open>c\<close> gets the guard nodes \<open>2 c\<close> and \<open>2 c + 1\<close>. Nodes from \<open>2 n\<close> on are new tasks.\<close>

definition TaskCtrl_Setup :: "nat \<Rightarrow> (nat \<Rightarrow> Callout) \<Rightarrow> TaskCtrl" where
  "TaskCtrl_Setup n cs = \<lparr> ncpus = n, tasks = (\<lambda>t. if t < 2 * n then guard_node else Task_new),
     structs = (\<lambda>c. TaskStruct_new (2 * c) (2 * c + 1)), callouts = cs, ipis = [] \<rparr>"

section \<open>Doubly linked segments\<close>

fun seg :: "(nat \<Rightarrow> Task) \<Rightarrow> nat \<Rightarrow> nat list \<Rightarrow> bool" where
  "seg T a [] = True"
| "seg T a (x # xs) = (t_next (T a) = Some x \<and> t_prev (T x) = Some a \<and> seg T x xs)"

lemma seg_append: "seg T a (xs @ ys) \<longleftrightarrow> seg T a xs \<and> seg T (last (a # xs)) ys"
  by (induction xs arbitrary: a) auto

lemma seg_cong:
  assumes "\<And>x. x \<in> set (butlast (a # xs)) \<Longrightarrow> t_next (T' x) = t_next (T x)"
    and "\<And>x. x \<in> set xs \<Longrightarrow> t_prev (T' x) = t_prev (T x)" and "seg T a xs"
  shows "seg T' a xs"
  using assms by (induction xs arbitrary: a) (auto split: if_splits)

text \<open>The nodes \<open>xs\<close> behind the guard \<open>g\<close>, the last of which is \<open>b\<close>.\<close>

definition queue_ok :: "nat \<Rightarrow> (nat \<Rightarrow> Task) \<Rightarrow> nat \<Rightarrow> nat \<Rightarrow> nat list \<Rightarrow> bool" where
  "queue_ok c T g b xs \<longleftrightarrow> seg T g xs \<and> b = last (g # xs) \<and> t_next (T b) = None \<and> distinct (g # xs) \<and>
     t_status (T g) = kGuard \<and> (\<forall>x \<in> set xs. t_status (T x) = kWaitingInQueue \<and> t_cpuid (T x) = c)"

lemma queue_ok_frame:
  assumes "queue_ok c T g b xs" and "\<And>x. x \<in> set (g # xs) \<Longrightarrow> T' x = T x"
  shows "queue_ok c T' g b xs"
proof -
  have "seg T' g xs"
    using assms by (intro seg_cong [of g xs T' T]) (auto simp: queue_ok_def dest: in_set_butlastD split: if_splits)
  moreover have "b \<in> set (g # xs)" using assms(1) unfolding queue_ok_def by (metis last_in_set list.distinct(1))
  ultimately show ?thesis using assms by (auto simp: queue_ok_def)
qed

lemma last_not_butlast: "distinct xs \<Longrightarrow> x \<in> set (butlast xs) \<Longrightarrow> x \<noteq> last xs"
  by (cases xs rule: rev_cases) auto

text \<open>Appending at the bottom.\<close>

lemma queue_ok_snoc:
  assumes q: "queue_ok c T g b xs" and t: "t \<notin> set (g # xs)"
    and b': "T' b = (T b) \<lparr> t_next := Some t \<rparr>"
    and t': "t_next (T' t) = None" "t_prev (T' t) = Some b" "t_status (T' t) = kWaitingInQueue" "t_cpuid (T' t) = c"
    and other: "\<And>x. x \<noteq> b \<Longrightarrow> x \<noteq> t \<Longrightarrow> T' x = T x"
  shows "queue_ok c T' g t (xs @ [t])"
proof -
  have b: "b = last (g # xs)" and d: "distinct (g # xs)" using q by (auto simp: queue_ok_def)
  have same: "t_prev (T' x) = t_prev (T x) \<and> t_status (T' x) = t_status (T x) \<and> t_cpuid (T' x) = t_cpuid (T x)"
    if "x \<in> set (g # xs)" for x
    using other [of x] b' t that by (cases "x = b"; cases "x = t") auto
  have "seg T' g xs"
  proof (rule seg_cong [of g xs T' T])
    show "t_next (T' x) = t_next (T x)" if "x \<in> set (butlast (g # xs))" for x
      using other [of x] last_not_butlast [OF d that] in_set_butlastD [OF that] t b by metis
    show "t_prev (T' x) = t_prev (T x)" if "x \<in> set xs" for x
      using same [of x] that by simp
  qed (use q in \<open>simp add: queue_ok_def\<close>)
  moreover have "t_status (T' g) = kGuard" "\<forall>x \<in> set xs. t_status (T' x) = kWaitingInQueue \<and> t_cpuid (T' x) = c"
    using q same by (auto simp: queue_ok_def)
  ultimately show ?thesis
    using t t' b' b d unfolding queue_ok_def by (auto simp: seg_append)
qed

text \<open>The neighbours of a node in the middle.\<close>

lemma queue_ok_mid:
  assumes "queue_ok c T g b (us @ t # vs)"
  shows "t_prev (T t) = Some (last (g # us))"
    and "t_next (T t) = (case vs of [] \<Rightarrow> None | v # _ \<Rightarrow> Some v)"
    and "t_next (T (last (g # us))) = Some t"
    and "t = b \<longleftrightarrow> vs = []"
proof -
  have s: "seg T g us" "seg T (last (g # us)) (t # vs)"
    using assms by (auto simp: queue_ok_def seg_append)
  show "t_prev (T t) = Some (last (g # us))" "t_next (T (last (g # us))) = Some t"
    using s(2) by simp_all
  have b: "b = last (t # vs)" "t_next (T b) = None" "distinct (t # vs)"
    using assms by (auto simp: queue_ok_def)
  show "t_next (T t) = (case vs of [] \<Rightarrow> None | v # _ \<Rightarrow> Some v)"
    using s(2) b(1,2) by (cases vs) auto
  show "t = b \<longleftrightarrow> vs = []"
    using b(1,3) by (cases vs rule: rev_cases) auto
qed

text \<open>Unlinking a node.\<close>

lemma queue_ok_del:
  assumes q: "queue_ok c T g b (us @ t # vs)" and p: "p = last (g # us)"
    and p': "T' p = (T p) \<lparr> t_next := t_next (T t) \<rparr>"
    and v': "\<And>v ws. vs = v # ws \<Longrightarrow> T' v = (T v) \<lparr> t_prev := Some p \<rparr>"
    and other: "\<And>x. x \<noteq> p \<Longrightarrow> x \<noteq> t \<Longrightarrow> x \<notin> set (take 1 vs) \<Longrightarrow> T' x = T x"
  shows "queue_ok c T' g (if vs = [] then p else b) (us @ vs)"
proof -
  have d: "distinct (g # us @ t # vs)" and s: "seg T g us" "seg T t vs" and g: "t_status (T g) = kGuard"
    and w: "\<forall>x \<in> set (us @ t # vs). t_status (T x) = kWaitingInQueue \<and> t_cpuid (T x) = c"
    and b: "b = last (t # vs)" "t_next (T b) = None"
    using q by (auto simp: queue_ok_def seg_append)
  have pin: "p \<in> set (g # us)" unfolding p by (rule last_in_set) simp
  then have pn: "p \<noteq> t" "p \<notin> set vs" using d by auto
  have same: "t_status (T' x) = t_status (T x) \<and> t_cpuid (T' x) = t_cpuid (T x)" if "x \<in> set (g # us @ vs)" for x
    using other [of x] p' v' [of x] that d by (cases vs; cases "x = p"; cases "x = hd vs"; cases "x = t") auto
  have "seg T' g us"
  proof (rule seg_cong [of g us T' T])
    show "t_next (T' x) = t_next (T x)" if "x \<in> set (butlast (g # us))" for x
    proof -
      have "x \<in> set (g # us)" using that by (rule in_set_butlastD)
      moreover have "x \<noteq> p" unfolding p using last_not_butlast [of "g # us" x] d that by simp
      ultimately have "T' x = T x" using d by (intro other) (auto dest: in_set_takeD)
      then show ?thesis by simp
    qed
    show "t_prev (T' x) = t_prev (T x)" if "x \<in> set us" for x
    proof -
      have "x \<noteq> t" "x \<notin> set (take 1 vs)" using that d by (auto dest: in_set_takeD)
      then show ?thesis using other [of x] p' by (cases "x = p") auto
    qed
  qed (rule s(1))
  moreover have "seg T' p vs \<and> t_next (T' (if vs = [] then p else b)) = None"
  proof (cases vs)
    case Nil
    then show ?thesis using p' b by simp
  next
    case (Cons v ws)
    have rest: "T' x = T x" if "x \<in> set ws" for x
      using that Cons d pin by (intro other) auto
    have v: "T' v = (T v) \<lparr> t_prev := Some p \<rparr>" using v' Cons by simp
    have "seg T' v ws"
      using s(2) Cons rest v by (intro seg_cong [of v ws T' T]) (auto dest: in_set_butlastD split: if_splits)
    moreover have "t_next (T' b) = None"
      using b rest [of b] v Cons by (cases "b = v") (auto split: if_splits)
    ultimately show ?thesis using Cons p' s(2) v by simp
  qed
  moreover have "(if vs = [] then p else b) = last (g # us @ vs)" using b p by auto
  ultimately show ?thesis
    unfolding queue_ok_def using d g w same p by (auto simp: seg_append)
qed

section \<open>Invariant of the controller\<close>

text \<open>Queue \<open>b\<close> of processor \<open>c\<close>: the one it works on, or the one that collects new tasks.\<close>

definition q_guard :: "TaskCtrl \<Rightarrow> nat \<Rightarrow> bool \<Rightarrow> nat" where
  "q_guard s c b = (if b then q_top_sub (structs s c) else q_top (structs s c))"

definition q_last :: "TaskCtrl \<Rightarrow> nat \<Rightarrow> bool \<Rightarrow> nat" where
  "q_last s c b = (if b then q_bottom_sub (structs s c) else q_bottom (structs s c))"

text \<open>
  \<open>Q c b\<close> is the list of tasks in that queue. All queues are well linked and
  disjoint, and the tasks in them are exactly those that wait.
\<close>

definition nodes :: "TaskCtrl \<Rightarrow> (nat \<Rightarrow> bool \<Rightarrow> nat list) \<Rightarrow> nat \<Rightarrow> bool \<Rightarrow> nat set" where
  "nodes s Q c b = insert (q_guard s c b) (set (Q c b))"

definition task_inv :: "TaskCtrl \<Rightarrow> (nat \<Rightarrow> bool \<Rightarrow> nat list) \<Rightarrow> bool" where
  "task_inv s Q \<longleftrightarrow>
     (\<forall>c < ncpus s. \<forall>b. queue_ok c (tasks s) (q_guard s c b) (q_last s c b) (Q c b)) \<and>
     (\<forall>c < ncpus s. \<forall>c' < ncpus s. \<forall>b b'. (c, b) \<noteq> (c', b') \<longrightarrow> nodes s Q c b \<inter> nodes s Q c' b' = {}) \<and>
     (\<forall>t. t_status (tasks s t) = kWaitingInQueue \<longrightarrow> (\<exists>c < ncpus s. \<exists>b. t \<in> set (Q c b)))"

definition Q_upd :: "nat \<Rightarrow> bool \<Rightarrow> nat list \<Rightarrow> (nat \<Rightarrow> bool \<Rightarrow> nat list) \<Rightarrow> nat \<Rightarrow> bool \<Rightarrow> nat list" where
  "Q_upd c b xs Q = Q(c := (Q c)(b := xs))"

lemma Q_upd_apply: "Q_upd c b xs Q c' b' = (if c' = c \<and> b' = b then xs else Q c' b')"
  by (simp add: Q_upd_def)

text \<open>An operation on one queue that touches only its nodes and a task outside all others.\<close>

lemma task_inv_one:
  assumes inv: "task_inv s Q" and c: "c < ncpus s" and n: "ncpus s' = ncpus s"
    and ends: "\<And>c' b'. (c', b') \<noteq> (c, b) \<Longrightarrow> q_guard s' c' b' = q_guard s c' b' \<and> q_last s' c' b' = q_last s c' b'"
    and guard: "q_guard s' c b = q_guard s c b"
    and frame: "\<And>x. x \<notin> nodes s Q c b \<Longrightarrow> x \<noteq> t \<Longrightarrow> tasks s' x = tasks s x"
    and t: "\<And>c' b'. c' < ncpus s \<Longrightarrow> (c', b') \<noteq> (c, b) \<Longrightarrow> t \<notin> nodes s Q c' b'"
    and ok: "queue_ok c (tasks s') (q_guard s c b) (q_last s' c b) xs"
    and sub: "set xs \<subseteq> insert t (set (Q c b))"
    and wait: "\<And>x. x \<in> insert t (set (Q c b)) \<Longrightarrow> t_status (tasks s' x) = kWaitingInQueue \<Longrightarrow> x \<in> set xs"
  shows "task_inv s' (Q_upd c b xs Q)"
proof -
  have disj: "nodes s Q c b \<inter> nodes s Q c' b' = {}" if "c' < ncpus s" "(c', b') \<noteq> (c, b)" for c' b'
    using inv that c unfolding task_inv_def by (metis)
  have same: "tasks s' x = tasks s x" if "x \<in> nodes s Q c' b'" "c' < ncpus s" "(c', b') \<noteq> (c, b)" for x c' b'
    using frame [of x] t [OF that(2,3)] disj [OF that(2,3)] that(1) by blast
  have sub': "nodes s' (Q_upd c b xs Q) c b \<subseteq> insert t (nodes s Q c b)"
    using sub guard by (auto simp: nodes_def Q_upd_apply)
  have nodes': "nodes s' (Q_upd c b xs Q) c' b' = nodes s Q c' b'" if "(c', b') \<noteq> (c, b)" for c' b'
    using ends [OF that] that by (auto simp: nodes_def Q_upd_apply)
  have A: "queue_ok c' (tasks s') (q_guard s' c' b') (q_last s' c' b') (Q_upd c b xs Q c' b')" if "c' < ncpus s'" for c' b'
  proof (cases "(c', b') = (c, b)")
    case True
    then show ?thesis using ok guard by (simp add: Q_upd_apply)
  next
    case False
    have "queue_ok c' (tasks s) (q_guard s c' b') (q_last s c' b') (Q c' b')"
      using inv that n by (simp add: task_inv_def)
    then have "queue_ok c' (tasks s') (q_guard s c' b') (q_last s c' b') (Q c' b')"
      by (rule queue_ok_frame) (rule same [of _ c' b'], use that n False in \<open>auto simp: nodes_def\<close>)
    then show ?thesis using ends [OF False] False by (auto simp: Q_upd_apply)
  qed
  have B: "nodes s' (Q_upd c b xs Q) c1 b1 \<inter> nodes s' (Q_upd c b xs Q) c2 b2 = {}"
    if "c1 < ncpus s'" "c2 < ncpus s'" "(c1, b1) \<noteq> (c2, b2)" for c1 b1 c2 b2
  proof -
    consider "(c1, b1) = (c, b)" | "(c2, b2) = (c, b)" | "(c1, b1) \<noteq> (c, b)" "(c2, b2) \<noteq> (c, b)" by blast
    then show ?thesis
    proof cases
      case 1
      then have "(c2, b2) \<noteq> (c, b)" using that(3) by auto
      then show ?thesis
        using 1 sub' nodes' [of c2 b2] disj [of c2 b2] t [of c2 b2] that(2) n by auto
    next
      case 2
      then have "(c1, b1) \<noteq> (c, b)" using that(3) by auto
      then show ?thesis
        using 2 sub' nodes' [of c1 b1] disj [of c1 b1] t [of c1 b1] that(1) n by auto
    next
      case 3
      then show ?thesis using inv that n nodes' [of c1 b1] nodes' [of c2 b2] unfolding task_inv_def by metis
    qed
  qed
  have C: "\<exists>c' < ncpus s'. \<exists>b'. x \<in> set (Q_upd c b xs Q c' b')" if w: "t_status (tasks s' x) = kWaitingInQueue" for x
  proof (cases "x \<in> insert t (nodes s Q c b)")
    case True
    have "x \<noteq> q_guard s c b \<or> x = t" using ok w by (auto simp: queue_ok_def)
    then have "x \<in> set xs" using True w wait [of x] by (auto simp: nodes_def)
    then have "x \<in> set (Q_upd c b xs Q c b)" by (simp add: Q_upd_apply)
    then show ?thesis using c n by auto
  next
    case False
    then have "t_status (tasks s x) = kWaitingInQueue" using frame [of x] w by auto
    then obtain c' b' where cb: "c' < ncpus s" "x \<in> set (Q c' b')" using inv unfolding task_inv_def by blast
    then have "(c', b') \<noteq> (c, b)" using False unfolding nodes_def by (metis Pair_inject insertCI)
    then have "x \<in> set (Q_upd c b xs Q c' b')" using cb by (auto simp: Q_upd_apply)
    then show ?thesis using cb n by auto
  qed
  show ?thesis unfolding task_inv_def using A B C by blast
qed

subsection \<open>Every operation keeps the invariant\<close>

lemma task_invI:
  assumes "\<And>c b. c < ncpus s \<Longrightarrow> queue_ok c (tasks s) (q_guard s c b) (q_last s c b) (Q c b)"
    and "\<And>c c' b b'. c < ncpus s \<Longrightarrow> c' < ncpus s \<Longrightarrow> (c, b) \<noteq> (c', b') \<Longrightarrow> nodes s Q c b \<inter> nodes s Q c' b' = {}"
    and "\<And>t. t_status (tasks s t) = kWaitingInQueue \<Longrightarrow> \<exists>c < ncpus s. \<exists>b. t \<in> set (Q c b)"
  shows "task_inv s Q"
  unfolding task_inv_def using assms by blast

lemma task_inv_waiting:
  "task_inv s Q \<Longrightarrow> t_status (tasks s t) = kWaitingInQueue \<Longrightarrow> \<exists>c < ncpus s. \<exists>b. t \<in> set (Q c b)"
  unfolding task_inv_def by blast

lemma task_inv_cong:
  "tasks s' = tasks s \<Longrightarrow> ncpus s' = ncpus s \<Longrightarrow> q_guard s' = q_guard s \<Longrightarrow> q_last s' = q_last s \<Longrightarrow>
   task_inv s' Q = task_inv s Q"
  unfolding task_inv_def nodes_def by simp

lemma task_inv_queue: "task_inv s Q \<Longrightarrow> c < ncpus s \<Longrightarrow> queue_ok c (tasks s) (q_guard s c b) (q_last s c b) (Q c b)"
  by (simp add: task_inv_def)

lemma task_inv_disjoint:
  assumes "task_inv s Q" and "c < ncpus s" and "c' < ncpus s" and "(c, b) \<noteq> (c', b')"
    and "x \<in> nodes s Q c b"
  shows "x \<notin> nodes s Q c' b'"
  using assms unfolding task_inv_def by blast

lemma nodes_status:
  assumes "task_inv s Q" and "c < ncpus s" and "x \<in> nodes s Q c b"
  shows "t_status (tasks s x) = kGuard \<or> t_status (tasks s x) = kWaitingInQueue"
  using task_inv_queue [OF assms(1,2), of b] assms(3) by (auto simp: queue_ok_def nodes_def)

lemma q_last_in_nodes: "task_inv s Q \<Longrightarrow> c < ncpus s \<Longrightarrow> q_last s c b \<in> nodes s Q c b"
  using task_inv_queue [of s Q c b] last_in_set [of "q_guard s c b # Q c b"]
  by (simp add: queue_ok_def nodes_def del: last.simps)

lemma task_inv_ipis [simp]: "task_inv (s \<lparr> ipis := l \<rparr>) Q = task_inv s Q"
  by (simp add: task_inv_def q_guard_def q_last_def nodes_def)

lemma ForceWakeup_ok: "apic c < ncpus s \<Longrightarrow> \<exists>l. ForceWakeup apic cur c s = Inr (s \<lparr> ipis := l \<rparr>)"
  by (auto simp: ForceWakeup_def get_struct_def Let_def intro: exI [of _ "ipis s"])

text \<open>What an operation on the queues leaves alone, and the statuses after it.\<close>

definition only_queues :: "TaskCtrl \<Rightarrow> (nat \<Rightarrow> Status) \<Rightarrow> TaskCtrl \<Rightarrow> bool" where
  "only_queues s st s' \<longleftrightarrow> ncpus s' = ncpus s \<and> callouts s' = callouts s \<and>
     (\<forall>c. q_state (structs s' c) = q_state (structs s c) \<and> q_dtop (structs s' c) = q_dtop (structs s c)) \<and>
     (\<forall>x. t_status (tasks s' x) = st x)"

definition stat :: "TaskCtrl \<Rightarrow> nat \<Rightarrow> Status" where
  "stat s t = t_status (tasks s t)"

lemma Register_ok:
  assumes inv: "task_inv s Q" and c: "c < ncpus s" "apic c < ncpus s"
    and t: "stat s t = kOutOfQueue \<or> stat s t = kRunning"
  shows "\<exists>s'. Register apic cur c t s = Inr s' \<and> task_inv s' (Q_upd c True (Q c True @ [t]) Q) \<and>
    only_queues s ((stat s)(t := kWaitingInQueue)) s'"
proof -
  define b where "b = q_bottom_sub (structs s c)"
  define s1 where "s1 = upd_struct c (\<lambda>x. x \<lparr> q_bottom_sub := t \<rparr>)
    (upd_task t (\<lambda>x. x \<lparr> t_prev := Some b \<rparr>) (upd_task b (\<lambda>x. x \<lparr> t_next := Some t \<rparr>)
      (upd_task t (\<lambda>x. x \<lparr> t_next := None, t_status := kWaitingInQueue, t_cpuid := c \<rparr>) s)))"
  have out: "t \<notin> nodes s Q c' b'" if "c' < ncpus s" for c' b'
    using nodes_status [OF inv that, of t b'] t by (auto simp: stat_def)
  have b: "b = q_last s c True" "b \<noteq> t"
    using q_last_in_nodes [OF inv c(1), of True] out [OF c(1), of True] by (auto simp: b_def q_last_def)
  have eq: "Register apic cur c t s = ForceWakeup apic cur c s1"
    using t c(1) by (auto simp: Register_def IsRegistered_def stat_def get_struct_def s1_def b_def Let_def)
  have T: "tasks s1 b = (tasks s b) \<lparr> t_next := Some t \<rparr>"
      "t_next (tasks s1 t) = None" "t_prev (tasks s1 t) = Some b" "t_status (tasks s1 t) = kWaitingInQueue"
      "t_cpuid (tasks s1 t) = c" "\<And>x. x \<noteq> b \<Longrightarrow> x \<noteq> t \<Longrightarrow> tasks s1 x = tasks s x"
    using b(2) by (simp_all add: s1_def upd_defs)
  have "task_inv s1 (Q_upd c True (Q c True @ [t]) Q)"
  proof (rule task_inv_one [OF inv c(1), where t = t])
    show "queue_ok c (tasks s1) (q_guard s c True) (q_last s1 c True) (Q c True @ [t])"
      using queue_ok_snoc [OF task_inv_queue [OF inv c(1), of True], of t "tasks s1"] T b out [OF c(1), of True]
      by (simp add: nodes_def s1_def upd_defs q_last_def)
    show "tasks s1 x = tasks s x" if "x \<notin> nodes s Q c True" "x \<noteq> t" for x
      using that T(6) [of x] q_last_in_nodes [OF inv c(1), of True] b(1) by auto
    show "x \<in> set (Q c True @ [t])" if "x \<in> insert t (set (Q c True))" for x
      using that by auto
  qed (use out in \<open>auto simp: s1_def upd_defs q_guard_def q_last_def split: if_splits\<close>)
  moreover obtain l where "ForceWakeup apic cur c s1 = Inr (s1 \<lparr> ipis := l \<rparr>)"
    using ForceWakeup_ok [of apic c s1] c(2) by (auto simp: s1_def upd_defs)
  moreover have "only_queues s ((stat s)(t := kWaitingInQueue)) (s1 \<lparr> ipis := l \<rparr>)"
    using b(2) by (auto simp: only_queues_def s1_def upd_defs stat_def)
  ultimately show ?thesis using eq by auto
qed

lemma Register_waiting: "stat s t = kWaitingInQueue \<Longrightarrow> Register apic cur c t s = Inl Kernel_Panic"
  by (simp add: Register_def IsRegistered_def stat_def)

text \<open>Unlinking the task \<open>t\<close> from queue \<open>b\<close> of processor \<open>c\<close>, in the way \<open>Remove\<close> and \<open>Run\<close> do it.\<close>

lemma unlink_inv:
  assumes inv: "task_inv s Q" and c: "c < ncpus s" and split: "Q c b = us @ t # vs" and p: "p = last (q_guard s c b # us)"
    and n: "ncpus s' = ncpus s"
    and ends: "\<And>c' b'. (c', b') \<noteq> (c, b) \<Longrightarrow> q_last s' c' b' = q_last s c' b'"
    and guards: "\<And>c' b'. q_guard s' c' b' = q_guard s c' b'"
    and bot: "q_last s' c b = (if vs = [] then p else q_last s c b)"
    and T: "tasks s' p = (tasks s p) \<lparr> t_next := t_next (tasks s t) \<rparr>"
      "\<And>v ws. vs = v # ws \<Longrightarrow> tasks s' v = (tasks s v) \<lparr> t_prev := Some p \<rparr>"
      "\<And>x. x \<noteq> p \<Longrightarrow> x \<noteq> t \<Longrightarrow> x \<notin> set (take 1 vs) \<Longrightarrow> tasks s' x = tasks s x"
    and st: "t_status (tasks s' t) \<noteq> kWaitingInQueue"
  shows "task_inv s' (Q_upd c b (us @ vs) Q)"
proof (rule task_inv_one [OF inv c n, where t = t])
  have q: "queue_ok c (tasks s) (q_guard s c b) (q_last s c b) (us @ t # vs)"
    using task_inv_queue [OF inv c, of b] split by simp
  show "queue_ok c (tasks s') (q_guard s c b) (q_last s' c b) (us @ vs)"
    unfolding bot by (rule queue_ok_del [OF q p T])
  have pin: "p \<in> nodes s Q c b" unfolding nodes_def split p by auto
  show "tasks s' x = tasks s x" if "x \<notin> nodes s Q c b" "x \<noteq> t" for x
    using that pin by (intro T(3)) (auto simp: nodes_def split dest: in_set_takeD)
  show "t \<notin> nodes s Q c' b'" if "c' < ncpus s" "(c', b') \<noteq> (c, b)" for c' b'
    using task_inv_disjoint [OF inv c that(1), of b b' t] that(2) by (auto simp: nodes_def split)
  show "x \<in> set (us @ vs)" if "x \<in> insert t (set (Q c b))" "t_status (tasks s' x) = kWaitingInQueue" for x
    using that st by (cases "x = t") (auto simp: split)
qed (use ends guards split in auto)

lemma Remove_ok:
  assumes inv: "task_inv s Q" and c: "c < ncpus s" and cur: "cur < ncpus s" and t: "t \<in> set (Q c b)"
    and bottom: "cur = c \<or> t \<noteq> last (Q c b)"
  shows "\<exists>s'. Remove cur t s = Inr s' \<and> task_inv s' (Q_upd c b (remove1 t (Q c b)) Q) \<and>
    only_queues s ((stat s)(t := kOutOfQueue)) s'"
proof -
  obtain us vs where split: "Q c b = us @ t # vs" and us: "t \<notin> set us" using split_list_first [OF t] by blast
  define p where "p = last (q_guard s c b # us)"
  have q: "queue_ok c (tasks s) (q_guard s c b) (q_last s c b) (us @ t # vs)"
    using task_inv_queue [OF inv c, of b] split by simp
  note mid = queue_ok_mid [OF q, folded p_def]
  have d: "distinct (q_guard s c b # us @ t # vs)" and w: "t_status (tasks s t) = kWaitingInQueue"
    using q by (auto simp: queue_ok_def)
  have pin: "p \<in> set (q_guard s c b # us)" unfolding p_def by (rule last_in_set) simp
  have ne: "p \<noteq> t" "p \<notin> set vs" "t \<notin> set vs" using pin d by auto
  have notbot: "t \<noteq> q_last s c (\<not> b)"
    using task_inv_disjoint [OF inv c c, of b "\<not> b" t] q_last_in_nodes [OF inv c, of "\<not> b"]
    by (auto simp: nodes_def split)
  define s2 where "s2 = upd_task p (\<lambda>x. x \<lparr> t_next := t_next (tasks s t) \<rparr>)
    (upd_task t (\<lambda>x. x \<lparr> t_next := None, t_prev := None \<rparr>) s)"
  define s3 where "s3 = (case vs of [] \<Rightarrow> (if b then upd_struct c (\<lambda>x. x \<lparr> q_bottom_sub := p \<rparr>) s2
      else upd_struct c (\<lambda>x. x \<lparr> q_bottom := p \<rparr>) s2)
    | v # _ \<Rightarrow> upd_task v (\<lambda>x. x \<lparr> t_prev := Some p \<rparr>) s2)"
  define s' where "s' = upd_task t (\<lambda>x. x \<lparr> t_status := kOutOfQueue \<rparr>)
    (upd_task p (\<lambda>x. x \<lparr> t_next := t_next (tasks s t) \<rparr>) s3)"
  have eq: "Remove cur t s = Inr s'"
  proof (cases vs)
    case Nil
    have "cur = c" using bottom d us Nil split by auto
    with Nil show ?thesis
      using w c mid notbot by (auto simp: Remove_def get_struct_def s'_def s3_def s2_def q_last_def Let_def)
  next
    case (Cons v ws)
    then show ?thesis
      using w cur mid by (simp add: Remove_def get_struct_def s'_def s3_def s2_def Let_def)
  qed
  have "task_inv s' (Q_upd c b (us @ vs) Q)"
  proof (rule unlink_inv [OF inv c split p_def])
    show "tasks s' v = (tasks s v) \<lparr> t_prev := Some p \<rparr>" if "vs = v # ws" for v ws
      using ne that by (simp add: s'_def s3_def s2_def upd_defs)
  qed (use ne in \<open>cases vs; auto simp: s'_def s3_def s2_def upd_defs q_last_def q_guard_def split: if_splits\<close>)+
  moreover have "remove1 t (Q c b) = us @ vs" using split us by (simp add: remove1_append)
  moreover have "only_queues s ((stat s)(t := kOutOfQueue)) s'"
    using ne by (cases vs) (auto simp: only_queues_def s'_def s3_def s2_def upd_defs stat_def)
  ultimately show ?thesis using eq by auto
qed

text \<open>\<open>Remove\<close> looks for the task in the queues of the processor that calls it: the last task of a queue
  of another processor is not found there and an assertion fails.\<close>

theorem Remove_from_other_processor:
  assumes "task_inv s Q" and "c < ncpus s" and "cur < ncpus s" and "c \<noteq> cur" and "Q c b = us @ [t]"
  shows "Remove cur t s = Inl Kassert"
proof -
  have q: "queue_ok c (tasks s) (q_guard s c b) (q_last s c b) (us @ t # [])"
    using task_inv_queue [OF assms(1,2), of b] assms(5) by simp
  have w: "t_status (tasks s t) = kWaitingInQueue" using q by (simp add: queue_ok_def)
  have "t \<in> nodes s Q c b" using assms(5) by (simp add: nodes_def)
  then have "t \<noteq> q_last s cur b'" for b'
    using task_inv_disjoint [OF assms(1,2,3), of b b'] q_last_in_nodes [OF assms(1,3), of b'] assms(4) by auto
  from this [of True] this [of False] show ?thesis
    using w queue_ok_mid [OF q] assms(3) by (simp add: Remove_def get_struct_def q_last_def)
qed

lemma Remove_not_waiting:
  assumes "task_inv s Q" and "stat s t = kRunning \<or> stat s t = kOutOfQueue"
  shows "\<exists>s'. Remove cur t s = Inr s' \<and> task_inv s' Q \<and> only_queues s ((stat s)(t := kOutOfQueue)) s'"
proof -
  define s' where "s' = upd_task t (\<lambda>x. x \<lparr> t_status := kOutOfQueue \<rparr>) s"
  have out: "t \<notin> nodes s Q c b" if "c < ncpus s" for c b
    using nodes_status [OF assms(1) that, of t b] assms(2) by (auto simp: stat_def)
  have same: "q_guard s' = q_guard s" "q_last s' = q_last s" "nodes s' Q = nodes s Q" "ncpus s' = ncpus s"
    by (auto simp: fun_eq_iff s'_def upd_defs q_guard_def q_last_def nodes_def)
  have "task_inv s' Q"
  proof (rule task_invI)
    show "queue_ok c (tasks s') (q_guard s' c b) (q_last s' c b) (Q c b)" if "c < ncpus s'" for c b
      using out [of c b] that unfolding same
      by (intro queue_ok_frame [OF task_inv_queue [OF assms(1)]]) (auto simp: s'_def upd_defs nodes_def)
    show "nodes s' Q c b \<inter> nodes s' Q c' b' = {}" if "c < ncpus s'" "c' < ncpus s'" "(c, b) \<noteq> (c', b')" for c b c' b'
      using assms(1) that unfolding same task_inv_def by blast
    show "\<exists>c < ncpus s'. \<exists>b. x \<in> set (Q c b)" if "t_status (tasks s' x) = kWaitingInQueue" for x
      using assms(1) that unfolding same task_inv_def by (auto simp: s'_def upd_defs split: if_splits)
  qed
  moreover have "only_queues s ((stat s)(t := kOutOfQueue)) s'"
    by (auto simp: only_queues_def s'_def upd_defs stat_def)
  moreover have "only_queues s ((stat s)(t := kOutOfQueue)) s" if "stat s t = kOutOfQueue"
    using that by (auto simp: only_queues_def stat_def)
  ultimately show ?thesis
    using assms by (auto simp: Remove_def s'_def stat_def)
qed

lemma run_pop_empty:
  assumes "task_inv s Q" and "c < ncpus s" and "Q c False = []"
  shows "run_pop c s = Inr (None, s)"
  using task_inv_queue [OF assms(1,2), of False] assms(3)
  by (auto simp: queue_ok_def run_pop_def q_guard_def q_last_def Let_def)

lemma run_pop_ok:
  assumes inv: "task_inv s Q" and c: "c < ncpus s" and Q: "Q c False = t # vs"
  shows "\<exists>s'. run_pop c s = Inr (Some t, s') \<and> task_inv s' (Q_upd c False vs Q) \<and>
    only_queues s ((stat s)(t := kRunning)) s'"
proof -
  define g where "g = q_guard s c False"
  have q: "queue_ok c (tasks s) g (q_last s c False) ([] @ t # vs)"
    using task_inv_queue [OF inv c, of False] Q by (simp add: g_def)
  note mid = queue_ok_mid [OF q, simplified]
  have d: "distinct (g # t # vs)" and w: "t_status (tasks s t) = kWaitingInQueue"
    using q by (auto simp: queue_ok_def)
  define s2 where "s2 = (case vs of
      [] \<Rightarrow> upd_struct c (\<lambda>x. x \<lparr> q_bottom := g \<rparr>) (upd_task g (\<lambda>x. x \<lparr> t_next := None \<rparr>) s)
    | v # _ \<Rightarrow> upd_task v (\<lambda>x. x \<lparr> t_prev := Some g \<rparr>) (upd_task g (\<lambda>x. x \<lparr> t_next := Some v \<rparr>) s))"
  define s' where "s' = upd_task t (\<lambda>x. x \<lparr> t_status := kRunning, t_next := None, t_prev := None \<rparr>) s2"
  have "t_status (tasks s2 t) = kWaitingInQueue"
    using d w by (cases vs) (auto simp: s2_def upd_defs)
  then have eq: "run_pop c s = Inr (Some t, s')"
    using mid by (cases vs) (simp_all add: run_pop_def g_def q_guard_def q_last_def s'_def s2_def Let_def)
  have "task_inv s' (Q_upd c False ([] @ vs) Q)"
  proof (rule unlink_inv [OF inv c, where t = t and p = g])
    show "tasks s' v = (tasks s v) \<lparr> t_prev := Some g \<rparr>" if "vs = v # ws" for v ws
      using d that by (auto simp: s'_def s2_def upd_defs)
    show "tasks s' g = (tasks s g) \<lparr> t_next := t_next (tasks s t) \<rparr>"
      using d mid by (cases vs) (auto simp: s'_def s2_def upd_defs)
  qed (use d Q in \<open>cases vs; auto simp: s'_def s2_def upd_defs q_last_def q_guard_def g_def split: if_splits\<close>)+
  moreover have "only_queues s ((stat s)(t := kRunning)) s'"
    using d by (cases vs) (auto simp: only_queues_def s'_def s2_def upd_defs stat_def)
  ultimately show ?thesis using eq by auto
qed

lemma run_finish_ok:
  assumes "task_inv s Q"
  shows "task_inv (run_finish t s) Q \<and>
    only_queues s (if stat s t = kRunning then (stat s)(t := kOutOfQueue) else stat s) (run_finish t s)"
proof (cases "stat s t = kRunning")
  case True
  then have "Remove cur t s = Inr (run_finish t s)" for cur
    by (simp add: Remove_def run_finish_def stat_def)
  then show ?thesis using Remove_not_waiting [OF assms, of t] True by auto
next
  case False
  then show ?thesis using assms by (auto simp: run_finish_def stat_def only_queues_def)
qed

definition Q_swap :: "nat \<Rightarrow> (nat \<Rightarrow> bool \<Rightarrow> nat list) \<Rightarrow> nat \<Rightarrow> bool \<Rightarrow> nat list" where
  "Q_swap c Q = Q(c := (\<lambda>b. Q c (\<not> b)))"

lemma q_empty_iff:
  assumes "task_inv s Q" and "c < ncpus s"
  shows "t_next (tasks s (q_guard s c b)) = None \<longleftrightarrow> Q c b = []"
  using task_inv_queue [OF assms, of b] by (cases "Q c b") (auto simp: queue_ok_def)

lemma run_swap_sleeps:
  assumes "task_inv s Q" and "c < ncpus s" and "Q c False = []" and "Q c True = []"
  shows "run_swap c s = (True, upd_struct c (\<lambda>x. x \<lparr> q_state := kSlept \<rparr>) s)"
  using q_empty_iff [OF assms(1,2), of False] q_empty_iff [OF assms(1,2), of True] assms(3,4)
  by (simp add: run_swap_def q_guard_def Let_def)

lemma task_inv_state [simp]:
  "task_inv (upd_struct c (\<lambda>x. x \<lparr> q_state := l \<rparr>) s) Q = task_inv s Q"
  "task_inv (upd_struct c (\<lambda>x. x \<lparr> q_dtop := ds \<rparr>) s) Q = task_inv s Q"
  "task_inv (upd_callout d f s) Q = task_inv s Q"
  by (intro task_inv_cong; simp add: fun_eq_iff q_guard_def q_last_def upd_defs)+

lemma run_swap_swaps:
  assumes inv: "task_inv s Q" and c: "c < ncpus s" and ne: "Q c False \<noteq> [] \<or> Q c True \<noteq> []"
  shows "\<exists>s'. run_swap c s = (False, s') \<and> task_inv s' (Q_swap c Q) \<and> only_queues s (stat s) s'"
proof -
  define q where "q = structs s c"
  define s' where "s' = upd_struct c (\<lambda>x. x \<lparr> q_top := q_top_sub q, q_top_sub := q_top q,
       q_bottom := q_bottom_sub q, q_bottom_sub := q_bottom q \<rparr>) s"
  have eq: "run_swap c s = (False, s')"
    using q_empty_iff [OF inv c, of False] q_empty_iff [OF inv c, of True] ne
    by (auto simp: run_swap_def q_guard_def q_def s'_def Let_def)
  have ends: "q_guard s' c' b' = q_guard s c' (if c' = c then \<not> b' else b')"
      "q_last s' c' b' = q_last s c' (if c' = c then \<not> b' else b')"
      "Q_swap c Q c' b' = Q c' (if c' = c then \<not> b' else b')" for c' b'
    by (auto simp: s'_def upd_defs q_def q_guard_def q_last_def Q_swap_def)
  have T: "tasks s' = tasks s" "ncpus s' = ncpus s" by (simp_all add: s'_def upd_defs)
  have nodes': "nodes s' (Q_swap c Q) c' b' = nodes s Q c' (if c' = c then \<not> b' else b')" for c' b'
    by (simp add: nodes_def ends)
  have A: "queue_ok c' (tasks s') (q_guard s' c' b') (q_last s' c' b') (Q_swap c Q c' b')" if "c' < ncpus s'" for c' b'
    unfolding ends T(1) using task_inv_queue [OF inv] that T(2) by simp
  have B: "nodes s' (Q_swap c Q) c1 b1 \<inter> nodes s' (Q_swap c Q) c2 b2 = {}"
    if "c1 < ncpus s'" "c2 < ncpus s'" "(c1, b1) \<noteq> (c2, b2)" for c1 b1 c2 b2
  proof -
    have "(c1, if c1 = c then \<not> b1 else b1) \<noteq> (c2, if c2 = c then \<not> b2 else b2)"
      using that(3) by (auto split: if_splits)
    then show ?thesis unfolding nodes' using inv that(1,2) T(2) unfolding task_inv_def by simp
  qed
  have C: "\<exists>c' < ncpus s'. \<exists>b'. x \<in> set (Q_swap c Q c' b')" if w: "t_status (tasks s' x) = kWaitingInQueue" for x
  proof -
    obtain c' b' where cb: "c' < ncpus s" "x \<in> set (Q c' b')" using task_inv_waiting [OF inv, of x] w T(1) by auto
    then have "x \<in> set (Q_swap c Q c' (if c' = c then \<not> b' else b'))" unfolding ends by (auto split: if_splits)
    then show ?thesis using cb(1) T(2) by auto
  qed
  have "task_inv s' (Q_swap c Q)" unfolding task_inv_def using A B C by blast
  moreover have "only_queues s (stat s) s'" by (auto simp: only_queues_def s'_def upd_defs stat_def)
  ultimately show ?thesis using eq by blast
qed

section \<open>Refinement of the abstract scheduler\<close>

text \<open>
  The abstract scheduler: two lists per processor and a status per task. An event also gives the task that
  starts to run. Registering a task that waits already is a panic. A task that waits can be removed from any
  processor as long as another task is behind it in its queue; when it is the last one, only the processor of
  the queue may do so, and on any other one an assertion fails.
\<close>

datatype task_ev = ERegister nat nat nat | ERemove nat nat | EPop nat | EFinish nat | ESwap nat

type_synonym sched = "(nat \<Rightarrow> bool \<Rightarrow> nat list) \<times> (nat \<Rightarrow> Status)"

definition waits_in :: "nat \<Rightarrow> (nat \<Rightarrow> bool \<Rightarrow> nat list) \<Rightarrow> nat \<Rightarrow> (nat \<times> bool) option" where
  "waits_in n Q t = find (\<lambda>(c, b). t \<in> set (Q c b)) (List.product [0..<n] [True, False])"

fun sched_step :: "nat \<Rightarrow> task_ev \<Rightarrow> sched \<Rightarrow> (nat option \<times> sched) kres" where
  "sched_step n (ERegister cur c t) (Q, st) = (if st t = kWaitingInQueue then Inl Kernel_Panic
     else Inr (None, Q_upd c True (Q c True @ [t]) Q, st(t := kWaitingInQueue)))"
| "sched_step n (ERemove cur t) (Q, st) = (if st t = kGuard then Inl Kassert
     else if st t \<noteq> kWaitingInQueue then Inr (None, Q, st(t := kOutOfQueue))
     else (case waits_in n Q t of None \<Rightarrow> Inl Kassert
       | Some (c, b) \<Rightarrow> if cur = c \<or> t \<noteq> last (Q c b)
           then Inr (None, Q_upd c b (remove1 t (Q c b)) Q, st(t := kOutOfQueue)) else Inl Kassert))"
| "sched_step n (EPop c) (Q, st) = Inr (case Q c False of [] \<Rightarrow> (None, Q, st)
     | t # ts \<Rightarrow> (Some t, Q_upd c False ts Q, st(t := kRunning)))"
| "sched_step n (EFinish t) (Q, st) = Inr (None, Q, if st t = kRunning then st(t := kOutOfQueue) else st)"
| "sched_step n (ESwap c) (Q, st) = Inr (None, Q_swap c Q, st)"

text \<open>The processors of an event exist, and no guard node is registered; the guards (\<open>G\<close>) are private to the controller.\<close>

fun ev_ok :: "nat \<Rightarrow> (nat \<Rightarrow> bool) \<Rightarrow> task_ev \<Rightarrow> bool" where
  "ev_ok n G (ERegister cur c t) = (c < n \<and> \<not> G t)"
| "ev_ok n G (ERemove cur t) = (cur < n)"
| "ev_ok n G (EPop c) = (c < n)"
| "ev_ok n G (EFinish t) = True"
| "ev_ok n G (ESwap c) = (c < n)"

fun task_step :: "(nat \<Rightarrow> nat) \<Rightarrow> task_ev \<Rightarrow> TaskCtrl \<Rightarrow> (nat option \<times> TaskCtrl) kres" where
  "task_step apic (ERegister cur c t) s = kmap (Pair None) (Register apic cur c t s)"
| "task_step apic (ERemove cur t) s = kmap (Pair None) (Remove cur t s)"
| "task_step apic (EPop c) s = run_pop c s"
| "task_step apic (EFinish t) s = Inr (None, run_finish t s)"
| "task_step apic (ESwap c) s = Inr (None, snd (run_swap c s))"

fun task_run :: "(nat \<Rightarrow> nat) \<Rightarrow> task_ev list \<Rightarrow> TaskCtrl \<Rightarrow> (nat option list \<times> TaskCtrl) kres" where
  "task_run apic [] s = Inr ([], s)"
| "task_run apic (e # es) s = kbind (task_step apic e s) (\<lambda>(r, s1). kmap (\<lambda>(rs, s2). (r # rs, s2)) (task_run apic es s1))"

fun sched_run :: "nat \<Rightarrow> task_ev list \<Rightarrow> sched \<Rightarrow> (nat option list \<times> sched) kres" where
  "sched_run n [] a = Inr ([], a)"
| "sched_run n (e # es) a = kbind (sched_step n e a) (\<lambda>(r, a1). kmap (\<lambda>(rs, a2). (r # rs, a2)) (sched_run n es a1))"

lemma stat_upd_struct [simp]: "stat (upd_struct c f s) = stat s" "ncpus (upd_struct c f s) = ncpus s"
  by (simp_all add: stat_def fun_eq_iff upd_struct_def)

definition implements :: "TaskCtrl \<Rightarrow> sched \<Rightarrow> bool" where
  "implements s a \<longleftrightarrow> task_inv s (fst a) \<and> stat s = snd a"

lemma only_queues_stat: "only_queues s st s' \<Longrightarrow> stat s' = st \<and> ncpus s' = ncpus s"
  by (auto simp: only_queues_def stat_def)

lemma Q_swap_empty: "Q c False = [] \<Longrightarrow> Q c True = [] \<Longrightarrow> Q_swap c Q = Q"
  unfolding Q_swap_def by (rule fun_upd_idem) (auto simp: fun_eq_iff all_bool_eq)

lemma waits_in_waiting:
  assumes "task_inv s Q" and "stat s t = kWaitingInQueue"
  obtains c b where "waits_in (ncpus s) Q t = Some (c, b)" "c < ncpus s" "t \<in> set (Q c b)"
proof (cases "waits_in (ncpus s) Q t")
  case None
  obtain c b where "c < ncpus s" "t \<in> set (Q c b)" using task_inv_waiting [OF assms(1), of t] assms(2) by (auto simp: stat_def)
  then show ?thesis using None by (force simp: waits_in_def find_None_iff)
next
  case (Some cb)
  have "find P xs = Some x \<Longrightarrow> x \<in> set xs \<and> P x" for P xs and x :: "nat \<times> bool" by (induction xs) (auto split: if_splits)
  from this [OF Some [unfolded waits_in_def]] show ?thesis using that Some by (cases cb) auto
qed

text \<open>One event: the controller and the scheduler stop in the same way or go on to states that correspond.\<close>

definition agree :: "nat \<Rightarrow> (nat \<Rightarrow> bool) \<Rightarrow> ('r \<times> TaskCtrl) kres \<Rightarrow> ('r \<times> sched) kres \<Rightarrow> bool" where
  "agree n G r a = (case a of Inl k \<Rightarrow> r = Inl k
     | Inr (x, a') \<Rightarrow> \<exists>s'. r = Inr (x, s') \<and> implements s' a' \<and> ncpus s' = n \<and> (\<forall>t. snd a' t = kGuard \<longleftrightarrow> G t))"

lemma agreeI:
  "r = Inr (x, s') \<Longrightarrow> a = Inr (x, Q, stat s') \<Longrightarrow> task_inv s' Q \<Longrightarrow> ncpus s' = n \<Longrightarrow> (\<And>t. stat s' t = kGuard \<longleftrightarrow> G t) \<Longrightarrow> agree n G r a"
  by (simp add: agree_def implements_def)

lemma Remove_agrees:
  assumes inv: "task_inv s Q" and cur: "cur < ncpus s" and G: "\<And>t. stat s t = kGuard \<longleftrightarrow> G t"
  shows "agree (ncpus s) G (kmap (Pair None) (Remove cur t s)) (sched_step (ncpus s) (ERemove cur t) (Q, stat s))"
proof (cases "stat s t")
  case kWaitingInQueue
  then obtain c b where cb: "waits_in (ncpus s) Q t = Some (c, b)" "c < ncpus s" "t \<in> set (Q c b)" using waits_in_waiting [OF inv] by blast
  show ?thesis
  proof (cases "cur = c \<or> t \<noteq> last (Q c b)")
    case True
    from Remove_ok [OF inv cb(2) cur cb(3) True] obtain s' where s': "Remove cur t s = Inr s'"
      "task_inv s' (Q_upd c b (remove1 t (Q c b)) Q)" "only_queues s ((stat s)(t := kOutOfQueue)) s'" by blast
    note st = only_queues_stat [OF s'(3)]
    have "\<not> G t" using G [of t] kWaitingInQueue by simp
    then show ?thesis by (intro agreeI [OF _ _ s'(2)]) (use s'(1) st kWaitingInQueue cb(1) True G in auto)
  next
    case False
    have "Q c b \<noteq> []" using cb(3) by auto
    then have "Q c b = butlast (Q c b) @ [t]" using False append_butlast_last_id [of "Q c b"] by simp
    then have "Remove cur t s = Inl Kassert" using Remove_from_other_processor [OF inv cb(2) cur] False by blast
    then show ?thesis using kWaitingInQueue cb(1) False by (simp add: agree_def)
  qed
next
  case kGuard
  then show ?thesis by (simp add: agree_def Remove_def stat_def)
qed (use Remove_not_waiting [OF inv, of t cur] only_queues_stat [of s] G in \<open>force simp: agree_def implements_def\<close>)+

lemma task_step_agrees:
  assumes inv: "task_inv s Q" and ok: "ev_ok (ncpus s) G e" and apic: "\<forall>c < ncpus s. apic c < ncpus s" and G: "\<And>t. stat s t = kGuard \<longleftrightarrow> G t"
  shows "agree (ncpus s) G (task_step apic e s) (sched_step (ncpus s) e (Q, stat s))"
proof (cases e)
  case (ERegister cur c t)
  show ?thesis
  proof (cases "stat s t = kWaitingInQueue")
    case True
    then show ?thesis by (simp add: ERegister agree_def Register_waiting)
  next
    case False
    then have "stat s t = kOutOfQueue \<or> stat s t = kRunning" using ok G [of t] by (cases "stat s t") (auto simp: ERegister)
    then obtain s' where s': "Register apic cur c t s = Inr s'" "task_inv s' (Q_upd c True (Q c True @ [t]) Q)"
      "only_queues s ((stat s)(t := kWaitingInQueue)) s'"
      using Register_ok [OF inv, of c apic t cur] ok apic by (auto simp: ERegister)
    note st = only_queues_stat [OF s'(3)]
    show ?thesis by (rule agreeI [OF _ _ s'(2)]) (use s'(1) st False ok G in \<open>auto simp: ERegister\<close>)
  qed
next
  case (ERemove cur t)
  then show ?thesis using Remove_agrees [OF inv _ G, of cur t] ok by simp
next
  case (EPop c)
  have c: "c < ncpus s" using ok by (simp add: EPop)
  show ?thesis
  proof (cases "Q c False")
    case Nil
    then show ?thesis using run_pop_empty [OF inv c] inv G by (simp add: EPop agree_def implements_def)
  next
    case (Cons t ts)
    obtain s' where s': "run_pop c s = Inr (Some t, s')" "task_inv s' (Q_upd c False ts Q)" "only_queues s ((stat s)(t := kRunning)) s'"
      using run_pop_ok [OF inv c Cons] by blast
    note st = only_queues_stat [OF s'(3)]
    have "stat s t = kWaitingInQueue" using task_inv_queue [OF inv c, of False] Cons by (simp add: queue_ok_def stat_def)
    then have "\<not> G t" using G [of t] by simp
    then show ?thesis by (intro agreeI [OF _ _ s'(2)]) (use s'(1) st Cons G in \<open>auto simp: EPop\<close>)
  qed
next
  case (EFinish t)
  have "stat s t = kRunning \<Longrightarrow> \<not> G t" using G [of t] by simp
  then show ?thesis using run_finish_ok [OF inv, of t] only_queues_stat [of s _ "run_finish t s"] G by (auto simp: EFinish agree_def implements_def)
next
  case (ESwap c)
  have c: "c < ncpus s" using ok by (simp add: ESwap)
  show ?thesis
  proof (cases "Q c False = [] \<and> Q c True = []")
    case True
    then show ?thesis using run_swap_sleeps [OF inv c] inv Q_swap_empty [of Q c] G by (simp add: ESwap agree_def implements_def)
  next
    case False
    then obtain s' where s': "run_swap c s = (False, s')" "task_inv s' (Q_swap c Q)" "only_queues s (stat s) s'"
      using run_swap_swaps [OF inv c] by blast
    note st = only_queues_stat [OF s'(3)]
    show ?thesis by (rule agreeI [OF _ _ s'(2)]) (use s'(1) st G in \<open>auto simp: ESwap\<close>)
  qed
qed

lemma task_run_agrees:
  assumes "task_inv s Q" and "\<forall>e \<in> set es. ev_ok (ncpus s) G e" and "\<forall>c < ncpus s. apic c < ncpus s" and "\<And>t. stat s t = kGuard \<longleftrightarrow> G t"
  shows "agree (ncpus s) G (task_run apic es s) (sched_run (ncpus s) es (Q, stat s))"
  using assms
proof (induction es arbitrary: s Q)
  case Nil
  then show ?case by (simp add: agree_def implements_def)
next
  case (Cons e es)
  have step: "agree (ncpus s) G (task_step apic e s) (sched_step (ncpus s) e (Q, stat s))" using task_step_agrees Cons.prems by simp
  show ?case
  proof (cases "sched_step (ncpus s) e (Q, stat s)")
    case (Inl k)
    then show ?thesis using step by (simp add: agree_def)
  next
    case (Inr xa)
    obtain x Q1 st1 where xa: "xa = (x, Q1, st1)" by (cases xa) auto
    obtain s1 where s1: "task_step apic e s = Inr (x, s1)" "task_inv s1 Q1" "st1 = stat s1" "ncpus s1 = ncpus s" "\<And>t. stat s1 t = kGuard \<longleftrightarrow> G t"
      using step Inr by (auto simp: xa agree_def implements_def)
    have "agree (ncpus s) G (task_run apic es s1) (sched_run (ncpus s) es (Q1, stat s1))"
      using Cons.IH [OF s1(2)] Cons.prems(2,3) s1(4,5) by simp
    then show ?thesis using Inr s1(1,3)
      by (cases "sched_run (ncpus s) es (Q1, stat s1)") (auto simp: xa agree_def)
  qed
qed

lemma Setup_inv: "task_inv (TaskCtrl_Setup n cs) (\<lambda>_ _. [])"
proof (rule task_invI)
  show "nodes (TaskCtrl_Setup n cs) (\<lambda>_ _. []) c b \<inter> nodes (TaskCtrl_Setup n cs) (\<lambda>_ _. []) c' b' = {}"
    if "(c, b) \<noteq> (c', b')" for c b c' b'
    using that by (auto simp: nodes_def q_guard_def TaskCtrl_Setup_def TaskStruct_new_def; presburger)
qed (auto simp: TaskCtrl_Setup_def TaskStruct_new_def guard_node_def Task_new_def queue_ok_def q_guard_def q_last_def split: if_splits)


definition task_demo :: "task_ev list" where
  "task_demo = [ERegister 0 1 4, ERegister 0 1 5, ERegister 1 0 6, ESwap 1, ERegister 0 1 7, ERemove 0 4, EPop 1,
     EPop 1, ERegister 1 1 4, EFinish 5, ESwap 1, EPop 1, EPop 1]"


theorem Remove_from_other_processor_witness:
  "\<exists>s. Register id 0 1 4 (TaskCtrl_Setup 2 (\<lambda>_. undefined)) = Inr s \<and> Remove 0 4 s = Inl Kassert"
proof -
  define s0 where "s0 = TaskCtrl_Setup 2 (\<lambda>_. undefined)"
  have f: "ncpus s0 = 2" "stat s0 4 = kOutOfQueue"
    by (simp_all add: s0_def TaskCtrl_Setup_def stat_def Task_new_def)
  obtain s where s: "Register id 0 1 4 s0 = Inr s" "task_inv s (Q_upd 1 True [4] (\<lambda>_ _. []))" "ncpus s = 2"
    using Register_ok [OF Setup_inv [of 2 "\<lambda>_. undefined", folded s0_def], of 1 id 4 0] f
    by (auto simp: only_queues_def)
  have "Remove 0 4 s = Inl Kassert"
    by (rule Remove_from_other_processor [OF s(2), of 1 _ True "[]"]) (simp_all add: s(3) Q_upd_def)
  then show ?thesis using s(1) by (auto simp: s0_def)
qed

end
