(* ===== verification/Task_Run.thy ===== *)
theory Task_Run
  imports Task_Ctrl "HOL-Library.Multiset"
begin

text \<open>
  The main loop \<open>TaskCtrl::Run\<close> and the callouts of \<open>task.cc\<close>: a turn of the loop executes
  every queued task in order and goes to sleep, callouts stay sorted by their
  deadline, and exactly the due ones move to the task queue.
\<close>

section \<open>A turn of the main loop\<close>

lemma structs_upd_struct [simp]: "structs (upd_struct c f s) c = f (structs s c)"
  by (simp add: upd_struct_def)

lemma only_queues_trans:
  "only_queues s st s1 \<Longrightarrow> only_queues s1 st' s2 \<Longrightarrow> only_queues s st' s2"
  by (simp add: only_queues_def)

text \<open>Tasks that do not use the controller themselves are executed front to back: \<open>f t\<close> is what the function of task \<open>t\<close> does.\<close>

lemma run_queue_ok:
  assumes "task_inv s Q" and "c < ncpus s" and "\<forall>t w s. exec t (w, s) = Inr (f t w, s)" and "length (Q c False) < fuel"
  shows "\<exists>s'. run_queue exec c fuel (w, s) = Some (Inr (fold f (Q c False) w, s')) \<and> task_inv s' (Q_upd c False [] Q) \<and>
    only_queues s (\<lambda>x. if x \<in> set (Q c False) then kOutOfQueue else stat s x) s'"
  using assms
proof (induction "Q c False" arbitrary: s Q fuel w)
  case Nil
  obtain n where "fuel = Suc n" using Nil.prems(4) by (cases fuel) auto
  moreover have "Q_upd c False [] Q = Q" using Nil.hyps by (simp add: Q_upd_def fun_upd_idem)
  ultimately show ?case
    using run_pop_empty [OF Nil.prems(1,2) Nil.hyps [symmetric]] Nil.hyps [symmetric] Nil.prems(1)
    by (simp add: only_queues_def stat_def)
next
  case (Cons t ts)
  obtain n where n: "fuel = Suc n" using Cons.prems(4) by (cases fuel) auto
  obtain s1 where s1: "run_pop c s = Inr (Some t, s1)" "task_inv s1 (Q_upd c False ts Q)"
    "only_queues s ((stat s)(t := kRunning)) s1"
    using run_pop_ok [OF Cons.prems(1,2) Cons.hyps(2) [symmetric]] by blast
  define s2 where "s2 = run_finish t s1"
  have st1: "stat s1 = (stat s)(t := kRunning)" "ncpus s1 = ncpus s" using only_queues_stat [OF s1(3)] by auto
  have s2: "task_inv s2 (Q_upd c False ts Q)" "only_queues s1 ((stat s)(t := kOutOfQueue)) s2"
    using run_finish_ok [OF s1(2), of t] st1(1) by (simp_all add: s2_def)
  have st2: "stat s2 = (stat s)(t := kOutOfQueue)" "ncpus s2 = ncpus s" using only_queues_stat [OF s2(2)] st1 by auto
  define Q1 where "Q1 = Q_upd c False ts Q"
  have Q1: "ts = Q1 c False" by (simp add: Q1_def Q_upd_apply)
  have len: "length (Q1 c False) < n"
    using Cons.prems(4) Cons.hyps(2) n by (cases "Q c False") (auto simp: Q1 [symmetric])
  have "task_inv s2 Q1" using s2(1) by (simp add: Q1_def)
  from Cons.hyps(1) [OF Q1 this _ Cons.prems(3) len]
  obtain s3 where s3: "run_queue exec c n (f t w, s2) = Some (Inr (fold f ts (f t w), s3))" "task_inv s3 (Q_upd c False [] Q1)"
    "only_queues s2 (\<lambda>x. if x \<in> set ts then kOutOfQueue else stat s2 x) s3"
    using Cons.prems(2) st2(2) by (auto simp: Q1 [symmetric])
  have "run_queue exec c fuel (w, s) = Some (Inr (fold f (t # ts) w, s3))"
    using s1(1) s3(1) Cons.prems(3) by (simp add: n s2_def)
  moreover have "Q_upd c False [] Q1 = Q_upd c False [] Q" by (simp add: Q1_def Q_upd_def)
  moreover have "(\<lambda>x. if x \<in> set ts then kOutOfQueue else stat s2 x) =
      (\<lambda>x. if x \<in> set (t # ts) then kOutOfQueue else stat s x)"
    using st2(1) by auto
  moreover have "only_queues s (\<lambda>x. if x \<in> set ts then kOutOfQueue else stat s2 x) s3"
    using s1(3) s2(2) s3(3) by (blast intro: only_queues_trans)
  ultimately show ?case using s3(2) Cons.hyps(2) [symmetric] by auto
qed

lemma only_queues_dtop: "only_queues s st s' \<Longrightarrow> q_dtop (structs s' c) = q_dtop (structs s c)"
  by (simp add: only_queues_def)

lemma run_rounds_ok:
  assumes inv: "task_inv s Q" and c: "c < ncpus s" and exec: "\<forall>t w s. exec t (w, s) = Inr (f t w, s)"
    and fuel: "length (Q c False) + length (Q c True) + 2 < fuel" and nocall: "q_dtop (structs s c) = []"
  shows "\<exists>s'. run_rounds exec c time k fuel (w, s) = Some (Inr (fold f (Q c False @ Q c True) w, s')) \<and>
    task_inv s' (Q(c := (\<lambda>_. []))) \<and> q_state (structs s' c) = kSlept \<and> q_dtop (structs s' c) = [] \<and>
    stat s' = (\<lambda>x. if x \<in> set (Q c False @ Q c True) then kOutOfQueue else stat s x)"
proof -
  obtain n where n: "fuel = Suc (Suc n)" using fuel by (metis Suc_lessE add_2_eq_Suc')
  obtain s1 where s1: "run_queue exec c (Suc n) (w, s) = Some (Inr (fold f (Q c False) w, s1))" "task_inv s1 (Q_upd c False [] Q)"
    "only_queues s (\<lambda>x. if x \<in> set (Q c False) then kOutOfQueue else stat s x) s1"
    using run_queue_ok [OF inv c exec, of "Suc n"] fuel n by auto
  define Q1 where "Q1 = Q_upd c False [] Q"
  have inv1: "task_inv s1 Q1" and c1: "c < ncpus s1" and d1: "q_dtop (structs s1 c) = []"
    using s1 c nocall by (simp_all add: Q1_def only_queues_def)
  have q1: "Q1 c False = []" "Q1 c True = Q c True" by (simp_all add: Q1_def Q_upd_apply)
  note stat1 = only_queues_stat [OF s1(3), THEN conjunct1]
  show ?thesis
  proof (cases "Q c True")
    case Nil
    have "Q1 = Q(c := (\<lambda>_. []))" using Nil by (auto simp: Q1_def Q_upd_def fun_eq_iff all_bool_eq)
    then show ?thesis
      using s1(1) run_swap_sleeps [OF inv1 c1] q1 Nil inv1 d1 stat1 by (simp add: n del: run_queue.simps)
  next
    case (Cons t ts)
    obtain s2 where s2: "run_swap c s1 = (False, s2)" "task_inv s2 (Q_swap c Q1)" "only_queues s1 (stat s1) s2"
      using run_swap_swaps [OF inv1 c1] q1 Cons by auto
    have c2: "c < ncpus s2" and d2: "q_dtop (structs s2 c) = []" and st2: "stat s2 = stat s1"
      using s2(3) c1 d1 only_queues_stat [OF s2(3)] by (auto simp: only_queues_def)
    have q2: "Q_swap c Q1 c False = Q c True" "Q_swap c Q1 c True = []" using q1 by (simp_all add: Q_swap_def)
    have f: "length (Q_swap c Q1 c False) < n" using fuel n q2 by simp
    obtain m where m: "n = Suc m" using f by (cases n) auto
    obtain s3 where s3: "run_queue exec c n (fold f (Q c False) w, s2) = Some (Inr (fold f (Q c True) (fold f (Q c False) w), s3))"
      "task_inv s3 (Q_upd c False [] (Q_swap c Q1))"
      "only_queues s2 (\<lambda>x. if x \<in> set (Q c True) then kOutOfQueue else stat s2 x) s3"
      using run_queue_ok [OF s2(2) c2 exec f] q2 by auto
    define Q3 where "Q3 = Q_upd c False [] (Q_swap c Q1)"
    have inv3: "task_inv s3 Q3" and c3: "c < ncpus s3" and d3: "q_dtop (structs s3 c) = []"
      using s3 c2 d2 by (simp_all add: Q3_def only_queues_def)
    have q3: "Q3 c False = []" "Q3 c True = []" using q2 by (simp_all add: Q3_def Q_upd_apply)
    have Q3: "Q3 = Q(c := (\<lambda>_. []))"
      using q3 by (auto simp: Q3_def Q1_def Q_upd_def Q_swap_def fun_eq_iff all_bool_eq)
    have "run_check_callout c (time k) s2 = (False, s2)" using d2 by (simp add: run_check_callout_def)
    then have "run_rounds exec c time k fuel (w, s) =
        Some (Inr (fold f (Q c False @ Q c True) w, upd_struct c (\<lambda>x. x \<lparr> q_state := kSlept \<rparr>) s3))"
      using s1(1) s2(1) s3(1) run_swap_sleeps [OF inv3 c3 q3] by (simp add: n m [symmetric] del: run_queue.simps)
    moreover have "stat s3 = (\<lambda>x. if x \<in> set (Q c False @ Q c True) then kOutOfQueue else stat s x)"
      using only_queues_stat [OF s3(3)] st2 stat1 by (auto simp: fun_eq_iff)
    ultimately show ?thesis using inv3 d3 unfolding Q3 by auto
  qed
qed

text \<open>C26: One turn of \<open>Run\<close> on a processor without callouts calls \<open>Execute\<close> exactly once for every task of its two
  queues, in the order of the queues, and puts the processor to sleep with both queues empty. The function of a task \<open>t\<close> may
  change the rest of the kernel in any way \<open>f t\<close>, so that the final state is the result of these calls one after the other; the
  functions do not call the task controller. Enough fuel is the number of tasks plus three.\<close>

theorem Run_turn_executes_all:
  assumes "task_inv s Q" and "c < ncpus s" and "\<forall>t w s. exec t (w, s) = Inr (f t w, s)" and "q_dtop (structs s c) = []"
    and "q_state (structs s c) = kNotRunning \<or> q_state (structs s c) = kSlept"
    and "length (Q c False) + length (Q c True) + 2 < fuel"
  shows "\<exists>s'. run_turn apic exec c time0 time fuel (w, s) = Some (Inr (fold f (Q c False @ Q c True) w, s')) \<and>
    task_inv s' (Q(c := (\<lambda>_. []))) \<and> q_state (structs s' c) = kSlept \<and>
    stat s' = (\<lambda>x. if x \<in> set (Q c False @ Q c True) then kOutOfQueue else stat s x)"
proof -
  define s1 where "s1 = upd_struct c (\<lambda>x. x \<lparr> q_state := kTqRunning \<rparr>) s"
  have "kbind (run_begin c s) (\<lambda>(oldstate, s1). if oldstate = kNotRunning then run_callouts apic c time0 s1 else Inr s1) = Inr s1"
    using assms(4,5) by (auto simp: run_begin_def run_callouts_def s1_def Let_def)
  moreover obtain s' where s': "run_rounds exec c time 0 fuel (w, s1) = Some (Inr (fold f (Q c False @ Q c True) w, s'))"
    "task_inv s' (Q(c := (\<lambda>_. [])))" "q_state (structs s' c) = kSlept" "q_dtop (structs s' c) = []"
    "stat s' = (\<lambda>x. if x \<in> set (Q c False @ Q c True) then kOutOfQueue else stat s1 x)"
    using run_rounds_ok [of s1 Q c exec f fuel time 0 w] assms(1-4,6) by (auto simp: s1_def)
  moreover have "run_sleep c s' = s'" using s'(4) by (simp add: run_sleep_def)
  ultimately show ?thesis by (auto simp: run_turn_def s1_def)
qed

definition run_demo :: TaskCtrl where
  "run_demo = upd_struct 0 (\<lambda>x. x \<lparr> q_state := kNotRunning \<rparr>) (TaskCtrl_Setup 1 (\<lambda>_. undefined))"

theorem Run_turn_executes_all_witness:
  "\<exists>s s'. Register id 0 0 2 run_demo = Inr s \<and> run_turn id (\<lambda>t (w, s). Inr (w @ [t], s)) 0 0 (\<lambda>_. 0) 4 ([], s) = Some (Inr ([2], s')) \<and>
     t_status (tasks s' 2) = kOutOfQueue \<and> q_state (structs s' 0) = kSlept"
proof -
  have inv: "task_inv run_demo (\<lambda>_ _. [])" using Setup_inv by (simp add: run_demo_def)
  have f: "ncpus run_demo = 1" "stat run_demo 2 = kOutOfQueue" "q_state (structs run_demo 0) = kNotRunning"
    "q_dtop (structs run_demo 0) = []"
    by (simp_all add: run_demo_def TaskCtrl_Setup_def TaskStruct_new_def stat_def Task_new_def upd_struct_def)
  obtain s where s: "Register id 0 0 2 run_demo = Inr s" "task_inv s (Q_upd 0 True [2] (\<lambda>_ _. []))" "ncpus s = 1"
    "q_state (structs s 0) = kNotRunning" "q_dtop (structs s 0) = []"
    using Register_ok [OF inv, of 0 id 2 0] f by (auto simp: only_queues_def)
  obtain s' where "run_turn id (\<lambda>t (w, s). Inr (w @ [t], s)) 0 0 (\<lambda>_. 0) 4 ([], s) = Some (Inr ([2], s'))" "q_state (structs s' 0) = kSlept"
    "stat s' 2 = kOutOfQueue"
    using Run_turn_executes_all [OF s(2), of 0 "\<lambda>t (w, s). Inr (w @ [t], s)" "\<lambda>t w. w @ [t]" 4 id 0 "\<lambda>_. 0" "[]"] s(3-5) by (auto simp: Q_upd_apply)
  then show ?thesis using s(1) by (auto simp: stat_def)
qed

section \<open>Callouts\<close>

text \<open>Deadlines less than 2^60 counts apart, where \<open>IsGreater\<close> is the order of the words.\<close>

definition near :: "u64 set \<Rightarrow> bool" where
  "near ts \<longleftrightarrow> (\<forall>x \<in> ts. \<forall>y \<in> ts. unat x - unat y < 2 ^ 60)"

lemma near_IsGreater:
  assumes "near ts" and "x \<in> ts" and "y \<in> ts"
  shows "IsGreater x y \<longleftrightarrow> y \<le> x"
proof (cases "x < y")
  case True
  have "unat y - unat x < 2 ^ 60" using assms unfolding near_def by blast
  then show ?thesis using IsGreater_no_wrap [OF True] True by simp
qed (simp add: IsGreater_def not_less)

definition deadlines :: "(nat \<Rightarrow> Callout) \<Rightarrow> nat list \<Rightarrow> u64 list" where
  "deadlines cs ds = map (\<lambda>d. co_time (cs d)) ds"

lemma deadlines_simps [simp]: "deadlines cs [] = []" "deadlines cs (d # ds) = co_time (cs d) # deadlines cs ds"
  by (simp_all add: deadlines_def)

lemma deadlines_cong: "(\<And>d. d \<in> set ds \<Longrightarrow> co_time (cs' d) = co_time (cs d)) \<Longrightarrow> deadlines cs' ds = deadlines cs ds"
  by (simp add: deadlines_def)

lemma insert_callout_mset: "mset (insert_callout cs d ds) = add_mset d (mset ds)"
  by (induction ds) auto

lemma insert_callout_set: "set (insert_callout cs d ds) = insert d (set ds)"
  by (induction ds) auto

lemma insert_callout_sorted:
  assumes "near (insert (co_time (cs d)) (set (deadlines cs ds)))" and "sorted (deadlines cs ds)"
  shows "sorted (deadlines cs (insert_callout cs d ds))"
  using assms
proof (induction ds)
  case (Cons x xs)
  have g: "IsGreater (co_time (cs x)) (co_time (cs d)) \<longleftrightarrow> co_time (cs d) \<le> co_time (cs x)"
    by (rule near_IsGreater [OF Cons.prems(1)]) simp_all
  have "near (insert (co_time (cs d)) (set (deadlines cs xs)))" using Cons.prems(1) by (auto simp: near_def)
  then have "sorted (deadlines cs (insert_callout cs d xs))" using Cons.IH Cons.prems(2) by simp
  then show ?case
    using Cons.prems(2) g by (auto simp: deadlines_def insert_callout_set)
qed simp

lemma remove1_insert_callout: "d \<notin> set ds \<Longrightarrow> remove1 d (insert_callout cs d ds) = ds"
  by (induction ds) auto

text \<open>Registering a callout enters it once into the queue of its processor and keeps the queue sorted
  by deadline, as long as the deadlines are less than 2^60 counts apart.\<close>

theorem RegisterCallout_keeps_order:
  assumes "co_state (callouts s d) = kHandling \<or> co_state (callouts s d) = kStopped"
    and "c < ncpus s" and "apic c < ncpus s" and "d \<notin> set (q_dtop (structs s c))"
    and "sorted (deadlines (callouts s) (q_dtop (structs s c)))"
    and "near (insert time (set (deadlines (callouts s) (q_dtop (structs s c)))))"
  shows "\<exists>s'. RegisterCallout apic cur d c time s = Inr s' \<and>
    mset (q_dtop (structs s' c)) = add_mset d (mset (q_dtop (structs s c))) \<and>
    sorted (deadlines (callouts s') (q_dtop (structs s' c))) \<and>
    co_time (callouts s' d) = time \<and> co_state (callouts s' d) = kCalloutQueue \<and> co_cpuid (callouts s' d) = c \<and>
    (\<forall>x. x \<noteq> d \<longrightarrow> callouts s' x = callouts s x)"
proof -
  define cs where "cs = (callouts s)(d := (callouts s d) \<lparr> co_time := time, co_pending := True, co_cpuid := c, co_state := kCalloutQueue \<rparr>)"
  define s1 where "s1 = upd_struct c (\<lambda>x. x \<lparr> q_dtop := insert_callout cs d (q_dtop (structs s c)) \<rparr>) (s \<lparr> callouts := cs \<rparr>)"
  have "RegisterCallout apic cur d c time s = ForceWakeup apic cur c s1"
    using assms(1,2) by (auto simp: RegisterCallout_def SetHandler_def get_struct_def upd_defs s1_def cs_def Let_def)
  moreover obtain l where "ForceWakeup apic cur c s1 = Inr (s1 \<lparr> ipis := l \<rparr>)"
    using ForceWakeup_ok [of apic c s1] assms(3) by (auto simp: s1_def upd_struct_def)
  moreover have dl: "deadlines cs (q_dtop (structs s c)) = deadlines (callouts s) (q_dtop (structs s c))"
    using assms(4) by (intro deadlines_cong) (auto simp: cs_def)
  have "sorted (deadlines cs (insert_callout cs d (q_dtop (structs s c))))"
    by (rule insert_callout_sorted; unfold dl) (use assms(5,6) in \<open>simp_all add: cs_def\<close>)
  ultimately show ?thesis
    by (auto simp: s1_def upd_struct_def cs_def insert_callout_mset)
qed

definition callout_demo :: TaskCtrl where
  "callout_demo = upd_struct 0 (\<lambda>x. x \<lparr> q_dtop := [1, 2] \<rparr>) (TaskCtrl_Setup 1 (\<lambda>d. \<lparr> co_cpuid = 0, co_task = 2 + d,
     co_time = (if d = 1 then 100 else 300), co_pending = True, co_state = (if d = 3 then kStopped else kCalloutQueue) \<rparr>))"

theorem RegisterCallout_keeps_order_witness:
  "\<exists>s'. RegisterCallout id 0 3 0 200 callout_demo = Inr s' \<and>
     mset (q_dtop (structs s' 0)) = {# 1, 2, 3 #} \<and> sorted (deadlines (callouts s') (q_dtop (structs s' 0)))"
proof -
  have "\<exists>s'. RegisterCallout id 0 3 0 200 callout_demo = Inr s' \<and>
    mset (q_dtop (structs s' 0)) = add_mset 3 (mset (q_dtop (structs callout_demo 0))) \<and>
    sorted (deadlines (callouts s') (q_dtop (structs s' 0))) \<and>
    co_time (callouts s' 3) = 200 \<and> co_state (callouts s' 3) = kCalloutQueue \<and> co_cpuid (callouts s' 3) = 0 \<and>
    (\<forall>x. x \<noteq> 3 \<longrightarrow> callouts s' x = callouts callout_demo x)"
    by (rule RegisterCallout_keeps_order)
      (simp_all add: callout_demo_def TaskCtrl_Setup_def TaskStruct_new_def upd_struct_def near_def)
  then show ?thesis
    by (auto simp: callout_demo_def TaskCtrl_Setup_def TaskStruct_new_def upd_struct_def add_mset_commute)
qed

text \<open>Cancelling a callout that waits in the callout queue reports success and removes it: the queue is
  what it was before the registration.\<close>

theorem RegisterCallout_CancelCallout:
  assumes "co_state (callouts s d) = kHandling \<or> co_state (callouts s d) = kStopped"
    and "c < ncpus s" and "apic c < ncpus s" and "d \<notin> set (q_dtop (structs s c))"
    and "RegisterCallout apic cur d c time s = Inr s1"
  shows "\<exists>s2. CancelCallout cur' d s1 = Inr (True, s2) \<and> q_dtop (structs s2 c) = q_dtop (structs s c) \<and>
    co_state (callouts s2 d) = kStopped \<and> \<not> co_pending (callouts s2 d) \<and> tasks s2 = tasks s"
proof -
  define cs where "cs = (callouts s)(d := (callouts s d) \<lparr> co_time := time, co_pending := True, co_cpuid := c, co_state := kCalloutQueue \<rparr>)"
  define s0 where "s0 = upd_struct c (\<lambda>x. x \<lparr> q_dtop := insert_callout cs d (q_dtop (structs s c)) \<rparr>) (s \<lparr> callouts := cs \<rparr>)"
  have "RegisterCallout apic cur d c time s = ForceWakeup apic cur c s0"
    using assms(1,2) by (auto simp: RegisterCallout_def SetHandler_def get_struct_def upd_defs s0_def cs_def Let_def)
  then obtain l where s1: "s1 = s0 \<lparr> ipis := l \<rparr>"
    using ForceWakeup_ok [of apic c s0 cur] assms(3,5) by (auto simp: s0_def upd_struct_def)
  show ?thesis unfolding s1 CancelCallout_def Let_def
    using remove1_insert_callout [OF assms(4)] assms(2)
    by (simp add: s0_def cs_def upd_defs get_struct_def)
qed

theorem RegisterCallout_CancelCallout_witness:
  "\<exists>s1 s2. RegisterCallout id 0 3 0 200 callout_demo = Inr s1 \<and> CancelCallout 0 3 s1 = Inr (True, s2) \<and>
     q_dtop (structs s2 0) = [1, 2]"
proof -
  note defs = callout_demo_def TaskCtrl_Setup_def TaskStruct_new_def upd_struct_def
  obtain s1 where s1: "RegisterCallout id 0 3 0 200 callout_demo = Inr s1"
    by (auto simp: RegisterCallout_def get_struct_def ForceWakeup_def SetHandler_def upd_callout_def Let_def defs)
  have "\<exists>s2. CancelCallout 0 3 s1 = Inr (True, s2) \<and> q_dtop (structs s2 0) = q_dtop (structs callout_demo 0) \<and>
    co_state (callouts s2 3) = kStopped \<and> \<not> co_pending (callouts s2 3) \<and> tasks s2 = tasks callout_demo"
    by (rule RegisterCallout_CancelCallout [OF _ _ _ _ s1]) (simp_all add: defs)
  then show ?thesis using s1 by (auto simp: defs)
qed

text \<open>The callouts that are due move one by one.\<close>

definition due :: "TaskCtrl \<Rightarrow> u64 \<Rightarrow> nat \<Rightarrow> bool" where
  "due s time d \<longleftrightarrow> co_time (callouts s d) < time"

definition tasks_of :: "TaskCtrl \<Rightarrow> nat list \<Rightarrow> nat list" where
  "tasks_of s ds = map (\<lambda>d. co_task (callouts s d)) ds"

lemma Q_upd_twice [simp]: "Q_upd c b xs (Q_upd c b ys Q) = Q_upd c b xs Q"
  by (simp add: Q_upd_def)

lemma Q_upd_same: "Q_upd c b (Q c b) Q = Q"
  by (simp add: Q_upd_def)

lemma move_due_ok:
  assumes "task_inv s Q" and "c < ncpus s" and "apic c < ncpus s" and "q_dtop (structs s c) = ds"
    and "\<And>d. d \<in> set ds \<Longrightarrow> IsGreater (co_time (callouts s d)) time \<longleftrightarrow> \<not> due s time d"
    and "distinct ds" and "distinct (tasks_of s ds)" and "\<And>t. t \<in> set (tasks_of s ds) \<Longrightarrow> stat s t = kOutOfQueue"
  shows "\<exists>s'. move_due apic c time ds s = Inr s' \<and> q_dtop (structs s' c) = dropWhile (due s time) ds \<and>
    task_inv s' (Q_upd c True (Q c True @ tasks_of s (takeWhile (due s time) ds)) Q) \<and>
    (\<forall>d. co_state (callouts s' d) = (if d \<in> set (takeWhile (due s time) ds) then kTaskQueue else co_state (callouts s d)))"
  using assms
proof (induction ds arbitrary: s Q)
  case Nil
  then show ?case by (auto simp: tasks_of_def Q_upd_same)
next
  case (Cons d ds)
  have g: "IsGreater (co_time (callouts s d)) time \<longleftrightarrow> \<not> due s time d" by (rule Cons.prems(5)) simp
  show ?case
  proof (cases "due s time d")
    case False
    then show ?thesis using g Cons.prems(1,4) by (auto simp: tasks_of_def Q_upd_same)
  next
    case True
    define t where "t = co_task (callouts s d)"
    define s1 where "s1 = upd_callout d (\<lambda>x. x \<lparr> co_state := kTaskQueue \<rparr>) (upd_struct c (\<lambda>x. x \<lparr> q_dtop := ds \<rparr>) s)"
    have inv1: "task_inv s1 Q" using Cons.prems(1) by (simp add: s1_def)
    have f1: "ncpus s1 = ncpus s" "stat s1 = stat s" "q_dtop (structs s1 c) = ds"
      "callouts s1 = (callouts s)(d := (callouts s d) \<lparr> co_state := kTaskQueue \<rparr>)"
      by (simp_all add: s1_def upd_defs stat_def fun_eq_iff)
    have "stat s1 t = kOutOfQueue" using Cons.prems(8) [of t] f1(2) by (simp add: tasks_of_def t_def)
    then obtain s2 where s2: "Register apic c c t s1 = Inr s2" "task_inv s2 (Q_upd c True (Q c True @ [t]) Q)"
      "only_queues s1 ((stat s1)(t := kWaitingInQueue)) s2"
      using Register_ok [OF inv1, of c apic t c] Cons.prems(2,3) f1(1) by auto
    have f2: "ncpus s2 = ncpus s" "stat s2 = (stat s)(t := kWaitingInQueue)" "q_dtop (structs s2 c) = ds"
      "callouts s2 = callouts s1"
      using s2(3) f1 only_queues_stat [OF s2(3)] by (auto simp: only_queues_def)
    have time: "co_time (callouts s2 x) = co_time (callouts s x)" "co_task (callouts s2 x) = co_task (callouts s x)" for x
      by (simp_all add: f2(4) f1(4))
    have due': "due s2 time = due s time" by (simp add: fun_eq_iff due_def time)
    have tasks': "tasks_of s2 xs = tasks_of s xs" for xs by (simp add: tasks_of_def time)
    have "\<exists>s'. move_due apic c time ds s2 = Inr s' \<and> q_dtop (structs s' c) = dropWhile (due s2 time) ds \<and>
      task_inv s' (Q_upd c True (Q_upd c True (Q c True @ [t]) Q c True @ tasks_of s2 (takeWhile (due s2 time) ds))
        (Q_upd c True (Q c True @ [t]) Q)) \<and>
      (\<forall>x. co_state (callouts s' x) = (if x \<in> set (takeWhile (due s2 time) ds) then kTaskQueue else co_state (callouts s2 x)))"
    proof (rule Cons.IH [OF s2(2)])
      show "stat s2 x = kOutOfQueue" if "x \<in> set (tasks_of s2 ds)" for x
      proof -
        have x: "x \<in> set (tasks_of s ds)" using that by (simp add: tasks')
        have "t \<notin> set (tasks_of s ds)" using Cons.prems(7) by (simp add: tasks_of_def t_def)
        then have "x \<noteq> t" using x by auto
        moreover have "x \<in> set (tasks_of s (d # ds))" using x by (simp add: tasks_of_def)
        ultimately show ?thesis using Cons.prems(8) [of x] f2(2) by simp
      qed
      show "IsGreater (co_time (callouts s2 x)) time \<longleftrightarrow> \<not> due s2 time x" if "x \<in> set ds" for x
        using Cons.prems(5) [of x] that by (simp add: time due')
    qed (use Cons.prems f2 in \<open>simp_all add: tasks'\<close>, simp add: tasks_of_def)
    then obtain s' where s': "move_due apic c time ds s2 = Inr s'" "q_dtop (structs s' c) = dropWhile (due s time) ds"
      "task_inv s' (Q_upd c True (Q c True @ t # tasks_of s (takeWhile (due s time) ds)) Q)"
      "\<forall>x. co_state (callouts s' x) = (if x \<in> set (takeWhile (due s time) ds) then kTaskQueue else co_state (callouts s2 x))"
      by (auto simp: due' tasks' Q_upd_apply)
    have "move_due apic c time (d # ds) s = Inr s'"
      using g True s2(1) s'(1) by (simp add: t_def s1_def)
    then show ?thesis using s' True by (auto simp: tasks_of_def t_def f2(4) f1(4))
  qed
qed

lemma sorted_takeWhile_less:
  fixes f :: "'a \<Rightarrow> 'b :: linorder"
  assumes "sorted (map f xs)"
  shows "takeWhile (\<lambda>x. f x < a) xs = filter (\<lambda>x. f x < a) xs \<and>
    dropWhile (\<lambda>x. f x < a) xs = filter (\<lambda>x. a \<le> f x) xs"
  using assms
proof (induction xs)
  case (Cons x xs)
  have "\<not> f x < a \<Longrightarrow> filter (\<lambda>x. f x < a) xs = [] \<and> filter (\<lambda>x. a \<le> f x) xs = xs"
    using Cons.prems by (auto simp: filter_empty_conv filter_id_conv)
  then show ?case using Cons by (auto simp: not_less)
qed simp



text \<open>\<open>ForceWakeup\<close> indexes the task structures with the APIC id of the processor. When a sleeping
  processor has another APIC id than its number, registering a task for it reads outside the array, or,
  when its APIC id is the number of the caller, sends no wake-up interrupt.\<close>

theorem ForceWakeup_confuses_ids:
  assumes "c < ncpus s" and "q_state (structs s c) = kSlept" and "t_status (tasks s t) = kOutOfQueue" and "cur < ncpus s"
  shows "(ncpus s \<le> apic c \<longrightarrow> Register apic cur c t s = Inl Out_Of_Range) \<and>
    (apic c = cur \<longrightarrow> (\<exists>s'. Register apic cur c t s = Inr s' \<and> ipis s' = ipis s))"
  using assms by (auto simp: Register_def IsRegistered_def get_struct_def ForceWakeup_def upd_defs Let_def)

definition sleeping_demo :: TaskCtrl where
  "sleeping_demo = upd_struct 1 (\<lambda>x. x \<lparr> q_state := kSlept \<rparr>) (TaskCtrl_Setup 2 (\<lambda>_. undefined))"

theorem ForceWakeup_confuses_ids_witness:
  "Register (\<lambda>c. 2 * c) 0 1 4 sleeping_demo = Inl Out_Of_Range \<and>
   (\<exists>s'. Register (\<lambda>c. 1 - c) 0 1 4 sleeping_demo = Inr s' \<and> ipis s' = [])"
  using ForceWakeup_confuses_ids [of 1 sleeping_demo 4 0 "\<lambda>c. 2 * c"]
    ForceWakeup_confuses_ids [of 1 sleeping_demo 4 0 "\<lambda>c. 1 - c"]
  by (simp add: sleeping_demo_def TaskCtrl_Setup_def upd_struct_def Task_new_def TaskStruct_new_def)

end
