(* ===== verification/Libc.thy ===== *)
theory Libc
  imports Raph_Prelude
begin

unbundle bit_operations_syntax

text \<open>
  The kernel's C library headers \<open>string.h\<close>, \<open>ctype.h\<close>, \<open>stdlib.h\<close> and \<open>arpa/inet.h\<close>. A pointer into a
  buffer is the list of the bytes from there to the end of the buffer; reading or
  writing behind the end is the fault \<open>Out_Of_Range\<close>. Source and destination of
  a copy are different buffers. \<open>char\<close> is signed.
\<close>

type_synonym bytes = "u8 list"

section \<open>ctype.h\<close>

definition isdigit :: "int \<Rightarrow> bool" where
  "isdigit c \<longleftrightarrow> c \<ge> 48 \<and> c \<le> 57"

definition isxdigit :: "int \<Rightarrow> bool" where
  "isxdigit c \<longleftrightarrow> c \<ge> 48 \<and> c \<le> 57 \<or> c \<ge> 97 \<and> c \<le> 102 \<or> c \<ge> 65 \<and> c \<le> 70"

definition isprint :: "int \<Rightarrow> bool" where
  "isprint c \<longleftrightarrow> c \<ge> 0x20 \<and> c \<le> 0x7E"

definition isspace :: "int \<Rightarrow> bool" where
  "isspace c \<longleftrightarrow> c = 32 \<or> c = 9 \<or> c = 10 \<or> c = 11 \<or> c = 12 \<or> c = 13"

definition isupper :: "int \<Rightarrow> bool" where
  "isupper c \<longleftrightarrow> c \<ge> 65 \<and> c \<le> 90"

definition tolower :: "int \<Rightarrow> int" where
  "tolower c = (if c \<ge> 65 \<and> c \<le> 90 then c - 65 + 97 else c)"

definition toupper :: "int \<Rightarrow> int" where
  "toupper c = (if c \<ge> 97 \<and> c \<le> 122 then c - 97 + 65 else c)"

section \<open>string.h\<close>

fun strlen :: "bytes \<Rightarrow> nat kres" where
  "strlen [] = Inl Out_Of_Range"
| "strlen (c # s) = (if c \<noteq> 0 then kmap Suc (strlen s) else Inr 0)"

fun strncmp :: "bytes \<Rightarrow> bytes \<Rightarrow> nat \<Rightarrow> int kres" where
  "strncmp s1 s2 0 = Inr 0"
| "strncmp (a # s1) (b # s2) (Suc n) = (if a \<noteq> b then Inr (sint a - sint b) else strncmp s1 s2 n)"
| "strncmp _ _ (Suc n) = Inl Out_Of_Range"

fun strcmp :: "bytes \<Rightarrow> bytes \<Rightarrow> int kres" where
  "strcmp (a # s1) (b # s2) = (if a \<noteq> 0 \<and> a = b then strcmp s1 s2 else Inr (sint a - sint b))"
| "strcmp _ _ = Inl Out_Of_Range"

text \<open>The functions that write return the destination buffer afterwards.\<close>

fun strncpy :: "bytes \<Rightarrow> bytes \<Rightarrow> nat \<Rightarrow> bytes kres" where
  "strncpy d s 0 = Inr d"
| "strncpy (x # d) (c # s) (Suc n) =
     (if c = 0 then kmap (Cons 0) (strncpy d (c # s) n) else kmap (Cons c) (strncpy d s n))"
| "strncpy _ _ (Suc n) = Inl Out_Of_Range"

fun strcpy :: "bytes \<Rightarrow> bytes \<Rightarrow> bytes kres" where
  "strcpy (x # d) (c # s) = (if c \<noteq> 0 then kmap (Cons c) (strcpy d s) else Inr (0 # d))"
| "strcpy _ _ = Inl Out_Of_Range"

text \<open>\<open>strstr\<close> gives the offset of the result, or \<open>None\<close> for a null pointer.\<close>

fun strstr_loop :: "bytes \<Rightarrow> bytes \<Rightarrow> nat \<Rightarrow> nat \<Rightarrow> nat option kres" where
  "strstr_loop [] s2 len i = Inl Out_Of_Range"
| "strstr_loop (c # s1) s2 len i = (if c \<noteq> 0 then
     kbind (strncmp (c # s1) s2 len) (\<lambda>r. if r = 0 then Inr (Some i) else strstr_loop s1 s2 len (Suc i))
     else Inr None)"

definition strstr :: "bytes \<Rightarrow> bytes \<Rightarrow> nat option kres" where
  "strstr s1 s2 = kbind (strlen s2) (\<lambda>len. strstr_loop s1 s2 len 0)"

fun memcpy :: "bytes \<Rightarrow> bytes \<Rightarrow> nat \<Rightarrow> bytes kres" where
  "memcpy d s 0 = Inr d"
| "memcpy (x # d) (c # s) (Suc n) = kmap (Cons c) (memcpy d s n)"
| "memcpy _ _ (Suc n) = Inl Out_Of_Range"

fun memset :: "bytes \<Rightarrow> u8 \<Rightarrow> nat \<Rightarrow> bytes kres" where
  "memset d c 0 = Inr d"
| "memset (x # d) c (Suc n) = kmap (Cons c) (memset d c n)"
| "memset [] c (Suc n) = Inl Out_Of_Range"

fun memcmp :: "bytes \<Rightarrow> bytes \<Rightarrow> nat \<Rightarrow> int kres" where
  "memcmp s1 s2 0 = Inr 0"
| "memcmp (a # s1) (b # s2) (Suc n) = (if uint a - uint b \<noteq> 0 then Inr (uint a - uint b) else memcmp s1 s2 n)"
| "memcmp _ _ (Suc n) = Inl Out_Of_Range"

definition bcmp :: "bytes \<Rightarrow> bytes \<Rightarrow> nat \<Rightarrow> int kres" where
  "bcmp s1 s2 n = memcmp s1 s2 n"

definition bzero :: "bytes \<Rightarrow> nat \<Rightarrow> bytes kres" where
  "bzero s n = memset s 0 n"

fun strcat :: "bytes \<Rightarrow> bytes \<Rightarrow> bytes kres" where
  "strcat [] s2 = Inl Out_Of_Range"
| "strcat (c # d) s2 = (if c \<noteq> 0 then kmap (Cons c) (strcat d s2) else strcpy (c # d) s2)"

section \<open>Numbers\<close>

text \<open>
  \<open>strtoul\<close>: \<open>val\<close> is an \<open>int\<close>, kept as a 32-bit word; the result is converted to 64 bits
  with its sign. The second part of the result is what is stored in \<open>endptr\<close>:
  \<open>None\<close> when nothing is stored.
\<close>

fun strtoul_loop :: "int \<Rightarrow> u32 \<Rightarrow> bytes \<Rightarrow> (u32 \<times> bytes option) kres" where
  "strtoul_loop base val [] = Inl Out_Of_Range"
| "strtoul_loop base val (c # s) = (if c = 0 then Inr (val, None) else
     let val1 = val * word_of_int base; x = sint c in
     if base \<le> 10 then
       (if x \<ge> 48 \<and> x < 48 + base then strtoul_loop base (val1 + word_of_int (x - 48)) s else Inr (val1, Some (c # s)))
     else if x \<ge> 48 \<and> x \<le> 57 then strtoul_loop base (val1 + word_of_int (x - 48)) s
     else if x \<ge> 65 \<and> x < 65 + base - 10 then strtoul_loop base (val1 + word_of_int (x - 65 + 10)) s
     else if x \<ge> 97 \<and> x < 97 + base - 10 then strtoul_loop base (val1 + word_of_int (x - 97 + 10)) s
     else Inr (val1, Some (c # s)))"

definition strtoul_sign :: "bytes \<Rightarrow> int \<times> bytes" where
  "strtoul_sign s = (case s of c # r \<Rightarrow> if c = 43 then (1, r) else if c = 45 then (-1, r) else (1, s) | [] \<Rightarrow> (1, []))"

definition strtoul_base :: "bytes \<Rightarrow> int \<Rightarrow> (int \<times> bytes) kres" where
  "strtoul_base s base = (if base = 0 then (case s of
         [] \<Rightarrow> Inl Out_Of_Range
       | c # r \<Rightarrow> if c = 48 then (case r of
             [] \<Rightarrow> Inl Out_Of_Range
           | d # r' \<Rightarrow> if d = 120 \<or> d = 88 then Inr (16, r') else Inr (8, r))
         else Inr (10, s))
     else if base = 16 then (case s of
         [] \<Rightarrow> Inl Out_Of_Range
       | c # r \<Rightarrow> if c \<noteq> 0 then (case r of
             [] \<Rightarrow> Inl Out_Of_Range
           | d # r' \<Rightarrow> if d = 120 \<or> d = 88 then Inr (16, r') else Inr (16, s))
         else Inr (16, s))
     else Inr (base, s))"

definition strtoul :: "bytes \<Rightarrow> int \<Rightarrow> (u64 \<times> bytes option) kres" where
  "strtoul nptr base = (if nptr = [] then Inl Out_Of_Range else
     case strtoul_sign nptr of (sign, s) \<Rightarrow>
     kbind (strtoul_base s base) (\<lambda>(b, s').
     kmap (\<lambda>(val, e). (word_of_int (sint (val * word_of_int sign)), e)) (strtoul_loop b 0 s')))"

text \<open>\<open>atoi\<close>\<close>

fun atoi_digits :: "u32 \<Rightarrow> bytes \<Rightarrow> u32 kres" where
  "atoi_digits n [] = Inl Out_Of_Range"
| "atoi_digits n (c # s) = (if isdigit (sint c) then atoi_digits (10 * n - word_of_int (sint c - 48)) s else Inr n)"

fun skip_space :: "bytes \<Rightarrow> bytes kres" where
  "skip_space [] = Inl Out_Of_Range"
| "skip_space (c # s) = (if isspace (sint c) then skip_space s else Inr (c # s))"

definition atoi :: "bytes \<Rightarrow> int kres" where
  "atoi s = kbind (skip_space s) (\<lambda>s1. case s1 of
       [] \<Rightarrow> Inl Out_Of_Range
     | c # r \<Rightarrow> (let neg = (c = 45); s2 = (if c = 45 \<or> c = 43 then r else s1) in
         kmap (\<lambda>n. sint (if neg then n else - n)) (atoi_digits 0 s2)))"

section \<open>arpa/inet.h\<close>

definition inet_atoi :: "u8 list \<Rightarrow> u32" where
  "inet_atoi ip = push_bit 24 (ucast (ip ! 0)) OR push_bit 16 (ucast (ip ! 1)) OR push_bit 8 (ucast (ip ! 2)) OR ucast (ip ! 3)"

definition htons :: "u16 \<Rightarrow> u16" where
  "htons n = push_bit 8 (n AND 0xff) OR drop_bit 8 (n AND 0xff00)"

definition ntohs :: "u16 \<Rightarrow> u16" where
  "ntohs n = push_bit 8 (n AND 0xff) OR drop_bit 8 (n AND 0xff00)"

definition htonl :: "u32 \<Rightarrow> u32" where
  "htonl n = push_bit 24 (n AND 0xff) OR push_bit 8 (n AND 0xff00) OR drop_bit 8 (n AND 0xff0000) OR drop_bit 24 (n AND 0xff000000)"

definition ntohl :: "u32 \<Rightarrow> u32" where
  "ntohl n = push_bit 24 (n AND 0xff) OR push_bit 8 (n AND 0xff00) OR drop_bit 8 (n AND 0xff0000) OR drop_bit 24 (n AND 0xff000000)"

section \<open>Correctness of the string functions\<close>

text \<open>A C string: no zero byte before the terminator.\<close>

lemma sint_u8_eq [simp]: "sint a = sint b \<longleftrightarrow> a = b" for a b :: u8
  using signed_word_eqI [of a b, where ?'a = int] by auto

lemma sint_diff_0: "sint a - sint b = 0 \<longleftrightarrow> a = b" for a b :: u8
  by simp

lemma sint_0_iff [simp]: "sint a = 0 \<longleftrightarrow> a = 0" for a :: u8
  using sint_diff_0 [of a 0] by simp

lemma c_string_split: "0 \<in> set n \<Longrightarrow> \<exists>r. n = takeWhile (\<lambda>c. c \<noteq> 0) n @ 0 # r" for n :: bytes
  by (induction n) auto

lemma strlen_cstr: "0 \<notin> set s \<Longrightarrow> strlen (s @ 0 # r) = Inr (length s)"
  by (induction s) auto

lemma strlen_unterminated: "0 \<notin> set s \<Longrightarrow> strlen s = Inl Out_Of_Range"
  by (induction s) auto

lemma strcmp_cstr:
  "0 \<notin> set s1 \<Longrightarrow> 0 \<notin> set s2 \<Longrightarrow> \<exists>r. strcmp (s1 @ 0 # r1) (s2 @ 0 # r2) = Inr r \<and> (r = 0 \<longleftrightarrow> s1 = s2)"
proof (induction s1 arbitrary: s2)
  case Nil
  then show ?case by (cases s2) auto
next
  case (Cons a s1)
  show ?case
  proof (cases s2)
    case Nil
    then show ?thesis using Cons.prems by auto
  next
    case (Cons b s2')
    then show ?thesis using Cons.IH [of s2'] Cons.prems by auto
  qed
qed

lemma strcpy_cstr: "0 \<notin> set s \<Longrightarrow> length s < length d \<Longrightarrow> strcpy d (s @ 0 # r) = Inr (s @ 0 # drop (Suc (length s)) d)"
proof (induction s arbitrary: d)
  case Nil
  then show ?case by (cases d) auto
next
  case (Cons c s)
  then show ?case by (cases d) auto
qed

lemma strcpy_overflow: "0 \<notin> set s \<Longrightarrow> length d \<le> length s \<Longrightarrow> strcpy d (s @ 0 # r) = Inl Out_Of_Range"
proof (induction s arbitrary: d)
  case (Cons c s)
  then show ?case by (cases d) auto
qed auto

lemma strcat_cstr:
  assumes "0 \<notin> set a" and "0 \<notin> set s" and "length s \<le> length rest"
  shows "strcat (a @ 0 # rest) (s @ 0 # r) = Inr (a @ s @ 0 # drop (length s) rest)"
  using assms
proof (induction a)
  case Nil
  then show ?case using strcpy_cstr [of s "0 # rest" r] by simp
qed auto

lemma strncpy_pads:
  "0 \<notin> set s \<Longrightarrow> n \<le> length d \<Longrightarrow>
   strncpy d (s @ 0 # r) n = Inr (take n (s @ replicate n 0) @ drop n d)"
proof (induction n arbitrary: s d)
  case (Suc n)
  obtain x d' where d: "d = x # d'" using Suc.prems(2) by (cases d) auto
  show ?case
  proof (cases s)
    case Nil
    then show ?thesis using Suc.IH [of "[]" d'] Suc.prems d by simp
  next
    case (Cons c s')
    have "take n (s' @ replicate n 0) = take n (s' @ replicate (Suc n) 0)" by (simp add: take_replicate min_def del: replicate.simps)
    then show ?thesis using Suc.IH [of s' d'] Suc.prems d Cons by simp
  qed
qed auto

lemma memcpy_ok: "n \<le> length d \<Longrightarrow> n \<le> length s \<Longrightarrow> memcpy d s n = Inr (take n s @ drop n d)"
proof (induction n arbitrary: d s)
  case (Suc n)
  then show ?case by (cases d; cases s) auto
qed auto

lemma memset_ok: "n \<le> length d \<Longrightarrow> memset d c n = Inr (replicate n c @ drop n d)"
proof (induction n arbitrary: d)
  case (Suc n)
  then show ?case by (cases d) auto
qed auto

lemma memcmp_ok:
  "n \<le> length s1 \<Longrightarrow> n \<le> length s2 \<Longrightarrow> \<exists>r. memcmp s1 s2 n = Inr r \<and> (r = 0 \<longleftrightarrow> take n s1 = take n s2)"
proof (induction n arbitrary: s1 s2)
  case (Suc n)
  obtain a s1' b s2' where "s1 = a # s1'" "s2 = b # s2'"
    using Suc.prems by (cases s1; cases s2) auto
  then show ?case using Suc.IH [of s1' s2'] Suc.prems by (auto simp: word_uint_eqI)
qed auto

text \<open>Comparison of a prefix: the second string has no zero among its first \<open>n\<close> bytes.\<close>

lemma strncmp_prefix:
  "0 \<notin> set s2 \<Longrightarrow> \<exists>r. strncmp (s @ 0 # r1) (s2 @ r2) (length s2) = Inr r \<and> (r = 0 \<longleftrightarrow> take (length s2) s = s2)"
proof (induction s2 arbitrary: s)
  case (Cons b s2)
  show ?case
  proof (cases s)
    case Nil
    then show ?thesis using Cons.prems by auto
  next
    case (Cons a s')
    then show ?thesis using Cons.IH [of s'] Cons.prems by auto
  qed
qed auto

lemma strstr_loop_ok:
  assumes "0 \<notin> set s1" and "0 \<notin> set s2" and "s2 \<noteq> []"
  shows "\<exists>r. strstr_loop (s1 @ 0 # r1) (s2 @ 0 # r2) (length s2) k = Inr r \<and>
    (case r of None \<Rightarrow> \<forall>i. take (length s2) (drop i s1) \<noteq> s2
     | Some m \<Rightarrow> k \<le> m \<and> take (length s2) (drop (m - k) s1) = s2 \<and> (\<forall>i < m - k. take (length s2) (drop i s1) \<noteq> s2))"
  using assms
proof (induction s1 arbitrary: k)
  case Nil
  then show ?case by auto
next
  case (Cons c s1)
  obtain r where r: "strncmp ((c # s1) @ 0 # r1) (s2 @ 0 # r2) (length s2) = Inr r" "r = 0 \<longleftrightarrow> take (length s2) (c # s1) = s2"
    using strncmp_prefix [OF Cons.prems(2), of "c # s1" r1 "0 # r2"] by auto
  show ?case
  proof (cases "r = 0")
    case True
    then show ?thesis using r Cons.prems(1) by auto
  next
    case False
    obtain q where q: "strstr_loop (s1 @ 0 # r1) (s2 @ 0 # r2) (length s2) (Suc k) = Inr q"
      "case q of None \<Rightarrow> \<forall>i. take (length s2) (drop i s1) \<noteq> s2
       | Some m \<Rightarrow> Suc k \<le> m \<and> take (length s2) (drop (m - Suc k) s1) = s2 \<and>
           (\<forall>i < m - Suc k. take (length s2) (drop i s1) \<noteq> s2)"
      using Cons.IH [of "Suc k"] Cons.prems by auto
    have step: "take (length s2) (drop i (c # s1)) \<noteq> s2" if "i = 0 \<or> take (length s2) (drop (i - 1) s1) \<noteq> s2" for i
      using that False r(2) by (cases i) auto
    have eq: "strstr_loop ((c # s1) @ 0 # r1) (s2 @ 0 # r2) (length s2) k = Inr q"
      using r q(1) False Cons.prems(1) by simp
    show ?thesis
    proof (cases q)
      case None
      then show ?thesis using eq q(2) step by auto
    next
      case (Some m)
      then have m: "m - k = Suc (m - Suc k)" using q(2) by auto
      have "take (length s2) (drop i (c # s1)) \<noteq> s2" if "i < m - k" for i
        using that q(2) Some m by (intro step) (cases i, auto)
      then show ?thesis using eq q(2) Some m by auto
    qed
  qed
qed

text \<open>\<open>strstr\<close> on two C strings, the second not empty, returns the first offset at which the second
  string occurs in the first, and a null pointer exactly when it does not occur. It never reads outside
  the two buffers.\<close>

theorem strstr_first_occurrence:
  assumes "0 \<notin> set s1" and "0 \<notin> set s2" and "s2 \<noteq> []"
  shows "\<exists>r. strstr (s1 @ 0 # r1) (s2 @ 0 # r2) = Inr r \<and>
    (case r of None \<Rightarrow> \<forall>i. take (length s2) (drop i s1) \<noteq> s2
     | Some m \<Rightarrow> take (length s2) (drop m s1) = s2 \<and> (\<forall>i < m. take (length s2) (drop i s1) \<noteq> s2))"
  using strstr_loop_ok [OF assms, of r1 r2 0] strlen_cstr [OF assms(2), of r2]
  by (auto simp: strstr_def split: option.splits)

theorem strstr_first_occurrence_witness:
  "strstr ([97, 98, 97, 98, 99] @ 0 # []) ([97, 98, 99] @ 0 # []) = Inr (Some 2)"
proof -
  define s1 s2 :: bytes where "s1 = [97, 98, 97, 98, 99]" and "s2 = [97, 98, 99]"
  have "\<exists>r. strstr (s1 @ 0 # []) (s2 @ 0 # []) = Inr r \<and>
    (case r of None \<Rightarrow> \<forall>i. take (length s2) (drop i s1) \<noteq> s2
     | Some m \<Rightarrow> take (length s2) (drop m s1) = s2 \<and> (\<forall>i < m. take (length s2) (drop i s1) \<noteq> s2))"
    by (rule strstr_first_occurrence) (simp_all add: s1_def s2_def)
  then show ?thesis by (auto simp: s1_def s2_def strstr_def)
qed

section \<open>Numbers and their digits\<close>

text \<open>Reference definitions: the digits of a number, first digit first, and the value of a digit sequence.\<close>

function digits_of :: "nat \<Rightarrow> nat \<Rightarrow> nat list" where
  "digits_of b n = (if n < b \<or> b < 2 then [n] else digits_of b (n div b) @ [n mod b])"
  by auto
termination
  by (relation "measure snd") (auto simp: div_less_dividend)

declare digits_of.simps [simp del]

definition value_of :: "nat \<Rightarrow> nat list \<Rightarrow> nat" where
  "value_of b ds = foldl (\<lambda>v d. v * b + d) 0 ds"

lemma value_digits: "value_of b (digits_of b n) = n"
proof (induction b n rule: digits_of.induct)
  case (1 b n)
  then show ?case by (subst digits_of.simps) (auto simp: value_of_def)
qed

lemma digits_of_less: "2 \<le> b \<Longrightarrow> d \<in> set (digits_of b n) \<Longrightarrow> d < b"
proof (induction b n rule: digits_of.induct)
  case (1 b n)
  show ?case
  proof (cases "n < b")
    case True
    then show ?thesis using "1.prems"(2) by (simp add: digits_of.simps [of b n])
  next
    case False
    then show ?thesis using "1.IH" "1.prems" by (auto simp: digits_of.simps [of b n])
  qed
qed

lemma digits_of_nonempty: "digits_of b n \<noteq> []"
  by (subst digits_of.simps) simp

text \<open>The character of a decimal digit.\<close>

definition digit_char :: "nat \<Rightarrow> u8" where
  "digit_char d = of_nat (48 + d)"

lemma digit_char_sint: "d < 10 \<Longrightarrow> sint (digit_char d) = 48 + int d"
proof -
  assume d: "d < 10"
  have "uint (digit_char d) = 48 + int d"
    using d by (simp add: digit_char_def uint_nat unat_of_nat del: of_nat_add)
  moreover have "uint (digit_char d) < 2 ^ 7" using d calculation by simp
  ultimately show ?thesis by (simp add: sint_uint signed_take_bit_int_eq_self)
qed

lemma atoi_digits_run:
  assumes "\<forall>d \<in> set ds. d < 10"
  shows "atoi_digits n (map digit_char ds @ s) = atoi_digits (foldl (\<lambda>m d. 10 * m - of_nat d) n ds) s"
  using assms by (induction ds arbitrary: n) (auto simp: digit_char_sint isdigit_def)

lemma foldl_negated:
  "foldl (\<lambda>m d. 10 * m - of_nat d) (- of_nat v) ds = (- of_nat (foldl (\<lambda>v d. v * 10 + d) v ds) :: u32)"
proof (induction ds arbitrary: v)
  case (Cons d ds)
  have "10 * (- of_nat v) - of_nat d = (- of_nat (v * 10 + d) :: u32)" by (simp add: algebra_simps)
  then show ?case using Cons [of "v * 10 + d"] by (simp only: foldl_Cons)
qed simp

lemma atoi_digits_value:
  assumes "\<forall>d \<in> set ds. d < 10"
  shows "atoi_digits 0 (map digit_char ds @ 0 # r) = Inr (- of_nat (value_of 10 ds))"
  using atoi_digits_run [OF assms, of 0 "0 # r"] foldl_negated [of 0 ds] by (simp add: isdigit_def value_of_def)

text \<open>The decimal text of a signed number.\<close>

definition dec_text :: "int \<Rightarrow> bytes" where
  "dec_text n = (if n < 0 then [45] else []) @ map digit_char (digits_of 10 (nat \<bar>n\<bar>))"

lemma sint_word_of_int_32: "- (2 ^ 31) \<le> n \<Longrightarrow> n < 2 ^ 31 \<Longrightarrow> sint (word_of_int n :: u32) = n"
  by (simp add: signed_of_int signed_take_bit_int_eq_self)

lemma digit_first:
  obtains d ds where "digits_of 10 n = d # ds" "d < 10" "\<forall>x \<in> set ds. x < 10"
  using digits_of_nonempty [of 10 n] digits_of_less [of 10 _ n] by (cases "digits_of 10 n") auto

text \<open>\<open>atoi\<close> reads back every decimal text of an \<open>int\<close>.\<close>

lemma atoi_dec_text:
  assumes "- (2 ^ 31) \<le> n" and "n < 2 ^ 31"
  shows "atoi (dec_text n @ 0 # r) = Inr n"
proof -
  obtain d ds where ds: "digits_of 10 (nat \<bar>n\<bar>) = d # ds" "d < 10" "\<forall>x \<in> set ds. x < 10" by (rule digit_first)
  have v: "value_of 10 (d # ds) = nat \<bar>n\<bar>" using value_digits [of 10 "nat \<bar>n\<bar>"] ds(1) by simp
  have num: "atoi_digits 0 (map digit_char (d # ds) @ 0 # r) = Inr (- of_nat (nat \<bar>n\<bar>))"
    using atoi_digits_value [of "d # ds" r] ds v by simp
  have d: "sint (digit_char d) = 48 + int d" using ds(2) by (rule digit_char_sint)
  have dc: "digit_char d \<noteq> 45" "digit_char d \<noteq> 43" using d by auto
  have w: "(of_nat (nat \<bar>n\<bar>) :: u32) = word_of_int \<bar>n\<bar>" by simp
  show ?thesis
  proof (cases "n < 0")
    case True
    have "dec_text n @ 0 # r = 45 # (map digit_char (d # ds) @ 0 # r)" using True ds(1) by (simp add: dec_text_def)
    then have "atoi (dec_text n @ 0 # r) = Inr (sint (- of_nat (nat \<bar>n\<bar>) :: u32))"
      using num by (simp add: atoi_def isspace_def Let_def)
    also have "(- of_nat (nat \<bar>n\<bar>) :: u32) = word_of_int n" using True unfolding w by simp
    finally show ?thesis using sint_word_of_int_32 [OF assms] by simp
  next
    case False
    have "dec_text n @ 0 # r = map digit_char (d # ds) @ 0 # r" using False ds(1) by (simp add: dec_text_def)
    moreover have "\<not> isspace (sint (digit_char d))" using d by (simp add: isspace_def)
    ultimately have "atoi (dec_text n @ 0 # r) = Inr (sint (of_nat (nat \<bar>n\<bar>) :: u32))"
      using num dc by (simp add: atoi_def Let_def)
    also have "(of_nat (nat \<bar>n\<bar>) :: u32) = word_of_int n" using False unfolding w by simp
    finally show ?thesis using sint_word_of_int_32 [OF assms] by simp
  qed
qed

lemma strtoul_loop_digits:
  assumes "\<forall>d \<in> set ds. d < 10"
  shows "strtoul_loop 10 (of_nat v) (map digit_char ds @ s) = strtoul_loop 10 (of_nat (foldl (\<lambda>v d. v * 10 + d) v ds)) s"
  using assms
proof (induction ds arbitrary: v)
  case (Cons d ds)
  have d: "sint (digit_char d) = 48 + int d" using Cons.prems by (intro digit_char_sint) simp
  then have "digit_char d \<noteq> 0" by auto
  moreover have "(of_nat v * 10 + word_of_int (int d) :: u32) = of_nat (v * 10 + d)" by simp
  ultimately show ?case using Cons.IH [of "v * 10 + d"] Cons.prems d by simp
qed simp

lemma strtoul_decimal:
  assumes "c = 0 \<or> \<not> (48 \<le> sint c \<and> sint c < 58)" and "n < 2 ^ 31"
  shows "strtoul (map digit_char (digits_of 10 n) @ c # r) 10 =
    kmap (\<lambda>(val, e). (word_of_int (sint val), e)) (strtoul_loop 10 (of_nat n) (c # r))"
proof -
  obtain d ds where ds: "digits_of 10 n = d # ds" "d < 10" "\<forall>x \<in> set ds. x < 10" by (rule digit_first)
  have d: "sint (digit_char d) = 48 + int d" using ds(2) by (rule digit_char_sint)
  then have dc: "digit_char d \<noteq> 45" "digit_char d \<noteq> 43" by auto
  have "strtoul_loop 10 0 (map digit_char (digits_of 10 n) @ c # r) = strtoul_loop 10 (of_nat n) (c # r)"
    using strtoul_loop_digits [of "digits_of 10 n" 0 "c # r"] digits_of_less [of 10 _ n] value_digits [of 10 n]
    by (simp add: value_of_def)
  then show ?thesis using ds(1) dc
    by (simp add: strtoul_def strtoul_sign_def strtoul_base_def del: strtoul_loop.simps)
qed

text \<open>\<open>strtoul\<close> in base 10 reads a decimal number correctly when the string ends after it, but stores
  nothing in \<open>endptr\<close> then. When another character follows, \<open>endptr\<close> points to it and the result is ten times
  the number: the value is multiplied by the base before the character is examined.\<close>

theorem strtoul_trailing_character:
  assumes "n * 10 < 2 ^ 31" and "c \<noteq> 0" and "\<not> (48 \<le> sint c \<and> sint c < 58)"
  shows "strtoul (map digit_char (digits_of 10 n) @ 0 # r) 10 = Inr (of_nat n, None) \<and>
    strtoul (map digit_char (digits_of 10 n) @ c # r) 10 = Inr (of_nat (n * 10), Some (c # r))"
proof -
  have s: "(scast (of_nat m :: u32) :: u64) = of_nat m" if "m < 2 ^ 31" for m
  proof -
    have "sint (of_nat m :: u32) = int m" using sint_word_of_int_32 [of "int m"] that by simp
    then have "word_of_int (sint (of_nat m :: u32)) = (word_of_int (int m) :: u64)" by (simp only:)
    then show ?thesis by simp
  qed
  have a: "strtoul (map digit_char (digits_of 10 n) @ 0 # r) 10 = Inr (of_nat n, None)"
    using strtoul_decimal [of 0 n r] s [of n] assms(1) by simp
  have "(of_nat n * 10 :: u32) = of_nat (n * 10)" by simp
  then have "strtoul_loop 10 (of_nat n) (c # r) = Inr (of_nat (n * 10), Some (c # r))"
    using assms(2,3) by (auto simp: Let_def)
  then have b: "strtoul (map digit_char (digits_of 10 n) @ c # r) 10 = Inr (of_nat (n * 10), Some (c # r))"
    using strtoul_decimal [of c n r] s [of "n * 10"] assms by (simp del: of_nat_mult strtoul_loop.simps)
  show ?thesis using a b ..
qed

theorem strtoul_trailing_character_witness:
  "strtoul (map digit_char (digits_of 10 12) @ 120 # []) 10 = Inr (120, Some [120])"
  using strtoul_trailing_character [of 12 120 "[]"] by simp

section \<open>Byte order\<close>

lemma mask_u16: "(0xff :: u16) = mask 8" "(0xff00 :: u16) = push_bit 8 (mask 8)"
  by (simp_all add: mask_eq_exp_minus_1 push_bit_eq_mult)

lemma mask_u32: "(0xff :: u32) = mask 8" "(0xff00 :: u32) = push_bit 8 (mask 8)"
  "(0xff0000 :: u32) = push_bit 16 (mask 8)" "(0xff000000 :: u32) = push_bit 24 (mask 8)"
  by (simp_all add: mask_eq_exp_minus_1 push_bit_eq_mult)

lemmas word_bits = bit_and_iff bit_or_iff bit_push_bit_iff bit_drop_bit_eq bit_mask_iff

lemma bit_htons: "bit (htons n) i \<longleftrightarrow> (i < 8 \<and> bit n (i + 8)) \<or> (8 \<le> i \<and> i < 16 \<and> bit n (i - 8))"
  unfolding htons_def mask_u16 using bit_imp_le_length [of n "i + 8"] by (auto simp: word_bits ac_simps)

lemma bit_htonl: "bit (htonl n) i \<longleftrightarrow> (i < 8 \<and> bit n (i + 24)) \<or> (8 \<le> i \<and> i < 16 \<and> bit n (i + 8)) \<or>
    (16 \<le> i \<and> i < 24 \<and> bit n (i - 8)) \<or> (24 \<le> i \<and> i < 32 \<and> bit n (i - 24))"
proof -
  consider "i < 8" | "8 \<le> i \<and> i < 16" | "16 \<le> i \<and> i < 24" | "24 \<le> i \<and> i < 32" | "32 \<le> i" by linarith
  then show ?thesis
    unfolding htonl_def mask_u32 by cases (simp_all add: word_bits ac_simps, auto dest: bit_imp_le_length)
qed

lemma ntohs_htons [simp]: "ntohs (htons n) = n"
proof (rule bit_word_eqI)
  fix i assume "i < LENGTH(16)"
  have e: "ntohs m = htons m" for m by (simp add: ntohs_def htons_def)
  have "i < 16" using \<open>i < LENGTH(16)\<close> by simp
  then consider "i < 8" | "8 \<le> i \<and> i < 16" by linarith
  then show "bit (ntohs (htons n)) i = bit n i" unfolding e by cases (auto simp: bit_htons)
qed

lemma ntohl_htonl [simp]: "ntohl (htonl n) = n"
proof (rule bit_word_eqI)
  fix i assume "i < LENGTH(32)"
  have e: "ntohl m = htonl m" for m by (simp add: ntohl_def htonl_def)
  have "i < 32" using \<open>i < LENGTH(32)\<close> by simp
  then consider "i < 8" | "8 \<le> i \<and> i < 16" | "16 \<le> i \<and> i < 24" | "24 \<le> i \<and> i < 32" by linarith
  then show "bit (ntohl (htonl n)) i = bit n i" unfolding e by cases (auto simp: bit_htonl)
qed

end
