(* ===== verification/Tty_Print.thy ===== *)
theory Tty_Print
  imports Libc
begin

text \<open>
  Formatted output of \<open>tty.cc\<close> and \<open>tty.h\<close>: \<open>Tty::Vprintf_sub\<close> with its number conversions, the
  chunked strings \<open>Tty::String\<close> it writes to, and \<open>Tty::PrintString\<close>. The pool of preallocated
  chunks is the number of chunks in it.
\<close>

section \<open>Number conversion\<close>

text \<open>Lines 171-175 and their copies: the number of digits after the first.\<close>

function count_digits :: "'a::len word \<Rightarrow> 'a word \<Rightarrow> nat" where
  "count_digits base i = (if base \<le> i \<and> 1 < unat base then Suc (count_digits base (i div base)) else 0)"
  by auto
termination
proof (relation "measure (\<lambda>(base, i). unat i)")
  fix base i :: "'a word"
  assume "base \<le> i \<and> 1 < unat base"
  moreover from this have "0 < unat i" by (auto simp: word_le_nat_alt)
  ultimately show "((base, i div base), (base, i)) \<in> measure (\<lambda>(base, i). unat i)"
    by (simp add: unat_div div_less_dividend)
qed simp

declare count_digits.simps [simp del]

text \<open>Lines 177-180: the power of the base.\<close>

fun pow_loop :: "'a::len word \<Rightarrow> nat \<Rightarrow> 'a word" where
  "pow_loop base 0 = 1"
| "pow_loop base (Suc k) = pow_loop base k * base"

definition put_digit :: "'a::len word \<Rightarrow> bytes" where
  "put_digit l = (if l < 10 then [ucast l + 48] else if l < 16 then [ucast l - 10 + 65] else [])"

text \<open>Lines 176-184: one digit per turn, for \<open>j = n - 1, \<dots>, 0\<close>.\<close>

fun print_digits :: "'a::len word \<Rightarrow> nat \<Rightarrow> 'a word \<Rightarrow> bytes" where
  "print_digits base 0 num = []"
| "print_digits base (Suc j) num = (let i = pow_loop base j; l = num div i
     in put_digit l @ print_digits base j (num - l * i))"

definition print_num :: "'a::len word \<Rightarrow> 'a word \<Rightarrow> bytes" where
  "print_num base num = print_digits base (Suc (count_digits base num)) num"

text \<open>
  \<open>%d\<close> and \<open>%lld\<close>: the sign and the absolute value. The negation of the most negative number, which C++ leaves
  undefined, wraps around as the processor's instruction does.
\<close>

definition print_signed :: "'a::len word \<Rightarrow> bytes" where
  "print_signed num = (if sint num < 0 then 45 # print_num 10 (- num) else print_num 10 num)"

section \<open>Format strings\<close>

datatype va_arg = Arg_Int u32 | Arg_Str bytes | Arg_Int64 u64

text \<open>The flag, width and precision behind a percent sign; the result is the precision and the rest.\<close>

definition digit_byte :: "u8 \<Rightarrow> bool" where
  "digit_byte c = isdigit (sint c)"

definition parse_spec :: "bytes \<Rightarrow> u32 \<times> bytes" where
  "parse_spec f = (let
     f1 = (case f of c # r \<Rightarrow> if c = 43 \<or> c = 45 \<or> c = 35 then r else f | [] \<Rightarrow> []);
     f2 = dropWhile digit_byte f1;
     f3 = (case f2 of c # r \<Rightarrow> if c = 46 then r else f2 | [] \<Rightarrow> [])
   in (foldl (\<lambda>a c. a * 10 + word_of_int (sint c - 48)) 0 (takeWhile digit_byte f3), dropWhile digit_byte f3))"

lemma parse_spec_shorter: "length (snd (parse_spec f)) \<le> length f"
proof -
  have a: "length (case g of c # r \<Rightarrow> if P c then r else g | [] \<Rightarrow> []) \<le> length g" for g :: bytes and P
    by (cases g) auto
  define f1 where "f1 = (case f of c # r \<Rightarrow> if c = 43 \<or> c = 45 \<or> c = 35 then r else f | [] \<Rightarrow> [])"
  define f2 where "f2 = dropWhile digit_byte f1"
  define f3 where "f3 = (case f2 of c # r \<Rightarrow> if c = 46 then r else f2 | [] \<Rightarrow> [])"
  have "length (dropWhile digit_byte f3) \<le> length f3" "length f2 \<le> length f1"
    unfolding f2_def by (rule length_dropWhile_le)+
  moreover have "length f1 \<le> length f" "length f3 \<le> length f2" unfolding f1_def f3_def by (rule a)+
  ultimately show ?thesis unfolding parse_spec_def Let_def f1_def [symmetric] f2_def [symmetric] f3_def [symmetric] by simp
qed

fun until_zero :: "bytes \<Rightarrow> bytes kres" where
  "until_zero [] = Inl Out_Of_Range"
| "until_zero (c # s) = (if c = 0 then Inr [] else kmap (Cons c) (until_zero s))"

fun at_most :: "nat \<Rightarrow> bytes \<Rightarrow> bytes kres" where
  "at_most 0 s = Inr []"
| "at_most (Suc n) [] = Inl Out_Of_Range"
| "at_most (Suc n) (c # s) = (if c = 0 then Inr [] else kmap (Cons c) (at_most n s))"

definition print_str :: "u32 \<Rightarrow> bytes \<Rightarrow> bytes kres" where
  "print_str accuracy s = (if accuracy = 0 then until_zero s else at_most (nat (sint accuracy)) s)"

text \<open>Arguments are taken one by one; a missing argument or one of another type is a fault.\<close>

definition take_int :: "(u32 \<Rightarrow> bytes) \<Rightarrow> va_arg list \<Rightarrow> (bytes \<times> va_arg list) kres" where
  "take_int f args = (case args of Arg_Int n # r \<Rightarrow> Inr (f n, r) | _ \<Rightarrow> Inl Out_Of_Range)"

definition take_int64 :: "(u64 \<Rightarrow> bytes) \<Rightarrow> va_arg list \<Rightarrow> (bytes \<times> va_arg list) kres" where
  "take_int64 f args = (case args of Arg_Int64 n # r \<Rightarrow> Inr (f n, r) | _ \<Rightarrow> Inl Out_Of_Range)"

definition take_str :: "(bytes \<Rightarrow> bytes kres) \<Rightarrow> va_arg list \<Rightarrow> (bytes \<times> va_arg list) kres" where
  "take_str f args = (case args of Arg_Str s # r \<Rightarrow> kmap (\<lambda>t. (t, r)) (f s) | _ \<Rightarrow> Inl Out_Of_Range)"

text \<open>The conversions with one or two letters l.\<close>

definition convert_long :: "bytes \<Rightarrow> va_arg list \<Rightarrow> (bytes \<times> va_arg list \<times> bytes) kres" where
  "convert_long f args = (case f of
         [] \<Rightarrow> Inl Out_Of_Range
       | c2 # f2 \<Rightarrow> if c2 = 108 then (case f2 of
             [] \<Rightarrow> Inl Out_Of_Range
           | c3 # f3 \<Rightarrow>
               if c3 = 100 then kmap (\<lambda>(t, a). (t, a, f3)) (take_int64 print_signed args)
               else if c3 = 117 then kmap (\<lambda>(t, a). (t, a, f3)) (take_int64 (print_num 10) args)
               else if c3 = 120 then kmap (\<lambda>(t, a). (t, a, f3)) (take_int64 (print_num 16) args)
               else Inr ([37, 108, 108, c3], args, f3))
         else Inr ([37, 108, c2], args, f2))"

text \<open>The conversion character: text, arguments left and format left. The characters of a conversion that is not known are printed.\<close>

definition convert :: "u32 \<Rightarrow> u8 \<Rightarrow> bytes \<Rightarrow> va_arg list \<Rightarrow> (bytes \<times> va_arg list \<times> bytes) kres" where
  "convert accuracy c f args = (
     if c = 99 then kmap (\<lambda>(t, a). (t, a, f)) (take_int (\<lambda>n. [ucast n]) args)
     else if c = 115 then kmap (\<lambda>(t, a). (t, a, f)) (take_str (print_str accuracy) args)
     else if c = 117 then kmap (\<lambda>(t, a). (t, a, f)) (take_int (print_num 10) args)
     else if c = 100 then kmap (\<lambda>(t, a). (t, a, f)) (take_int print_signed args)
     else if c = 112 \<or> c = 88 \<or> c = 120 then kmap (\<lambda>(t, a). (t, a, f)) (take_int (print_num 16) args)
     else if c = 108 then convert_long f args
     else Inr ([37, c], args, f))"

lemma convert_shorter: "convert a c f args = Inr (t, args', f') \<Longrightarrow> length f' \<le> length f"
  by (auto simp: convert_def convert_long_def kres_inv split: if_splits list.splits)

function Vprintf_sub :: "bytes \<Rightarrow> va_arg list \<Rightarrow> bytes kres" where
  "Vprintf_sub [] args = Inl Out_Of_Range"
| "Vprintf_sub (c # f) args =
     (if c = 0 then Inr []
      else if c = 37 then (case parse_spec f of
          (accuracy, []) \<Rightarrow> Inl Out_Of_Range
        | (accuracy, d # g) \<Rightarrow> if d = 0 then Inr []
            else (case convert accuracy d g args of
                Inl e \<Rightarrow> Inl e
              | Inr (t, args', h) \<Rightarrow> kmap ((@) t) (Vprintf_sub h args')))
      else kmap (Cons c) (Vprintf_sub f args))"
  by pat_completeness auto
termination
proof (relation "measure (\<lambda>(f, args). length f)")
qed (auto dest!: convert_shorter, metis Suc_leD le_imp_less_Suc le_trans length_Cons parse_spec_shorter snd_conv)

section \<open>The printed number\<close>

text \<open>Exactly \<open>k\<close> digits of \<open>n\<close>.\<close>

fun fixed_digits :: "nat \<Rightarrow> nat \<Rightarrow> nat \<Rightarrow> nat list" where
  "fixed_digits b 0 n = []"
| "fixed_digits b (Suc j) n = n div b ^ j # fixed_digits b j (n mod b ^ j)"

lemma fixed_digits_snoc:
  "fixed_digits b (Suc (Suc k)) n = fixed_digits b (Suc k) (n div b) @ [n mod b]"
proof (induction k arbitrary: n)
  case (Suc k)
  have "fixed_digits b (Suc (Suc (Suc k))) n =
      n div b ^ Suc (Suc k) # (fixed_digits b (Suc k) (n mod b ^ Suc (Suc k) div b) @ [n mod b ^ Suc (Suc k) mod b])"
    using Suc.IH [of "n mod b ^ Suc (Suc k)"] by (simp only: fixed_digits.simps(2) [of b "Suc (Suc k)"])
  moreover have "n mod b ^ Suc (Suc k) div b = n div b mod b ^ Suc k" "n mod b ^ Suc (Suc k) mod b = n mod b"
    "n div b ^ Suc (Suc k) = n div b div b ^ Suc k"
  proof -
    have e: "b ^ Suc (Suc k) = b * b ^ Suc k" by simp
    show "n div b ^ Suc (Suc k) = n div b div b ^ Suc k" unfolding e by (rule div_mult2_eq)
    show "n mod b ^ Suc (Suc k) mod b = n mod b" unfolding e by (rule mod_mod_cancel) simp
    show "n mod b ^ Suc (Suc k) div b = n div b mod b ^ Suc k"
      unfolding e by (cases "b = 0") (simp_all add: mod_mult2_eq del: power_Suc)
  qed
  ultimately show ?case by (simp only: fixed_digits.simps(2) [of b "Suc k" "n div b"]) simp
qed simp

lemma count_digits_div:
  "unat base \<le> unat i \<Longrightarrow> 2 \<le> unat base \<Longrightarrow> count_digits base i = Suc (count_digits base (i div base))"
  by (subst count_digits.simps) (auto simp: word_le_nat_alt)

lemma digits_of_fixed:
  fixes base i :: "'a::len word"
  assumes "2 \<le> unat base"
  shows "digits_of (unat base) (unat i) = fixed_digits (unat base) (Suc (count_digits base i)) (unat i) \<and>
    unat i < unat base ^ Suc (count_digits base i) \<and> (count_digits base i = 0 \<or> unat base ^ count_digits base i \<le> unat i)"
  using assms
proof (induction base i rule: count_digits.induct)
  case (1 base i)
  define B where "B = unat base"
  show ?case
  proof (cases "B \<le> unat i")
    case False
    then have "count_digits base i = 0" by (subst count_digits.simps) (simp add: word_le_nat_alt B_def)
    then show ?thesis using False "1.prems" by (simp add: digits_of.simps [of _ "unat i"] B_def)
  next
    case True
    define k where "k = count_digits base (i div base)"
    have c: "count_digits base i = Suc k" using count_digits_div [of base i] True "1.prems" by (simp add: B_def k_def)
    have d: "unat (i div base) = unat i div B" by (simp add: unat_div B_def)
    have IH: "digits_of B (unat i div B) = fixed_digits B (Suc k) (unat i div B)" "unat i div B < B ^ Suc k"
      "k = 0 \<or> B ^ k \<le> unat i div B"
      using "1.IH" "1.prems" True by (auto simp: word_le_nat_alt B_def k_def unat_div)
    have "digits_of B (unat i) = digits_of B (unat i div B) @ [unat i mod B]"
      using True "1.prems" by (subst digits_of.simps) (simp add: B_def)
    then have "digits_of B (unat i) = fixed_digits B (Suc (Suc k)) (unat i)"
      by (simp only: IH(1) fixed_digits_snoc)
    moreover have "unat i < B ^ Suc (Suc k)"
      using IH(2) "1.prems" by (simp add: B_def div_less_iff_less_mult mult.commute)
    moreover have "B ^ Suc k \<le> unat i"
    proof (cases "k = 0")
      case False
      then have "B ^ k \<le> unat i div B" using IH(3) by simp
      then have "B ^ k * B \<le> unat i div B * B" by (rule mult_le_mono1)
      also have "\<dots> \<le> unat i" by (rule div_times_less_eq_dividend)
      finally show ?thesis by (simp add: mult.commute)
    qed (use True in simp)
    ultimately show ?thesis unfolding c B_def by blast
  qed
qed

lemma unat_pow_loop: "unat base ^ j < 2 ^ LENGTH('a) \<Longrightarrow> unat (pow_loop base j) = unat base ^ j"
  for base :: "'a::len word"
proof (induction j)
  case (Suc j)
  show ?case
  proof (cases "unat base = 0")
    case False
    then have le: "unat base ^ j \<le> unat base ^ Suc j" by simp
    then have "unat (pow_loop base j) = unat base ^ j" using Suc by (meson le_less_trans)
    then show ?thesis using Suc.prems by (simp add: unat_mult_lem [THEN iffD1] mult.commute)
  qed (simp add: unat_eq_zero)
qed simp

text \<open>The digit characters of the two bases.\<close>

definition hex_char :: "nat \<Rightarrow> u8" where
  "hex_char d = (if d < 10 then of_nat (48 + d) else of_nat (55 + d))"

lemma put_digit_char:
  fixes l :: "'a::len word"
  assumes "unat (10 :: 'a word) = 10" and "unat (16 :: 'a word) = 16" and "unat l < 16"
  shows "put_digit l = [hex_char (unat l)]"
proof -
  have u: "(ucast l :: u8) = of_nat (unat l)" by (simp add: unsigned_ucast_eq)
  show ?thesis
    using assms unfolding put_digit_def u word_less_nat_alt assms(1,2) by (auto simp: hex_char_def)
qed

lemma print_digits_fixed:
  fixes base num :: "'a::len word"
  assumes w: "unat (10 :: 'a word) = 10" "unat (16 :: 'a word) = 16" and b: "2 \<le> unat base" "unat base \<le> 16"
    and "k = 0 \<or> unat base ^ (k - 1) < 2 ^ LENGTH('a)" and "unat num < unat base ^ k"
  shows "print_digits base k num = map hex_char (fixed_digits (unat base) k (unat num))"
  using assms(5,6)
proof (induction k arbitrary: num)
  case (Suc j)
  have p: "unat (pow_loop base j) = unat base ^ j" using Suc.prems(1) by (intro unat_pow_loop) simp
  have IH: "j = 0 \<or> unat base ^ (j - 1) < 2 ^ LENGTH('a)"
  proof (cases j)
    case (Suc i)
    have "unat base ^ i \<le> unat base ^ j" using b(1) Suc by (intro power_increasing) auto
    moreover have "unat base ^ j < 2 ^ LENGTH('a)" using Suc.prems(1) by simp
    ultimately have "unat base ^ i < 2 ^ LENGTH('a)" by (rule le_less_trans)
    then show ?thesis using Suc by simp
  qed simp
  define l where "l = num div pow_loop base j"
  have l: "unat l = unat num div unat base ^ j" by (simp add: l_def unat_div p)
  have "unat l < unat base" unfolding l using Suc.prems(2) by (simp add: less_mult_imp_div_less)
  then have "put_digit l = [hex_char (unat l)]" using b(2) by (intro put_digit_char [OF w]) simp
  moreover have "num - l * pow_loop base j = num mod pow_loop base j"
    unfolding l_def by (simp add: minus_div_mult_eq_mod)
  moreover have r: "unat (num mod pow_loop base j) = unat num mod unat base ^ j" by (simp add: unat_mod p)
  moreover have "unat num mod unat base ^ j < unat base ^ j" using b(1) by simp
  ultimately show ?case
    using Suc.IH [OF IH, of "num mod pow_loop base j"] l by (simp add: Let_def l_def [symmetric])
qed simp

lemma print_num_digits:
  fixes base num :: "'a::len word"
  assumes "unat (10 :: 'a word) = 10" "unat (16 :: 'a word) = 16" "2 \<le> unat base" "unat base \<le> 16"
  shows "print_num base num = map hex_char (digits_of (unat base) (unat num))"
proof -
  define k where "k = count_digits base num"
  have k: "digits_of (unat base) (unat num) = fixed_digits (unat base) (Suc k) (unat num)"
    "unat num < unat base ^ Suc k" "k = 0 \<or> unat base ^ k \<le> unat num"
    using digits_of_fixed [OF assms(3), of num] by (simp_all add: k_def)
  have "unat base ^ k < 2 ^ LENGTH('a)"
  proof (cases "k = 0")
    case False
    then have "unat base ^ k \<le> unat num" using k(3) by simp
    also have "\<dots> < 2 ^ LENGTH('a)" by (rule unsigned_less)
    finally show ?thesis .
  qed (use one_less_power [of "2 :: nat" "LENGTH('a)"] in simp)
  then show ?thesis
    unfolding print_num_def k_def [symmetric] k(1) using k(2) by (intro print_digits_fixed [OF assms]) simp_all
qed

lemma hex_char_decimal: "d \<in> set (digits_of 10 n) \<Longrightarrow> hex_char d = digit_char d"
  using digits_of_less [of 10 d n] by (simp add: hex_char_def digit_char_def)

text \<open>The conversions of \<open>Vprintf_sub\<close> print exactly the digits of the number, without leading zeros: in
  decimal for \<open>%u\<close> and \<open>%llu\<close>, in hexadecimal for \<open>%x\<close> and \<open>%llx\<close>, for every 32-bit and every 64-bit value.\<close>

theorem print_num_is_digits:
  "print_num 10 (n :: u32) = map digit_char (digits_of 10 (unat n)) \<and>
   print_num 10 (m :: u64) = map digit_char (digits_of 10 (unat m)) \<and>
   print_num 16 n = map hex_char (digits_of 16 (unat n)) \<and>
   print_num 16 m = map hex_char (digits_of 16 (unat m))"
  by (simp add: print_num_digits hex_char_decimal cong: map_cong)

lemma print_num_decimal: "print_num 10 (n :: u32) = map digit_char (digits_of 10 (unat n))"
  by (simp add: print_num_digits hex_char_decimal cong: map_cong)

lemma unat_word_of_int_32: "0 \<le> x \<Longrightarrow> x < 2 ^ 32 \<Longrightarrow> unat (word_of_int x :: u32) = nat x"
  unfolding unat_eq_nat_uint uint_word_of_int by (subst mod_pos_pos_trivial) simp_all

lemma print_signed_dec: "print_signed (n :: u32) = dec_text (sint n)"
proof (cases "sint n < 0")
  case True
  have "- n = word_of_int (- sint n)" by simp
  also have "unat (word_of_int (- sint n) :: u32) = nat (- sint n)"
    using True sint_ge [of n] by (intro unat_word_of_int_32) simp_all
  finally have "unat (- n) = nat \<bar>sint n\<bar>" using True by simp
  then show ?thesis using True by (simp add: print_signed_def dec_text_def print_num_decimal)
next
  case False
  have "n = word_of_int (sint n)" by simp
  also have "unat (word_of_int (sint n) :: u32) = nat (sint n)"
    using False sint_lt [of n] by (intro unat_word_of_int_32) simp_all
  finally have "unat n = nat \<bar>sint n\<bar>" using False by simp
  then show ?thesis using False by (simp add: print_signed_def dec_text_def print_num_decimal)
qed

text \<open>C33: What \<open>%d\<close> prints, \<open>atoi\<close> reads back: for every \<open>int\<close> argument, the most negative one included, the
  text produced by \<open>Vprintf_sub\<close> is parsed to the same value.\<close>

theorem printf_atoi_roundtrip:
  "\<exists>t. Vprintf_sub [37, 100, 0] [Arg_Int n] = Inr t \<and> atoi (t @ 0 # r) = Inr (sint n)"
proof -
  have "Vprintf_sub [37, 100, 0] [Arg_Int n] = Inr (dec_text (sint n))"
    by (simp add: parse_spec_def digit_byte_def isdigit_def convert_def take_int_def print_signed_dec)
  moreover have "atoi (dec_text (sint n) @ 0 # r) = Inr (sint n)"
    using sint_ge [of n] sint_lt [of n] by (intro atoi_dec_text) simp_all
  ultimately show ?thesis by blast
qed

lemma Vprintf_sub_plain:
  "0 \<notin> set s \<Longrightarrow> 37 \<notin> set s \<Longrightarrow> Vprintf_sub (s @ f) args = kmap ((@) s) (Vprintf_sub f args)"
proof (induction s)
  case Nil
  then show ?case by (cases "Vprintf_sub f args") simp_all
next
  case (Cons c s)
  then show ?case by (cases "Vprintf_sub f args") simp_all
qed

text \<open>A format that ends with \<open>%l\<close> or \<open>%ll\<close> is read past its terminator: the terminator is printed
  as an unknown conversion and the loop goes on behind it.\<close>

theorem Vprintf_sub_reads_past_end:
  assumes "0 \<notin> set s" and "37 \<notin> set s"
  shows "Vprintf_sub (s @ [37, 108, 0]) args = Inl Out_Of_Range \<and>
    Vprintf_sub (s @ [37, 108, 108, 0]) args = Inl Out_Of_Range"
  by (simp add: Vprintf_sub_plain [OF assms] parse_spec_def digit_byte_def isdigit_def convert_def convert_long_def)

theorem Vprintf_sub_reads_past_end_witness: "Vprintf_sub ([97] @ [37, 108, 0]) [] = Inl Out_Of_Range"
  using Vprintf_sub_reads_past_end [of "[97]" "[]"] by simp

section \<open>Chunked strings\<close>

datatype StrType = kSingle | kQueue | kBuffered

text \<open>A chunk holds up to 100 bytes; the bytes up to \<open>offset\<close> are kept.\<close>

datatype TtyString = TtyString StrType bytes "TtyString option"

definition str_length :: nat where "str_length = 100"

text \<open>\<open>String::Get\<close>: a chunk from the pool, or a new one when the pool is empty.\<close>

definition String_Get :: "nat \<Rightarrow> StrType \<times> nat" where
  "String_Get pool = (if 0 < pool then (kBuffered, pool - 1) else (kQueue, 0))"

fun String_Write :: "u8 \<Rightarrow> TtyString \<Rightarrow> nat \<Rightarrow> TtyString \<times> nat" where
  "String_Write c (TtyString ty xs nx) pool =
     (if length xs = str_length then (case nx of
          None \<Rightarrow> (case ty of
              kQueue \<Rightarrow> (TtyString ty xs (Some (TtyString kQueue [c] None)), pool)
            | kBuffered \<Rightarrow> (case String_Get pool of (ty', pool') \<Rightarrow> (TtyString ty xs (Some (TtyString ty' [c] None)), pool'))
            | kSingle \<Rightarrow> (TtyString ty xs None, pool))
        | Some s \<Rightarrow> (case String_Write c s pool of (s', pool') \<Rightarrow> (TtyString ty xs (Some s'), pool')))
      else (TtyString ty (xs @ [c]) nx, pool))"

fun write_all :: "bytes \<Rightarrow> TtyString \<Rightarrow> nat \<Rightarrow> TtyString \<times> nat" where
  "write_all [] s pool = (s, pool)"
| "write_all (c # cs) s pool = (case String_Write c s pool of (s', pool') \<Rightarrow> write_all cs s' pool')"

text \<open>\<open>PrintString\<close>: the characters given to \<open>Write\<close>. The bytes of a chunk behind its offset are not defined.\<close>

fun PrintString :: "TtyString \<Rightarrow> bytes kres" where
  "PrintString (TtyString ty xs nx) =
     (if 0 \<in> set xs then Inr (takeWhile (\<lambda>c. c \<noteq> 0) xs)
      else if length xs < str_length then Inl Out_Of_Range
      else (case nx of None \<Rightarrow> Inr xs | Some s \<Rightarrow> kmap ((@) xs) (PrintString s)))"

text \<open>
  \<open>String::Delete\<close>: chunks of the pool go back to it, others are freed; a local string must not be deleted. The pool is a ring
  buffer for 64 chunks, and a \<open>Push\<close> that is refused fails an assertion.
\<close>

definition str_buffer_size :: nat where "str_buffer_size = 64"

fun String_Delete :: "TtyString \<Rightarrow> nat \<Rightarrow> nat kres" where
  "String_Delete (TtyString ty xs nx) pool =
     kbind (case nx of None \<Rightarrow> Inr pool | Some s \<Rightarrow> String_Delete s pool) (\<lambda>pool1.
     case ty of kSingle \<Rightarrow> Inl Kassert | kQueue \<Rightarrow> Inr pool1
       | kBuffered \<Rightarrow> kbind (kassert (pool1 < str_buffer_size)) (\<lambda>_. Inr (pool1 + 1)))"

text \<open>
  A terminal: whether \<open>DoString\<close> can hand strings over (the processor of the terminal is known and its tasks run), the number of
  chunks in the pool, the strings that wait for \<open>Handle\<close>, and what has been printed
\<close>

record Tty =
  tty_started :: bool
  tty_pool :: nat
  tty_queue :: "TtyString list"
  tty_out :: bytes

text \<open>\<open>String::Init\<close> fills the pool.\<close>

definition String_Init :: "Tty \<Rightarrow> Tty" where
  "String_Init tty = tty \<lparr> tty_pool := max (tty_pool tty) str_buffer_size \<rparr>"

text \<open>Before the tasks run the string is printed at once, and its chunks are not given back.\<close>

definition DoString :: "TtyString \<Rightarrow> Tty \<Rightarrow> Tty kres" where
  "DoString s tty = (if tty_started tty then Inr (tty \<lparr> tty_queue := tty_queue tty @ [s] \<rparr>)
     else kmap (\<lambda>out. tty \<lparr> tty_out := tty_out tty @ out \<rparr>) (PrintString s))"

definition Vprintf :: "bytes \<Rightarrow> va_arg list \<Rightarrow> Tty \<Rightarrow> Tty kres" where
  "Vprintf fmt args tty = (case String_Get (tty_pool tty) of (ty, pool1) \<Rightarrow>
     kbind (Vprintf_sub fmt args) (\<lambda>t.
     case write_all (t @ [0]) (TtyString ty [] None) pool1 of (s, pool2) \<Rightarrow> DoString s (tty \<lparr> tty_pool := pool2 \<rparr>)))"

text \<open>The loop of \<open>Handle\<close> over the strings of the queue, and \<open>Flush\<close>\<close>

fun handle_strings :: "TtyString list \<Rightarrow> Tty \<Rightarrow> Tty kres" where
  "handle_strings [] tty = Inr tty"
| "handle_strings (s # ss) tty = kbind (PrintString s) (\<lambda>out. kbind (String_Delete s (tty_pool tty)) (\<lambda>pool.
     handle_strings ss (tty \<lparr> tty_out := tty_out tty @ out, tty_pool := pool \<rparr>)))"

definition Tty_Flush :: "Tty \<Rightarrow> Tty kres" where
  "Tty_Flush tty = handle_strings (tty_queue tty) (tty \<lparr> tty_queue := [] \<rparr>)"

definition ErrVprintf :: "bytes \<Rightarrow> va_arg list \<Rightarrow> bytes kres" where
  "ErrVprintf fmt args = kbind (Vprintf_sub fmt args) (\<lambda>t.
     PrintString (fst (write_all (t @ [0]) (TtyString kSingle [] None) 0)))"

text \<open>The contents of a chain, and its shape: only the last chunk may be partly filled.\<close>

fun contents :: "TtyString \<Rightarrow> bytes" where
  "contents (TtyString ty xs nx) = xs @ (case nx of None \<Rightarrow> [] | Some s \<Rightarrow> contents s)"

fun chain_ok :: "TtyString \<Rightarrow> bool" where
  "chain_ok (TtyString ty xs nx) \<longleftrightarrow> ty \<noteq> kSingle \<and> length xs \<le> str_length \<and>
     (case nx of None \<Rightarrow> True | Some s \<Rightarrow> length xs = str_length \<and> chain_ok s)"

fun buffered :: "TtyString \<Rightarrow> nat" where
  "buffered (TtyString ty xs nx) = (if ty = kBuffered then 1 else 0) + (case nx of None \<Rightarrow> 0 | Some s \<Rightarrow> buffered s)"

lemma String_Write_ok:
  "chain_ok s \<Longrightarrow> String_Write c s pool = (s', pool') \<Longrightarrow>
   contents s' = contents s @ [c] \<and> chain_ok s' \<and> buffered s' + pool' = buffered s + pool"
proof (induction c s pool arbitrary: s' pool' rule: String_Write.induct)
  case (1 c ty xs nx pool)
  show ?case
  proof (cases "length xs = str_length")
    case False
    then show ?thesis using "1.prems" by (cases nx) auto
  next
    case True
    show ?thesis
    proof (cases nx)
      case None
      then show ?thesis using "1.prems" True
        by (cases ty) (auto simp: String_Get_def str_length_def split: if_splits)
    next
      case (Some s)
      obtain s1 pool1 where w: "String_Write c s pool = (s1, pool1)" by (cases "String_Write c s pool")
      have "chain_ok s" using "1.prems"(1) Some by simp
      from "1.IH" [OF True Some this w] show ?thesis using "1.prems" True Some w by auto
    qed
  qed
qed

lemma write_all_ok:
  "chain_ok s \<Longrightarrow> write_all cs s pool = (s', pool') \<Longrightarrow>
   contents s' = contents s @ cs \<and> chain_ok s' \<and> buffered s' + pool' = buffered s + pool"
proof (induction cs arbitrary: s pool)
  case (Cons c cs)
  obtain s1 pool1 where w: "String_Write c s pool = (s1, pool1)" by (cases "String_Write c s pool")
  then show ?case using String_Write_ok [OF Cons.prems(1) w] Cons.IH [of s1 pool1] Cons.prems(2) by auto
qed auto

lemma PrintString_contents:
  "chain_ok s \<Longrightarrow> 0 \<in> set (contents s) \<Longrightarrow> PrintString s = Inr (takeWhile (\<lambda>c. c \<noteq> 0) (contents s))"
proof (induction s rule: PrintString.induct)
  case (1 ty xs nx)
  show ?case
  proof (cases "0 \<in> set xs")
    case True
    then show ?thesis by (simp add: takeWhile_append1 [of 0])
  next
    case False
    then obtain s where s: "nx = Some s" using "1.prems"(2) by (cases nx) auto
    then have "0 \<in> set (contents s)" "chain_ok s" "length xs = str_length" using "1.prems" False by auto
    then show ?thesis using "1.IH" [OF False _ s] s False by (auto simp: takeWhile_append)
  qed
qed

lemma String_Delete_ok: "chain_ok s \<Longrightarrow> buffered s + pool \<le> str_buffer_size \<Longrightarrow> String_Delete s pool = Inr (buffered s + pool)"
proof (induction s pool rule: String_Delete.induct)
  case (1 ty xs nx pool)
  show ?case
  proof (cases nx)
    case None
    then show ?thesis using "1.prems" by (cases ty) (auto simp: kassert_def)
  next
    case (Some s)
    then show ?thesis using "1.IH" "1.prems" by (cases ty) (auto simp: kassert_def)
  qed
qed

text \<open>The first chunk keeps its type.\<close>

fun first_type :: "TtyString \<Rightarrow> StrType" where
  "first_type (TtyString ty xs nx) = ty"

lemma first_type_write: "first_type (fst (String_Write c s pool)) = first_type s"
  by (cases s) (auto split: option.splits StrType.splits prod.splits)

lemma first_type_write_all: "first_type (fst (write_all cs s pool)) = first_type s"
proof (induction cs arbitrary: s pool)
  case (Cons c cs)
  then show ?case using first_type_write [of c s pool] by (auto split: prod.splits)
qed simp

lemma first_buffered: "first_type s = kBuffered \<Longrightarrow> 0 < buffered s"
  by (cases s) simp

text \<open>The text of a string, and a terminal whose chunks are all in the pool or in the queue, or lost\<close>

definition str_text :: "TtyString \<Rightarrow> bytes" where
  "str_text s = takeWhile (\<lambda>c. c \<noteq> 0) (contents s)"

definition tty_ok :: "Tty \<Rightarrow> bool" where
  "tty_ok tty \<longleftrightarrow> (\<forall>s \<in> set (tty_queue tty). chain_ok s \<and> 0 \<in> set (contents s)) \<and>
     sum_list (map buffered (tty_queue tty)) + tty_pool tty \<le> str_buffer_size"

lemma handle_strings_ok:
  assumes "\<forall>s \<in> set ss. chain_ok s \<and> 0 \<in> set (contents s)" and "sum_list (map buffered ss) + tty_pool tty \<le> str_buffer_size"
  shows "handle_strings ss tty = Inr (tty \<lparr> tty_out := tty_out tty @ concat (map str_text ss), tty_pool := sum_list (map buffered ss) + tty_pool tty \<rparr>)"
  using assms
proof (induction ss arbitrary: tty)
  case (Cons s ss)
  have "PrintString s = Inr (str_text s)" "String_Delete s (tty_pool tty) = Inr (buffered s + tty_pool tty)"
    using Cons.prems PrintString_contents [of s] String_Delete_ok [of s "tty_pool tty"] by (simp_all add: str_text_def)
  then show ?case using Cons.IH [of "tty \<lparr> tty_out := tty_out tty @ str_text s, tty_pool := buffered s + tty_pool tty \<rparr>"] Cons.prems by (simp add: ac_simps)
qed simp

lemma Flush_ok:
  assumes "tty_ok tty"
  shows "Tty_Flush tty = Inr (tty \<lparr> tty_out := tty_out tty @ concat (map str_text (tty_queue tty)), tty_queue := [],
     tty_pool := sum_list (map buffered (tty_queue tty)) + tty_pool tty \<rparr>)"
  using assms handle_strings_ok [of "tty_queue tty" "tty \<lparr> tty_queue := [] \<rparr>"] by (simp add: Tty_Flush_def tty_ok_def)

text \<open>What \<open>Vprintf\<close> does with the text \<open>t\<close>: it makes a string \<open>s\<close> of it and hands it over or prints it.\<close>

lemma Vprintf_string:
  assumes "Vprintf_sub fmt args = Inr t"
  obtains s pool where "contents s = t @ [0]" "chain_ok s" "buffered s + pool = tty_pool tty" "0 < tty_pool tty \<Longrightarrow> pool < tty_pool tty"
    "Vprintf fmt args tty = Inr (if tty_started tty then tty \<lparr> tty_pool := pool, tty_queue := tty_queue tty @ [s] \<rparr>
       else tty \<lparr> tty_pool := pool, tty_out := tty_out tty @ takeWhile (\<lambda>c. c \<noteq> 0) t \<rparr>)"
proof -
  obtain ty pool1 where g: "String_Get (tty_pool tty) = (ty, pool1)" by (cases "String_Get (tty_pool tty)")
  then have g': "ty \<noteq> kSingle" "(if ty = kBuffered then 1 else 0) + pool1 = tty_pool tty" "0 < tty_pool tty \<Longrightarrow> ty = kBuffered"
    by (auto simp: String_Get_def split: if_splits)
  obtain s pool2 where w: "write_all (t @ [0]) (TtyString ty [] None) pool1 = (s, pool2)"
    by (cases "write_all (t @ [0]) (TtyString ty [] None) pool1")
  have s: "contents s = t @ [0]" "chain_ok s" "buffered s + pool2 = tty_pool tty"
    using write_all_ok [OF _ w] g' by auto
  have "first_type s = ty" using first_type_write_all [of "t @ [0]" "TtyString ty [] None" pool1] w by simp
  then have "pool2 < tty_pool tty" if "0 < tty_pool tty" using first_buffered [of s] g'(3) that s(3) by auto
  moreover have "PrintString s = Inr (takeWhile (\<lambda>c. c \<noteq> 0) t)"
    using PrintString_contents [OF s(2)] s(1) by (simp add: takeWhile_tail)
  then have "Vprintf fmt args tty = Inr (if tty_started tty then tty \<lparr> tty_pool := pool2, tty_queue := tty_queue tty @ [s] \<rparr>
       else tty \<lparr> tty_pool := pool2, tty_out := tty_out tty @ takeWhile (\<lambda>c. c \<noteq> 0) t \<rparr>)"
    using assms g w by (simp add: Vprintf_def DoString_def)
  ultimately show ?thesis by (intro that [of s pool2] s)
qed

text \<open>What a terminal has printed or will print, and a terminal that prints in the order of the calls: one whose tasks run, or one with an empty queue\<close>

definition tty_text :: "Tty \<Rightarrow> bytes" where
  "tty_text tty = tty_out tty @ concat (map str_text (tty_queue tty))"

definition tty_in_order :: "Tty \<Rightarrow> bool" where
  "tty_in_order tty \<longleftrightarrow> tty_ok tty \<and> (tty_started tty \<or> tty_queue tty = [])"

lemma Vprintf_adds:
  assumes "Vprintf_sub fmt args = Inr t" and "tty_in_order tty"
  shows "\<exists>tty'. Vprintf fmt args tty = Inr tty' \<and> tty_in_order tty' \<and> tty_text tty' = tty_text tty @ takeWhile (\<lambda>c. c \<noteq> 0) t"
proof -
  obtain s pool where s: "contents s = t @ [0]" "chain_ok s" "buffered s + pool = tty_pool tty"
    "Vprintf fmt args tty = Inr (if tty_started tty then tty \<lparr> tty_pool := pool, tty_queue := tty_queue tty @ [s] \<rparr>
       else tty \<lparr> tty_pool := pool, tty_out := tty_out tty @ takeWhile (\<lambda>c. c \<noteq> 0) t \<rparr>)"
    using Vprintf_string [OF assms(1)] by blast
  have "str_text s = takeWhile (\<lambda>c. c \<noteq> 0) t" using s(1) by (simp add: str_text_def takeWhile_tail)
  then show ?thesis using s assms(2) by (cases "tty_started tty") (auto simp: tty_in_order_def tty_ok_def tty_text_def)
qed

lemma Flush_prints:
  assumes "tty_in_order tty"
  shows "\<exists>tty'. Tty_Flush tty = Inr tty' \<and> tty_in_order tty' \<and> tty_out tty' = tty_text tty \<and> tty_queue tty' = []"
  using assms Flush_ok [of tty] by (auto simp: tty_in_order_def tty_ok_def tty_text_def)

text \<open>C32: A formatted text, however long, is printed exactly up to its first zero byte: the chunks it is spread over are put together
  again. While the tasks of the terminal run, the text is printed by the next \<open>Flush\<close>, behind the texts that waited before it, and then all chunks
  are back in the pool. Before that it is printed at once; its chunks are not given back, so that the pool is smaller afterwards if
  there was a chunk in it. The terminal has no more chunks in its pool and its queue than the 64 that \<open>Init\<close> made.\<close>

theorem Vprintf_prints_text:
  assumes "Vprintf_sub fmt args = Inr t" and "tty_ok tty"
  shows "\<exists>tty1. Vprintf fmt args tty = Inr tty1 \<and> tty_ok tty1 \<and>
    (if tty_started tty then tty_out tty1 = tty_out tty \<and>
       Tty_Flush tty1 = Inr (tty \<lparr> tty_out := tty_out tty @ concat (map str_text (tty_queue tty)) @ takeWhile (\<lambda>c. c \<noteq> 0) t, tty_queue := [],
         tty_pool := sum_list (map buffered (tty_queue tty)) + tty_pool tty \<rparr>)
     else tty_out tty1 = tty_out tty @ takeWhile (\<lambda>c. c \<noteq> 0) t \<and> tty_queue tty1 = tty_queue tty \<and>
       (0 < tty_pool tty \<longrightarrow> tty_pool tty1 < tty_pool tty))"
proof -
  obtain s pool where s: "contents s = t @ [0]" "chain_ok s" "buffered s + pool = tty_pool tty" "0 < tty_pool tty \<Longrightarrow> pool < tty_pool tty"
    "Vprintf fmt args tty = Inr (if tty_started tty then tty \<lparr> tty_pool := pool, tty_queue := tty_queue tty @ [s] \<rparr>
       else tty \<lparr> tty_pool := pool, tty_out := tty_out tty @ takeWhile (\<lambda>c. c \<noteq> 0) t \<rparr>)"
    using Vprintf_string [OF assms(1)] by blast
  show ?thesis
  proof (cases "tty_started tty")
    case True
    let ?t = "tty \<lparr> tty_pool := pool, tty_queue := tty_queue tty @ [s] \<rparr>"
    have ok: "tty_ok ?t" using assms(2) s(1-3) by (auto simp: tty_ok_def)
    have "str_text s = takeWhile (\<lambda>c. c \<noteq> 0) t" using s(1) by (simp add: str_text_def takeWhile_tail)
    moreover have "sum_list (map buffered (tty_queue tty)) + buffered s + pool = sum_list (map buffered (tty_queue tty)) + tty_pool tty" using s(3) by simp
    ultimately have "Tty_Flush ?t = Inr (tty \<lparr> tty_out := tty_out tty @ concat (map str_text (tty_queue tty)) @ takeWhile (\<lambda>c. c \<noteq> 0) t, tty_queue := [],
         tty_pool := sum_list (map buffered (tty_queue tty)) + tty_pool tty \<rparr>)"
      unfolding Flush_ok [OF ok] by (cases tty) simp
    moreover have "Vprintf fmt args tty = Inr ?t" using s(5) True by simp
    ultimately show ?thesis using True ok by (intro exI [of _ ?t]) simp
  next
    case False
    then show ?thesis using s assms(2) by (auto simp: tty_ok_def)
  qed
qed

theorem Vprintf_prints_text_witness:
  defines "tty \<equiv> \<lparr> tty_started = True, tty_pool = 3, tty_queue = [], tty_out = [98] \<rparr>"
  shows "\<exists>tty1. Vprintf [97, 37, 117, 0] [Arg_Int 42] tty = Inr tty1 \<and> Tty_Flush tty1 = Inr (tty \<lparr> tty_out := [98, 97, 52, 50] \<rparr>)"
proof -
  have "count_digits (10 :: u32) 42 = Suc 0"
    by (simp add: count_digits.simps [of _ 42] count_digits.simps [of _ 4])
  then have t: "Vprintf_sub [97, 37, 117, 0] [Arg_Int 42] = Inr [97, 52, 50]"
    by (simp add: parse_spec_def digit_byte_def isdigit_def convert_def take_int_def print_num_def put_digit_def)
  have ok: "tty_ok tty" "tty_started tty" "tty_queue tty = []" "tty_pool tty = 3" "tty_out tty = [98]"
    by (simp_all add: tty_def tty_ok_def str_buffer_size_def)
  obtain tty1 where "Vprintf [97, 37, 117, 0] [Arg_Int 42] tty = Inr tty1" "Tty_Flush tty1 = Inr (tty \<lparr> tty_out := [98, 97, 52, 50], tty_queue := [], tty_pool := 3 \<rparr>)"
    using Vprintf_prints_text [OF t ok(1)] ok(2-5) by auto
  then show ?thesis by (auto simp: tty_def)
qed

end
