(* ===== verification/Shell_Cmd.thy ===== *)
theory Shell_Cmd
  imports Libc
begin

text \<open>
  The command shell of \<open>shell.cc\<close> and \<open>shell.h\<close>: registered commands, the line editor, the
  tokenizer and the dispatch of a line. A pointer into the name buffer of an
  \<open>ExecContainer\<close> is its offset. Echoing the line on the screen is left out, and a command
  runs at once instead of through a callout.
\<close>

definition kCommandSize :: nat where "kCommandSize = 100"
definition kArgumentMax :: nat where "kArgumentMax = 10"
definition kBufSize :: nat where "kBufSize = 20"
definition kNameSize :: nat where "kNameSize = 10"

record ExecContainer =
  ec_name :: bytes
  ec_argv :: "nat list"

text \<open>\<open>argc\<close> is the length of \<open>argv\<close>.\<close>

definition ExecContainer_new :: "bytes \<Rightarrow> ExecContainer" where
  "ExecContainer_new garbage = \<lparr> ec_name = garbage, ec_argv = [] \<rparr>"

record Shell =
  sh_next_buf :: nat
  sh_mapping :: "(bytes \<times> nat) list"

definition Shell_Register :: "bytes \<Rightarrow> nat \<Rightarrow> Shell \<Rightarrow> Shell kres" where
  "Shell_Register name func s = (if sh_next_buf s = kBufSize then Inl Kernel_Panic
     else kbind (strlen name) (\<lambda>slen.
       if slen < kNameSize then
         kbind (strncpy (fst (sh_mapping s ! sh_next_buf s)) name slen) (\<lambda>buf.
           Inr \<lparr> sh_next_buf = sh_next_buf s + 1, sh_mapping = (sh_mapping s)[sh_next_buf s := (buf, func)] \<rparr>)
       else Inl Kernel_Panic))"

text \<open>\<open>Exec\<close>: the function that is called, or \<open>None\<close> when the command is not known.\<close>

fun exec_loop :: "bytes \<Rightarrow> (bytes \<times> nat) list \<Rightarrow> nat option kres" where
  "exec_loop name [] = Inr None"
| "exec_loop name ((n, f) # m) = kbind (strlen n) (\<lambda>l. kbind (strncmp name n l) (\<lambda>r.
     if r = 0 then Inr (Some f) else exec_loop name m))"

definition Shell_Exec :: "bytes \<Rightarrow> Shell \<Rightarrow> nat option kres" where
  "Shell_Exec name s = exec_loop name (take (sh_next_buf s) (sh_mapping s))"

definition Shell_Execute :: "ExecContainer \<Rightarrow> Shell \<Rightarrow> nat option kres" where
  "Shell_Execute ec s = (if ec_argv ec \<noteq> [] then Shell_Exec (ec_name ec) s else Inr None)"

text \<open>The loop of \<open>Tokenize\<close> from position \<open>i\<close>, for \<open>n\<close> more turns.\<close>

fun tokenize_loop :: "nat \<Rightarrow> nat \<Rightarrow> bool \<Rightarrow> ExecContainer \<Rightarrow> ExecContainer" where
  "tokenize_loop i 0 inToken ec = ec"
| "tokenize_loop i (Suc n) inToken ec = (
     if ec_name ec ! i = 0 then ec
     else if ec_name ec ! i = 35 then ec \<lparr> ec_name := (ec_name ec)[i := 0] \<rparr>
     else if inToken then
       (if ec_name ec ! i = 32 then tokenize_loop (Suc i) n False (ec \<lparr> ec_name := (ec_name ec)[i := 0] \<rparr>)
        else tokenize_loop (Suc i) n True ec)
     else if ec_name ec ! i = 32 then tokenize_loop (Suc i) n False (ec \<lparr> ec_name := (ec_name ec)[i := 0] \<rparr>)
     else tokenize_loop (Suc i) n True
       (if length (ec_argv ec) < kArgumentMax then ec \<lparr> ec_argv := ec_argv ec @ [i] \<rparr> else ec))"

definition Tokenize :: "ExecContainer \<Rightarrow> bytes \<Rightarrow> ExecContainer kres" where
  "Tokenize ec command = kbind (strcpy (ec_name ec) command) (\<lambda>name.
     Inr (tokenize_loop 0 (kCommandSize - 1) False (ec \<lparr> ec_name := name \<rparr>)))"

record Liner =
  li_command :: bytes
  li_next :: nat

definition Liner_Reset :: "Liner \<Rightarrow> Liner" where
  "Liner_Reset l = \<lparr> li_command = (li_command l)[0 := 0], li_next = 0 \<rparr>"

text \<open>\<open>ReadCh\<close>: the second part of the result is the container handed to \<open>Execute\<close>; \<open>garbage\<close> is the memory of a new one.\<close>

definition Liner_ReadCh :: "bytes \<Rightarrow> u8 \<Rightarrow> Liner \<Rightarrow> (Liner \<times> ExecContainer option) kres" where
  "Liner_ReadCh garbage c l = (
     if c = 10 then kmap (\<lambda>ec. (Liner_Reset l, Some ec)) (Tokenize (ExecContainer_new garbage) (li_command l))
     else if c = 8 then
       Inr (if 0 < li_next l
            then \<lparr> li_command = (li_command l)[li_next l - 1 := 0], li_next = li_next l - 1 \<rparr> else l, None)
     else if li_next l \<noteq> kCommandSize - 1 then
       Inr (\<lparr> li_command = (li_command l)[li_next l := c, li_next l + 1 := 0], li_next = li_next l + 1 \<rparr>, None)
     else Inr (l, None))"

section \<open>The line editor\<close>

text \<open>Specification: the line is a text of at most 99 characters.\<close>

definition edit :: "u8 \<Rightarrow> bytes \<Rightarrow> bytes" where
  "edit c t = (if c = 8 then butlast t else if length t < kCommandSize - 1 then t @ [c] else t)"

definition liner_inv :: "Liner \<Rightarrow> bytes \<Rightarrow> bool" where
  "liner_inv l t \<longleftrightarrow> length (li_command l) = kCommandSize \<and> li_next l = length t \<and> length t < kCommandSize \<and>
     take (Suc (length t)) (li_command l) = t @ [0]"

lemma liner_invE:
  assumes "liner_inv l t"
  obtains r where "li_command l = t @ 0 # r" "length r = kCommandSize - 1 - length t"
proof
  show "li_command l = t @ 0 # drop (Suc (length t)) (li_command l)"
    using assms append_take_drop_id [of "Suc (length t)" "li_command l"] by (simp add: liner_inv_def)
  show "length (drop (Suc (length t)) (li_command l)) = kCommandSize - 1 - length t"
    using assms by (simp add: liner_inv_def)
qed

lemma Liner_ReadCh_edits:
  assumes "liner_inv l t" and "c \<noteq> 10"
  shows "\<exists>l'. Liner_ReadCh g c l = Inr (l', None) \<and> liner_inv l' (edit c t)"
proof -
  obtain r where r: "li_command l = t @ 0 # r" "length r = kCommandSize - 1 - length t" by (rule liner_invE [OF assms(1)])
  have n: "li_next l = length t" "length t < kCommandSize" using assms(1) by (simp_all add: liner_inv_def)
  consider "c = 8" "t = []" | "c = 8" "t \<noteq> []" | "c \<noteq> 8" "length t = kCommandSize - 1" | "c \<noteq> 8" "length t < kCommandSize - 1"
    using n(2) by linarith
  then show ?thesis
  proof cases
    case 2
    obtain u x where u: "t = u @ [x]" using 2 by (cases t rule: rev_cases) auto
    then show ?thesis using 2 r n by (auto simp: Liner_ReadCh_def edit_def liner_inv_def list_update_append)
  next
    case 4
    obtain y r' where "r = y # r'" using 4 r(2) by (cases r) auto
    then show ?thesis using 4 assms(2) r n
      by (auto simp: Liner_ReadCh_def edit_def liner_inv_def list_update_append nth_append)
  qed (use assms n in \<open>auto simp: Liner_ReadCh_def edit_def\<close>)
qed

section \<open>The tokenizer\<close>

text \<open>Specification: the words of a line, separated by spaces.\<close>

function tokens :: "bytes \<Rightarrow> bytes list" where
  "tokens [] = []"
| "tokens (c # s) = (if c = 32 then tokens s else takeWhile (\<lambda>x. x \<noteq> 32) (c # s) # tokens (dropWhile (\<lambda>x. x \<noteq> 32) s))"
  by pat_completeness auto
termination
  by (relation "measure length") (auto simp: le_imp_less_Suc length_dropWhile_le)

text \<open>Where the words begin.\<close>

fun starts :: "nat \<Rightarrow> bool \<Rightarrow> bytes \<Rightarrow> nat list" where
  "starts i inToken [] = []"
| "starts i inToken (c # s) = (if c = 32 then starts (Suc i) False s
     else if inToken then starts (Suc i) True s else i # starts (Suc i) True s)"

definition space_to_zero :: "u8 \<Rightarrow> u8" where
  "space_to_zero c = (if c = 32 then 0 else c)"

lemma space_to_zero_simps: "space_to_zero 32 = 0" "c \<noteq> 32 \<Longrightarrow> space_to_zero c = c"
  by (simp_all add: space_to_zero_def)

definition cstr :: "bytes \<Rightarrow> bytes" where
  "cstr s = takeWhile (\<lambda>c. c \<noteq> 0) s"

lemma tokenize_loop_ok:
  assumes "0 \<notin> set s" and "length s \<le> n" and "i = length pre" and "ec_name ec = pre @ s @ 0 # r"
  shows "\<exists>r'. tokenize_loop i n inTok ec = ec \<lparr> ec_name := pre @ map space_to_zero (takeWhile (\<lambda>x. x \<noteq> 35) s) @ 0 # r',
    ec_argv := ec_argv ec @ take (kArgumentMax - length (ec_argv ec)) (starts i inTok (takeWhile (\<lambda>x. x \<noteq> 35) s)) \<rparr>"
  using assms
proof (induction s arbitrary: n i pre inTok ec)
  case Nil
  then show ?case by (cases n; cases ec) (auto simp: nth_append)
next
  case (Cons c s)
  obtain m where n: "n = Suc m" using Cons.prems(2) by (cases n) auto
  have c: "ec_name ec ! i = c" "c \<noteq> 0" using Cons.prems by (auto simp: nth_append)
  show ?case
  proof (cases "c = 35")
    case True
    then show ?thesis using c Cons.prems n by (auto simp: list_update_append)
  next
    case c35: False
    show ?thesis
    proof (cases "c = 32")
      case True
      define ec1 where "ec1 = ec \<lparr> ec_name := (ec_name ec)[i := 0] \<rparr>"
      have "ec_name ec1 = (pre @ [0]) @ s @ 0 # r" using Cons.prems by (simp add: ec1_def list_update_append)
      then obtain r' where "tokenize_loop (Suc i) m False ec1 = ec1 \<lparr> ec_name := (pre @ [0]) @ map space_to_zero (takeWhile (\<lambda>x. x \<noteq> 35) s) @ 0 # r',
          ec_argv := ec_argv ec1 @ take (kArgumentMax - length (ec_argv ec1)) (starts (Suc i) False (takeWhile (\<lambda>x. x \<noteq> 35) s)) \<rparr>"
        using Cons.IH [of m "Suc i" "pre @ [0]" ec1 False] Cons.prems n by auto
      then show ?thesis using c n True by (auto simp: ec1_def space_to_zero_simps)
    next
      case False
      define ec1 where "ec1 = (if \<not> inTok \<and> length (ec_argv ec) < kArgumentMax then ec \<lparr> ec_argv := ec_argv ec @ [i] \<rparr> else ec)"
      have name: "ec_name ec1 = (pre @ [c]) @ s @ 0 # r" using Cons.prems by (simp add: ec1_def)
      then obtain r' where r': "tokenize_loop (Suc i) m True ec1 = ec1 \<lparr> ec_name := (pre @ [c]) @ map space_to_zero (takeWhile (\<lambda>x. x \<noteq> 35) s) @ 0 # r',
          ec_argv := ec_argv ec1 @ take (kArgumentMax - length (ec_argv ec1)) (starts (Suc i) True (takeWhile (\<lambda>x. x \<noteq> 35) s)) \<rparr>"
        using Cons.IH [of m "Suc i" "pre @ [c]" ec1 True] Cons.prems n by auto
      have "tokenize_loop i n inTok ec = tokenize_loop (Suc i) m True ec1"
        using c c35 False n by (cases inTok) (simp_all add: ec1_def)
      moreover have "ec_argv ec1 @ take (kArgumentMax - length (ec_argv ec1)) (starts (Suc i) True (takeWhile (\<lambda>x. x \<noteq> 35) s)) =
          ec_argv ec @ take (kArgumentMax - length (ec_argv ec)) (starts i inTok (takeWhile (\<lambda>x. x \<noteq> 35) (c # s)))"
        using c35 False by (auto simp: ec1_def take_Cons')
      moreover have "ec1 \<lparr> ec_name := a, ec_argv := b \<rparr> = ec \<lparr> ec_name := a, ec_argv := b \<rparr>" for a b
        by (simp add: ec1_def)
      ultimately show ?thesis using r' c35 False by (auto simp: space_to_zero_simps)
    qed
  qed
qed

lemma cstr_word: "0 \<notin> set s \<Longrightarrow> cstr (map space_to_zero s @ 0 # r) = takeWhile (\<lambda>x. x \<noteq> 32) s"
  by (induction s) (auto simp: cstr_def space_to_zero_def)

lemma starts_tokens:
  "0 \<notin> set s \<Longrightarrow> i = length pre \<Longrightarrow>
   map (\<lambda>p. cstr (drop p (pre @ map space_to_zero s @ 0 # r))) (starts i inTok s) =
   (if inTok then tokens (dropWhile (\<lambda>x. x \<noteq> 32) s) else tokens s)"
proof (induction s arbitrary: i pre inTok)
  case (Cons c s)
  have IH: "map (\<lambda>p. cstr (drop p (pre @ map space_to_zero (c # s) @ 0 # r))) (starts (Suc i) b s) =
      (if b then tokens (dropWhile (\<lambda>x. x \<noteq> 32) s) else tokens s)" for b
    using Cons.IH [of "Suc i" "pre @ [space_to_zero c]" b] Cons.prems by simp
  have word: "cstr (drop i (pre @ map space_to_zero (c # s) @ 0 # r)) = takeWhile (\<lambda>x. x \<noteq> 32) (c # s)"
    using cstr_word [OF Cons.prems(1), of r] Cons.prems(2) by simp
  show ?case
    using IH [of True] IH [of False] word by (cases "c = 32"; cases inTok) simp_all
qed simp

lemma Tokenize_ok:
  assumes "0 \<notin> set s" and "length s < kCommandSize" and "length g = kCommandSize"
  shows "\<exists>ec. Tokenize (ExecContainer_new g) (s @ 0 # r) = Inr ec \<and>
    map (\<lambda>p. cstr (drop p (ec_name ec))) (ec_argv ec) = take kArgumentMax (tokens (takeWhile (\<lambda>x. x \<noteq> 35) s))"
proof -
  define line where "line = takeWhile (\<lambda>x. x \<noteq> 35) s"
  have cp: "strcpy g (s @ 0 # r) = Inr (s @ 0 # drop (Suc (length s)) g)"
    using assms by (intro strcpy_cstr) simp_all
  define ec0 where "ec0 = ExecContainer_new g \<lparr> ec_name := s @ 0 # drop (Suc (length s)) g \<rparr>"
  have "length s \<le> kCommandSize - 1" using assms(2) by linarith
  then obtain r' where r': "tokenize_loop 0 (kCommandSize - 1) False ec0 = ec0 \<lparr> ec_name := [] @ map space_to_zero line @ 0 # r',
      ec_argv := ec_argv ec0 @ take (kArgumentMax - length (ec_argv ec0)) (starts 0 False line) \<rparr>"
    using tokenize_loop_ok [of s "kCommandSize - 1" 0 "[]" ec0 "drop (Suc (length s)) g" False] assms
    by (auto simp: ec0_def line_def)
  have "0 \<notin> set line" using assms(1) unfolding line_def by (meson set_takeWhileD)
  then have "map (\<lambda>p. cstr (drop p ([] @ map space_to_zero line @ 0 # r'))) (starts 0 False line) = tokens line"
    using starts_tokens [of line 0 "[]" r' False] by simp
  then have "map (\<lambda>p. cstr (drop p (map space_to_zero line @ 0 # r'))) (take kArgumentMax (starts 0 False line)) = take kArgumentMax (tokens line)"
    by (metis append_Nil take_map)
  then show ?thesis using cp r' by (simp add: Tokenize_def ec0_def ExecContainer_new_def line_def)
qed

section \<open>A line from the keyboard\<close>

fun type_keys :: "bytes \<Rightarrow> bytes \<Rightarrow> Liner \<Rightarrow> Liner kres" where
  "type_keys g [] l = Inr l"
| "type_keys g (c # cs) l = kbind (Liner_ReadCh g c l) (\<lambda>(l', _). type_keys g cs l')"

lemma type_keys_edits:
  "liner_inv l t \<Longrightarrow> 10 \<notin> set ks \<Longrightarrow> \<exists>l'. type_keys g ks l = Inr l' \<and> liner_inv l' (foldl (\<lambda>t c. edit c t) t ks)"
proof (induction ks arbitrary: l t)
  case (Cons c cs)
  obtain l1 where "Liner_ReadCh g c l = Inr (l1, None)" "liner_inv l1 (edit c t)"
    using Liner_ReadCh_edits [OF Cons.prems(1)] Cons.prems(2) by auto
  then show ?case using Cons.IH [of l1 "edit c t"] Cons.prems(2) by simp
qed auto

lemma edit_set: "set (edit c t) \<subseteq> insert c (set t)"
  by (auto simp: edit_def dest: in_set_butlastD)

lemma edits_set: "set (foldl (\<lambda>t c. edit c t) t ks) \<subseteq> set t \<union> set ks"
proof (induction ks arbitrary: t)
  case (Cons c cs)
  show ?case using Cons [of "edit c t"] edit_set [of c t] by auto
qed simp

lemma liner_reset: "length (li_command l) = kCommandSize \<Longrightarrow> liner_inv (Liner_Reset l) []"
  by (cases "li_command l") (auto simp: liner_inv_def Liner_Reset_def kCommandSize_def)

text \<open>C34: Typing a line and pressing enter splits exactly the edited text. Characters are appended up to 99,
  a backspace removes the last one, and the arguments handed to the command are the first ten words of the
  text before the first \<open>#\<close>; the buffers are never overrun and the editor starts over with an empty line.\<close>

theorem Shell_line_tokens:
  assumes "0 \<notin> set ks" and "10 \<notin> set ks" and "length g = kCommandSize" and "length (li_command l0) = kCommandSize"
  shows "\<exists>l ec l'. type_keys g ks (Liner_Reset l0) = Inr l \<and> Liner_ReadCh g 10 l = Inr (l', Some ec) \<and>
    map (\<lambda>p. cstr (drop p (ec_name ec))) (ec_argv ec) =
      take kArgumentMax (tokens (takeWhile (\<lambda>x. x \<noteq> 35) (foldl (\<lambda>t c. edit c t) [] ks))) \<and>
    li_next l' = 0 \<and> li_command l' ! 0 = 0"
proof -
  define t where "t = foldl (\<lambda>t c. edit c t) [] ks"
  obtain l where l: "type_keys g ks (Liner_Reset l0) = Inr l" "liner_inv l t"
    using type_keys_edits [OF liner_reset [OF assms(4)] assms(2)] by (auto simp: t_def)
  obtain r where r: "li_command l = t @ 0 # r" by (rule liner_invE [OF l(2)])
  have "0 \<notin> set t" using edits_set [of "[]" ks] assms(1) by (auto simp: t_def)
  then obtain ec where ec: "Tokenize (ExecContainer_new g) (li_command l) = Inr ec"
    "map (\<lambda>p. cstr (drop p (ec_name ec))) (ec_argv ec) = take kArgumentMax (tokens (takeWhile (\<lambda>x. x \<noteq> 35) t))"
    using Tokenize_ok [of t g r] l(2) assms(3) unfolding r by (auto simp: liner_inv_def)
  have "liner_inv (Liner_Reset l) []" using l(2) by (intro liner_reset) (simp add: liner_inv_def)
  then have "li_next (Liner_Reset l) = 0 \<and> li_command (Liner_Reset l) ! 0 = 0"
    by (rule liner_invE) (simp add: Liner_Reset_def)
  then show ?thesis using l(1) ec by (auto simp: Liner_ReadCh_def t_def)
qed

theorem Shell_line_tokens_witness:
  "\<exists>l ec l'. type_keys (replicate 100 7) [108, 115, 8, 115, 32, 32, 97, 35, 98] (Liner_Reset \<lparr> li_command = replicate 100 1, li_next = 5 \<rparr>) = Inr l \<and>
     Liner_ReadCh (replicate 100 7) 10 l = Inr (l', Some ec) \<and>
     map (\<lambda>p. cstr (drop p (ec_name ec))) (ec_argv ec) = [[108, 115], [97]]"
proof -
  have "take kArgumentMax (tokens (takeWhile (\<lambda>x. x \<noteq> 35) (foldl (\<lambda>t c. edit c t) [] [108, 115, 8, 115, 32, 32, 97, 35, 98]))) = [[108, 115], [97]]"
    by (simp add: edit_def kCommandSize_def kArgumentMax_def)
  then show ?thesis
    using Shell_line_tokens [of "[108, 115, 8, 115, 32, 32, 97, 35, 98]" "replicate 100 7" "\<lparr> li_command = replicate 100 1, li_next = 5 \<rparr>"]
    by (auto simp: kCommandSize_def)
qed

section \<open>Dispatch\<close>

text \<open>A registered name is a terminated string in its buffer.\<close>

definition name_ok :: "bytes \<times> nat \<Rightarrow> bool" where
  "name_ok e \<longleftrightarrow> 0 \<in> set (fst e)"

lemma cstr_split: "0 \<in> set n \<Longrightarrow> \<exists>r. n = cstr n @ 0 # r" "0 \<notin> set (cstr n)"
  unfolding cstr_def by (fact c_string_split, auto dest: set_takeWhileD)

lemma exec_loop_prefix:
  assumes "\<forall>e \<in> set m. name_ok e"
  shows "exec_loop (s @ 0 # r) m = Inr (map_option snd (find (\<lambda>(n, f). take (length (cstr n)) s = cstr n) m))"
  using assms
proof (induction m)
  case (Cons e m)
  obtain n f where e: "e = (n, f)" by (cases e)
  obtain r2 where n: "n = cstr n @ 0 # r2" using cstr_split(1) [of n] Cons.prems e by (auto simp: name_ok_def)
  have "strlen n = Inr (length (cstr n))" by (subst n) (rule strlen_cstr [OF cstr_split(2)])
  moreover obtain d where "strncmp (s @ 0 # r) n (length (cstr n)) = Inr d" "d = 0 \<longleftrightarrow> take (length (cstr n)) s = cstr n"
    using strncmp_prefix [OF cstr_split(2), of s r n "0 # r2"] n by auto
  ultimately show ?case using Cons e by auto
qed simp

text \<open>A command line runs the first registered command whose name is a prefix of the line, not the
  command with that name: with \<open>ls\<close> registered, \<open>lsx\<close> runs it too. A line that begins with a space runs no
  command at all, because its first character becomes the terminator.\<close>

theorem Shell_Exec_matches_prefix:
  assumes "\<forall>e \<in> set (sh_mapping s). name_ok e" and "0 \<notin> set line"
  shows "Shell_Exec (line @ 0 # r) s =
      Inr (map_option snd (find (\<lambda>(n, f). take (length (cstr n)) line = cstr n) (take (sh_next_buf s) (sh_mapping s)))) \<and>
    ((\<forall>e \<in> set (sh_mapping s). cstr (fst e) \<noteq> []) \<longrightarrow> Shell_Exec (0 # r) s = Inr None)"
proof -
  have m: "\<forall>e \<in> set (take (sh_next_buf s) (sh_mapping s)). name_ok e" using assms(1) by (auto dest: in_set_takeD)
  have "find (\<lambda>(n, f). take (length (cstr n)) [] = cstr n) (take (sh_next_buf s) (sh_mapping s)) = None"
    if "\<forall>e \<in> set (sh_mapping s). cstr (fst e) \<noteq> []"
    using that by (auto simp: find_None_iff dest!: in_set_takeD)
  then show ?thesis using exec_loop_prefix [OF m, of line r] exec_loop_prefix [OF m, of "[]" r] by (auto simp: Shell_Exec_def)
qed

definition shell_demo :: Shell where
  "shell_demo = \<lparr> sh_next_buf = 1, sh_mapping = [([108, 115, 0], 5)] \<rparr>"

theorem Shell_Exec_matches_prefix_witness:
  "Shell_Exec ([108, 115, 120] @ 0 # []) shell_demo = Inr (Some 5) \<and> Shell_Exec (0 # [108, 115, 0]) shell_demo = Inr None"
  using Shell_Exec_matches_prefix [of shell_demo "[108, 115, 120]" "[]"]
    Shell_Exec_matches_prefix [of shell_demo "[108, 115, 120]" "[108, 115, 0]"]
  by (simp add: shell_demo_def name_ok_def cstr_def)

end
