(* ===== verification/Functional_Queue.thy ===== *)
theory Functional_Queue
  imports Task_Ctrl
begin

text \<open>
  Queues with a callback (\<open>functional.h\<close>, \<open>queue.h\<close> and \<open>FunctionalRingBuffer\<close> of
  \<open>buf.h\<close>). A producer appends an element and calls \<open>WakeupFunction\<close>, which
  registers a task unless the queue is already being served; the task runs
  \<open>Handle\<close>, which calls the callback and either registers the task again or
  ends the service. Producers run on any processor and in interrupt handlers,
  so the members are split where another processor can come in between: the
  model is a step relation over the critical sections. The queue inside is the
  list of \<open>Fifo\<close>, and the state of the task is the one of \<open>Task_Ctrl\<close>.
\<close>

section \<open>State\<close>

datatype FunctionState = kFunctioning | kNotFunctioning

text \<open>Where a producer stands: behind the push, or behind the decision to register the task.\<close>

datatype producer = W_Idle | W_Wake | W_Register

text \<open>Where the run loop of the serving processor stands in \<open>Handle\<close>; the number counts its turns.\<close>

datatype handler = H_None | H_Loop nat | H_Exec nat | H_Assert | H_Check | H_Register | H_Return

record 'a Functional =
  fn_cap :: "nat option"
  fn_queue :: "'a list"
  fn_state :: FunctionState
  fn_cpuid :: "nat option"
  fn_task :: Status
  fn_producers :: "producer list"
  fn_handler :: handler

section \<open>Members\<close>

definition Functional_new :: "nat option \<Rightarrow> nat \<Rightarrow> 'a Functional" where
  "Functional_new cap n = \<lparr> fn_cap = cap, fn_queue = [], fn_state = kNotFunctioning, fn_cpuid = None,
     fn_task = kOutOfQueue, fn_producers = replicate n W_Idle, fn_handler = H_None \<rparr>"

text \<open>
  The four classes differ in the container only: three linked queues without a limit, and a ring buffer of \<open>S\<close> elements.
  Their \<open>Push\<close>, \<open>Pop\<close>, \<open>IsEmpty\<close> and \<open>ShouldFunc\<close> are the members below.
\<close>

definition FunctionalQueue_new :: "nat \<Rightarrow> 'a Functional" where
  "FunctionalQueue_new n = Functional_new None n"

definition FunctionalQueue2_new :: "nat \<Rightarrow> 'a Functional" where
  "FunctionalQueue2_new n = Functional_new None n"

definition FunctionalIntQueue_new :: "nat \<Rightarrow> 'a Functional" where
  "FunctionalIntQueue_new n = Functional_new None n"

definition FunctionalRingBuffer_new :: "nat \<Rightarrow> nat \<Rightarrow> 'a Functional" where
  "FunctionalRingBuffer_new S n = Functional_new (Some S) n"

definition SetFunction :: "nat \<Rightarrow> 'a Functional \<Rightarrow> 'a Functional" where
  "SetFunction cpuid s = s \<lparr> fn_cpuid := Some cpuid \<rparr>"

definition ShouldFunc :: "'a Functional \<Rightarrow> bool" where
  "ShouldFunc s \<longleftrightarrow> fn_queue s \<noteq> []"

text \<open>A queue with room takes the element; the linked queues have no limit (\<open>fn_cap = None\<close>).\<close>

definition fn_room :: "'a Functional \<Rightarrow> bool" where
  "fn_room s = (case fn_cap s of None \<Rightarrow> True | Some n \<Rightarrow> length (fn_queue s) < n)"

definition Functional_Push :: "nat \<Rightarrow> 'a \<Rightarrow> 'a Functional \<Rightarrow> 'a Functional" where
  "Functional_Push p x s = s \<lparr> fn_queue := (if fn_room s then fn_queue s @ [x] else fn_queue s),
     fn_producers := (fn_producers s)[p := W_Wake] \<rparr>"

definition Functional_Pop :: "'a Functional \<Rightarrow> ('a \<times> 'a Functional) option" where
  "Functional_Pop s = (case fn_queue s of [] \<Rightarrow> None | x # xs \<Rightarrow> Some (x, s \<lparr> fn_queue := xs \<rparr>))"

text \<open>\<open>WakeupFunction\<close> up to the end of its critical section, and the registration behind it.\<close>

definition WakeupFunction_lock :: "nat \<Rightarrow> 'a Functional \<Rightarrow> 'a Functional" where
  "WakeupFunction_lock p s =
     (if fn_cpuid s \<noteq> None \<and> fn_state s = kNotFunctioning
      then s \<lparr> fn_state := kFunctioning, fn_producers := (fn_producers s)[p := W_Register] \<rparr>
      else s \<lparr> fn_producers := (fn_producers s)[p := W_Idle] \<rparr>)"

text \<open>\<open>TaskCtrl::Register\<close> as the functional queue sees it: a task that waits already is a panic.\<close>

definition register_task :: "'a Functional \<Rightarrow> 'a Functional kres" where
  "register_task s = (if fn_task s = kWaitingInQueue then Inl Kernel_Panic else Inr (s \<lparr> fn_task := kWaitingInQueue \<rparr>))"

definition WakeupFunction_register :: "nat \<Rightarrow> 'a Functional \<Rightarrow> 'a Functional kres" where
  "WakeupFunction_register p s = register_task (s \<lparr> fn_producers := (fn_producers s)[p := W_Idle] \<rparr>)"

text \<open>\<open>Handle\<close>, one step at a time. The callback takes \<open>k\<close> elements from the queue.\<close>

definition Handle_step :: "nat \<Rightarrow> 'a Functional \<Rightarrow> 'a Functional kres" where
  "Handle_step k s = (case fn_handler s of
     H_None \<Rightarrow> Inr s
   | H_Loop i \<Rightarrow> Inr (s \<lparr> fn_handler := (if i < 10 \<and> ShouldFunc s then H_Exec i else H_Assert) \<rparr>)
   | H_Exec i \<Rightarrow> Inr (s \<lparr> fn_queue := drop k (fn_queue s), fn_handler := H_Loop (i + 1) \<rparr>)
   | H_Assert \<Rightarrow> kbind (kassert (fn_state s = kFunctioning)) (\<lambda>_. Inr (s \<lparr> fn_handler := H_Check \<rparr>))
   | H_Check \<Rightarrow> Inr (if ShouldFunc s then s \<lparr> fn_state := kFunctioning, fn_handler := H_Register \<rparr>
                     else s \<lparr> fn_state := kNotFunctioning, fn_handler := H_Return \<rparr>)
   | H_Register \<Rightarrow> register_task (s \<lparr> fn_handler := H_Return \<rparr>)
   | H_Return \<Rightarrow> Inr (s \<lparr> fn_task := (if fn_task s = kRunning then kOutOfQueue else fn_task s), fn_handler := H_None \<rparr>))"

text \<open>The run loop of the processor takes the task from its queue.\<close>

definition start_task :: "'a Functional \<Rightarrow> 'a Functional" where
  "start_task s = s \<lparr> fn_task := kRunning, fn_handler := H_Loop 0 \<rparr>"

section \<open>Interleaving\<close>

datatype 'a fn_event = E_SetFunction nat | E_Push nat 'a | E_Pop | E_Wake nat | E_WakeRegister nat | E_Start | E_Handle nat

fun fn_enabled :: "'a fn_event \<Rightarrow> 'a Functional \<Rightarrow> bool" where
  "fn_enabled (E_SetFunction c) s \<longleftrightarrow> fn_cpuid s = None \<or> fn_cpuid s = Some c"
| "fn_enabled (E_Push p x) s \<longleftrightarrow> p < length (fn_producers s) \<and> fn_producers s ! p = W_Idle"
| "fn_enabled E_Pop s \<longleftrightarrow> True"
| "fn_enabled (E_Wake p) s \<longleftrightarrow> p < length (fn_producers s) \<and> fn_producers s ! p = W_Wake"
| "fn_enabled (E_WakeRegister p) s \<longleftrightarrow> p < length (fn_producers s) \<and> fn_producers s ! p = W_Register"
| "fn_enabled E_Start s \<longleftrightarrow> fn_handler s = H_None \<and> fn_task s = kWaitingInQueue"
| "fn_enabled (E_Handle k) s \<longleftrightarrow> fn_handler s \<noteq> H_None"

fun fn_do :: "'a fn_event \<Rightarrow> 'a Functional \<Rightarrow> 'a Functional kres" where
  "fn_do (E_SetFunction c) s = Inr (SetFunction c s)"
| "fn_do (E_Push p x) s = Inr (Functional_Push p x s)"
| "fn_do E_Pop s = Inr (case Functional_Pop s of None \<Rightarrow> s | Some (x, s') \<Rightarrow> s')"
| "fn_do (E_Wake p) s = Inr (WakeupFunction_lock p s)"
| "fn_do (E_WakeRegister p) s = WakeupFunction_register p s"
| "fn_do E_Start s = Inr (start_task s)"
| "fn_do (E_Handle k) s = Handle_step k s"

inductive fn_reach :: "'a Functional \<Rightarrow> 'a Functional \<Rightarrow> bool" for s0 where
  start: "fn_reach s0 s0"
| step: "fn_reach s0 s \<Longrightarrow> fn_enabled e s \<Longrightarrow> fn_do e s = Inr s' \<Longrightarrow> fn_reach s0 s'"

section \<open>Invariant\<close>

text \<open>Who is responsible for serving the queue: a producer about to register the task, the waiting task, or the running handler.\<close>

definition handler_active :: "handler \<Rightarrow> bool" where
  "handler_active h \<longleftrightarrow> h \<noteq> H_None \<and> h \<noteq> H_Return"

definition servers :: "'a Functional \<Rightarrow> nat" where
  "servers s = count_list (fn_producers s) W_Register + (if fn_task s = kWaitingInQueue then 1 else 0) +
     (if handler_active (fn_handler s) then 1 else 0)"

fun task_ok :: "handler \<Rightarrow> Status \<Rightarrow> bool" where
  "task_ok H_None t \<longleftrightarrow> t = kOutOfQueue \<or> t = kWaitingInQueue"
| "task_ok H_Return t \<longleftrightarrow> t = kRunning \<or> t = kWaitingInQueue"
| "task_ok _ t \<longleftrightarrow> t = kRunning"

definition fn_inv :: "'a Functional \<Rightarrow> bool" where
  "fn_inv s \<longleftrightarrow> fn_cpuid s \<noteq> None \<and>
     servers s = (if fn_state s = kFunctioning then 1 else 0) \<and>
     (fn_state s = kNotFunctioning \<and> fn_queue s \<noteq> [] \<longrightarrow> W_Wake \<in> set (fn_producers s)) \<and>
     task_ok (fn_handler s) (fn_task s)"

lemma handler_active_simps [simp]: "\<not> handler_active H_None" "\<not> handler_active H_Return" "handler_active (H_Loop i)"
  "handler_active (H_Exec i)" "handler_active H_Assert" "handler_active H_Check" "handler_active H_Register"
  by (simp_all add: handler_active_def)

lemma count_list_update:
  "p < length xs \<Longrightarrow> count_list (xs[p := y]) z + (if xs ! p = z then 1 else 0) = count_list xs z + (if y = z then 1 else 0)"
proof (induction xs arbitrary: p)
  case (Cons x xs)
  show ?case
  proof (cases p)
    case (Suc q)
    then show ?thesis using Cons.IH [of q] Cons.prems by (simp split: if_splits)
  qed simp
qed simp

lemma count_list_moved:
  assumes "p < length xs" and "xs ! p = a"
  shows "a \<noteq> z \<Longrightarrow> y \<noteq> z \<Longrightarrow> count_list (xs[p := y]) z = count_list xs z"
    and "a \<noteq> z \<Longrightarrow> count_list (xs[p := z]) z = Suc (count_list xs z)"
    and "a = z \<Longrightarrow> y \<noteq> z \<Longrightarrow> count_list xs z = Suc (count_list (xs[p := y]) z)"
  using count_list_update [OF assms(1), of y z] count_list_update [OF assms(1), of z z] assms(2) by (auto split: if_splits)

lemma fn_inv_start: "fn_inv (SetFunction c (Functional_new cap n))"
proof -
  have "count_list (replicate n W_Idle) W_Register = 0" by (induction n) auto
  then show ?thesis by (simp add: fn_inv_def SetFunction_def Functional_new_def servers_def)
qed

text \<open>A move of a producer that is not about to register and is not entering the wake-up leaves its part of the count alone.\<close>

lemma set_update_W_Wake: "p < length xs \<Longrightarrow> W_Wake \<in> set (xs[p := W_Wake])"
  by (simp add: set_update_memI)

lemma fn_inv_push:
  assumes "fn_inv s" and "p < length (fn_producers s)" and "fn_producers s ! p = W_Idle"
  shows "fn_inv (Functional_Push p x s)"
  using assms count_list_moved(1) [OF assms(2,3), of W_Register W_Wake] set_update_W_Wake [OF assms(2)]
  by (simp add: fn_inv_def Functional_Push_def servers_def)

lemma fn_inv_pop:
  assumes "fn_inv s" and "fn_queue s = [] \<longrightarrow> q = []"
  shows "fn_inv (s \<lparr> fn_queue := q \<rparr>)"
  using assms by (auto simp: fn_inv_def servers_def)

lemma fn_inv_wake:
  assumes "fn_inv s" and "p < length (fn_producers s)" and "fn_producers s ! p = W_Wake"
  shows "fn_inv (WakeupFunction_lock p s)"
  using assms count_list_moved(1) [OF assms(2,3), of W_Register W_Idle] count_list_moved(2) [OF assms(2,3), of W_Register]
  by (cases "fn_state s") (simp_all add: fn_inv_def WakeupFunction_lock_def servers_def)

lemma fn_inv_wake_register:
  assumes "fn_inv s" and "p < length (fn_producers s)" and "fn_producers s ! p = W_Register"
  shows "\<exists>s'. WakeupFunction_register p s = Inr s' \<and> fn_inv s'"
proof -
  note c = count_list_moved(3) [OF assms(2,3), of W_Register W_Idle]
  have "fn_state s = kFunctioning" "fn_task s \<noteq> kWaitingInQueue" "\<not> handler_active (fn_handler s)"
    "count_list ((fn_producers s)[p := W_Idle]) W_Register = 0"
    using assms(1) c by (cases "fn_state s"; auto simp: fn_inv_def servers_def split: if_splits)+
  then show ?thesis using assms(1) by (cases "fn_handler s") (auto simp: fn_inv_def WakeupFunction_register_def register_task_def servers_def)
qed

lemma fn_inv_handle:
  assumes "fn_inv s" and "fn_handler s \<noteq> H_None"
  shows "\<exists>s'. Handle_step k s = Inr s' \<and> fn_inv s'"
proof (cases "fn_handler s")
  case H_Assert
  then have "fn_state s = kFunctioning" using assms(1) by (cases "fn_state s") (simp_all add: fn_inv_def servers_def)
  then show ?thesis using assms(1) H_Assert by (simp add: Handle_step_def fn_inv_def servers_def)
next
  case H_Check
  then have "fn_state s = kFunctioning" using assms(1) by (cases "fn_state s") (simp_all add: fn_inv_def servers_def)
  then show ?thesis using assms(1) H_Check by (auto simp: Handle_step_def fn_inv_def servers_def ShouldFunc_def)
qed (use assms in \<open>auto simp: Handle_step_def fn_inv_def servers_def register_task_def split: if_splits\<close>)

lemma fn_inv_do:
  assumes "fn_inv s" and "fn_enabled e s"
  shows "\<exists>s'. fn_do e s = Inr s' \<and> fn_inv s'"
proof (cases e)
  case (E_SetFunction c)
  then show ?thesis using assms by (auto simp: fn_inv_def SetFunction_def servers_def)
next
  case (E_Push p x)
  then show ?thesis using assms fn_inv_push by auto
next
  case E_Pop
  then show ?thesis using assms fn_inv_pop [OF assms(1), of "tl (fn_queue s)"]
    by (auto simp: Functional_Pop_def split: list.splits)
next
  case (E_Wake p)
  then show ?thesis using assms fn_inv_wake by auto
next
  case (E_WakeRegister p)
  then show ?thesis using assms fn_inv_wake_register by auto
next
  case E_Start
  then show ?thesis using assms by (auto simp: fn_inv_def start_task_def servers_def)
next
  case (E_Handle k)
  then show ?thesis using assms fn_inv_handle by auto
qed

lemma fn_reach_inv: "fn_reach s0 s \<Longrightarrow> fn_inv s0 \<Longrightarrow> fn_inv s"
proof (induction rule: fn_reach.induct)
  case (step s e s')
  then show ?case using fn_inv_do [of s e] by auto
qed simp

text \<open>C5: however producers on any number of processors, consumers and the handler of a queue with a callback are
  interleaved, no assertion of \<open>Handle\<close> and no registration of the task fails, at most one of them is responsible for
  the queue, and no element is forgotten: when no producer is inside its push and no handler is running, a queue that
  holds elements has its task waiting to run.\<close>

theorem Functional_no_lost_wakeup:
  assumes "fn_reach (SetFunction c (Functional_new cap n)) s"
  shows "(\<forall>e. fn_enabled e s \<longrightarrow> (\<exists>s'. fn_do e s = Inr s')) \<and>
    servers s \<le> 1 \<and>
    (fn_queue s \<noteq> [] \<and> (\<forall>w \<in> set (fn_producers s). w = W_Idle) \<and> fn_handler s = H_None \<longrightarrow>
       fn_task s = kWaitingInQueue)"
proof -
  have s: "fn_inv s" using fn_reach_inv [OF assms fn_inv_start] .
  have "fn_task s = kWaitingInQueue"
    if "fn_queue s \<noteq> []" "\<forall>w \<in> set (fn_producers s). w = W_Idle" "fn_handler s = H_None"
  proof -
    have "W_Wake \<notin> set (fn_producers s)" "count_list (fn_producers s) W_Register = 0"
      using that(2) by (auto simp: count_list_0_iff)
    then show ?thesis using s that(1,3) by (cases "fn_state s") (auto simp: fn_inv_def servers_def split: if_splits)
  qed
  moreover have "servers s \<le> 1" using s by (auto simp: fn_inv_def)
  ultimately show ?thesis using fn_inv_do [OF s] by blast
qed

theorem Functional_no_lost_wakeup_witness:
  "(\<exists>s'. fn_do E_Start ((WakeupFunction_lock 0 (Functional_Push 0 (7 :: nat) (SetFunction 2 (Functional_new None 1))))
        \<lparr> fn_producers := [W_Idle], fn_task := kWaitingInQueue \<rparr>) = Inr s')"
proof -
  define s1 where "s1 = (Functional_Push 0 (7 :: nat) (SetFunction 2 (Functional_new None 1)))"
  define s2 where "s2 = WakeupFunction_lock 0 s1"
  define s3 where "s3 = s2 \<lparr> fn_producers := [W_Idle], fn_task := kWaitingInQueue \<rparr>"
  note d = s1_def s2_def s3_def Functional_Push_def SetFunction_def Functional_new_def WakeupFunction_lock_def
    WakeupFunction_register_def register_task_def fn_room_def
  have "fn_reach (SetFunction 2 (Functional_new None 1)) s1"
    by (rule fn_reach.step [OF fn_reach.start, of "E_Push 0 7"]) (simp_all add: d)
  then have "fn_reach (SetFunction 2 (Functional_new None 1)) s2"
    by (rule fn_reach.step [of _ _ "E_Wake 0"]) (simp_all add: d)
  then have "fn_reach (SetFunction 2 (Functional_new None 1)) s3"
    by (rule fn_reach.step [of _ _ "E_WakeRegister 0"]) (simp_all add: d)
  from Functional_no_lost_wakeup [OF this] have "fn_enabled E_Start s3 \<longrightarrow> (\<exists>s'. fn_do E_Start s3 = Inr s')" by blast
  then show ?thesis by (simp add: d)
qed

section \<open>A run of the handler alone\<close>

fun handle_run :: "nat \<Rightarrow> 'a Functional \<Rightarrow> 'a Functional kres" where
  "handle_run 0 s = Inr s"
| "handle_run (Suc n) s = (if fn_handler s = H_None then Inr s else kbind (Handle_step 1 s) (handle_run n))"

lemma handle_run_None: "fn_handler s = H_None \<Longrightarrow> handle_run n s = Inr s"
  by (cases n) simp_all

lemma handle_run_tail:
  assumes "fn_state s = kFunctioning" and "fn_task s = kRunning" and "fn_handler s = H_Assert"
  shows "handle_run (4 + n) s = Inr (s \<lparr> fn_state := (if fn_queue s = [] then kNotFunctioning else kFunctioning),
    fn_task := (if fn_queue s = [] then kOutOfQueue else kWaitingInQueue), fn_handler := H_None \<rparr>)"
  using assms by (cases "fn_queue s = []")
    (simp_all add: eval_nat_numeral Handle_step_def ShouldFunc_def register_task_def handle_run_None)

lemma handle_run_loop:
  assumes "fn_handler s = H_Loop i" and "i + d = 10"
  shows "\<exists>m \<le> 2 * d + 1. \<forall>n. handle_run (m + n) s = handle_run n (s \<lparr> fn_queue := drop d (fn_queue s), fn_handler := H_Assert \<rparr>)"
  using assms
proof (induction d arbitrary: s i)
  case 0
  then show ?case by (intro exI [of _ 1]) (simp add: Handle_step_def)
next
  case (Suc d)
  show ?case
  proof (cases "fn_queue s")
    case Nil
    then have e: "s \<lparr> fn_queue := drop (Suc d) (fn_queue s), fn_handler := H_Assert \<rparr> = s \<lparr> fn_handler := H_Assert \<rparr>"
      by (intro Functional.equality) simp_all
    have "handle_run (1 + n) s = handle_run n (s \<lparr> fn_handler := H_Assert \<rparr>)" for n
      using Suc.prems Nil by (simp add: Handle_step_def ShouldFunc_def)
    then show ?thesis unfolding e by (intro exI [of _ 1]) simp
  next
    case (Cons x xs)
    define t where "t = s \<lparr> fn_queue := xs, fn_handler := H_Loop (i + 1) \<rparr>"
    obtain m where m: "m \<le> 2 * d + 1" "\<And>n. handle_run (m + n) t = handle_run n (t \<lparr> fn_queue := drop d (fn_queue t), fn_handler := H_Assert \<rparr>)"
      using Suc.IH [of t "i + 1"] Suc.prems by (auto simp: t_def)
    have "handle_run (Suc (Suc (m + n))) s = handle_run (m + n) t" for n
      using Suc.prems Cons by (simp add: Handle_step_def ShouldFunc_def t_def)
    then show ?thesis using m Cons by (intro exI [of _ "m + 2"]) (simp add: t_def)
  qed
qed

text \<open>a run of \<open>Handle\<close> that nothing interrupts, with a callback that takes one element, serves the ten oldest
  elements and ends with the task waiting again exactly when elements are left; a queue of \<open>n\<close> elements is therefore
  empty after \<open>n div 10 + 1\<close> runs at the latest, and each run leaves the processor to the other tasks in between.\<close>

theorem Handle_serves_ten:
  assumes "fn_state s = kFunctioning" and "fn_task s = kWaitingInQueue" and "fn_handler s = H_None"
  shows "handle_run 25 (start_task s) = Inr (s \<lparr> fn_queue := drop 10 (fn_queue s),
    fn_state := (if length (fn_queue s) \<le> 10 then kNotFunctioning else kFunctioning),
    fn_task := (if length (fn_queue s) \<le> 10 then kOutOfQueue else kWaitingInQueue) \<rparr>)"
proof -
  define t where "t = start_task s"
  have t: "fn_state t = kFunctioning" "fn_task t = kRunning" "fn_handler t = H_Loop 0" "fn_queue t = fn_queue s"
    using assms by (simp_all add: t_def start_task_def)
  obtain m where m: "m \<le> 21" "\<And>n. handle_run (m + n) t = handle_run n (t \<lparr> fn_queue := drop 10 (fn_queue t), fn_handler := H_Assert \<rparr>)"
    using handle_run_loop [OF t(3), of 10] by auto
  have "handle_run 25 t = handle_run (4 + (21 - m)) (t \<lparr> fn_queue := drop 10 (fn_queue t), fn_handler := H_Assert \<rparr>)"
    using m(1) m(2) [of "4 + (21 - m)"] by simp
  also have "\<dots> = Inr (s \<lparr> fn_queue := drop 10 (fn_queue s),
    fn_state := (if length (fn_queue s) \<le> 10 then kNotFunctioning else kFunctioning),
    fn_task := (if length (fn_queue s) \<le> 10 then kOutOfQueue else kWaitingInQueue) \<rparr>)"
    using t assms by (subst handle_run_tail) (simp_all add: t_def start_task_def)
  finally show ?thesis by (simp add: t_def)
qed

theorem Handle_serves_ten_witness:
  "handle_run 25 (start_task ((Functional_new None 0 :: nat Functional) \<lparr> fn_queue := [1, 2], fn_state := kFunctioning, fn_task := kWaitingInQueue \<rparr>))
   = Inr (Functional_new None 0)"
  using Handle_serves_ten [of "(Functional_new None 0 :: nat Functional) \<lparr> fn_queue := [1, 2], fn_state := kFunctioning, fn_task := kWaitingInQueue \<rparr>"]
  by (simp add: Functional_new_def)

text \<open>an element that is pushed before \<open>SetFunction\<close> is not served by it: the queue holds the element, nobody is
  responsible for it, and only the next push wakes the handler.\<close>

theorem SetFunction_does_not_wake:
  "\<exists>s. fn_reach (Functional_new None (Suc 0)) s \<and> fn_cpuid s = Some c \<and> fn_queue s = [x] \<and> servers s = 0 \<and>
     (\<forall>w \<in> set (fn_producers s). w = W_Idle)"
proof -
  define s1 where "s1 = Functional_Push 0 x (Functional_new None (Suc 0))"
  define s2 where "s2 = WakeupFunction_lock 0 s1"
  define s3 where "s3 = SetFunction c s2"
  note d = s1_def s2_def s3_def Functional_Push_def SetFunction_def Functional_new_def WakeupFunction_lock_def fn_room_def
  have "fn_reach (Functional_new None (Suc 0)) s1"
    by (rule fn_reach.step [OF fn_reach.start, of "E_Push 0 x"]) (simp_all add: d)
  then have "fn_reach (Functional_new None (Suc 0)) s2"
    by (rule fn_reach.step [of _ _ "E_Wake 0"]) (simp_all add: d)
  then have "fn_reach (Functional_new None (Suc 0)) s3"
    by (rule fn_reach.step [of _ _ "E_SetFunction c"]) (simp_all add: d)
  then show ?thesis by (intro exI [of _ s3]) (simp add: d servers_def)
qed

section \<open>Polling\<close>

text \<open>\<open>polling.h\<close>: a task that registers itself again after every run until polling is stopped. \<open>po_task\<close> is the status of the task.\<close>

datatype PollingState = kPolling | kStopped_Polling

record Polling =
  po_state :: PollingState
  po_cpuid :: "nat option"
  po_task :: Status
  po_handled :: nat

definition Polling_new :: Polling where
  "Polling_new = \<lparr> po_state = kStopped_Polling, po_cpuid = None, po_task = kOutOfQueue, po_handled = 0 \<rparr>"

definition polling_register :: "Polling \<Rightarrow> Polling kres" where
  "polling_register s = (if po_task s = kWaitingInQueue then Inl Kernel_Panic else Inr (s \<lparr> po_task := kWaitingInQueue \<rparr>))"

definition RegisterPolling :: "nat \<Rightarrow> Polling \<Rightarrow> Polling kres" where
  "RegisterPolling cpuid s = (if po_state s = kPolling then Inr s
     else polling_register (s \<lparr> po_cpuid := Some cpuid, po_state := kPolling \<rparr>))"

definition RemovePolling :: "Polling \<Rightarrow> Polling" where
  "RemovePolling s = (if po_state s = kStopped_Polling then s else s \<lparr> po_state := kStopped_Polling \<rparr>)"

text \<open>\<open>HandleSub\<close>; \<open>po_handled\<close> counts the calls of \<open>Handle\<close>.\<close>

definition Polling_HandleSub :: "Polling \<Rightarrow> Polling kres" where
  "Polling_HandleSub s = (if po_state s = kPolling then polling_register (s \<lparr> po_handled := po_handled s + 1 \<rparr>) else Inr (RemovePolling s))"

text \<open>One run of the task by the run loop of its processor.\<close>

definition polling_turn :: "Polling \<Rightarrow> Polling kres" where
  "polling_turn s = (if po_task s \<noteq> kWaitingInQueue then Inr s
     else kmap (\<lambda>s1. if po_task s1 = kRunning then s1 \<lparr> po_task := kOutOfQueue \<rparr> else s1) (Polling_HandleSub (s \<lparr> po_task := kRunning \<rparr>)))"

definition Polling_delete :: "Polling \<Rightarrow> unit kres" where
  "Polling_delete s = (if po_state s = kPolling then Inl Kernel_Panic else Inr ())"

fun polling_turns :: "nat \<Rightarrow> Polling \<Rightarrow> Polling kres" where
  "polling_turns 0 s = Inr s"
| "polling_turns (Suc n) s = kbind (polling_turn s) (polling_turns n)"

lemma polling_turns_count:
  "po_state s = kPolling \<Longrightarrow> po_task s = kWaitingInQueue \<Longrightarrow> polling_turns n s = Inr (s \<lparr> po_handled := po_handled s + n \<rparr>)"
proof (induction n arbitrary: s)
  case (Suc n)
  have "polling_turn s = Inr (s \<lparr> po_handled := po_handled s + 1 \<rparr>)"
    using Suc.prems by (simp add: polling_turn_def Polling_HandleSub_def polling_register_def)
  then show ?case using Suc.IH [of "s \<lparr> po_handled := po_handled s + 1 \<rparr>"] Suc.prems by simp
qed simp

text \<open>a registered polling function is called once in every turn of its processor; after it is removed its next
  turn only takes the task out of the queue. Registering it again before that turn panics, because the task still waits.\<close>

theorem Polling_restart_panics:
  assumes "RegisterPolling c Polling_new = Inr s"
  shows "polling_turns n s = Inr (s \<lparr> po_handled := n \<rparr>) \<and>
    polling_turn (RemovePolling s) = Inr (s \<lparr> po_state := kStopped_Polling, po_task := kOutOfQueue \<rparr>) \<and>
    RegisterPolling c (RemovePolling s) = Inl Kernel_Panic"
proof -
  have s: "s = \<lparr> po_state = kPolling, po_cpuid = Some c, po_task = kWaitingInQueue, po_handled = 0 \<rparr>"
    using assms by (simp add: RegisterPolling_def Polling_new_def polling_register_def)
  then have "po_state s = kPolling" "po_task s = kWaitingInQueue" by simp_all
  from polling_turns_count [OF this, of n] show ?thesis
    by (simp add: s polling_turn_def RemovePolling_def Polling_HandleSub_def RegisterPolling_def polling_register_def)
qed

theorem Polling_restart_panics_witness:
  "RegisterPolling 1 (RemovePolling \<lparr> po_state = kPolling, po_cpuid = Some 1, po_task = kWaitingInQueue, po_handled = 0 \<rparr>) = Inl Kernel_Panic"
  using Polling_restart_panics [of 1 "\<lparr> po_state = kPolling, po_cpuid = Some 1, po_task = kWaitingInQueue, po_handled = 0 \<rparr>" 0]
  by (simp add: RegisterPolling_def Polling_new_def polling_register_def)

end
