(* ===== verification/Net_Dev.thy ===== *)
theory Net_Dev
  imports Ring_Buffer Libc "HOL-Library.Multiset"
begin

text \<open>
  Network devices (\<open>dev/netdev.h\<close>, \<open>dev/netdev.cc\<close>, \<open>dev/eth.h\<close>): the four ring
  buffers through which packet buffers circulate between a driver and the
  protocol code, the link state, the name and address of a device, and the
  table of devices. A packet buffer is an address; \<open>nd_mem\<close> is the memory behind
  the addresses. What a driver does with the buffers is taken from the Intel
  driver (\<open>dev/nic/intel/em/if_em.cc\<close>).
\<close>

section \<open>Packets and devices\<close>

definition MCLBYTES :: nat where "MCLBYTES = 2048"

record Packet =
  pk_len :: nat
  pk_data :: bytes

datatype LinkStatus = kUp | kDown

datatype HandleMethod = kInt | kPollingMethod

definition kNetDevRing :: nat where "kNetDevRing = 300"

definition kNetworkInterfaceNameLen :: nat where "kNetworkInterfaceNameLen = 8"

record NetDev =
  nd_mem :: "nat \<Rightarrow> Packet"
  nd_rx_reserved :: "nat RingBuffer"
  nd_rx_buffered :: "nat RingBuffer"
  nd_tx_reserved :: "nat RingBuffer"
  nd_tx_buffered :: "nat RingBuffer"
  nd_status :: LinkStatus
  nd_method :: HandleMethod
  nd_name :: bytes
  nd_ipv4_addr :: u32

section \<open>Buffers\<close>

definition ReuseRxBuffer :: "nat \<Rightarrow> NetDev \<Rightarrow> NetDev kres" where
  "ReuseRxBuffer packet d = (case RingBuffer_Push kNetDevRing (nd_rx_reserved d) packet of (ok, rb) \<Rightarrow>
     kbind (kassert ok) (\<lambda>_. Inr (d \<lparr> nd_rx_reserved := rb \<rparr>)))"

definition ReuseTxBuffer :: "nat \<Rightarrow> NetDev \<Rightarrow> NetDev kres" where
  "ReuseTxBuffer packet d = (case RingBuffer_Push kNetDevRing (nd_tx_reserved d) packet of (ok, rb) \<Rightarrow>
     kbind (kassert ok) (\<lambda>_. Inr (d \<lparr> nd_tx_reserved := rb \<rparr>)))"

definition GetTxPacket :: "NetDev \<Rightarrow> nat option \<times> NetDev" where
  "GetTxPacket d = (case RingBuffer_Pop kNetDevRing (nd_tx_reserved d) of
     Some (packet, rb) \<Rightarrow> (Some packet, d \<lparr> nd_tx_reserved := rb, nd_mem := (nd_mem d)(packet := (nd_mem d packet) \<lparr> pk_len := MCLBYTES \<rparr>) \<rparr>)
   | None \<Rightarrow> (None, d))"

definition TransmitPacket :: "nat \<Rightarrow> NetDev \<Rightarrow> bool \<times> NetDev" where
  "TransmitPacket packet d = (case RingBuffer_Push kNetDevRing (nd_tx_buffered d) packet of (ok, rb) \<Rightarrow>
     (ok, d \<lparr> nd_tx_buffered := rb \<rparr>))"

definition ReceivePacket :: "NetDev \<Rightarrow> nat option \<times> NetDev" where
  "ReceivePacket d = (case RingBuffer_Pop kNetDevRing (nd_rx_buffered d) of
     Some (packet, rb) \<Rightarrow> (Some packet, d \<lparr> nd_rx_buffered := rb \<rparr>)
   | None \<Rightarrow> (None, d))"

text \<open>Filling a ring: the list holds the addresses that the allocator returns one after the other.\<close>

fun init_packets :: "nat list \<Rightarrow> nat RingBuffer \<Rightarrow> nat RingBuffer kres" where
  "init_packets [] rb = (if RingBuffer_IsFull kNetDevRing rb then Inr rb else Inl Out_Of_Range)"
| "init_packets (a # as) rb = (if RingBuffer_IsFull kNetDevRing rb then Inr rb
     else (case RingBuffer_Push kNetDevRing rb a of (ok, rb') \<Rightarrow> kbind (kassert ok) (\<lambda>_. init_packets as rb')))"

definition InitTxPacketBuffer :: "nat list \<Rightarrow> NetDev \<Rightarrow> NetDev kres" where
  "InitTxPacketBuffer as d = kmap (\<lambda>rb. d \<lparr> nd_tx_reserved := rb \<rparr>) (init_packets as (nd_tx_reserved d))"

definition InitRxPacketBuffer :: "nat list \<Rightarrow> NetDev \<Rightarrow> NetDev kres" where
  "InitRxPacketBuffer as d = kmap (\<lambda>rb. d \<lparr> nd_rx_reserved := rb \<rparr>) (init_packets as (nd_rx_reserved d))"

section \<open>Link, name and address\<close>

definition SetStatus :: "LinkStatus \<Rightarrow> NetDev \<Rightarrow> NetDev" where
  "SetStatus st d = d \<lparr> nd_status := st \<rparr>"

definition IsLinkUp :: "NetDev \<Rightarrow> bool" where
  "IsLinkUp d \<longleftrightarrow> nd_status d = kUp"

definition SetHandleMethod :: "HandleMethod \<Rightarrow> NetDev \<Rightarrow> NetDev" where
  "SetHandleMethod m d = d \<lparr> nd_method := m \<rparr>"

definition SetName :: "bytes \<Rightarrow> NetDev \<Rightarrow> NetDev kres" where
  "SetName name d = kmap (\<lambda>n. d \<lparr> nd_name := n \<rparr>) (strncpy (nd_name d) name kNetworkInterfaceNameLen)"

definition AssignIpv4Address :: "u32 \<Rightarrow> NetDev \<Rightarrow> NetDev" where
  "AssignIpv4Address addr d = d \<lparr> nd_ipv4_addr := addr \<rparr>"

section \<open>The driver\<close>

text \<open>
  What a driver does with the buffers, after the Intel driver (\<open>dev/nic/intel/em/if_em.cc\<close>); the legacy one and the
  Realtek one receive with the same statements. \<open>drv_receive\<close> is \<open>em_rxeof\<close> for a descriptor whose frame has no error:
  take a buffer of \<open>_rx_reserved\<close>, copy the frame into it and put it into \<open>_rx_buffered\<close>, or back under an assertion
  when that is full; without a buffer the frame is lost. \<open>drv_transmit\<close> is a turn of the loop of \<open>em_start_locked\<close>
  that finds descriptors available: the result is the frame that \<open>em_xmit\<close> is given. Descriptors, registers and the
  counter of dropped frames belong to the hardware side and are left out.
\<close>

definition drv_receive :: "bytes \<Rightarrow> NetDev \<Rightarrow> NetDev kres" where
  "drv_receive frame d = (case RingBuffer_Pop kNetDevRing (nd_rx_reserved d) of
     None \<Rightarrow> Inr d
   | Some (packet, rb) \<Rightarrow> kbind (memcpy (pk_data (nd_mem d packet)) frame (length frame)) (\<lambda>data.
       let d = d \<lparr> nd_rx_reserved := rb, nd_mem := (nd_mem d)(packet := \<lparr> pk_len = length frame, pk_data = data \<rparr>) \<rparr> in
       case RingBuffer_Push kNetDevRing (nd_rx_buffered d) packet of
         (True, rb') \<Rightarrow> Inr (d \<lparr> nd_rx_buffered := rb' \<rparr>)
       | (False, _) \<Rightarrow> (case RingBuffer_Push kNetDevRing (nd_rx_reserved d) packet of (ok, rb') \<Rightarrow>
           kbind (kassert ok) (\<lambda>_. Inr (d \<lparr> nd_rx_reserved := rb' \<rparr>)))))"

definition drv_transmit :: "NetDev \<Rightarrow> (bytes option \<times> NetDev) kres" where
  "drv_transmit d = (if RingBuffer_IsEmpty (nd_tx_buffered d) then Inr (None, d)
     else (case RingBuffer_Pop kNetDevRing (nd_tx_buffered d) of
       None \<Rightarrow> Inl Kassert
     | Some (packet, rb) \<Rightarrow> kmap (\<lambda>d'. (Some (take (pk_len (nd_mem d packet)) (pk_data (nd_mem d packet))), d'))
         (ReuseTxBuffer packet (d \<lparr> nd_tx_buffered := rb \<rparr>))))"

section \<open>Circulation of the buffers\<close>

text \<open>
  Everything that can happen to the buffers of a device: a frame arrives, a client receives one, returns a held
  receive buffer, fetches a transmit buffer, fills and transmits a held one, returns a held one unused, and the driver
  sends a queued packet. A client names a held buffer by its position in the list of the buffers it holds.
\<close>

datatype nd_ev = Rx_Frame bytes | Rx_Receive | Rx_Reuse nat | Tx_Get | Tx_Send nat bytes | Tx_Reuse nat | Tx_Drive

definition content :: "(nat \<Rightarrow> Packet) \<Rightarrow> nat \<Rightarrow> bytes" where
  "content m p = take (pk_len (m p)) (pk_data (m p))"

definition del_nth :: "nat \<Rightarrow> 'a list \<Rightarrow> 'a list" where
  "del_nth i xs = take i xs @ drop (Suc i) xs"

text \<open>A client fills a packet: \<open>memcpy\<close> into the buffer, then the length.\<close>

definition fill_packet :: "nat \<Rightarrow> bytes \<Rightarrow> NetDev \<Rightarrow> NetDev kres" where
  "fill_packet p frame d = kmap (\<lambda>data. d \<lparr> nd_mem := (nd_mem d)(p := \<lparr> pk_len = length frame, pk_data = data \<rparr>) \<rparr>)
     (memcpy (pk_data (nd_mem d p)) frame (length frame))"

fun nd_do :: "nd_ev \<Rightarrow> NetDev \<times> nat list \<times> nat list \<Rightarrow> (bytes option \<times> NetDev \<times> nat list \<times> nat list) kres" where
  "nd_do (Rx_Frame f) (d, rx, tx) = kmap (\<lambda>d'. (None, d', rx, tx)) (drv_receive f d)"
| "nd_do Rx_Receive (d, rx, tx) = (case ReceivePacket d of
     (None, d') \<Rightarrow> Inr (None, d', rx, tx) | (Some p, d') \<Rightarrow> Inr (Some (content (nd_mem d') p), d', rx @ [p], tx))"
| "nd_do (Rx_Reuse i) (d, rx, tx) = kmap (\<lambda>d'. (None, d', del_nth i rx, tx)) (ReuseRxBuffer (rx ! i) d)"
| "nd_do Tx_Get (d, rx, tx) = (case GetTxPacket d of
     (None, d') \<Rightarrow> Inr (None, d', rx, tx) | (Some p, d') \<Rightarrow> Inr (None, d', rx, tx @ [p]))"
| "nd_do (Tx_Send i f) (d, rx, tx) = kmap (\<lambda>d'. (None, snd (TransmitPacket (tx ! i) d'), rx, del_nth i tx)) (fill_packet (tx ! i) f d)"
| "nd_do (Tx_Reuse i) (d, rx, tx) = kmap (\<lambda>d'. (None, d', rx, del_nth i tx)) (ReuseTxBuffer (tx ! i) d)"
| "nd_do Tx_Drive (d, rx, tx) = kmap (\<lambda>(out, d'). (out, d', rx, tx)) (drv_transmit d)"

fun nd_run :: "nd_ev list \<Rightarrow> NetDev \<times> nat list \<times> nat list \<Rightarrow> (bytes option list \<times> NetDev \<times> nat list \<times> nat list) kres" where
  "nd_run [] s = Inr ([], s)"
| "nd_run (e # es) s = kbind (nd_do e s) (\<lambda>(out, s'). kmap (\<lambda>(outs, s''). (out # outs, s'')) (nd_run es s'))"

text \<open>Specification: two queues of frames, and the numbers of free and held buffers on either side.\<close>

record nd_spec =
  rx_free :: nat
  rx_frames :: "bytes list"
  rx_held :: nat
  tx_free :: nat
  tx_frames :: "bytes list"
  tx_held :: nat

fun spec_do :: "nd_ev \<Rightarrow> nd_spec \<Rightarrow> bytes option \<times> nd_spec" where
  "spec_do (Rx_Frame f) a = (None, if rx_free a = 0 then a else a \<lparr> rx_free := rx_free a - 1, rx_frames := rx_frames a @ [f] \<rparr>)"
| "spec_do Rx_Receive a = (case rx_frames a of [] \<Rightarrow> (None, a) | f # fs \<Rightarrow> (Some f, a \<lparr> rx_frames := fs, rx_held := rx_held a + 1 \<rparr>))"
| "spec_do (Rx_Reuse i) a = (None, a \<lparr> rx_held := rx_held a - 1, rx_free := rx_free a + 1 \<rparr>)"
| "spec_do Tx_Get a = (None, if tx_free a = 0 then a else a \<lparr> tx_free := tx_free a - 1, tx_held := tx_held a + 1 \<rparr>)"
| "spec_do (Tx_Send i f) a = (None, a \<lparr> tx_held := tx_held a - 1, tx_frames := tx_frames a @ [f] \<rparr>)"
| "spec_do (Tx_Reuse i) a = (None, a \<lparr> tx_held := tx_held a - 1, tx_free := tx_free a + 1 \<rparr>)"
| "spec_do Tx_Drive a = (case tx_frames a of [] \<Rightarrow> (None, a) | f # fs \<Rightarrow> (Some f, a \<lparr> tx_frames := fs, tx_free := tx_free a + 1 \<rparr>))"

fun ev_fits :: "nd_ev \<Rightarrow> nd_spec \<Rightarrow> bool" where
  "ev_fits (Rx_Frame f) a \<longleftrightarrow> length f \<le> MCLBYTES"
| "ev_fits (Rx_Reuse i) a \<longleftrightarrow> i < rx_held a"
| "ev_fits (Tx_Send i f) a \<longleftrightarrow> i < tx_held a \<and> length f \<le> MCLBYTES"
| "ev_fits (Tx_Reuse i) a \<longleftrightarrow> i < tx_held a"
| "ev_fits _ a \<longleftrightarrow> True"

fun spec_run :: "nd_ev list \<Rightarrow> nd_spec \<Rightarrow> bytes option list \<times> nd_spec" where
  "spec_run [] a = ([], a)"
| "spec_run (e # es) a = (let (out, a') = spec_do e a; (outs, a'') = spec_run es a' in (out # outs, a''))"

fun evs_fit :: "nd_ev list \<Rightarrow> nd_spec \<Rightarrow> bool" where
  "evs_fit [] a \<longleftrightarrow> True"
| "evs_fit (e # es) a \<longleftrightarrow> ev_fits e a \<and> evs_fit es (snd (spec_do e a))"

section \<open>Simulation\<close>

text \<open>The addresses behind the four rings and the two lists of held buffers are pairwise different, and each side has at most 300.\<close>

definition nd_lists :: "NetDev \<Rightarrow> nat list \<Rightarrow> nat list \<Rightarrow> nat list \<Rightarrow> nat list \<Rightarrow> bool" where
  "nd_lists d rr rb tr tb \<longleftrightarrow> rb_repr kNetDevRing (nd_rx_reserved d) rr \<and> rb_repr kNetDevRing (nd_rx_buffered d) rb \<and>
     rb_repr kNetDevRing (nd_tx_reserved d) tr \<and> rb_repr kNetDevRing (nd_tx_buffered d) tb"

definition nd_ok :: "(nat \<Rightarrow> Packet) \<Rightarrow> nat list \<Rightarrow> nat list \<Rightarrow> nat list \<Rightarrow> nat list \<Rightarrow> nat list \<Rightarrow> nat list \<Rightarrow> bool" where
  "nd_ok m rr rb rx tr tb tx \<longleftrightarrow> distinct (rr @ rb @ rx @ tr @ tb @ tx) \<and>
     length (rr @ rb @ rx) \<le> kNetDevRing \<and> length (tr @ tb @ tx) \<le> kNetDevRing \<and>
     (\<forall>p. length (pk_data (m p)) = MCLBYTES)"

definition nd_sim :: "NetDev \<times> nat list \<times> nat list \<Rightarrow> nd_spec \<Rightarrow> bool" where
  "nd_sim s a \<longleftrightarrow> (case s of (d, rx, tx) \<Rightarrow> \<exists>rr rb tr tb. nd_lists d rr rb tr tb \<and> nd_ok (nd_mem d) rr rb rx tr tb tx \<and>
     a = \<lparr> rx_free = length rr, rx_frames = map (content (nd_mem d)) rb, rx_held = length rx,
           tx_free = length tr, tx_frames = map (content (nd_mem d)) tb, tx_held = length tx \<rparr>)"

lemma ring_push_ok:
  assumes "rb_repr S rb xs" and "length xs < S"
  obtains rb' where "RingBuffer_Push S rb x = (True, rb')" "rb_repr S rb' (xs @ [x])"
proof -
  have "\<not> RingBuffer_IsFull S rb" using ring.fits_iff [OF assms(1)] assms(2) by simp
  from ring.push_fits [OF assms(1) this, of x] that show ?thesis by auto
qed

lemma ring_pop_None: "rb_repr S rb [] \<Longrightarrow> RingBuffer_Pop S rb = None"
  using ring.pop_Nil [of S rb] by simp

lemma ring_pop_Some:
  assumes "rb_repr S rb (x # xs)"
  obtains rb' where "RingBuffer_Pop S rb = Some (x, rb')" "rb_repr S rb' xs"
  using ring.pop_Cons [OF assms] that by auto

lemma del_nth_mset: "i < length xs \<Longrightarrow> mset xs = add_mset (xs ! i) (mset (del_nth i xs))"
proof -
  assume "i < length xs"
  then have "xs = take i xs @ xs ! i # drop (Suc i) xs" by (rule id_take_nth_drop)
  then have "mset xs = mset (take i xs @ xs ! i # drop (Suc i) xs)" by simp
  then show ?thesis by (simp add: del_nth_def)
qed

lemma del_nth_length: "i < length xs \<Longrightarrow> length (del_nth i xs) = length xs - 1"
  by (simp add: del_nth_def)

lemma del_nth_distinct: "i < length xs \<Longrightarrow> distinct (ys @ xs @ zs) \<Longrightarrow> distinct (ys @ del_nth i xs @ zs) \<and> xs ! i \<notin> set (ys @ del_nth i xs @ zs) \<and> set (del_nth i xs) \<subseteq> set xs"
proof -
  assume i: "i < length xs" and d: "distinct (ys @ xs @ zs)"
  have x: "xs = take i xs @ xs ! i # drop (Suc i) xs" using i by (rule id_take_nth_drop)
  have "distinct (ys @ (take i xs @ xs ! i # drop (Suc i) xs) @ zs)" using d x by simp
  moreover have "set xs = insert (xs ! i) (set (del_nth i xs))" by (subst x) (auto simp: del_nth_def)
  ultimately show ?thesis unfolding del_nth_def by auto
qed

lemma content_upd: "p \<notin> set ps \<Longrightarrow> map (content (m(p := k))) ps = map (content m) ps"
  by (auto simp: content_def)

lemma nd_simI:
  assumes "nd_lists d rr rb tr tb" and "nd_ok (nd_mem d) rr rb rx tr tb tx"
    and "a = \<lparr> rx_free = length rr, rx_frames = map (content (nd_mem d)) rb, rx_held = length rx,
           tx_free = length tr, tx_frames = map (content (nd_mem d)) tb, tx_held = length tx \<rparr>"
  shows "nd_sim (d, rx, tx) a"
  using assms unfolding nd_sim_def by auto

lemma nd_simE:
  assumes "nd_sim (d, rx, tx) a"
  obtains rr rb tr tb where "rb_repr kNetDevRing (nd_rx_reserved d) rr" "rb_repr kNetDevRing (nd_rx_buffered d) rb"
    "rb_repr kNetDevRing (nd_tx_reserved d) tr" "rb_repr kNetDevRing (nd_tx_buffered d) tb"
    "nd_ok (nd_mem d) rr rb rx tr tb tx"
    "a = \<lparr> rx_free = length rr, rx_frames = map (content (nd_mem d)) rb, rx_held = length rx,
           tx_free = length tr, tx_frames = map (content (nd_mem d)) tb, tx_held = length tx \<rparr>"
  using assms unfolding nd_sim_def nd_lists_def by auto

definition nd_steps :: "nd_ev \<Rightarrow> NetDev \<times> nat list \<times> nat list \<Rightarrow> nd_spec \<Rightarrow> bool" where
  "nd_steps e s a \<longleftrightarrow> (\<exists>s'. nd_do e s = Inr (fst (spec_do e a), s') \<and> nd_sim s' (snd (spec_do e a)))"

lemma nd_stepsI: "nd_do e s = Inr (fst (spec_do e a), s') \<Longrightarrow> nd_sim s' (snd (spec_do e a)) \<Longrightarrow> nd_steps e s a"
  unfolding nd_steps_def by blast

lemma memcpy_frame: "length f \<le> length d \<Longrightarrow> memcpy d f (length f) = Inr (f @ drop (length f) d)"
  by (simp add: memcpy_ok)

lemma sim_Rx_Frame:
  assumes "nd_sim (d, rx, tx) a" and f: "length f \<le> MCLBYTES"
  shows "nd_steps (Rx_Frame f) (d, rx, tx) a"
proof -
  obtain rr rb tr tb where r: "rb_repr kNetDevRing (nd_rx_reserved d) rr" "rb_repr kNetDevRing (nd_rx_buffered d) rb"
    "rb_repr kNetDevRing (nd_tx_reserved d) tr" "rb_repr kNetDevRing (nd_tx_buffered d) tb"
    and ok: "nd_ok (nd_mem d) rr rb rx tr tb tx"
    and a: "a = \<lparr> rx_free = length rr, rx_frames = map (content (nd_mem d)) rb, rx_held = length rx,
           tx_free = length tr, tx_frames = map (content (nd_mem d)) tb, tx_held = length tx \<rparr>"
    using assms(1) by (rule nd_simE)
  show ?thesis
  proof (cases rr)
    case Nil
    then have "drv_receive f d = Inr d" using r(1) by (simp add: drv_receive_def ring_pop_None)
    then show ?thesis using assms(1) Nil a by (intro nd_stepsI) simp_all
  next
    case (Cons p rs)
    then obtain q where q: "RingBuffer_Pop kNetDevRing (nd_rx_reserved d) = Some (p, q)" "rb_repr kNetDevRing q rs"
      using r(1) by (auto elim: ring_pop_Some)
    have "length rb < kNetDevRing" using ok Cons by (simp add: nd_ok_def)
    then obtain b where b: "RingBuffer_Push kNetDevRing (nd_rx_buffered d) p = (True, b)" "rb_repr kNetDevRing b (rb @ [p])"
      using r(2) by (auto elim: ring_push_ok)
    have len: "length (pk_data (nd_mem d p)) = MCLBYTES" using ok by (simp add: nd_ok_def)
    define k where "k = \<lparr> pk_len = length f, pk_data = f @ drop (length f) (pk_data (nd_mem d p)) \<rparr>"
    define e where "e = d \<lparr> nd_rx_reserved := q, nd_mem := (nd_mem d)(p := k), nd_rx_buffered := b \<rparr>"
    have e: "drv_receive f d = Inr e" using q(1) b(1) f len by (simp add: drv_receive_def memcpy_frame e_def k_def)
    have new: "p \<notin> set rb" "p \<notin> set tb" using ok Cons by (simp_all add: nd_ok_def)
    have "nd_lists e rs (rb @ [p]) tr tb" using q(2) b(2) r by (simp add: nd_lists_def e_def)
    moreover have "nd_ok (nd_mem e) rs (rb @ [p]) rx tr tb tx"
      using ok Cons f len by (auto simp: nd_ok_def e_def k_def)
    ultimately have "nd_sim (e, rx, tx) (snd (spec_do (Rx_Frame f) a))"
      by (rule nd_simI) (use Cons a new in \<open>simp add: e_def content_upd\<close>, simp add: content_def k_def)
    then show ?thesis using e by (intro nd_stepsI) simp_all
  qed
qed

lemma sim_Rx_Receive:
  assumes "nd_sim (d, rx, tx) a"
  shows "nd_steps Rx_Receive (d, rx, tx) a"
proof -
  obtain rr rb tr tb where r: "rb_repr kNetDevRing (nd_rx_reserved d) rr" "rb_repr kNetDevRing (nd_rx_buffered d) rb"
    "rb_repr kNetDevRing (nd_tx_reserved d) tr" "rb_repr kNetDevRing (nd_tx_buffered d) tb"
    and ok: "nd_ok (nd_mem d) rr rb rx tr tb tx"
    and a: "a = \<lparr> rx_free = length rr, rx_frames = map (content (nd_mem d)) rb, rx_held = length rx,
           tx_free = length tr, tx_frames = map (content (nd_mem d)) tb, tx_held = length tx \<rparr>"
    using assms(1) by (rule nd_simE)
  show ?thesis
  proof (cases rb)
    case Nil
    then have "ReceivePacket d = (None, d)" using r(2) by (simp add: ReceivePacket_def ring_pop_None)
    then show ?thesis using assms(1) Nil a by (intro nd_stepsI) simp_all
  next
    case (Cons p rs)
    then obtain q where q: "RingBuffer_Pop kNetDevRing (nd_rx_buffered d) = Some (p, q)" "rb_repr kNetDevRing q rs"
      using r(2) by (auto elim: ring_pop_Some)
    define e where "e = d \<lparr> nd_rx_buffered := q \<rparr>"
    have e: "ReceivePacket d = (Some p, e)" using q(1) by (simp add: ReceivePacket_def e_def)
    have "nd_lists e rr rs tr tb" using q(2) r by (simp add: nd_lists_def e_def)
    moreover have "nd_ok (nd_mem e) rr rs (rx @ [p]) tr tb tx" using ok Cons by (auto simp: nd_ok_def e_def)
    ultimately have "nd_sim (e, rx @ [p], tx) (snd (spec_do Rx_Receive a))"
      by (rule nd_simI) (use Cons a in \<open>simp add: e_def\<close>)
    then show ?thesis using e Cons a by (intro nd_stepsI) (simp_all add: e_def)
  qed
qed

lemma sim_Rx_Reuse:
  assumes "nd_sim (d, rx, tx) a" and i: "i < length rx"
  shows "nd_steps (Rx_Reuse i) (d, rx, tx) a"
proof -
  obtain rr rb tr tb where r: "rb_repr kNetDevRing (nd_rx_reserved d) rr" "rb_repr kNetDevRing (nd_rx_buffered d) rb"
    "rb_repr kNetDevRing (nd_tx_reserved d) tr" "rb_repr kNetDevRing (nd_tx_buffered d) tb"
    and ok: "nd_ok (nd_mem d) rr rb rx tr tb tx"
    and a: "a = \<lparr> rx_free = length rr, rx_frames = map (content (nd_mem d)) rb, rx_held = length rx,
           tx_free = length tr, tx_frames = map (content (nd_mem d)) tb, tx_held = length tx \<rparr>"
    using assms(1) by (rule nd_simE)
  have "length rr < kNetDevRing" using ok i by (simp add: nd_ok_def)
  then obtain b where b: "RingBuffer_Push kNetDevRing (nd_rx_reserved d) (rx ! i) = (True, b)" "rb_repr kNetDevRing b (rr @ [rx ! i])"
    using r(1) by (auto elim: ring_push_ok)
  define e where "e = d \<lparr> nd_rx_reserved := b \<rparr>"
  have e: "ReuseRxBuffer (rx ! i) d = Inr e" using b(1) by (simp add: ReuseRxBuffer_def e_def)
  have dist: "distinct ((rr @ rb) @ rx @ (tr @ tb @ tx))" using ok by (simp add: nd_ok_def)
  have "nd_lists e (rr @ [rx ! i]) rb tr tb" using b(2) r by (simp add: nd_lists_def e_def)
  moreover have "nd_ok (nd_mem e) (rr @ [rx ! i]) rb (del_nth i rx) tr tb tx"
    using ok i del_nth_distinct [OF i dist] del_nth_length [OF i] by (auto simp: nd_ok_def e_def)
  ultimately have "nd_sim (e, del_nth i rx, tx) (snd (spec_do (Rx_Reuse i) a))"
    by (rule nd_simI) (use a i del_nth_length [OF i] in \<open>simp add: e_def\<close>)
  then show ?thesis using e by (intro nd_stepsI) simp_all
qed

lemma sim_Tx_Get:
  assumes "nd_sim (d, rx, tx) a"
  shows "nd_steps Tx_Get (d, rx, tx) a"
proof -
  obtain rr rb tr tb where r: "rb_repr kNetDevRing (nd_rx_reserved d) rr" "rb_repr kNetDevRing (nd_rx_buffered d) rb"
    "rb_repr kNetDevRing (nd_tx_reserved d) tr" "rb_repr kNetDevRing (nd_tx_buffered d) tb"
    and ok: "nd_ok (nd_mem d) rr rb rx tr tb tx"
    and a: "a = \<lparr> rx_free = length rr, rx_frames = map (content (nd_mem d)) rb, rx_held = length rx,
           tx_free = length tr, tx_frames = map (content (nd_mem d)) tb, tx_held = length tx \<rparr>"
    using assms(1) by (rule nd_simE)
  show ?thesis
  proof (cases tr)
    case Nil
    then have "GetTxPacket d = (None, d)" using r(3) by (simp add: GetTxPacket_def ring_pop_None)
    then show ?thesis using assms(1) Nil a by (intro nd_stepsI) simp_all
  next
    case (Cons p ts)
    then obtain q where q: "RingBuffer_Pop kNetDevRing (nd_tx_reserved d) = Some (p, q)" "rb_repr kNetDevRing q ts"
      using r(3) by (auto elim: ring_pop_Some)
    define e where "e = d \<lparr> nd_tx_reserved := q, nd_mem := (nd_mem d)(p := (nd_mem d p) \<lparr> pk_len := MCLBYTES \<rparr>) \<rparr>"
    have e: "GetTxPacket d = (Some p, e)" using q(1) by (simp add: GetTxPacket_def e_def)
    have new: "p \<notin> set rb" "p \<notin> set tb" using ok Cons by (simp_all add: nd_ok_def)
    have "nd_lists e rr rb ts tb" using q(2) r by (simp add: nd_lists_def e_def)
    moreover have "nd_ok (nd_mem e) rr rb rx ts tb (tx @ [p])" using ok Cons by (auto simp: nd_ok_def e_def)
    ultimately have "nd_sim (e, rx, tx @ [p]) (snd (spec_do Tx_Get a))"
      by (rule nd_simI) (use Cons a new in \<open>simp add: e_def content_upd\<close>)
    then show ?thesis using e Cons a by (intro nd_stepsI) simp_all
  qed
qed

lemma sim_Tx_Send:
  assumes "nd_sim (d, rx, tx) a" and i: "i < length tx" and f: "length f \<le> MCLBYTES"
  shows "nd_steps (Tx_Send i f) (d, rx, tx) a"
proof -
  obtain rr rb tr tb where r: "rb_repr kNetDevRing (nd_rx_reserved d) rr" "rb_repr kNetDevRing (nd_rx_buffered d) rb"
    "rb_repr kNetDevRing (nd_tx_reserved d) tr" "rb_repr kNetDevRing (nd_tx_buffered d) tb"
    and ok: "nd_ok (nd_mem d) rr rb rx tr tb tx"
    and a: "a = \<lparr> rx_free = length rr, rx_frames = map (content (nd_mem d)) rb, rx_held = length rx,
           tx_free = length tr, tx_frames = map (content (nd_mem d)) tb, tx_held = length tx \<rparr>"
    using assms(1) by (rule nd_simE)
  define p where "p = tx ! i"
  have "length tb < kNetDevRing" using ok i by (simp add: nd_ok_def)
  then obtain b where b: "RingBuffer_Push kNetDevRing (nd_tx_buffered d) p = (True, b)" "rb_repr kNetDevRing b (tb @ [p])"
    using r(4) by (auto elim: ring_push_ok)
  have len: "length (pk_data (nd_mem d p)) = MCLBYTES" using ok by (simp add: nd_ok_def)
  define k where "k = \<lparr> pk_len = length f, pk_data = f @ drop (length f) (pk_data (nd_mem d p)) \<rparr>"
  define e where "e = d \<lparr> nd_mem := (nd_mem d)(p := k), nd_tx_buffered := b \<rparr>"
  have e: "nd_do (Tx_Send i f) (d, rx, tx) = Inr (None, e, rx, del_nth i tx)"
    using b(1) f len by (simp add: fill_packet_def memcpy_frame TransmitPacket_def e_def k_def flip: p_def)
  have dist: "distinct ((rr @ rb @ rx @ tr @ tb) @ tx @ [])" using ok by (simp add: nd_ok_def)
  note del = del_nth_distinct [OF i dist, folded p_def] del_nth_length [OF i]
  have "nd_lists e rr rb tr (tb @ [p])" using b(2) r by (simp add: nd_lists_def e_def)
  moreover have "nd_ok (nd_mem e) rr rb rx tr (tb @ [p]) (del_nth i tx)"
    using ok i del f len by (auto simp: nd_ok_def e_def k_def)
  ultimately have "nd_sim (e, rx, del_nth i tx) (snd (spec_do (Tx_Send i f) a))"
    by (rule nd_simI) (use a i del in \<open>simp add: e_def content_upd\<close>, simp add: content_def k_def)
  then show ?thesis using e by (intro nd_stepsI) simp_all
qed

lemma sim_Tx_Reuse:
  assumes "nd_sim (d, rx, tx) a" and i: "i < length tx"
  shows "nd_steps (Tx_Reuse i) (d, rx, tx) a"
proof -
  obtain rr rb tr tb where r: "rb_repr kNetDevRing (nd_rx_reserved d) rr" "rb_repr kNetDevRing (nd_rx_buffered d) rb"
    "rb_repr kNetDevRing (nd_tx_reserved d) tr" "rb_repr kNetDevRing (nd_tx_buffered d) tb"
    and ok: "nd_ok (nd_mem d) rr rb rx tr tb tx"
    and a: "a = \<lparr> rx_free = length rr, rx_frames = map (content (nd_mem d)) rb, rx_held = length rx,
           tx_free = length tr, tx_frames = map (content (nd_mem d)) tb, tx_held = length tx \<rparr>"
    using assms(1) by (rule nd_simE)
  have "length tr < kNetDevRing" using ok i by (simp add: nd_ok_def)
  then obtain b where b: "RingBuffer_Push kNetDevRing (nd_tx_reserved d) (tx ! i) = (True, b)" "rb_repr kNetDevRing b (tr @ [tx ! i])"
    using r(3) by (auto elim: ring_push_ok)
  define e where "e = d \<lparr> nd_tx_reserved := b \<rparr>"
  have e: "ReuseTxBuffer (tx ! i) d = Inr e" using b(1) by (simp add: ReuseTxBuffer_def e_def)
  have dist: "distinct ((rr @ rb @ rx @ tr @ tb) @ tx @ [])" using ok by (simp add: nd_ok_def)
  have "nd_lists e rr rb (tr @ [tx ! i]) tb" using b(2) r by (simp add: nd_lists_def e_def)
  moreover have "nd_ok (nd_mem e) rr rb rx (tr @ [tx ! i]) tb (del_nth i tx)"
    using ok i del_nth_distinct [OF i dist] del_nth_length [OF i] by (auto simp: nd_ok_def e_def)
  ultimately have "nd_sim (e, rx, del_nth i tx) (snd (spec_do (Tx_Reuse i) a))"
    by (rule nd_simI) (use a i del_nth_length [OF i] in \<open>simp add: e_def\<close>)
  then show ?thesis using e by (intro nd_stepsI) simp_all
qed

lemma sim_Tx_Drive:
  assumes "nd_sim (d, rx, tx) a"
  shows "nd_steps Tx_Drive (d, rx, tx) a"
proof -
  obtain rr rb tr tb where r: "rb_repr kNetDevRing (nd_rx_reserved d) rr" "rb_repr kNetDevRing (nd_rx_buffered d) rb"
    "rb_repr kNetDevRing (nd_tx_reserved d) tr" "rb_repr kNetDevRing (nd_tx_buffered d) tb"
    and ok: "nd_ok (nd_mem d) rr rb rx tr tb tx"
    and a: "a = \<lparr> rx_free = length rr, rx_frames = map (content (nd_mem d)) rb, rx_held = length rx,
           tx_free = length tr, tx_frames = map (content (nd_mem d)) tb, tx_held = length tx \<rparr>"
    using assms(1) by (rule nd_simE)
  show ?thesis
  proof (cases tb)
    case Nil
    then have "drv_transmit d = Inr (None, d)" using r(4) ring.is_empty_iff [OF r(4)] by (simp add: drv_transmit_def)
    then show ?thesis using assms(1) Nil a by (intro nd_stepsI) simp_all
  next
    case (Cons p ts)
    then obtain q where q: "RingBuffer_Pop kNetDevRing (nd_tx_buffered d) = Some (p, q)" "rb_repr kNetDevRing q ts"
      using r(4) by (auto elim: ring_pop_Some)
    have "length tr < kNetDevRing" using ok Cons by (simp add: nd_ok_def)
    then obtain b where b: "RingBuffer_Push kNetDevRing (nd_tx_reserved d) p = (True, b)" "rb_repr kNetDevRing b (tr @ [p])"
      using r(3) by (auto elim: ring_push_ok)
    define e where "e = d \<lparr> nd_tx_buffered := q, nd_tx_reserved := b \<rparr>"
    have e: "drv_transmit d = Inr (Some (content (nd_mem d) p), e)"
      using q(1) b(1) Cons ring.is_empty_iff [OF r(4)] by (simp add: drv_transmit_def ReuseTxBuffer_def e_def content_def)
    have "nd_lists e rr rb (tr @ [p]) ts" using q(2) b(2) r by (simp add: nd_lists_def e_def)
    moreover have "nd_ok (nd_mem e) rr rb rx (tr @ [p]) ts tx" using ok Cons by (auto simp: nd_ok_def e_def)
    ultimately have "nd_sim (e, rx, tx) (snd (spec_do Tx_Drive a))"
      by (rule nd_simI) (use Cons a in \<open>simp add: e_def\<close>)
    then show ?thesis using e Cons a by (intro nd_stepsI) simp_all
  qed
qed

lemma sim_step:
  assumes "nd_sim (d, rx, tx) a" and "ev_fits e a"
  shows "nd_steps e (d, rx, tx) a"
proof -
  have held: "rx_held a = length rx" "tx_held a = length tx" using assms(1) by (auto simp: nd_sim_def)
  show ?thesis
  proof (cases e)
    case (Rx_Frame f)
    then show ?thesis using assms sim_Rx_Frame by simp
  next
    case Rx_Receive
    then show ?thesis using assms sim_Rx_Receive by simp
  next
    case (Rx_Reuse i)
    then show ?thesis using assms held sim_Rx_Reuse by simp
  next
    case Tx_Get
    then show ?thesis using assms sim_Tx_Get by simp
  next
    case (Tx_Send i f)
    then show ?thesis using assms held sim_Tx_Send by simp
  next
    case (Tx_Reuse i)
    then show ?thesis using assms held sim_Tx_Reuse by simp
  next
    case Tx_Drive
    then show ?thesis using assms sim_Tx_Drive by simp
  qed
qed

lemma sim_run:
  "nd_sim s a \<Longrightarrow> evs_fit es a \<Longrightarrow> \<exists>s'. nd_run es s = Inr (fst (spec_run es a), s') \<and> nd_sim s' (snd (spec_run es a))"
proof (induction es arbitrary: s a)
  case (Cons e es)
  obtain d rx tx where s: "s = (d, rx, tx)" by (cases s) auto
  obtain s1 where s1: "nd_do e s = Inr (fst (spec_do e a), s1)" "nd_sim s1 (snd (spec_do e a))"
    using sim_step [of d rx tx a e] Cons.prems s by (auto simp: nd_steps_def)
  obtain s2 where "nd_run es s1 = Inr (fst (spec_run es (snd (spec_do e a))), s2)" "nd_sim s2 (snd (spec_run es (snd (spec_do e a))))"
    using Cons.IH [OF s1(2)] Cons.prems by auto
  then show ?case using s1 by (auto simp: case_prod_beta Let_def)
qed simp

lemma init_packets_ok:
  "rb_repr kNetDevRing rb xs \<Longrightarrow> length xs + length as = kNetDevRing \<Longrightarrow>
   \<exists>rb'. init_packets as rb = Inr rb' \<and> rb_repr kNetDevRing rb' (xs @ as)"
proof (induction as arbitrary: rb xs)
  case Nil
  then have "RingBuffer_IsFull kNetDevRing rb" using ring.is_full_iff by fastforce
  then show ?case using Nil by simp
next
  case (Cons x as)
  then have "length xs < kNetDevRing" by simp
  then obtain b where b: "RingBuffer_Push kNetDevRing rb x = (True, b)" "rb_repr kNetDevRing b (xs @ [x])"
    using Cons.prems(1) by (auto elim: ring_push_ok)
  have "\<not> RingBuffer_IsFull kNetDevRing rb" using Cons.prems ring.is_full_iff [OF Cons.prems(1)] by simp
  then show ?case using Cons.IH [OF b(2)] Cons.prems b(1) by simp
qed

text \<open>The constructor: empty rings (\<open>slots\<close> is what their memory held), link down, interrupts.\<close>

definition NetDev_new :: "(nat \<Rightarrow> Packet) \<Rightarrow> nat list \<Rightarrow> bytes \<Rightarrow> NetDev" where
  "NetDev_new mem slots name = \<lparr> nd_mem = mem, nd_rx_reserved = RingBuffer_new slots, nd_rx_buffered = RingBuffer_new slots,
     nd_tx_reserved = RingBuffer_new slots, nd_tx_buffered = RingBuffer_new slots, nd_status = kDown, nd_method = kInt,
     nd_name = name, nd_ipv4_addr = 0 \<rparr>"

definition nd_empty :: nd_spec where
  "nd_empty = \<lparr> rx_free = kNetDevRing, rx_frames = [], rx_held = 0, tx_free = kNetDevRing, tx_frames = [], tx_held = 0 \<rparr>"

lemma nd_init:
  assumes "length slots = kNetDevRing + 1" and "length rxs = kNetDevRing" and "length txs = kNetDevRing"
    and "distinct (rxs @ txs)" and "\<And>p. length (pk_data (mem p)) = MCLBYTES"
  obtains d where "kbind (InitRxPacketBuffer rxs (NetDev_new mem slots name)) (InitTxPacketBuffer txs) = Inr d"
    "nd_sim (d, [], []) nd_empty"
proof -
  have r: "rb_repr kNetDevRing (RingBuffer_new slots) []" using assms(1) by (simp add: rb_new_repr)
  obtain q where q: "init_packets rxs (RingBuffer_new slots) = Inr q" "rb_repr kNetDevRing q rxs"
    using init_packets_ok [OF r, of rxs] assms(2) by auto
  obtain t where t: "init_packets txs (RingBuffer_new slots) = Inr t" "rb_repr kNetDevRing t txs"
    using init_packets_ok [OF r, of txs] assms(3) by auto
  define d where "d = (NetDev_new mem slots name) \<lparr> nd_rx_reserved := q, nd_tx_reserved := t \<rparr>"
  have d: "kbind (InitRxPacketBuffer rxs (NetDev_new mem slots name)) (InitTxPacketBuffer txs) = Inr d"
    using q(1) t(1) by (simp add: InitRxPacketBuffer_def InitTxPacketBuffer_def NetDev_new_def d_def)
  have "nd_lists d rxs [] txs []" using r q(2) t(2) by (simp add: nd_lists_def d_def NetDev_new_def)
  moreover have "nd_ok (nd_mem d) rxs [] [] txs [] []" using assms by (simp add: nd_ok_def d_def NetDev_new_def)
  ultimately have "nd_sim (d, [], []) nd_empty"
    by (rule nd_simI) (use assms in \<open>simp add: nd_empty_def\<close>)
  then show ?thesis using d that by blast
qed

text \<open>C35: a network device whose two pools are filled with 300 different buffers each behaves, under every sequence of
  arriving frames, client calls and transmissions of the driver, as two queues of frames with a count of free buffers:
  frames are received and sent unchanged, in order and without a failed assertion, a frame is dropped exactly when the
  clients and the queue hold all receive buffers, and no buffer is lost.\<close>

theorem NetDev_refines_frame_queues:
  assumes "length slots = kNetDevRing + 1" and "length rxs = kNetDevRing" and "length txs = kNetDevRing"
    and "distinct (rxs @ txs)" and "\<And>p. length (pk_data (mem p)) = MCLBYTES" and "evs_fit es nd_empty"
  shows "\<exists>d s. kbind (InitRxPacketBuffer rxs (NetDev_new mem slots name)) (InitTxPacketBuffer txs) = Inr d \<and>
    nd_run es (d, [], []) = Inr (fst (spec_run es nd_empty), s) \<and> nd_sim s (snd (spec_run es nd_empty))"
proof -
  obtain d where d: "kbind (InitRxPacketBuffer rxs (NetDev_new mem slots name)) (InitTxPacketBuffer txs) = Inr d"
    "nd_sim (d, [], []) nd_empty"
    using assms(1-5) by (rule nd_init)
  then show ?thesis using sim_run [OF d(2) assms(6)] by blast
qed

definition nd_demo :: "nd_ev list" where
  "nd_demo = [Rx_Frame [1, 2], Rx_Receive, Rx_Reuse 0, Tx_Get, Tx_Send 0 [3], Tx_Drive]"

theorem NetDev_refines_frame_queues_witness:
  "\<exists>d s. kbind (InitRxPacketBuffer [0..<300] (NetDev_new (\<lambda>_. \<lparr> pk_len = 0, pk_data = replicate 2048 0 \<rparr>) (replicate 301 0) (replicate 8 0)))
      (InitTxPacketBuffer [300..<600]) = Inr d \<and>
    nd_run nd_demo (d, [], []) = Inr ([None, Some [1, 2], None, None, None, Some [3]], s)"
proof -
  have "evs_fit nd_demo nd_empty" "fst (spec_run nd_demo nd_empty) = [None, Some [1, 2], None, None, None, Some [3]]"
    by (simp_all add: nd_demo_def nd_empty_def kNetDevRing_def MCLBYTES_def)
  then show ?thesis
    using NetDev_refines_frame_queues [of "replicate 301 0" "[0..<300]" "[300..<600]"
        "\<lambda>_. \<lparr> pk_len = 0, pk_data = replicate 2048 0 \<rparr>" nd_demo "replicate 8 0"]
    by (auto simp: kNetDevRing_def MCLBYTES_def)
qed

section \<open>The table of devices\<close>

definition kMaxDevNumber :: nat where "kMaxDevNumber = 32"

text \<open>A device is a number; \<open>nc_devs\<close> holds the devices behind the numbers, \<open>nc_table\<close> the registered ones in order.\<close>

record NetDevCtrl =
  nc_devs :: "nat \<Rightarrow> NetDev"
  nc_table :: "nat list"

text \<open>The name is the prefix, one character for the number of the device, and a terminator, built in \<open>mem\<close>.\<close>

definition interface_name :: "bytes \<Rightarrow> bytes \<Rightarrow> nat \<Rightarrow> bytes kres" where
  "interface_name mem prefix n = kbind (strlen prefix) (\<lambda>l. kbind (strncpy mem prefix l) (\<lambda>name.
     if l + 1 < length name then Inr (name[l := of_nat n + 48, l + 1 := 0]) else Inl Out_Of_Range))"

definition RegisterDevice :: "bytes \<Rightarrow> nat \<Rightarrow> bytes \<Rightarrow> NetDevCtrl \<Rightarrow> (bool \<times> NetDevCtrl) kres" where
  "RegisterDevice mem dev prefix c = (if length (nc_table c) < kMaxDevNumber then
     kbind (interface_name mem prefix (length (nc_table c))) (\<lambda>name. kbind (SetName name (nc_devs c dev)) (\<lambda>d.
       Inr (True, \<lparr> nc_devs = (nc_devs c)(dev := d), nc_table = nc_table c @ [dev] \<rparr>)))
   else Inr (False, c))"

text \<open>The search runs from the newest device to the oldest one.\<close>

fun search_device :: "(nat \<Rightarrow> NetDev) \<Rightarrow> bytes \<Rightarrow> nat list \<Rightarrow> nat option kres" where
  "search_device devs name [] = Inr None"
| "search_device devs name (dev # r) = kbind (strlen name) (\<lambda>l. kbind (strncmp (nd_name (devs dev)) name l) (\<lambda>c.
     if c = 0 then Inr (Some dev) else search_device devs name r))"

definition GetDeviceInfo :: "bytes \<Rightarrow> NetDevCtrl \<Rightarrow> nat option kres" where
  "GetDeviceInfo name c = search_device (nc_devs c) name (rev (nc_table c))"

definition NetDev_Exists :: "bytes \<Rightarrow> NetDevCtrl \<Rightarrow> bool kres" where
  "NetDev_Exists name c = kmap (\<lambda>r. r \<noteq> None) (GetDeviceInfo name c)"

definition GetNamesOfAllDevices :: "NetDevCtrl \<Rightarrow> bytes list" where
  "GetNamesOfAllDevices c = map (\<lambda>dev. nd_name (nc_devs c dev)) (nc_table c)"

text \<open>The name of the \<open>j\<close>th device when all devices have the same prefix.\<close>

definition dev_name :: "bytes \<Rightarrow> nat \<Rightarrow> bytes" where
  "dev_name p j = p @ [of_nat j + 48]"

definition devs_named :: "bytes \<Rightarrow> NetDevCtrl \<Rightarrow> bool" where
  "devs_named p c \<longleftrightarrow> distinct (nc_table c) \<and> length (nc_table c) \<le> kMaxDevNumber \<and>
     (\<forall>j < length (nc_table c). \<exists>r. nd_name (nc_devs c (nc_table c ! j)) = dev_name p j @ 0 # r)"

lemma digit_distinct: "i < 32 \<Longrightarrow> j < 32 \<Longrightarrow> (of_nat i + 48 :: u8) = of_nat j + 48 \<longleftrightarrow> i = j"
proof -
  assume a: "i < 32" "j < 32"
  have "(of_nat i :: u8) = of_nat j \<longleftrightarrow> i mod 256 = j mod 256" using word_of_nat_eq_iff [of i j, where ?'a = 8]
    by (simp add: take_bit_eq_mod)
  then show ?thesis using a by simp
qed

lemma digit_nonzero: "i < 32 \<Longrightarrow> (of_nat i + 48 :: u8) \<noteq> 0"
proof
  assume a: "i < 32" "(of_nat i + 48 :: u8) = 0"
  then have "(of_nat (i + 48) :: u8) = of_nat 0" by simp
  then show False using a(1) word_of_nat_eq_iff [of "i + 48" 0, where ?'a = 8] by (simp add: take_bit_eq_mod)
qed

lemma interface_name_ok:
  assumes "0 \<notin> set p" and "length p + 2 \<le> length mem"
  shows "interface_name mem (p @ 0 # r) j = Inr (dev_name p j @ 0 # drop (length p + 2) mem)"
proof -
  have "take (length p) (p @ replicate (length p) 0) = p" by simp
  then have s: "strncpy mem (p @ 0 # r) (length p) = Inr (p @ drop (length p) mem)"
    using strncpy_pads [OF assms(1), of "length p" mem r] assms(2) by simp
  have "2 \<le> length (drop (length p) mem)" using assms(2) by simp
  then obtain a b m where m: "drop (length p) mem = a # b # m"
    unfolding numeral_2_eq_2 Suc_le_length_iff by blast
  have "drop (length p + 2) mem = drop 2 (drop (length p) mem)" by (simp add: add.commute)
  then have "drop (length p + 2) mem = m" using m by simp
  then show ?thesis using s m strlen_cstr [OF assms(1)] by (simp add: interface_name_def list_update_append dev_name_def)
qed

lemma SetName_ok:
  assumes "length (nd_name d) = 8" and "0 \<notin> set n" and "length n \<le> 7"
  shows "SetName (n @ 0 # r) d = Inr (d \<lparr> nd_name := n @ 0 # replicate (7 - length n) 0 \<rparr>)"
proof -
  have "take 8 (n @ replicate 8 0) = n @ replicate (8 - length n) 0" using assms(3) by (simp add: take_replicate min_def)
  also have "8 - length n = Suc (7 - length n)" using assms(3) by simp
  finally have "strncpy (nd_name d) (n @ 0 # r) 8 = Inr (n @ 0 # replicate (7 - length n) 0)"
    using strncpy_pads [OF assms(2), of 8 "nd_name d" r] assms(1) by (simp del: replicate.simps(2)) simp
  then show ?thesis by (simp add: SetName_def kNetworkInterfaceNameLen_def)
qed

lemma RegisterDevice_named:
  assumes c: "devs_named p c" and p: "0 \<notin> set p" "length p \<le> 6" and mem: "length mem = 8"
    and dev: "dev \<notin> set (nc_table c)" "length (nd_name (nc_devs c dev)) = 8" and room: "length (nc_table c) < kMaxDevNumber"
  shows "\<exists>c'. RegisterDevice mem dev (p @ 0 # r) c = Inr (True, c') \<and> nc_table c' = nc_table c @ [dev] \<and> devs_named p c' \<and>
    (\<forall>x. length (nd_name (nc_devs c x)) = 8 \<longrightarrow> length (nd_name (nc_devs c' x)) = 8)"
proof -
  define j where "j = length (nc_table c)"
  have j: "j < 32" using room by (simp add: j_def kMaxDevNumber_def)
  define d where "d = (nc_devs c dev) \<lparr> nd_name := dev_name p j @ 0 # replicate (7 - length (dev_name p j)) 0 \<rparr>"
  define c' where "c' = \<lparr> nc_devs = (nc_devs c)(dev := d), nc_table = nc_table c @ [dev] \<rparr>"
  have n: "0 \<notin> set (dev_name p j)" "length (dev_name p j) \<le> 7"
    using p digit_nonzero [OF j] by (auto simp: dev_name_def)
  have r: "RegisterDevice mem dev (p @ 0 # r) c = Inr (True, c')"
    using interface_name_ok [OF p(1), of mem r j] SetName_ok [OF dev(2) n] mem p(2) room
    by (simp add: RegisterDevice_def j_def [symmetric] c'_def d_def)
  have "\<exists>r. nd_name (nc_devs c' (nc_table c' ! i)) = dev_name p i @ 0 # r" if i: "i < length (nc_table c')" for i
  proof (cases "i = j")
    case True
    then show ?thesis by (simp add: c'_def d_def j_def nth_append)
  next
    case False
    then have "i < length (nc_table c)" "nc_table c ! i \<noteq> dev" using i dev(1) by (auto simp: c'_def j_def)
    then show ?thesis using c by (auto simp: devs_named_def c'_def nth_append)
  qed
  then have "devs_named p c'" using c dev(1) room by (simp add: devs_named_def c'_def)
  moreover have "length (nd_name (nc_devs c' x)) = 8" if "length (nd_name (nc_devs c x)) = 8" for x
    using that n(2) by (simp add: c'_def d_def)
  ultimately show ?thesis using r by (auto simp: c'_def)
qed

lemma search_device_named:
  assumes "\<forall>j \<in> set js. j < 32 \<and> (\<exists>r. nd_name (devs (f j)) = dev_name p j @ 0 # r)" and "0 \<notin> set p" and "i < 32"
  shows "search_device devs (dev_name p i @ 0 # r) (map f js) = Inr (if i \<in> set js then Some (f i) else None)"
  using assms(1)
proof (induction js)
  case (Cons j js)
  have n: "0 \<notin> set (dev_name p i)" using assms(2) digit_nonzero [OF assms(3)] by (auto simp: dev_name_def)
  obtain q where q: "nd_name (devs (f j)) = dev_name p j @ 0 # q" "j < 32" using Cons.prems by auto
  have "take (length (dev_name p i)) (dev_name p j) = dev_name p i \<longleftrightarrow> i = j"
    using digit_distinct [OF assms(3) q(2)] by (auto simp: dev_name_def)
  then show ?case using strncmp_prefix [OF n, of "dev_name p j" q "0 # r"] strlen_cstr [OF n] q Cons by auto
qed simp

fun register_all :: "bytes \<Rightarrow> bytes \<Rightarrow> nat list \<Rightarrow> NetDevCtrl \<Rightarrow> NetDevCtrl kres" where
  "register_all mem prefix [] c = Inr c"
| "register_all mem prefix (dev # devs) c = kbind (RegisterDevice mem dev prefix c) (\<lambda>r. register_all mem prefix devs (snd r))"

lemma register_all_named:
  "devs_named p c \<Longrightarrow> 0 \<notin> set p \<Longrightarrow> length p \<le> 6 \<Longrightarrow> length mem = 8 \<Longrightarrow> distinct (nc_table c @ devs) \<Longrightarrow>
   \<forall>x. length (nd_name (nc_devs c x)) = 8 \<Longrightarrow> length (nc_table c @ devs) \<le> kMaxDevNumber \<Longrightarrow>
   \<exists>c'. register_all mem (p @ 0 # r) devs c = Inr c' \<and> nc_table c' = nc_table c @ devs \<and> devs_named p c'"
proof (induction devs arbitrary: c)
  case (Cons dev devs)
  obtain c1 where c1: "RegisterDevice mem dev (p @ 0 # r) c = Inr (True, c1)" "nc_table c1 = nc_table c @ [dev]" "devs_named p c1"
    "\<forall>x. length (nd_name (nc_devs c1 x)) = 8"
    using RegisterDevice_named [of p c mem dev r] Cons.prems by auto
  show ?case using Cons.IH [OF c1(3)] Cons.prems c1 by auto
qed auto

text \<open>up to 32 devices registered under a common prefix of at most six characters get different names, and looking
  any of these names up finds the device that was registered under it.\<close>

theorem GetDeviceInfo_finds_registered:
  assumes "0 \<notin> set p" and "length p \<le> 6" and "length mem = 8" and "\<And>x. length (nd_name (devs x)) = 8"
    and "distinct ds" and "length ds \<le> kMaxDevNumber"
  shows "\<exists>c. register_all mem (p @ 0 # r) ds \<lparr> nc_devs = devs, nc_table = [] \<rparr> = Inr c \<and>
    (\<forall>i < length ds. GetDeviceInfo (dev_name p i @ 0 # r') c = Inr (Some (ds ! i)) \<and>
       (\<exists>q. GetNamesOfAllDevices c ! i = dev_name p i @ 0 # q))"
proof -
  have "devs_named p \<lparr> nc_devs = devs, nc_table = [] \<rparr>" by (simp add: devs_named_def)
  from register_all_named [OF this assms(1,2,3), of ds r] obtain c where
    c: "register_all mem (p @ 0 # r) ds \<lparr> nc_devs = devs, nc_table = [] \<rparr> = Inr c" "nc_table c = ds" "devs_named p c"
    using assms by auto
  have "GetDeviceInfo (dev_name p i @ 0 # r') c = Inr (Some (ds ! i))" if i: "i < length ds" for i
  proof -
    have m: "rev (nc_table c) = map ((!) ds) (rev [0..<length ds])" using c(2) by (simp add: map_nth rev_map [symmetric])
    have "\<forall>j \<in> set (rev [0..<length ds]). j < 32 \<and> (\<exists>r. nd_name (nc_devs c (ds ! j)) = dev_name p j @ 0 # r)"
      using c(2,3) assms(6) by (auto simp: devs_named_def kMaxDevNumber_def)
    from search_device_named [where js = "rev [0..<length ds]" and f = "(!) ds", OF this assms(1), of i r'] show ?thesis
      using i assms(6) unfolding GetDeviceInfo_def m by (simp add: kMaxDevNumber_def)
  qed
  moreover have "\<exists>q. GetNamesOfAllDevices c ! i = dev_name p i @ 0 # q" if "i < length ds" for i
    using that c(2,3) by (auto simp: GetNamesOfAllDevices_def devs_named_def)
  ultimately show ?thesis using c(1) by blast
qed

theorem GetDeviceInfo_finds_registered_witness:
  "\<exists>c. register_all (replicate 8 0) ([101, 110] @ 0 # []) [4, 7] \<lparr> nc_devs = \<lambda>_. NetDev_new (\<lambda>_. \<lparr> pk_len = 0, pk_data = [] \<rparr>) [] (replicate 8 0), nc_table = [] \<rparr> = Inr c \<and>
     GetDeviceInfo [101, 110, 49, 0] c = Inr (Some 7)"
  using GetDeviceInfo_finds_registered [of "[101, 110]" "replicate 8 0" "\<lambda>_. NetDev_new (\<lambda>_. \<lparr> pk_len = 0, pk_data = [] \<rparr>) [] (replicate 8 0)"
      "[4, 7]" "[]" "[]"]
  by (auto simp: NetDev_new_def kMaxDevNumber_def dev_name_def dest!: spec [of _ 1])

end
