(* ===== verification/Object_List.thy ===== *)
theory Object_List
  imports Raph_Prelude
begin

text \<open>
  The doubly linked list \<open>List<T>\<close> of \<open>list.h\<close>. A container is an address into a
  heap of containers, each with its links and its lock; the list has its own
  lock. \<open>PushBack\<close> and \<open>Remove\<close> try the locks they need and start over when one
  is taken: one turn of their loops is a function that either finishes or
  asks for another turn. The representation of a list is the sequence of the
  addresses of its containers.
\<close>

section \<open>Containers\<close>

record 'a ListContainer =
  lc_obj :: 'a
  lc_next :: "nat option"
  lc_prev :: "nat option"
  lc_lock :: bool

record 'a OList =
  ls_heap :: "nat \<Rightarrow> 'a ListContainer"
  ls_first :: "nat option"
  ls_last :: "nat option"
  ls_lock :: bool
  ls_used :: nat

text \<open>The object in memory that is no container yet does not matter.\<close>

definition OList_new :: "'a \<Rightarrow> 'a OList" where
  "OList_new x = \<lparr> ls_heap = (\<lambda>_. \<lparr> lc_obj = x, lc_next = None, lc_prev = None, lc_lock = False \<rparr>), ls_first = None, ls_last = None, ls_lock = False, ls_used = 0 \<rparr>"

definition upd_cont :: "nat \<Rightarrow> ('a ListContainer \<Rightarrow> 'a ListContainer) \<Rightarrow> 'a OList \<Rightarrow> 'a OList" where
  "upd_cont c f s = s \<lparr> ls_heap := (ls_heap s)(c := f (ls_heap s c)) \<rparr>"

definition upd_opt :: "nat option \<Rightarrow> ('a ListContainer \<Rightarrow> 'a ListContainer) \<Rightarrow> 'a OList \<Rightarrow> 'a OList" where
  "upd_opt p f s = (case p of None \<Rightarrow> s | Some c \<Rightarrow> upd_cont c f s)"

definition GetBegin :: "'a OList \<Rightarrow> nat option" where
  "GetBegin s = ls_first s"

definition GetNext :: "nat \<Rightarrow> 'a OList \<Rightarrow> nat option" where
  "GetNext c s = lc_next (ls_heap s c)"

definition OList_IsEmpty :: "'a OList \<Rightarrow> bool" where
  "OList_IsEmpty s \<longleftrightarrow> ls_first s = None"

section \<open>PushBack\<close>

definition SetFirst :: "nat \<Rightarrow> 'a OList \<Rightarrow> 'a OList kres" where
  "SetFirst c s = kbind (kassert (ls_first s = None)) (\<lambda>_. kbind (kassert (ls_last s = None)) (\<lambda>_.
     Inr (s \<lparr> ls_first := Some c, ls_last := Some c \<rparr>)))"

definition Link :: "nat \<Rightarrow> nat \<Rightarrow> 'a OList \<Rightarrow> 'a OList kres" where
  "Link c1 c2 s = (let
     tmp = lc_next (ls_heap s c1);
     s1 = upd_cont c1 (\<lambda>x. x \<lparr> lc_next := Some c2 \<rparr>) s;
     s2 = upd_cont c2 (\<lambda>x. x \<lparr> lc_next := tmp, lc_prev := Some c1 \<rparr>) s1
   in case tmp of None \<Rightarrow> Inr s2
      | Some t \<Rightarrow> kbind (kassert (lc_prev (ls_heap s2 t) = Some c1)) (\<lambda>_. Inr (upd_cont t (\<lambda>x. x \<lparr> lc_prev := Some c2 \<rparr>) s2)))"

text \<open>A new container holds the object; its links are null and its lock is free.\<close>

definition new_cont :: "'a \<Rightarrow> 'a OList \<Rightarrow> 'a OList" where
  "new_cont x s = s \<lparr> ls_heap := (ls_heap s)(ls_used s := \<lparr> lc_obj = x, lc_next = None, lc_prev = None, lc_lock = False \<rparr>),
     ls_used := ls_used s + 1 \<rparr>"

text \<open>One turn of the loop; \<open>None\<close> asks for another turn.\<close>

definition PushBack_turn :: "nat \<Rightarrow> 'a OList \<Rightarrow> 'a OList option kres" where
  "PushBack_turn c s = (if ls_lock s then Inr None
     else (case ls_first s of
         None \<Rightarrow> kmap Some (SetFirst c s)
       | Some _ \<Rightarrow> kbind (deref (ls_last s)) (\<lambda>l.
           if lc_lock (ls_heap s l) then Inr None
           else kmap (\<lambda>s1. Some (s1 \<lparr> ls_last := Some c \<rparr>)) (Link l c s))))"

definition PushBack :: "'a \<Rightarrow> 'a OList \<Rightarrow> (nat \<times> 'a OList) option kres" where
  "PushBack x s = kmap (map_option (Pair (ls_used s))) (PushBack_turn (ls_used s) (new_cont x s))"

section \<open>Remove\<close>

definition RemoveSub :: "nat \<Rightarrow> 'a OList \<Rightarrow> 'a OList" where
  "RemoveSub c s = (let
     nx = lc_next (ls_heap s c);
     pv = lc_prev (ls_heap s c);
     s1 = upd_cont c (\<lambda>x. x \<lparr> lc_next := None, lc_prev := None \<rparr>) s;
     s2 = upd_opt nx (\<lambda>x. x \<lparr> lc_prev := pv \<rparr>) s1
   in upd_opt pv (\<lambda>x. x \<lparr> lc_next := nx \<rparr>) s2)"

definition locked :: "nat option \<Rightarrow> 'a OList \<Rightarrow> bool" where
  "locked p s = (case p of None \<Rightarrow> False | Some c \<Rightarrow> lc_lock (ls_heap s c))"

definition set_lock :: "bool \<Rightarrow> 'a ListContainer \<Rightarrow> 'a ListContainer" where
  "set_lock b x = x \<lparr> lc_lock := b \<rparr>"

text \<open>The part of the turn that runs with all locks: the first and last references and the links.\<close>

definition Remove_ends :: "nat \<Rightarrow> 'a OList \<Rightarrow> 'a OList kres" where
  "Remove_ends c s = (let nx = lc_next (ls_heap s c); pv = lc_prev (ls_heap s c) in
     if ls_first s = Some c then
       (if nx = None then kbind (kassert (ls_last s = Some c)) (\<lambda>_. Inr (s \<lparr> ls_first := None, ls_last := None \<rparr>))
        else kbind (kassert (ls_last s \<noteq> Some c)) (\<lambda>_. Inr (s \<lparr> ls_first := nx \<rparr>)))
     else if ls_last s = Some c then kbind (kassert (pv \<noteq> None)) (\<lambda>_. Inr (s \<lparr> ls_last := pv \<rparr>))
     else Inr s)"

text \<open>
  One turn: the locks of the list and of the container are released when the turn ends without success, the lock of
  the next container is not. The result is the next container, or \<open>None\<close> for another turn.
\<close>

definition Remove_turn :: "nat \<Rightarrow> 'a OList \<Rightarrow> (nat option option \<times> 'a OList) kres" where
  "Remove_turn c s = (let nx = lc_next (ls_heap s c); pv = lc_prev (ls_heap s c) in
     if ls_lock s then Inr (None, s)
     else if lc_lock (ls_heap s c) then Inr (None, s)
     else if locked nx s then Inr (None, s)
     else let s1 = upd_opt nx (set_lock True) s in
     if locked pv s1 then Inr (None, s1)
     else let s2 = upd_opt pv (set_lock True) s1 in
     kmap (\<lambda>s3. (Some nx, upd_opt pv (set_lock False) (upd_opt nx (set_lock False) (RemoveSub c s3)))) (Remove_ends c s2))"

text \<open>The destructor removes containers from the front until none is left.\<close>

partial_function (option) OList_delete :: "nat option \<Rightarrow> 'a OList \<Rightarrow> 'a OList kres option" where
  "OList_delete iter s = (case iter of
     None \<Rightarrow> Some (Inr s)
   | Some c \<Rightarrow> (case Remove_turn c s of
       Inl e \<Rightarrow> Some (Inl e)
     | Inr (None, s1) \<Rightarrow> OList_delete iter s1
     | Inr (Some nx, s1) \<Rightarrow> OList_delete nx s1))"

section \<open>Representation\<close>

definition first_of :: "nat list \<Rightarrow> nat option \<Rightarrow> nat option" where
  "first_of xs n = (case xs of [] \<Rightarrow> n | x # _ \<Rightarrow> Some x)"

definition last_of :: "nat list \<Rightarrow> nat option \<Rightarrow> nat option" where
  "last_of xs p = (if xs = [] then p else Some (last xs))"

text \<open>The containers \<open>xs\<close> are linked to each other, to \<open>p\<close> in front and to \<open>n\<close> behind.\<close>

fun links :: "(nat \<Rightarrow> 'a ListContainer) \<Rightarrow> nat option \<Rightarrow> nat list \<Rightarrow> nat option \<Rightarrow> bool" where
  "links h p [] n \<longleftrightarrow> True"
| "links h p (x # xs) n \<longleftrightarrow> lc_prev (h x) = p \<and> lc_next (h x) = first_of xs n \<and> links h (Some x) xs n"

definition ls_repr :: "'a OList \<Rightarrow> nat list \<Rightarrow> bool" where
  "ls_repr s xs \<longleftrightarrow> distinct xs \<and> (\<forall>x \<in> set xs. x < ls_used s) \<and> links (ls_heap s) None xs None \<and>
     ls_first s = first_of xs None \<and> ls_last s = last_of xs None"

definition unlocked :: "'a OList \<Rightarrow> bool" where
  "unlocked s \<longleftrightarrow> \<not> ls_lock s \<and> (\<forall>c. \<not> lc_lock (ls_heap s c))"

definition objects :: "'a OList \<Rightarrow> nat list \<Rightarrow> 'a list" where
  "objects s xs = map (\<lambda>c. lc_obj (ls_heap s c)) xs"

lemma first_of_simps [simp]: "first_of [] n = n" "first_of (x # xs) n = Some x"
  by (simp_all add: first_of_def)

lemma last_of_simps [simp]: "last_of [] p = p" "last_of (x # xs) p = last_of xs (Some x)" "last_of (xs @ [x]) p = Some x"
  by (simp_all add: last_of_def)

lemma first_of_append: "first_of (xs @ ys) n = first_of xs (first_of ys n)"
  by (cases xs) simp_all

lemma last_of_append: "last_of (xs @ ys) p = last_of ys (last_of xs p)"
  by (induction xs arbitrary: p) simp_all

lemma links_append: "links h p (xs @ ys) n \<longleftrightarrow> links h p xs (first_of ys n) \<and> links h (last_of xs p) ys n"
  by (induction xs arbitrary: p) (auto simp: first_of_append)

lemma links_cong: "(\<And>x. x \<in> set xs \<Longrightarrow> lc_prev (h' x) = lc_prev (h x) \<and> lc_next (h' x) = lc_next (h x)) \<Longrightarrow> links h' p xs n = links h p xs n"
  by (induction xs arbitrary: p) auto

text \<open>Changing one end: only the last container knows what is behind it, only the first what is before it.\<close>

lemma links_next:
  assumes "links h p (xs @ [x]) n" and "x \<notin> set xs" and "\<And>y. y \<in> set xs \<Longrightarrow> lc_prev (h' y) = lc_prev (h y) \<and> lc_next (h' y) = lc_next (h y)"
    and "lc_prev (h' x) = lc_prev (h x)" and "lc_next (h' x) = n'"
  shows "links h' p (xs @ [x]) n'"
  using assms links_cong [of xs h' h p] by (simp add: links_append)

lemma links_prev:
  assumes "links h p (x # xs) n" and "\<And>y. y \<in> set xs \<Longrightarrow> lc_prev (h' y) = lc_prev (h y) \<and> lc_next (h' y) = lc_next (h y)"
    and "lc_prev (h' x) = p'" and "lc_next (h' x) = lc_next (h x)"
  shows "links h' p' (x # xs) n"
  using assms links_cong [of xs h' h "Some x"] by simp

section \<open>PushBack appends\<close>

lemma ls_reprD:
  assumes "ls_repr s (as @ c # bs)"
  shows "lc_next (ls_heap s c) = first_of bs None" and "lc_prev (ls_heap s c) = last_of as None"
    and "links (ls_heap s) None as (Some c)" and "links (ls_heap s) (Some c) bs None"
    and "c \<notin> set as" and "c \<notin> set bs" and "set as \<inter> set bs = {}" and "c < ls_used s"
  using assms by (auto simp: ls_repr_def links_append)

lemma PushBack_ok:
  assumes r: "ls_repr s xs" and u: "unlocked s"
  shows "\<exists>s'. PushBack x s = Inr (Some (ls_used s, s')) \<and> ls_repr s' (xs @ [ls_used s]) \<and> unlocked s' \<and>
    objects s' (xs @ [ls_used s]) = objects s xs @ [x]"
proof -
  define c where "c = ls_used s"
  have new: "c \<notin> set xs" using r by (auto simp: ls_repr_def c_def)
  show ?thesis
  proof (cases xs rule: rev_cases)
    case Nil
    then show ?thesis using r u
      by (simp add: PushBack_def PushBack_turn_def new_cont_def SetFirst_def ls_repr_def unlocked_def objects_def)
  next
    case (snoc ys l)
    have l: "lc_next (ls_heap s l) = None" "l \<noteq> c" "l \<notin> set ys" "l < ls_used s"
      using ls_reprD [of s ys l "[]"] r snoc new by (auto simp: c_def)
    have f: "\<exists>y. ls_first s = Some y" "ls_last s = Some l" using r snoc by (auto simp: ls_repr_def first_of_append split: list.splits) (cases ys; simp)
    define h where "h = (ls_heap s)(c := \<lparr> lc_obj = x, lc_next = None, lc_prev = Some l, lc_lock = False \<rparr>, l := (ls_heap s l) \<lparr> lc_next := Some c \<rparr>)"
    define s' where "s' = s \<lparr> ls_heap := h, ls_used := ls_used s + 1, ls_last := Some c \<rparr>"
    have "PushBack x s = Inr (Some (c, s'))"
      using f l u by (auto simp: PushBack_def PushBack_turn_def new_cont_def Link_def upd_cont_def unlocked_def s'_def h_def c_def fun_upd_twist)
    moreover have "links h None (ys @ [l]) (Some c)"
      using r snoc l new by (intro links_next [of "ls_heap s" None ys l None h]) (auto simp: ls_repr_def h_def)
    then have "links h None (xs @ [c]) None" using l snoc unfolding links_append by (auto simp: h_def links_append)
    then have "ls_repr s' (xs @ [c])"
      using r new snoc f by (auto simp: ls_repr_def s'_def c_def first_of_append last_of_append less_Suc_eq)
    moreover have "unlocked s'" using u by (auto simp: unlocked_def s'_def h_def)
    moreover have "objects s' (xs @ [c]) = objects s xs @ [x]"
      using new l snoc by (auto simp: objects_def s'_def h_def)
    ultimately show ?thesis by (auto simp: c_def)
  qed
qed

section \<open>Remove unlinks\<close>

text \<open>The heap behind a successful turn.\<close>

definition removed :: "nat \<Rightarrow> (nat \<Rightarrow> 'a ListContainer) \<Rightarrow> nat \<Rightarrow> 'a ListContainer" where
  "removed c h y = (h y) \<lparr> lc_next := (if y = c then None else if lc_prev (h c) = Some y then lc_next (h c) else lc_next (h y)),
     lc_prev := (if y = c then None else if lc_next (h c) = Some y then lc_prev (h c) else lc_prev (h y)), lc_lock := False \<rparr>"

lemma Remove_links:
  assumes r: "ls_repr s (as @ c # bs)"
  shows "links (removed c (ls_heap s)) None (as @ bs) None"
proof -
  note d = ls_reprD [OF r]
  define h where "h = ls_heap s"
  have nx: "lc_next (h c) = first_of bs None" and pv: "lc_prev (h c) = last_of as None" using d(1,2) by (simp_all add: h_def)
  have a: "links (removed c h) None as (first_of bs None)"
  proof (cases as rule: rev_cases)
    case (snoc ys l)
    show ?thesis unfolding snoc
    proof (rule links_next [of h None ys l "Some c"])
      fix y assume "y \<in> set ys"
      moreover have "l \<notin> set ys" using r snoc by (auto simp: ls_repr_def)
      moreover have "first_of bs None \<noteq> Some y" if "y \<in> set ys" for y using that d(7) snoc by (cases bs) auto
      ultimately show "lc_prev (removed c h y) = lc_prev (h y) \<and> lc_next (removed c h y) = lc_next (h y)"
        using nx pv d(5) snoc by (auto simp: removed_def)
    next
      have "first_of bs None \<noteq> Some l" using d(7) snoc by (cases bs) auto
      then show "lc_prev (removed c h l) = lc_prev (h l)" using nx d(5) snoc by (auto simp: removed_def)
    qed (use d(3) r snoc nx pv in \<open>auto simp: ls_repr_def h_def removed_def\<close>)
  qed simp
  have b: "links (removed c h) (last_of as None) bs None"
  proof (cases bs)
    case (Cons x zs)
    show ?thesis unfolding Cons
    proof (rule links_prev [of h "Some c"])
      fix y assume "y \<in> set zs"
      moreover have "x \<notin> set zs" using r Cons by (auto simp: ls_repr_def)
      moreover have "last_of as None \<noteq> Some y" if "y \<in> set zs" for y
        using that d(7) Cons last_in_set [of as] by (auto simp: last_of_def disjoint_iff split: if_splits)
      ultimately show "lc_prev (removed c h y) = lc_prev (h y) \<and> lc_next (removed c h y) = lc_next (h y)"
        using nx pv d(6) Cons by (auto simp: removed_def)
    next
      have "last_of as None \<noteq> Some x" using d(7) Cons by (auto simp: last_of_def split: if_splits)
      then show "lc_next (removed c h x) = lc_next (h x)" using pv d(6) Cons by (auto simp: removed_def)
    qed (use d(4) d(6) Cons nx pv in \<open>auto simp: h_def removed_def\<close>)
  qed simp
  show ?thesis using a b by (simp add: links_append h_def)
qed

lemma locked_unlocked: "unlocked s \<Longrightarrow> \<not> locked p s"
  by (cases p) (simp_all add: locked_def unlocked_def)

text \<open>Taking the locks of both neighbours, unlinking and releasing them again.\<close>

lemma Remove_heap:
  assumes "unlocked s" and "lc_next (ls_heap s c) = nx" and "lc_prev (ls_heap s c) = pv"
    and "nx \<noteq> Some c" and "pv \<noteq> Some c" and "nx = None \<or> nx \<noteq> pv"
  shows "upd_opt pv (set_lock False) (upd_opt nx (set_lock False) (RemoveSub c
     ((upd_opt pv (set_lock True) (upd_opt nx (set_lock True) s)) \<lparr> ls_first := f, ls_last := l \<rparr>))) =
     s \<lparr> ls_heap := removed c (ls_heap s), ls_first := f, ls_last := l \<rparr>"
proof -
  have lock: "\<And>y. lc_lock (ls_heap s y) = False" using assms(1) by (simp add: unlocked_def)
  show ?thesis
  proof (cases nx)
    case None
    then show ?thesis using assms lock
      by (cases pv) (auto simp: RemoveSub_def upd_opt_def upd_cont_def set_lock_def Let_def removed_def intro!: OList.equality ext ListContainer.equality split: if_splits)
  next
    case (Some n)
    then show ?thesis using assms lock
      by (cases pv) (auto simp: RemoveSub_def upd_opt_def upd_cont_def set_lock_def Let_def removed_def intro!: OList.equality ext ListContainer.equality split: if_splits)
  qed
qed

lemma upd_lock_simps:
  "lc_next (ls_heap (upd_opt p (set_lock b) s) y) = lc_next (ls_heap s y)"
  "lc_prev (ls_heap (upd_opt p (set_lock b) s) y) = lc_prev (ls_heap s y)"
  "ls_first (upd_opt p f s) = ls_first s" "ls_last (upd_opt p f s) = ls_last s"
  by (cases p; simp add: upd_opt_def upd_cont_def set_lock_def)+

lemma Remove_ends_ok:
  assumes "distinct (as @ c # bs)" and "ls_first s = first_of (as @ c # bs) None" and "ls_last s = last_of (as @ c # bs) None"
    and "lc_next (ls_heap s c) = first_of bs None" and "lc_prev (ls_heap s c) = last_of as None"
  shows "Remove_ends c s = Inr (s \<lparr> ls_first := first_of (as @ bs) None, ls_last := last_of (as @ bs) None \<rparr>)"
proof -
  have last: "last_of bs (Some c) = Some c \<longleftrightarrow> bs = []" using assms(1) last_in_set [of bs] by (auto simp: last_of_def)
  show ?thesis
  proof (cases as)
    case Nil
    then show ?thesis using assms last by (cases bs) (auto simp: Remove_ends_def Let_def)
  next
    case (Cons a ys)
    then have "ls_first s \<noteq> Some c" "last_of as None \<noteq> None" using assms(1,2) by (auto simp: last_of_def)
    moreover have "s \<lparr> ls_first := first_of (as @ bs) None \<rparr> = s" using assms(2) Cons by simp
    ultimately show ?thesis using assms last Cons
      by (cases bs) (auto simp: Remove_ends_def Let_def last_of_append intro!: OList.equality)
  qed
qed

lemma List_Remove_ok:
  assumes r: "ls_repr s (as @ c # bs)" and u: "unlocked s"
  shows "\<exists>s'. Remove_turn c s = Inr (Some (first_of bs None), s') \<and> ls_repr s' (as @ bs) \<and> unlocked s' \<and> ls_used s' = ls_used s \<and>
    (\<forall>y. lc_obj (ls_heap s' y) = lc_obj (ls_heap s y))"
proof -
  note d = ls_reprD [OF r]
  define s' where "s' = s \<lparr> ls_heap := removed c (ls_heap s), ls_first := first_of (as @ bs) None, ls_last := last_of (as @ bs) None \<rparr>"
  have ends: "ls_first s = first_of (as @ c # bs) None" "ls_last s = last_of (as @ c # bs) None" using r by (simp_all add: ls_repr_def)
  define s2 where "s2 = upd_opt (last_of as None) (set_lock True) (upd_opt (first_of bs None) (set_lock True) s)"
  have neq: "first_of bs None \<noteq> Some c" "last_of as None \<noteq> Some c" "first_of bs None = None \<or> first_of bs None \<noteq> last_of as None"
    using d(5,6,7) last_in_set [of as] by (cases bs; auto simp: last_of_def)+
  have "Remove_ends c s2 = Inr (s2 \<lparr> ls_first := first_of (as @ bs) None, ls_last := last_of (as @ bs) None \<rparr>)"
    using r d(1,2) ends by (intro Remove_ends_ok) (simp_all add: s2_def upd_lock_simps ls_repr_def)
  moreover have "\<not> locked (last_of as None) (upd_opt (first_of bs None) (set_lock True) s)"
    using neq(3) u by (cases "last_of as None"; cases "first_of bs None") (auto simp: locked_def upd_opt_def upd_cont_def unlocked_def)
  moreover have "\<not> ls_lock s" "\<not> lc_lock (ls_heap s c)" using u by (simp_all add: unlocked_def)
  ultimately have "Remove_turn c s = Inr (Some (first_of bs None), s')"
    using Remove_heap [OF u d(1,2) neq, where f = "first_of (as @ bs) None" and l = "last_of (as @ bs) None"] locked_unlocked [OF u] d(1,2)
    by (simp add: Remove_turn_def Let_def s2_def s'_def)
  moreover have "ls_repr s' (as @ bs)" using r Remove_links [OF r] by (auto simp: ls_repr_def s'_def)
  moreover have "unlocked s'" using u by (simp add: unlocked_def s'_def removed_def)
  ultimately show ?thesis by (auto simp: s'_def removed_def)
qed

section \<open>The list as a whole\<close>

datatype 'a ls_op = L_PushBack 'a | L_Remove nat

definition drop_at :: "nat \<Rightarrow> 'a list \<Rightarrow> 'a list" where
  "drop_at i xs = take i xs @ drop (Suc i) xs"

text \<open>A sequence of operations; a turn that asks for another one while nobody else runs would never end.\<close>

fun ls_exec :: "'a ls_op list \<Rightarrow> 'a OList \<times> nat list \<Rightarrow> ('a OList \<times> nat list) kres" where
  "ls_exec [] s = Inr s"
| "ls_exec (L_PushBack x # ops) (s, ids) = kbind (PushBack x s) (\<lambda>r. case r of None \<Rightarrow> Inl Deadlock
     | Some (c, s') \<Rightarrow> ls_exec ops (s', ids @ [c]))"
| "ls_exec (L_Remove i # ops) (s, ids) = kbind (Remove_turn (ids ! i) s) (\<lambda>r. case r of (None, _) \<Rightarrow> Inl Deadlock
     | (Some _, s') \<Rightarrow> ls_exec ops (s', drop_at i ids))"

fun list_exec :: "'a ls_op list \<Rightarrow> 'a list \<Rightarrow> 'a list" where
  "list_exec [] xs = xs"
| "list_exec (L_PushBack x # ops) xs = list_exec ops (xs @ [x])"
| "list_exec (L_Remove i # ops) xs = list_exec ops (drop_at i xs)"

fun ops_fit :: "'a ls_op list \<Rightarrow> nat \<Rightarrow> bool" where
  "ops_fit [] n \<longleftrightarrow> True"
| "ops_fit (L_PushBack x # ops) n \<longleftrightarrow> ops_fit ops (n + 1)"
| "ops_fit (L_Remove i # ops) n \<longleftrightarrow> i < n \<and> ops_fit ops (n - 1)"

text \<open>What an iteration with \<open>GetBegin\<close> and \<open>GetNext\<close> meets.\<close>

fun visits :: "'a OList \<Rightarrow> nat option \<Rightarrow> nat list \<Rightarrow> bool" where
  "visits s p [] \<longleftrightarrow> p = None"
| "visits s p (x # xs) \<longleftrightarrow> p = Some x \<and> visits s (GetNext x s) xs"

lemma links_visits: "links (ls_heap s) p xs None \<Longrightarrow> visits s (first_of xs None) xs"
  by (induction xs arbitrary: p) (auto simp: GetNext_def)

lemma ls_exec_ok:
  "ls_repr s ids \<Longrightarrow> unlocked s \<Longrightarrow> ops_fit ops (length ids) \<Longrightarrow>
   \<exists>s' ids'. ls_exec ops (s, ids) = Inr (s', ids') \<and> ls_repr s' ids' \<and> unlocked s' \<and> objects s' ids' = list_exec ops (objects s ids)"
proof (induction ops arbitrary: s ids)
  case (Cons op ops)
  show ?case
  proof (cases op)
    case (L_PushBack x)
    obtain s1 where s1: "PushBack x s = Inr (Some (ls_used s, s1))" "ls_repr s1 (ids @ [ls_used s])" "unlocked s1"
      "objects s1 (ids @ [ls_used s]) = objects s ids @ [x]"
      using PushBack_ok [OF Cons.prems(1,2)] by blast
    show ?thesis using Cons.IH [OF s1(2,3)] Cons.prems(3) s1 L_PushBack by simp
  next
    case (L_Remove i)
    then have i: "i < length ids" using Cons.prems(3) by simp
    have ids: "ids = take i ids @ ids ! i # drop (Suc i) ids" using i by (rule id_take_nth_drop)
    obtain s1 where s1: "Remove_turn (ids ! i) s = Inr (Some (first_of (drop (Suc i) ids) None), s1)" "ls_repr s1 (drop_at i ids)"
      "unlocked s1" "\<forall>y. lc_obj (ls_heap s1 y) = lc_obj (ls_heap s y)"
      using List_Remove_ok [of s "take i ids" "ids ! i" "drop (Suc i) ids"] Cons.prems(1,2) ids by (auto simp: drop_at_def)
    have "length (drop_at i ids) = length ids - 1" using i by (simp add: drop_at_def)
    moreover have "objects s1 (drop_at i ids) = drop_at i (objects s ids)"
      using s1(4) by (simp add: objects_def drop_at_def take_map drop_map)
    ultimately show ?thesis using Cons.IH [OF s1(2,3)] Cons.prems(3) s1(1) L_Remove by simp
  qed
qed auto

lemma OList_delete_ok:
  "ls_repr s xs \<Longrightarrow> unlocked s \<Longrightarrow> \<exists>s'. OList_delete (first_of xs None) s = Some (Inr s') \<and> ls_repr s' []"
proof (induction xs arbitrary: s)
  case Nil
  then show ?case by (auto simp: OList_delete.simps)
next
  case (Cons x xs)
  obtain s1 where s1: "Remove_turn x s = Inr (Some (first_of xs None), s1)" "ls_repr s1 xs" "unlocked s1"
    using List_Remove_ok [of s "[]" x xs] Cons.prems by auto
  show ?case using Cons.IH [OF s1(2,3)] s1(1) by (subst OList_delete.simps) simp
qed

text \<open>a list that only one processor works on holds, after any sequence of appends and removals, exactly the objects
  of the same sequence on a mathematical list, iteration visits them in order, no assertion fails and no operation
  waits for a lock forever; deleting the list ends and leaves it empty.\<close>

theorem List_refines_list:
  assumes "ops_fit ops 0"
  shows "\<exists>s ids s'. ls_exec ops (OList_new x0, []) = Inr (s, ids) \<and> objects s ids = list_exec ops [] \<and>
    visits s (GetBegin s) ids \<and> (OList_IsEmpty s \<longleftrightarrow> list_exec ops [] = []) \<and>
    OList_delete (GetBegin s) s = Some (Inr s') \<and> OList_IsEmpty s'"
proof -
  have "ls_repr (OList_new x0) []" "unlocked (OList_new x0)" by (simp_all add: ls_repr_def OList_new_def unlocked_def)
  from ls_exec_ok [OF this, of ops] assms obtain s ids where
    s: "ls_exec ops (OList_new x0, []) = Inr (s, ids)" "ls_repr s ids" "unlocked s" "objects s ids = list_exec ops []"
    by (auto simp: objects_def)
  have "GetBegin s = first_of ids None" "visits s (first_of ids None) ids"
    using s(2) links_visits by (auto simp: ls_repr_def GetBegin_def)
  moreover have "OList_IsEmpty s \<longleftrightarrow> list_exec ops [] = []"
    using s(2) by (cases ids) (auto simp: ls_repr_def OList_IsEmpty_def simp flip: s(4), auto simp: objects_def)
  moreover obtain s' where "OList_delete (first_of ids None) s = Some (Inr s')" "ls_repr s' []"
    using OList_delete_ok [OF s(2,3)] by blast
  ultimately show ?thesis using s by (auto simp: ls_repr_def OList_IsEmpty_def)
qed

theorem List_refines_list_witness:
  "\<exists>s ids. ls_exec [L_PushBack (5 :: nat), L_PushBack 6, L_PushBack 7, L_Remove 1] (OList_new 0, []) = Inr (s, ids) \<and> objects s ids = [5, 7]"
  using List_refines_list [of "[L_PushBack (5 :: nat), L_PushBack 6, L_PushBack 7, L_Remove 1]" 0] by (auto simp: drop_at_def)

text \<open>\<open>Remove\<close> of a container between two others, tried while another processor holds the lock of the previous one,
  starts over without releasing the lock of the next one. From then on every turn fails on that lock, also when the
  other processor has long released its own: the loop never ends and the next container stays locked.\<close>

theorem Remove_leaks_lock:
  assumes "ls_repr s (as @ [a, c, b] @ bs)" and "\<not> ls_lock s" and "\<not> lc_lock (ls_heap s c)" and "\<not> lc_lock (ls_heap s b)"
    and "lc_lock (ls_heap s a)"
  shows "\<exists>s1. Remove_turn c s = Inr (None, s1) \<and> lc_lock (ls_heap s1 b) \<and>
    (let s2 = upd_cont a (set_lock False) s1 in Remove_turn c s2 = Inr (None, s2))"
proof -
  have r: "ls_repr s ((as @ [a]) @ c # b # bs)" using assms(1) by simp
  note d = ls_reprD [OF r]
  define s1 where "s1 = upd_cont b (set_lock True) s"
  have n: "a \<noteq> b" "c \<noteq> b" "a \<noteq> c" using d(5,6,7) by auto
  have "Remove_turn c s = Inr (None, s1)"
    using assms d(1,2) n by (simp add: Remove_turn_def Let_def locked_def upd_opt_def s1_def upd_cont_def)
  moreover have "lc_lock (ls_heap s1 b)" by (simp add: s1_def upd_cont_def set_lock_def)
  moreover have "Remove_turn c (upd_cont a (set_lock False) s1) = Inr (None, upd_cont a (set_lock False) s1)"
    using assms d(1,2) n by (simp add: Remove_turn_def Let_def locked_def s1_def upd_cont_def set_lock_def)
  ultimately show ?thesis by (simp add: Let_def)
qed

definition list_demo :: "nat OList" where
  "list_demo = \<lparr> ls_heap = (\<lambda>c. if c = 0 then \<lparr> lc_obj = 5, lc_next = Some 1, lc_prev = None, lc_lock = True \<rparr>
       else if c = 1 then \<lparr> lc_obj = 6, lc_next = Some 2, lc_prev = Some 0, lc_lock = False \<rparr>
       else \<lparr> lc_obj = 7, lc_next = None, lc_prev = Some 1, lc_lock = False \<rparr>),
     ls_first = Some 0, ls_last = Some 2, ls_lock = False, ls_used = 3 \<rparr>"

theorem Remove_leaks_lock_witness:
  "\<exists>s1. Remove_turn 1 list_demo = Inr (None, s1) \<and> lc_lock (ls_heap s1 2)"
  using Remove_leaks_lock [of list_demo "[]" 0 1 2 "[]"] by (auto simp: list_demo_def ls_repr_def)

end
