(* ===== verification/Loader.thy ===== *)
theory Loader
  imports Virt_Mem
begin

unbundle bit_operations_syntax

text \<open>
  The loader of \<open>arch/hw/arch_loader.h\<close>, which gives a program its memory, and accesses to memory through the page tables. The contract of the loader is the locale
  \<open>loader_interface\<close>: a mapped address stays where it is, and new addresses lead to different bytes of memory that was free.
\<close>

section \<open>Memory behind the page tables\<close>

text \<open>The page tables with the physical memory they are taken from, and the bytes of the memory. An access to an address that is not mapped is \<open>Out_Of_Range\<close>.\<close>

record Machine =
  ma_pg :: "PhysmemCtrl PagingCtrl"
  ma_ram :: "u64 \<Rightarrow> u8"

definition vread :: "Machine \<Rightarrow> u64 \<Rightarrow> u8 option" where
  "vread m v = map_option (ma_ram m) (translate (ma_pg m) v)"

definition vwrite :: "u64 \<Rightarrow> u8 \<Rightarrow> Machine \<Rightarrow> Machine kres" where
  "vwrite v x m = (case translate (ma_pg m) v of None \<Rightarrow> Inl Out_Of_Range | Some p \<Rightarrow> Inr (m \<lparr> ma_ram := (ma_ram m)(p := x) \<rparr>))"

fun vwrites :: "u64 \<Rightarrow> u8 list \<Rightarrow> Machine \<Rightarrow> Machine kres" where
  "vwrites v [] m = Inr m"
| "vwrites v (x # xs) m = kbind (vwrite v x m) (vwrites (v + 1) xs)"

lemma vwrites_mapped:
  "(\<And>k. k < length xs \<Longrightarrow> translate (ma_pg m) (v + of_nat k) \<noteq> None) \<Longrightarrow> \<exists>m'. vwrites v xs m = Inr m' \<and> ma_pg m' = ma_pg m"
proof (induction xs arbitrary: v m)
  case (Cons x xs)
  obtain p where p: "translate (ma_pg m) v = Some p" using Cons.prems [of 0] by auto
  have "\<exists>m'. vwrites (v + 1) xs (m \<lparr> ma_ram := (ma_ram m)(p := x) \<rparr>) = Inr m' \<and> ma_pg m' = ma_pg (m \<lparr> ma_ram := (ma_ram m)(p := x) \<rparr>)"
  proof (rule Cons.IH)
    show "translate (ma_pg (m \<lparr> ma_ram := (ma_ram m)(p := x) \<rparr>)) (v + 1 + of_nat k) \<noteq> None" if "k < length xs" for k
      using Cons.prems [of "Suc k"] that by (simp add: add.assoc)
  qed
  then show ?case by (simp add: vwrite_def p)
qed simp

section \<open>The loader\<close>

text \<open>The result of the mapping functions is not looked at.\<close>

definition Loader_MapAddr :: "u64 \<Rightarrow> u64 \<Rightarrow> u64 \<Rightarrow> Machine \<Rightarrow> Machine kres" where
  "Loader_MapAddr mem_end start e m = (let start = RoundAddrOnPageBoundary start; e = RoundUpAddrOnPageBoundary e; psize = ConvertNumToPageSize (e - start); pg = ma_pg m in
     kbind (Alloc mem_end (physmem pg) PhysAddr_new psize) (\<lambda>(paddr, s).
     kbind (MapPhysAddrToVirtAddr (page_alloc mem_end) (pg \<lparr> physmem := s \<rparr>) start paddr psize (WRITE_BIT OR USER_BIT) (WRITE_BIT OR GLOBAL_BIT OR USER_BIT))
       (\<lambda>(_, pg'). Inr (m \<lparr> ma_pg := pg' \<rparr>))))"

definition Loader_Map1GAddr :: "u64 \<Rightarrow> u64 \<Rightarrow> Machine \<Rightarrow> Machine kres" where
  "Loader_Map1GAddr mem_end start m = (let pg = ma_pg m in
     kbind (kassert (start mod 0x40000000 = 0)) (\<lambda>_.
     kbind (AllocAligned mem_end (physmem pg) PhysAddr_new 0x40000000 0x40000000) (\<lambda>(paddr, s).
     kbind (Map1GPageToVirtAddr (page_alloc mem_end) (pg \<lparr> physmem := s \<rparr>) start paddr (WRITE_BIT OR USER_BIT) (WRITE_BIT OR GLOBAL_BIT OR USER_BIT))
       (\<lambda>(_, pg'). Inr (m \<lparr> ma_pg := pg' \<rparr>)))))"

section \<open>What mapping adds\<close>

context page_allocator
begin

lemma ensure_table_in_use:
  assumes "pinv (physmem pg)" and "ensure_table alloc p i f pg = Inr (e, pg')"
  shows "pinv (physmem pg') \<and> in_use (physmem pg) \<subseteq> in_use (physmem pg')"
proof (cases "tables pg p i AND PRESENT_BIT = 0")
  case True
  then obtain a s where "alloc (physmem pg) = Inr (a, s)" "physmem pg' = s"
    using assms(2) by (auto simp: ensure_table_def Let_def kbind_eq_Inr write_entry_def bzero_page_def split: prod.splits)
  then show ?thesis using alloc_inv [OF assms(1)] alloc_in_use [OF assms(1)] by auto
qed (use assms in \<open>auto simp: ensure_table_def Let_def\<close>)

lemma Map4K_in_use:
  assumes "pinv (physmem pg)" and "Map4KPageToVirtAddr alloc pg v p f g = Inr (done, pg')"
  shows "in_use (physmem pg) \<subseteq> in_use (physmem pg')"
proof -
  obtain e3 pg1 e2 pg2 where a: "ensure_table alloc (pml4t pg) (GetPML4TIndex v) f pg = Inr (e3, pg1)"
    "ensure_table alloc (e3 AND addr_mask) (GetPDPTIndex v) f pg1 = Inr (e2, pg2)"
    and b: "pg' = pg2 \<or> (\<exists>e1 pg3. ensure_table alloc (e2 AND addr_mask) (GetPDIndex v) f pg2 = Inr (e1, pg3) \<and> physmem pg' = physmem pg3)"
    using Map4K_ends [OF assms(2)] by (auto simp: write_entry_def)
  have 1: "pinv (physmem pg1)" "in_use (physmem pg) \<subseteq> in_use (physmem pg1)" using ensure_table_in_use [OF assms(1) a(1)] by auto
  have 2: "pinv (physmem pg2)" "in_use (physmem pg1) \<subseteq> in_use (physmem pg2)" using ensure_table_in_use [OF 1(1) a(2)] by auto
  from b show ?thesis
  proof
    assume "\<exists>e1 pg3. ensure_table alloc (e2 AND addr_mask) (GetPDIndex v) f pg2 = Inr (e1, pg3) \<and> physmem pg' = physmem pg3"
    then have "in_use (physmem pg2) \<subseteq> in_use (physmem pg')" using ensure_table_in_use [OF 2(1)] by metis
    then show ?thesis using 1(2) 2(2) by blast
  qed (use 1(2) 2(2) in blast)
qed

text \<open>Every translation that a run of \<open>map_pages\<close> adds leads to the frame at the same place of the block.\<close>

lemma map_pages_new:
  assumes "paging_inv pinv in_use L pg" and fl: "pst_flags f" "page_flags g"
    and "\<And>k. k < n \<Longrightarrow> page_address (addr + of_nat k * kPageSize)"
    and "map_pages alloc n pg v addr f g = Inr (done, pg')"
  shows "translate pg' w = Some x \<Longrightarrow> translate pg w = Some x \<or>
      (\<exists>k < n. same_page (v + of_nat k * kPageSize) w \<and> x = (addr + of_nat k * kPageSize) OR Get4KPageOffset w)"
    and "in_use (physmem pg) \<subseteq> in_use (physmem pg')"
proof -
  have "(translate pg' w = Some x \<longrightarrow> translate pg w = Some x \<or>
      (\<exists>k < n. same_page (v + of_nat k * kPageSize) w \<and> x = (addr + of_nat k * kPageSize) OR Get4KPageOffset w)) \<and>
      in_use (physmem pg) \<subseteq> in_use (physmem pg')"
    using assms(1,4,5)
  proof (induction n arbitrary: pg v addr L)
    case (Suc n)
    let ?p = "\<lparr> pa_is_initialized = True, pa_addr = addr \<rparr>"
    obtain ok pg1 where run: "Map4KPageToVirtAddr alloc pg v ?p f g = Inr (ok, pg1)"
      and rest: "if \<not> ok then done = False \<and> pg' = pg1 else map_pages alloc n pg1 (v + kPageSize) (addr + kPageSize) f g = Inr (done, pg')"
      using Suc.prems(3) by (auto simp: kbind_eq_Inr split: if_splits)
    have pa: "page_address (pa_addr ?p)" using Suc.prems(2) [of 0] by simp
    note m = Map4K_ok [OF Suc.prems(1) fl pa run]
    have use1: "in_use (physmem pg) \<subseteq> in_use (physmem pg1)" using Map4K_in_use [OF _ run] Suc.prems(1) by (simp add: paging_inv_def)
    show ?case
    proof (cases ok)
      case True
      obtain L1 where L1: "paging_inv pinv in_use L1 pg1" using m(1) by blast
      have "(translate pg' w = Some x \<longrightarrow> translate pg1 w = Some x \<or>
          (\<exists>k < n. same_page (v + kPageSize + of_nat k * kPageSize) w \<and> x = (addr + kPageSize + of_nat k * kPageSize) OR Get4KPageOffset w)) \<and>
          in_use (physmem pg1) \<subseteq> in_use (physmem pg')"
      proof (rule Suc.IH [OF L1])
        show "page_address (addr + kPageSize + of_nat k * kPageSize)" if "k < n" for k using Suc.prems(2) [of "Suc k"] that by (simp add: algebra_simps)
      qed (use rest True in simp)
      moreover have "\<exists>l < Suc n. same_page (v + of_nat l * kPageSize) w \<and> x = (addr + of_nat l * kPageSize) OR Get4KPageOffset w"
        if "k < n" "same_page (v + kPageSize + of_nat k * kPageSize) w" "x = (addr + kPageSize + of_nat k * kPageSize) OR Get4KPageOffset w" for k
        using that by (intro exI [of _ "Suc k"]) (simp add: algebra_simps)
      moreover have "translate pg1 w = Some x \<Longrightarrow> translate pg w = Some x \<or> same_page v w \<and> x = addr OR Get4KPageOffset w" using m(3) [of w] by (auto split: if_splits)
      ultimately show ?thesis using use1 by (auto intro: exI [of _ 0])
    next
      case False
      then show ?thesis using rest m(3) [of w] use1 by auto
    qed
  qed simp
  then show "translate pg' w = Some x \<Longrightarrow> translate pg w = Some x \<or>
      (\<exists>k < n. same_page (v + of_nat k * kPageSize) w \<and> x = (addr + of_nat k * kPageSize) OR Get4KPageOffset w)"
    "in_use (physmem pg) \<subseteq> in_use (physmem pg')" by blast+
qed

end

section \<open>Addresses of programs\<close>

text \<open>Below \<open>2^47\<close> an address is given by its page and its offset.\<close>

lemma index_nat: "unat (drop_bit k a AND 511) = unat a div 2 ^ k mod 512" for a :: u64
proof -
  have "drop_bit k a AND 511 = take_bit 9 (drop_bit k a)" by (simp add: take_bit_eq_mask mask_eq_exp_minus_1)
  moreover have "take_bit 64 (unat a) = unat a" using unsigned_less [of a, where ?'a = nat] by (intro take_bit_nat_eq_self) simp
  ultimately have "unat (drop_bit k a AND 511) = take_bit 9 (drop_bit k (unat a))" by (simp add: unsigned_take_bit_eq unsigned_drop_bit_eq)
  then show ?thesis by (simp add: take_bit_eq_mod drop_bit_eq_div)
qed

lemma page_indices: "GetPTIndex a = unat a div 4096 mod 512" "GetPDIndex a = unat a div 4096 div 512 mod 512" "GetPDPTIndex a = unat a div 4096 div 512 div 512 mod 512"
    "GetPML4TIndex a = unat a div 4096 div 512 div 512 div 512 mod 512"
  by (simp_all add: GetPTIndex_def GetPDIndex_def GetPDPTIndex_def GetPML4TIndex_def index_nat div_mult2_eq [symmetric])

lemma page_index:
  assumes "unat a < 2 ^ 47"
  shows "unat a div 4096 = GetPTIndex a + 512 * (GetPDIndex a + 512 * (GetPDPTIndex a + 512 * GetPML4TIndex a))"
proof -
  let ?q = "unat a div 4096"
  have "unat a div (4096 * 512 * 512 * 512) < 512" using assms by (intro less_mult_imp_div_less) simp
  then have "?q div 512 div 512 div 512 mod 512 = ?q div 512 div 512 div 512" by (simp add: div_mult2_eq [symmetric])
  moreover have "?q = ?q mod 512 + 512 * (?q div 512 mod 512 + 512 * (?q div 512 div 512 mod 512 + 512 * (?q div 512 div 512 div 512)))" by simp
  ultimately show ?thesis unfolding page_indices by simp
qed

lemma same_page_page:
  assumes "same_page v w" "same_page v w'" "unat w < 2 ^ 47" "unat w' < 2 ^ 47"
  shows "unat w div 4096 = unat w' div 4096"
  using page_index [OF assms(3)] page_index [OF assms(4)] assms(1,2) by (simp add: same_page_def)

lemma frame_byte:
  assumes "page_address p"
  shows "unat (p OR Get4KPageOffset w) = unat p + unat w mod 4096" "4096 dvd unat p"
proof -
  have o: "unat (Get4KPageOffset w) = unat w mod 4096"
  proof -
    have "Get4KPageOffset w = take_bit 12 w" by (simp add: Get4KPageOffset_def take_bit_eq_mask mask_eq_exp_minus_1)
    then show ?thesis by (simp add: take_bit_eq_mod unat_mod)
  qed
  have low: "\<not> bit p n" if "n < 12" for n
  proof -
    have "bit p n \<longleftrightarrow> bit (p AND addr_mask) n" using assms by (simp add: page_address_def)
    then show ?thesis using that addr_mask_bits [of n] by (simp add: bit_and_iff)
  qed
  then have "take_bit 12 p = 0" by (intro bit_eqI) (simp add: bit_take_bit_iff)
  then have "take_bit 12 (unat p) = 0" by (metis unsigned_take_bit_eq unsigned_0)
  then show d: "4096 dvd unat p" by (simp add: take_bit_eq_mod dvd_eq_mod_eq_0)
  have "p AND Get4KPageOffset w = 0"
  proof (rule bit_eqI)
    fix n
    have "bit (0xFFF :: u64) n \<longleftrightarrow> n < 12" using bit_mask_iff [where ?'a = "64 word", of 12 n] by (auto simp: mask_eq_exp_minus_1)
    then show "bit (p AND Get4KPageOffset w) n = bit (0 :: u64) n" using low by (auto simp: Get4KPageOffset_def bit_and_iff)
  qed
  then have "p OR Get4KPageOffset w = p + Get4KPageOffset w" by (simp add: disjunctive_add_eq_or)
  moreover have "unat p + unat w mod 4096 < 2 ^ 64"
  proof -
    obtain k where k: "unat p = 4096 * k" using d by (auto simp: dvd_def)
    then have "k < 2 ^ 52" using unsigned_less [of p, where ?'a = nat] by simp
    then have "4096 * k + 4096 \<le> 2 ^ 64" by simp
    moreover have "unat w mod 4096 < 4096" by simp
    ultimately show ?thesis using k by linarith
  qed
  ultimately show "unat (p OR Get4KPageOffset w) = unat p + unat w mod 4096" using o by (simp add: unat_plus_no_wrap)
qed

text \<open>The bytes of a block of frames, and that different addresses get different ones\<close>

lemma block_bytes:
  assumes p: "\<And>k. k < n \<Longrightarrow> page_address (addr + of_nat k * kPageSize)" and sz: "unat sz = 4096 * n" and wrap: "addr < addr + sz" and k: "k < n"
    and x: "x = (addr + of_nat k * kPageSize) OR Get4KPageOffset w"
  shows "unat x = unat addr + 4096 * k + unat w mod 4096" "x \<in> {addr..<addr + sz}"
proof -
  have s: "unat (addr + sz) = unat addr + unat sz"
    using wrap unsigned_less [of sz, where ?'a = nat] by (simp add: word_less_nat_alt unat_plus_if' split: if_splits)
  have kn: "4096 * k + 4096 \<le> unat sz" using k sz by simp
  have top: "unat addr + unat sz < 2 ^ 64" using s unsigned_less [of "addr + sz", where ?'a = nat] by simp
  have kw: "unat (of_nat k * kPageSize :: u64) = 4096 * k"
  proof -
    have "4096 * k < 2 ^ 64" using kn top by linarith
    then show ?thesis by (simp add: kPageSize_def unat_word_ariths unat_of_nat mult.commute)
  qed
  have a: "unat (addr + of_nat k * kPageSize) = unat addr + 4096 * k" using kn top by (subst unat_plus_no_wrap) (simp_all add: kw)
  show u: "unat x = unat addr + 4096 * k + unat w mod 4096" unfolding x frame_byte(1) [OF p [OF k]] a ..
  have "unat w mod 4096 < 4096" by simp
  then show "x \<in> {addr..<addr + sz}" using u s kn by (simp add: word_le_nat_alt word_less_nat_alt)
qed

section \<open>The contract of the loader\<close>

locale loader_interface =
  fixes mapaddr :: "u64 \<Rightarrow> u64 \<Rightarrow> Machine \<Rightarrow> Machine kres"
    and good :: "Machine \<Rightarrow> bool"
    and own :: "Machine \<Rightarrow> u64 set"
  assumes map_keeps: "good m \<Longrightarrow> unat s < unat e \<Longrightarrow> unat e \<le> 2 ^ 47 \<Longrightarrow> mapaddr s e m = Inr m' \<Longrightarrow>
      good m' \<and> ma_ram m' = ma_ram m \<and> own m \<subseteq> own m' \<and> (\<forall>w x. translate (ma_pg m) w = Some x \<longrightarrow> translate (ma_pg m') w = Some x)"
    and map_fresh: "good m \<Longrightarrow> unat s < unat e \<Longrightarrow> unat e \<le> 2 ^ 47 \<Longrightarrow> mapaddr s e m = Inr m' \<Longrightarrow>
      translate (ma_pg m) w = None \<Longrightarrow> translate (ma_pg m') w = Some x \<Longrightarrow> x \<in> own m' - own m"
    and map_inj: "good m \<Longrightarrow> unat s < unat e \<Longrightarrow> unat e \<le> 2 ^ 47 \<Longrightarrow> mapaddr s e m = Inr m' \<Longrightarrow> unat w < 2 ^ 47 \<Longrightarrow> unat w' < 2 ^ 47 \<Longrightarrow>
      translate (ma_pg m) w = None \<Longrightarrow> translate (ma_pg m) w' = None \<Longrightarrow> translate (ma_pg m') w = Some x \<Longrightarrow> translate (ma_pg m') w' = Some x \<Longrightarrow> w = w'"
    and ram_good: "good m \<Longrightarrow> good (m \<lparr> ma_ram := r \<rparr>)"
    and ram_own: "own (m \<lparr> ma_ram := r \<rparr>) = own m"

text \<open>The loader of the kernel keeps it: \<open>MapAddr\<close> takes a fresh block and maps it page by page, whether or not it gets to the end.\<close>

definition machine_ok :: "u64 \<Rightarrow> Machine \<Rightarrow> bool" where
  "machine_ok mem_end m \<longleftrightarrow> (\<exists>L. kernel_paging_inv mem_end L (ma_pg m))"

definition machine_own :: "Machine \<Rightarrow> u64 set" where
  "machine_own m = owned (allocated_area (physmem (ma_pg m)))"

lemma map_size:
  assumes "unat s < unat e" "unat e \<le> 2 ^ 47"
  shows "unat (ConvertNumToPageSize (RoundUpAddrOnPageBoundary e - RoundAddrOnPageBoundary s)) \<le> 2 ^ 47"
proof -
  let ?s = "align s kPageSize" and ?e = "alignUp e kPageSize"
  have r: "RoundAddrOnPageBoundary s = ?s" "RoundUpAddrOnPageBoundary e = ?e" "\<And>n. ConvertNumToPageSize n = alignUp n kPageSize"
    by (simp_all add: RoundAddrOnPageBoundary_def RoundUpAddrOnPageBoundary_def ConvertNumToPageSize_def align_def alignUp_def)
  have k: "unat kPageSize = 4096" by (simp add: kPageSize_def)
  have "(unat e + 4095) div 4096 \<le> (2 ^ 47 + 4095) div 4096" using assms(2) by (intro div_le_mono) simp
  then have ue: "unat ?e \<le> 2 ^ 47" using unat_alignUp [of kPageSize e] k assms(2) by simp
  have "unat ?s \<le> unat ?e" using align_le [of s kPageSize] alignUp_ge(1) [of kPageSize e] k assms by simp
  then have d: "unat (?e - ?s) = unat ?e - unat ?s" by (simp add: unat_sub word_le_nat_alt)
  have "(unat (?e - ?s) + 4095) div 4096 \<le> (2 ^ 47 + 4095) div 4096" using ue d by (intro div_le_mono) simp
  then show ?thesis unfolding r using unat_alignUp [of kPageSize "?e - ?s"] k ue d by simp
qed

lemma MapAddr_block:
  assumes ok: "machine_ok mem_end m" and se: "unat s < unat e" "unat e \<le> 2 ^ 47" and run: "Loader_MapAddr mem_end s e m = Inr m'"
  obtains n addr sz v where "machine_ok mem_end m'" "ma_ram m' = ma_ram m" "\<And>w x. translate (ma_pg m) w = Some x \<Longrightarrow> translate (ma_pg m') w = Some x"
    "\<And>k. k < n \<Longrightarrow> page_address (addr + of_nat k * kPageSize)" "unat sz = 4096 * n" "addr < addr + sz"
    "machine_own m \<inter> {addr..<addr + sz} = {}" "machine_own m \<union> {addr..<addr + sz} \<subseteq> machine_own m'"
    "\<And>w x. translate (ma_pg m') w = Some x \<Longrightarrow> translate (ma_pg m) w = Some x \<or>
      (\<exists>k < n. same_page (v + of_nat k * kPageSize) w \<and> x = (addr + of_nat k * kPageSize) OR Get4KPageOffset w)"
proof -
  let ?pg = "ma_pg m" and ?v = "RoundAddrOnPageBoundary s"
  define sz where "sz = ConvertNumToPageSize (RoundUpAddrOnPageBoundary e - ?v)"
  obtain L where L: "kernel_paging_inv mem_end L ?pg" using ok by (auto simp: machine_ok_def)
  obtain p s1 d pg' where a: "AllocSub mem_end (physmem ?pg) PhysAddr_new sz \<lparr> opt_align = 1, non_recursive = False \<rparr> = Inr (p, s1)"
    and mp: "MapPhysAddrToVirtAddr (page_alloc mem_end) (?pg \<lparr> physmem := s1 \<rparr>) ?v p sz (WRITE_BIT OR USER_BIT) (WRITE_BIT OR GLOBAL_BIT OR USER_BIT) = Inr (d, pg')"
    and m': "m' = m \<lparr> ma_pg := pg' \<rparr>"
    using run by (auto simp: Loader_MapAddr_def Alloc_def Let_def kbind_eq_Inr sz_def)
  have szb: "unat sz \<le> 0xffe0000000000000" using map_size [OF se] by (simp add: sz_def)
  note al = alloc_block_ok [OF L a szb]
  let ?n = "unat (sz div kPageSize)"
  have rp: "map_pages (page_alloc mem_end) ?n (?pg \<lparr> physmem := s1 \<rparr>) ?v (pa_addr p) (WRITE_BIT OR USER_BIT) (WRITE_BIT OR GLOBAL_BIT OR USER_BIT) = Inr (d, pg')"
    and sa: "sz = align sz kPageSize"
    using mp by (auto simp: MapPhysAddrToVirtAddr_def kbind_eq_Inr PhysAddr_GetAddr_def)
  have "unat kPageSize = 4096" by (simp add: kPageSize_def)
  then have usz: "unat sz = 4096 * ?n" using sa unat_align [of sz kPageSize] by (simp add: unat_div)
  note ok1 = pages.map_pages_ok(1,2) [OF al(1) kernel_flags(1,3) al(3) rp] and new = pages.map_pages_new [OF al(1) kernel_flags(1,3) al(3) rp]
  show thesis
  proof (rule that [of ?n "pa_addr p" sz ?v])
    show "machine_ok mem_end m'" using ok1(1) m' by (simp add: machine_ok_def)
    show "machine_own m \<inter> {pa_addr p..<pa_addr p + sz} = {}" using al(4) by (simp add: machine_own_def)
    show "machine_own m \<union> {pa_addr p..<pa_addr p + sz} \<subseteq> machine_own m'" using new(2) al(5) m' by (simp add: machine_own_def)
  qed (use ok1(2) new(1) m' usz al(3,6) in simp_all)
qed

interpretation hw: loader_interface "Loader_MapAddr mem_end" "machine_ok mem_end" machine_own for mem_end
proof
  fix m s e m' w w' x r
  assume a: "machine_ok mem_end m" "unat s < unat e" "unat e \<le> 2 ^ 47" "Loader_MapAddr mem_end s e m = Inr m'"
  obtain n addr sz v where b: "machine_ok mem_end m'" "ma_ram m' = ma_ram m" "\<And>w x. translate (ma_pg m) w = Some x \<Longrightarrow> translate (ma_pg m') w = Some x"
    and p: "\<And>k. k < n \<Longrightarrow> page_address (addr + of_nat k * kPageSize)" "unat sz = 4096 * n" "addr < addr + sz"
    and o: "machine_own m \<inter> {addr..<addr + sz} = {}" "machine_own m \<union> {addr..<addr + sz} \<subseteq> machine_own m'"
    and n: "\<And>w x. translate (ma_pg m') w = Some x \<Longrightarrow> translate (ma_pg m) w = Some x \<or>
      (\<exists>k < n. same_page (v + of_nat k * kPageSize) w \<and> x = (addr + of_nat k * kPageSize) OR Get4KPageOffset w)"
    by (rule MapAddr_block [OF a]) blast
  show "machine_ok mem_end m' \<and> ma_ram m' = ma_ram m \<and> machine_own m \<subseteq> machine_own m' \<and> (\<forall>w x. translate (ma_pg m) w = Some x \<longrightarrow> translate (ma_pg m') w = Some x)"
    using b o(2) by blast
  show "x \<in> machine_own m' - machine_own m" if t: "translate (ma_pg m) w = None" "translate (ma_pg m') w = Some x"
  proof -
    obtain k where k: "k < n" "x = (addr + of_nat k * kPageSize) OR Get4KPageOffset w" using n [OF t(2)] t(1) by auto
    show ?thesis using block_bytes(2) [OF p k] o by blast
  qed
  show "w = w'" if u: "unat w < 2 ^ 47" "unat w' < 2 ^ 47" and t: "translate (ma_pg m) w = None" "translate (ma_pg m) w' = None"
    "translate (ma_pg m') w = Some x" "translate (ma_pg m') w' = Some x"
  proof -
    obtain k where k: "k < n" "same_page (v + of_nat k * kPageSize) w" "x = (addr + of_nat k * kPageSize) OR Get4KPageOffset w" using n [OF t(3)] t(1) by auto
    obtain l where l: "l < n" "same_page (v + of_nat l * kPageSize) w'" "x = (addr + of_nat l * kPageSize) OR Get4KPageOffset w'" using n [OF t(4)] t(2) by auto
    have eq: "4096 * k + unat w mod 4096 = 4096 * l + unat w' mod 4096" using block_bytes(1) [OF p k(1,3)] block_bytes(1) [OF p l(1,3)] by simp
    have "k = (4096 * k + unat w mod 4096) div 4096" "l = (4096 * l + unat w' mod 4096) div 4096" by simp_all
    then have kl: "k = l" "unat w mod 4096 = unat w' mod 4096" using eq by auto
    then have "unat w div 4096 = unat w' div 4096" using same_page_page [OF k(2) _ u] l(2) by simp
    then have "unat w = unat w'" using kl(2) by (metis mult_div_mod_eq)
    then show ?thesis by (simp add: word_unat_eq_iff)
  qed
qed (simp_all add: machine_ok_def machine_own_def)

end
