(* ===== verification/Udp_Ctrl.thy ===== *)
theory Udp_Ctrl
  imports Net_Dev Net_Checksum Object_List Tty_Print Loader
begin

text \<open>
  The UDP support of the kernel (\<open>udp.cc\<close>, \<open>udp.h\<close>) with the ARP table it uses
  (\<open>arp.h\<close>, a \<open>List\<close> of entries) and the arrays of \<open>array.h\<close>. \<open>Udp_Send\<close> builds a frame
  byte by byte in a local buffer of 1518 bytes; \<open>udp_server\<close> is the callback
  that \<open>SetupServer\<close> installs on a device: it answers ARP requests, learns from
  ARP replies and prints the data of UDP datagrams. The local buffer, the
  random numbers of the identification field and the hardware address that a
  driver reports are arguments. The server stores the addresses of a datagram
  through a null pointer: these stores go through the page tables, from which
  \<open>ReleaseLowMemory\<close> has removed the address at boot.
\<close>

section \<open>ARP table\<close>

record ArpEntry =
  ae_ip_addr :: u32
  ae_hw_addr :: bytes
  ae_dev :: nat

type_synonym ArpTable = "ArpEntry OList"

text \<open>The loop of \<open>Set\<close> and \<open>Search\<close>: the first container with the address.\<close>

partial_function (option) arp_find :: "u32 \<Rightarrow> ArpTable \<Rightarrow> nat option \<Rightarrow> nat option option" where
  "arp_find ip t iter = (case iter of
     None \<Rightarrow> Some None
   | Some c \<Rightarrow> if ae_ip_addr (lc_obj (ls_heap t c)) = ip then Some (Some c) else arp_find ip t (GetNext c t))"

definition ArpEntry_new :: "u32 \<Rightarrow> bytes \<Rightarrow> nat \<Rightarrow> bytes \<Rightarrow> ArpEntry kres" where
  "ArpEntry_new ip hw dev mem = kmap (\<lambda>h. \<lparr> ae_ip_addr = ip, ae_hw_addr = h, ae_dev = dev \<rparr>) (memcpy mem hw 6)"

text \<open>\<open>None\<close> is a loop that does not end: over the containers, or waiting for a lock.\<close>

definition ArpTable_Set :: "u32 \<Rightarrow> bytes \<Rightarrow> nat \<Rightarrow> ArpTable \<Rightarrow> ArpTable kres option" where
  "ArpTable_Set ip hw dev t = (case arp_find ip t (GetBegin t) of
     None \<Rightarrow> None
   | Some (Some c) \<Rightarrow> Some (kmap (\<lambda>h. upd_cont c (\<lambda>x. x \<lparr> lc_obj := (lc_obj x) \<lparr> ae_hw_addr := h, ae_dev := dev \<rparr> \<rparr>) t)
       (memcpy (ae_hw_addr (lc_obj (ls_heap t c))) hw 6))
   | Some None \<Rightarrow> (case kbind (ArpEntry_new ip hw dev (replicate 6 0)) (\<lambda>e. PushBack e t) of
         Inl e \<Rightarrow> Some (Inl e) | Inr None \<Rightarrow> None | Inr (Some (c, t')) \<Rightarrow> Some (Inr t')))"

definition ArpTable_Search :: "u32 \<Rightarrow> ArpTable \<Rightarrow> (nat \<times> bytes) option option" where
  "ArpTable_Search ip t = map_option (map_option (\<lambda>c. (ae_dev (lc_obj (ls_heap t c)), ae_hw_addr (lc_obj (ls_heap t c)))))
     (arp_find ip t (GetBegin t))"

text \<open>A table: linked containers, unlocked, hardware addresses of six bytes. Its meaning is a map.\<close>

definition arp_ok :: "ArpTable \<Rightarrow> nat list \<Rightarrow> bool" where
  "arp_ok t ids \<longleftrightarrow> ls_repr t ids \<and> unlocked t \<and> (\<forall>c \<in> set ids. length (ae_hw_addr (lc_obj (ls_heap t c))) = 6)"

definition arp_entry :: "ArpEntry \<Rightarrow> u32 \<times> nat \<times> bytes" where
  "arp_entry e = (ae_ip_addr e, ae_dev e, ae_hw_addr e)"

definition arp_map :: "ArpTable \<Rightarrow> nat list \<Rightarrow> u32 \<Rightarrow> (nat \<times> bytes) option" where
  "arp_map t ids = map_of (map arp_entry (objects t ids))"

lemma arp_find_walk:
  "links (ls_heap t) p ids None \<Longrightarrow> arp_find ip t (first_of ids None) = Some (find (\<lambda>c. ae_ip_addr (lc_obj (ls_heap t c)) = ip) ids)"
proof (induction ids arbitrary: p)
  case Nil
  then show ?case by (simp add: arp_find.simps)
next
  case (Cons c ids)
  then show ?case by (subst arp_find.simps) (auto simp: GetNext_def)
qed

lemma arp_find_ok: "arp_ok t ids \<Longrightarrow> arp_find ip t (GetBegin t) = Some (find (\<lambda>c. ae_ip_addr (lc_obj (ls_heap t c)) = ip) ids)"
  using arp_find_walk [of t None ids ip] by (auto simp: arp_ok_def ls_repr_def GetBegin_def)

lemma map_of_find: "map_of (map f ids) x = map_option (snd \<circ> f) (find (\<lambda>c. fst (f c) = x) ids)"
proof (induction ids)
  case (Cons c ids)
  then show ?case by (cases "f c") auto
qed simp

lemma ArpTable_Search_ok: "arp_ok t ids \<Longrightarrow> ArpTable_Search ip t = Some (arp_map t ids ip)"
  using map_of_find [of "\<lambda>c. arp_entry (lc_obj (ls_heap t c))" ids ip]
  by (simp add: ArpTable_Search_def arp_find_ok arp_map_def objects_def comp_def arp_entry_def)

lemma map_of_update_first:
  assumes "find (\<lambda>c. fst (f c) = k) ids = Some c" and "g c = (k, v)" and "\<And>x. x \<in> set ids \<Longrightarrow> x \<noteq> c \<Longrightarrow> g x = f x"
    and "distinct ids"
  shows "map_of (map g ids) = (map_of (map f ids))(k \<mapsto> v)"
  using assms
proof (induction ids)
  case (Cons x ids)
  show ?case
  proof (cases "x = c")
    case True
    then have m: "map g ids = map f ids" using Cons.prems(3,4) by (intro map_cong) auto
    have "fst (f c) = k" using Cons.prems(1) unfolding find_Some_iff by auto
    then show ?thesis using True Cons.prems(2) by (cases "f c") (auto simp: m fun_eq_iff)
  next
    case False
    then have "fst (f x) \<noteq> k" "find (\<lambda>c. fst (f c) = k) ids = Some c" using Cons.prems(1) by (auto split: if_splits)
    then show ?thesis using False Cons by (cases "f x") (auto simp: fun_upd_twist)
  qed
qed simp

lemma ArpTable_Set_ok:
  assumes ok: "arp_ok t ids" and hw: "length hw = 6"
  shows "\<exists>t' ids'. ArpTable_Set ip hw dev t = Some (Inr t') \<and> arp_ok t' ids' \<and> arp_map t' ids' = (arp_map t ids)(ip \<mapsto> (dev, hw))"
proof (cases "find (\<lambda>c. ae_ip_addr (lc_obj (ls_heap t c)) = ip) ids")
  case (Some c)
  then have c: "c \<in> set ids" unfolding find_Some_iff by auto
  define t' where "t' = upd_cont c (\<lambda>x. x \<lparr> lc_obj := (lc_obj x) \<lparr> ae_hw_addr := hw, ae_dev := dev \<rparr> \<rparr>) t"
  have "memcpy (ae_hw_addr (lc_obj (ls_heap t c))) hw 6 = Inr hw" using ok c hw by (simp add: arp_ok_def memcpy_ok)
  then have "ArpTable_Set ip hw dev t = Some (Inr t')" using arp_find_ok [OF ok, of ip] Some by (simp add: ArpTable_Set_def t'_def)
  moreover have "links (ls_heap t') None ids None = links (ls_heap t) None ids None"
    by (rule links_cong) (simp add: t'_def upd_cont_def)
  then have "arp_ok t' ids" using ok hw by (auto simp: arp_ok_def ls_repr_def unlocked_def t'_def upd_cont_def)
  moreover have "arp_map t' ids = (arp_map t ids)(ip \<mapsto> (dev, hw))"
  proof -
    have "map_of (map (\<lambda>c. arp_entry (lc_obj (ls_heap t' c))) ids) = (map_of (map (\<lambda>c. arp_entry (lc_obj (ls_heap t c))) ids))(ip \<mapsto> (dev, hw))"
      using Some ok by (intro map_of_update_first [of _ _ _ c]) (auto simp: arp_entry_def t'_def upd_cont_def arp_ok_def ls_repr_def find_Some_iff)
    then show ?thesis by (simp add: arp_map_def objects_def comp_def)
  qed
  ultimately show ?thesis by blast
next
  case None
  define e where "e = \<lparr> ae_ip_addr = ip, ae_hw_addr = hw, ae_dev = dev \<rparr>"
  have n: "\<And>c. c \<in> set ids \<Longrightarrow> ae_ip_addr (lc_obj (ls_heap t c)) \<noteq> ip" using None by (auto simp: find_None_iff)
  obtain t' where t': "PushBack e t = Inr (Some (ls_used t, t'))" "ls_repr t' (ids @ [ls_used t])" "unlocked t'"
    "objects t' (ids @ [ls_used t]) = objects t ids @ [e]"
    using PushBack_ok [of t ids e] ok by (auto simp: arp_ok_def)
  have "ArpEntry_new ip hw dev (replicate 6 0) = Inr e" using hw by (simp add: ArpEntry_new_def memcpy_ok e_def)
  then have s: "ArpTable_Set ip hw dev t = Some (Inr t')" using arp_find_ok [OF ok, of ip] None t'(1) by (simp add: ArpTable_Set_def)
  have o: "\<And>c. c \<in> set ids \<Longrightarrow> lc_obj (ls_heap t' c) = lc_obj (ls_heap t c)" "lc_obj (ls_heap t' (ls_used t)) = e"
    using t'(4) by (auto simp: objects_def)
  have "arp_ok t' (ids @ [ls_used t])" using ok t'(2,3) o hw by (auto simp: arp_ok_def e_def)
  moreover have "arp_map t' (ids @ [ls_used t]) = (arp_map t ids)(ip \<mapsto> (dev, hw))"
  proof -
    have "arp_map t ids ip = None" using n by (force simp: arp_map_def map_of_eq_None_iff objects_def arp_entry_def)
    then show ?thesis using t'(4) by (auto simp: arp_map_def e_def arp_entry_def map_add_def fun_eq_iff split: option.splits)
  qed
  ultimately show ?thesis using s by blast
qed

definition ArpTable_new :: ArpTable where
  "ArpTable_new = OList_new \<lparr> ae_ip_addr = 0, ae_hw_addr = [], ae_dev = 0 \<rparr>"

fun arp_sets :: "(u32 \<times> bytes \<times> nat) list \<Rightarrow> ArpTable \<Rightarrow> ArpTable kres option" where
  "arp_sets [] t = Some (Inr t)"
| "arp_sets ((ip, hw, dev) # es) t = (case ArpTable_Set ip hw dev t of Some (Inr t') \<Rightarrow> arp_sets es t' | r \<Rightarrow> r)"

lemma arp_sets_ok:
  "arp_ok t ids \<Longrightarrow> \<forall>(ip, hw, dev) \<in> set es. length hw = 6 \<Longrightarrow>
   \<exists>t' ids'. arp_sets es t = Some (Inr t') \<and> arp_ok t' ids' \<and>
     arp_map t' ids' = foldl (\<lambda>m (ip, hw, dev). m(ip \<mapsto> (dev, hw))) (arp_map t ids) es"
proof (induction es arbitrary: t ids)
  case (Cons e es)
  obtain ip hw dev where e: "e = (ip, hw, dev)" by (cases e) auto
  obtain t1 ids1 where t1: "ArpTable_Set ip hw dev t = Some (Inr t1)" "arp_ok t1 ids1" "arp_map t1 ids1 = (arp_map t ids)(ip \<mapsto> (dev, hw))"
    using ArpTable_Set_ok [OF Cons.prems(1), of hw ip dev] Cons.prems(2) e by auto
  show ?case using Cons.IH [OF t1(2)] Cons.prems(2) t1 e by simp
qed auto

text \<open>the ARP table of the kernel is a map: whatever was entered before, looking an address up ends and gives the
  device and hardware address of the latest entry for exactly that address, or nothing when there was none.\<close>

theorem ArpTable_refines_map:
  assumes "\<forall>(ip, hw, dev) \<in> set es. length hw = 6"
  shows "\<exists>t. arp_sets es ArpTable_new = Some (Inr t) \<and>
    (\<forall>ip. ArpTable_Search ip t = Some (foldl (\<lambda>m (ip, hw, dev). m(ip \<mapsto> (dev, hw))) Map.empty es ip))"
proof -
  have "arp_ok ArpTable_new []" by (simp add: arp_ok_def ArpTable_new_def OList_new_def ls_repr_def unlocked_def)
  moreover have "arp_map ArpTable_new [] = Map.empty" by (simp add: arp_map_def objects_def)
  ultimately show ?thesis using arp_sets_ok [of ArpTable_new "[]" es] assms ArpTable_Search_ok by fastforce
qed

theorem ArpTable_refines_map_witness:
  "\<exists>t. arp_sets [(1, [1, 1, 1, 1, 1, 1], 0), (1, [2, 2, 2, 2, 2, 2], 3)] ArpTable_new = Some (Inr t) \<and>
     ArpTable_Search 1 t = Some (Some (3, [2, 2, 2, 2, 2, 2])) \<and> ArpTable_Search 2 t = Some None"
  using ArpTable_refines_map [of "[(1, [1, 1, 1, 1, 1, 1], 0), (1, [2, 2, 2, 2, 2, 2], 3)]"] by auto

section \<open>Sending\<close>

text \<open>Writing at an offset of the local buffer.\<close>

definition put :: "nat \<Rightarrow> bytes \<Rightarrow> bytes \<Rightarrow> bytes kres" where
  "put off bs buf = (if off + length bs \<le> length buf then Inr (take off buf @ bs @ drop (off + length bs) buf) else Inl Out_Of_Range)"

text \<open>The two bytes of a number, high byte first.\<close>

definition be16 :: "nat \<Rightarrow> bytes" where
  "be16 n = [of_nat (n div 256), of_nat n]"

definition addr_bytes :: "u32 \<Rightarrow> bytes" where
  "addr_bytes a = [ucast (a AND 0xff), ucast (drop_bit 8 a AND 0xff), ucast (drop_bit 16 a AND 0xff), ucast (drop_bit 24 a AND 0xff)]"

definition addr_int :: "bytes \<Rightarrow> u32" where
  "addr_int b = push_bit 24 (ucast (b ! 3)) OR push_bit 16 (ucast (b ! 2)) OR push_bit 8 (ucast (b ! 1)) OR ucast (b ! 0)"

definition udp_eth_header :: "bytes \<Rightarrow> bytes \<Rightarrow> bytes \<Rightarrow> bytes kres" where
  "udp_eth_header target_mac eth buf = kbind (put 0 target_mac buf) (\<lambda>buf. kbind (put 6 eth buf) (put 12 [0x08, 0x00]))"

text \<open>The IPv4 header; the datagram length at 16 and 17 is filled in later.\<close>

definition udp_ip_header :: "bytes \<Rightarrow> bytes \<Rightarrow> u8 \<Rightarrow> u8 \<Rightarrow> bytes \<Rightarrow> bytes kres" where
  "udp_ip_header my_addr target_addr r1 r2 buf =
     kbind (put 14 [0x45] buf) (\<lambda>buf. kbind (put 15 [0] buf) (\<lambda>buf. kbind (put 18 [r1, r2] buf) (\<lambda>buf.
     kbind (put 20 [0x40, 0x00] buf) (\<lambda>buf. kbind (put 22 [0xff] buf) (\<lambda>buf. kbind (put 23 [17] buf) (\<lambda>buf.
     kbind (put 24 [0, 0] buf) (\<lambda>buf. kbind (put 26 my_addr buf) (put 30 target_addr))))))))"

text \<open>The UDP header and the data; the length at 38 and 39 is filled in behind the data.\<close>

definition udp_header :: "u16 \<Rightarrow> bytes \<Rightarrow> bytes \<Rightarrow> bytes kres" where
  "udp_header target_port data buf =
     kbind (put 34 [0x30, 0x39] buf) (\<lambda>buf. kbind (put 36 (be16 (unat target_port)) buf) (\<lambda>buf.
     kbind (put 40 [0, 0] buf) (\<lambda>buf. kbind (put 42 data buf) (put 38 (be16 (length data + 8))))))"

text \<open>The complement of a folded sum, as it is stored.\<close>

definition cs_bytes :: "u32 \<Rightarrow> bytes" where
  "cs_bytes checksum = (let c = NOT (cs_fold checksum) in [ucast (drop_bit 8 c), ucast c])"

definition pseudo_header :: "bytes \<Rightarrow> bytes \<Rightarrow> nat \<Rightarrow> bytes" where
  "pseudo_header my_addr target_addr udp_length = my_addr @ target_addr @ [0x00, 17] @ be16 udp_length"

definition udp_checksum :: "bytes \<Rightarrow> bytes \<Rightarrow> nat \<Rightarrow> bytes \<Rightarrow> bytes kres" where
  "udp_checksum my_addr target_addr offset buf =
     kbind (cs_loop (pseudo_header my_addr target_addr (offset - 34)) 0 12 0) (\<lambda>checksum.
     kbind (if (offset - 34) mod 2 = 1 then put offset [0] buf else Inr buf) (\<lambda>buf.
     kbind (cs_loop buf 34 offset checksum) (\<lambda>checksum. put 40 (cs_bytes checksum) buf)))"

definition ip_checksum :: "bytes \<Rightarrow> bytes kres" where
  "ip_checksum buf = kbind (cs_loop buf 14 34 0) (\<lambda>checksum. put 24 (cs_bytes checksum) buf)"

text \<open>The buffer that \<open>Send\<close> has built when it reaches its assertion, and the frame behind it.\<close>

definition udp_frame :: "bytes \<Rightarrow> bytes \<Rightarrow> bytes \<Rightarrow> bytes \<Rightarrow> u8 \<Rightarrow> u8 \<Rightarrow> u16 \<Rightarrow> bytes \<Rightarrow> bytes \<Rightarrow> bytes kres" where
  "udp_frame target_mac eth my_addr target_addr r1 r2 target_port data buf = (let offset = 42 + length data in
     kbind (udp_eth_header target_mac eth buf) (\<lambda>buf. kbind (udp_ip_header my_addr target_addr r1 r2 buf) (\<lambda>buf.
     kbind (udp_header target_port data buf) (\<lambda>buf. kbind (udp_checksum my_addr target_addr offset buf) (\<lambda>buf.
     kbind (put 16 (be16 (offset - 14)) buf) (\<lambda>buf. kbind (ip_checksum buf) (\<lambda>buf.
     kbind (kassert (offset < 1518)) (\<lambda>_. Inr (take offset buf)))))))))"

text \<open>Handing a frame to a device: a transmit buffer, \<open>memcpy\<close>, the length, \<open>TransmitPacket\<close>.\<close>

definition send_frame :: "bytes \<Rightarrow> NetDev \<Rightarrow> NetDev kres" where
  "send_frame frame d = (case GetTxPacket d of
     (None, d1) \<Rightarrow> Inl Kassert
   | (Some p, d1) \<Rightarrow> kmap (\<lambda>d2. snd (TransmitPacket p d2)) (fill_packet p frame d1))"

text \<open>
  \<open>Send\<close>: \<open>devs\<close> are the devices and \<open>eth\<close> their hardware addresses. The result is the devices afterwards; an address
  that is not in the table sends nothing.
\<close>

definition Udp_Send :: "(nat \<Rightarrow> bytes) \<Rightarrow> u8 \<Rightarrow> u8 \<Rightarrow> bytes \<Rightarrow> bytes \<Rightarrow> u16 \<Rightarrow> bytes \<Rightarrow> ArpTable \<Rightarrow> (nat \<Rightarrow> NetDev) \<Rightarrow> (nat \<Rightarrow> NetDev) kres option" where
  "Udp_Send eth r1 r2 buf target_addr target_port data t devs = map_option (\<lambda>r. case r of
       None \<Rightarrow> Inr devs
     | Some (dev, target_mac) \<Rightarrow>
         kbind (udp_frame target_mac (eth dev) (addr_bytes (nd_ipv4_addr (devs dev))) target_addr r1 r2 target_port data buf) (\<lambda>frame.
         kmap (\<lambda>d. devs(dev := d)) (send_frame frame (devs dev))))
     (ArpTable_Search (addr_int target_addr) t)"

definition SendStr :: "(nat \<Rightarrow> bytes) \<Rightarrow> u8 \<Rightarrow> u8 \<Rightarrow> bytes \<Rightarrow> bytes \<Rightarrow> u16 \<Rightarrow> bytes \<Rightarrow> ArpTable \<Rightarrow> (nat \<Rightarrow> NetDev) \<Rightarrow> (nat \<Rightarrow> NetDev) kres option" where
  "SendStr eth r1 r2 buf target_addr target_port str t devs = (case strlen str of
     Inl e \<Rightarrow> Some (Inl e)
   | Inr n \<Rightarrow> Udp_Send eth r1 r2 buf target_addr target_port (take n str) t devs)"

section \<open>Receiving\<close>

definition sub_bytes :: "nat \<Rightarrow> nat \<Rightarrow> bytes \<Rightarrow> bytes kres" where
  "sub_bytes off n buf = (if off + n \<le> length buf then Inr (take n (drop off buf)) else Inl Out_Of_Range)"

text \<open>The loop that prints the array, from index \<open>i\<close> for \<open>n\<close> turns; printing a zero byte with \<open>%c\<close> prints nothing.\<close>

fun print_array :: "bytes \<Rightarrow> nat \<Rightarrow> nat \<Rightarrow> bytes kres" where
  "print_array a i 0 = Inr []"
| "print_array a i (Suc n) = kbind (Array_get a (int i)) (\<lambda>c. kmap (\<lambda>t. if c = 0 then t else c # t) (print_array a (Suc i) n))"

text \<open>The UDP part: the data is copied out of the packet and printed. A length below eight wraps around.\<close>

definition udp_data :: "bytes \<Rightarrow> nat \<Rightarrow> bytes kres" where
  "udp_data buf off = kbind (sub_bytes off 6 buf) (\<lambda>h.
     let udp_length = push_bit 8 (ucast (h ! 4)) OR ucast (h ! 5) :: u16; udp_data_length = udp_length - 8 in
     kbind (sub_bytes (off + 8) (unat udp_data_length) buf) (\<lambda>src.
     kbind (memcpy (Array_new 0 (unat udp_data_length)) src (unat udp_data_length)) (\<lambda>data.
     kmap (\<lambda>t. t @ [10]) (print_array data 0 (unat udp_data_length)))))"

text \<open>
  The IPv4 part. The pointers \<open>haddress\<close> and \<open>taddress\<close> are never given an object, and both addresses are stored through
  the first: at the virtual addresses 0 to 3. The result is the machine and the text that is printed.
\<close>

definition udp_ipv4 :: "bytes \<Rightarrow> Machine \<Rightarrow> (Machine \<times> bytes) kres" where
  "udp_ipv4 buf m = kbind (sub_bytes 14 20 buf) (\<lambda>eth_data. let
     ipv4_header_length = unat (eth_data ! 0 AND 0x0F) * 4;
     foffset = push_bit 8 (ucast (eth_data ! 6)) OR ucast (eth_data ! 7) :: u16 in
     if drop_bit 4 (eth_data ! 0) \<noteq> 4 then Inr (m, [])
     else if ipv4_header_length < 20 then Inr (m, [])
     else if foffset AND push_bit 13 1 \<noteq> 0 \<or> foffset AND 0x1FFF \<noteq> 0 then Inr (m, [])
     else kbind (vwrites 0 (take 4 (drop 12 eth_data)) m) (\<lambda>m. kbind (vwrites 0 (take 4 (drop 16 eth_data)) m) (\<lambda>m.
     if eth_data ! 9 = 17 then kmap (Pair m) (udp_data buf (14 + ipv4_header_length))
     else Inr (m, []))))"

definition arp_reply_frame :: "bytes \<Rightarrow> bytes \<Rightarrow> bytes \<Rightarrow> bytes" where
  "arp_reply_frame eth my_addr buf = take 6 (drop 6 buf) @ eth @ [0x08, 0x06, 0x00, 0x01, 0x08, 0x00, 0x06, 0x04, 0x00, 0x02] @
     eth @ my_addr @ take 6 (drop 22 buf) @ take 4 (drop 28 buf)"

record UdpHost =
  uh_dev :: NetDev
  uh_arp :: ArpTable
  uh_machine :: Machine
  uh_out :: bytes

definition uh_print :: "bytes \<Rightarrow> UdpHost \<Rightarrow> UdpHost" where
  "uh_print s h = h \<lparr> uh_out := uh_out h @ s \<rparr>"

text \<open>ARP packets: a reply is entered into the table, a request for the own address is answered.\<close>

definition udp_arp :: "bytes \<Rightarrow> nat \<Rightarrow> bytes \<Rightarrow> UdpHost \<Rightarrow> UdpHost kres option" where
  "udp_arp eth dev buf h = (let my_addr = addr_bytes (nd_ipv4_addr (uh_dev h)); target = addr_int (take 4 (drop 28 buf)) in
     if buf ! 21 = 0x02 then map_option (kmap (\<lambda>t. uh_print ([97, 114, 112, 32] @ print_num 16 target @ [10]) (h \<lparr> uh_arp := t \<rparr>)))
         (ArpTable_Set target (take 6 (drop 22 buf)) dev (uh_arp h))
     else if buf ! 21 = 0x01 \<and> take 4 (drop 38 buf) = my_addr then
       Some (kmap (\<lambda>d. h \<lparr> uh_dev := d \<rparr>) (send_frame (arp_reply_frame eth my_addr buf) (uh_dev h)))
     else Some (Inr h))"

definition udp_server :: "bytes \<Rightarrow> nat \<Rightarrow> UdpHost \<Rightarrow> UdpHost kres option" where
  "udp_server eth dev h0 = (let h = uh_print [42] h0 in case ReceivePacket (uh_dev h) of
     (None, _) \<Rightarrow> Some (Inr h)
   | (Some rpacket, d) \<Rightarrow> (let h = h \<lparr> uh_dev := d \<rparr>; buf = pk_data (nd_mem d rpacket) in
       case (if buf ! 12 = 0x08 \<and> buf ! 13 = 0x06 then udp_arp eth dev buf h else Some (Inr h)) of
         None \<Rightarrow> None
       | Some r \<Rightarrow> Some (kbind r (\<lambda>h.
           kbind (if buf ! 12 = 0x08 \<and> buf ! 13 = 0x00
                  then kmap (\<lambda>(m, t). uh_print t (h \<lparr> uh_machine := m \<rparr>)) (udp_ipv4 buf (uh_machine h))
                  else Inr h) (\<lambda>h.
           kmap (\<lambda>d. h \<lparr> uh_dev := d \<rparr>) (ReuseRxBuffer rpacket (uh_dev h)))))))"

section \<open>The frame that is sent\<close>

lemma splits: "sum_list ns \<le> length xs \<Longrightarrow> \<exists>ps r. xs = concat ps @ r \<and> map length ps = ns"
proof (induction ns arbitrary: xs)
  case (Cons n ns)
  then have "sum_list ns \<le> length (drop n xs)" by simp
  from Cons.IH [OF this] obtain ps r where "drop n xs = concat ps @ r" "map length ps = ns" by blast
  then have "xs = concat (take n xs # ps) @ r" "map length (take n xs # ps) = n # ns"
    using Cons.prems append_take_drop_id [of n xs] by auto
  then show ?case by (intro exI conjI)
qed auto

lemma put_skip: "length a \<le> off \<Longrightarrow> put off bs (a @ r) = kmap ((@) a) (put (off - length a) bs r)"
  by (auto simp: put_def)

lemma put_skip_Cons: "0 < off \<Longrightarrow> put off bs (x # r) = kmap (Cons x) (put (off - 1) bs r)"
  by (cases off) (simp_all add: put_def)

lemma put_here: "length b = length bs \<Longrightarrow> put 0 bs (b @ r) = Inr (bs @ r)"
  by (simp add: put_def)

lemma put_here_two: "length bs = 2 \<Longrightarrow> put 0 bs (x # y # r) = Inr (bs @ r)"
  by (simp add: put_def)

lemma length_be16 [simp]: "length (be16 n) = 2"
  by (simp add: be16_def)

lemma length_cs_bytes [simp]: "length (cs_bytes c) = 2"
  by (simp add: cs_bytes_def Let_def)

lemmas put_simps = put_skip put_skip_Cons put_here put_here_two

text \<open>The headers before the checksums and the datagram length are filled in.\<close>

lemma headers_built:
  assumes "length mac = 6" and "length eth = 6" and "length my = 4" and "length tgt = 4" and "42 + length data \<le> length buf"
  obtains g rest where "length g = 2" and "length rest = length buf - (42 + length data)"
    and "kbind (udp_eth_header mac eth buf) (\<lambda>buf. kbind (udp_ip_header my tgt r1 r2 buf) (udp_header port data)) =
      Inr (mac @ eth @ [0x08, 0x00, 0x45, 0] @ g @ [r1, r2, 0x40, 0x00, 0xff, 17, 0, 0] @ my @ tgt @ [0x30, 0x39] @
           be16 (unat port) @ be16 (length data + 8) @ [0, 0] @ data @ rest)"
proof -
  have "sum_list [6, 6, 2, 1, 1, 2, 2, 2, 1, 1, 2, 4, 4, 2, 2, 2, 2, length data] \<le> length buf" using assms(5) by simp
  from splits [OF this] obtain ps r where ps: "buf = concat ps @ r"
    "map length ps = [6, 6, 2, 1, 1, 2, 2, 2, 1, 1, 2, 4, 4, 2, 2, 2, 2, length data]" by (elim exE conjE)
  have len: "length ps = 18" using arg_cong [OF ps(2), of length] by simp
  have nth: "length (ps ! i) = [6, 6, 2, 1, 1, 2, 2, 2, 1, 1, 2, 4, 4, 2, 2, 2, 2, length data] ! i" if "i < 18" for i
    unfolding ps(2) [symmetric] using that len by simp
  define p0 where "p0 = ps ! 0"
  define p1 where "p1 = ps ! 1"
  define p2 where "p2 = ps ! 2"
  define p3 where "p3 = ps ! 3"
  define p4 where "p4 = ps ! 4"
  define p5 where "p5 = ps ! 5"
  define p6 where "p6 = ps ! 6"
  define p7 where "p7 = ps ! 7"
  define p8 where "p8 = ps ! 8"
  define p9 where "p9 = ps ! 9"
  define p10 where "p10 = ps ! 10"
  define p11 where "p11 = ps ! 11"
  define p12 where "p12 = ps ! 12"
  define p13 where "p13 = ps ! 13"
  define p14 where "p14 = ps ! 14"
  define p15 where "p15 = ps ! 15"
  define p16 where "p16 = ps ! 16"
  define p17 where "p17 = ps ! 17"
  have "ps = map ((!) ps) [0..<18]" using map_nth [of ps] len by simp
  then have p: "ps = [p0, p1, p2, p3, p4, p5, p6, p7, p8, p9, p10, p11, p12, p13, p14, p15, p16, p17]"
    by (simp add: upt_rec eval_nat_numeral p0_def p1_def p2_def p3_def p4_def p5_def p6_def p7_def p8_def p9_def p10_def p11_def p12_def p13_def p14_def p15_def p16_def p17_def)
  have l: "length p0 = 6" "length p1 = 6" "length p2 = 2" "length p3 = 1" "length p4 = 1" "length p5 = 2" "length p6 = 2" "length p7 = 2" "length p8 = 1" "length p9 = 1" "length p10 = 2" "length p11 = 4" "length p12 = 4" "length p13 = 2" "length p14 = 2" "length p15 = 2" "length p16 = 2" "length p17 = length data"
    using nth [of 0] nth [of 1] nth [of 2] nth [of 3] nth [of 4] nth [of 5] nth [of 6] nth [of 7] nth [of 8] nth [of 9] nth [of 10] nth [of 11] nth [of 12] nth [of 13] nth [of 14] nth [of 15] nth [of 16] nth [of 17] by (simp_all add: p0_def p1_def p2_def p3_def p4_def p5_def p6_def p7_def p8_def p9_def p10_def p11_def p12_def p13_def p14_def p15_def p16_def p17_def)
  have b: "buf = p0 @ p1 @ p2 @ p3 @ p4 @ p5 @ p6 @ p7 @ p8 @ p9 @ p10 @ p11 @ p12 @ p13 @ p14 @ p15 @ p16 @ p17 @ r" using ps(1) p by simp
  have "udp_eth_header mac eth buf = Inr (mac @ eth @ 0x08 # 0x00 # p3 @ p4 @ p5 @ p6 @ p7 @ p8 @ p9 @ p10 @ p11 @ p12 @ p13 @ p14 @ p15 @ p16 @ p17 @ r)"
    unfolding b using l assms by (simp add: udp_eth_header_def put_simps)
  moreover have "udp_ip_header my tgt r1 r2 (mac @ eth @ 0x08 # 0x00 # p3 @ p4 @ p5 @ p6 @ p7 @ p8 @ p9 @ p10 @ p11 @ p12 @ p13 @ p14 @ p15 @ p16 @ p17 @ r)
      = Inr (mac @ eth @ [0x08, 0x00, 0x45, 0] @ p5 @ [r1, r2, 0x40, 0x00, 0xff, 17, 0, 0] @ my @ tgt @ p13 @ p14 @ p15 @ p16 @ p17 @ r)"
    using l assms by (simp add: udp_ip_header_def put_simps)
  moreover have "udp_header port data (mac @ eth @ [0x08, 0x00, 0x45, 0] @ p5 @ [r1, r2, 0x40, 0x00, 0xff, 17, 0, 0] @ my @ tgt @ p13 @ p14 @ p15 @ p16 @ p17 @ r)
      = Inr (mac @ eth @ [0x08, 0x00, 0x45, 0] @ p5 @ [r1, r2, 0x40, 0x00, 0xff, 17, 0, 0] @ my @ tgt @ [0x30, 0x39] @ be16 (unat port) @ be16 (length data + 8) @ [0, 0] @ data @ r)"
    using l assms by (simp add: udp_header_def put_simps)
  moreover have "length r = length buf - (42 + length data)" unfolding b using l by simp
  ultimately show ?thesis using that [of p5 r] l by simp
qed

lemma be_words_cs_bytes: "be_words (cs_bytes c @ r) = (65535 - oc (unat c)) # be_words r"
  using complement_bytes [of "cs_fold c"] oc_bound [of "unat c"] by (simp add: cs_bytes_def Let_def unat_cs_fold)

text \<open>Storing the checksum of a byte sequence in a field of it that was zero makes the sum 65535.\<close>

lemma cs_bytes_valid:
  assumes "even (length a)" and "length a + length b \<le> 2000"
  shows "ones_sum (be_words (a @ cs_bytes (of_nat (sum_list (be_words (a @ [0, 0] @ b)))) @ b)) = 65535"
proof -
  define n where "n = sum_list (be_words (a @ [0, 0] @ b))"
  have "n \<le> 65535 * 2002" using sum_be_words_le [of "a @ [0, 0] @ b"] assms(2) by (simp add: n_def)
  then have u: "unat (of_nat n :: u32) = n" by (simp add: unat_of_nat)
  have "be_words (a @ cs_bytes (of_nat n) @ b) = be_words a @ (65535 - oc n) # be_words b"
    using assms(1) by (simp add: be_words_append be_words_cs_bytes u)
  moreover have "n = sum_list (be_words a) + sum_list (be_words b)" using assms(1) by (simp add: n_def be_words_append)
  moreover have "\<forall>w \<in> set (be_words (a @ cs_bytes (of_nat n) @ b)). w < 65536" using be_words_less by blast
  ultimately have "ones_sum (be_words (a @ cs_bytes (of_nat n) @ b)) = oc (n + (65535 - oc n))"
    by (simp add: ones_sum_oc add_ac)
  then show ?thesis using oc_complement by (simp add: n_def)
qed

definition ip_header_bytes :: "bytes \<Rightarrow> bytes \<Rightarrow> u8 \<Rightarrow> u8 \<Rightarrow> nat \<Rightarrow> bytes \<Rightarrow> bytes" where
  "ip_header_bytes my tgt r1 r2 len cs = [0x45, 0] @ be16 len @ [r1, r2, 0x40, 0x00, 0xff, 17] @ cs @ my @ tgt"

definition udp_header_bytes :: "u16 \<Rightarrow> nat \<Rightarrow> bytes \<Rightarrow> bytes" where
  "udp_header_bytes port len cs = [0x30, 0x39] @ be16 (unat port) @ be16 len @ cs"

lemma udp_checksum_ok:
  assumes "length pre = 34" and "length my = 4" and "length tgt = 4"
    and "42 + length data + length rest = 1518" and "odd (length data) \<longrightarrow> rest \<noteq> []"
  shows "\<exists>rest'. length rest' = length rest \<and>
    udp_checksum my tgt (42 + length data) (pre @ udp_header_bytes port len [0, 0] @ data @ rest) =
      Inr (pre @ udp_header_bytes port len (cs_bytes (of_nat (sum_list (be_words
        (pseudo_header my tgt (8 + length data) @ udp_header_bytes port len [0, 0] @ data))))) @ data @ rest')"
proof -
  define ph where "ph = pseudo_header my tgt (8 + length data)"
  define uh where "uh = udp_header_bytes port len [0, 0]"
  have lph: "length ph = 12" using assms(2,3) by (simp add: ph_def pseudo_header_def)
  have luh: "length uh = 8" by (simp add: uh_def udp_header_bytes_def)
  define c where "c = (of_nat (sum_list (be_words ph)) :: u32)"
  have c: "cs_loop ph 0 12 0 = Inr c" using cs_loop_sum [of 12 ph 0 0] lph by (simp add: c_def)
  have sum: "c + of_nat (sum_list (be_words (uh @ data))) = of_nat (sum_list (be_words (ph @ uh @ data)))"
    using lph by (simp add: be_words_append c_def)
  have putcs: "put 40 cs (pre @ uh @ data @ r) = Inr (pre @ udp_header_bytes port len cs @ data @ r)" if "length cs = 2" for cs r
    using assms(1) that by (simp add: uh_def udp_header_bytes_def put_simps)
  have par: "(8 + length data) mod 2 = (if odd (length data) then 1 else 0)" by presburger
  show ?thesis
  proof (cases "odd (length data)")
    case True
    then obtain x r where r: "rest = x # r" using assms(5) by (cases rest) auto
    have p: "put (42 + length data) [0] (pre @ uh @ data @ rest) = Inr (pre @ uh @ data @ 0 # r)"
      using assms(1) luh r by (simp add: put_simps put_def)
    have "cs_loop (pre @ uh @ data @ 0 # r) 34 (42 + length data) c = cs_loop (pre @ uh @ data @ 0 # r) 34 (43 + length data) c"
      using True cs_loop_odd [of 34 "42 + length data"] by simp
    also have "\<dots> = Inr (c + of_nat (sum_list (be_words (take (9 + length data) (drop 34 (pre @ uh @ data @ 0 # r))))))"
      using True assms(4) r cs_loop_sum [of "43 + length data" "pre @ uh @ data @ 0 # r" 34 c] assms(1) luh by simp
    also have "take (9 + length data) (drop 34 (pre @ uh @ data @ 0 # r)) = (uh @ data) @ [0]"
      using assms(1) luh by simp
    also have "be_words ((uh @ data) @ [0]) = be_words (uh @ data)" using True luh by (intro be_words_pad) simp
    finally have "udp_checksum my tgt (42 + length data) (pre @ uh @ data @ rest) =
        Inr (pre @ udp_header_bytes port len (cs_bytes (of_nat (sum_list (be_words (ph @ uh @ data))))) @ data @ 0 # r)"
      using c p par sum True by (simp add: udp_checksum_def ph_def [symmetric] putcs)
    then show ?thesis using r by (intro exI [of _ "0 # r"]) (simp add: ph_def uh_def)
  next
    case False
    have "cs_loop (pre @ uh @ data @ rest) 34 (42 + length data) c =
        Inr (c + of_nat (sum_list (be_words (take (8 + length data) (drop 34 (pre @ uh @ data @ rest))))))"
      using False assms(4) cs_loop_sum [of "42 + length data" "pre @ uh @ data @ rest" 34 c] assms(1) luh by simp
    also have "take (8 + length data) (drop 34 (pre @ uh @ data @ rest)) = uh @ data" using assms(1) luh by simp
    finally have "udp_checksum my tgt (42 + length data) (pre @ uh @ data @ rest) =
        Inr (pre @ udp_header_bytes port len (cs_bytes (of_nat (sum_list (be_words (ph @ uh @ data))))) @ data @ rest)"
      using c False par sum by (simp add: udp_checksum_def ph_def [symmetric] putcs)
    then show ?thesis by (intro exI [of _ rest]) (simp add: ph_def uh_def)
  qed
qed

lemma ip_checksum_ok:
  assumes "length mac = 6" and "length eth = 6" and "length my = 4" and "length tgt = 4"
  shows "ip_checksum (mac @ eth @ [0x08, 0x00] @ ip_header_bytes my tgt r1 r2 n [0, 0] @ r) =
    Inr (mac @ eth @ [0x08, 0x00] @ ip_header_bytes my tgt r1 r2 n
      (cs_bytes (of_nat (sum_list (be_words (ip_header_bytes my tgt r1 r2 n [0, 0]))))) @ r)"
proof -
  define h where "h = ip_header_bytes my tgt r1 r2 n [0, 0]"
  have l: "length h = 20" using assms by (simp add: h_def ip_header_bytes_def)
  define buf where "buf = mac @ eth @ [0x08, 0x00] @ h @ r"
  have "take 20 (drop 14 buf) = h" using assms l by (simp add: buf_def)
  then have "cs_loop buf 14 34 0 = Inr (of_nat (sum_list (be_words h)))"
    using cs_loop_sum [of 34 buf 14 0] assms l by (simp add: buf_def)
  moreover have "put 24 cs buf = Inr (mac @ eth @ [0x08, 0x00] @ ip_header_bytes my tgt r1 r2 n cs @ r)" if "length cs = 2" for cs
    using assms that by (simp add: buf_def h_def ip_header_bytes_def put_simps)
  ultimately have "ip_checksum buf = Inr (mac @ eth @ [0x08, 0x00] @ ip_header_bytes my tgt r1 r2 n (cs_bytes (of_nat (sum_list (be_words h)))) @ r)"
    by (simp add: ip_checksum_def)
  then show ?thesis unfolding buf_def h_def .
qed

lemma udp_frame_gen:
  assumes "length mac = 6" and "length eth = 6" and "length my = 4" and "length tgt = 4"
    and "length buf = 1518" and "length data \<le> 1476"
  shows "udp_frame mac eth my tgt r1 r2 port data buf = kbind (kassert (length data < 1476)) (\<lambda>_. Inr (mac @ eth @ [0x08, 0x00] @
    ip_header_bytes my tgt r1 r2 (28 + length data) (cs_bytes (of_nat (sum_list (be_words (ip_header_bytes my tgt r1 r2 (28 + length data) [0, 0]))))) @
    udp_header_bytes port (8 + length data) (cs_bytes (of_nat (sum_list (be_words
      (pseudo_header my tgt (8 + length data) @ udp_header_bytes port (8 + length data) [0, 0] @ data))))) @ data))"
proof -
  define n where "n = length data"
  obtain g rest where g: "length g = 2" "length rest = 1518 - (42 + n)"
    "kbind (udp_eth_header mac eth buf) (\<lambda>buf. kbind (udp_ip_header my tgt r1 r2 buf) (udp_header port data)) =
      Inr (mac @ eth @ [0x08, 0x00, 0x45, 0] @ g @ [r1, r2, 0x40, 0x00, 0xff, 17, 0, 0] @ my @ tgt @ [0x30, 0x39] @
           be16 (unat port) @ be16 (n + 8) @ [0, 0] @ data @ rest)"
    using headers_built [of mac eth my tgt data buf r1 r2 port] assms by (auto simp: n_def)
  define pre where "pre = mac @ eth @ [0x08, 0x00, 0x45, 0] @ g @ [r1, r2, 0x40, 0x00, 0xff, 17, 0, 0] @ my @ tgt"
  define ucs where "ucs = cs_bytes (of_nat (sum_list (be_words
      (pseudo_header my tgt (8 + n) @ udp_header_bytes port (8 + n) [0, 0] @ data))))"
  define ih where "ih = ip_header_bytes my tgt r1 r2 (28 + n)"
  have h: "kbind (udp_eth_header mac eth buf) (\<lambda>buf. kbind (udp_ip_header my tgt r1 r2 buf) (udp_header port data)) =
      Inr (pre @ udp_header_bytes port (8 + n) [0, 0] @ data @ rest)"
    using g(3) by (simp add: pre_def udp_header_bytes_def add.commute)
  have "length pre = 34" using assms g(1) by (simp add: pre_def)
  moreover have "odd n \<Longrightarrow> n < 1476" using assms(6) by (auto simp: n_def le_less)
  then have "odd (length data) \<longrightarrow> rest \<noteq> []" "42 + length data + length rest = 1518" using g(2) assms(6) by (auto simp: n_def)
  ultimately obtain rest' where u: "udp_checksum my tgt (42 + n) (pre @ udp_header_bytes port (8 + n) [0, 0] @ data @ rest) =
      Inr (pre @ udp_header_bytes port (8 + n) ucs @ data @ rest')"
    using udp_checksum_ok [of pre my tgt data rest port "8 + n"] assms(3,4) by (auto simp: n_def ucs_def)
  have p: "put 16 (be16 (28 + n)) (pre @ udp_header_bytes port (8 + n) ucs @ data @ rest') =
      Inr (mac @ eth @ [0x08, 0x00] @ ih [0, 0] @ udp_header_bytes port (8 + n) ucs @ data @ rest')"
    using assms g(1) by (simp add: pre_def put_simps ih_def ip_header_bytes_def)
  have l: "length (ih cs) = 20" "length (udp_header_bytes port (8 + n) ucs) = 8" if "length cs = 2" for cs
    using that assms by (simp_all add: ih_def ip_header_bytes_def udp_header_bytes_def ucs_def)
  have "udp_frame mac eth my tgt r1 r2 port data buf =
      kbind (kbind (udp_eth_header mac eth buf) (\<lambda>buf. kbind (udp_ip_header my tgt r1 r2 buf) (udp_header port data))) (\<lambda>buf.
      kbind (udp_checksum my tgt (42 + n) buf) (\<lambda>buf. kbind (put 16 (be16 (28 + n)) buf) (\<lambda>buf. kbind (ip_checksum buf) (\<lambda>buf.
      kbind (kassert (42 + n < 1518)) (\<lambda>_. Inr (take (42 + n) buf))))))"
    by (simp add: udp_frame_def Let_def kbind_assoc n_def)
  also have "\<dots> = kbind (kassert (n < 1476)) (\<lambda>_. Inr (take (42 + n) (mac @ eth @ [0x08, 0x00] @ ih (cs_bytes (of_nat (sum_list (be_words (ih [0, 0]))))) @
      udp_header_bytes port (8 + n) ucs @ data @ rest')))"
    using h u p assms(6) ip_checksum_ok [OF assms(1-4), of r1 r2 "28 + n", folded ih_def] by (simp add: n_def)
  also have "\<dots> = kbind (kassert (n < 1476)) (\<lambda>_. Inr (mac @ eth @ [0x08, 0x00] @ ih (cs_bytes (of_nat (sum_list (be_words (ih [0, 0]))))) @ udp_header_bytes port (8 + n) ucs @ data))"
    using l [of "cs_bytes (of_nat (sum_list (be_words (ih [0, 0]))))"] assms(1,2) by (simp add: n_def take_Cons')
  finally show ?thesis by (simp add: ih_def ucs_def n_def)
qed

lemma udp_frame_ok:
  assumes "length mac = 6" and "length eth = 6" and "length my = 4" and "length tgt = 4"
    and "length buf = 1518" and "length data \<le> 1475"
  shows "udp_frame mac eth my tgt r1 r2 port data buf = Inr (mac @ eth @ [0x08, 0x00] @
    ip_header_bytes my tgt r1 r2 (28 + length data) (cs_bytes (of_nat (sum_list (be_words (ip_header_bytes my tgt r1 r2 (28 + length data) [0, 0]))))) @
    udp_header_bytes port (8 + length data) (cs_bytes (of_nat (sum_list (be_words
      (pseudo_header my tgt (8 + length data) @ udp_header_bytes port (8 + length data) [0, 0] @ data))))) @ data)"
  using udp_frame_gen [OF assms(1-5), of data r1 r2 port] assms(6) by simp

lemma frame_checksums:
  assumes "length my = 4" and "length tgt = 4" and "length data \<le> 1475"
  shows "ones_sum (be_words (ip_header_bytes my tgt r1 r2 (28 + length data)
      (cs_bytes (of_nat (sum_list (be_words (ip_header_bytes my tgt r1 r2 (28 + length data) [0, 0]))))))) = 65535"
    and "ones_sum (be_words (pseudo_header my tgt (8 + length data) @ udp_header_bytes port (8 + length data) (cs_bytes (of_nat (sum_list (be_words
      (pseudo_header my tgt (8 + length data) @ udp_header_bytes port (8 + length data) [0, 0] @ data))))) @ data)) = 65535"
proof -
  define n where "n = length data"
  define a where "a = [0x45, 0] @ be16 (28 + n) @ [r1, r2, 0x40, 0x00, 0xff, 17]"
  have "ones_sum (be_words (a @ cs_bytes (of_nat (sum_list (be_words (a @ [0, 0] @ my @ tgt)))) @ my @ tgt)) = 65535"
    using assms by (intro cs_bytes_valid) (simp_all add: a_def)
  then show "ones_sum (be_words (ip_header_bytes my tgt r1 r2 (28 + length data)
      (cs_bytes (of_nat (sum_list (be_words (ip_header_bytes my tgt r1 r2 (28 + length data) [0, 0]))))))) = 65535"
    by (simp add: a_def n_def ip_header_bytes_def)
  define b where "b = pseudo_header my tgt (8 + n) @ [0x30, 0x39] @ be16 (unat port) @ be16 (8 + n)"
  have "ones_sum (be_words (b @ cs_bytes (of_nat (sum_list (be_words (b @ [0, 0] @ data)))) @ data)) = 65535"
    using assms by (intro cs_bytes_valid) (simp_all add: b_def pseudo_header_def n_def)
  then show "ones_sum (be_words (pseudo_header my tgt (8 + length data) @ udp_header_bytes port (8 + length data) (cs_bytes (of_nat (sum_list (be_words
      (pseudo_header my tgt (8 + length data) @ udp_header_bytes port (8 + length data) [0, 0] @ data))))) @ data)) = 65535"
    by (simp add: b_def n_def udp_header_bytes_def)
qed

text \<open>for data of at most 1475 bytes \<open>Send\<close> builds an Ethernet frame with an IPv4 header and a UDP header whose length
  fields are right and whose checksums a receiver accepts: the one's complement sums over the IPv4 header, and over the
  pseudo header, the UDP header and the data, are all ones.\<close>

theorem udp_frame_valid:
  assumes "length mac = 6" and "length eth = 6" and "length my = 4" and "length tgt = 4"
    and "length buf = 1518" and "length data \<le> 1475"
  shows "\<exists>ics ucs. udp_frame mac eth my tgt r1 r2 port data buf = Inr (mac @ eth @ [0x08, 0x00] @
      ip_header_bytes my tgt r1 r2 (28 + length data) ics @ udp_header_bytes port (8 + length data) ucs @ data) \<and>
    ones_sum (be_words (ip_header_bytes my tgt r1 r2 (28 + length data) ics)) = 65535 \<and>
    ones_sum (be_words (pseudo_header my tgt (8 + length data) @ udp_header_bytes port (8 + length data) ucs @ data)) = 65535"
  using udp_frame_ok [OF assms, of r1 r2 port] frame_checksums [OF assms(3,4,6)] by blast

theorem udp_frame_valid_witness:
  "\<exists>ics ucs. udp_frame (replicate 6 1) (replicate 6 2) [10, 0, 2, 15] [10, 0, 2, 2] 7 7 53 [104, 105, 33] (replicate 1518 0) =
     Inr (replicate 6 1 @ replicate 6 2 @ [0x08, 0x00] @ ip_header_bytes [10, 0, 2, 15] [10, 0, 2, 2] 7 7 31 ics @ udp_header_bytes 53 11 ucs @ [104, 105, 33])"
  using udp_frame_valid [of "replicate 6 1" "replicate 6 2" "[10, 0, 2, 15]" "[10, 0, 2, 2]" "replicate 1518 0" "[104, 105, 33]" 7 7 53]
  by auto

text \<open>Writes that fit leave the length of the buffer alone.\<close>

definition keeps_len :: "(bytes \<Rightarrow> bytes kres) \<Rightarrow> bool" where
  "keeps_len f \<longleftrightarrow> (\<forall>b. length b = 1518 \<longrightarrow> (\<exists>b'. f b = Inr b' \<and> length b' = 1518))"

lemma keeps_put: "off + length bs \<le> 1518 \<Longrightarrow> keeps_len (put off bs)"
  by (simp add: keeps_len_def put_def)

lemma keeps_comp: "keeps_len f \<Longrightarrow> keeps_len g \<Longrightarrow> keeps_len (\<lambda>b. kbind (f b) g)"
  unfolding keeps_len_def by (metis kbind_Inr)

text \<open>C36: the size limit of \<open>Send\<close>: exactly the data of up to 1475 bytes are sent. For 1476 bytes the assertion at the end
  fails, and for more the copy into the buffer of 1518 bytes has already run over its end before the assertion is
  reached.\<close>

theorem udp_frame_bounds:
  assumes "length mac = 6" and "length eth = 6" and "length my = 4" and "length tgt = 4" and "length buf = 1518"
  shows "((\<exists>frame. udp_frame mac eth my tgt r1 r2 port data buf = Inr frame) \<longleftrightarrow> length data \<le> 1475) \<and>
    (length data = 1476 \<longrightarrow> udp_frame mac eth my tgt r1 r2 port data buf = Inl Kassert) \<and>
    (1476 < length data \<longrightarrow> udp_frame mac eth my tgt r1 r2 port data buf = Inl Out_Of_Range)"
proof (cases "length data \<le> 1476")
  case True
  then show ?thesis using udp_frame_gen [OF assms True, of r1 r2 port] by (cases "length data < 1476") auto
next
  case False
  have "keeps_len (udp_eth_header mac eth)" "keeps_len (udp_ip_header my tgt r1 r2)"
    unfolding udp_eth_header_def udp_ip_header_def using assms by (intro keeps_comp keeps_put; simp)+
  then obtain b1 b2 where b: "udp_eth_header mac eth buf = Inr b1" "udp_ip_header my tgt r1 r2 b1 = Inr b2" "length b2 = 1518"
    using assms(5) unfolding keeps_len_def by metis
  have "keeps_len (\<lambda>b. kbind (put 34 [0x30, 0x39] b) (\<lambda>buf. kbind (put 36 (be16 (unat port)) buf) (put 40 [0, 0])))"
    by (intro keeps_comp keeps_put) simp_all
  then obtain b3 where "kbind (put 34 [0x30, 0x39] b2) (\<lambda>buf. kbind (put 36 (be16 (unat port)) buf) (put 40 [0, 0])) = Inr b3" "length b3 = 1518"
    using b(3) unfolding keeps_len_def by metis
  moreover have "put 42 data b3 = Inl Out_Of_Range" using False \<open>length b3 = 1518\<close> by (simp add: put_def)
  ultimately have "udp_header port data b2 = Inl Out_Of_Range"
    by (auto simp: udp_header_def kbind_eq_Inr)
  then have "udp_frame mac eth my tgt r1 r2 port data buf = Inl Out_Of_Range" using b by (simp add: udp_frame_def Let_def)
  then show ?thesis using False by simp
qed

theorem udp_frame_bounds_witness:
  "udp_frame (replicate 6 1) (replicate 6 2) [10, 0, 2, 15] [10, 0, 2, 2] 7 7 53 (replicate 1477 0) (replicate 1518 0) = Inl Out_Of_Range"
  using udp_frame_bounds [of "replicate 6 1" "replicate 6 2" "[10, 0, 2, 15]" "[10, 0, 2, 2]" "replicate 1518 0" 7 7 53 "replicate 1477 0"]
  by simp

section \<open>The datagram that is received\<close>

lemma print_array_drop: "i + n \<le> length a \<Longrightarrow> print_array a i n = Inr (filter (\<lambda>c. c \<noteq> 0) (take n (drop i a)))"
proof (induction n arbitrary: i)
  case (Suc n)
  have "take (Suc n) (drop i a) = a ! i # take n (drop (Suc i) a)"
    using Suc.prems by (simp add: Cons_nth_drop_Suc [symmetric])
  then show ?case using Suc by (simp add: Array_get_def)
qed simp

lemma be16_u16: "push_bit 8 (ucast (be16 n ! 0)) OR ucast (be16 n ! Suc 0) = (of_nat n :: u16)"
proof (rule bit_word_eqI)
  fix i assume i: "i < LENGTH(16)"
  have "n div 256 = drop_bit 8 n" by (simp add: drop_bit_eq_div)
  then show "bit (push_bit 8 (ucast (be16 n ! 0)) OR ucast (be16 n ! Suc 0) :: u16) i = bit (of_nat n :: u16) i"
    using i by (auto simp: be16_def bit_or_iff bit_push_bit_iff bit_ucast_iff bit_of_nat_iff bit_drop_bit_eq possible_bit_def)
qed

lemma udp_data_ok:
  assumes "length pre = off" and "length h = 4" and "length cs = 2" and "length data \<le> 1475"
  shows "udp_data (pre @ h @ be16 (8 + length data) @ cs @ data @ r) off = Inr (filter (\<lambda>c. c \<noteq> 0) data @ [10])"
proof -
  define n where "n = length data"
  define buf where "buf = pre @ h @ be16 (8 + n) @ cs @ data @ r"
  have hd: "sub_bytes off 6 buf = Inr (h @ be16 (8 + n))" using assms by (simp add: sub_bytes_def buf_def)
  have nth: "(h @ be16 (8 + n)) ! 4 = be16 (8 + n) ! 0" "(h @ be16 (8 + n)) ! 5 = be16 (8 + n) ! Suc 0"
    using assms(2) by (simp_all add: nth_append)
  have len: "unat (of_nat (8 + n) - 8 :: u16) = n" using assms(4) by (simp add: unat_of_nat n_def)
  have src: "sub_bytes (off + 8) n buf = Inr data" using assms by (simp add: sub_bytes_def buf_def n_def)
  have cp: "memcpy (Array_new 0 n) data n = Inr data" using memcpy_ok [of n "Array_new 0 n" data] by (simp add: Array_new_def n_def)
  have "udp_data buf off = Inr (filter (\<lambda>c. c \<noteq> 0) data @ [10])"
    unfolding udp_data_def hd kbind_Inr nth be16_u16 Let_def len src cp
    using print_array_drop [of 0 n data] by (simp add: n_def)
  then show ?thesis by (simp add: buf_def n_def)
qed

lemma udp_ipv4_ok:
  assumes "length mac = 6" and "length eth = 6" and "length my = 4" and "length tgt = 4" and "length ics = 2" and "length ucs = 2"
    and "length data \<le> 1475"
  shows "udp_ipv4 (mac @ eth @ [0x08, 0x00] @ ip_header_bytes my tgt r1 r2 n ics @ udp_header_bytes port (8 + length data) ucs @ data @ r) m =
    kmap (\<lambda>m'. (m', filter (\<lambda>c. c \<noteq> 0) data @ [10])) (kbind (vwrites 0 my m) (vwrites 0 tgt))"
proof -
  define ih where "ih = ip_header_bytes my tgt r1 r2 n ics"
  define buf where "buf = mac @ eth @ [0x08, 0x00] @ ih @ udp_header_bytes port (8 + length data) ucs @ data @ r"
  have l: "length ih = 20" using assms by (simp add: ih_def ip_header_bytes_def)
  have e: "sub_bytes 14 20 buf = Inr ih" using assms l by (simp add: sub_bytes_def buf_def)
  have b: "ih ! 0 = 0x45" "ih ! 6 = 0x40" "ih ! 7 = 0" "ih ! 9 = 17" "take 4 (drop 12 ih) = my" "take 4 (drop 16 ih) = tgt"
    using assms by (simp_all add: ih_def ip_header_bytes_def be16_def)
  have "udp_data ((mac @ eth @ [0x08, 0x00] @ ih) @ ([0x30, 0x39] @ be16 (unat port)) @ be16 (8 + length data) @ ucs @ data @ r) 34 =
      Inr (filter (\<lambda>c. c \<noteq> 0) data @ [10])"
    using assms l by (intro udp_data_ok) simp_all
  then have u: "udp_data buf 34 = Inr (filter (\<lambda>c. c \<noteq> 0) data @ [10])" by (simp add: buf_def udp_header_bytes_def)
  have "udp_ipv4 buf m = kmap (\<lambda>m'. (m', filter (\<lambda>c. c \<noteq> 0) data @ [10])) (kbind (vwrites 0 my m) (vwrites 0 tgt))"
    unfolding udp_ipv4_def e kbind_Inr b Let_def by (simp add: u kmap_def kbind_def split: sum.split)
  then show ?thesis by (simp add: buf_def ih_def)
qed

section \<open>From one host to another\<close>

lemma send_frame_ok:
  assumes sim: "nd_sim (d, rx, tx) a" and free: "0 < tx_free a" and len: "length f \<le> MCLBYTES"
  obtains d' where "send_frame f d = Inr d'" "nd_sim (d', rx, tx) (a \<lparr> tx_free := tx_free a - 1, tx_frames := tx_frames a @ [f] \<rparr>)"
proof -
  have held: "tx_held a = length tx" using sim by (auto simp: nd_sim_def)
  define a1 where "a1 = a \<lparr> tx_free := tx_free a - 1, tx_held := tx_held a + 1 \<rparr>"
  obtain s1 where s1: "nd_do Tx_Get (d, rx, tx) = Inr (None, s1)" "nd_sim s1 a1"
    using sim_Tx_Get [OF sim] free by (auto simp: nd_steps_def a1_def)
  obtain p d1 where p: "GetTxPacket d = (Some p, d1)" "s1 = (d1, rx, tx @ [p])"
  proof (cases "GetTxPacket d")
    case (Pair r d1)
    show ?thesis
    proof (cases r)
      case None
      then have "nd_sim (d1, rx, tx) a1" using s1 Pair by simp
      then have "tx_held a1 = length tx" by (auto simp: nd_sim_def)
      then show ?thesis using held by (simp add: a1_def)
    next
      case (Some p)
      then show ?thesis using that [of p d1] s1(1) Pair by simp
    qed
  qed
  have "nd_steps (Tx_Send (length tx) f) (d1, rx, tx @ [p]) a1"
    using s1(2) p(2) len by (intro sim_Tx_Send) simp_all
  then obtain s2 where s2: "nd_do (Tx_Send (length tx) f) (d1, rx, tx @ [p]) = Inr (None, s2)"
    "nd_sim s2 (a1 \<lparr> tx_held := tx_held a1 - 1, tx_frames := tx_frames a1 @ [f] \<rparr>)"
    by (auto simp: nd_steps_def)
  obtain d2 where d2: "fill_packet p f d1 = Inr d2" "s2 = (snd (TransmitPacket p d2), rx, tx)"
    using s2(1) by (auto simp: kmap_eq_Inr del_nth_def)
  have "send_frame f d = Inr (snd (TransmitPacket p d2))" using p(1) d2(1) by (simp add: send_frame_def)
  moreover have "a1 \<lparr> tx_held := tx_held a1 - 1, tx_frames := tx_frames a1 @ [f] \<rparr> = a \<lparr> tx_free := tx_free a - 1, tx_frames := tx_frames a @ [f] \<rparr>"
    by (simp add: a1_def)
  ultimately show ?thesis using that s2(2) d2(2) by simp
qed

lemma Udp_Send_transmits:
  assumes "nd_sim (devs dev, [], []) nd_empty" and "arp_ok t ids" and "arp_map t ids (addr_int tgt) = Some (dev, mac)"
    and "length mac = 6" and "length (eth dev) = 6" and "length tgt = 4" and "length buf = 1518" and "length data \<le> 1475"
  obtains devs' d ics ucs where "Udp_Send eth r1 r2 buf tgt port data t devs = Some (Inr devs')" "length ics = 2" "length ucs = 2"
    "ones_sum (be_words (ip_header_bytes (addr_bytes (nd_ipv4_addr (devs dev))) tgt r1 r2 (28 + length data) ics)) = 65535"
    "ones_sum (be_words (pseudo_header (addr_bytes (nd_ipv4_addr (devs dev))) tgt (8 + length data) @ udp_header_bytes port (8 + length data) ucs @ data)) = 65535"
    "drv_transmit (devs' dev) = Inr (Some (mac @ eth dev @ [0x08, 0x00] @
      ip_header_bytes (addr_bytes (nd_ipv4_addr (devs dev))) tgt r1 r2 (28 + length data) ics @ udp_header_bytes port (8 + length data) ucs @ data), d)"
    "nd_sim (d, [], []) nd_empty"
proof -
  define my where "my = addr_bytes (nd_ipv4_addr (devs dev))"
  define ics where "ics = cs_bytes (of_nat (sum_list (be_words (ip_header_bytes my tgt r1 r2 (28 + length data) [0, 0]))))"
  define ucs where "ucs = cs_bytes (of_nat (sum_list (be_words
      (pseudo_header my tgt (8 + length data) @ udp_header_bytes port (8 + length data) [0, 0] @ data))))"
  define f where "f = mac @ eth dev @ [0x08, 0x00] @ ip_header_bytes my tgt r1 r2 (28 + length data) ics @ udp_header_bytes port (8 + length data) ucs @ data"
  have my: "length my = 4" by (simp add: my_def addr_bytes_def)
  have l: "length ics = 2" "length ucs = 2" by (simp_all add: ics_def ucs_def)
  have frame: "udp_frame mac (eth dev) my tgt r1 r2 port data buf = Inr f"
    unfolding f_def ics_def ucs_def using assms my by (intro udp_frame_ok)
  have len: "length f \<le> MCLBYTES" using assms my l by (simp add: f_def MCLBYTES_def ip_header_bytes_def udp_header_bytes_def)
  obtain d' where d': "send_frame f (devs dev) = Inr d'" "nd_sim (d', [], []) (nd_empty \<lparr> tx_free := tx_free nd_empty - 1, tx_frames := [f] \<rparr>)"
    using send_frame_ok [OF assms(1) _ len] by (auto simp: nd_empty_def kNetDevRing_def)
  have "Udp_Send eth r1 r2 buf tgt port data t devs = Some (Inr (devs(dev := d')))"
    using ArpTable_Search_ok [OF assms(2), of "addr_int tgt"] assms(3) frame d'(1) by (simp add: Udp_Send_def my_def)
  moreover obtain d where "drv_transmit d' = Inr (Some f, d)" "nd_sim (d, [], []) nd_empty"
    using sim_Tx_Drive [OF d'(2)] by (auto simp: nd_steps_def kmap_eq_Inr nd_empty_def kNetDevRing_def)
  moreover have "ones_sum (be_words (ip_header_bytes my tgt r1 r2 (28 + length data) ics)) = 65535"
    "ones_sum (be_words (pseudo_header my tgt (8 + length data) @ udp_header_bytes port (8 + length data) ucs @ data)) = 65535"
    unfolding ics_def ucs_def using frame_checksums [OF my assms(6,8)] by blast+
  ultimately show ?thesis using that [of "devs(dev := d')" ics ucs d] l by (simp add: f_def my_def)
qed

lemma udp_server_stores:
  assumes dev: "nd_sim (d, [], []) nd_empty"
    and l: "length mac = 6" "length eth' = 6" "length my = 4" "length tgt = 4" "length ics = 2" "length ucs = 2" "length data \<le> 1475"
    and f: "f = mac @ eth' @ [0x08, 0x00] @ ip_header_bytes my tgt r1 r2 n ics @ udp_header_bytes port (8 + length data) ucs @ data"
  obtains d1 d2 where "drv_receive f d = Inr d1"
    "udp_server eth dev \<lparr> uh_dev = d1, uh_arp = t, uh_machine = m, uh_out = out \<rparr> =
       Some (kmap (\<lambda>m'. \<lparr> uh_dev = d2, uh_arp = t, uh_machine = m', uh_out = out @ [42] @ filter (\<lambda>c. c \<noteq> 0) data @ [10] \<rparr>)
         (kbind (vwrites 0 my m) (vwrites 0 tgt)))"
    "nd_sim (d2, [], []) nd_empty"
proof -
  have len: "length f \<le> MCLBYTES" using l by (simp add: f MCLBYTES_def ip_header_bytes_def udp_header_bytes_def)
  define a1 where "a1 = nd_empty \<lparr> rx_free := 299, rx_frames := [f] \<rparr>"
  define a2 where "a2 = nd_empty \<lparr> rx_free := 299, rx_held := 1 \<rparr>"
  obtain d1 where d1: "drv_receive f d = Inr d1" "nd_sim (d1, [], []) a1"
    using sim_Rx_Frame [OF dev len] by (auto simp: nd_steps_def kmap_eq_Inr nd_empty_def kNetDevRing_def a1_def)
  obtain p d1' where p: "ReceivePacket d1 = (Some p, d1')" "content (nd_mem d1') p = f" "nd_sim (d1', [p], []) a2"
    using sim_Rx_Receive [OF d1(2)] by (auto simp: nd_steps_def a1_def a2_def nd_empty_def split: prod.splits option.splits)
  obtain d2 where d2: "ReuseRxBuffer p d1' = Inr d2" "nd_sim (d2, [], []) nd_empty"
    using sim_Rx_Reuse [OF p(3), of 0] by (auto simp: nd_steps_def kmap_eq_Inr a2_def nd_empty_def kNetDevRing_def del_nth_def)
  define buf where "buf = pk_data (nd_mem d1' p)"
  define r where "r = drop (pk_len (nd_mem d1' p)) buf"
  define stored where "stored = kbind (vwrites 0 my m) (vwrites 0 tgt)"
  have buf: "buf = f @ r" using p(2) append_take_drop_id [of "pk_len (nd_mem d1' p)" buf] by (simp add: content_def buf_def r_def)
  have ip: "udp_ipv4 buf m = kmap (\<lambda>m'. (m', filter (\<lambda>c. c \<noteq> 0) data @ [10])) stored"
    unfolding buf f stored_def using udp_ipv4_ok [OF l, of r1 r2 n port r m] by simp
  have ty: "buf ! 12 = 0x08" "buf ! 13 = 0x00" unfolding buf f using l by (simp_all add: nth_append)
  have "udp_server eth dev \<lparr> uh_dev = d1, uh_arp = t, uh_machine = m, uh_out = out \<rparr> =
      Some (kmap (\<lambda>m'. \<lparr> uh_dev = d2, uh_arp = t, uh_machine = m', uh_out = out @ [42] @ filter (\<lambda>c. c \<noteq> 0) data @ [10] \<rparr>) stored)"
    unfolding udp_server_def Let_def uh_print_def using p(1) d2(1) ty ip by (cases stored) (simp_all add: buf_def [symmetric])
  then show ?thesis using that d1(1) d2(2) unfolding stored_def by blast
qed

text \<open>After \<open>ReleaseLowMemory\<close> a store through a null pointer faults.\<close>

lemma ReleaseLowMemory_null_store:
  assumes "ReleaseLowMemory pg = Inr (ma_pg m)" and "bs \<noteq> []"
  shows "vwrites 0 bs m = Inl Out_Of_Range"
proof -
  have "ma_pg m = write_entry (pml4t pg) (GetPML4TIndex 0) 0 pg" using assms(1) by (auto simp: ReleaseLowMemory_def kbind_eq_Inr)
  then have "translate (ma_pg m) 0 = None" by (simp add: translate_def write_entry_def)
  then show ?thesis using assms(2) by (cases bs) (simp_all add: vwrite_def)
qed

text \<open>C6: the way of a datagram. When the table of the sending host knows the address of the receiver, its device is idle
  and the data has at most 1475 bytes, \<open>Send\<close> succeeds and the driver is given one frame: addressed to the receiver,
  with the lengths of the data and with checksums that a receiver accepts; all buffers of the sender are free again. The
  idle device of another host takes the frame in, but the server of that host first stores both addresses of the
  datagram through a null pointer. The rest, printing the data without zero bytes and a newline and returning the
  buffer, depends on these stores; and on a kernel that has executed \<open>ReleaseLowMemory\<close>, as the boot code does, the
  server stops there with a fault on every such frame.\<close>

theorem udp_send_receive:
  assumes "nd_sim (devs dev, [], []) nd_empty" and "arp_ok t ids" and "arp_map t ids (addr_int tgt) = Some (dev, mac)"
    and "length mac = 6" and "length (eth dev) = 6" and "length tgt = 4" and "length buf = 1518" and "length data \<le> 1475"
    and "nd_sim (d, [], []) nd_empty" and "my = addr_bytes (nd_ipv4_addr (devs dev))"
  shows "\<exists>devs' f ics ucs d1 d2 d3. Udp_Send eth r1 r2 buf tgt port data t devs = Some (Inr devs') \<and>
    drv_transmit (devs' dev) = Inr (Some f, d1) \<and> nd_sim (d1, [], []) nd_empty \<and>
    f = mac @ eth dev @ [0x08, 0x00] @ ip_header_bytes my tgt r1 r2 (28 + length data) ics @ udp_header_bytes port (8 + length data) ucs @ data \<and>
    ones_sum (be_words (ip_header_bytes my tgt r1 r2 (28 + length data) ics)) = 65535 \<and>
    ones_sum (be_words (pseudo_header my tgt (8 + length data) @ udp_header_bytes port (8 + length data) ucs @ data)) = 65535 \<and>
    drv_receive f d = Inr d2 \<and> nd_sim (d3, [], []) nd_empty \<and>
    udp_server eth' dev' \<lparr> uh_dev = d2, uh_arp = t', uh_machine = m, uh_out = out \<rparr> =
      Some (kmap (\<lambda>m'. \<lparr> uh_dev = d3, uh_arp = t', uh_machine = m', uh_out = out @ [42] @ filter (\<lambda>c. c \<noteq> 0) data @ [10] \<rparr>)
        (kbind (vwrites 0 my m) (vwrites 0 tgt))) \<and>
    (ReleaseLowMemory pg = Inr (ma_pg m) \<longrightarrow>
      udp_server eth' dev' \<lparr> uh_dev = d2, uh_arp = t', uh_machine = m, uh_out = out \<rparr> = Some (Inl Out_Of_Range))"
proof -
  have my: "length my = 4" using assms(10) by (simp add: addr_bytes_def)
  obtain devs' d1 ics ucs where s: "Udp_Send eth r1 r2 buf tgt port data t devs = Some (Inr devs')" "length ics = 2" "length ucs = 2"
    "ones_sum (be_words (ip_header_bytes my tgt r1 r2 (28 + length data) ics)) = 65535"
    "ones_sum (be_words (pseudo_header my tgt (8 + length data) @ udp_header_bytes port (8 + length data) ucs @ data)) = 65535"
    "drv_transmit (devs' dev) = Inr (Some (mac @ eth dev @ [0x08, 0x00] @
      ip_header_bytes my tgt r1 r2 (28 + length data) ics @ udp_header_bytes port (8 + length data) ucs @ data), d1)"
    "nd_sim (d1, [], []) nd_empty"
    using assms(1-8) unfolding assms(10) by (rule Udp_Send_transmits)
  obtain d2 d3 where r: "drv_receive (mac @ eth dev @ [0x08, 0x00] @
      ip_header_bytes my tgt r1 r2 (28 + length data) ics @ udp_header_bytes port (8 + length data) ucs @ data) d = Inr d2"
    "udp_server eth' dev' \<lparr> uh_dev = d2, uh_arp = t', uh_machine = m, uh_out = out \<rparr> =
      Some (kmap (\<lambda>m'. \<lparr> uh_dev = d3, uh_arp = t', uh_machine = m', uh_out = out @ [42] @ filter (\<lambda>c. c \<noteq> 0) data @ [10] \<rparr>)
        (kbind (vwrites 0 my m) (vwrites 0 tgt)))"
    "nd_sim (d3, [], []) nd_empty"
    using assms(9,4,5) my assms(6) s(2,3) assms(8) refl by (rule udp_server_stores)
  have fault: "udp_server eth' dev' \<lparr> uh_dev = d2, uh_arp = t', uh_machine = m, uh_out = out \<rparr> = Some (Inl Out_Of_Range)"
    if low: "ReleaseLowMemory pg = Inr (ma_pg m)"
  proof -
    have "my \<noteq> []" using my by auto
    from ReleaseLowMemory_null_store [OF low this] show ?thesis using r(2) by simp
  qed
  show ?thesis using s(1,6,7) refl s(4,5) r(1,3,2) fault by (intro exI conjI impI)
qed

definition low_mapped :: "PhysmemCtrl PagingCtrl" where
  "low_mapped = boot_paging \<lparr> tables := (\<lambda>_ _. 3) \<rparr>"

theorem udp_send_receive_witness:
  "\<exists>devs t d devs' f d1 d2 pg. Udp_Send (\<lambda>_. replicate 6 2) 7 7 (replicate 1518 0) [10, 0, 2, 2] 53 [104, 105] t devs = Some (Inr devs') \<and>
    drv_transmit (devs' 0) = Inr (Some f, d1) \<and> drv_receive f d = Inr d2 \<and> ReleaseLowMemory low_mapped = Inr pg \<and>
    udp_server (replicate 6 1) 0 \<lparr> uh_dev = d2, uh_arp = ArpTable_new, uh_machine = \<lparr> ma_pg = pg, ma_ram = (\<lambda>_. 0) \<rparr>, uh_out = [] \<rparr> = Some (Inl Out_Of_Range)"
proof -
  obtain d where d: "nd_sim (d, [], []) nd_empty"
    by (rule nd_init [of "replicate 301 0" "[0..<300]" "[300..<600]" "\<lambda>_. \<lparr> pk_len = 0, pk_data = replicate 2048 0 \<rparr>" "replicate 8 0"])
      (simp_all add: kNetDevRing_def MCLBYTES_def)
  have "arp_ok ArpTable_new []" by (simp add: arp_ok_def ArpTable_new_def OList_new_def ls_repr_def unlocked_def)
  then obtain t ids where t: "arp_ok t ids" "arp_map t ids (addr_int [10, 0, 2, 2]) = Some (0, replicate 6 1)"
    using ArpTable_Set_ok [of ArpTable_new "[]" "replicate 6 1" "addr_int [10, 0, 2, 2]" 0] by auto
  obtain pg where pg: "ReleaseLowMemory low_mapped = Inr pg" by (simp add: ReleaseLowMemory_def low_mapped_def PRESENT_BIT_def)
  define m where "m = \<lparr> ma_pg = pg, ma_ram = (\<lambda>_. 0) \<rparr>"
  have low: "ReleaseLowMemory low_mapped = Inr (ma_pg m)" using pg by (simp add: m_def)
  have l: "length (replicate 6 1 :: bytes) = 6" "length ((\<lambda>_ :: nat. replicate 6 2 :: bytes) 0) = 6" "length [10, 0, 2, 2 :: u8] = 4"
    "length (replicate 1518 0 :: bytes) = 1518" "length [104, 105 :: u8] \<le> 1475" by simp_all
  from udp_send_receive [of "\<lambda>_. d" 0, OF d t l d refl, of 7 7 53 "replicate 6 1" 0 ArpTable_new m "[]" low_mapped]
  obtain devs' f d1 d2 where r: "Udp_Send (\<lambda>_. replicate 6 2) 7 7 (replicate 1518 0) [10, 0, 2, 2] 53 [104, 105] t (\<lambda>_. d) = Some (Inr devs')"
    "drv_transmit (devs' 0) = Inr (Some f, d1)" "drv_receive f d = Inr d2"
    "ReleaseLowMemory low_mapped = Inr (ma_pg m) \<longrightarrow>
      udp_server (replicate 6 1) 0 \<lparr> uh_dev = d2, uh_arp = ArpTable_new, uh_machine = m, uh_out = [] \<rparr> = Some (Inl Out_Of_Range)"
    by (elim exE conjE)
  show ?thesis using r(1-3) pg r(4) [rule_format, OF low] unfolding m_def by (intro exI conjI)
qed

text \<open>the server trusts the length field of a received UDP header: on a packet buffer of 2048 bytes it copies within the
  buffer exactly when the field is at least eight and the datagram that it announces ends inside the buffer. A smaller
  field wraps around, so that more than 65000 bytes behind the packet are read.\<close>

theorem udp_data_bounds:
  assumes "length buf = MCLBYTES" and "off + 6 \<le> MCLBYTES"
    and "n = push_bit 8 (ucast (buf ! (off + 4))) OR ucast (buf ! (off + 5))"
  shows "((\<exists>t. udp_data buf off = Inr t) \<longleftrightarrow> 8 \<le> unat (n :: u16) \<and> off + unat n \<le> MCLBYTES) \<and>
    (unat n < 8 \<longrightarrow> udp_data buf off = Inl Out_Of_Range \<and> unat (n - 8) = 65528 + unat n)"
proof -
  have h: "sub_bytes off 6 buf = Inr (take 6 (drop off buf))" using assms(1,2) by (simp add: sub_bytes_def)
  have nth: "take 6 (drop off buf) ! 4 = buf ! (off + 4)" "take 6 (drop off buf) ! 5 = buf ! (off + 5)"
    using assms(1,2) by simp_all
  have u: "unat (n - 8) = (if 8 \<le> unat n then unat n - 8 else 65528 + unat n)"
  proof -
    have "unat (n - 8) = (if 8 \<le> unat n then unat n - unat (8 :: u16) else unat n + 2 ^ LENGTH(16) - unat (8 :: u16))"
      using unat_sub_if' [of n 8] by (simp add: word_le_unat)
    then show ?thesis by simp
  qed
  have e: "udp_data buf off = kbind (sub_bytes (off + 8) (unat (n - 8)) buf) (\<lambda>src.
     kbind (memcpy (Array_new 0 (unat (n - 8))) src (unat (n - 8))) (\<lambda>data.
     kmap (\<lambda>t. t @ [10]) (print_array data 0 (unat (n - 8)))))"
    unfolding udp_data_def h kbind_Inr nth Let_def assms(3) [symmetric] ..
  have m: "kbind (memcpy (Array_new 0 k) src k) (\<lambda>data. kmap (\<lambda>t. t @ [10]) (print_array data 0 k)) =
      Inr (filter (\<lambda>c. c \<noteq> 0) src @ [10])" if "length src = k" for src k
    using that memcpy_ok [of k "Array_new 0 k" src] print_array_drop [of 0 k src] by (simp add: Array_new_def)
  have "udp_data buf off = (if off + 8 + unat (n - 8) \<le> MCLBYTES
      then Inr (filter (\<lambda>c. c \<noteq> 0) (take (unat (n - 8)) (drop (off + 8) buf)) @ [10]) else Inl Out_Of_Range)"
  proof (cases "off + 8 + unat (n - 8) \<le> MCLBYTES")
    case True
    then have "length (take (unat (n - 8)) (drop (off + 8) buf)) = unat (n - 8)" using assms(1) by simp
    from m [OF this] show ?thesis using True assms(1) e by (simp add: sub_bytes_def)
  next
    case False
    then show ?thesis using assms(1) e by (simp add: sub_bytes_def)
  qed
  then show ?thesis using u by (auto simp: MCLBYTES_def)
qed

theorem udp_data_bounds_witness:
  "udp_data (replicate 2048 0) 34 = Inl Out_Of_Range"
  using udp_data_bounds [of "replicate 2048 0" 34 0] by (simp add: MCLBYTES_def)

end
