(* ===== verification/Byte_Layout.thy ===== *)
theory Byte_Layout
  imports Libc
begin

text \<open>
  Structures in memory and on a disk: a part of a sequence of bytes, the replacement of a part, and the numbers that
  bytes stand for.
\<close>

section \<open>Parts of a byte sequence\<close>

text \<open>The bytes from \<open>off\<close> on, and the replacement of bytes there\<close>

definition bytes_at :: "nat \<Rightarrow> nat \<Rightarrow> bytes \<Rightarrow> bytes" where
  "bytes_at off n b = take n (drop off b)"

definition patch :: "nat \<Rightarrow> bytes \<Rightarrow> bytes \<Rightarrow> bytes" where
  "patch off new b = take off b @ new @ drop (off + length new) b"

lemma length_bytes_at [simp]: "off + n \<le> length b \<Longrightarrow> length (bytes_at off n b) = n"
  by (simp add: bytes_at_def)

lemma length_patch [simp]: "off + length new \<le> length b \<Longrightarrow> length (patch off new b) = length b"
  by (simp add: patch_def)

lemma bytes_at_patch_same: "off + length new \<le> length b \<Longrightarrow> bytes_at off (length new) (patch off new b) = new"
  by (simp add: bytes_at_def patch_def)

lemma bytes_at_patch_other:
  assumes "off + length new \<le> length b" and "o2 + n \<le> off \<or> off + length new \<le> o2"
  shows "bytes_at o2 n (patch off new b) = bytes_at o2 n b"
  using assms by (auto simp: bytes_at_def patch_def intro!: nth_equalityI simp: nth_append)

lemma bytes_at_bytes_at: "o2 + n2 \<le> n \<Longrightarrow> bytes_at o2 n2 (bytes_at off n b) = bytes_at (off + o2) n2 b"
  by (simp add: bytes_at_def drop_take add.commute min_def)

lemma bytes_at_split: "bytes_at off (n + m) b = bytes_at off n b @ bytes_at (off + n) m b"
  unfolding bytes_at_def take_add drop_drop by (simp only: add.commute [of n off])

lemma bytes_at_0 [simp]: "bytes_at off 0 b = []"
  by (simp add: bytes_at_def)

text \<open>The bytes of a text\<close>

definition ascii :: "string \<Rightarrow> bytes" where
  "ascii = map (\<lambda>c. of_nat (of_char c))"

section \<open>Numbers\<close>

text \<open>The processor stores numbers with the low byte first.\<close>

fun le_nat :: "bytes \<Rightarrow> nat" where
  "le_nat [] = 0"
| "le_nat (b # bs) = unat b + 256 * le_nat bs"

fun le_bytes :: "nat \<Rightarrow> nat \<Rightarrow> bytes" where
  "le_bytes 0 k = []"
| "le_bytes (Suc n) k = of_nat (k mod 256) # le_bytes n (k div 256)"

definition get16 :: "nat \<Rightarrow> bytes \<Rightarrow> u16" where
  "get16 off b = of_nat (le_nat (bytes_at off 2 b))"

definition get32 :: "nat \<Rightarrow> bytes \<Rightarrow> u32" where
  "get32 off b = of_nat (le_nat (bytes_at off 4 b))"

definition get64 :: "nat \<Rightarrow> bytes \<Rightarrow> u64" where
  "get64 off b = of_nat (le_nat (bytes_at off 8 b))"

lemma le_nat_zeros [simp]: "le_nat (replicate n 0) = 0"
  by (induction n) auto

lemma length_le_bytes [simp]: "length (le_bytes n k) = n"
  by (induction n arbitrary: k) auto

lemma le_nat_le_bytes [simp]: "le_nat (le_bytes n k) = k mod 256 ^ n"
proof (induction n arbitrary: k)
  case (Suc n)
  have "unat (of_nat (k mod 256) :: u8) = k mod 256" by (simp add: unat_of_nat)
  then show ?case using Suc by (simp add: mod_mult2_eq)
qed simp

lemma get16_le_bytes: "of_nat (le_nat (le_bytes 2 (unat x))) = x" for x :: u16
  using unsigned_less [of x, where ?'a = nat] by simp

lemma get32_le_bytes: "of_nat (le_nat (le_bytes 4 (unat x))) = x" for x :: u32
  using unsigned_less [of x, where ?'a = nat] by simp

end
