(* ===== verification/Storage_Dev.thy ===== *)
theory Storage_Dev
  imports Byte_Layout
begin

unbundle bit_operations_syntax

text \<open>
  Storage devices: the results of \<open>io.h\<close>, the interface \<open>Storage\<close> and the table of devices of
  \<open>dev/storage/storage.cc\<close>, and the RAM disk of \<open>dev/storage/ramdisk.cc\<close>. An operation on a device takes the state of the
  device and gives a result and the new state. The contract of a device is the locale \<open>storage\<close>; the RAM disk meets it as long as
  its image is smaller than 2 GiB.
\<close>

section \<open>Results of input and output\<close>

datatype IoReturnState = kOk | kPending | kErrInvalid | kErrHardware | kErrNoHwResource | kErrNoSwResource | kErrNotFound

text \<open>\<open>Ok\<close> is \<open>kOk\<close> with what is returned through the reference parameters, \<open>Err\<close> any other state, and \<open>Stop\<close> halts the kernel.\<close>

datatype 'a io = Ok 'a | Err IoReturnState | Stop kfault

type_synonym ('s, 'a) dev_op = "'s \<Rightarrow> 'a io \<times> 's"

text \<open>\<open>RETURN_IF_IOSTATE_NOT_OK\<close>\<close>

definition iobind :: "('s, 'a) dev_op \<Rightarrow> ('a \<Rightarrow> ('s, 'b) dev_op) \<Rightarrow> ('s, 'b) dev_op" where
  "iobind m f s = (case m s of (Ok x, s') \<Rightarrow> f x s' | (Err e, s') \<Rightarrow> (Err e, s') | (Stop k, s') \<Rightarrow> (Stop k, s'))"

definition ioret :: "'a \<Rightarrow> ('s, 'a) dev_op" where
  "ioret x s = (Ok x, s)"

definition ioerr :: "IoReturnState \<Rightarrow> ('s, 'a) dev_op" where
  "ioerr e s = (Err e, s)"

text \<open>A part that cannot fail but may halt the kernel\<close>

definition iok :: "'a kres \<Rightarrow> ('s, 'a) dev_op" where
  "iok r s = (case r of Inl k \<Rightarrow> (Stop k, s) | Inr x \<Rightarrow> (Ok x, s))"

section \<open>The interface\<close>

record 's Storage =
  st_Read :: "u64 \<Rightarrow> u64 \<Rightarrow> ('s, bytes) dev_op"
  st_Write :: "bytes \<Rightarrow> u64 \<Rightarrow> u64 \<Rightarrow> ('s, unit) dev_op"

text \<open>The templates for values: a value is its bytes, \<open>n\<close> is \<open>sizeof(T)\<close>.\<close>

definition Storage_Read :: "'s Storage \<Rightarrow> nat \<Rightarrow> u64 \<Rightarrow> ('s, bytes) dev_op" where
  "Storage_Read dev n offset = st_Read dev offset (of_nat n)"

definition Storage_Write :: "'s Storage \<Rightarrow> bytes \<Rightarrow> u64 \<Rightarrow> ('s, unit) dev_op" where
  "Storage_Write dev buf offset = st_Write dev buf offset (of_nat (length buf))"

section \<open>The RAM disk\<close>

text \<open>An index of type \<open>size_t\<close> is converted to the \<open>int\<close> that \<open>Array\<close> takes.\<close>

definition image_index :: "nat \<Rightarrow> u64 \<Rightarrow> int" where
  "image_index i offset = sint (ucast (of_nat i + offset) :: u32)"

fun ram_read :: "bytes \<Rightarrow> u64 \<Rightarrow> nat \<Rightarrow> nat \<Rightarrow> bytes kres" where
  "ram_read img offset i 0 = Inr []"
| "ram_read img offset i (Suc n) = kbind (Array_get img (image_index i offset)) (\<lambda>c.
     kmap (Cons c) (ram_read img offset (Suc i) n))"

definition Ramdisk_Read :: "u64 \<Rightarrow> u64 \<Rightarrow> (bytes, bytes) dev_op" where
  "Ramdisk_Read offset n img = (if of_nat (length img) < offset + n then (Err kErrInvalid, img)
     else iok (ram_read img offset 0 (unat n)) img)"

fun ram_write :: "bytes \<Rightarrow> u64 \<Rightarrow> nat \<Rightarrow> nat \<Rightarrow> bytes \<Rightarrow> bytes kres" where
  "ram_write buf offset i 0 img = Inr img"
| "ram_write buf offset i (Suc n) img = kbind (array_get buf i) (\<lambda>c.
     kbind (Array_set img (image_index i offset) c) (ram_write buf offset (Suc i) n))"

definition Ramdisk_Write :: "bytes \<Rightarrow> u64 \<Rightarrow> u64 \<Rightarrow> (bytes, unit) dev_op" where
  "Ramdisk_Write buf offset n img = (if of_nat (length img) < offset + n then (Err kErrInvalid, img)
     else case ram_write buf offset 0 (unat n) img of Inl k \<Rightarrow> (Stop k, img) | Inr img' \<Rightarrow> (Ok (), img'))"

definition Ramdisk :: "bytes Storage" where
  "Ramdisk = \<lparr> st_Read = Ramdisk_Read, st_Write = Ramdisk_Write \<rparr>"

text \<open>\<open>InitSub\<close>: \<open>file\<close> is what \<open>LoadFile\<close> gives for the name of the image.\<close>

definition Ramdisk_InitSub :: "bytes option \<Rightarrow> IoReturnState + bytes" where
  "Ramdisk_InitSub file = (case file of None \<Rightarrow> Inl kErrHardware | Some img \<Rightarrow> Inr img)"

section \<open>The table of devices\<close>

definition kElementNum :: nat where
  "kElementNum = 10"

definition kStringLenMax :: nat where
  "kStringLenMax = 9"

type_synonym 'd StorageContainer = "'d option \<times> bytes"

text \<open>The name that \<open>Register\<close> writes into \<open>str\<close>: at most eight characters, then the digit of the entry.\<close>

definition storage_name :: "nat \<Rightarrow> bytes \<Rightarrow> bytes \<Rightarrow> bytes kres" where
  "storage_name i str old = kbind (strlen str) (\<lambda>l. let len = (if l > kStringLenMax - 1 then kStringLenMax - 1 else l) in
     kbind (memcpy old str len) (\<lambda>b.
     if len + 1 < length b then Inr (b[len := 48 + of_nat i, len + 1 := 0]) else Inl Out_Of_Range))"

fun register_storage :: "'d \<Rightarrow> bytes \<Rightarrow> nat \<Rightarrow> 'd StorageContainer list \<Rightarrow> 'd StorageContainer list option kres" where
  "register_storage dev str i [] = Inr None"
| "register_storage dev str i ((d, name) # cs) = (if d = None
     then kmap (\<lambda>b. Some ((Some dev, b) # cs)) (storage_name i str name)
     else kmap (map_option (Cons (d, name))) (register_storage dev str (Suc i) cs))"

definition Storage_Register :: "'d \<Rightarrow> bytes \<Rightarrow> ('d StorageContainer list, unit) dev_op" where
  "Storage_Register dev str cs = (case register_storage dev str 0 cs of
     Inl k \<Rightarrow> (Stop k, cs) | Inr None \<Rightarrow> (Err kErrNoSwResource, cs) | Inr (Some cs') \<Rightarrow> (Ok (), cs'))"

text \<open>\<open>Storage::Init\<close>: \<open>sub\<close> is the result of \<open>InitSub\<close>.\<close>

definition Storage_Init :: "IoReturnState + 'd \<Rightarrow> bytes \<Rightarrow> ('d StorageContainer list, unit) dev_op" where
  "Storage_Init sub name = (case sub of Inl e \<Rightarrow> ioerr e | Inr dev \<Rightarrow> Storage_Register dev name)"

text \<open>\<open>Ramdisk::Attach\<close>: a device that cannot be initialised is deleted. \<open>ram\<close> is its name.\<close>

definition Ramdisk_Attach :: "bytes option \<Rightarrow> bytes StorageContainer list \<Rightarrow> bytes StorageContainer list kres" where
  "Ramdisk_Attach file cs = (case Storage_Init (Ramdisk_InitSub file) [114, 97, 109, 0] cs of
     (Stop k, _) \<Rightarrow> Inl k | (_, cs') \<Rightarrow> Inr cs')"

fun GetDevice :: "bytes \<Rightarrow> 'd StorageContainer list \<Rightarrow> (IoReturnState + 'd) kres" where
  "GetDevice str [] = Inr (Inl kErrNotFound)"
| "GetDevice str ((d, name) # cs) = (case d of None \<Rightarrow> GetDevice str cs
     | Some dev \<Rightarrow> kbind (strcmp str name) (\<lambda>r. if r = 0 then Inr (Inr dev) else GetDevice str cs))"

definition StorageCtrl_new :: "'d StorageContainer list" where
  "StorageCtrl_new = replicate kElementNum (None, replicate (kStringLenMax + 1) 0)"

section \<open>The contract of a device\<close>

lemma iobind_simps [simp]:
  "m s = (Ok x, s') \<Longrightarrow> iobind m f s = f x s'" "m s = (Err e, s') \<Longrightarrow> iobind m f s = (Err e, s')"
  "m s = (Stop k, s') \<Longrightarrow> iobind m f s = (Stop k, s')"
  by (simp_all add: iobind_def)

lemma ioret_simps [simp]: "ioret x s = (Ok x, s)" "ioerr e s = (Err e, s)" "iok (Inr x) s = (Ok x, s)" "iok (Inl k) s = (Stop k, s)"
  by (simp_all add: ioret_def ioerr_def iok_def)

lemma iobind_return [simp]: "iobind (ioret x) f = f x" "iobind (iok (Inr x)) f = f x" "iobind (ioerr e) f = ioerr e" "iobind (iok (Inl k)) f = iok (Inl k)"
  by (simp_all add: iobind_def fun_eq_iff)

locale storage =
  fixes dev :: "'s Storage" and img :: "'s \<Rightarrow> bytes" and ok :: "'s \<Rightarrow> bool"
  assumes small: "ok s \<Longrightarrow> length (img s) < 2 ^ 32"
    and read_ok: "ok s \<Longrightarrow> unat off + unat n \<le> length (img s) \<Longrightarrow>
      st_Read dev off n s = (Ok (bytes_at (unat off) (unat n) (img s)), s)"
    and read_err: "ok s \<Longrightarrow> length (img s) < unat off + unat n \<Longrightarrow> unat off + unat n < 2 ^ 64 \<Longrightarrow>
      st_Read dev off n s = (Err kErrInvalid, s)"
    and write_ok: "ok s \<Longrightarrow> unat off + length b \<le> length (img s) \<Longrightarrow>
      \<exists>s'. st_Write dev b off (of_nat (length b)) s = (Ok (), s') \<and> ok s' \<and> img s' = patch (unat off) b (img s)"
    and write_err: "ok s \<Longrightarrow> length (img s) < unat off + length b \<Longrightarrow> unat off + length b < 2 ^ 64 \<Longrightarrow>
      st_Write dev b off (of_nat (length b)) s = (Err kErrInvalid, s)"
begin

lemma value_read:
  assumes "ok s" and "unat off + n \<le> length (img s)"
  shows "Storage_Read dev n off s = (Ok (bytes_at (unat off) n (img s)), s)"
proof -
  have "n < 2 ^ LENGTH(64)" using small [OF assms(1)] assms(2) by simp
  then have "unat (of_nat n :: u64) = n" by (simp add: unat_of_nat)
  then show ?thesis using read_ok [OF assms(1), of off "of_nat n"] assms(2) by (simp add: Storage_Read_def)
qed

lemma value_read_err:
  assumes "ok s" and "length (img s) < unat off + n" and "unat off + n < 2 ^ 64"
  shows "Storage_Read dev n off s = (Err kErrInvalid, s)"
proof -
  have "unat (of_nat n :: u64) = n" using assms(3) by (simp add: unat_of_nat)
  then show ?thesis using read_err [OF assms(1), of off "of_nat n"] assms(2,3) by (simp add: Storage_Read_def)
qed

lemma value_write:
  assumes "ok s" and "unat off + length b \<le> length (img s)"
  shows "\<exists>s'. Storage_Write dev b off s = (Ok (), s') \<and> ok s' \<and> img s' = patch (unat off) b (img s)"
  using write_ok [OF assms] by (simp add: Storage_Write_def)

lemma write_read:
  assumes "ok s" and "unat off + length b \<le> length (img s)"
  shows "iobind (Storage_Write dev b off) (\<lambda>_. Storage_Read dev (length b) off) s = (Ok b, snd (Storage_Write dev b off s))"
proof -
  obtain s' where s: "Storage_Write dev b off s = (Ok (), s')" "ok s'" "img s' = patch (unat off) b (img s)"
    using value_write [OF assms] by blast
  then show ?thesis using value_read [OF s(2), of off "length b"] assms(2) by (simp add: bytes_at_patch_same)
qed

end

section \<open>The RAM disk meets the contract\<close>

lemma image_index_small:
  assumes "i + unat offset < 2 ^ 31"
  shows "image_index i offset = int (i + unat offset)"
proof -
  have u: "unat (of_nat i + offset :: u64) = i + unat offset"
    using assms by (subst unat_plus_no_wrap) (simp_all add: unat_of_nat)
  then have "unat (ucast (of_nat i + offset :: u64) :: u32) = i + unat offset"
    using assms by (simp add: unsigned_ucast_eq take_bit_nat_eq_self)
  then have "uint (ucast (of_nat i + offset :: u64) :: u32) = int (i + unat offset)"
    by (metis uint_nat)
  moreover have "signed_take_bit 31 (int (i + unat offset)) = int (i + unat offset)"
    using assms by (intro signed_take_bit_int_eq_self) (simp_all del: of_nat_add)
  ultimately show ?thesis unfolding image_index_def by (simp only: sint_uint) simp
qed

lemma ram_read_ok:
  "length b < 2 ^ 31 \<Longrightarrow> i + unat offset + n \<le> length b \<Longrightarrow> ram_read b offset i n = Inr (bytes_at (i + unat offset) n b)"
proof (induction n arbitrary: i)
  case (Suc n)
  then have "image_index i offset = int (i + unat offset)" by (intro image_index_small) simp
  moreover have "bytes_at (i + unat offset) (Suc n) b = b ! (i + unat offset) # bytes_at (Suc i + unat offset) n b"
    using Suc.prems(2) by (simp add: bytes_at_def Cons_nth_drop_Suc [symmetric])
  ultimately show ?case using Suc Array_get_nat [of "i + unat offset" b] by simp
qed simp

lemma patch_step:
  "off + Suc (length new) \<le> length b \<Longrightarrow> patch (Suc off) new (b[off := c]) = patch off (c # new) b"
  by (simp add: patch_def take_Suc_conv_app_nth)

lemma ram_write_ok:
  "length b < 2 ^ 31 \<Longrightarrow> i + unat offset + n \<le> length b \<Longrightarrow> i + n \<le> length buf \<Longrightarrow>
   ram_write buf offset i n b = Inr (patch (i + unat offset) (bytes_at i n buf) b)"
proof (induction n arbitrary: i b)
  case 0
  then show ?case by (simp add: patch_def)
next
  case (Suc n)
  then have "image_index i offset = int (i + unat offset)" by (intro image_index_small) simp
  moreover have "bytes_at i (Suc n) buf = buf ! i # bytes_at (Suc i) n buf"
    using Suc.prems(3) by (simp add: bytes_at_def Cons_nth_drop_Suc [symmetric])
  ultimately show ?case
    using Suc.IH [of "b[i + unat offset := buf ! i]" "Suc i"] Suc.prems patch_step [of "i + unat offset" "bytes_at (Suc i) n buf" b "buf ! i"]
      Array_set_nat [of "i + unat offset" b]
    by (simp add: array_get_ok)
qed

lemma end_in_image:
  assumes "length b < 2 ^ 31" and "unat off + n \<le> length b"
  shows "\<not> (of_nat (length b) :: u64) < off + of_nat n"
proof -
  have "unat (off + of_nat n :: u64) = unat off + n"
    using assms by (subst unat_plus_no_wrap) (simp_all add: unat_of_nat)
  then show ?thesis using assms by (simp add: word_less_unat unat_of_nat)
qed

lemma end_behind_image:
  assumes "length b < 2 ^ 31" and "length b < unat off + n" and "unat off + n < 2 ^ 64"
  shows "(of_nat (length b) :: u64) < off + of_nat n"
proof -
  have "unat (off + of_nat n :: u64) = unat off + n"
    using assms by (subst unat_plus_no_wrap) (simp_all add: unat_of_nat)
  then show ?thesis using assms by (simp add: word_less_unat unat_of_nat)
qed

definition ram_small :: "bytes \<Rightarrow> bool" where
  "ram_small b \<longleftrightarrow> length b < 2 ^ 31"

interpretation ram: storage Ramdisk "\<lambda>b. b" ram_small
proof
  fix s b :: bytes and off n :: u64
  assume "ram_small s"
  then have l: "length s < 2 ^ 31" by (simp add: ram_small_def)
  then show "length s < 2 ^ 32" by simp
  show "st_Read Ramdisk off n s = (Ok (bytes_at (unat off) (unat n) s), s)" if "unat off + unat n \<le> length s"
    using end_in_image [OF l that] ram_read_ok [OF l, of 0 off "unat n"] that by (simp add: Ramdisk_def Ramdisk_Read_def)
  show "st_Read Ramdisk off n s = (Err kErrInvalid, s)" if "length s < unat off + unat n" "unat off + unat n < 2 ^ 64"
    using end_behind_image [OF l that] by (simp add: Ramdisk_def Ramdisk_Read_def)
  show "\<exists>s'. st_Write Ramdisk b off (of_nat (length b)) s = (Ok (), s') \<and> ram_small s' \<and> s' = patch (unat off) b s"
    if w: "unat off + length b \<le> length s"
  proof -
    have "unat (of_nat (length b) :: u64) = length b" using l w by (simp add: unat_of_nat)
    then show ?thesis using end_in_image [OF l w] ram_write_ok [OF l, of 0 off "length b" b] w l
      by (simp add: Ramdisk_def Ramdisk_Write_def ram_small_def bytes_at_def)
  qed
  show "st_Write Ramdisk b off (of_nat (length b)) s = (Err kErrInvalid, s)" if "length s < unat off + length b" "unat off + length b < 2 ^ 64"
    using end_behind_image [OF l that] by (simp add: Ramdisk_def Ramdisk_Write_def)
qed

end
