(* ===== verification/Vfs.thy ===== *)
theory Vfs
  imports Storage_Dev
begin

text \<open>
  The virtual file system of \<open>fs.h\<close> and \<open>fs.cc\<close>: the interface \<open>DiskFileSystem\<close>, the table of inodes in memory with
  its reference counts, the containers that point into it, and the walk along a path. One processor uses the
  file system; the locks are taken and released within each operation.
\<close>

section \<open>The interface of a file system on a disk\<close>

datatype FileType = kDirectory | kFile | kDevice

record Stat =
  sa_type :: FileType
  sa_dev :: int
  sa_ino :: u32
  sa_nlink :: u16
  sa_size :: u32

text \<open>
  Reading gives the returned state, the value that \<open>size\<close> has afterwards, and the bytes that were stored in the buffer,
  also when the state is an error.
\<close>

type_synonym read_result = "IoReturnState \<times> u64 \<times> bytes"

record 's DiskFileSystem =
  dfs_AllocInode :: "FileType \<Rightarrow> ('s, u32) dev_op"
  dfs_GetStatOfInode :: "u32 \<Rightarrow> int \<Rightarrow> ('s, Stat) dev_op"
  dfs_GetRootInodeNum :: u32
  dfs_ReadDataFromInode :: "u32 \<Rightarrow> u64 \<Rightarrow> u64 \<Rightarrow> ('s, read_result) dev_op"
  dfs_DirLookup :: "u32 \<Rightarrow> bytes \<Rightarrow> ('s, int \<times> u32) dev_op"

section \<open>Inodes in memory\<close>

text \<open>The reference count is a C \<open>int\<close>, counted here without a bound: 50 nodes with fewer than \<open>2 ^ 31\<close> references each.\<close>

record Inode =
  in_ref :: int
  in_flags :: int
  in_inum :: u32

definition kNodesNum :: nat where
  "kNodesNum = 50"

record 's Vfs =
  vf_nodes :: "Inode list"
  vf_disk :: 's

definition Inode_IsEmpty :: "Inode \<Rightarrow> bool" where
  "Inode_IsEmpty n \<longleftrightarrow> in_ref n = 0"

definition Inode_DecRef :: "Inode \<Rightarrow> Inode" where
  "Inode_DecRef n = n \<lparr> in_ref := in_ref n - 1 \<rparr>"

definition Vfs_new :: "'s \<Rightarrow> 's Vfs" where
  "Vfs_new disk = \<lparr> vf_nodes = replicate kNodesNum \<lparr> in_ref = 0, in_flags = 0, in_inum = 0 \<rparr>, vf_disk = disk \<rparr>"

text \<open>A container points to a node of the table or nowhere.\<close>

type_synonym InodeContainer = "nat option"

definition InodeContainer_copy :: "InodeContainer \<Rightarrow> Inode list \<Rightarrow> (InodeContainer \<times> Inode list) kres" where
  "InodeContainer_copy obj ns = kbind (deref obj) (\<lambda>i. Inr (Some i, ns[i := (ns ! i) \<lparr> in_ref := in_ref (ns ! i) + 1 \<rparr>]))"

definition InodeContainer_delete :: "InodeContainer \<Rightarrow> Inode list \<Rightarrow> Inode list" where
  "InodeContainer_delete c ns = (case c of None \<Rightarrow> ns | Some i \<Rightarrow> ns[i := Inode_DecRef (ns ! i)])"

definition InitInode :: "InodeContainer \<Rightarrow> InodeContainer \<Rightarrow> u32 \<Rightarrow> Inode list \<Rightarrow> (InodeContainer \<times> Inode list) kres" where
  "InitInode c inode inum ns = (let ns1 = InodeContainer_delete c ns in case inode of
     None \<Rightarrow> Inr (None, ns1)
   | Some i \<Rightarrow> if in_ref (ns1 ! i) \<noteq> 0 then Inl Kernel_Panic
       else Inr (Some i, ns1[i := \<lparr> in_ref = 1, in_flags = 0, in_inum = inum \<rparr>]))"

definition SetIfSame :: "nat \<Rightarrow> u32 \<Rightarrow> Inode list \<Rightarrow> (InodeContainer \<times> Inode list) option" where
  "SetIfSame i inum ns = (if in_ref (ns ! i) \<noteq> 0 \<and> in_inum (ns ! i) = inum
     then Some (Some i, ns[i := (ns ! i) \<lparr> in_ref := in_ref (ns ! i) + 1 \<rparr>]) else None)"

text \<open>The loop of \<open>InodeCtrl::Get\<close> from node \<open>i\<close> on, for \<open>n\<close> nodes\<close>

fun get_node :: "u32 \<Rightarrow> nat \<Rightarrow> nat \<Rightarrow> nat option \<Rightarrow> Inode list \<Rightarrow> (InodeContainer \<times> Inode list) + nat option" where
  "get_node inum i 0 emp ns = Inr emp"
| "get_node inum i (Suc n) emp ns = (case SetIfSame i inum ns of
     Some r \<Rightarrow> Inl r
   | None \<Rightarrow> get_node inum (Suc i) n (if Inode_IsEmpty (ns ! i) then Some i else emp) ns)"

definition InodeCtrl_Get :: "InodeContainer \<Rightarrow> u32 \<Rightarrow> ('s Vfs, InodeContainer) dev_op" where
  "InodeCtrl_Get c inum v = (case get_node inum 0 kNodesNum None (vf_nodes v) of
     Inl (c', ns) \<Rightarrow> (Ok c', v \<lparr> vf_nodes := ns \<rparr>)
   | Inr None \<Rightarrow> (Err kErrNoSwResource, v)
   | Inr (Some i) \<Rightarrow> (case InitInode c (Some i) inum (vf_nodes v) of
       Inl k \<Rightarrow> (Stop k, v)
     | Inr (c', ns) \<Rightarrow> (Ok c', v \<lparr> vf_nodes := ns \<rparr>)))"

text \<open>A call into the file system on the disk\<close>

definition on_disk :: "('s, 'a) dev_op \<Rightarrow> ('s Vfs, 'a) dev_op" where
  "on_disk m v = (case m (vf_disk v) of (r, d) \<Rightarrow> (r, v \<lparr> vf_disk := d \<rparr>))"

definition InodeCtrl_Alloc :: "'s DiskFileSystem \<Rightarrow> FileType \<Rightarrow> InodeContainer \<Rightarrow> ('s Vfs, InodeContainer) dev_op" where
  "InodeCtrl_Alloc dfs type c = iobind (on_disk (dfs_AllocInode dfs type)) (\<lambda>inum. InodeCtrl_Get c inum)"

definition with_node :: "InodeContainer \<Rightarrow> (u32 \<Rightarrow> ('s, 'a) dev_op) \<Rightarrow> ('s Vfs, 'a) dev_op" where
  "with_node c f v = (case c of None \<Rightarrow> (Stop Kassert, v) | Some i \<Rightarrow> on_disk (f (in_inum (vf_nodes v ! i))) v)"

definition Container_GetStat :: "'s DiskFileSystem \<Rightarrow> InodeContainer \<Rightarrow> ('s Vfs, Stat) dev_op" where
  "Container_GetStat dfs c = with_node c (\<lambda>inum. dfs_GetStatOfInode dfs inum 0)"

definition Container_ReadData :: "'s DiskFileSystem \<Rightarrow> InodeContainer \<Rightarrow> u64 \<Rightarrow> u64 \<Rightarrow> ('s Vfs, read_result) dev_op" where
  "Container_ReadData dfs c offset n = with_node c (\<lambda>inum. dfs_ReadDataFromInode dfs inum offset n)"

definition Container_DirLookup :: "'s DiskFileSystem \<Rightarrow> InodeContainer \<Rightarrow> bytes \<Rightarrow> ('s Vfs, int \<times> u32) dev_op" where
  "Container_DirLookup dfs c name = with_node c (\<lambda>inum. dfs_DirLookup dfs inum name)"

definition Vfs_ReadDataFromInode :: "'s DiskFileSystem \<Rightarrow> InodeContainer \<Rightarrow> u64 \<Rightarrow> u64 \<Rightarrow> ('s Vfs, read_result) dev_op" where
  "Vfs_ReadDataFromInode dfs c offset n = (\<lambda>v. case Container_GetStat dfs c v of
     (Err e, v') \<Rightarrow> (Ok (e, n, []), v')
   | (Stop k, v') \<Rightarrow> (Stop k, v')
   | (Ok st, v') \<Rightarrow> if sa_type st = kDevice then (Stop Kernel_Panic, v') else Container_ReadData dfs c offset n v')"

section \<open>Paths\<close>

definition kMaxDirectoryNameLength :: nat where
  "kMaxDirectoryNameLength = 14"

text \<open>
  Reading a path: the string from a pointer on, with its terminator. A string that ends without one is read behind
  its end.
\<close>

fun skip_slashes :: "bytes \<Rightarrow> bytes kres" where
  "skip_slashes [] = Inl Out_Of_Range"
| "skip_slashes (c # p) = (if c = 47 then skip_slashes p else Inr (c # p))"

fun skip_name :: "bytes \<Rightarrow> (nat \<times> bytes) kres" where
  "skip_name [] = Inl Out_Of_Range"
| "skip_name (c # p) = (if c \<noteq> 47 \<and> c \<noteq> 0 then kmap (\<lambda>(n, r). (Suc n, r)) (skip_name p) else Inr (0, c # p))"

text \<open>The result is the rest of the path, \<open>None\<close> for a null pointer, and the buffer \<open>name\<close>.\<close>

definition GetNextPathNameFromPath :: "bytes \<Rightarrow> bytes \<Rightarrow> (bytes option \<times> bytes) kres" where
  "GetNextPathNameFromPath path name = kbind (skip_slashes path) (\<lambda>start.
     if hd start = 0 then Inr (None, name)
     else kbind (skip_name start) (\<lambda>(l, rest).
       let len = (if l > kMaxDirectoryNameLength then kMaxDirectoryNameLength else l) in
       kbind (memcpy name start len) (\<lambda>buf.
       if len < length buf then kmap (\<lambda>r. (Some r, buf[len := 0])) (skip_slashes rest) else Inl Out_Of_Range)))"

lemma skip_slashes_length: "skip_slashes p = Inr r \<Longrightarrow> length r \<le> length p \<and> r \<noteq> [] \<and> hd r \<noteq> 47"
  by (induction p) (fastforce split: if_splits)+

lemma skip_name_length: "skip_name p = Inr (n, r) \<Longrightarrow> length r + n = length p"
  by (induction p arbitrary: n) (auto simp: kres_simps split: if_splits)

lemma GetNext_shorter:
  assumes "GetNextPathNameFromPath path name = Inr (Some rest, buf)"
  shows "length rest < length path"
proof -
  obtain st l r where *: "skip_slashes path = Inr st" "hd st \<noteq> 0" "skip_name st = Inr (l, r)" "skip_slashes r = Inr rest"
    using assms by (auto simp: GetNextPathNameFromPath_def kres_simps Let_def split: if_splits)
  have "st \<noteq> []" "hd st \<noteq> 47" using skip_slashes_length [OF *(1)] by auto
  then have "l \<noteq> 0" using *(2,3) by (cases st) (auto simp: kres_simps)
  then show ?thesis using skip_slashes_length [OF *(1)] skip_slashes_length [OF *(4)] skip_name_length [OF *(3)] by linarith
qed

text \<open>
  The loop of \<open>LookupInodeFromPath\<close>. It gives the container \<open>cinode\<close> at the exit and, in case of success, that \<open>inode\<close> was set to it.
\<close>

function lookup_loop :: "'s DiskFileSystem \<Rightarrow> bool \<Rightarrow> bytes \<Rightarrow> bytes \<Rightarrow> InodeContainer \<Rightarrow> 's Vfs \<Rightarrow> unit io \<times> InodeContainer \<times> 's Vfs" where
  "lookup_loop dfs parent path name c v = (case GetNextPathNameFromPath path name of
     Inl k \<Rightarrow> (Stop k, c, v)
   | Inr (None, _) \<Rightarrow> (if parent then Err kErrInvalid else Ok (), c, v)
   | Inr (Some path', name') \<Rightarrow> (case Container_GetStat dfs c v of
       (Err e, v1) \<Rightarrow> (Err e, c, v1)
     | (Stop k, v1) \<Rightarrow> (Stop k, c, v1)
     | (Ok st, v1) \<Rightarrow>
         if sa_type st \<noteq> kDirectory then (Err kErrInvalid, c, v1)
         else if hd path' = 0 \<and> parent then (Ok (), c, v1)
         else (case Container_DirLookup dfs c name' v1 of
             (Err e, v2) \<Rightarrow> (Err e, c, v2)
           | (Stop k, v2) \<Rightarrow> (Stop k, c, v2)
           | (Ok (offset, inum), v2) \<Rightarrow> (case InodeCtrl_Get c inum v2 of
                 (Err e, v3) \<Rightarrow> (Err e, c, v3)
               | (Stop k, v3) \<Rightarrow> (Stop k, c, v3)
               | (Ok c', v3) \<Rightarrow> lookup_loop dfs parent path' name' c' v3))))"
  by pat_completeness auto
termination
  by (relation "measure (\<lambda>(dfs, parent, path, name, c, v). length path)") (auto dest: GetNext_shorter)

text \<open>
  The local buffer has \<open>kMaxDirectoryNameLength\<close> bytes. \<open>inode = cinode\<close> is the assignment that the compiler
  generates: it copies the pointer and does not count. At every exit the destructor of \<open>cinode\<close> runs.
\<close>

definition LookupInodeFromPath :: "'s DiskFileSystem \<Rightarrow> InodeContainer \<Rightarrow> bytes \<Rightarrow> bool \<Rightarrow> ('s Vfs, InodeContainer) dev_op" where
  "LookupInodeFromPath dfs inode path parent v = (case path of
     [] \<Rightarrow> (Stop Out_Of_Range, v)
   | ch # _ \<Rightarrow> if ch \<noteq> 47 then (Stop Kernel_Panic, v)
     else (case InodeCtrl_Get None (dfs_GetRootInodeNum dfs) v of
         (Err e, v1) \<Rightarrow> (Err e, v1)
       | (Stop k, v1) \<Rightarrow> (Stop k, v1)
       | (Ok c, v1) \<Rightarrow> (case lookup_loop dfs parent path (replicate kMaxDirectoryNameLength 0) c v1 of
             (r, c', v2) \<Rightarrow> let v3 = v2 \<lparr> vf_nodes := InodeContainer_delete c' (vf_nodes v2) \<rparr> in
               (case r of Ok _ \<Rightarrow> (Ok c', v3) | Err e \<Rightarrow> (Err e, v3) | Stop k \<Rightarrow> (Stop k, v3)))))"

declare lookup_loop.simps [simp del] dropWhile_eq_Nil_conv [simp del]

section \<open>Names of a path\<close>

text \<open>Specification: the pieces between slashes that are not empty.\<close>

fun split_slash :: "bytes \<Rightarrow> bytes list" where
  "split_slash [] = [[]]"
| "split_slash (c # p) = (if c = 47 then [] # split_slash p else (c # hd (split_slash p)) # tl (split_slash p))"

definition path_names :: "bytes \<Rightarrow> bytes list" where
  "path_names p = filter (\<lambda>w. w \<noteq> []) (split_slash p)"

lemma split_slash_name: "split_slash p = takeWhile (\<lambda>c. c \<noteq> 47) p #
    (if dropWhile (\<lambda>c. c \<noteq> 47) p = [] then [] else split_slash (tl (dropWhile (\<lambda>c. c \<noteq> 47) p)))"
  by (induction p) auto

lemma path_names_Nil [simp]: "path_names [] = []"
  by (simp add: path_names_def)

lemma path_names_slash [simp]: "path_names (47 # p) = path_names p"
  by (simp add: path_names_def)

lemma path_names_skip: "path_names (dropWhile (\<lambda>c. c = 47) p) = path_names p"
  by (induction p) auto

lemma path_names_start:
  assumes "path_names p = w # ws"
  shows "dropWhile (\<lambda>c. c = 47) p \<noteq> []" and "hd (dropWhile (\<lambda>c. c = 47) p) \<noteq> 47"
proof -
  show ne: "dropWhile (\<lambda>c. c = 47) p \<noteq> []" using assms path_names_skip [of p] by force
  show "hd (dropWhile (\<lambda>c. c = 47) p) \<noteq> 47" using hd_dropWhile [OF ne] .
qed

lemma path_names_name:
  assumes "p \<noteq> []" and "hd p \<noteq> 47"
  shows "path_names p = takeWhile (\<lambda>c. c \<noteq> 47) p # path_names (dropWhile (\<lambda>c. c \<noteq> 47) p)"
proof -
  have t: "takeWhile (\<lambda>c. c \<noteq> 47) p \<noteq> []" using assms by (cases p) auto
  show ?thesis
  proof (cases "dropWhile (\<lambda>c. c \<noteq> 47) p")
    case Nil
    then show ?thesis using split_slash_name [of p] t by (simp add: path_names_def)
  next
    case (Cons d q)
    then have "d = 47" using hd_dropWhile [of "\<lambda>c. c \<noteq> 47" p] by simp
    then show ?thesis using split_slash_name [of p] t Cons by (simp add: path_names_def)
  qed
qed

lemma path_names_no_zero: "0 \<notin> set p \<Longrightarrow> w \<in> set (path_names p) \<Longrightarrow> 0 \<notin> set w"
proof (induction p arbitrary: w rule: length_induct)
  case (1 p)
  show ?case
  proof (cases "p = [] \<or> hd p = 47")
    case True
    then show ?thesis using 1 by (cases p) auto
  next
    case False
    then have e: "path_names p = takeWhile (\<lambda>c. c \<noteq> 47) p # path_names (dropWhile (\<lambda>c. c \<noteq> 47) p)"
      using path_names_name by blast
    have "dropWhile (\<lambda>c. c \<noteq> 47) p = dropWhile (\<lambda>c. c \<noteq> 47) (tl p)" using False by (cases p) auto
    then have "length (dropWhile (\<lambda>c. c \<noteq> 47) p) < length p"
      using False length_dropWhile_le [of "\<lambda>c. c \<noteq> 47" "tl p"] by (cases p) auto
    moreover have "0 \<notin> set (dropWhile (\<lambda>c. c \<noteq> 47) p)" "0 \<notin> set (takeWhile (\<lambda>c. c \<noteq> 47) p)"
      using 1(2) by (auto dest: set_dropWhileD set_takeWhileD)
    ultimately show ?thesis using 1(1,3) e by auto
  qed
qed

lemma skip_slashes_ok: "skip_slashes (p @ 0 # r) = Inr (dropWhile (\<lambda>c. c = 47) p @ 0 # r)"
  by (induction p) auto

lemma skip_name_ok: "0 \<notin> set p \<Longrightarrow>
  skip_name (p @ 0 # r) = Inr (length (takeWhile (\<lambda>c. c \<noteq> 47) p), dropWhile (\<lambda>c. c \<noteq> 47) p @ 0 # r)"
  by (induction p) auto

lemma memcpy_buffer: "n \<le> length d \<Longrightarrow> n \<le> length s \<Longrightarrow> memcpy d s n = Inr (take n s @ drop n d)"
  by (induction d s n rule: memcpy.induct) auto

text \<open>
  With a buffer of fifteen bytes the names come out one after the other, cut to fourteen characters; a smaller buffer
  has to be longer than the name.
\<close>

lemma GetNext_ok:
  assumes "0 \<notin> set p" and "path_names p = w # ws" and "length (take kMaxDirectoryNameLength w) < length name"
  shows "\<exists>q r'. GetNextPathNameFromPath (p @ 0 # r) name =
      Inr (Some (q @ 0 # r), take kMaxDirectoryNameLength w @ 0 # r') \<and>
    length (take kMaxDirectoryNameLength w @ 0 # r') = length name \<and>
    0 \<notin> set q \<and> path_names q = ws \<and> (q = [] \<longleftrightarrow> ws = [])"
proof -
  define st where "st = dropWhile (\<lambda>c. c = 47) p"
  define u where "u = dropWhile (\<lambda>c. c \<noteq> 47) st"
  define q where "q = dropWhile (\<lambda>c. c = 47) u"
  define n where "n = min kMaxDirectoryNameLength (length w)"
  have names: "path_names st = w # ws" using assms(2) by (simp add: st_def path_names_skip)
  then have st: "st \<noteq> []" "hd st \<noteq> 47" using path_names_start [OF assms(2)] by (auto simp: st_def)
  then have w: "w = takeWhile (\<lambda>c. c \<noteq> 47) st" and u: "path_names u = ws" using path_names_name [OF st] names by (auto simp: u_def)
  have z: "0 \<notin> set st" "0 \<notin> set q" using assms(1) by (auto simp: st_def q_def u_def dest!: set_dropWhileD)
  have pq: "path_names q = ws" using u by (simp add: q_def path_names_skip)
  have hq: "q = [] \<or> hd q \<noteq> 47" using hd_dropWhile [of "\<lambda>c. c = 47" u] by (auto simp: q_def)
  have wn: "take n st = take kMaxDirectoryNameLength w"
  proof -
    have "st = w @ u" using w by (simp add: u_def)
    then show ?thesis by (simp add: n_def min_def)
  qed
  have nl: "n \<le> length st" "n < length name" using w assms(3) length_takeWhile_le [of "\<lambda>c. c \<noteq> 47" st] by (auto simp: n_def min_def split: if_splits)
  have c: "memcpy name (st @ 0 # r) n = Inr (take n st @ drop n name)" using memcpy_buffer [of n name "st @ 0 # r"] nl by simp
  have len: "(if length w > kMaxDirectoryNameLength then kMaxDirectoryNameLength else length w) = n" by (auto simp: n_def)
  have hs: "hd (st @ 0 # r) \<noteq> 0" using st(1) z(1) by (cases st) auto
  have "GetNextPathNameFromPath (p @ 0 # r) name = Inr (Some (q @ 0 # r), (take n st @ drop n name)[n := 0])"
    using skip_slashes_ok [of p r, folded st_def] skip_name_ok [OF z(1), of r, folded u_def w] skip_slashes_ok [of u r, folded q_def] c hs nl
    by (simp add: GetNextPathNameFromPath_def len)
  moreover have "(take n st @ drop n name)[n := 0] = take n st @ 0 # drop (Suc n) name"
    using nl by (simp add: list_update_append Cons_nth_drop_Suc [symmetric])
  moreover have "q = [] \<longleftrightarrow> ws = []" using pq hq path_names_name [of q] by (cases "q = []") auto
  moreover have "length (take n st @ 0 # drop (Suc n) name) = length name" using nl by simp
  ultimately show ?thesis using wn z pq
    by - (rule exI [of _ q], rule exI [of _ "drop (Suc n) name"], simp)
qed

lemma GetNext_end:
  assumes "0 \<notin> set p" and "path_names p = []"
  shows "GetNextPathNameFromPath (p @ 0 # r) name = Inr (None, name)"
proof -
  have "dropWhile (\<lambda>c. c = 47) p = []"
  proof (rule ccontr)
    assume n: "dropWhile (\<lambda>c. c = 47) p \<noteq> []"
    then show False using path_names_name [OF n] hd_dropWhile [OF n] assms(2) by (simp add: path_names_skip)
  qed
  then show ?thesis using skip_slashes_ok [of p r] by (simp add: GetNextPathNameFromPath_def)
qed

lemma GetNext_overflow:
  assumes "0 \<notin> set p" and "path_names p = w # ws" and "kMaxDirectoryNameLength \<le> length w" and "length name = kMaxDirectoryNameLength"
  shows "GetNextPathNameFromPath (p @ 0 # r) name = Inl Out_Of_Range"
proof -
  define st where "st = dropWhile (\<lambda>c. c = 47) p"
  define n where "n = min kMaxDirectoryNameLength (length w)"
  have names: "path_names st = w # ws" using assms(2) by (simp add: st_def path_names_skip)
  then have st: "st \<noteq> []" "hd st \<noteq> 47" using path_names_start [OF assms(2)] by (auto simp: st_def)
  then have w: "w = takeWhile (\<lambda>c. c \<noteq> 47) st" using path_names_name [OF st] names by auto
  have z: "0 \<notin> set st" using assms(1) by (auto simp: st_def dest!: set_dropWhileD)
  have hs: "hd (st @ 0 # r) \<noteq> 0" using st(1) z by (cases st) auto
  have nl: "n = kMaxDirectoryNameLength" "n \<le> length st" using w assms(3) length_takeWhile_le [of "\<lambda>c. c \<noteq> 47" st] by (auto simp: n_def)
  have c: "memcpy name (st @ 0 # r) n = Inr (take n st @ drop n name)" using memcpy_buffer [of n name "st @ 0 # r"] nl assms(4) by simp
  have len: "(if length w > kMaxDirectoryNameLength then kMaxDirectoryNameLength else length w) = n" by (auto simp: n_def)
  show ?thesis
    using skip_slashes_ok [of p r, folded st_def] skip_name_ok [OF z, of r, folded w] c hs nl assms(4)
    by (simp add: GetNextPathNameFromPath_def len)
qed

declare dropWhile_eq_Nil_conv [simp]

section \<open>The table of inodes\<close>

definition table_ok :: "Inode list \<Rightarrow> bool" where
  "table_ok ns \<longleftrightarrow> length ns = kNodesNum \<and> (\<forall>n \<in> set ns. 0 \<le> in_ref n)"

definition holds_node :: "InodeContainer \<Rightarrow> Inode list \<Rightarrow> bool" where
  "holds_node c ns \<longleftrightarrow> (case c of None \<Rightarrow> True | Some i \<Rightarrow> i < length ns \<and> 1 \<le> in_ref (ns ! i))"

definition free_nodes :: "Inode list \<Rightarrow> nat" where
  "free_nodes ns = length (filter Inode_IsEmpty ns)"

lemma free_nodes_update: "free_nodes ns \<le> Suc (free_nodes (ns[i := n]))"
proof -
  let ?A = "\<lambda>ns. {j. j < length ns \<and> Inode_IsEmpty (ns ! j)}"
  have "?A ns \<subseteq> insert i (?A (ns[i := n]))" by (auto simp: nth_list_update)
  then have "card (?A ns) \<le> card (insert i (?A (ns[i := n])))" by (intro card_mono) auto
  also have "\<dots> \<le> Suc (card (?A (ns[i := n])))" by (intro card_insert_le_m1) auto
  finally show ?thesis by (simp add: free_nodes_def length_filter_conv_card)
qed

lemma free_nodes_keep:
  assumes "\<not> Inode_IsEmpty (ns ! i)"
  shows "free_nodes ns \<le> free_nodes (ns[i := n])"
proof -
  let ?A = "\<lambda>ns. {j. j < length ns \<and> Inode_IsEmpty (ns ! j)}"
  have "?A ns \<subseteq> ?A (ns[i := n])" using assms by (auto simp: nth_list_update_neq) (metis nth_list_update_neq)
  then have "card (?A ns) \<le> card (?A (ns[i := n]))" by (intro card_mono) auto
  then show ?thesis by (simp add: free_nodes_def length_filter_conv_card)
qed

lemma get_node_cases:
  "case get_node inum i n emp ns of
     Inl r \<Rightarrow> \<exists>k. i \<le> k \<and> k < i + n \<and> in_ref (ns ! k) \<noteq> 0 \<and> in_inum (ns ! k) = inum \<and>
         r = (Some k, ns[k := (ns ! k) \<lparr> in_ref := in_ref (ns ! k) + 1 \<rparr>])
   | Inr None \<Rightarrow> emp = None \<and> (\<forall>k. i \<le> k \<and> k < i + n \<longrightarrow> \<not> Inode_IsEmpty (ns ! k))
   | Inr (Some k) \<Rightarrow> (i \<le> k \<and> k < i + n \<and> Inode_IsEmpty (ns ! k)) \<or> emp = Some k"
proof (induction n arbitrary: i emp)
  case (Suc n)
  show ?case
  proof (cases "in_ref (ns ! i) \<noteq> 0 \<and> in_inum (ns ! i) = inum")
    case True
    then show ?thesis by (auto simp: SetIfSame_def)
  next
    case False
    define e where "e = (if Inode_IsEmpty (ns ! i) then Some i else emp)"
    have g: "get_node inum i (Suc n) emp ns = get_node inum (Suc i) n e ns" using False by (auto simp: SetIfSame_def e_def)
    have bound: "i \<le> k \<and> k < i + Suc n \<longleftrightarrow> k = i \<or> Suc i \<le> k \<and> k < Suc i + n" for k by auto
    show ?thesis unfolding g bound using Suc.IH [of "Suc i" e]
      by (auto split: sum.splits option.splits if_splits simp: e_def)
  qed
qed (auto split: option.splits)

lemma table_ok_update: "table_ok ns \<Longrightarrow> 0 \<le> in_ref n \<Longrightarrow> table_ok (ns[i := n])"
  by (auto simp: table_ok_def dest: set_update_subset_insert [THEN subsetD])

lemma table_ok_delete: "table_ok ns \<Longrightarrow> holds_node c ns \<Longrightarrow> table_ok (InodeContainer_delete c ns)"
  by (auto simp: InodeContainer_delete_def holds_node_def Inode_DecRef_def intro!: table_ok_update split: option.splits)

lemma free_nodes_delete:
  "holds_node c ns \<Longrightarrow> free_nodes ns \<le> free_nodes (InodeContainer_delete c ns)"
  by (auto simp: InodeContainer_delete_def holds_node_def Inode_IsEmpty_def intro!: free_nodes_keep split: option.splits)

text \<open>\<open>Get\<close> finds or makes a counted node for the inode as long as a node is free.\<close>

lemma InodeCtrl_Get_ok:
  assumes t: "table_ok (vf_nodes v)" and c: "holds_node c (vf_nodes v)" and f: "0 < free_nodes (vf_nodes v)"
  shows "\<exists>k ns. InodeCtrl_Get c inum v = (Ok (Some k), v \<lparr> vf_nodes := ns \<rparr>) \<and> table_ok ns \<and> holds_node (Some k) ns \<and>
    in_inum (ns ! k) = inum \<and> free_nodes (vf_nodes v) \<le> Suc (free_nodes ns)"
proof -
  let ?ns = "vf_nodes v"
  have len: "length ?ns = kNodesNum" using t by (simp add: table_ok_def)
  have ex: "\<exists>k < kNodesNum. Inode_IsEmpty (?ns ! k)"
    using f len by (auto simp: free_nodes_def filter_empty_conv in_set_conv_nth)
  show ?thesis
  proof (cases "get_node inum 0 kNodesNum None ?ns")
    case (Inl r)
    then obtain k where k: "k < kNodesNum" "in_ref (?ns ! k) \<noteq> 0" "in_inum (?ns ! k) = inum"
      "r = (Some k, ?ns[k := (?ns ! k) \<lparr> in_ref := in_ref (?ns ! k) + 1 \<rparr>])"
      using get_node_cases [where inum = inum and i = 0 and n = kNodesNum and emp = None and ns = ?ns] by auto
    have r: "0 \<le> in_ref (?ns ! k)" using t k(1) len by (simp add: table_ok_def)
    then show ?thesis using Inl k len t table_ok_update [OF t, of "(?ns ! k) \<lparr> in_ref := in_ref (?ns ! k) + 1 \<rparr>" k] free_nodes_update [of ?ns]
      by (auto simp: InodeCtrl_Get_def holds_node_def)
  next
    case (Inr e)
    then obtain k where e: "e = Some k" and k: "k < kNodesNum" "Inode_IsEmpty (?ns ! k)"
      using get_node_cases [where inum = inum and i = 0 and n = kNodesNum and emp = None and ns = ?ns] ex by (auto split: option.splits)
    let ?d = "InodeContainer_delete c ?ns"
    let ?n = "\<lparr> in_ref = 1, in_flags = 0, in_inum = inum \<rparr>"
    have nk: "?d ! k = ?ns ! k" using c k(2)
      by (auto simp: InodeContainer_delete_def holds_node_def Inode_IsEmpty_def nth_list_update split: option.splits)
    have ld: "length ?d = kNodesNum" using len by (simp add: InodeContainer_delete_def split: option.splits)
    have g: "InodeCtrl_Get c inum v = (Ok (Some k), v \<lparr> vf_nodes := ?d[k := ?n] \<rparr>)"
      using Inr e k nk by (simp add: InodeCtrl_Get_def InitInode_def Inode_IsEmpty_def)
    have "free_nodes ?ns \<le> Suc (free_nodes (?d[k := ?n]))"
      using free_nodes_delete [OF c] free_nodes_update [of ?d k ?n] by linarith
    then show ?thesis using g k ld table_ok_update [OF table_ok_delete [OF t c], of ?n k]
      by (intro exI [of _ k] exI [of _ "?d[k := ?n]"]) (simp add: holds_node_def)
  qed
qed

lemma Vfs_new_ok: "table_ok (vf_nodes (Vfs_new d))" "free_nodes (vf_nodes (Vfs_new d)) = kNodesNum" "vf_disk (Vfs_new d) = d"
  by (auto simp: Vfs_new_def table_ok_def free_nodes_def Inode_IsEmpty_def)

section \<open>The command cat\<close>

text \<open>
  \<open>catSub\<close> of \<open>main.cc\<close>: \<open>st0\<close> and \<open>buf0\<close> are what the variable \<open>st\<close> and the buffer hold before they are set. The states that
  \<open>GetStatOfInode\<close> and \<open>ReadData\<close> return are not looked at. Printing a zero byte with \<open>%c\<close> prints nothing.
\<close>

definition catSub :: "Stat \<Rightarrow> (nat \<Rightarrow> u8) \<Rightarrow> 's DiskFileSystem \<Rightarrow> bytes \<Rightarrow> ('s Vfs, bool \<times> bytes) dev_op" where
  "catSub st0 buf0 dfs path v = (case LookupInodeFromPath dfs None path False v of
     (Stop k, v1) \<Rightarrow> (Stop k, v1)
   | (Err e, v1) \<Rightarrow> (Ok (False, []), v1)
   | (Ok inode, v1) \<Rightarrow> (case Container_GetStat dfs inode v1 of
         (Stop k, v2) \<Rightarrow> (Stop k, v2)
       | (r, v2) \<Rightarrow> let st = (case r of Ok st \<Rightarrow> st | _ \<Rightarrow> st0) in
           (case Container_ReadData dfs inode 0 (ucast (sa_size st)) v2 of
             (Stop k, v3) \<Rightarrow> (Stop k, v3)
           | (Err e, v3) \<Rightarrow> (Stop Out_Of_Range, v3)
           | (Ok (rstate, s, data), v3) \<Rightarrow>
               let buf = map (\<lambda>i. if i < length data then data ! i else buf0 i) [0..<unat s] in
               (Ok (True, filter (\<lambda>c. c \<noteq> 0) buf @ [10]), v3 \<lparr> vf_nodes := InodeContainer_delete inode (vf_nodes v3) \<rparr>))))"

section \<open>The contract of a file system on a disk\<close>

text \<open>Specification of the walk along the names of a path\<close>

fun walk :: "(u32 \<Rightarrow> bool) \<Rightarrow> (u32 \<Rightarrow> bytes \<Rightarrow> u32 option) \<Rightarrow> u32 \<Rightarrow> bytes list \<Rightarrow> IoReturnState + u32" where
  "walk isdir ent i [] = Inr i"
| "walk isdir ent i (w # ws) = (if \<not> isdir i then Inl kErrInvalid
     else case ent i w of None \<Rightarrow> Inl kErrNotFound | Some j \<Rightarrow> walk isdir ent j ws)"

definition short_names :: "bytes \<Rightarrow> bool" where
  "short_names p \<longleftrightarrow> (\<forall>w \<in> set (path_names p). length w < kMaxDirectoryNameLength)"

lemma on_disk_read: "m (vf_disk v) = (r, vf_disk v) \<Longrightarrow> on_disk m v = (r, v)"
  by (simp add: on_disk_def)

locale disk_fs =
  fixes dfs :: "'s DiskFileSystem" and good :: "'s \<Rightarrow> bool" and known :: "'s \<Rightarrow> u32 \<Rightarrow> bool"
    and stat_of :: "'s \<Rightarrow> u32 \<Rightarrow> Stat" and ent :: "'s \<Rightarrow> u32 \<Rightarrow> bytes \<Rightarrow> u32 option" and data :: "'s \<Rightarrow> u32 \<Rightarrow> bytes"
  assumes root: "good s \<Longrightarrow> known s (dfs_GetRootInodeNum dfs)"
    and stat: "good s \<Longrightarrow> known s i \<Longrightarrow> dfs_GetStatOfInode dfs i 0 s = (Ok (stat_of s i), s)"
    and lookup: "good s \<Longrightarrow> known s i \<Longrightarrow> sa_type (stat_of s i) = kDirectory \<Longrightarrow> 0 \<notin> set w \<Longrightarrow> w \<noteq> [] \<Longrightarrow>
      length w < kMaxDirectoryNameLength \<Longrightarrow>
      (case ent s i w of None \<Rightarrow> dfs_DirLookup dfs i (w @ 0 # r) s = (Err kErrNotFound, s)
       | Some j \<Rightarrow> known s j \<and> (\<exists>off. dfs_DirLookup dfs i (w @ 0 # r) s = (Ok (off, j), s)))"
    and sizes: "good s \<Longrightarrow> known s i \<Longrightarrow> unat (sa_size (stat_of s i)) = length (data s i)"
    and read: "good s \<Longrightarrow> known s i \<Longrightarrow> unat off + unat n \<le> length (data s i) \<Longrightarrow>
      dfs_ReadDataFromInode dfs i off n s = (Ok (kOk, n, bytes_at (unat off) (unat n) (data s i)), s)"
begin

abbreviation target :: "'s \<Rightarrow> u32 \<Rightarrow> bytes list \<Rightarrow> IoReturnState + u32" where
  "target s \<equiv> walk (\<lambda>i. sa_type (stat_of s i) = kDirectory) (ent s)"

lemma lookup_step:
  assumes g: "good (vf_disk v)" and h: "known (vf_disk v) (in_inum (vf_nodes v ! k))" and p: "0 \<notin> set p"
    and w: "path_names p = w # ws" and l: "length w < kMaxDirectoryNameLength" and n: "length name = kMaxDirectoryNameLength"
  shows "\<exists>q name'. length name' = kMaxDirectoryNameLength \<and> 0 \<notin> set q \<and> path_names q = ws \<and>
    lookup_loop dfs False (p @ 0 # r) name (Some k) v =
      (if sa_type (stat_of (vf_disk v) (in_inum (vf_nodes v ! k))) \<noteq> kDirectory then (Err kErrInvalid, Some k, v)
       else case ent (vf_disk v) (in_inum (vf_nodes v ! k)) w of
         None \<Rightarrow> (Err kErrNotFound, Some k, v)
       | Some j \<Rightarrow> (case InodeCtrl_Get (Some k) j v of
             (Err e, v3) \<Rightarrow> (Err e, Some k, v3)
           | (Stop k', v3) \<Rightarrow> (Stop k', Some k, v3)
           | (Ok c', v3) \<Rightarrow> lookup_loop dfs False (q @ 0 # r) name' c' v3))"
proof -
  have tw: "take kMaxDirectoryNameLength w = w" using l by simp
  obtain q r' where q: "GetNextPathNameFromPath (p @ 0 # r) name = Inr (Some (q @ 0 # r), w @ 0 # r')"
    "length (w @ 0 # r') = length name" "0 \<notin> set q" "path_names q = ws"
    using GetNext_ok [OF p w, of name r] l n unfolding tw by auto
  let ?i = "in_inum (vf_nodes v ! k)"
  have st: "Container_GetStat dfs (Some k) v = (Ok (stat_of (vf_disk v) ?i), v)"
    using stat [OF g h] by (simp add: Container_GetStat_def with_node_def on_disk_read)
  have w0: "0 \<notin> set w" "w \<noteq> []" using path_names_no_zero [OF p, of w] w by (auto simp: path_names_def filter_eq_Cons_iff)
  have dl: "Container_DirLookup dfs (Some k) (w @ 0 # r') v = (Err kErrNotFound, v)" if "ent (vf_disk v) ?i w = None" "sa_type (stat_of (vf_disk v) ?i) = kDirectory"
    using lookup [OF g h that(2) w0 l, of r'] that(1) by (simp add: Container_DirLookup_def with_node_def on_disk_read)
  have dl2: "\<exists>off. Container_DirLookup dfs (Some k) (w @ 0 # r') v = (Ok (off, j), v)" if "ent (vf_disk v) ?i w = Some j" "sa_type (stat_of (vf_disk v) ?i) = kDirectory" for j
    using lookup [OF g h that(2) w0 l, of r'] that(1) by (auto simp: Container_DirLookup_def with_node_def on_disk_read)
  show ?thesis
  proof (rule exI [of _ q], rule exI [of _ "w @ 0 # r'"], intro conjI)
    show "lookup_loop dfs False (p @ 0 # r) name (Some k) v =
      (if sa_type (stat_of (vf_disk v) ?i) \<noteq> kDirectory then (Err kErrInvalid, Some k, v)
       else case ent (vf_disk v) ?i w of
         None \<Rightarrow> (Err kErrNotFound, Some k, v)
       | Some j \<Rightarrow> (case InodeCtrl_Get (Some k) j v of
             (Err e, v3) \<Rightarrow> (Err e, Some k, v3)
           | (Stop k', v3) \<Rightarrow> (Stop k', Some k, v3)
           | (Ok c', v3) \<Rightarrow> lookup_loop dfs False (q @ 0 # r) (w @ 0 # r') c' v3))"
      by (subst lookup_loop.simps) (use q(1) st dl dl2 in \<open>force split: option.splits\<close>)
  qed (use q n in auto)
qed

lemma lookup_loop_ok:
  "good (vf_disk v) \<Longrightarrow> table_ok (vf_nodes v) \<Longrightarrow> holds_node (Some k) (vf_nodes v) \<Longrightarrow>
   known (vf_disk v) (in_inum (vf_nodes v ! k)) \<Longrightarrow> 0 \<notin> set p \<Longrightarrow> path_names p = ws \<Longrightarrow>
   \<forall>w \<in> set ws. length w < kMaxDirectoryNameLength \<Longrightarrow> length name = kMaxDirectoryNameLength \<Longrightarrow>
   length ws \<le> free_nodes (vf_nodes v) \<Longrightarrow>
   \<exists>c ns. table_ok ns \<and> holds_node (Some c) ns \<and>
     (case target (vf_disk v) (in_inum (vf_nodes v ! k)) ws of
        Inr j \<Rightarrow> lookup_loop dfs False (p @ 0 # r) name (Some k) v = (Ok (), Some c, v \<lparr> vf_nodes := ns \<rparr>) \<and> in_inum (ns ! c) = j \<and> known (vf_disk v) j
      | Inl e \<Rightarrow> lookup_loop dfs False (p @ 0 # r) name (Some k) v = (Err e, Some c, v \<lparr> vf_nodes := ns \<rparr>))"
proof (induction ws arbitrary: v k p name)
  case Nil
  then have "lookup_loop dfs False (p @ 0 # r) name (Some k) v = (Ok (), Some k, v)"
    by (subst lookup_loop.simps) (simp add: GetNext_end)
  then show ?case using Nil by (intro exI [of _ k] exI [of _ "vf_nodes v"]) simp
next
  case (Cons w ws)
  let ?i = "in_inum (vf_nodes v ! k)"
  have lw: "length w < kMaxDirectoryNameLength" using Cons.prems by simp
  obtain q name' where q: "length name' = kMaxDirectoryNameLength" "0 \<notin> set q" "path_names q = ws" and
    step: "lookup_loop dfs False (p @ 0 # r) name (Some k) v =
      (if sa_type (stat_of (vf_disk v) ?i) \<noteq> kDirectory then (Err kErrInvalid, Some k, v)
       else case ent (vf_disk v) ?i w of
         None \<Rightarrow> (Err kErrNotFound, Some k, v)
       | Some j \<Rightarrow> (case InodeCtrl_Get (Some k) j v of
             (Err e, v3) \<Rightarrow> (Err e, Some k, v3)
           | (Stop k', v3) \<Rightarrow> (Stop k', Some k, v3)
           | (Ok c', v3) \<Rightarrow> lookup_loop dfs False (q @ 0 # r) name' c' v3))"
    using lookup_step [OF Cons.prems(1,4,5,6) lw Cons.prems(8), of r] by blast
  show ?case
  proof (cases "sa_type (stat_of (vf_disk v) ?i) = kDirectory \<and> ent (vf_disk v) ?i w \<noteq> None")
    case False
    then show ?thesis using step Cons.prems(2,3)
      by (intro exI [of _ k] exI [of _ "vf_nodes v"]) (auto split: option.splits)
  next
    case True
    then obtain j where j: "ent (vf_disk v) ?i w = Some j" and d: "sa_type (stat_of (vf_disk v) ?i) = kDirectory" by auto
    have w0: "0 \<notin> set w" "w \<noteq> []" using path_names_no_zero [OF Cons.prems(5), of w] Cons.prems(6) by (auto simp: path_names_def filter_eq_Cons_iff)
    have kj: "known (vf_disk v) j" using lookup [OF Cons.prems(1,4) d w0 lw] j by auto
    have f: "0 < free_nodes (vf_nodes v)" using Cons.prems(9) by simp
    obtain k' ns' where g: "InodeCtrl_Get (Some k) j v = (Ok (Some k'), v \<lparr> vf_nodes := ns' \<rparr>)" "table_ok ns'" "holds_node (Some k') ns'"
      "in_inum (ns' ! k') = j" "free_nodes (vf_nodes v) \<le> Suc (free_nodes ns')"
      using InodeCtrl_Get_ok [OF Cons.prems(2,3) f, of j] by blast
    have IH: "\<exists>c ns. table_ok ns \<and> holds_node (Some c) ns \<and>
     (case target (vf_disk v) j ws of
        Inr j \<Rightarrow> lookup_loop dfs False (q @ 0 # r) name' (Some k') (v \<lparr> vf_nodes := ns' \<rparr>) = (Ok (), Some c, v \<lparr> vf_nodes := ns \<rparr>) \<and> in_inum (ns ! c) = j \<and> known (vf_disk v) j
      | Inl e \<Rightarrow> lookup_loop dfs False (q @ 0 # r) name' (Some k') (v \<lparr> vf_nodes := ns' \<rparr>) = (Err e, Some c, v \<lparr> vf_nodes := ns \<rparr>))"
      using Cons.IH [of "v \<lparr> vf_nodes := ns' \<rparr>" k' q name'] g Cons.prems(1,7,9) kj q by (simp cong: sum.case_cong)
    have s1: "lookup_loop dfs False (p @ 0 # r) name (Some k) v = lookup_loop dfs False (q @ 0 # r) name' (Some k') (v \<lparr> vf_nodes := ns' \<rparr>)"
      using step j d g(1) by simp
    have s2: "target (vf_disk v) ?i (w # ws) = target (vf_disk v) j ws" using j d by simp
    show ?thesis using IH unfolding s1 s2 .
  qed
qed

text \<open>A path from the root is walked to the inode that the directories give for it; errors are those of the walk.\<close>

lemma LookupInodeFromPath_ok:
  assumes g: "good (vf_disk v)" and t: "table_ok (vf_nodes v)" and p: "0 \<notin> set p" and sh: "short_names p"
    and f: "length (path_names p) < free_nodes (vf_nodes v)"
  shows "\<exists>c ns. length ns = kNodesNum \<and> c < kNodesNum \<and>
    (case target (vf_disk v) (dfs_GetRootInodeNum dfs) (path_names p) of
       Inr j \<Rightarrow> LookupInodeFromPath dfs c0 (47 # p @ 0 # r) False v = (Ok (Some c), v \<lparr> vf_nodes := ns \<rparr>) \<and> in_inum (ns ! c) = j \<and> known (vf_disk v) j
     | Inl e \<Rightarrow> LookupInodeFromPath dfs c0 (47 # p @ 0 # r) False v = (Err e, v \<lparr> vf_nodes := ns \<rparr>))"
proof -
  have f0: "0 < free_nodes (vf_nodes v)" using f by simp
  let ?root = "dfs_GetRootInodeNum dfs"
  obtain k ns1 where k: "InodeCtrl_Get None ?root v = (Ok (Some k), v \<lparr> vf_nodes := ns1 \<rparr>)" "table_ok ns1" "holds_node (Some k) ns1"
    "in_inum (ns1 ! k) = ?root" "free_nodes (vf_nodes v) \<le> Suc (free_nodes ns1)"
    using InodeCtrl_Get_ok [OF t _ f0, of None ?root] by (auto simp: holds_node_def)
  let ?loop = "lookup_loop dfs False (47 # p @ 0 # r) (replicate kMaxDirectoryNameLength 0) (Some k) (v \<lparr> vf_nodes := ns1 \<rparr>)"
  have "\<exists>c ns. table_ok ns \<and> holds_node (Some c) ns \<and>
     (case target (vf_disk v) ?root (path_names p) of
        Inr j \<Rightarrow> ?loop = (Ok (), Some c, v \<lparr> vf_nodes := ns \<rparr>) \<and> in_inum (ns ! c) = j \<and> known (vf_disk v) j
      | Inl e \<Rightarrow> ?loop = (Err e, Some c, v \<lparr> vf_nodes := ns \<rparr>))"
    using lookup_loop_ok [of "v \<lparr> vf_nodes := ns1 \<rparr>" k "47 # p" "path_names p" "replicate kMaxDirectoryNameLength 0" r]
      g k root [OF g] p sh f by (simp add: short_names_def cong: sum.case_cong)
  then obtain c ns where c: "table_ok ns" "holds_node (Some c) ns"
     "case target (vf_disk v) ?root (path_names p) of
        Inr j \<Rightarrow> ?loop = (Ok (), Some c, v \<lparr> vf_nodes := ns \<rparr>) \<and> in_inum (ns ! c) = j \<and> known (vf_disk v) j
      | Inl e \<Rightarrow> ?loop = (Err e, Some c, v \<lparr> vf_nodes := ns \<rparr>)"
    by blast
  let ?ns = "InodeContainer_delete (Some c) ns"
  have l: "length ?ns = kNodesNum" "c < kNodesNum" "in_inum (?ns ! c) = in_inum (ns ! c)"
    using c(1,2) by (auto simp: InodeContainer_delete_def table_ok_def holds_node_def Inode_DecRef_def)
  show ?thesis using c(3) k(1) l
    by (intro exI [of _ c] exI [of _ ?ns]) (auto simp: LookupInodeFromPath_def split: sum.splits)
qed

text \<open>\<open>catSub\<close> prints the contents of the file at the path.\<close>

lemma catSub_ok:
  assumes g: "good (vf_disk v)" and t: "table_ok (vf_nodes v)" and p: "0 \<notin> set p" and sh: "short_names p"
    and f: "length (path_names p) < free_nodes (vf_nodes v)"
  shows "fst (catSub st0 buf0 dfs (47 # p @ 0 # r) v) =
    (case target (vf_disk v) (dfs_GetRootInodeNum dfs) (path_names p) of
       Inr j \<Rightarrow> Ok (True, filter (\<lambda>c. c \<noteq> 0) (data (vf_disk v) j) @ [10])
     | Inl e \<Rightarrow> Ok (False, []))"
proof -
  obtain c ns where c: "length ns = kNodesNum" "c < kNodesNum"
    "case target (vf_disk v) (dfs_GetRootInodeNum dfs) (path_names p) of
       Inr j \<Rightarrow> LookupInodeFromPath dfs None (47 # p @ 0 # r) False v = (Ok (Some c), v \<lparr> vf_nodes := ns \<rparr>) \<and> in_inum (ns ! c) = j \<and> known (vf_disk v) j
     | Inl e \<Rightarrow> LookupInodeFromPath dfs None (47 # p @ 0 # r) False v = (Err e, v \<lparr> vf_nodes := ns \<rparr>)"
    using LookupInodeFromPath_ok [OF assms, of None r] by blast
  show ?thesis
  proof (cases "target (vf_disk v) (dfs_GetRootInodeNum dfs) (path_names p)")
    case (Inl e)
    then show ?thesis using c(3) by (simp add: catSub_def)
  next
    case (Inr j)
    let ?v = "v \<lparr> vf_nodes := ns \<rparr>" and ?d = "data (vf_disk v) j" and ?st = "stat_of (vf_disk v) j"
    have l: "LookupInodeFromPath dfs None (47 # p @ 0 # r) False v = (Ok (Some c), ?v)" and i: "in_inum (ns ! c) = j" and kj: "known (vf_disk v) j"
      using c(3) Inr by auto
    have st: "Container_GetStat dfs (Some c) ?v = (Ok ?st, ?v)"
      using stat [OF g kj] i by (simp add: Container_GetStat_def with_node_def on_disk_def)
    have sz: "unat (ucast (sa_size ?st) :: u64) = length ?d" using sizes [OF g kj] by simp
    have rd: "Container_ReadData dfs (Some c) 0 (ucast (sa_size ?st)) ?v = (Ok (kOk, ucast (sa_size ?st), ?d), ?v)"
      using read [OF g kj, of 0 "ucast (sa_size ?st)"] i sz by (simp add: Container_ReadData_def with_node_def on_disk_def bytes_at_def)
    have "map (\<lambda>i. if i < length ?d then ?d ! i else buf0 i) [0..<length ?d] = ?d"
      by (intro nth_equalityI) auto
    then show ?thesis using Inr l st rd sz by (simp add: catSub_def)
  qed
qed

end

section \<open>The result of a lookup is not counted\<close>

lemma get_node_all_free:
  "\<forall>k. i \<le> k \<and> k < i + n \<longrightarrow> in_ref (ns ! k) = 0 \<Longrightarrow> get_node inum i n emp ns = Inr (if n = 0 then emp else Some (i + n - 1))"
proof (induction n arbitrary: i emp)
  case (Suc n)
  have "in_ref (ns ! i) = 0" using Suc.prems by simp
  then have "get_node inum i (Suc n) emp ns = get_node inum (Suc i) n (Some i) ns"
    by (simp add: SetIfSame_def Inode_IsEmpty_def)
  then show ?case using Suc.IH [of "Suc i" "Some i"] Suc.prems by simp
qed simp

lemma InodeCtrl_Get_all_free:
  assumes "length (vf_nodes v) = kNodesNum" and "\<forall>n \<in> set (vf_nodes v). in_ref n = 0"
  shows "InodeCtrl_Get None inum v = (Ok (Some 49), v \<lparr> vf_nodes := (vf_nodes v)[49 := \<lparr> in_ref = 1, in_flags = 0, in_inum = inum \<rparr>] \<rparr>)"
proof -
  have "\<forall>k. k < 50 \<longrightarrow> in_ref (vf_nodes v ! k) = 0" using assms by (simp add: kNodesNum_def)
  then have "get_node inum 0 kNodesNum None (vf_nodes v) = Inr (Some 49)"
    using get_node_all_free [of 0 kNodesNum "vf_nodes v" inum None] by (simp add: kNodesNum_def)
  then show ?thesis using assms by (simp add: InodeCtrl_Get_def InitInode_def InodeContainer_delete_def kNodesNum_def)
qed

text \<open>C38: The container that \<open>LookupInodeFromPath\<close> returns is not counted: the assignment copies only the pointer, and the local
  container takes its reference back. After a lookup of the root the returned node counts as free, the next \<open>Get\<close> of
  any inode takes the same node, and the container of the caller then names that other inode.
\<close>

theorem Lookup_result_not_counted:
  "\<exists>v v'. LookupInodeFromPath dfs c (47 # 0 # r) False (Vfs_new d) = (Ok (Some 49), v) \<and>
    in_inum (vf_nodes v ! 49) = dfs_GetRootInodeNum dfs \<and> Inode_IsEmpty (vf_nodes v ! 49) \<and>
    InodeCtrl_Get None j v = (Ok (Some 49), v') \<and> in_inum (vf_nodes v' ! 49) = j"
proof -
  let ?root = "dfs_GetRootInodeNum dfs"
  let ?ns = "replicate kNodesNum \<lparr> in_ref = 0, in_flags = 0, in_inum = 0 \<rparr>"
  let ?v1 = "Vfs_new d \<lparr> vf_nodes := ?ns[49 := \<lparr> in_ref = 1, in_flags = 0, in_inum = ?root \<rparr>] \<rparr>"
  let ?ns2 = "?ns[49 := \<lparr> in_ref = 0, in_flags = 0, in_inum = ?root \<rparr>]"
  have g: "InodeCtrl_Get None ?root (Vfs_new d) = (Ok (Some 49), ?v1)"
    using InodeCtrl_Get_all_free [of "Vfs_new d" ?root] by (simp add: Vfs_new_def)
  have l: "lookup_loop dfs False (47 # 0 # r) (replicate kMaxDirectoryNameLength 0) (Some 49) ?v1 = (Ok (), Some 49, ?v1)"
    using GetNext_end [of "[47]" r] by (subst lookup_loop.simps) simp
  have n49: "49 < kNodesNum" by (simp add: kNodesNum_def)
  have L: "LookupInodeFromPath dfs c (47 # 0 # r) False (Vfs_new d) = (Ok (Some 49), Vfs_new d \<lparr> vf_nodes := ?ns2 \<rparr>)"
    using g l n49 by (simp add: LookupInodeFromPath_def InodeContainer_delete_def Inode_DecRef_def)
  have z: "\<forall>n \<in> set ?ns2. in_ref n = 0" using set_update_subset_insert [of ?ns 49] by force
  show ?thesis using L InodeCtrl_Get_all_free [of "Vfs_new d \<lparr> vf_nodes := ?ns2 \<rparr>" j] z n49 by (simp add: Inode_IsEmpty_def)
qed

end
