(* ===== verification/V6_Fs.thy ===== *)
theory V6_Fs
  imports Vfs
begin

unbundle bit_operations_syntax

text \<open>
  The V6 file system of \<open>v6fs.h\<close> and \<open>v6fs.cc\<close> on a storage device: the structures on the disk, the inodes, the bitmap of
  blocks, reading of a file through its direct blocks and its indirect block, and the search of a directory. Block
  addresses are multiplied in 32 bits as in the code. The theory shows that reading gives the bytes of the file and
  that a directory search gives the first entry of the name, so that the file system meets the contract of \<open>Vfs\<close>.
\<close>

section \<open>Structures on the disk\<close>

definition kBlockSize :: nat where
  "kBlockSize = 512"

definition kNumOfDirectBlocks :: nat where
  "kNumOfDirectBlocks = 12"

definition kNumEntriesOfIndirectBlock :: nat where
  "kNumEntriesOfIndirectBlock = kBlockSize div 4"

record SuperBlock =
  sb_size :: u32
  sb_nblocks :: u32
  sb_ninodes :: u32
  sb_nlog :: u32
  sb_logstart :: u32
  sb_inodestart :: u32
  sb_bmapstart :: u32

definition super_of :: "bytes \<Rightarrow> SuperBlock" where
  "super_of b = \<lparr> sb_size = get32 0 b, sb_nblocks = get32 4 b, sb_ninodes = get32 8 b, sb_nlog = get32 12 b,
     sb_logstart = get32 16 b, sb_inodestart = get32 20 b, sb_bmapstart = get32 24 b \<rparr>"

text \<open>The values of \<open>Type\<close>. The type of an inode on the disk can be any number.\<close>

definition Type_kFree :: u16 where
  "Type_kFree = 0"

definition Type_kDirectory :: u16 where
  "Type_kDirectory = 1"

definition Type_kFile :: u16 where
  "Type_kFile = 2"

definition Type_kDevice :: u16 where
  "Type_kDevice = 3"

record V6fsInodeStruct =
  it_type :: u16
  it_major :: u16
  it_minor :: u16
  it_nlink :: u16
  it_size :: u32
  it_addrs :: "u32 list"
  it_indirect :: u32

definition inode_of :: "bytes \<Rightarrow> V6fsInodeStruct" where
  "inode_of b = \<lparr> it_type = get16 0 b, it_major = get16 2 b, it_minor = get16 4 b, it_nlink = get16 6 b, it_size = get32 8 b,
     it_addrs = map (\<lambda>i. get32 (12 + 4 * i) b) [0..<kNumOfDirectBlocks], it_indirect = get32 60 b \<rparr>"

definition inode_bytes :: "V6fsInodeStruct \<Rightarrow> bytes" where
  "inode_bytes st = le_bytes 2 (unat (it_type st)) @ le_bytes 2 (unat (it_major st)) @ le_bytes 2 (unat (it_minor st)) @
     le_bytes 2 (unat (it_nlink st)) @ le_bytes 4 (unat (it_size st)) @ concat (map (\<lambda>a. le_bytes 4 (unat a)) (it_addrs st)) @
     le_bytes 4 (unat (it_indirect st))"

record V6fsInode =
  vi_index :: u32
  vi_st :: V6fsInodeStruct

section \<open>Inodes\<close>

definition V6fsInode_Init :: "u16 \<Rightarrow> V6fsInode \<Rightarrow> V6fsInode" where
  "V6fsInode_Init type ino = ino \<lparr> vi_st := \<lparr> it_type = type, it_major = 0, it_minor = 0, it_nlink = 0, it_size = 0,
     it_addrs = replicate kNumOfDirectBlocks 0, it_indirect = 0 \<rparr> \<rparr>"

text \<open>The place of an inode: the product with the block size has 32 bits, the index is an \<open>int\<close>.\<close>

definition inode_place :: "SuperBlock \<Rightarrow> u32 \<Rightarrow> u64" where
  "inode_place sb index = ucast (sb_inodestart sb * of_nat kBlockSize) + 64 * scast index"

definition V6fsInode_Read :: "'s Storage \<Rightarrow> SuperBlock \<Rightarrow> u32 \<Rightarrow> ('s, V6fsInode) dev_op" where
  "V6fsInode_Read dev sb index = iobind (Storage_Read dev 64 (inode_place sb index))
     (\<lambda>b. ioret \<lparr> vi_index = index, vi_st = inode_of b \<rparr>)"

definition V6fsInode_Write :: "'s Storage \<Rightarrow> SuperBlock \<Rightarrow> V6fsInode \<Rightarrow> ('s, unit) dev_op" where
  "V6fsInode_Write dev sb ino = Storage_Write dev (inode_bytes (vi_st ino)) (inode_place sb (vi_index ino))"

fun ConvType_to :: "FileType \<Rightarrow> u16" where
  "ConvType_to kDirectory = Type_kDirectory"
| "ConvType_to kFile = Type_kFile"
| "ConvType_to kDevice = Type_kDevice"

definition ConvType_from :: "u16 \<Rightarrow> FileType kres" where
  "ConvType_from t = (if t = Type_kDirectory then Inr kDirectory else if t = Type_kFile then Inr kFile
     else if t = Type_kDevice then Inr kDevice else Inl Kassert)"

text \<open>\<open>dev\<close> is the member of \<open>Stat\<close> that the caller has set; \<open>ino\<close> is set by the second function.\<close>

definition V6fsInode_GetStat :: "V6fsInode \<Rightarrow> int \<Rightarrow> ('s, Stat) dev_op" where
  "V6fsInode_GetStat ino d = (if it_type (vi_st ino) = Type_kFree then ioerr kErrNotFound
     else iobind (iok (ConvType_from (it_type (vi_st ino)))) (\<lambda>t.
       ioret \<lparr> sa_type = t, sa_dev = d, sa_ino = 0, sa_nlink = it_nlink (vi_st ino), sa_size = it_size (vi_st ino) \<rparr>))"

definition InodeCtrl_GetStat :: "'s Storage \<Rightarrow> SuperBlock \<Rightarrow> u32 \<Rightarrow> int \<Rightarrow> ('s, Stat) dev_op" where
  "InodeCtrl_GetStat dev sb inum d = iobind (iok (kassert (inum < sb_ninodes sb))) (\<lambda>_.
     iobind (V6fsInode_Read dev sb inum) (\<lambda>ino.
     iobind (V6fsInode_GetStat ino d) (\<lambda>st. ioret (st \<lparr> sa_ino := inum \<rparr>))))"

text \<open>The search for a free inode, from \<open>i\<close> on, for \<open>n\<close> inodes\<close>

fun alloc_inode :: "'s Storage \<Rightarrow> SuperBlock \<Rightarrow> u16 \<Rightarrow> nat \<Rightarrow> nat \<Rightarrow> ('s, u32) dev_op" where
  "alloc_inode dev sb type i 0 = ioerr kErrNoHwResource"
| "alloc_inode dev sb type i (Suc n) = iobind (V6fsInode_Read dev sb (of_nat i)) (\<lambda>ino.
     if it_type (vi_st ino) = Type_kFree
     then iobind (V6fsInode_Write dev sb (V6fsInode_Init type ino)) (\<lambda>_. ioret (of_nat i))
     else alloc_inode dev sb type (Suc i) n)"

definition V6_InodeCtrl_Alloc :: "'s Storage \<Rightarrow> SuperBlock \<Rightarrow> u16 \<Rightarrow> ('s, u32) dev_op" where
  "V6_InodeCtrl_Alloc dev sb type = alloc_inode dev sb type 1 (unat (sb_ninodes sb) - 1)"

section \<open>Blocks\<close>

text \<open>The buffer of \<open>ClearBlock\<close> has \<open>kBlockSize\<close> elements of four bytes.\<close>

definition ClearBlock :: "'s Storage \<Rightarrow> u32 \<Rightarrow> ('s, unit) dev_op" where
  "ClearBlock dev index = Storage_Write dev (replicate (4 * kBlockSize) 0) (ucast (index * of_nat kBlockSize))"

definition free_bit :: "u8 \<Rightarrow> nat option" where
  "free_bit flag = find (\<lambda>bi. flag AND push_bit bi 1 = 0) [0..<8]"

text \<open>
  The loop over the bitmap from block \<open>b\<close> on, for \<open>n\<close> bytes. When \<open>size\<close> is above \<open>2^32 - 8\<close> the counter wraps around to zero behind the
  last byte and the loop, which has changed nothing, starts over for ever.
\<close>

fun alloc_block :: "'s Storage \<Rightarrow> SuperBlock \<Rightarrow> u32 \<Rightarrow> nat \<Rightarrow> ('s, u32) dev_op" where
  "alloc_block dev sb b 0 = (if unat (sb_size sb) > 2 ^ 32 - 8 then iok (Inl Deadlock) else ioerr kErrNoHwResource)"
| "alloc_block dev sb b (Suc n) = (let place = ucast (sb_bmapstart sb * of_nat kBlockSize + b div 8) in
     iobind (Storage_Read dev 1 place) (\<lambda>f. case free_bit (hd f) of
       Some bi \<Rightarrow> iobind (Storage_Write dev [hd f OR push_bit bi 1] place) (\<lambda>_. iobind (ClearBlock dev b) (\<lambda>_. ioret b))
     | None \<Rightarrow> alloc_block dev sb (b + 8) n))"

definition BlockCtrl_Alloc :: "'s Storage \<Rightarrow> SuperBlock \<Rightarrow> ('s, u32) dev_op" where
  "BlockCtrl_Alloc dev sb = alloc_block dev sb 0 ((unat (sb_size sb) + 7) div 8)"

text \<open>\<open>addrs[kNumOfDirectBlocks]\<close> lies behind the array, where the packed structure has \<open>indirect\<close>.\<close>

definition MapBlock :: "'s Storage \<Rightarrow> SuperBlock \<Rightarrow> V6fsInode \<Rightarrow> nat \<Rightarrow> ('s, u32 \<times> V6fsInode) dev_op" where
  "MapBlock dev sb ino index = (let st = vi_st ino in
     if index < kNumOfDirectBlocks then
       iobind (iok (array_get (it_addrs st) index)) (\<lambda>addr.
       if addr = 0 then iobind (BlockCtrl_Alloc dev sb) (\<lambda>a.
         let ino' = ino \<lparr> vi_st := st \<lparr> it_addrs := (it_addrs st)[index := a] \<rparr> \<rparr> in
         iobind (V6fsInode_Write dev sb ino') (\<lambda>_. ioret (a, ino')))
       else ioret (addr, ino))
     else let i = index - kNumOfDirectBlocks in
     if i < kNumEntriesOfIndirectBlock then
       iobind (if it_indirect st = 0 then iobind (BlockCtrl_Alloc dev sb) (\<lambda>a. ioret (a, ino \<lparr> vi_st := st \<lparr> it_indirect := a \<rparr> \<rparr>))
               else ioret (it_indirect st, ino)) (\<lambda>(addr, ino').
       iobind (Storage_Read dev 4 (ucast (addr * of_nat kBlockSize) + of_nat (i * 4))) (\<lambda>e. let entry = get32 0 e in
       if entry = 0 then iobind (BlockCtrl_Alloc dev sb) (\<lambda>a.
         iobind (Storage_Write dev (le_bytes 4 (unat entry)) (ucast (a * of_nat kBlockSize) + of_nat (i * 4))) (\<lambda>_. ioret (a, ino')))
       else ioret (entry, ino')))
     else ioerr kErrInvalid)"

section \<open>Reading a file\<close>

text \<open>
  The loop that reads block by block. An error ends it with the number of bytes read so far. The numbers are not larger than the
  32-bit size of the file, so their sums do not wrap around.
\<close>

definition block_part :: "nat \<Rightarrow> nat \<Rightarrow> nat" where
  "block_part offset rest = (let cur_size = kBlockSize - offset mod kBlockSize in if cur_size > rest then rest else cur_size)"

lemma block_part_pos: "0 < n \<Longrightarrow> 0 < block_part offset n"
  by (simp add: block_part_def kBlockSize_def Let_def)

function read_blocks :: "'s Storage \<Rightarrow> SuperBlock \<Rightarrow> V6fsInode \<Rightarrow> nat \<Rightarrow> nat \<Rightarrow> nat \<Rightarrow> bytes \<Rightarrow> ('s, read_result \<times> V6fsInode) dev_op" where
  "read_blocks dev sb ino offset tot n buf s = (if tot < n then
     (case MapBlock dev sb ino (offset div kBlockSize) s of
       (Stop k, s1) \<Rightarrow> (Stop k, s1)
     | (Err e, s1) \<Rightarrow> (Ok ((e, of_nat tot, buf), ino), s1)
     | (Ok (addr, ino'), s1) \<Rightarrow> let cur_size = block_part offset (n - tot) in
         (case st_Read dev (ucast (addr * of_nat kBlockSize) + of_nat (offset mod kBlockSize)) (of_nat cur_size) s1 of
           (Stop k, s2) \<Rightarrow> (Stop k, s2)
         | (Err e, s2) \<Rightarrow> (Ok ((e, of_nat tot, buf), ino'), s2)
         | (Ok b, s2) \<Rightarrow> read_blocks dev sb ino' (offset + cur_size) (tot + cur_size) n (buf @ b) s2))
     else (Ok ((kOk, of_nat n, buf), ino), s))"
  by pat_completeness auto
termination
  by (relation "measure (\<lambda>(dev, sb, ino, offset, tot, n, buf, s). n - tot)")
    (auto intro!: diff_less_mono2 simp: block_part_pos)

definition V6_ReadDataFromInode :: "'s Storage \<Rightarrow> SuperBlock \<Rightarrow> V6fsInode \<Rightarrow> u64 \<Rightarrow> u64 \<Rightarrow> ('s, read_result \<times> V6fsInode) dev_op" where
  "V6_ReadDataFromInode dev sb ino offset n = (let fsize = ucast (it_size (vi_st ino)) :: u64 in
     if offset > fsize \<or> offset + n < offset then ioret ((kErrInvalid, n, []), ino)
     else let n' = (if offset + n > fsize then fsize - offset else n) in read_blocks dev sb ino (unat offset) 0 (unat n') [])"

definition V6_ReadData :: "'s Storage \<Rightarrow> SuperBlock \<Rightarrow> u32 \<Rightarrow> u64 \<Rightarrow> u64 \<Rightarrow> ('s, read_result) dev_op" where
  "V6_ReadData dev sb inum offset n s = (if \<not> inum < sb_ninodes sb then (Stop Kassert, s)
     else case V6fsInode_Read dev sb inum s of
       (Stop k, s1) \<Rightarrow> (Stop k, s1)
     | (Err e, s1) \<Rightarrow> (Ok (e, n, []), s1)
     | (Ok ino, s1) \<Rightarrow> iobind (V6_ReadDataFromInode dev sb ino offset n) (\<lambda>(r, _). ioret r) s1)"

section \<open>Directories\<close>

text \<open>
  The loop over the entries of a directory of \<open>n\<close> bytes, from byte \<open>i\<close> on. A directory cannot be read behind block 139, so \<open>i\<close> does not wrap
  around. A name of fourteen characters has no terminator in its entry.
\<close>

function dir_loop :: "'s Storage \<Rightarrow> SuperBlock \<Rightarrow> bytes \<Rightarrow> nat \<Rightarrow> V6fsInode \<Rightarrow> nat \<Rightarrow> ('s, int \<times> u32) dev_op" where
  "dir_loop dev sb name n dinode i s = (if i < n then
     (case V6_ReadDataFromInode dev sb dinode (of_nat i) 16 s of
       (Stop k, s1) \<Rightarrow> (Stop k, s1)
     | (Err e, s1) \<Rightarrow> (Err e, s1)
     | (Ok ((rstate, sz, entry), dinode'), s1) \<Rightarrow>
         if rstate \<noteq> kOk then (Err rstate, s1)
         else if sz \<noteq> 16 then (Err kErrInvalid, s1)
         else if get16 0 entry = 0 then dir_loop dev sb name n dinode' (i + 16) s1
         else (case strcmp name (drop 2 entry) of
             Inl k \<Rightarrow> (Stop k, s1)
           | Inr r \<Rightarrow> if r = 0 then (Ok (int i, ucast (get16 0 entry)), s1) else dir_loop dev sb name n dinode' (i + 16) s1))
     else (Err kErrNotFound, s))"
  by pat_completeness auto
termination
  by (relation "measure (\<lambda>(dev, sb, name, n, dinode, i, s). n - i)") auto

definition V6_DirLookup :: "'s Storage \<Rightarrow> SuperBlock \<Rightarrow> V6fsInode \<Rightarrow> bytes \<Rightarrow> ('s, int \<times> u32) dev_op" where
  "V6_DirLookup dev sb dinode name = (if it_type (vi_st dinode) \<noteq> Type_kDirectory then ioerr kErrInvalid
     else dir_loop dev sb name (unat (it_size (vi_st dinode))) dinode 0)"

definition V6_DirLookup_inum :: "'s Storage \<Rightarrow> SuperBlock \<Rightarrow> u32 \<Rightarrow> bytes \<Rightarrow> ('s, int \<times> u32) dev_op" where
  "V6_DirLookup_inum dev sb inum name = iobind (iok (kassert (inum < sb_ninodes sb))) (\<lambda>_.
     iobind (V6fsInode_Read dev sb inum) (\<lambda>dinode. V6_DirLookup dev sb dinode name))"

section \<open>The file system\<close>

definition V6FileSystem :: "'s Storage \<Rightarrow> SuperBlock \<Rightarrow> 's DiskFileSystem" where
  "V6FileSystem dev sb = \<lparr>
     dfs_AllocInode = (\<lambda>type. V6_InodeCtrl_Alloc dev sb (ConvType_to type)),
     dfs_GetStatOfInode = InodeCtrl_GetStat dev sb,
     dfs_GetRootInodeNum = 1,
     dfs_ReadDataFromInode = V6_ReadData dev sb,
     dfs_DirLookup = V6_DirLookup_inum dev sb \<rparr>"

text \<open>The constructor reads the superblock.\<close>

definition V6FileSystem_new :: "'s Storage \<Rightarrow> ('s, SuperBlock) dev_op" where
  "V6FileSystem_new dev s = (case Storage_Read dev 28 (of_nat kBlockSize) s of
     (Ok b, s') \<Rightarrow> (Ok (super_of b), s')
   | (Err e, s') \<Rightarrow> (Stop Kernel_Panic, s')
   | (Stop k, s') \<Rightarrow> (Stop k, s'))"

declare read_blocks.simps [simp del] dir_loop.simps [simp del]

section \<open>Numbers and inodes as bytes\<close>

lemma length_inode_bytes:
  assumes "length (it_addrs st) = kNumOfDirectBlocks"
  shows "length (inode_bytes st) = 64"
proof -
  have "length (concat (map (\<lambda>a. le_bytes 4 (unat a)) as)) = 4 * length as" for as :: "u32 list"
    by (induction as) auto
  then show ?thesis using assms by (simp add: inode_bytes_def kNumOfDirectBlocks_def)
qed

lemma concat_words_at:
  "i < length as \<Longrightarrow> bytes_at (4 * i) 4 (concat (map (\<lambda>a. le_bytes 4 (unat a)) as) @ b) = le_bytes 4 (unat (as ! i))" for as :: "u32 list"
proof (induction as arbitrary: i)
  case (Cons a as)
  show ?case
  proof (cases i)
    case 0
    then show ?thesis by (simp add: bytes_at_def)
  next
    case (Suc j)
    then show ?thesis using Cons by (simp add: bytes_at_def)
  qed
qed simp

text \<open>Writing an inode and reading it back gives the same inode.\<close>

lemma inode_of_inode_bytes:
  assumes "length (it_addrs st) = kNumOfDirectBlocks"
  shows "inode_of (inode_bytes st) = st"
proof (rule V6fsInodeStruct.equality)
  let ?as = "concat (map (\<lambda>a. le_bytes 4 (unat a)) (it_addrs st))"
  let ?h = "le_bytes 2 (unat (it_type st)) @ le_bytes 2 (unat (it_major st)) @ le_bytes 2 (unat (it_minor st)) @
     le_bytes 2 (unat (it_nlink st)) @ le_bytes 4 (unat (it_size st))"
  have la: "length ?as = 48" using length_inode_bytes [OF assms] by (simp add: inode_bytes_def)
  have b: "inode_bytes st = ?h @ ?as @ le_bytes 4 (unat (it_indirect st))" by (simp add: inode_bytes_def)
  have h: "bytes_at off n (inode_bytes st) = bytes_at off n ?h" if "off + n \<le> 12" for off n
    unfolding b using that by (simp add: bytes_at_def)
  have "bytes_at 0 2 ?h = le_bytes 2 (unat (it_type st))" "bytes_at 2 2 ?h = le_bytes 2 (unat (it_major st))"
    "bytes_at 4 2 ?h = le_bytes 2 (unat (it_minor st))" "bytes_at 6 2 ?h = le_bytes 2 (unat (it_nlink st))"
    "bytes_at 8 4 ?h = le_bytes 4 (unat (it_size st))"
    by (simp_all add: bytes_at_def del: le_bytes.simps)
  then show "it_type (inode_of (inode_bytes st)) = it_type st" "it_major (inode_of (inode_bytes st)) = it_major st"
    "it_minor (inode_of (inode_bytes st)) = it_minor st" "it_nlink (inode_of (inode_bytes st)) = it_nlink st"
    "it_size (inode_of (inode_bytes st)) = it_size st"
    using h by (simp_all only: inode_of_def get16_def get32_def V6fsInodeStruct.simps get16_le_bytes get32_le_bytes)
  have "bytes_at 60 4 (inode_bytes st) = le_bytes 4 (unat (it_indirect st))"
    unfolding b using la by (simp add: bytes_at_def del: le_bytes.simps)
  then show "it_indirect (inode_of (inode_bytes st)) = it_indirect st"
    by (simp only: inode_of_def get32_def V6fsInodeStruct.simps get32_le_bytes)
  have "get32 (12 + 4 * i) (inode_bytes st) = it_addrs st ! i" if "i < kNumOfDirectBlocks" for i
  proof -
    have "bytes_at (12 + 4 * i) 4 (inode_bytes st) = bytes_at (4 * i) 4 (?as @ le_bytes 4 (unat (it_indirect st)))"
      unfolding b by (simp add: bytes_at_def)
    then show ?thesis using concat_words_at [of i "it_addrs st"] that assms by (simp only: get32_def get32_le_bytes)
  qed
  then show "it_addrs (inode_of (inode_bytes st)) = it_addrs st"
    using assms by (intro nth_equalityI) (simp_all add: inode_of_def)
qed (simp add: inode_of_def)

section \<open>Files\<close>

text \<open>Specification: the blocks of a file, whether they are all there, and the bytes of the file\<close>

definition blk_ok :: "bytes \<Rightarrow> u32 \<Rightarrow> bool" where
  "blk_ok b a \<longleftrightarrow> a \<noteq> 0 \<and> unat a * 512 + 512 \<le> length b"

definition blk_addr :: "bytes \<Rightarrow> V6fsInodeStruct \<Rightarrow> nat \<Rightarrow> u32" where
  "blk_addr b st i = (if i < kNumOfDirectBlocks then it_addrs st ! i else get32 (unat (it_indirect st) * 512 + 4 * (i - kNumOfDirectBlocks)) b)"

definition file_blocks :: "V6fsInodeStruct \<Rightarrow> nat" where
  "file_blocks st = (unat (it_size st) + 511) div 512"

definition file_ok :: "bytes \<Rightarrow> V6fsInodeStruct \<Rightarrow> bool" where
  "file_ok b st \<longleftrightarrow> length (it_addrs st) = kNumOfDirectBlocks \<and>
     file_blocks st \<le> kNumOfDirectBlocks + kNumEntriesOfIndirectBlock \<and>
     (\<forall>i \<in> set [0..<file_blocks st]. blk_ok b (blk_addr b st i)) \<and>
     (kNumOfDirectBlocks < file_blocks st \<longrightarrow> blk_ok b (it_indirect st))"

definition file_data :: "bytes \<Rightarrow> V6fsInodeStruct \<Rightarrow> bytes" where
  "file_data b st = take (unat (it_size st)) (concat (map (\<lambda>i. bytes_at (unat (blk_addr b st i) * 512) 512 b) [0..<file_blocks st]))"

lemma bytes_at_concat:
  "\<forall>x \<in> set xs. length x = L \<Longrightarrow> q < length xs \<Longrightarrow> m + c \<le> L \<Longrightarrow> bytes_at (q * L + m) c (concat xs) = bytes_at m c (xs ! q)"
proof (induction xs arbitrary: q)
  case (Cons x xs)
  show ?case
  proof (cases q)
    case 0
    then show ?thesis using Cons.prems by (simp add: bytes_at_def)
  next
    case (Suc p)
    then show ?thesis using Cons by (simp add: bytes_at_def add.assoc)
  qed
qed simp

lemma file_ok_block: "file_ok b st \<Longrightarrow> i < file_blocks st \<Longrightarrow> blk_ok b (blk_addr b st i)"
  by (simp add: file_ok_def)

lemma length_concat_blocks:
  assumes "file_ok b st"
  shows "length (concat (map (\<lambda>i. bytes_at (unat (blk_addr b st i) * 512) 512 b) [0..<file_blocks st])) = file_blocks st * 512"
proof -
  have "length (concat (map (\<lambda>i. bytes_at (unat (blk_addr b st i) * 512) 512 b) [0..<n])) = n * 512" if "n \<le> file_blocks st" for n
    using that by (induction n) (use file_ok_block [OF assms] in \<open>auto simp: blk_ok_def\<close>)
  then show ?thesis by simp
qed

lemma length_file_data:
  assumes "file_ok b st"
  shows "length (file_data b st) = unat (it_size st)"
  using length_concat_blocks [OF assms] by (simp add: file_data_def file_blocks_def)

lemma file_data_part:
  assumes f: "file_ok b st" and o: "off + c \<le> unat (it_size st)" and m: "off mod 512 + c \<le> 512" and c: "0 < c"
  shows "bytes_at off c (file_data b st) = bytes_at (unat (blk_addr b st (off div 512)) * 512 + off mod 512) c b"
proof -
  let ?xs = "map (\<lambda>i. bytes_at (unat (blk_addr b st i) * 512) 512 b) [0..<file_blocks st]"
  have q: "off div 512 < file_blocks st" using o c by (simp add: file_blocks_def)
  have l: "\<forall>x \<in> set ?xs. length x = 512" using file_ok_block [OF f] by (auto simp: blk_ok_def)
  have "bytes_at off c (file_data b st) = bytes_at off c (concat ?xs)"
    using o by (simp add: file_data_def bytes_at_def drop_take min_def)
  also have "\<dots> = bytes_at (off div 512 * 512 + off mod 512) c (concat ?xs)" by simp
  also have "\<dots> = bytes_at (off mod 512) c (?xs ! (off div 512))" using bytes_at_concat [OF l _ m, of "off div 512"] q by simp
  also have "\<dots> = bytes_at (unat (blk_addr b st (off div 512)) * 512 + off mod 512) c b"
    using q m by (simp add: bytes_at_bytes_at)
  finally show ?thesis .
qed

lemma block_place:
  assumes "blk_ok b a" and "length b < 2 ^ 32" and "m \<le> 512"
  shows "unat (ucast (a * of_nat kBlockSize :: u32) + of_nat m :: u64) = unat a * 512 + m"
proof -
  have p: "unat (a * of_nat kBlockSize :: u32) = unat a * 512"
    using assms(1,2) by (simp add: blk_ok_def kBlockSize_def unat_word_ariths)
  have "unat a * 512 + m < 2 ^ 64" using assms by (simp add: blk_ok_def)
  then have "unat (ucast (a * of_nat kBlockSize :: u32) :: u64) + unat (of_nat m :: u64) < 2 ^ LENGTH(64)"
    using p assms(3) by (simp add: unat_of_nat)
  then show ?thesis using p assms(3) by (subst unat_plus_no_wrap) (simp_all add: unat_of_nat)
qed

section \<open>Directories and the whole image\<close>

text \<open>Specification: the entries of a directory and the first one with a name\<close>

definition dir_entry :: "bytes \<Rightarrow> V6fsInodeStruct \<Rightarrow> nat \<Rightarrow> bytes" where
  "dir_entry b st k = bytes_at (16 * k) 16 (file_data b st)"

definition entry_inum :: "bytes \<Rightarrow> u16" where
  "entry_inum e = get16 0 e"

definition entry_name :: "bytes \<Rightarrow> bytes" where
  "entry_name e = takeWhile (\<lambda>c. c \<noteq> 0) (drop 2 e)"

definition dir_count :: "V6fsInodeStruct \<Rightarrow> nat" where
  "dir_count st = unat (it_size st) div 16"

definition dir_find :: "bytes \<Rightarrow> V6fsInodeStruct \<Rightarrow> bytes \<Rightarrow> nat option" where
  "dir_find b st w = find (\<lambda>k. entry_inum (dir_entry b st k) \<noteq> 0 \<and> entry_name (dir_entry b st k) = w) [0..<dir_count st]"

definition dir_ok :: "bytes \<Rightarrow> V6fsInodeStruct \<Rightarrow> bool" where
  "dir_ok b st \<longleftrightarrow> unat (it_size st) mod 16 = 0 \<and>
     (\<forall>k \<in> set [0..<dir_count st]. entry_inum (dir_entry b st k) \<noteq> 0 \<longrightarrow> 0 \<in> set (drop 2 (dir_entry b st k)))"

text \<open>An inode of the image, and the images that the file system can be used with\<close>

definition inode_at :: "SuperBlock \<Rightarrow> bytes \<Rightarrow> u32 \<Rightarrow> V6fsInodeStruct" where
  "inode_at sb b i = inode_of (bytes_at (unat (sb_inodestart sb) * 512 + 64 * unat i) 64 b)"

definition v6_known :: "SuperBlock \<Rightarrow> bytes \<Rightarrow> u32 \<Rightarrow> bool" where
  "v6_known sb b i \<longleftrightarrow> i < sb_ninodes sb \<and> it_type (inode_at sb b i) \<in> {Type_kDirectory, Type_kFile, Type_kDevice} \<and>
     file_ok b (inode_at sb b i)"

definition v6_dir_ok :: "SuperBlock \<Rightarrow> bytes \<Rightarrow> u32 \<Rightarrow> bool" where
  "v6_dir_ok sb b i \<longleftrightarrow> dir_ok b (inode_at sb b i) \<and>
     (\<forall>k \<in> set [0..<dir_count (inode_at sb b i)]. let n = entry_inum (dir_entry b (inode_at sb b i) k) in n \<noteq> 0 \<longrightarrow> v6_known sb b (ucast n))"

definition v6_good :: "SuperBlock \<Rightarrow> bytes \<Rightarrow> bool" where
  "v6_good sb b \<longleftrightarrow> unat (sb_inodestart sb) * 512 + 64 * unat (sb_ninodes sb) \<le> length b \<and> v6_known sb b 1 \<and>
     (\<forall>i \<in> set [0..<unat (sb_ninodes sb)]. v6_known sb b (of_nat i) \<longrightarrow> it_type (inode_at sb b (of_nat i)) = Type_kDirectory \<longrightarrow> v6_dir_ok sb b (of_nat i))"

fun v6_type :: "u16 \<Rightarrow> FileType" where
  "v6_type t = (if t = Type_kDirectory then kDirectory else if t = Type_kFile then kFile else kDevice)"

definition v6_stat :: "SuperBlock \<Rightarrow> bytes \<Rightarrow> u32 \<Rightarrow> Stat" where
  "v6_stat sb b i = \<lparr> sa_type = v6_type (it_type (inode_at sb b i)), sa_dev = 0, sa_ino = i,
     sa_nlink = it_nlink (inode_at sb b i), sa_size = it_size (inode_at sb b i) \<rparr>"

definition v6_ent :: "SuperBlock \<Rightarrow> bytes \<Rightarrow> u32 \<Rightarrow> bytes \<Rightarrow> u32 option" where
  "v6_ent sb b i w = map_option (\<lambda>k. ucast (entry_inum (dir_entry b (inode_at sb b i) k))) (dir_find b (inode_at sb b i) w)"

lemma dir_size: "dir_ok b st \<Longrightarrow> unat (it_size st) = 16 * dir_count st"
  by (simp add: dir_ok_def dir_count_def mult_div_mod_eq mod_0_imp_dvd)

lemma v6_good_dir:
  assumes "v6_good sb b" and "v6_known sb b i" and "it_type (inode_at sb b i) = Type_kDirectory"
  shows "v6_dir_ok sb b i"
proof -
  have "unat i < unat (sb_ninodes sb)" using assms(2) by (simp add: v6_known_def word_less_unat)
  then show ?thesis using assms unfolding v6_good_def by (force dest: bspec [of _ _ "unat i"])
qed

lemma inode_place_ok:
  assumes "unat (sb_inodestart sb) * 512 + 64 * unat (sb_ninodes sb) \<le> length b" and "length b < 2 ^ 32" and "i < sb_ninodes sb"
  shows "unat (inode_place sb i) = unat (sb_inodestart sb) * 512 + 64 * unat i"
proof -
  have p: "unat (sb_inodestart sb * of_nat kBlockSize :: u32) = unat (sb_inodestart sb) * 512"
    using assms(1,2) by (simp add: kBlockSize_def unat_word_ariths)
  have i: "unat i < unat (sb_ninodes sb)" using assms(3) by (simp add: word_less_unat)
  then have i2: "unat i < 2 ^ 26" using assms(1,2) by simp
  then have sc: "scast i = (ucast i :: u64)" by (intro scast_small) simp
  have m: "unat (64 * scast i :: u64) = 64 * unat i" using i2 unfolding sc by (simp add: unat_word_ariths)
  show ?thesis unfolding inode_place_def using p m i assms(1,2) by (subst unat_plus_no_wrap) simp_all
qed

context storage
begin

lemma MapBlock_ok:
  assumes "ok s" and f: "file_ok (img s) (vi_st ino)" and i: "i < file_blocks (vi_st ino)"
  shows "MapBlock dev sb ino i s = (Ok (blk_addr (img s) (vi_st ino) i, ino), s)"
proof (cases "i < kNumOfDirectBlocks")
  case True
  have "it_addrs (vi_st ino) ! i \<noteq> 0" "length (it_addrs (vi_st ino)) = kNumOfDirectBlocks"
    using file_ok_block [OF f i] f True by (auto simp: blk_ok_def blk_addr_def file_ok_def)
  then show ?thesis using True by (simp add: MapBlock_def blk_addr_def array_get_ok Let_def)
next
  case False
  let ?a = "it_indirect (vi_st ino)" and ?j = "i - kNumOfDirectBlocks"
  have ind: "blk_ok (img s) ?a" using f i False by (simp add: file_ok_def)
  have "file_blocks (vi_st ino) \<le> kNumOfDirectBlocks + kNumEntriesOfIndirectBlock" using f by (simp add: file_ok_def)
  then have j: "?j < kNumEntriesOfIndirectBlock" using i False by linarith
  then have j4: "?j * 4 + 4 \<le> 512" by (simp add: kNumEntriesOfIndirectBlock_def kBlockSize_def)
  let ?p = "ucast (?a * of_nat kBlockSize :: u32) + of_nat (?j * 4) :: u64"
  have p: "unat ?p = unat ?a * 512 + ?j * 4" by (intro block_place [OF ind small [OF assms(1)]]) (use j4 in linarith)
  then have "Storage_Read dev 4 ?p s = (Ok (bytes_at (unat ?a * 512 + ?j * 4) 4 (img s)), s)"
    using value_read [OF assms(1), of ?p 4] ind j4 by (simp add: blk_ok_def)
  moreover have "get32 0 (bytes_at (unat ?a * 512 + ?j * 4) 4 (img s)) = blk_addr (img s) (vi_st ino) i"
    using False by (simp add: blk_addr_def get32_def bytes_at_def mult.commute)
  moreover have "blk_addr (img s) (vi_st ino) i \<noteq> 0" using file_ok_block [OF f i] by (simp add: blk_ok_def)
  moreover have "?a \<noteq> 0" using ind by (simp add: blk_ok_def)
  ultimately show ?thesis using False j by (simp add: MapBlock_def Let_def)
qed

lemma read_blocks_ok:
  assumes o: "ok s" and f: "file_ok (img s) (vi_st ino)"
  shows "off + n \<le> unat (it_size (vi_st ino)) \<Longrightarrow> tot \<le> n \<Longrightarrow>
    read_blocks dev sb ino (off + tot) tot n buf s =
      (Ok ((kOk, of_nat n, buf @ bytes_at (off + tot) (n - tot) (file_data (img s) (vi_st ino))), ino), s)"
proof (induction "n - tot" arbitrary: tot buf rule: less_induct)
  case less
  show ?case
  proof (cases "tot < n")
    case False
    then show ?thesis using less.prems by (subst read_blocks.simps) simp
  next
    case True
    let ?o = "off + tot"
    define c where "c = block_part ?o (n - tot)"
    let ?a = "blk_addr (img s) (vi_st ino) (?o div 512)"
    let ?p = "ucast (?a * of_nat kBlockSize :: u32) + of_nat (?o mod 512) :: u64"
    have c: "0 < c" "c \<le> n - tot" "?o mod 512 + c \<le> 512"
      using True block_part_pos [of "n - tot" ?o] by (auto simp: c_def block_part_def kBlockSize_def Let_def)
    have q: "?o div 512 < file_blocks (vi_st ino)" using less.prems True by (simp add: file_blocks_def)
    have bk: "blk_ok (img s) ?a" using file_ok_block [OF f q] .
    have m: "MapBlock dev sb ino (?o div kBlockSize) s = (Ok (?a, ino), s)" using MapBlock_ok [OF o f q] by (simp add: kBlockSize_def)
    have p: "unat ?p = unat ?a * 512 + ?o mod 512" using block_place [OF bk small [OF o]] by simp
    have cu: "unat (of_nat c :: u64) = c" using c(3) by (simp add: unat_of_nat)
    have part: "bytes_at ?o c (file_data (img s) (vi_st ino)) = bytes_at (unat ?a * 512 + ?o mod 512) c (img s)"
      using file_data_part [OF f _ c(3) c(1)] less.prems c(2) by simp
    have r: "st_Read dev ?p (of_nat c) s = (Ok (bytes_at ?o c (file_data (img s) (vi_st ino))), s)"
      using read_ok [OF o, of ?p "of_nat c"] bk c(3) by (simp add: p cu part blk_ok_def)
    have IH: "read_blocks dev sb ino (off + (tot + c)) (tot + c) n (buf @ bytes_at ?o c (file_data (img s) (vi_st ino))) s =
      (Ok ((kOk, of_nat n, (buf @ bytes_at ?o c (file_data (img s) (vi_st ino))) @ bytes_at (off + (tot + c)) (n - (tot + c)) (file_data (img s) (vi_st ino))), ino), s)"
      using less.hyps [of "tot + c"] less.prems c by simp
    have sp: "bytes_at ?o (n - tot) (file_data (img s) (vi_st ino)) =
       bytes_at ?o c (file_data (img s) (vi_st ino)) @ bytes_at (off + (tot + c)) (n - (tot + c)) (file_data (img s) (vi_st ino))"
    proof -
      have "n - tot = c + (n - (tot + c))" using c(2) True by linarith
      then show ?thesis using bytes_at_split [of ?o c "n - (tot + c)" "file_data (img s) (vi_st ino)"] by (simp only: add.assoc)
    qed
    show ?thesis unfolding sp using True m r IH
      by (subst read_blocks.simps) (simp add: c_def [symmetric] Let_def kBlockSize_def [symmetric] add.assoc)
  qed
qed

lemma ReadData_ok:
  assumes o: "ok s" and f: "file_ok (img s) (vi_st ino)"
    and off: "unat offset \<le> unat (it_size (vi_st ino))" and nw: "unat offset + unat n < 2 ^ 64"
  shows "V6_ReadDataFromInode dev sb ino offset n s =
    (let m = min (unat n) (unat (it_size (vi_st ino)) - unat offset) in
     (Ok ((kOk, of_nat m, bytes_at (unat offset) m (file_data (img s) (vi_st ino))), ino), s))"
proof -
  let ?f = "ucast (it_size (vi_st ino)) :: u64"
  have pl: "unat (offset + n) = unat offset + unat n" using nw by (intro unat_plus_no_wrap) simp
  have g: "\<not> (offset > ?f \<or> offset + n < offset)" using off pl by (simp add: word_less_unat)
  define m where "m = (if offset + n > ?f then ?f - offset else n)"
  have m: "unat m = min (unat n) (unat (it_size (vi_st ino)) - unat offset)"
    using off pl by (auto simp: m_def word_less_unat unat_minus_le word_le_unat)
  have "V6_ReadDataFromInode dev sb ino offset n s = read_blocks dev sb ino (unat offset) 0 (unat m) [] s"
    using g by (simp add: V6_ReadDataFromInode_def m_def Let_def)
  then show ?thesis using read_blocks_ok [OF o f, of "unat offset" "unat m" 0 sb "[]"] off m by (simp add: Let_def)
qed

end

context storage
begin

lemma entry_read:
  assumes o: "ok s" and f: "file_ok (img s) (vi_st ino)" and d: "dir_ok (img s) (vi_st ino)" and k: "k < dir_count (vi_st ino)"
  shows "V6_ReadDataFromInode dev sb ino (of_nat (16 * k)) 16 s = (Ok ((kOk, 16, dir_entry (img s) (vi_st ino) k), ino), s)"
proof -
  let ?n = "unat (it_size (vi_st ino))"
  have b: "16 * k + 16 \<le> ?n" using k dir_size [OF d] by linarith
  have "?n < 2 ^ 32" using unsigned_less [of "it_size (vi_st ino)", where ?'a = nat] by simp
  then have u: "unat (of_nat (16 * k) :: u64) = 16 * k" using b by (simp only: unat_of_nat) simp
  have "unat (16 :: u64) = 16" by simp
  then show ?thesis using ReadData_ok [OF o f, of "of_nat (16 * k)" 16 sb] b \<open>?n < 2 ^ 32\<close> unfolding u
    by (simp add: min_def dir_entry_def Let_def)
qed

lemma dir_loop_ok:
  assumes o: "ok s" and f: "file_ok (img s) (vi_st ino)" and d: "dir_ok (img s) (vi_st ino)" and w: "0 \<notin> set w"
  shows "k \<le> dir_count (vi_st ino) \<Longrightarrow> dir_loop dev sb (w @ 0 # r) (unat (it_size (vi_st ino))) ino (16 * k) s =
    (case find (\<lambda>k. entry_inum (dir_entry (img s) (vi_st ino) k) \<noteq> 0 \<and> entry_name (dir_entry (img s) (vi_st ino) k) = w) [k..<dir_count (vi_st ino)] of
       None \<Rightarrow> (Err kErrNotFound, s)
     | Some j \<Rightarrow> (Ok (int (16 * j), ucast (entry_inum (dir_entry (img s) (vi_st ino) j))), s))"
proof (induction "dir_count (vi_st ino) - k" arbitrary: k)
  case 0
  have "\<not> 16 * k < unat (it_size (vi_st ino))" using 0 dir_size [OF d] by linarith
  then show ?case using 0 by (subst dir_loop.simps) simp
next
  case (Suc n)
  let ?e = "dir_entry (img s) (vi_st ino) k"
  have k: "k < dir_count (vi_st ino)" using Suc.hyps(2) by simp
  then have lt: "16 * k < unat (it_size (vi_st ino))" using dir_size [OF d] by linarith
  have IH: "dir_loop dev sb (w @ 0 # r) (unat (it_size (vi_st ino))) ino (16 * k + 16) s =
    (case find (\<lambda>k. entry_inum (dir_entry (img s) (vi_st ino) k) \<noteq> 0 \<and> entry_name (dir_entry (img s) (vi_st ino) k) = w) [Suc k..<dir_count (vi_st ino)] of
       None \<Rightarrow> (Err kErrNotFound, s)
     | Some j \<Rightarrow> (Ok (int (16 * j), ucast (entry_inum (dir_entry (img s) (vi_st ino) j))), s))"
  proof -
    have "16 * Suc k = 16 * k + 16" by simp
    moreover have "n = dir_count (vi_st ino) - Suc k" "Suc k \<le> dir_count (vi_st ino)" using Suc.hyps(2) by linarith+
    ultimately show ?thesis using Suc.hyps(1) [of "Suc k"] by (simp only:)
  qed
  have up: "[k..<dir_count (vi_st ino)] = k # [Suc k..<dir_count (vi_st ino)]" using k by (simp add: upt_conv_Cons)
  show ?case
  proof (cases "entry_inum ?e = 0")
    case True
    then show ?thesis using entry_read [OF o f d k, of sb] IH lt
      by (subst dir_loop.simps) (simp add: up entry_inum_def del: upt_Suc)
  next
    case False
    then have "0 \<in> set (drop 2 ?e)" using d k by (auto simp: dir_ok_def)
    then obtain r2 where r2: "drop 2 ?e = entry_name ?e @ 0 # r2"
      unfolding entry_name_def using c_string_split by blast
    have "0 \<notin> set (entry_name ?e)" unfolding entry_name_def by (auto dest: set_takeWhileD)
    then obtain x where x: "strcmp (w @ 0 # r) (drop 2 ?e) = Inr x" "x = 0 \<longleftrightarrow> w = entry_name ?e"
      using strcmp_cstr [OF w, of "entry_name ?e" r r2] r2 by auto
    show ?thesis using entry_read [OF o f d k, of sb] IH lt x False
      by (subst dir_loop.simps) (auto simp: up entry_inum_def simp del: upt_Suc)
  qed
qed

text \<open>The operations by inode number\<close>

lemma inode_read:
  assumes o: "ok s" and g: "v6_good sb (img s)" and i: "i < sb_ninodes sb"
  shows "V6fsInode_Read dev sb i s = (Ok \<lparr> vi_index = i, vi_st = inode_at sb (img s) i \<rparr>, s)"
proof -
  have b: "unat (sb_inodestart sb) * 512 + 64 * unat (sb_ninodes sb) \<le> length (img s)" using g by (simp add: v6_good_def)
  have p: "unat (inode_place sb i) = unat (sb_inodestart sb) * 512 + 64 * unat i" by (rule inode_place_ok [OF b small [OF o] i])
  have "unat i < unat (sb_ninodes sb)" using i by (simp add: word_less_unat)
  then show ?thesis using value_read [OF o, of "inode_place sb i" 64] b by (simp add: V6fsInode_Read_def inode_at_def p)
qed

lemma stat_ok:
  assumes o: "ok s" and g: "v6_good sb (img s)" and k: "v6_known sb (img s) i"
  shows "InodeCtrl_GetStat dev sb i 0 s = (Ok (v6_stat sb (img s) i), s)"
proof -
  have i: "i < sb_ninodes sb" using k by (simp add: v6_known_def)
  have "ConvType_from (it_type (inode_at sb (img s) i)) = Inr (v6_type (it_type (inode_at sb (img s) i)))" "it_type (inode_at sb (img s) i) \<noteq> Type_kFree"
    using k by (auto simp: v6_known_def ConvType_from_def Type_kFree_def Type_kDirectory_def Type_kFile_def Type_kDevice_def)
  then show ?thesis using inode_read [OF o g i] i by (simp add: InodeCtrl_GetStat_def V6fsInode_GetStat_def v6_stat_def)
qed

lemma dir_lookup_ok:
  assumes o: "ok s" and g: "v6_good sb (img s)" and k: "v6_known sb (img s) i"
    and t: "it_type (inode_at sb (img s) i) = Type_kDirectory" and w: "0 \<notin> set w"
  shows "V6_DirLookup_inum dev sb i (w @ 0 # r) s = (case dir_find (img s) (inode_at sb (img s) i) w of
       None \<Rightarrow> (Err kErrNotFound, s)
     | Some j \<Rightarrow> (Ok (int (16 * j), ucast (entry_inum (dir_entry (img s) (inode_at sb (img s) i) j))), s))"
proof -
  have i: "i < sb_ninodes sb" using k by (simp add: v6_known_def)
  have f: "file_ok (img s) (inode_at sb (img s) i)" using k by (simp add: v6_known_def)
  have d: "dir_ok (img s) (inode_at sb (img s) i)" using v6_good_dir [OF g k t] by (simp add: v6_dir_ok_def)
  show ?thesis using dir_loop_ok [OF o, where ino = "\<lparr> vi_index = i, vi_st = inode_at sb (img s) i \<rparr>" and k = 0 and r = r and sb = sb] w f d t inode_read [OF o g i] i
    by (simp add: V6_DirLookup_inum_def V6_DirLookup_def dir_find_def cong: option.case_cong)
qed

lemma ent_known:
  assumes g: "v6_good sb (img s)" and k: "v6_known sb (img s) i" and t: "it_type (inode_at sb (img s) i) = Type_kDirectory"
    and j: "dir_find (img s) (inode_at sb (img s) i) w = Some j"
  shows "v6_known sb (img s) (ucast (entry_inum (dir_entry (img s) (inode_at sb (img s) i) j)))"
proof -
  have "j < dir_count (inode_at sb (img s) i)" "entry_inum (dir_entry (img s) (inode_at sb (img s) i) j) \<noteq> 0"
    using j unfolding dir_find_def find_Some_iff by auto
  then show ?thesis using v6_good_dir [OF g k t] by (simp add: v6_dir_ok_def Let_def)
qed

lemma read_data_ok:
  assumes o: "ok s" and g: "v6_good sb (img s)" and k: "v6_known sb (img s) i"
    and b: "unat off + unat n \<le> length (file_data (img s) (inode_at sb (img s) i))"
  shows "V6_ReadData dev sb i off n s = (Ok (kOk, n, bytes_at (unat off) (unat n) (file_data (img s) (inode_at sb (img s) i))), s)"
proof -
  have i: "i < sb_ninodes sb" and f: "file_ok (img s) (inode_at sb (img s) i)" using k by (auto simp: v6_known_def)
  let ?n = "unat (it_size (inode_at sb (img s) i))"
  have "?n < 2 ^ 32" using unsigned_less [of "it_size (inode_at sb (img s) i)", where ?'a = nat] by simp
  then have "unat off + unat n < 2 ^ 64" "unat off + unat n \<le> ?n" using b length_file_data [OF f] by simp_all
  moreover from this have "min (unat n) (?n - unat off) = unat n" by simp
  ultimately show ?thesis using ReadData_ok [OF o, of "\<lparr> vi_index = i, vi_st = inode_at sb (img s) i \<rparr>" off n sb] f i inode_read [OF o g i]
    by (simp add: V6_ReadData_def Let_def)
qed

end

text \<open>A device that meets its contract makes the file system on it meet the contract of \<open>Vfs\<close>.\<close>

sublocale storage \<subseteq> v6: disk_fs "V6FileSystem dev sb" "\<lambda>s. ok s \<and> v6_good sb (img s)" "\<lambda>s. v6_known sb (img s)" "\<lambda>s. v6_stat sb (img s)"
  "\<lambda>s. v6_ent sb (img s)" "\<lambda>s i. file_data (img s) (inode_at sb (img s) i)" for sb
proof
  fix s i w r and off n :: u64
  assume "ok s \<and> v6_good sb (img s)"
  then have o: "ok s" and g: "v6_good sb (img s)" by auto
  show "v6_known sb (img s) (dfs_GetRootInodeNum (V6FileSystem dev sb))" using g by (simp add: V6FileSystem_def v6_good_def)
  assume k: "v6_known sb (img s) i"
  show "dfs_GetStatOfInode (V6FileSystem dev sb) i 0 s = (Ok (v6_stat sb (img s) i), s)" using stat_ok [OF o g k] by (simp add: V6FileSystem_def)
  show "unat (sa_size (v6_stat sb (img s) i)) = length (file_data (img s) (inode_at sb (img s) i))"
    using k length_file_data [of "img s" "inode_at sb (img s) i"] by (simp add: v6_stat_def v6_known_def)
  show "dfs_ReadDataFromInode (V6FileSystem dev sb) i off n s = (Ok (kOk, n, bytes_at (unat off) (unat n) (file_data (img s) (inode_at sb (img s) i))), s)"
    if "unat off + unat n \<le> length (file_data (img s) (inode_at sb (img s) i))"
    using read_data_ok [OF o g k that] by (simp add: V6FileSystem_def)
  show "case v6_ent sb (img s) i w of None \<Rightarrow> dfs_DirLookup (V6FileSystem dev sb) i (w @ 0 # r) s = (Err kErrNotFound, s)
     | Some j \<Rightarrow> v6_known sb (img s) j \<and> (\<exists>off. dfs_DirLookup (V6FileSystem dev sb) i (w @ 0 # r) s = (Ok (off, j), s))"
    if d: "sa_type (v6_stat sb (img s) i) = kDirectory" and w: "0 \<notin> set w"
  proof -
    have t: "it_type (inode_at sb (img s) i) = Type_kDirectory" using d by (simp add: v6_stat_def split: if_splits)
    show ?thesis using dir_lookup_ok [OF o g k t w, of r] ent_known [OF g k t]
      by (auto simp: v6_ent_def V6FileSystem_def split: option.splits)
  qed
qed

section \<open>Allocation of inodes\<close>

text \<open>The blocks of a file: its data and its indirect block\<close>

definition file_apart :: "nat \<Rightarrow> nat \<Rightarrow> bytes \<Rightarrow> V6fsInodeStruct \<Rightarrow> bool" where
  "file_apart lo hi b st \<longleftrightarrow>
     (\<forall>i \<in> set [0..<file_blocks st]. unat (blk_addr b st i) * 512 + 512 \<le> lo \<or> hi \<le> unat (blk_addr b st i) * 512) \<and>
     (kNumOfDirectBlocks < file_blocks st \<longrightarrow> unat (it_indirect st) * 512 + 512 \<le> lo \<or> hi \<le> unat (it_indirect st) * 512)"

definition inode_end :: "SuperBlock \<Rightarrow> nat" where
  "inode_end sb = unat (sb_inodestart sb) * 512 + 64 * unat (sb_ninodes sb)"

text \<open>A well-formed image: every inode that is not free has a file with all its blocks, none of them in the area of the inodes.\<close>

definition v6_wf :: "SuperBlock \<Rightarrow> bytes \<Rightarrow> bool" where
  "v6_wf sb b \<longleftrightarrow> v6_good sb b \<and> (\<forall>i \<in> set [0..<unat (sb_ninodes sb)]. it_type (inode_at sb b (of_nat i)) \<noteq> Type_kFree \<longrightarrow>
     v6_known sb b (of_nat i) \<and> file_apart (unat (sb_inodestart sb) * 512) (inode_end sb) b (inode_at sb b (of_nat i)))"

lemma v6_wf_used:
  assumes "v6_wf sb b" and "i < sb_ninodes sb" and "it_type (inode_at sb b i) \<noteq> Type_kFree"
  shows "v6_known sb b i" and "file_apart (unat (sb_inodestart sb) * 512) (inode_end sb) b (inode_at sb b i)"
proof -
  have "unat i < unat (sb_ninodes sb)" using assms(2) by (simp add: word_less_unat)
  then have "v6_known sb b i \<and> file_apart (unat (sb_inodestart sb) * 512) (inode_end sb) b (inode_at sb b i)"
    using assms unfolding v6_wf_def by (force dest: bspec [of _ _ "unat i"])
  then show "v6_known sb b i" "file_apart (unat (sb_inodestart sb) * 512) (inode_end sb) b (inode_at sb b i)" by auto
qed

lemma v6_known_used: "v6_known sb b i \<Longrightarrow> i < sb_ninodes sb \<and> it_type (inode_at sb b i) \<noteq> Type_kFree"
  by (auto simp: v6_known_def Type_kFree_def Type_kDirectory_def Type_kFile_def Type_kDevice_def)

text \<open>Bytes that are written outside of the blocks of a file leave the file as it is.\<close>

lemma file_patch:
  assumes f: "file_ok b st" and a: "file_apart lo hi b st" and p: "lo \<le> p" "p + length x \<le> hi" and l: "p + length x \<le> length b"
  shows "file_ok (patch p x b) st" and "file_data (patch p x b) st = file_data b st" and "file_apart lo hi (patch p x b) st"
proof -
  have addr: "blk_addr (patch p x b) st i = blk_addr b st i" if i: "i < file_blocks st" for i
  proof (cases "i < kNumOfDirectBlocks")
    case False
    let ?o = "unat (it_indirect st) * 512 + 4 * (i - kNumOfDirectBlocks)"
    have "file_blocks st \<le> kNumOfDirectBlocks + kNumEntriesOfIndirectBlock" using f by (simp add: file_ok_def)
    then have "4 * (i - kNumOfDirectBlocks) + 4 \<le> 512" using i False by (simp add: kNumEntriesOfIndirectBlock_def kBlockSize_def)
    moreover have "unat (it_indirect st) * 512 + 512 \<le> lo \<or> hi \<le> unat (it_indirect st) * 512" using a i False by (simp add: file_apart_def)
    ultimately have "bytes_at ?o 4 (patch p x b) = bytes_at ?o 4 b" using p l by (intro bytes_at_patch_other) auto
    then show ?thesis using False by (simp add: blk_addr_def get32_def)
  qed (simp add: blk_addr_def)
  show "file_ok (patch p x b) st" "file_apart lo hi (patch p x b) st" using f a addr l by (auto simp: file_ok_def file_apart_def blk_ok_def)
  have "bytes_at (unat (blk_addr b st i) * 512) 512 (patch p x b) = bytes_at (unat (blk_addr b st i) * 512) 512 b" if i: "i < file_blocks st" for i
  proof -
    have "unat (blk_addr b st i) * 512 + 512 \<le> lo \<or> hi \<le> unat (blk_addr b st i) * 512" using a i by (simp add: file_apart_def)
    then show ?thesis using p l by (intro bytes_at_patch_other) auto
  qed
  then have "map (\<lambda>i. bytes_at (unat (blk_addr (patch p x b) st i) * 512) 512 (patch p x b)) [0..<file_blocks st] =
      map (\<lambda>i. bytes_at (unat (blk_addr b st i) * 512) 512 b) [0..<file_blocks st]" using addr by simp
  then show "file_data (patch p x b) st = file_data b st" unfolding file_data_def by (rule arg_cong)
qed

definition fresh_inode :: "u16 \<Rightarrow> V6fsInodeStruct" where
  "fresh_inode t = vi_st (V6fsInode_Init t \<lparr> vi_index = 0, vi_st = inode_of [] \<rparr>)"

lemma fresh_inode_simps [simp]: "it_type (fresh_inode t) = t" "it_size (fresh_inode t) = 0" "length (it_addrs (fresh_inode t)) = kNumOfDirectBlocks"
  by (simp_all add: fresh_inode_def V6fsInode_Init_def)

lemma V6fsInode_Init_fresh: "V6fsInode_Init t ino = \<lparr> vi_index = vi_index ino, vi_st = fresh_inode t \<rparr>"
  by (simp add: V6fsInode_Init_def fresh_inode_def)

lemma file_ok_fresh: "file_ok b (fresh_inode t)" "file_apart lo hi b (fresh_inode t)" "file_data b (fresh_inode t) = []"
  by (simp_all add: file_ok_def file_apart_def file_data_def file_blocks_def)

text \<open>The image after inode \<open>i\<close> was set up\<close>

definition new_inode :: "SuperBlock \<Rightarrow> u16 \<Rightarrow> u32 \<Rightarrow> bytes \<Rightarrow> bytes" where
  "new_inode sb t i b = patch (unat (sb_inodestart sb) * 512 + 64 * unat i) (inode_bytes (fresh_inode t)) b"

lemma inode_at_new:
  assumes "inode_end sb \<le> length b" and "i < sb_ninodes sb" and "j < sb_ninodes sb"
  shows "inode_at sb (new_inode sb t i b) j = (if j = i then fresh_inode t else inode_at sb b j)"
proof -
  let ?p = "\<lambda>i :: u32. unat (sb_inodestart sb) * 512 + 64 * unat i"
  let ?x = "inode_bytes (fresh_inode t)"
  have lx: "length ?x = 64" by (simp add: length_inode_bytes)
  have li: "?p i + length ?x \<le> length b" using assms(1,2) by (simp add: lx inode_end_def word_less_unat)
  show ?thesis
  proof (cases "j = i")
    case True
    then show ?thesis using bytes_at_patch_same [OF li] lx inode_of_inode_bytes [of "fresh_inode t"]
      by (simp add: inode_at_def new_inode_def)
  next
    case False
    then have "unat i \<noteq> unat j" by (simp add: word_unat_eq_iff)
    then have "?p j + 64 \<le> ?p i \<or> ?p i + length ?x \<le> ?p j" using lx by auto
    then have "bytes_at (?p j) 64 (patch (?p i) ?x b) = bytes_at (?p j) 64 b" using li by (intro bytes_at_patch_other)
    then show ?thesis using False by (simp add: inode_at_def new_inode_def)
  qed
qed

lemma new_inode_keeps:
  assumes w: "v6_wf sb b" and i: "i < sb_ninodes sb" and free: "it_type (inode_at sb b i) = Type_kFree"
    and k: "v6_known sb b j"
  shows "v6_known sb (new_inode sb t i b) j" and "inode_at sb (new_inode sb t i b) j = inode_at sb b j"
    and "file_data (new_inode sb t i b) (inode_at sb b j) = file_data b (inode_at sb b j)"
    and "file_apart (unat (sb_inodestart sb) * 512) (inode_end sb) (new_inode sb t i b) (inode_at sb b j)"
proof -
  have e: "inode_end sb \<le> length b" using w by (simp add: v6_wf_def v6_good_def inode_end_def)
  have j: "j < sb_ninodes sb" "j \<noteq> i" using v6_known_used [OF k] free by auto
  then show at: "inode_at sb (new_inode sb t i b) j = inode_at sb b j" using inode_at_new [OF e i, of j t] by simp
  have f: "file_ok b (inode_at sb b j)" using k by (simp add: v6_known_def)
  have pl: "unat (sb_inodestart sb) * 512 + 64 * unat i + length (inode_bytes (fresh_inode t)) \<le> inode_end sb"
    using i by (simp add: length_inode_bytes inode_end_def word_less_unat)
  note fp = file_patch [OF f v6_wf_used(2) [OF w] _ pl, folded new_inode_def]
  show "file_data (new_inode sb t i b) (inode_at sb b j) = file_data b (inode_at sb b j)"
    "file_apart (unat (sb_inodestart sb) * 512) (inode_end sb) (new_inode sb t i b) (inode_at sb b j)"
    using fp pl e v6_known_used [OF k] by simp_all
  show "v6_known sb (new_inode sb t i b) j" using k at fp pl e v6_known_used [OF k] by (simp add: v6_known_def)
qed

lemma new_inode_wf:
  assumes w: "v6_wf sb b" and i: "i < sb_ninodes sb" and free: "it_type (inode_at sb b i) = Type_kFree"
    and t: "t \<in> {Type_kDirectory, Type_kFile, Type_kDevice}"
  shows "v6_wf sb (new_inode sb t i b)" and "v6_known sb (new_inode sb t i b) i" and "length (new_inode sb t i b) = length b"
proof -
  let ?b = "new_inode sb t i b"
  have e: "inode_end sb \<le> length b" using w by (simp add: v6_wf_def v6_good_def inode_end_def)
  show len: "length ?b = length b" using e i by (simp add: new_inode_def length_inode_bytes inode_end_def word_less_unat)
  have ii: "inode_at sb ?b i = fresh_inode t" using inode_at_new [OF e i i] by simp
  then show ki: "v6_known sb ?b i" using i t by (simp add: v6_known_def file_ok_fresh)
  have use: "v6_known sb b j" if "j < sb_ninodes sb" "it_type (inode_at sb ?b j) \<noteq> Type_kFree" "j \<noteq> i" for j
    using v6_wf_used(1) [OF w that(1)] inode_at_new [OF e i that(1), of t] that(2,3) by simp
  note keep = new_inode_keeps [OF w i free]
  have dirs: "v6_dir_ok sb ?b j" if "v6_known sb ?b j" and d: "it_type (inode_at sb ?b j) = Type_kDirectory" for j
  proof (cases "j = i")
    case True
    then show ?thesis by (simp add: ii v6_dir_ok_def dir_ok_def dir_count_def)
  next
    case False
    then have k: "v6_known sb b j" using use v6_known_used [OF that(1)] by blast
    have "v6_dir_ok sb b j" using v6_good_dir [of sb b j] w k d keep(2) [OF k] by (simp add: v6_wf_def)
    then show ?thesis using keep(1) keep(2,3) [OF k] by (auto simp: v6_dir_ok_def dir_ok_def dir_entry_def Let_def)
  qed
  have all: "v6_known sb ?b j \<and> file_apart (unat (sb_inodestart sb) * 512) (inode_end sb) ?b (inode_at sb ?b j)"
    if "j < sb_ninodes sb" "it_type (inode_at sb ?b j) \<noteq> Type_kFree" for j
  proof (cases "j = i")
    case False
    then have k: "v6_known sb b j" using use that by blast
    show ?thesis using keep(1,2,4) [OF k] by simp
  qed (use ki ii file_ok_fresh in auto)
  have "v6_known sb b 1" using w by (simp add: v6_wf_def v6_good_def)
  then have one: "v6_known sb ?b 1" using keep(1) by blast
  have lt: "of_nat j < sb_ninodes sb" if "j < unat (sb_ninodes sb)" for j
    using that by (simp add: word_less_unat unat_of_nat order.strict_trans1 [OF mod_less_eq_dividend])
  show "v6_wf sb ?b" using one dirs all lt e len unfolding v6_wf_def v6_good_def by (simp add: inode_end_def)
qed

context storage
begin

lemma alloc_inode_ok:
  assumes o: "ok s" and g: "v6_good sb (img s)"
  shows "i + n = unat (sb_ninodes sb) \<Longrightarrow>
    (case find (\<lambda>j. it_type (inode_at sb (img s) (of_nat j)) = Type_kFree) [i..<unat (sb_ninodes sb)] of
       None \<Rightarrow> alloc_inode dev sb t i n s = (Err kErrNoHwResource, s)
     | Some j \<Rightarrow> \<exists>s'. alloc_inode dev sb t i n s = (Ok (of_nat j), s') \<and> ok s' \<and> img s' = new_inode sb t (of_nat j) (img s))"
proof (induction n arbitrary: i)
  case (Suc n)
  have le: "i < unat (sb_ninodes sb)" using Suc.prems by simp
  then have u: "unat (of_nat i :: u32) = i" using unsigned_less [of "sb_ninodes sb", where ?'a = nat] by (simp add: unat_of_nat)
  then have lt: "of_nat i < sb_ninodes sb" using le by (simp add: word_less_unat)
  note rd = inode_read [OF o g lt]
  have up: "[i..<unat (sb_ninodes sb)] = i # [Suc i..<unat (sb_ninodes sb)]" using le by (rule upt_conv_Cons)
  show ?case
  proof (cases "it_type (inode_at sb (img s) (of_nat i)) = Type_kFree")
    case False
    then have s1: "alloc_inode dev sb t i (Suc n) s = alloc_inode dev sb t (Suc i) n s" using rd by simp
    have s2: "find (\<lambda>j. it_type (inode_at sb (img s) (of_nat j)) = Type_kFree) [i..<unat (sb_ninodes sb)] =
        find (\<lambda>j. it_type (inode_at sb (img s) (of_nat j)) = Type_kFree) [Suc i..<unat (sb_ninodes sb)]" using False by (simp add: up)
    show ?thesis unfolding s1 s2 using Suc.IH [of "Suc i"] Suc.prems by simp
  next
    case True
    have b: "unat (sb_inodestart sb) * 512 + 64 * unat (sb_ninodes sb) \<le> length (img s)" using g by (simp add: v6_good_def)
    have p: "unat (inode_place sb (of_nat i)) = unat (sb_inodestart sb) * 512 + 64 * i" using inode_place_ok [OF b small [OF o] lt] u by simp
    have lx: "length (inode_bytes (fresh_inode t)) = 64" by (simp add: length_inode_bytes)
    obtain s' where s': "Storage_Write dev (inode_bytes (fresh_inode t)) (inode_place sb (of_nat i)) s = (Ok (), s')" "ok s'"
      "img s' = patch (unat (inode_place sb (of_nat i))) (inode_bytes (fresh_inode t)) (img s)"
      using value_write [OF o, of "inode_place sb (of_nat i)" "inode_bytes (fresh_inode t)"] b le unfolding p lx by auto
    then show ?thesis using True rd by (simp add: up V6fsInode_Write_def V6fsInode_Init_fresh new_inode_def p u)
  qed
qed simp

end

end
