(* ===== verification/File_System.thy ===== *)
theory File_System
  imports V6_Fs
begin

unbundle bit_operations_syntax

text \<open>
  The file system as a whole, on the RAM disk: reading a file, allocating inodes and blocks, and the command \<open>cat\<close> of \<open>main.cc\<close>,
  which goes from the table of devices through the V6 file system and the walk along the path to the bytes that are
  printed.
\<close>

section \<open>An example image\<close>

text \<open>
  Five blocks: the boot block, the superblock, the inodes, the root directory and a file. The root has two entries, itself
  and the file \<open>a\<close>, which holds three bytes. Inode 3 is free.
\<close>

definition pad :: "nat \<Rightarrow> bytes \<Rightarrow> bytes" where
  "pad n b = b @ replicate (n - length b) 0"

definition demo_sb :: SuperBlock where
  "demo_sb = \<lparr> sb_size = 5, sb_nblocks = 2, sb_ninodes = 4, sb_nlog = 0, sb_logstart = 0, sb_inodestart = 2, sb_bmapstart = 0 \<rparr>"

definition demo_super :: bytes where
  "demo_super = [5, 0, 0, 0, 2, 0, 0, 0, 4, 0, 0, 0, 0, 0, 0, 0, 0, 0, 0, 0, 2, 0, 0, 0, 0, 0, 0, 0]"

definition demo_inodes :: "bytes list" where
  "demo_inodes = [pad 64 [], pad 64 [1, 0, 0, 0, 0, 0, 1, 0, 32, 0, 0, 0, 3, 0, 0, 0], pad 64 [2, 0, 0, 0, 0, 0, 1, 0, 3, 0, 0, 0, 4, 0, 0, 0],
     pad 320 []]"

definition demo_dir :: "bytes list" where
  "demo_dir = [pad 16 [1, 0, 46], pad 16 [2, 0, 97], pad 480 []]"

definition demo_blocks :: "bytes list" where
  "demo_blocks = [pad 512 [], pad 512 demo_super, concat demo_inodes, concat demo_dir, pad 512 [104, 105, 10]]"

definition demo_image :: bytes where
  "demo_image = concat demo_blocks"

lemma length_pad [simp]: "length b \<le> n \<Longrightarrow> length (pad n b) = n"
  by (simp add: pad_def)

lemma length_demo [simp]: "length demo_image = 2560"
  by (simp add: demo_image_def demo_blocks_def demo_super_def demo_inodes_def demo_dir_def)

lemma demo_block:
  assumes "q < 5" and "m + c \<le> 512"
  shows "bytes_at (q * 512 + m) c demo_image = bytes_at m c (demo_blocks ! q)"
proof -
  have l: "\<forall>x \<in> set demo_blocks. length x = 512" by (simp add: demo_blocks_def demo_super_def demo_inodes_def demo_dir_def)
  show ?thesis unfolding demo_image_def by (rule bytes_at_concat [OF l]) (use assms in \<open>simp_all add: demo_blocks_def\<close>)
qed

lemma bytes_at_pad: "off + n \<le> length b \<Longrightarrow> length b \<le> k \<Longrightarrow> bytes_at off n (pad k b) = bytes_at off n b"
  by (simp add: bytes_at_def pad_def)

definition demo_root :: V6fsInodeStruct where
  "demo_root = \<lparr> it_type = 1, it_major = 0, it_minor = 0, it_nlink = 1, it_size = 32, it_addrs = [3, 0, 0, 0, 0, 0, 0, 0, 0, 0, 0, 0], it_indirect = 0 \<rparr>"

definition demo_file :: V6fsInodeStruct where
  "demo_file = \<lparr> it_type = 2, it_major = 0, it_minor = 0, it_nlink = 1, it_size = 3, it_addrs = [4, 0, 0, 0, 0, 0, 0, 0, 0, 0, 0, 0], it_indirect = 0 \<rparr>"

lemmas demo_eval = demo_blocks_def demo_inodes_def demo_dir_def pad_def bytes_at_def get16_def get32_def inode_of_def
  kNumOfDirectBlocks_def upt_rec

lemma demo_inode_at:
  assumes "unat i < 4"
  shows "inode_at demo_sb demo_image i = inode_of (bytes_at (64 * unat i) 64 (concat demo_inodes))"
proof -
  have "bytes_at (2 * 512 + 64 * unat i) 64 demo_image = bytes_at (64 * unat i) 64 (demo_blocks ! 2)"
    by (rule demo_block) (use assms in simp_all)
  then show ?thesis by (simp add: inode_at_def demo_sb_def demo_blocks_def)
qed

lemma demo_inodes_at:
  "it_type (inode_at demo_sb demo_image 0) = 0" "inode_at demo_sb demo_image 1 = demo_root"
  "inode_at demo_sb demo_image 2 = demo_file" "it_type (inode_at demo_sb demo_image 3) = 0"
  by (simp_all add: demo_inode_at demo_root_def demo_file_def demo_eval)

lemma demo_file_blocks: "file_blocks demo_root = 1" "file_blocks demo_file = 1" "blk_addr b demo_root 0 = 3" "blk_addr b demo_file 0 = 4"
  by (simp_all add: file_blocks_def demo_root_def demo_file_def blk_addr_def kNumOfDirectBlocks_def)

lemma demo_files_ok: "file_ok demo_image demo_root" "file_ok demo_image demo_file"
  "file_apart 1024 1280 demo_image demo_root" "file_apart 1024 1280 demo_image demo_file"
  by (simp_all add: file_ok_def file_apart_def demo_file_blocks blk_ok_def kNumOfDirectBlocks_def)
    (simp_all add: demo_root_def demo_file_def)

lemma demo_data: "file_data demo_image demo_root = [1, 0, 46, 0, 0, 0, 0, 0, 0, 0, 0, 0, 0, 0, 0, 0, 2, 0, 97, 0, 0, 0, 0, 0, 0, 0, 0, 0, 0, 0, 0, 0]"
  "file_data demo_image demo_file = [104, 105, 10]"
proof -
  have "bytes_at (3 * 512 + 0) 512 demo_image = bytes_at 0 512 (demo_blocks ! 3)" "bytes_at (4 * 512 + 0) 512 demo_image = bytes_at 0 512 (demo_blocks ! 4)"
    by (rule demo_block; simp)+
  then have b: "bytes_at 1536 512 demo_image = bytes_at 0 512 (demo_blocks ! 3)" "bytes_at 2048 512 demo_image = bytes_at 0 512 (demo_blocks ! 4)" by simp_all
  have z: "it_size demo_root = 32" "it_size demo_file = 3" by (simp_all add: demo_root_def demo_file_def)
  show "file_data demo_image demo_root = [1, 0, 46, 0, 0, 0, 0, 0, 0, 0, 0, 0, 0, 0, 0, 0, 2, 0, 97, 0, 0, 0, 0, 0, 0, 0, 0, 0, 0, 0, 0, 0]"
    by (simp add: file_data_def demo_file_blocks b z) (simp add: demo_blocks_def demo_dir_def pad_def bytes_at_def numeral_eq_Suc)
  show "file_data demo_image demo_file = [104, 105, 10]"
    by (simp add: file_data_def demo_file_blocks b z) (simp add: demo_blocks_def pad_def bytes_at_def)
qed

lemma demo_known: "v6_known demo_sb demo_image i \<longleftrightarrow> i = 1 \<or> i = 2"
proof -
  have "v6_known demo_sb demo_image 1" "v6_known demo_sb demo_image 2"
    using demo_inodes_at demo_files_ok
    by (simp_all add: v6_known_def Type_kDirectory_def Type_kFile_def Type_kDevice_def) (simp_all add: demo_sb_def demo_root_def demo_file_def)
  moreover have "\<not> v6_known demo_sb demo_image 0" "\<not> v6_known demo_sb demo_image 3"
    using demo_inodes_at by (simp_all add: v6_known_def Type_kDirectory_def Type_kFile_def Type_kDevice_def)
  moreover have "i = 0 \<or> i = 1 \<or> i = 2 \<or> i = 3" if "v6_known demo_sb demo_image i"
  proof -
    have "unat i < 4" using that by (simp add: v6_known_def demo_sb_def word_less_unat)
    then have "unat i = 0 \<or> unat i = 1 \<or> unat i = 2 \<or> unat i = 3" by arith
    then show ?thesis by (simp add: word_unat_eq_iff)
  qed
  ultimately show ?thesis by blast
qed

lemma demo_wf: "v6_wf demo_sb demo_image" "ram_small demo_image"
proof -
  have u: "[0..<unat (sb_ninodes demo_sb)] = [0, 1, 2, 3]" by (simp add: demo_sb_def upt_rec)
  have e: "inode_end demo_sb = 1280" "unat (sb_inodestart demo_sb) * 512 = 1024" by (simp_all add: inode_end_def demo_sb_def)
  have c: "[0..<dir_count demo_root] = [0, 1]" "unat (it_size demo_root) mod 16 = 0"
    by (simp_all add: dir_count_def demo_root_def upt_rec)
  have d: "v6_dir_ok demo_sb demo_image 1"
    unfolding v6_dir_ok_def dir_ok_def demo_inodes_at c dir_entry_def demo_data entry_inum_def demo_known
    by (simp add: get16_def bytes_at_def)
  have g: "v6_good demo_sb demo_image"
    using d e by (simp add: v6_good_def u demo_known demo_inodes_at inode_end_def) (simp add: demo_file_def Type_kDirectory_def)
  show "v6_wf demo_sb demo_image"
    using g demo_files_ok by (simp add: v6_wf_def u e demo_known demo_inodes_at Type_kFree_def)
  show "ram_small demo_image" by (simp add: ram_small_def)
qed

section \<open>Allocation of blocks\<close>

context storage
begin

lemma bitmap_place:
  assumes o: "ok s" and i: "unat (sb_bmapstart sb) * 512 + i < length (img s)" and w: "8 * i < 2 ^ 32"
  shows "unat (ucast (sb_bmapstart sb * of_nat kBlockSize + of_nat (8 * i) div 8 :: u32) :: u64) = unat (sb_bmapstart sb) * 512 + i"
proof -
  have m: "unat (sb_bmapstart sb * of_nat kBlockSize :: u32) = unat (sb_bmapstart sb) * 512"
    using small [OF o] i by (simp add: kBlockSize_def unat_word_ariths)
  have "unat (of_nat (8 * i) :: u32) = 8 * i" using w by (simp only: unat_of_nat) simp
  then have d: "unat (of_nat (8 * i) div 8 :: u32) = i" by (simp add: unat_div)
  show ?thesis using small [OF o] i by (simp add: unat_plus_no_wrap m d del: of_nat_mult)
qed

lemma bitmap_alloc_ok:
  assumes o: "ok s" and bi: "free_bit (img s ! (unat (sb_bmapstart sb) * 512 + k)) = Some bi"
    and l: "unat (sb_bmapstart sb) * 512 + k < length (img s)" and c: "8 * k * 512 + 2048 \<le> length (img s)"
  shows "\<forall>j < k. free_bit (img s ! (unat (sb_bmapstart sb) * 512 + j)) = None \<Longrightarrow> i \<le> k \<Longrightarrow> k < i + n \<Longrightarrow>
    \<exists>s'. alloc_block dev sb (of_nat (8 * i)) n s = (Ok (of_nat (8 * k)), s') \<and> ok s' \<and>
      img s' = patch (8 * k * 512) (replicate 2048 0)
        (patch (unat (sb_bmapstart sb) * 512 + k) [img s ! (unat (sb_bmapstart sb) * 512 + k) OR push_bit bi 1] (img s))"
proof (induction n arbitrary: i)
  case (Suc n)
  let ?bm = "unat (sb_bmapstart sb) * 512"
  let ?p = "ucast (sb_bmapstart sb * of_nat kBlockSize + of_nat (8 * i) div 8 :: u32) :: u64"
  have i8: "8 * i < 2 ^ 32" using Suc.prems(2) c small [OF o] by linarith
  have p: "unat ?p = ?bm + i" by (rule bitmap_place [OF o _ i8]) (use l Suc.prems(2) in linarith)
  have "bytes_at (?bm + i) 1 (img s) = [img s ! (?bm + i)]" using l Suc.prems(2) by (simp add: bytes_at_def take_Suc_conv_app_nth hd_drop_conv_nth take_Suc drop_eq_Nil)
  then have rd: "Storage_Read dev 1 ?p s = (Ok [img s ! (?bm + i)], s)"
    using value_read [OF o, of ?p 1] l Suc.prems(2) unfolding p by simp
  show ?case
  proof (cases "i = k")
    case True
    let ?f = "[img s ! (?bm + k) OR push_bit bi 1]"
    obtain s1 where s1: "Storage_Write dev ?f ?p s = (Ok (), s1)" "ok s1" "img s1 = patch (?bm + k) ?f (img s)"
      using value_write [OF o, of ?p ?f] l True unfolding p by auto
    have l1: "length (img s1) = length (img s)" using s1(3) l by simp
    let ?q = "ucast (of_nat (8 * k) * of_nat kBlockSize :: u32) :: u64"
    have "unat (of_nat (8 * k) * of_nat kBlockSize :: u32) = 8 * k * 512"
    proof -
      have "of_nat (8 * k) * of_nat kBlockSize = (of_nat (8 * k * 512) :: u32)" by (simp add: kBlockSize_def)
      moreover have "8 * k * 512 < 2 ^ 32" using c small [OF o] by linarith
      ultimately show ?thesis by (simp only: unat_of_nat) simp
    qed
    then have q: "unat ?q = 8 * k * 512" by simp
    obtain s2 where s2: "Storage_Write dev (replicate 2048 0) ?q s1 = (Ok (), s2)" "ok s2" "img s2 = patch (8 * k * 512) (replicate 2048 0) (img s1)"
      using value_write [OF s1(2), of ?q "replicate 2048 0"] c l1 unfolding q by auto
    have "ClearBlock dev (of_nat (8 * k)) s1 = (Ok (), s2)" using s2(1) by (simp add: ClearBlock_def kBlockSize_def)
    then show ?thesis using rd bi s1 s2 True by (simp add: Let_def del: of_nat_mult)
  next
    case False
    then have "free_bit (img s ! (?bm + i)) = None" using Suc.prems by simp
    then have "alloc_block dev sb (of_nat (8 * i)) (Suc n) s = alloc_block dev sb (of_nat (8 * i) + 8) n s"
      using rd by (simp add: Let_def del: of_nat_mult)
    moreover have "of_nat (8 * i) + 8 = (of_nat (8 * Suc i) :: u32)" by simp
    ultimately show ?thesis using Suc.IH [of "Suc i"] Suc.prems False by (simp only:)
  qed
qed simp

end

text \<open>C37: \<open>BlockCtrl::Alloc\<close> gives the wrong block. It marks the first block that is free in the bitmap, \<open>8 k + bi\<close>, but returns block
  \<open>8 k\<close>, the first one of the byte, which is in use unless \<open>bi\<close> is zero, and fills that block and the next three with zeros.
\<close>

theorem BlockCtrl_Alloc_wrong_block:
  assumes "ram_small b" and "bm = unat (sb_bmapstart sb) * 512" and "\<forall>j < k. free_bit (b ! (bm + j)) = None"
    and "free_bit (b ! (bm + k)) = Some bi" and "bm + k < length b" and "8 * k * 512 + 2048 \<le> length b" and "8 * k < unat (sb_size sb)"
  shows "BlockCtrl_Alloc Ramdisk sb b =
      (Ok (of_nat (8 * k)), patch (8 * k * 512) (replicate 2048 0) (patch (bm + k) [b ! (bm + k) OR push_bit bi 1] b)) \<and>
    b ! (bm + k) AND push_bit bi 1 = 0 \<and> (0 < bi \<longrightarrow> b ! (bm + k) AND 1 \<noteq> 0)"
proof -
  have f: "b ! (bm + k) AND push_bit bi 1 = 0 \<and> (0 < bi \<longrightarrow> b ! (bm + k) AND 1 \<noteq> 0)"
    using assms(4) unfolding free_bit_def find_Some_iff by (auto dest: spec [of _ 0])
  have "k < 0 + (unat (sb_size sb) + 7) div 8" using assms(7) by linarith
  then have "\<exists>s'. alloc_block Ramdisk sb (of_nat (8 * 0)) ((unat (sb_size sb) + 7) div 8) b = (Ok (of_nat (8 * k)), s') \<and> ram_small s' \<and>
      s' = patch (8 * k * 512) (replicate 2048 0) (patch (bm + k) [b ! (bm + k) OR push_bit bi 1] b)"
    using ram.bitmap_alloc_ok [OF assms(1), of sb k bi 0] assms(2-6) by blast
  then show ?thesis using f by (simp add: BlockCtrl_Alloc_def)
qed

theorem BlockCtrl_Alloc_wrong_block_witness:
  "\<exists>b'. BlockCtrl_Alloc Ramdisk (demo_sb \<lparr> sb_bmapstart := 1 \<rparr>) (replicate 512 0 @ [1] @ replicate 2047 0) = (Ok 0, b')"
proof -
  have "free_bit 1 = Some 1" by (simp add: free_bit_def upt_rec)
  then show ?thesis
    using BlockCtrl_Alloc_wrong_block [of "replicate 512 0 @ [1] @ replicate 2047 0" 512 "demo_sb \<lparr> sb_bmapstart := 1 \<rparr>" 0 1]
    by (simp add: ram_small_def demo_sb_def nth_append)
qed

section \<open>Allocation of inodes\<close>

text \<open>C12: \<open>AllocInode\<close> keeps an image well-formed. It takes the first free inode and turns it into an empty file of the given type;
  every other file keeps its inode and its bytes. Without a free inode the result is \<open>kErrNoHwResource\<close> and nothing changes.
\<close>

theorem AllocInode_keeps_image:
  assumes "ram_small b" and "v6_wf sb b"
  shows "case find (\<lambda>j. it_type (inode_at sb b (of_nat j)) = Type_kFree) [1..<unat (sb_ninodes sb)] of
      None \<Rightarrow> dfs_AllocInode (V6FileSystem Ramdisk sb) t b = (Err kErrNoHwResource, b)
    | Some j \<Rightarrow> \<exists>b'. dfs_AllocInode (V6FileSystem Ramdisk sb) t b = (Ok (of_nat j), b') \<and> ram_small b' \<and> v6_wf sb b' \<and>
        v6_known sb b' (of_nat j) \<and> v6_stat sb b' (of_nat j) = \<lparr> sa_type = t, sa_dev = 0, sa_ino = of_nat j, sa_nlink = 0, sa_size = 0 \<rparr> \<and>
        (\<forall>i. v6_known sb b i \<longrightarrow> v6_known sb b' i \<and> inode_at sb b' i = inode_at sb b i \<and>
           file_data b' (inode_at sb b' i) = file_data b (inode_at sb b i))"
proof -
  have g: "v6_good sb b" using assms(2) by (simp add: v6_wf_def)
  then have n: "1 + (unat (sb_ninodes sb) - 1) = unat (sb_ninodes sb)"
    by (simp add: v6_good_def v6_known_def word_less_unat)
  have a: "dfs_AllocInode (V6FileSystem Ramdisk sb) t = alloc_inode Ramdisk sb (ConvType_to t) 1 (unat (sb_ninodes sb) - 1)"
    by (simp add: V6FileSystem_def V6_InodeCtrl_Alloc_def)
  note al = ram.alloc_inode_ok [OF assms(1) g n, of "ConvType_to t", folded a]
  show ?thesis
  proof (cases "find (\<lambda>j. it_type (inode_at sb b (of_nat j)) = Type_kFree) [1..<unat (sb_ninodes sb)]")
    case None
    then show ?thesis using al by simp
  next
    case (Some j)
    let ?b = "new_inode sb (ConvType_to t) (of_nat j) b"
    have r: "dfs_AllocInode (V6FileSystem Ramdisk sb) t b = (Ok (of_nat j), ?b)" "ram_small ?b" using al Some by auto
    have j: "j < unat (sb_ninodes sb)" and free: "it_type (inode_at sb b (of_nat j)) = Type_kFree" using Some unfolding find_Some_iff by auto
    then have lt: "of_nat j < sb_ninodes sb" by (simp add: word_less_unat unat_of_nat order.strict_trans1 [OF mod_less_eq_dividend])
    have t: "ConvType_to t \<in> {Type_kDirectory, Type_kFile, Type_kDevice}" and t2: "v6_type (ConvType_to t) = t"
      by (cases t; simp add: Type_kDirectory_def Type_kFile_def Type_kDevice_def)+
    have e: "inode_end sb \<le> length b" using g by (simp add: v6_good_def inode_end_def)
    have "v6_stat sb ?b (of_nat j) = \<lparr> sa_type = t, sa_dev = 0, sa_ino = of_nat j, sa_nlink = 0, sa_size = 0 \<rparr>"
      using inode_at_new [OF e lt lt] t2 by (simp add: v6_stat_def fresh_inode_def V6fsInode_Init_def)
    then show ?thesis using Some r new_inode_wf [OF assms(2) lt free t] new_inode_keeps [OF assms(2) lt free] by simp
  qed
qed

theorem AllocInode_keeps_image_witness:
  "\<exists>b'. dfs_AllocInode (V6FileSystem Ramdisk demo_sb) kFile demo_image = (Ok 3, b') \<and> v6_wf demo_sb b' \<and>
    file_data b' (inode_at demo_sb b' 2) = [104, 105, 10]"
proof -
  have u: "[1..<unat (sb_ninodes demo_sb)] = [1, 2, 3]" by (simp add: demo_sb_def upt_rec)
  have "find (\<lambda>j. it_type (inode_at demo_sb demo_image (of_nat j)) = Type_kFree) [1..<unat (sb_ninodes demo_sb)] = Some 3"
    using demo_inodes_at unfolding u by (simp add: Type_kFree_def) (simp add: demo_root_def demo_file_def)
  then show ?thesis using AllocInode_keeps_image [OF demo_wf(2,1), of kFile] demo_known [of 2] demo_inodes_at(3) demo_data(2) by auto
qed

section \<open>Reading a file\<close>

text \<open>C11: Reading from an inode gives the bytes of the file. The file is the sequence of its direct blocks and of the blocks that the indirect
  block lists; a read at an offset inside it gives the bytes from there, cut at the end of the file, and changes nothing. An
  offset behind the end, or a sum that wraps around, is \<open>kErrInvalid\<close>.
\<close>

theorem ReadDataFromInode_reads_file:
  assumes "ram_small b" and "file_ok b (vi_st ino)"
  shows "V6_ReadDataFromInode Ramdisk sb ino offset n b =
    (if unat (it_size (vi_st ino)) < unat offset \<or> 2 ^ 64 \<le> unat offset + unat n then (Ok ((kErrInvalid, n, []), ino), b)
     else let m = min (unat n) (unat (it_size (vi_st ino)) - unat offset) in
       (Ok ((kOk, of_nat m, bytes_at (unat offset) m (file_data b (vi_st ino))), ino), b))"
proof (cases "unat (it_size (vi_st ino)) < unat offset \<or> 2 ^ 64 \<le> unat offset + unat n")
  case True
  have "offset + n < offset" if "2 ^ 64 \<le> unat offset + unat n"
  proof -
    have "unat (offset + n) = unat offset + unat n - 2 ^ 64"
      using that unsigned_less [of offset, where ?'a = nat] unsigned_less [of n, where ?'a = nat] by (simp add: unat_word_ariths le_mod_geq)
    then show ?thesis using that unsigned_less [of n, where ?'a = nat] by (simp add: word_less_unat)
  qed
  then show ?thesis using True by (auto simp: V6_ReadDataFromInode_def word_less_unat)
next
  case False
  then show ?thesis using ram.ReadData_ok [OF assms, of offset n sb] by simp
qed

theorem ReadDataFromInode_reads_file_witness:
  "V6_ReadDataFromInode Ramdisk demo_sb \<lparr> vi_index = 2, vi_st = demo_file \<rparr> 1 512 demo_image =
    (Ok ((kOk, 2, [105, 10]), \<lparr> vi_index = 2, vi_st = demo_file \<rparr>), demo_image)"
proof -
  have "it_size demo_file = 3" by (simp add: demo_file_def)
  then show ?thesis using ReadDataFromInode_reads_file [OF demo_wf(2), of "\<lparr> vi_index = 2, vi_st = demo_file \<rparr>" demo_sb 1 512] demo_files_ok demo_data
    by (simp add: bytes_at_def)
qed

section \<open>The command cat\<close>

definition ram0 :: bytes where
  "ram0 = [114, 97, 109, 48, 0]"

text \<open>
  \<open>cat\<close> gives the text that is printed. \<open>%s\<close> prints a string up to its terminator. The constructor of the file system and \<open>catSub\<close> return no
  error state, so the two branches for one do not occur.
\<close>

definition cat :: "Stat \<Rightarrow> (nat \<Rightarrow> u8) \<Rightarrow> bytes list \<Rightarrow> bytes StorageContainer list \<Rightarrow> bytes kres" where
  "cat st0 buf0 argv cs = (if length argv < 2 then Inr (ascii ''usage: cat <filename>'' @ [10])
     else kbind (GetDevice ram0 cs) (\<lambda>d. case d of
       Inl e \<Rightarrow> Inl Kernel_Panic
     | Inr dsk \<Rightarrow> (case V6FileSystem_new Ramdisk dsk of
           (Stop k, _) \<Rightarrow> Inl k
         | (Err e, _) \<Rightarrow> Inl Kernel_Panic
         | (Ok sb, dsk1) \<Rightarrow> (case catSub st0 buf0 (V6FileSystem Ramdisk sb) (argv ! 1) (Vfs_new dsk1) of
               (Stop k, _) \<Rightarrow> Inl k
             | (Err e, _) \<Rightarrow> Inl Kernel_Panic
             | (Ok (found, text), _) \<Rightarrow> if found then Inr text
                 else Inr (text @ ascii ''cat: '' @ takeWhile (\<lambda>c. c \<noteq> 0) (argv ! 1) @ ascii '': No such file or directory'' @ [10])))))"

lemma Attach_new:
  "Ramdisk_Attach (Some b) StorageCtrl_new = Inr ((Some b, [114, 97, 109, 48, 0, 0, 0, 0, 0, 0]) # replicate 9 (None, replicate 10 0))"
  "Ramdisk_Attach None StorageCtrl_new = Inr StorageCtrl_new"
proof -
  have n: "replicate 10 0 = [0, 0, 0, 0, 0, 0, 0, 0, 0, 0 :: u8]" by (simp add: numeral_eq_Suc)
  have r: "StorageCtrl_new = (None, replicate 10 0) # replicate 9 (None :: bytes option, replicate 10 0)"
    by (simp add: StorageCtrl_new_def kElementNum_def kStringLenMax_def numeral_eq_Suc)
  have "memcpy [0, 0, 0, 0, 0, 0, 0, 0, 0, 0] [114, 97, 109, 0] 3 = Inr [114, 97, 109, 0, 0, 0, 0, 0, 0, 0 :: u8]" by code_simp
  then have "storage_name 0 [114, 97, 109, 0] (replicate 10 0) = Inr [114, 97, 109, 48, 0, 0, 0, 0, 0, 0]"
    unfolding n by (simp add: storage_name_def kStringLenMax_def)
  then show "Ramdisk_Attach (Some b) StorageCtrl_new = Inr ((Some b, [114, 97, 109, 48, 0, 0, 0, 0, 0, 0]) # replicate 9 (None, replicate 10 0))"
    unfolding r by (simp add: Ramdisk_Attach_def Ramdisk_InitSub_def Storage_Init_def Storage_Register_def)
  show "Ramdisk_Attach None StorageCtrl_new = Inr StorageCtrl_new" by (simp add: Ramdisk_Attach_def Ramdisk_InitSub_def Storage_Init_def)
qed

lemma GetDevice_attached:
  "Ramdisk_Attach (Some b) StorageCtrl_new = Inr cs \<Longrightarrow> GetDevice ram0 cs = Inr (Inr b)"
  by (auto simp: Attach_new ram0_def)

lemma V6FileSystem_new_ok:
  assumes "ram_small b" and "540 \<le> length b"
  shows "V6FileSystem_new Ramdisk b = (Ok (super_of (bytes_at 512 28 b)), b)"
  using ram.value_read [OF assms(1), of "of_nat kBlockSize" 28] assms(2) by (simp add: V6FileSystem_new_def kBlockSize_def)

text \<open>The file that a path names in an image\<close>

definition v6_walk :: "SuperBlock \<Rightarrow> bytes \<Rightarrow> bytes list \<Rightarrow> IoReturnState + u32" where
  "v6_walk sb b = walk (\<lambda>i. it_type (inode_at sb b i) = Type_kDirectory) (v6_ent sb b) 1"

lemma v6_stat_dir: "sa_type (v6_stat sb b i) = kDirectory \<longleftrightarrow> it_type (inode_at sb b i) = Type_kDirectory"
  by (simp add: v6_stat_def)

lemma cat_prints:
  assumes "Ramdisk_Attach (Some b) StorageCtrl_new = Inr cs" and "ram_small b" and "540 \<le> length b"
    and sb: "sb = super_of (bytes_at 512 28 b)" and "v6_good sb b" and "0 \<notin> set p" and "short_names p" and "length (path_names p) < 50"
  shows "cat st0 buf0 [c, 47 # p @ [0]] cs = Inr (case v6_walk sb b (path_names p) of
      Inr j \<Rightarrow> filter (\<lambda>c. c \<noteq> 0) (file_data b (inode_at sb b j)) @ [10]
    | Inl e \<Rightarrow> ascii ''cat: '' @ (47 # p) @ ascii '': No such file or directory'' @ [10])"
proof -
  have f: "length (path_names p) < free_nodes (vf_nodes (Vfs_new b))" using assms(8) by (simp add: Vfs_new_ok kNodesNum_def)
  have root: "dfs_GetRootInodeNum (V6FileSystem Ramdisk sb) = 1" by (simp add: V6FileSystem_def)
  have t: "takeWhile (\<lambda>c. c \<noteq> 0) (47 # p @ [0]) = 47 # p" using assms(6) by (auto simp: takeWhile_append)
  have "fst (catSub st0 buf0 (V6FileSystem Ramdisk sb) (47 # p @ [0]) (Vfs_new b)) = (case v6_walk sb b (path_names p) of
       Inr j \<Rightarrow> Ok (True, filter (\<lambda>c. c \<noteq> 0) (file_data b (inode_at sb b j)) @ [10]) | Inl e \<Rightarrow> Ok (False, []))"
    using ram.v6.catSub_ok [of "Vfs_new b" sb p st0 buf0 "[]"] assms(2,5,6,7) f Vfs_new_ok [of b]
    by (simp add: root v6_walk_def v6_stat_dir cong: sum.case_cong)
  then obtain v where v: "catSub st0 buf0 (V6FileSystem Ramdisk sb) (47 # p @ [0]) (Vfs_new b) = ((case v6_walk sb b (path_names p) of
       Inr j \<Rightarrow> Ok (True, filter (\<lambda>c. c \<noteq> 0) (file_data b (inode_at sb b j)) @ [10]) | Inl e \<Rightarrow> Ok (False, [])), v)"
    by (metis prod.collapse)
  show ?thesis using GetDevice_attached [OF assms(1)] V6FileSystem_new_ok [OF assms(2,3), folded sb] v t
    by (simp add: cat_def split: sum.splits)
qed

text \<open>C10: \<open>cat\<close> prints the file that its argument names. The image is attached as the device \<open>ram0\<close> and is sound; the path starts with a
  slash and has fewer than fifty names, all shorter than fourteen characters. Then the walk from the root through the directories
  of the image ends at an inode, and the bytes of its file that are not zero are printed, or it ends nowhere, and the
  command says so.
\<close>

theorem cat_prints_file:
  assumes "Ramdisk_Attach (Some b) StorageCtrl_new = Inr cs" and "ram_small b" and "540 \<le> length b"
    and sb: "sb = super_of (bytes_at 512 28 b)" and "v6_good sb b" and "0 \<notin> set p" and "short_names p" and "length (path_names p) < 50"
  shows "cat st0 buf0 [c, 47 # p @ [0]] cs = Inr (case v6_walk sb b (path_names p) of
      Inr j \<Rightarrow> filter (\<lambda>c. c \<noteq> 0) (file_data b (inode_at sb b j)) @ [10]
    | Inl e \<Rightarrow> ascii ''cat: '' @ (47 # p) @ ascii '': No such file or directory'' @ [10])"
  using assms by (rule cat_prints)

definition demo_stat :: Stat where
  "demo_stat = \<lparr> sa_type = kFile, sa_dev = 0, sa_ino = 0, sa_nlink = 0, sa_size = 0 \<rparr>"

theorem cat_prints_file_witness:
  "\<exists>cs. Ramdisk_Attach (Some demo_image) StorageCtrl_new = Inr cs \<and>
    cat demo_stat (\<lambda>_. 0) [[99, 97, 116, 0], [47, 97, 0]] cs = Inr [104, 105, 10, 10] \<and>
    cat demo_stat (\<lambda>_. 0) [[99, 97, 116, 0], [47, 98, 0]] cs = Inr (ascii ''cat: /b: No such file or directory'' @ [10])"
proof -
  obtain cs where cs: "Ramdisk_Attach (Some demo_image) StorageCtrl_new = Inr cs"
    using Attach_new(1) by blast
  have "bytes_at (1 * 512 + 0) 28 demo_image = bytes_at 0 28 (demo_blocks ! 1)" by (rule demo_block) simp_all
  then have "bytes_at 512 28 demo_image = demo_super" by (simp add: demo_blocks_def bytes_at_def pad_def demo_super_def)
  then have sb: "demo_sb = super_of (bytes_at 512 28 demo_image)"
    by (simp add: demo_sb_def super_of_def get32_def bytes_at_def demo_super_def)
  have g: "v6_good demo_sb demo_image" using demo_wf(1) by (simp add: v6_wf_def)
  have n: "path_names [97] = [[97]]" "path_names [98] = [[98]]" by (simp_all add: path_names_def)
  have c: "[0..<dir_count demo_root] = [0, 1]" "it_type demo_root = Type_kDirectory" by (simp_all add: dir_count_def demo_root_def upt_rec Type_kDirectory_def)
  have "v6_walk demo_sb demo_image [[97]] = Inr 2" "v6_walk demo_sb demo_image [[98]] = Inl kErrNotFound"
    by (simp_all add: v6_walk_def v6_ent_def demo_inodes_at c dir_find_def dir_entry_def demo_data entry_inum_def entry_name_def get16_def bytes_at_def)
  then show ?thesis
    using cs cat_prints_file [OF cs demo_wf(2) _ sb g, of "[97]" demo_stat "\<lambda>_. 0" "[99, 97, 116, 0]"] cat_prints_file [OF cs demo_wf(2) _ sb g, of "[98]" demo_stat "\<lambda>_. 0" "[99, 97, 116, 0]"]
    by (intro exI [of _ cs]) (simp add: n short_names_def kMaxDirectoryNameLength_def demo_inodes_at demo_data ascii_def)
qed

end
