(* ===== verification/Multiboot.thy ===== *)
theory Multiboot
  imports Paging Byte_Layout "HOL-Library.Multiset"
begin

text \<open>
  \<open>MultibootCtrl\<close> of \<open>multiboot.cc\<close>: what the kernel does with the information that the boot loader leaves in memory. The
  information is a sequence of bytes, a chain of tags; a pointer to a tag is its offset. \<open>Setup\<close> reads the memory map, sorts
  it and reserves in \<open>PhysmemCtrl\<close> whatever is not usable memory, then the modules and the information itself. The theory
  shows that the sorting loops sort, and that exactly the holes of the memory map are taken out of use.
\<close>

section \<open>Tags\<close>

definition MULTIBOOT_TAG_TYPE_END :: u32 where
  "MULTIBOOT_TAG_TYPE_END = 0"

definition MULTIBOOT_TAG_TYPE_MODULE :: u32 where
  "MULTIBOOT_TAG_TYPE_MODULE = 3"

definition MULTIBOOT_TAG_TYPE_MMAP :: u32 where
  "MULTIBOOT_TAG_TYPE_MMAP = 6"

definition MULTIBOOT_TAG_TYPE_FRAMEBUFFER :: u32 where
  "MULTIBOOT_TAG_TYPE_FRAMEBUFFER = 8"

definition MULTIBOOT_TAG_TYPE_ACPI_OLD :: u32 where
  "MULTIBOOT_TAG_TYPE_ACPI_OLD = 14"

definition MULTIBOOT_TAG_TYPE_ACPI_NEW :: u32 where
  "MULTIBOOT_TAG_TYPE_ACPI_NEW = 15"

definition MULTIBOOT_MEMORY_AVAILABLE :: u32 where
  "MULTIBOOT_MEMORY_AVAILABLE = 1"

text \<open>The constructor\<close>

definition MultibootCtrl_new :: "u32 \<Rightarrow> unit kres" where
  "MultibootCtrl_new multiboot_info = kassert (align (ucast multiboot_info) 8 = ucast multiboot_info)"

text \<open>
  The loops over the tags. The information begins at a multiple of eight, so aligning an address is aligning its
  offset. A tag of size zero is its own successor and the loop does not end.
\<close>

definition next_tag :: "nat \<Rightarrow> u32 \<Rightarrow> nat" where
  "next_tag off sz = (off + unat sz + 7) div 8 * 8"

lemma next_tag_ge: "off + unat sz \<le> next_tag off sz"
  unfolding next_tag_def by presburger

function tag_list :: "bytes \<Rightarrow> nat \<Rightarrow> ((nat \<times> u32 \<times> u32) list \<times> nat) kres" where
  "tag_list info off = (if length info < off + 8 then Inl Out_Of_Range
     else let type = get32 off info; sz = get32 (off + 4) info in
     if type = MULTIBOOT_TAG_TYPE_END then Inr ([], off)
     else if next_tag off sz \<le> off then Inl Deadlock
     else kmap (\<lambda>(ts, e). ((off, type, sz) # ts, e)) (tag_list info (next_tag off sz)))"
  by pat_completeness auto
termination
  by (relation "measure (\<lambda>(info, off). length info - off)") auto

text \<open>The loops that return at the first tag they look for\<close>

function find_tag :: "(nat \<Rightarrow> u32 \<Rightarrow> bool kres) \<Rightarrow> bytes \<Rightarrow> nat \<Rightarrow> nat option kres" where
  "find_tag p info off = (if length info < off + 8 then Inl Out_Of_Range
     else let type = get32 off info; sz = get32 (off + 4) info in
     if type = MULTIBOOT_TAG_TYPE_END then Inr None
     else kbind (p off type) (\<lambda>found. if found then Inr (Some off)
       else if next_tag off sz \<le> off then Inl Deadlock
       else find_tag p info (next_tag off sz)))"
  by pat_completeness auto
termination
  by (relation "measure (\<lambda>(p, info, off). length info - off)") auto

declare tag_list.simps [simp del] find_tag.simps [simp del]

section \<open>The memory map\<close>

record mmap_entry =
  mm_addr :: u64
  mm_len :: u64
  mm_type :: u32

function mmap_entries :: "bytes \<Rightarrow> nat \<Rightarrow> nat \<Rightarrow> nat \<Rightarrow> mmap_entry list kres" where
  "mmap_entries info tag_end entry_size off = (if off < tag_end then
     if length info < off + 20 then Inl Out_Of_Range
     else if entry_size = 0 then Inl Deadlock
     else kmap (Cons \<lparr> mm_addr = get64 off info, mm_len = get64 (off + 8) info, mm_type = get32 (off + 16) info \<rparr>)
       (mmap_entries info tag_end entry_size (off + entry_size))
     else Inr [])"
  by pat_completeness auto
termination
  by (relation "measure (\<lambda>(info, tag_end, entry_size, off). tag_end - off)") auto

declare mmap_entries.simps [simp del]

text \<open>The sorting loops: the inner one from index \<open>j\<close> for \<open>k\<close> turns, the outer one from \<open>i\<close> for \<open>k\<close> turns\<close>

fun bubble_inner :: "nat \<Rightarrow> nat \<Rightarrow> mmap_entry list \<Rightarrow> mmap_entry list" where
  "bubble_inner j 0 es = es"
| "bubble_inner j (Suc k) es = bubble_inner (Suc j) k
     (if mm_addr (es ! (j + 1)) < mm_addr (es ! j) then es[j + 1 := es ! j, j := es ! (j + 1)] else es)"

fun bubble_outer :: "nat \<Rightarrow> nat \<Rightarrow> mmap_entry list \<Rightarrow> mmap_entry list" where
  "bubble_outer i 0 es = es"
| "bubble_outer i (Suc k) es = bubble_outer (Suc i) k (bubble_inner 0 (length es - i - 1) es)"

definition sort_entries :: "mmap_entry list \<Rightarrow> mmap_entry list" where
  "sort_entries es = bubble_outer 0 (length es - 1) es"

text \<open>A result that may not come (\<open>None\<close>: \<open>Reserve\<close> did not end within the bound) or may stop\<close>

definition kobind :: "'a kres option \<Rightarrow> ('a \<Rightarrow> 'b kres option) \<Rightarrow> 'b kres option" where
  "kobind m f = (case m of None \<Rightarrow> None | Some (Inl k) \<Rightarrow> Some (Inl k) | Some (Inr x) \<Rightarrow> f x)"

definition map_start :: "mmap_entry \<Rightarrow> u64" where
  "map_start e = RoundUpAddrOnPageBoundary (mm_addr e)"

definition map_end :: "mmap_entry \<Rightarrow> u64" where
  "map_end e = RoundAddrOnPageBoundary (mm_addr e + mm_len e)"

text \<open>The last loop: what lies between the usable entries is reserved.\<close>

fun reserve_holes :: "nat \<Rightarrow> mmap_entry list \<Rightarrow> u64 \<Rightarrow> PhysmemCtrl \<Rightarrow> PhysmemCtrl kres option" where
  "reserve_holes n [] cur st = Some (Inr st)"
| "reserve_holes n (e # es) cur st = kobind
     (if cur \<noteq> map_start e then Reserve n st cur (map_start e - cur) else Some (Inr st))
     (reserve_holes n es (map_end e))"

text \<open>One memory map; the result has \<open>_phys_memory_end\<close>. Without a usable entry, \<open>entries[-1]\<close> is read.\<close>

definition setup_map :: "nat \<Rightarrow> mmap_entry list \<Rightarrow> PhysmemCtrl \<Rightarrow> (u64 \<times> PhysmemCtrl) kres option" where
  "setup_map n mmap st = (let entries = sort_entries (filter (\<lambda>e. mm_type e = MULTIBOOT_MEMORY_AVAILABLE) mmap) in
     if entries = [] then Some (Inl Out_Of_Range)
     else map_option (kmap (Pair (mm_addr (last entries) + mm_len (last entries)))) (reserve_holes n entries 0 st))"

fun setup_maps :: "nat \<Rightarrow> bytes \<Rightarrow> (nat \<times> u32 \<times> u32) list \<Rightarrow> u64 \<Rightarrow> PhysmemCtrl \<Rightarrow> (u64 \<times> PhysmemCtrl) kres option" where
  "setup_maps n info [] mem_end st = Some (Inr (mem_end, st))"
| "setup_maps n info ((off, type, sz) # ts) mem_end st = (if type = MULTIBOOT_TAG_TYPE_MMAP
     then if length info < off + 12 then Some (Inl Out_Of_Range)
       else kobind (Some (mmap_entries info (off + unat sz) (unat (get32 (off + 8) info)) (off + 16))) (\<lambda>mmap.
         kobind (setup_map n mmap st) (\<lambda>(e, st'). setup_maps n info ts e st'))
     else setup_maps n info ts mem_end st)"

section \<open>Modules and the information itself\<close>

definition reserve_range :: "nat \<Rightarrow> u64 \<Rightarrow> u64 \<Rightarrow> PhysmemCtrl \<Rightarrow> PhysmemCtrl kres option" where
  "reserve_range n lo hi st = (let start = RoundAddrOnPageBoundary lo; end = RoundUpAddrOnPageBoundary hi in Reserve n st start (end - start))"

fun reserve_modules :: "nat \<Rightarrow> bytes \<Rightarrow> (nat \<times> u32 \<times> u32) list \<Rightarrow> PhysmemCtrl \<Rightarrow> PhysmemCtrl kres option" where
  "reserve_modules n info [] st = Some (Inr st)"
| "reserve_modules n info ((off, type, sz) # ts) st = (if type = MULTIBOOT_TAG_TYPE_MODULE
     then if length info < off + 16 then Some (Inl Out_Of_Range)
       else kobind (reserve_range n (ucast (get32 (off + 8) info)) (ucast (get32 (off + 12) info)) st) (reserve_modules n info ts)
     else reserve_modules n info ts st)"

definition Multiboot_Setup :: "nat \<Rightarrow> u64 \<Rightarrow> bytes \<Rightarrow> PhysmemCtrl \<Rightarrow> (u64 \<times> PhysmemCtrl) kres option" where
  "Multiboot_Setup n info_addr info st = kobind (Some (tag_list info 8)) (\<lambda>(ts, e).
     kobind (setup_maps n info ts 0 st) (\<lambda>(mem_end, st1).
     kobind (reserve_modules n info ts st1) (\<lambda>st2.
     kobind (reserve_range n info_addr (info_addr + of_nat (next_tag e (get32 (e + 4) info))) st2) (\<lambda>st3.
     Some (kmap (Pair mem_end) (EnableToAllocate st3))))))"

section \<open>Looking for one tag\<close>

definition of_type :: "u32 \<Rightarrow> nat \<Rightarrow> u32 \<Rightarrow> bool kres" where
  "of_type t off type = Inr (type = t)"

definition GetAcpiRoot :: "u64 \<Rightarrow> bytes \<Rightarrow> u64 kres" where
  "GetAcpiRoot info_addr info = kbind (find_tag (of_type MULTIBOOT_TAG_TYPE_ACPI_NEW) info 8) (\<lambda>t. case t of
     Some off \<Rightarrow> Inr (info_addr + of_nat (off + 8))
   | None \<Rightarrow> kmap (\<lambda>t. case t of Some off \<Rightarrow> info_addr + of_nat (off + 8) | None \<Rightarrow> 0)
       (find_tag (of_type MULTIBOOT_TAG_TYPE_ACPI_OLD) info 8))"

record FrameBufferInfo =
  fb_buffer :: u64
  fb_width :: u32
  fb_height :: u32
  fb_bpp :: u8

definition SetupFrameBuffer :: "bytes \<Rightarrow> FrameBufferInfo kres" where
  "SetupFrameBuffer info = kbind (find_tag (of_type MULTIBOOT_TAG_TYPE_FRAMEBUFFER) info 8) (\<lambda>t. case t of
     None \<Rightarrow> Inl Kernel_Panic
   | Some off \<Rightarrow> if length info < off + 29 then Inl Out_Of_Range
       else Inr \<lparr> fb_buffer = p2v (get64 (off + 8) info), fb_width = get32 (off + 20) info, fb_height = get32 (off + 24) info,
         fb_bpp = info ! (off + 28) \<rparr>)"

text \<open>\<open>LoadFile\<close>: the module whose command line is \<open>str\<close>. \<open>mem\<close> is the physical memory.\<close>

definition is_module :: "bytes \<Rightarrow> bytes \<Rightarrow> nat \<Rightarrow> u32 \<Rightarrow> bool kres" where
  "is_module str info off type = (if type = MULTIBOOT_TAG_TYPE_MODULE then kmap (\<lambda>r. r = 0) (strcmp (drop (off + 16) info) str) else Inr False)"

definition LoadFile :: "(u64 \<Rightarrow> u8) \<Rightarrow> bytes \<Rightarrow> bytes \<Rightarrow> bytes option kres" where
  "LoadFile mem info str = kmap (map_option (\<lambda>off. let mod_start = get32 (off + 8) info; mod_end = get32 (off + 12) info in
       map (\<lambda>i. mem (ucast mod_start + of_nat i)) [0..<unat (mod_end - mod_start)]))
     (find_tag (is_module str info) info 8)"

section \<open>The sorting loops sort\<close>

lemma bubble_inner_perm: "j + k < length es \<Longrightarrow> mset (bubble_inner j k es) = mset es \<and> length (bubble_inner j k es) = length es"
proof (induction k arbitrary: j es)
  case (Suc k)
  have "mset (es[j + 1 := es ! j, j := es ! (j + 1)]) = mset es" using Suc.prems by (intro mset_swap) simp_all
  then show ?case using Suc by simp
qed simp

lemma bubble_inner_rest: "j + k < m \<Longrightarrow> bubble_inner j k es ! m = es ! m"
proof (induction k arbitrary: j es)
  case (Suc k)
  show ?case
  proof (cases "mm_addr (es ! (j + 1)) < mm_addr (es ! j)")
    case True
    then show ?thesis using Suc.IH [of "Suc j" "es[j + 1 := es ! j, j := es ! (j + 1)]"] Suc.prems by simp
  next
    case False
    then show ?thesis using Suc.IH [of "Suc j" es] Suc.prems by simp
  qed
qed simp

lemma bubble_inner_max:
  "j + k < length es \<Longrightarrow> \<forall>m \<le> j. mm_addr (es ! m) \<le> mm_addr (es ! j) \<Longrightarrow>
   m \<le> j + k \<Longrightarrow> mm_addr (bubble_inner j k es ! m) \<le> mm_addr (bubble_inner j k es ! (j + k))"
proof (induction k arbitrary: j es)
  case (Suc k)
  define es1 where "es1 = (if mm_addr (es ! (j + 1)) < mm_addr (es ! j) then es[j + 1 := es ! j, j := es ! (j + 1)] else es)"
  have "\<forall>m \<le> Suc j. mm_addr (es1 ! m) \<le> mm_addr (es1 ! Suc j)"
    using Suc.prems(1,2) by (auto simp: es1_def nth_list_update le_Suc_eq intro: order.trans order.strict_implies_order)
  then show ?case using Suc.IH [of "Suc j" es1] Suc.prems by (simp add: es1_def)
qed simp

lemma bubble_inner_take:
  assumes "k < length es"
  shows "set (take (Suc k) (bubble_inner 0 k es)) = set (take (Suc k) es)"
proof -
  let ?r = "bubble_inner 0 k es"
  have p: "mset ?r = mset es" "length ?r = length es" using bubble_inner_perm [of 0 k es] assms by auto
  have "drop (Suc k) ?r = drop (Suc k) es" using p(2) bubble_inner_rest [of 0 k] by (intro nth_equalityI) auto
  then have "mset (take (Suc k) ?r) = mset (take (Suc k) es)"
    using p(1) by (metis add_right_cancel append_take_drop_id mset_append)
  then show ?thesis by (metis set_mset_mset)
qed

text \<open>After \<open>i\<close> turns every entry from position \<open>length es - i\<close> on is at least as large as all before it.\<close>

definition sorted_from :: "nat \<Rightarrow> mmap_entry list \<Rightarrow> bool" where
  "sorted_from a es \<longleftrightarrow> (\<forall>p q. p \<le> q \<and> q < length es \<and> a \<le> q \<longrightarrow> mm_addr (es ! p) \<le> mm_addr (es ! q))"

lemma bubble_inner_sorted_from:
  assumes s: "sorted_from (Suc k) es" and k: "k < length es"
  shows "sorted_from k (bubble_inner 0 k es)"
  unfolding sorted_from_def
proof (intro allI impI)
  fix p q
  let ?r = "bubble_inner 0 k es"
  assume q: "p \<le> q \<and> q < length ?r \<and> k \<le> q"
  have len: "length ?r = length es" using bubble_inner_perm [of 0 k es] k by simp
  show "mm_addr (?r ! p) \<le> mm_addr (?r ! q)"
  proof (cases "q = k")
    case True
    then show ?thesis using bubble_inner_max [of 0 k es p] k q by simp
  next
    case False
    then have rq: "?r ! q = es ! q" using q bubble_inner_rest [of 0 k q es] by simp
    have "\<exists>p' \<le> q. ?r ! p = es ! p'"
    proof (cases "p \<le> k")
      case True
      then have "?r ! p \<in> set (take (Suc k) ?r)" using len k by (auto simp: in_set_conv_nth intro!: exI [of _ p])
      then obtain p' where "p' < Suc k" "?r ! p = es ! p'" using bubble_inner_take [OF k] k by (auto simp: in_set_conv_nth)
      then show ?thesis using q by (intro exI [of _ p']) auto
    next
      case False
      then show ?thesis using q bubble_inner_rest [of 0 k p es] by auto
    qed
    then show ?thesis using s q False len rq by (auto simp: sorted_from_def)
  qed
qed

lemma bubble_outer_sorts:
  "i + k + 1 = length es \<Longrightarrow> sorted_from (length es - i) es \<Longrightarrow>
   mset (bubble_outer i k es) = mset es \<and> sorted_from 1 (bubble_outer i k es)"
proof (induction k arbitrary: i es)
  case (Suc k)
  let ?r = "bubble_inner 0 (length es - i - 1) es"
  have l: "length es - i - 1 < length es" using Suc.prems(1) by simp
  have p: "mset ?r = mset es" "length ?r = length es" using bubble_inner_perm [of 0 "length es - i - 1" es] l by auto
  have "sorted_from (length es - i - 1) ?r" using Suc.prems l by (intro bubble_inner_sorted_from) (simp_all add: Suc_diff_Suc)
  then show ?case using Suc.IH [of "Suc i" ?r] Suc.prems(1) p by simp
next
  case 0
  then have "length es - i = 1" by simp
  then show ?case using 0 by simp
qed

lemma sort_entries_perm: "mset (sort_entries es) = mset es"
  and sort_entries_sorted: "sorted_wrt (\<lambda>e f. mm_addr e \<le> mm_addr f) (sort_entries es)"
proof -
  have "mset (sort_entries es) = mset es \<and> sorted_wrt (\<lambda>e f. mm_addr e \<le> mm_addr f) (sort_entries es)"
  proof (cases "es = []")
    case True
    then show ?thesis by (simp add: sort_entries_def)
  next
    case False
    moreover have "sorted_from (length es - 0) es" by (auto simp: sorted_from_def)
    ultimately have "mset (sort_entries es) = mset es \<and> sorted_from 1 (sort_entries es)"
      using bubble_outer_sorts [of 0 "length es - 1" es] by (simp add: sort_entries_def)
    then show ?thesis by (auto simp: sorted_from_def sorted_wrt_iff_nth_less)
  qed
  then show "mset (sort_entries es) = mset es" "sorted_wrt (\<lambda>e f. mm_addr e \<le> mm_addr f) (sort_entries es)" by auto
qed

section \<open>Where the areas begin\<close>

lemma starts_update: "start_addr a = start_addr (as ! i) \<Longrightarrow> i < length as \<Longrightarrow> start_addr ` set (as[i := a]) = start_addr ` set as"
proof -
  assume "start_addr a = start_addr (as ! i)" "i < length as"
  then have "map start_addr (as[i := a]) = map start_addr as" by (simp add: map_update list_update_same_conv)
  then show ?thesis by (metis list.set_map)
qed

lemma ReserveSub2_starts: "i < length as \<Longrightarrow> start_addr ` set (ReserveSub2 as i addr sz) \<subseteq> insert addr (start_addr ` set as)"
  using starts_update [of "(as ! i) \<lparr> end_addr := addr + sz \<rparr>" as i]
  by (auto simp: ReserveSub2_def Let_def dest: in_set_takeD in_set_dropD)

lemma reserve_walk_starts:
  "reserve_walk addr sz as i f = Break as' f' \<Longrightarrow> start_addr ` set as' \<subseteq> insert addr (start_addr ` set as)"
proof (induction addr sz as i f rule: reserve_walk.induct)
  case (1 addr sz as i f)
  have e: "start_addr ` set (as[i := (as ! i) \<lparr> end_addr := addr + sz \<rparr>]) = start_addr ` set as" if "i + 1 < length as"
    using that by (intro starts_update) simp_all
  show ?case using 1(2) 1(1) [OF _ refl refl refl] e ReserveSub2_starts [of "i + 1" as addr sz]
    by (subst (asm) reserve_walk.simps) (auto simp: Let_def split: if_splits dest!: in_set_takeD in_set_dropD)
qed

lemma merge_fraged_starts: "touching f as \<Longrightarrow> start_addr ` set (merge_fraged f as) \<subseteq> start_addr ` set as"
  by (auto simp: merge_fraged_def touching_def split: option.splits dest!: in_set_takeD in_set_dropD)

lemma ReserveSub_starts:
  assumes "areas_ok as" and "start_addr (hd as) \<le> addr" and "addr < addr + sz"
    and "no_start_inside as addr sz" and "sz mod kPageSize = 0" "addr mod kPageSize = 0"
  shows "\<exists>as'. ReserveSub (Suc n) as addr sz = Some (Inr as') \<and> areas_ok as' \<and>
           owned as' = owned as \<union> {addr..<addr + sz} \<and> start_addr ` set as' \<subseteq> insert addr (start_addr ` set as)"
proof -
  obtain as' where a: "ReserveSub (Suc n) as addr sz = Some (Inr as')" "areas_ok as'" "owned as' = owned as \<union> {addr..<addr + sz}"
    using ReserveSub_one_pass [OF assms] by blast
  have ne: "as \<noteq> []" "sz \<noteq> 0" using assms(1,3) by (auto simp: areas_ok_def)
  have "start_addr ` set as' \<subseteq> insert addr (start_addr ` set as)"
  proof (cases "length as = 1")
    case True
    then show ?thesis using a(1) ReserveSub2_starts [of 0 as addr sz] ne assms(5,6) by simp
  next
    case False
    then have l: "0 + 1 < length as" using ne by (cases as) auto
    have h: "start_addr (as ! 0) \<le> addr" using assms(2) ne by (simp add: hd_conv_nth)
    obtain as1 f where w: "reserve_walk addr sz as 0 None = Break as1 f" "touching f as1"
      using reserve_walk_ok [OF assms(1) l h assms(3,4), of None] by (auto simp: touching_before_def touching_def)
    then have "as' = merge_fraged f as1" using a(1) False ne assms(5,6) by simp
    then show ?thesis using reserve_walk_starts [OF w(1)] merge_fraged_starts [OF w(2)] by auto
  qed
  then show ?thesis using a by blast
qed

section \<open>The holes of the memory map\<close>

lemma Round_align: "RoundAddrOnPageBoundary a = align a kPageSize" "RoundUpAddrOnPageBoundary a = alignUp a kPageSize"
  by (simp_all add: RoundAddrOnPageBoundary_def RoundUpAddrOnPageBoundary_def align_def alignUp_def)

lemma Round_dvd: "4096 dvd unat (RoundAddrOnPageBoundary a)" "4096 dvd unat (RoundUpAddrOnPageBoundary a)"
  using align_dvd [of kPageSize a] alignUp_dvd [of kPageSize a] by (simp_all add: Round_align kPageSize_def)

lemma map_dvd: "4096 dvd unat (map_start e)" "4096 dvd unat (map_end e)"
  by (simp_all add: map_start_def map_end_def Round_dvd)

text \<open>The addresses below the last usable one that are in no entry, for entries in order, none of them empty after rounding\<close>

fun in_order :: "u64 \<Rightarrow> mmap_entry list \<Rightarrow> bool" where
  "in_order cur [] \<longleftrightarrow> True"
| "in_order cur (e # es) \<longleftrightarrow> cur \<le> map_start e \<and> map_start e < map_end e \<and> in_order (map_end e) es"

fun holes :: "u64 \<Rightarrow> mmap_entry list \<Rightarrow> u64 set" where
  "holes cur [] = {}"
| "holes cur (e # es) = {cur..<map_start e} \<union> holes (map_end e) es"

lemma in_order_ge: "in_order cur es \<Longrightarrow> f \<in> set es \<Longrightarrow> cur \<le> map_start f \<and> map_start f < map_end f"
proof (induction es arbitrary: cur)
  case (Cons e es)
  then have "f = e \<or> map_end e \<le> map_start f \<and> map_start f < map_end f" by auto
  then show ?case using Cons.prems(1) by auto
qed simp

lemma in_order_last: "in_order cur es \<Longrightarrow> f \<in> set es \<Longrightarrow> map_end f \<le> map_end (last es)"
proof (induction es arbitrary: cur)
  case (Cons e es)
  show ?case
  proof (cases "f = e \<and> es \<noteq> []")
    case True
    then have "last es \<in> set es" "in_order (map_end e) es" using Cons.prems(1) by auto
    then have "map_end e \<le> map_start (last es) \<and> map_start (last es) < map_end (last es)" by (rule in_order_ge [rotated])
    then show ?thesis using True by auto
  next
    case False
    then show ?thesis using Cons by auto
  qed
qed simp

lemma holes_set:
  "in_order cur es \<Longrightarrow> es \<noteq> [] \<Longrightarrow>
   holes cur es = {a. cur \<le> a \<and> a < map_end (last es) \<and> (\<forall>e \<in> set es. \<not> (map_start e \<le> a \<and> a < map_end e))}"
proof (induction es arbitrary: cur)
  case (Cons e es)
  have o: "cur \<le> map_start e" "map_start e < map_end e" "in_order (map_end e) es" using Cons.prems(1) by auto
  show ?case
  proof (cases "es = []")
    case True
    then show ?thesis using o by auto
  next
    case False
    have l: "map_end e \<le> map_end (last es)" using in_order_last [OF Cons.prems(1), of e] False by simp
    have ge: "map_end e \<le> map_start f" if "f \<in> set es" for f using in_order_ge [OF o(3) that] by simp
    show ?thesis using Cons.IH [OF o(3) False] False o(1,2) l ge by (force simp: not_le intro: less_le_trans)
  qed
qed simp

lemma reserve_holes_ok:
  "areas_ok (allocated_area st) \<Longrightarrow>
   (\<forall>d \<in> set (allocated_area st). start_addr d < cur) \<or> (\<exists>m. allocated_area st = [\<lparr> start_addr = 0, end_addr = m \<rparr>]) \<and> cur = 0 \<Longrightarrow>
   4096 dvd unat cur \<Longrightarrow> in_order cur es \<Longrightarrow>
   \<exists>as. reserve_holes (Suc n) es cur st = Some (Inr (st \<lparr> allocated_area := as \<rparr>)) \<and> areas_ok as \<and>
     owned as = owned (allocated_area st) \<union> holes cur es"
proof (induction es arbitrary: cur st)
  case Nil
  then show ?case by (intro exI [of _ "allocated_area st"]) simp
next
  case (Cons e es)
  let ?as = "allocated_area st" and ?sz = "map_start e - cur"
  have o: "cur \<le> map_start e" "map_start e < map_end e" "in_order (map_end e) es" using Cons.prems(4) by auto
  have starts: "\<forall>d \<in> set ?as. start_addr d \<le> cur" using Cons.prems(2) by (auto intro: less_imp_le)
  show ?case
  proof (cases "cur = map_start e")
    case True
    have "\<forall>d \<in> set ?as. start_addr d < map_end e" using starts o by (auto intro: le_less_trans)
    then show ?thesis using Cons.IH [of st "map_end e"] Cons.prems(1) o(3) map_dvd True by (simp add: kobind_def)
  next
    case False
    then have lt: "cur < map_start e" using o(1) by simp
    have ne: "?as \<noteq> []" using Cons.prems(1) by (simp add: areas_ok_def)
    have hd: "start_addr (hd ?as) \<le> cur" using starts ne by simp
    have nsi: "no_start_inside ?as cur ?sz" 
      using Cons.prems(2)
    proof
      assume "\<forall>d \<in> set ?as. start_addr d < cur"
      then show ?thesis using ne unfolding no_start_inside_def by (meson leD list.set_sel(2))
    qed (auto simp: no_start_inside_def)
    have "unat ?sz = unat (map_start e) - unat cur" using o(1) by (rule unat_minus_le)
    then have "4096 dvd unat ?sz" using map_dvd(1) [of e] Cons.prems(3) by (simp add: dvd_diff_nat)
    then have pg: "?sz mod kPageSize = 0" "cur mod kPageSize = 0" using Cons.prems(3) by (simp_all add: kPageSize_dvd)
    obtain as1 where r: "ReserveSub (Suc n) ?as cur ?sz = Some (Inr as1)" "areas_ok as1" "owned as1 = owned ?as \<union> {cur..<map_start e}"
      "start_addr ` set as1 \<subseteq> insert cur (start_addr ` set ?as)"
      using ReserveSub_starts [OF Cons.prems(1) hd _ nsi pg, of n] lt by auto
    have "\<forall>d \<in> set as1. start_addr d < map_end e"
    proof
      fix d assume "d \<in> set as1"
      then have "start_addr d \<in> insert cur (start_addr ` set ?as)" using r(4) by blast
      then have "start_addr d \<le> cur" using starts by auto
      then show "start_addr d < map_end e" using lt o(2) by simp
    qed
    then obtain as2 where "reserve_holes (Suc n) es (map_end e) (st \<lparr> allocated_area := as1 \<rparr>) = Some (Inr (st \<lparr> allocated_area := as2 \<rparr>))"
      "areas_ok as2" "owned as2 = owned as1 \<union> holes (map_end e) es"
      using Cons.IH [of "st \<lparr> allocated_area := as1 \<rparr>" "map_end e"] r(2) o(3) map_dvd(2) by auto
    then show ?thesis using r False by (intro exI [of _ as2]) (auto simp: kobind_def Reserve_def simp del: ReserveSub.simps)
  qed
qed

text \<open>A memory map: its entries do not overlap or reach the end of the address space, and each holds a whole page.\<close>

definition map_ok :: "mmap_entry list \<Rightarrow> bool" where
  "map_ok es \<longleftrightarrow> distinct es \<and> (\<forall>e \<in> set es. unat (mm_addr e) + unat (mm_len e) + 4096 \<le> 2 ^ 64 \<and> map_start e < map_end e) \<and>
     (\<forall>e \<in> set es. \<forall>f \<in> set es. e \<noteq> f \<longrightarrow> mm_addr e + mm_len e \<le> mm_addr f \<or> mm_addr f + mm_len f \<le> mm_addr e)"

lemma map_bounds:
  assumes "unat (mm_addr e) + unat (mm_len e) + 4096 \<le> 2 ^ 64"
  shows "mm_addr e \<le> map_start e" and "map_end e \<le> mm_addr e + mm_len e"
proof -
  have "unat (mm_addr e) + unat kPageSize \<le> 2 ^ 64" using assms by (simp add: kPageSize_def)
  then show "mm_addr e \<le> map_start e"
    using alignUp_ge(1) [of kPageSize "mm_addr e"] by (simp add: map_start_def Round_align word_le_unat kPageSize_def)
  show "map_end e \<le> mm_addr e + mm_len e"
    using align_le [of "mm_addr e + mm_len e" kPageSize] by (simp add: map_end_def Round_align word_le_unat)
qed

lemma in_order_sorted:
  "map_ok es \<Longrightarrow> sorted_wrt (\<lambda>e f. mm_addr e \<le> mm_addr f) es \<Longrightarrow> \<forall>e \<in> set es. cur \<le> map_start e \<Longrightarrow> in_order cur es"
proof (induction es arbitrary: cur)
  case (Cons e es)
  have e: "unat (mm_addr e) + unat (mm_len e) + 4096 \<le> 2 ^ 64" "map_start e < map_end e" using Cons.prems(1) by (auto simp: map_ok_def)
  have "map_end e \<le> map_start f" if f: "f \<in> set es" for f
  proof -
    have fo: "unat (mm_addr f) + unat (mm_len f) + 4096 \<le> 2 ^ 64" "map_start f < map_end f" using Cons.prems(1) f by (auto simp: map_ok_def)
    have ef: "mm_addr e \<le> mm_addr f" "e \<noteq> f" using Cons.prems(1,2) f by (auto simp: map_ok_def)
    have "\<not> mm_addr f + mm_len f \<le> mm_addr e"
      using map_bounds [OF fo(1)] fo(2) ef(1) by (meson leD le_less_trans less_le_trans)
    then have "mm_addr e + mm_len e \<le> mm_addr f" using Cons.prems(1) f ef(2) unfolding map_ok_def by auto
    then show ?thesis using map_bounds(2) [OF e(1)] map_bounds(1) [OF fo(1)] by simp
  qed
  moreover have "map_ok es" using Cons.prems(1) by (auto simp: map_ok_def)
  ultimately show ?case using Cons.IH [of "map_end e"] Cons.prems(2,3) e(2) by simp
qed simp

lemma sort_entries_ok: "map_ok es \<Longrightarrow> map_ok (sort_entries es)" and set_sort_entries: "set (sort_entries es) = set es"
proof -
  show s: "set (sort_entries es) = set es" using sort_entries_perm [of es] by (metis set_mset_mset)
  have "distinct (sort_entries es) = distinct es" using sort_entries_perm [of es] by (metis mset_eq_imp_distinct_iff)
  then show "map_ok es \<Longrightarrow> map_ok (sort_entries es)" using s by (simp add: map_ok_def)
qed

text \<open>C17: \<open>Setup\<close> takes out of use exactly what the memory map does not offer, for a memory map with at least one usable
  entry whose usable entries do not overlap, end at least a page before the end of the address space, and hold a whole
  page each (on an entry without a whole page the code can hang), and when the area at the start of the memory is the only one in use. The usable
  entries, in any order, are sorted; then every address below the end of the last entry that is not in a page of an
  entry is reserved, nothing else. The end of the memory is the end of the last entry.
\<close>

theorem Multiboot_reserves_holes:
  assumes "allocated_area st = [\<lparr> start_addr = 0, end_addr = m \<rparr>]"
    and es: "es = filter (\<lambda>e. mm_type e = MULTIBOOT_MEMORY_AVAILABLE) mmap" and "es \<noteq> []" and "map_ok es"
  shows "\<exists>l as. l \<in> set es \<and> (\<forall>e \<in> set es. map_end e \<le> map_end l) \<and>
    setup_map (Suc n) mmap st = Some (Inr (mm_addr l + mm_len l, st \<lparr> allocated_area := as \<rparr>)) \<and> areas_ok as \<and>
    owned as = {0..<m} \<union> {a. a < map_end l \<and> (\<forall>e \<in> set es. \<not> (map_start e \<le> a \<and> a < map_end e))}"
proof -
  let ?s = "sort_entries es"
  have ne: "?s \<noteq> []" using assms(3) set_sort_entries [of es] by (metis set_empty)
  have ord: "in_order 0 ?s" using in_order_sorted [OF sort_entries_ok [OF assms(4)] sort_entries_sorted] by simp
  have ok: "areas_ok (allocated_area st)" using assms(1) by (simp add: areas_ok_def)
  obtain as where as: "reserve_holes (Suc n) ?s 0 st = Some (Inr (st \<lparr> allocated_area := as \<rparr>))" "areas_ok as"
    "owned as = owned (allocated_area st) \<union> holes 0 ?s"
    using reserve_holes_ok [OF ok _ _ ord, of n] assms(1) by auto
  have "setup_map (Suc n) mmap st = Some (Inr (mm_addr (last ?s) + mm_len (last ?s), st \<lparr> allocated_area := as \<rparr>))"
    using as(1) ne by (simp add: setup_map_def es [symmetric] Let_def)
  moreover have "last ?s \<in> set es" using ne set_sort_entries [of es] last_in_set by blast
  moreover have "\<forall>e \<in> set es. map_end e \<le> map_end (last ?s)" using in_order_last [OF ord] set_sort_entries [of es] by simp
  ultimately show ?thesis
    using as(2,3) assms(1) holes_set [OF ord ne] set_sort_entries [of es] by (intro exI [of _ "last ?s"] exI [of _ as]) simp
qed

definition demo_map :: "mmap_entry list" where
  "demo_map = [\<lparr> mm_addr = 0x1000000, mm_len = 0x2000800, mm_type = 1 \<rparr>, \<lparr> mm_addr = 0xf0000000, mm_len = 0x1000, mm_type = 2 \<rparr>,
     \<lparr> mm_addr = 0, mm_len = 0x9fc00, mm_type = 1 \<rparr>]"

definition demo_physmem :: PhysmemCtrl where
  "demo_physmem = \<lparr> allocated_area = [\<lparr> start_addr = 0, end_addr = 0x600000 \<rparr>], is_initialized = False, is_able_to_allocate = False \<rparr>"

theorem Multiboot_reserves_holes_witness:
  "\<exists>as. setup_map 1 demo_map demo_physmem = Some (Inr (0x3000800, demo_physmem \<lparr> allocated_area := as \<rparr>)) \<and>
    0x700000 \<in> owned as \<and> 0x1000000 \<notin> owned as"
proof -
  let ?e1 = "\<lparr> mm_addr = 0x1000000, mm_len = 0x2000800, mm_type = 1 \<rparr>" and ?e2 = "\<lparr> mm_addr = 0, mm_len = 0x9fc00, mm_type = 1 \<rparr>"
  have f: "[?e1, ?e2] = filter (\<lambda>e. mm_type e = MULTIBOOT_MEMORY_AVAILABLE) demo_map" by (simp add: demo_map_def MULTIBOOT_MEMORY_AVAILABLE_def)
  have b: "map_start ?e1 = 0x1000000" "map_end ?e1 = 0x3000000" "map_start ?e2 = 0" "map_end ?e2 = 0x9f000"
    by (simp_all add: map_start_def map_end_def RoundUpAddrOnPageBoundary_def RoundAddrOnPageBoundary_def kPageSize_def)
  have m: "map_ok [?e1, ?e2]" by (simp add: map_ok_def b)
  obtain l as where l: "l \<in> set [?e1, ?e2]" "\<forall>e \<in> set [?e1, ?e2]. map_end e \<le> map_end l"
    "setup_map (Suc 0) demo_map demo_physmem = Some (Inr (mm_addr l + mm_len l, demo_physmem \<lparr> allocated_area := as \<rparr>))"
    "owned as = {0..<0x600000} \<union> {a. a < map_end l \<and> (\<forall>e \<in> set [?e1, ?e2]. \<not> (map_start e \<le> a \<and> a < map_end e))}"
    using Multiboot_reserves_holes [OF _ f _ m, where st = demo_physmem and m = "0x600000" and n = 0] by (auto simp: demo_physmem_def)
  have "l = ?e1" using l(1,2) b by auto
  then show ?thesis using l(3,4) b by (intro exI [of _ as]) simp
qed

text \<open>
  An entry smaller than a page breaks this: it rounds to an end below its beginning, so the loop goes back and reserves
  from the same address again, which \<open>Reserve\<close> does not survive.
\<close>

definition small_map :: "mmap_entry list" where
  "small_map = [\<lparr> mm_addr = 0, mm_len = 0x1000800, mm_type = 1 \<rparr>, \<lparr> mm_addr = 0x1000800, mm_len = 0x400, mm_type = 1 \<rparr>,
     \<lparr> mm_addr = 0x2000000, mm_len = 0x1000, mm_type = 1 \<rparr>]"

text \<open>A memory map with an entry that holds no whole page can keep the kernel from booting: for three usable entries in order
  that do not overlap, the one in the middle of 1 KiB, \<open>Setup\<close> calls \<open>Reserve\<close> twice with the same address and the second
  call does not return, whatever the bound on its depth.
\<close>

theorem Multiboot_small_entry_hangs:
  "setup_map n small_map demo_physmem = None"
proof -
  let ?e1 = "\<lparr> mm_addr = 0, mm_len = 0x1000800, mm_type = 1 \<rparr>" and ?e2 = "\<lparr> mm_addr = 0x1000800, mm_len = 0x400, mm_type = 1 \<rparr>"
    and ?e3 = "\<lparr> mm_addr = 0x2000000, mm_len = 0x1000, mm_type = 1 \<rparr>"
  let ?as = "[\<lparr> start_addr = 0, end_addr = 0x600000 \<rparr>, \<lparr> start_addr = 0x1000000, end_addr = 0x1001000 \<rparr>]"
  have s: "sort_entries (filter (\<lambda>e. mm_type e = MULTIBOOT_MEMORY_AVAILABLE) small_map) = [?e1, ?e2, ?e3]"
    by (simp add: small_map_def MULTIBOOT_MEMORY_AVAILABLE_def sort_entries_def)
  have b: "map_start ?e1 = 0" "map_end ?e1 = 0x1000000" "map_start ?e2 = 0x1001000" "map_end ?e2 = 0x1000000" "map_start ?e3 = 0x2000000"
    by (simp_all add: map_start_def map_end_def RoundUpAddrOnPageBoundary_def RoundAddrOnPageBoundary_def kPageSize_def)
  have "reserve_holes n [?e1, ?e2, ?e3] 0 demo_physmem = None"
  proof (cases n)
    case 0
    then show ?thesis by (simp add: b kobind_def Reserve_def)
  next
    case (Suc k)
    have "Reserve (Suc k) demo_physmem 0x1000000 0x1000 = Some (Inr (demo_physmem \<lparr> allocated_area := ?as \<rparr>))"
      by (simp add: Reserve_def demo_physmem_def ReserveSub2_def kPageSize_def)
    moreover have "ReserveSub (Suc k) ?as 0x1000000 0x1000000 = None"
      by (rule ReserveSub_loops [where i = 0]) (simp_all add: areas_ok_def kPageSize_def)
    then have "Reserve (Suc k) (demo_physmem \<lparr> allocated_area := ?as \<rparr>) 0x1000000 0x1000000 = None"
      by (simp add: Reserve_def del: ReserveSub.simps)
    ultimately show ?thesis using Suc by (simp add: b kobind_def)
  qed
  then show ?thesis by (simp add: setup_map_def s)
qed

section \<open>Files from the boot loader\<close>

text \<open>The module that \<open>LoadFile\<close> finds is the first one with that command line, and the file is its memory.\<close>

lemma find_tag_found:
  assumes "find_tag p info off = Inr (Some t)"
  shows "off \<le> t \<and> t + 8 \<le> length info \<and> get32 t info \<noteq> MULTIBOOT_TAG_TYPE_END \<and> p t (get32 t info) = Inr True"
  using assms
proof (induction p info off rule: find_tag.induct)
  case (1 p info off)
  let ?t = "get32 off info" and ?n = "next_tag off (get32 (off + 4) info)"
  have g: "\<not> length info < off + 8" "?t \<noteq> MULTIBOOT_TAG_TYPE_END"
    using 1(2) by (auto simp: find_tag.simps [of p info off] Let_def split: if_splits)
  then obtain found where f: "p off ?t = Inr found" "(if found then Inr (Some off) else if ?n \<le> off then Inl Deadlock else find_tag p info ?n) = Inr (Some t)"
    using 1(2) by (auto simp: find_tag.simps [of p info off] Let_def kbind_eq_Inr)
  show ?case
  proof (cases found)
    case True
    then show ?thesis using f g by auto
  next
    case False
    then have n: "\<not> ?n \<le> off" "find_tag p info ?n = Inr (Some t)" using f(2) by (auto split: if_splits)
    have "?n \<le> t \<and> t + 8 \<le> length info \<and> get32 t info \<noteq> MULTIBOOT_TAG_TYPE_END \<and> p t (get32 t info) = Inr True"
      by (rule 1(1) [OF g(1) refl refl g(2) _ n]) (use False in simp)
    then show ?thesis using n(1) by auto
  qed
qed

lemma LoadFile_ok:
  assumes "LoadFile mem info str = Inr (Some file)"
  shows "\<exists>off. get32 off info = MULTIBOOT_TAG_TYPE_MODULE \<and> strcmp (drop (off + 16) info) str = Inr 0 \<and>
    length file = unat (get32 (off + 12) info - get32 (off + 8) info) \<and>
    (\<forall>i < length file. file ! i = mem (ucast (get32 (off + 8) info) + of_nat i))"
proof -
  obtain off where o: "find_tag (is_module str info) info 8 = Inr (Some off)"
    "file = map (\<lambda>i. mem (ucast (get32 (off + 8) info) + of_nat i)) [0..<unat (get32 (off + 12) info - get32 (off + 8) info)]"
    using assms by (auto simp: LoadFile_def kmap_eq_Inr Let_def eq_commute [of "Some file"])
  have "is_module str info off (get32 off info) = Inr True" using find_tag_found [OF o(1)] by simp
  then have "get32 off info = MULTIBOOT_TAG_TYPE_MODULE \<and> strcmp (drop (off + 16) info) str = Inr 0"
    by (auto simp: is_module_def kmap_eq_Inr split: if_splits)
  then show ?thesis using o(2) by (intro exI [of _ off]) simp
qed

end
