(* ===== verification/Interrupts.thy ===== *)
theory Interrupts
  imports Raph_Prelude
begin

unbundle bit_operations_syntax

text \<open>
  Descriptor tables and interrupt vectors (\<open>idt.cc\<close>, \<open>idt.h\<close>, \<open>gdt.cc\<close>, \<open>gdt.h\<close>): the gates of the interrupt descriptor table and the
  segment descriptors as the words that the processor reads, the table of callbacks per processor, the allocation of vectors,
  and the dispatch of an interrupt. A callback is identified by a number; what it does to the tables is an argument.
\<close>

section \<open>Gates\<close>

definition KERNEL_CS :: u64 where
  "KERNEL_CS = 0x10"

definition kIdtPresent :: u32 where
  "kIdtPresent = push_bit 15 1"

text \<open>The four words of an entry. The first operand of each \<open>|\<close> has 64 bits; the result is cut to 32.\<close>

definition SetGate :: "u64 \<Rightarrow> u8 \<Rightarrow> bool \<Rightarrow> u8 \<Rightarrow> u32 list" where
  "SetGate vaddr dpl trap ist = (let type = (if trap then 0xF else 0xE) :: u32 in
     [ucast ((vaddr AND 0xFFFF) OR push_bit 16 KERNEL_CS),
      ucast ((vaddr AND 0xFFFF0000) OR ucast (push_bit 8 type) OR push_bit 13 (ucast dpl AND 3) OR ucast kIdtPresent OR ucast ist),
      ucast (drop_bit 32 vaddr), 0])"

definition gate_ist :: "nat \<Rightarrow> u8" where
  "gate_ist i = (if i = 8 then 1 else if i = 2 then 2 else if i = 1 \<or> i = 3 then 3 else if i = 18 then 4 else 5)"

text \<open>The 256 gates that \<open>SetupGeneric\<close> writes, and the operand of \<open>lidt\<close>\<close>

definition idt_gates :: "(nat \<Rightarrow> u64) \<Rightarrow> u32 list list" where
  "idt_gates idt_vectors = map (\<lambda>i. SetGate (idt_vectors i) 0 False (gate_ist i)) [0..<256]"

definition idtr :: "u64 \<Rightarrow> u16 list" where
  "idtr idt_addr = [8 * 256 - 1, ucast (idt_addr AND 0xffff), ucast (drop_bit 16 idt_addr AND 0xffff),
     ucast (drop_bit 32 idt_addr AND 0xffff), ucast (drop_bit 48 idt_addr AND 0xffff)]"

section \<open>Callbacks\<close>

datatype EoiType = kNone | kLapic | kIoapic

record IntCallback =
  ic_callback :: "nat option"
  ic_arg :: nat
  ic_eoi :: EoiType

record Idt =
  id_callback :: "IntCallback list list"
  id_handling_cnt :: "int list"
  id_is_gen_initialized :: bool

definition kError :: nat where
  "kError = 63"

definition set_callback :: "nat \<Rightarrow> nat \<Rightarrow> nat option \<Rightarrow> nat \<Rightarrow> EoiType \<Rightarrow> Idt \<Rightarrow> Idt" where
  "set_callback cpuid vector cb arg eoi idt = idt \<lparr> id_callback := (id_callback idt)
     [cpuid := (id_callback idt ! cpuid)[vector := \<lparr> ic_callback = cb, ic_arg = arg, ic_eoi = eoi \<rparr>]] \<rparr>"

definition SetExceptionCallback :: "nat \<Rightarrow> int \<Rightarrow> nat option \<Rightarrow> nat \<Rightarrow> EoiType \<Rightarrow> Idt \<Rightarrow> Idt kres" where
  "SetExceptionCallback cpuid vector cb arg eoi idt = kbind (kassert (id_is_gen_initialized idt)) (\<lambda>_.
     kbind (kassert (vector < 64 \<and> vector \<ge> 1)) (\<lambda>_. Inr (set_callback cpuid (nat vector) cb arg eoi idt)))"

text \<open>\<open>SetupGeneric\<close>, the part on the callbacks: \<open>gp\<close> and \<open>pf\<close> are the handlers of the two exceptions.\<close>

definition Idt_new :: "nat \<Rightarrow> Idt" where
  "Idt_new ncpus = \<lparr> id_callback = replicate ncpus (replicate 256 \<lparr> ic_callback = None, ic_arg = 0, ic_eoi = kNone \<rparr>),
     id_handling_cnt = replicate ncpus 0, id_is_gen_initialized = True \<rparr>"

fun set_exceptions :: "nat \<Rightarrow> nat \<Rightarrow> nat \<Rightarrow> nat \<Rightarrow> Idt \<Rightarrow> Idt kres" where
  "set_exceptions gp pf i 0 idt = Inr idt"
| "set_exceptions gp pf i (Suc n) idt = kbind (SetExceptionCallback i 13 (Some gp) 0 kNone idt) (\<lambda>idt1.
     kbind (SetExceptionCallback i 14 (Some pf) 0 kNone idt1) (set_exceptions gp pf (Suc i) n))"

definition SetupGeneric :: "nat \<Rightarrow> nat \<Rightarrow> nat \<Rightarrow> Idt kres" where
  "SetupGeneric gp pf ncpus = set_exceptions gp pf 0 ncpus (Idt_new ncpus)"

text \<open>The first free vector from 64 on\<close>

fun free_vector :: "IntCallback list \<Rightarrow> nat \<Rightarrow> nat \<Rightarrow> nat option" where
  "free_vector cs vector 0 = None"
| "free_vector cs vector (Suc n) = (if ic_callback (cs ! vector) = None then Some vector else free_vector cs (Suc vector) n)"

definition SetIntCallback :: "nat \<Rightarrow> nat option \<Rightarrow> nat \<Rightarrow> EoiType \<Rightarrow> Idt \<Rightarrow> (nat \<times> Idt) kres" where
  "SetIntCallback cpuid cb arg eoi idt = kbind (kassert (id_is_gen_initialized idt)) (\<lambda>_.
     Inr (case free_vector (id_callback idt ! cpuid) 64 192 of
       None \<Rightarrow> (kError, idt) | Some v \<Rightarrow> (v, set_callback cpuid v cb arg eoi idt)))"

text \<open>
  Several vectors at once. The test for a power of two doubles \<open>_range\<close> until it reaches \<open>range\<close>; above \<open>2^30\<close> the \<open>int\<close> would overflow,
  which is left undefined there.
\<close>

function power_from :: "nat \<Rightarrow> nat \<Rightarrow> nat" where
  "power_from r rng = (if 0 < r \<and> r < rng then power_from (r * 2) rng else r)"
  by pat_completeness auto
termination
  by (relation "measure (\<lambda>(r, rng). rng - r)") auto

declare power_from.simps [simp del]

definition range_free :: "IntCallback list \<Rightarrow> nat \<Rightarrow> nat \<Rightarrow> bool" where
  "range_free cs vector rng \<longleftrightarrow> (\<forall>i \<in> set [0..<rng]. ic_callback (cs ! (vector + i)) = None)"

function find_range :: "IntCallback list \<Rightarrow> nat \<Rightarrow> nat \<Rightarrow> nat option" where
  "find_range cs rng vector = (if vector < 256 \<and> 0 < rng then
     if range_free cs vector rng then Some vector else find_range cs rng (vector + rng) else None)"
  by pat_completeness auto
termination
  by (relation "measure (\<lambda>(cs, rng, vector). 256 - vector)") auto

declare find_range.simps [simp del]

fun set_range :: "nat \<Rightarrow> nat \<Rightarrow> (nat option \<times> nat) list \<Rightarrow> EoiType \<Rightarrow> Idt \<Rightarrow> Idt" where
  "set_range cpuid vector [] eoi idt = idt"
| "set_range cpuid vector ((cb, arg) # cbs) eoi idt = set_range cpuid (Suc vector) cbs eoi (set_callback cpuid vector cb arg eoi idt)"

definition SetIntCallbacks :: "nat \<Rightarrow> (nat option \<times> nat) list \<Rightarrow> EoiType \<Rightarrow> Idt \<Rightarrow> (nat \<times> Idt) kres" where
  "SetIntCallbacks cpuid cbs eoi idt = kbind (kassert (id_is_gen_initialized idt)) (\<lambda>_. let rng = length cbs in
     if power_from 1 rng \<noteq> rng then Inr (kError, idt)
     else Inr (case find_range (id_callback idt ! cpuid) rng (if rng > 64 then rng else 64) of
       None \<Rightarrow> (kError, idt) | Some v \<Rightarrow> (v, set_range cpuid v cbs eoi idt)))"

section \<open>Dispatch\<close>

datatype int_event = Call nat nat | Eoi_lapic | Eoi_ioapic nat

text \<open>
  \<open>handle_int\<close>: the calls it makes, or that it halts the processor because the vector has no callback. \<open>run\<close> is the effect of a callback
  on the tables; the kind of acknowledgement is read after the callback has returned.
\<close>

definition handle_int :: "(nat \<Rightarrow> nat \<Rightarrow> Idt \<Rightarrow> Idt) \<Rightarrow> nat \<Rightarrow> nat \<Rightarrow> Idt \<Rightarrow> (int_event list \<times> Idt) kres" where
  "handle_int run cpuid n idt = (let idt1 = idt \<lparr> id_handling_cnt := (id_handling_cnt idt)[cpuid := id_handling_cnt idt ! cpuid + 1] \<rparr> in
     case ic_callback (id_callback idt1 ! cpuid ! n) of
       None \<Rightarrow> Inl Kernel_Panic
     | Some cb \<Rightarrow> let arg = ic_arg (id_callback idt1 ! cpuid ! n); idt2 = run cb arg idt1;
           eoi = (case ic_eoi (id_callback idt2 ! cpuid ! n) of kNone \<Rightarrow> [] | kLapic \<Rightarrow> [Eoi_lapic] | kIoapic \<Rightarrow> [Eoi_ioapic n]) in
         Inr (Call cb arg # eoi, idt2 \<lparr> id_handling_cnt := (id_handling_cnt idt2)[cpuid := id_handling_cnt idt2 ! cpuid - 1] \<rparr>))"

definition GetHandlingCnt :: "nat \<Rightarrow> Idt \<Rightarrow> int" where
  "GetHandlingCnt cpuid idt = (if \<not> id_is_gen_initialized idt then 0 else id_handling_cnt idt ! cpuid)"

section \<open>Segment descriptors\<close>

text \<open>\<open>MASK\<close> of \<open>raph.h\<close>; its mask is an \<open>int\<close>, whose sign only reaches bits that are cut off afterwards.\<close>

definition MASK :: "u64 \<Rightarrow> nat \<Rightarrow> nat \<Rightarrow> u64" where
  "MASK val ebit sbit = val AND push_bit sbit (mask (ebit - sbit + 1))"

text \<open>The twenty words of the table that \<open>Gdt::SetupProc\<close> writes; the task state segment has 104 bytes.\<close>

definition gdt_desc :: "u64 \<Rightarrow> u32 list" where
  "gdt_desc tss_vaddr = [0, 0, 0, 0, 0, 0x00209a00, 0, 0x00009200, 0, 0x0000F200, 0, 0x0020FA00, 0, 0, 0, 0,
     ucast (MASK (104 - 1) 15 0 OR push_bit 16 (MASK tss_vaddr 16 0)),
     ucast (drop_bit 16 (MASK tss_vaddr 23 16) OR push_bit 8 9 OR push_bit 13 3 OR push_bit 15 1 OR MASK (104 - 1) 19 16 OR MASK tss_vaddr 31 24),
     ucast (drop_bit 32 tss_vaddr), 0]"

section \<open>What the processor reads\<close>

text \<open>The address in a gate, the base and the limit of a task state descriptor, as the processor puts them together\<close>

definition gate_addr :: "u32 list \<Rightarrow> u64" where
  "gate_addr g = (ucast (g ! 0) AND mask 16) OR (ucast (g ! 1) AND push_bit 16 (mask 16)) OR push_bit 32 (ucast (g ! 2))"

definition gate_present :: "u32 list \<Rightarrow> bool" where
  "gate_present g \<longleftrightarrow> bit (g ! 1) 15"

definition gate_selector :: "u32 list \<Rightarrow> u16" where
  "gate_selector g = ucast (drop_bit 16 (g ! 0))"

definition gate_stack :: "u32 list \<Rightarrow> u8" where
  "gate_stack g = ucast (g ! 1) AND 7"

definition tss_base :: "u32 list \<Rightarrow> u64" where
  "tss_base d = drop_bit 16 (ucast (d ! 16)) OR push_bit 16 (ucast (d ! 17) AND mask 8) OR
     (ucast (d ! 17) AND push_bit 24 (mask 8)) OR push_bit 32 (ucast (d ! 18))"

lemma low_part:
  assumes "\<And>n. bit m n \<Longrightarrow> n < 32 \<and> \<not> bit y n"
  shows "(ucast (ucast (x OR y :: u64) :: u32) :: u64) AND m = x AND m"
proof (rule bit_word_eqI)
  fix n
  show "bit ((ucast (ucast (x OR y :: u64) :: u32) :: u64) AND m) n = bit (x AND m) n"
    using assms [of n] by (auto simp: bit_simps)
qed

lemma bit_mask_at: "bit (push_bit s (mask k) :: 'a::len word) n \<Longrightarrow> s \<le> n \<and> n < s + k"
  by (auto simp: bit_simps)

lemma bit_small: "unat y < 2 ^ k \<Longrightarrow> bit y n \<Longrightarrow> n < k" for y :: "'a::len word"
proof (rule ccontr)
  assume "unat y < 2 ^ k" "bit y n" "\<not> n < k"
  then have "unat y < 2 ^ n" using power_increasing [of k n "2 :: nat"] by linarith
  moreover have "bit (unat y) n" using \<open>bit y n\<close> by (simp add: bit_unsigned_iff)
  ultimately show False by (simp add: bit_iff_odd)
qed

lemma bit_large: "take_bit k y = 0 \<Longrightarrow> bit y n \<Longrightarrow> k \<le> n" for y :: "'a::len word"
  by (metis bit_0_eq bit_take_bit_iff bot_apply bot_bool_def not_le)

lemma gate_addr_SetGate: "gate_addr (SetGate vaddr dpl trap ist) = vaddr"
proof -
  have m: "0xFFFF = (mask 16 :: u64)" "0xFFFF0000 = (push_bit 16 (mask 16) :: u64)" by (simp_all add: mask_eq_exp_minus_1 push_bit_eq_mult)
  let ?y = "ucast (push_bit 8 (if trap then 0xF else 0xE) :: u32) OR push_bit 13 (ucast dpl AND 3) OR ucast kIdtPresent OR ucast ist :: u64"
  have "\<not> bit ?y n" if "16 \<le> n" for n
  proof -
    have "\<not> bit (ucast (push_bit 8 (if trap then 0xF else 0xE) :: u32) :: u64) n"
      using bit_small [of "push_bit 8 (if trap then 0xF else 0xE) :: u32" 16 n] that by (auto simp: bit_unsigned_iff)
    moreover have "\<not> bit (push_bit 13 (ucast dpl AND 3) :: u64) n"
      unfolding push_bit_and bit_and_iff using bit_small [of "push_bit 13 3 :: u64" 16 n] that by fastforce
    moreover have "\<not> bit (ucast kIdtPresent :: u64) n"
      using bit_small [of "ucast kIdtPresent :: u64" 16 n] that by (auto simp: kIdtPresent_def)
    moreover have "\<not> bit (ucast ist :: u64) n" using that bit_imp_le_length [of ist n] by (auto simp: bit_unsigned_iff)
    ultimately show ?thesis by (simp add: bit_or_iff)
  qed
  then have g1: "(ucast (ucast ((vaddr AND push_bit 16 (mask 16)) OR ?y) :: u32) :: u64) AND push_bit 16 (mask 16) = vaddr AND push_bit 16 (mask 16)"
    by (subst low_part) (auto dest: bit_mask_at simp: and.assoc)
  have "KERNEL_CS = push_bit 4 1" by (simp add: KERNEL_CS_def push_bit_eq_mult)
  then have g0: "(ucast (ucast ((vaddr AND mask 16) OR push_bit 16 KERNEL_CS) :: u32) :: u64) AND mask 16 = vaddr AND mask 16"
    by (subst low_part) (auto simp: bit_simps and.assoc)
  have g2: "push_bit 32 (ucast (ucast (drop_bit 32 vaddr) :: u32) :: u64) = push_bit 32 (drop_bit 32 vaddr)"
    by (rule bit_word_eqI) (auto simp: bit_simps)
  have "(vaddr AND mask 16) OR (vaddr AND push_bit 16 (mask 16)) OR push_bit 32 (drop_bit 32 vaddr) = vaddr" (is "?l = _")
  proof (rule bit_word_eqI)
    show "bit ?l n = bit vaddr n" if "n < LENGTH(64)" for n
      using that by (cases "n < 32") (auto simp: bit_simps)
  qed
  then show ?thesis using g0 g1 g2 by (simp add: gate_addr_def SetGate_def Let_def m or.assoc)
qed

lemma or_regroup: "c OR d OR e = f \<Longrightarrow> a OR c OR d OR e OR 0 OR b = (a OR b) OR f" for f :: u64
  by (drule sym) (simp add: or.assoc or.commute or.left_commute)

lemma tss_base_gdt_desc: "tss_base (gdt_desc vaddr) = vaddr"
proof -
  let ?d16 = "ucast (MASK (104 - 1) 15 0 OR push_bit 16 (MASK vaddr 16 0)) :: u32"
  let ?lo = "push_bit 8 9 OR push_bit 13 3 OR push_bit 15 1 OR MASK (104 - 1) 19 16 :: u64"
  let ?d17 = "ucast (drop_bit 16 (MASK vaddr 23 16) OR push_bit 8 9 OR push_bit 13 3 OR push_bit 15 1 OR MASK (104 - 1) 19 16 OR MASK vaddr 31 24) :: u32"
  have c: "MASK (104 - 1) 15 0 = 103" "MASK (104 - 1) 19 16 = 0" by (simp_all add: MASK_def mask_eq_exp_minus_1 push_bit_eq_mult)
  have b: "bit (103 :: u64) n \<Longrightarrow> n < 16" for n using bit_small [of "103 :: u64" 16 n] by simp
  have d16: "drop_bit 16 (ucast (ucast (103 OR push_bit 16 (MASK vaddr 16 0)) :: u32) :: u64) = vaddr AND mask 16"
  proof (rule bit_word_eqI)
    fix n
    show "bit (drop_bit 16 (ucast (ucast (103 OR push_bit 16 (MASK vaddr 16 0)) :: u32) :: u64)) n = bit (vaddr AND mask 16) n"
      using b [of "n + 16"] by (simp add: bit_simps MASK_def add.commute del: bit_numeral_simps) auto
  qed
  let ?x = "drop_bit 16 (MASK vaddr 23 16) OR MASK vaddr 31 24"
  have e: "\<not> bit (0xE900 :: u64) n" if "n < 8 \<or> 16 \<le> n" for n
    using that bit_small [of "0xE900 :: u64" 16 n] bit_large [of 8 "0xE900 :: u64" n] by auto
  have or: "drop_bit 16 (MASK vaddr 23 16) OR push_bit 8 9 OR push_bit 13 3 OR push_bit 15 1 OR 0 OR MASK vaddr 31 24 = ?x OR 0xE900"
  proof -
    have "push_bit 8 9 OR push_bit 13 3 OR push_bit 15 1 = (0xE900 :: u64)" by simp
    then show ?thesis by (rule or_regroup)
  qed
  have m: "(ucast (ucast (?x OR 0xE900) :: u32) :: u64) AND push_bit k (mask 8) = ?x AND push_bit k (mask 8)" if "k = 0 \<or> k = 24" for k
    by (rule low_part) (use that e in \<open>auto dest!: bit_mask_at\<close>)
  have "vaddr AND mask 16 OR push_bit 16 (?x AND mask 8) OR (?x AND push_bit 24 (mask 8)) OR
    push_bit 32 (ucast (ucast (drop_bit 32 vaddr) :: u32)) = vaddr" (is "?l = _")
  proof (rule bit_word_eqI)
    show "bit ?l n = bit vaddr n" if "n < LENGTH(64)" for n
      using that by (cases "n < 32"; cases "n < 24") (auto simp: bit_simps MASK_def)
  qed
  moreover have "gdt_desc vaddr ! 16 = ucast (103 OR push_bit 16 (MASK vaddr 16 0))" "gdt_desc vaddr ! 17 = ucast (?x OR 0xE900)"
    "gdt_desc vaddr ! 18 = ucast (drop_bit 32 vaddr)" unfolding gdt_desc_def c or by simp_all
  ultimately show ?thesis using m [of 0] m [of 24] unfolding tss_base_def by (simp only: d16 push_bit_0_id id_apply simp_thms)
qed

lemma gate_fields:
  "gate_present (SetGate vaddr 0 False ist)" "gate_selector (SetGate vaddr 0 False ist) = ucast KERNEL_CS"
  "gate_stack (SetGate vaddr 0 False ist) = ist AND 7"
proof -
  have v: "bit (vaddr AND 0xFFFF0000) n \<Longrightarrow> 16 \<le> n" for n
    using bit_mask_at [of 16 16 n, where 'a = 64] by (simp add: mask_eq_exp_minus_1 push_bit_eq_mult bit_and_iff)
  have p: "bit (push_bit 15 1 :: u64) 15" by (simp only: bit_push_bit_iff) simp
  show "gate_present (SetGate vaddr 0 False ist)"
    using p by (simp add: gate_present_def SetGate_def Let_def bit_unsigned_iff bit_or_iff kIdtPresent_def)
  have "\<not> bit (vaddr AND 0xFFFF) (16 + n)" for n
    using bit_small [of "0xFFFF :: u64" 16 "16 + n"] by (auto simp: bit_and_iff)
  then show "gate_selector (SetGate vaddr 0 False ist) = ucast KERNEL_CS"
    unfolding gate_selector_def SetGate_def Let_def nth_Cons_0 by (intro bit_word_eqI) (auto simp: bit_simps)
  have "(vaddr AND 0xFFFF0000) OR ucast (push_bit 8 0xE :: u32) OR push_bit 13 (ucast (0 :: u8) AND 3) OR ucast kIdtPresent OR ucast ist =
    ((vaddr AND 0xFFFF0000) OR 0x8E00) OR ucast ist" by (simp add: kIdtPresent_def or.assoc [symmetric])
  moreover have "\<not> bit ((vaddr AND 0xFFFF0000) OR 0x8E00) n" if "n < 8" for n
    using that v [of n] bit_large [of 8 "0x8E00 :: u64" n] by (auto simp: bit_or_iff)
  then have "ucast (ucast (((vaddr AND 0xFFFF0000) OR 0x8E00) OR ucast ist) :: u32) = ist"
    by (intro bit_word_eqI) (simp add: bit_or_iff bit_unsigned_iff)
  ultimately show "gate_stack (SetGate vaddr 0 False ist) = ist AND 7"
    unfolding gate_stack_def SetGate_def Let_def by simp
qed

text \<open>
  every gate of the interrupt table holds the address of its vector, uses the interrupt stack chosen for it, is present and runs in the kernel
  segment, and the task state descriptor holds the address of the segment, whatever these addresses are.
\<close>

theorem descriptors_hold_addresses:
  "tss_base (gdt_desc tss_vaddr) = tss_vaddr \<and> length (gdt_desc tss_vaddr) = 20 \<and> length (idt_gates vectors) = 256 \<and>
   (\<forall>i. i < 256 \<longrightarrow> gate_addr (idt_gates vectors ! i) = vectors i \<and> gate_present (idt_gates vectors ! i) \<and>
      gate_selector (idt_gates vectors ! i) = ucast KERNEL_CS \<and> gate_stack (idt_gates vectors ! i) = gate_ist i)"
proof (intro conjI allI impI)
  fix i :: nat
  assume "i < 256"
  then have "idt_gates vectors ! i = SetGate (vectors i) 0 False (gate_ist i)" by (simp add: idt_gates_def)
  moreover have "gate_ist i AND 7 = gate_ist i" by (simp add: gate_ist_def)
  ultimately show "gate_addr (idt_gates vectors ! i) = vectors i" "gate_present (idt_gates vectors ! i)"
    "gate_selector (idt_gates vectors ! i) = ucast KERNEL_CS" "gate_stack (idt_gates vectors ! i) = gate_ist i"
    by (simp_all add: gate_addr_SetGate gate_fields)
qed (simp_all add: tss_base_gdt_desc, simp_all add: gdt_desc_def idt_gates_def)

section \<open>Vectors\<close>

definition idt_ok :: "nat \<Rightarrow> Idt \<Rightarrow> bool" where
  "idt_ok ncpus idt \<longleftrightarrow> id_is_gen_initialized idt \<and> length (id_callback idt) = ncpus \<and> length (id_handling_cnt idt) = ncpus \<and>
     (\<forall>cs \<in> set (id_callback idt). length cs = 256)"

definition cell :: "Idt \<Rightarrow> nat \<Rightarrow> nat \<Rightarrow> IntCallback" where
  "cell idt cpuid vector = id_callback idt ! cpuid ! vector"

text \<open>The ranges of \<open>n\<close> vectors that a request may be given\<close>

definition fits :: "Idt \<Rightarrow> nat \<Rightarrow> nat \<Rightarrow> nat \<Rightarrow> bool" where
  "fits idt cpuid n v \<longleftrightarrow> 64 \<le> v \<and> v + n \<le> 256 \<and> n dvd v \<and> (\<forall>j < n. ic_callback (cell idt cpuid (v + j)) = None)"

lemma set_callback_cell [simp]:
  assumes "idt_ok ncpus idt" "cpuid < ncpus" "v < 256"
  shows "cell (set_callback cpuid v cb arg eoi idt) c x =
      (if c = cpuid \<and> x = v then \<lparr> ic_callback = cb, ic_arg = arg, ic_eoi = eoi \<rparr> else cell idt c x)"
    and "idt_ok ncpus (set_callback cpuid v cb arg eoi idt)"
  using assms by (auto simp: idt_ok_def set_callback_def cell_def nth_list_update dest: set_update_subset_insert [THEN subsetD])

lemma set_callback_frame [simp]:
  "id_handling_cnt (set_callback cpuid v cb arg eoi idt) = id_handling_cnt idt"
  "id_is_gen_initialized (set_callback cpuid v cb arg eoi idt) = id_is_gen_initialized idt"
  by (simp_all add: set_callback_def)

lemma set_range_cell:
  assumes "idt_ok ncpus idt" "cpuid < ncpus" "v + length cbs \<le> 256"
  shows "idt_ok ncpus (set_range cpuid v cbs eoi idt) \<and> cell (set_range cpuid v cbs eoi idt) c x =
      (if c = cpuid \<and> v \<le> x \<and> x < v + length cbs
       then \<lparr> ic_callback = fst (cbs ! (x - v)), ic_arg = snd (cbs ! (x - v)), ic_eoi = eoi \<rparr> else cell idt c x)"
  using assms
proof (induction cpuid v cbs eoi idt rule: set_range.induct)
  case (2 cpuid v cb arg cbs eoi idt)
  then have "idt_ok ncpus (set_callback cpuid v cb arg eoi idt)" by simp
  with 2 show ?case by (auto simp: nth_Cons' less_Suc_eq_le Suc_le_eq not_less)
qed auto

lemma free_vector_spec:
  "case free_vector cs v n of None \<Rightarrow> \<forall>x. v \<le> x \<and> x < v + n \<longrightarrow> ic_callback (cs ! x) \<noteq> None
   | Some x \<Rightarrow> v \<le> x \<and> x < v + n \<and> ic_callback (cs ! x) = None"
proof (induction cs v n rule: free_vector.induct)
  case (2 cs v n)
  then show ?case by (auto split: option.splits) (metis le_neq_implies_less Suc_leI option.distinct(1))
qed auto

lemma find_range_spec:
  assumes "0 < rng" "rng dvd v"
  shows "case find_range cs rng v of None \<Rightarrow> \<forall>x. v \<le> x \<and> x < 256 \<and> rng dvd x \<longrightarrow> \<not> range_free cs x rng
    | Some x \<Rightarrow> v \<le> x \<and> x < 256 \<and> rng dvd x \<and> range_free cs x rng"
  using assms
proof (induction cs rng v rule: find_range.induct)
  case (1 cs rng v)
  have step: "v + rng \<le> x" if "v \<le> x" "x \<noteq> v" "rng dvd x" for x
    using that 1 by (metis dvd_diff_nat dvd_imp_le le_neq_implies_less le_diff_conv2 add.commute zero_less_diff)
  show ?case
  proof (cases "v < 256 \<and> \<not> range_free cs v rng")
    case True
    with 1 have "case find_range cs rng (v + rng) of None \<Rightarrow> \<forall>x. v + rng \<le> x \<and> x < 256 \<and> rng dvd x \<longrightarrow> \<not> range_free cs x rng
      | Some x \<Rightarrow> v + rng \<le> x \<and> x < 256 \<and> rng dvd x \<and> range_free cs x rng" by simp
    moreover have "find_range cs rng v = find_range cs rng (v + rng)" using True 1 by (simp add: find_range.simps [of cs rng v])
    ultimately show ?thesis using step True by (auto split: option.splits)
  next
    case False
    then show ?thesis using 1 by (auto simp: find_range.simps [of cs rng v])
  qed
qed

lemma power_from_eq: "n = 2 ^ (a + b) \<Longrightarrow> power_from (2 ^ a) n = n"
proof (induction b arbitrary: a)
  case (Suc b)
  moreover have "(2 :: nat) ^ a < n" unfolding Suc.prems by (rule power_strict_increasing) simp_all
  ultimately show ?case using Suc.IH [of "Suc a"] by (simp add: power_from.simps [of "2 ^ a"] mult.commute)
qed (simp add: power_from.simps)

lemma power_from_power: "\<exists>m. power_from (2 ^ a) n = 2 ^ m"
proof (induction "n - 2 ^ a" arbitrary: a rule: less_induct)
  case less
  show ?case
  proof (cases "2 ^ a < n")
    case True
    then show ?thesis using less [of "Suc a"] by (simp add: power_from.simps [of "2 ^ a"] mult.commute diff_less_mono2)
  next
    case False
    then show ?thesis by (auto simp: power_from.simps [of "2 ^ a"])
  qed
qed

lemma power_from_iff: "power_from 1 n = n \<longleftrightarrow> (\<exists>k. n = 2 ^ k)"
  using power_from_eq [of n 0] power_from_power [of 0 n] by auto

text \<open>A request for vectors: of the two overloads of \<open>SetIntCallback\<close>\<close>

datatype request = One nat nat EoiType | Many "(nat \<times> nat) list" EoiType

fun request_cbs :: "request \<Rightarrow> (nat \<times> nat) list" where
  "request_cbs (One cb arg eoi) = [(cb, arg)]"
| "request_cbs (Many cbs eoi) = cbs"

fun request_eoi :: "request \<Rightarrow> EoiType" where
  "request_eoi (One cb arg eoi) = eoi"
| "request_eoi (Many cbs eoi) = eoi"

fun register :: "nat \<Rightarrow> request \<Rightarrow> Idt \<Rightarrow> (nat \<times> Idt) kres" where
  "register cpuid (One cb arg eoi) idt = SetIntCallback cpuid (Some cb) arg eoi idt"
| "register cpuid (Many cbs eoi) idt = SetIntCallbacks cpuid (map (apfst Some) cbs) eoi idt"

fun register_all :: "(nat \<times> request) list \<Rightarrow> Idt \<Rightarrow> (nat list \<times> Idt) kres" where
  "register_all [] idt = Inr ([], idt)"
| "register_all ((cpuid, r) # rs) idt = kbind (register cpuid r idt) (\<lambda>(v, idt1).
     kbind (register_all rs idt1) (\<lambda>(vs, idt2). Inr (v # vs, idt2)))"

definition granted :: "Idt \<Rightarrow> nat \<Rightarrow> request \<Rightarrow> nat \<Rightarrow> Idt \<Rightarrow> bool" where
  "granted idt cpuid r v idt' \<longleftrightarrow> fits idt cpuid (length (request_cbs r)) v \<and> (\<forall>c x. cell idt' c x =
     (if c = cpuid \<and> v \<le> x \<and> x < v + length (request_cbs r) then
        \<lparr> ic_callback = Some (fst (request_cbs r ! (x - v))), ic_arg = snd (request_cbs r ! (x - v)), ic_eoi = request_eoi r \<rparr>
      else cell idt c x))"

lemma range_free_cell: "range_free (id_callback idt ! c) v n \<longleftrightarrow> (\<forall>j < n. ic_callback (cell idt c (v + j)) = None)"
  by (auto simp: range_free_def cell_def)

lemma power_fits_256:
  assumes "n = (2 :: nat) ^ k" "n dvd x" "x < 256" "n \<le> x"
  shows "x + n \<le> 256"
proof -
  have "n < 2 ^ 8" using assms by simp
  then have "k < 8" unfolding assms(1) by (rule power_less_imp_less_exp [rotated]) simp
  then have "n dvd 2 ^ 8" unfolding assms(1) by (simp add: le_imp_power_dvd del: power_numeral)
  then have "n dvd 256 - x" using assms by (simp add: dvd_diff_nat)
  then show ?thesis using assms dvd_imp_le [of n "256 - x"] by simp
qed

lemma fits_from_start:
  assumes "n = (2 :: nat) ^ k"
  shows "(\<exists>v. fits idt c n v) \<longleftrightarrow> find_range (id_callback idt ! c) n (if n > 64 then n else 64) \<noteq> None"
    and "find_range (id_callback idt ! c) n (if n > 64 then n else 64) = Some v \<Longrightarrow> fits idt c n v"
proof -
  let ?s = "if n > 64 then n else 64" and ?f = "find_range (id_callback idt ! c) n (if n > 64 then n else 64)"
  have pos: "0 < n" using assms by simp
  have dvd: "n dvd ?s"
  proof (cases "n > 64")
    case False
    then have "(2 :: nat) ^ k \<le> 2 ^ 6" using assms by simp
    then have "k \<le> 6" by (rule power_le_imp_le_exp [rotated]) simp
    then have "n dvd 2 ^ 6" unfolding assms by (rule le_imp_power_dvd)
    then show ?thesis using False by simp
  qed simp
  note spec = find_range_spec [OF pos dvd, of "id_callback idt ! c"]
  show fit: "fits idt c n v" if "?f = Some v" for v
    using spec that power_fits_256 [OF assms, of v] by (auto simp: fits_def range_free_cell split: if_splits)
  have "\<not> fits idt c n v" if "?f = None" for v
  proof
    assume f: "fits idt c n v"
    then have "?s \<le> v" "v < 256" using pos dvd_imp_le [of n v] by (auto simp: fits_def)
    then show False using spec that f by (auto simp: fits_def range_free_cell)
  qed
  then show "(\<exists>v. fits idt c n v) \<longleftrightarrow> ?f \<noteq> None" using fit by blast
qed

text \<open>A request is granted whenever a range fits it, and otherwise fails without a change.\<close>

lemma register_spec:
  assumes ok: "idt_ok ncpus idt" and c: "cpuid < ncpus"
  shows "\<exists>v idt'. register cpuid r idt = Inr (v, idt') \<and> idt_ok ncpus idt' \<and>
    (if (\<exists>k. length (request_cbs r) = 2 ^ k) \<and> (\<exists>v. fits idt cpuid (length (request_cbs r)) v)
     then granted idt cpuid r v idt' else v = kError \<and> idt' = idt)"
proof (cases r)
  case (One cb arg eoi)
  have i: "id_is_gen_initialized idt" using ok by (simp add: idt_ok_def)
  have one: "\<exists>k. Suc 0 = 2 ^ k" by (rule exI [of _ 0]) simp
  show ?thesis
  proof (cases "free_vector (id_callback idt ! cpuid) 64 192")
    case None
    then have "\<not> fits idt cpuid 1 v" for v
      using free_vector_spec [of 64 192 "id_callback idt ! cpuid"] by (auto simp: fits_def cell_def)
    then show ?thesis using One None ok i by (simp add: SetIntCallback_def)
  next
    case (Some v)
    then have f: "fits idt cpuid 1 v" and "v < 256"
      using free_vector_spec [of 64 192 "id_callback idt ! cpuid"] by (auto simp: fits_def cell_def)
    then have "granted idt cpuid r v (set_callback cpuid v (Some cb) arg eoi idt)"
      using set_callback_cell [OF ok c] One by (auto simp: granted_def)
    then show ?thesis using One Some ok i f c one \<open>v < 256\<close> by (auto simp: SetIntCallback_def)
  qed
next
  case (Many cbs eoi)
  have i: "id_is_gen_initialized idt" using ok by (simp add: idt_ok_def)
  let ?n = "length cbs" and ?f = "find_range (id_callback idt ! cpuid) (length cbs) (if length cbs > 64 then length cbs else 64)"
  show ?thesis
  proof (cases "\<exists>k. ?n = 2 ^ k")
    case False
    then show ?thesis using Many ok i by (simp add: SetIntCallbacks_def Let_def power_from_iff [unfolded One_nat_def])
  next
    case True
    then obtain k where k: "?n = 2 ^ k" by blast
    note f = fits_from_start [OF k, of idt cpuid]
    show ?thesis
    proof (cases ?f)
      case None
      then show ?thesis using Many ok i True f(1) by (auto simp: SetIntCallbacks_def Let_def power_from_iff [unfolded One_nat_def])
    next
      case (Some v)
      then have fit: "fits idt cpuid ?n v" by (rule f(2))
      then have "v + length (map (apfst Some) cbs) \<le> 256" by (simp add: fits_def)
      note cells = set_range_cell [OF ok c this, of eoi]
      then have "granted idt cpuid r v (set_range cpuid v (map (apfst Some) cbs) eoi idt)"
        using fit Many by (auto simp: granted_def nth_map)
      then show ?thesis using Many Some ok i True fit cells by (auto simp: SetIntCallbacks_def Let_def power_from_iff [unfolded One_nat_def])
    qed
  qed
qed

lemma set_exceptions_ok:
  "idt_ok ncpus idt \<Longrightarrow> i + n \<le> ncpus \<Longrightarrow> \<exists>idt'. set_exceptions gp pf i n idt = Inr idt' \<and> idt_ok ncpus idt' \<and>
     (\<forall>c x. cell idt' c x = (if i \<le> c \<and> c < i + n \<and> x = 13 then \<lparr> ic_callback = Some gp, ic_arg = 0, ic_eoi = kNone \<rparr>
       else if i \<le> c \<and> c < i + n \<and> x = 14 then \<lparr> ic_callback = Some pf, ic_arg = 0, ic_eoi = kNone \<rparr> else cell idt c x))"
proof (induction n arbitrary: i idt)
  case (Suc n)
  let ?a = "set_callback i 13 (Some gp) 0 kNone idt"
  let ?b = "set_callback i 14 (Some pf) 0 kNone ?a"
  have i: "i < ncpus" and init: "id_is_gen_initialized idt" using Suc.prems by (simp_all add: idt_ok_def)
  have a: "idt_ok ncpus ?a" using Suc.prems i by simp
  then have b: "idt_ok ncpus ?b" using i by simp
  from Suc.IH [OF b, of "Suc i"] Suc.prems obtain idt' where r: "set_exceptions gp pf (Suc i) n ?b = Inr idt'" "idt_ok ncpus idt'"
    and cells: "\<And>c x. cell idt' c x = (if Suc i \<le> c \<and> c < Suc i + n \<and> x = 13 then \<lparr> ic_callback = Some gp, ic_arg = 0, ic_eoi = kNone \<rparr>
       else if Suc i \<le> c \<and> c < Suc i + n \<and> x = 14 then \<lparr> ic_callback = Some pf, ic_arg = 0, ic_eoi = kNone \<rparr> else cell ?b c x)" by auto
  have "set_exceptions gp pf i (Suc n) idt = Inr idt'" using r init by (simp add: SetExceptionCallback_def)
  moreover have "cell ?b c x = (if c = i \<and> x = 14 then \<lparr> ic_callback = Some pf, ic_arg = 0, ic_eoi = kNone \<rparr>
      else if c = i \<and> x = 13 then \<lparr> ic_callback = Some gp, ic_arg = 0, ic_eoi = kNone \<rparr> else cell idt c x)" for c x
    using set_callback_cell(1) [OF a i, of 14] set_callback_cell(1) [OF Suc.prems(1) i, of 13] by simp
  ultimately show ?case using r(2) by (auto simp: cells)
qed auto

lemma SetupGeneric_ok:
  "\<exists>idt. SetupGeneric gp pf ncpus = Inr idt \<and> idt_ok ncpus idt \<and>
     (\<forall>c x. c < ncpus \<and> 64 \<le> x \<and> x < 256 \<longrightarrow> ic_callback (cell idt c x) = None)"
proof -
  have "idt_ok ncpus (Idt_new ncpus)" by (auto simp: idt_ok_def Idt_new_def)
  from set_exceptions_ok [OF this, of 0 ncpus gp pf] show ?thesis
    by (force simp: SetupGeneric_def cell_def Idt_new_def)
qed

text \<open>The ranges given to a sequence of requests: where they lie, what the table holds there, and that two of them do not meet\<close>

definition range_holds :: "Idt \<Rightarrow> nat \<times> request \<Rightarrow> nat \<Rightarrow> bool" where
  "range_holds idt q v \<longleftrightarrow> (let (cpuid, r) = q; n = length (request_cbs r) in 64 \<le> v \<and> v + n \<le> 256 \<and> n dvd v \<and>
     (\<forall>j < n. cell idt cpuid (v + j) =
        \<lparr> ic_callback = Some (fst (request_cbs r ! j)), ic_arg = snd (request_cbs r ! j), ic_eoi = request_eoi r \<rparr>))"

definition apart :: "nat \<times> request \<Rightarrow> nat \<Rightarrow> nat \<times> request \<Rightarrow> nat \<Rightarrow> bool" where
  "apart q v q' v' \<longleftrightarrow> fst q \<noteq> fst q' \<or> {v..<v + length (request_cbs (snd q))} \<inter> {v'..<v' + length (request_cbs (snd q'))} = {}"

lemma granted_range: "granted idt c r v idt' \<Longrightarrow> range_holds idt' (c, r) v"
  by (auto simp: granted_def range_holds_def fits_def)

lemma granted_keeps: "granted idt c r v idt' \<Longrightarrow> ic_callback (cell idt c' x) \<noteq> None \<Longrightarrow> cell idt' c' x = cell idt c' x"
proof -
  assume g: "granted idt c r v idt'" and b: "ic_callback (cell idt c' x) \<noteq> None"
  have "\<not> (c' = c \<and> v \<le> x \<and> x < v + length (request_cbs r))"
  proof
    assume "c' = c \<and> v \<le> x \<and> x < v + length (request_cbs r)"
    then have "x = v + (x - v)" "x - v < length (request_cbs r)" "c' = c" by auto
    then show False using g b unfolding granted_def fits_def by metis
  qed
  then show ?thesis using g by (auto simp: granted_def)
qed

lemma granted_busy:
  "granted idt c r v idt' \<Longrightarrow> j < length (request_cbs r) \<Longrightarrow> ic_callback (cell idt c (v + j)) = None \<and> ic_callback (cell idt' c (v + j)) \<noteq> None"
  by (auto simp: granted_def fits_def)

lemma fits_before:
  "(\<And>x. ic_callback (cell idt c x) \<noteq> None \<Longrightarrow> cell idt' c x = cell idt c x) \<Longrightarrow> fits idt' c n v \<Longrightarrow> fits idt c n v"
  unfolding fits_def by metis

lemma range_holds_later:
  "(\<And>c x. ic_callback (cell idt c x) \<noteq> None \<Longrightarrow> cell idt' c x = cell idt c x) \<Longrightarrow> range_holds idt q v \<Longrightarrow> range_holds idt' q v"
  by (auto simp: range_holds_def Let_def split: prod.splits)

lemma apart_if_free:
  "(\<And>j. j < length (request_cbs (snd q)) \<Longrightarrow> ic_callback (cell idt (fst q) (v + j)) \<noteq> None) \<Longrightarrow>
   (\<And>j. j < length (request_cbs (snd q')) \<Longrightarrow> ic_callback (cell idt (fst q') (v' + j)) = None) \<Longrightarrow> apart q v q' v'"
proof -
  assume busy: "\<And>j. j < length (request_cbs (snd q)) \<Longrightarrow> ic_callback (cell idt (fst q) (v + j)) \<noteq> None"
    and free: "\<And>j. j < length (request_cbs (snd q')) \<Longrightarrow> ic_callback (cell idt (fst q') (v' + j)) = None"
  have False if "fst q = fst q'" "v \<le> x" "x < v + length (request_cbs (snd q))" "v' \<le> x" "x < v' + length (request_cbs (snd q'))" for x
  proof -
    have "x - v < length (request_cbs (snd q))" "x - v' < length (request_cbs (snd q'))" using that by linarith+
    then show ?thesis using busy free that by fastforce
  qed
  then show ?thesis unfolding apart_def by fastforce
qed

text \<open>The outcome of a request: the range is its own and was free, or none fits even in the later table.\<close>

definition settled :: "Idt \<Rightarrow> Idt \<Rightarrow> nat \<times> request \<Rightarrow> nat \<Rightarrow> bool" where
  "settled idt idt' q v \<longleftrightarrow> (let n = length (request_cbs (snd q)) in
     if v = kError then \<not> ((\<exists>k. n = 2 ^ k) \<and> (\<exists>v. fits idt' (fst q) n v))
     else range_holds idt' q v \<and> (\<forall>j < n. ic_callback (cell idt (fst q) (v + j)) = None))"

lemma register_settled:
  assumes "idt_ok ncpus idt" "c < ncpus"
  obtains v idt' where "register c r idt = Inr (v, idt')" "idt_ok ncpus idt'" "settled idt idt' (c, r) v"
    "\<And>c x. ic_callback (cell idt c x) \<noteq> None \<Longrightarrow> cell idt' c x = cell idt c x"
    "\<And>j. v \<noteq> kError \<Longrightarrow> j < length (request_cbs r) \<Longrightarrow> ic_callback (cell idt' c (v + j)) \<noteq> None"
proof -
  obtain v idt' where r: "register c r idt = Inr (v, idt')" "idt_ok ncpus idt'"
    and g: "if (\<exists>k. length (request_cbs r) = 2 ^ k) \<and> (\<exists>v. fits idt c (length (request_cbs r)) v)
     then granted idt c r v idt' else v = kError \<and> idt' = idt" using register_spec [OF assms, of r] by blast
  have ne: "granted idt c r v idt' \<Longrightarrow> v \<noteq> kError" by (auto simp: granted_def fits_def kError_def)
  show ?thesis
  proof (rule that [OF r])
    show "settled idt idt' (c, r) v"
      using g ne granted_range [of idt c r v idt'] granted_busy [of idt c r v idt'] by (auto simp: settled_def Let_def split: if_splits)
    show "cell idt' c' x = cell idt c' x" if "ic_callback (cell idt c' x) \<noteq> None" for c' x
      using g granted_keeps that by (metis (full_types))
    show "ic_callback (cell idt' c (v + j)) \<noteq> None" if "v \<noteq> kError" "j < length (request_cbs r)" for j
      using g granted_busy [of idt c r v idt' j] that by (metis (full_types))
  qed
qed

lemma settled_later:
  "(\<And>c x. ic_callback (cell idt1 c x) \<noteq> None \<Longrightarrow> cell idt2 c x = cell idt1 c x) \<Longrightarrow> settled idt idt1 q v \<Longrightarrow> settled idt idt2 q v"
  unfolding settled_def Let_def using range_holds_later [of idt1 idt2 q v] fits_before [of idt1 "fst q" idt2] by metis

lemma settled_earlier:
  "(\<And>c x. ic_callback (cell idt c x) \<noteq> None \<Longrightarrow> cell idt1 c x = cell idt c x) \<Longrightarrow> settled idt1 idt2 q v \<Longrightarrow> settled idt idt2 q v"
  unfolding settled_def Let_def by metis

lemma register_all_spec:
  assumes "idt_ok ncpus idt" "\<forall>q \<in> set rs. fst q < ncpus"
  shows "\<exists>vs idt'. register_all rs idt = Inr (vs, idt') \<and> idt_ok ncpus idt' \<and> length vs = length rs \<and>
    (\<forall>c x. ic_callback (cell idt c x) \<noteq> None \<longrightarrow> cell idt' c x = cell idt c x) \<and>
    (\<forall>i < length rs. settled idt idt' (rs ! i) (vs ! i)) \<and>
    (\<forall>i j. i < j \<and> j < length rs \<and> vs ! i \<noteq> kError \<and> vs ! j \<noteq> kError \<longrightarrow> apart (rs ! i) (vs ! i) (rs ! j) (vs ! j))"
  using assms
proof (induction rs arbitrary: idt)
  case (Cons q rs)
  obtain c r where q: "q = (c, r)" by fastforce
  then have c: "c < ncpus" using Cons.prems by simp
  obtain v idt1 where r1: "register c r idt = Inr (v, idt1)" "idt_ok ncpus idt1" "settled idt idt1 (c, r) v"
    and keep1: "\<And>c x. ic_callback (cell idt c x) \<noteq> None \<Longrightarrow> cell idt1 c x = cell idt c x"
    and busy1: "\<And>j. v \<noteq> kError \<Longrightarrow> j < length (request_cbs r) \<Longrightarrow> ic_callback (cell idt1 c (v + j)) \<noteq> None"
    using register_settled [OF Cons.prems(1) c, of r] by metis
  obtain vs idt2 where r2: "register_all rs idt1 = Inr (vs, idt2)" "idt_ok ncpus idt2" "length vs = length rs"
    and keep: "\<And>c x. ic_callback (cell idt1 c x) \<noteq> None \<Longrightarrow> cell idt2 c x = cell idt1 c x"
    and set: "\<And>i. i < length rs \<Longrightarrow> settled idt1 idt2 (rs ! i) (vs ! i)"
    and dis: "\<And>i j. i < j \<Longrightarrow> j < length rs \<Longrightarrow> vs ! i \<noteq> kError \<Longrightarrow> vs ! j \<noteq> kError \<Longrightarrow> apart (rs ! i) (vs ! i) (rs ! j) (vs ! j)"
    using Cons.IH [OF r1(2)] Cons.prems(2) by auto
  have "register_all (q # rs) idt = Inr (v # vs, idt2)" using r1(1) r2(1) q by simp
  moreover have "cell idt2 c x = cell idt c x" if "ic_callback (cell idt c x) \<noteq> None" for c x
    using keep1 [OF that] keep [of c x] that by simp
  moreover have "settled idt idt2 ((q # rs) ! i) ((v # vs) ! i)" if "i < length (q # rs)" for i
    using that settled_later [OF keep r1(3)] settled_earlier [OF keep1 set] q by (cases i) auto
  moreover have "apart ((q # rs) ! i) ((v # vs) ! i) ((q # rs) ! j) ((v # vs) ! j)"
    if ij: "i < j" "j < length (q # rs)" "(v # vs) ! i \<noteq> kError" "(v # vs) ! j \<noteq> kError" for i j
  proof (cases i)
    case 0
    with ij obtain k where k: "j = Suc k" "k < length rs" "v \<noteq> kError" "vs ! k \<noteq> kError" by (cases j) auto
    then have "apart (c, r) v (rs ! k) (vs ! k)"
      using set [of k] busy1 by (intro apart_if_free [of _ idt1]) (auto simp: settled_def)
    then show ?thesis using 0 k q by simp
  next
    case (Suc k)
    with ij dis [of k "j - 1"] show ?thesis by (cases j) auto
  qed
  ultimately show ?case using r2(2,3) by - (rule exI [of _ "v # vs"], rule exI [of _ idt2], simp only: length_Cons, blast)
qed simp

text \<open>The acknowledgement of an interrupt\<close>

fun eoi_events :: "EoiType \<Rightarrow> nat \<Rightarrow> int_event list" where
  "eoi_events kNone n = []"
| "eoi_events kLapic n = [Eoi_lapic]"
| "eoi_events kIoapic n = [Eoi_ioapic n]"

lemma handle_int_calls:
  assumes ok: "idt_ok ncpus idt" "c < ncpus" and cell: "cell idt c n = \<lparr> ic_callback = Some cb, ic_arg = arg, ic_eoi = eoi \<rparr>"
    and run: "\<And>t. idt_ok ncpus t \<Longrightarrow> idt_ok ncpus (run cb arg t) \<and> id_handling_cnt (run cb arg t) = id_handling_cnt t \<and>
      (\<forall>c x. ic_callback (cell t c x) \<noteq> None \<longrightarrow> cell (run cb arg t) c x = cell t c x)"
  shows "\<exists>idt'. handle_int run c n idt = Inr (Call cb arg # eoi_events eoi n, idt') \<and> GetHandlingCnt c idt' = GetHandlingCnt c idt"
proof -
  let ?t = "idt \<lparr> id_handling_cnt := (id_handling_cnt idt)[c := id_handling_cnt idt ! c + 1] \<rparr>"
  have t: "idt_ok ncpus ?t" "cell ?t c n = cell idt c n" using ok by (simp_all add: idt_ok_def cell_def)
  note r = run [OF t(1)]
  have "cell (run cb arg ?t) c n = \<lparr> ic_callback = Some cb, ic_arg = arg, ic_eoi = eoi \<rparr>" using r t(2) cell by simp
  then show ?thesis using r t cell ok
    by (cases eoi) (auto simp: handle_int_def Let_def cell_def GetHandlingCnt_def idt_ok_def)
qed

text \<open>C18: interrupt vectors are exclusive. After the set-up, let any sequence of requests for one or for several vectors be made on the processors.
  None of them stops, and those that do not return \<open>kError\<close> have been given ranges in 64 to 255 that start at a multiple of their length
  and do not meet on the same processor. An interrupt on a vector of such a range calls the callback of the request, with its argument, then sends the
  acknowledgement the request asked for, and leaves the nesting count of the processor as it was, if the callback leaves the tables alone.
\<close>

theorem Idt_vectors_exclusive:
  assumes cpus: "\<forall>q \<in> set rs. fst q < ncpus"
    and run: "\<And>cb arg t. idt_ok ncpus t \<Longrightarrow> idt_ok ncpus (run cb arg t) \<and> id_handling_cnt (run cb arg t) = id_handling_cnt t \<and>
      (\<forall>c x. ic_callback (cell t c x) \<noteq> None \<longrightarrow> cell (run cb arg t) c x = cell t c x)"
  shows "\<exists>idt0 vs idt. SetupGeneric gp pf ncpus = Inr idt0 \<and> register_all rs idt0 = Inr (vs, idt) \<and> length vs = length rs \<and>
    (\<forall>i < length rs. case rs ! i of (cpuid, r) \<Rightarrow> let n = length (request_cbs r) in
       if vs ! i = kError then \<not> ((\<exists>k. n = 2 ^ k) \<and> (\<exists>v. fits idt cpuid n v))
       else 64 \<le> vs ! i \<and> vs ! i + n \<le> 256 \<and> n dvd vs ! i \<and> (\<forall>j < n. \<exists>idt'. handle_int run cpuid (vs ! i + j) idt =
         Inr (Call (fst (request_cbs r ! j)) (snd (request_cbs r ! j)) # eoi_events (request_eoi r) (vs ! i + j), idt') \<and>
         GetHandlingCnt cpuid idt' = GetHandlingCnt cpuid idt)) \<and>
    (\<forall>i j. i < j \<and> j < length rs \<and> vs ! i \<noteq> kError \<and> vs ! j \<noteq> kError \<longrightarrow> apart (rs ! i) (vs ! i) (rs ! j) (vs ! j))"
proof -
  obtain idt0 where s: "SetupGeneric gp pf ncpus = Inr idt0" "idt_ok ncpus idt0" using SetupGeneric_ok by blast
  from register_all_spec [OF s(2) cpus] obtain vs idt where r: "register_all rs idt0 = Inr (vs, idt)" "idt_ok ncpus idt" "length vs = length rs"
    and set: "\<forall>i < length rs. settled idt0 idt (rs ! i) (vs ! i)"
    and dis: "\<forall>i j. i < j \<and> j < length rs \<and> vs ! i \<noteq> kError \<and> vs ! j \<noteq> kError \<longrightarrow> apart (rs ! i) (vs ! i) (rs ! j) (vs ! j)" by blast
  have "case rs ! i of (cpuid, r) \<Rightarrow> let n = length (request_cbs r) in
       if vs ! i = kError then \<not> ((\<exists>k. n = 2 ^ k) \<and> (\<exists>v. fits idt cpuid n v))
       else 64 \<le> vs ! i \<and> vs ! i + n \<le> 256 \<and> n dvd vs ! i \<and> (\<forall>j < n. \<exists>idt'. handle_int run cpuid (vs ! i + j) idt =
         Inr (Call (fst (request_cbs r ! j)) (snd (request_cbs r ! j)) # eoi_events (request_eoi r) (vs ! i + j), idt') \<and>
         GetHandlingCnt cpuid idt' = GetHandlingCnt cpuid idt)" if i: "i < length rs" for i
  proof -
    obtain c q where cq: "rs ! i = (c, q)" by fastforce
    then have "c < ncpus" using cpus i by (metis fst_conv nth_mem)
    then show ?thesis using set i cq handle_int_calls [OF r(2) _ _ run]
      by (auto simp: settled_def range_holds_def Let_def)
  qed
  then show ?thesis using s(1) r(1,3) dis by blast
qed

theorem Idt_vectors_exclusive_witness:
  "\<exists>idt0 vs idt. SetupGeneric 1 2 2 = Inr idt0 \<and> length vs = 3 \<and>
     register_all [(0, One 7 1 kLapic), (1, Many [(8, 0), (9, 0)] kIoapic), (0, Many [(8, 1), (9, 2), (10, 3)] kNone)] idt0 = Inr (vs, idt)"
  using Idt_vectors_exclusive [of "[(0, One 7 1 kLapic), (1, Many [(8, 0), (9, 0)] kIoapic), (0, Many [(8, 1), (9, 2), (10, 3)] kNone)]" 2
    "\<lambda>cb arg t. t" 1 2] by (auto simp del: register_all.simps)

text \<open>A gate can be used if all of its 16 bytes lie within the limit of the table register.\<close>

definition gate_loaded :: "u16 list \<Rightarrow> nat \<Rightarrow> bool" where
  "gate_loaded reg n \<longleftrightarrow> 16 * n + 15 \<le> unat (reg ! 0)"

text \<open>C30: the limit that is loaded counts 8 bytes per gate where the gates have 16, so only the vectors below 128 can be used; yet a processor hands out
  vectors from 128 on, for instance to the first request for 128 of them.
\<close>

theorem idtr_limit_too_small:
  "(\<forall>n. gate_loaded (idtr idt_addr) n \<longleftrightarrow> n < 128) \<and>
   (\<exists>idt0 idt. SetupGeneric gp pf 1 = Inr idt0 \<and> SetIntCallbacks 0 (replicate 128 (Some cb, arg)) eoi idt0 = Inr (128, idt))"
proof
  show "\<forall>n. gate_loaded (idtr idt_addr) n \<longleftrightarrow> n < 128" by (auto simp: gate_loaded_def idtr_def)
  obtain idt0 where s: "SetupGeneric gp pf 1 = Inr idt0" "idt_ok 1 idt0"
    and free: "\<forall>c x. c < 1 \<and> 64 \<le> x \<and> x < 256 \<longrightarrow> ic_callback (cell idt0 c x) = None" using SetupGeneric_ok by blast
  let ?r = "Many (replicate 128 (cb, arg)) eoi"
  obtain v idt where r: "register 0 ?r idt0 = Inr (v, idt)"
    and g: "if (\<exists>k. length (request_cbs ?r) = 2 ^ k) \<and> (\<exists>v. fits idt0 0 (length (request_cbs ?r)) v)
      then granted idt0 0 ?r v idt else v = kError \<and> idt = idt0" using register_spec [OF s(2), of 0 ?r] by auto
  have "(128 :: nat) = 2 ^ 7" by simp
  then have "\<exists>k. length (request_cbs ?r) = 2 ^ k" unfolding request_cbs.simps length_replicate by blast
  moreover have "fits idt0 0 128 128" using free by (simp add: fits_def)
  ultimately have "fits idt0 0 128 v" using g by (auto simp: granted_def split: if_splits)
  then have "v = 128" by (auto simp: fits_def dvd_def)
  then show "\<exists>idt0 idt. SetupGeneric gp pf 1 = Inr idt0 \<and> SetIntCallbacks 0 (replicate 128 (Some cb, arg)) eoi idt0 = Inr (128, idt)"
    using s(1) r by (simp add: map_replicate apfst_def)
qed

end
