(* ===== verification/Cpu_Setup.thy ===== *)
theory Cpu_Setup
  imports Interrupts Virt_Mem
begin

text \<open>
  Setting up a processor (\<open>Gdt::SetupProc\<close> of \<open>gdt.cc\<close>): a page that holds the segment descriptors, the context record and the task
  state segment, and the eight interrupt stacks that the segment names. Loading the registers is not part of the model.
\<close>

text \<open>The fields of the task state segment that the code writes\<close>

record Tss =
  rsp0l :: u32
  rsp0h :: u32
  rsp1l :: u32
  rsp1h :: u32
  rsp2l :: u32
  rsp2h :: u32
  ist1l :: u32
  ist1h :: u32
  ist2l :: u32
  ist2h :: u32
  ist3l :: u32
  ist3h :: u32
  ist4l :: u32
  ist4h :: u32
  ist5l :: u32
  ist5h :: u32
  iomap :: u16

record ContextInfo =
  ci_info :: u64
  ci_cpuid :: int

text \<open>What lies in the page, and where\<close>

record GdtPage =
  gp_addr :: u64
  gp_desc :: "u32 list"
  gp_context_addr :: u64
  gp_context :: ContextInfo
  gp_tss_addr :: u64
  gp_tss :: Tss

definition kGdtEntryNum :: u64 where
  "kGdtEntryNum = 10"

definition sizeof_ContextInfo :: u64 where
  "sizeof_ContextInfo = 16"

definition sizeof_Tss :: u64 where
  "sizeof_Tss = 104"

definition Gdt_SetupProc :: "u64 \<Rightarrow> int \<Rightarrow> Tss \<Rightarrow> KernelStackCtrl \<Rightarrow> PhysmemCtrl PagingCtrl \<Rightarrow>
    (GdtPage \<times> KernelStackCtrl \<times> PhysmemCtrl PagingCtrl) kres" where
  "Gdt_SetupProc mem_end cpuid tss0 ks pg = (let gdt_size = 8 * kGdtEntryNum in
     kbind (Alloc mem_end (physmem pg) PhysAddr_new (RoundUpAddrOnPageBoundary (gdt_size + sizeof_ContextInfo + sizeof_Tss))) (\<lambda>(paddr, s).
     let vaddr = p2v (pa_addr paddr); context_info_vaddr = vaddr + gdt_size; tss_vaddr = vaddr + gdt_size + sizeof_ContextInfo;
         pg0 = pg \<lparr> physmem := s \<rparr> in
     kbind (AllocIntStack mem_end ks pg0) (\<lambda>(rsp0, ks1, pg1).
     kbind (AllocIntStack mem_end ks1 pg1) (\<lambda>(rsp1, ks2, pg2).
     kbind (AllocIntStack mem_end ks2 pg2) (\<lambda>(rsp2, ks3, pg3).
     kbind (AllocIntStack mem_end ks3 pg3) (\<lambda>(dfstack, ks4, pg4).
     kbind (AllocIntStack mem_end ks4 pg4) (\<lambda>(nmistack, ks5, pg5).
     kbind (AllocIntStack mem_end ks5 pg5) (\<lambda>(debugstack, ks6, pg6).
     kbind (AllocIntStack mem_end ks6 pg6) (\<lambda>(mcestack, ks7, pg7).
     kbind (AllocIntStack mem_end ks7 pg7) (\<lambda>(genstack, ks8, pg8).
     Inr (\<lparr> gp_addr = vaddr, gp_desc = gdt_desc tss_vaddr, gp_context_addr = context_info_vaddr,
            gp_context = \<lparr> ci_info = context_info_vaddr, ci_cpuid = cpuid \<rparr>, gp_tss_addr = tss_vaddr,
            gp_tss = tss0 \<lparr> rsp0l := ucast rsp0, rsp0h := ucast (drop_bit 32 rsp0), rsp1l := ucast rsp1, rsp1h := ucast (drop_bit 32 rsp1),
              rsp2l := ucast rsp2, rsp2h := ucast (drop_bit 32 rsp2), ist1l := ucast dfstack, ist1h := ucast (drop_bit 32 dfstack),
              ist2l := ucast nmistack, ist2h := ucast (drop_bit 32 nmistack), ist3l := ucast debugstack, ist3h := ucast (drop_bit 32 debugstack),
              ist4l := ucast mcestack, ist4h := ucast (drop_bit 32 mcestack), ist5l := ucast genstack, ist5h := ucast (drop_bit 32 genstack),
              iomap := ucast sizeof_Tss \<rparr> \<rparr>, ks8, pg8))))))))))) "

section \<open>What the processor reads\<close>

definition joined :: "u32 \<Rightarrow> u32 \<Rightarrow> u64" where
  "joined l h = ucast l OR push_bit 32 (ucast h)"

lemma joined_split [simp]: "joined (ucast a) (ucast (drop_bit 32 a)) = a"
proof (rule bit_word_eqI)
  show "bit (joined (ucast a) (ucast (drop_bit 32 a))) n = bit a n" if "n < LENGTH(64)" for n
    using that by (cases "n < 32") (auto simp: bit_simps joined_def)
qed

definition tss_stacks :: "Tss \<Rightarrow> u64 list" where
  "tss_stacks t = [joined (rsp0l t) (rsp0h t), joined (rsp1l t) (rsp1h t), joined (rsp2l t) (rsp2h t), joined (ist1l t) (ist1h t),
     joined (ist2l t) (ist2h t), joined (ist3l t) (ist3h t), joined (ist4l t) (ist4h t), joined (ist5l t) (ist5h t)]"

lemma int_stack_step:
  "AllocIntStack mem_end ks pg = Inr (a, ks1, pg1) \<Longrightarrow> stack_run mem_end ops (a # live) ks1 pg1 = r \<Longrightarrow>
   stack_run mem_end (Int_Stack # ops) live ks pg = r"
  by simp

lemma Gdt_SetupProc_run:
  assumes "Gdt_SetupProc mem_end cpuid tss0 ks pg = Inr (page, ks', pg')"
  shows "\<exists>pg0. stack_run mem_end (replicate 8 Int_Stack) live ks pg0 = Inr (rev (tss_stacks (gp_tss page)) @ live, ks', pg')"
proof -
  have eight: "replicate 8 Int_Stack = [Int_Stack, Int_Stack, Int_Stack, Int_Stack, Int_Stack, Int_Stack, Int_Stack, Int_Stack]"
    by (simp add: numeral_eq_Suc)
  show ?thesis
    using assms unfolding eight
    by (clarsimp simp: Gdt_SetupProc_def Let_def kbind_eq_Inr tss_stacks_def simp del: stack_run.simps)
      (rule exI, (rule int_stack_step, assumption)+, simp)
qed

lemma Gdt_SetupProc_page:
  assumes "Gdt_SetupProc mem_end cpuid tss0 ks pg = Inr (page, ks', pg')"
  shows "gp_desc page = gdt_desc (gp_tss_addr page) \<and> gp_context_addr page = gp_addr page + 80 \<and> gp_tss_addr page = gp_addr page + 96 \<and>
    gp_context page = \<lparr> ci_info = gp_context_addr page, ci_cpuid = cpuid \<rparr>"
  using assms by (auto simp: Gdt_SetupProc_def Let_def kbind_eq_Inr kGdtEntryNum_def sizeof_ContextInfo_def)

text \<open>The stack on which a gate runs\<close>

definition int_stack :: "Tss \<Rightarrow> u32 list \<Rightarrow> u64" where
  "int_stack tss g = tss_stacks tss ! (unat (gate_stack g) + 2)"

text \<open>C19: interrupts run on stacks of their own. Let a processor be set up after any sequence of allocations and releases of kernel stacks. Its table
  names the task state segment in the same page, and the eight stacks of the segment are different from each other and from every stack
  in use, and share no memory with them. The non-maskable interrupt, the double fault and the machine check run on stacks that no other vector uses.
\<close>

theorem Gdt_SetupProc_stacks:
  assumes run: "stack_run mem_end ops [] (InitFirstStack kernel_end) pg = Inr (live, ks, pg1)"
    and room: "(length ops + 9) * slot \<le> unat (stack_area_top (InitFirstStack kernel_end))"
    and set: "Gdt_SetupProc mem_end cpuid tss0 ks pg1 = Inr (page, ks2, pg2)"
  shows "tss_base (gp_desc page) = gp_tss_addr page \<and> gp_tss_addr page = gp_addr page + 96 \<and> distinct (tss_stacks (gp_tss page) @ live) \<and>
    (\<forall>a \<in> set (tss_stacks (gp_tss page)). \<forall>b \<in> set (tss_stacks (gp_tss page) @ live). a \<noteq> b \<longrightarrow> stack_bytes a \<inter> stack_bytes b = {}) \<and>
    (\<forall>i \<in> {2, 8, 18}. \<forall>j < 256. j \<noteq> i \<longrightarrow>
       stack_bytes (int_stack (gp_tss page) (idt_gates vectors ! i)) \<inter> stack_bytes (int_stack (gp_tss page) (idt_gates vectors ! j)) = {})"
proof -
  let ?base = "stack_area_top (InitFirstStack kernel_end)" and ?t = "tss_stacks (gp_tss page)"
  have "stacks_ok ?base 0 [] (InitFirstStack kernel_end)"
    using room by (simp add: stacks_ok_def InitFirstStack_def slot_def)
  then obtain n where n: "n \<le> length ops" "stacks_ok ?base n live ks"
    using stack_run_ok [OF _ _ run, of ?base 0] room by (auto simp: slot_def)
  obtain pg0 where r8: "stack_run mem_end (replicate 8 Int_Stack) live ks pg0 = Inr (rev ?t @ live, ks2, pg2)"
    using Gdt_SetupProc_run [OF set] by blast
  then obtain m where m: "stacks_ok ?base m (rev ?t @ live) ks2"
    using stack_run_ok [OF n(2) _ r8] n(1) room by (auto simp: slot_def)
  then have dist: "distinct (?t @ live)" by (auto simp: stacks_ok_def)
  have dis: "stack_bytes a \<inter> stack_bytes b = {}" if "a \<in> set ?t" "b \<in> set (?t @ live)" "a \<noteq> b" for a b
    using stacks_ok_disjoint [OF m, of a b] that by auto
  have len: "length ?t = 8" by (simp add: tss_stacks_def)
  have ist: "unat (gate_ist j) + 2 < 8" "i \<in> {2, 8, 18} \<Longrightarrow> j \<noteq> i \<Longrightarrow> unat (gate_ist i) \<noteq> unat (gate_ist j)" for i j
    by (auto simp: gate_ist_def)
  have st: "int_stack (gp_tss page) (idt_gates vectors ! j) = ?t ! (unat (gate_ist j) + 2)" if "j < 256" for j
  proof -
    have "gate_ist j AND 7 = gate_ist j" by (simp add: gate_ist_def)
    then show ?thesis using that by (simp add: int_stack_def idt_gates_def gate_fields)
  qed
  have "stack_bytes (int_stack (gp_tss page) (idt_gates vectors ! i)) \<inter> stack_bytes (int_stack (gp_tss page) (idt_gates vectors ! j)) = {}"
    if ij: "i \<in> {2, 8, 18}" "j < 256" "j \<noteq> i" for i j
  proof -
    have "i < 256" using ij by auto
    moreover have "?t ! (unat (gate_ist i) + 2) \<noteq> ?t ! (unat (gate_ist j) + 2)"
      using dist ist(1) [of i] ist(1) [of j] ist(2) [OF ij(1,3)] len by (simp add: nth_eq_iff_index_eq)
    ultimately show ?thesis
      using dis ist(1) [of i] ist(1) [of j] len st ij by (metis Un_iff nth_mem set_append)
  qed
  then show ?thesis using Gdt_SetupProc_page [OF set] dist dis by (auto simp: tss_base_gdt_desc)
qed

theorem Gdt_SetupProc_stacks_witness:
  "\<exists>page ks pg. Gdt_SetupProc 0x10000000 0 \<lparr> rsp0l = 0, rsp0h = 0, rsp1l = 0, rsp1h = 0, rsp2l = 0, rsp2h = 0, ist1l = 0, ist1h = 0, ist2l = 0,
       ist2h = 0, ist3l = 0, ist3h = 0, ist4l = 0, ist4h = 0, ist5l = 0, ist5h = 0, iomap = 0 \<rparr> (InitFirstStack 0xFFFF80006FFFFFFF) boot_paging =
     Inr (page, ks, pg) \<and> distinct (tss_stacks (gp_tss page))"
proof -
  have "(4 :: nat) = Suc (Suc (Suc (Suc 0)))"
    by simp
  then have four: "map_pages (page_alloc 0x10000000) 4 pg v a f g =
      map_pages (page_alloc 0x10000000) (Suc (Suc (Suc (Suc 0)))) pg v a f g" for pg v a f g
    by (simp only:)
  let ?t = "\<lparr> rsp0l = 0, rsp0h = 0, rsp1l = 0, rsp1h = 0, rsp2l = 0, rsp2h = 0, ist1l = 0, ist1h = 0, ist2l = 0,
       ist2h = 0, ist3l = 0, ist3h = 0, ist4l = 0, ist4h = 0, ist5l = 0, ist5h = 0, iomap = 0 \<rparr>"
  have "\<exists>page ks pg. Gdt_SetupProc 0x10000000 0 ?t (InitFirstStack 0xFFFF80006FFFFFFF) boot_paging = Inr (page, ks, pg)"
    by (simp add: Gdt_SetupProc_def AllocIntStack_def AllocThreadStack_def InitFirstStack_def map_stack_def kStackSize_def
        Alloc_def AllocSub_def alloc_find.simps align_def kGdtEntryNum_def sizeof_ContextInfo_def sizeof_Tss_def RoundUpAddrOnPageBoundary_def RoundAddrOnPageBoundary_def
        alloc_at_def merge_fraged_def PhysAddr_SetAddr_def PhysAddr_new_def MapPhysAddrToVirtAddr_def four
        Map4KPageToVirtAddr_def boot_run_simps USER_BIT_def GLOBAL_BIT_def del: masked_table)
  then obtain page ks pg where g: "Gdt_SetupProc 0x10000000 0 ?t (InitFirstStack 0xFFFF80006FFFFFFF) boot_paging = Inr (page, ks, pg)"
    by blast
  have "(length ([] :: stack_op list) + 9) * slot \<le> unat (stack_area_top (InitFirstStack 0xFFFF80006FFFFFFF))"
    by (simp add: InitFirstStack_def slot_def kStackSize_def kPageSize_def)
  moreover have "stack_run 0x10000000 [] [] (InitFirstStack 0xFFFF80006FFFFFFF) boot_paging = Inr ([], InitFirstStack 0xFFFF80006FFFFFFF, boot_paging)"
    by simp
  ultimately have "distinct (tss_stacks (gp_tss page))" using Gdt_SetupProc_stacks [OF _ _ g] by fastforce
  then show ?thesis using g by blast
qed

end
