(* ===== verification/Lock_Interface.thy ===== *)
theory Lock_Interface
  imports Raph_Prelude
begin

text \<open>
  The interface that the spin locks of \<open>membench/spinlock.h\<close> share, and the contracts of a lock. A lock is used by the processors
  (or tiles) below a bound. A member function runs in steps; one step is one access to the shared fields, and
  the steps of different processors interleave in any order. Loops that only pause are left out.
\<close>

section \<open>Locks\<close>

text \<open>Where a processor is: outside, inside \<open>Lock\<close>, inside \<open>TryLock\<close>, between \<open>Lock\<close> and \<open>Unlock\<close>, inside \<open>Unlock\<close>\<close>

datatype phase = Outside | Locking | Trying | Holding | Unlocking

text \<open>
  The members of a lock class: the constructor, the calls of \<open>Lock\<close>, \<open>TryLock\<close> and \<open>Unlock\<close>, the next step of a processor inside
  a member function, and \<open>IsNoOneWaiting\<close>. Many of the classes have no \<open>TryLock\<close>, or one that only fails an assertion.
\<close>

record 's SpinLockOps =
  lo_new :: 's
  lo_Lock :: "nat \<Rightarrow> 's \<Rightarrow> 's"
  lo_TryLock :: "(nat \<Rightarrow> 's \<Rightarrow> 's) option"
  lo_Unlock :: "nat \<Rightarrow> 's \<Rightarrow> 's"
  lo_step :: "nat \<Rightarrow> 's \<Rightarrow> 's"
  lo_phase :: "'s \<Rightarrow> nat \<Rightarrow> phase"
  lo_IsNoOneWaiting :: "nat \<Rightarrow> 's \<Rightarrow> bool"

text \<open>The states that \<open>n\<close> processors can reach, each of them calling \<open>Lock\<close> or \<open>TryLock\<close> outside and \<open>Unlock\<close> while it holds the lock\<close>

inductive lock_reach :: "'s SpinLockOps \<Rightarrow> nat \<Rightarrow> 's \<Rightarrow> bool" for L n where
  new: "lock_reach L n (lo_new L)"
| lock: "lock_reach L n s \<Longrightarrow> i < n \<Longrightarrow> lo_phase L s i = Outside \<Longrightarrow> lock_reach L n (lo_Lock L i s)"
| try_lock: "lock_reach L n s \<Longrightarrow> i < n \<Longrightarrow> lo_phase L s i = Outside \<Longrightarrow> lo_TryLock L = Some f \<Longrightarrow> lock_reach L n (f i s)"
| unlock: "lock_reach L n s \<Longrightarrow> i < n \<Longrightarrow> lo_phase L s i = Holding \<Longrightarrow> lock_reach L n (lo_Unlock L i s)"
| step: "lock_reach L n s \<Longrightarrow> i < n \<Longrightarrow> lo_phase L s i \<in> {Locking, Trying, Unlocking} \<Longrightarrow> lock_reach L n (lo_step L i s)"

text \<open>A processor that can do something: it is in the critical section, or its next step changes the state.\<close>

definition can_move :: "'s SpinLockOps \<Rightarrow> 's \<Rightarrow> nat \<Rightarrow> bool" where
  "can_move L s i \<longleftrightarrow> lo_phase L s i = Holding \<or> lo_phase L s i \<in> {Locking, Trying, Unlocking} \<and> lo_step L i s \<noteq> s"

lemma can_move_holding: "lo_phase L s i = Holding \<Longrightarrow> can_move L s i"
  by (simp add: can_move_def)

lemma can_move_step: "lo_phase L s i \<in> {Locking, Trying, Unlocking} \<Longrightarrow> f (lo_step L i s) \<noteq> f s \<Longrightarrow> can_move L s i"
  by (auto simp: can_move_def)

text \<open>What the processors rely on\<close>

definition mutual_exclusion :: "'s SpinLockOps \<Rightarrow> nat \<Rightarrow> bool" where
  "mutual_exclusion L n \<longleftrightarrow> (\<forall>s i j. lock_reach L n s \<and> i < n \<and> j < n \<and> lo_phase L s i = Holding \<and> lo_phase L s j = Holding \<longrightarrow> i = j)"

definition deadlock_free :: "'s SpinLockOps \<Rightarrow> nat \<Rightarrow> bool" where
  "deadlock_free L n \<longleftrightarrow> (\<forall>s i. lock_reach L n s \<and> i < n \<and> lo_phase L s i \<noteq> Outside \<longrightarrow> (\<exists>j < n. can_move L s j))"

section \<open>Contracts\<close>

text \<open>
  The contract of a lock: a call or a step changes the phase of its own processor only, and in the order of the phases; two processors
  never hold the lock at the same time; and the processors are never all stuck.
\<close>

locale spin_lock =
  fixes L :: "'s SpinLockOps" and n :: nat
  assumes phase_new: "i < n \<Longrightarrow> lo_phase L (lo_new L) i = Outside"
    and phase_lock: "lock_reach L n s \<Longrightarrow> i < n \<Longrightarrow> lo_phase L s i = Outside \<Longrightarrow> lo_phase L (lo_Lock L i s) = (lo_phase L s)(i := Locking)"
    and phase_try: "lock_reach L n s \<Longrightarrow> i < n \<Longrightarrow> lo_phase L s i = Outside \<Longrightarrow> lo_TryLock L = Some f \<Longrightarrow>
      lo_phase L (f i s) = (lo_phase L s)(i := Trying)"
    and phase_unlock: "lock_reach L n s \<Longrightarrow> i < n \<Longrightarrow> lo_phase L s i = Holding \<Longrightarrow>
      lo_phase L (lo_Unlock L i s) = (lo_phase L s)(i := Unlocking)"
    and phase_locking: "lock_reach L n s \<Longrightarrow> i < n \<Longrightarrow> lo_phase L s i = Locking \<Longrightarrow>
      \<exists>p \<in> {Locking, Holding}. lo_phase L (lo_step L i s) = (lo_phase L s)(i := p)"
    and phase_trying: "lock_reach L n s \<Longrightarrow> i < n \<Longrightarrow> lo_phase L s i = Trying \<Longrightarrow>
      \<exists>p \<in> {Trying, Holding, Outside}. lo_phase L (lo_step L i s) = (lo_phase L s)(i := p)"
    and phase_unlocking: "lock_reach L n s \<Longrightarrow> i < n \<Longrightarrow> lo_phase L s i = Unlocking \<Longrightarrow>
      \<exists>p \<in> {Unlocking, Outside}. lo_phase L (lo_step L i s) = (lo_phase L s)(i := p)"
    and exclusive: "lock_reach L n s \<Longrightarrow> i < n \<Longrightarrow> j < n \<Longrightarrow> lo_phase L s i = Holding \<Longrightarrow> lo_phase L s j = Holding \<Longrightarrow> i = j"
    and not_stuck: "lock_reach L n s \<Longrightarrow> i < n \<Longrightarrow> lo_phase L s i \<noteq> Outside \<Longrightarrow> \<exists>j < n. can_move L s j"

context spin_lock
begin

lemma lock_safe: "mutual_exclusion L n \<and> deadlock_free L n"
  unfolding mutual_exclusion_def deadlock_free_def using exclusive not_stuck by blast

end

text \<open>The contract of \<open>IsNoOneWaiting\<close>: where it answers no, another processor is inside \<open>Lock\<close>.\<close>

locale waiting_lock = spin_lock +
  assumes waiting: "lock_reach L n s \<Longrightarrow> i < n \<Longrightarrow> lo_phase L s i = Holding \<Longrightarrow> \<not> lo_IsNoOneWaiting L i s \<Longrightarrow>
    \<exists>j < n. j \<noteq> i \<and> lo_phase L s j = Locking"

text \<open>An invariant for a lock, with what it has to give\<close>

locale lock_invariant =
  fixes L :: "'s SpinLockOps" and n :: nat and I :: "'s \<Rightarrow> bool"
  assumes inv_new: "I (lo_new L)"
    and inv_lock: "I s \<Longrightarrow> i < n \<Longrightarrow> lo_phase L s i = Outside \<Longrightarrow> I (lo_Lock L i s)"
    and inv_try: "I s \<Longrightarrow> i < n \<Longrightarrow> lo_phase L s i = Outside \<Longrightarrow> lo_TryLock L = Some f \<Longrightarrow> I (f i s)"
    and inv_unlock: "I s \<Longrightarrow> i < n \<Longrightarrow> lo_phase L s i = Holding \<Longrightarrow> I (lo_Unlock L i s)"
    and inv_step: "I s \<Longrightarrow> i < n \<Longrightarrow> lo_phase L s i \<in> {Locking, Trying, Unlocking} \<Longrightarrow> I (lo_step L i s)"
begin

lemma reach_inv: "lock_reach L n s \<Longrightarrow> I s"
  by (induction rule: lock_reach.induct) (auto intro: inv_new inv_lock inv_try inv_unlock inv_step)

end

section \<open>Queues\<close>

text \<open>The processors that have a place in the queue, in the order of their places\<close>

definition queue_of :: "nat \<Rightarrow> nat list \<Rightarrow> (nat \<Rightarrow> bool) \<Rightarrow> bool" where
  "queue_of n q act \<longleftrightarrow> distinct q \<and> (\<forall>i. i \<in> set q \<longleftrightarrow> act i) \<and> (\<forall>i \<in> set q. i < n)"

lemma queue_of_length: "queue_of n q act \<Longrightarrow> length q \<le> n"
proof -
  assume q: "queue_of n q act"
  then have "set q \<subseteq> {..<n}" by (auto simp: queue_of_def)
  then have "card (set q) \<le> n" using card_mono [of "{..<n}" "set q"] by simp
  then show ?thesis using q by (simp add: queue_of_def distinct_card)
qed

lemma queue_of_length_less: "queue_of n q act \<Longrightarrow> i < n \<Longrightarrow> \<not> act i \<Longrightarrow> length q < n"
  using queue_of_length [of n "q @ [i]" "\<lambda>j. j = i \<or> act j"] by (auto simp: queue_of_def)

lemma queue_of_move: "queue_of n q act \<Longrightarrow> (\<And>j. act' j = act j) \<Longrightarrow> queue_of n q act'"
  by (simp add: queue_of_def)

lemma queue_of_join: "queue_of n q act \<Longrightarrow> i < n \<Longrightarrow> \<not> act i \<Longrightarrow> (\<And>j. act' j \<longleftrightarrow> j = i \<or> act j) \<Longrightarrow> queue_of n (q @ [i]) act'"
  by (auto simp: queue_of_def)

lemma queue_of_leave: "queue_of n (i # q) act \<Longrightarrow> (\<And>j. act' j \<longleftrightarrow> j \<noteq> i \<and> act j) \<Longrightarrow> queue_of n q act'"
  by (auto simp: queue_of_def)

lemma queue_of_at: "queue_of n q act \<Longrightarrow> act i \<Longrightarrow> \<exists>k < length q. q ! k = i"
  by (metis in_set_conv_nth queue_of_def)

text \<open>
  A lock with a queue: the holder is the first one of the queue, the second one is inside \<open>Lock\<close>, some processor of a queue can move,
  and who is not in the queue does not wait.
\<close>

locale queue_lock =
  fixes L :: "'s SpinLockOps" and n :: nat and Q :: "nat list \<Rightarrow> 's \<Rightarrow> bool"
  assumes q_reach: "lock_reach L n s \<Longrightarrow> \<exists>q. Q q s"
    and q_members: "Q q s \<Longrightarrow> distinct q" "Q q s \<Longrightarrow> i \<in> set q \<Longrightarrow> i < n"
    and q_first: "Q q s \<Longrightarrow> i < n \<Longrightarrow> lo_phase L s i = Holding \<Longrightarrow> q \<noteq> [] \<and> hd q = i"
    and q_second: "Q q s \<Longrightarrow> q = i # j # r \<Longrightarrow> lo_phase L s i = Holding \<Longrightarrow> lo_phase L s j = Locking"
    and q_moves: "Q q s \<Longrightarrow> q \<noteq> [] \<Longrightarrow> \<exists>j < n. can_move L s j"
    and q_others: "Q q s \<Longrightarrow> i < n \<Longrightarrow> lo_phase L s i \<noteq> Outside \<Longrightarrow> i \<notin> set q \<Longrightarrow> can_move L s i"
    and q_alone: "Q q s \<Longrightarrow> q = [i] \<Longrightarrow> lo_phase L s i = Holding \<Longrightarrow> lo_IsNoOneWaiting L i s"
    and q_new: "lo_phase L (lo_new L) i = Outside"
    and q_lock: "lo_phase L s i = Outside \<Longrightarrow> lo_phase L (lo_Lock L i s) = (lo_phase L s)(i := Locking)"
    and q_try: "lo_phase L s i = Outside \<Longrightarrow> lo_TryLock L = Some f \<Longrightarrow> lo_phase L (f i s) = (lo_phase L s)(i := Trying)"
    and q_unlock: "lo_phase L s i = Holding \<Longrightarrow> lo_phase L (lo_Unlock L i s) = (lo_phase L s)(i := Unlocking)"
    and q_locking: "lo_phase L s i = Locking \<Longrightarrow> \<exists>p \<in> {Locking, Holding}. lo_phase L (lo_step L i s) = (lo_phase L s)(i := p)"
    and q_trying: "lo_phase L s i = Trying \<Longrightarrow> \<exists>p \<in> {Trying, Holding, Outside}. lo_phase L (lo_step L i s) = (lo_phase L s)(i := p)"
    and q_unlocking: "lo_phase L s i = Unlocking \<Longrightarrow> \<exists>p \<in> {Unlocking, Outside}. lo_phase L (lo_step L i s) = (lo_phase L s)(i := p)"

sublocale queue_lock \<subseteq> waiting_lock L n
proof
  fix s i
  assume r: "lock_reach L n s" and i: "i < n"
  then obtain q where q: "Q q s" using q_reach by blast
  show "i = j" if "j < n" "lo_phase L s i = Holding" "lo_phase L s j = Holding" for j
    using q_first [OF q] that i by auto
  show "\<exists>j < n. can_move L s j" if "lo_phase L s i \<noteq> Outside"
    using q_moves [OF q] q_others [OF q i that] i by (cases "q = []") auto
  show "\<exists>j < n. j \<noteq> i \<and> lo_phase L s j = Locking" if h: "lo_phase L s i = Holding" and w: "\<not> lo_IsNoOneWaiting L i s"
  proof -
    obtain q' where q': "q = i # q'" using q_first [OF q i h] by (cases q) auto
    then obtain j r where j: "q' = j # r" using q_alone [OF q _ h] w by (cases q') auto
    then show ?thesis using q_members [OF q] q_second [OF q _ h] q' by auto
  qed
qed (use q_new q_lock q_try q_unlock q_locking q_trying q_unlocking in auto)

context queue_lock
begin

lemma is_waiting_lock: "waiting_lock L n"
  by unfold_locales

lemma is_spin_lock: "spin_lock L n"
  by unfold_locales

end

end
