(* ===== verification/Bench_Locks.thy ===== *)
theory Bench_Locks
  imports Lock_Interface
begin

text \<open>
  The spin locks of \<open>membench/spinlock.h\<close> that spin on one word or on an array of words: \<open>SimpleSpinLock\<close>, \<open>TtsSpinLock\<close>,
  \<open>TtsBackoffSpinLock\<close>, \<open>TicketSpinLock\<close> and \<open>AndersonSpinLock\<close>.
\<close>

section \<open>Locks on one flag\<close>

text \<open>\<open>SimpleSpinLock\<close>. Like \<open>TtsSpinLock\<close> it has no \<open>IsNoOneWaiting\<close>; the answer in the record is of no meaning.\<close>

datatype simple_loc = S_Out | S_Xchg | S_Hold | S_Clear

record SimpleSpinLock =
  ss_flag :: u32
  ss_pc :: "nat \<Rightarrow> simple_loc"

definition Simple_new :: SimpleSpinLock where
  "Simple_new = \<lparr> ss_flag = 0, ss_pc = (\<lambda>_. S_Out) \<rparr>"

definition Simple_goto :: "nat \<Rightarrow> simple_loc \<Rightarrow> SimpleSpinLock \<Rightarrow> SimpleSpinLock" where
  "Simple_goto i l s = s \<lparr> ss_pc := (ss_pc s)(i := l) \<rparr>"

definition Simple_step :: "nat \<Rightarrow> SimpleSpinLock \<Rightarrow> SimpleSpinLock" where
  "Simple_step i s = (case ss_pc s i of
       S_Xchg \<Rightarrow> if ss_flag s \<noteq> 0 then s \<lparr> ss_flag := 1 \<rparr> else Simple_goto i S_Hold (s \<lparr> ss_flag := 1 \<rparr>)
     | S_Clear \<Rightarrow> Simple_goto i S_Out (s \<lparr> ss_flag := 0 \<rparr>)
     | _ \<Rightarrow> s)"

fun simple_phase :: "simple_loc \<Rightarrow> phase" where
  "simple_phase S_Out = Outside" | "simple_phase S_Xchg = Locking" | "simple_phase S_Hold = Holding" | "simple_phase S_Clear = Unlocking"

definition Simple_ops :: "SimpleSpinLock SpinLockOps" where
  "Simple_ops = \<lparr> lo_new = Simple_new, lo_Lock = (\<lambda>i. Simple_goto i S_Xchg), lo_TryLock = None, lo_Unlock = (\<lambda>i. Simple_goto i S_Clear),
     lo_step = Simple_step, lo_phase = (\<lambda>s i. simple_phase (ss_pc s i)), lo_IsNoOneWaiting = (\<lambda>_ _. False) \<rparr>"

text \<open>\<open>TtsSpinLock\<close>: \<open>Y_\<close> locations lie in \<open>TryLock\<close>.\<close>

datatype tts_loc = T_Out | T_Test | T_Xchg | Y_Test | Y_Cas | T_Hold | T_Clear

record TtsSpinLock =
  ts_flag :: u32
  ts_pc :: "nat \<Rightarrow> tts_loc"

definition Tts_new :: TtsSpinLock where
  "Tts_new = \<lparr> ts_flag = 0, ts_pc = (\<lambda>_. T_Out) \<rparr>"

definition Tts_goto :: "nat \<Rightarrow> tts_loc \<Rightarrow> TtsSpinLock \<Rightarrow> TtsSpinLock" where
  "Tts_goto i l s = s \<lparr> ts_pc := (ts_pc s)(i := l) \<rparr>"

definition Tts_step :: "nat \<Rightarrow> TtsSpinLock \<Rightarrow> TtsSpinLock" where
  "Tts_step i s = (case ts_pc s i of
       T_Test \<Rightarrow> if ts_flag s = 1 then s else Tts_goto i T_Xchg s
     | T_Xchg \<Rightarrow> if ts_flag s \<noteq> 0 then Tts_goto i T_Test (s \<lparr> ts_flag := 1 \<rparr>) else Tts_goto i T_Hold (s \<lparr> ts_flag := 1 \<rparr>)
     | Y_Test \<Rightarrow> if ts_flag s = 1 then Tts_goto i T_Out s else Tts_goto i Y_Cas s
     | Y_Cas \<Rightarrow> if ts_flag s = 0 then Tts_goto i T_Hold (s \<lparr> ts_flag := 1 \<rparr>) else Tts_goto i T_Out s
     | T_Clear \<Rightarrow> Tts_goto i T_Out (s \<lparr> ts_flag := 0 \<rparr>)
     | _ \<Rightarrow> s)"

fun tts_phase :: "tts_loc \<Rightarrow> phase" where
  "tts_phase T_Out = Outside" | "tts_phase T_Test = Locking" | "tts_phase T_Xchg = Locking" | "tts_phase Y_Test = Trying"
| "tts_phase Y_Cas = Trying" | "tts_phase T_Hold = Holding" | "tts_phase T_Clear = Unlocking"

definition Tts_ops :: "TtsSpinLock SpinLockOps" where
  "Tts_ops = \<lparr> lo_new = Tts_new, lo_Lock = (\<lambda>i. Tts_goto i T_Test), lo_TryLock = Some (\<lambda>i. Tts_goto i Y_Test), lo_Unlock = (\<lambda>i. Tts_goto i T_Clear),
     lo_step = Tts_step, lo_phase = (\<lambda>s i. tts_phase (ts_pc s i)), lo_IsNoOneWaiting = (\<lambda>_ _. False) \<rparr>"

text \<open>\<open>TtsBackoffSpinLock\<close>: the word is the local \<open>delay\<close>, which wraps around.\<close>

datatype backoff_loc = B_Out | B_Test u16 | B_Xchg u16 | B_Wait u16 | B_Hold | B_Clear

record TtsBackoffSpinLock =
  bs_flag :: u32
  bs_pc :: "nat \<Rightarrow> backoff_loc"

definition Backoff_new :: TtsBackoffSpinLock where
  "Backoff_new = \<lparr> bs_flag = 0, bs_pc = (\<lambda>_. B_Out) \<rparr>"

definition Backoff_goto :: "nat \<Rightarrow> backoff_loc \<Rightarrow> TtsBackoffSpinLock \<Rightarrow> TtsBackoffSpinLock" where
  "Backoff_goto i l s = s \<lparr> bs_pc := (bs_pc s)(i := l) \<rparr>"

definition Backoff_step :: "nat \<Rightarrow> TtsBackoffSpinLock \<Rightarrow> TtsBackoffSpinLock" where
  "Backoff_step i s = (case bs_pc s i of
       B_Test d \<Rightarrow> if bs_flag s = 1 then Backoff_goto i (B_Wait d) s else Backoff_goto i (B_Xchg d) s
     | B_Xchg d \<Rightarrow> if bs_flag s \<noteq> 0 then Backoff_goto i (B_Wait d) (s \<lparr> bs_flag := 1 \<rparr>) else Backoff_goto i B_Hold (s \<lparr> bs_flag := 1 \<rparr>)
     | B_Wait d \<Rightarrow> if bs_flag s = 1 then s else Backoff_goto i (B_Test (d * 2)) s
     | B_Clear \<Rightarrow> Backoff_goto i B_Out (s \<lparr> bs_flag := 0 \<rparr>)
     | _ \<Rightarrow> s)"

fun backoff_phase :: "backoff_loc \<Rightarrow> phase" where
  "backoff_phase B_Out = Outside" | "backoff_phase (B_Test d) = Locking" | "backoff_phase (B_Xchg d) = Locking"
| "backoff_phase (B_Wait d) = Locking" | "backoff_phase B_Hold = Holding" | "backoff_phase B_Clear = Unlocking"

definition Backoff_ops :: "TtsBackoffSpinLock SpinLockOps" where
  "Backoff_ops = \<lparr> lo_new = Backoff_new, lo_Lock = (\<lambda>i. Backoff_goto i (B_Test 1)), lo_TryLock = None,
     lo_Unlock = (\<lambda>i. Backoff_goto i B_Clear), lo_step = Backoff_step, lo_phase = (\<lambda>s i. backoff_phase (bs_pc s i)),
     lo_IsNoOneWaiting = (\<lambda>_ _. False) \<rparr>"

section \<open>The flag and its holder\<close>

definition flag_inv :: "nat \<Rightarrow> u32 \<Rightarrow> (nat \<Rightarrow> bool) \<Rightarrow> bool" where
  "flag_inv n flag busy \<longleftrightarrow> (flag = 0 \<or> flag = 1) \<and> (\<forall>i. busy i \<longrightarrow> i < n) \<and> (\<forall>i j. busy i \<and> busy j \<longrightarrow> i = j) \<and> (flag = 1 \<longleftrightarrow> (\<exists>i. busy i))"

lemma flag_inv_new: "(\<And>i. \<not> busy i) \<Longrightarrow> flag_inv n 0 busy"
  by (simp add: flag_inv_def)

lemma flag_inv_move: "flag_inv n f busy \<Longrightarrow> (\<And>j. busy' j = busy j) \<Longrightarrow> flag_inv n f busy'"
  by (auto simp: flag_inv_def)

lemma flag_inv_acquire: "flag_inv n 0 busy \<Longrightarrow> i < n \<Longrightarrow> (\<And>j. busy' j \<longleftrightarrow> j = i \<or> busy j) \<Longrightarrow> flag_inv n 1 busy'"
  by (auto simp: flag_inv_def)

lemma flag_inv_release: "flag_inv n f busy \<Longrightarrow> busy i \<Longrightarrow> (\<And>j. busy' j \<longleftrightarrow> j \<noteq> i \<and> busy j) \<Longrightarrow> flag_inv n 0 busy'"
  by (auto simp: flag_inv_def)

lemma flag_inv_cases: "flag_inv n f busy \<Longrightarrow> f \<noteq> 0 \<Longrightarrow> f = 1 \<and> (\<exists>i < n. busy i)"
  by (auto simp: flag_inv_def)

text \<open>
  A lock on one flag: a step inside \<open>Lock\<close> takes the flag from 0 to 1 and holds the lock, or leaves a flag of 0 or 1 alone; \<open>Unlock\<close>
  clears it; and while the flag is 0 nobody inside \<open>Lock\<close> waits.
\<close>

locale flag_lock =
  fixes L :: "'s SpinLockOps" and flag :: "'s \<Rightarrow> u32" and n :: nat
  assumes fl_new: "flag (lo_new L) = 0" "lo_phase L (lo_new L) i = Outside"
    and fl_lock: "lo_phase L s i = Outside \<Longrightarrow> flag (lo_Lock L i s) = flag s \<and> lo_phase L (lo_Lock L i s) = (lo_phase L s)(i := Locking)"
    and fl_try: "lo_phase L s i = Outside \<Longrightarrow> lo_TryLock L = Some f \<Longrightarrow> flag (f i s) = flag s \<and> lo_phase L (f i s) = (lo_phase L s)(i := Trying)"
    and fl_unlock: "lo_phase L s i = Holding \<Longrightarrow> flag (lo_Unlock L i s) = flag s \<and> lo_phase L (lo_Unlock L i s) = (lo_phase L s)(i := Unlocking)"
    and fl_spin: "lo_phase L s i \<in> {Locking, Trying} \<Longrightarrow> flag s \<in> {0, 1} \<Longrightarrow>
      flag (lo_step L i s) = flag s \<and> (\<exists>p. lo_phase L (lo_step L i s) = (lo_phase L s)(i := p) \<and>
        (p = lo_phase L s i \<or> lo_phase L s i = Trying \<and> p = Outside)) \<or>
      flag s = 0 \<and> flag (lo_step L i s) = 1 \<and> lo_phase L (lo_step L i s) = (lo_phase L s)(i := Holding)"
    and fl_clear: "lo_phase L s i = Unlocking \<Longrightarrow> flag (lo_step L i s) = 0 \<and> lo_phase L (lo_step L i s) = (lo_phase L s)(i := Outside)"
    and fl_free: "lo_phase L s i \<in> {Locking, Trying} \<Longrightarrow> flag s = 0 \<Longrightarrow> lo_step L i s \<noteq> s"
begin

definition busy :: "'s \<Rightarrow> nat \<Rightarrow> bool" where
  "busy s i \<longleftrightarrow> lo_phase L s i \<in> {Holding, Unlocking}"

lemma busy_upd: "lo_phase L s' = (lo_phase L s)(i := p) \<Longrightarrow> busy s' j \<longleftrightarrow> (if j = i then p \<in> {Holding, Unlocking} else busy s j)"
  by (simp add: busy_def)

lemma flag_inv_step:
  assumes inv: "flag_inv n (flag s) (busy s)" and i: "i < n" and ph: "lo_phase L s i \<in> {Locking, Trying, Unlocking}"
  shows "flag_inv n (flag (lo_step L i s)) (busy (lo_step L i s))"
proof (cases "lo_phase L s i = Unlocking")
  case True
  with fl_clear [OF True] have b: "flag (lo_step L i s) = 0" "busy (lo_step L i s) j \<longleftrightarrow> j \<noteq> i \<and> busy s j" for j
    using busy_upd [of "lo_step L i s" s i Outside] by auto
  show ?thesis unfolding b(1) by (rule flag_inv_release [OF inv _ b(2)]) (simp add: busy_def True)
next
  case False
  then have i': "\<not> busy s i" and ph': "lo_phase L s i \<in> {Locking, Trying}" using ph by (auto simp: busy_def)
  have f: "flag s \<in> {0, 1}" using inv by (auto simp: flag_inv_def)
  from fl_spin [OF ph' f] show ?thesis
  proof
    assume "flag (lo_step L i s) = flag s \<and> (\<exists>p. lo_phase L (lo_step L i s) = (lo_phase L s)(i := p) \<and>
        (p = lo_phase L s i \<or> lo_phase L s i = Trying \<and> p = Outside))"
    then obtain p where p: "flag (lo_step L i s) = flag s" "lo_phase L (lo_step L i s) = (lo_phase L s)(i := p)" "p \<notin> {Holding, Unlocking}"
      using ph' by auto
    show ?thesis unfolding p(1) by (rule flag_inv_move [OF inv]) (use busy_upd [OF p(2)] p(3) i' in auto)
  next
    assume p: "flag s = 0 \<and> flag (lo_step L i s) = 1 \<and> lo_phase L (lo_step L i s) = (lo_phase L s)(i := Holding)"
    then have inv0: "flag_inv n 0 (busy s)" using inv by simp
    have "flag_inv n 1 (busy (lo_step L i s))"
      by (rule flag_inv_acquire [OF inv0 i]) (use busy_upd [of "lo_step L i s" s i Holding] p in auto)
    then show ?thesis using p by simp
  qed
qed

end

sublocale flag_lock \<subseteq> inv: lock_invariant L n "\<lambda>s. flag_inv n (flag s) (busy s)"
proof
  show "flag_inv n (flag (lo_new L)) (busy (lo_new L))" unfolding fl_new by (rule flag_inv_new) (simp add: busy_def fl_new)
next
  fix s i assume inv: "flag_inv n (flag s) (busy s)"
  show "flag_inv n (flag (lo_Lock L i s)) (busy (lo_Lock L i s))" if "lo_phase L s i = Outside"
    using fl_lock [OF that] that by (auto intro!: flag_inv_move [OF inv] simp: busy_def split: if_splits)
  show "flag_inv n (flag (f i s)) (busy (f i s))" if "lo_phase L s i = Outside" "lo_TryLock L = Some f" for f
    using fl_try [OF that] that by (auto intro!: flag_inv_move [OF inv] simp: busy_def split: if_splits)
  show "flag_inv n (flag (lo_Unlock L i s)) (busy (lo_Unlock L i s))" if "lo_phase L s i = Holding"
    using fl_unlock [OF that] that by (auto intro!: flag_inv_move [OF inv] simp: busy_def split: if_splits)
qed (rule flag_inv_step)

sublocale flag_lock \<subseteq> spin_lock L n
proof
  fix s i
  assume r: "lock_reach L n s"
  note inv = inv.reach_inv [OF r]
  then have f: "flag s \<in> {0, 1}" by (auto simp: flag_inv_def)
  show "i = j" if "lo_phase L s i = Holding" "lo_phase L s j = Holding" for j
    using inv that by (auto simp: flag_inv_def busy_def)
  show "\<exists>p \<in> {Locking, Holding}. lo_phase L (lo_step L i s) = (lo_phase L s)(i := p)" if "lo_phase L s i = Locking"
    using fl_spin [of s i] f that by auto
  show "\<exists>p \<in> {Trying, Holding, Outside}. lo_phase L (lo_step L i s) = (lo_phase L s)(i := p)" if "lo_phase L s i = Trying"
    using fl_spin [of s i] f that by auto
  show "\<exists>j < n. can_move L s j" if i: "i < n" "lo_phase L s i \<noteq> Outside"
  proof (cases "flag s = 0")
    case True
    then have "\<not> busy s i" using inv by (auto simp: flag_inv_def)
    then have "lo_phase L s i \<in> {Locking, Trying}" using i by (cases "lo_phase L s i") (auto simp: busy_def)
    then show ?thesis using fl_free [OF _ True] i by (auto simp: can_move_def)
  next
    case False
    then obtain j where j: "j < n" "busy s j" using flag_inv_cases [OF inv] by blast
    moreover have "lo_step L j s \<noteq> s" if "lo_phase L s j = Unlocking" using fl_clear [OF that] False by auto
    ultimately show ?thesis by (auto simp: can_move_def busy_def)
  qed
qed (use fl_new fl_lock fl_try fl_unlock fl_clear in auto)

lemma Simple_same: "s \<lparr> ss_pc := p \<rparr> = s \<longleftrightarrow> p = ss_pc s" "s \<lparr> ss_flag := f, ss_pc := p \<rparr> = s \<longleftrightarrow> f = ss_flag s \<and> p = ss_pc s" for s :: SimpleSpinLock
  by (cases s, auto)+

interpretation simple: flag_lock Simple_ops ss_flag n for n
  by unfold_locales (auto simp: Simple_ops_def Simple_new_def Simple_goto_def Simple_step_def Simple_same fun_upd_idem_iff intro!: ext split: simple_loc.splits)

lemma Tts_same: "s \<lparr> ts_pc := p \<rparr> = s \<longleftrightarrow> p = ts_pc s" "s \<lparr> ts_flag := f, ts_pc := p \<rparr> = s \<longleftrightarrow> f = ts_flag s \<and> p = ts_pc s" for s :: TtsSpinLock
  by (cases s, auto)+

interpretation tts: flag_lock Tts_ops ts_flag n for n
  by unfold_locales (auto simp: Tts_ops_def Tts_new_def Tts_goto_def Tts_step_def Tts_same fun_upd_idem_iff intro!: ext split: tts_loc.splits)

lemma Backoff_same: "s \<lparr> bs_pc := p \<rparr> = s \<longleftrightarrow> p = bs_pc s" "s \<lparr> bs_flag := f, bs_pc := p \<rparr> = s \<longleftrightarrow> f = bs_flag s \<and> p = bs_pc s" for s :: TtsBackoffSpinLock
  by (cases s, auto)+

interpretation backoff: flag_lock Backoff_ops bs_flag n for n
  by unfold_locales (auto simp: Backoff_ops_def Backoff_new_def Backoff_goto_def Backoff_step_def Backoff_same fun_upd_idem_iff intro!: ext split: backoff_loc.splits)

section \<open>Locks with a queue\<close>

subsection \<open>TicketSpinLock\<close>

text \<open>
  A location carries the ticket \<open>x\<close>; \<open>_flag++\<close> of \<open>Unlock\<close> loads and then stores.
\<close>

datatype ticket_loc = K_Out | K_Take | K_Spin u64 | K_Hold u64 | K_Load u64 | K_Store u64 u64

record TicketSpinLock =
  tk_flag :: u64
  tk_cnt :: u64
  tk_pc :: "nat \<Rightarrow> ticket_loc"

definition Ticket_new :: TicketSpinLock where
  "Ticket_new = \<lparr> tk_flag = 0, tk_cnt = 0, tk_pc = (\<lambda>_. K_Out) \<rparr>"

definition Ticket_goto :: "nat \<Rightarrow> ticket_loc \<Rightarrow> TicketSpinLock \<Rightarrow> TicketSpinLock" where
  "Ticket_goto i l s = s \<lparr> tk_pc := (tk_pc s)(i := l) \<rparr>"

definition Ticket_step :: "nat \<Rightarrow> TicketSpinLock \<Rightarrow> TicketSpinLock" where
  "Ticket_step i s = (case tk_pc s i of
       K_Take \<Rightarrow> Ticket_goto i (K_Spin (tk_cnt s)) (s \<lparr> tk_cnt := tk_cnt s + 1 \<rparr>)
     | K_Spin x \<Rightarrow> if tk_flag s \<noteq> x then s else Ticket_goto i (K_Hold x) s
     | K_Load x \<Rightarrow> Ticket_goto i (K_Store x (tk_flag s)) s
     | K_Store x f \<Rightarrow> Ticket_goto i K_Out (s \<lparr> tk_flag := f + 1 \<rparr>)
     | _ \<Rightarrow> s)"

definition Ticket_Unlock :: "nat \<Rightarrow> TicketSpinLock \<Rightarrow> TicketSpinLock" where
  "Ticket_Unlock i s = (case tk_pc s i of K_Hold x \<Rightarrow> Ticket_goto i (K_Load x) s | _ \<Rightarrow> s)"

definition Ticket_IsNoOneWaiting :: "nat \<Rightarrow> TicketSpinLock \<Rightarrow> bool" where
  "Ticket_IsNoOneWaiting i s \<longleftrightarrow> tk_flag s + 1 = tk_cnt s"

fun ticket_phase :: "ticket_loc \<Rightarrow> phase" where
  "ticket_phase K_Out = Outside" | "ticket_phase K_Take = Locking" | "ticket_phase (K_Spin x) = Locking" | "ticket_phase (K_Hold x) = Holding"
| "ticket_phase (K_Load x) = Unlocking" | "ticket_phase (K_Store x f) = Unlocking"

definition Ticket_ops :: "TicketSpinLock SpinLockOps" where
  "Ticket_ops = \<lparr> lo_new = Ticket_new, lo_Lock = (\<lambda>i. Ticket_goto i K_Take), lo_TryLock = None, lo_Unlock = Ticket_Unlock,
     lo_step = Ticket_step, lo_phase = (\<lambda>s i. ticket_phase (tk_pc s i)), lo_IsNoOneWaiting = Ticket_IsNoOneWaiting \<rparr>"

fun ticket_of :: "ticket_loc \<Rightarrow> u64 option" where
  "ticket_of (K_Spin x) = Some x" | "ticket_of (K_Hold x) = Some x" | "ticket_of (K_Load x) = Some x" | "ticket_of (K_Store x f) = Some x"
| "ticket_of _ = None"

definition has_ticket :: "TicketSpinLock \<Rightarrow> nat \<Rightarrow> bool" where
  "has_ticket s i \<longleftrightarrow> ticket_of (tk_pc s i) \<noteq> None"

fun ticket_loc_ok :: "u64 \<Rightarrow> ticket_loc \<Rightarrow> bool" where
  "ticket_loc_ok flag (K_Hold x) \<longleftrightarrow> x = flag" | "ticket_loc_ok flag (K_Load x) \<longleftrightarrow> x = flag" | "ticket_loc_ok flag (K_Store x f) \<longleftrightarrow> x = flag \<and> f = flag"
| "ticket_loc_ok flag _ \<longleftrightarrow> True"

definition ticket_queue :: "nat \<Rightarrow> nat list \<Rightarrow> TicketSpinLock \<Rightarrow> bool" where
  "ticket_queue n q s \<longleftrightarrow> queue_of n q (has_ticket s) \<and> tk_cnt s = tk_flag s + of_nat (length q) \<and>
     (\<forall>k < length q. ticket_of (tk_pc s (q ! k)) = Some (tk_flag s + of_nat k)) \<and> (\<forall>i. ticket_loc_ok (tk_flag s) (tk_pc s i))"

text \<open>Only the first one of the queue has the ticket that is served.\<close>

lemma ticket_first:
  assumes "ticket_queue n q s" "n < 2 ^ 64" "ticket_of (tk_pc s i) = Some (tk_flag s)"
  shows "q \<noteq> [] \<and> hd q = i"
proof -
  have "has_ticket s i" using assms(3) by (simp add: has_ticket_def)
  then obtain k where k: "k < length q" "q ! k = i" using assms(1) queue_of_at by (metis ticket_queue_def)
  then have "(of_nat k :: u64) = 0" using assms(1,3) by (auto simp: ticket_queue_def)
  moreover have "k < 2 ^ 64" using k(1) queue_of_length [of n q "has_ticket s"] assms(1,2) by (simp add: ticket_queue_def)
  ultimately have "k = 0" using unat_of_nat [of k, where 'a = 64] by simp
  then show ?thesis using k by (auto simp: hd_conv_nth)
qed

lemma ticket_queue_move:
  "ticket_queue n q s \<Longrightarrow> ticket_of l = ticket_of (tk_pc s i) \<Longrightarrow> ticket_loc_ok (tk_flag s) l \<Longrightarrow> ticket_queue n q (Ticket_goto i l s)"
  by (auto simp: ticket_queue_def Ticket_goto_def has_ticket_def elim!: queue_of_move split: if_splits)

lemma ticket_queue_take:
  assumes "ticket_queue n q s" "tk_pc s i = K_Take" "i < n"
  shows "ticket_queue n (q @ [i]) (Ticket_step i s)"
proof -
  have "\<not> has_ticket s i" using assms by (simp add: has_ticket_def)
  then have "i \<notin> set q" using assms by (simp add: ticket_queue_def queue_of_def)
  moreover have "queue_of n (q @ [i]) (has_ticket (Ticket_step i s))"
    using assms by (intro queue_of_join [of n q "has_ticket s"]) (auto simp: ticket_queue_def Ticket_step_def Ticket_goto_def has_ticket_def)
  ultimately show ?thesis using assms(1,2)
    by (auto simp: ticket_queue_def Ticket_step_def Ticket_goto_def nth_append less_Suc_eq)
qed

lemma ticket_queue_leave:
  assumes "ticket_queue n (i # q) s" "tk_pc s i = K_Store x f" "n < 2 ^ 64"
  shows "ticket_queue n q (Ticket_step i s)"
proof -
  have i: "i \<notin> set q" and f: "f = tk_flag s" "x = tk_flag s" using assms by (auto simp: ticket_queue_def queue_of_def dest: spec [of _ i])
  have "queue_of n q (has_ticket (Ticket_step i s))"
    using assms by (intro queue_of_leave [of n i q "has_ticket s"]) (auto simp: ticket_queue_def Ticket_step_def Ticket_goto_def has_ticket_def)
  moreover have "ticket_of (tk_pc s (q ! k)) = Some (tk_flag s + 1 + of_nat k)" if "k < length q" for k
    using assms(1) that by (auto simp: ticket_queue_def dest: spec [of _ "Suc k"] simp: algebra_simps)
  moreover have "ticket_loc_ok (tk_flag s + 1) (tk_pc s j)" if "j \<noteq> i" for j
  proof -
    have "ticket_of (tk_pc s j) \<noteq> Some (tk_flag s)" using ticket_first [OF assms(1,3), of j] that by auto
    moreover have "ticket_loc_ok (tk_flag s) (tk_pc s j)" using assms(1) by (simp add: ticket_queue_def)
    ultimately show ?thesis by (cases "tk_pc s j") auto
  qed
  ultimately show ?thesis using assms f i
    by (auto simp: ticket_queue_def Ticket_step_def Ticket_goto_def algebra_simps)
qed

lemma ticket_same: "s \<lparr> tk_pc := p \<rparr> = s \<longleftrightarrow> p = tk_pc s" for s :: TicketSpinLock
  by (cases s) auto

lemma ticket_inv:
  assumes "n < 2 ^ 64"
  shows "lock_invariant Ticket_ops n (\<lambda>s. \<exists>q. ticket_queue n q s)"
proof
  show "\<exists>q. ticket_queue n q (lo_new Ticket_ops)"
    by (rule exI [of _ "[]"]) (simp add: Ticket_ops_def Ticket_new_def ticket_queue_def queue_of_def has_ticket_def)
next
  fix s i assume i: "i < n" and "\<exists>q. ticket_queue n q s"
  then obtain q where q: "ticket_queue n q s" by blast
  then have ok: "ticket_loc_ok (tk_flag s) (tk_pc s i)" by (simp add: ticket_queue_def)
  note move = ticket_queue_move [OF q, of _ i]
  show "\<exists>q. ticket_queue n q (lo_Lock Ticket_ops i s)" if "lo_phase Ticket_ops s i = Outside"
    using that move [of K_Take] by (cases "tk_pc s i") (auto simp: Ticket_ops_def)
  show "\<exists>q. ticket_queue n q (lo_Unlock Ticket_ops i s)" if "lo_phase Ticket_ops s i = Holding"
    using that ok by (cases "tk_pc s i") (auto simp: Ticket_ops_def Ticket_Unlock_def intro!: exI [of _ q] move)
  show "\<exists>q. ticket_queue n q (lo_step Ticket_ops i s)" if ph: "lo_phase Ticket_ops s i \<in> {Locking, Trying, Unlocking}"
  proof (cases "tk_pc s i")
    case K_Take
    then show ?thesis using ticket_queue_take [OF q _ i] by (auto simp: Ticket_ops_def)
  next
    case (K_Store x f)
    then have "q \<noteq> []" "hd q = i" using ticket_first [OF q assms, of i] ok by auto
    then show ?thesis using ticket_queue_leave [of n i "tl q" s x f] q assms K_Store by (auto simp: Ticket_ops_def)
  qed (use ph q ok in \<open>auto simp: Ticket_ops_def Ticket_step_def intro!: exI [of _ q] move\<close>)
qed (simp add: Ticket_ops_def)

lemma ticket_hd:
  assumes "ticket_queue n q s" "n < 2 ^ 64" "ticket_phase (tk_pc s i) \<in> {Holding, Unlocking}"
  shows "q \<noteq> [] \<and> hd q = i"
proof -
  have "ticket_loc_ok (tk_flag s) (tk_pc s i)" using assms by (simp add: ticket_queue_def)
  then show ?thesis using ticket_first [OF assms(1,2), of i] assms(3) by (cases "tk_pc s i") auto
qed

lemma ticket_hd_moves:
  assumes "ticket_queue n q s" "q \<noteq> []"
  shows "can_move Ticket_ops s (hd q)"
proof -
  have "ticket_of (tk_pc s (hd q)) = Some (tk_flag s)" using assms by (auto simp: ticket_queue_def hd_conv_nth)
  then show ?thesis
    by (cases "tk_pc s (hd q)") (auto simp: Ticket_ops_def Ticket_step_def Ticket_goto_def
      intro: can_move_holding can_move_step [where f = "\<lambda>s. tk_pc s (hd q)"])
qed

lemma ticket_lock:
  assumes n: "n < 2 ^ 64"
  shows "queue_lock Ticket_ops n (ticket_queue n)"
proof
  show "\<exists>q. ticket_queue n q s" if "lock_reach Ticket_ops n s" for s
    using lock_invariant.reach_inv [OF ticket_inv [OF n] that] .
  fix q s assume q: "ticket_queue n q s"
  show "distinct q" "\<And>i. i \<in> set q \<Longrightarrow> i < n" using q by (auto simp: ticket_queue_def queue_of_def)
  show "q \<noteq> [] \<and> hd q = i" if "lo_phase Ticket_ops s i = Holding" for i
    using ticket_hd [OF q n, of i] that by (simp add: Ticket_ops_def)
  show "\<exists>j < n. can_move Ticket_ops s j" if "q \<noteq> []"
    using ticket_hd_moves [OF q that] q that by (auto simp: ticket_queue_def queue_of_def intro!: exI [of _ "hd q"])
  show "can_move Ticket_ops s i" if "lo_phase Ticket_ops s i \<noteq> Outside" "i \<notin> set q" for i
  proof -
    have "\<not> has_ticket s i" using q that by (simp add: ticket_queue_def queue_of_def)
    then have "tk_pc s i = K_Take" using that by (cases "tk_pc s i") (auto simp: has_ticket_def Ticket_ops_def)
    then show ?thesis by (intro can_move_step [where f = "\<lambda>s. tk_pc s i"]) (auto simp: Ticket_ops_def Ticket_step_def Ticket_goto_def)
  qed
  show "lo_phase Ticket_ops s j = Locking" if "q = i # j # r" for i j r
  proof -
    have "j \<noteq> i" "has_ticket s j" using q that by (auto simp: ticket_queue_def queue_of_def)
    moreover have "ticket_phase (tk_pc s j) \<notin> {Holding, Unlocking}" using ticket_hd [OF q n, of j] that \<open>j \<noteq> i\<close> by auto
    ultimately show ?thesis by (cases "tk_pc s j") (auto simp: Ticket_ops_def has_ticket_def)
  qed
  show "lo_IsNoOneWaiting Ticket_ops i s" if "q = [i]" for i
    using q that by (simp add: ticket_queue_def Ticket_ops_def Ticket_IsNoOneWaiting_def)
qed (auto simp: Ticket_ops_def Ticket_new_def Ticket_goto_def Ticket_Unlock_def Ticket_step_def intro!: ext split: ticket_loc.splits if_splits)

interpretation ticket: queue_lock Ticket_ops 296 "ticket_queue 296"
  by (rule ticket_lock) simp

subsection \<open>AndersonSpinLock\<close>

text \<open>\<open>a\<close> is the template parameter \<open>arraysize\<close>; a location carries the local \<open>cur\<close>.\<close>

datatype anderson_loc = A_Out | A_Take | A_Spin u64 | A_Reset u64 | A_Cur u64 | A_Hold u64 | A_Pass u64

record AndersonSpinLock =
  an_last :: u64
  an_cur :: u64
  an_flag :: "int list"
  an_pc :: "nat \<Rightarrow> anderson_loc"

definition Anderson_new :: "nat \<Rightarrow> AndersonSpinLock" where
  "Anderson_new a = \<lparr> an_last = 0, an_cur = 0, an_flag = 1 # replicate (a - 1) 0, an_pc = (\<lambda>_. A_Out) \<rparr>"

definition Anderson_goto :: "nat \<Rightarrow> anderson_loc \<Rightarrow> AndersonSpinLock \<Rightarrow> AndersonSpinLock" where
  "Anderson_goto i l s = s \<lparr> an_pc := (an_pc s)(i := l) \<rparr>"

definition Anderson_step :: "nat \<Rightarrow> nat \<Rightarrow> AndersonSpinLock \<Rightarrow> AndersonSpinLock" where
  "Anderson_step a i s = (case an_pc s i of
       A_Take \<Rightarrow> Anderson_goto i (A_Spin (an_last s mod of_nat a)) (s \<lparr> an_last := an_last s + 1 \<rparr>)
     | A_Spin cur \<Rightarrow> if an_flag s ! unat cur = 0 then s else Anderson_goto i (A_Reset cur) s
     | A_Reset cur \<Rightarrow> Anderson_goto i (A_Cur cur) (s \<lparr> an_flag := (an_flag s)[unat cur := 0] \<rparr>)
     | A_Cur cur \<Rightarrow> Anderson_goto i (A_Hold cur) (s \<lparr> an_cur := cur \<rparr>)
     | A_Pass cur \<Rightarrow> Anderson_goto i A_Out (s \<lparr> an_flag := (an_flag s)[unat ((an_cur s + 1) mod of_nat a) := 1] \<rparr>)
     | _ \<Rightarrow> s)"

definition Anderson_Unlock :: "nat \<Rightarrow> AndersonSpinLock \<Rightarrow> AndersonSpinLock" where
  "Anderson_Unlock i s = (case an_pc s i of A_Hold x \<Rightarrow> Anderson_goto i (A_Pass x) s | _ \<Rightarrow> s)"

definition Anderson_IsNoOneWaiting :: "nat \<Rightarrow> nat \<Rightarrow> AndersonSpinLock \<Rightarrow> bool" where
  "Anderson_IsNoOneWaiting a i s \<longleftrightarrow> (an_cur s + 1) mod of_nat a = an_last s mod of_nat a"

fun anderson_phase :: "anderson_loc \<Rightarrow> phase" where
  "anderson_phase A_Out = Outside" | "anderson_phase A_Take = Locking" | "anderson_phase (A_Spin x) = Locking" | "anderson_phase (A_Reset x) = Locking"
| "anderson_phase (A_Cur x) = Locking" | "anderson_phase (A_Hold x) = Holding" | "anderson_phase (A_Pass x) = Unlocking"

definition Anderson_ops :: "nat \<Rightarrow> AndersonSpinLock SpinLockOps" where
  "Anderson_ops a = \<lparr> lo_new = Anderson_new a, lo_Lock = (\<lambda>i. Anderson_goto i A_Take), lo_TryLock = None, lo_Unlock = Anderson_Unlock,
     lo_step = Anderson_step a, lo_phase = (\<lambda>s i. anderson_phase (an_pc s i)), lo_IsNoOneWaiting = Anderson_IsNoOneWaiting a \<rparr>"

fun slot_of :: "anderson_loc \<Rightarrow> nat option" where
  "slot_of (A_Spin x) = Some (unat x)" | "slot_of (A_Reset x) = Some (unat x)" | "slot_of (A_Cur x) = Some (unat x)"
| "slot_of (A_Hold x) = Some (unat x)" | "slot_of (A_Pass x) = Some (unat x)" | "slot_of _ = None"

definition has_slot :: "AndersonSpinLock \<Rightarrow> nat \<Rightarrow> bool" where
  "has_slot s i \<longleftrightarrow> slot_of (an_pc s i) \<noteq> None"

text \<open>From \<open>A_Reset\<close> on a processor has found the flag of its slot; from \<open>A_Cur\<close> on it has taken it.\<close>

fun passed :: "anderson_loc \<Rightarrow> bool" where
  "passed (A_Reset x) = True" | "passed (A_Cur x) = True" | "passed (A_Hold x) = True" | "passed (A_Pass x) = True" | "passed _ = False"

fun took_flag :: "anderson_loc \<Rightarrow> bool" where
  "took_flag (A_Cur x) = True" | "took_flag (A_Hold x) = True" | "took_flag (A_Pass x) = True" | "took_flag _ = False"

fun cur_ok :: "u64 \<Rightarrow> anderson_loc \<Rightarrow> bool" where
  "cur_ok cur (A_Hold x) \<longleftrightarrow> cur = x" | "cur_ok cur (A_Pass x) \<longleftrightarrow> cur = x" | "cur_ok cur _ \<longleftrightarrow> True"

text \<open>The queue stands at the slots from \<open>h\<close> on; one flag is set, that of \<open>h\<close>, unless the first one has taken it.\<close>

definition anderson_at :: "nat \<Rightarrow> nat \<Rightarrow> nat \<Rightarrow> nat list \<Rightarrow> AndersonSpinLock \<Rightarrow> bool" where
  "anderson_at a n h q s \<longleftrightarrow> queue_of n q (has_slot s) \<and> length (an_flag s) = a \<and> unat (an_last s) mod a = (h + length q) mod a \<and>
     (\<forall>k < length q. slot_of (an_pc s (q ! k)) = Some ((h + k) mod a)) \<and> (\<forall>i. passed (an_pc s i) \<longrightarrow> q \<noteq> [] \<and> hd q = i) \<and>
     (\<forall>i. cur_ok (an_cur s) (an_pc s i)) \<and>
     (\<forall>x < a. an_flag s ! x = (if x = h mod a \<and> \<not> (q \<noteq> [] \<and> took_flag (an_pc s (hd q))) then 1 else 0))"

definition anderson_queue :: "nat \<Rightarrow> nat \<Rightarrow> nat list \<Rightarrow> AndersonSpinLock \<Rightarrow> bool" where
  "anderson_queue a n q s \<longleftrightarrow> (\<exists>h. anderson_at a n h q s)"

definition array_ok :: "nat \<Rightarrow> nat \<Rightarrow> bool" where
  "array_ok a n \<longleftrightarrow> 0 < a \<and> n \<le> a \<and> a dvd 2 ^ 64 \<and> a < 2 ^ 64"

lemma slot_unat: "array_ok a n \<Longrightarrow> unat (x mod of_nat a) = unat x mod a" for x :: u64
  by (simp add: array_ok_def unat_mod unat_of_nat)

lemma slot_next: "array_ok a n \<Longrightarrow> unat (x + 1) mod a = Suc (unat x) mod a" for x :: u64
proof -
  assume a: "array_ok a n"
  have "unat (x + 1) = (unat x + 1) mod 2 ^ 64" by (simp add: unat_word_ariths)
  then show ?thesis using a by (simp add: array_ok_def mod_mod_cancel)
qed

lemma slot_first: "(h + k) mod a = h mod a \<Longrightarrow> k < a \<Longrightarrow> k = (0 :: nat)"
  using mod_eq_dvd_iff_nat [of h "h + k" a] nat_dvd_not_less [of k a] by auto

lemma anderson_slot:
  assumes at: "anderson_at a n h q s" and a: "array_ok a n" and sl: "slot_of (an_pc s i) = Some x"
  shows "x < a" and "x = h mod a \<Longrightarrow> q \<noteq> [] \<and> hd q = i" and "q \<noteq> [] \<Longrightarrow> hd q = i \<Longrightarrow> x = h mod a"
proof -
  have "has_slot s i" using sl by (simp add: has_slot_def)
  then obtain k where k: "k < length q" "q ! k = i" using at queue_of_at by (metis anderson_at_def)
  then have x: "x = (h + k) mod a" using at sl by (auto simp: anderson_at_def)
  show "x < a" using x a by (simp add: array_ok_def)
  have "k < a" using k(1) at a queue_of_length [of n q "has_slot s"] by (simp add: anderson_at_def array_ok_def)
  show "q \<noteq> [] \<and> hd q = i" if "x = h mod a"
    using slot_first [of h k a] x that k \<open>k < a\<close> by (auto simp: hd_conv_nth)
  show "x = h mod a" if "q \<noteq> []" "hd q = i"
    using at that sl by (auto simp: anderson_at_def hd_conv_nth)
qed

lemma anderson_move:
  assumes at: "anderson_at a n h q s" and l: "slot_of l = slot_of (an_pc s i)" "took_flag l = took_flag (an_pc s i)" "cur_ok (an_cur s) l"
    and p: "passed l \<Longrightarrow> q \<noteq> [] \<and> hd q = i"
  shows "anderson_at a n h q (Anderson_goto i l s)"
proof -
  have "queue_of n q (has_slot (Anderson_goto i l s))"
    by (rule queue_of_move [of n q "has_slot s"]) (use at l in \<open>auto simp: anderson_at_def has_slot_def Anderson_goto_def\<close>)
  moreover have "took_flag (an_pc (Anderson_goto i l s) j) = took_flag (an_pc s j)" for j using l by (simp add: Anderson_goto_def)
  ultimately show ?thesis using at l p by (auto simp: anderson_at_def Anderson_goto_def)
qed

lemma anderson_take:
  assumes at: "anderson_at a n h q s" and a: "array_ok a n" and i: "an_pc s i = A_Take" "i < n"
  shows "anderson_at a n h (q @ [i]) (Anderson_step a i s)"
proof -
  have "\<not> has_slot s i" using i by (simp add: has_slot_def)
  then have nin: "i \<notin> set q" using at by (simp add: anderson_at_def queue_of_def)
  have "queue_of n (q @ [i]) (has_slot (Anderson_step a i s))"
    using at i by (intro queue_of_join [of n q "has_slot s"]) (auto simp: anderson_at_def Anderson_step_def Anderson_goto_def has_slot_def)
  moreover have "unat (an_last s + 1) mod a = (h + length (q @ [i])) mod a"
    using at slot_next [OF a] by (simp add: anderson_at_def) (metis mod_Suc_eq)
  ultimately show ?thesis using at i nin slot_unat [OF a]
    by (auto simp: anderson_at_def Anderson_step_def Anderson_goto_def nth_append less_Suc_eq hd_append split: if_splits)
qed

lemma anderson_reset:
  assumes at: "anderson_at a n h q s" and a: "array_ok a n" and i: "an_pc s i = A_Reset x"
  shows "anderson_at a n h q (Anderson_step a i s)"
proof -
  have f: "q \<noteq> []" "hd q = i" using at i by (auto simp: anderson_at_def dest: spec [of _ i])
  have sl: "slot_of (an_pc s i) = Some (unat x)" using i by simp
  note x = anderson_slot(3) [OF at a sl f] anderson_slot(1) [OF at a sl]
  have "queue_of n q (has_slot (Anderson_step a i s))"
    by (rule queue_of_move [of n q "has_slot s"]) (use at i in \<open>auto simp: anderson_at_def has_slot_def Anderson_step_def Anderson_goto_def\<close>)
  then show ?thesis using at i f x by (auto simp: anderson_at_def Anderson_step_def Anderson_goto_def nth_list_update)
qed

lemma anderson_pass:
  assumes at: "anderson_at a n h q s" and a: "array_ok a n" and i: "an_pc s i = A_Pass x"
  shows "anderson_at a n (Suc h) (tl q) (Anderson_step a i s)"
proof -
  obtain r where q: "q = i # r" using at i by (cases q) (auto simp: anderson_at_def dest: spec [of _ i])
  have sl: "slot_of (an_pc s i) = Some (unat x)" using i by simp
  have "cur_ok (an_cur s) (an_pc s i)" using at by (simp add: anderson_at_def)
  then have x: "unat x = h mod a" "unat x < a" "an_cur s = x" using anderson_slot [OF at a sl] i q by simp_all
  have next_slot: "unat ((an_cur s + 1) mod of_nat a) = Suc h mod a"
    using slot_unat [OF a] slot_next [OF a, of x] x by (simp add: mod_Suc_eq)
  have qr: "queue_of n r (has_slot (Anderson_step a i s))"
    using at i unfolding q by (intro queue_of_leave [of n i r "has_slot s"]) (auto simp: anderson_at_def Anderson_step_def Anderson_goto_def has_slot_def)
  have nin: "i \<notin> set r" using at q by (simp add: anderson_at_def queue_of_def)
  have np: "\<not> passed (an_pc s j)" if "j \<noteq> i" for j using at q that by (auto simp: anderson_at_def)
  then have nt: "\<not> took_flag (an_pc s j)" if "j \<noteq> i" for j using that by (cases "an_pc s j") (auto dest!: np)
  have zero: "an_flag s ! y = 0" if "y < a" for y using at i q that by (auto simp: anderson_at_def)
  have "slot_of (an_pc s (r ! k)) = Some (Suc (h + k) mod a)" if "k < length r" for k
    using at that unfolding q anderson_at_def by (auto dest: spec [of _ "Suc k"])
  moreover have "Suc h mod a < a" using a by (simp add: array_ok_def)
  moreover have "hd r \<noteq> i" if "r \<noteq> []" using nin that by (metis hd_in_set)
  ultimately show ?thesis using at i x qr nin np nt zero next_slot
    by (auto simp: q anderson_at_def Anderson_step_def Anderson_goto_def nth_list_update)
qed

lemma anderson_ok: "anderson_at a n h q s \<Longrightarrow> cur_ok (an_cur s) (an_pc s i)" "anderson_at a n h q s \<Longrightarrow> passed (an_pc s i) \<Longrightarrow> q \<noteq> [] \<and> hd q = i"
  by (auto simp: anderson_at_def)

lemma anderson_cur:
  assumes at: "anderson_at a n h q s" and i: "an_pc s i = A_Cur x"
  shows "anderson_at a n h q (Anderson_step a i s)"
proof -
  have f: "q \<noteq> []" "hd q = i" using anderson_ok(2) [OF at, of i] i by auto
  have "cur_ok x (an_pc s j)" if "j \<noteq> i" for j
    using anderson_ok(2) [OF at, of j] f that by (cases "an_pc s j") auto
  moreover have "queue_of n q (has_slot (Anderson_step a i s))"
    by (rule queue_of_move [of n q "has_slot s"]) (use at i in \<open>auto simp: anderson_at_def has_slot_def Anderson_step_def Anderson_goto_def\<close>)
  ultimately show ?thesis using at i f by (auto simp: anderson_at_def Anderson_step_def Anderson_goto_def)
qed

lemma anderson_spin:
  assumes at: "anderson_at a n h q s" and a: "array_ok a n" and i: "an_pc s i = A_Spin x"
  shows "anderson_at a n h q (Anderson_step a i s)"
proof (cases "an_flag s ! unat x = 0")
  case True
  then show ?thesis using at i by (simp add: Anderson_step_def)
next
  case False
  have sl: "slot_of (an_pc s i) = Some (unat x)" using i by simp
  note x = anderson_slot [OF at a sl]
  have "an_flag s ! unat x = (if unat x = h mod a \<and> \<not> (q \<noteq> [] \<and> took_flag (an_pc s (hd q))) then 1 else 0)"
    using at x(1) unfolding anderson_at_def by blast
  then have "unat x = h mod a" using False by presburger
  then have "q \<noteq> [] \<and> hd q = i" by (rule x(2))
  then show ?thesis using anderson_move [OF at, of "A_Reset x" i] i False by (simp add: Anderson_step_def)
qed

lemma anderson_inv:
  assumes a: "array_ok a n"
  shows "lock_invariant (Anderson_ops a) n (\<lambda>s. \<exists>q. anderson_queue a n q s)"
proof
  have "anderson_at a n 0 [] (Anderson_new a)"
    using a by (auto simp: Anderson_new_def anderson_at_def queue_of_def has_slot_def array_ok_def nth_Cons')
  then show "\<exists>q. anderson_queue a n q (lo_new (Anderson_ops a))" by (auto simp: Anderson_ops_def anderson_queue_def)
next
  fix s i assume i: "i < n" and "\<exists>q. anderson_queue a n q s"
  then obtain q h where at: "anderson_at a n h q s" by (auto simp: anderson_queue_def)
  note ok = anderson_ok [OF at, of i] and move = anderson_move [OF at, of _ i]
  show "\<exists>q. anderson_queue a n q (lo_Lock (Anderson_ops a) i s)" if "lo_phase (Anderson_ops a) s i = Outside"
    using that move [of A_Take] by (cases "an_pc s i") (auto simp: Anderson_ops_def anderson_queue_def)
  show "\<exists>q. anderson_queue a n q (lo_Unlock (Anderson_ops a) i s)" if ph: "lo_phase (Anderson_ops a) s i = Holding"
  proof (cases "an_pc s i")
    case (A_Hold x)
    then show ?thesis using move [of "A_Pass x"] ok by (auto simp: Anderson_ops_def Anderson_Unlock_def anderson_queue_def)
  qed (use ph in \<open>auto simp: Anderson_ops_def\<close>)
  show "\<exists>q. anderson_queue a n q (lo_step (Anderson_ops a) i s)" if ph: "lo_phase (Anderson_ops a) s i \<in> {Locking, Trying, Unlocking}"
    using anderson_take [OF at a _ i] anderson_spin [OF at a, of i] anderson_reset [OF at a, of i] anderson_cur [OF at, of i] anderson_pass [OF at a, of i] ph
    by (cases "an_pc s i") (auto simp: Anderson_ops_def anderson_queue_def)
qed (simp add: Anderson_ops_def)

lemma anderson_moves:
  assumes at: "anderson_at a n h q s" and a: "array_ok a n" and q: "q \<noteq> []"
  shows "can_move (Anderson_ops a) s (hd q)"
proof -
  have "slot_of (an_pc s (hd q)) = Some (h mod a)" using at q by (auto simp: anderson_at_def hd_conv_nth)
  moreover have "an_flag s ! (h mod a) = 1" if "\<not> took_flag (an_pc s (hd q))" using at a that by (simp add: anderson_at_def array_ok_def)
  ultimately show ?thesis
    by (cases "an_pc s (hd q)") (auto simp: Anderson_ops_def Anderson_step_def Anderson_goto_def
      intro: can_move_holding can_move_step [where f = "\<lambda>s. an_pc s (hd q)"])
qed

lemma anderson_lock:
  assumes a: "array_ok a n"
  shows "queue_lock (Anderson_ops a) n (anderson_queue a n)"
proof
  show "\<exists>q. anderson_queue a n q s" if "lock_reach (Anderson_ops a) n s" for s
    using lock_invariant.reach_inv [OF anderson_inv [OF a] that] .
  fix q s assume "anderson_queue a n q s"
  then obtain h where at: "anderson_at a n h q s" by (auto simp: anderson_queue_def)
  then have q: "queue_of n q (has_slot s)" by (simp add: anderson_at_def)
  show "distinct q" "\<And>i. i \<in> set q \<Longrightarrow> i < n" using q by (auto simp: queue_of_def)
  have first: "q \<noteq> [] \<and> hd q = i" if "anderson_phase (an_pc s i) \<in> {Holding, Unlocking}" for i
    using anderson_ok(2) [OF at, of i] that by (cases "an_pc s i") auto
  show "q \<noteq> [] \<and> hd q = i" if "lo_phase (Anderson_ops a) s i = Holding" for i
    using first [of i] that by (simp add: Anderson_ops_def)
  show "\<exists>j < n. can_move (Anderson_ops a) s j" if "q \<noteq> []"
    using anderson_moves [OF at a that] q that by (auto simp: queue_of_def intro!: exI [of _ "hd q"])
  show "can_move (Anderson_ops a) s i" if "lo_phase (Anderson_ops a) s i \<noteq> Outside" "i \<notin> set q" for i
  proof -
    have "\<not> has_slot s i" using q that by (simp add: queue_of_def)
    then have "an_pc s i = A_Take" using that by (cases "an_pc s i") (auto simp: has_slot_def Anderson_ops_def)
    then show ?thesis by (intro can_move_step [where f = "\<lambda>s. an_pc s i"]) (auto simp: Anderson_ops_def Anderson_step_def Anderson_goto_def)
  qed
  show "lo_phase (Anderson_ops a) s j = Locking" if "q = i # j # r" for i j r
  proof -
    have "j \<noteq> i" "has_slot s j" using q that by (auto simp: queue_of_def)
    moreover have "anderson_phase (an_pc s j) \<notin> {Holding, Unlocking}" using first [of j] that \<open>j \<noteq> i\<close> by auto
    ultimately show ?thesis by (cases "an_pc s j") (auto simp: Anderson_ops_def has_slot_def)
  qed
  show "lo_IsNoOneWaiting (Anderson_ops a) i s" if qi: "q = [i]" and ph: "lo_phase (Anderson_ops a) s i = Holding" for i
  proof -
    obtain x where x: "an_pc s i = A_Hold x" using ph by (cases "an_pc s i") (auto simp: Anderson_ops_def)
    then have "an_cur s = x" "unat x = h mod a"
      using anderson_ok(1) [OF at, of i] anderson_slot(3) [OF at a, of i "unat x"] qi by auto
    then have "unat ((an_cur s + 1) mod of_nat a) = unat (an_last s mod of_nat a)"
      using at qi slot_unat [OF a] slot_next [OF a, of x] by (simp add: anderson_at_def mod_Suc_eq)
    then show ?thesis by (simp add: Anderson_ops_def Anderson_IsNoOneWaiting_def word_unat_eq_iff)
  qed
qed (auto simp: Anderson_ops_def Anderson_new_def Anderson_goto_def Anderson_Unlock_def Anderson_step_def intro!: ext
    split: anderson_loc.splits if_splits)

interpretation anderson: queue_lock "Anderson_ops 256" 256 "anderson_queue 256 256"
  by (rule anderson_lock) (simp add: array_ok_def)

text \<open>C22: the locks that spin on one word or on an array exclude each other's holders and never get stuck: \<open>SimpleSpinLock\<close>, \<open>TtsSpinLock\<close> with \<open>TryLock\<close>
  and \<open>TtsBackoffSpinLock\<close> for any number of processors, \<open>TicketSpinLock\<close>, whose counters wrap around, for fewer than \<open>2^64\<close>, and
  \<open>AndersonSpinLock\<close> for as many as the array has elements, if the length of the array divides \<open>2^64\<close>.
\<close>

theorem word_locks_safe:
  assumes "n < 2 ^ 64" "array_ok a m"
  shows "mutual_exclusion Simple_ops k \<and> deadlock_free Simple_ops k \<and> mutual_exclusion Tts_ops k \<and> deadlock_free Tts_ops k \<and>
    mutual_exclusion Backoff_ops k \<and> deadlock_free Backoff_ops k \<and> mutual_exclusion Ticket_ops n \<and> deadlock_free Ticket_ops n \<and>
    mutual_exclusion (Anderson_ops a) m \<and> deadlock_free (Anderson_ops a) m"
  using simple.lock_safe tts.lock_safe backoff.lock_safe spin_lock.lock_safe [OF queue_lock.is_spin_lock [OF ticket_lock [OF assms(1)]]]
    spin_lock.lock_safe [OF queue_lock.is_spin_lock [OF anderson_lock [OF assms(2)]]] by blast

theorem word_locks_safe_witness: "mutual_exclusion Tts_ops 5 \<and> mutual_exclusion Ticket_ops 296 \<and> deadlock_free (Anderson_ops 256) 256"
  using word_locks_safe [of 296 256 256 5] by (simp add: array_ok_def)

end
