(* ===== verification/Clh_Lock.thy ===== *)
theory Clh_Lock
  imports Lock_Interface
begin

text \<open>
  \<open>ClhSpinLock\<close> of \<open>membench/spinlock.h\<close>: a queue of nodes in which every processor spins on the node of its predecessor and takes that
  node over when it leaves. Nodes are numbers; node \<open>i\<close> of \<open>_nodes\<close> is \<open>i\<close>, and \<open>_tmp\<close> is 296, the length of \<open>_nodes\<close>.
\<close>

datatype clh_loc = C_Out | C_Mark | C_Swap | C_Spin | C_Hold | C_Clear | C_Adopt

record ClhSpinLock =
  cl_tail :: nat
  cl_locked :: "nat \<Rightarrow> bool"
  cl_node :: "nat \<Rightarrow> nat"
  cl_pred :: "nat \<Rightarrow> nat option"
  cl_pc :: "nat \<Rightarrow> clh_loc"

definition Clh_new :: ClhSpinLock where
  "Clh_new = \<lparr> cl_tail = 37 * 8, cl_locked = (\<lambda>_. False), cl_node = (\<lambda>i. i), cl_pred = (\<lambda>_. None), cl_pc = (\<lambda>_. C_Out) \<rparr>"

definition Clh_goto :: "nat \<Rightarrow> clh_loc \<Rightarrow> ClhSpinLock \<Rightarrow> ClhSpinLock" where
  "Clh_goto i l s = s \<lparr> cl_pc := (cl_pc s)(i := l) \<rparr>"

text \<open>\<open>_node[apicid]\<close> and \<open>_pred[apicid]\<close> are used by their processor only, so that the exchange of \<open>_tail\<close> and the write of \<open>_pred\<close> are one step.\<close>

definition Clh_step :: "nat \<Rightarrow> ClhSpinLock \<Rightarrow> ClhSpinLock" where
  "Clh_step i s = (case cl_pc s i of
       C_Mark \<Rightarrow> Clh_goto i C_Swap (s \<lparr> cl_locked := (cl_locked s)(cl_node s i := True) \<rparr>)
     | C_Swap \<Rightarrow> Clh_goto i C_Spin (s \<lparr> cl_pred := (cl_pred s)(i := Some (cl_tail s)), cl_tail := cl_node s i \<rparr>)
     | C_Spin \<Rightarrow> if cl_locked s (the (cl_pred s i)) then s else Clh_goto i C_Hold s
     | C_Clear \<Rightarrow> Clh_goto i C_Adopt (s \<lparr> cl_locked := (cl_locked s)(cl_node s i := False) \<rparr>)
     | C_Adopt \<Rightarrow> Clh_goto i C_Out (s \<lparr> cl_node := (cl_node s)(i := the (cl_pred s i)) \<rparr>)
     | _ \<Rightarrow> s)"

definition Clh_IsNoOneWaiting :: "nat \<Rightarrow> ClhSpinLock \<Rightarrow> bool" where
  "Clh_IsNoOneWaiting i s \<longleftrightarrow> cl_tail s = cl_node s i"

fun clh_phase :: "clh_loc \<Rightarrow> phase" where
  "clh_phase C_Out = Outside" | "clh_phase C_Mark = Locking" | "clh_phase C_Swap = Locking" | "clh_phase C_Spin = Locking"
| "clh_phase C_Hold = Holding" | "clh_phase C_Clear = Unlocking" | "clh_phase C_Adopt = Unlocking"

definition Clh_ops :: "ClhSpinLock SpinLockOps" where
  "Clh_ops = \<lparr> lo_new = Clh_new, lo_Lock = (\<lambda>i. Clh_goto i C_Mark), lo_TryLock = None, lo_Unlock = (\<lambda>i. Clh_goto i C_Clear),
     lo_step = Clh_step, lo_phase = (\<lambda>s i. clh_phase (cl_pc s i)), lo_IsNoOneWaiting = Clh_IsNoOneWaiting \<rparr>"

section \<open>The queue\<close>

text \<open>
  The node that a processor will use next: in \<open>C_Adopt\<close> its own node has already been left to the successor. The nodes of the
  processors and one free node \<open>f\<close> are all different. Every processor of the queue spins on the node of the one before it, the first one on \<open>f\<close>.
\<close>

definition own :: "ClhSpinLock \<Rightarrow> nat \<Rightarrow> nat" where
  "own s i = (if cl_pc s i = C_Adopt then the (cl_pred s i) else cl_node s i)"

definition queued :: "ClhSpinLock \<Rightarrow> nat \<Rightarrow> bool" where
  "queued s i \<longleftrightarrow> cl_pc s i \<in> {C_Spin, C_Hold, C_Clear}"

fun chain :: "ClhSpinLock \<Rightarrow> nat \<Rightarrow> nat list \<Rightarrow> bool" where
  "chain s f [] \<longleftrightarrow> cl_tail s = f"
| "chain s f (i # q) \<longleftrightarrow> cl_pred s i = Some f \<and> cl_locked s (cl_node s i) \<and> chain s (cl_node s i) q"

definition clh_at :: "nat \<Rightarrow> nat \<Rightarrow> nat list \<Rightarrow> ClhSpinLock \<Rightarrow> bool" where
  "clh_at n f q s \<longleftrightarrow> queue_of n q (queued s) \<and> inj_on (own s) {..<n} \<and> f \<notin> own s ` {..<n} \<and> \<not> cl_locked s f \<and> chain s f q \<and>
     (\<forall>i < n. cl_pc s i = C_Swap \<longrightarrow> cl_locked s (cl_node s i)) \<and> (\<forall>i. cl_pc s i \<in> {C_Hold, C_Clear} \<longrightarrow> q \<noteq> [] \<and> hd q = i) \<and>
     (\<forall>i. cl_pc s i = C_Adopt \<longrightarrow> cl_pred s i \<noteq> None)"

definition clh_queue :: "nat \<Rightarrow> nat list \<Rightarrow> ClhSpinLock \<Rightarrow> bool" where
  "clh_queue n q s \<longleftrightarrow> (\<exists>f. clh_at n f q s)"

lemma chain_cong:
  "(\<And>i. i \<in> set q \<Longrightarrow> cl_pred s' i = cl_pred s i \<and> cl_node s' i = cl_node s i \<and> cl_locked s' (cl_node s i) = cl_locked s (cl_node s i)) \<Longrightarrow>
   cl_tail s' = cl_tail s \<Longrightarrow> chain s' f q = chain s f q"
  by (induction q arbitrary: f) auto

lemma chain_append:
  "chain s f q \<Longrightarrow> (\<And>i. i \<in> set q \<Longrightarrow> cl_pred s' i = cl_pred s i \<and> cl_node s' i = cl_node s i \<and> cl_locked s' (cl_node s i) = cl_locked s (cl_node s i)) \<Longrightarrow>
   cl_pred s' i = Some (cl_tail s) \<Longrightarrow> cl_locked s' (cl_node s' i) \<Longrightarrow> cl_tail s' = cl_node s' i \<Longrightarrow> chain s' f (q @ [i])"
  by (induction q arbitrary: f) auto

lemma chain_spin: "chain s f q \<Longrightarrow> i \<in> set q \<Longrightarrow> \<exists>g. cl_pred s i = Some g \<and> (g = f \<and> hd q = i \<or> cl_locked s g)"
  by (induction q arbitrary: f) force+

lemma own_queued: "queued s i \<Longrightarrow> own s i = cl_node s i"
  by (auto simp: queued_def own_def)

lemma clh_atD:
  assumes "clh_at n f q s"
  shows "queue_of n q (queued s)" "i < n \<Longrightarrow> j < n \<Longrightarrow> own s i = own s j \<Longrightarrow> i = j" "i < n \<Longrightarrow> own s i \<noteq> f" "\<not> cl_locked s f" "chain s f q"
    "cl_pc s i \<in> {C_Hold, C_Clear} \<Longrightarrow> q \<noteq> [] \<and> hd q = i"
  using assms by (auto simp: clh_at_def inj_on_def)

lemma clh_atI:
  assumes "queue_of n q (queued s)" "inj_on (own s) {..<n}" "f \<notin> own s ` {..<n}" "\<not> cl_locked s f" "chain s f q"
    "\<And>i. i < n \<Longrightarrow> cl_pc s i = C_Swap \<Longrightarrow> cl_locked s (cl_node s i)" "\<And>i. cl_pc s i \<in> {C_Hold, C_Clear} \<Longrightarrow> q \<noteq> [] \<and> hd q = i"
    "\<And>i. cl_pc s i = C_Adopt \<Longrightarrow> cl_pred s i \<noteq> None"
  shows "clh_at n f q s"
  using assms unfolding clh_at_def by blast

text \<open>A move that changes no field and does not enter or leave the queue\<close>

lemma clh_move:
  assumes at: "clh_at n f q s" and l: "(l \<in> {C_Spin, C_Hold, C_Clear}) = queued s i" "l = C_Adopt \<longleftrightarrow> cl_pc s i = C_Adopt" "l \<noteq> C_Swap"
    and h: "l \<in> {C_Hold, C_Clear} \<Longrightarrow> q \<noteq> [] \<and> hd q = i"
  shows "clh_at n f q (Clh_goto i l s)"
proof -
  let ?s = "Clh_goto i l s"
  have [simp]: "cl_tail ?s = cl_tail s" "cl_locked ?s = cl_locked s" "cl_node ?s = cl_node s" "cl_pred ?s = cl_pred s"
    by (simp_all add: Clh_goto_def)
  have "own ?s = own s" using l(2) by (auto simp: own_def Clh_goto_def fun_eq_iff)
  moreover have "queue_of n q (queued ?s)"
    by (rule queue_of_move [OF clh_atD(1) [OF at]]) (use l(1) in \<open>auto simp: queued_def Clh_goto_def\<close>)
  moreover have "chain ?s f q = chain s f q" by (rule chain_cong) auto
  ultimately show ?thesis using at l h by (auto simp: clh_at_def Clh_goto_def)
qed

lemma clh_mark:
  assumes at: "clh_at n f q s" and i: "i < n" "cl_pc s i = C_Mark"
  shows "clh_at n f q (Clh_step i s)"
proof -
  let ?s = "Clh_step i s"
  have u: "cl_tail ?s = cl_tail s" "cl_locked ?s = (cl_locked s)(cl_node s i := True)" "cl_node ?s = cl_node s" "cl_pred ?s = cl_pred s"
    "cl_pc ?s = (cl_pc s)(i := C_Swap)"
    using i by (simp_all add: Clh_step_def Clh_goto_def)
  have own: "own ?s = own s" using i by (auto simp: own_def u fun_eq_iff)
  have q: "queue_of n q (queued ?s)"
    by (rule queue_of_move [OF clh_atD(1) [OF at]]) (use i in \<open>auto simp: queued_def u\<close>)
  have oi: "own s i = cl_node s i" using i by (simp add: own_def)
  have "chain ?s f q = chain s f q"
  proof (rule chain_cong)
    fix j assume j: "j \<in> set q"
    then have "queued s j" "j < n" using clh_atD(1) [OF at] by (auto simp: queue_of_def)
    then have "cl_node s j \<noteq> cl_node s i" using clh_atD(2) [OF at, of j i] i oi own_queued [of s j] by (auto simp: queued_def)
    then show "cl_pred ?s j = cl_pred s j \<and> cl_node ?s j = cl_node s j \<and> cl_locked ?s (cl_node s j) = cl_locked s (cl_node s j)" by (simp add: u)
  qed (simp add: u)
  moreover have "cl_node s i \<noteq> f" using clh_atD(3) [OF at i(1)] oi by simp
  ultimately show ?thesis using at q own by (auto simp: clh_at_def u)
qed

lemma clh_swap:
  assumes at: "clh_at n f q s" and i: "i < n" "cl_pc s i = C_Swap"
  shows "clh_at n f (q @ [i]) (Clh_step i s)"
proof -
  let ?s = "Clh_step i s"
  have u: "cl_tail ?s = cl_node s i" "cl_locked ?s = cl_locked s" "cl_node ?s = cl_node s" "cl_pred ?s = (cl_pred s)(i := Some (cl_tail s))"
    "cl_pc ?s = (cl_pc s)(i := C_Spin)"
    using i by (simp_all add: Clh_step_def Clh_goto_def)
  have nin: "i \<notin> set q" using i clh_atD(1) [OF at] by (auto simp: queue_of_def queued_def)
  have q: "queue_of n (q @ [i]) (queued ?s)"
    by (rule queue_of_join [OF clh_atD(1) [OF at] i(1)]) (use i in \<open>auto simp: queued_def u\<close>)
  have own: "own ?s = own s" using i by (auto simp: own_def u fun_eq_iff)
  have "cl_locked s (cl_node s i)" using at i by (simp add: clh_at_def)
  then have "chain ?s f (q @ [i])"
    by (intro chain_append [OF clh_atD(5) [OF at]]) (use nin in \<open>auto simp: u\<close>)
  then show ?thesis using at q own clh_atD(6) [OF at] by (auto simp: clh_at_def u hd_append)
qed

lemma clh_spin:
  assumes at: "clh_at n f q s" and i: "i < n" "cl_pc s i = C_Spin"
  shows "clh_at n f q (Clh_step i s)"
proof (cases "cl_locked s (the (cl_pred s i))")
  case False
  have "i \<in> set q" using i clh_atD(1) [OF at] by (auto simp: queue_of_def queued_def)
  then have "q \<noteq> [] \<and> hd q = i" using chain_spin [OF clh_atD(5) [OF at]] False by force
  then show ?thesis using clh_move [OF at, of C_Hold i] i False by (simp add: Clh_step_def queued_def)
qed (use at i in \<open>simp add: Clh_step_def\<close>)

lemma clh_clear:
  assumes at: "clh_at n f q s" and i: "i < n" "cl_pc s i = C_Clear"
  shows "clh_at n (cl_node s i) (tl q) (Clh_step i s)"
proof -
  let ?s = "Clh_step i s"
  have u: "cl_tail ?s = cl_tail s" "cl_locked ?s = (cl_locked s)(cl_node s i := False)" "cl_node ?s = cl_node s" "cl_pred ?s = cl_pred s"
    "cl_pc ?s = (cl_pc s)(i := C_Adopt)"
    using i by (simp_all add: Clh_step_def Clh_goto_def)
  obtain r where r: "q = i # r" using clh_atD(6) [OF at, of i] i by (cases q) auto
  have pred: "cl_pred s i = Some f" and ch: "chain s (cl_node s i) r" using clh_atD(5) [OF at] r by auto
  have oi: "own s i = cl_node s i" using i by (simp add: own_def)
  have own: "own ?s = (own s)(i := f)" using pred by (auto simp: own_def u fun_eq_iff)
  have only: "cl_pc s j \<notin> {C_Hold, C_Clear}" if "j \<noteq> i" for j using clh_atD(6) [OF at, of j] r that by auto
  have q: "queue_of n r (queued ?s)"
    by (rule queue_of_leave [of n i r "queued s"]) (use i clh_atD(1) [OF at] r in \<open>auto simp: queued_def u\<close>)
  have nodes: "cl_node s j \<noteq> cl_node s i" if "j < n" "j \<noteq> i" "cl_pc s j \<noteq> C_Adopt" for j
    using clh_atD(2) [OF at, of j i] that i oi by (auto simp: own_def)
  have "chain ?s (cl_node s i) r = chain s (cl_node s i) r"
  proof (rule chain_cong)
    fix j assume "j \<in> set r"
    then have "j < n" "j \<noteq> i" "queued s j" using clh_atD(1) [OF at] r by (auto simp: queue_of_def)
    then show "cl_pred ?s j = cl_pred s j \<and> cl_node ?s j = cl_node s j \<and> cl_locked ?s (cl_node s j) = cl_locked s (cl_node s j)"
      using nodes [of j] by (auto simp: u queued_def)
  qed (simp add: u)
  moreover have "inj_on (own ?s) {..<n}"
    using at unfolding own clh_at_def by (intro inj_on_fun_updI) auto
  moreover have "own ?s j \<noteq> cl_node s i" if "j < n" for j
  proof -
    have "own s j \<noteq> own s i" if "j \<noteq> i" using clh_atD(2) [OF at \<open>j < n\<close> i(1)] that by blast
    then show ?thesis using clh_atD(3) [OF at i(1)] unfolding own oi by (cases "j = i") auto
  qed
  then have "cl_node s i \<notin> own ?s ` {..<n}" by (metis imageE lessThan_iff)
  ultimately show ?thesis
  proof (intro clh_atI)
    show "cl_locked ?s (cl_node ?s j)" if "j < n" "cl_pc ?s j = C_Swap" for j
      using at that nodes [of j] by (auto simp: clh_at_def u split: if_splits)
    show "tl q \<noteq> [] \<and> hd (tl q) = j" if "cl_pc ?s j \<in> {C_Hold, C_Clear}" for j
      using that only [of j] by (auto simp: u split: if_splits)
    show "cl_pred ?s j \<noteq> None" if "cl_pc ?s j = C_Adopt" for j
      using at that pred by (auto simp: clh_at_def u split: if_splits)
  qed (use q ch r in \<open>auto simp: u\<close>)
qed

lemma clh_adopt:
  assumes at: "clh_at n f q s" and i: "i < n" "cl_pc s i = C_Adopt"
  shows "clh_at n f q (Clh_step i s)"
proof -
  let ?s = "Clh_step i s"
  have u: "cl_tail ?s = cl_tail s" "cl_locked ?s = cl_locked s" "cl_node ?s = (cl_node s)(i := the (cl_pred s i))" "cl_pred ?s = cl_pred s"
    "cl_pc ?s = (cl_pc s)(i := C_Out)"
    using i by (simp_all add: Clh_step_def Clh_goto_def)
  have own: "own ?s = own s" using i by (auto simp: own_def u fun_eq_iff)
  have q: "queue_of n q (queued ?s)"
    by (rule queue_of_move [OF clh_atD(1) [OF at]]) (use i in \<open>auto simp: queued_def u\<close>)
  have "i \<notin> set q" using i clh_atD(1) [OF at] by (auto simp: queue_of_def queued_def)
  then have "chain ?s f q = chain s f q" by (intro chain_cong) (auto simp: u)
  then show ?thesis using at q own by (auto simp: clh_at_def u)
qed

lemma clh_inv:
  assumes n: "n \<le> 37 * 8"
  shows "lock_invariant Clh_ops n (\<lambda>s. \<exists>q. clh_queue n q s)"
proof
  have "clh_at n (37 * 8) [] Clh_new"
    using n by (intro clh_atI) (auto simp: Clh_new_def queue_of_def queued_def own_def inj_on_def)
  then show "\<exists>q. clh_queue n q (lo_new Clh_ops)" by (auto simp: Clh_ops_def clh_queue_def)
next
  fix s i assume i: "i < n" and "\<exists>q. clh_queue n q s"
  then obtain q f where at: "clh_at n f q s" by (auto simp: clh_queue_def)
  note move = clh_move [OF at, of _ i]
  show "\<exists>q. clh_queue n q (lo_Lock Clh_ops i s)" if "lo_phase Clh_ops s i = Outside"
    using that move [of C_Mark] by (cases "cl_pc s i") (auto simp: Clh_ops_def clh_queue_def queued_def)
  show "\<exists>q. clh_queue n q (lo_Unlock Clh_ops i s)" if "lo_phase Clh_ops s i = Holding"
    using that move [of C_Clear] clh_atD(6) [OF at, of i] by (cases "cl_pc s i") (auto simp: Clh_ops_def clh_queue_def queued_def)
  show "\<exists>q. clh_queue n q (lo_step Clh_ops i s)" if ph: "lo_phase Clh_ops s i \<in> {Locking, Trying, Unlocking}"
    using clh_mark [OF at i] clh_swap [OF at i] clh_spin [OF at i] clh_clear [OF at i] clh_adopt [OF at i] ph
    by (cases "cl_pc s i") (auto simp: Clh_ops_def clh_queue_def)
qed (simp add: Clh_ops_def)

lemma clh_moves:
  assumes at: "clh_at n f q s" and q: "q \<noteq> []"
  shows "can_move Clh_ops s (hd q)"
proof -
  have "queued s (hd q)" "cl_pred s (hd q) = Some f" using clh_atD(1,5) [OF at] q by (cases q; auto simp: queue_of_def)+
  then show ?thesis using clh_atD(4) [OF at]
    by (cases "cl_pc s (hd q)") (auto simp: queued_def Clh_ops_def Clh_step_def Clh_goto_def
      intro: can_move_holding can_move_step [where f = "\<lambda>s. cl_pc s (hd q)"])
qed

lemma clh_lock:
  assumes n: "n \<le> 37 * 8"
  shows "queue_lock Clh_ops n (clh_queue n)"
proof
  show "\<exists>q. clh_queue n q s" if "lock_reach Clh_ops n s" for s
    using lock_invariant.reach_inv [OF clh_inv [OF n] that] .
  fix q s assume "clh_queue n q s"
  then obtain f where at: "clh_at n f q s" by (auto simp: clh_queue_def)
  note q = clh_atD(1) [OF at]
  show "distinct q" "\<And>i. i \<in> set q \<Longrightarrow> i < n" using q by (auto simp: queue_of_def)
  have first: "q \<noteq> [] \<and> hd q = i" if "clh_phase (cl_pc s i) = Holding" for i
    using clh_atD(6) [OF at, of i] that by (cases "cl_pc s i") auto
  then show "q \<noteq> [] \<and> hd q = i" if "lo_phase Clh_ops s i = Holding" for i
    using that by (simp add: Clh_ops_def)
  show "\<exists>j < n. can_move Clh_ops s j" if "q \<noteq> []"
    using clh_moves [OF at that] q that by (auto simp: queue_of_def intro!: exI [of _ "hd q"])
  show "can_move Clh_ops s i" if "lo_phase Clh_ops s i \<noteq> Outside" "i \<notin> set q" for i
  proof -
    have "\<not> queued s i" using q that by (simp add: queue_of_def)
    then show ?thesis using that by (cases "cl_pc s i") (auto simp: queued_def Clh_ops_def Clh_step_def Clh_goto_def
      intro: can_move_step [where f = "\<lambda>s. cl_pc s i"])
  qed
  show "lo_phase Clh_ops s j = Locking" if "q = i # j # r" for i j r
  proof -
    have "j \<noteq> i" "queued s j" using q that by (auto simp: queue_of_def)
    then show ?thesis using clh_atD(6) [OF at, of j] that by (cases "cl_pc s j") (auto simp: Clh_ops_def queued_def)
  qed
  show "lo_IsNoOneWaiting Clh_ops i s" if "q = [i]" for i
    using clh_atD(5) [OF at] that by (simp add: Clh_ops_def Clh_IsNoOneWaiting_def)
qed (auto simp: Clh_ops_def Clh_new_def Clh_goto_def Clh_step_def intro!: ext split: clh_loc.splits if_splits)

interpretation clh: queue_lock Clh_ops "37 * 8" "clh_queue (37 * 8)"
  by (rule clh_lock) simp

end
