(* ===== verification/Mcs_Lock.thy ===== *)
theory Mcs_Lock
  imports Lock_Interface
begin

text \<open>
  \<open>McsSpinLock\<close> of \<open>membench/spinlock.h\<close>: a queue of nodes, one for each processor, in which every processor spins on its own node until its
  predecessor wakes it. A node has the number of its processor.
\<close>

text \<open>\<open>M_\<close> locations lie in \<open>Lock\<close> and \<open>Unlock\<close>, \<open>MT_\<close> in \<open>TryLock\<close>; a number is the local \<open>pred\<close> or the node that \<open>qnode->_next\<close> gave.\<close>

datatype mcs_loc = M_Out | M_Clear | M_Swap | M_Mark nat | M_Link nat | M_Spin | M_Hold
  | M_Test | M_Cas | M_Wait | M_Next | M_Wake nat | MT_Clear | MT_Cas

record McsSpinLock =
  mc_tail :: "nat option"
  mc_next :: "nat \<Rightarrow> nat option"
  mc_spin :: "nat \<Rightarrow> bool"
  mc_pc :: "nat \<Rightarrow> mcs_loc"

definition Mcs_new :: McsSpinLock where
  "Mcs_new = \<lparr> mc_tail = None, mc_next = (\<lambda>_. None), mc_spin = (\<lambda>_. False), mc_pc = (\<lambda>_. M_Out) \<rparr>"

definition Mcs_goto :: "nat \<Rightarrow> mcs_loc \<Rightarrow> McsSpinLock \<Rightarrow> McsSpinLock" where
  "Mcs_goto i l s = s \<lparr> mc_pc := (mc_pc s)(i := l) \<rparr>"

text \<open>The next access of a processor to the shared fields\<close>

definition Mcs_access :: "nat \<Rightarrow> McsSpinLock \<Rightarrow> McsSpinLock" where
  "Mcs_access i s = (case mc_pc s i of
       M_Clear \<Rightarrow> Mcs_goto i M_Swap (s \<lparr> mc_next := (mc_next s)(i := None) \<rparr>)
     | M_Swap \<Rightarrow> (case mc_tail s of
           None \<Rightarrow> Mcs_goto i M_Hold (s \<lparr> mc_tail := Some i \<rparr>)
         | Some p \<Rightarrow> Mcs_goto i (M_Mark p) (s \<lparr> mc_tail := Some i \<rparr>))
     | M_Mark p \<Rightarrow> Mcs_goto i (M_Link p) (s \<lparr> mc_spin := (mc_spin s)(i := True) \<rparr>)
     | M_Link p \<Rightarrow> Mcs_goto i M_Spin (s \<lparr> mc_next := (mc_next s)(p := Some i) \<rparr>)
     | M_Spin \<Rightarrow> if mc_spin s i then s else Mcs_goto i M_Hold s
     | M_Test \<Rightarrow> if mc_next s i = None then Mcs_goto i M_Cas s else Mcs_goto i M_Next s
     | M_Cas \<Rightarrow> if mc_tail s = Some i then Mcs_goto i M_Out (s \<lparr> mc_tail := None \<rparr>) else Mcs_goto i M_Wait s
     | M_Wait \<Rightarrow> if mc_next s i = None then s else Mcs_goto i M_Next s
     | M_Next \<Rightarrow> Mcs_goto i (M_Wake (the (mc_next s i))) s
     | M_Wake j \<Rightarrow> Mcs_goto i M_Out (s \<lparr> mc_spin := (mc_spin s)(j := False) \<rparr>)
     | MT_Clear \<Rightarrow> Mcs_goto i MT_Cas (s \<lparr> mc_next := (mc_next s)(i := None) \<rparr>)
     | MT_Cas \<Rightarrow> if mc_tail s = None then Mcs_goto i M_Hold (s \<lparr> mc_tail := Some i \<rparr>) else Mcs_goto i M_Out s
     | _ \<Rightarrow> s)"

text \<open>The array \<open>_node\<close> has \<open>37 * 8\<close> nodes. What a processor does that has no node is not defined; it is stuck here.\<close>

definition Mcs_step :: "nat \<Rightarrow> McsSpinLock \<Rightarrow> McsSpinLock" where
  "Mcs_step i s = (if i < 37 * 8 then Mcs_access i s else s)"

definition Mcs_IsNoOneWaiting :: "nat \<Rightarrow> McsSpinLock \<Rightarrow> bool" where
  "Mcs_IsNoOneWaiting i s \<longleftrightarrow> mc_next s i = None"

fun mcs_phase :: "mcs_loc \<Rightarrow> phase" where
  "mcs_phase M_Out = Outside" | "mcs_phase M_Clear = Locking" | "mcs_phase M_Swap = Locking" | "mcs_phase (M_Mark p) = Locking"
| "mcs_phase (M_Link p) = Locking" | "mcs_phase M_Spin = Locking" | "mcs_phase M_Hold = Holding" | "mcs_phase M_Test = Unlocking"
| "mcs_phase M_Cas = Unlocking" | "mcs_phase M_Wait = Unlocking" | "mcs_phase M_Next = Unlocking" | "mcs_phase (M_Wake j) = Unlocking"
| "mcs_phase MT_Clear = Trying" | "mcs_phase MT_Cas = Trying"

definition Mcs_ops :: "McsSpinLock SpinLockOps" where
  "Mcs_ops = \<lparr> lo_new = Mcs_new, lo_Lock = (\<lambda>i. Mcs_goto i M_Clear), lo_TryLock = Some (\<lambda>i. Mcs_goto i MT_Clear),
     lo_Unlock = (\<lambda>i. Mcs_goto i M_Test), lo_step = Mcs_step, lo_phase = (\<lambda>s i. mcs_phase (mc_pc s i)), lo_IsNoOneWaiting = Mcs_IsNoOneWaiting \<rparr>"

section \<open>The queue\<close>

fun in_queue :: "mcs_loc \<Rightarrow> bool" where
  "in_queue M_Out = False" | "in_queue M_Clear = False" | "in_queue M_Swap = False" | "in_queue MT_Clear = False" | "in_queue MT_Cas = False"
| "in_queue _ = True"

text \<open>The first one of the queue holds the lock or has been woken; every other one spins, or has yet to link itself to the one before it.\<close>

fun head_ok :: "McsSpinLock \<Rightarrow> nat \<Rightarrow> nat list \<Rightarrow> mcs_loc \<Rightarrow> bool" where
  "head_ok s i r M_Spin \<longleftrightarrow> \<not> mc_spin s i" | "head_ok s i r M_Hold \<longleftrightarrow> True" | "head_ok s i r M_Test \<longleftrightarrow> True" | "head_ok s i r M_Cas \<longleftrightarrow> True"
| "head_ok s i r M_Wait \<longleftrightarrow> r \<noteq> []" | "head_ok s i r M_Next \<longleftrightarrow> mc_next s i \<noteq> None" | "head_ok s i r (M_Wake j) \<longleftrightarrow> mc_next s i = Some j"
| "head_ok s i r _ \<longleftrightarrow> False"

fun linked :: "McsSpinLock \<Rightarrow> nat \<Rightarrow> nat \<Rightarrow> mcs_loc \<Rightarrow> bool" where
  "linked s i j (M_Mark p) \<longleftrightarrow> p = i \<and> mc_next s i = None" | "linked s i j (M_Link p) \<longleftrightarrow> p = i \<and> mc_next s i = None \<and> mc_spin s j"
| "linked s i j M_Spin \<longleftrightarrow> mc_next s i = Some j \<and> mc_spin s j" | "linked s i j _ \<longleftrightarrow> False"

fun links :: "McsSpinLock \<Rightarrow> nat \<Rightarrow> nat list \<Rightarrow> bool" where
  "links s i [] \<longleftrightarrow> mc_next s i = None \<and> mc_tail s = Some i"
| "links s i (j # r) \<longleftrightarrow> linked s i j (mc_pc s j) \<and> links s j r"

definition mcs_queue :: "nat \<Rightarrow> nat list \<Rightarrow> McsSpinLock \<Rightarrow> bool" where
  "mcs_queue n q s \<longleftrightarrow> queue_of n q (\<lambda>i. in_queue (mc_pc s i)) \<and>
     (case q of [] \<Rightarrow> mc_tail s = None | i # r \<Rightarrow> head_ok s i r (mc_pc s i) \<and> links s i r) \<and>
     (\<forall>i. mc_pc s i \<in> {M_Swap, MT_Cas} \<longrightarrow> mc_next s i = None)"

lemma linked_cong: "mc_next s' i = mc_next s i \<Longrightarrow> mc_spin s' j = mc_spin s j \<Longrightarrow> linked s' i j l = linked s i j l"
  by (cases l) auto

lemma mcs_links_cong:
  "mc_next s' i = mc_next s i \<Longrightarrow> mc_tail s' = mc_tail s \<Longrightarrow>
   (\<And>j. j \<in> set r \<Longrightarrow> mc_next s' j = mc_next s j \<and> mc_spin s' j = mc_spin s j \<and> mc_pc s' j = mc_pc s j) \<Longrightarrow> links s' i r = links s i r"
proof (induction r arbitrary: i)
  case (Cons k r)
  then show ?case using linked_cong [of s' i s k "mc_pc s k"] by simp
qed simp

lemma links_last: "links s i r \<Longrightarrow> mc_tail s = Some (last (i # r))"
  by (induction r arbitrary: i) auto

lemma links_waiting: "links s i r \<Longrightarrow> j \<in> set r \<Longrightarrow> mc_pc s j = M_Spin \<and> mc_spin s j \<or> (\<exists>p. mc_pc s j \<in> {M_Mark p, M_Link p})"
proof (induction r arbitrary: i)
  case (Cons k r)
  then show ?case by (cases "mc_pc s k") auto
qed simp

text \<open>A waiting processor that only moves on itself: \<open>M_Mark\<close> to \<open>M_Link\<close>, \<open>M_Link\<close> to \<open>M_Spin\<close>\<close>

lemma mcs_link_frame:
  assumes "mc_pc s j \<in> {M_Mark p, M_Link p}"
  shows "mc_tail (Mcs_access j s) = mc_tail s" "k \<noteq> p \<Longrightarrow> mc_next (Mcs_access j s) k = mc_next s k"
    "k \<noteq> j \<Longrightarrow> mc_spin (Mcs_access j s) k = mc_spin s k" "k \<noteq> j \<Longrightarrow> mc_pc (Mcs_access j s) k = mc_pc s k"
  using assms by (auto simp: Mcs_access_def Mcs_goto_def)

lemma mcs_link_own: "mc_pc s j \<in> {M_Mark p, M_Link p} \<Longrightarrow> linked s i j (mc_pc s j) \<Longrightarrow> p = i \<and> mc_next s i = None \<and> linked (Mcs_access j s) i j (mc_pc (Mcs_access j s) j)"
  by (auto simp: Mcs_access_def Mcs_goto_def)

lemma links_step:
  assumes "links s i r" "distinct (i # r)" "j \<in> set r" "mc_pc s j \<in> {M_Mark p, M_Link p}"
  shows "links (Mcs_access j s) i r \<and> p \<in> set (i # r) \<and> mc_next s p = None"
  using assms
proof (induction r arbitrary: i)
  case (Cons k r)
  note frame = mcs_link_frame [OF Cons.prems(4)]
  show ?case
  proof (cases "k = j")
    case True
    have p: "p = i" "mc_next s i = None" "linked (Mcs_access j s) i j (mc_pc (Mcs_access j s) j)"
      using mcs_link_own [OF Cons.prems(4), of i] Cons.prems(1) True by auto
    have ne: "x \<noteq> j \<and> x \<noteq> i" if "x \<in> set r" for x using Cons.prems(2) True that by auto
    have "i \<noteq> j" using Cons.prems(2) True by auto
    then have "links (Mcs_access j s) j r = links s j r"
      using ne p(1) by (intro mcs_links_cong) (simp_all add: frame)
    then show ?thesis using Cons.prems(1) True p by simp
  next
    case False
    then have ih: "links (Mcs_access j s) k r \<and> p \<in> set (k # r) \<and> mc_next s p = None" using Cons by auto
    then have "p \<noteq> i" using Cons.prems by auto
    then have "linked (Mcs_access j s) i k (mc_pc s k) = linked s i k (mc_pc s k)" using False frame
      by (intro linked_cong) auto
    then show ?thesis using ih Cons.prems(1) False frame(4) [of k] by auto
  qed
qed simp

lemma mcs_swap_frame:
  assumes "mc_pc s j = M_Swap" "mc_tail s = Some p"
  shows "mc_tail (Mcs_access j s) = Some j" "mc_next (Mcs_access j s) = mc_next s" "mc_spin (Mcs_access j s) = mc_spin s"
    "mc_pc (Mcs_access j s) = (mc_pc s)(j := M_Mark p)"
  using assms by (simp_all add: Mcs_access_def Mcs_goto_def)

lemma links_join:
  assumes "links s i r" "distinct (i # r @ [j])" "mc_next s j = None" "mc_pc s j = M_Swap" "mc_tail s = Some p"
  shows "links (Mcs_access j s) i (r @ [j])"
  using assms
proof (induction r arbitrary: i)
  case Nil
  then show ?case using mcs_swap_frame [OF Nil.prems(4,5)] by auto
next
  case (Cons k r)
  note frame = mcs_swap_frame [OF Cons.prems(4,5)]
  have "links (Mcs_access j s) k (r @ [j])" using Cons by simp
  moreover have "linked (Mcs_access j s) i k (mc_pc s k) = linked s i k (mc_pc s k)" using frame by (intro linked_cong) auto
  moreover have "mc_pc (Mcs_access j s) k = mc_pc s k" using Cons.prems(2) frame(4) by auto
  ultimately show ?case using Cons.prems(1) by simp
qed

lemma mcs_queueD:
  assumes "mcs_queue n q s"
  shows "queue_of n q (\<lambda>i. in_queue (mc_pc s i))" "mc_pc s i \<in> {M_Swap, MT_Cas} \<Longrightarrow> mc_next s i = None"
    "q = [] \<Longrightarrow> mc_tail s = None" "q = i # r \<Longrightarrow> head_ok s i r (mc_pc s i) \<and> links s i r"
  using assms by (auto simp: mcs_queue_def)

text \<open>Who has the lock or is releasing it is the first one of the queue.\<close>

lemma mcs_first:
  assumes q: "mcs_queue n q s" and i: "in_queue (mc_pc s i)" "mc_pc s i \<noteq> M_Spin \<or> \<not> mc_spin s i" "\<And>p. mc_pc s i \<notin> {M_Mark p, M_Link p}"
  shows "\<exists>r. q = i # r"
proof -
  have "i \<in> set q" using mcs_queueD(1) [OF q] i(1) by (simp add: queue_of_def)
  then obtain j r where jr: "q = j # r" by (cases q) auto
  have "i \<notin> set r" using links_waiting [of s j r i] mcs_queueD(4) [OF q jr] i(2,3) by metis
  then show ?thesis using \<open>i \<in> set q\<close> jr by auto
qed

text \<open>A move of a processor outside the queue that stays outside, or of the first one that stays first\<close>

lemma mcs_move_out:
  assumes q: "mcs_queue n q s" and l: "\<not> in_queue (mc_pc s i)" "\<not> in_queue l" "l \<in> {M_Swap, MT_Cas} \<Longrightarrow> nx i = None"
    and nx: "\<And>j. j \<noteq> i \<Longrightarrow> nx j = mc_next s j"
  shows "mcs_queue n q (Mcs_goto i l (s \<lparr> mc_next := nx \<rparr>))"
proof -
  let ?s = "Mcs_goto i l (s \<lparr> mc_next := nx \<rparr>)"
  have nin: "j \<noteq> i" if "j \<in> set q" for j using that mcs_queueD(1) [OF q] l(1) by (auto simp: queue_of_def)
  have f: "mc_tail ?s = mc_tail s" "mc_spin ?s = mc_spin s" "j \<noteq> i \<Longrightarrow> mc_next ?s j = mc_next s j" "j \<noteq> i \<Longrightarrow> mc_pc ?s j = mc_pc s j"
    "mc_next ?s i = nx i" "mc_pc ?s i = l" for j
    using nx by (simp_all add: Mcs_goto_def)
  have qo: "queue_of n q (\<lambda>j. in_queue (mc_pc ?s j))"
    by (rule queue_of_move [OF mcs_queueD(1) [OF q]]) (use l in \<open>simp add: Mcs_goto_def\<close>)
  have "head_ok ?s j r (mc_pc ?s j) \<and> links ?s j r" if jr: "q = j # r" for j r
  proof -
    have j: "j \<noteq> i" "x \<in> set r \<Longrightarrow> x \<noteq> i" for x using nin jr by auto
    then have "links ?s j r = links s j r" by (intro mcs_links_cong) (simp_all add: f)
    moreover have "head_ok ?s j r l' = head_ok s j r l'" for l' using j(1) by (cases l') (simp_all add: f)
    ultimately show ?thesis using mcs_queueD(4) [OF q jr] j(1) by (simp add: f)
  qed
  then show ?thesis using qo mcs_queueD(2,3) [OF q] l(3) f unfolding mcs_queue_def by (cases q) (auto split: if_splits simp: Mcs_goto_def nx)
qed

lemma mcs_move_head:
  assumes q: "mcs_queue n (i # r) s" and l: "in_queue l" "head_ok s i r l"
  shows "mcs_queue n (i # r) (Mcs_goto i l s)"
proof -
  let ?s = "Mcs_goto i l s"
  have nin: "i \<notin> set r" and i: "in_queue (mc_pc s i)" using mcs_queueD(1) [OF q] by (auto simp: queue_of_def)
  have qo: "queue_of n (i # r) (\<lambda>j. in_queue (mc_pc ?s j))"
    by (rule queue_of_move [OF mcs_queueD(1) [OF q]]) (use l i in \<open>simp add: Mcs_goto_def\<close>)
  have "links ?s i r = links s i r" using nin by (intro mcs_links_cong) (auto simp: Mcs_goto_def)
  moreover have "head_ok ?s i r l' = head_ok s i r l'" for l' by (cases l') (simp_all add: Mcs_goto_def)
  ultimately show ?thesis using qo q l unfolding mcs_queue_def by (auto simp: Mcs_goto_def)
qed

lemma mcs_swap_empty:
  assumes q: "mcs_queue n [] s" and i: "i < n" "mc_pc s i \<in> {M_Swap, MT_Cas}"
  shows "mcs_queue n [i] (Mcs_access i s)"
proof -
  let ?s = "Mcs_access i s"
  have t: "mc_tail s = None" "mc_next s i = None" using mcs_queueD [OF q] i(2) by auto
  then have f: "mc_tail ?s = Some i" "mc_next ?s = mc_next s" "mc_pc ?s = (mc_pc s)(i := M_Hold)"
    using i(2) by (auto simp: Mcs_access_def Mcs_goto_def)
  have "queue_of n ([] @ [i]) (\<lambda>j. in_queue (mc_pc ?s j))"
    by (rule queue_of_join [OF mcs_queueD(1) [OF q] i(1)]) (use i(2) in \<open>auto simp: f\<close>)
  then show ?thesis using t mcs_queueD(2) [OF q] by (auto simp: mcs_queue_def f)
qed

lemma mcs_swap_join:
  assumes q: "mcs_queue n (h # r) s" and i: "i < n" "mc_pc s i = M_Swap"
  shows "mcs_queue n (h # r @ [i]) (Mcs_access i s)"
proof -
  let ?s = "Mcs_access i s"
  have hr: "head_ok s h r (mc_pc s h)" "links s h r" and nx: "mc_next s i = None" using mcs_queueD [OF q] i(2) by auto
  obtain p where p: "mc_tail s = Some p" using links_last [OF hr(2)] by blast
  note f = mcs_swap_frame [OF i(2) p]
  have nin: "i \<notin> set (h # r)" and dist: "distinct (h # r)" using mcs_queueD(1) [OF q] i(2) by (auto simp: queue_of_def)
  have "queue_of n ((h # r) @ [i]) (\<lambda>j. in_queue (mc_pc ?s j))"
    by (rule queue_of_join [OF mcs_queueD(1) [OF q] i(1)]) (use i(2) in \<open>auto simp: f\<close>)
  moreover have "links ?s h (r @ [i])" using links_join [OF hr(2) _ nx i(2) p] nin dist by auto
  moreover have "head_ok ?s h (r @ [i]) (mc_pc s h)" using hr(1) by (cases "mc_pc s h") (auto simp: f)
  ultimately show ?thesis using mcs_queueD(2) [OF q] nin by (auto simp: mcs_queue_def f)
qed

lemma mcs_link:
  assumes q: "mcs_queue n q s" and i: "mc_pc s i \<in> {M_Mark p, M_Link p}"
  shows "mcs_queue n q (Mcs_access i s)"
proof -
  let ?s = "Mcs_access i s"
  note f = mcs_link_frame [OF i]
  have iq: "i \<in> set q" using mcs_queueD(1) [OF q] i by (auto simp: queue_of_def)
  then obtain h r where hr: "q = h # r" by (cases q) auto
  note hd = mcs_queueD(4) [OF q hr]
  have ih: "i \<noteq> h" using hd i by auto
  have dist: "distinct (h # r)" using mcs_queueD(1) [OF q] hr by (simp add: queue_of_def)
  have ls: "links ?s h r" "p \<in> set (h # r)" "mc_next s p = None"
    using links_step [of s h r i p] hd dist iq ih hr i by auto
  have "head_ok ?s h r (mc_pc s h)" using hd ls(3) f(2) [of h] f(3) [of h] ih
    by (cases "h = p"; cases "mc_pc s h") auto
  then have "head_ok ?s h r (mc_pc ?s h)" using f(4) [of h] ih by simp
  moreover have pc: "in_queue (mc_pc ?s j) = in_queue (mc_pc s j)" for j using i f(4) [of j] by (cases "j = i") (auto simp: Mcs_access_def Mcs_goto_def)
  moreover have "mc_next ?s j = None" if "mc_pc ?s j \<in> {M_Swap, MT_Cas}" for j
  proof -
    have "j \<noteq> i" using that i by (auto simp: Mcs_access_def Mcs_goto_def)
    then have j: "mc_pc s j \<in> {M_Swap, MT_Cas}" using that f(4) by simp
    then have "j \<notin> set (h # r)" using mcs_queueD(1) [OF q] hr by (auto simp: queue_of_def)
    then have "j \<noteq> p" using ls(2) by auto
    then show ?thesis using mcs_queueD(2) [OF q j] f(2) by simp
  qed
  ultimately show ?thesis using mcs_queueD(1) [OF q] ls(1) by (simp add: mcs_queue_def hr)
qed

lemma mcs_leave_alone:
  assumes q: "mcs_queue n q s" and i: "mc_pc s i = M_Cas" "mc_tail s = Some i"
  shows "mcs_queue n [] (Mcs_access i s)"
proof -
  let ?s = "Mcs_access i s"
  obtain r where r: "q = i # r" using mcs_first [OF q, of i] i by auto
  have "last (i # r) = i" using links_last [of s i r] mcs_queueD(4) [OF q r] i(2) by simp
  then have "r = []" using mcs_queueD(1) [OF q] r by (auto simp: queue_of_def split: if_splits dest: last_in_set)
  have "queue_of n [] (\<lambda>j. in_queue (mc_pc ?s j))"
    by (rule queue_of_leave [of n i "[]" "\<lambda>j. in_queue (mc_pc s j)"])
      (use mcs_queueD(1) [OF q] r \<open>r = []\<close> i in \<open>auto simp: Mcs_access_def Mcs_goto_def\<close>)
  then show ?thesis using mcs_queueD(2) [OF q] i by (auto simp: mcs_queue_def Mcs_access_def Mcs_goto_def split: if_splits)
qed

lemma mcs_wake:
  assumes q: "mcs_queue n q s" and i: "mc_pc s i = M_Wake j"
  shows "mcs_queue n (tl q) (Mcs_access i s)"
proof -
  let ?s = "Mcs_access i s"
  have f: "mc_tail ?s = mc_tail s" "mc_next ?s = mc_next s" "mc_spin ?s = (mc_spin s)(j := False)" "mc_pc ?s = (mc_pc s)(i := M_Out)"
    using i by (simp_all add: Mcs_access_def Mcs_goto_def)
  obtain r where r: "q = i # r" using mcs_first [OF q, of i] i by auto
  have h: "mc_next s i = Some j" "links s i r" using mcs_queueD(4) [OF q r] i by auto
  then obtain k r' where k: "r = k # r'" by (cases r) auto
  have l: "linked s i k (mc_pc s k)" "links s k r'" using h(2) k by auto
  then have kj: "k = j" "mc_pc s j = M_Spin" using h(1) by (cases "mc_pc s k"; auto)+
  have dist: "distinct (i # j # r')" using mcs_queueD(1) [OF q] r k kj by (simp add: queue_of_def)
  then have ne: "x \<noteq> i \<and> x \<noteq> j" if "x \<in> set r'" for x using that by auto
  then have "links ?s j r' = links s j r'" by (intro mcs_links_cong) (simp_all add: f)
  moreover have "queue_of n r (\<lambda>j. in_queue (mc_pc ?s j))"
    by (rule queue_of_leave [of n i r "\<lambda>j. in_queue (mc_pc s j)"]) (use mcs_queueD(1) [OF q] r i in \<open>auto simp: f\<close>)
  ultimately show ?thesis using l kj dist mcs_queueD(2) [OF q] by (auto simp: mcs_queue_def r k f split: if_splits)
qed

lemma mcs_inv: "lock_invariant Mcs_ops n (\<lambda>s. \<exists>q. mcs_queue n q s)"
proof
  show "\<exists>q. mcs_queue n q (lo_new Mcs_ops)"
    by (rule exI [of _ "[]"]) (simp add: Mcs_ops_def Mcs_new_def mcs_queue_def queue_of_def)
next
  fix s i assume i: "i < n" and "\<exists>q. mcs_queue n q s"
  then obtain q where q: "mcs_queue n q s" by blast
  note out = mcs_move_out [OF q, of i _ "mc_next s"]
  show "\<exists>q. mcs_queue n q (lo_Lock Mcs_ops i s)" if "lo_phase Mcs_ops s i = Outside"
    using out [of M_Clear] that by (cases "mc_pc s i") (auto simp: Mcs_ops_def)
  show "\<exists>q. mcs_queue n q (f i s)" if "lo_phase Mcs_ops s i = Outside" "lo_TryLock Mcs_ops = Some f" for f
    using out [of MT_Clear] that by (cases "mc_pc s i") (auto simp: Mcs_ops_def)
  show "\<exists>q. mcs_queue n q (lo_Unlock Mcs_ops i s)" if "lo_phase Mcs_ops s i = Holding"
  proof -
    have h: "mc_pc s i = M_Hold" using that by (cases "mc_pc s i") (auto simp: Mcs_ops_def)
    then obtain r where "q = i # r" using mcs_first [OF q, of i] by auto
    then show ?thesis using mcs_move_head [of n i r s M_Test] q by (auto simp: Mcs_ops_def)
  qed
  have "\<exists>q. mcs_queue n q (Mcs_access i s)"
  proof (cases "mc_pc s i")
    case M_Clear
    then show ?thesis using mcs_move_out [OF q, of i M_Swap "(mc_next s)(i := None)"] by (auto simp: Mcs_access_def)
  next
    case MT_Clear
    then show ?thesis using mcs_move_out [OF q, of i MT_Cas "(mc_next s)(i := None)"] by (auto simp: Mcs_access_def)
  next
    case M_Swap
    then show ?thesis using mcs_swap_empty [of n s i] mcs_swap_join [of n _ _ s i] q i by (cases q) auto
  next
    case MT_Cas
    then show ?thesis
    proof (cases q)
      case (Cons h r)
      then have "mc_tail s \<noteq> None" using mcs_queueD(4) [OF q Cons] links_last [of s h r] by simp
      then show ?thesis using out [of M_Out] MT_Cas by (auto simp: Mcs_access_def)
    qed (use mcs_swap_empty [of n s i] q i MT_Cas in auto)
  next
    case (M_Mark p)
    then show ?thesis using mcs_link [OF q, of i p] by auto
  next
    case (M_Link p)
    then show ?thesis using mcs_link [OF q, of i p] by auto
  next
    case M_Spin
    show ?thesis
    proof (cases "mc_spin s i")
      case False
      then obtain r where "q = i # r" using mcs_first [OF q, of i] M_Spin by auto
      then show ?thesis using mcs_move_head [of n i r s M_Hold] q M_Spin False by (auto simp: Mcs_access_def)
    qed (use q M_Spin in \<open>auto simp: Mcs_access_def\<close>)
  next
    case M_Cas
    show ?thesis
    proof (cases "mc_tail s = Some i")
      case False
      obtain r where r: "q = i # r" using mcs_first [OF q, of i] M_Cas by auto
      then have "r \<noteq> []" using mcs_queueD(4) [OF q r] False by auto
      then show ?thesis using mcs_move_head [of n i r s M_Wait] q r M_Cas False by (auto simp: Mcs_access_def)
    qed (use mcs_leave_alone [OF q M_Cas] in blast)
  next
    case (M_Wake j)
    then show ?thesis using mcs_wake [OF q] by blast
  next
    case M_Test
    then obtain r where r: "q = i # r" using mcs_first [OF q, of i] by auto
    then show ?thesis using mcs_move_head [of n i r s M_Cas] mcs_move_head [of n i r s M_Next] q M_Test by (auto simp: Mcs_access_def)
  next
    case M_Wait
    then obtain r where r: "q = i # r" using mcs_first [OF q, of i] by auto
    then show ?thesis using mcs_move_head [of n i r s M_Next] q M_Wait by (auto simp: Mcs_access_def)
  next
    case M_Next
    then obtain r where r: "q = i # r" using mcs_first [OF q, of i] by auto
    then show ?thesis using mcs_move_head [of n i r s "M_Wake (the (mc_next s i))"] mcs_queueD(4) [OF q r] q M_Next by (auto simp: Mcs_access_def)
  qed (use q in \<open>auto simp: Mcs_access_def\<close>)
  then show "\<exists>q. mcs_queue n q (lo_step Mcs_ops i s)" using q by (auto simp: Mcs_ops_def Mcs_step_def)
qed

text \<open>The first one can move, unless it waits for the second one to link itself, which then can move.\<close>

lemma mcs_moves:
  assumes q: "mcs_queue n (h # r) s" and n: "n \<le> 37 * 8"
  shows "\<exists>j < n. can_move Mcs_ops s j"
proof -
  have mem: "\<And>j. j \<in> set (h # r) \<Longrightarrow> j < n \<and> j < 37 * 8" using mcs_queueD(1) [OF q] n unfolding queue_of_def by (meson order_less_le_trans)
  note hd = mcs_queueD(4) [OF q refl]
  show ?thesis
  proof (cases "mc_pc s h = M_Wait \<and> mc_next s h = None")
    case True
    then obtain j r' where r: "r = j # r'" using hd by (cases r) auto
    then have "\<exists>p. mc_pc s j \<in> {M_Mark p, M_Link p}" using hd True by (cases "mc_pc s j") auto
    then have "can_move Mcs_ops s j" using mem [of j] r by (auto simp: Mcs_ops_def Mcs_step_def Mcs_access_def Mcs_goto_def intro!: can_move_step [where f = "\<lambda>s. mc_pc s j"])
    then show ?thesis using mem r by auto
  next
    case False
    have "can_move Mcs_ops s h"
    proof (cases "mc_pc s h = M_Hold")
      case True
      then show ?thesis by (auto simp: Mcs_ops_def intro: can_move_holding)
    next
      case nohold: False
      then show ?thesis using hd False mem [of h] by (cases "mc_pc s h")
        (auto simp: Mcs_ops_def Mcs_step_def Mcs_access_def Mcs_goto_def intro!: can_move_step [where f = "\<lambda>s. mc_pc s h"] split: if_splits)
    qed
    then show ?thesis using mem by auto
  qed
qed

lemma mcs_lock:
  assumes n: "n \<le> 37 * 8"
  shows "queue_lock Mcs_ops n (mcs_queue n)"
proof
  show "\<exists>q. mcs_queue n q s" if "lock_reach Mcs_ops n s" for s
    using lock_invariant.reach_inv [OF mcs_inv that] .
  fix q s assume q: "mcs_queue n q s"
  note qo = mcs_queueD(1) [OF q]
  show "distinct q" "\<And>i. i \<in> set q \<Longrightarrow> i < n" using qo by (auto simp: queue_of_def)
  show "q \<noteq> [] \<and> hd q = i" if "lo_phase Mcs_ops s i = Holding" for i
    using mcs_first [OF q, of i] that by (cases "mc_pc s i") (auto simp: Mcs_ops_def)
  show "\<exists>j < n. can_move Mcs_ops s j" if "q \<noteq> []"
    using mcs_moves [OF _ n] q that by (cases q) auto
  show "can_move Mcs_ops s i" if "i < n" "lo_phase Mcs_ops s i \<noteq> Outside" "i \<notin> set q" for i
  proof -
    have "\<not> in_queue (mc_pc s i)" using qo that by (simp add: queue_of_def)
    then show ?thesis using that n by (cases "mc_pc s i") (auto simp: Mcs_ops_def Mcs_step_def Mcs_access_def Mcs_goto_def
      intro!: can_move_step [where f = "\<lambda>s. mc_pc s i"] split: option.splits if_splits)
  qed
  show "lo_phase Mcs_ops s j = Locking" if "q = i # j # r" for i j r
    using mcs_queueD(4) [OF q that] by (cases "mc_pc s j") (auto simp: Mcs_ops_def)
  show "lo_IsNoOneWaiting Mcs_ops i s" if "q = [i]" for i
    using mcs_queueD(4) [OF q that] by (simp add: Mcs_ops_def Mcs_IsNoOneWaiting_def)
qed (auto simp: Mcs_ops_def Mcs_new_def Mcs_goto_def Mcs_step_def Mcs_access_def intro!: ext split: mcs_loc.splits option.splits if_splits)

interpretation mcs: queue_lock Mcs_ops "37 * 8" "mcs_queue (37 * 8)"
  by (rule mcs_lock) simp

end
