(* ===== verification/Exp_Lock.thy ===== *)
theory Exp_Lock
  imports Bench_Locks Clh_Lock Mcs_Lock
begin

text \<open>
  The two-level locks of \<open>membench/spinlock.h\<close>. \<open>ExpSpinLock10\<close> has one lock for each tile of eight processors and one lock for the tiles;
  a tile that holds the upper lock hands it from one of its processors to the next. The two lock classes are parameters, as in the
  template. \<open>ExpSpinLock11\<close> does the same with tickets.
\<close>

section \<open>ExpSpinLock10\<close>

text \<open>
  \<open>E_\<close> locations lie in \<open>Lock\<close>, \<open>V_\<close> in \<open>Unlock\<close>. In \<open>E_Second\<close>, \<open>V_Sec\<close>, \<open>E_Top\<close> and \<open>V_Top\<close> the processor is inside a member function of the lower or of
  the upper lock, and its steps are the steps of that function.
\<close>

datatype exp_loc = E_Out | E_Second | E_Test | E_Top | E_Set | E_Hold
  | V_Dec | V_Cond | V_CondTop | V_Keep | V_Else | V_Release | V_Top | V_Second | V_Sec

record ('a, 'b) ExpSpinLock10 =
  ex_top :: 'a
  ex_second :: "nat \<Rightarrow> 'b"
  ex_top_locked :: "nat \<Rightarrow> int"
  ex_pc :: "nat \<Rightarrow> exp_loc"

abbreviation tileid :: "nat \<Rightarrow> nat" where
  "tileid apicid \<equiv> apicid div 8"

abbreviation threadid :: "nat \<Rightarrow> nat" where
  "threadid apicid \<equiv> apicid mod 8"

definition Exp10_new :: "'a SpinLockOps \<Rightarrow> 'b SpinLockOps \<Rightarrow> ('a, 'b) ExpSpinLock10" where
  "Exp10_new L1 L2 = \<lparr> ex_top = lo_new L1, ex_second = (\<lambda>_. lo_new L2), ex_top_locked = (\<lambda>_. 0), ex_pc = (\<lambda>_. E_Out) \<rparr>"

definition Exp10_goto :: "nat \<Rightarrow> exp_loc \<Rightarrow> ('a, 'b) ExpSpinLock10 \<Rightarrow> ('a, 'b) ExpSpinLock10" where
  "Exp10_goto i l s = s \<lparr> ex_pc := (ex_pc s)(i := l) \<rparr>"

definition set_second :: "nat \<Rightarrow> 'b \<Rightarrow> ('a, 'b) ExpSpinLock10 \<Rightarrow> ('a, 'b) ExpSpinLock10" where
  "set_second t x s = s \<lparr> ex_second := (ex_second s)(t := x) \<rparr>"

definition set_locked :: "nat \<Rightarrow> int \<Rightarrow> ('a, 'b) ExpSpinLock10 \<Rightarrow> ('a, 'b) ExpSpinLock10" where
  "set_locked t k s = s \<lparr> ex_top_locked := (ex_top_locked s)(t := k) \<rparr>"

definition Exp10_Lock :: "'b SpinLockOps \<Rightarrow> nat \<Rightarrow> ('a, 'b) ExpSpinLock10 \<Rightarrow> ('a, 'b) ExpSpinLock10" where
  "Exp10_Lock L2 i s = Exp10_goto i E_Second (set_second (tileid i) (lo_Lock L2 (threadid i) (ex_second s (tileid i))) s)"

definition Exp10_step :: "'a SpinLockOps \<Rightarrow> 'b SpinLockOps \<Rightarrow> int \<Rightarrow> nat \<Rightarrow> ('a, 'b) ExpSpinLock10 \<Rightarrow> ('a, 'b) ExpSpinLock10" where
  "Exp10_step L1 L2 kMax i s = (let t = tileid i; th = threadid i; second = ex_second s t; cnt = ex_top_locked s t in
     case ex_pc s i of
       E_Second \<Rightarrow> let second' = lo_step L2 th second; s' = set_second t second' s in
         if lo_phase L2 second' th = Holding then Exp10_goto i E_Test s' else s'
     | E_Test \<Rightarrow> if cnt = 0 then Exp10_goto i E_Top (s \<lparr> ex_top := lo_Lock L1 t (ex_top s) \<rparr>) else Exp10_goto i E_Hold s
     | E_Top \<Rightarrow> let top' = lo_step L1 t (ex_top s); s' = s \<lparr> ex_top := top' \<rparr> in
         if lo_phase L1 top' t = Holding then Exp10_goto i E_Set s' else s'
     | E_Set \<Rightarrow> Exp10_goto i E_Hold (set_locked t kMax s)
     | V_Dec \<Rightarrow> Exp10_goto i V_Cond (set_locked t (cnt - 1) s)
     | V_Cond \<Rightarrow> if cnt = 0 then if lo_IsNoOneWaiting L2 th second then Exp10_goto i V_Release s else Exp10_goto i V_CondTop s
         else Exp10_goto i V_Else s
     | V_CondTop \<Rightarrow> if lo_IsNoOneWaiting L1 t (ex_top s) then Exp10_goto i V_Keep s else Exp10_goto i V_Release s
     | V_Keep \<Rightarrow> Exp10_goto i V_Second (set_locked t kMax s)
     | V_Else \<Rightarrow> if lo_IsNoOneWaiting L2 th second then Exp10_goto i V_Release s else Exp10_goto i V_Second s
     | V_Release \<Rightarrow> Exp10_goto i V_Top (set_locked t 0 (s \<lparr> ex_top := lo_Unlock L1 t (ex_top s) \<rparr>))
     | V_Top \<Rightarrow> let top' = lo_step L1 t (ex_top s); s' = s \<lparr> ex_top := top' \<rparr> in
         if lo_phase L1 top' t = Outside then Exp10_goto i V_Second s' else s'
     | V_Second \<Rightarrow> Exp10_goto i V_Sec (set_second t (lo_Unlock L2 th second) s)
     | V_Sec \<Rightarrow> let second' = lo_step L2 th second; s' = set_second t second' s in
         if lo_phase L2 second' th = Outside then Exp10_goto i E_Out s' else s'
     | _ \<Rightarrow> s)"

fun exp_phase :: "exp_loc \<Rightarrow> phase" where
  "exp_phase E_Out = Outside" | "exp_phase E_Second = Locking" | "exp_phase E_Test = Locking" | "exp_phase E_Top = Locking" | "exp_phase E_Set = Locking"
| "exp_phase E_Hold = Holding" | "exp_phase V_Dec = Unlocking" | "exp_phase V_Cond = Unlocking" | "exp_phase V_CondTop = Unlocking"
| "exp_phase V_Keep = Unlocking" | "exp_phase V_Else = Unlocking" | "exp_phase V_Release = Unlocking" | "exp_phase V_Top = Unlocking"
| "exp_phase V_Second = Unlocking" | "exp_phase V_Sec = Unlocking"

lemma exp_phase_hold: "exp_phase l = Holding \<longleftrightarrow> l = E_Hold"
  by (cases l) auto

lemma exp_step_pc:
  "j \<noteq> i \<Longrightarrow> ex_pc (Exp10_step L1 L2 kMax i s) j = ex_pc s j"
  by (cases "ex_pc s i") (simp_all add: Exp10_step_def Let_def Exp10_goto_def set_second_def set_locked_def)

lemma exp_step_phase:
  "exp_phase (ex_pc s i) = Locking \<Longrightarrow> exp_phase (ex_pc (Exp10_step L1 L2 kMax i s) i) \<in> {Locking, Holding}"
  "exp_phase (ex_pc s i) = Unlocking \<Longrightarrow> exp_phase (ex_pc (Exp10_step L1 L2 kMax i s) i) \<in> {Unlocking, Outside}"
  by (cases "ex_pc s i"; simp add: Exp10_step_def Let_def Exp10_goto_def set_second_def set_locked_def)+

lemma exp_phase_trying: "exp_phase l \<noteq> Trying"
  by (cases l) auto

text \<open>The class has no \<open>IsNoOneWaiting\<close>; the answer in the record is of no meaning.\<close>

definition Exp10_ops :: "'a SpinLockOps \<Rightarrow> 'b SpinLockOps \<Rightarrow> int \<Rightarrow> ('a, 'b) ExpSpinLock10 SpinLockOps" where
  "Exp10_ops L1 L2 kMax = \<lparr> lo_new = Exp10_new L1 L2, lo_Lock = Exp10_Lock L2, lo_TryLock = None, lo_Unlock = (\<lambda>i. Exp10_goto i V_Dec),
     lo_step = Exp10_step L1 L2 kMax, lo_phase = (\<lambda>s i. exp_phase (ex_pc s i)), lo_IsNoOneWaiting = (\<lambda>_ _. False) \<rparr>"

section \<open>The invariant\<close>

text \<open>The phase of a processor in the lower lock; and the phase of its tile in the upper lock and the counter, for the holder of the lower lock\<close>

fun second_phase :: "exp_loc \<Rightarrow> phase" where
  "second_phase E_Out = Outside" | "second_phase E_Second = Locking" | "second_phase V_Sec = Unlocking" | "second_phase _ = Holding"

definition idle_phase :: "int \<Rightarrow> phase" where
  "idle_phase cnt = (if cnt = 0 then Outside else Holding)"

fun top_phase :: "exp_loc \<Rightarrow> int \<Rightarrow> phase" where
  "top_phase E_Top cnt = Locking" | "top_phase V_Top cnt = Unlocking" | "top_phase E_Test cnt = idle_phase cnt" | "top_phase V_Second cnt = idle_phase cnt"
| "top_phase _ cnt = Holding"

fun cnt_ok :: "exp_loc \<Rightarrow> int \<Rightarrow> bool" where
  "cnt_ok E_Top cnt \<longleftrightarrow> cnt = 0" | "cnt_ok E_Set cnt \<longleftrightarrow> cnt = 0" | "cnt_ok E_Hold cnt \<longleftrightarrow> 0 < cnt" | "cnt_ok V_Dec cnt \<longleftrightarrow> 0 < cnt"
| "cnt_ok V_CondTop cnt \<longleftrightarrow> cnt = 0" | "cnt_ok V_Keep cnt \<longleftrightarrow> cnt = 0" | "cnt_ok V_Else cnt \<longleftrightarrow> cnt \<noteq> 0" | "cnt_ok V_Top cnt \<longleftrightarrow> cnt = 0"
| "cnt_ok _ cnt \<longleftrightarrow> True"

text \<open>The places where another processor of the tile must be waiting, as the tile keeps the upper lock for it\<close>

fun keeps_top :: "exp_loc \<Rightarrow> int \<Rightarrow> bool" where
  "keeps_top V_CondTop cnt \<longleftrightarrow> True" | "keeps_top V_Keep cnt \<longleftrightarrow> True" | "keeps_top V_Second cnt \<longleftrightarrow> cnt \<noteq> 0" | "keeps_top _ cnt \<longleftrightarrow> False"

definition waits_in :: "('a, 'b) ExpSpinLock10 \<Rightarrow> nat \<Rightarrow> bool" where
  "waits_in s t \<longleftrightarrow> (\<exists>j < 296. tileid j = t \<and> ex_pc s j = E_Second)"

definition active_in :: "('a, 'b) ExpSpinLock10 \<Rightarrow> nat \<Rightarrow> nat \<Rightarrow> bool" where
  "active_in s t i \<longleftrightarrow> i < 296 \<and> tileid i = t \<and> second_phase (ex_pc s i) = Holding"

definition tile_ok :: "'a SpinLockOps \<Rightarrow> ('a, 'b) ExpSpinLock10 \<Rightarrow> nat \<Rightarrow> bool" where
  "tile_ok L1 s t \<longleftrightarrow> 0 \<le> ex_top_locked s t \<and>
     (\<forall>i. active_in s t i \<longrightarrow> lo_phase L1 (ex_top s) t = top_phase (ex_pc s i) (ex_top_locked s t) \<and>
        cnt_ok (ex_pc s i) (ex_top_locked s t) \<and> (keeps_top (ex_pc s i) (ex_top_locked s t) \<longrightarrow> waits_in s t)) \<and>
     ((\<forall>i. \<not> active_in s t i) \<longrightarrow> lo_phase L1 (ex_top s) t = idle_phase (ex_top_locked s t) \<and> (ex_top_locked s t \<noteq> 0 \<longrightarrow> waits_in s t))"

definition exp_inv :: "'a SpinLockOps \<Rightarrow> 'b SpinLockOps \<Rightarrow> ('a, 'b) ExpSpinLock10 \<Rightarrow> bool" where
  "exp_inv L1 L2 s \<longleftrightarrow> lock_reach L1 37 (ex_top s) \<and> (\<forall>t < 37. lock_reach L2 8 (ex_second s t)) \<and>
     (\<forall>i < 296. lo_phase L2 (ex_second s (tileid i)) (threadid i) = second_phase (ex_pc s i)) \<and> (\<forall>t < 37. tile_ok L1 s t)"

lemma tile_frame:
  assumes "tile_ok L1 s t" "\<And>j. tileid j = t \<Longrightarrow> ex_pc s' j = ex_pc s j" "ex_top_locked s' t = ex_top_locked s t"
    "lo_phase L1 (ex_top s') t = lo_phase L1 (ex_top s) t"
  shows "tile_ok L1 s' t"
proof -
  have "active_in s' t j = active_in s t j" "active_in s t j \<Longrightarrow> ex_pc s' j = ex_pc s j" for j using assms(2) by (auto simp: active_in_def)
  moreover have "waits_in s' t = waits_in s t" using assms(2) by (auto simp: waits_in_def)
  ultimately show ?thesis using assms(1,3,4) unfolding tile_ok_def by metis
qed

text \<open>The only holder of the lower lock of a tile decides.\<close>

lemma tile_active:
  assumes "active_in s t i" "\<And>j. active_in s t j \<Longrightarrow> j = i" "0 \<le> ex_top_locked s t"
    "lo_phase L1 (ex_top s) t = top_phase (ex_pc s i) (ex_top_locked s t)" "cnt_ok (ex_pc s i) (ex_top_locked s t)"
    "keeps_top (ex_pc s i) (ex_top_locked s t) \<Longrightarrow> waits_in s t"
  shows "tile_ok L1 s t"
  using assms unfolding tile_ok_def by metis

lemma tile_idle:
  assumes "\<And>j. \<not> active_in s t j" "0 \<le> ex_top_locked s t" "lo_phase L1 (ex_top s) t = idle_phase (ex_top_locked s t)"
    "ex_top_locked s t \<noteq> 0 \<Longrightarrow> waits_in s t"
  shows "tile_ok L1 s t"
  using assms unfolding tile_ok_def by metis

locale exp10 = top: spin_lock L1 37 + second: waiting_lock L2 8 for L1 :: "'a SpinLockOps" and L2 :: "'b SpinLockOps" +
  fixes kMax :: int
  assumes kMax_pos: "0 < kMax"
begin

lemma tile_bound: "i < 296 \<Longrightarrow> tileid i < 37"
  by (simp add: div_less_iff_less_mult)

lemma one_active:
  assumes inv: "exp_inv L1 L2 s" and "active_in s t i" "active_in s t j"
  shows "i = j"
proof -
  have i: "i < 296" "j < 296" "tileid i = t" "tileid j = t" using assms by (auto simp: active_in_def)
  then have "lo_phase L2 (ex_second s t) (threadid i) = Holding" "lo_phase L2 (ex_second s t) (threadid j) = Holding"
    using inv assms(2,3) by (auto simp: exp_inv_def active_in_def)
  moreover have "lock_reach L2 8 (ex_second s t)" using inv i tile_bound by (auto simp: exp_inv_def)
  ultimately have "threadid i = threadid j" using second.exclusive [of "ex_second s t" "threadid i" "threadid j"] by simp
  then show ?thesis using i by (metis div_mult_mod_eq)
qed

text \<open>A step of the holder of the lower lock that keeps holding it\<close>

lemma active_step:
  assumes inv: "exp_inv L1 L2 s" and i: "i < 296" "second_phase (ex_pc s i) = Holding" "second_phase l = Holding"
    and s': "ex_second s' = ex_second s" "ex_pc s' = (ex_pc s)(i := l)" "\<And>t. t \<noteq> tileid i \<Longrightarrow> ex_top_locked s' t = ex_top_locked s t"
    and top: "lock_reach L1 37 (ex_top s')" "\<And>t. t \<noteq> tileid i \<Longrightarrow> lo_phase L1 (ex_top s') t = lo_phase L1 (ex_top s) t"
    and ok: "lo_phase L1 (ex_top s') (tileid i) = top_phase l (ex_top_locked s' (tileid i))" "0 \<le> ex_top_locked s' (tileid i)"
      "cnt_ok l (ex_top_locked s' (tileid i))" "keeps_top l (ex_top_locked s' (tileid i)) \<Longrightarrow> waits_in s (tileid i)"
  shows "exp_inv L1 L2 s'"
proof -
  let ?t = "tileid i"
  have act: "active_in s' t j = active_in s t j" for t j using i by (auto simp: active_in_def s')
  have i_act: "active_in s ?t i" using i by (simp add: active_in_def)
  have "waits_in s' ?t" if w: "waits_in s ?t"
  proof -
    obtain j where j: "j < 296" "tileid j = ?t" "ex_pc s j = E_Second" using w by (auto simp: waits_in_def)
    then have "j \<noteq> i" using i(2) by auto
    then show ?thesis using j by (auto simp: waits_in_def s')
  qed
  then have "tile_ok L1 s' ?t" using i_act ok one_active [OF inv _ i_act]
    by (intro tile_active [of s' ?t i]) (auto simp: act s')
  moreover have "tile_ok L1 s' t" if "t < 37" "t \<noteq> ?t" for t
    using inv that s' top(2) by (intro tile_frame [of L1 s t s']) (auto simp: exp_inv_def)
  ultimately show ?thesis using inv i s' top(1) unfolding exp_inv_def by auto
qed

text \<open>A call or a step of the lower lock\<close>

lemma second_step:
  assumes inv: "exp_inv L1 L2 s" and i: "i < 296"
    and x: "lock_reach L2 8 x" "lo_phase L2 x = (lo_phase L2 (ex_second s (tileid i)))(threadid i := second_phase l)"
    and s': "s' = Exp10_goto i l (set_second (tileid i) x s)" and tile: "tile_ok L1 s' (tileid i)"
  shows "exp_inv L1 L2 s'"
proof -
  let ?t = "tileid i"
  have f: "ex_top s' = ex_top s" "ex_top_locked s' = ex_top_locked s" "ex_second s' = (ex_second s)(?t := x)" "ex_pc s' = (ex_pc s)(i := l)"
    by (simp_all add: s' Exp10_goto_def set_second_def)
  have "tile_ok L1 s' t" if "t < 37" for t
  proof (cases "t = ?t")
    case False
    then show ?thesis using inv that by (intro tile_frame [of L1 s t s']) (auto simp: exp_inv_def f)
  qed (use tile in simp)
  moreover have "lo_phase L2 (ex_second s' (tileid j)) (threadid j) = second_phase (ex_pc s' j)" if "j < 296" for j
  proof -
    have "lo_phase L2 (ex_second s (tileid j)) (threadid j) = second_phase (ex_pc s j)" using inv that by (simp add: exp_inv_def)
    moreover have "j = i" if "tileid j = ?t" "threadid j = threadid i" using that by (metis div_mult_mod_eq)
    ultimately show ?thesis using x(2) by (auto simp: f)
  qed
  ultimately show ?thesis using inv x(1) unfolding exp_inv_def by (auto simp: f)
qed

text \<open>Calls and steps of the lower lock that do not change who holds it\<close>

lemma idle_step:
  assumes inv: "exp_inv L1 L2 s" and i: "i < 296" "second_phase (ex_pc s i) \<noteq> Holding" "second_phase l \<noteq> Holding" "ex_pc s i = E_Second \<longrightarrow> l = E_Second"
    and x: "lock_reach L2 8 x" "lo_phase L2 x = (lo_phase L2 (ex_second s (tileid i)))(threadid i := second_phase l)"
  shows "exp_inv L1 L2 (Exp10_goto i l (set_second (tileid i) x s))" (is "exp_inv L1 L2 ?s")
proof (rule second_step [OF inv i(1) x refl])
  let ?t = "tileid i"
  have f: "ex_top ?s = ex_top s" "ex_top_locked ?s = ex_top_locked s" "ex_pc ?s = (ex_pc s)(i := l)"
    by (simp_all add: Exp10_goto_def set_second_def)
  have act: "active_in ?s ?t j \<longleftrightarrow> active_in s ?t j" "active_in s ?t j \<Longrightarrow> ex_pc ?s j = ex_pc s j" for j
    using i(2,3) by (auto simp: active_in_def f)
  have "waits_in ?s ?t" if "waits_in s ?t" using that i(4) by (auto simp: waits_in_def f)
  moreover have "tile_ok L1 s ?t" using inv tile_bound [OF i(1)] by (simp add: exp_inv_def)
  ultimately show "tile_ok L1 ?s ?t" unfolding tile_ok_def act(1) f(1,2) using act(2) by metis
qed

lemma acquire_step:
  assumes inv: "exp_inv L1 L2 s" and i: "i < 296" "ex_pc s i = E_Second"
    and x: "lock_reach L2 8 x" "lo_phase L2 x = (lo_phase L2 (ex_second s (tileid i)))(threadid i := Holding)"
  shows "exp_inv L1 L2 (Exp10_goto i E_Test (set_second (tileid i) x s))" (is "exp_inv L1 L2 ?s")
proof (rule second_step [OF inv i(1) x(1) _ refl])
  let ?t = "tileid i"
  have f: "ex_top ?s = ex_top s" "ex_top_locked ?s = ex_top_locked s" "ex_pc ?s = (ex_pc s)(i := E_Test)"
    by (simp_all add: Exp10_goto_def set_second_def)
  have none: "\<not> active_in s ?t j" for j
  proof
    assume j: "active_in s ?t j"
    then have "lo_phase L2 (ex_second s ?t) (threadid j) = Holding" "j \<noteq> i" using inv i by (auto simp: exp_inv_def active_in_def)
    then have "threadid j = threadid i" using second.exclusive [OF x(1), of "threadid j" "threadid i"] x(2) by (auto split: if_splits)
    then have "j = i" using j by (metis active_in_def div_mult_mod_eq)
    then show False using \<open>j \<noteq> i\<close> by simp
  qed
  then have "tile_ok L1 s ?t" "\<forall>j. \<not> active_in s ?t j" using inv tile_bound [OF i(1)] by (auto simp: exp_inv_def)
  then have old: "lo_phase L1 (ex_top s) ?t = idle_phase (ex_top_locked s ?t)" "0 \<le> ex_top_locked s ?t" unfolding tile_ok_def by blast+
  have "active_in ?s ?t j \<longleftrightarrow> j = i" for j using none [of j] i(1) by (auto simp: active_in_def f)
  then show "tile_ok L1 ?s ?t" using old by (intro tile_active [of ?s ?t i]) (simp_all add: f)
qed (use x(2) in simp)

lemma release_step:
  assumes inv: "exp_inv L1 L2 s" and i: "i < 296" "ex_pc s i = V_Second"
    and x: "lock_reach L2 8 x" "lo_phase L2 x = (lo_phase L2 (ex_second s (tileid i)))(threadid i := Unlocking)"
  shows "exp_inv L1 L2 (Exp10_goto i V_Sec (set_second (tileid i) x s))" (is "exp_inv L1 L2 ?s")
proof (rule second_step [OF inv i(1) x(1) _ refl])
  let ?t = "tileid i"
  have f: "ex_top ?s = ex_top s" "ex_top_locked ?s = ex_top_locked s" "ex_pc ?s = (ex_pc s)(i := V_Sec)"
    by (simp_all add: Exp10_goto_def set_second_def)
  have i_act: "active_in s ?t i" using i by (simp add: active_in_def)
  have "tile_ok L1 s ?t" using inv tile_bound [OF i(1)] by (simp add: exp_inv_def)
  then have old: "lo_phase L1 (ex_top s) ?t = idle_phase (ex_top_locked s ?t)" "0 \<le> ex_top_locked s ?t" "ex_top_locked s ?t \<noteq> 0 \<Longrightarrow> waits_in s ?t"
    using i_act i(2) unfolding tile_ok_def by auto
  have none: "\<not> active_in ?s ?t j" for j using one_active [OF inv _ i_act, of j] by (auto simp: active_in_def f)
  have "waits_in ?s ?t" if w: "waits_in s ?t"
  proof -
    obtain j where j: "j < 296" "tileid j = ?t" "ex_pc s j = E_Second" using w by (auto simp: waits_in_def)
    then have "j \<noteq> i" using i(2) by auto
    then show ?thesis using j by (auto simp: waits_in_def f)
  qed
  then show "tile_ok L1 ?s ?t" using old none by (intro tile_idle) (simp_all add: f)
qed (use x(2) in simp)

lemma inv_facts:
  assumes inv: "exp_inv L1 L2 s" and i: "i < 296"
  shows "tileid i < 37" "threadid i < 8" "lock_reach L1 37 (ex_top s)" "lock_reach L2 8 (ex_second s (tileid i))"
    "lo_phase L2 (ex_second s (tileid i)) (threadid i) = second_phase (ex_pc s i)" "0 \<le> ex_top_locked s (tileid i)"
    "second_phase (ex_pc s i) = Holding \<Longrightarrow> lo_phase L1 (ex_top s) (tileid i) = top_phase (ex_pc s i) (ex_top_locked s (tileid i)) \<and>
       cnt_ok (ex_pc s i) (ex_top_locked s (tileid i)) \<and> (keeps_top (ex_pc s i) (ex_top_locked s (tileid i)) \<longrightarrow> waits_in s (tileid i))"
proof -
  have t: "tile_ok L1 s (tileid i)" using inv tile_bound [OF i] by (simp add: exp_inv_def)
  show "lo_phase L1 (ex_top s) (tileid i) = top_phase (ex_pc s i) (ex_top_locked s (tileid i)) \<and>
       cnt_ok (ex_pc s i) (ex_top_locked s (tileid i)) \<and> (keeps_top (ex_pc s i) (ex_top_locked s (tileid i)) \<longrightarrow> waits_in s (tileid i))"
    if "second_phase (ex_pc s i) = Holding" using t that i unfolding tile_ok_def active_in_def by blast
  show "0 \<le> ex_top_locked s (tileid i)" using t unfolding tile_ok_def by blast
qed (use inv i tile_bound [OF i] in \<open>auto simp: exp_inv_def\<close>)

lemma second_waits:
  assumes inv: "exp_inv L1 L2 s" and i: "i < 296" "second_phase (ex_pc s i) = Holding"
    and w: "\<not> lo_IsNoOneWaiting L2 (threadid i) (ex_second s (tileid i))"
  shows "waits_in s (tileid i)"
proof -
  note f = inv_facts [OF inv i(1)]
  obtain k where k: "k < 8" "lo_phase L2 (ex_second s (tileid i)) k = Locking"
    using second.waiting [OF f(4) f(2) _ w] f(5) i(2) by auto
  let ?j = "8 * tileid i + k"
  have j: "?j < 296" "tileid ?j = tileid i" "threadid ?j = k" using k f(1) by auto
  then have "second_phase (ex_pc s ?j) = Locking" using inv_facts(5) [OF inv j(1)] k by simp
  then have "ex_pc s ?j = E_Second" by (cases "ex_pc s ?j") auto
  then show ?thesis using j unfolding waits_in_def by blast
qed

lemma goto_step:
  assumes inv: "exp_inv L1 L2 s" and i: "i < 296" "second_phase (ex_pc s i) = Holding" "second_phase l = Holding"
    and l: "top_phase l (ex_top_locked s (tileid i)) = top_phase (ex_pc s i) (ex_top_locked s (tileid i))" "cnt_ok l (ex_top_locked s (tileid i))"
      "keeps_top l (ex_top_locked s (tileid i)) \<Longrightarrow> waits_in s (tileid i)"
  shows "exp_inv L1 L2 (Exp10_goto i l s)"
  using active_step [OF inv i, of "Exp10_goto i l s"] inv_facts [OF inv i(1)] i l by (simp add: Exp10_goto_def)

lemma exp_inv_step:
  assumes inv: "exp_inv L1 L2 s" and i: "i < 296" "exp_phase (ex_pc s i) \<in> {Locking, Trying, Unlocking}"
  shows "exp_inv L1 L2 (Exp10_step L1 L2 kMax i s)"
proof -
  let ?s = "Exp10_step L1 L2 kMax i s" and ?t = "tileid i" and ?th = "threadid i"
  note f = inv_facts [OF inv i(1)]
  note act = active_step [OF inv i(1)]
  show ?thesis
  proof (cases "ex_pc s i")
    case E_Second
    obtain p where p: "p \<in> {Locking, Holding}" "lo_phase L2 (lo_step L2 ?th (ex_second s ?t)) = (lo_phase L2 (ex_second s ?t))(?th := p)"
      using second.phase_locking [OF f(4) f(2)] f(5) E_Second by auto
    have r: "lock_reach L2 8 (lo_step L2 ?th (ex_second s ?t))" using f(2,4,5) E_Second by (intro lock_reach.step) auto
    show ?thesis
    proof (cases "p = Holding")
      case True
      then show ?thesis using acquire_step [OF inv i(1) E_Second r] p E_Second by (simp add: Exp10_step_def Let_def)
    next
      case False
      then have "exp_inv L1 L2 (Exp10_goto i E_Second (set_second ?t (lo_step L2 ?th (ex_second s ?t)) s))"
        using idle_step [OF inv i(1), of E_Second] r p E_Second by auto
      moreover have "Exp10_goto i E_Second (set_second ?t x s) = set_second ?t x s" for x
        using E_Second by (simp add: Exp10_goto_def set_second_def fun_upd_idem)
      ultimately show ?thesis using False p E_Second by (simp add: Exp10_step_def Let_def)
    qed
  next
    case V_Sec
    obtain p where p: "p \<in> {Unlocking, Outside}" "lo_phase L2 (lo_step L2 ?th (ex_second s ?t)) = (lo_phase L2 (ex_second s ?t))(?th := p)"
      using second.phase_unlocking [OF f(4) f(2)] f(5) V_Sec by auto
    have r: "lock_reach L2 8 (lo_step L2 ?th (ex_second s ?t))" using f(2,4,5) V_Sec by (intro lock_reach.step) auto
    show ?thesis
    proof (cases "p = Outside")
      case True
      then show ?thesis using idle_step [OF inv i(1), of E_Out] r p V_Sec by (simp add: Exp10_step_def Let_def)
    next
      case False
      then have "exp_inv L1 L2 (Exp10_goto i V_Sec (set_second ?t (lo_step L2 ?th (ex_second s ?t)) s))"
        using idle_step [OF inv i(1), of V_Sec] r p V_Sec by auto
      moreover have "Exp10_goto i V_Sec (set_second ?t x s) = set_second ?t x s" for x
        using V_Sec by (simp add: Exp10_goto_def set_second_def fun_upd_idem)
      ultimately show ?thesis using False p V_Sec by (simp add: Exp10_step_def Let_def)
    qed
  next
    case V_Second
    have "lock_reach L2 8 (lo_Unlock L2 ?th (ex_second s ?t))" using f(2,4,5) V_Second by (intro lock_reach.unlock) auto
    then show ?thesis using release_step [OF inv i(1) V_Second] second.phase_unlock [OF f(4) f(2)] f(5) V_Second
      by (simp add: Exp10_step_def Let_def)
  next
    case E_Test
    show ?thesis
    proof (cases "ex_top_locked s ?t = 0")
      case True
      have o: "lo_phase L1 (ex_top s) ?t = Outside" using f(7) E_Test True by (simp add: idle_phase_def)
      have "lock_reach L1 37 (lo_Lock L1 ?t (ex_top s))" using f(1,3) o by (intro lock_reach.lock) auto
      then show ?thesis using act [of E_Top ?s] top.phase_lock [OF f(3) f(1) o] E_Test True
        by (simp add: Exp10_step_def Let_def Exp10_goto_def)
    next
      case False
      then show ?thesis using goto_step [OF inv i(1), of E_Hold] f(6) E_Test by (simp add: Exp10_step_def Let_def idle_phase_def)
    qed
  next
    case E_Top
    then have o: "lo_phase L1 (ex_top s) ?t = Locking" and z: "ex_top_locked s ?t = 0" using f(7) by auto
    obtain p where p: "p \<in> {Locking, Holding}" "lo_phase L1 (lo_step L1 ?t (ex_top s)) = (lo_phase L1 (ex_top s))(?t := p)"
      using top.phase_locking [OF f(3) f(1) o] by auto
    have r: "lock_reach L1 37 (lo_step L1 ?t (ex_top s))" using f(1,3) o by (intro lock_reach.step) auto
    show ?thesis
    proof (cases "p = Holding")
      case True
      then show ?thesis using act [of E_Set ?s] r p E_Top z by (simp add: Exp10_step_def Let_def Exp10_goto_def)
    next
      case False
      then show ?thesis using act [of E_Top ?s] r p E_Top z by (simp add: Exp10_step_def Let_def Exp10_goto_def fun_upd_idem)
    qed
  next
    case V_Top
    then have o: "lo_phase L1 (ex_top s) ?t = Unlocking" and z: "ex_top_locked s ?t = 0" using f(7) by auto
    obtain p where p: "p \<in> {Unlocking, Outside}" "lo_phase L1 (lo_step L1 ?t (ex_top s)) = (lo_phase L1 (ex_top s))(?t := p)"
      using top.phase_unlocking [OF f(3) f(1) o] by auto
    have r: "lock_reach L1 37 (lo_step L1 ?t (ex_top s))" using f(1,3) o by (intro lock_reach.step) auto
    show ?thesis
    proof (cases "p = Outside")
      case True
      then show ?thesis using act [of V_Second ?s] r p V_Top z by (simp add: Exp10_step_def Let_def Exp10_goto_def idle_phase_def)
    next
      case False
      then show ?thesis using act [of V_Top ?s] r p V_Top z by (simp add: Exp10_step_def Let_def Exp10_goto_def fun_upd_idem)
    qed
  next
    case V_Release
    then have o: "lo_phase L1 (ex_top s) ?t = Holding" using f(7) by auto
    have "lock_reach L1 37 (lo_Unlock L1 ?t (ex_top s))" using f(1,3) o by (intro lock_reach.unlock) auto
    then show ?thesis using act [of V_Top ?s] top.phase_unlock [OF f(3) f(1) o] V_Release
      by (simp add: Exp10_step_def Let_def Exp10_goto_def set_locked_def)
  next
    case V_Cond
    then have "waits_in s ?t" if "\<not> lo_IsNoOneWaiting L2 ?th (ex_second s ?t)" using second_waits [OF inv i(1) _ that] by simp
    then show ?thesis using goto_step [OF inv i(1), of V_Release] goto_step [OF inv i(1), of V_CondTop] goto_step [OF inv i(1), of V_Else] V_Cond
      by (simp add: Exp10_step_def Let_def)
  next
    case V_Else
    then have "waits_in s ?t" if "\<not> lo_IsNoOneWaiting L2 ?th (ex_second s ?t)" using second_waits [OF inv i(1) _ that] by simp
    then show ?thesis using goto_step [OF inv i(1), of V_Release] goto_step [OF inv i(1), of V_Second] f(7) V_Else
      by (simp add: Exp10_step_def Let_def idle_phase_def)
  next
    case V_CondTop
    then show ?thesis using goto_step [OF inv i(1), of V_Keep] goto_step [OF inv i(1), of V_Release] f(7) by (simp add: Exp10_step_def Let_def)
  next
    case V_Keep
    then show ?thesis using act [of V_Second ?s] f(3,6,7) kMax_pos by (simp add: Exp10_step_def Let_def Exp10_goto_def set_locked_def idle_phase_def)
  next
    case V_Dec
    then show ?thesis using act [of V_Cond ?s] f(3,6,7) by (simp add: Exp10_step_def Let_def Exp10_goto_def set_locked_def)
  next
    case E_Set
    then show ?thesis using act [of E_Hold ?s] f(3,6,7) kMax_pos by (simp add: Exp10_step_def Let_def Exp10_goto_def set_locked_def)
  qed (use i(2) in auto)
qed

lemma exp_inv_new: "exp_inv L1 L2 (Exp10_new L1 L2)"
proof -
  have "\<not> active_in (Exp10_new L1 L2) t i" for t i by (simp add: active_in_def Exp10_new_def)
  then have "tile_ok L1 (Exp10_new L1 L2) t" if "t < 37" for t
    using top.phase_new [OF that] by (intro tile_idle) (simp_all add: Exp10_new_def idle_phase_def)
  then show ?thesis using second.phase_new by (auto simp: exp_inv_def Exp10_new_def intro: lock_reach.new)
qed

lemma exp_inv_lock:
  assumes inv: "exp_inv L1 L2 s" and i: "i < 296" "ex_pc s i = E_Out"
  shows "exp_inv L1 L2 (Exp10_Lock L2 i s)"
proof -
  note f = inv_facts [OF inv i(1)]
  have "lock_reach L2 8 (lo_Lock L2 (threadid i) (ex_second s (tileid i)))" using f i by (intro lock_reach.lock) auto
  then show ?thesis using idle_step [OF inv i(1), of E_Second] second.phase_lock [OF f(4) f(2)] f(5) i(2) by (simp add: Exp10_Lock_def)
qed

text \<open>A processor of the tile that can move in its lower lock can move\<close>

lemma second_moves:
  assumes inv: "exp_inv L1 L2 s" and i: "i < 296" "second_phase (ex_pc s i) \<noteq> Outside"
  shows "\<exists>j. active_in s (tileid i) j \<or> j < 296 \<and> can_move (Exp10_ops L1 L2 kMax) s j"
proof -
  note f = inv_facts [OF inv i(1)]
  obtain k where k: "k < 8" "can_move L2 (ex_second s (tileid i)) k" using second.not_stuck [OF f(4) f(2)] f(5) i(2) by auto
  let ?j = "8 * tileid i + k"
  have j: "?j < 296" "tileid ?j = tileid i" "threadid ?j = k" using k f(1) by auto
  note g = inv_facts(5) [OF inv j(1), unfolded j(2,3)]
  show ?thesis
  proof (cases "second_phase (ex_pc s ?j) = Holding")
    case True
    then show ?thesis using j by (auto simp: active_in_def)
  next
    case False
    then have "ex_pc s ?j \<in> {E_Second, V_Sec}" and ne: "lo_step L2 k (ex_second s (tileid i)) \<noteq> ex_second s (tileid i)"
      using k(2) g by (cases "ex_pc s ?j"; auto simp: can_move_def)+
    moreover from this have "ex_second (Exp10_step L1 L2 kMax ?j s) (tileid i) = lo_step L2 k (ex_second s (tileid i))"
      by (elim insertE) (simp_all add: Exp10_step_def Let_def j Exp10_goto_def set_second_def k(1))
    ultimately have "can_move (Exp10_ops L1 L2 kMax) s ?j"
      by (intro can_move_step [where f = "\<lambda>s. ex_second s (tileid i)"]) (auto simp: Exp10_ops_def)
    then show ?thesis using j by blast
  qed
qed

text \<open>So can the holder of a lower lock, unless it waits inside the upper lock\<close>

lemma active_moves:
  assumes "active_in s t i" "ex_pc s i \<notin> {E_Top, V_Top}"
  shows "can_move (Exp10_ops L1 L2 kMax) s i"
proof (cases "ex_pc s i = E_Hold")
  case True
  then show ?thesis by (intro can_move_holding) (simp add: Exp10_ops_def)
next
  case False
  then show ?thesis using assms by (cases "ex_pc s i")
    (auto simp: active_in_def Exp10_ops_def Exp10_step_def Let_def Exp10_goto_def set_second_def set_locked_def intro!: can_move_step [where f = "\<lambda>s. ex_pc s i"] split: if_splits)
qed

lemma top_moves:
  assumes inv: "exp_inv L1 L2 s" and t: "t < 37" "can_move L1 (ex_top s) t"
  shows "\<exists>j < 296. can_move (Exp10_ops L1 L2 kMax) s j"
proof (cases "\<exists>i. active_in s t i")
  case True
  then obtain i where i: "active_in s t i" by blast
  then have il: "i < 296" "tileid i = t" "second_phase (ex_pc s i) = Holding" by (auto simp: active_in_def)
  show ?thesis
  proof (cases "ex_pc s i \<in> {E_Top, V_Top}")
    case True
    then have "lo_step L1 t (ex_top s) \<noteq> ex_top s" using t(2) inv_facts(7) [OF inv il(1) il(3)] il(2) by (auto simp: can_move_def)
    moreover have "ex_top (Exp10_step L1 L2 kMax i s) = lo_step L1 t (ex_top s)" using True il(2)
      by (elim insertE) (simp_all add: Exp10_step_def Let_def Exp10_goto_def)
    ultimately have "can_move (Exp10_ops L1 L2 kMax) s i" using True
      by (intro can_move_step [where f = ex_top]) (auto simp: Exp10_ops_def)
    then show ?thesis using il by blast
  next
    case False
    then show ?thesis using active_moves [OF i] il by blast
  qed
next
  case False
  have ok: "tile_ok L1 s t" using inv t(1) by (simp add: exp_inv_def)
  then have ph: "lo_phase L1 (ex_top s) t = idle_phase (ex_top_locked s t)" "ex_top_locked s t \<noteq> 0 \<Longrightarrow> waits_in s t"
    using False unfolding tile_ok_def by blast+
  then have "ex_top_locked s t \<noteq> 0" using t(2) by (auto simp: can_move_def idle_phase_def split: if_splits)
  then obtain j where j: "j < 296" "tileid j = t" "ex_pc s j = E_Second" using ph(2) by (auto simp: waits_in_def)
  then show ?thesis using second_moves [OF inv j(1)] False by auto
qed

lemma exp_not_stuck:
  assumes inv: "exp_inv L1 L2 s" and i: "i < 296" "exp_phase (ex_pc s i) \<noteq> Outside"
  shows "\<exists>j < 296. can_move (Exp10_ops L1 L2 kMax) s j"
proof -
  have "second_phase (ex_pc s i) \<noteq> Outside" using i(2) by (cases "ex_pc s i") auto
  then obtain j where "active_in s (tileid i) j \<or> j < 296 \<and> can_move (Exp10_ops L1 L2 kMax) s j" using second_moves [OF inv i(1)] by blast
  then show ?thesis
  proof
    assume a: "active_in s (tileid i) j"
    then have jl: "j < 296" "second_phase (ex_pc s j) = Holding" by (auto simp: active_in_def)
    note f = inv_facts [OF inv jl(1)]
    show ?thesis
    proof (cases "ex_pc s j \<in> {E_Top, V_Top}")
      case True
      then have "lo_phase L1 (ex_top s) (tileid j) \<noteq> Outside" using f(7) [OF jl(2)] by auto
      then show ?thesis using top.not_stuck [OF f(3) f(1)] top_moves [OF inv] by blast
    qed (use active_moves [OF a] jl in blast)
  qed blast
qed

end

sublocale exp10 \<subseteq> exp_inv: lock_invariant "Exp10_ops L1 L2 kMax" 296 "exp_inv L1 L2"
proof
  fix s and i :: nat assume inv: "exp_inv L1 L2 s" and i: "i < 296"
  show "exp_inv L1 L2 (lo_Lock (Exp10_ops L1 L2 kMax) i s)" if "lo_phase (Exp10_ops L1 L2 kMax) s i = Outside"
    using exp_inv_lock [OF inv i] that by (cases "ex_pc s i") (auto simp: Exp10_ops_def)
  show "exp_inv L1 L2 (lo_Unlock (Exp10_ops L1 L2 kMax) i s)" if "lo_phase (Exp10_ops L1 L2 kMax) s i = Holding"
    using goto_step [OF inv i, of V_Dec] inv_facts(7) [OF inv i] that by (cases "ex_pc s i") (auto simp: Exp10_ops_def)
  show "exp_inv L1 L2 (lo_step (Exp10_ops L1 L2 kMax) i s)" if "lo_phase (Exp10_ops L1 L2 kMax) s i \<in> {Locking, Trying, Unlocking}"
    using exp_inv_step [OF inv i] that by (simp add: Exp10_ops_def)
qed (simp_all add: Exp10_ops_def exp_inv_new)

sublocale exp10 \<subseteq> spin_lock "Exp10_ops L1 L2 kMax" 296
proof
  fix s and i :: nat assume r: "lock_reach (Exp10_ops L1 L2 kMax) 296 s" and i: "i < 296"
  note inv = exp_inv.reach_inv [OF r]
  show "i = j" if j: "j < 296" and h: "lo_phase (Exp10_ops L1 L2 kMax) s i = Holding" "lo_phase (Exp10_ops L1 L2 kMax) s j = Holding" for j
  proof -
    have pc: "ex_pc s i = E_Hold" "ex_pc s j = E_Hold" using h by (simp_all add: Exp10_ops_def exp_phase_hold)
    note f = inv_facts [OF inv i] and g = inv_facts [OF inv j]
    have "tileid i = tileid j" using top.exclusive [OF f(3) f(1) g(1)] f(7) g(7) pc by simp
    then show ?thesis using one_active [OF inv, of "tileid i" i j] pc i j by (simp add: active_in_def)
  qed
  show "\<exists>j < 296. can_move (Exp10_ops L1 L2 kMax) s j" if "lo_phase (Exp10_ops L1 L2 kMax) s i \<noteq> Outside"
    using exp_not_stuck [OF inv i] that by (simp add: Exp10_ops_def)
  have ph: "lo_phase (Exp10_ops L1 L2 kMax) (lo_step (Exp10_ops L1 L2 kMax) i s) =
      (lo_phase (Exp10_ops L1 L2 kMax) s)(i := exp_phase (ex_pc (Exp10_step L1 L2 kMax i s) i))"
    by (rule ext) (simp add: Exp10_ops_def exp_step_pc)
  show "\<exists>p \<in> {Locking, Holding}. lo_phase (Exp10_ops L1 L2 kMax) (lo_step (Exp10_ops L1 L2 kMax) i s) = (lo_phase (Exp10_ops L1 L2 kMax) s)(i := p)"
    if "lo_phase (Exp10_ops L1 L2 kMax) s i = Locking" using ph exp_step_phase(1) [of s i L1 L2 kMax] that by (auto simp: Exp10_ops_def)
  show "\<exists>p \<in> {Unlocking, Outside}. lo_phase (Exp10_ops L1 L2 kMax) (lo_step (Exp10_ops L1 L2 kMax) i s) = (lo_phase (Exp10_ops L1 L2 kMax) s)(i := p)"
    if "lo_phase (Exp10_ops L1 L2 kMax) s i = Unlocking" using ph exp_step_phase(2) [of s i L1 L2 kMax] that by (auto simp: Exp10_ops_def)
qed (auto simp: Exp10_ops_def Exp10_new_def Exp10_Lock_def Exp10_goto_def set_second_def exp_phase_trying)

context exp10
begin

lemma exp10_safe: "mutual_exclusion (Exp10_ops L1 L2 kMax) 296 \<and> deadlock_free (Exp10_ops L1 L2 kMax) 296"
  by (rule lock_safe)

end

lemma exp10_instance: "spin_lock L1 37 \<Longrightarrow> waiting_lock L2 8 \<Longrightarrow> 0 < kMax \<Longrightarrow> exp10 L1 L2 kMax"
  by (simp add: exp10_def exp10_axioms_def)

lemmas queue_lock_parts = queue_lock.is_spin_lock queue_lock.is_waiting_lock

interpretation mcs_clh: exp10 Mcs_ops Clh_ops 8
  by (intro exp10_instance queue_lock_parts [OF mcs_lock] queue_lock_parts [OF clh_lock]) simp_all

interpretation clh_anderson: exp10 Clh_ops "Anderson_ops 8" 8
  by (intro exp10_instance queue_lock_parts [OF clh_lock] queue_lock_parts [OF anderson_lock]) (simp_all add: array_ok_def)

text \<open>C21: the queue locks exclude each other's holders and never get stuck, \<open>ClhSpinLock\<close> and \<open>McsSpinLock\<close>, the latter also with \<open>TryLock\<close>, for up to
  296 processors, as many as their arrays have nodes.
\<close>

theorem queue_locks_safe:
  "n \<le> 37 * 8 \<Longrightarrow> mutual_exclusion Clh_ops n \<and> deadlock_free Clh_ops n \<and> mutual_exclusion Mcs_ops n \<and> deadlock_free Mcs_ops n"
  using spin_lock.lock_safe [OF queue_lock_parts(1) [OF clh_lock]] spin_lock.lock_safe [OF queue_lock_parts(1) [OF mcs_lock]] by blast

theorem queue_locks_safe_witness: "mutual_exclusion Clh_ops 296 \<and> deadlock_free Mcs_ops 296"
  using queue_locks_safe [of 296] by simp

text \<open>C20: the two-level lock \<open>ExpSpinLock10\<close> excludes on 37 tiles of eight processors and never gets stuck, with \<open>McsSpinLock\<close> over \<open>ClhSpinLock\<close>,
  \<open>ClhSpinLock\<close> over \<open>AndersonSpinLock\<close>, \<open>AndersonSpinLock\<close> with 64 elements over \<open>McsSpinLock\<close>, and \<open>TtsBackoffSpinLock\<close> over \<open>ClhSpinLock\<close>, pairs
  that the benchmarks run. It is proved once, in the locale \<open>exp10\<close>, for every upper lock that excludes and does not get stuck and every lower lock
  whose \<open>IsNoOneWaiting\<close> answers no only if somebody waits.
\<close>

theorem ExpSpinLock10_safe:
  assumes "0 < kMax"
  shows "mutual_exclusion (Exp10_ops Mcs_ops Clh_ops kMax) 296 \<and> deadlock_free (Exp10_ops Mcs_ops Clh_ops kMax) 296 \<and>
    mutual_exclusion (Exp10_ops Clh_ops (Anderson_ops 8) kMax) 296 \<and> deadlock_free (Exp10_ops Clh_ops (Anderson_ops 8) kMax) 296 \<and>
    mutual_exclusion (Exp10_ops (Anderson_ops 64) Mcs_ops kMax) 296 \<and> deadlock_free (Exp10_ops (Anderson_ops 64) Mcs_ops kMax) 296 \<and>
    mutual_exclusion (Exp10_ops Backoff_ops Clh_ops kMax) 296 \<and> deadlock_free (Exp10_ops Backoff_ops Clh_ops kMax) 296"
proof -
  have locks: "queue_lock Clh_ops 37 (clh_queue 37)" "queue_lock Clh_ops 8 (clh_queue 8)" "queue_lock (Anderson_ops 64) 37 (anderson_queue 64 37)"
    "queue_lock (Anderson_ops 8) 8 (anderson_queue 8 8)" "queue_lock Mcs_ops 37 (mcs_queue 37)" "queue_lock Mcs_ops 8 (mcs_queue 8)"
    by (intro clh_lock mcs_lock anderson_lock; simp add: array_ok_def)+
  have "exp10 Mcs_ops Clh_ops kMax" "exp10 Clh_ops (Anderson_ops 8) kMax" "exp10 (Anderson_ops 64) Mcs_ops kMax" "exp10 Backoff_ops Clh_ops kMax"
    using queue_lock_parts [OF locks(5)] queue_lock_parts [OF locks(6)] queue_lock_parts [OF locks(1)] queue_lock_parts [OF locks(2)] queue_lock_parts [OF locks(3)]
      queue_lock_parts [OF locks(4)] backoff.spin_lock_axioms assms by (intro exp10_instance; blast)+
  note e = this
  show ?thesis using exp10.exp10_safe [OF e(1)] exp10.exp10_safe [OF e(2)] exp10.exp10_safe [OF e(3)] exp10.exp10_safe [OF e(4)] by blast
qed

theorem ExpSpinLock10_safe_witness: "mutual_exclusion (Exp10_ops Mcs_ops Clh_ops 8) 296"
  using ExpSpinLock10_safe [of 8] by simp

section \<open>ExpSpinLock11\<close>

text \<open>The members of \<open>TicketSpinLockA\<close>; its member functions are steps of \<open>ExpSpinLock11\<close>.\<close>

record TicketSpinLockA =
  ta_flag :: u64
  ta_cnt :: u64
  ta_release_ticket :: u64

definition TicketA_new :: TicketSpinLockA where
  "TicketA_new = \<lparr> ta_flag = 1, ta_cnt = 1, ta_release_ticket = 0 \<rparr>"

text \<open>\<open>W_\<close> locations lie in \<open>Lock\<close>, \<open>X_\<close> in \<open>Unlock\<close>.\<close>

datatype exp11_loc = W_Out | W_Take | W_Spin u64 | W_Ask u64 | W_Top | W_Fix | W_Hold | X_Release | X_Top | X_Load | X_Store u64

record 'a ExpSpinLock11 =
  el_top :: 'a
  el_second :: "nat \<Rightarrow> TicketSpinLockA"
  el_pc :: "nat \<Rightarrow> exp11_loc"

definition Exp11_new :: "'a SpinLockOps \<Rightarrow> 'a ExpSpinLock11" where
  "Exp11_new L1 = \<lparr> el_top = lo_new L1, el_second = (\<lambda>_. TicketA_new), el_pc = (\<lambda>_. W_Out) \<rparr>"

definition Exp11_goto :: "nat \<Rightarrow> exp11_loc \<Rightarrow> 'a ExpSpinLock11 \<Rightarrow> 'a ExpSpinLock11" where
  "Exp11_goto i l s = s \<lparr> el_pc := (el_pc s)(i := l) \<rparr>"

definition set_ticket :: "nat \<Rightarrow> TicketSpinLockA \<Rightarrow> 'a ExpSpinLock11 \<Rightarrow> 'a ExpSpinLock11" where
  "set_ticket t x s = s \<lparr> el_second := (el_second s)(t := x) \<rparr>"

definition Exp11_step :: "'a SpinLockOps \<Rightarrow> nat \<Rightarrow> 'a ExpSpinLock11 \<Rightarrow> 'a ExpSpinLock11" where
  "Exp11_step L1 i s = (let t = tileid i; x2 = el_second s t in
     case el_pc s i of
       W_Take \<Rightarrow> Exp11_goto i (W_Spin (ta_cnt x2)) (set_ticket t (x2 \<lparr> ta_cnt := ta_cnt x2 + 1 \<rparr>) s)
     | W_Spin x \<Rightarrow> if ta_flag x2 \<noteq> x then s else Exp11_goto i (W_Ask x) s
     | W_Ask x \<Rightarrow> if ta_release_ticket x2 + 1 = x then Exp11_goto i W_Top (s \<lparr> el_top := lo_Lock L1 t (el_top s) \<rparr>) else Exp11_goto i W_Hold s
     | W_Top \<Rightarrow> let top' = lo_step L1 t (el_top s); s' = s \<lparr> el_top := top' \<rparr> in
         if lo_phase L1 top' t = Holding then Exp11_goto i W_Fix s' else s'
     | W_Fix \<Rightarrow> Exp11_goto i W_Hold (set_ticket t (x2 \<lparr> ta_release_ticket := ta_cnt x2 \<rparr>) s)
     | X_Release \<Rightarrow> if ta_release_ticket x2 = ta_flag x2 \<or> ta_flag x2 + 1 = ta_cnt x2
         then Exp11_goto i X_Top (s \<lparr> el_top := lo_Unlock L1 t (el_top s) \<rparr>) else Exp11_goto i X_Load s
     | X_Top \<Rightarrow> let top' = lo_step L1 t (el_top s); s' = s \<lparr> el_top := top' \<rparr> in
         if lo_phase L1 top' t = Outside then Exp11_goto i X_Load s' else s'
     | X_Load \<Rightarrow> Exp11_goto i (X_Store (ta_flag x2)) s
     | X_Store f \<Rightarrow> Exp11_goto i W_Out (set_ticket t (x2 \<lparr> ta_flag := f + 1 \<rparr>) s)
     | _ \<Rightarrow> s)"

fun exp11_phase :: "exp11_loc \<Rightarrow> phase" where
  "exp11_phase W_Out = Outside" | "exp11_phase W_Take = Locking" | "exp11_phase (W_Spin x) = Locking" | "exp11_phase (W_Ask x) = Locking"
| "exp11_phase W_Top = Locking" | "exp11_phase W_Fix = Locking" | "exp11_phase W_Hold = Holding" | "exp11_phase X_Release = Unlocking"
| "exp11_phase X_Top = Unlocking" | "exp11_phase X_Load = Unlocking" | "exp11_phase (X_Store f) = Unlocking"

definition Exp11_ops :: "'a SpinLockOps \<Rightarrow> 'a ExpSpinLock11 SpinLockOps" where
  "Exp11_ops L1 = \<lparr> lo_new = Exp11_new L1, lo_Lock = (\<lambda>i. Exp11_goto i W_Take), lo_TryLock = None, lo_Unlock = (\<lambda>i. Exp11_goto i X_Release),
     lo_step = Exp11_step L1, lo_phase = (\<lambda>s i. exp11_phase (el_pc s i)), lo_IsNoOneWaiting = (\<lambda>_ _. False) \<rparr>"

text \<open>Running a lock: \<open>lock_run\<close> follows what each processor does next, as long as it may.\<close>

datatype lock_act = Do_Lock nat | Do_Unlock nat | Do_Step nat

fun lock_run :: "'s SpinLockOps \<Rightarrow> nat \<Rightarrow> lock_act list \<Rightarrow> 's \<Rightarrow> 's option" where
  "lock_run L n [] s = Some s"
| "lock_run L n (Do_Lock i # as) s = (if i < n \<and> lo_phase L s i = Outside then lock_run L n as (lo_Lock L i s) else None)"
| "lock_run L n (Do_Unlock i # as) s = (if i < n \<and> lo_phase L s i = Holding then lock_run L n as (lo_Unlock L i s) else None)"
| "lock_run L n (Do_Step i # as) s = (if i < n \<and> lo_phase L s i \<in> {Locking, Trying, Unlocking} then lock_run L n as (lo_step L i s) else None)"

lemma lock_run_reach: "lock_run L n as s = Some s' \<Longrightarrow> lock_reach L n s \<Longrightarrow> lock_reach L n s'"
  by (induction L n as s rule: lock_run.induct) (auto intro: lock_reach.intros split: if_splits)

text \<open>Processor 0 takes and releases the lock and takes it again; then processor 8, of another tile, takes it.\<close>

definition broken_run :: "lock_act list" where
  "broken_run = Do_Lock 0 # replicate 6 (Do_Step 0) @ Do_Unlock 0 # replicate 5 (Do_Step 0) @ Do_Lock 0 # replicate 3 (Do_Step 0) @
     Do_Lock 8 # replicate 6 (Do_Step 8)"

text \<open>C39: the two-level lock \<open>ExpSpinLock11\<close> does not exclude: a processor that was alone in its tile releases the upper lock without moving the ticket at which
  the next one takes it again, so that the next one of the tile enters without the upper lock, while a processor of another tile holds it.
\<close>

theorem ExpSpinLock11_not_exclusive: "\<not> mutual_exclusion (Exp11_ops Mcs_ops) 296"
proof -
  have "map_option (\<lambda>s. (el_pc s 0, el_pc s 8)) (lock_run (Exp11_ops Mcs_ops) 296 broken_run (Exp11_new Mcs_ops)) = Some (W_Hold, W_Hold)"
    by code_simp
  then obtain s where s: "lock_run (Exp11_ops Mcs_ops) 296 broken_run (Exp11_new Mcs_ops) = Some s" "el_pc s 0 = W_Hold" "el_pc s 8 = W_Hold"
    by auto
  have "lock_reach (Exp11_ops Mcs_ops) 296 (lo_new (Exp11_ops Mcs_ops))" by (rule lock_reach.new)
  then have "lock_reach (Exp11_ops Mcs_ops) 296 s" using lock_run_reach [OF s(1)] by (simp add: Exp11_ops_def)
  moreover have "lo_phase (Exp11_ops Mcs_ops) s 0 = Holding" "lo_phase (Exp11_ops Mcs_ops) s 8 = Holding" using s by (simp_all add: Exp11_ops_def)
  moreover have "(0 :: nat) < 296" "(8 :: nat) < 296" "(0 :: nat) \<noteq> 8" by simp_all
  ultimately show ?thesis unfolding mutual_exclusion_def by blast
qed

end
