(* ===== verification/Barrier.thy ===== *)
theory Barrier
  imports Raph_Prelude
begin

text \<open>
  The barrier \<open>sync\<close> of \<open>membench/sync.h\<close>, on which the benchmarks meet: three counters, each of which is counted up, waited for and cleared in turn. The
  steps of the processors interleave in any order; a processor may call \<open>Do\<close> again and again.
\<close>

section \<open>The barrier\<close>

text \<open>
  The function repeats one pattern three times, for \<open>k\<close> = 0, 1, 2: clear the counter after \<open>k\<close>, count up counter \<open>k\<close>, wait for it. The number of calls that a
  processor has completed is kept in \<open>sy_rounds\<close>.
\<close>

datatype sync_loc = Sy_Out | Sy_Clear nat | Sy_Inc nat | Sy_Wait nat

record SyncLow =
  sy_lock :: "nat \<Rightarrow> int"
  sy_pc :: "nat \<Rightarrow> sync_loc"
  sy_rounds :: "nat \<Rightarrow> nat"

definition Sync_new :: SyncLow where
  "Sync_new = \<lparr> sy_lock = (\<lambda>_. 0), sy_pc = (\<lambda>_. Sy_Out), sy_rounds = (\<lambda>_. 0) \<rparr>"

definition sync_goto :: "nat \<Rightarrow> sync_loc \<Rightarrow> SyncLow \<Rightarrow> SyncLow" where
  "sync_goto i l s = s \<lparr> sy_pc := (sy_pc s)(i := l) \<rparr>"

text \<open>The next step of processor \<open>i\<close>; outside it is the call of \<open>Do\<close>.\<close>

definition sync_step :: "nat \<Rightarrow> nat \<Rightarrow> SyncLow \<Rightarrow> SyncLow" where
  "sync_step cpunum i s = (case sy_pc s i of
       Sy_Out \<Rightarrow> sync_goto i (Sy_Clear 0) s
     | Sy_Clear k \<Rightarrow> sync_goto i (Sy_Inc k) (s \<lparr> sy_lock := (sy_lock s)((k + 1) mod 3 := 0) \<rparr>)
     | Sy_Inc k \<Rightarrow> sync_goto i (Sy_Wait k) (s \<lparr> sy_lock := (sy_lock s)(k := sy_lock s k + 1) \<rparr>)
     | Sy_Wait k \<Rightarrow> if sy_lock s k \<noteq> int cpunum then s
         else if k < 2 then sync_goto i (Sy_Clear (k + 1)) s
         else sync_goto i Sy_Out (s \<lparr> sy_rounds := (sy_rounds s)(i := sy_rounds s i + 1) \<rparr>))"

inductive sync_reach :: "nat \<Rightarrow> SyncLow \<Rightarrow> bool" for n where
  new: "sync_reach n Sync_new"
| step: "sync_reach n s \<Longrightarrow> i < n \<Longrightarrow> sync_reach n (sync_step n i s)"

section \<open>The invariant\<close>

text \<open>How many of the three waits a processor has passed, over all calls; and whether it has cleared and counted for the next one\<close>

fun stage_of :: "sync_loc \<Rightarrow> nat" where
  "stage_of Sy_Out = 0" | "stage_of (Sy_Clear k) = k" | "stage_of (Sy_Inc k) = k" | "stage_of (Sy_Wait k) = k"

definition passed_waits :: "SyncLow \<Rightarrow> nat \<Rightarrow> nat" where
  "passed_waits s i = 3 * sy_rounds s i + stage_of (sy_pc s i)"

fun cleared :: "sync_loc \<Rightarrow> bool" where
  "cleared (Sy_Inc k) = True" | "cleared (Sy_Wait k) = True" | "cleared _ = False"

fun arrived :: "sync_loc \<Rightarrow> bool" where
  "arrived (Sy_Wait k) = True" | "arrived _ = False"

text \<open>
  All processors stand between two consecutive waits \<open>m\<close> and \<open>m + 1\<close>. If one is past wait \<open>m\<close>, all others have arrived there. The counter of \<open>m\<close> has
  the number of those who have arrived, the next one is zero or counts those who are a step further, and the one after that is zero as soon as it
  has been cleared for the next use.
\<close>

definition arrivals :: "nat \<Rightarrow> nat \<Rightarrow> (nat \<Rightarrow> nat) \<Rightarrow> (nat \<Rightarrow> bool) \<Rightarrow> nat set" where
  "arrivals n m p a = {i. i < n \<and> (m < p i \<or> p i = m \<and> a i)}"

definition bar :: "nat \<Rightarrow> nat \<Rightarrow> (nat \<Rightarrow> nat) \<Rightarrow> (nat \<Rightarrow> bool) \<Rightarrow> (nat \<Rightarrow> bool) \<Rightarrow> (nat \<Rightarrow> int) \<Rightarrow> bool" where
  "bar n m p c a x \<longleftrightarrow> (\<forall>i < n. (p i = m \<or> p i = Suc m) \<and> (a i \<longrightarrow> c i)) \<and>
     (\<forall>i < n. \<forall>j < n. p i = Suc m \<and> p j = m \<longrightarrow> a j) \<and> x (m mod 3) = int (card (arrivals n m p a)) \<and>
     (\<forall>i < n. p i = Suc m \<or> c i \<longrightarrow> x (Suc m mod 3) = int (card (arrivals n (Suc m) p a))) \<and>
     (\<forall>i < n. p i = Suc m \<and> c i \<longrightarrow> x (Suc (Suc m) mod 3) = 0)"

lemma barD:
  assumes "bar n m p c a x"
  shows "i < n \<Longrightarrow> p i = m \<or> p i = Suc m" "i < n \<Longrightarrow> a i \<Longrightarrow> c i" "i < n \<Longrightarrow> j < n \<Longrightarrow> p i = Suc m \<Longrightarrow> p j = m \<Longrightarrow> a j"
    "x (m mod 3) = int (card (arrivals n m p a))" "i < n \<Longrightarrow> p i = Suc m \<or> c i \<Longrightarrow> x (Suc m mod 3) = int (card (arrivals n (Suc m) p a))"
    "i < n \<Longrightarrow> p i = Suc m \<Longrightarrow> c i \<Longrightarrow> x (Suc (Suc m) mod 3) = 0"
  using assms unfolding bar_def by blast+

lemma barI:
  assumes "\<And>i. i < n \<Longrightarrow> p i = m \<or> p i = Suc m" "\<And>i. i < n \<Longrightarrow> a i \<Longrightarrow> c i" "\<And>i j. i < n \<Longrightarrow> j < n \<Longrightarrow> p i = Suc m \<Longrightarrow> p j = m \<Longrightarrow> a j"
    "x (m mod 3) = int (card (arrivals n m p a))"
    "\<And>i. i < n \<Longrightarrow> p i = Suc m \<or> c i \<Longrightarrow> x (Suc m mod 3) = int (card (arrivals n (Suc m) p a))"
    "\<And>i. i < n \<Longrightarrow> p i = Suc m \<Longrightarrow> c i \<Longrightarrow> x (Suc (Suc m) mod 3) = 0"
  shows "bar n m p c a x"
  using assms unfolding bar_def by blast

lemma arrivals_finite [simp]: "finite (arrivals n m p a)"
  by (simp add: arrivals_def)

lemma arrivals_all: "int (card (arrivals n m p a)) = int n \<Longrightarrow> i < n \<Longrightarrow> m < p i \<or> p i = m \<and> a i"
proof -
  assume c: "int (card (arrivals n m p a)) = int n" and i: "i < n"
  have "arrivals n m p a \<subseteq> {..<n}" by (auto simp: arrivals_def)
  then have "arrivals n m p a = {..<n}" using c by (intro card_subset_eq) auto
  then show ?thesis using i by (auto simp: arrivals_def)
qed

lemma mod3: "Suc m mod 3 \<noteq> m mod 3" "Suc (Suc m) mod 3 \<noteq> m mod 3" "Suc (Suc m) mod 3 \<noteq> Suc m mod 3"
  by presburger+

lemma div3_Suc:
  fixes a b :: nat
  assumes le: "a \<le> Suc b" and q: "a div 3 = Suc (b div 3)"
  shows "a = Suc b" "b mod 3 = 2"
proof -
  obtain q where qd: "b div 3 = q" by simp
  have a: "3 * Suc q \<le> a" using q qd by (metis div_times_less_eq_dividend mult.commute)
  have b: "b = 3 * q + b mod 3" "b mod 3 < 3" using qd by (metis mult_div_mod_eq) simp
  obtain r where r: "b mod 3 = r" by simp
  have "r = 2 \<and> a = Suc b" using a b le unfolding r by presburger
  then show "a = Suc b" "b mod 3 = 2" using r by auto
qed

lemma bar_clear:
  assumes b: "bar n m p c a x" and i: "i < n" "\<not> c i"
  shows "bar n m p (c(i := True)) a (x(Suc (p i) mod 3 := 0))"
proof -
  have na: "\<not> a i" using barD(2) [OF b i(1)] i(2) by blast
  consider "p i = m" | "p i = Suc m" using barD(1) [OF b i(1)] by blast
  then show ?thesis
  proof cases
    case 1
    then have all: "p j = m" if "j < n" for j using barD(1,3) [OF b] i(1) na that by metis
    then have "arrivals n (Suc m) p a = {}" by (force simp: arrivals_def)
    then show ?thesis using 1 all barD(2,4) [OF b] mod3 [of m] by (intro barI) auto
  next
    case 2
    then show ?thesis using barD [OF b] barD(5) [OF b i(1)] mod3 [of m] by (intro barI) (auto split: if_splits)
  qed
qed

lemma bar_count:
  assumes b: "bar n m p c a x" and i: "i < n" "c i" "\<not> a i"
  shows "bar n m p c (a(i := True)) (x(p i mod 3 := x (p i mod 3) + 1))"
proof -
  have new: "arrivals n (p i) p (a(i := True)) = insert i (arrivals n (p i) p a)" "i \<notin> arrivals n (p i) p a"
    using i by (auto simp: arrivals_def)
  consider "p i = m" | "p i = Suc m" using barD(1) [OF b i(1)] by blast
  then show ?thesis
  proof cases
    case 1
    then have all: "p j = m" if "j < n" for j using barD(1,3) [OF b] i(1,3) that by metis
    then have "arrivals n (Suc m) p a' = {}" for a' by (force simp: arrivals_def)
    then show ?thesis using 1 all new barD(2,4) [OF b] barD(5) [OF b i(1)] i mod3 [of m] by (intro barI) (auto split: if_splits)
  next
    case 2
    then have "arrivals n m p (a(i := True)) = arrivals n m p a" by (auto simp: arrivals_def)
    then show ?thesis using 2 new barD [OF b] i mod3 [of m] by (intro barI) (auto split: if_splits)
  qed
qed

lemma bar_pass:
  assumes b: "bar n m p c a x" and i: "i < n" "a i" "x (p i mod 3) = int n"
  shows "\<exists>m'. bar n m' (p(i := Suc (p i))) (c(i := False)) (a(i := False)) x"
proof -
  have ci: "c i" using barD(2) [OF b i(1,2)] .
  consider "p i = m" | "p i = Suc m" using barD(1) [OF b i(1)] by blast
  then show ?thesis
  proof cases
    case 1
    then have all: "a j" if "j < n" "p j = m" for j
      using arrivals_all [of n m p a j] barD(4) [OF b] i(3) that by auto
    have "arrivals n m (p(i := Suc (p i))) (a(i := False)) = arrivals n m p a"
      "arrivals n (Suc m) (p(i := Suc (p i))) (a(i := False)) = arrivals n (Suc m) p a" using 1 i by (auto simp: arrivals_def)
    then have "bar n m (p(i := Suc (p i))) (c(i := False)) (a(i := False)) x"
      using 1 all barD [OF b] ci i(1) by (intro barI) (auto split: if_splits)
    then show ?thesis by blast
  next
    case 2
    then have x: "x (Suc m mod 3) = int (card (arrivals n (Suc m) p a))" "x (Suc (Suc m) mod 3) = 0"
      using barD(5,6) [OF b i(1)] ci by auto
    then have all: "p j = Suc m \<and> a j" if "j < n" for j
      using arrivals_all [of n "Suc m" p a j] barD(1) [OF b that] i(3) 2 that by auto
    have "arrivals n (Suc m) (p(i := Suc (p i))) (a(i := False)) = arrivals n (Suc m) p a"
      "arrivals n (Suc (Suc m)) (p(i := Suc (p i))) (a(i := False)) = {}" using 2 i all by (auto simp: arrivals_def)
    then have "bar n (Suc m) (p(i := Suc (p i))) (c(i := False)) (a(i := False)) x"
      using 2 all x barD(2) [OF b] by (intro barI) (auto split: if_splits)
    then show ?thesis by blast
  qed
qed

definition sync_inv :: "nat \<Rightarrow> SyncLow \<Rightarrow> bool" where
  "sync_inv n s \<longleftrightarrow> (\<forall>i. stage_of (sy_pc s i) < 3) \<and>
     (\<exists>m. bar n m (passed_waits s) (\<lambda>i. cleared (sy_pc s i)) (\<lambda>i. arrived (sy_pc s i)) (sy_lock s))"

lemma sync_inv_new: "sync_inv n Sync_new"
  by (auto simp: sync_inv_def Sync_new_def passed_waits_def bar_def arrivals_def intro!: exI [of _ 0])

lemma stage_mod: "stage_of (sy_pc s i) < 3 \<Longrightarrow> passed_waits s i mod 3 = stage_of (sy_pc s i)"
  by (simp add: passed_waits_def)

lemma arrived_cleared: "arrived l \<Longrightarrow> cleared l"
  by (cases l) auto

lemma sync_inv_step:
  assumes inv: "sync_inv n s" and i: "i < n"
  shows "sync_inv n (sync_step n i s)"
proof -
  let ?s = "sync_step n i s" and ?p = "passed_waits s" and ?c = "\<lambda>i. cleared (sy_pc s i)" and ?a = "\<lambda>i. arrived (sy_pc s i)"
  from inv obtain m where b: "bar n m ?p ?c ?a (sy_lock s)" and st: "\<And>i. stage_of (sy_pc s i) < 3" by (auto simp: sync_inv_def)
  note k = stage_mod [OF st, of i]
  show ?thesis
  proof (cases "sy_pc s i")
    case Sy_Out
    then have "passed_waits ?s = ?p" "(\<lambda>i. cleared (sy_pc ?s i)) = ?c" "(\<lambda>i. arrived (sy_pc ?s i)) = ?a" "sy_lock ?s = sy_lock s"
      by (auto simp: sync_step_def sync_goto_def passed_waits_def fun_eq_iff)
    then show ?thesis using b st Sy_Out unfolding sync_inv_def by (auto simp: sync_step_def sync_goto_def)
  next
    case (Sy_Clear j)
    then have "passed_waits ?s = ?p" "(\<lambda>i. cleared (sy_pc ?s i)) = ?c(i := True)" "(\<lambda>i. arrived (sy_pc ?s i)) = ?a"
      by (auto simp: sync_step_def sync_goto_def passed_waits_def fun_eq_iff)
    moreover have "Suc j mod 3 = Suc (?p i) mod 3" using k Sy_Clear by (metis mod_Suc_eq stage_of.simps(2))
    then have "sy_lock ?s = (sy_lock s)(Suc (?p i) mod 3 := 0)" using Sy_Clear by (simp add: sync_step_def sync_goto_def)
    moreover have "stage_of (sy_pc ?s l) < 3" for l using st [of l] st [of i] Sy_Clear by (simp add: sync_step_def sync_goto_def)
    ultimately show ?thesis using bar_clear [OF b i] Sy_Clear unfolding sync_inv_def by auto
  next
    case (Sy_Inc j)
    then have "passed_waits ?s = ?p" "(\<lambda>i. cleared (sy_pc ?s i)) = ?c" "(\<lambda>i. arrived (sy_pc ?s i)) = ?a(i := True)"
      by (auto simp: sync_step_def sync_goto_def passed_waits_def fun_eq_iff)
    moreover have "sy_lock ?s = (sy_lock s)(?p i mod 3 := sy_lock s (?p i mod 3) + 1)" using Sy_Inc k by (simp add: sync_step_def sync_goto_def)
    moreover have "stage_of (sy_pc ?s l) < 3" for l using st [of l] st [of i] Sy_Inc by (simp add: sync_step_def sync_goto_def)
    ultimately show ?thesis using bar_count [OF b i] Sy_Inc unfolding sync_inv_def by auto
  next
    case (Sy_Wait j)
    show ?thesis
    proof (cases "sy_lock s j = int n")
      case True
      have j: "j < 3" using st [of i] Sy_Wait by simp
      then have "passed_waits ?s = ?p(i := Suc (?p i))" "(\<lambda>i. cleared (sy_pc ?s i)) = ?c(i := False)" "(\<lambda>i. arrived (sy_pc ?s i)) = ?a(i := False)"
        "sy_lock ?s = sy_lock s"
        using Sy_Wait True by (auto simp: sync_step_def sync_goto_def passed_waits_def fun_eq_iff)
      moreover have "stage_of (sy_pc ?s l) < 3" for l using st [of l] Sy_Wait True j by (simp add: sync_step_def sync_goto_def)
      ultimately show ?thesis using bar_pass [OF b i] Sy_Wait True k unfolding sync_inv_def by auto
    qed (use inv Sy_Wait in \<open>simp add: sync_step_def\<close>)
  qed
qed

lemma sync_reach_inv: "sync_reach n s \<Longrightarrow> sync_inv n s"
  by (induction rule: sync_reach.induct) (auto intro: sync_inv_new sync_inv_step)

lemma arrivals_full: "(\<And>i. i < n \<Longrightarrow> m < p i \<or> p i = m \<and> a i) \<Longrightarrow> card (arrivals n m p a) = n"
proof -
  assume "\<And>i. i < n \<Longrightarrow> m < p i \<or> p i = m \<and> a i"
  then have "arrivals n m p a = {..<n}" by (auto simp: arrivals_def)
  then show ?thesis by simp
qed

lemma sync_step_moves:
  assumes "\<not> arrived (sy_pc s i) \<or> sy_lock s (stage_of (sy_pc s i)) = int n"
  shows "sync_step n i s \<noteq> s"
proof -
  have "sy_pc (sync_step n i s) i \<noteq> sy_pc s i"
    using assms by (cases "sy_pc s i") (auto simp: sync_step_def sync_goto_def)
  then show ?thesis by auto
qed

text \<open>If all have arrived somewhere, the last of them has completed the count of the earliest wait.\<close>

lemma sync_progress:
  assumes st: "\<And>i. stage_of (sy_pc s i) < 3"
    and b: "bar n m (passed_waits s) (\<lambda>i. cleared (sy_pc s i)) (\<lambda>i. arrived (sy_pc s i)) (sy_lock s)" and n: "i < n"
  shows "\<exists>k < n. sync_step n k s \<noteq> s"
proof (cases "\<forall>k < n. arrived (sy_pc s k)")
  case False
  then show ?thesis using sync_step_moves by blast
next
  case True
  let ?p = "passed_waits s" and ?a = "\<lambda>i. arrived (sy_pc s i)"
  obtain k where k: "k < n" "sy_lock s (?p k mod 3) = int n"
  proof (cases "\<exists>k < n. ?p k = m")
    case True
    then obtain k where k: "k < n" "?p k = m" by blast
    have "m < ?p j \<or> ?p j = m \<and> ?a j" if "j < n" for j using barD(1) [OF b that] \<open>\<forall>k < n. arrived (sy_pc s k)\<close> that by auto
    then have "card (arrivals n m ?p ?a) = n" by (rule arrivals_full)
    then show ?thesis using that [OF k(1)] k(2) barD(4) [OF b] by simp
  next
    case False
    then have p: "?p j = Suc m" if "j < n" for j using barD(1) [OF b that] that by blast
    then have "card (arrivals n (Suc m) ?p ?a) = n" using True by (intro arrivals_full) auto
    then show ?thesis using that [OF n] p [OF n] barD(5) [OF b n] by simp
  qed
  have "sync_step n k s \<noteq> s" using sync_step_moves [of s k n] k(2) stage_mod [OF st] by simp
  then show ?thesis using k(1) by blast
qed

text \<open>C23: nobody leaves the barrier before everybody has come: a processor that has completed one call more than another one has left while the other one is at the last
  wait of its call, no two processors are further apart, and as long as there is a processor, one of them can go on.
\<close>

theorem sync_meets:
  assumes "sync_reach n s" "i < n" "j < n"
  shows "sy_rounds s i \<le> Suc (sy_rounds s j) \<and> (sy_rounds s i = Suc (sy_rounds s j) \<longrightarrow> sy_pc s j = Sy_Wait 2) \<and> (\<exists>k < n. sync_step n k s \<noteq> s)"
proof -
  from sync_reach_inv [OF assms(1)] obtain m where st: "\<And>i. stage_of (sy_pc s i) < 3"
    and b: "bar n m (passed_waits s) (\<lambda>i. cleared (sy_pc s i)) (\<lambda>i. arrived (sy_pc s i)) (sy_lock s)" by (auto simp: sync_inv_def)
  have r: "sy_rounds s l = passed_waits s l div 3" for l using st [of l] by (simp add: passed_waits_def)
  have pq: "passed_waits s i \<le> Suc (passed_waits s j)" using barD(1) [OF b assms(2)] barD(1) [OF b assms(3)] by auto
  then have "sy_rounds s i \<le> Suc (sy_rounds s j)" unfolding r by simp
  moreover have "sy_pc s j = Sy_Wait 2" if "sy_rounds s i = Suc (sy_rounds s j)"
  proof -
    have "passed_waits s i div 3 = Suc (passed_waits s j div 3)" using that unfolding r .
    note next_stage = div3_Suc [OF pq this]
    have "arrived (sy_pc s j)" using next_stage(1) barD(1) [OF b assms(2)] barD(1) [OF b assms(3)] barD(3) [OF b assms(2,3)] by auto
    then show ?thesis using next_stage(2) stage_mod [OF st, of j] by (cases "sy_pc s j") auto
  qed
  moreover have "\<exists>k < n. sync_step n k s \<noteq> s" using sync_progress [OF st b] assms(2) by blast
  ultimately show ?thesis by blast
qed

theorem sync_meets_witness:
  "sy_rounds Sync_new 0 \<le> Suc (sy_rounds Sync_new 1) \<and> (\<exists>k < 2. sync_step 2 k Sync_new \<noteq> Sync_new)"
  using sync_meets [OF sync_reach.new [of 2], of 0 1] by simp

end
