(* ===== verification/Mkfs.thy ===== *)
theory Mkfs
  imports File_System
begin

unbundle bit_operations_syntax

text \<open>
  The program \<open>mkfs\<close> of \<open>source/tool\<close>, which makes the disk image that the kernel reads: the layout of the image, the allocation of inodes and blocks, the
  appending of bytes to a file, and \<open>main\<close>. The theory shows that the program ends and what the appending does to the blocks of a file.
\<close>

section \<open>The layout\<close>

definition BSIZE :: nat where "BSIZE = 512"
definition NDIRECT :: nat where "NDIRECT = 12"
definition NINDIRECT :: nat where "NINDIRECT = BSIZE div 4"
definition MAXFILE :: nat where "MAXFILE = NDIRECT + NINDIRECT"
definition IPB :: nat where "IPB = BSIZE div 64"
definition DIRSIZ :: nat where "DIRSIZ = 14"
definition LOGSIZE :: nat where "LOGSIZE = 10 * 3"
definition FSSIZE :: nat where "FSSIZE = 1000"
definition NINODES :: nat where "NINODES = 200"
definition ROOTINO :: u32 where "ROOTINO = 1"
definition T_DIR :: u16 where "T_DIR = 1"
definition T_FILE :: u16 where "T_FILE = 2"

definition nbitmap :: nat where
  "nbitmap = FSSIZE div (BSIZE * 8) + 1"

definition ninodeblocks :: nat where
  "ninodeblocks = NINODES div IPB + 1"

definition nmeta :: nat where
  "nmeta = 2 + LOGSIZE + ninodeblocks + nbitmap"

text \<open>On the processors that run the program, which store the low byte first, \<open>xshort\<close> and \<open>xint\<close> change nothing.\<close>

definition xshort :: "u16 \<Rightarrow> u16" where
  "xshort x = get16 0 [ucast x, ucast (drop_bit 8 x)]"

definition xint :: "u32 \<Rightarrow> u32" where
  "xint x = get32 0 [ucast x, ucast (drop_bit 8 x), ucast (drop_bit 16 x), ucast (drop_bit 24 x)]"

record dinode =
  di_type :: u16
  di_major :: u16
  di_minor :: u16
  di_nlink :: u16
  di_size :: u32
  di_addrs :: "u32 list"

definition dinode_of :: "bytes \<Rightarrow> dinode" where
  "dinode_of b = \<lparr> di_type = get16 0 b, di_major = get16 2 b, di_minor = get16 4 b, di_nlink = get16 6 b, di_size = get32 8 b,
     di_addrs = map (\<lambda>i. get32 (12 + 4 * i) b) [0..<NDIRECT + 1] \<rparr>"

definition dinode_bytes :: "dinode \<Rightarrow> bytes" where
  "dinode_bytes d = le_bytes 2 (unat (di_type d)) @ le_bytes 2 (unat (di_major d)) @ le_bytes 2 (unat (di_minor d)) @ le_bytes 2 (unat (di_nlink d)) @
     le_bytes 4 (unat (di_size d)) @ concat (map (\<lambda>a. le_bytes 4 (unat a)) (di_addrs d))"

definition super_bytes :: "SuperBlock \<Rightarrow> bytes" where
  "super_bytes sb = concat (map (\<lambda>a. le_bytes 4 (unat a))
     [sb_size sb, sb_nblocks sb, sb_ninodes sb, sb_nlog sb, sb_logstart sb, sb_inodestart sb, sb_bmapstart sb])"

text \<open>A directory entry; \<open>strncpy\<close> fills up with zeros and cuts a long name, without a terminator.\<close>

definition dirent :: "u32 \<Rightarrow> bytes \<Rightarrow> bytes" where
  "dirent inum name = le_bytes 2 (unat (xshort (ucast inum))) @ take DIRSIZ (name @ replicate DIRSIZ 0)"

section \<open>Sectors and inodes\<close>

text \<open>
  The variables of the program and the file that \<open>fsfd\<close> stands for. The program stops with \<open>exit(1)\<close> or at an assertion; \<open>None\<close> stands for not returning at all.
  Seeking and writing succeed, also behind the end of the file, where the gap is filled with zeros; reading there does not give a whole sector.
\<close>

datatype mkfs_stop = Exit1 | Assertion

type_synonym 'a mk = "(mkfs_stop + 'a) option"

record Mkfs =
  mk_fsfd :: bytes
  mk_sb :: SuperBlock
  mk_freeinode :: u32
  mk_freeblock :: u32

definition mk_bind :: "'a mk \<Rightarrow> ('a \<Rightarrow> 'b mk) \<Rightarrow> 'b mk" where
  "mk_bind r f = (case r of None \<Rightarrow> None | Some (Inl e) \<Rightarrow> Some (Inl e) | Some (Inr x) \<Rightarrow> f x)"

definition rsect :: "u32 \<Rightarrow> Mkfs \<Rightarrow> mkfs_stop + bytes" where
  "rsect sec m = (let off = unat (sec * of_nat BSIZE) in
     if off + BSIZE \<le> length (mk_fsfd m) then Inr (bytes_at off BSIZE (mk_fsfd m)) else Inl Exit1)"

definition wsect :: "u32 \<Rightarrow> bytes \<Rightarrow> Mkfs \<Rightarrow> Mkfs" where
  "wsect sec buf m = (let off = unat (sec * of_nat BSIZE); b = mk_fsfd m in
     m \<lparr> mk_fsfd := patch off buf (b @ replicate (off - length b) 0) \<rparr>)"

definition IBLOCK :: "u32 \<Rightarrow> SuperBlock \<Rightarrow> u32" where
  "IBLOCK i sb = i div of_nat IPB + sb_inodestart sb"

definition winode :: "u32 \<Rightarrow> dinode \<Rightarrow> Mkfs \<Rightarrow> mkfs_stop + Mkfs" where
  "winode inum d m = (let bn = IBLOCK inum (mk_sb m) in case rsect bn m of
       Inl e \<Rightarrow> Inl e
     | Inr buf \<Rightarrow> Inr (wsect bn (patch (64 * (unat inum mod IPB)) (dinode_bytes d) buf) m))"

definition rinode :: "u32 \<Rightarrow> Mkfs \<Rightarrow> mkfs_stop + dinode" where
  "rinode inum m = (case rsect (IBLOCK inum (mk_sb m)) m of
       Inl e \<Rightarrow> Inl e
     | Inr buf \<Rightarrow> Inr (dinode_of (bytes_at (64 * (unat inum mod IPB)) 64 buf)))"

definition ialloc :: "u16 \<Rightarrow> Mkfs \<Rightarrow> mkfs_stop + u32 \<times> Mkfs" where
  "ialloc type m = (let inum = mk_freeinode m;
       d = \<lparr> di_type = xshort type, di_major = 0, di_minor = 0, di_nlink = xshort 1, di_size = xint 0, di_addrs = replicate (NDIRECT + 1) 0 \<rparr> in
     case winode inum d (m \<lparr> mk_freeinode := inum + 1 \<rparr>) of Inl e \<Rightarrow> Inl e | Inr m' \<Rightarrow> Inr (inum, m'))"

definition balloc :: "u32 \<Rightarrow> Mkfs \<Rightarrow> mkfs_stop + Mkfs" where
  "balloc used m = (if \<not> unat used < BSIZE * 8 then Inl Assertion else
     let buf = fold (\<lambda>i buf. buf[i div 8 := buf ! (i div 8) OR push_bit (i mod 8) 1]) [0..<unat used] (replicate BSIZE 0) in
     Inr (wsect (sb_bmapstart (mk_sb m)) buf m))"

section \<open>Appending to a file\<close>

text \<open>The block of the file that has the number \<open>fbn\<close>; it is allocated, and the indirect block as well, if it is not there.\<close>

definition new_block :: "nat \<Rightarrow> dinode \<Rightarrow> Mkfs \<Rightarrow> dinode \<times> Mkfs" where
  "new_block k d m = (if xint (di_addrs d ! k) = 0
     then (d \<lparr> di_addrs := (di_addrs d)[k := xint (mk_freeblock m)] \<rparr>, m \<lparr> mk_freeblock := mk_freeblock m + 1 \<rparr>) else (d, m))"

definition iappend_block :: "dinode \<Rightarrow> nat \<Rightarrow> Mkfs \<Rightarrow> mkfs_stop + u32 \<times> dinode \<times> Mkfs" where
  "iappend_block d fbn m = (if fbn < NDIRECT then
       let (d', m') = new_block fbn d m in Inr (xint (di_addrs d' ! fbn), d', m')
     else
       let (d', m') = new_block NDIRECT d m; ind = xint (di_addrs d' ! NDIRECT); k = 4 * (fbn - NDIRECT) in
       case rsect ind m' of
         Inl e \<Rightarrow> Inl e
       | Inr indirect \<Rightarrow> if get32 k indirect = 0 then
             let indirect' = patch k (le_bytes 4 (unat (xint (mk_freeblock m')))) indirect in
             Inr (xint (get32 k indirect'), d', wsect ind indirect' (m' \<lparr> mk_freeblock := mk_freeblock m' + 1 \<rparr>))
           else Inr (xint (get32 k indirect), d', m'))"

text \<open>
  One turn of the loop. \<open>p\<close> are the bytes that are left, so that \<open>n\<close> is its length. Behind the assertion the numbers are below \<open>2^17\<close> and do not wrap around.
\<close>

definition iappend_turn :: "dinode \<Rightarrow> u32 \<Rightarrow> bytes \<Rightarrow> Mkfs \<Rightarrow> mkfs_stop + dinode \<times> u32 \<times> bytes \<times> Mkfs" where
  "iappend_turn d off p m = (let fbn = unat off div BSIZE in
     if \<not> fbn < MAXFILE then Inl Assertion else
     case iappend_block d fbn m of
       Inl e \<Rightarrow> Inl e
     | Inr (x, d', m') \<Rightarrow> let n1 = min (length p) ((fbn + 1) * BSIZE - unat off) in
         (case rsect x m' of
           Inl e \<Rightarrow> Inl e
         | Inr buf \<Rightarrow> Inr (d', off + of_nat n1, drop n1 p, wsect x (patch (unat off - fbn * BSIZE) (take n1 p) buf) m')))"

partial_function (option) iappend_loop :: "dinode \<Rightarrow> u32 \<Rightarrow> bytes \<Rightarrow> Mkfs \<Rightarrow> (dinode \<times> u32 \<times> Mkfs) mk" where
  "iappend_loop d off p m = (if p = [] then Some (Inr (d, off, m)) else
     case iappend_turn d off p m of
       Inl e \<Rightarrow> Some (Inl e)
     | Inr (d', off', p', m') \<Rightarrow> iappend_loop d' off' p' m')"

definition iappend :: "u32 \<Rightarrow> bytes \<Rightarrow> Mkfs \<Rightarrow> Mkfs mk" where
  "iappend inum xp m = (case rinode inum m of
       Inl e \<Rightarrow> Some (Inl e)
     | Inr d \<Rightarrow> mk_bind (iappend_loop d (xint (di_size d)) xp m) (\<lambda>(d', off, m'). Some (winode inum (d' \<lparr> di_size := xint off \<rparr>) m')))"

section \<open>The program\<close>

text \<open>
  \<open>reads\<close> stands for the files of the machine that runs the program: the parts that the calls of \<open>read\<close> give one after the other, up to 512 bytes each, until one
  gives nothing; \<open>None\<close> if the file cannot be opened.
\<close>

fun append_all :: "u32 \<Rightarrow> bytes list \<Rightarrow> Mkfs \<Rightarrow> Mkfs mk" where
  "append_all inum [] m = Some (Inr m)"
| "append_all inum (c # cs) m = mk_bind (iappend inum c m) (append_all inum cs)"

definition file_name :: "bytes \<Rightarrow> bytes" where
  "file_name a = (if a \<noteq> [] \<and> hd a = 95 then tl a else a)"

definition add_file :: "(bytes \<Rightarrow> bytes list option) \<Rightarrow> bytes \<Rightarrow> Mkfs \<Rightarrow> Mkfs mk" where
  "add_file reads a m = (if 47 \<in> set a then Some (Inl Assertion) else
     case reads a of
       None \<Rightarrow> Some (Inl Exit1)
     | Some parts \<Rightarrow> mk_bind (Some (ialloc T_FILE m)) (\<lambda>(inum, m1).
         mk_bind (iappend ROOTINO (dirent inum (file_name a)) m1) (append_all inum parts)))"

fun add_files :: "(bytes \<Rightarrow> bytes list option) \<Rightarrow> bytes list \<Rightarrow> Mkfs \<Rightarrow> Mkfs mk" where
  "add_files reads [] m = Some (Inr m)"
| "add_files reads (a # as) m = mk_bind (add_file reads a m) (add_files reads as)"

text \<open>The superblock, the image full of zeros, and the root directory with its two entries\<close>

definition mkfs_sb :: SuperBlock where
  "mkfs_sb = \<lparr> sb_size = xint (of_nat FSSIZE), sb_nblocks = xint (of_nat (FSSIZE - nmeta)), sb_ninodes = xint (of_nat NINODES), sb_nlog = xint (of_nat LOGSIZE),
     sb_logstart = xint 2, sb_inodestart = xint (of_nat (2 + LOGSIZE)), sb_bmapstart = xint (of_nat (2 + LOGSIZE + ninodeblocks)) \<rparr>"

definition mkfs_new :: Mkfs where
  "mkfs_new = wsect 1 (super_bytes mkfs_sb @ replicate (BSIZE - 28) 0)
     (fold (\<lambda>i. wsect (of_nat i) (replicate BSIZE 0)) [0..<FSSIZE]
       \<lparr> mk_fsfd = [], mk_sb = mkfs_sb, mk_freeinode = 1, mk_freeblock = of_nat nmeta \<rparr>)"

definition make_root :: "Mkfs \<Rightarrow> Mkfs mk" where
  "make_root m = mk_bind (Some (ialloc T_DIR m)) (\<lambda>(rootino, m1). if rootino \<noteq> ROOTINO then Some (Inl Assertion) else
     mk_bind (iappend rootino (dirent rootino [46]) m1) (iappend rootino (dirent rootino [46, 46])))"

definition fix_root :: "Mkfs \<Rightarrow> mkfs_stop + Mkfs" where
  "fix_root m = (case rinode ROOTINO m of
       Inl e \<Rightarrow> Inl e
     | Inr d \<Rightarrow> winode ROOTINO (d \<lparr> di_size := xint ((xint (di_size d) div of_nat BSIZE + 1) * of_nat BSIZE) \<rparr>) m)"

text \<open>\<open>created\<close>: the file for the image could be opened. The result is the image.\<close>

definition mkfs_main :: "bool \<Rightarrow> (bytes \<Rightarrow> bytes list option) \<Rightarrow> bytes list \<Rightarrow> bytes mk" where
  "mkfs_main created reads argv = (if length argv < 2 then Some (Inl Exit1) else if \<not> created then Some (Inl Exit1) else
     mk_bind (make_root mkfs_new) (\<lambda>m1. mk_bind (add_files reads (drop 2 argv) m1) (\<lambda>m2.
     mk_bind (Some (fix_root m2)) (\<lambda>m3. mk_bind (Some (balloc (mk_freeblock m3) m3)) (\<lambda>m4. Some (Inr (mk_fsfd m4)))))))"

section \<open>The program ends\<close>

lemmas mkfs_consts = BSIZE_def NDIRECT_def NINDIRECT_def MAXFILE_def IPB_def DIRSIZ_def LOGSIZE_def FSSIZE_def NINODES_def ROOTINO_def T_DIR_def T_FILE_def
  nbitmap_def ninodeblocks_def nmeta_def

lemma unat_byte: "unat (ucast (drop_bit k x) :: u8) = unat x div 2 ^ k mod 256" for x :: "'a :: len word"
  by (simp only: unsigned_ucast_eq unsigned_drop_bit_eq) (simp add: take_bit_eq_mod drop_bit_eq_div)

lemma xint_id [simp]: "xint x = x"
proof -
  have e: "get32 0 [a, b, c, d] = of_nat (unat a + 256 * (unat b + 256 * (unat c + 256 * unat d)))" for a b c d :: u8
    by (simp add: get32_def bytes_at_def)
  have "unat x = unat x mod 256 + 256 * (unat x div 256 mod 256 + 256 * (unat x div 256 div 256 mod 256 + 256 * (unat x div 256 div 256 div 256)))"
    by simp
  moreover have "unat x div 256 div 256 div 256 mod 256 = unat x div 256 div 256 div 256"
    using unsigned_less [of x, where ?'a = nat] by (simp add: div_mult2_eq [symmetric])
  ultimately have "unat x = unat x mod 256 + 256 * (unat x div 2 ^ 8 mod 256 + 256 * (unat x div 2 ^ 16 mod 256 + 256 * (unat x div 2 ^ 24 mod 256)))"
    by (simp add: div_mult2_eq [symmetric])
  then show ?thesis unfolding xint_def e using unat_byte [of 0 x] unat_byte [of 8 x] unat_byte [of 16 x] unat_byte [of 24 x]
    by (simp flip: word_unat_eq_iff)
qed

lemma xshort_id [simp]: "xshort x = x"
proof -
  have e: "get16 0 [a, b] = of_nat (unat a + 256 * unat b)" for a b :: u8
    by (simp add: get16_def bytes_at_def)
  have "unat x = unat x mod 256 + 256 * (unat x div 2 ^ 8 mod 256)"
    using unsigned_less [of x, where ?'a = nat] by simp
  then show ?thesis unfolding xshort_def e using unat_byte [of 0 x] unat_byte [of 8 x]
    by (simp flip: word_unat_eq_iff)
qed

text \<open>Every turn of the loop that goes on takes at least one byte.\<close>

lemma iappend_turn_shorter:
  assumes "iappend_turn d off p m = Inr (d', off', p', m')" and "p \<noteq> []"
  shows "length p' < length p"
proof -
  have "0 < (unat off div BSIZE + 1) * BSIZE - unat off"
    using dividend_less_div_times [of BSIZE "unat off"] by (simp add: BSIZE_def)
  then have "length (drop (min (length p) ((unat off div BSIZE + 1) * BSIZE - unat off)) p) < length p" using assms(2) by simp
  then show ?thesis using assms(1) by (auto simp: iappend_turn_def Let_def split: if_splits sum.splits prod.splits)
qed

lemma iappend_loop_ends: "\<exists>r. iappend_loop d off p m = Some r"
proof (induction "length p" arbitrary: d off p m rule: less_induct)
  case less
  show ?case
  proof (cases "p = []")
    case False
    then show ?thesis using less iappend_turn_shorter [of d off p m]
      by (subst iappend_loop.simps) (auto split: sum.splits)
  qed (subst iappend_loop.simps, simp)
qed

lemma mk_bind_ends: "\<exists>r. x = Some r \<Longrightarrow> (\<And>y. \<exists>r. f y = Some r) \<Longrightarrow> \<exists>r. mk_bind x f = Some r"
  by (auto simp: mk_bind_def split: sum.splits)

lemma iappend_ends: "\<exists>r. iappend inum p m = Some r"
  using iappend_loop_ends by (auto simp: iappend_def split: sum.splits intro!: mk_bind_ends)

lemma append_all_ends: "\<exists>r. append_all inum cs m = Some r"
  by (induction cs arbitrary: m) (auto intro!: mk_bind_ends iappend_ends)

lemma add_files_ends: "\<exists>r. add_files reads as m = Some r"
  by (induction as arbitrary: m) (auto simp: add_file_def split: option.splits intro!: mk_bind_ends iappend_ends append_all_ends)

text \<open>C14: \<open>mkfs\<close> ends, whatever the files are: every call of \<open>iappend\<close> leaves its loop, with the bytes appended, at an assertion, or with \<open>exit(1)\<close>,
  and so does \<open>main\<close>.
\<close>

theorem mkfs_ends: "(\<exists>r. iappend inum p m = Some r) \<and> (\<exists>r. mkfs_main created reads argv = Some r)"
  by (auto simp: mkfs_main_def make_root_def intro!: mk_bind_ends iappend_ends add_files_ends)

section \<open>The image as blocks\<close>

definition blk :: "bytes \<Rightarrow> nat \<Rightarrow> bytes" where
  "blk b q = bytes_at (q * 512) 512 b"

definition img_ok :: "Mkfs \<Rightarrow> bool" where
  "img_ok m \<longleftrightarrow> length (mk_fsfd m) = 512000 \<and> mk_sb m = mkfs_sb"

abbreviation mblk :: "Mkfs \<Rightarrow> nat \<Rightarrow> bytes" where
  "mblk m \<equiv> blk (mk_fsfd m)"

lemma length_blk [simp]: "img_ok m \<Longrightarrow> q < 1000 \<Longrightarrow> length (mblk m q) = 512"
  by (simp add: blk_def img_ok_def)

lemma blk_patch:
  assumes "q * 512 + 512 \<le> length b" "length x = 512"
  shows "blk (patch (q * 512) x b) = (blk b)(q := x)"
proof
  fix r
  consider "r = q" | "r * 512 + 512 \<le> q * 512" | "q * 512 + length x \<le> r * 512" using assms(2) by (cases "r = q"; cases "r < q") auto
  then show "blk (patch (q * 512) x b) r = ((blk b)(q := x)) r"
  proof cases
    case 1
    then show ?thesis using bytes_at_patch_same [of "q * 512" x b] assms by (simp add: blk_def)
  qed (use assms bytes_at_patch_other [of "q * 512" x b "r * 512" 512] in \<open>auto simp: blk_def\<close>)
qed

lemma sector_place: "unat sec < 1000 \<Longrightarrow> unat (sec * of_nat BSIZE :: u32) = unat sec * 512"
  by (simp add: BSIZE_def unat_word_ariths)

lemma rsect_blk: "img_ok m \<Longrightarrow> unat sec < 1000 \<Longrightarrow> rsect sec m = Inr (mblk m (unat sec))"
  unfolding rsect_def Let_def sector_place by (simp add: img_ok_def blk_def BSIZE_def)

lemma wsect_blk:
  assumes "img_ok m" "unat sec < 1000" "length x = 512"
  shows "img_ok (wsect sec x m)" "mblk (wsect sec x m) = (mblk m)(unat sec := x)"
    "mk_freeinode (wsect sec x m) = mk_freeinode m" "mk_freeblock (wsect sec x m) = mk_freeblock m"
  using assms blk_patch [of "unat sec" "mk_fsfd m" x] unfolding wsect_def Let_def sector_place [OF assms(2)] by (simp_all add: img_ok_def)

section \<open>The blocks of a file\<close>

text \<open>
  The addresses \<open>as\<close> of an inode lead to the blocks of the file, from the thirteenth on through the indirect block. \<open>bmap B f n as\<close>: the file has \<open>n\<close> blocks, they are
  different and were allocated before block \<open>f\<close>, and there is nothing behind them.
\<close>

definition baddr :: "(nat \<Rightarrow> bytes) \<Rightarrow> u32 list \<Rightarrow> nat \<Rightarrow> u32" where
  "baddr B as i = (if i < 12 then as ! i else get32 (4 * (i - 12)) (B (unat (as ! 12))))"

definition bused :: "(nat \<Rightarrow> bytes) \<Rightarrow> nat \<Rightarrow> u32 list \<Rightarrow> nat list" where
  "bused B n as = map (\<lambda>i. unat (baddr B as i)) [0..<n] @ (if 12 < n then [unat (as ! 12)] else [])"

definition bmap :: "(nat \<Rightarrow> bytes) \<Rightarrow> nat \<Rightarrow> nat \<Rightarrow> u32 list \<Rightarrow> bool" where
  "bmap B f n as \<longleftrightarrow> length as = 13 \<and> n \<le> 140 \<and> distinct (bused B n as) \<and> set (bused B n as) \<subseteq> {59..<f} \<and>
     (\<forall>i. n \<le> i \<and> i < 140 \<and> (i < 12 \<or> 12 < n) \<longrightarrow> baddr B as i = 0) \<and> (n \<le> 12 \<longrightarrow> as ! 12 = 0)"

definition zero_from :: "(nat \<Rightarrow> bytes) \<Rightarrow> nat \<Rightarrow> bool" where
  "zero_from B f \<longleftrightarrow> (\<forall>q. f \<le> q \<and> q < 1000 \<longrightarrow> B q = replicate 512 0)"

definition fdata :: "(nat \<Rightarrow> bytes) \<Rightarrow> nat \<Rightarrow> u32 list \<Rightarrow> bytes" where
  "fdata B n as = concat (map (\<lambda>i. B (unat (baddr B as i))) [0..<n])"

text \<open>Only blocks of the file, old or new, have been written to.\<close>

definition frame :: "nat \<Rightarrow> nat set \<Rightarrow> (nat \<Rightarrow> bytes) \<Rightarrow> nat \<Rightarrow> nat set \<Rightarrow> (nat \<Rightarrow> bytes) \<Rightarrow> bool" where
  "frame f U B f' U' B' \<longleftrightarrow> f \<le> f' \<and> U' \<subseteq> U \<union> {f..<f'} \<and> (\<forall>q < f. q \<notin> U \<longrightarrow> B' q = B q)"

lemma frame_trans: "frame f U B f' U' B' \<Longrightarrow> frame f' U' B' f'' U'' B'' \<Longrightarrow> frame f U B f'' U'' B''"
  unfolding frame_def by (intro conjI) (force, force, metis UnE atLeastLessThan_iff leD order_less_le_trans subsetD)

text \<open>A block is appended to the list, first among the direct ones.\<close>

lemma bmap_direct:
  assumes b: "bmap B f n as" and n: "n < 12" and f: "59 \<le> f" "f < 1000"
  shows "bmap B (Suc f) (Suc n) (as[n := of_nat f])" and "i < n \<Longrightarrow> baddr B (as[n := of_nat f]) i = baddr B as i"
    and "baddr B (as[n := of_nat f]) n = of_nat f"
proof -
  let ?as = "as[n := of_nat f :: u32]"
  have u: "unat (of_nat f :: u32) = f" using f by (simp add: unat_of_nat)
  have l: "length as = 13" using b by (simp add: bmap_def)
  show same: "baddr B ?as i = baddr B as i" if "i < n" for i using that n l by (simp add: baddr_def)
  show new: "baddr B ?as n = of_nat f" using n l by (simp add: baddr_def)
  have us: "bused B (Suc n) ?as = bused B n as @ [f]" using n same new u by (simp add: bused_def)
  have "set (bused B n as) \<subseteq> {59..<f}" "distinct (bused B n as)" using b by (auto simp: bmap_def)
  then have "distinct (bused B (Suc n) ?as)" "set (bused B (Suc n) ?as) \<subseteq> {59..<Suc f}" unfolding us using f by force+
  moreover have "baddr B ?as i = 0" if "Suc n \<le> i" "i < 140" "i < 12 \<or> 12 < Suc n" for i
  proof -
    have "i < 12" using that n by auto
    then have "baddr B as i = 0" using b that unfolding bmap_def by auto
    then show ?thesis using \<open>i < 12\<close> that(1) by (simp add: baddr_def)
  qed
  ultimately show "bmap B (Suc f) (Suc n) ?as" using b n l by (auto simp: bmap_def)
qed

text \<open>From the thirteenth block on the address goes into the indirect block.\<close>

lemma get32_patch:
  assumes "j < 128" "k < 128" "length b = 512" "v < 2 ^ 32"
  shows "get32 (4 * j) (patch (4 * k) (le_bytes 4 v) b) = (if j = k then of_nat v else get32 (4 * j) b)"
proof (cases "j = k")
  case True
  then show ?thesis using assms bytes_at_patch_same [of "4 * k" "le_bytes 4 v" b] by (simp add: get32_def del: le_bytes.simps)
next
  case False
  then have "bytes_at (4 * j) 4 (patch (4 * k) (le_bytes 4 v) b) = bytes_at (4 * j) 4 b"
    using assms by (intro bytes_at_patch_other) auto
  then show ?thesis using False by (simp add: get32_def)
qed

lemma bmap_indirect:
  assumes l: "length as = 13" and n: "12 \<le> n" "n < 140" and g: "g = unat (as ! 12)" and bg: "length (B g) = 512" and f: "59 \<le> f" "f < 1000"
    and d: "distinct (map (\<lambda>i. unat (baddr B as i)) [0..<n] @ [g])" and s: "set (map (\<lambda>i. unat (baddr B as i)) [0..<n] @ [g]) \<subseteq> {59..<f}"
    and z: "\<And>i. n \<le> i \<Longrightarrow> i < 140 \<Longrightarrow> baddr B as i = 0" and B': "B' = B(g := patch (4 * (n - 12)) (le_bytes 4 f) (B g))"
  shows "bmap B' (Suc f) (Suc n) as" and "i < n \<Longrightarrow> baddr B' as i = baddr B as i" and "baddr B' as n = of_nat f"
    and "bused B' (Suc n) as = map (\<lambda>i. unat (baddr B as i)) [0..<n] @ [f, g]"
proof -
  have u: "unat (of_nat f :: u32) = f" using f by (simp add: unat_of_nat)
  have a: "baddr B' as i = (if i = n then of_nat f else baddr B as i)" if "i < 140" for i
  proof (cases "i < 12")
    case False
    then show ?thesis using that n get32_patch [of "i - 12" "n - 12" "B g" f] bg f by (auto simp: baddr_def B' g [symmetric])
  qed (use n in \<open>simp add: baddr_def\<close>)
  show "baddr B' as i = baddr B as i" if "i < n" for i using a that n by simp
  show "baddr B' as n = of_nat f" using a n by simp
  have "map (\<lambda>i. unat (baddr B' as i)) [0..<n] = map (\<lambda>i. unat (baddr B as i)) [0..<n]" using a n by simp
  then show us: "bused B' (Suc n) as = map (\<lambda>i. unat (baddr B as i)) [0..<n] @ [f, g]" using n u a by (simp add: bused_def g)
  have "f \<notin> set (map (\<lambda>i. unat (baddr B as i)) [0..<n] @ [g])" using s by auto
  then have "distinct (bused B' (Suc n) as)" "set (bused B' (Suc n) as) \<subseteq> {59..<Suc f}" unfolding us using d s f by auto
  moreover have "baddr B' as i = 0" if "Suc n \<le> i" "i < 140" for i using a z that by simp
  ultimately show "bmap B' (Suc f) (Suc n) as" using l n by (simp add: bmap_def)
qed

text \<open>What the allocation of one more block does\<close>

definition grown :: "(nat \<Rightarrow> bytes) \<Rightarrow> nat \<Rightarrow> nat \<Rightarrow> u32 list \<Rightarrow> (nat \<Rightarrow> bytes) \<Rightarrow> nat \<Rightarrow> u32 list \<Rightarrow> bool" where
  "grown B f n as B' f' as' \<longleftrightarrow> bmap B' f' (Suc n) as' \<and> zero_from B' f' \<and>
     (\<forall>i < n. baddr B' as' i = baddr B as i \<and> B' (unat (baddr B as i)) = B (unat (baddr B as i))) \<and>
     B' (unat (baddr B' as' n)) = replicate 512 0 \<and> frame f (set (bused B n as)) B f' (set (bused B' (Suc n) as')) B'"

lemma bused_data: "i < n \<Longrightarrow> unat (baddr B as i) \<in> set (bused B n as)"
  by (simp add: bused_def)

lemma bmap_data: "bmap B f n as \<Longrightarrow> i < n \<Longrightarrow> unat (baddr B as i) \<in> {59..<f}"
  using bused_data unfolding bmap_def by blast

lemma bmap_inj:
  assumes "bmap B f n as" "i < n" "j < n" "i \<noteq> j"
  shows "unat (baddr B as i) \<noteq> unat (baddr B as j)"
proof -
  have "distinct (map (\<lambda>i. unat (baddr B as i)) [0..<n])" using assms(1) by (simp add: bmap_def bused_def)
  then have "inj_on (\<lambda>i. unat (baddr B as i)) {0..<n}" by (simp add: distinct_map)
  from inj_onD [OF this] show ?thesis using assms by force
qed

lemma grown_direct:
  assumes b: "bmap B f n as" and n: "n < 12" and f: "59 \<le> f" "f < 1000" and z: "zero_from B f"
  shows "grown B f n as B (Suc f) (as[n := of_nat f])"
proof -
  have u: "unat (of_nat f :: u32) = f" using f by (simp add: unat_of_nat)
  note d = bmap_direct [OF b n f]
  have us: "bused B (Suc n) (as[n := of_nat f]) = bused B n as @ [f]" using n d(2,3) u by (simp add: bused_def)
  show ?thesis unfolding grown_def frame_def us using d u z f by (auto simp: zero_from_def)
qed

lemma grown_first_indirect:
  assumes b: "bmap B f 12 as" and f: "59 \<le> f" "Suc f < 1000" and z: "zero_from B f"
    and B': "B' = B(f := patch 0 (le_bytes 4 (Suc f)) (B f))"
  shows "grown B f 12 as B' (Suc (Suc f)) (as[12 := of_nat f])"
proof -
  let ?as = "as[12 := of_nat f :: u32]"
  have u: "unat (of_nat f :: u32) = f" "unat (of_nat (Suc f) :: u32) = Suc f" using f by (simp_all only: unat_of_nat) simp_all
  have l: "length as = 13" "distinct (bused B 12 as)" "set (bused B 12 as) \<subseteq> {59..<f}" using b by (auto simp: bmap_def)
  have bf: "B f = replicate 512 0" using z f by (simp add: zero_from_def)
  have same: "baddr B ?as i = baddr B as i" if "i < 12" for i using that by (simp add: baddr_def)
  then have us: "map (\<lambda>i. unat (baddr B ?as i)) [0..<12] = bused B 12 as" by (simp add: bused_def)
  have z0: "baddr B ?as i = 0" if "12 \<le> i" "i < 140" for i
  proof -
    have "bytes_at (4 * (i - 12)) 4 (replicate 512 0) = replicate 4 0" using that by (simp add: bytes_at_def)
    then show ?thesis using that l(1) u(1) bf by (simp add: baddr_def get32_def)
  qed
  have g: "f = unat (?as ! 12)" using l(1) u(1) by simp
  note d = bmap_indirect [where as = ?as and n = 12 and g = f and B = B and f = "Suc f" and B' = B', OF _ _ _ g]
  have "distinct (map (\<lambda>i. unat (baddr B ?as i)) [0..<12] @ [f])" "set (map (\<lambda>i. unat (baddr B ?as i)) [0..<12] @ [f]) \<subseteq> {59..<Suc f}"
    unfolding us using l f(1) by force+
  note d = d [OF _ _ _ _ _ _ this z0]
  have bm: "bmap B' (Suc (Suc f)) 13 ?as" and eq: "\<And>i. i < 12 \<Longrightarrow> baddr B' ?as i = baddr B as i" and new: "baddr B' ?as 12 = of_nat (Suc f)"
    and bu: "bused B' 13 ?as = bused B 12 as @ [Suc f, f]"
    using d l(1) bf f us same B' by simp_all
  have keep: "B' (unat (baddr B as i)) = B (unat (baddr B as i))" if "i < 12" for i using bmap_data [OF b that] by (simp add: B')
  have "zero_from B' (Suc (Suc f))" "B' (Suc f) = replicate 512 0" "\<And>q. q < f \<Longrightarrow> B' q = B q" using z f by (auto simp: zero_from_def B')
  then show ?thesis unfolding grown_def frame_def using bm eq new bu u keep by auto
qed

lemma grown_indirect:
  assumes b: "bmap B f n as" and n: "12 < n" "n < 140" and f: "59 \<le> f" "f < 1000" and z: "zero_from B f" and bl: "\<And>q. q < 1000 \<Longrightarrow> length (B q) = 512"
    and B': "B' = B(unat (as ! 12) := patch (4 * (n - 12)) (le_bytes 4 f) (B (unat (as ! 12))))"
  shows "grown B f n as B' (Suc f) as"
proof -
  let ?g = "unat (as ! 12)"
  have u: "unat (of_nat f :: u32) = f" using f by (simp add: unat_of_nat)
  have us: "bused B n as = map (\<lambda>i. unat (baddr B as i)) [0..<n] @ [?g]" using n by (simp add: bused_def)
  have l: "length as = 13" "distinct (bused B n as)" "set (bused B n as) \<subseteq> {59..<f}" "\<And>i. n \<le> i \<Longrightarrow> i < 140 \<Longrightarrow> baddr B as i = 0"
    using b n by (auto simp: bmap_def)
  have g: "?g \<in> {59..<f}" using l(3) us by auto
  note d = bmap_indirect [OF l(1) _ n(2) refl _ f l(2,3) [unfolded us] l(4) B']
  have bm: "bmap B' (Suc f) (Suc n) as" and eq: "\<And>i. i < n \<Longrightarrow> baddr B' as i = baddr B as i" and new: "baddr B' as n = of_nat f"
    and bu: "set (bused B' (Suc n) as) = set (bused B n as) \<union> {f}"
    using d n bl [of ?g] g f unfolding us by auto
  have "unat (baddr B as i) \<noteq> ?g" if "i < n" for i using that l(2) unfolding us by force
  then have keep: "B' (unat (baddr B as i)) = B (unat (baddr B as i))" if "i < n" for i using that by (simp add: B')
  have gi: "?g \<in> set (bused B n as)" using us by simp
  have out: "B' q = B q" if "q \<notin> set (bused B n as)" for q using that gi by (auto simp: B')
  have "zero_from B' (Suc f)" "B' f = replicate 512 0" using z g f by (auto simp: zero_from_def B')
  then show ?thesis unfolding grown_def frame_def using bm eq new bu u keep out by auto
qed

text \<open>The number of blocks that a file of \<open>l\<close> bytes needs, with and without the indirect block\<close>

definition nb :: "nat \<Rightarrow> nat" where
  "nb l = (l + 511) div 512"

definition need :: "nat \<Rightarrow> nat" where
  "need l = nb l + (if 12 < nb l then 1 else 0)"

lemma nb_mono: "l \<le> l' \<Longrightarrow> nb l \<le> nb l'"
  by (simp add: nb_def div_le_mono)

lemma need_mono: "l \<le> l' \<Longrightarrow> need l \<le> need l'"
  using nb_mono [of l l'] by (auto simp: need_def)

lemma need_nb: "nb l = nb l' \<Longrightarrow> need l = need l'"
  by (simp add: need_def)

lemma nb_split: "nb l = l div 512 + (if l mod 512 = 0 then 0 else 1)"
proof -
  have "l + 511 = l div 512 * 512 + (l mod 512 + 511)" by simp
  then have "nb l = l div 512 + (l mod 512 + 511) div 512" unfolding nb_def by (metis add.commute div_mult_self3 zero_neq_numeral)
  moreover have "(l mod 512 + 511) div 512 = (if l mod 512 = 0 then 0 else 1)"
  proof (cases "l mod 512 = 0")
    case False
    then obtain k where "l mod 512 = Suc k" by (cases "l mod 512") auto
    moreover have "l mod 512 < 512" by simp
    ultimately show ?thesis by (simp add: div_nat_eqI)
  qed simp
  ultimately show ?thesis by simp
qed

text \<open>A file with the contents \<open>c\<close>, whose blocks are among those allocated before \<open>f\<close>; the rest of its last block is zero.\<close>

definition fstate :: "(nat \<Rightarrow> bytes) \<Rightarrow> nat \<Rightarrow> u32 list \<Rightarrow> bytes \<Rightarrow> bool" where
  "fstate B f as c \<longleftrightarrow> bmap B f (nb (length c)) as \<and> fdata B (nb (length c)) as = c @ replicate (512 * nb (length c) - length c) 0"

definition fblocks :: "(nat \<Rightarrow> bytes) \<Rightarrow> u32 list \<Rightarrow> bytes \<Rightarrow> nat set" where
  "fblocks B as c = set (bused B (nb (length c)) as)"

text \<open>The variables: the image has all its blocks, \<open>f\<close> is the next free one, and it is zero like all after it.\<close>

definition mstate :: "nat \<Rightarrow> Mkfs \<Rightarrow> bool" where
  "mstate f m \<longleftrightarrow> img_ok m \<and> mk_freeblock m = of_nat f \<and> 59 \<le> f \<and> f \<le> 1000 \<and> zero_from (mblk m) f"

lemma freeblock_nat: "f < 1000 \<Longrightarrow> unat (of_nat f :: u32) = f" "f < 1000 \<Longrightarrow> 0 < f \<Longrightarrow> (of_nat f :: u32) \<noteq> 0"
proof -
  show u: "unat (of_nat f :: u32) = f" if "f < 1000" using that by (simp add: unat_of_nat)
  show "(of_nat f :: u32) \<noteq> 0" if "f < 1000" "0 < f" using u [OF that(1)] that(2) by auto
qed

lemma select_new:
  assumes m: "mstate f m" and b: "bmap (mblk m) f n (di_addrs d)" and n: "n < 140" and r: "f + (if n = 12 then 2 else 1) \<le> 1000"
  shows "\<exists>x as' m'. iappend_block d n m = Inr (x, d \<lparr> di_addrs := as' \<rparr>, m') \<and> x = baddr (mblk m') as' n \<and>
    mstate (f + (if n = 12 then 2 else 1)) m' \<and> mk_freeinode m' = mk_freeinode m \<and>
    grown (mblk m) f n (di_addrs d) (mblk m') (f + (if n = 12 then 2 else 1)) as'"
proof -
  let ?B = "mblk m" and ?as = "di_addrs d"
  have ok: "img_ok m" "mk_freeblock m = of_nat f" "59 \<le> f" "zero_from ?B f" using m by (auto simp: mstate_def)
  have l: "length ?as = 13" using b by (simp add: bmap_def)
  have f: "f < 1000" using r by (auto split: if_splits)
  note fn = freeblock_nat [OF f]
  consider "n < 12" | "n = 12" | "12 < n" by linarith
  then show ?thesis
  proof cases
    case 1
    let ?m = "m \<lparr> mk_freeblock := of_nat (Suc f) \<rparr>" and ?as' = "?as[n := of_nat f]"
    have "baddr ?B ?as n = 0" using b n 1 by (simp add: bmap_def)
    then have "?as ! n = 0" using 1 by (simp add: baddr_def)
    then have "iappend_block d n m = Inr (of_nat f, d \<lparr> di_addrs := ?as' \<rparr>, ?m)"
      using 1 l ok by (simp add: iappend_block_def new_block_def NDIRECT_def add.commute)
    moreover have "grown ?B f n ?as ?B (Suc f) ?as'" using grown_direct [OF b 1 ok(3) f ok(4)] .
    moreover have "mstate (Suc f) ?m" using ok r f by (auto simp: mstate_def img_ok_def zero_from_def)
    ultimately show ?thesis using 1 bmap_direct(3) [OF b 1 ok(3) f] by (intro exI [of _ "of_nat f"] exI [of _ ?as'] exI [of _ ?m]) simp
  next
    case 2
    let ?m1 = "m \<lparr> mk_freeblock := of_nat (Suc f) \<rparr>" and ?as' = "?as[12 := of_nat f]"
    let ?i = "patch 0 (le_bytes 4 (Suc f)) (?B f)"
    let ?m = "wsect (of_nat f) ?i (?m1 \<lparr> mk_freeblock := of_nat (Suc (Suc f)) \<rparr>)"
    have f1: "Suc f < 1000" using r 2 by simp
    have bf: "?B f = replicate 512 0" using ok f by (simp add: zero_from_def)
    have li: "length ?i = 512" using bf by simp
    have ok1: "img_ok (?m1 \<lparr> mk_freeblock := of_nat (Suc (Suc f)) \<rparr>)" "img_ok ?m1" using ok by (simp_all add: img_ok_def)
    note w = wsect_blk [OF ok1(1) _ li, of "of_nat f", unfolded fn(1), OF f]
    have g0: "get32 0 (?B f) = 0" by (simp add: get32_def bf bytes_at_def)
    have g1: "get32 0 ?i = of_nat (Suc f)" using get32_patch [of 0 0 "?B f" "Suc f"] bf f1 by simp
    have a12: "?as ! 12 = 0" using b 2 by (simp add: bmap_def)
    have rs: "rsect (of_nat f) ?m1 = Inr (?B f)" using rsect_blk [OF ok1(2), of "of_nat f"] fn f by simp
    have "new_block NDIRECT d m = (d \<lparr> di_addrs := ?as' \<rparr>, ?m1)" using a12 ok by (simp add: new_block_def NDIRECT_def add.commute)
    moreover have "of_nat (Suc (Suc f)) = (1 + of_nat (Suc f) :: u32)" by (rule of_nat_Suc)
    ultimately have "iappend_block d n m = Inr (of_nat (Suc f), d \<lparr> di_addrs := ?as' \<rparr>, ?m)"
      using 2 l rs g0 g1 freeblock_nat(1) [OF f1] by (simp add: iappend_block_def NDIRECT_def Let_def add.commute del: of_nat_Suc)
    moreover have gr: "grown ?B f 12 ?as (mblk ?m) (Suc (Suc f)) ?as'" using grown_first_indirect [OF _ ok(3) f1 ok(4)] b 2 w(2) by simp
    moreover have "baddr (mblk ?m) ?as' 12 = of_nat (Suc f)" using w(2) l fn g1 by (simp add: baddr_def)
    moreover have "mstate (Suc (Suc f)) ?m" using w(1,4) gr ok f1 by (simp add: mstate_def grown_def)
    ultimately show ?thesis using 2 w(3) by (intro exI [of _ "of_nat (Suc f)"] exI [of _ ?as'] exI [of _ ?m]) simp
  next
    case 3
    let ?g = "?as ! 12" and ?k = "4 * (n - 12)"
    let ?i = "patch ?k (le_bytes 4 f) (?B (unat ?g))"
    let ?m = "wsect ?g ?i (m \<lparr> mk_freeblock := of_nat (Suc f) \<rparr>)"
    have "unat ?g \<in> set (bused ?B n ?as)" using 3 by (simp add: bused_def)
    then have g: "59 \<le> unat ?g" "unat ?g < f" using b unfolding bmap_def by force+
    then have g0: "?g \<noteq> 0" "unat ?g < 1000" using f by auto
    have lb: "length (?B (unat ?g)) = 512" using ok g0 by simp
    then have li: "length ?i = 512" using n by simp
    have ok1: "img_ok (m \<lparr> mk_freeblock := of_nat (Suc f) \<rparr>)" using ok by (simp add: img_ok_def)
    note w = wsect_blk [OF ok1 g0(2) li]
    have z: "get32 ?k (?B (unat ?g)) = 0"
    proof -
      have "baddr ?B ?as n = 0" using b n 3 by (simp add: bmap_def)
      then show ?thesis using 3 by (simp add: baddr_def)
    qed
    have g1: "get32 ?k ?i = of_nat f" using get32_patch [of "n - 12" "n - 12" "?B (unat ?g)" f] lb n f by simp
    have "iappend_block d n m = Inr (of_nat f, d \<lparr> di_addrs := ?as \<rparr>, ?m)"
      using 3 g0 z g1 rsect_blk [OF ok(1) g0(2)] ok fn by (simp add: iappend_block_def new_block_def NDIRECT_def Let_def add.commute)
    moreover have gr: "grown ?B f n ?as (mblk ?m) (Suc f) ?as" using grown_indirect [OF b 3 n ok(3) f ok(4)] w(2) ok(1) by simp
    moreover have "baddr (mblk ?m) ?as n = of_nat f" using 3 w(2) g1 by (simp add: baddr_def)
    moreover have "mstate (Suc f) ?m" using w(1,4) gr ok f by (simp add: mstate_def grown_def)
    ultimately show ?thesis using 3 w(3) by (intro exI [of _ "of_nat f"] exI [of _ ?as] exI [of _ ?m]) simp
  qed
qed

lemma bmap_indirect_block:
  assumes "bmap B f n as" "12 < n"
  shows "59 \<le> unat (as ! 12)" "unat (as ! 12) < f"
proof -
  have "unat (as ! 12) \<in> set (bused B n as)" using assms(2) by (simp add: bused_def)
  then show "59 \<le> unat (as ! 12)" "unat (as ! 12) < f" using assms(1) unfolding bmap_def by force+
qed

lemma select_old:
  assumes m: "mstate f m" and b: "bmap (mblk m) f n (di_addrs d)" and i: "i < n"
  shows "iappend_block d i m = Inr (baddr (mblk m) (di_addrs d) i, d, m)"
proof (cases "i < 12")
  case True
  have "baddr (mblk m) (di_addrs d) i \<noteq> 0" using bmap_data [OF b i] by auto
  then show ?thesis using True by (simp add: iappend_block_def new_block_def NDIRECT_def baddr_def)
next
  case False
  let ?g = "di_addrs d ! 12"
  have g: "59 \<le> unat ?g" "unat ?g < f" using bmap_indirect_block [OF b] False i by auto
  then have "?g \<noteq> 0" "unat ?g < 1000" using m by (auto simp: mstate_def)
  moreover have "baddr (mblk m) (di_addrs d) i \<noteq> 0" using bmap_data [OF b i] by auto
  ultimately show ?thesis using False m rsect_blk [of m ?g] by (simp add: iappend_block_def new_block_def NDIRECT_def baddr_def mstate_def)
qed

lemma length_fdata:
  assumes "bmap B f n as" "f \<le> 1000" "\<And>q. q < 1000 \<Longrightarrow> length (B q) = 512" "k \<le> n"
  shows "length (fdata B k as) = 512 * k"
  using assms(4)
proof (induction k)
  case (Suc k)
  then have "length (B (unat (baddr B as k))) = 512" using bmap_data [OF assms(1), of k] assms(2,3) by auto
  then show ?case using Suc by (simp add: fdata_def)
qed (simp add: fdata_def)

lemma fdata_Suc: "fdata B (Suc k) as = fdata B k as @ B (unat (baddr B as k))"
  by (simp add: fdata_def)

lemma fdata_cong: "(\<And>i. i < n \<Longrightarrow> B' (unat (baddr B' as' i)) = B (unat (baddr B as i))) \<Longrightarrow> fdata B' n as' = fdata B n as"
  unfolding fdata_def by (metis (no_types, lifting) atLeastLessThan_iff map_cong set_upt)

lemma nb_next: "nb (512 * k + 1) = Suc k"
  by (simp add: nb_def)

lemma nb_mult: "nb (512 * k) = k"
  by (simp add: nb_def)

lemma select_ok:
  assumes m: "mstate f m" and s: "fstate (mblk m) f (di_addrs d) c" and k: "k = length c div 512" "k < 140"
    and f': "f' = f + (need (512 * k + 1) - need (length c))" "f' \<le> 1000"
  shows "\<exists>x as' m'. iappend_block d k m = Inr (x, d \<lparr> di_addrs := as' \<rparr>, m') \<and> x = baddr (mblk m') as' k \<and> mstate f' m' \<and> mk_freeinode m' = mk_freeinode m \<and>
    bmap (mblk m') f' (Suc k) as' \<and> fdata (mblk m') (Suc k) as' = c @ replicate (512 * Suc k - length c) 0 \<and>
    frame f (fblocks (mblk m) (di_addrs d) c) (mblk m) f' (set (bused (mblk m') (Suc k) as')) (mblk m')"
proof (cases "length c mod 512 = 0")
  case False
  let ?B = "mblk m" and ?as = "di_addrs d"
  have n: "nb (length c) = Suc k" using False k(1) nb_split [of "length c"] by simp
  then have ff: "f' = f" using f'(1) need_nb [of "512 * k + 1" "length c"] nb_next by simp
  have b: "bmap ?B f (Suc k) ?as" and c: "fdata ?B (Suc k) ?as = c @ replicate (512 * Suc k - length c) 0" using s n by (simp_all add: fstate_def)
  show ?thesis using select_old [OF m b, of k] b c ff m n
    by (intro exI [of _ "baddr ?B ?as k"] exI [of _ ?as] exI [of _ m]) (simp add: frame_def fblocks_def)
next
  case True
  let ?B = "mblk m" and ?as = "di_addrs d"
  have n: "nb (length c) = k" using True k(1) nb_split [of "length c"] by simp
  have lc: "length c = 512 * k" using True k(1) by (metis mult_div_mod_eq add.right_neutral)
  have ff: "f' = f + (if k = 12 then 2 else 1)" using f'(1) n nb_next [of k] by (auto simp: need_def)
  have b: "bmap ?B f k ?as" and c: "fdata ?B k ?as = c" using s n lc by (simp_all add: fstate_def)
  from select_new [OF m b k(2)] ff f'(2) obtain x as' m' where r: "iappend_block d k m = Inr (x, d \<lparr> di_addrs := as' \<rparr>, m')" "x = baddr (mblk m') as' k"
    "mstate f' m'" "mk_freeinode m' = mk_freeinode m" and g: "grown ?B f k ?as (mblk m') f' as'" by auto
  have "fdata (mblk m') k as' = c" using c g by (subst fdata_cong [of k "mblk m'" as' ?B ?as]) (auto simp: grown_def)
  then have "fdata (mblk m') (Suc k) as' = c @ replicate (512 * Suc k - length c) 0" using g lc by (simp add: fdata_Suc grown_def)
  then show ?thesis using r g n by (intro exI [of _ x] exI [of _ as'] exI [of _ m']) (simp add: grown_def fblocks_def)
qed

text \<open>One turn appends up to the end of the block.\<close>

lemma patch_append: "patch (length u + r) t (u @ v) = u @ patch r t v"
  by (simp add: patch_def)

lemma patch_zeros: "length t \<le> n \<Longrightarrow> patch (length c) t (c @ replicate n 0) = c @ t @ replicate (n - length t) 0"
  by (simp add: patch_def)

lemma bmap_write:
  assumes b: "bmap B f (Suc k) as" and f: "f \<le> 1000" and x: "x = unat (baddr B as k)"
  shows "baddr (B(x := y)) as = baddr B as" "bused (B(x := y)) (Suc k) as = bused B (Suc k) as" "bmap (B(x := y)) f (Suc k) as"
    "fdata (B(x := y)) k as = fdata B k as" "x \<in> set (bused B (Suc k) as)" "x < f"
proof -
  have d: "distinct (bused B (Suc k) as)" using b by (simp add: bmap_def)
  show xb: "x \<in> set (bused B (Suc k) as)" using x bused_data by blast
  have xr: "x \<in> {59..<f}" using bmap_data [OF b, of k] x by simp
  then show "x < f" by simp
  have "x \<noteq> unat (as ! 12)"
  proof (cases "12 < Suc k")
    case True
    then show ?thesis using d x by (simp add: bused_def)
  next
    case False
    then have "as ! 12 = 0" using b by (simp add: bmap_def)
    then show ?thesis using xr by auto
  qed
  then show a: "baddr (B(x := y)) as = baddr B as" by (auto simp: baddr_def)
  then show u: "bused (B(x := y)) (Suc k) as = bused B (Suc k) as" by (simp add: bused_def)
  show "bmap (B(x := y)) f (Suc k) as" using b unfolding bmap_def a u .
  have "unat (baddr B as i) \<noteq> x" if "i < k" for i using bmap_inj [OF b, of i k] that x by simp
  then show "fdata (B(x := y)) k as = fdata B k as" by (intro fdata_cong) (simp add: a)
qed

lemma block_rest: "(l div 512 + 1) * 512 - l = 512 - l mod 512" "l - l div 512 * 512 = l mod 512" "l + n - 512 * (l div 512) = l mod 512 + n" for l :: nat
proof -
  obtain k r where l: "l = 512 * k + r" "r < 512" using mult_div_mod_eq [of 512 l] by (metis mod_less_divisor zero_less_numeral)
  then have "l div 512 = k" "l mod 512 = r" by (simp_all add: div_nat_eqI)
  then show "(l div 512 + 1) * 512 - l = 512 - l mod 512" "l - l div 512 * 512 = l mod 512" "l + n - 512 * (l div 512) = l mod 512 + n" using l by simp_all
qed

lemma turn_ok:
  assumes m: "mstate f m" and s: "fstate (mblk m) f (di_addrs d) c" and p: "p \<noteq> []" and l: "length c + length p \<le> 71680"
    and n1: "n1 = min (length p) (512 - length c mod 512)" and f': "f' = f + (need (length c + n1) - need (length c))" "f' \<le> 1000"
  shows "\<exists>as' m'. iappend_turn d (of_nat (length c)) p m = Inr (d \<lparr> di_addrs := as' \<rparr>, of_nat (length c + n1), drop n1 p, m') \<and> mstate f' m' \<and>
    mk_freeinode m' = mk_freeinode m \<and> fstate (mblk m') f' as' (c @ take n1 p) \<and>
    frame f (fblocks (mblk m) (di_addrs d) c) (mblk m) f' (fblocks (mblk m') as' (c @ take n1 p)) (mblk m')"
proof -
  let ?k = "length c div 512" and ?r = "length c mod 512"
  have pos: "0 < n1" using p by (simp add: n1)
  have lc: "length c = 512 * ?k + ?r" "?r < 512" by simp_all
  have k: "?k < 140" using l p by (cases p) (auto simp: less_mult_imp_div_less)
  have rn: "?r + n1 \<le> 512" unfolding n1 by simp
  have nb1: "nb (length c + n1) = Suc ?k"
  proof -
    have "length c + n1 + 511 = 512 * Suc ?k + (?r + n1 - 1)" "?r + n1 - 1 < 512" using pos rn lc by auto
    then show ?thesis unfolding nb_def by (simp add: div_nat_eqI)
  qed
  have "f' = f + (need (512 * ?k + 1) - need (length c))" using f'(1) need_nb [of "length c + n1" "512 * ?k + 1"] nb1 nb_next by simp
  from select_ok [OF m s refl k this f'(2)] obtain x as1 m1 where sel: "iappend_block d ?k m = Inr (x, d \<lparr> di_addrs := as1 \<rparr>, m1)" "x = baddr (mblk m1) as1 ?k"
    and m1: "mstate f' m1" "mk_freeinode m1 = mk_freeinode m" and b1: "bmap (mblk m1) f' (Suc ?k) as1" and c1: "fdata (mblk m1) (Suc ?k) as1 = c @ replicate (512 * Suc ?k - length c) 0"
    and fr: "frame f (fblocks (mblk m) (di_addrs d) c) (mblk m) f' (set (bused (mblk m1) (Suc ?k) as1)) (mblk m1)" by blast
  have u: "unat (of_nat (length c) :: u32) = length c" using l by (simp add: unat_of_nat)
  let ?t = "take n1 p" and ?y = "patch ?r (take n1 p) (mblk m1 (unat x))"
  let ?m = "wsect x ?y m1"
  have ok1: "img_ok m1" using m1 by (simp add: mstate_def)
  note w = bmap_write(1-4) [OF b1 f'(2) refl, where y = ?y, folded sel(2)] bmap_write(5,6) [OF b1 f'(2) refl, folded sel(2)]
  have x: "unat x < 1000" using w(6) f'(2) by simp
  have lt: "length ?t = n1" using n1 by simp
  have lb: "length (mblk m1 (unat x)) = 512" using ok1 x by simp
  have ly: "length ?y = 512" using rn lb lt by simp
  note ws = wsect_blk [OF ok1 x ly]
  have turn: "iappend_turn d (of_nat (length c)) p m = Inr (d \<lparr> di_addrs := as1 \<rparr>, of_nat (length c + n1), drop n1 p, ?m)"
  proof -
    have "unat (of_nat (length c) :: u32) div BSIZE = ?k" "?k < MAXFILE" "(?k + 1) * BSIZE - unat (of_nat (length c) :: u32) = 512 - ?r"
      "unat (of_nat (length c) :: u32) - ?k * BSIZE = ?r" using block_rest [of "length c"] k unfolding u by (simp_all add: mkfs_consts)
    then show ?thesis using sel(1) rsect_blk [OF ok1 x] by (simp add: iappend_turn_def Let_def n1 [symmetric])
  qed
  have "fdata (mblk ?m) (Suc ?k) as1 = (c @ ?t) @ replicate (512 * Suc ?k - length (c @ ?t)) 0"
  proof -
    have "length (fdata (mblk m1) ?k as1) = 512 * ?k" using length_fdata [OF b1 f'(2)] ok1 by simp
    then have lf: "length (fdata (mblk m1) ?k as1) + ?r = length c" using lc(1) by simp
    have "fdata (mblk ?m) (Suc ?k) as1 = fdata (mblk m1) ?k as1 @ ?y" unfolding fdata_Suc ws(2) w(1,4) by (simp add: sel(2))
    also have "\<dots> = patch (length c) ?t (fdata (mblk m1) (Suc ?k) as1)"
      using patch_append [of "fdata (mblk m1) ?k as1" ?r ?t "mblk m1 (unat x)"] unfolding lf fdata_Suc sel(2) by simp
    also have "\<dots> = c @ ?t @ replicate (512 * Suc ?k - length c - length ?t) 0"
      unfolding c1 by (rule patch_zeros) (use block_rest(1) [of "length c"] rn lt in \<open>simp add: algebra_simps\<close>)
    finally show ?thesis by (simp add: diff_diff_left)
  qed
  then have "fstate (mblk ?m) f' as1 (c @ ?t)" using w(3) nb1 lt by (simp add: fstate_def ws(2))
  moreover have "frame f' (set (bused (mblk m1) (Suc ?k) as1)) (mblk m1) f' (fblocks (mblk ?m) as1 (c @ ?t)) (mblk ?m)"
    using w(2,5) nb1 lt by (auto simp: frame_def fblocks_def ws(2))
  moreover have "mstate f' ?m" using m1 ws w(6) by (auto simp: mstate_def zero_from_def)
  ultimately show ?thesis using turn frame_trans [OF fr] ws(3) m1(2) by (intro exI [of _ as1] exI [of _ ?m]) simp
qed

lemma loop_ok:
  assumes "mstate f m" and "fstate (mblk m) f (di_addrs d) c" and "length c + length p \<le> 71680"
    and "f' = f + (need (length c + length p) - need (length c))" "f' \<le> 1000"
  shows "\<exists>as' m'. iappend_loop d (of_nat (length c)) p m = Some (Inr (d \<lparr> di_addrs := as' \<rparr>, of_nat (length c + length p), m')) \<and> mstate f' m' \<and>
    mk_freeinode m' = mk_freeinode m \<and> fstate (mblk m') f' as' (c @ p) \<and>
    frame f (fblocks (mblk m) (di_addrs d) c) (mblk m) f' (fblocks (mblk m') as' (c @ p)) (mblk m')"
  using assms
proof (induction "length p" arbitrary: d c p m f rule: less_induct)
  case less
  show ?case
  proof (cases "p = []")
    case True
    then have "iappend_loop d (of_nat (length c)) p m = Some (Inr (d, of_nat (length c), m))" by (subst iappend_loop.simps) simp
    then show ?thesis using True less.prems by (intro exI [of _ "di_addrs d"] exI [of _ m]) (simp add: frame_def)
  next
    case False
    define n1 where "n1 = min (length p) (512 - length c mod 512)"
    define f1 where "f1 = f + (need (length c + n1) - need (length c))"
    have n1: "n1 \<le> length p" "0 < n1" using False by (simp_all add: n1_def)
    have nm: "need (length c) \<le> need (length c + n1)" "need (length c + n1) \<le> need (length c + length p)" using n1 by (simp_all add: need_mono)
    have ff: "f' = f1 + (need (length c + length p) - need (length c + n1))" "f1 \<le> 1000" using nm less.prems(4,5) by (simp_all add: f1_def)
    from turn_ok [OF less.prems(1,2) False less.prems(3) n1_def f1_def ff(2)] obtain as1 m1 where
      t: "iappend_turn d (of_nat (length c)) p m = Inr (d \<lparr> di_addrs := as1 \<rparr>, of_nat (length c + n1), drop n1 p, m1)" and m1: "mstate f1 m1"
      "mk_freeinode m1 = mk_freeinode m" and s1: "fstate (mblk m1) f1 as1 (c @ take n1 p)"
      and fr: "frame f (fblocks (mblk m) (di_addrs d) c) (mblk m) f1 (fblocks (mblk m1) as1 (c @ take n1 p)) (mblk m1)" by blast
    have "\<exists>as' m'. iappend_loop (d \<lparr> di_addrs := as1 \<rparr>) (of_nat (length (c @ take n1 p))) (drop n1 p) m1 =
        Some (Inr (d \<lparr> di_addrs := as1 \<rparr> \<lparr> di_addrs := as' \<rparr>, of_nat (length (c @ take n1 p) + length (drop n1 p)), m')) \<and> mstate f' m' \<and>
        mk_freeinode m' = mk_freeinode m1 \<and> fstate (mblk m') f' as' ((c @ take n1 p) @ drop n1 p) \<and>
        frame f1 (fblocks (mblk m1) (di_addrs (d \<lparr> di_addrs := as1 \<rparr>)) (c @ take n1 p)) (mblk m1) f' (fblocks (mblk m') as' ((c @ take n1 p) @ drop n1 p)) (mblk m')"
      by (rule less.hyps) (use n1 m1 s1 less.prems(3,5) ff in \<open>simp_all\<close>)
    then obtain as' m' where l: "iappend_loop (d \<lparr> di_addrs := as1 \<rparr>) (of_nat (length c + n1)) (drop n1 p) m1 =
        Some (Inr (d \<lparr> di_addrs := as' \<rparr>, of_nat (length c + length p), m'))" "mstate f' m'" "mk_freeinode m' = mk_freeinode m1" "fstate (mblk m') f' as' (c @ p)"
        "frame f1 (fblocks (mblk m1) as1 (c @ take n1 p)) (mblk m1) f' (fblocks (mblk m') as' (c @ p)) (mblk m')"
      using n1 by auto
    have "iappend_loop d (of_nat (length c)) p m = Some (Inr (d \<lparr> di_addrs := as' \<rparr>, of_nat (length c + length p), m'))"
      using False t l(1) by (subst iappend_loop.simps) simp
    then show ?thesis using l(2-4) m1(2) frame_trans [OF fr l(5)] by (intro exI [of _ as'] exI [of _ m']) simp
  qed
qed

end
