(* ===== verification/Mkfs_Image.thy ===== *)
theory Mkfs_Image
  imports Mkfs
begin

unbundle bit_operations_syntax

text \<open>
  The image that \<open>mkfs\<close> makes: the inodes, the invariant of the program over all its files, the finished image, and that the file system of the kernel finds every file in it.
\<close>

section \<open>The inodes of the image\<close>

definition ino :: "(nat \<Rightarrow> bytes) \<Rightarrow> nat \<Rightarrow> dinode" where
  "ino B j = dinode_of (bytes_at (64 * (j mod 8)) 64 (B (32 + j div 8)))"

lemma mkfs_sb_val: "mkfs_sb = \<lparr> sb_size = 1000, sb_nblocks = 941, sb_ninodes = 200, sb_nlog = 30, sb_logstart = 2, sb_inodestart = 32, sb_bmapstart = 58 \<rparr>"
  by (simp add: mkfs_sb_def mkfs_consts)

text \<open>The structure has the same layout as that of the kernel.\<close>

definition v6_of :: "dinode \<Rightarrow> V6fsInodeStruct" where
  "v6_of d = \<lparr> it_type = di_type d, it_major = di_major d, it_minor = di_minor d, it_nlink = di_nlink d, it_size = di_size d,
     it_addrs = take 12 (di_addrs d), it_indirect = di_addrs d ! 12 \<rparr>"

lemma v6_of_dinode_of: "v6_of (dinode_of b) = inode_of b"
  by (simp add: v6_of_def dinode_of_def inode_of_def NDIRECT_def kNumOfDirectBlocks_def take_map nth_append)

lemma addrs_split: "length as = 13 \<Longrightarrow> as = take 12 as @ [as ! 12]"
  using take_Suc_conv_app_nth [of 12 as] by simp

lemma dinode_eqI: "length (di_addrs d) = 13 \<Longrightarrow> length (di_addrs e) = 13 \<Longrightarrow> v6_of d = v6_of e \<Longrightarrow> d = e"
  using addrs_split [of "di_addrs d"] addrs_split [of "di_addrs e"] by (cases d; cases e) (simp add: v6_of_def)

lemma dinode_bytes_v6:
  assumes "length (di_addrs d) = 13"
  shows "dinode_bytes d = inode_bytes (v6_of d)"
proof -
  have "concat (map (\<lambda>a. le_bytes 4 (unat a)) (di_addrs d)) = concat (map (\<lambda>a. le_bytes 4 (unat a)) (take 12 (di_addrs d) @ [di_addrs d ! 12]))"
    using addrs_split [OF assms] by simp
  then show ?thesis by (simp add: dinode_bytes_def inode_bytes_def v6_of_def del: le_bytes.simps)
qed

lemma dinode_roundtrip:
  assumes "length (di_addrs d) = 13"
  shows "length (dinode_bytes d) = 64" "dinode_of (dinode_bytes d) = d"
proof -
  have l: "length (it_addrs (v6_of d)) = kNumOfDirectBlocks" using assms by (simp add: v6_of_def kNumOfDirectBlocks_def)
  show "length (dinode_bytes d) = 64" using length_inode_bytes [OF l] dinode_bytes_v6 [OF assms] by simp
  have "v6_of (dinode_of (dinode_bytes d)) = v6_of d" using v6_of_dinode_of inode_of_inode_bytes [OF l] dinode_bytes_v6 [OF assms] by simp
  then show "dinode_of (dinode_bytes d) = d" using assms by (intro dinode_eqI) (simp_all add: dinode_of_def NDIRECT_def)
qed

lemma IBLOCK_nat:
  assumes "j < 208"
  shows "unat (IBLOCK (of_nat j) mkfs_sb) = 32 + j div 8" "unat (of_nat j :: u32) mod IPB = j mod 8"
proof -
  have u: "unat (of_nat j :: u32) = j" using assms by (simp add: unat_of_nat)
  have "unat (of_nat j div of_nat IPB :: u32) = j div 8" using u by (simp add: unat_div IPB_def BSIZE_def)
  moreover have "j div 8 < 26" using assms by simp
  ultimately show "unat (IBLOCK (of_nat j) mkfs_sb) = 32 + j div 8" by (simp add: IBLOCK_def mkfs_sb_val unat_word_ariths)
  show "unat (of_nat j :: u32) mod IPB = j mod 8" using u by (simp add: IPB_def BSIZE_def)
qed

lemma rinode_ok: "img_ok m \<Longrightarrow> j < 208 \<Longrightarrow> rinode (of_nat j) m = Inr (ino (mblk m) j)"
  using rsect_blk [of m "IBLOCK (of_nat j) mkfs_sb"] IBLOCK_nat [of j] by (simp add: rinode_def ino_def img_ok_def)

lemma winode_ok:
  assumes m: "img_ok m" and j: "j < 208" and d: "length (di_addrs d) = 13"
  shows "\<exists>m'. winode (of_nat j) d m = Inr m' \<and> img_ok m' \<and> mk_freeinode m' = mk_freeinode m \<and> mk_freeblock m' = mk_freeblock m \<and>
    (\<forall>i < 208. ino (mblk m') i = (if i = j then d else ino (mblk m) i)) \<and> (\<forall>q. q \<notin> {32..<58} \<longrightarrow> mblk m' q = mblk m q)"
proof -
  let ?q = "32 + j div 8" and ?o = "64 * (j mod 8)"
  let ?y = "patch ?o (dinode_bytes d) (mblk m ?q)"
  let ?m = "wsect (IBLOCK (of_nat j) mkfs_sb) ?y m"
  have q: "?q < 58" using j by simp
  have lb: "length (mblk m ?q) = 512" using m q by simp
  note dr = dinode_roundtrip [OF d]
  have lo: "?o + length (dinode_bytes d) \<le> length (mblk m ?q)" using dr lb by simp
  have ly: "length ?y = 512" using lo lb by simp
  have w: "img_ok ?m" "mblk ?m = (mblk m)(?q := ?y)" "mk_freeinode ?m = mk_freeinode m" "mk_freeblock ?m = mk_freeblock m"
    using wsect_blk [OF m _ ly, of "IBLOCK (of_nat j) mkfs_sb"] IBLOCK_nat [OF j] q by auto
  have r: "winode (of_nat j) d m = Inr ?m"
    using rsect_blk [OF m, of "IBLOCK (of_nat j) mkfs_sb"] IBLOCK_nat [OF j] q m by (simp add: winode_def Let_def img_ok_def)
  have "ino (mblk ?m) i = (if i = j then d else ino (mblk m) i)" for i
  proof (cases "i = j")
    case True
    then show ?thesis using bytes_at_patch_same [OF lo] dr by (simp add: ino_def w(2))
  next
    case False
    show ?thesis
    proof (cases "i div 8 = j div 8")
      case True
      then have "i mod 8 \<noteq> j mod 8" using False by (metis mult_div_mod_eq)
      then have "bytes_at (64 * (i mod 8)) 64 ?y = bytes_at (64 * (i mod 8)) 64 (mblk m ?q)" using lo dr by (intro bytes_at_patch_other) auto
      then show ?thesis using False True by (simp add: ino_def w(2))
    qed (use False in \<open>simp add: ino_def w(2)\<close>)
  qed
  then show ?thesis using r w q by (intro exI [of _ ?m]) auto
qed

section \<open>The invariant of the program\<close>

text \<open>
  The inodes 1 to \<open>k - 1\<close> are in use, inode \<open>j\<close> has the file \<open>cs j\<close>, no two files share a block, and the first inode is the root directory.
\<close>

definition file_at :: "nat \<Rightarrow> (nat \<Rightarrow> bytes) \<Rightarrow> nat \<Rightarrow> bytes \<Rightarrow> bool" where
  "file_at f B j c \<longleftrightarrow> fstate B f (di_addrs (ino B j)) c \<and> di_size (ino B j) = of_nat (length c) \<and> length c \<le> 71680 \<and>
     di_type (ino B j) = (if j = 1 then T_DIR else T_FILE)"

definition blocks_at :: "(nat \<Rightarrow> bytes) \<Rightarrow> nat \<Rightarrow> bytes \<Rightarrow> nat set" where
  "blocks_at B j c = fblocks B (di_addrs (ino B j)) c"

definition minv :: "nat \<Rightarrow> nat \<Rightarrow> (nat \<Rightarrow> bytes) \<Rightarrow> Mkfs \<Rightarrow> bool" where
  "minv f k cs m \<longleftrightarrow> mstate f m \<and> mk_freeinode m = of_nat k \<and> 1 \<le> k \<and> k \<le> 200 \<and> mblk m 1 = super_bytes mkfs_sb @ replicate 484 0 \<and>
     (\<forall>j \<in> {1..<k}. file_at f (mblk m) j (cs j)) \<and>
     (\<forall>i \<in> {1..<k}. \<forall>j \<in> {1..<k}. i \<noteq> j \<longrightarrow> blocks_at (mblk m) i (cs i) \<inter> blocks_at (mblk m) j (cs j) = {}) \<and>
     (\<forall>j < 208. j \<notin> {1..<k} \<longrightarrow> di_type (ino (mblk m) j) = 0)"

lemma fstate_bounds: "fstate B f as c \<Longrightarrow> fblocks B as c \<subseteq> {59..<f}"
  by (simp add: fstate_def fblocks_def bmap_def)

text \<open>A file does not change when its blocks do not.\<close>

lemma fstate_cong:
  assumes s: "fstate B f as c" and eq: "\<And>q. q \<in> fblocks B as c \<Longrightarrow> B' q = B q" and f: "f \<le> f'"
  shows "fstate B' f' as c" "fblocks B' as c = fblocks B as c"
proof -
  let ?n = "nb (length c)"
  have b: "bmap B f ?n as" using s by (simp add: fstate_def)
  have a: "baddr B' as i = baddr B as i" if "i < 12 \<or> 12 < ?n" for i
  proof (cases "i < 12")
    case False
    then have "unat (as ! 12) \<in> fblocks B as c" using that by (simp add: fblocks_def bused_def)
    then show ?thesis using eq by (simp add: baddr_def)
  qed (simp add: baddr_def)
  have "map (\<lambda>i. unat (baddr B' as i)) [0..<?n] = map (\<lambda>i. unat (baddr B as i)) [0..<?n]" using a by (cases "12 < ?n") auto
  then have u: "bused B' ?n as = bused B ?n as" by (simp add: bused_def)
  then show "fblocks B' as c = fblocks B as c" by (simp add: fblocks_def)
  have "bmap B' f' ?n as" using b f a u unfolding bmap_def by (auto intro: order.strict_trans2)
  moreover have "fdata B' ?n as = fdata B ?n as"
  proof (rule fdata_cong)
    fix i assume i: "i < ?n"
    then have "i < 12 \<or> 12 < ?n" by linarith
    then have "unat (baddr B as i) \<in> fblocks B as c" "baddr B' as i = baddr B as i" using bused_data [OF i] a by (simp_all add: fblocks_def)
    then show "B' (unat (baddr B' as i)) = B (unat (baddr B as i))" using eq by simp
  qed
  ultimately show "fstate B' f' as c" using s by (simp add: fstate_def)
qed

lemma file_at_cong:
  assumes "file_at f B j c" "ino B' j = ino B j" "\<And>q. q \<in> blocks_at B j c \<Longrightarrow> B' q = B q" "f \<le> f'"
  shows "file_at f' B' j c" "blocks_at B' j c = blocks_at B j c"
  using assms fstate_cong [of B f "di_addrs (ino B j)" c B' f'] by (auto simp: file_at_def blocks_at_def)

lemma ino_cong: "(\<And>q. q \<in> {32..<58} \<Longrightarrow> B' q = B q) \<Longrightarrow> j < 208 \<Longrightarrow> ino B' j = ino B j"
  by (simp add: ino_def)

lemma minvD:
  assumes "minv f k cs m"
  shows "mstate f m" "img_ok m" "j \<in> {1..<k} \<Longrightarrow> file_at f (mblk m) j (cs j)" "j \<in> {1..<k} \<Longrightarrow> blocks_at (mblk m) j (cs j) \<subseteq> {59..<f}"
    "i \<in> {1..<k} \<Longrightarrow> j \<in> {1..<k} \<Longrightarrow> i \<noteq> j \<Longrightarrow> blocks_at (mblk m) i (cs i) \<inter> blocks_at (mblk m) j (cs j) = {}"
    "mk_freeinode m = of_nat k" "1 \<le> k" "k \<le> 200" "j < 208 \<Longrightarrow> j \<notin> {1..<k} \<Longrightarrow> di_type (ino (mblk m) j) = 0" "f \<le> 1000"
    "mblk m 1 = super_bytes mkfs_sb @ replicate 484 0"
  using assms fstate_bounds [of "mblk m" f "di_addrs (ino (mblk m) j)" "cs j"] by (auto simp: minv_def mstate_def file_at_def blocks_at_def)

text \<open>The step from one state to another in which one file, \<open>j\<close>, has new contents: all others are as before.\<close>

lemma minv_update:
  assumes i: "minv f k cs m" and k: "k \<le> k'" "k' \<le> 200" "mk_freeinode m' = of_nat k'" and j: "j \<in> {1..<k'}" "{1..<k'} = insert j {1..<k}"
    and m': "mstate f' m'" "f \<le> f'" and fj: "file_at f' (mblk m') j c" and sup: "mblk m' 1 = mblk m 1"
    and inos: "\<And>l. l < 208 \<Longrightarrow> l \<noteq> j \<Longrightarrow> ino (mblk m') l = ino (mblk m) l"
    and old: "\<And>q l. l \<in> {1..<k} \<Longrightarrow> l \<noteq> j \<Longrightarrow> q \<in> blocks_at (mblk m) l (cs l) \<Longrightarrow> mblk m' q = mblk m q \<and> q \<notin> blocks_at (mblk m') j c"
  shows "minv f' k' (cs(j := c)) m'"
proof -
  have other: "file_at f' (mblk m') l (cs l)" "blocks_at (mblk m') l (cs l) = blocks_at (mblk m) l (cs l)" if "l \<in> {1..<k}" "l \<noteq> j" for l
  proof -
    have "ino (mblk m') l = ino (mblk m) l" using that inos minvD(8) [OF i] by simp
    then show "file_at f' (mblk m') l (cs l)" "blocks_at (mblk m') l (cs l) = blocks_at (mblk m) l (cs l)"
      using file_at_cong [OF minvD(3) [OF i that(1)], of "mblk m'" f'] old [OF that] m'(2) by blast+
  qed
  have dis: "blocks_at (mblk m') l (cs l) \<inter> blocks_at (mblk m') j c = {}" if "l \<in> {1..<k}" "l \<noteq> j" for l
    using other(2) [OF that] old [OF that] by blast
  have "blocks_at (mblk m') l ((cs(j := c)) l) \<inter> blocks_at (mblk m') l' ((cs(j := c)) l') = {}" if "l \<in> {1..<k'}" "l' \<in> {1..<k'}" "l \<noteq> l'" for l l'
    using that dis [of l] dis [of l'] other(2) minvD(5) [OF i, of l l'] unfolding j(2) by (cases "l = j"; cases "l' = j") (auto simp: Int_commute)
  moreover have "file_at f' (mblk m') l ((cs(j := c)) l)" if "l \<in> {1..<k'}" for l using that other(1) fj unfolding j(2) by auto
  moreover have "di_type (ino (mblk m') l) = 0" if "l < 208" "l \<notin> {1..<k'}" for l
    using that inos [of l] minvD(9) [OF i, of l] unfolding j(2) by auto
  ultimately show ?thesis using m'(1) k minvD(7) [OF i] minvD(11) [OF i] sup unfolding minv_def by auto
qed

lemma iappend_ok:
  assumes i: "minv f k cs m" and j: "j \<in> {1..<k}" and l: "length (cs j) + length p \<le> 71680"
    and f': "f' = f + (need (length (cs j) + length p) - need (length (cs j)))" "f' \<le> 1000"
  shows "\<exists>m'. iappend (of_nat j) p m = Some (Inr m') \<and> minv f' k (cs(j := cs j @ p)) m'"
proof -
  let ?d = "ino (mblk m) j" and ?c = "cs j"
  have jk: "j < 208" using j minvD(8) [OF i] by simp
  have fj: "fstate (mblk m) f (di_addrs ?d) ?c" "di_size ?d = of_nat (length ?c)" "di_type ?d = (if j = 1 then T_DIR else T_FILE)"
    using minvD(3) [OF i j] by (simp_all add: file_at_def)
  from loop_ok [OF minvD(1) [OF i] fj(1) l f'] obtain as' m1 where
    lp: "iappend_loop ?d (of_nat (length ?c)) p m = Some (Inr (?d \<lparr> di_addrs := as' \<rparr>, of_nat (length ?c + length p), m1))" and m1: "mstate f' m1"
    "mk_freeinode m1 = mk_freeinode m" "fstate (mblk m1) f' as' (?c @ p)"
    and fr: "frame f (fblocks (mblk m) (di_addrs ?d) ?c) (mblk m) f' (fblocks (mblk m1) as' (?c @ p)) (mblk m1)" by blast
  let ?d' = "?d \<lparr> di_addrs := as', di_size := of_nat (length ?c + length p) \<rparr>"
  have low: "mblk m1 q = mblk m q" if "q < 59" for q
  proof -
    have "q \<notin> fblocks (mblk m) (di_addrs ?d) ?c" using that fstate_bounds [OF fj(1)] by auto
    moreover have "q < f" using that minvD(1) [OF i] by (simp add: mstate_def)
    ultimately show ?thesis using fr by (simp add: frame_def)
  qed
  have ok1: "img_ok m1" "length as' = 13" using m1 by (auto simp: mstate_def fstate_def bmap_def)
  from winode_ok [OF ok1(1) jk, of ?d'] ok1(2) obtain m2 where w: "winode (of_nat j) ?d' m1 = Inr m2" "img_ok m2" "mk_freeinode m2 = mk_freeinode m1"
    "mk_freeblock m2 = mk_freeblock m1" "\<And>l. l < 208 \<Longrightarrow> ino (mblk m2) l = (if l = j then ?d' else ino (mblk m1) l)" "\<And>q. q \<notin> {32..<58} \<Longrightarrow> mblk m2 q = mblk m1 q"
    by auto
  have run: "iappend (of_nat j) p m = Some (Inr m2)"
    using rinode_ok [OF minvD(2) [OF i] jk] lp w(1) fj(2) by (simp add: iappend_def mk_bind_def)
  have b1: "fblocks (mblk m1) as' (?c @ p) \<subseteq> {59..<f'}" by (rule fstate_bounds [OF m1(3)])
  have s2: "fstate (mblk m2) f' as' (?c @ p)" "fblocks (mblk m2) as' (?c @ p) = fblocks (mblk m1) as' (?c @ p)"
    by (rule fstate_cong [OF m1(3)]; use w(6) b1 in force)+
  have "mstate f' m2" using m1(1) w(2,4,6) by (simp add: mstate_def zero_from_def)
  moreover have "file_at f' (mblk m2) j (?c @ p)" using w(5) [OF jk] s2(1) fj(3) l by (simp add: file_at_def)
  moreover have "mblk m2 q = mblk m q \<and> q \<notin> blocks_at (mblk m2) j (?c @ p)" if "l \<in> {1..<k}" "l \<noteq> j" "q \<in> blocks_at (mblk m) l (cs l)" for q l
  proof -
    have q: "q \<in> {59..<f}" "q \<notin> fblocks (mblk m) (di_addrs ?d) ?c"
      using that(3) minvD(4) [OF i that(1)] minvD(5) [OF i that(1) j that(2)] by (auto simp: blocks_at_def)
    then show ?thesis using w(5) [OF jk] w(6) [of q] s2(2) fr by (auto simp: blocks_at_def frame_def)
  qed
  moreover have "{1..<k} = insert j {1..<k}" using j by auto
  moreover have "ino (mblk m2) l = ino (mblk m) l" if "l < 208" "l \<noteq> j" for l
    using w(5) [OF that(1)] that ino_cong [of "mblk m1" "mblk m" l] low by simp
  ultimately have "minv f' k (cs(j := ?c @ p)) m2"
    using w(3) m1(2) minvD(6,8) [OF i] j f'(1) w(6) [of 1] low [of 1] by (intro minv_update [OF i, where j = j]) auto
  then show ?thesis using run by blast
qed

lemma fstate_empty: "fstate B f (replicate 13 0) []" "fblocks B (replicate 13 0) [] = {}"
  by (simp_all add: fstate_def fblocks_def bmap_def bused_def nb_def fdata_def baddr_def)

lemma ialloc_ok:
  assumes i: "minv f k cs m" and k: "k < 200" and t: "t = (if k = 1 then T_DIR else T_FILE)"
  shows "\<exists>m'. ialloc t m = Inr (of_nat k, m') \<and> minv f (Suc k) (cs(k := [])) m'"
proof -
  let ?d = "\<lparr> di_type = t, di_major = 0, di_minor = 0, di_nlink = 1, di_size = 0, di_addrs = replicate 13 0 \<rparr>"
  let ?m = "m \<lparr> mk_freeinode := of_nat (Suc k) \<rparr>"
  have k2: "k < 208" "img_ok ?m" using k minvD(2) [OF i] by (simp_all add: img_ok_def)
  from winode_ok [OF k2(2,1), of ?d] obtain m' where w: "winode (of_nat k) ?d ?m = Inr m'" "img_ok m'" "mk_freeinode m' = of_nat (Suc k)"
    "mk_freeblock m' = mk_freeblock m" "\<And>l. l < 208 \<Longrightarrow> ino (mblk m') l = (if l = k then ?d else ino (mblk m) l)" "\<And>q. q \<notin> {32..<58} \<Longrightarrow> mblk m' q = mblk m q"
    by auto
  have "ialloc t m = Inr (of_nat k, m')" using w(1) minvD(6) [OF i] by (simp add: ialloc_def NDIRECT_def add.commute)
  moreover have "mstate f m'" using minvD(1) [OF i] w(2,4,6) by (simp add: mstate_def zero_from_def)
  moreover have "file_at f (mblk m') k []" "blocks_at (mblk m') k [] = {}" using w(5) [OF k2(1)] t fstate_empty by (simp_all add: file_at_def blocks_at_def)
  moreover have "mblk m' q = mblk m q" if "l \<in> {1..<k}" "q \<in> blocks_at (mblk m) l (cs l)" for q l
    using w(6) [of q] minvD(4) [OF i that(1)] that(2) by auto
  moreover have "{1..<Suc k} = insert k {1..<k}" using minvD(7) [OF i] by auto
  ultimately have "minv f (Suc k) (cs(k := [])) m'"
    using w(3,5,6) k minvD(7) [OF i] by (intro minv_update [OF i, where j = k]) auto
  then show ?thesis using \<open>ialloc t m = Inr (of_nat k, m')\<close> by blast
qed

section \<open>Making the image\<close>

lemma length_dirent [simp]: "length (dirent i w) = 16"
  by (simp add: dirent_def DIRSIZ_def del: le_bytes.simps)

lemma length_super [simp]: "length (super_bytes sb) = 28"
  by (simp add: super_bytes_def del: le_bytes.simps)

lemma zero_image:
  assumes "n \<le> 1000"
  shows "fold (\<lambda>i. wsect (of_nat i) (replicate BSIZE 0)) [0..<n] \<lparr> mk_fsfd = [], mk_sb = mkfs_sb, mk_freeinode = 1, mk_freeblock = of_nat nmeta \<rparr> =
    \<lparr> mk_fsfd = replicate (512 * n) 0, mk_sb = mkfs_sb, mk_freeinode = 1, mk_freeblock = of_nat nmeta \<rparr>"
  using assms
proof (induction n)
  case (Suc n)
  have u: "unat (of_nat n * of_nat BSIZE :: u32) = 512 * n" using sector_place [of "of_nat n"] freeblock_nat(1) [of n] Suc.prems by simp
  have "wsect (of_nat n) (replicate BSIZE 0) \<lparr> mk_fsfd = replicate (512 * n) 0, mk_sb = mkfs_sb, mk_freeinode = 1, mk_freeblock = of_nat nmeta \<rparr> =
    \<lparr> mk_fsfd = replicate (512 * n) 0 @ replicate 512 0, mk_sb = mkfs_sb, mk_freeinode = 1, mk_freeblock = of_nat nmeta \<rparr>"
    unfolding wsect_def Let_def u by (simp add: patch_def BSIZE_def)
  moreover have "replicate (512 * n) 0 @ replicate 512 (0 :: u8) = replicate (512 * Suc n) 0" by (simp only: replicate_add [symmetric]) simp
  ultimately show ?case using Suc by simp
qed simp

lemma new_ok: "minv 59 1 cs mkfs_new"
proof -
  let ?z = "\<lparr> mk_fsfd = replicate 512000 0, mk_sb = mkfs_sb, mk_freeinode = 1, mk_freeblock = of_nat nmeta \<rparr>"
  let ?s = "super_bytes mkfs_sb @ replicate (BSIZE - 28) 0"
  have n: "mkfs_new = wsect 1 ?s ?z" using zero_image [of 1000] by (simp add: mkfs_new_def FSSIZE_def)
  have ok: "img_ok ?z" by (simp add: img_ok_def)
  have z: "mblk ?z q = replicate 512 0" if "q < 1000" for q
    using that by (simp add: blk_def bytes_at_def)
  have l: "length ?s = 512" by (simp add: BSIZE_def)
  note w = wsect_blk [OF ok _ l, of 1, folded n, simplified]
  have t: "di_type (ino (mblk mkfs_new) j) = 0" if "j < 208" for j
  proof -
    have "mblk mkfs_new (32 + j div 8) = replicate 512 0" using that z [of "32 + j div 8"] w(2) by simp
    moreover have "bytes_at 0 2 (bytes_at (64 * (j mod 8)) 64 (replicate 512 0)) = replicate 2 0" by (simp add: bytes_at_def min_def)
    ultimately show ?thesis by (simp add: ino_def dinode_of_def get16_def)
  qed
  have "zero_from (mblk mkfs_new) 59" using z w(2) by (simp add: zero_from_def)
  then show ?thesis using w t by (simp add: minv_def mstate_def nmeta_def mkfs_consts)
qed

text \<open>The invariant only speaks about the files that are there.\<close>

lemma minv_cong: "minv f k cs m \<Longrightarrow> (\<And>j. j \<in> {1..<k} \<Longrightarrow> cs' j = cs j) \<Longrightarrow> minv f k cs' m"
  unfolding minv_def by auto

definition root_start :: bytes where
  "root_start = dirent 1 [46] @ dirent 1 [46, 46]"

lemma need_small: "need 0 = 0" "need 16 = 1" "need 32 = 1"
  by (simp_all add: need_def nb_def)

lemma make_root_ok: "\<exists>m. make_root mkfs_new = Some (Inr m) \<and> minv 60 2 (\<lambda>_. root_start) m"
proof -
  obtain m1 where m1: "ialloc T_DIR mkfs_new = Inr (1, m1)" "minv 59 2 ((\<lambda>_. [])(1 := [])) m1"
    using ialloc_ok [OF new_ok, of T_DIR "\<lambda>_. []"] by (auto simp: numeral_2_eq_2)
  obtain m2 where m2: "iappend 1 (dirent 1 [46]) m1 = Some (Inr m2)" "minv 60 2 ((\<lambda>_. [])(1 := dirent 1 [46])) m2"
    using iappend_ok [OF m1(2), of 1 "dirent 1 [46]" 60] by (auto simp: need_small)
  obtain m3 where m3: "iappend 1 (dirent 1 [46, 46]) m2 = Some (Inr m3)" "minv 60 2 ((\<lambda>_. [])(1 := root_start)) m3"
    using iappend_ok [OF m2(2), of 1 "dirent 1 [46, 46]" 60] by (auto simp: need_small root_start_def)
  have "minv 60 2 (\<lambda>_. root_start) m3" by (rule minv_cong [OF m3(2)]) auto
  then show ?thesis using m1(1) m2(1) m3(1) by (simp add: make_root_def mk_bind_def ROOTINO_def)
qed

lemma append_all_ok:
  assumes "minv f k cs m" and "j \<in> {1..<k}" and "length (cs j) + length (concat ps) \<le> 71680"
    and "f' = f + (need (length (cs j) + length (concat ps)) - need (length (cs j)))" "f' \<le> 1000"
  shows "\<exists>m'. append_all (of_nat j) ps m = Some (Inr m') \<and> minv f' k (cs(j := cs j @ concat ps)) m'"
  using assms
proof (induction ps arbitrary: f cs m)
  case (Cons p ps)
  define f1 where "f1 = f + (need (length (cs j) + length p) - need (length (cs j)))"
  have nm: "need (length (cs j)) \<le> need (length (cs j) + length p)" "need (length (cs j) + length p) \<le> need (length (cs j) + length (concat (p # ps)))"
    by (simp_all add: need_mono)
  then have f1: "f1 \<le> 1000" "f' = f1 + (need (length (cs j) + length (concat (p # ps))) - need (length (cs j) + length p))"
    using Cons.prems(4,5) by (simp_all add: f1_def)
  from iappend_ok [OF Cons.prems(1,2) _ f1_def f1(1)] Cons.prems(3) obtain m1 where m1: "iappend (of_nat j) p m = Some (Inr m1)" "minv f1 k (cs(j := cs j @ p)) m1"
    by auto
  have "\<exists>m'. append_all (of_nat j) ps m1 = Some (Inr m') \<and> minv f' k ((cs(j := cs j @ p))(j := (cs(j := cs j @ p)) j @ concat ps)) m'"
    by (rule Cons.IH [OF m1(2) Cons.prems(2)]) (use Cons.prems(3,5) f1 in \<open>simp_all add: add.assoc\<close>)
  then show ?case using m1(1) by (simp add: mk_bind_def fun_upd_def cong: if_cong)
qed simp

text \<open>The files of the image after the arguments \<open>as\<close>, the first of which gets inode \<open>k\<close>\<close>

definition content :: "(bytes \<Rightarrow> bytes list option) \<Rightarrow> bytes \<Rightarrow> bytes" where
  "content reads a = concat (the (reads a))"

fun added :: "(bytes \<Rightarrow> bytes list option) \<Rightarrow> nat \<Rightarrow> bytes list \<Rightarrow> (nat \<Rightarrow> bytes) \<Rightarrow> (nat \<Rightarrow> bytes)" where
  "added reads k [] cs = cs"
| "added reads k (a # as) cs = added reads (Suc k) as (cs(1 := cs 1 @ dirent (of_nat k) (file_name a), k := content reads a))"

definition arg_ok :: "(bytes \<Rightarrow> bytes list option) \<Rightarrow> bytes \<Rightarrow> bool" where
  "arg_ok reads a \<longleftrightarrow> 47 \<notin> set a \<and> reads a \<noteq> None \<and> length (content reads a) \<le> 71680"

lemma add_file_ok:
  assumes i: "minv f k cs m" and k: "2 \<le> k" "k < 200" and a: "arg_ok reads a" and l: "length (cs 1) + 16 \<le> 71680"
    and f': "f' = f + (need (length (cs 1) + 16) - need (length (cs 1))) + need (length (content reads a))" "f' \<le> 1000"
  shows "\<exists>m'. add_file reads a m = Some (Inr m') \<and> minv f' (Suc k) (cs(1 := cs 1 @ dirent (of_nat k) (file_name a), k := content reads a)) m'"
proof -
  define f1 where "f1 = f + (need (length (cs 1) + 16) - need (length (cs 1)))"
  have f1: "f1 \<le> 1000" "f' = f1 + need (length (content reads a))" using f' by (simp_all add: f1_def)
  obtain ps where ps: "reads a = Some ps" using a by (auto simp: arg_ok_def)
  then have c: "content reads a = concat ps" by (simp add: content_def)
  obtain m1 where m1: "ialloc T_FILE m = Inr (of_nat k, m1)" "minv f (Suc k) (cs(k := [])) m1"
    using ialloc_ok [OF i k(2), of T_FILE] k by auto
  obtain m2 where m2: "iappend 1 (dirent (of_nat k) (file_name a)) m1 = Some (Inr m2)" "minv f1 (Suc k) ((cs(k := []))(1 := cs 1 @ dirent (of_nat k) (file_name a))) m2"
    using iappend_ok [OF m1(2), of 1 "dirent (of_nat k) (file_name a)" f1] k l f1(1) by (auto simp: f1_def)
  let ?cs = "(cs(k := []))(1 := cs 1 @ dirent (of_nat k) (file_name a))"
  obtain m3 where m3: "append_all (of_nat k) ps m2 = Some (Inr m3)" "minv f' (Suc k) (?cs(k := concat ps)) m3"
    using append_all_ok [OF m2(2), of k ps f'] k a f1 f'(2) c by (auto simp: arg_ok_def need_small)
  have "minv f' (Suc k) (cs(1 := cs 1 @ dirent (of_nat k) (file_name a), k := content reads a)) m3"
    by (rule minv_cong [OF m3(2)]) (use c in auto)
  then show ?thesis using a ps m1(1) m2(1) m3(1) by (simp add: add_file_def arg_ok_def mk_bind_def ROOTINO_def)
qed

lemma add_files_ok:
  assumes "minv f k cs m" and "2 \<le> k" "k + length as \<le> 200" and "\<forall>a \<in> set as. arg_ok reads a" and "length (cs 1) + 16 * length as \<le> 71680"
    and "f' = f + (need (length (cs 1) + 16 * length as) - need (length (cs 1))) + sum_list (map (\<lambda>a. need (length (content reads a))) as)" "f' \<le> 1000"
  shows "\<exists>m'. add_files reads as m = Some (Inr m') \<and> minv f' (k + length as) (added reads k as cs) m'"
  using assms
proof (induction as arbitrary: f k cs m)
  case (Cons a as)
  let ?cs = "cs(1 := cs 1 @ dirent (of_nat k) (file_name a), k := content reads a)"
  define f1 where "f1 = f + (need (length (cs 1) + 16) - need (length (cs 1))) + need (length (content reads a))"
  have nm: "need (length (cs 1)) \<le> need (length (cs 1) + 16)" "need (length (cs 1) + 16) \<le> need (length (cs 1) + 16 * length (a # as))"
    by (simp_all add: need_mono)
  have f1: "f1 \<le> 1000" "f' = f1 + (need (length (cs 1) + 16 * length (a # as)) - need (length (cs 1) + 16)) + sum_list (map (\<lambda>a. need (length (content reads a))) as)"
    using nm Cons.prems(6,7) by (simp_all add: f1_def)
  have "\<exists>m'. add_file reads a m = Some (Inr m') \<and> minv f1 (Suc k) ?cs m'"
    by (rule add_file_ok [OF Cons.prems(1,2) _ _ _ f1_def f1(1)]) (use Cons.prems in auto)
  then obtain m1 where m1: "add_file reads a m = Some (Inr m1)" "minv f1 (Suc k) ?cs m1" by blast
  have l1: "length (?cs 1) = length (cs 1) + 16" using Cons.prems(2) by simp
  have "\<exists>m'. add_files reads as m1 = Some (Inr m') \<and> minv f' (Suc k + length as) (added reads (Suc k) as ?cs) m'"
    by (rule Cons.IH [OF m1(2)]) (use Cons.prems f1 l1 in \<open>simp_all add: add.assoc\<close>)
  then show ?case using m1(1) by (simp add: mk_bind_def)
qed simp

section \<open>The image as the kernel sees it\<close>

lemma added_other: "2 \<le> k \<Longrightarrow> j < k \<Longrightarrow> j \<noteq> 1 \<Longrightarrow> added reads k as cs j = cs j"
  by (induction as arbitrary: k cs) auto

lemma added_file: "2 \<le> k \<Longrightarrow> t < length as \<Longrightarrow> added reads k as cs (k + t) = content reads (as ! t)"
proof (induction as arbitrary: k cs t)
  case (Cons a as)
  show ?case
  proof (cases t)
    case 0
    then show ?thesis using added_other [of "Suc k" k] Cons.prems by simp
  next
    case (Suc u)
    then show ?thesis using Cons.IH [of "Suc k" u] Cons.prems by simp
  qed
qed simp

text \<open>The entries of the root directory: inode and name\<close>

definition root_entries :: "bytes list \<Rightarrow> (nat \<times> bytes) list" where
  "root_entries as = (1, [46]) # (1, [46, 46]) # zip [2..<2 + length as] (map file_name as)"

definition root_bytes :: "bytes list \<Rightarrow> bytes" where
  "root_bytes as = concat (map (\<lambda>(i, w). dirent (of_nat i) w) (root_entries as))"

lemma added_root: "2 \<le> k \<Longrightarrow> added reads k as cs 1 = cs 1 @ concat (map (\<lambda>(i, w). dirent (of_nat i) w) (zip [k..<k + length as] (map file_name as)))"
proof (induction as arbitrary: k cs)
  case (Cons a as)
  have "[k..<k + length (a # as)] = k # [Suc k..<Suc k + length as]" by (simp add: upt_conv_Cons del: upt_Suc)
  then show ?case using Cons by simp
qed simp

lemma length_root_entries [simp]: "length (root_entries as) = 2 + length as"
  by (simp add: root_entries_def del: upt_Suc)

lemma length_concat_same: "\<forall>x \<in> set xs. length x = n \<Longrightarrow> length (concat xs) = n * length xs"
  by (induction xs) auto

lemma length_root_bytes [simp]: "length (root_bytes as) = 16 * (2 + length as)"
  unfolding root_bytes_def by (subst length_concat_same [where n = 16]) auto

lemma root_entry:
  assumes "i < length (root_entries as)"
  shows "bytes_at (16 * i) 16 (root_bytes as @ z) = dirent (of_nat (fst (root_entries as ! i))) (snd (root_entries as ! i))"
proof -
  let ?xs = "map (\<lambda>(i, w). dirent (of_nat i) w) (root_entries as)"
  have l: "\<forall>x \<in> set ?xs. length x = 16" by auto
  have "bytes_at (i * 16 + 0) 16 (root_bytes as) = bytes_at 0 16 (?xs ! i)"
    unfolding root_bytes_def by (rule bytes_at_concat [OF l]) (use assms in simp_all)
  moreover have "bytes_at (16 * i) 16 (root_bytes as @ z) = bytes_at (16 * i) 16 (root_bytes as)" using assms by (simp add: bytes_at_def)
  ultimately show ?thesis using assms by (simp add: bytes_at_def mult.commute case_prod_unfold)
qed

lemma dirent_parts:
  assumes "i < 65536" "0 \<notin> set w" "length w < 14"
  shows "entry_inum (dirent (of_nat i) w) = of_nat i" "entry_name (dirent (of_nat i) w) = w" "0 \<in> set (drop 2 (dirent (of_nat i) w))"
proof -
  have "le_nat (bytes_at 0 2 (dirent (of_nat i) w)) = i"
    using assms(1) by (simp add: dirent_def bytes_at_def unat_of_nat unsigned_ucast_eq take_bit_eq_mod del: le_bytes.simps)
  then show "entry_inum (dirent (of_nat i) w) = of_nat i" by (simp add: entry_inum_def get16_def)
  have "take DIRSIZ (w @ replicate DIRSIZ 0) = w @ replicate (14 - length w) 0" using assms(3) by (simp add: DIRSIZ_def)
  then have d: "drop 2 (dirent (of_nat i) w) = w @ replicate (14 - length w) 0" by (simp add: dirent_def del: le_bytes.simps)
  obtain k where "14 - length w = Suc k" using assms(3) by (cases "14 - length w") auto
  then show "entry_name (dirent (of_nat i) w) = w" "0 \<in> set (drop 2 (dirent (of_nat i) w))"
    using assms(2) d by (auto simp: entry_name_def takeWhile_append)
qed

lemma inode_at_ino:
  assumes "j < 208"
  shows "inode_at mkfs_sb b (of_nat j) = v6_of (ino (blk b) j)"
proof -
  have u: "unat (of_nat j :: u32) = j" using assms by (simp add: unat_of_nat)
  have "64 * (j mod 8) + 64 \<le> 512" using mod_less_divisor [of 8 j] by linarith
  then have "bytes_at (64 * (j mod 8)) 64 (blk b (32 + j div 8)) = bytes_at ((32 + j div 8) * 512 + 64 * (j mod 8)) 64 b"
    unfolding blk_def by (rule bytes_at_bytes_at)
  moreover have "(32 + j div 8) * 512 + 64 * (j mod 8) = 32 * 512 + 64 * j"
  proof -
    have "64 * j = 64 * (8 * (j div 8) + j mod 8)" by simp
    then show ?thesis by (simp only: distrib_left distrib_right)
  qed
  ultimately have "bytes_at (64 * (j mod 8)) 64 (blk b (32 + j div 8)) = bytes_at (32 * 512 + 64 * j) 64 b" by (simp only:)
  then show ?thesis unfolding ino_def v6_of_dinode_of inode_at_def u by (simp add: mkfs_sb_val)
qed

lemma blk_addr_baddr:
  assumes "length (di_addrs d) = 13" "i < 140"
  shows "blk_addr b (v6_of d) i = baddr (blk b) (di_addrs d) i"
proof (cases "i < 12")
  case False
  then have "4 * (i - 12) + 4 \<le> 512" using assms(2) by simp
  then show ?thesis using False by (simp add: blk_addr_def baddr_def v6_of_def kNumOfDirectBlocks_def get32_def blk_def bytes_at_bytes_at)
qed (simp add: blk_addr_def baddr_def v6_of_def kNumOfDirectBlocks_def)

lemma kernel_file:
  assumes s: "fstate (blk b) f (di_addrs d) c" and f: "f \<le> 1000" and b: "length b = 512000" and n: "nb (unat (di_size d)) = nb (length c)"
  shows "file_ok b (v6_of d)" "file_data b (v6_of d) = take (unat (di_size d)) (c @ replicate (512 * nb (length c) - length c) 0)"
    "file_apart lo (59 * 512) b (v6_of d)"
proof -
  let ?n = "nb (length c)" and ?as = "di_addrs d"
  have bm: "bmap (blk b) f ?n ?as" and fd: "fdata (blk b) ?n ?as = c @ replicate (512 * ?n - length c) 0" using s by (simp_all add: fstate_def)
  have l: "length ?as = 13" "?n \<le> 140" using bm by (simp_all add: bmap_def)
  have fb: "file_blocks (v6_of d) = ?n" using n by (simp add: file_blocks_def v6_of_def nb_def)
  have a: "blk_addr b (v6_of d) i = baddr (blk b) ?as i" if "i < ?n" for i using blk_addr_baddr [OF l(1)] that l(2) by simp
  have ok: "blk_ok b x" if "unat x \<in> {59..<f}" for x using that f b by (auto simp: blk_ok_def)
  have i12: "it_indirect (v6_of d) = ?as ! 12" by (simp add: v6_of_def)
  have x: "unat (?as ! 12) \<in> {59..<f}" if "12 < ?n" using bmap_indirect_block [OF bm that] by simp
  show "file_ok b (v6_of d)" unfolding file_ok_def fb using a ok bmap_data [OF bm] x l i12
    by (simp add: kNumOfDirectBlocks_def kNumEntriesOfIndirectBlock_def kBlockSize_def) (simp add: v6_of_def)
  show "file_apart lo (59 * 512) b (v6_of d)" unfolding file_apart_def fb using a bmap_data [OF bm] x i12
    by (simp add: kNumOfDirectBlocks_def)
  have "map (\<lambda>i. bytes_at (unat (blk_addr b (v6_of d) i) * 512) 512 b) [0..<?n] = map (\<lambda>i. blk b (unat (baddr (blk b) ?as i))) [0..<?n]"
    using a by (simp add: blk_def)
  moreover have "it_size (v6_of d) = di_size d" by (simp add: v6_of_def)
  ultimately show "file_data b (v6_of d) = take (unat (di_size d)) (c @ replicate (512 * ?n - length c) 0)"
    unfolding file_data_def fb fd [symmetric] fdata_def by (simp only:)
qed

text \<open>All blocks of a file, as the kernel finds them\<close>

definition inode_blocks :: "bytes \<Rightarrow> V6fsInodeStruct \<Rightarrow> nat set" where
  "inode_blocks b st = (\<lambda>i. unat (blk_addr b st i)) ` {..<file_blocks st} \<union> (if kNumOfDirectBlocks < file_blocks st then {unat (it_indirect st)} else {})"

lemma inode_blocks_eq:
  assumes s: "fstate (blk b) f (di_addrs d) c" and n: "nb (unat (di_size d)) = nb (length c)"
  shows "inode_blocks b (v6_of d) = fblocks (blk b) (di_addrs d) c"
proof -
  let ?n = "nb (length c)"
  have l: "length (di_addrs d) = 13" "?n \<le> 140" using s by (simp_all add: fstate_def bmap_def)
  have "file_blocks (v6_of d) = ?n" using n by (simp add: file_blocks_def v6_of_def nb_def)
  moreover have "(\<lambda>i. unat (blk_addr b (v6_of d) i)) ` {..<?n} = (\<lambda>i. unat (baddr (blk b) (di_addrs d) i)) ` {..<?n}"
    using blk_addr_baddr [OF l(1)] l(2) by (intro image_cong) auto
  moreover have "it_indirect (v6_of d) = di_addrs d ! 12" by (simp add: v6_of_def)
  ultimately show ?thesis by (auto simp: inode_blocks_def fblocks_def bused_def kNumOfDirectBlocks_def lessThan_atLeast0)
qed

text \<open>The bitmap\<close>

definition bitmap_fold :: "nat \<Rightarrow> bytes" where
  "bitmap_fold n = fold (\<lambda>i buf. buf[i div 8 := buf ! (i div 8) OR push_bit (i mod 8) 1]) [0..<n] (replicate BSIZE 0)"

lemma length_bitmap_fold [simp]: "length (bitmap_fold n) = 512"
  by (induction n) (simp_all add: bitmap_fold_def BSIZE_def)

lemma bitmap_fold_bit:
  assumes "q < 4096"
  shows "n \<le> 4096 \<Longrightarrow> bit (bitmap_fold n ! (q div 8)) (q mod 8) \<longleftrightarrow> q < n"
proof (induction n)
  case 0
  have "q div 8 < 512" using assms by simp
  then show ?case by (simp add: bitmap_fold_def BSIZE_def)
next
  case (Suc n)
  have b: "bitmap_fold (Suc n) = (bitmap_fold n)[n div 8 := bitmap_fold n ! (n div 8) OR push_bit (n mod 8) 1]" by (simp add: bitmap_fold_def)
  have n: "n div 8 < 512" using Suc.prems by simp
  show ?case
  proof (cases "q div 8 = n div 8")
    case True
    then have "q mod 8 = n mod 8 \<longleftrightarrow> q = n" by (metis mult_div_mod_eq)
    moreover have "bit (push_bit (n mod 8) 1 :: u8) (q mod 8) \<longleftrightarrow> q mod 8 = n mod 8" by (auto simp: bit_exp_iff)
    ultimately show ?thesis using Suc True n b by (auto simp: bit_or_iff)
  next
    case False
    then have "q \<noteq> n" by auto
    then show ?thesis using Suc False b by auto
  qed
qed

text \<open>The arguments that \<open>mkfs\<close> makes a file system of: the names can be written down, the files are not too large, and everything has room.\<close>

definition name_ok :: "bytes \<Rightarrow> bool" where
  "name_ok w \<longleftrightarrow> 0 \<notin> set w \<and> 47 \<notin> set w \<and> length w < 14"

definition args_ok :: "(bytes \<Rightarrow> bytes list option) \<Rightarrow> bytes list \<Rightarrow> bool" where
  "args_ok reads as \<longleftrightarrow> (\<forall>a \<in> set as. arg_ok reads a \<and> name_ok (file_name a)) \<and> length as \<le> 198 \<and> (2 + length as) mod 32 \<noteq> 0 \<and>
     59 + need (16 * (2 + length as)) + sum_list (map (\<lambda>a. need (length (content reads a))) as) \<le> 1000"

text \<open>The finished image: the contents of every inode, no block in two files, and the bitmap marks exactly the blocks before \<open>f\<close>.\<close>

definition final :: "(bytes \<Rightarrow> bytes list option) \<Rightarrow> bytes list \<Rightarrow> nat \<Rightarrow> bytes \<Rightarrow> bool" where
  "final reads as f b \<longleftrightarrow> length b = 512000 \<and> f \<le> 1000 \<and> blk b 1 = super_bytes mkfs_sb @ replicate 484 0 \<and> blk b 58 = bitmap_fold f \<and>
     fstate (blk b) f (di_addrs (ino (blk b) 1)) (root_bytes as) \<and> unat (di_size (ino (blk b) 1)) = 512 * nb (length (root_bytes as)) \<and>
     di_type (ino (blk b) 1) = T_DIR \<and>
     (\<forall>t < length as. file_at f (blk b) (2 + t) (content reads (as ! t))) \<and>
     (\<forall>i \<in> {1..<2 + length as}. \<forall>j \<in> {1..<2 + length as}. i \<noteq> j \<longrightarrow>
        inode_blocks b (v6_of (ino (blk b) i)) \<inter> inode_blocks b (v6_of (ino (blk b) j)) = {}) \<and>
     (\<forall>j < 208. j \<notin> {1..<2 + length as} \<longrightarrow> di_type (ino (blk b) j) = 0)"

lemma added_root_bytes: "added reads 2 as (\<lambda>_. root_start) 1 = root_bytes as"
  using added_root [of 2 reads as "\<lambda>_. root_start"] by (simp add: root_bytes_def root_entries_def root_start_def del: upt_Suc)

lemma minv_files:
  assumes "minv f (2 + length as) (added reads 2 as (\<lambda>_. root_start)) m"
  shows "file_at f (mblk m) 1 (root_bytes as)" "t < length as \<Longrightarrow> file_at f (mblk m) (2 + t) (content reads (as ! t))"
proof -
  show "file_at f (mblk m) 1 (root_bytes as)" using minvD(3) [OF assms, of 1] added_root_bytes [of reads as] by simp
  show "file_at f (mblk m) (2 + t) (content reads (as ! t))" if "t < length as"
    using minvD(3) [OF assms, of "2 + t"] added_file [of 2 t as reads] that by simp
qed

lemma fix_root_ok:
  assumes i: "minv f (2 + length as) (added reads 2 as (\<lambda>_. root_start)) m" and n: "(2 + length as) mod 32 \<noteq> 0"
  shows "\<exists>m'. fix_root m = Inr m' \<and> img_ok m' \<and> mk_freeblock m' = of_nat f \<and>
    (\<forall>j < 208. ino (mblk m') j = (if j = 1 then (ino (mblk m) 1) \<lparr> di_size := of_nat (512 * nb (length (root_bytes as))) \<rparr> else ino (mblk m) j)) \<and>
    (\<forall>q. q \<notin> {32..<58} \<longrightarrow> mblk m' q = mblk m q)"
proof -
  let ?d = "ino (mblk m) 1" and ?l = "16 * (2 + length as)"
  have f1: "di_size ?d = of_nat ?l" "length (di_addrs ?d) = 13"
    using minv_files(1) [OF i] by (simp_all add: file_at_def fstate_def bmap_def)
  have l: "?l \<le> 3232" using minvD(8) [OF i] by simp
  have "?l mod 512 = 16 * ((2 + length as) mod 32)" by (simp only: mult_mod_right) simp
  then have "nb ?l = ?l div 512 + 1" using nb_split [of ?l] n by simp
  moreover have "unat (of_nat ?l :: u32) = ?l" using l by (simp only: unat_of_nat) simp
  then have "(of_nat ?l :: u32) div 512 = of_nat (?l div 512)" by (simp add: word_arith_nat_div)
  ultimately have "(di_size ?d div of_nat BSIZE + 1) * of_nat BSIZE = of_nat (512 * nb (length (root_bytes as)))"
    unfolding f1 by (simp add: BSIZE_def)
  then show ?thesis using rinode_ok [OF minvD(2) [OF i], of 1] winode_ok [OF minvD(2) [OF i], of 1 "?d \<lparr> di_size := of_nat (512 * nb (length (root_bytes as))) \<rparr>"]
      f1(2) minvD(1) [OF i] by (auto simp: fix_root_def ROOTINO_def mstate_def)
qed

text \<open>The two last steps, \<open>fix_root\<close> and \<open>balloc\<close>, touch the inode of the root and the bitmap only.\<close>

definition finished :: "nat \<Rightarrow> bytes list \<Rightarrow> (nat \<Rightarrow> bytes) \<Rightarrow> (nat \<Rightarrow> bytes) \<Rightarrow> bool" where
  "finished f as B B' \<longleftrightarrow> B' 1 = B 1 \<and> B' 58 = bitmap_fold f \<and> (\<forall>q \<ge> 59. B' q = B q) \<and>
     (\<forall>j < 208. ino B' j = (if j = 1 then (ino B 1) \<lparr> di_size := of_nat (512 * nb (length (root_bytes as))) \<rparr> else ino B j))"

lemma finish_ok:
  assumes i: "minv f (2 + length as) (added reads 2 as (\<lambda>_. root_start)) m" and n: "(2 + length as) mod 32 \<noteq> 0"
  shows "\<exists>m3 m4. fix_root m = Inr m3 \<and> balloc (mk_freeblock m3) m3 = Inr m4 \<and> img_ok m4 \<and> finished f as (mblk m) (mblk m4)"
proof -
  from fix_root_ok [OF i n] obtain m3 where m3: "fix_root m = Inr m3" "img_ok m3" "mk_freeblock m3 = of_nat f"
    "\<And>j. j < 208 \<Longrightarrow> ino (mblk m3) j = (if j = 1 then (ino (mblk m) 1) \<lparr> di_size := of_nat (512 * nb (length (root_bytes as))) \<rparr> else ino (mblk m) j)"
    "\<And>q. q \<notin> {32..<58} \<Longrightarrow> mblk m3 q = mblk m q" by blast
  have f: "f \<le> 1000" "unat (of_nat f :: u32) = f" using minvD(10) [OF i] by (simp_all add: unat_of_nat)
  let ?m = "wsect 58 (bitmap_fold f) m3"
  have "balloc (mk_freeblock m3) m3 = Inr ?m" using m3(2,3) f by (simp add: balloc_def BSIZE_def bitmap_fold_def img_ok_def mkfs_sb_val)
  moreover note w = wsect_blk [OF m3(2), of 58 "bitmap_fold f", simplified]
  moreover have "ino (mblk ?m) j = ino (mblk m3) j" if "j < 208" for j by (rule ino_cong) (use w(2) that in auto)
  ultimately show ?thesis using m3 by (intro exI [of _ m3] exI [of _ ?m]) (auto simp: finished_def)
qed

lemma finished_fstate:
  assumes "finished f as B B'" "fstate B f as' c"
  shows "fstate B' f as' c" "fblocks B' as' c = fblocks B as' c"
proof -
  have "B' q = B q" if "q \<in> fblocks B as' c" for q
  proof -
    have "59 \<le> q" using that fstate_bounds [OF assms(2)] by auto
    then show ?thesis using assms(1) unfolding finished_def by blast
  qed
  note same = this
  show "fstate B' f as' c" by (rule fstate_cong(1) [OF assms(2) same]) simp_all
  show "fblocks B' as' c = fblocks B as' c" by (rule fstate_cong(2) [OF assms(2) same]) (simp_all, rule order_refl)
qed

lemma root_size: "length as \<le> 198 \<Longrightarrow> unat (of_nat (512 * nb (length (root_bytes as))) :: u32) = 512 * nb (length (root_bytes as))"
proof -
  assume "length as \<le> 198"
  then have "512 * nb (length (root_bytes as)) < 2 ^ 32" by (simp add: nb_def)
  then show ?thesis by (simp only: unat_of_nat) simp
qed

lemma finished_blocks:
  assumes i: "minv f (2 + length as) (added reads 2 as (\<lambda>_. root_start)) m" and fin: "finished f as (mblk m) (blk b)" and j: "j \<in> {1..<2 + length as}"
  shows "inode_blocks b (v6_of (ino (blk b) j)) = blocks_at (mblk m) j (added reads 2 as (\<lambda>_. root_start) j)"
proof -
  let ?c = "added reads 2 as (\<lambda>_. root_start) j"
  have fj: "file_at f (mblk m) j ?c" by (rule minvD(3) [OF i j])
  have l: "length as \<le> 198" using minvD(8) [OF i] by simp
  have "ino (blk b) j = (if j = 1 then (ino (mblk m) 1) \<lparr> di_size := of_nat (512 * nb (length (root_bytes as))) \<rparr> else ino (mblk m) j)"
    using fin j l by (simp add: finished_def)
  moreover have "unat (of_nat (length ?c) :: u32) = length ?c" using fj by (simp add: file_at_def unat_of_nat)
  ultimately have "nb (unat (di_size (ino (blk b) j))) = nb (length ?c)" "di_addrs (ino (blk b) j) = di_addrs (ino (mblk m) j)"
    using root_size [OF l] added_root_bytes [of reads as] fj by (simp_all add: file_at_def nb_mult del: of_nat_mult)
  moreover have "fstate (mblk m) f (di_addrs (ino (mblk m) j)) ?c" using fj by (simp add: file_at_def)
  note finished_fstate [OF fin this]
  ultimately show ?thesis using inode_blocks_eq [of b f "ino (blk b) j" ?c] by (simp add: blocks_at_def)
qed

lemma final_ok:
  assumes i: "minv f (2 + length as) (added reads 2 as (\<lambda>_. root_start)) m" and fin: "finished f as (mblk m) (blk b)" and b: "length b = 512000"
  shows "final reads as f b"
proof -
  have l: "length as \<le> 198" using minvD(8) [OF i] by simp
  note inos = fin [unfolded finished_def, THEN conjunct2, THEN conjunct2, THEN conjunct2, rule_format]
  note fs = minv_files [OF i]
  have root: "fstate (blk b) f (di_addrs (ino (blk b) 1)) (root_bytes as)" "di_type (ino (blk b) 1) = T_DIR"
    using fs(1) finished_fstate(1) [OF fin] inos [of 1] by (simp_all add: file_at_def)
  have sz: "unat (di_size (ino (blk b) 1)) = 512 * nb (length (root_bytes as))" using root_size [OF l] inos [of 1] by (simp del: of_nat_mult)
  have files: "file_at f (blk b) (2 + t) (content reads (as ! t))" if "t < length as" for t
    using fs(2) [OF that] finished_fstate(1) [OF fin] inos [of "2 + t"] that l by (simp add: file_at_def)
  have dis: "inode_blocks b (v6_of (ino (blk b) k)) \<inter> inode_blocks b (v6_of (ino (blk b) j)) = {}"
    if "k \<in> {1..<2 + length as}" "j \<in> {1..<2 + length as}" "k \<noteq> j" for k j
    using finished_blocks [OF i fin] minvD(5) [OF i that] that by simp
  have "di_type (ino (blk b) j) = 0" if "j < 208" "j \<notin> {1..<2 + length as}" for j
    using inos [OF that(1)] minvD(9) [OF i that] that(2) by auto
  then show ?thesis using root sz files dis b minvD(10,11) [OF i] fin unfolding final_def finished_def by simp
qed

lemma mkfs_final:
  assumes a: "args_ok reads as" and v: "drop 2 argv = as" "2 \<le> length argv"
  shows "\<exists>f b. mkfs_main True reads argv = Some (Inr b) \<and> final reads as f b"
proof -
  define f where "f = 59 + need (16 * (2 + length as)) + sum_list (map (\<lambda>a. need (length (content reads a))) as)"
  have len: "length as \<le> 198" "f \<le> 1000" "(2 + length as) mod 32 \<noteq> 0" "\<forall>a \<in> set as. arg_ok reads a" using a by (auto simp: args_ok_def f_def)
  obtain m1 where m1: "make_root mkfs_new = Some (Inr m1)" "minv 60 2 (\<lambda>_. root_start) m1" using make_root_ok by blast
  have nm: "1 \<le> need (16 * (2 + length as))" using need_mono [of 16 "16 * (2 + length as)"] need_small by simp
  have "\<exists>m'. add_files reads as m1 = Some (Inr m') \<and> minv f (2 + length as) (added reads 2 as (\<lambda>_. root_start)) m'"
    by (rule add_files_ok [OF m1(2)]) (use len nm in \<open>simp_all add: root_start_def need_small f_def\<close>)
  then obtain m2 where m2: "add_files reads as m1 = Some (Inr m2)" and i: "minv f (2 + length as) (added reads 2 as (\<lambda>_. root_start)) m2" by blast
  from finish_ok [OF i len(3)] obtain m3 m4 where m4: "fix_root m2 = Inr m3" "balloc (mk_freeblock m3) m3 = Inr m4" "img_ok m4" "finished f as (mblk m2) (mblk m4)" by blast
  have "mkfs_main True reads argv = Some (Inr (mk_fsfd m4))" using v m1(1) m2 m4(1,2) by (simp add: mkfs_main_def mk_bind_def)
  then show ?thesis using final_ok [OF i m4(4)] m4(3) by (auto simp: img_ok_def)
qed

section \<open>The kernel finds the files\<close>

lemma super_roundtrip: "super_of (super_bytes sb) = sb"
proof -
  let ?v = "[sb_size sb, sb_nblocks sb, sb_ninodes sb, sb_nlog sb, sb_logstart sb, sb_inodestart sb, sb_bmapstart sb]"
  have "get32 (4 * i) (super_bytes sb) = ?v ! i" if "i < length ?v" for i
    unfolding get32_def super_bytes_def using concat_words_at [OF that, of "[]"] by (simp only: append_Nil2 get32_le_bytes)
  from this [of 0] this [of 1] this [of 2] this [of 3] this [of 4] this [of 5] this [of 6] show ?thesis by (simp add: super_of_def)
qed

lemma final_super: "final reads as f b \<Longrightarrow> super_of (bytes_at 512 28 b) = mkfs_sb"
proof -
  assume "final reads as f b"
  then have "bytes_at 0 28 (blk b 1) = super_bytes mkfs_sb" by (simp add: final_def bytes_at_def)
  then have "bytes_at 512 28 b = super_bytes mkfs_sb" by (simp add: blk_def bytes_at_bytes_at)
  then show ?thesis using super_roundtrip by simp
qed

lemma final_inode:
  assumes "final reads as f b" "length as \<le> 198"
  shows "it_type (inode_at mkfs_sb b 1) = Type_kDirectory" "file_ok b (inode_at mkfs_sb b 1)" "it_size (inode_at mkfs_sb b 1) = of_nat (512 * nb (16 * (2 + length as)))"
    "file_data b (inode_at mkfs_sb b 1) = root_bytes as @ replicate (512 * nb (16 * (2 + length as)) - 16 * (2 + length as)) 0"
    "t < length as \<Longrightarrow> it_type (inode_at mkfs_sb b (of_nat (2 + t))) = Type_kFile" "t < length as \<Longrightarrow> file_ok b (inode_at mkfs_sb b (of_nat (2 + t)))"
    "t < length as \<Longrightarrow> file_data b (inode_at mkfs_sb b (of_nat (2 + t))) = content reads (as ! t)"
    "j < 208 \<Longrightarrow> j \<notin> {1..<2 + length as} \<Longrightarrow> it_type (inode_at mkfs_sb b (of_nat j)) = 0"
    "j \<in> {1..<2 + length as} \<Longrightarrow> file_apart 0 (59 * 512) b (inode_at mkfs_sb b (of_nat j))"
proof -
  have b: "length b = 512000" "f \<le> 1000" using assms(1) by (simp_all add: final_def)
  let ?l = "16 * (2 + length as)"
  let ?r = "ino (blk b) 1"
  have r: "fstate (blk b) f (di_addrs ?r) (root_bytes as)" "unat (di_size ?r) = 512 * nb ?l" "di_type ?r = T_DIR" using assms(1) by (auto simp: final_def)
  have n: "nb (unat (di_size ?r)) = nb (length (root_bytes as))" using r(2) by (simp add: nb_mult)
  have e1: "inode_at mkfs_sb b 1 = v6_of ?r" using inode_at_ino [of 1 b] by simp
  note k1 = kernel_file [OF r(1) b(2,1) n, folded e1]
  have le: "?l \<le> 512 * nb ?l" using nb_split [of ?l] mult_div_mod_eq [of 512 ?l] by (auto simp: mod_less_divisor less_imp_le split: if_splits)
  show "it_type (inode_at mkfs_sb b 1) = Type_kDirectory" using e1 r(3) by (simp add: v6_of_def T_DIR_def Type_kDirectory_def)
  show "file_ok b (inode_at mkfs_sb b 1)" by (rule k1(1))
  show "file_data b (inode_at mkfs_sb b 1) = root_bytes as @ replicate (512 * nb ?l - ?l) 0" using k1(2) r(2) le by simp
  have "it_size (inode_at mkfs_sb b 1) = di_size ?r" unfolding e1 by (simp add: v6_of_def)
  then show "it_size (inode_at mkfs_sb b 1) = of_nat (512 * nb ?l)" unfolding r(2) [symmetric] by simp
  have fil: "it_type (inode_at mkfs_sb b (of_nat (2 + t))) = Type_kFile \<and> file_ok b (inode_at mkfs_sb b (of_nat (2 + t))) \<and>
    file_data b (inode_at mkfs_sb b (of_nat (2 + t))) = content reads (as ! t) \<and> file_apart 0 (59 * 512) b (inode_at mkfs_sb b (of_nat (2 + t)))" if t: "t < length as" for t
  proof -
    let ?d = "ino (blk b) (2 + t)" and ?c = "content reads (as ! t)"
    have "file_at f (blk b) (2 + t) ?c" using assms(1) t by (simp add: final_def)
    then have d: "fstate (blk b) f (di_addrs ?d) ?c" "di_size ?d = of_nat (length ?c)" "length ?c \<le> 71680" "di_type ?d = T_FILE" by (simp_all add: file_at_def)
    have u: "unat (di_size ?d) = length ?c" using d(2,3) by (simp add: unat_of_nat)
    have e: "inode_at mkfs_sb b (of_nat (2 + t)) = v6_of ?d" by (rule inode_at_ino) (use t assms(2) in simp)
    have "nb (unat (di_size ?d)) = nb (length ?c)" by (simp only: u)
    note k = kernel_file [OF d(1) b(2,1) this, folded e]
    have "it_type (inode_at mkfs_sb b (of_nat (2 + t))) = Type_kFile" unfolding e using d(4) by (simp add: v6_of_def T_FILE_def Type_kFile_def)
    then show ?thesis using k u by simp
  qed
  then show "it_type (inode_at mkfs_sb b (of_nat (2 + t))) = Type_kFile" "file_ok b (inode_at mkfs_sb b (of_nat (2 + t)))"
    "file_data b (inode_at mkfs_sb b (of_nat (2 + t))) = content reads (as ! t)" if "t < length as" for t using that by blast+
  show "it_type (inode_at mkfs_sb b (of_nat j)) = 0" if "j < 208" "j \<notin> {1..<2 + length as}" for j
    using assms(1) that inode_at_ino [OF that(1), of b] by (simp add: final_def v6_of_def)
  show "file_apart 0 (59 * 512) b (inode_at mkfs_sb b (of_nat j))" if "j \<in> {1..<2 + length as}" for j
  proof (cases "j = 1")
    case False
    then have "j = 2 + (j - 2)" "j - 2 < length as" using that by auto
    then show ?thesis using fil [of "j - 2"] by metis
  qed (use k1(3) in simp)
qed

lemma file_inode: "j \<in> {1..<2 + n} \<Longrightarrow> j \<noteq> 1 \<Longrightarrow> \<exists>t < n. j = 2 + t" for n :: nat
  by (intro exI [of _ "j - 2"]) auto

lemma known_range:
  assumes "final reads as f b" "length as \<le> 198"
  shows "v6_known mkfs_sb b i \<longleftrightarrow> unat i \<in> {1..<2 + length as}"
proof
  assume k: "v6_known mkfs_sb b i"
  then have "unat i < 200" "it_type (inode_at mkfs_sb b i) \<noteq> 0"
    by (auto simp: v6_known_def mkfs_sb_val word_less_unat Type_kDirectory_def Type_kFile_def Type_kDevice_def)
  then show "unat i \<in> {1..<2 + length as}" using final_inode(8) [OF assms, of "unat i"] by force
next
  assume r: "unat i \<in> {1..<2 + length as}"
  then have lt: "i < sb_ninodes mkfs_sb" using assms(2) by (simp add: mkfs_sb_val word_less_unat)
  show "v6_known mkfs_sb b i"
  proof (cases "unat i = 1")
    case True
    then have "i = 1" by (metis unsigned_1 word_unat_eq_iff)
    then show ?thesis using lt final_inode(1,2) [OF assms] by (simp add: v6_known_def)
  next
    case False
    then obtain t where t: "unat i = 2 + t" "t < length as" using r file_inode by blast
    then have "i = of_nat (2 + t)" by (metis of_nat_unat ucast_id)
    then show ?thesis using lt final_inode(5,6) [OF assms t(2)] by (simp add: v6_known_def del: of_nat_add)
  qed
qed

text \<open>The root directory: the entries that were written, and free ones up to the end of the last block\<close>

lemma root_names:
  assumes "args_ok reads as" "i < 2 + length as"
  shows "fst (root_entries as ! i) \<in> {1..<2 + length as}" "0 \<notin> set (snd (root_entries as ! i))" "length (snd (root_entries as ! i)) < 14"
proof -
  have n: "name_ok (file_name (as ! t))" if "t < length as" for t using assms(1) that by (simp add: args_ok_def)
  consider "i = 0" | "i = 1" | t where "i = 2 + t" "t < length as" using assms(2) by (metis Suc_1 Suc_leI add_less_cancel_left le_Suc_ex le_neq_implies_less less_one not_less zero_less_iff_neq_zero)
  then have "fst (root_entries as ! i) \<in> {1..<2 + length as} \<and> 0 \<notin> set (snd (root_entries as ! i)) \<and> length (snd (root_entries as ! i)) < 14"
    by cases (use n in \<open>auto simp: root_entries_def name_ok_def simp del: upt_Suc\<close>)
  then show "fst (root_entries as ! i) \<in> {1..<2 + length as}" "0 \<notin> set (snd (root_entries as ! i))" "length (snd (root_entries as ! i)) < 14" by auto
qed

lemma root_dir_entry:
  assumes "args_ok reads as" "final reads as f b"
  shows "i < 2 + length as \<Longrightarrow> dir_entry b (inode_at mkfs_sb b 1) i = dirent (of_nat (fst (root_entries as ! i))) (snd (root_entries as ! i))"
    "2 + length as \<le> i \<Longrightarrow> entry_inum (dir_entry b (inode_at mkfs_sb b 1) i) = 0"
    "dir_count (inode_at mkfs_sb b 1) = 32 * nb (16 * (2 + length as))" "2 + length as \<le> dir_count (inode_at mkfs_sb b 1)"
proof -
  have l: "length as \<le> 198" using assms(1) by (simp add: args_ok_def)
  note fi = final_inode [OF assms(2) l]
  show "dir_entry b (inode_at mkfs_sb b 1) i = dirent (of_nat (fst (root_entries as ! i))) (snd (root_entries as ! i))" if "i < 2 + length as"
    unfolding dir_entry_def fi(4) by (rule root_entry) (use that in simp)
  show "entry_inum (dir_entry b (inode_at mkfs_sb b 1) i) = 0" if "2 + length as \<le> i"
  proof -
    have "\<exists>k. bytes_at (16 * i) 16 (root_bytes as @ replicate n 0) = replicate k 0" for n using that by (simp add: bytes_at_def)
    then obtain k where "dir_entry b (inode_at mkfs_sb b 1) i = replicate k 0" unfolding dir_entry_def fi(4) by blast
    then show ?thesis by (simp add: entry_inum_def get16_def bytes_at_def)
  qed
  have "unat (it_size (inode_at mkfs_sb b 1)) = 512 * nb (16 * (2 + length as))" using root_size [OF l] fi(3) by simp
  then show c: "dir_count (inode_at mkfs_sb b 1) = 32 * nb (16 * (2 + length as))" by (simp add: dir_count_def)
  have "16 * (2 + length as) \<le> 512 * nb (16 * (2 + length as))" by (simp add: nb_def)
  then show "2 + length as \<le> dir_count (inode_at mkfs_sb b 1)" unfolding c by simp
qed

lemma inum_nat: "k < 65536 \<Longrightarrow> unat (ucast (of_nat k :: u16) :: u32) = k" "k < 65536 \<Longrightarrow> ucast (of_nat k :: u16) = (of_nat k :: u32)"
proof -
  assume k: "k < 65536"
  then have "unat (of_nat k :: u16) = k" by (simp only: unat_of_nat) simp
  then show u: "unat (ucast (of_nat k :: u16) :: u32) = k" using k by (simp add: unsigned_ucast_eq take_bit_eq_mod)
  have "unat (of_nat k :: u32) = k" using k by (simp only: unat_of_nat) simp
  then show "ucast (of_nat k :: u16) = (of_nat k :: u32)" using u by (simp add: word_unat_eq_iff)
qed

lemma final_good:
  assumes "args_ok reads as" "final reads as f b"
  shows "v6_wf mkfs_sb b" "ram_small b" "540 \<le> length b"
proof -
  have l: "length as \<le> 198" "length b = 512000" using assms by (simp_all add: args_ok_def final_def)
  then show "ram_small b" "540 \<le> length b" by (simp_all add: ram_small_def)
  note fi = final_inode [OF assms(2) l(1)] and kr = known_range [OF assms(2) l(1)] and de = root_dir_entry [OF assms]
  have dir: "entry_inum (dir_entry b (inode_at mkfs_sb b 1) i) = of_nat (fst (root_entries as ! i))" "0 \<in> set (drop 2 (dir_entry b (inode_at mkfs_sb b 1) i))"
    if "i < 2 + length as" for i
    using dirent_parts [of "fst (root_entries as ! i)" "snd (root_entries as ! i)"] root_names [OF assms(1) that] de(1) [OF that] l(1) by auto
  have inum: "v6_known mkfs_sb b (ucast (of_nat (fst (root_entries as ! i)) :: u16))" if "i < 2 + length as" for i
    using root_names(1) [OF assms(1) that] inum_nat(1) [of "fst (root_entries as ! i)"] l(1) unfolding kr by simp
  have "it_size (inode_at mkfs_sb b 1) = of_nat (512 * nb (length (root_bytes as)))" using fi(3) by simp
  then have "unat (it_size (inode_at mkfs_sb b 1)) mod 16 = 0" using root_size [OF l(1)] by simp
  moreover have "0 \<in> set (drop 2 (dir_entry b (inode_at mkfs_sb b 1) i)) \<and> v6_known mkfs_sb b (ucast (entry_inum (dir_entry b (inode_at mkfs_sb b 1) i)))"
    if "entry_inum (dir_entry b (inode_at mkfs_sb b 1) i) \<noteq> 0" for i
  proof -
    have "i < 2 + length as" using de(2) [of i] that by (meson not_less)
    then show ?thesis using dir inum by simp
  qed
  ultimately have root: "v6_dir_ok mkfs_sb b 1" by (simp add: v6_dir_ok_def dir_ok_def Let_def)
  have dirs: "v6_dir_ok mkfs_sb b i" if known: "v6_known mkfs_sb b i" and d: "it_type (inode_at mkfs_sb b i) = Type_kDirectory" for i
  proof (cases "unat i = 1")
    case True
    then have "i = 1" by (metis unsigned_1 word_unat_eq_iff)
    then show ?thesis using root by simp
  next
    case False
    then obtain t where t: "unat i = 2 + t" "t < length as" using known file_inode unfolding kr by blast
    then have "i = of_nat (2 + t)" by (metis of_nat_unat ucast_id)
    then show ?thesis using fi(5) [OF t(2)] d by (simp add: Type_kFile_def Type_kDirectory_def del: of_nat_add)
  qed
  have small: "unat (of_nat i :: u32) = i" if "i < 200" for i using that by (simp add: unat_of_nat)
  have used: "v6_known mkfs_sb b (of_nat i) \<and> file_apart (32 * 512) (inode_end mkfs_sb) b (inode_at mkfs_sb b (of_nat i))"
    if "i < 200" "it_type (inode_at mkfs_sb b (of_nat i)) \<noteq> Type_kFree" for i
  proof -
    have r: "i \<in> {1..<2 + length as}" using fi(8) [of i] that by (auto simp: Type_kFree_def)
    have "inode_end mkfs_sb \<le> 59 * 512" by (simp add: inode_end_def mkfs_sb_val)
    then show ?thesis using fi(9) [OF r] r small [OF that(1)] unfolding kr file_apart_def by force
  qed
  have "v6_known mkfs_sb b 1" unfolding kr by simp
  then show "v6_wf mkfs_sb b" using dirs used l(2) unfolding v6_wf_def v6_good_def by (simp add: mkfs_sb_val)
qed

text \<open>The search of the root gives the first file of the name.\<close>

lemma root_lookup:
  assumes a: "args_ok reads as" and fin: "final reads as f b" and t: "t < length as" and w: "w = file_name (as ! t)" "w \<notin> {[], [46], [46, 46]}"
    and first: "\<forall>s < t. file_name (as ! s) \<noteq> w"
  shows "v6_ent mkfs_sb b 1 w = Some (of_nat (2 + t))"
proof -
  let ?st = "inode_at mkfs_sb b 1"
  have l: "length as \<le> 198" using a by (simp add: args_ok_def)
  note de = root_dir_entry [OF a fin]
  have e: "entry_inum (dir_entry b ?st i) = of_nat (fst (root_entries as ! i))" "entry_name (dir_entry b ?st i) = snd (root_entries as ! i)"
    if "i < 2 + length as" for i
    using dirent_parts [of "fst (root_entries as ! i)" "snd (root_entries as ! i)"] root_names [OF a that] de(1) [OF that] l by auto
  have rt: "root_entries as ! (2 + s) = (2 + s, file_name (as ! s))" if "s < length as" for s
    using that by (simp add: root_entries_def del: upt_Suc)
  have "snd (root_entries as ! i) \<noteq> w" if "i < 2 + t" for i
  proof -
    consider "i = 0" | "i = 1" | "2 \<le> i" by linarith
    then show ?thesis
    proof cases
      case 3
      then have "i = 2 + (i - 2)" "i - 2 < t" using that by simp_all
      then show ?thesis using rt [of "i - 2"] first t by (metis order.strict_trans snd_conv)
    qed (use w(2) in \<open>auto simp: root_entries_def\<close>)
  qed
  then have before: "\<not> (entry_inum (dir_entry b ?st i) \<noteq> 0 \<and> entry_name (dir_entry b ?st i) = w)" if "i < 2 + t" for i using e(2) [of i] that t by simp
  have "unat (ucast (of_nat (2 + t) :: u16) :: u32) = 2 + t" by (rule inum_nat(1)) (use t l in simp)
  then have "(of_nat (2 + t) :: u16) \<noteq> 0" by (intro notI) (simp del: of_nat_add)
  then have hit: "entry_inum (dir_entry b ?st (2 + t)) \<noteq> 0 \<and> entry_name (dir_entry b ?st (2 + t)) = w" using e [of "2 + t"] rt [OF t] t w(1) by simp
  have "dir_find b ?st w = Some (2 + t)"
    unfolding dir_find_def find_Some_iff using hit before de(4) t by (intro exI [of _ "2 + t"]) simp
  then show ?thesis unfolding v6_ent_def using e(1) [of "2 + t"] rt [OF t] t l inum_nat(2) [of "2 + t"] by (simp del: of_nat_add)
qed

lemma final_blocks:
  assumes fin: "final reads as f b" and l: "length as \<le> 198" and i: "v6_known mkfs_sb b i"
  shows "\<exists>j \<in> {1..<2 + length as}. i = of_nat j \<and> inode_at mkfs_sb b i = v6_of (ino (blk b) j) \<and> inode_blocks b (inode_at mkfs_sb b i) \<subseteq> {59..<f}"
proof -
  let ?j = "unat i"
  have j: "?j \<in> {1..<2 + length as}" using known_range [OF fin l] i by blast
  have e: "inode_at mkfs_sb b i = v6_of (ino (blk b) ?j)" using inode_at_ino [of ?j b] j l by simp
  have "\<exists>c. fstate (blk b) f (di_addrs (ino (blk b) ?j)) c \<and> nb (unat (di_size (ino (blk b) ?j))) = nb (length c)"
  proof (cases "?j = 1")
    case True
    then show ?thesis using fin nb_mult by (intro exI [of _ "root_bytes as"]) (simp add: final_def)
  next
    case False
    then obtain t where t: "t < length as" "?j = 2 + t" using file_inode [OF j] by blast
    then have "file_at f (blk b) ?j (content reads (as ! t))" using fin by (simp add: final_def)
    then show ?thesis by (intro exI [of _ "content reads (as ! t)"]) (simp add: file_at_def unat_of_nat)
  qed
  then obtain c where c: "fstate (blk b) f (di_addrs (ino (blk b) ?j)) c" "nb (unat (di_size (ino (blk b) ?j))) = nb (length c)" by blast
  have "inode_blocks b (inode_at mkfs_sb b i) \<subseteq> {59..<f}" unfolding e using inode_blocks_eq [OF c] fstate_bounds [OF c(1)] by simp
  then show ?thesis using j e by (intro bexI [of _ ?j]) simp_all
qed

lemma final_disjoint:
  assumes "final reads as f b" "i \<in> {1..<2 + length as}" "j \<in> {1..<2 + length as}" "i \<noteq> j"
  shows "inode_blocks b (v6_of (ino (blk b) i)) \<inter> inode_blocks b (v6_of (ino (blk b) j)) = {}"
  using assms unfolding final_def by blast

text \<open>C13: the image that \<open>mkfs\<close> makes is a well-formed file system for the kernel: its superblock is the one the program computed, every inode that is not free has a file with
  all its blocks, no two files share a block, no file reaches into the blocks of the layout, and the bitmap marks exactly the blocks up to the last one in use. The arguments
  have names of at most thirteen characters and no slash, at most 140 blocks each, and there is room; the number of entries of the root is not a multiple of 32.
\<close>

theorem mkfs_image_sound:
  assumes "args_ok reads as"
  shows "\<exists>f b. mkfs_main True reads (prog # img # as) = Some (Inr b) \<and> length b = 512000 \<and> super_of (bytes_at 512 28 b) = mkfs_sb \<and> v6_wf mkfs_sb b \<and>
    (\<forall>i j. v6_known mkfs_sb b i \<and> v6_known mkfs_sb b j \<and> i \<noteq> j \<longrightarrow> inode_blocks b (inode_at mkfs_sb b i) \<inter> inode_blocks b (inode_at mkfs_sb b j) = {}) \<and>
    (\<forall>i. v6_known mkfs_sb b i \<longrightarrow> inode_blocks b (inode_at mkfs_sb b i) \<subseteq> {nmeta..<f}) \<and>
    (\<forall>q < 1000. bit (b ! (58 * 512 + q div 8)) (q mod 8) \<longleftrightarrow> q < f)"
proof -
  obtain f b where r: "mkfs_main True reads (prog # img # as) = Some (Inr b)" and fin: "final reads as f b" using mkfs_final [OF assms] by force
  have l: "length as \<le> 198" using assms by (simp add: args_ok_def)
  note fb = final_blocks [OF fin l]
  have dis: "inode_blocks b (inode_at mkfs_sb b i) \<inter> inode_blocks b (inode_at mkfs_sb b j) = {}" if ij: "v6_known mkfs_sb b i" "v6_known mkfs_sb b j" "i \<noteq> j" for i j
  proof -
    obtain k where k: "k \<in> {1..<2 + length as}" "i = of_nat k" "inode_at mkfs_sb b i = v6_of (ino (blk b) k)" using fb [OF ij(1)] by blast
    obtain l where l: "l \<in> {1..<2 + length as}" "j = of_nat l" "inode_at mkfs_sb b j = v6_of (ino (blk b) l)" using fb [OF ij(2)] by blast
    have "k \<noteq> l" using ij(3) k(2) l(2) by auto
    then show ?thesis using final_disjoint [OF fin k(1) l(1)] k(3) l(3) by simp
  qed
  have "bit (b ! (58 * 512 + q div 8)) (q mod 8) \<longleftrightarrow> q < f" if "q < 1000" for q
  proof -
    have f: "length b = 512000" "blk b 58 = bitmap_fold f" "f \<le> 1000" using fin by (simp_all add: final_def)
    have "b ! (58 * 512 + q div 8) = blk b 58 ! (q div 8)" using that f(1) by (simp add: blk_def bytes_at_def)
    then show ?thesis using bitmap_fold_bit [of q f] that f(2,3) by simp
  qed
  moreover have "nmeta = 59" by (simp add: mkfs_consts)
  then have "inode_blocks b (inode_at mkfs_sb b i) \<subseteq> {nmeta..<f}" if "v6_known mkfs_sb b i" for i using fb [OF that] by metis
  moreover have "length b = 512000" using fin by (simp add: final_def)
  ultimately show ?thesis using r dis final_super [OF fin] final_good(1) [OF assms fin] by (intro exI [of _ f] exI [of _ b]) simp
qed

lemma demo_args: "args_ok (\<lambda>_. Some [[104, 105, 10]]) [[95, 97]]"
  by (simp add: args_ok_def arg_ok_def name_ok_def file_name_def content_def need_def nb_def)

theorem mkfs_image_sound_witness: "\<exists>b. mkfs_main True (\<lambda>_. Some [[104, 105, 10]]) [[109], [105], [95, 97]] = Some (Inr b) \<and> v6_wf mkfs_sb b"
  using mkfs_image_sound [OF demo_args, of "[109]" "[105]"] by blast

text \<open>C7: what \<open>mkfs\<close> puts into the image, the command \<open>cat\<close> of the kernel prints, under the conditions of \<open>args_ok\<close>: there are at most 198 files, each can be opened and read and has at most 140 blocks, their
  names without the leading underscore have at most 13 characters and no slash, the number of directory entries (two more than there are files) is no multiple of 32 (where
  \<open>mkfs\<close> goes wrong), and all fits into the 1000 blocks of the image. Then \<open>mkfs\<close> succeeds, and every file that is the first one with its name, which is not empty and not \<open>.\<close> or
  \<open>..\<close>, is found under this name; the bytes of it that are not zero, and a newline, are printed, however the host cut them into parts when they were read. Zero bytes and later
  files of the same name are not printed.
\<close>

theorem mkfs_cat_roundtrip:
  assumes a: "args_ok reads as" and t: "t < length as" and w: "w = file_name (as ! t)" "w \<notin> {[], [46], [46, 46]}" and first: "\<forall>s < t. file_name (as ! s) \<noteq> w"
  shows "\<exists>b cs. mkfs_main True reads (prog # img # as) = Some (Inr b) \<and> Ramdisk_Attach (Some b) StorageCtrl_new = Inr cs \<and>
    cat st0 buf0 [c, 47 # w @ [0]] cs = Inr (filter (\<lambda>c. c \<noteq> 0) (concat (the (reads (as ! t)))) @ [10])"
proof -
  obtain f b where r: "mkfs_main True reads (prog # img # as) = Some (Inr b)" and fin: "final reads as f b" using mkfs_final [OF a] by force
  have l: "length as \<le> 198" using a by (simp add: args_ok_def)
  obtain cs where cs: "Ramdisk_Attach (Some b) StorageCtrl_new = Inr cs" using Attach_new(1) by blast
  have n: "name_ok w" using a t w(1) by (simp add: args_ok_def)
  have "takeWhile (\<lambda>c. c \<noteq> 47) w = w" "dropWhile (\<lambda>c. c \<noteq> 47) w = []" using n by (auto simp: name_ok_def dropWhile_eq_Nil_conv)
  then have "split_slash w = [w]" using split_slash_name [of w] by simp
  then have p: "path_names w = [w]" using w(2) by (simp add: path_names_def)
  have "v6_walk mkfs_sb b [w] = Inr (of_nat (2 + t))"
    using root_lookup [OF a fin t w first] final_inode(1) [OF fin l] by (simp add: v6_walk_def)
  then show ?thesis
    using r cs cat_prints [OF cs final_good(2,3) [OF a fin] final_super [OF fin, symmetric], of w st0 buf0 c] final_good(1) [OF a fin] n p final_inode(7) [OF fin l t]
    by (intro exI [of _ b] exI [of _ cs]) (simp add: v6_wf_def name_ok_def short_names_def kMaxDirectoryNameLength_def content_def del: of_nat_add)
qed

theorem mkfs_cat_roundtrip_witness:
  "\<exists>b cs. mkfs_main True (\<lambda>_. Some [[104, 105, 10]]) [[109], [105], [95, 97]] = Some (Inr b) \<and> Ramdisk_Attach (Some b) StorageCtrl_new = Inr cs \<and>
    cat demo_stat (\<lambda>_. 0) [[99, 97, 116, 0], [47, 97, 0]] cs = Inr [104, 105, 10, 10]"
  using mkfs_cat_roundtrip [OF demo_args, of 0 "[97]" "[109]" "[105]" demo_stat "\<lambda>_. 0" "[99, 97, 116, 0]"] by (simp add: file_name_def)

end
