(* ===== verification/Elf_Load.thy ===== *)
theory Elf_Load
  imports Loader Byte_Layout
begin

unbundle bit_operations_syntax

text \<open>
  The loader for programs of \<open>elf.cc\<close> and \<open>elf.h\<close>: \<open>ElfObject\<close>, and \<open>RaphineRing0AppObject\<close> on top of it. The theory shows that a program whose addresses were free is in
  memory with all its bytes, and that no memory that was in use has changed.
\<close>

section \<open>The file\<close>

record Elf64_Ehdr =
  e_ident :: bytes
  e_type :: u16
  e_machine :: u16
  e_version :: u32
  e_entry :: u64
  e_phoff :: u64
  e_shoff :: u64
  e_flags :: u32
  e_ehsize :: u16
  e_phentsize :: u16
  e_phnum :: u16
  e_shentsize :: u16
  e_shnum :: u16
  e_shstrndx :: u16

record Elf64_Phdr =
  p_type :: u32
  p_flags :: u32
  p_offset :: u64
  p_vaddr :: u64
  p_paddr :: u64
  p_filesz :: u64
  p_memsz :: u64
  p_align :: u64

record Elf64_Shdr =
  sh_name :: u32
  sh_type :: u32
  sh_flags :: u64
  sh_addr :: u64
  sh_offset :: u64
  sh_size :: u64
  sh_link :: u32
  sh_info :: u32
  sh_addralign :: u64
  sh_entsize :: u64

definition ehdr_of :: "bytes \<Rightarrow> Elf64_Ehdr" where
  "ehdr_of b = \<lparr> e_ident = bytes_at 0 16 b, e_type = get16 16 b, e_machine = get16 18 b, e_version = get32 20 b, e_entry = get64 24 b, e_phoff = get64 32 b,
     e_shoff = get64 40 b, e_flags = get32 48 b, e_ehsize = get16 52 b, e_phentsize = get16 54 b, e_phnum = get16 56 b, e_shentsize = get16 58 b,
     e_shnum = get16 60 b, e_shstrndx = get16 62 b \<rparr>"

definition phdr_of :: "bytes \<Rightarrow> Elf64_Phdr" where
  "phdr_of b = \<lparr> p_type = get32 0 b, p_flags = get32 4 b, p_offset = get64 8 b, p_vaddr = get64 16 b, p_paddr = get64 24 b, p_filesz = get64 32 b,
     p_memsz = get64 40 b, p_align = get64 48 b \<rparr>"

definition shdr_of :: "bytes \<Rightarrow> Elf64_Shdr" where
  "shdr_of b = \<lparr> sh_name = get32 0 b, sh_type = get32 4 b, sh_flags = get64 8 b, sh_addr = get64 16 b, sh_offset = get64 24 b, sh_size = get64 32 b,
     sh_link = get32 40 b, sh_info = get32 44 b, sh_addralign = get64 48 b, sh_entsize = get64 56 b \<rparr>"

text \<open>
  The bytes from an offset on; there is no check in the code, a read outside of the file is \<open>Out_Of_Range\<close>. The header is one object, so that a file without a complete one is
  out of range too.
\<close>

definition head_part :: "bytes \<Rightarrow> u64 \<Rightarrow> nat \<Rightarrow> bytes kres" where
  "head_part file off n = (if n = 0 \<or> unat off + n \<le> length file then Inr (bytes_at (unat off) n file) else Inl Out_Of_Range)"

text \<open>The place of entry \<open>i\<close> of a table; the product is an \<open>int\<close>.\<close>

definition entry_offset :: "u64 \<Rightarrow> u16 \<Rightarrow> nat \<Rightarrow> u64" where
  "entry_offset off entsize i = off + scast (of_nat (unat entsize * i) :: u32)"

definition phdr_at :: "bytes \<Rightarrow> Elf64_Ehdr \<Rightarrow> nat \<Rightarrow> Elf64_Phdr kres" where
  "phdr_at file e i = kmap phdr_of (head_part file (entry_offset (e_phoff e) (e_phentsize e) i) 56)"

definition shdr_at :: "bytes \<Rightarrow> Elf64_Ehdr \<Rightarrow> nat \<Rightarrow> Elf64_Shdr kres" where
  "shdr_at file e i = kmap shdr_of (head_part file (entry_offset (e_shoff e) (e_shentsize e) i) 64)"

section \<open>ElfObject\<close>

datatype ErrorState = kElfOk | kNotSupportedType

record ElfObject =
  eo_membuffer :: u64
  eo_entry :: u64

definition IsElf :: "Elf64_Ehdr \<Rightarrow> bool" where
  "IsElf e \<longleftrightarrow> e_ident e ! 0 = 0x7f \<and> e_ident e ! 1 = 69 \<and> e_ident e ! 2 = 76 \<and> e_ident e ! 3 = 70"

definition IsElf64 :: "Elf64_Ehdr \<Rightarrow> bool" where
  "IsElf64 e \<longleftrightarrow> e_ident e ! 4 = 2"

definition IsOsabiSysv :: "Elf64_Ehdr \<Rightarrow> bool" where
  "IsOsabiSysv e \<longleftrightarrow> e_ident e ! 7 = 0"

definition IsOsabiGnu :: "Elf64_Ehdr \<Rightarrow> bool" where
  "IsOsabiGnu e \<longleftrightarrow> e_ident e ! 7 = 3"

text \<open>The loop that computes \<open>total_memsize\<close>, over the sections \<open>is\<close>\<close>

fun total_memsize :: "bytes \<Rightarrow> Elf64_Ehdr \<Rightarrow> nat list \<Rightarrow> u64 \<Rightarrow> u64 kres" where
  "total_memsize file e [] sz = Inr sz"
| "total_memsize file e (i # is) sz = kbind (shdr_at file e i) (\<lambda>sh.
     total_memsize file e is (if sz < sh_addr sh + sh_offset sh then sh_addr sh + sh_offset sh else sz))"

text \<open>\<open>LoadMemory\<close> over the segments \<open>is\<close>; \<open>mapaddr\<close> is \<open>_loader.MapAddr\<close>.\<close>

fun load_segments :: "(u64 \<Rightarrow> u64 \<Rightarrow> Machine \<Rightarrow> Machine kres) \<Rightarrow> bytes \<Rightarrow> Elf64_Ehdr \<Rightarrow> u64 \<Rightarrow> bool \<Rightarrow> nat list \<Rightarrow> Machine \<Rightarrow> Machine kres" where
  "load_segments mapaddr file e buf page_mapping [] m = Inr m"
| "load_segments mapaddr file e buf page_mapping (i # is) m = kbind (phdr_at file e i) (\<lambda>ph.
     kbind (if page_mapping \<and> p_memsz ph \<noteq> 0 then let start = buf + p_vaddr ph in mapaddr start (start + p_memsz ph) m else Inr m) (\<lambda>m1.
     kbind (if p_type ph = 1 then kbind (head_part file (p_offset ph) (unat (p_filesz ph))) (\<lambda>b. vwrites (buf + p_vaddr ph) b m1) else Inr m1)
       (load_segments mapaddr file e buf page_mapping is)))"

definition Elf_LoadMemory :: "(u64 \<Rightarrow> u64 \<Rightarrow> Machine \<Rightarrow> Machine kres) \<Rightarrow> bytes \<Rightarrow> Elf64_Ehdr \<Rightarrow> u64 \<Rightarrow> bool \<Rightarrow> Machine \<Rightarrow> (ErrorState \<times> Machine) kres" where
  "Elf_LoadMemory mapaddr file e buf page_mapping m = kmap (\<lambda>m'. (kElfOk, m')) (load_segments mapaddr file e buf page_mapping [0..<unat (e_phnum e)] m)"

fun clear_bss :: "bytes \<Rightarrow> Elf64_Ehdr \<Rightarrow> u64 \<Rightarrow> nat list \<Rightarrow> Machine \<Rightarrow> Machine kres" where
  "clear_bss file e buf [] m = Inr m"
| "clear_bss file e buf (i # is) m = kbind (shdr_at file e i) (\<lambda>sh.
     kbind (if sh_type sh = 8 \<and> sh_flags sh AND 2 \<noteq> 0 then vwrites (buf + sh_addr sh) (replicate (unat (sh_size sh)) 0) m else Inr m)
       (clear_bss file e buf is))"

text \<open>\<open>malloc\<close> is that of the heap; \<open>load\<close> is the virtual function \<open>LoadMemory\<close>.\<close>

definition Elf_Init :: "(u64 \<Rightarrow> Machine \<Rightarrow> (u64 \<times> Machine) kres) \<Rightarrow> (Elf64_Ehdr \<Rightarrow> u64 \<Rightarrow> bool \<Rightarrow> Machine \<Rightarrow> (ErrorState \<times> Machine) kres) \<Rightarrow> bytes \<Rightarrow> Machine \<Rightarrow>
    (ErrorState \<times> ElfObject \<times> Machine) kres" where
  "Elf_Init malloc load file m = kbind (head_part file 0 64) (\<lambda>h. let e = ehdr_of h; obj = \<lparr> eo_membuffer = 0, eo_entry = 0 \<rparr> in
     if \<not> IsElf e \<or> \<not> IsElf64 e \<or> (\<not> IsOsabiSysv e \<and> \<not> IsOsabiGnu e) then Inr (kNotSupportedType, obj, m)
     else
     kbind (if e_shstrndx e \<noteq> 0 then kbind (head_part file (e_shoff e + 64 * ucast (e_shstrndx e)) 64) (\<lambda>_. total_memsize file e [0..<unat (e_shnum e)] 0) else Inr 0) (\<lambda>sz.
     kbind (if e_type e = 3 \<or> e_type e = 1 then kmap (\<lambda>(buf, m1). (buf, False, m1)) (malloc sz m)
            else if e_type e = 2 then Inr (0, True, m) else Inl Kassert) (\<lambda>(buf, page_mapping, m1).
     kbind (load e buf page_mapping m1) (\<lambda>(err, m2).
     if err \<noteq> kElfOk then Inr (err, obj \<lparr> eo_membuffer := buf \<rparr>, m2)
     else kmap (\<lambda>m3. (kElfOk, \<lparr> eo_membuffer = buf, eo_entry = buf + e_entry e \<rparr>, m3)) (clear_bss file e buf [0..<unat (e_shnum e)] m2)))))"

text \<open>\<open>execute\<close> is \<open>_loader.Execute\<close>.\<close>

definition Elf_Execute :: "(u64 \<Rightarrow> Machine \<Rightarrow> Machine kres) \<Rightarrow> ElfObject \<Rightarrow> Machine \<Rightarrow> Machine kres" where
  "Elf_Execute execute obj m = (if eo_entry obj \<noteq> 0 then execute (eo_entry obj) m else Inr m)"

definition Elf_delete :: "(u64 \<Rightarrow> Machine \<Rightarrow> Machine kres) \<Rightarrow> ElfObject \<Rightarrow> Machine \<Rightarrow> Machine kres" where
  "Elf_delete free obj m = free (eo_membuffer obj) m"

section \<open>RaphineRing0AppObject\<close>

fun ring0_segments :: "bytes \<Rightarrow> Elf64_Ehdr \<Rightarrow> u64 \<Rightarrow> bool \<Rightarrow> nat list \<Rightarrow> Machine \<Rightarrow> (ErrorState \<times> Machine) kres" where
  "ring0_segments file e buf page_mapping [] m = Inr (kElfOk, m)"
| "ring0_segments file e buf page_mapping (i # is) m = kbind (phdr_at file e i) (\<lambda>ph. let start = buf + p_vaddr ph in
     if page_mapping \<and> p_memsz ph \<noteq> 0 \<and> (start \<ge> 0x40000000 \<or> start + p_memsz ph \<ge> 0x40000000) then Inr (kNotSupportedType, m)
     else kbind (if p_type ph = 1 then kbind (head_part file (p_offset ph) (unat (p_filesz ph))) (\<lambda>b. vwrites (buf + p_vaddr ph) b m) else Inr m)
       (ring0_segments file e buf page_mapping is))"

definition Ring0_LoadMemory :: "(u64 \<Rightarrow> Machine \<Rightarrow> Machine kres) \<Rightarrow> bytes \<Rightarrow> Elf64_Ehdr \<Rightarrow> u64 \<Rightarrow> bool \<Rightarrow> Machine \<Rightarrow> (ErrorState \<times> Machine) kres" where
  "Ring0_LoadMemory map1g file e buf page_mapping m = kbind (map1g 0 m) (ring0_segments file e buf page_mapping [0..<unat (e_phnum e)])"

text \<open>The structure \<open>_info\<close> has a version and an address, sixteen bytes.\<close>

definition kInfoSize :: nat where
  "kInfoSize = 4096"

definition info_part :: "u64 \<Rightarrow> nat \<Rightarrow> bytes kres" where
  "info_part putc n = (if n \<le> 16 then Inr (take n (le_bytes 8 (2 ^ 32) @ le_bytes 8 (unat putc))) else Inl Out_Of_Range)"

definition info_name :: bytes where
  "info_name = ascii ''.raphine_ring0_app_info'' @ [0]"

fun write_info :: "u64 \<Rightarrow> bytes \<Rightarrow> Elf64_Ehdr \<Rightarrow> u64 \<Rightarrow> u64 \<Rightarrow> nat list \<Rightarrow> Machine \<Rightarrow> (ErrorState \<times> Machine) kres" where
  "write_info putc file e strtab buf [] m = Inr (kNotSupportedType, m)"
| "write_info putc file e strtab buf (i # is) m = kbind (shdr_at file e i) (\<lambda>sh.
     kbind (strcmp (drop (unat (strtab + ucast (sh_name sh))) file) info_name) (\<lambda>c.
     if c = 0 \<and> sh_size sh = of_nat kInfoSize then kbind (info_part putc (unat (sh_size sh))) (\<lambda>b. kmap (\<lambda>m'. (kElfOk, m')) (vwrites (buf + sh_addr sh) b m))
     else write_info putc file e strtab buf is m))"

definition Ring0_Init :: "u64 \<Rightarrow> (u64 \<Rightarrow> Machine \<Rightarrow> (u64 \<times> Machine) kres) \<Rightarrow> (u64 \<Rightarrow> Machine \<Rightarrow> Machine kres) \<Rightarrow> bytes \<Rightarrow> Machine \<Rightarrow>
    (ErrorState \<times> ElfObject \<times> Machine) kres" where
  "Ring0_Init putc malloc map1g file m = kbind (Elf_Init malloc (Ring0_LoadMemory map1g file) file m) (\<lambda>(err, obj, m1).
     if err \<noteq> kElfOk then Inr (err, obj, m1)
     else let e = ehdr_of (take 64 file) in
     kbind (kmap shdr_of (head_part file (e_shoff e + 64 * ucast (e_shstrndx e)) 64)) (\<lambda>sh.
     kmap (\<lambda>(err, m2). (err, obj, m2)) (write_info putc file e (sh_offset sh) (eo_membuffer obj) [0..<unat (e_shnum e)] m1)))"

text \<open>The callout of the command \<open>load\<close>, with \<open>Init\<close> of one of the two classes: what it prints, and the memory after the object is gone\<close>

definition load_callout :: "(Machine \<Rightarrow> (ErrorState \<times> ElfObject \<times> Machine) kres) \<Rightarrow> (u64 \<Rightarrow> Machine \<Rightarrow> Machine kres) \<Rightarrow> (u64 \<Rightarrow> Machine \<Rightarrow> Machine kres) \<Rightarrow> Machine \<Rightarrow>
    (string \<times> Machine) kres" where
  "load_callout init execute free m = kbind (init m) (\<lambda>(err, obj, m1).
     kbind (if err \<noteq> kElfOk then Inr (''error while loading app'' @ [CHR 0x0A], m1) else kmap (\<lambda>m2. ([], m2)) (Elf_Execute execute obj m1)) (\<lambda>(out, m2).
     kmap (\<lambda>m3. (out, m3)) (Elf_delete free obj m2)))"

section \<open>What a file says about memory\<close>

text \<open>\<open>store v bs M\<close> is the memory \<open>M\<close> with the bytes \<open>bs\<close> at \<open>v\<close>; the image of a program is what its segments leave there, with the sections without contents cleared.\<close>

definition store :: "u64 \<Rightarrow> bytes \<Rightarrow> (u64 \<rightharpoonup> u8) \<Rightarrow> (u64 \<rightharpoonup> u8)" where
  "store v bs M = (\<lambda>w. if unat (w - v) < length bs then Some (bs ! unat (w - v)) else M w)"

definition seg_header :: "bytes \<Rightarrow> Elf64_Ehdr \<Rightarrow> nat \<Rightarrow> Elf64_Phdr" where
  "seg_header file e i = phdr_of (bytes_at (unat (entry_offset (e_phoff e) (e_phentsize e) i)) 56 file)"

definition sec_header :: "bytes \<Rightarrow> Elf64_Ehdr \<Rightarrow> nat \<Rightarrow> Elf64_Shdr" where
  "sec_header file e i = shdr_of (bytes_at (unat (entry_offset (e_shoff e) (e_shentsize e) i)) 64 file)"

definition seg_bytes :: "bytes \<Rightarrow> Elf64_Ehdr \<Rightarrow> nat \<Rightarrow> (u64 \<times> bytes) list" where
  "seg_bytes file e i = (let ph = seg_header file e i in
     if p_type ph = 1 then [(p_vaddr ph, bytes_at (unat (p_offset ph)) (unat (p_filesz ph)) file)] else [])"

definition bss_bytes :: "bytes \<Rightarrow> Elf64_Ehdr \<Rightarrow> nat \<Rightarrow> (u64 \<times> bytes) list" where
  "bss_bytes file e i = (let sh = sec_header file e i in
     if sh_type sh = 8 \<and> sh_flags sh AND 2 \<noteq> 0 then [(sh_addr sh, replicate (unat (sh_size sh)) 0)] else [])"

definition elf_contents :: "bytes \<Rightarrow> Elf64_Ehdr \<Rightarrow> (u64 \<times> bytes) list" where
  "elf_contents file e = concat (map (seg_bytes file e) [0..<unat (e_phnum e)]) @ concat (map (bss_bytes file e) [0..<unat (e_shnum e)])"

abbreviation stores :: "(u64 \<times> bytes) list \<Rightarrow> (u64 \<rightharpoonup> u8) \<Rightarrow> (u64 \<rightharpoonup> u8)" where
  "stores \<equiv> fold (\<lambda>(v, bs). store v bs)"

definition elf_image :: "bytes \<Rightarrow> Elf64_Ehdr \<Rightarrow> (u64 \<rightharpoonup> u8)" where
  "elf_image file e = stores (elf_contents file e) Map.empty"

text \<open>The segments are in the lower half of the address space, and nothing was mapped where the program goes.\<close>

definition segments_low :: "bytes \<Rightarrow> Elf64_Ehdr \<Rightarrow> bool" where
  "segments_low file e \<longleftrightarrow> (\<forall>i < unat (e_phnum e). unat (p_vaddr (seg_header file e i)) + unat (p_memsz (seg_header file e i)) \<le> 2 ^ 47)"

definition free_range :: "Machine \<Rightarrow> u64 \<times> bytes \<Rightarrow> bool" where
  "free_range m c \<longleftrightarrow> (\<forall>k < length (snd c). unat (fst c) + k < 2 ^ 47 \<and> translate (ma_pg m) (fst c + of_nat k) = None)"

definition program_free :: "bytes \<Rightarrow> Elf64_Ehdr \<Rightarrow> Machine \<Rightarrow> bool" where
  "program_free file e m \<longleftrightarrow> (\<forall>c \<in> set (elf_contents file e). free_range m c)"

lemma store_Cons:
  assumes "length xs < 2 ^ 63"
  shows "store (v + 1) xs (store v [x] M) = store v (x # xs) M"
proof
  fix w
  show "store (v + 1) xs (store v [x] M) w = store v (x # xs) M w"
  proof (cases "w = v")
    case True
    then have "w - (v + 1) = - 1" by simp
    then have "unat (w - (v + 1)) = 2 ^ 64 - 1" by (simp add: unsigned_minus_1_eq_mask mask_eq_exp_minus_1)
    then show ?thesis using True assms by (simp add: store_def)
  next
    case False
    then have nz: "w - v \<noteq> 0" by simp
    have "w - (v + 1) = w - v - 1" by simp
    then have u: "unat (w - v) = Suc (unat (w - (v + 1)))" using unat_minus_one [OF nz] nz by (simp only:) (simp add: unat_gt_0 word_neq_0_conv)
    then show ?thesis by (simp add: store_def)
  qed
qed

lemma free_range_length: "free_range m (v, bs) \<Longrightarrow> length bs \<le> 2 ^ 47"
proof (rule ccontr)
  assume f: "free_range m (v, bs)" and "\<not> length bs \<le> 2 ^ 47"
  then have "2 ^ 47 < length bs" by simp
  with f have "unat v + 2 ^ 47 < 2 ^ 47" unfolding free_range_def fst_conv snd_conv by blast
  then show False by simp
qed

lemma phdr_at_header: "phdr_at file e i = Inr ph \<Longrightarrow> ph = seg_header file e i"
  by (auto simp: phdr_at_def seg_header_def head_part_def kmap_eq_Inr split: if_splits)

lemma shdr_at_header: "shdr_at file e i = Inr sh \<Longrightarrow> sh = sec_header file e i"
  by (auto simp: shdr_at_def sec_header_def head_part_def kmap_eq_Inr split: if_splits)

section \<open>Loading, for every loader that keeps the contract\<close>

context loader_interface
begin

text \<open>What holds while a program is loaded into the memory \<open>m0\<close>: \<open>M\<close> is there, and everything that was in use is as it was.\<close>

definition vacant :: "Machine \<Rightarrow> u64 \<Rightarrow> bool" where
  "vacant m0 w \<longleftrightarrow> unat w < 2 ^ 47 \<and> translate (ma_pg m0) w = None"

definition loading :: "Machine \<Rightarrow> (u64 \<rightharpoonup> u8) \<Rightarrow> Machine \<Rightarrow> bool" where
  "loading m0 M m \<longleftrightarrow> good m \<and> own m0 \<subseteq> own m \<and>
     (\<forall>w x. translate (ma_pg m0) w = Some x \<longrightarrow> translate (ma_pg m) w = Some x) \<and>
     (\<forall>x \<in> own m0. ma_ram m x = ma_ram m0 x) \<and>
     (\<forall>w x. vacant m0 w \<longrightarrow> translate (ma_pg m) w = Some x \<longrightarrow> x \<in> own m - own m0) \<and>
     (\<forall>w w' x. vacant m0 w \<longrightarrow> vacant m0 w' \<longrightarrow> translate (ma_pg m) w = Some x \<longrightarrow> translate (ma_pg m) w' = Some x \<longrightarrow> w = w') \<and>
     (\<forall>w b. M w = Some b \<longrightarrow> vacant m0 w \<and> vread m w = Some b)"

lemma loading_start: "good m0 \<Longrightarrow> loading m0 Map.empty m0"
  by (auto simp: loading_def vacant_def)

lemma loading_map:
  assumes l: "loading m0 M m" and r: "unat s < unat e" "unat e \<le> 2 ^ 47" "mapaddr s e m = Inr m'"
  shows "loading m0 M m'"
proof -
  have g: "good m" and o: "own m0 \<subseteq> own m" using l by (simp_all add: loading_def)
  note k = map_keeps [OF g r] and f = map_fresh [OF g r] and j = map_inj [OF g r]
  have old: "translate (ma_pg m') w = Some x \<Longrightarrow> translate (ma_pg m) w = Some x \<or> translate (ma_pg m) w = None \<and> x \<in> own m' - own m" for w x
    using k f [of w x] by (cases "translate (ma_pg m) w") auto
  have in_own: "vacant m0 w \<Longrightarrow> translate (ma_pg m) w = Some x \<Longrightarrow> x \<in> own m - own m0" for w x using l by (simp add: loading_def)
  have inj: "w = w'" if v: "vacant m0 w" "vacant m0 w'" and t: "translate (ma_pg m') w = Some x" "translate (ma_pg m') w' = Some x" for w w' x
  proof -
    consider "translate (ma_pg m) w = Some x" "translate (ma_pg m) w' = Some x" | "translate (ma_pg m) w = None" "translate (ma_pg m) w' = None"
      using old [OF t(1)] old [OF t(2)] in_own [OF v(1), of x] in_own [OF v(2), of x] by (elim disjE) auto
    then show ?thesis
    proof cases
      case 1
      then show ?thesis using l v unfolding loading_def by blast
    next
      case 2
      then show ?thesis using j t v by (simp add: vacant_def)
    qed
  qed
  have rd: "vread m w = Some b \<Longrightarrow> vread m' w = Some b" for w b using k by (auto simp: vread_def)
  have fresh: "vacant m0 w \<Longrightarrow> translate (ma_pg m') w = Some x \<Longrightarrow> x \<in> own m' - own m0" for w x using old [of w x] in_own [of w x] k o by blast
  show ?thesis
    unfolding loading_def
  proof (intro conjI allI impI ballI)
    show "own m0 \<subseteq> own m'" using k o by blast
    show "translate (ma_pg m') w = Some x" if "translate (ma_pg m0) w = Some x" for w x using l k that by (simp add: loading_def)
    show "ma_ram m' x = ma_ram m0 x" if "x \<in> own m0" for x using l k that by (simp add: loading_def)
    show "vacant m0 w" "vread m' w = Some b" if "M w = Some b" for w b using l that rd by (simp_all add: loading_def)
  qed (use k inj fresh in blast)+
qed

lemma loading_write:
  assumes l: "loading m0 M m" and v: "vacant m0 v" and r: "vwrite v x m = Inr m'"
  shows "loading m0 (store v [x] M) m'"
proof -
  obtain p where p: "translate (ma_pg m) v = Some p" and m': "m' = m \<lparr> ma_ram := (ma_ram m)(p := x) \<rparr>"
    using r by (auto simp: vwrite_def split: option.splits)
  have new: "p \<in> own m - own m0" using l v p by (simp add: loading_def)
  have "vread m' w = Some b" if M: "store v [x] M w = Some b" for w b
  proof (cases "w = v")
    case False
    then have "M w = Some b" using M by (auto simp: store_def unat_eq_0)
    then have w: "vacant m0 w" "vread m w = Some b" using l by (simp_all add: loading_def)
    then obtain q where q: "translate (ma_pg m) w = Some q" "ma_ram m q = b" by (auto simp: vread_def)
    then have "q \<noteq> p" using l v w(1) p False unfolding loading_def by blast
    then show ?thesis using q m' by (simp add: vread_def)
  qed (use M p m' in \<open>simp add: store_def vread_def\<close>)
  moreover have "vacant m0 w" if "store v [x] M w = Some b" for w b
    using that l v by (auto simp: store_def loading_def unat_eq_0 split: if_splits)
  ultimately show ?thesis using l new unfolding loading_def m' by (auto simp: ram_good ram_own)
qed

lemma loading_writes:
  assumes "loading m0 M m" and "free_range m0 (v, bs)" and "vwrites v bs m = Inr m'"
  shows "loading m0 (store v bs M) m'"
  using assms
proof (induction bs arbitrary: v M m)
  case Nil
  then show ?case by (simp add: store_def)
next
  case (Cons b bs)
  obtain m1 where m1: "vwrite v b m = Inr m1" "vwrites (v + 1) bs m1 = Inr m'" using Cons.prems(3) by (auto simp: kbind_eq_Inr)
  have "vacant m0 v" using Cons.prems(2) by (auto simp: free_range_def vacant_def dest: spec [of _ 0])
  from loading_write [OF Cons.prems(1) this m1(1)] have l: "loading m0 (store v [b] M) m1" .
  have "free_range m0 (v + 1, bs)"
  proof (unfold free_range_def fst_conv snd_conv, intro allI impI)
    fix k
    assume "k < length bs"
    then have "unat v + Suc k < 2 ^ 47 \<and> translate (ma_pg m0) (v + of_nat (Suc k)) = None" using Cons.prems(2) unfolding free_range_def by fastforce
    then have a: "unat v + Suc k < 2 ^ 47" "translate (ma_pg m0) (v + of_nat (Suc k)) = None" by blast+
    have "unat (v + 1) = unat v + 1" using a(1) by (subst unat_plus_no_wrap) simp_all
    moreover have "translate (ma_pg m0) (v + 1 + of_nat k) = None" using a(2) by (simp add: add.assoc)
    ultimately show "unat (v + 1) + k < 2 ^ 47 \<and> translate (ma_pg m0) (v + 1 + of_nat k) = None" using a(1) by simp
  qed
  from Cons.IH [OF l this m1(2)] have "loading m0 (store (v + 1) bs (store v [b] M)) m'" .
  then show ?case using store_Cons [of bs v b M] free_range_length [OF Cons.prems(2)] by simp
qed

lemma loading_segments:
  assumes "loading m0 M m" and "\<And>i. i \<in> set is \<Longrightarrow> unat (p_vaddr (seg_header file e i)) + unat (p_memsz (seg_header file e i)) \<le> 2 ^ 47"
    and "\<And>i c. i \<in> set is \<Longrightarrow> c \<in> set (seg_bytes file e i) \<Longrightarrow> free_range m0 c" and "load_segments mapaddr file e 0 True is m = Inr m'"
  shows "loading m0 (stores (concat (map (seg_bytes file e) is)) M) m'"
  using assms
proof (induction "is" arbitrary: M m)
  case (Cons i "is")
  let ?ph = "seg_header file e i"
  obtain m1 m2 where a: "phdr_at file e i = Inr ?ph"
    "(if p_memsz ?ph \<noteq> 0 then mapaddr (p_vaddr ?ph) (p_vaddr ?ph + p_memsz ?ph) m else Inr m) = Inr m1"
    "(if p_type ?ph = 1 then kbind (head_part file (p_offset ?ph) (unat (p_filesz ?ph))) (\<lambda>b. vwrites (p_vaddr ?ph) b m1) else Inr m1) = Inr m2"
    "load_segments mapaddr file e 0 True is m2 = Inr m'"
    using Cons.prems(4) unfolding load_segments.simps Let_def add_0_left kbind_eq_Inr by (auto dest: phdr_at_header)
  have low: "unat (p_vaddr ?ph) + unat (p_memsz ?ph) \<le> 2 ^ 47" using Cons.prems(2) by simp
  have l1: "loading m0 M m1"
  proof (cases "p_memsz ?ph = 0")
    case False
    have "unat (p_vaddr ?ph + p_memsz ?ph) = unat (p_vaddr ?ph) + unat (p_memsz ?ph)" using low by (subst unat_plus_no_wrap) simp_all
    then show ?thesis using loading_map [OF Cons.prems(1), of "p_vaddr ?ph" "p_vaddr ?ph + p_memsz ?ph" m1] a(2) low False by (simp add: unat_gt_0)
  qed (use a(2) Cons.prems(1) in simp)
  have "loading m0 (stores (seg_bytes file e i) M) m2"
  proof (cases "p_type ?ph = 1")
    case True
    let ?b = "bytes_at (unat (p_offset ?ph)) (unat (p_filesz ?ph)) file"
    have s: "seg_bytes file e i = [(p_vaddr ?ph, ?b)]" using True by (simp add: seg_bytes_def Let_def)
    have "vwrites (p_vaddr ?ph) ?b m1 = Inr m2" using a(3) True by (auto simp: kbind_eq_Inr head_part_def split: if_splits)
    then show ?thesis using loading_writes [OF l1] Cons.prems(3) [of i "(p_vaddr ?ph, ?b)"] s by simp
  qed (use a(3) l1 in \<open>simp add: seg_bytes_def\<close>)
  then have "loading m0 (stores (concat (map (seg_bytes file e) is)) (stores (seg_bytes file e i) M)) m'"
    by (rule Cons.IH [OF _ _ _ a(4)]) (meson Cons.prems(2,3) list.set_intros(2))+
  then show ?case by simp
qed simp

lemma loading_bss:
  assumes "loading m0 M m" and "\<And>i c. i \<in> set is \<Longrightarrow> c \<in> set (bss_bytes file e i) \<Longrightarrow> free_range m0 c" and "clear_bss file e 0 is m = Inr m'"
  shows "loading m0 (stores (concat (map (bss_bytes file e) is)) M) m'"
  using assms
proof (induction "is" arbitrary: M m)
  case (Cons i "is")
  let ?sh = "sec_header file e i"
  obtain m1 where a: "(if sh_type ?sh = 8 \<and> sh_flags ?sh AND 2 \<noteq> 0 then vwrites (sh_addr ?sh) (replicate (unat (sh_size ?sh)) 0) m else Inr m) = Inr m1"
    "clear_bss file e 0 is m1 = Inr m'"
    using Cons.prems(3) unfolding clear_bss.simps add_0_left kbind_eq_Inr by (auto dest: shdr_at_header)
  have "loading m0 (stores (bss_bytes file e i) M) m1"
  proof (cases "sh_type ?sh = 8 \<and> sh_flags ?sh AND 2 \<noteq> 0")
    case True
    then have s: "bss_bytes file e i = [(sh_addr ?sh, replicate (unat (sh_size ?sh)) 0)]" by (simp add: bss_bytes_def Let_def)
    then show ?thesis using loading_writes [OF Cons.prems(1)] a(1) True Cons.prems(2) [of i "(sh_addr ?sh, replicate (unat (sh_size ?sh)) 0)"] by simp
  next
    case False
    then have "bss_bytes file e i = []" by (auto simp: bss_bytes_def Let_def)
    then show ?thesis using a(1) False Cons.prems(1) by (simp split: if_splits)
  qed
  then have "loading m0 (stores (concat (map (bss_bytes file e) is)) (stores (bss_bytes file e i) M)) m'"
    by (rule Cons.IH [OF _ _ a(2)]) (meson Cons.prems(2) list.set_intros(2))
  then show ?case by simp
qed simp

text \<open>An executable file that is loaded is in memory, and nothing else has changed.\<close>

lemma Init_loads:
  assumes g: "good m" and e: "e = ehdr_of (take 64 file)" "e_type e = 2" and free: "segments_low file e" "program_free file e m"
    and run: "Elf_Init malloc (Elf_LoadMemory mapaddr file) file m = Inr (kElfOk, obj, m')"
  shows "loading m (elf_image file e) m'" "obj = \<lparr> eo_membuffer = 0, eo_entry = e_entry e \<rparr>"
proof -
  obtain m1 where a: "load_segments mapaddr file e 0 True [0..<unat (e_phnum e)] m = Inr m1" "clear_bss file e 0 [0..<unat (e_shnum e)] m1 = Inr m'"
    and o: "obj = \<lparr> eo_membuffer = 0, eo_entry = e_entry e \<rparr>"
    using run e by (auto simp: Elf_Init_def Elf_LoadMemory_def Let_def kbind_eq_Inr kmap_eq_Inr head_part_def bytes_at_def split: if_splits)
  show "obj = \<lparr> eo_membuffer = 0, eo_entry = e_entry e \<rparr>" by (rule o)
  have fr: "free_range m c" if "c \<in> set (elf_contents file e)" for c using free(2) that by (simp add: program_free_def)
  have seg: "free_range m c" if "i \<in> set [0..<unat (e_phnum e)]" "c \<in> set (seg_bytes file e i)" for i c using fr [of c] that unfolding elf_contents_def set_append set_concat set_map by blast
  have bss: "free_range m c" if "i \<in> set [0..<unat (e_shnum e)]" "c \<in> set (bss_bytes file e i)" for i c using fr [of c] that unfolding elf_contents_def set_append set_concat set_map by blast
  have "loading m (stores (concat (map (seg_bytes file e) [0..<unat (e_phnum e)])) Map.empty) m1"
    by (rule loading_segments [OF loading_start [OF g] _ seg a(1)]) (use free(1) in \<open>simp_all add: segments_low_def\<close>)
  from loading_bss [OF this bss a(2)] show "loading m (elf_image file e) m'" by (simp add: elf_image_def elf_contents_def)
qed

end

section \<open>The kernel's loader\<close>

text \<open>C9: An executable ELF file is loaded faithfully. Let the page tables and the physical memory be well formed, let the segments of the file be in the lower half of the address space and let nothing be mapped
where the program goes. If \<open>ElfObject::Init\<close> returns \<open>kOk\<close>, then every address of the program reads the byte that the file has for it (with the sections without contents cleared), every translation
that existed is unchanged, no byte of physical memory that was allocated before has changed, and the entry point is that of the file.\<close>
theorem Elf_Init_loads_program:
  assumes "machine_ok mem_end m" and "e = ehdr_of (take 64 file)" and "e_type e = 2" and "segments_low file e" and "program_free file e m"
    and "Elf_Init malloc (Elf_LoadMemory (Loader_MapAddr mem_end) file) file m = Inr (kElfOk, obj, m')"
  shows "(\<forall>w b. elf_image file e w = Some b \<longrightarrow> vread m' w = Some b) \<and>
    (\<forall>w x. translate (ma_pg m) w = Some x \<longrightarrow> translate (ma_pg m') w = Some x) \<and>
    (\<forall>x \<in> machine_own m. ma_ram m' x = ma_ram m x) \<and> eo_entry obj = e_entry e"
  using hw.Init_loads [OF assms] by (simp add: hw.loading_def)

text \<open>A program with a vector and the text it points to, followed by two bytes of a section without contents\<close>

definition demo_data :: bytes where
  "demo_data = le_bytes 8 0x400010 @ le_bytes 8 2 @ [104, 105]"

definition demo_elf :: bytes where
  "demo_elf = [0x7f, 69, 76, 70, 2, 1, 1, 0, 0, 0, 0, 0, 0, 0, 0, 0] @ le_bytes 2 2 @ le_bytes 2 62 @ le_bytes 4 1 @ le_bytes 8 0x400000 @ le_bytes 8 64 @ le_bytes 8 120 @ le_bytes 4 0 @
     le_bytes 2 64 @ le_bytes 2 56 @ le_bytes 2 1 @ le_bytes 2 64 @ le_bytes 2 1 @ le_bytes 2 0 @
     le_bytes 4 1 @ le_bytes 4 5 @ le_bytes 8 184 @ le_bytes 8 0x400000 @ le_bytes 8 0x400000 @ le_bytes 8 18 @ le_bytes 8 20 @ le_bytes 8 4096 @
     le_bytes 4 0 @ le_bytes 4 8 @ le_bytes 8 3 @ le_bytes 8 0x400012 @ le_bytes 8 202 @ le_bytes 8 2 @ le_bytes 4 0 @ le_bytes 4 0 @ le_bytes 8 1 @ le_bytes 8 0 @ demo_data"

definition demo_machine :: Machine where
  "demo_machine = \<lparr> ma_pg = boot_paging, ma_ram = (\<lambda>_. 0xCC) \<rparr>"

lemma length_demo_data [simp]: "length demo_data = 18"
  by (simp add: demo_data_def)

lemmas demo_simps = head_part_def bytes_at_def demo_elf_def get16_def get32_def get64_def

lemma demo_header: "ehdr_of (take 64 demo_elf) = \<lparr> e_ident = [0x7f, 69, 76, 70, 2, 1, 1, 0, 0, 0, 0, 0, 0, 0, 0, 0], e_type = 2, e_machine = 62, e_version = 1, e_entry = 0x400000, e_phoff = 64,
    e_shoff = 120, e_flags = 0, e_ehsize = 64, e_phentsize = 56, e_phnum = 1, e_shentsize = 64, e_shnum = 1, e_shstrndx = 0 \<rparr>"
  by (simp add: demo_simps ehdr_of_def)

lemma demo_phdr: "phdr_at demo_elf (ehdr_of (take 64 demo_elf)) 0 = Inr \<lparr> p_type = 1, p_flags = 5, p_offset = 184, p_vaddr = 0x400000, p_paddr = 0x400000, p_filesz = 18, p_memsz = 20, p_align = 4096 \<rparr>"
  unfolding demo_header by (simp add: demo_simps phdr_at_def phdr_of_def entry_offset_def)

lemma demo_shdr: "shdr_at demo_elf (ehdr_of (take 64 demo_elf)) 0 = Inr \<lparr> sh_name = 0, sh_type = 8, sh_flags = 3, sh_addr = 0x400012, sh_offset = 202, sh_size = 2, sh_link = 0, sh_info = 0, sh_addralign = 1, sh_entsize = 0 \<rparr>"
  unfolding demo_header by (simp add: demo_simps shdr_at_def shdr_of_def entry_offset_def)

lemma demo_code: "head_part demo_elf 184 18 = Inr demo_data" "bytes_at 184 18 demo_elf = demo_data" "head_part demo_elf 0 64 = Inr (take 64 demo_elf)"
  by (simp_all add: demo_simps)

text \<open>\<open>MapAddr\<close> maps the page of the program.\<close>

lemma demo_indices: "GetPML4TIndex 0x400000 = 0" "GetPDPTIndex 0x400000 = 0" "GetPDIndex 0x400000 = 2" "GetPTIndex 0x400000 = 0"
  by (simp_all add: page_indices)

lemma demo_page:
  assumes "k < 4096"
  shows "GetPML4TIndex (0x400000 + of_nat k) = 0" "GetPDPTIndex (0x400000 + of_nat k) = 0" "GetPDIndex (0x400000 + of_nat k) = 2" "GetPTIndex (0x400000 + of_nat k) = 0"
proof -
  have "unat (0x400000 + of_nat k :: u64) = 0x400000 + k" using assms by (subst unat_plus_no_wrap) (simp_all add: unat_of_nat)
  then have "unat (0x400000 + of_nat k :: u64) div 4096 = 1024" using assms by (simp add: div_nat_eqI)
  then show "GetPML4TIndex (0x400000 + of_nat k) = 0" "GetPDPTIndex (0x400000 + of_nat k) = 0" "GetPDIndex (0x400000 + of_nat k) = 2" "GetPTIndex (0x400000 + of_nat k) = 0"
    by (simp_all add: page_indices)
qed

lemma demo_map: "\<exists>m1. Loader_MapAddr 0x10000000 0x400000 0x400014 demo_machine = Inr m1 \<and> (\<forall>k < 4096. translate (ma_pg m1) (0x400000 + of_nat k) \<noteq> None)"
proof -
  have one: "map_pages (page_alloc 0x10000000) 1 pg v a f g = map_pages (page_alloc 0x10000000) (Suc 0) pg v a f g"
    for pg v a f g
    by (simp only: One_nat_def)
  show ?thesis
    by (simp add: Loader_MapAddr_def demo_machine_def RoundAddrOnPageBoundary_def RoundUpAddrOnPageBoundary_def ConvertNumToPageSize_def alignUp_def align_def Alloc_def AllocSub_def alloc_find.simps
        alloc_at_def merge_fraged_def PhysAddr_SetAddr_def PhysAddr_new_def MapPhysAddrToVirtAddr_def one demo_indices demo_page
        Map4KPageToVirtAddr_def boot_paging_def boot_paging_alloc ensure_table_def bzero_page_def write_entry_def Let_def
        PRESENT_BIT_def PAGE_BIT_def WRITE_BIT_def addr_mask_def kPageSize_def PhysAddr_GetAddr_def GetPML4EMaskedAddr_def GetPDPTEMaskedAddr_def
        GetPDEMaskedAddr_def USER_BIT_def GLOBAL_BIT_def translate_def del: masked_table)
qed

lemma demo_run: "\<exists>obj m'. Elf_Init (\<lambda>_ _. Inl Kassert) (Elf_LoadMemory (Loader_MapAddr 0x10000000) demo_elf) demo_elf demo_machine = Inr (kElfOk, obj, m')"
proof -
  obtain m1 where m: "Loader_MapAddr 0x10000000 0x400000 0x400014 demo_machine = Inr m1" and t: "\<And>k. k < 4096 \<Longrightarrow> translate (ma_pg m1) (0x400000 + of_nat k) \<noteq> None"
    using demo_map by blast
  let ?e = "ehdr_of (take 64 demo_elf)"
  have "\<exists>m2. vwrites 0x400000 demo_data m1 = Inr m2 \<and> ma_pg m2 = ma_pg m1" by (rule vwrites_mapped) (use t in simp)
  then obtain m2 where w: "vwrites 0x400000 demo_data m1 = Inr m2" "ma_pg m2 = ma_pg m1" by blast
  have m2: "load_segments (Loader_MapAddr 0x10000000) demo_elf ?e 0 True [0] demo_machine = Inr m2" by (simp add: demo_phdr demo_code m w)
  have "\<exists>m3. vwrites 0x400012 (replicate 2 0) m2 = Inr m3 \<and> ma_pg m3 = ma_pg m2"
  proof (rule vwrites_mapped)
    show "translate (ma_pg m2) (0x400012 + of_nat k) \<noteq> None" if "k < length (replicate 2 (0 :: u8))" for k
      using t [of "18 + k"] that w(2) by (simp flip: add.assoc)
  qed
  then have "\<exists>m3. clear_bss demo_elf ?e 0 [0] m2 = Inr m3" by (auto simp: demo_shdr)
  moreover have "IsElf ?e" "IsElf64 ?e" "IsOsabiSysv ?e" "e_shstrndx ?e = 0" "e_type ?e = 2" "[0..<unat (e_phnum ?e)] = [0]" "[0..<unat (e_shnum ?e)] = [0]"
    by (simp_all add: demo_header IsElf_def IsElf64_def IsOsabiSysv_def)
  ultimately show ?thesis by (auto simp: Elf_Init_def Elf_LoadMemory_def demo_code Let_def m2(1) simp del: load_segments.simps clear_bss.simps)
qed

lemma demo_contents: "elf_contents demo_elf (ehdr_of (take 64 demo_elf)) = [(0x400000, demo_data), (0x400012, [0, 0])]"
proof -
  note h = phdr_at_header [OF demo_phdr, symmetric] shdr_at_header [OF demo_shdr, symmetric]
  have n: "unat (e_phnum (ehdr_of (take 64 demo_elf))) = 1" "unat (e_shnum (ehdr_of (take 64 demo_elf))) = 1" by (simp_all add: demo_header)
  have "replicate 2 (0 :: u8) = [0, 0]" by (simp add: numeral_2_eq_2)
  then show ?thesis by (simp add: elf_contents_def n seg_bytes_def bss_bytes_def h demo_code)
qed

lemma demo_free: "segments_low demo_elf (ehdr_of (take 64 demo_elf))" "program_free demo_elf (ehdr_of (take 64 demo_elf)) demo_machine"
proof -
  have "unat (e_phnum (ehdr_of (take 64 demo_elf))) = 1" by (simp add: demo_header)
  then show "segments_low demo_elf (ehdr_of (take 64 demo_elf))" by (simp add: segments_low_def phdr_at_header [OF demo_phdr, symmetric])
  have "translate (ma_pg demo_machine) w = None" for w by (simp add: demo_machine_def boot_paging_def translate_def)
  then show "program_free demo_elf (ehdr_of (take 64 demo_elf)) demo_machine" by (simp add: program_free_def free_range_def demo_contents)
qed

lemma demo_image:
  assumes "k < 18"
  shows "elf_image demo_elf (ehdr_of (take 64 demo_elf)) (0x400000 + of_nat k) = Some (demo_data ! k)"
proof -
  have u: "unat (of_nat k :: u64) = k" using assms by (simp add: unat_of_nat)
  have "0x400000 + of_nat k - 0x400012 = (of_nat k - 18 :: u64)" by simp
  moreover have "2 \<le> unat (of_nat k - 18 :: u64)" using assms u by (simp add: unat_sub_if')
  ultimately show ?thesis using assms u by (simp add: elf_image_def store_def demo_contents)
qed

theorem Elf_Init_loads_program_witness:
  "\<exists>obj m'. Elf_Init (\<lambda>_ _. Inl Kassert) (Elf_LoadMemory (Loader_MapAddr 0x10000000) demo_elf) demo_elf demo_machine = Inr (kElfOk, obj, m') \<and>
    vread m' 0x400010 = Some 104 \<and> vread m' 0x400013 = Some 0 \<and> eo_entry obj = 0x400000"
proof -
  obtain obj m' where run: "Elf_Init (\<lambda>_ _. Inl Kassert) (Elf_LoadMemory (Loader_MapAddr 0x10000000) demo_elf) demo_elf demo_machine = Inr (kElfOk, obj, m')"
    using demo_run by blast
  have ok: "machine_ok 0x10000000 demo_machine" using boot_paging_inv by (auto simp: machine_ok_def demo_machine_def)
  have h: "e_type (ehdr_of (take 64 demo_elf)) = 2" "e_entry (ehdr_of (take 64 demo_elf)) = 0x400000" by (simp_all add: demo_header)
  note p = Elf_Init_loads_program [OF ok refl h(1) demo_free run]
  have "elf_image demo_elf (ehdr_of (take 64 demo_elf)) 0x400010 = Some 104" using demo_image [of 16] by (simp add: demo_data_def nth_append)
  moreover have "elf_image demo_elf (ehdr_of (take 64 demo_elf)) 0x400013 = Some 0" by (simp add: elf_image_def store_def demo_contents)
  ultimately have "vread m' 0x400010 = Some 104" "vread m' 0x400013 = Some 0" "eo_entry obj = 0x400000" using p h(2) by simp_all
  then show ?thesis using run by blast
qed

section \<open>Applications of ring 0\<close>

lemma write_info_not_ok: "write_info putc file e strtab buf is m \<noteq> Inr (kElfOk, m')"
proof (induction "is")
  case (Cons i "is")
  have "info_part putc (unat (of_nat kInfoSize :: u64)) = Inl Out_Of_Range" by (simp add: info_part_def kInfoSize_def)
  with Cons.IH show ?case by (auto simp: kbind_eq_Inr split: if_splits)
qed simp

text \<open>\<open>RaphineRing0AppObject::Init\<close> never returns \<open>kOk\<close> within the bounds of its data: the section of the application it fills has to have 4096 bytes, and all of them are copied from \<open>_info\<close>, which has
sixteen.\<close>
theorem Ring0_Init_never_ok: "Ring0_Init putc malloc map1g file m \<noteq> Inr (kElfOk, obj, m')"
  using write_info_not_ok by (auto simp: Ring0_Init_def Let_def kbind_eq_Inr kmap_eq_Inr split: if_splits)

end
