(* ===== verification/Sys_Call.thy ===== *)
theory Sys_Call
  imports Elf_Load Tty_Print
begin

unbundle bit_operations_syntax

text \<open>
  The system calls of \<open>syscall.cc\<close>, \<open>syscall.h\<close> and \<open>syscall_handler.S\<close> on the memory behind the page tables. A program that \<open>ElfObject::Init\<close> has loaded prints its own
  data with \<open>writev\<close>, byte for byte.
\<close>

section \<open>State\<close>

text \<open>Signed arguments are kept as words; their sign matters only where they are compared.\<close>

record SysArgs =
  sa_raddr :: u64
  sa_rflags :: u64
  arg1 :: u64
  arg2 :: u64
  arg3 :: u64
  arg4 :: u64
  arg5 :: u64
  arg6 :: u64

text \<open>
  Memory, the machine specific registers, the terminal and its size, and the stack of the handler
\<close>

record SysState =
  sy_mem :: Machine
  sy_msr :: "u32 \<Rightarrow> u64"
  sy_row :: u32
  sy_col :: u32
  sy_tty :: Tty
  syscall_handler_stack :: u64

definition kIA32EFER :: u32 where "kIA32EFER = 0xC0000080"
definition kIA32STAR :: u32 where "kIA32STAR = 0xC0000081"
definition kIA32LSTAR :: u32 where "kIA32LSTAR = 0xC0000082"
definition kIA32FsBase :: u32 where "kIA32FsBase = 0xC0000100"
definition kIA32GsBase :: u32 where "kIA32GsBase = 0xC0000101"
definition kIA32KernelGsBase :: u32 where "kIA32KernelGsBase = 0xC0000102"

lemmas msr_defs = kIA32EFER_def kIA32STAR_def kIA32LSTAR_def kIA32FsBase_def kIA32GsBase_def kIA32KernelGsBase_def

definition wrmsr :: "u32 \<Rightarrow> u64 \<Rightarrow> SysState \<Rightarrow> SysState" where
  "wrmsr r x s = s \<lparr> sy_msr := (sy_msr s)(r := x) \<rparr>"

text \<open>\<open>handler\<close> is the address of \<open>syscall_handler\<close>, \<open>stack\<close> what \<open>AllocThreadStack\<close> returns.\<close>

definition SystemCallCtrl_Init :: "u64 \<Rightarrow> u64 \<Rightarrow> SysState \<Rightarrow> SysState" where
  "SystemCallCtrl_Init handler stack s =
     (wrmsr kIA32KernelGsBase 0x18 (wrmsr kIA32LSTAR handler (wrmsr kIA32STAR (push_bit 32 0x10 OR push_bit 48 (0x23 - 8))
       (wrmsr kIA32EFER (sy_msr s kIA32EFER OR 1) s)))) \<lparr> syscall_handler_stack := stack \<rparr>"

section \<open>Accesses to the memory of the program\<close>

fun vreads :: "u64 \<Rightarrow> nat \<Rightarrow> Machine \<Rightarrow> bytes kres" where
  "vreads v 0 m = Inr []"
| "vreads v (Suc n) m = (case vread m v of None \<Rightarrow> Inl Out_Of_Range | Some b \<Rightarrow> kmap (Cons b) (vreads (v + 1) n m))"

definition vread64 :: "u64 \<Rightarrow> Machine \<Rightarrow> u64 kres" where
  "vread64 v m = kmap (get64 0) (vreads v 8 m)"

definition sys_write :: "u64 \<Rightarrow> bytes \<Rightarrow> SysState \<Rightarrow> SysState kres" where
  "sys_write v b s = kmap (\<lambda>m. s \<lparr> sy_mem := m \<rparr>) (vwrites v b (sy_mem s))"

definition sys_print :: "bytes \<Rightarrow> va_arg list \<Rightarrow> SysState \<Rightarrow> SysState kres" where
  "sys_print fmt args s = kmap (\<lambda>tty. s \<lparr> sy_tty := tty \<rparr>) (Vprintf fmt args (sy_tty s))"

definition sys_flush :: "SysState \<Rightarrow> SysState kres" where
  "sys_flush s = kmap (\<lambda>tty. s \<lparr> sy_tty := tty \<rparr>) (Tty_Flush (sy_tty s))"

section \<open>The calls\<close>

text \<open>A call returns a value, or the processor is halted for ever.\<close>

datatype sys_end = Sys_Return u64 | Sys_Halt

definition sys_ioctl :: "SysArgs \<Rightarrow> SysState \<Rightarrow> (sys_end \<times> SysState) kres" where
  "sys_ioctl a s = (if arg1 a = 1 then
       if arg2 a = 0x5401 then Inr (Sys_Return 0, s)
       else if arg2 a = 0x5413 then
         kbind (sys_write (arg3 a) (le_bytes 2 (unat (ucast (sy_row s) :: u16))) s) (\<lambda>s.
         kbind (sys_write (arg3 a + 2) (le_bytes 2 (unat (ucast (sy_col s) :: u16))) s) (\<lambda>s.
         kbind (sys_write (arg3 a + 4) (le_bytes 2 0) s) (\<lambda>s.
         kmap (\<lambda>s. (Sys_Return 0, s)) (sys_write (arg3 a + 6) (le_bytes 2 0) s))))
       else Inl Kernel_Panic
     else Inl Kernel_Panic)"

text \<open>
  The loops of \<open>writev\<close> over the characters \<open>js\<close> of the vector at \<open>iv\<close> and over the vectors \<open>is\<close>. The counters \<open>j\<close> and \<open>i\<close> are of type \<open>int\<close>; counting one of them past its range is
  undefined, which is a fault here. \<open>rval\<close> is an \<open>int\<close> too and wraps around.
\<close>

fun writev_chars :: "u64 \<Rightarrow> nat list \<Rightarrow> u32 \<Rightarrow> SysState \<Rightarrow> (u32 \<times> SysState) kres" where
  "writev_chars iv [] rval s = Inr (rval, s)"
| "writev_chars iv (j # js) rval s = (if 2 ^ 31 \<le> j then Inl Out_Of_Range
     else kbind (vread64 iv (sy_mem s)) (\<lambda>base.
     kbind (vreads (base + of_nat j) 1 (sy_mem s)) (\<lambda>c.
     kbind (sys_print (ascii ''%c'' @ [0]) [Arg_Int (scast (hd c))] s) (writev_chars iv js (rval + 1)))))"

fun writev_vectors :: "u64 \<Rightarrow> nat list \<Rightarrow> u32 \<Rightarrow> SysState \<Rightarrow> (u32 \<times> SysState) kres" where
  "writev_vectors a [] rval s = Inr (rval, s)"
| "writev_vectors a (i # is) rval s = (if 2 ^ 31 \<le> i then Inl Out_Of_Range
     else kbind (vread64 (a + of_nat (16 * i) + 8) (sy_mem s)) (\<lambda>len.
     kbind (writev_chars (a + of_nat (16 * i)) [0..<unat len] rval s) (\<lambda>(rval, s). writev_vectors a is rval s)))"

definition sys_writev :: "SysArgs \<Rightarrow> SysState \<Rightarrow> (sys_end \<times> SysState) kres" where
  "sys_writev a s = (if arg1 a = 1
     then kbind (writev_vectors (arg2 a) [0..<nat (sint (arg3 a))] 0 s) (\<lambda>(rval, s). kmap (\<lambda>s. (Sys_Return (scast rval), s)) (sys_flush s))
     else Inl Kernel_Panic)"

text \<open>\<open>tmp\<close> has the bytes that the variable \<open>tmp\<close> finds on the stack; each \<open>strcpy\<close> writes one zero.\<close>

definition new_utsname_of :: "bytes \<Rightarrow> bytes" where
  "new_utsname_of tmp = fold (\<lambda>f. patch (65 * f) [0]) [0..<6] tmp"

definition sys_uname :: "bytes \<Rightarrow> SysArgs \<Rightarrow> SysState \<Rightarrow> (sys_end \<times> SysState) kres" where
  "sys_uname tmp a s = kmap (\<lambda>s. (Sys_Return 0, s)) (sys_write (arg1 a) (new_utsname_of tmp) s)"

definition sys_arch_prctl :: "SysArgs \<Rightarrow> SysState \<Rightarrow> (sys_end \<times> SysState) kres" where
  "sys_arch_prctl a s = kbind (sys_print (ascii ''sys_arch_prctl code=%llx addr=%llx'' @ [10, 0]) [Arg_Int64 (arg1 a), Arg_Int64 (arg2 a)] s) (\<lambda>s.
     kmap (\<lambda>s. (Sys_Return 0, s))
      (if arg1 a = 0x1001 then Inr (wrmsr kIA32GsBase (arg2 a) s)
       else if arg1 a = 0x1002 then Inr (wrmsr kIA32FsBase (arg2 a) s)
       else if arg1 a = 0x1003 then sys_write (arg2 a) (le_bytes 8 (unat (sy_msr s kIA32FsBase))) s
       else if arg1 a = 0x1004 then sys_write (arg2 a) (le_bytes 8 (unat (sy_msr s kIA32GsBase))) s
       else Inl Kassert))"

definition SystemCallCtrl_Handler :: "bytes \<Rightarrow> SysArgs \<Rightarrow> u32 \<Rightarrow> SysState \<Rightarrow> (sys_end \<times> SysState) kres" where
  "SystemCallCtrl_Handler tmp a index s = (
     if index = 16 then sys_ioctl a s
     else if index = 20 then sys_writev a s
     else if index = 63 then sys_uname tmp a s
     else if index = 158 then sys_arch_prctl a s
     else if index = 231 then kbind (sys_print (ascii ''user program called exit'' @ [10, 0]) [] s) (\<lambda>s. kmap (\<lambda>s. (Sys_Halt, s)) (sys_flush s))
     else Inl Kernel_Panic)"

section \<open>The entry in assembly\<close>

text \<open>
  The registers of the program. The entry changes to the GS base of the kernel, puts the registers into a frame that starts with the arguments, and restores them all after the call,
  except for the result.
\<close>

record Regs =
  r_rax :: u64
  r_rbx :: u64
  r_rcx :: u64
  r_rdx :: u64
  r_rsi :: u64
  r_rdi :: u64
  r_rbp :: u64
  r_rsp :: u64
  r_r8 :: u64
  r_r9 :: u64
  r_r10 :: u64
  r_r11 :: u64
  r_r12 :: u64
  r_r13 :: u64
  r_r14 :: u64
  r_r15 :: u64

definition swapgs :: "SysState \<Rightarrow> SysState" where
  "swapgs s = wrmsr kIA32GsBase (sy_msr s kIA32KernelGsBase) (wrmsr kIA32KernelGsBase (sy_msr s kIA32GsBase) s)"

definition args_of :: "Regs \<Rightarrow> SysArgs" where
  "args_of r = \<lparr> sa_raddr = r_rcx r, sa_rflags = r_r11 r, arg1 = r_rdi r, arg2 = r_rsi r, arg3 = r_rdx r, arg4 = r_r10 r, arg5 = r_r8 r, arg6 = r_r9 r \<rparr>"

text \<open>
  The registers are saved on the handler's own stack (\<open>syscall_handler_stack\<close>) and restored from it. That stack is
  apart from the memory of the program: the frame is the argument \<open>r\<close>, and is not written into the machine. \<open>None\<close> for
  the registers means that the program does not go on.
\<close>

definition syscall_handler :: "bytes \<Rightarrow> Regs \<Rightarrow> SysState \<Rightarrow> (Regs option \<times> SysState) kres" where
  "syscall_handler tmp r s = kmap (\<lambda>(e, s). case e of Sys_Return x \<Rightarrow> (Some (r \<lparr> r_rax := x \<rparr>), swapgs s) | Sys_Halt \<Rightarrow> (None, s))
     (SystemCallCtrl_Handler tmp (args_of r) (ucast (r_rax r)) (swapgs s))"

section \<open>Printing with writev\<close>

text \<open>Bytes at an address of a memory, and an array of vectors with what they point to\<close>

definition holds :: "(u64 \<rightharpoonup> u8) \<Rightarrow> u64 \<Rightarrow> bytes \<Rightarrow> bool" where
  "holds M v bs \<longleftrightarrow> (\<forall>k < length bs. M (v + of_nat k) = Some (bs ! k))"

definition iovecs :: "(u64 \<rightharpoonup> u8) \<Rightarrow> u64 \<Rightarrow> (u64 \<times> bytes) list \<Rightarrow> bool" where
  "iovecs M a vs \<longleftrightarrow> (\<forall>i < length vs. holds M (a + of_nat (16 * i)) (le_bytes 8 (unat (fst (vs ! i)))) \<and>
     holds M (a + of_nat (16 * i) + 8) (le_bytes 8 (length (snd (vs ! i)))) \<and> holds M (fst (vs ! i)) (snd (vs ! i)))"

lemma iovecs_mono:
  assumes "iovecs M a vs" and "\<And>w b. M w = Some b \<Longrightarrow> M' w = Some b"
  shows "iovecs M' a vs"
  using assms unfolding iovecs_def holds_def by blast

lemma holds_Cons: "holds M v (b # bs) \<longleftrightarrow> M v = Some b \<and> holds M (v + 1) bs"
proof -
  have s: "v + of_nat (Suc k) = v + 1 + of_nat k" for k by simp
  show ?thesis unfolding holds_def length_Cons All_less_Suc2 nth_Cons_Suc nth_Cons_0 s by simp
qed

lemma vreads_holds: "holds (vread m) v bs \<Longrightarrow> vreads v (length bs) m = Inr bs"
  by (induction bs arbitrary: v) (simp_all add: holds_Cons)

lemma vread64_holds:
  assumes "holds (vread m) v (le_bytes 8 n)"
  shows "vread64 v m = Inr (of_nat n)"
proof -
  have "vreads v 8 m = Inr (le_bytes 8 n)" using vreads_holds [OF assms] by simp
  moreover have "get64 0 (le_bytes 8 n) = of_nat n"
  proof -
    have "get64 0 (le_bytes 8 n) = of_nat (n mod 2 ^ 64)" by (simp add: get64_def bytes_at_def)
    then show ?thesis by (simp add: word_unat_eq_iff unat_of_nat)
  qed
  ultimately show ?thesis by (simp add: vread64_def)
qed

lemma vreads_nth:
  assumes "holds (vread m) v bs" "j < length bs"
  shows "vreads (v + of_nat j) 1 m = Inr [bs ! j]"
  using assms by (simp add: holds_def)

text \<open>Printing changes the terminal only: \<open>adds t s s'\<close> says that \<open>t\<close> comes behind what \<open>s\<close> has printed or will print.\<close>

definition adds :: "bytes \<Rightarrow> SysState \<Rightarrow> SysState \<Rightarrow> bool" where
  "adds t s s' \<longleftrightarrow> (\<exists>tty. s' = s \<lparr> sy_tty := tty \<rparr> \<and> tty_in_order tty \<and> tty_text tty = tty_text (sy_tty s) @ t)"

lemma adds_trans: "adds t s s1 \<Longrightarrow> adds u s1 s2 \<Longrightarrow> adds (t @ u) s s2"
  by (auto simp: adds_def)

lemma adds_none: "tty_in_order (sy_tty s) \<Longrightarrow> adds [] s s"
  unfolding adds_def by (rule exI [of _ "sy_tty s"]) simp

lemma adds_keeps: "adds t s s' \<Longrightarrow> sy_mem s' = sy_mem s \<and> tty_in_order (sy_tty s')"
  by (auto simp: adds_def)

lemma sys_print_char:
  assumes "tty_in_order (sy_tty s)"
  shows "\<exists>s'. sys_print (ascii ''%c'' @ [0]) [Arg_Int (scast c)] s = Inr s' \<and> adds (filter (\<lambda>c. c \<noteq> 0) [c]) s s'"
proof -
  have f: "ascii ''%c'' @ [0] = [37, 99, 0]" by (simp add: ascii_def)
  have "ucast (scast c :: u32) = c" by (rule bit_eqI) (auto simp: bit_simps)
  then have "Vprintf_sub (ascii ''%c'' @ [0]) [Arg_Int (scast c)] = Inr [c]"
    unfolding f by (simp add: parse_spec_def digit_byte_def isdigit_def convert_def take_int_def)
  from Vprintf_adds [OF this assms] show ?thesis by (auto simp: sys_print_def adds_def)
qed

lemma writev_chars_ok:
  assumes "holds (vread (sy_mem s)) iv (le_bytes 8 (unat base))" and "holds (vread (sy_mem s)) base bs" and "length bs \<le> 2 ^ 31" and "set js \<subseteq> {..<length bs}"
    and "tty_in_order (sy_tty s)"
  shows "\<exists>s'. writev_chars iv js rval s = Inr (rval + of_nat (length js), s') \<and> adds (filter (\<lambda>c. c \<noteq> 0) (map ((!) bs) js)) s s'"
  using assms
proof (induction js arbitrary: rval s)
  case Nil
  then show ?case by (simp add: adds_none)
next
  case (Cons j js)
  have j: "j < length bs" using Cons.prems(4) by simp
  obtain s1 where s1: "sys_print (ascii ''%c'' @ [0]) [Arg_Int (scast (bs ! j))] s = Inr s1" "adds (filter (\<lambda>c. c \<noteq> 0) [bs ! j]) s s1"
    using sys_print_char [OF Cons.prems(5)] by blast
  have "writev_chars iv (j # js) rval s = writev_chars iv js (rval + 1) s1"
    using j Cons.prems(3) vread64_holds [OF Cons.prems(1)] vreads_nth [OF Cons.prems(2) j] s1(1) by simp
  moreover obtain s2 where s2: "writev_chars iv js (rval + 1) s1 = Inr (rval + 1 + of_nat (length js), s2)" "adds (filter (\<lambda>c. c \<noteq> 0) (map ((!) bs) js)) s1 s2"
    using Cons.IH [of s1 "rval + 1"] Cons.prems adds_keeps [OF s1(2)] by auto
  ultimately show ?case using adds_trans [OF s1(2) s2(2)] by (auto simp: add.assoc split: if_splits)
qed

lemma writev_vectors_ok:
  assumes "iovecs (vread (sy_mem s)) a vs" and "length vs \<le> 2 ^ 31" and "\<forall>v \<in> set vs. length (snd v) \<le> 2 ^ 31" and "set is \<subseteq> {..<length vs}"
    and "tty_in_order (sy_tty s)"
  shows "\<exists>s'. writev_vectors a is rval s = Inr (rval + of_nat (length (concat (map (\<lambda>i. snd (vs ! i)) is))), s') \<and>
     adds (filter (\<lambda>c. c \<noteq> 0) (concat (map (\<lambda>i. snd (vs ! i)) is))) s s'"
  using assms
proof (induction "is" arbitrary: rval s)
  case Nil
  then show ?case by (simp add: adds_none)
next
  case (Cons i "is")
  let ?b = "snd (vs ! i)" and ?v = "a + of_nat (16 * i)" and ?r = "concat (map (\<lambda>i. snd (vs ! i)) is)"
  have i: "i < length vs" using Cons.prems(4) by simp
  then have h: "holds (vread (sy_mem s)) ?v (le_bytes 8 (unat (fst (vs ! i))))" "holds (vread (sy_mem s)) (?v + 8) (le_bytes 8 (length ?b))"
    "holds (vread (sy_mem s)) (fst (vs ! i)) ?b" using Cons.prems(1) unfolding iovecs_def by blast+
  have l: "length ?b \<le> 2 ^ 31" using Cons.prems(3) i by simp
  then have u: "unat (of_nat (length ?b) :: u64) = length ?b" by (simp add: unat_of_nat)
  have m: "map ((!) ?b) [0..<length ?b] = ?b" by (rule map_nth)
  obtain s1 where s1: "writev_chars ?v [0..<length ?b] rval s = Inr (rval + of_nat (length ?b), s1)" "adds (filter (\<lambda>c. c \<noteq> 0) ?b) s s1"
    using writev_chars_ok [OF h(1,3) l _ Cons.prems(5), of "[0..<length ?b]" rval] unfolding m by (auto simp: atLeast0LessThan)
  have "writev_vectors a (i # is) rval s = writev_vectors a is (rval + of_nat (length ?b)) s1"
    using i Cons.prems(2) vread64_holds [OF h(2)] u s1(1) by simp
  moreover obtain s2 where s2: "writev_vectors a is (rval + of_nat (length ?b)) s1 = Inr (rval + of_nat (length ?b) + of_nat (length ?r), s2)"
      "adds (filter (\<lambda>c. c \<noteq> 0) ?r) s1 s2"
    using Cons.IH [of s1 "rval + of_nat (length ?b)"] Cons.prems adds_keeps [OF s1(2)] by auto
  ultimately show ?case using adds_trans [OF s1(2) s2(2)] by (auto simp: add.assoc)
qed

text \<open>\<open>writev\<close> prints the bytes of all its vectors, apart from zeros, and returns their number.\<close>

lemma writev_prints:
  assumes v: "iovecs (vread (sy_mem s)) (arg2 a) vs" and n: "arg1 a = 1" "arg3 a = of_nat (length vs)" "length vs \<le> 2 ^ 31" "length (concat (map snd vs)) < 2 ^ 31"
    and t: "tty_in_order (sy_tty s)"
  shows "\<exists>tty. sys_writev a s = Inr (Sys_Return (of_nat (length (concat (map snd vs)))), s \<lparr> sy_tty := tty \<rparr>) \<and>
    tty_out tty = tty_text (sy_tty s) @ filter (\<lambda>c. c \<noteq> 0) (concat (map snd vs)) \<and> tty_queue tty = []"
proof -
  let ?n = "length (concat (map snd vs))"
  have l: "length (snd v) \<le> 2 ^ 31" if "v \<in> set vs" for v
  proof -
    have "length (snd v) \<le> sum_list (map length (map snd vs))" using that by (intro member_le_sum_list) auto
    then show ?thesis using n(4) by (simp add: length_concat)
  qed
  have m: "map (\<lambda>i. snd (vs ! i)) [0..<length vs] = map snd vs" using map_nth [of "map snd vs"] by (simp add: map_equality_iff)
  have "sint (arg3 a) = int (length vs)" using n(2,3) by (simp add: signed_of_nat signed_take_bit_int_eq_self)
  then have k: "nat (sint (arg3 a)) = length vs" by simp
  have c: "scast (of_nat ?n :: u32) = (of_nat ?n :: u64)" using n(4) by (simp add: signed_of_nat signed_take_bit_int_eq_self)
  obtain s1 where s1: "writev_vectors (arg2 a) [0..<length vs] 0 s = Inr (of_nat ?n, s1)" "adds (filter (\<lambda>c. c \<noteq> 0) (concat (map snd vs))) s s1"
    using writev_vectors_ok [OF v n(3) _ _ t, of "[0..<length vs]" 0] l unfolding m by (auto simp: atLeast0LessThan)
  then obtain tty1 where tty1: "s1 = s \<lparr> sy_tty := tty1 \<rparr>" "tty_in_order tty1" "tty_text tty1 = tty_text (sy_tty s) @ filter (\<lambda>c. c \<noteq> 0) (concat (map snd vs))"
    by (auto simp: adds_def)
  obtain tty2 where "Tty_Flush tty1 = Inr tty2" "tty_out tty2 = tty_text tty1" "tty_queue tty2 = []" using Flush_prints [OF tty1(2)] by blast
  then show ?thesis using s1(1) tty1(1,3) n(1) k c by (intro exI [of _ tty2]) (simp add: sys_writev_def sys_flush_def)
qed

lemma swapgs_fields [simp]: "sy_mem (swapgs s) = sy_mem s" "sy_tty (swapgs s) = sy_tty s"
  by (simp_all add: swapgs_def wrmsr_def)

lemma swapgs_back: "swapgs (swapgs s \<lparr> sy_tty := t \<rparr>) = s \<lparr> sy_tty := t \<rparr>"
proof -
  have "(sy_msr s)(kIA32KernelGsBase := sy_msr s kIA32GsBase, kIA32GsBase := sy_msr s kIA32KernelGsBase, kIA32KernelGsBase := sy_msr s kIA32KernelGsBase, kIA32GsBase := sy_msr s kIA32GsBase) = sy_msr s"
    by (auto simp: msr_defs)
  then show ?thesis by (simp add: swapgs_def wrmsr_def msr_defs)
qed

text \<open>C8: A program prints its own data. Under the hypotheses of the loading theorem let \<open>ElfObject::Init\<close> have loaded the file, and let the file contain, at the address \<open>a\<close> of the program, an array of
vectors that point to the texts \<open>vs\<close>, fewer than \<open>2^31\<close> bytes in all; let the terminal be in a well-formed state, in which its tasks run or no text waits. When the program then executes a system call with
the number of \<open>writev\<close>, the standard output and the array, the terminal prints, behind the texts that waited, exactly the bytes of the file (apart from zeros), the call returns their number when all has been
printed, and nothing else of the state and of the program's registers has changed.\<close>
theorem loaded_program_writes:
  assumes "machine_ok mem_end m" and "e = ehdr_of (take 64 file)" and "e_type e = 2" and "segments_low file e" and "program_free file e m"
    and "Elf_Init malloc (Elf_LoadMemory (Loader_MapAddr mem_end) file) file m = Inr (kElfOk, obj, m')"
    and "iovecs (elf_image file e) a vs" and "length vs \<le> 2 ^ 31" and "length (concat (map snd vs)) < 2 ^ 31"
    and "sy_mem s = m'" and "tty_in_order (sy_tty s)" and "r_rax r = 20" and "r_rdi r = 1" and "r_rsi r = a" and "r_rdx r = of_nat (length vs)"
  shows "\<exists>tty. syscall_handler tmp r s = Inr (Some (r \<lparr> r_rax := of_nat (length (concat (map snd vs))) \<rparr>), s \<lparr> sy_tty := tty \<rparr>) \<and>
    tty_out tty = tty_text (sy_tty s) @ filter (\<lambda>c. c \<noteq> 0) (concat (map snd vs)) \<and> tty_queue tty = []"
proof -
  have "vread m' w = Some b" if "elf_image file e w = Some b" for w b using hw.Init_loads(1) [OF assms(1-6)] that by (simp add: hw.loading_def)
  then have "iovecs (vread m') a vs" using iovecs_mono [OF assms(7)] by blast
  then obtain tty where tty: "sys_writev (args_of r) (swapgs s) = Inr (Sys_Return (of_nat (length (concat (map snd vs)))), swapgs s \<lparr> sy_tty := tty \<rparr>)"
      "tty_out tty = tty_text (sy_tty s) @ filter (\<lambda>c. c \<noteq> 0) (concat (map snd vs))" "tty_queue tty = []"
    using writev_prints [of "swapgs s" "args_of r" vs] assms(8-15) by (auto simp: args_of_def)
  then show ?thesis using assms(12) by (intro exI [of _ tty]) (simp add: syscall_handler_def SystemCallCtrl_Handler_def swapgs_back)
qed

lemma demo_iovecs: "iovecs (elf_image demo_elf (ehdr_of (take 64 demo_elf))) 0x400000 [(0x400010, [104, 105])]"
proof -
  have h: "holds (elf_image demo_elf (ehdr_of (take 64 demo_elf))) (0x400000 + of_nat n) bs" if "n + length bs \<le> 18" "bytes_at n (length bs) demo_data = bs" for n bs
    unfolding holds_def
  proof (intro allI impI)
    fix k
    assume k: "k < length bs"
    have "bs ! k = bytes_at n (length bs) demo_data ! k" using that(2) by simp
    also have "\<dots> = demo_data ! (n + k)" using that(1) k by (simp add: bytes_at_def)
    finally have "bs ! k = demo_data ! (n + k)" .
    then show "elf_image demo_elf (ehdr_of (take 64 demo_elf)) (0x400000 + of_nat n + of_nat k) = Some (bs ! k)"
      using demo_image [of "n + k"] that(1) k by (simp add: add.assoc)
  qed
  have two: "le_bytes 8 (Suc (Suc 0)) = le_bytes 8 2" by (simp only: numeral_2_eq_2)
  show ?thesis using h [of 0 "le_bytes 8 0x400010"] h [of 8 "le_bytes 8 2"] h [of 16 "[104, 105]"] by (simp add: iovecs_def bytes_at_def demo_data_def two)
qed

definition demo_regs :: "u64 \<Rightarrow> u64 \<Rightarrow> u64 \<Rightarrow> u64 \<Rightarrow> Regs" where
  "demo_regs rax rdi rsi rdx = \<lparr> r_rax = rax, r_rbx = 0, r_rcx = 0x400000, r_rdx = rdx, r_rsi = rsi, r_rdi = rdi, r_rbp = 0, r_rsp = 0x500000, r_r8 = 0, r_r9 = 0, r_r10 = 0, r_r11 = 2,
     r_r12 = 0, r_r13 = 0, r_r14 = 0, r_r15 = 0 \<rparr>"

definition demo_sys :: "Machine \<Rightarrow> SysState" where
  "demo_sys m = SystemCallCtrl_Init 0x200000 0x300000 \<lparr> sy_mem = m, sy_msr = (\<lambda>_. 0), sy_row = 25, sy_col = 80, sy_tty = \<lparr> tty_started = True, tty_pool = 64, tty_queue = [], tty_out = [] \<rparr>, syscall_handler_stack = 0 \<rparr>"

lemma demo_sys_fields [simp]: "sy_mem (demo_sys m) = m" "sy_tty (demo_sys m) = \<lparr> tty_started = True, tty_pool = 64, tty_queue = [], tty_out = [] \<rparr>"
  by (simp_all add: demo_sys_def SystemCallCtrl_Init_def wrmsr_def)

theorem loaded_program_writes_witness:
  "\<exists>obj m' tty. Elf_Init (\<lambda>_ _. Inl Kassert) (Elf_LoadMemory (Loader_MapAddr 0x10000000) demo_elf) demo_elf demo_machine = Inr (kElfOk, obj, m') \<and>
    syscall_handler [] (demo_regs 20 1 0x400000 1) (demo_sys m') = Inr (Some (demo_regs 2 1 0x400000 1), demo_sys m' \<lparr> sy_tty := tty \<rparr>) \<and> tty_out tty = [104, 105]"
proof -
  obtain obj m' where run: "Elf_Init (\<lambda>_ _. Inl Kassert) (Elf_LoadMemory (Loader_MapAddr 0x10000000) demo_elf) demo_elf demo_machine = Inr (kElfOk, obj, m')"
    using demo_run by blast
  have ok: "machine_ok 0x10000000 demo_machine" using boot_paging_inv by (auto simp: machine_ok_def demo_machine_def)
  have t: "e_type (ehdr_of (take 64 demo_elf)) = 2" by (simp add: demo_header)
  have "tty_in_order (sy_tty (demo_sys m'))" "tty_text (sy_tty (demo_sys m')) = []" by (simp_all add: tty_in_order_def tty_ok_def tty_text_def str_buffer_size_def)
  then show ?thesis using run loaded_program_writes [OF ok refl t demo_free run demo_iovecs, of "demo_sys m'" "demo_regs 20 1 0x400000 1" "[]"] by (auto simp: demo_regs_def)
qed

section \<open>Segment bases\<close>

text \<open>C40: A program cannot set its GS base. The entry has exchanged the GS bases of the program and of the kernel when \<open>arch_prctl\<close> writes the register, so that after the return the program has its
old base, and the base that it asked for is the one of the kernel.\<close>
theorem arch_set_gs_wrong_base:
  assumes "r_rax r = 158" and "r_rdi r = 0x1001"
  shows "\<exists>s'. syscall_handler tmp r s = Inr (Some (r \<lparr> r_rax := 0 \<rparr>), s') \<and> sy_msr s' = (sy_msr s)(kIA32KernelGsBase := r_rsi r)"
proof -
  let ?f = "ascii ''sys_arch_prctl code=%llx addr=%llx'' @ [10, 0]" and ?x = "[Arg_Int64 0x1001, Arg_Int64 (r_rsi r)]"
  obtain t where "Vprintf_sub ?f ?x = Inr t"
    by (simp add: ascii_def parse_spec_def digit_byte_def isdigit_def convert_def convert_long_def take_int64_def)
  then obtain tty where "Vprintf ?f ?x (sy_tty s) = Inr tty" using Vprintf_string by blast
  then obtain s1 where s1: "sys_print ?f ?x (swapgs s) = Inr s1" "sy_msr s1 = sy_msr (swapgs s)" by (simp add: sys_print_def)
  have "sy_msr (swapgs (wrmsr kIA32GsBase (r_rsi r) s1)) = (sy_msr s)(kIA32KernelGsBase := r_rsi r)"
    using s1(2) by (auto simp: swapgs_def wrmsr_def msr_defs)
  then show ?thesis using assms s1(1) by (simp add: syscall_handler_def SystemCallCtrl_Handler_def sys_arch_prctl_def args_of_def)
qed

theorem arch_set_gs_wrong_base_witness:
  "\<exists>s'. syscall_handler [] (demo_regs 158 0x1001 0x600000 0) (demo_sys demo_machine) = Inr (Some (demo_regs 0 0x1001 0x600000 0), s') \<and>
    sy_msr s' kIA32GsBase = 0 \<and> sy_msr s' kIA32KernelGsBase = 0x600000"
proof -
  have "sy_msr (demo_sys demo_machine) kIA32GsBase = 0" by (simp add: demo_sys_def SystemCallCtrl_Init_def wrmsr_def msr_defs)
  moreover have "kIA32GsBase \<noteq> kIA32KernelGsBase" by (simp add: msr_defs)
  ultimately show ?thesis using arch_set_gs_wrong_base [of "demo_regs 158 0x1001 0x600000 0" "[]" "demo_sys demo_machine"] by (auto simp: demo_regs_def)
qed

end
