(* ===== verification/Spec2Isabelle.thy ===== *)
theory Spec2Isabelle
  imports Ring_Buffer Linked_Queue Hash_Map Slab_Allocator Phys_Mem Paging Virt_Mem Spin_Lock Smart_Ptr Cpus Task_Run Tty_Print Shell_Cmd Functional_Queue Udp_Ctrl File_System Multiboot Cpu_Setup Exp_Lock Barrier Mkfs_Image Sys_Call
begin

text \<open>
  Verification of the Raph kernel, an operating system kernel in C++ for multi-core x86-64
  machines, and of the tool that makes its disk image. File names are relative to \<open>src/source/kernel\<close>
  unless they start with \<open>source\<close>.

  \<^bold>\<open>The program and the theories.\<close>
  The kernel boots on every processor, takes the physical memory over, builds its page tables,
  and then runs an endless loop of tasks on each processor. Drivers and protocols hand packets
  and events from interrupt handlers to tasks through queues with a callback; a shell starts
  commands; files come from a disk image that the boot loader puts into memory.

  \<^item> \<open>Raph_Prelude\<close>: the machine types, the ways in which the kernel stops (\<open>kfault\<close>), results that
    may stop (\<open>kres\<close>), \<open>align\<close> and \<open>alignUp\<close> of \<open>raph.h\<close>, \<open>Array<T>\<close> of \<open>array.h\<close>, and shared facts on
    words and lists.
  \<^item> Containers. \<open>Fifo\<close> holds the contract of a queue as two locales (\<open>fifo\<close>, and \<open>bounded_fifo\<close> on
    top of it). \<open>Ring_Buffer\<close> (\<open>buf.h\<close>) and \<open>Linked_Queue\<close> (\<open>_queue.h\<close>, \<open>queue.cc\<close>: \<open>Queue\<close>, \<open>Queue2\<close>,
    \<open>IntQueue\<close>) interpret them, the latter on an explicit store of cells. \<open>Hash_Map\<close> (\<open>map.h\<close>)
    interprets the contract \<open>kv_store\<close>. \<open>Object_List\<close> (\<open>list.h\<close>) is the doubly linked list with a lock in
    every container. \<open>Slab_Allocator\<close> (\<open>allocator.h\<close>) hands out objects by bits of a mask. \<open>Smart_Ptr\<close>
    (\<open>ptr.h\<close>) has \<open>sptr\<close>, \<open>wptr\<close> and \<open>uptr\<close> over a heap of counters.
  \<^item> Memory. \<open>Phys_Mem\<close> (\<open>mem/physmem.cc\<close>, \<open>mem/physmem.h\<close>) is the page allocator, \<open>Paging\<close>
    (\<open>mem/paging.cc\<close>, \<open>mem/paging.h\<close>) the four-level page tables. \<open>Paging\<close> takes its pages through the locale
    \<open>page_allocator\<close>, interpreted on \<open>PhysmemCtrl\<close>. \<open>Virt_Mem\<close> (\<open>mem/virtmem.cc\<close>, \<open>mem/kstack.cc\<close>) puts the
    heap and the kernel stacks on top of both.
  \<^item> Start-up. \<open>Multiboot\<close> (\<open>multiboot.cc\<close>, \<open>multiboot.h\<close>) reads the tags of the boot loader, reserves what is not usable memory in
    \<open>PhysmemCtrl\<close>, and finds modules. \<open>Interrupts\<close> (\<open>idt.cc\<close>, \<open>idt.h\<close>) has the interrupt gates, the allocation of vectors and the
    dispatch, \<open>Cpu_Setup\<close> (\<open>gdt.cc\<close>, \<open>gdt.h\<close>) the segments and the interrupt stacks of a processor.
  \<^item> Processors and tasks. \<open>Spin_Lock\<close> (\<open>spinlock.cc\<close>, \<open>semaphore.h\<close>) interleaves the memory accesses of
    any number of processors. \<open>Cpus\<close> (\<open>cpu.h\<close>, \<open>cpu.cc\<close>) assigns processors to purposes. \<open>Timers\<close> (\<open>timer.h\<close>,
    \<open>dev/hpet.cc\<close>) has the clock. \<open>Task_Ctrl\<close> and \<open>Task_Run\<close> (\<open>task.cc\<close>, \<open>task.h\<close>, \<open>_task.h\<close>) are the task queues,
    the callouts and the main loop. \<open>Functional_Queue\<close> (\<open>functional.h\<close>, \<open>queue.h\<close>, \<open>polling.h\<close>) is the hand-over
    of events to tasks, as a step relation.
  \<^item> Benchmarks. \<open>Lock_Interface\<close> has the interface of a spin lock as a record of operations, what it means to exclude and not to get stuck, and the contracts
    \<open>spin_lock\<close>, \<open>waiting_lock\<close> and \<open>queue_lock\<close>. \<open>Bench_Locks\<close>, \<open>Clh_Lock\<close>, \<open>Mcs_Lock\<close> and \<open>Exp_Lock\<close> (\<open>membench/spinlock.h\<close>) interpret them on the locks that the
    benchmarks compare; the two-level lock is proved once for all locks below it. \<open>Barrier\<close> (\<open>membench/sync.h\<close>) is where the processors meet.
  \<^item> Text. \<open>Libc\<close> (\<open>arch/hw/libc\<close>) has strings, memory and numbers, \<open>Tty_Print\<close> (\<open>tty.cc\<close>, \<open>tty.h\<close>) formatted
    output, \<open>Shell_Cmd\<close> (\<open>shell.cc\<close>, \<open>shell.h\<close>) the shell.
  \<^item> Network. \<open>Net_Dev\<close> (\<open>dev/netdev.h\<close>, \<open>dev/netdev.cc\<close>, \<open>dev/eth.h\<close>) has the packet buffers of a device, with what the Intel driver
    does with them (\<open>dev/nic/intel/em/if_em.cc\<close>), and the table of devices, \<open>Net_Checksum\<close> the internet checksum, \<open>Udp_Ctrl\<close> (\<open>udp.cc\<close>, \<open>arp.h\<close>) ARP and UDP.
  \<^item> Files. \<open>Byte_Layout\<close> has little-endian fields in byte arrays. \<open>Storage_Dev\<close> (\<open>dev/storage\<close>) has the storage devices with their contract, the locale \<open>storage\<close>,
    interpreted on the RAM disk. \<open>Vfs\<close> (\<open>fs.cc\<close>, \<open>fs.h\<close>) walks along paths over any file system that meets the
    locale \<open>disk_fs\<close>. \<open>V6_Fs\<close> (\<open>v6fs.cc\<close>, \<open>v6fs.h\<close>) is the file system; a sublocale declaration turns the contract
    of the device into the contract of the file system. \<open>File_System\<close> puts them together up to the
    command \<open>cat\<close> of \<open>main.cc\<close>. \<open>Mkfs\<close> and \<open>Mkfs_Image\<close> (\<open>source/tool/mkfs.c\<close>) are the program that makes the image; their last theorem goes from its arguments to what
    \<open>cat\<close> prints.
  \<^item> Programs. \<open>Loader\<close> (\<open>arch/hw/arch_loader.h\<close>) gives a program its memory; its contract is the locale \<open>loader_interface\<close>, interpreted on the page tables and the physical memory.
    \<open>Elf_Load\<close> (\<open>elf.cc\<close>, \<open>elf.h\<close>, \<open>elfhead.h\<close>) has the two classes of programs and the command \<open>load\<close>, \<open>Sys_Call\<close>
    (\<open>syscall.cc\<close>, \<open>syscall.h\<close>, \<open>syscall_handler.S\<close>) the system calls of a program.

  \<^bold>\<open>State and operations.\<close>
  A class is a record of its members, an enumeration a datatype with the same constructors, a member function
  a function from the old state to a result and the new state. The result is a \<open>kres\<close> where an
  assertion, a panic or an access outside an object can stop the kernel, and \<open>io\<close> where the code returns an
  \<open>IoReturnState\<close>. Integers have their width wherever a value can wrap around or is taken apart bit by
  bit; counters that stay small are natural numbers. Pointers into linked structures are addresses into an
  explicit store, or positions of the list that the links form. A member function that holds its lock
  from the beginning to the end is one step; \<open>Spin_Lock\<close>, the benchmark locks, \<open>Barrier\<close>, \<open>Functional_Queue\<close> and \<open>Object_List\<close> split the code where
  another processor can come in between.

  \<^bold>\<open>What the lemmas show.\<close>
  For each container and allocator: an invariant, that every operation keeps it, and that the structure refines
  a list, a map or a set of disjoint regions under every sequence of operations. For the page tables: mapping a
  page or a range changes the translation of exactly these pages. For locks and hand-over: mutual exclusion,
  no deadlock, no lost wake-up, and that nobody leaves a barrier early. For tasks: the queues refine an abstract scheduler, a turn of the main loop executes every
  waiting task, exactly the due callouts start. For text: a formatted text reaches the terminal complete and in order, numbers are printed so that they can be read back, a
  command line is cut into its words. For the network: frames pass a device unchanged and in order, a datagram is sent as one frame with the right
  lengths and checksums, the server of the receiver faults on it, because it stores through a null pointer that \<open>ReleaseLowMemory\<close> has unmapped, and
  what sizes stay inside the buffers. For start-up: exactly the pages outside of the usable memory
  are reserved, interrupt vectors are exclusive and lead to their callback, interrupt stacks are disjoint. For files: the blocks of a file give its bytes, a path gives its inode, \<open>cat\<close>
  prints the file, and \<open>mkfs\<close> ends, for arguments that fit, with an image in which \<open>cat\<close> finds the first file of every name. For programs: an executable file is
  in memory byte for byte, no other memory has changed, and the program can print its data. Several theorems state precisely where the code does not do what it means to: the
  conditions under which \<open>Reserve\<close> does not end, \<open>Unlock\<close> can be interrupted, \<open>Remove\<close> works on the wrong queue,
  a block in use is allocated, the interrupt table is cut off, the inode that a lookup returns is given away, more bytes are copied than a
  structure has, or a program changes a register of the kernel.

  \<^bold>\<open>Bounds.\<close>
  Loops are recursive functions on the data they walk over or have a measure. The main loop of \<open>Task_Run\<close> and the recursion of \<open>Reserve\<close> in \<open>Multiboot\<close> have fuel, and the theorems
  say how much of it is enough; no other result depends on an amount of fuel. The loop of \<open>iappend\<close> is a partial function, and that it returns is a theorem. Loops that wait for another processor are single turns, and where one processor alone
  would wait for ever the result is \<open>Deadlock\<close>. Hypotheses bound sizes only where the machine does: an image
  on the RAM disk is smaller than 2 GiB because its index is an \<open>int\<close>, an address is below the end of the
  physical memory, a file has at most 140 blocks, the queue locks have nodes for 296 processors, the pool of the terminal has 64 chunks.

  \<^bold>\<open>Not modelled.\<close>
  The heap allocator \<open>mem/dlmalloc.c\<close>, the ACPI library \<open>acpica\<close>, the FreeBSD compatibility layer and the drivers taken
  from FreeBSD (\<open>freebsd\<close>, \<open>dev/nic\<close>, \<open>dev/storage/ahci\<close>) are other projects' code that the kernel calls; of \<open>dev/nic\<close> only the use of the packet buffers is modelled. The boot code and the
  assembly files, \<open>x86.cc\<close>, \<open>apic.cc\<close>, \<open>raph_acpi.cc\<close>, \<open>dev/pci.cc\<close>, \<open>dev/usb\<close>, \<open>dev/8042.cc\<close> and \<open>dev/keyboard.cc\<close> consist of
  accesses to hardware registers whose effect is outside of the program. \<open>dev/framebuffer.cc\<close> and \<open>font.cc\<close> draw pixels. The
  protocol stack in \<open>net\<close> is written against a packet type that no longer exists and is not built. The other commands of
  \<open>main.cc\<close>, \<open>netbench.cc\<close> and the tests of \<open>membench\<close> measure and print; of its locks \<open>HClhSpinLock\<close> is left out, because its nodes are reused while
  another processor can still read them, which the contracts of the other locks do not cover.
  \<open>Loader::Execute\<close> changes the stack and the ring in assembly. \<open>arch/um\<close> runs parts of the kernel on a host. Of the modelled files, output that only informs,
  statistics and the timing of hardware are left out.
\<close>

end
